(* ===== verification/Nemu_Prelude.thy ===== *)
theory Nemu_Prelude
  imports Main "HOL-Library.Word" "HOL-Library.Signed_Division"
begin

unbundle bit_operations_syntax

text \<open>
  What the component theories share: the C integer types as words, the errors of the C code as
  values, the sequencing of fallible steps, the bit-field macros of \<^verbatim>\<open>nemu/include/macro.h\<close>, C strings
  as NUL-terminated character sequences, and the generic lemmas on lists and words that the
  component proofs rest on.
\<close>

section \<open>C types\<close>

type_synonym u8 = "8 word"
type_synonym u16 = "16 word"
type_synonym u32 = "32 word"
type_synonym u64 = "64 word"

text \<open>The guest types of \<^verbatim>\<open>nemu/include/common.h\<close> for a 32-bit ISA with memory below 4 GiB.\<close>

type_synonym word_t = u32
type_synonym vaddr_t = u32
type_synonym paddr_t = u32

section \<open>Errors as values\<close>

text \<open>
  A run of the C code that does not return normally ends in one of these: a failed
  \<^verbatim>\<open>assert\<close>, a \<^verbatim>\<open>panic\<close>/\<^verbatim>\<open>Assert\<close> with its message, or behaviour the C standard leaves undefined
  (out-of-range access of an array, division by zero, signed overflow of a division).
\<close>

datatype c_error =
    Assert_fail
  | Panic string
  | Undef string

type_synonym 'a res = "c_error + 'a"

definition ebind :: "'e + 'a \<Rightarrow> ('a \<Rightarrow> 'e + 'b) \<Rightarrow> 'e + 'b" where
  "ebind m f = (case m of Inl e \<Rightarrow> Inl e | Inr x \<Rightarrow> f x)"

definition echeck :: "bool \<Rightarrow> 'e \<Rightarrow> 'e + unit" where
  "echeck b e = (if b then Inr () else Inl e)"

named_theorems nemu_inv \<open>operations keep the invariant of their component\<close>

lemma ebind_simps [simp]:
  "ebind (Inl e) f = Inl e"
  "ebind (Inr x) f = f x"
  by (simp_all add: ebind_def)

lemma ebind_eq_Inr [simp]: "ebind m f = Inr y \<longleftrightarrow> (\<exists>x. m = Inr x \<and> f x = Inr y)"
  by (cases m) simp_all

lemma ebind_eq_Inl: "ebind m f = Inl e \<longleftrightarrow> m = Inl e \<or> (\<exists>x. m = Inr x \<and> f x = Inl e)"
  by (cases m) simp_all

lemma ebind_assoc: "ebind (ebind m f) g = ebind m (\<lambda>x. ebind (f x) g)"
  by (cases m) simp_all

lemma ebind_cong [fundef_cong]:
  "m = m' \<Longrightarrow> (\<And>x. m' = Inr x \<Longrightarrow> f x = f' x) \<Longrightarrow> ebind m f = ebind m' f'"
  by (cases m') simp_all

lemma echeck_simps [simp]:
  "echeck True e = Inr ()"
  "echeck False e = Inl e"
  "echeck b e = Inr u \<longleftrightarrow> b"
  "echeck b e = Inl e' \<longleftrightarrow> \<not> b \<and> e' = e"
  by (auto simp: echeck_def)

section \<open>Bit fields\<close>

text \<open>
  \<^verbatim>\<open>BITMASK\<close>, \<^verbatim>\<open>BITS\<close> and \<^verbatim>\<open>SEXT\<close> of \<^verbatim>\<open>macro.h\<close>. The masks are \<^verbatim>\<open>1ull\<close> shifts, so a bit field is a 64-bit
  value; \<^verbatim>\<open>SEXT\<close> goes through an \<^verbatim>\<open>int64_t\<close> bit field, which keeps the low bits and extends the sign.
\<close>

definition BITMASK :: "nat \<Rightarrow> u64" where
  "BITMASK bits = push_bit bits 1 - 1"

definition BITS :: "u64 \<Rightarrow> nat \<Rightarrow> nat \<Rightarrow> u64" where
  "BITS x hi lo = drop_bit lo x AND BITMASK (hi - lo + 1)"

definition SEXT :: "u64 \<Rightarrow> nat \<Rightarrow> u64" where
  "SEXT x len = signed_take_bit (len - 1) x"

lemma BITMASK_mask: "BITMASK n = mask n"
  by (simp add: BITMASK_def mask_eq_exp_minus_1 push_bit_eq_mult)

lemma BITS_take_bit: "BITS x hi lo = take_bit (hi - lo + 1) (drop_bit lo x)"
  by (simp add: BITS_def BITMASK_mask take_bit_eq_mask del: Suc_eq_plus1)

lemma bit_BITS: "bit (BITS x hi lo) n \<longleftrightarrow> n < hi - lo + 1 \<and> bit x (lo + n)"
  by (auto simp: BITS_take_bit bit_take_bit_iff bit_drop_bit_eq simp del: Suc_eq_plus1)

lemma BITS_bound: "hi - lo + 1 < 64 \<Longrightarrow> unat (BITS x hi lo) < 2 ^ (hi - lo + 1)"
  unfolding BITS_take_bit by (simp only: unsigned_take_bit_eq take_bit_nat_less_exp)

section \<open>C arithmetic on int\<close>

text \<open>\<^verbatim>\<open>int\<close> operands are 32-bit words read with \<open>sint\<close>; \<open>/\<close> and \<open>%\<close> truncate towards zero.\<close>

abbreviation INT_MIN :: u32 where
  "INT_MIN \<equiv> 0x80000000"

definition c_div_ok :: "u32 \<Rightarrow> u32 \<Rightarrow> bool" where
  "c_div_ok a b \<longleftrightarrow> b \<noteq> 0 \<and> \<not> (a = INT_MIN \<and> b = - 1)"

definition c_sdiv :: "u32 \<Rightarrow> u32 \<Rightarrow> u32" where
  "c_sdiv a b = word_of_int (sint a sdiv sint b)"

definition c_smod :: "u32 \<Rightarrow> u32 \<Rightarrow> u32" where
  "c_smod a b = word_of_int (sint a smod sint b)"

definition c_slt :: "u32 \<Rightarrow> u32 \<Rightarrow> bool" where
  "c_slt a b \<longleftrightarrow> sint a < sint b"

text \<open>The result of an arithmetic operator on \<^verbatim>\<open>int\<close>: outside the range of the type it is undefined.\<close>

definition c_int :: "int \<Rightarrow> u32 res" where
  "c_int v = (if - (2 ^ 31) \<le> v \<and> v < 2 ^ 31 then Inr (word_of_int v) else Inl (Undef ''signed overflow''))"

definition of_bool32 :: "bool \<Rightarrow> u32" where
  "of_bool32 b = (if b then 1 else 0)"

lemma uint_eq_iff [simp]: "uint (x :: 'a :: len word) = uint y \<longleftrightarrow> x = y"
  by (simp add: word_uint_eq_iff)

text \<open>Signed and unsigned readings of a 32-bit word.\<close>

lemma sint_u32: "sint (a :: u32) = uint a - (if uint a < 2 ^ 31 then 0 else 2 ^ 32)"
proof -
  have lt: "uint a < 2 ^ 32" using uint_lt2p [of a] by simp
  have "sint a = (uint a + 2 ^ 31) mod 2 ^ 32 - 2 ^ 31"
    by (simp add: sint_uint signed_take_bit_eq_take_bit_shift take_bit_eq_mod)
  moreover have "(uint a + 2 ^ 31) mod 2 ^ 32 = (if uint a < 2 ^ 31 then uint a + 2 ^ 31 else uint a + 2 ^ 31 - 2 ^ 32)"
    using lt mod_add_self2 [of "uint a - 2 ^ 31" "2 ^ 32"] mod_pos_pos_trivial [of "uint a - 2 ^ 31" "2 ^ 32"]
    by (auto simp: mod_pos_pos_trivial add.commute)
  ultimately show ?thesis by auto
qed

lemma nat_sint_pos: "0 \<le> sint n \<Longrightarrow> nat (sint n) = unat n" for n :: u32
  using uint_lt2p [of n] by (auto simp: sint_u32 split: if_splits)

lemma nat_sint_neg: "sint n < 0 \<Longrightarrow> nat (- sint n) = unat (- n)" for n :: u32
proof -
  assume neg: "sint n < 0"
  then have "n \<noteq> 0" by auto
  then have "uint (- n) = 2 ^ 32 - uint n"
    using uint_sub_if' [of 0 n] uint_ge_0 [of n] uint_0_iff [of n] by (auto split: if_splits)
  moreover have "sint n = uint n - 2 ^ 32" using neg uint_ge_0 [of n] by (auto simp: sint_u32 split: if_splits)
  ultimately show ?thesis by (metis nat_uint_eq minus_diff_eq)
qed

text \<open>Rounding down to a multiple of a power of two, the C idiom \<^verbatim>\<open>x & ~(2^n - 1)\<close>.\<close>

lemma unat_and_not_mask:
  fixes w :: "'a :: len word"
  shows "unat (w AND NOT (mask n)) = unat w div 2 ^ n * 2 ^ n"
proof -
  have "uint (w AND NOT (mask n)) = push_bit n (drop_bit n (uint w))"
    by (rule bit_eqI) (auto simp: bit_uint_iff bit_simps)
  then have "int (unat (w AND NOT (mask n))) = int (unat w div 2 ^ n * 2 ^ n)"
    by (simp add: push_bit_eq_mult drop_bit_eq_div zdiv_int)
  then show ?thesis by linarith
qed

section \<open>Lists\<close>

lemma nth_list_update_if:
  "i < length xs \<Longrightarrow> xs[i := v] ! j = (if j = i then v else xs ! j)"
  by simp

lemma take_Suc_nth: "i < length xs \<Longrightarrow> take (Suc i) xs = take i xs @ [xs ! i]"
  by (simp add: take_Suc_conv_app_nth)

section \<open>Ring indices\<close>

lemma mod_below_twice: "x < 2 * n \<Longrightarrow> x mod n = (if x < n then x else x - n)" for x n :: nat
  by (simp add: le_mod_geq)

lemma ring_count_enq:
  fixes f r n :: nat
  assumes "f < n" "r < n" "(r + n - f) mod n + 1 < n"
  shows "((r + 1) mod n + n - f) mod n = (r + n - f) mod n + 1" "(r + 1) mod n \<noteq> f"
    "(f + (r + n - f) mod n) mod n = r"
  using assms by (auto simp: mod_below_twice split: if_splits)

lemma ring_full:
  fixes f r n :: nat
  assumes "f < n" "r < n" "n \<le> (r + n - f) mod n + 1"
  shows "(r + 1) mod n = f"
  using assms by (auto simp: mod_below_twice split: if_splits)

lemma ring_slot:
  fixes f i r n :: nat
  assumes "f < n" "r < n" "i < (r + n - f) mod n"
  shows "(f + i) mod n \<noteq> r"
  using assms by (auto simp: mod_below_twice split: if_splits)

lemma ring_count_deq:
  fixes f r n :: nat
  assumes "f < n" "r < n" "f \<noteq> r"
  shows "(r + n - f) mod n = Suc ((r + n - (f + 1) mod n) mod n)"
  using assms by (auto simp: mod_below_twice split: if_splits)

lemma ring_shift: "((f + 1) mod n + i) mod n = (f + Suc i) mod n" for f i n :: nat
  by (simp add: mod_add_left_eq)

end
