(* ===== verification/Klib_String.thy ===== *)
theory Klib_String
  imports Nemu_Prelude
begin

text \<open>
  \<^verbatim>\<open>abstract-machine/klib/src/string.c\<close>: the string and memory functions of klib. The store is a map
  from addresses to bytes, so that overlapping arguments read what earlier iterations wrote.
  A loop that walks a C string ends only when it meets a NUL, so those loops are
  \<^theory_text>\<open>partial_function (option)\<close> with \<open>None\<close> for a loop that never ends; loops counted by \<^verbatim>\<open>n\<close> recurse on \<open>n\<close>.
\<close>

type_synonym store = "nat \<Rightarrow> u8"

section \<open>The functions\<close>

partial_function (option) strlen_loop :: "store \<Rightarrow> nat \<Rightarrow> nat \<Rightarrow> nat option" where
  "strlen_loop m s len = (if m (s + len) \<noteq> 0 then strlen_loop m s (len + 1) else Some len)"

definition strlen :: "store \<Rightarrow> nat \<Rightarrow> nat option" where
  "strlen m s = strlen_loop m s 0"

partial_function (option) copy_loop :: "store \<Rightarrow> nat \<Rightarrow> nat \<Rightarrow> nat \<Rightarrow> (store \<times> nat) option" where
  "copy_loop m dst src i =
     (if m (src + i) \<noteq> 0 then copy_loop (m(dst + i := m (src + i))) dst src (i + 1)
      else Some (m, i))"

definition strcpy :: "store \<Rightarrow> nat \<Rightarrow> nat \<Rightarrow> store option" where
  "strcpy m dst src =
     (case copy_loop m dst src 0 of None \<Rightarrow> None | Some (m', i) \<Rightarrow> Some (m'(dst + i := 0)))"

function strncpy_copy :: "store \<Rightarrow> nat \<Rightarrow> nat \<Rightarrow> nat \<Rightarrow> nat \<Rightarrow> store \<times> nat" where
  "strncpy_copy m dst src n i =
     (if i < n \<and> m (src + i) \<noteq> 0
      then strncpy_copy (m(dst + i := m (src + i))) dst src n (i + 1)
      else (m, i))"
  by pat_completeness auto
termination
  by (relation "measure (\<lambda>(m, dst, src, n, i). n - i)") auto

function strncpy_pad :: "store \<Rightarrow> nat \<Rightarrow> nat \<Rightarrow> nat \<Rightarrow> store" where
  "strncpy_pad m dst n i = (if i < n then strncpy_pad (m(dst + i := 0)) dst n (i + 1) else m)"
  by pat_completeness auto
termination
  by (relation "measure (\<lambda>(m, dst, n, i). n - i)") auto

definition strncpy :: "store \<Rightarrow> nat \<Rightarrow> nat \<Rightarrow> nat \<Rightarrow> store" where
  "strncpy m dst src n =
     (case strncpy_copy m dst src n 0 of (m', i) \<Rightarrow> strncpy_pad m' dst n i)"

definition strcat :: "store \<Rightarrow> nat \<Rightarrow> nat \<Rightarrow> store option" where
  "strcat m dst src =
     (case strlen m dst of
        None \<Rightarrow> None
      | Some dst_len \<Rightarrow>
          (case copy_loop m (dst + dst_len) src 0 of
             None \<Rightarrow> None
           | Some (m', i) \<Rightarrow> Some (m'(dst + dst_len + i := 0))))"

partial_function (option) strcmp :: "store \<Rightarrow> nat \<Rightarrow> nat \<Rightarrow> int option" where
  "strcmp m s1 s2 =
     (if m s1 \<noteq> 0 \<and> m s1 = m s2 then strcmp m (s1 + 1) (s2 + 1)
      else Some (uint (m s1) - uint (m s2)))"

fun strncmp_loop :: "store \<Rightarrow> nat \<Rightarrow> nat \<Rightarrow> nat \<Rightarrow> int" where
  "strncmp_loop m s1 s2 0 = uint (m s1) - uint (m s2)"
| "strncmp_loop m s1 s2 (Suc n) =
     (if m s1 \<noteq> 0 \<and> m s1 = m s2 then strncmp_loop m (s1 + 1) (s2 + 1) n
      else uint (m s1) - uint (m s2))"

definition strncmp :: "store \<Rightarrow> nat \<Rightarrow> nat \<Rightarrow> nat \<Rightarrow> int" where
  "strncmp m s1 s2 n = (if n = 0 then 0 else strncmp_loop m s1 s2 n)"

fun memset :: "store \<Rightarrow> nat \<Rightarrow> u32 \<Rightarrow> nat \<Rightarrow> store" where
  "memset m s c 0 = m"
| "memset m s c (Suc n) = memset (m(s := ucast c)) (s + 1) c n"

fun copy_up :: "store \<Rightarrow> nat \<Rightarrow> nat \<Rightarrow> nat \<Rightarrow> store" where
  "copy_up m d s 0 = m"
| "copy_up m d s (Suc n) = copy_up (m(d := m s)) (d + 1) (s + 1) n"

fun copy_down :: "store \<Rightarrow> nat \<Rightarrow> nat \<Rightarrow> nat \<Rightarrow> store" where
  "copy_down m d s 0 = m"
| "copy_down m d s (Suc n) = copy_down (m(d + n := m (s + n))) d s n"

definition memmove :: "store \<Rightarrow> nat \<Rightarrow> nat \<Rightarrow> nat \<Rightarrow> store" where
  "memmove m dst src n = (if dst < src then copy_up m dst src n else copy_down m dst src n)"

definition memcpy :: "store \<Rightarrow> nat \<Rightarrow> nat \<Rightarrow> nat \<Rightarrow> store" where
  "memcpy m out inp n = copy_up m out inp n"

fun memcmp :: "store \<Rightarrow> nat \<Rightarrow> nat \<Rightarrow> nat \<Rightarrow> int" where
  "memcmp m p1 p2 0 = 0"
| "memcmp m p1 p2 (Suc n) =
     (if m p1 \<noteq> m p2 then uint (m p1) - uint (m p2) else memcmp m (p1 + 1) (p2 + 1) n)"

declare strncpy_copy.simps [simp del] strncpy_pad.simps [simp del]

section \<open>C strings in the store\<close>

text \<open>\<open>cstr m s xs\<close>: the bytes \<open>xs\<close>, none of them NUL, followed by a NUL, are at address \<open>s\<close>.\<close>

definition cstr :: "store \<Rightarrow> nat \<Rightarrow> u8 list \<Rightarrow> bool" where
  "cstr m s xs \<longleftrightarrow> (\<forall>i < length xs. m (s + i) = xs ! i \<and> xs ! i \<noteq> 0) \<and> m (s + length xs) = 0"

text \<open>The reference comparison of two byte sequences, up to \<open>n\<close> bytes, with a NUL at their ends.\<close>

fun cmp_spec :: "nat \<Rightarrow> u8 list \<Rightarrow> u8 list \<Rightarrow> int" where
  "cmp_spec 0 xs ys = 0"
| "cmp_spec (Suc n) [] [] = 0"
| "cmp_spec (Suc n) (x # xs) [] = uint x"
| "cmp_spec (Suc n) [] (y # ys) = - uint y"
| "cmp_spec (Suc n) (x # xs) (y # ys) =
     (if x = y then cmp_spec n xs ys else uint x - uint y)"

lemma cstr_Nil [simp]: "cstr m s [] \<longleftrightarrow> m s = 0"
  by (simp add: cstr_def)

lemma cstr_Cons [simp]: "cstr m s (x # xs) \<longleftrightarrow> m s = x \<and> x \<noteq> 0 \<and> cstr m (s + 1) xs"
  by (auto simp: cstr_def nth_Cons split: nat.splits)

lemma cstr_nth: "cstr m s xs \<Longrightarrow> i < length xs \<Longrightarrow> m (s + i) = xs ! i \<and> xs ! i \<noteq> 0"
  by (simp add: cstr_def)

lemma cstr_end: "cstr m s xs \<Longrightarrow> m (s + length xs) = 0"
  by (simp add: cstr_def)

lemma strlen_loop_cstr:
  "cstr m s xs \<Longrightarrow> k \<le> length xs \<Longrightarrow> strlen_loop m s k = Some (length xs)"
proof (induction "length xs - k" arbitrary: k)
  case 0
  then show ?case by (simp add: strlen_loop.simps cstr_def)
next
  case (Suc d)
  then have "strlen_loop m s (k + 1) = Some (length xs)" by simp
  moreover have "m (s + k) \<noteq> 0" using Suc cstr_nth [of m s xs k] by simp
  ultimately show ?case by (simp add: strlen_loop.simps)
qed

lemma strlen_cstr: "cstr m s xs \<Longrightarrow> strlen m s = Some (length xs)"
  by (simp add: strlen_def strlen_loop_cstr)

section \<open>The copying loops\<close>

text \<open>A copy of \<open>k\<close> bytes from \<open>src\<close> to \<open>dst\<close>, everything else unchanged.\<close>

definition copied :: "store \<Rightarrow> nat \<Rightarrow> nat \<Rightarrow> nat \<Rightarrow> store" where
  "copied m dst src k = (\<lambda>a. if dst \<le> a \<and> a < dst + k then m (src + (a - dst)) else m a)"

lemma copied_0 [simp]: "copied m dst src 0 = m"
  by (auto simp: copied_def fun_eq_iff)

lemma copied_Suc: "copied m dst src (Suc k) = (copied m dst src k)(dst + k := m (src + k))"
  by (auto simp: copied_def fun_eq_iff not_less less_Suc_eq)

text \<open>The source bytes not yet copied are intact while the regions do not overlap.\<close>

definition apart :: "nat \<Rightarrow> nat \<Rightarrow> nat \<Rightarrow> bool" where
  "apart dst src n \<longleftrightarrow> dst + n \<le> src \<or> src + n \<le> dst"

lemma copied_source:
  "apart dst src n \<Longrightarrow> k \<le> n \<Longrightarrow> i < n \<Longrightarrow> copied m dst src k (src + i) = m (src + i)"
  by (auto simp: copied_def apart_def)

lemma copy_loop_cstr:
  assumes "cstr m src xs" and "apart dst src (length xs + 1)" and "k \<le> length xs"
  shows "copy_loop (copied m dst src k) dst src k = Some (copied m dst src (length xs), length xs)"
  using assms(3)
proof (induction "length xs - k" arbitrary: k)
  case 0
  then have "k = length xs" by simp
  then show ?case
    using assms(1,2) by (simp add: copy_loop.simps copied_source cstr_end)
next
  case (Suc d)
  then have k: "k < length xs" by simp
  then have src: "copied m dst src k (src + k) = xs ! k" and nz: "xs ! k \<noteq> 0"
    using assms(1,2) cstr_nth [of m src xs k] by (simp_all add: copied_source)
  have "copy_loop (copied m dst src (Suc k)) dst src (Suc k)
      = Some (copied m dst src (length xs), length xs)"
    using Suc k by simp
  moreover have "copied m dst src (Suc k) = (copied m dst src k)(dst + k := xs ! k)"
    using assms(1) k by (simp add: copied_Suc cstr_nth)
  ultimately show ?case using src nz by (simp add: copy_loop.simps)
qed

lemma strncpy_copy_cstr:
  assumes "cstr m src xs" and "apart dst src (max n (length xs + 1))" and "k \<le> min n (length xs)"
  shows "strncpy_copy (copied m dst src k) dst src n k
       = (copied m dst src (min n (length xs)), min n (length xs))"
  using assms(3)
proof (induction "min n (length xs) - k" arbitrary: k)
  case 0
  then have k: "k = min n (length xs)" by simp
  show ?case
  proof (cases "k < n")
    case True
    then have "copied m dst src k (src + k) = 0"
      using assms(1,2) k copied_source [OF assms(2), of k k m] by (simp add: cstr_end)
    then show ?thesis using k by (subst strncpy_copy.simps) simp
  qed (use k in \<open>subst strncpy_copy.simps, simp\<close>)
next
  case (Suc d)
  then have k: "k < n" "k < length xs" by simp_all
  have src: "copied m dst src k (src + k) = xs ! k" and nz: "xs ! k \<noteq> 0"
    using assms(1) copied_source [OF assms(2), of k k m] k cstr_nth [of m src xs k]
    by simp_all
  have "strncpy_copy (copied m dst src (Suc k)) dst src n (Suc k)
      = (copied m dst src (min n (length xs)), min n (length xs))"
    using Suc.hyps k by (intro Suc.hyps(1)) auto
  moreover have "copied m dst src (Suc k) = (copied m dst src k)(dst + k := xs ! k)"
    using assms(1) k by (simp add: copied_Suc cstr_nth)
  ultimately show ?case
    using src nz k by (subst strncpy_copy.simps) simp
qed

lemma strncpy_pad_eq:
  "strncpy_pad m dst n i = (\<lambda>a. if dst + i \<le> a \<and> a < dst + n then 0 else m a)"
proof (induction m dst n i rule: strncpy_pad.induct)
  case (1 m dst n i)
  show ?case
  proof (cases "i < n")
    case True
    then show ?thesis
      using 1 by (subst strncpy_pad.simps) (auto simp: fun_eq_iff fun_upd_def)
  next
    case False
    then show ?thesis by (subst strncpy_pad.simps) (auto simp: fun_eq_iff)
  qed
qed

lemma copy_up_eq:
  "d \<le> s \<or> s + n \<le> d \<Longrightarrow> copy_up m d s n = copied m d s n"
proof (induction n arbitrary: m d s)
  case (Suc n)
  then have "copy_up (m(d := m s)) (d + 1) (s + 1) n = copied (m(d := m s)) (d + 1) (s + 1) n"
    by (intro Suc.IH) auto
  also have "\<dots> = copied m d s (Suc n)"
  proof -
    have "Suc (s + x - Suc d) = s + x - d" if "Suc d \<le> x" for x
      using that by simp
    then show ?thesis
      using Suc.prems by (auto simp: copied_def fun_eq_iff)
  qed
  finally show ?case by simp
qed simp

lemma copy_down_eq:
  "s \<le> d \<Longrightarrow> copy_down m d s n = copied m d s n"
proof (induction n arbitrary: m)
  case (Suc n)
  then have "copy_down (m(d + n := m (s + n))) d s n = copied (m(d + n := m (s + n))) d s n"
    by blast
  also have "\<dots> = copied m d s (Suc n)"
    using Suc.prems by (auto simp: copied_def fun_eq_iff)
  finally show ?case by simp
qed simp

lemma memset_eq:
  "memset m s c n = (\<lambda>a. if s \<le> a \<and> a < s + n then ucast c else m a)"
  by (induction n arbitrary: m s) (auto simp: fun_eq_iff)

section \<open>Comparison loops\<close>

lemma uint_pos: "(x :: u8) \<noteq> 0 \<Longrightarrow> 0 < uint x"
  using uint_ge_0 [of x] by (simp add: less_le uint_0_iff)

lemma strcmp_spec:
  "cstr m s1 xs \<Longrightarrow> cstr m s2 ys
     \<Longrightarrow> strcmp m s1 s2 = Some (cmp_spec (length xs + length ys + 1) xs ys)"
proof (induction xs arbitrary: s1 s2 ys)
  case Nil
  then show ?case by (cases ys) (auto simp: strcmp.simps)
next
  case (Cons x xs)
  have mono: "cmp_spec (Suc k) us vs = cmp_spec k us vs" if "length us + length vs < k" for us vs k
    using that by (induction k us vs rule: cmp_spec.induct) auto
  show ?case
  proof (cases ys)
    case Nil
    with Cons.prems show ?thesis by (auto simp: strcmp.simps [of m s1])
  next
    case ys: (Cons y zs)
    with Cons.prems Cons.IH [of "s1 + 1" "s2 + 1" zs] mono [of xs zs "Suc (length xs + length zs)"]
    show ?thesis by (auto simp: strcmp.simps [of m s1])
  qed
qed

lemma strncmp_loop_spec:
  "cstr m s1 xs \<Longrightarrow> cstr m s2 ys \<Longrightarrow> strncmp_loop m s1 s2 n = cmp_spec (n + 1) xs ys"
proof (induction m s1 s2 n arbitrary: xs ys rule: strncmp_loop.induct)
  case (1 m s1 s2)
  then show ?case by (cases xs; cases ys) auto
next
  case (2 m s1 s2 n)
  show ?case
  proof (cases xs; cases ys)
    fix x xs' y ys'
    assume "xs = x # xs'" "ys = y # ys'"
    with 2 show ?thesis by auto
  qed (use "2.prems" in auto)
qed

lemma cmp_spec_zero_iff:
  "0 \<notin> set xs \<Longrightarrow> 0 \<notin> set ys \<Longrightarrow> (cmp_spec n xs ys = 0) = (take n xs = take n ys)"
  by (induction n xs ys rule: cmp_spec.induct) (auto simp: uint_0_iff)

lemma cstr_nonzero: "cstr m s xs \<Longrightarrow> 0 \<notin> set xs"
  by (induction xs arbitrary: s) auto

lemma memcmp_zero_iff: "memcmp m p1 p2 n = 0 \<longleftrightarrow> (\<forall>i < n. m (p1 + i) = m (p2 + i))"
proof (induction n arbitrary: p1 p2)
  case (Suc n)
  have split: "(\<forall>i < Suc n. m (p1 + i) = m (p2 + i))
      \<longleftrightarrow> m p1 = m p2 \<and> (\<forall>i < n. m (p1 + 1 + i) = m (p2 + 1 + i))"
    by (auto simp: less_Suc_eq_0_disj)
  show ?case
    by (simp only: split memcmp.simps) (simp add: Suc.IH)
qed simp

section \<open>Properties\<close>

text \<open>\<^verbatim>\<open>memmove\<close> copies the \<open>n\<close> source bytes as they were before the call, whatever the overlap
  of the two regions, and leaves every other byte alone.\<close>

lemma memmove_any_overlap:
  "memmove m dst src n
     = (\<lambda>a. if dst \<le> a \<and> a < dst + n then m (src + (a - dst)) else m a)"
  by (auto simp: memmove_def copy_up_eq copy_down_eq copied_def fun_eq_iff)

text \<open>\<^verbatim>\<open>strcpy\<close> of a terminated string into a region apart from it returns, the copy including its
  NUL is at \<open>dst\<close>, and every byte outside the copy is unchanged.\<close>

lemma strcpy_correct:
  assumes "cstr m src xs" and "apart dst src (length xs + 1)"
  shows "\<exists>m'. strcpy m dst src = Some m' \<and> cstr m' dst xs
    \<and> (\<forall>a. a < dst \<or> dst + length xs < a \<longrightarrow> m' a = m a)"
proof (intro exI conjI)
  show "strcpy m dst src = Some ((copied m dst src (length xs))(dst + length xs := 0))"
    using copy_loop_cstr [OF assms, of 0] by (simp add: strcpy_def)
qed (use assms(1) in \<open>auto simp: cstr_def copied_def\<close>)

text \<open>\<^verbatim>\<open>strncpy\<close> writes exactly the \<open>n\<close> bytes at \<open>dst\<close>: the string's first bytes, then NULs up
  to \<open>n\<close> (and no terminator when the string is not shorter than \<open>n\<close>).\<close>

lemma strncpy_correct:
  assumes "cstr m src xs" and "apart dst src (max n (length xs + 1))"
  shows "strncpy m dst src n = (\<lambda>a. if dst \<le> a \<and> a < dst + n
      then (if a - dst < length xs then xs ! (a - dst) else 0) else m a)"
proof -
  have "strncpy m dst src n = strncpy_pad (copied m dst src (min n (length xs))) dst n (min n (length xs))"
    using strncpy_copy_cstr [OF assms, of 0] by (simp add: strncpy_def)
  also have "\<dots> = (\<lambda>a. if dst \<le> a \<and> a < dst + n
      then (if a - dst < length xs then xs ! (a - dst) else 0) else m a)"
    using assms(1) by (auto simp: strncpy_pad_eq copied_def fun_eq_iff cstr_def)
  finally show ?thesis .
qed

text \<open>\<^verbatim>\<open>strcat\<close> of two terminated strings returns and leaves their concatenation, terminated, at
  \<open>dst\<close>, when the room it writes is apart from the source.\<close>

theorem strcat_correct:
  assumes "cstr m dst ys" and "cstr m src xs" and "apart (dst + length ys) src (length xs + 1)"
  shows "\<exists>m'. strcat m dst src = Some m' \<and> cstr m' dst (ys @ xs)"
proof (intro exI conjI)
  let ?d = "dst + length ys"
  show "strcat m dst src = Some ((copied m ?d src (length xs))(?d + length xs := 0))"
    using copy_loop_cstr [OF assms(2,3), of 0] strlen_cstr [OF assms(1)] by (simp add: strcat_def)
  have "m (src + i - length ys) = xs ! (i - length ys) \<and> xs ! (i - length ys) \<noteq> 0"
    if "\<not> i < length ys" "i < length ys + length xs" for i
    using that cstr_nth [OF assms(2), of "i - length ys"] by (auto simp: not_less)
  then show "cstr ((copied m ?d src (length xs))(?d + length xs := 0)) dst (ys @ xs)"
    using assms(1,2) by (auto simp: cstr_def copied_def nth_append)
qed

theorem strcat_correct_witness:
  "\<exists>m'. strcat ((\<lambda>_. 0)(20 := 104, 40 := 105)) 40 20 = Some m' \<and> cstr m' 40 ([105] @ [104])"
  by (rule strcat_correct) (simp_all add: apart_def)

text \<open>\<^verbatim>\<open>strcmp\<close> of two terminated strings returns, and returns 0 exactly when they are equal.\<close>

lemma strcmp_correct:
  assumes "cstr m s1 xs" and "cstr m s2 ys"
  shows "\<exists>d. strcmp m s1 s2 = Some d \<and> (d = 0 \<longleftrightarrow> xs = ys)"
  using strcmp_spec [OF assms] cstr_nonzero [OF assms(1)] cstr_nonzero [OF assms(2)]
  by (simp add: cmp_spec_zero_iff)

text \<open>
  with a positive bound \<open>n\<close> \<^verbatim>\<open>strncmp\<close> compares \<open>n + 1\<close> bytes, not \<open>n\<close>: its loop stops after
  \<open>n\<close> equal bytes and the \<^verbatim>\<open>return\<close> then subtracts the bytes after them. Two strings that agree on
  their first \<open>n\<close> bytes and differ on the next compare unequal.\<close>

lemma strncmp_compares_one_byte_more:
  assumes "cstr m s1 xs" and "cstr m s2 ys" and "0 < n"
  shows "strncmp m s1 s2 n = 0 \<longleftrightarrow> take (n + 1) xs = take (n + 1) ys"
  using assms strncmp_loop_spec [OF assms(1,2), of n] cstr_nonzero [OF assms(1)]
    cstr_nonzero [OF assms(2)]
  by (simp add: strncmp_def cmp_spec_zero_iff)

end
