(* ===== verification/Word_Halves.thy ===== *)
theory Word_Halves
  imports Nemu_Prelude
begin

text \<open>
  Lemmas on words that the 64-bit run-time routines and the memory model share: a 64-bit word as
  two 32-bit halves (the unions \<^verbatim>\<open>dwords\<close> and \<^verbatim>\<open>udwords\<close> of the C code, little endian), shifts read as
  multiplication and division of naturals, and the bit length of a natural number.
\<close>

section \<open>Halves\<close>

definition hi32 :: "u64 \<Rightarrow> u32" where
  "hi32 x = ucast (drop_bit 32 x)"

definition lo32 :: "u64 \<Rightarrow> u32" where
  "lo32 x = ucast x"

definition join32 :: "u32 \<Rightarrow> u32 \<Rightarrow> u64" where
  "join32 h l = push_bit 32 (ucast h) OR ucast l"

lemma unat_drop_bit: "unat (drop_bit n (x :: 'a :: len word)) = unat x div 2 ^ n"
  by (simp only: unsigned_drop_bit_eq) (simp add: drop_bit_eq_div take_bit_nat_eq_self)

lemma unat_take_bit: "unat (take_bit n (x :: 'a :: len word)) = unat x mod 2 ^ n"
  by (simp only: unsigned_take_bit_eq) (simp add: take_bit_eq_mod)

lemma unat_push_bit: "unat (push_bit n (x :: 'a :: len word)) = (unat x * 2 ^ n) mod 2 ^ LENGTH('a)"
  by (simp only: unsigned_push_bit_eq) (simp add: take_bit_eq_mod push_bit_eq_mult)

lemma unat_hi32: "unat (hi32 x) = unat x div 2 ^ 32"
proof -
  have "unat x < 2 ^ 32 * 2 ^ 32"
    using unsigned_less [of x] by simp
  then have "unat x div 2 ^ 32 < 2 ^ 32"
    by (rule less_mult_imp_div_less)
  then show ?thesis
    by (simp add: hi32_def unsigned_ucast_eq take_bit_eq_mod unat_drop_bit)
qed

lemma unat_lo32: "unat (lo32 x) = unat x mod 2 ^ 32"
  by (simp add: lo32_def unsigned_ucast_eq take_bit_eq_mod)

lemma bit_join32: "bit (join32 h l) n \<longleftrightarrow> (if n < 32 then bit l n else n < 64 \<and> bit h (n - 32))"
  by (auto simp: join32_def bit_simps dest: bit_imp_le_length)

lemma bit_hi32: "bit (hi32 x) n \<longleftrightarrow> n < 32 \<and> bit x (n + 32)"
  by (auto simp: hi32_def bit_simps add.commute)

lemma bit_lo32: "bit (lo32 x) n \<longleftrightarrow> n < 32 \<and> bit x n"
  by (auto simp: lo32_def bit_simps)

lemma hi32_join32 [simp]: "hi32 (join32 h l) = h"
  by (rule bit_word_eqI) (simp add: bit_hi32 bit_join32)

lemma lo32_join32 [simp]: "lo32 (join32 h l) = l"
  by (rule bit_word_eqI) (simp add: bit_lo32 bit_join32)

lemma join32_halves [simp]: "join32 (hi32 x) (lo32 x) = x"
  by (rule bit_word_eqI) (auto simp: bit_hi32 bit_lo32 bit_join32)

lemma unat_join32: "unat (join32 h l) = unat h * 2 ^ 32 + unat l"
proof -
  have "unat (join32 h l) = unat (join32 h l) div 2 ^ 32 * 2 ^ 32 + unat (join32 h l) mod 2 ^ 32"
    by simp
  then show ?thesis
    by (simp only: unat_hi32 [symmetric] unat_lo32 [symmetric] hi32_join32 lo32_join32)
qed

lemma unat_halves: "unat x = unat (hi32 x) * 2 ^ 32 + unat (lo32 x)"
  by (metis join32_halves unat_join32)

text \<open>Shifts of a 64-bit value written on its halves, as the C code writes them.\<close>

lemma join32_shl1:
  "join32 (push_bit 1 h OR drop_bit 31 l) (push_bit 1 l OR c) = push_bit 1 (join32 h l) OR ucast c"
  if "unat (c :: u32) < 2"
proof (rule bit_word_eqI)
  fix n assume "n < LENGTH(64)"
  have c: "\<not> bit c k" if "0 < k" for k
  proof -
    have "take_bit 1 c = c"
      using \<open>unat c < 2\<close> unat_take_bit [of 1 c] by (simp only: word_unat_eq_iff) simp
    then show ?thesis using that by (metis bit_take_bit_iff less_one not_less0 gr_implies_not0)
  qed
  consider "n = 0" | "0 < n" "n < 32" | "n = 32" | "32 < n" "n < 64"
    using \<open>n < LENGTH(64)\<close> by fastforce
  then show "bit (join32 (push_bit 1 h OR drop_bit 31 l) (push_bit 1 l OR c)) n
    = bit (push_bit 1 (join32 h l) OR ucast c) n"
  proof cases
    case 4
    moreover have "\<not> bit l (31 + (n - 32))"
      using 4 bit_imp_le_length by fastforce
    ultimately show ?thesis
      using c [of n]
      by (simp only: bit_join32 bit_or_iff bit_push_bit_iff bit_drop_bit_eq comp_apply bit_unsigned_iff)
        (auto simp: Suc_diff_Suc)
  qed (simp_all only: bit_join32 bit_or_iff bit_push_bit_iff bit_drop_bit_eq comp_apply
      bit_unsigned_iff, use c in auto)
qed

lemma hi32_shr:
  assumes "0 < sr" "sr < 32"
  shows "join32 (drop_bit sr (hi32 x)) (push_bit (32 - sr) (hi32 x) OR drop_bit sr (lo32 x))
       = drop_bit sr x"
proof (rule bit_word_eqI)
  fix n assume n: "n < LENGTH(64)"
  consider "n < 32 - sr" | "32 - sr \<le> n" "n < 32" | "32 \<le> n"
    by linarith
  then show "bit (join32 (drop_bit sr (hi32 x)) (push_bit (32 - sr) (hi32 x) OR drop_bit sr (lo32 x))) n
    = bit (drop_bit sr x) n"
  proof cases
    case 1
    then show ?thesis using assms
      by (auto simp: bit_join32 bit_simps bit_hi32 bit_lo32)
  next
    case 2
    then have "n - (32 - sr) + 32 = sr + n" "n - (32 - sr) < 32" using assms by simp_all
    with 2 show ?thesis using assms
      by (simp only: bit_join32 bit_or_iff bit_push_bit_iff bit_drop_bit_eq comp_apply bit_hi32 bit_lo32) auto
  next
    case 3
    then have "sr + (n - 32) + 32 = sr + n" using assms by simp
    with 3 show ?thesis using assms n
      by (auto simp: bit_join32 bit_simps bit_hi32 dest: bit_imp_le_length)
  qed
qed

lemma hi32_shl:
  assumes "0 < j" "j < 32"
  shows "join32 (push_bit j (hi32 x) OR drop_bit (32 - j) (lo32 x)) (push_bit j (lo32 x)) = push_bit j x"
proof (rule bit_word_eqI)
  fix n assume n: "n < LENGTH(64)"
  consider "n < 32" | "32 \<le> n" "n < 32 + j" | "32 + j \<le> n"
    by linarith
  then show "bit (join32 (push_bit j (hi32 x) OR drop_bit (32 - j) (lo32 x)) (push_bit j (lo32 x))) n
    = bit (push_bit j x) n"
  proof cases
    case 2
    then have "32 - j + (n - 32) = n - j" using assms by simp
    with 2 show ?thesis using assms n
      by (simp only: bit_join32 bit_or_iff bit_push_bit_iff bit_drop_bit_eq comp_apply bit_hi32 bit_lo32) auto
  next
    case 3
    then have "n - 32 - j + 32 = n - j" "\<not> 32 - j + (n - 32) < 32" using assms by simp_all
    with 3 show ?thesis using assms n
      by (simp only: bit_join32 bit_or_iff bit_push_bit_iff bit_drop_bit_eq comp_apply bit_hi32 bit_lo32) auto
  qed (use assms n in \<open>simp only: bit_join32 bit_or_iff bit_push_bit_iff bit_drop_bit_eq comp_apply bit_hi32 bit_lo32, auto\<close>)
qed

lemma unat_ucast_u64 [simp]: "unat (ucast (x :: u32) :: u64) = unat x"
  by (simp add: unsigned_ucast_eq take_bit_nat_eq_self less_le_trans [OF unsigned_less])

section \<open>Bit length\<close>

fun blen :: "nat \<Rightarrow> nat" where
  "blen n = (if n = 0 then 0 else Suc (blen (n div 2)))"

declare blen.simps [simp del]

lemma blen_0 [simp]: "blen 0 = 0"
  by (simp add: blen.simps)

lemma blen_le_iff: "blen n \<le> k \<longleftrightarrow> n < 2 ^ k"
proof (induction n arbitrary: k rule: blen.induct)
  case (1 n)
  show ?case
  proof (cases "n = 0 \<or> k = 0")
    case False
    then obtain j where k: "k = Suc j" by (cases k) auto
    have "n div 2 < 2 ^ j \<longleftrightarrow> n < 2 ^ k"
      by (simp add: k less_mult_imp_div_less) linarith
    then show ?thesis
      using False 1 by (simp add: blen.simps [of n] k)
  qed (auto simp: blen.simps [of n])
qed

lemma less_blen_iff: "k < blen n \<longleftrightarrow> 2 ^ k \<le> n"
  using blen_le_iff [of n k] by linarith

lemma blen_pos [simp]: "0 < blen n \<longleftrightarrow> 0 < n"
  using less_blen_iff [of 0 n] by auto

lemma blen_eqI: "2 ^ k \<le> n \<Longrightarrow> n < 2 ^ Suc k \<Longrightarrow> blen n = Suc k"
  using blen_le_iff [of n "Suc k"] less_blen_iff [of k n] by linarith

lemma blen_lower: "0 < n \<Longrightarrow> 2 ^ (blen n - 1) \<le> n"
  using less_blen_iff [of "blen n - 1" n] blen_pos [of n] by linarith

lemma blen_upper: "n < 2 ^ blen n"
  using blen_le_iff [of n "blen n"] by simp

lemma blen_div: "blen (n div 2 ^ k) = blen n - k"
proof (cases "blen n \<le> k")
  case True
  then have "n div 2 ^ k = 0" using blen_le_iff [of n k] by simp
  with True show ?thesis by simp
next
  case False
  then have n: "0 < n" by (metis blen_pos not_le gr0I less_zeroE)
  let ?j = "blen n - 1 - k"
  have "2 ^ k * 2 ^ ?j \<le> n"
    using blen_lower [OF n] False by (simp add: power_add [symmetric])
  then have lo: "2 ^ ?j \<le> n div 2 ^ k"
    by (metis div_le_mono nonzero_mult_div_cancel_left power_not_zero zero_neq_numeral)
  have "Suc ?j + k = blen n" using False by simp
  then have "n < 2 ^ Suc ?j * 2 ^ k"
    using blen_upper [of n] by (simp only: power_add [symmetric])
  then have hi: "n div 2 ^ k < 2 ^ Suc ?j"
    by (rule less_mult_imp_div_less)
  show ?thesis using blen_eqI [OF lo hi] False by linarith
qed

lemma blen_join: "0 < h \<Longrightarrow> l < 2 ^ 32 \<Longrightarrow> blen (h * 2 ^ 32 + l) = blen h + 32"
  using blen_div [of "h * 2 ^ 32 + l" 32] by simp (metis add_diff_cancel_right' blen_pos diff_is_0_eq le_add_diff_inverse2 linorder_le_less_linear not_less0 less_imp_le)

lemma blen_mult_pow: "0 < n \<Longrightarrow> blen (n * 2 ^ k) = blen n + k"
  using blen_div [of "n * 2 ^ k" k] blen_pos [of n] by simp

lemma blen_mono: "m \<le> n \<Longrightarrow> blen m \<le> blen n"
  using blen_le_iff blen_upper le_less_trans by blast

lemma bit_unat: "n < LENGTH('a) \<Longrightarrow> bit (x :: 'a :: len word) n \<longleftrightarrow> odd (unat x div 2 ^ n)"
  using bit_unsigned_iff [where ?'a = nat, of x n] by (simp add: bit_iff_odd [of "unat x"])

lemma word_pow2: "unat (x :: 'a :: len word) = 2 ^ k \<Longrightarrow> k < LENGTH('a) \<Longrightarrow> x = push_bit k 1"
  using unat_push_bit [of k "1 :: 'a word"] by (simp only: word_unat_eq_iff) simp

lemma bit_top: "unat (x :: 'a :: len word) < 2 ^ Suc n \<Longrightarrow> n < LENGTH('a) \<Longrightarrow> bit x n \<longleftrightarrow> 2 ^ n \<le> unat x"
proof -
  assume x: "unat x < 2 ^ Suc n" and n: "n < LENGTH('a)"
  have "unat x div 2 ^ n = (if 2 ^ n \<le> unat x then 1 else 0)"
    using x by (auto intro: div_nat_eqI)
  then show ?thesis by (simp add: bit_unat [OF n])
qed

lemma bit_pow2: "unat (x :: 'a :: len word) = 2 ^ k \<Longrightarrow> k < LENGTH('a) \<Longrightarrow> bit x n \<longleftrightarrow> n = k"
proof -
  assume x: "unat x = 2 ^ k" and k: "k < LENGTH('a)"
  have "x = push_bit k 1"
    using x k by (rule word_pow2)
  then show ?thesis using k by (auto simp: bit_exp_iff)
qed

lemma pow2_exponent: "unat (x :: 'a :: len word) = 2 ^ k \<Longrightarrow> k < LENGTH('a)"
  using unsigned_less [where ?'a = nat, of x] by (simp add: power_strict_increasing_iff)

text \<open>The power-of-two test \<^verbatim>\<open>(x & (x - 1)) == 0\<close>.\<close>

lemma pow2_test:
  fixes x :: "'a :: len word"
  assumes "x \<noteq> 0"
  shows "x AND (x - 1) = 0 \<longleftrightarrow> unat x = 2 ^ (blen (unat x) - 1)"
proof -
  let ?j = "blen (unat x) - 1"
  have pos: "0 < unat x" using assms by (simp add: unat_gt_0)
  have lo: "2 ^ ?j \<le> unat x" and hi: "unat x < 2 ^ Suc ?j"
    using blen_lower [OF pos] blen_upper [of "unat x"] pos blen_pos [of "unat x"] by simp_all
  have j: "?j < LENGTH('a)"
    using blen_le_iff [of "unat x" "LENGTH('a)"] pos unsigned_less [where ?'a = nat, of x]
      blen_pos [of "unat x"]
    by linarith
  have sub: "unat (x - 1) = unat x - 1"
    using pos by (simp add: unat_minus_one unat_gt_0 assms)
  show ?thesis
  proof
    assume "unat x = 2 ^ ?j"
    then have bx: "bit x n \<longleftrightarrow> n = ?j" for n by (rule bit_pow2) (rule j)
    have "\<not> bit (x - 1) ?j"
      using bit_top [of "x - 1" ?j] sub hi j \<open>unat x = 2 ^ ?j\<close> by simp
    then show "x AND (x - 1) = 0" by (intro bit_word_eqI) (auto simp: bit_and_iff bx)
  next
    assume z: "x AND (x - 1) = 0"
    have "bit x ?j" using bit_top [of x ?j] lo hi j by simp
    then have "\<not> bit (x - 1) ?j" using z by (metis bit_0_eq bit_and_iff bot_apply bot_bool_def)
    then show "unat x = 2 ^ ?j" using bit_top [of "x - 1" ?j] sub lo hi j by linarith
  qed
qed

lemma and_pow2_minus1:
  fixes x d :: "'a :: len word"
  assumes "unat d = 2 ^ k" and "k < LENGTH('a)"
  shows "unat (x AND (d - 1)) = unat x mod 2 ^ k"
proof -
  have "d = push_bit k 1"
    using assms by (rule word_pow2)
  then have "d - 1 = mask k"
    by (simp add: mask_eq_exp_minus_1 push_bit_eq_mult)
  then show ?thesis
    using unat_take_bit [of k x] by (simp add: take_bit_eq_mask [symmetric])
qed

end
