(* ===== verification/Klib_Int64.thy ===== *)
theory Klib_Int64
  imports Word_Halves
begin

text \<open>
  \<^verbatim>\<open>abstract-machine/klib/src/int64.c\<close>: 64-bit division, remainder and bit counts for a 32-bit target.
  A \<^verbatim>\<open>udwords\<close> union is its two halves; the C code is followed branch by branch, and
  the theorems say that it computes the quotient, the remainder and the counts.
\<close>

section \<open>Bit counts\<close>

text \<open>
  The compiler builtins \<^verbatim>\<open>__builtin_clz\<close> and \<^verbatim>\<open>__builtin_ctz\<close> by their documented meaning, for a
  non-zero argument: the number of zero bits above the highest and below the lowest set bit.
\<close>

fun leading_zeros :: "nat \<Rightarrow> u32 \<Rightarrow> nat" where
  "leading_zeros 0 x = 0"
| "leading_zeros (Suc n) x = (if bit x n then 0 else Suc (leading_zeros n x))"

fun trailing_zeros :: "nat \<Rightarrow> u32 \<Rightarrow> nat" where
  "trailing_zeros 0 x = 0"
| "trailing_zeros (Suc n) x = (if bit x (31 - n) then 0 else Suc (trailing_zeros n x))"

definition builtin_clz :: "u32 \<Rightarrow> nat" where
  "builtin_clz x = leading_zeros 32 x"

definition builtin_ctz :: "u32 \<Rightarrow> nat" where
  "builtin_ctz x = trailing_zeros 32 x"

definition clzsi2 :: "u32 \<Rightarrow> u32" where
  "clzsi2 a =
    (let x = a;
         t = push_bit 4 (of_bool32 (x AND 0xFFFF0000 = 0));
         x = drop_bit (unat (16 - t)) x;
         r = t;
         t = push_bit 3 (of_bool32 (x AND 0xFF00 = 0));
         x = drop_bit (unat (8 - t)) x;
         r = r + t;
         t = push_bit 2 (of_bool32 (x AND 0xF0 = 0));
         x = drop_bit (unat (4 - t)) x;
         r = r + t;
         t = push_bit 1 (of_bool32 (x AND 0xC = 0));
         x = drop_bit (unat (2 - t)) x;
         r = r + t
     in r + ((2 - x) AND - of_bool32 (x AND 2 = 0)))"

definition ctzsi2 :: "u32 \<Rightarrow> u32" where
  "ctzsi2 a =
    (let x = a;
         t = push_bit 4 (of_bool32 (x AND 0x0000FFFF = 0));
         x = drop_bit (unat t) x;
         r = t;
         t = push_bit 3 (of_bool32 (x AND 0x00FF = 0));
         x = drop_bit (unat t) x;
         r = r + t;
         t = push_bit 2 (of_bool32 (x AND 0x0F = 0));
         x = drop_bit (unat t) x;
         r = r + t;
         t = push_bit 1 (of_bool32 (x AND 0x3 = 0));
         x = drop_bit (unat t) x;
         x = x AND 3;
         r = r + t
     in r + ((2 - drop_bit 1 x) AND - of_bool32 (x AND 1 = 0)))"

definition ctzdi2 :: "u64 \<Rightarrow> u32" where
  "ctzdi2 a =
    (let f = - of_bool32 (lo32 a = 0)
     in ctzsi2 ((hi32 a AND f) OR (lo32 a AND NOT f)) + (f AND 32))"

definition clzdi2 :: "u64 \<Rightarrow> u32" where
  "clzdi2 a =
    (let f = - of_bool32 (hi32 a = 0)
     in clzsi2 ((hi32 a AND NOT f) OR (lo32 a AND f)) + (f AND 32))"

section \<open>Division\<close>

text \<open>
  \<^verbatim>\<open>__udivmoddi4\<close> first handles the special cases (a result, with the remainder stored through
  \<^verbatim>\<open>rem\<close>) or sets up \<^verbatim>\<open>q\<close>, \<^verbatim>\<open>r\<close> and \<^verbatim>\<open>sr\<close> for the shift-subtract loop.
\<close>

datatype udiv_setup =
    Special (quotient: u64) (remainder: u64)
  | Loop (q_high: u32) (q_low: u32) (r_high: u32) (r_low: u32) (shifts: u32)

definition div0 :: c_error where
  "div0 = Undef ''division by zero''"

definition setup_d_low_0 :: "u64 \<Rightarrow> u64 \<Rightarrow> udiv_setup res" where
  "setup_d_low_0 n d =
    (let nh = hi32 n; nl = lo32 n; dh = hi32 d in
     if dh = 0 then Inl div0
     else if nl = 0 then Inr (Special (ucast (nh div dh)) (join32 (nh mod dh) 0))
     else if dh AND (dh - 1) = 0 then
       Inr (Special (ucast (drop_bit (builtin_ctz dh) nh)) (join32 (nh AND (dh - 1)) nl))
     else
       let sr = of_nat (builtin_clz dh) - of_nat (builtin_clz nh) :: u32 in
       if sr > 30 then Inr (Special 0 n)
       else
         let sr = sr + 1; k = unat sr in
         Inr (Loop (push_bit (32 - k) nl) 0
                (drop_bit k nh) (push_bit (32 - k) nh OR drop_bit k nl) sr))"

definition setup_d_high_0 :: "u64 \<Rightarrow> u64 \<Rightarrow> udiv_setup res" where
  "setup_d_high_0 n d =
    (let nh = hi32 n; nl = lo32 n; dl = lo32 d in
     if dl AND (dl - 1) = 0 then
       (if dl = 1 then Inr (Special n (ucast (nl AND (dl - 1))))
        else
          let k = builtin_ctz dl in
          Inr (Special (join32 (drop_bit k nh) (push_bit (32 - k) nh OR drop_bit k nl))
                 (ucast (nl AND (dl - 1)))))
     else
       let sr = 1 + 32 + of_nat (builtin_clz dl) - of_nat (builtin_clz nh) :: u32; k = unat sr in
       if sr = 32 then Inr (Loop nl 0 0 nh sr)
       else if sr < 32 then
         Inr (Loop (push_bit (32 - k) nl) 0
                (drop_bit k nh) (push_bit (32 - k) nh OR drop_bit k nl) sr)
       else
         Inr (Loop (push_bit (64 - k) nh OR drop_bit (k - 32) nl) (push_bit (64 - k) nl)
                0 (drop_bit (k - 32) nh) sr))"

definition setup_d_full :: "u64 \<Rightarrow> u64 \<Rightarrow> udiv_setup res" where
  "setup_d_full n d =
    (let nh = hi32 n; nl = lo32 n; dh = hi32 d;
         sr = of_nat (builtin_clz dh) - of_nat (builtin_clz nh) :: u32 in
     if sr > 31 then Inr (Special 0 n)
     else
       let sr = sr + 1; k = unat sr in
       if sr = 32 then Inr (Loop nl 0 0 nh sr)
       else
         Inr (Loop (push_bit (32 - k) nl) 0
                (drop_bit k nh) (push_bit (32 - k) nh OR drop_bit k nl) sr))"

definition udivmod_setup :: "u64 \<Rightarrow> u64 \<Rightarrow> udiv_setup res" where
  "udivmod_setup n d =
    (if hi32 n = 0 then
       (if hi32 d = 0 then
          (if lo32 d = 0 then Inl div0
           else Inr (Special (ucast (lo32 n div lo32 d)) (ucast (lo32 n mod lo32 d))))
        else Inr (Special 0 (ucast (lo32 n))))
     else if lo32 d = 0 then setup_d_low_0 n d
     else if hi32 d = 0 then setup_d_high_0 n d
     else setup_d_full n d)"

text \<open>One iteration of the loop on \<^verbatim>\<open>q.s.high\<close>, \<^verbatim>\<open>q.s.low\<close>, \<^verbatim>\<open>r.s.high\<close>, \<^verbatim>\<open>r.s.low\<close> and \<^verbatim>\<open>carry\<close>.\<close>

definition udivmod_step ::
  "u64 \<Rightarrow> u32 \<times> u32 \<times> u32 \<times> u32 \<times> u32 \<Rightarrow> u32 \<times> u32 \<times> u32 \<times> u32 \<times> u32" where
  "udivmod_step d = (\<lambda>(qh, ql, rh, rl, carry).
    let rh = push_bit 1 rh OR drop_bit 31 rl;
        rl = push_bit 1 rl OR drop_bit 31 qh;
        qh = push_bit 1 qh OR drop_bit 31 ql;
        ql = push_bit 1 ql OR carry;
        r = join32 rh rl;
        s = signed_drop_bit 63 (d - r - 1);
        carry = ucast (s AND 1);
        r = r - (d AND s)
    in (qh, ql, hi32 r, lo32 r, carry))"

fun udivmod_loop ::
  "u64 \<Rightarrow> nat \<Rightarrow> u32 \<times> u32 \<times> u32 \<times> u32 \<times> u32 \<Rightarrow> u32 \<times> u32 \<times> u32 \<times> u32 \<times> u32" where
  "udivmod_loop d 0 st = st"
| "udivmod_loop d (Suc sr) st = udivmod_loop d sr (udivmod_step d st)"

definition udivmoddi4 :: "u64 \<Rightarrow> u64 \<Rightarrow> (u64 \<times> u64) res" where
  "udivmoddi4 a b =
    ebind (udivmod_setup a b) (\<lambda>st.
      case st of
        Special q r \<Rightarrow> Inr (q, r)
      | Loop qh ql rh rl sr \<Rightarrow>
          (case udivmod_loop b (unat sr) (qh, ql, rh, rl, 0) of
             (qh, ql, rh, rl, carry) \<Rightarrow>
               Inr (push_bit 1 (join32 qh ql) OR ucast carry, join32 rh rl)))"

definition udivdi3 :: "u64 \<Rightarrow> u64 \<Rightarrow> u64 res" where
  "udivdi3 a b = ebind (udivmoddi4 a b) (\<lambda>(q, r). Inr q)"

definition umoddi3 :: "u64 \<Rightarrow> u64 \<Rightarrow> u64 res" where
  "umoddi3 a b = ebind (udivmoddi4 a b) (\<lambda>(q, r). Inr r)"

definition divdi3 :: "u64 \<Rightarrow> u64 \<Rightarrow> u64 res" where
  "divdi3 a b =
    (let s_a = signed_drop_bit 63 a;
         s_b = signed_drop_bit 63 b;
         a = (a XOR s_a) - s_a;
         b = (b XOR s_b) - s_b;
         s_a = s_a XOR s_b
     in ebind (udivmoddi4 a b) (\<lambda>(q, r). Inr ((q XOR s_a) - s_a)))"

definition divmoddi4 :: "u64 \<Rightarrow> u64 \<Rightarrow> (u64 \<times> u64) res" where
  "divmoddi4 a b = ebind (divdi3 a b) (\<lambda>d. Inr (d, a - d * b))"

definition moddi3 :: "u64 \<Rightarrow> u64 \<Rightarrow> u64 res" where
  "moddi3 a b =
    (let s = signed_drop_bit 63 b;
         b = (b XOR s) - s;
         s = signed_drop_bit 63 a;
         a = (a XOR s) - s
     in ebind (udivmoddi4 a b) (\<lambda>(q, r). Inr ((r XOR s) - s)))"

section \<open>Correctness of the bit counts\<close>

lemma leading_zeros_blen: "n \<le> 32 \<Longrightarrow> unat x < 2 ^ n \<Longrightarrow> leading_zeros n x = n - blen (unat x)"
proof (induction n)
  case (Suc n)
  then have bit: "bit x n \<longleftrightarrow> 2 ^ n \<le> unat x" by (intro bit_top) auto
  show ?case
  proof (cases "unat x < 2 ^ n")
    case True
    then show ?thesis using Suc bit blen_le_iff [of "unat x" n] by (simp add: Suc_diff_le)
  next
    case False
    then show ?thesis using Suc.prems bit blen_eqI [of n "unat x"] by simp
  qed
qed simp

lemma builtin_clz_blen: "builtin_clz x = 32 - blen (unat x)"
  unfolding builtin_clz_def by (rule leading_zeros_blen) (use unsigned_less [of x] in simp_all)

lemma trailing_zeros_eq:
  "n \<le> 32 \<Longrightarrow> k < n \<Longrightarrow> bit x (32 - n + k) \<Longrightarrow> (\<And>i. i < k \<Longrightarrow> \<not> bit x (32 - n + i))
     \<Longrightarrow> trailing_zeros n x = k"
proof (induction n arbitrary: k)
  case (Suc n)
  show ?case
  proof (cases k)
    case 0
    then show ?thesis using Suc.prems by simp
  next
    case (Suc j)
    have "\<not> bit x (31 - n)" using Suc.prems(4) [of 0] Suc by simp
    moreover have "trailing_zeros n x = j"
    proof (rule Suc.IH)
      have e: "32 - n + i = 32 - Suc n + Suc i" for i using Suc.prems(1) by simp
      show "bit x (32 - n + j)" using Suc.prems(3) Suc by (simp only: e)
      show "\<not> bit x (32 - n + i)" if "i < j" for i
        using Suc.prems(4) [of "Suc i"] Suc that by (simp only: e) simp
    qed (use Suc.prems Suc in simp_all)
    ultimately show ?thesis using Suc by simp
  qed
qed simp

lemma builtin_ctz_eq:
  "k < 32 \<Longrightarrow> bit x k \<Longrightarrow> (\<And>i. i < k \<Longrightarrow> \<not> bit x i) \<Longrightarrow> builtin_ctz x = k"
  unfolding builtin_ctz_def by (rule trailing_zeros_eq) simp_all

lemma builtin_ctz_pow2: "unat x = 2 ^ k \<Longrightarrow> k < 32 \<Longrightarrow> builtin_ctz x = k"
  by (rule builtin_ctz_eq) (simp_all add: bit_pow2)

section \<open>Correctness of the division loop\<close>

lemma unat_or_low:
  fixes x c :: u64
  assumes "unat c < 2"
  shows "unat (push_bit 1 x OR c) = (2 * unat x) mod 2 ^ 64 + unat c"
proof -
  have z: "push_bit 1 x AND c = 0"
  proof (rule bit_word_eqI)
    fix n assume "n < LENGTH(64)"
    have "take_bit 1 c = c"
      using assms unat_take_bit [of 1 c] by (simp only: word_unat_eq_iff) simp
    then have "bit c n \<Longrightarrow> n = 0" by (metis bit_take_bit_iff less_one)
    then show "bit (push_bit 1 x AND c) n = bit 0 n"
      by (auto simp only: bit_and_iff bit_push_bit_iff) simp_all
  qed
  have "unat (push_bit 1 x OR c) = unat (push_bit 1 x + c)"
    using z by (simp only: disjunctive_add_eq_or)
  also have "\<dots> = (unat (push_bit 1 x) + unat c) mod 2 ^ 64"
    by (simp add: unat_word_ariths)
  also have "unat (push_bit 1 x) = (2 * unat x) mod 2 ^ 64"
    using unat_push_bit [of 1 x] by (simp add: mult.commute)
  also have "((2 * unat x) mod 2 ^ 64 + unat c) mod 2 ^ 64 = (2 * unat x) mod 2 ^ 64 + unat c"
  proof (rule mod_less)
    have "(2 * unat x) mod 2 ^ 64 = 2 * (unat x mod 2 ^ 63)"
      using mult_mod_right [of 2 "unat x" "2 ^ 63"] by simp
    moreover have "unat x mod 2 ^ 63 < 2 ^ 63" by simp
    ultimately show "(2 * unat x) mod 2 ^ 64 + unat c < 2 ^ 64" using assms by simp
  qed
  finally show ?thesis .
qed

lemma top_bit_32: "unat (drop_bit 31 (hi32 q)) = unat q div 2 ^ 63"
  by (simp add: unat_drop_bit unat_hi32 div_mult2_eq [symmetric])

text \<open>The branch-free comparison: the sign of \<^verbatim>\<open>d.all - r.all - 1\<close> tells whether \<open>d \<le> r\<close>.\<close>

lemma sign_compare:
  fixes d r :: u64
  assumes "unat d \<le> unat r + 2 ^ 63" and "unat r < unat d + 2 ^ 63"
  shows "bit (d - r - 1) 63 \<longleftrightarrow> unat d \<le> unat r"
proof (cases "unat d \<le> unat r")
  case True
  have e: "d - r - 1 = 0 - (r - d + 1)" by simp
  have "unat (r - d) = unat r - unat d" using True by (simp add: unat_sub_if')
  moreover have lt: "unat r - unat d + 1 \<le> 2 ^ 63" using assms(2) by simp
  ultimately have rd: "unat (r - d + 1) = unat r - unat d + 1"
    by (simp add: unat_word_ariths)
  then have "r - d + 1 \<noteq> 0" by (metis Suc_eq_plus1 nat.simps(3) unsigned_0)
  then have "unat (d - r - 1) = 2 ^ 64 - (unat r - unat d + 1)"
    unfolding e by (simp only: unat_sub_if' rd) simp
  then have "2 ^ 63 \<le> unat (d - r - 1)" using lt by simp
  then show ?thesis using True bit_top [of "d - r - 1" 63] unsigned_less [of "d - r - 1"] by simp
next
  case False
  then have "unat (d - r) = unat d - unat r" by (simp add: unat_sub_if')
  then have "unat (d - r - 1) = unat d - unat r - 1"
    using False by (simp add: unat_sub_if')
  then show ?thesis
    using False assms(1) bit_top [of "d - r - 1" 63] by simp
qed

lemma signed_drop_bit_63: "signed_drop_bit 63 (x :: u64) = (if bit x 63 then - 1 else 0)"
  by (rule bit_word_eqI) (auto simp: bit_signed_drop_bit_iff Suc_le_eq)

text \<open>One shift-subtract step on natural numbers.\<close>

lemma shift_sub_step:
  fixes M D :: nat
  assumes "0 < D" and r: "r = 2 * (M div 2 mod D) + M mod 2"
  shows "M mod D = (if D \<le> r then r - D else r)"
    and "M div D = 2 * (M div 2 div D) + (if D \<le> r then 1 else 0)"
    and "r < 2 * D"
proof -
  let ?t = "M div 2 div D"
  have "M div 2 = D * ?t + M div 2 mod D" by simp
  then have M: "M = D * (2 * ?t) + r"
    using r mult_div_mod_eq [of 2 M] by (metis add.assoc distrib_left mult.left_commute)
  show lt: "r < 2 * D"
    using assms mod_less_divisor [of D "M div 2"] by linarith
  show "M mod D = (if D \<le> r then r - D else r)"
  proof (cases "D \<le> r")
    case True
    then have "M = D * (2 * ?t + 1) + (r - D)" using M by simp
    then show ?thesis using True lt by (metis mod_less mod_mult_self4 less_diff_conv2 mult_2)
  next
    case False
    then show ?thesis using M by (metis mod_less mod_mult_self4 not_le)
  qed
  show "M div D = 2 * ?t + (if D \<le> r then 1 else 0)"
  proof (cases "D \<le> r")
    case True
    then have "M = D * (2 * ?t + 1) + (r - D)" using M by simp
    then have "M div D = 2 * ?t + 1 + (r - D) div D"
      using \<open>0 < D\<close> by (metis div_mult_self4 less_not_refl add.commute)
    then show ?thesis using True lt by simp
  next
    case False
    then have "M div D = 2 * ?t + r div D"
      using M \<open>0 < D\<close> by (metis div_mult_self4 less_not_refl add.commute)
    then show ?thesis using False by simp
  qed
qed

text \<open>
  The loop invariant: with \<open>s\<close> iterations to go, \<^verbatim>\<open>r\<close> is the remainder and \<^verbatim>\<open>q:carry\<close> the quotient of
  the dividend's bits consumed so far, and the bits not yet consumed are at the top of \<^verbatim>\<open>q\<close>.
\<close>

definition loop_inv :: "nat \<Rightarrow> nat \<Rightarrow> nat \<Rightarrow> u32 \<times> u32 \<times> u32 \<times> u32 \<times> u32 \<Rightarrow> bool" where
  "loop_inv N D s = (\<lambda>(qh, ql, rh, rl, c).
     unat (join32 rh rl) = N div 2 ^ s mod D
     \<and> unat (join32 qh ql) = N mod 2 ^ s * 2 ^ (64 - s) + N div 2 ^ s div D div 2
     \<and> unat c = N div 2 ^ s div D mod 2)"

lemma top_digit:
  fixes N X :: nat
  assumes "s < 64" and "X < 2 ^ (63 - s)"
  shows "(N mod 2 ^ Suc s * 2 ^ (63 - s) + X) div 2 ^ 63 = N div 2 ^ s mod 2"
    and "2 * (N mod 2 ^ Suc s * 2 ^ (63 - s) + X) mod 2 ^ 64 = N mod 2 ^ s * 2 ^ (64 - s) + 2 * X"
proof -
  let ?b = "N div 2 ^ s mod 2" and ?l = "N mod 2 ^ s"
  have N: "N mod 2 ^ Suc s = ?b * 2 ^ s + ?l"
    by (simp add: mod_mult2_eq mult.commute [of 2])
  have e: "(2 :: nat) ^ s * 2 ^ (63 - s) = 2 ^ 63" "(2 :: nat) * 2 ^ (63 - s) = 2 ^ (64 - s)"
    "(2 :: nat) ^ s * 2 ^ (64 - s) = 2 ^ 64"
    using assms(1) by (simp_all add: power_add [symmetric] power_Suc [symmetric] Suc_diff_le del: power_Suc)
  have v: "N mod 2 ^ Suc s * 2 ^ (63 - s) + X = ?b * 2 ^ 63 + (?l * 2 ^ (63 - s) + X)"
    using e(1) by (simp only: N add_mult_distrib mult.assoc add.assoc)
  have "?l + 1 \<le> 2 ^ s" by (simp add: Suc_le_eq)
  then have "(?l + 1) * 2 ^ (63 - s) \<le> 2 ^ s * 2 ^ (63 - s)" by (rule mult_right_mono) simp
  then have low: "?l * 2 ^ (63 - s) + X < 2 ^ 63"
    using assms(2) by (simp only: e(1) add_mult_distrib)
  show "(N mod 2 ^ Suc s * 2 ^ (63 - s) + X) div 2 ^ 63 = ?b"
    unfolding v using low by simp
  have "2 * (N mod 2 ^ Suc s * 2 ^ (63 - s) + X)
      = ?b * 2 ^ 64 + (?l * (2 * 2 ^ (63 - s)) + 2 * X)"
    unfolding v by simp
  then have "2 * (N mod 2 ^ Suc s * 2 ^ (63 - s) + X) = ?b * 2 ^ 64 + (?l * 2 ^ (64 - s) + 2 * X)"
    by (simp only: e(2))
  moreover have "?l * 2 ^ (64 - s) + 2 * X < 2 ^ 64"
    using low by (simp only: e(2) [symmetric]) simp
  ultimately show "2 * (N mod 2 ^ Suc s * 2 ^ (63 - s) + X) mod 2 ^ 64 = ?l * 2 ^ (64 - s) + 2 * X"
    by (simp only: mod_mult_self3 mod_less)
qed

lemma unat_drop31: "unat (drop_bit 31 (x :: u32)) < 2"
  using unsigned_less [where ?'a = nat, of x] by (simp add: unat_drop_bit less_mult_imp_div_less)

lemma loop_inv_step:
  assumes inv: "loop_inv N (unat d) (Suc s) st" and "s < 64" and "N < 2 ^ 64" and "d \<noteq> 0"
    and range: "unat d \<le> 2 ^ 63 \<or> s = 0 \<and> 2 ^ 63 \<le> N"
  shows "loop_inv N (unat d) s (udivmod_step d st)"
proof -
  obtain qh ql rh rl c where st: "st = (qh, ql, rh, rl, c)" by (cases st)
  let ?D = "unat d" and ?M = "N div 2 ^ s"
  let ?t = "?M div 2 div ?D"
  have D: "0 < ?D" using \<open>d \<noteq> 0\<close> by (simp add: unat_gt_0)
  have M2: "N div 2 ^ Suc s = ?M div 2" by (simp add: div_mult2_eq mult.commute [of 2])
  have M: "?M < 2 ^ 64" using \<open>N < 2 ^ 64\<close> by (meson div_le_dividend le_less_trans)
  have r0: "unat (join32 rh rl) = ?M div 2 mod ?D" and c0: "unat c = ?t mod 2"
    and q0: "unat (join32 qh ql) = N mod 2 ^ Suc s * 2 ^ (63 - s) + ?t div 2"
    using inv unfolding loop_inv_def st by (simp_all only: M2 prod.case diff_Suc_Suc) simp_all
  have "?t div 2 \<le> ?M div 2" by (meson div_le_dividend le_trans)
  also have "?M div 2 < 2 ^ (63 - s)"
  proof -
    have "(2 :: nat) ^ (63 - s) * 2 ^ Suc s = 2 ^ 64"
      using \<open>s < 64\<close> by (simp only: power_add [symmetric]) simp
    then have "N < 2 ^ (63 - s) * 2 ^ Suc s" using \<open>N < 2 ^ 64\<close> by (simp only:)
    then show ?thesis unfolding M2 [symmetric] by (rule less_mult_imp_div_less)
  qed
  finally have X: "?t div 2 < 2 ^ (63 - s)" .
  let ?r1 = "join32 (push_bit 1 rh OR drop_bit 31 rl) (push_bit 1 rl OR drop_bit 31 qh)"
  let ?q1 = "join32 (push_bit 1 qh OR drop_bit 31 ql) (push_bit 1 ql OR c)"
  have "?r1 = push_bit 1 (join32 rh rl) OR ucast (drop_bit 31 qh)"
    by (rule join32_shl1) (rule unat_drop31)
  moreover have uc: "unat (ucast (drop_bit 31 qh) :: u64) = ?M mod 2"
    using top_bit_32 [of "join32 qh ql"] top_digit(1) [OF \<open>s < 64\<close> X] q0
    by (simp add: unsigned_ucast_eq take_bit_nat_eq_self_iff del: power_Suc)
  moreover have "?M div 2 mod ?D < 2 ^ 63"
  proof -
    have "?M div 2 < 2 ^ 63" by (rule less_mult_imp_div_less) (use M in simp)
    then show ?thesis using mod_less_eq_dividend [of "?M div 2" ?D] by linarith
  qed
  ultimately have r1: "unat ?r1 = 2 * (?M div 2 mod ?D) + ?M mod 2"
    using unat_or_low [of "ucast (drop_bit 31 qh)" "join32 rh rl"] r0 by simp
  have "?q1 = push_bit 1 (join32 qh ql) OR ucast c"
    by (rule join32_shl1) (simp add: c0)
  moreover have "unat (ucast c :: u64) = ?t mod 2"
    by (simp add: unsigned_ucast_eq c0 take_bit_nat_eq_self less_le_trans [OF mod_less_divisor])
  ultimately have "unat ?q1 = N mod 2 ^ s * 2 ^ (64 - s) + 2 * (?t div 2) + ?t mod 2"
    using unat_or_low [of "ucast c" "join32 qh ql"] top_digit(2) [OF \<open>s < 64\<close> X] q0
    by simp
  then have q1: "unat ?q1 = N mod 2 ^ s * 2 ^ (64 - s) + ?t" by simp
  note step = shift_sub_step [OF D r1]
  have cmp: "bit (d - ?r1 - 1) 63 \<longleftrightarrow> ?D \<le> unat ?r1"
  proof (rule sign_compare)
    show "?D \<le> unat ?r1 + 2 ^ 63" and "unat ?r1 < ?D + 2 ^ 63"
    proof -
      consider "?D \<le> 2 ^ 63" | "s = 0" "2 ^ 63 \<le> N" "2 ^ 63 < ?D" using range by fastforce
      then have "?D \<le> unat ?r1 + 2 ^ 63 \<and> unat ?r1 < ?D + 2 ^ 63"
      proof cases
        case 1
        then show ?thesis using step(3) by linarith
      next
        case 2
        then have "?M div 2 mod ?D = N div 2" using \<open>N < 2 ^ 64\<close> by simp
        then have "unat ?r1 = N" using r1 2 by simp
        moreover have "?D < 2 ^ 64" using unsigned_less [of d] by simp
        ultimately show ?thesis using 2 \<open>N < 2 ^ 64\<close> by simp
      qed
      then show "?D \<le> unat ?r1 + 2 ^ 63" "unat ?r1 < ?D + 2 ^ 63" by simp_all
    qed
  qed
  have "?M div ?D div 2 = ?t" by (simp add: step(2))
  moreover have "udivmod_step d st = (push_bit 1 qh OR drop_bit 31 ql, push_bit 1 ql OR c,
      hi32 (if ?D \<le> unat ?r1 then ?r1 - d else ?r1),
      lo32 (if ?D \<le> unat ?r1 then ?r1 - d else ?r1), if ?D \<le> unat ?r1 then 1 else 0)"
    by (simp only: udivmod_step_def st prod.case Let_def signed_drop_bit_63 cmp) simp
  ultimately show ?thesis
    using q1 step(1,2) by (auto simp: loop_inv_def unat_sub_if' r1)
qed

lemma loop_inv_loop:
  assumes "loop_inv N (unat d) s st" and "s \<le> 64" and "N < 2 ^ 64" and "d \<noteq> 0"
    and "unat d \<le> 2 ^ 63 \<or> s \<le> 1 \<and> 2 ^ 63 \<le> N"
  shows "loop_inv N (unat d) 0 (udivmod_loop d s st)"
  using assms
proof (induction s arbitrary: st)
  case (Suc s)
  have "loop_inv N (unat d) s (udivmod_step d st)"
    by (rule loop_inv_step) (use Suc.prems in auto)
  then show ?case using Suc.IH [of "udivmod_step d st"] Suc.prems by auto
qed simp

section \<open>Correctness of the set-up\<close>

text \<open>
  What the code before the loop establishes: the final result, or \<^verbatim>\<open>q:r\<close> holding the dividend
  shifted by \<^verbatim>\<open>sr\<close> so that the loop invariant holds with \<^verbatim>\<open>sr\<close> iterations to go.
\<close>

definition loop_ready :: "nat \<Rightarrow> nat \<Rightarrow> nat \<Rightarrow> u64 \<Rightarrow> u64 \<Rightarrow> bool" where
  "loop_ready N D s q r \<longleftrightarrow> 0 < s \<and> s < 64 \<and> unat r = N div 2 ^ s \<and> unat q = N mod 2 ^ s * 2 ^ (64 - s)
     \<and> N div 2 ^ s < D \<and> (D \<le> 2 ^ 63 \<or> s = 1 \<and> 2 ^ 63 \<le> N)"

definition setup_ok :: "u64 \<Rightarrow> u64 \<Rightarrow> udiv_setup \<Rightarrow> bool" where
  "setup_ok n d st \<longleftrightarrow> (case st of
      Special q r \<Rightarrow> unat q = unat n div unat d \<and> unat r = unat n mod unat d
    | Loop qh ql rh rl sr \<Rightarrow> loop_ready (unat n) (unat d) (unat sr) (join32 qh ql) (join32 rh rl))"

lemma shift_amount:
  fixes N D :: nat
  assumes "0 < D" "D < 2 ^ 64" "N < 2 ^ 64" "blen D \<le> blen N" and s: "s = blen N - blen D + 1"
  shows "N div 2 ^ s < D" and "D \<le> 2 ^ 63 \<or> s = 1 \<and> 2 ^ 63 \<le> N"
proof -
  have "blen (N div 2 ^ s) \<le> blen D - 1"
    using assms(4) s by (simp only: blen_div)
  then have "N div 2 ^ s < 2 ^ (blen D - 1)" by (simp only: blen_le_iff)
  then show "N div 2 ^ s < D" using blen_lower [OF \<open>0 < D\<close>] by linarith
  have "2 ^ 63 \<le> N \<and> s = 1" if "2 ^ 63 < D"
    using that assms less_blen_iff [of 63 D] less_blen_iff [of 63 N] blen_le_iff [of N 64] by simp
  then show "D \<le> 2 ^ 63 \<or> s = 1 \<and> 2 ^ 63 \<le> N" by fastforce
qed

lemma shifted_q:
  assumes "0 < k" "k < 64"
  shows "unat (push_bit (64 - k) (n :: u64)) = unat n mod 2 ^ k * 2 ^ (64 - k)"
proof -
  have "(2 :: nat) ^ k * 2 ^ (64 - k) = 2 ^ 64" using assms by (simp only: power_add [symmetric]) simp
  then show ?thesis by (simp only: unat_push_bit len_num1 len_bit0 mod_mult_mult2 [symmetric]) simp
qed

lemma shifted_low:
  assumes "0 < k" "k < 32"
  shows "unat (join32 (push_bit (32 - k) (lo32 n)) 0) = unat n mod 2 ^ k * 2 ^ (64 - k)"
proof -
  have e: "(2 :: nat) ^ k * 2 ^ (32 - k) = 2 ^ 32" "(2 :: nat) ^ (32 - k) * 2 ^ 32 = 2 ^ (64 - k)"
    using assms by (simp_all only: power_add [symmetric]) simp_all
  have "unat (lo32 n) mod 2 ^ k = unat n mod 2 ^ k"
    using assms by (simp only: unat_lo32 mod_mod_cancel le_imp_power_dvd less_imp_le)
  moreover have "unat (push_bit (32 - k) (lo32 n)) = unat (lo32 n) mod 2 ^ k * 2 ^ (32 - k)"
    by (simp only: unat_push_bit len_num1 len_bit0 e(1) [symmetric] mod_mult_mult2 [symmetric]) (simp add: e)
  ultimately show ?thesis
    by (simp only: unat_join32 unsigned_0 add_0_right mult.assoc e(2))
qed

lemma clz_difference:
  fixes x y :: u32
  assumes "x \<noteq> 0" "y \<noteq> 0"
  shows "blen (unat x) \<le> blen (unat y) \<Longrightarrow>
      unat (of_nat (builtin_clz x) - of_nat (builtin_clz y) :: u32) = blen (unat y) - blen (unat x)"
    and "\<not> blen (unat x) \<le> blen (unat y) \<Longrightarrow>
      31 < unat (of_nat (builtin_clz x) - of_nat (builtin_clz y) :: u32)"
proof -
  have b: "blen (unat z) \<le> 32" for z :: u32
    using blen_le_iff [of "unat z" 32] unsigned_less [where ?'a = nat, of z] by simp
  have u: "unat (of_nat (32 - k) :: u32) = 32 - k" for k
    by (simp add: unsigned_of_nat take_bit_nat_eq_self)
  show "blen (unat x) \<le> blen (unat y) \<Longrightarrow>
      unat (of_nat (builtin_clz x) - of_nat (builtin_clz y) :: u32) = blen (unat y) - blen (unat x)"
    using b [of x] b [of y] by (simp only: unat_sub_if' builtin_clz_blen u) simp
  show "\<not> blen (unat x) \<le> blen (unat y) \<Longrightarrow>
      31 < unat (of_nat (builtin_clz x) - of_nat (builtin_clz y) :: u32)"
    using b [of x] b [of y] by (simp only: unat_sub_if' builtin_clz_blen u) auto
qed

lemma unat_div_mod_halves:
  assumes "unat d = unat dh * 2 ^ 32" "dh \<noteq> (0 :: u32)"
  shows "unat n div unat d = unat (hi32 n) div unat dh"
    and "unat n mod unat d = unat (hi32 n) mod unat dh * 2 ^ 32 + unat (lo32 n)"
  using assms(1) by (simp_all only: mult.commute [of _ "2 ^ 32"] div_mult2_eq mod_mult2_eq unat_hi32 unat_lo32)

lemma less_d_special:
  "unat n < unat d \<Longrightarrow> setup_ok n d (Special 0 n)"
  by (simp add: setup_ok_def)

lemma loop_readyI:
  fixes n d :: u64
  assumes "s = blen (unat n) - blen (unat d) + 1" and "blen (unat d) \<le> blen (unat n)" and "d \<noteq> 0"
    and "s < 64" and "unat r = unat n div 2 ^ s" and "unat q = unat n mod 2 ^ s * 2 ^ (64 - s)"
  shows "loop_ready (unat n) (unat d) s q r"
proof -
  have "0 < unat d" "unat d < 2 ^ 64" "unat n < 2 ^ 64"
    using \<open>d \<noteq> 0\<close> unsigned_less [where ?'a = nat, of n] unsigned_less [where ?'a = nat, of d]
    by (simp_all add: unat_gt_0)
  from shift_amount [OF this assms(2,1)] show ?thesis
    unfolding loop_ready_def using assms by (intro conjI) simp_all
qed

lemma loop_ready_shift:
  fixes n d :: u64
  assumes "k < 32" and "k = blen (unat n) - blen (unat d) + 1"
    and "blen (unat d) \<le> blen (unat n)" and "d \<noteq> 0"
  shows "loop_ready (unat n) (unat d) k (join32 (push_bit (32 - k) (lo32 n)) 0)
     (join32 (drop_bit k (hi32 n)) (push_bit (32 - k) (hi32 n) OR drop_bit k (lo32 n)))"
proof -
  have k: "0 < k" using assms(2) by simp
  show ?thesis
    by (rule loop_readyI [OF assms(2-4)])
      (use assms(1) in \<open>simp_all only: hi32_shr [OF k] shifted_low [OF k] unat_drop_bit\<close>)
qed

lemma loop_ready_32:
  fixes n d :: u64
  assumes "32 = blen (unat n) - blen (unat d) + 1" and "blen (unat d) \<le> blen (unat n)" and "d \<noteq> 0"
  shows "loop_ready (unat n) (unat d) 32 (join32 (lo32 n) 0) (join32 0 (hi32 n))"
  by (rule loop_readyI [OF assms]) (simp_all add: unat_join32 unat_hi32 unat_lo32)

lemma blen_hi: "hi32 x \<noteq> 0 \<Longrightarrow> blen (unat x) = blen (unat (hi32 x)) + 32"
  using blen_join [of "unat (hi32 x)" "unat (lo32 x)"] unat_halves [of x]
    unsigned_less [where ?'a = nat, of "lo32 x"]
  by (simp add: unat_gt_0)

lemma setup_d_low_0_ok:
  assumes "hi32 n \<noteq> 0" and "lo32 d = 0" and "d \<noteq> 0"
  shows "\<exists>st. setup_d_low_0 n d = Inr st \<and> setup_ok n d st"
proof -
  let ?nh = "hi32 n" and ?nl = "lo32 n" and ?dh = "hi32 d"
  have D: "unat d = unat ?dh * 2 ^ 32" using assms(2) unat_halves [of d] by simp
  have dh: "?dh \<noteq> 0" using assms D by (metis mult_zero_left unsigned_0 unsigned_eq_0_iff)
  note halves = unat_div_mod_halves [OF D dh]
  let ?sr = "of_nat (builtin_clz ?dh) - of_nat (builtin_clz ?nh) :: u32"
  consider "?nl = 0"
    | "?nl \<noteq> 0" "?dh AND (?dh - 1) = 0"
    | "?nl \<noteq> 0" "?dh AND (?dh - 1) \<noteq> 0" "\<not> blen (unat ?dh) \<le> blen (unat ?nh)"
    | "?nl \<noteq> 0" "?dh AND (?dh - 1) \<noteq> 0" "blen (unat ?dh) \<le> blen (unat ?nh)"
    by blast
  then show ?thesis
  proof cases
    case 1
    then show ?thesis
      using dh by (simp add: setup_d_low_0_def Let_def setup_ok_def halves unat_join32 unat_div unat_mod)
  next
    case 2
    obtain k where p: "unat ?dh = 2 ^ k" using 2 pow2_test [OF dh] by blast
    have k: "k < 32" using pow2_exponent [OF p] by simp
    show ?thesis
      using 2 dh builtin_ctz_pow2 [OF p k] and_pow2_minus1 [OF p, of ?nh] k halves
      by (simp add: setup_d_low_0_def Let_def setup_ok_def unat_join32 unat_drop_bit p)
  next
    case 3
    then have "unat ?nh < unat ?dh" using blen_mono not_le_imp_less by blast
    then have "unat n < unat d"
      using unat_halves [of n] D unsigned_less [where ?'a = nat, of ?nl] by simp
    moreover have "30 < ?sr"
      using clz_difference(2) [OF dh assms(1) 3(3)] by (simp add: word_less_nat_alt)
    ultimately show ?thesis
      using 3 dh less_d_special by (simp add: setup_d_low_0_def Let_def)
  next
    case 4
    let ?j = "blen (unat ?nh) - blen (unat ?dh)"
    have sr: "unat ?sr = ?j" using clz_difference(1) [OF dh assms(1) 4(3)] .
    have "unat ?dh \<noteq> 1" using 4(2) pow2_test [OF dh] by (auto simp: blen.simps)
    then have "2 ^ 1 \<le> unat ?dh" using dh unat_gt_0 [of "hi32 d"] by simp
    then have "1 < blen (unat ?dh)" by (simp only: less_blen_iff)
    moreover have "blen (unat ?nh) \<le> 32"
      using blen_le_iff [of "unat ?nh" 32] unsigned_less [where ?'a = nat, of ?nh] by simp
    ultimately have j: "?j \<le> 30" by simp
    then have sr1: "unat (?sr + 1) = ?j + 1" using sr by (simp add: unat_word_ariths)
    have "loop_ready (unat n) (unat d) (?j + 1) (join32 (push_bit (32 - (?j + 1)) ?nl) 0)
       (join32 (drop_bit (?j + 1) ?nh) (push_bit (32 - (?j + 1)) ?nh OR drop_bit (?j + 1) ?nl))"
      by (rule loop_ready_shift) (use j 4 dh assms blen_hi in auto)
    moreover have "\<not> 30 < ?sr" using sr j by (simp add: word_less_nat_alt)
    ultimately show ?thesis
      using 4 dh sr1 by (simp add: setup_d_low_0_def Let_def setup_ok_def)
  qed
qed

lemma setup_d_high_0_ok:
  assumes "hi32 n \<noteq> 0" and "hi32 d = 0" and "lo32 d \<noteq> 0"
  shows "\<exists>st. setup_d_high_0 n d = Inr st \<and> setup_ok n d st"
proof -
  let ?nh = "hi32 n" and ?nl = "lo32 n" and ?dl = "lo32 d"
  have D: "unat d = unat ?dl" using assms(2) unat_halves [of d] by simp
  have d: "d \<noteq> 0" using assms(3) by (auto simp: lo32_def)
  show ?thesis
  proof (cases "?dl AND (?dl - 1) = 0")
    case True
    then obtain k where p: "unat ?dl = 2 ^ k" using pow2_test [OF assms(3)] by blast
    have k: "k < 32" using pow2_exponent [OF p] by simp
    have "unat ?nl mod 2 ^ k = unat n mod 2 ^ k"
      using k by (simp only: unat_lo32 mod_mod_cancel le_imp_power_dvd less_imp_le)
    then have r: "unat (ucast (?nl AND (?dl - 1)) :: u64) = unat n mod unat d"
      using and_pow2_minus1 [OF p, of ?nl] k D p by simp
    show ?thesis
    proof (cases "?dl = 1")
      case one: True
      then show ?thesis
        using True r D by (simp add: setup_d_high_0_def Let_def setup_ok_def)
    next
      case False
      then have "0 < k" using p by (cases k) (auto simp: word_unat_eq_iff)
      from hi32_shr [OF this k, of n] show ?thesis
        using True False r D p builtin_ctz_pow2 [OF p k]
        by (simp add: setup_d_high_0_def Let_def setup_ok_def unat_drop_bit)
    qed
  next
    case False
    let ?a = "blen (unat ?nh)" and ?b = "blen (unat ?dl)"
    let ?sr = "1 + 32 + of_nat (builtin_clz ?dl) - of_nat (builtin_clz ?nh) :: u32"
    have b32: "blen (unat z) \<le> 32" for z :: u32
      using blen_le_iff [of "unat z" 32] unsigned_less [where ?'a = nat, of z] by simp
    have pos: "0 < ?a" "0 < ?b" using assms by (simp_all add: unat_gt_0)
    have "unat ?dl \<noteq> 1" using False pow2_test [OF assms(3)] by (auto simp: blen.simps)
    then have "2 ^ 1 \<le> unat ?dl" using assms(3) unat_gt_0 [of "lo32 d"] by simp
    then have "1 < ?b" by (simp only: less_blen_iff)
    define k where "k = ?a + 32 - ?b + 1"
    have k: "k = blen (unat n) - blen (unat d) + 1" "blen (unat d) \<le> blen (unat n)" "k < 64" "0 < k"
      using blen_hi [OF assms(1)] D b32 [of ?dl] b32 [of ?nh] pos \<open>1 < ?b\<close> by (simp_all add: k_def)
    have "?sr = of_nat (33 + (32 - ?b)) - of_nat (32 - ?a)"
      by (simp add: builtin_clz_blen)
    also have "\<dots> = of_nat k"
      using b32 [of ?dl] b32 [of ?nh] by (subst of_nat_diff [symmetric]) (auto simp: k_def)
    finally have sr: "?sr = of_nat k" .
    then have usr: "unat ?sr = k" using k(3) by (simp add: unsigned_of_nat take_bit_nat_eq_self)
    have cmp32: "v \<noteq> 32 \<and> (v < 32 \<longleftrightarrow> unat v < 32)" if "unat v \<noteq> 32" for v :: u32
      using that by (auto simp: word_less_nat_alt)
    consider "k = 32" | "k < 32" | "32 < k" by linarith
    then show ?thesis
    proof cases
      case 1
      have "loop_ready (unat n) (unat d) 32 (join32 ?nl 0) (join32 0 ?nh)"
        by (rule loop_ready_32) (use 1 k d in simp_all)
      moreover have e: "?sr = 32" using sr 1 by simp
      have "setup_d_high_0 n d = Inr (Loop ?nl 0 0 ?nh 32)"
        by (simp only: setup_d_high_0_def Let_def False e simp_thms if_False if_True)
      ultimately show ?thesis by (simp add: setup_ok_def)
    next
      case 2
      have "loop_ready (unat n) (unat d) k (join32 (push_bit (32 - k) ?nl) 0)
         (join32 (drop_bit k ?nh) (push_bit (32 - k) ?nh OR drop_bit k ?nl))"
        by (rule loop_ready_shift [OF 2 k(1,2) d])
      moreover have "?sr \<noteq> 32" "?sr < 32"
        using cmp32 [of ?sr] usr 2 by simp_all
      ultimately show ?thesis
        using False usr by (simp add: setup_d_high_0_def Let_def setup_ok_def)
    next
      case 3
      let ?j = "64 - k"
      have j: "0 < ?j" "?j < 32" "32 - ?j = k - 32" using 3 k(3) by simp_all
      have "loop_ready (unat n) (unat d) k (join32 (push_bit ?j ?nh OR drop_bit (k - 32) ?nl) (push_bit ?j ?nl))
          (join32 0 (drop_bit (k - 32) ?nh))"
      proof (rule loop_readyI [OF k(1,2) d k(3)])
        have "(2 :: nat) ^ 32 * 2 ^ (k - 32) = 2 ^ k" using 3 by (simp only: power_add [symmetric]) simp
        then show "unat (join32 0 (drop_bit (k - 32) ?nh)) = unat n div 2 ^ k"
          by (simp only: unat_join32 unat_drop_bit unat_hi32 div_mult2_eq [symmetric]) simp
        show "unat (join32 (push_bit ?j ?nh OR drop_bit (k - 32) ?nl) (push_bit ?j ?nl))
            = unat n mod 2 ^ k * 2 ^ (64 - k)"
          using hi32_shl [OF j(1,2), of n] shifted_q [OF k(4,3), of n] by (simp only: j(3))
      qed
      moreover have "?sr \<noteq> 32" "\<not> ?sr < 32"
        using cmp32 [of ?sr] usr 3 by simp_all
      ultimately show ?thesis
        using False usr by (simp add: setup_d_high_0_def Let_def setup_ok_def)
    qed
  qed
qed

lemma setup_d_full_ok:
  assumes "hi32 n \<noteq> 0" and "hi32 d \<noteq> 0"
  shows "\<exists>st. setup_d_full n d = Inr st \<and> setup_ok n d st"
proof -
  let ?nh = "hi32 n" and ?nl = "lo32 n" and ?dh = "hi32 d"
  let ?sr = "of_nat (builtin_clz ?dh) - of_nat (builtin_clz ?nh) :: u32"
  have d: "d \<noteq> 0" using assms(2) by (auto simp: hi32_def)
  show ?thesis
  proof (cases "blen (unat ?dh) \<le> blen (unat ?nh)")
    case False
    then have "unat n < unat d"
      using blen_hi [OF assms(1)] blen_hi [OF assms(2)] blen_mono [of "unat d" "unat n"] by linarith
    moreover have "31 < ?sr"
      using clz_difference(2) [OF assms(2,1) False] by (simp add: word_less_nat_alt)
    ultimately show ?thesis using less_d_special by (simp add: setup_d_full_def Let_def)
  next
    case True
    let ?j = "blen (unat ?nh) - blen (unat ?dh)"
    have sr: "unat ?sr = ?j" using clz_difference(1) [OF assms(2,1) True] .
    have "blen (unat ?nh) \<le> 32"
      using blen_le_iff [of "unat ?nh" 32] unsigned_less [where ?'a = nat, of ?nh] by simp
    moreover have "0 < blen (unat ?dh)" using assms(2) by (simp add: unat_gt_0)
    ultimately have j: "?j \<le> 31" by linarith
    then have sr1: "unat (?sr + 1) = ?j + 1" using sr by (simp add: unat_word_ariths)
    have s: "?j + 1 = blen (unat n) - blen (unat d) + 1" "blen (unat d) \<le> blen (unat n)"
      using blen_hi assms True by simp_all
    have n31: "\<not> 31 < ?sr" using sr j by (simp add: word_less_nat_alt)
    have e32: "?sr + 1 = 32 \<longleftrightarrow> ?j + 1 = 32"
      using sr1 by (simp add: word_unat_eq_iff [of _ "32 :: u32"])
    show ?thesis
    proof (cases "?j + 1 = 32")
      case eq: True
      then have "loop_ready (unat n) (unat d) 32 (join32 ?nl 0) (join32 0 ?nh)"
        by (intro loop_ready_32 d s(2)) (use s(1) in simp)
      then show ?thesis
        using n31 e32 eq by (simp add: setup_d_full_def Let_def setup_ok_def)
    next
      case ne: False
      have "loop_ready (unat n) (unat d) (?j + 1) (join32 (push_bit (32 - (?j + 1)) ?nl) 0)
         (join32 (drop_bit (?j + 1) ?nh) (push_bit (32 - (?j + 1)) ?nh OR drop_bit (?j + 1) ?nl))"
        by (rule loop_ready_shift [OF _ s d]) (use j ne in simp)
      then show ?thesis
        using n31 e32 ne sr1 by (simp add: setup_d_full_def Let_def setup_ok_def)
    qed
  qed
qed

lemma udivmod_setup_ok:
  assumes "d \<noteq> 0"
  shows "\<exists>st. udivmod_setup n d = Inr st \<and> setup_ok n d st"
proof (cases "hi32 n = 0")
  case True
  then have n: "unat n = unat (lo32 n)" using unat_halves [of n] by simp
  show ?thesis
  proof (cases "hi32 d = 0")
    case hd: True
    then have D: "unat d = unat (lo32 d)" using unat_halves [of d] by simp
    then have "lo32 d \<noteq> 0" using assms by (metis unsigned_0 unsigned_eq_0_iff)
    then show ?thesis
      using True hd n D by (simp add: udivmod_setup_def setup_ok_def unat_div unat_mod)
  next
    case False
    then have "unat n < unat d"
      using n unat_halves [of d] unsigned_less [where ?'a = nat, of "lo32 n"] unat_gt_0 [of "hi32 d"]
      by simp
    then show ?thesis using True False n by (simp add: udivmod_setup_def setup_ok_def)
  qed
next
  case False
  then show ?thesis
    using assms setup_d_low_0_ok [OF False] setup_d_high_0_ok [OF False] setup_d_full_ok [OF False]
    by (simp add: udivmod_setup_def)
qed

lemma udivmoddi4_div_mod:
  assumes "b \<noteq> 0"
  shows "udivmoddi4 a b = Inr (a div b, a mod b)"
proof -
  obtain st where st: "udivmod_setup a b = Inr st" "setup_ok a b st"
    using udivmod_setup_ok [OF assms] by blast
  show ?thesis
  proof (cases st)
    case (Special q r)
    then show ?thesis
      using st by (simp add: udivmoddi4_def setup_ok_def word_unat_eq_iff unat_div unat_mod)
  next
    case (Loop qh ql rh rl sr)
    let ?N = "unat a" and ?D = "unat b" and ?s = "unat sr"
    have N: "?N < 2 ^ 64" using unsigned_less [where ?'a = nat, of a] by simp
    have ready: "loop_ready ?N ?D ?s (join32 qh ql) (join32 rh rl)"
      using st(2) Loop by (simp add: setup_ok_def)
    then have "loop_inv ?N ?D ?s (qh, ql, rh, rl, 0)"
      by (simp add: loop_ready_def loop_inv_def)
    moreover have "?s \<le> 64" "?D \<le> 2 ^ 63 \<or> ?s \<le> 1 \<and> 2 ^ 63 \<le> ?N"
      using ready by (auto simp: loop_ready_def)
    ultimately have inv: "loop_inv ?N ?D 0 (udivmod_loop b ?s (qh, ql, rh, rl, 0))"
      using N assms by (intro loop_inv_loop)
    obtain qh' ql' rh' rl' c where fin: "udivmod_loop b ?s (qh, ql, rh, rl, 0) = (qh', ql', rh', rl', c)"
      by (cases "udivmod_loop b ?s (qh, ql, rh, rl, 0)")
    from inv have r: "unat (join32 rh' rl') = ?N mod ?D" and q: "unat (join32 qh' ql') = ?N div ?D div 2"
      and c: "unat c = ?N div ?D mod 2"
      by (simp_all add: fin loop_inv_def)
    have "?N div ?D < 2 ^ 64" using N by (meson div_le_dividend le_less_trans)
    then have "unat (push_bit 1 (join32 qh' ql') OR ucast c) = ?N div ?D"
      using unat_or_low [of "ucast c" "join32 qh' ql'"] q c by simp
    then show ?thesis
      using st(1) Loop fin r by (simp add: udivmoddi4_def word_unat_eq_iff unat_div unat_mod)
  qed
qed

section \<open>Signed division\<close>

definition cond_neg :: "bool \<Rightarrow> u64 \<Rightarrow> u64" where
  "cond_neg b x = (if b then - x else x)"

lemma xor_sub_sign: "(x XOR (if b then - 1 else 0)) - (if b then - 1 else 0 :: u64) = cond_neg b x"
  by (simp add: cond_neg_def bit.xor_one_right not_eq_complement)

lemma xor_signs:
  "(if a then - 1 else 0) XOR (if b then - 1 else 0) = (if a \<noteq> b then - 1 else (0 :: u64))"
  by auto

lemma sint_u64: "sint (a :: u64) = uint a - (if bit a 63 then 2 ^ 64 else 0)"
  by (simp add: sint_uint signed_take_bit_eq_take_bit_minus bit_uint_iff take_bit_int_eq_self
      uint_bounded [where w = a, simplified])

lemma uint_pos64: "(a :: u64) \<noteq> 0 \<Longrightarrow> 0 < uint a"
  using uint_ge_0 [of a] uint_0_iff [of a] by linarith

lemma uint_abs: "uint (cond_neg (bit a 63) a) = \<bar>sint a\<bar>"
proof (cases "bit a 63")
  case True
  then have "2 ^ 63 \<le> unat a" using bit_top [of a 63] unsigned_less [where ?'a = nat, of a] by simp
  then have "a \<noteq> 0" by auto
  then have "uint (- a) = 2 ^ 64 - uint a"
    using uint_sub_if' [of 0 a] uint_pos64 [of a] by simp
  then show ?thesis
    using True uint_bounded [of a] by (simp add: cond_neg_def sint_u64)
qed (simp add: cond_neg_def sint_u64)

lemma bit63_neg: "bit (a :: u64) 63 \<longleftrightarrow> sint a < 0"
  using uint_bounded [of a] uint_ge_0 [of a] by (simp add: sint_u64)

lemma cond_neg_word: "cond_neg b (word_of_int k) = word_of_int (if b then - k else k)"
  by (simp add: cond_neg_def)

lemma divdi3_sdiv:
  assumes "b \<noteq> 0"
  shows "divdi3 a b = Inr (word_of_int (sint a sdiv sint b))"
proof -
  let ?A = "cond_neg (bit a 63) a" and ?B = "cond_neg (bit b 63) b"
  have nz: "?B \<noteq> 0" using assms by (simp add: cond_neg_def)
  have "divdi3 a b = Inr (cond_neg (bit a 63 \<noteq> bit b 63) (?A div ?B))"
    by (simp only: divdi3_def Let_def signed_drop_bit_63 xor_signs xor_sub_sign udivmoddi4_div_mod [OF nz]
        ebind_simps prod.case)
  also have "?A div ?B = word_of_int (\<bar>sint a\<bar> div \<bar>sint b\<bar>)"
    by (simp add: word_div_def uint_abs)
  also have "cond_neg (bit a 63 \<noteq> bit b 63) (word_of_int (\<bar>sint a\<bar> div \<bar>sint b\<bar>))
      = word_of_int (sint a sdiv sint b)"
    by (auto simp: cond_neg_word bit63_neg signed_divide_int_def sgn_if)
  finally show ?thesis .
qed

lemma moddi3_smod:
  assumes "b \<noteq> 0"
  shows "moddi3 a b = Inr (word_of_int (sint a smod sint b))"
proof -
  let ?A = "cond_neg (bit a 63) a" and ?B = "cond_neg (bit b 63) b"
  have nz: "?B \<noteq> 0" using assms by (simp add: cond_neg_def)
  have "moddi3 a b = Inr (cond_neg (bit a 63) (?A mod ?B))"
    by (simp only: moddi3_def Let_def signed_drop_bit_63 xor_sub_sign udivmoddi4_div_mod [OF nz]
        ebind_simps prod.case)
  also have "?A mod ?B = word_of_int (\<bar>sint a\<bar> mod \<bar>sint b\<bar>)"
    by (simp add: word_mod_def uint_abs)
  also have "cond_neg (bit a 63) (word_of_int (\<bar>sint a\<bar> mod \<bar>sint b\<bar>)) = word_of_int (sint a smod sint b)"
    by (auto simp: cond_neg_word bit63_neg smod_int_alt_def sgn_if)
  finally show ?thesis .
qed

section \<open>The branch-free bit counts\<close>

text \<open>One halving step of \<^verbatim>\<open>__clzsi2\<close>: the field of width \<open>2 w\<close> narrows to width \<open>w\<close>.\<close>

lemma high_half_zero:
  fixes x :: u32
  assumes "unat x < 2 ^ (2 * w)" and "2 * w \<le> 32"
  shows "x AND push_bit w (mask w) = 0 \<longleftrightarrow> unat x < 2 ^ w"
proof -
  have out: "\<not> bit x n" if "2 * w \<le> n" for n
  proof -
    have "take_bit (2 * w) x = x"
      using assms(1) unat_take_bit [of "2 * w" x] by (simp only: word_unat_eq_iff) simp
    then show ?thesis using that by (metis bit_take_bit_iff not_le)
  qed
  have "x AND push_bit w (mask w) = 0 \<longleftrightarrow> drop_bit w x = 0"
  proof
    assume z: "x AND push_bit w (mask w) = 0"
    show "drop_bit w x = 0"
    proof (rule bit_word_eqI)
      fix n assume "n < LENGTH(32)"
      have "\<not> bit (x AND push_bit w (mask w)) (w + n)" by (simp only: z) simp
      then show "bit (drop_bit w x) n = bit 0 n"
        using out [of "w + n"] bit_imp_le_length [of x "w + n"]
        by (auto simp: bit_and_iff bit_push_bit_iff bit_mask_iff bit_drop_bit_eq)
    qed
  next
    assume z: "drop_bit w x = 0"
    show "x AND push_bit w (mask w) = 0"
    proof (rule bit_word_eqI)
      fix n assume "n < LENGTH(32)"
      have "\<not> bit (drop_bit w x) (n - w)" by (simp only: z) simp
      then show "bit (x AND push_bit w (mask w)) n = bit 0 n"
        by (auto simp: bit_and_iff bit_push_bit_iff bit_drop_bit_eq)
    qed
  qed
  also have "\<dots> \<longleftrightarrow> unat x div 2 ^ w = 0"
    by (simp only: word_unat_eq_iff unat_drop_bit) simp
  finally show ?thesis by (simp add: div_eq_0_iff)
qed

lemma clz_step:
  fixes x :: u32
  assumes "unat x < 2 ^ (2 * w)" and "2 * w \<le> 32"
    and t: "t = (if x AND push_bit w (mask w) = 0 then w else 0)" and x': "x' = drop_bit (w - t) x"
  shows "unat x' < 2 ^ w" and "t + (w - blen (unat x')) = 2 * w - blen (unat x)"
proof -
  have t': "t = (if unat x < 2 ^ w then w else 0)" using high_half_zero [OF assms(1,2)] t by simp
  have u: "unat x' = unat x div 2 ^ (w - t)" by (simp add: x' unat_drop_bit)
  have "unat x < 2 ^ w * 2 ^ w" using assms(1) by (simp add: mult_2 power_add)
  then show "unat x' < 2 ^ w" using t' u by (auto intro: less_mult_imp_div_less)
  show "t + (w - blen (unat x')) = 2 * w - blen (unat x)"
    using t' u blen_div [of "unat x" w] blen_le_iff [of "unat x" w] by auto
qed

lemma clz_last:
  fixes x :: u32
  assumes "unat x < 2 ^ 2"
  shows "(2 - x) AND - of_bool32 (x AND 2 = 0) = of_nat (2 - blen (unat x))"
proof -
  have "unat x = 0 \<or> unat x = 1 \<or> unat x = 2 \<or> unat x = 3" using assms by auto
  then have "x = 0 \<or> x = 1 \<or> x = 2 \<or> x = 3" by (auto simp: word_unat_eq_iff)
  then show ?thesis by (auto simp: of_bool32_def blen.simps)
qed

lemma push_of_bool32: "push_bit k (of_bool32 b) = (of_nat (if b then 2 ^ k else 0) :: u32)"
  by (simp add: of_bool32_def push_bit_eq_mult)

lemma unat_shift_count: "a \<le> c \<Longrightarrow> c \<le> 32 \<Longrightarrow> unat (of_nat c - of_nat a :: u32) = c - a"
  by (simp add: unat_sub_if' unsigned_of_nat take_bit_nat_eq_self)

lemma clz_stage:
  assumes "t = (if x AND m = 0 then w else 0)" and "w = 2 ^ k" and "w \<le> 16"
  shows "push_bit k (of_bool32 (x AND m = 0)) = (of_nat t :: u32)"
    and "unat (of_nat w - of_nat t :: u32) = w - t"
proof -
  show "push_bit k (of_bool32 (x AND m = 0)) = (of_nat t :: u32)"
    by (simp only: assms(1,2) push_of_bool32)
  show "unat (of_nat w - of_nat t :: u32) = w - t"
    using assms by (intro unat_shift_count) simp_all
qed

lemma clzsi2_clz: "clzsi2 a = of_nat (builtin_clz a)"
proof -
  define t1 where "t1 = (if a AND push_bit 16 (mask 16) = 0 then 16 else 0 :: nat)"
  define x1 where "x1 = drop_bit (16 - t1) a"
  define t2 where "t2 = (if x1 AND push_bit 8 (mask 8) = 0 then 8 else 0 :: nat)"
  define x2 where "x2 = drop_bit (8 - t2) x1"
  define t3 where "t3 = (if x2 AND push_bit 4 (mask 4) = 0 then 4 else 0 :: nat)"
  define x3 where "x3 = drop_bit (4 - t3) x2"
  define t4 where "t4 = (if x3 AND push_bit 2 (mask 2) = 0 then 2 else 0 :: nat)"
  define x4 where "x4 = drop_bit (2 - t4) x3"
  have a: "unat a < 2 ^ (2 * 16)" using unsigned_less [where ?'a = nat, of a] by simp
  note s1 = clz_step [OF a _ t1_def x1_def]
  have b: "unat x1 < 2 ^ (2 * 8)" using s1(1) by simp
  note s2 = clz_step [OF b _ t2_def x2_def]
  have c: "unat x2 < 2 ^ (2 * 4)" using s2(1) by simp
  note s3 = clz_step [OF c _ t3_def x3_def]
  have d: "unat x3 < 2 ^ (2 * 2)" using s3(1) by simp
  note s4 = clz_step [OF d _ t4_def x4_def]
  have masks: "(0xFFFF0000 :: u32) = push_bit 16 (mask 16)" "(0xFF00 :: u32) = push_bit 8 (mask 8)"
    "(0xF0 :: u32) = push_bit 4 (mask 4)" "(0xC :: u32) = push_bit 2 (mask 2)"
    by (simp_all add: mask_eq_exp_minus_1)
  have cnt: "unat (16 - of_nat t1 :: u32) = 16 - t1" "unat (8 - of_nat t2 :: u32) = 8 - t2"
    "unat (4 - of_nat t3 :: u32) = 4 - t3" "unat (2 - of_nat t4 :: u32) = 2 - t4"
    using clz_stage(2) [OF t1_def, of 4] clz_stage(2) [OF t2_def, of 3]
      clz_stage(2) [OF t3_def, of 2] clz_stage(2) [OF t4_def, of 1] by simp_all
  have last: "(2 - x4) AND - of_bool32 (x4 AND 2 = 0) = of_nat (2 - blen (unat x4))"
    by (rule clz_last) (use s4(1) in simp)
  have e4: "push_bit 1 (of_bool32 (x3 AND push_bit 2 (mask 2) = 0)) = (of_nat t4 :: u32)"
    by (rule clz_stage(1) [OF t4_def]) simp_all
  have "clzsi2 a = of_nat t1 + of_nat t2 + of_nat t3 + of_nat t4 + of_nat (2 - blen (unat x4))"
    by (simp only: clzsi2_def Let_def masks cnt last
      clz_stage(1) [OF t1_def, of 4, simplified] x1_def [symmetric]
      clz_stage(1) [OF t2_def, of 3, simplified] x2_def [symmetric]
      clz_stage(1) [OF t3_def, of 2, simplified] x3_def [symmetric]
      e4 x4_def [symmetric])
  also have "\<dots> = of_nat (t1 + (t2 + (t3 + (t4 + (2 - blen (unat x4))))))"
    by (simp only: of_nat_add add.assoc)
  also have "t4 + (2 - blen (unat x4)) = 4 - blen (unat x3)" using s4(2) by simp
  also have "t3 + (4 - blen (unat x3)) = 8 - blen (unat x2)" using s3(2) by simp
  also have "t2 + (8 - blen (unat x2)) = 16 - blen (unat x1)" using s2(2) by simp
  also have "t1 + (16 - blen (unat x1)) = 32 - blen (unat a)" using s1(2) by simp
  finally show ?thesis by (simp only: builtin_clz_blen)
qed

text \<open>One halving step of \<^verbatim>\<open>__ctzsi2\<close>: \<open>k\<close> is the position of the lowest set bit of \<open>x\<close>.\<close>

definition lowest_bit :: "u32 \<Rightarrow> nat \<Rightarrow> bool" where
  "lowest_bit x k \<longleftrightarrow> bit x k \<and> (\<forall>i < k. \<not> bit x i)"

lemma lowest_bit_ex: "x \<noteq> 0 \<Longrightarrow> \<exists>k < 32. lowest_bit x k"
proof -
  assume "x \<noteq> 0"
  then obtain n where "bit x n" by (metis bit_word_eqI bit_0_eq bot_apply bot_bool_def)
  then have "bit x (LEAST n. bit x n)" by (rule LeastI)
  moreover have "\<not> bit x i" if "i < (LEAST n. bit x n)" for i using that by (rule not_less_Least)
  ultimately show ?thesis unfolding lowest_bit_def using bit_imp_le_length by fastforce
qed

lemma ctz_step:
  assumes "lowest_bit x k" and "k < 2 * w" and "2 * w \<le> 32"
    and t: "t = (if x AND mask w = 0 then w else 0)" and x': "x' = drop_bit t x"
  shows "lowest_bit x' (k - t)" and "k - t < w" and "t \<le> k"
proof -
  have z: "x AND mask w = 0 \<longleftrightarrow> w \<le> k"
  proof
    assume z: "x AND mask w = 0"
    have "\<not> bit (x AND mask w) k" by (simp only: z) simp
    then show "w \<le> k" using assms(1-3) by (auto simp: lowest_bit_def bit_and_iff bit_mask_iff)
  next
    assume "w \<le> k"
    then show "x AND mask w = 0"
      using assms(1) by (intro bit_word_eqI) (auto simp: lowest_bit_def bit_and_iff bit_mask_iff)
  qed
  then show "t \<le> k" "k - t < w" using t assms(2) by auto
  then show "lowest_bit x' (k - t)"
    using assms(1) by (auto simp: lowest_bit_def x' bit_drop_bit_eq)
qed

lemma ctz_last:
  assumes "lowest_bit x k" and "k < 2" and y: "y = x AND 3"
  shows "(2 - drop_bit 1 y) AND - of_bool32 (y AND 1 = 0) = of_nat k"
proof -
  have m: "(3 :: u32) = mask 2" by (simp add: mask_eq_exp_minus_1)
  have "unat y < 2 ^ 2"
    unfolding y m take_bit_eq_mask [symmetric] by (simp only: unat_take_bit) simp
  then have "unat y = 0 \<or> unat y = 1 \<or> unat y = 2 \<or> unat y = 3" by auto
  then have cases: "y = 0 \<or> y = 1 \<or> y = 2 \<or> y = 3" by (auto simp: word_unat_eq_iff)
  have b: "bit y i \<longleftrightarrow> bit x i" if "i < 2" for i
    using that by (simp add: y m bit_and_iff bit_mask_iff)
  consider "k = 0" "bit y 0" | "k = 1" "\<not> bit y 0" "bit y 1"
    using assms(1,2) b [of 0] b [of 1] by (auto simp: lowest_bit_def less_2_cases_iff)
  then show ?thesis
    by cases (use cases in \<open>auto simp: of_bool32_def\<close>)
qed

lemma ctzsi2_ctz:
  assumes "a \<noteq> 0"
  shows "ctzsi2 a = of_nat (builtin_ctz a)"
proof -
  obtain k where k: "k < 32" "lowest_bit a k" using lowest_bit_ex [OF assms] by blast
  define t1 where "t1 = (if a AND mask 16 = 0 then 16 else 0 :: nat)"
  define x1 where "x1 = drop_bit t1 a"
  define t2 where "t2 = (if x1 AND mask 8 = 0 then 8 else 0 :: nat)"
  define x2 where "x2 = drop_bit t2 x1"
  define t3 where "t3 = (if x2 AND mask 4 = 0 then 4 else 0 :: nat)"
  define x3 where "x3 = drop_bit t3 x2"
  define t4 where "t4 = (if x3 AND mask 2 = 0 then 2 else 0 :: nat)"
  define x4 where "x4 = drop_bit t4 x3"
  have a: "k < 2 * 16" using k(1) by simp
  note s1 = ctz_step [OF k(2) a _ t1_def x1_def, simplified]
  have b: "k - t1 < 2 * 8" using s1(2) by simp
  note s2 = ctz_step [OF s1(1) b _ t2_def x2_def, simplified]
  have c: "k - t1 - t2 < 2 * 4" using s2(2) by simp
  have s3: "lowest_bit x3 (k - t1 - t2 - t3)" "k - t1 - t2 - t3 < 4" "t3 \<le> k - t1 - t2"
    using ctz_step [OF _ c _ t3_def x3_def] s2(1) by simp_all
  have s4: "lowest_bit x4 (k - t1 - t2 - t3 - t4)" "k - t1 - t2 - t3 - t4 < 2" "t4 \<le> k - t1 - t2 - t3"
    using ctz_step [OF s3(1) _ _ t4_def x4_def] s3(2) by simp_all
  have masks: "(0x0000FFFF :: u32) = mask 16" "(0x00FF :: u32) = mask 8" "(0x0F :: u32) = mask 4"
    by (simp_all add: mask_eq_exp_minus_1)
  have m3: "(x3 AND 3 = 0) = (x3 AND mask 2 = 0)" by (simp add: mask_eq_exp_minus_1)
  have st: "push_bit 4 (of_bool32 (a AND mask 16 = 0)) = (of_nat t1 :: u32)"
    "push_bit 3 (of_bool32 (x1 AND mask 8 = 0)) = (of_nat t2 :: u32)"
    "push_bit 2 (of_bool32 (x2 AND mask 4 = 0)) = (of_nat t3 :: u32)"
    "push_bit 1 (of_bool32 (x3 AND 3 = 0)) = (of_nat t4 :: u32)"
    by (simp_all only: push_of_bool32 t1_def t2_def t3_def t4_def m3) simp_all
  have cnt: "unat (of_nat t1 :: u32) = t1" "unat (of_nat t2 :: u32) = t2" "unat (of_nat t3 :: u32) = t3"
    "unat (of_nat t4 :: u32) = t4"
    by (simp_all add: t1_def t2_def t3_def t4_def)
  have "ctzsi2 a = of_nat t1 + of_nat t2 + of_nat t3 + of_nat t4 + of_nat (k - t1 - t2 - t3 - t4)"
    by (simp only: ctzsi2_def Let_def masks st cnt x1_def [symmetric] x2_def [symmetric]
      x3_def [symmetric] x4_def [symmetric] ctz_last [OF s4(1,2) refl])
  also have "\<dots> = of_nat (t1 + (t2 + (t3 + (t4 + (k - t1 - t2 - t3 - t4)))))"
    by (simp only: of_nat_add add.assoc)
  also have "t1 + (t2 + (t3 + (t4 + (k - t1 - t2 - t3 - t4)))) = k"
    using s1(3) s2(3) s3(3) s4(3) by simp
  finally show ?thesis
    using builtin_ctz_eq [OF k(1)] k(2) by (simp add: lowest_bit_def)
qed

section \<open>Properties\<close>

text \<open>C2: for a non-zero divisor \<^verbatim>\<open>__udivmoddi4\<close> takes every one of its branches without a division
  by zero, its loop ends, and it returns the quotient and stores the remainder.\<close>

theorem udivmoddi4_correct:
  assumes "b \<noteq> 0"
  shows "udivmoddi4 a b = Inr (a div b, a mod b)"
  using assms by (rule udivmoddi4_div_mod)

theorem udivmoddi4_correct_witness:
  "(0x100000007 :: u64) \<noteq> 0 \<and>
   udivmoddi4 0xFEDCBA9876543210 0x100000007
     = Inr (0xFEDCBA9876543210 div 0x100000007, 0xFEDCBA9876543210 mod 0x100000007)"
  using udivmoddi4_correct [of "0x100000007" "0xFEDCBA9876543210"] by simp

text \<open>
  signed 64-bit division and remainder, \<^verbatim>\<open>__divdi3\<close>, \<^verbatim>\<open>__moddi3\<close> and \<^verbatim>\<open>__divmoddi4\<close>, truncate
  towards zero as C requires; the one quotient that does not fit wraps.\<close>

lemma signed_division_correct:
  assumes "b \<noteq> 0"
  shows "divdi3 a b = Inr (word_of_int (sint a sdiv sint b))
    \<and> moddi3 a b = Inr (word_of_int (sint a smod sint b))
    \<and> divmoddi4 a b = Inr (word_of_int (sint a sdiv sint b), word_of_int (sint a smod sint b))"
proof -
  have "sint a - (sint a sdiv sint b) * sint b = sint a smod sint b"
    by (metis minus_sdiv_mult_eq_smod)
  moreover have "word_of_int (sint x) = x" for x :: u64
    by simp
  ultimately have "a - word_of_int (sint a sdiv sint b) * b = word_of_int (sint a smod sint b)"
    by (metis wi_hom_mult wi_hom_sub)
  then show ?thesis
    using assms by (simp add: divdi3_sdiv moddi3_smod divmoddi4_def)
qed

text \<open>the branch-free \<^verbatim>\<open>__clzsi2\<close> and \<^verbatim>\<open>__ctzsi2\<close> count the leading and trailing zero bits of every
  non-zero word, as the builtins they implement.\<close>

lemma bit_counts_correct:
  assumes "a \<noteq> 0"
  shows "clzsi2 a = of_nat (builtin_clz a) \<and> ctzsi2 a = of_nat (builtin_ctz a)"
  using assms by (simp add: clzsi2_clz ctzsi2_ctz)

end
