(* ===== verification/Klib_Stdlib.thy ===== *)
theory Klib_Stdlib
  imports Nemu_Prelude
begin

text \<open>
  \<^verbatim>\<open>abstract-machine/klib/src/stdlib.c\<close> for a 32-bit target: the pseudo-random generator, \<^verbatim>\<open>abs\<close> and
  \<^verbatim>\<open>atoi\<close> on two's complement words, and the bump allocator behind \<^verbatim>\<open>malloc\<close>. Pointers and \<^verbatim>\<open>size_t\<close> are
  32-bit words whose additions wrap; the heap area is a parameter, as in the code.
\<close>

section \<open>The functions\<close>

definition rand :: "u32 \<Rightarrow> u32 \<times> u32" where
  "rand nxt = (let nxt' = nxt * 1103515245 + 12345 in ((nxt' div 65536) mod 32768, nxt'))"

definition srand :: "u32 \<Rightarrow> u32 \<Rightarrow> u32" where
  "srand seed nxt = seed"

definition c_abs :: "u32 \<Rightarrow> u32" where
  "c_abs x = (if c_slt x 0 then - x else x)"

text \<open>The two loops of \<^verbatim>\<open>atoi\<close>; the string is read up to its NUL, which ends both of them.\<close>

fun atoi_digits :: "string \<Rightarrow> u32 \<Rightarrow> u32" where
  "atoi_digits [] x = x"
| "atoi_digits (ch # cs) x =
    (if 48 \<le> (of_char ch :: nat) \<and> (of_char ch :: nat) \<le> 57 then atoi_digits cs (x * 10 + of_char ch - 48) else x)"

definition atoi :: "string \<Rightarrow> u32" where
  "atoi nptr = atoi_digits (dropWhile (\<lambda>ch. ch = CHR '' '') nptr) 0"

record heap_area =
  heap_start :: u32
  heap_end :: u32

text \<open>\<open>hbrk\<close> is the allocation pointer, 0 before the first call.\<close>

definition malloc :: "heap_area \<Rightarrow> u32 \<Rightarrow> u32 \<Rightarrow> (u32 \<times> u32) res" where
  "malloc h sz hbrk =
    (let hbrk0 = (if hbrk = 0 then heap_start h else hbrk);
         sz' = (sz + 7) AND NOT 7;
         hbrk1 = hbrk0 + sz' in
     if hbrk1 > heap_end h then Inl (Panic ''Heap out of memory!'') else Inr (hbrk0, hbrk1))"

definition free :: "u32 \<Rightarrow> u32 \<Rightarrow> u32" where
  "free ptr hbrk = hbrk"

text \<open>A client's sequence of allocations, with the blocks it receives.\<close>

primrec mallocs :: "heap_area \<Rightarrow> u32 list \<Rightarrow> u32 \<Rightarrow> (u32 list \<times> u32) res" where
  "mallocs h [] hbrk = Inr ([], hbrk)"
| "mallocs h (n # ns) hbrk =
    ebind (malloc h n hbrk) (\<lambda>(p, hbrk1).
    ebind (mallocs h ns hbrk1) (\<lambda>(ps, hbrk2). Inr (p # ps, hbrk2)))"

section \<open>Numbers\<close>

lemma rand_range: "fst (rand nxt) < 32768"
  by (simp add: rand_def Let_def word_less_nat_alt unat_mod unat_div)

lemma sint_INT_MIN: "sint INT_MIN = - (2 ^ 31)"
  by simp

lemma c_abs_abs: "sint (c_abs x) = (if x = INT_MIN then sint x else \<bar>sint x\<bar>)"
proof -
  have r: "- (2 ^ 31) \<le> sint x" "sint x < 2 ^ 31"
    using sint_greater_eq [of x] sint_less [of x] by simp_all
  have "x = INT_MIN \<longleftrightarrow> sint x = - (2 ^ 31)"
    by (metis signed_word_eqI sint_INT_MIN)
  moreover have "sint (- x) = - sint x" if "sint x \<noteq> - (2 ^ 31)"
    using r that signed_take_bit_int_eq_self [of 31 "- sint x"]
    by (simp add: sint_word_ariths)
  ultimately show ?thesis by (auto simp: c_abs_def c_slt_def)
qed

lemma atoi_digits_snoc:
  "\<forall>ch \<in> set cs. 48 \<le> (of_char ch :: nat) \<and> (of_char ch :: nat) \<le> 57 \<Longrightarrow>
   atoi_digits (cs @ ds) x = atoi_digits ds (atoi_digits cs x)"
  by (induction cs arbitrary: x) auto

section \<open>The allocator\<close>

lemma round8_unat:
  assumes "unat sz + 7 < 2 ^ 32"
  shows "unat ((sz + 7) AND NOT 7 :: u32) = (unat sz + 7) div 8 * 8"
proof -
  have "(7 :: u32) = mask 3" by (simp add: mask_eq_exp_minus_1)
  then have "unat ((sz + 7) AND NOT 7 :: u32) = unat (sz + 7) div 8 * 8"
    using unat_and_not_mask [of "sz + 7" 3] by simp
  then show ?thesis using assms by (simp add: unat_word_ariths)
qed

text \<open>The size of a request is honest when neither its rounding nor the pointer addition can wrap.\<close>

definition honest :: "heap_area \<Rightarrow> u32 \<Rightarrow> bool" where
  "honest h n \<longleftrightarrow> unat (heap_end h) + unat n + 7 < 2 ^ 32"

lemma malloc_block:
  assumes "malloc h n hbrk = Inr (p, hbrk')" "honest h n"
    and "hbrk \<noteq> 0 \<longrightarrow> hbrk \<le> heap_end h" "heap_start h \<le> heap_end h"
  shows "p = (if hbrk = 0 then heap_start h else hbrk)" "unat p + unat n \<le> unat hbrk'"
    "hbrk' \<le> heap_end h" "unat hbrk' mod 8 = unat p mod 8"
proof -
  show p: "p = (if hbrk = 0 then heap_start h else hbrk)" and e: "hbrk' \<le> heap_end h"
    using assms(1) by (auto simp: malloc_def Let_def split: if_splits)
  have le: "unat p \<le> unat (heap_end h)" using p assms(3,4) by (auto simp: word_le_nat_alt)
  have r: "unat ((n + 7) AND NOT 7 :: u32) = (unat n + 7) div 8 * 8"
    using assms(2) by (intro round8_unat) (simp add: honest_def)
  have "hbrk' = p + ((n + 7) AND NOT 7)"
    using assms(1) p by (auto simp: malloc_def Let_def split: if_splits)
  moreover have "unat p + (unat n + 7) div 8 * 8 < 2 ^ 32"
    using le assms(2) by (simp add: honest_def)
  ultimately have h': "unat hbrk' = unat p + (unat n + 7) div 8 * 8"
    using r by (simp add: unat_word_ariths)
  then show "unat p + unat n \<le> unat hbrk'" by simp
  show "unat hbrk' mod 8 = unat p mod 8" by (simp add: h')
qed

text \<open>Blocks handed out from \<open>lo\<close> on, in increasing order.\<close>

fun blocks_from :: "nat \<Rightarrow> (u32 \<times> u32) list \<Rightarrow> bool" where
  "blocks_from lo [] \<longleftrightarrow> True"
| "blocks_from lo ((p, n) # bs) \<longleftrightarrow> lo \<le> unat p \<and> unat p mod 8 = 0 \<and> blocks_from (unat p + unat n) bs"

lemma blocks_from_mono: "blocks_from lo bs \<Longrightarrow> lo' \<le> lo \<Longrightarrow> blocks_from lo' bs"
  by (cases bs) auto

lemma blocks_from_nth:
  "blocks_from lo bs \<Longrightarrow> i < length bs \<Longrightarrow>
   lo \<le> unat (fst (bs ! i)) \<and> unat (fst (bs ! i)) mod 8 = 0"
  by (induction lo bs arbitrary: i rule: blocks_from.induct) (fastforce simp: nth_Cons split: nat.splits)+

lemma blocks_from_disjoint:
  "blocks_from lo bs \<Longrightarrow> i < j \<Longrightarrow> j < length bs \<Longrightarrow>
   unat (fst (bs ! i)) + unat (snd (bs ! i)) \<le> unat (fst (bs ! j))"
proof (induction lo bs arbitrary: i j rule: blocks_from.induct)
  case (2 lo p n bs)
  then show ?case
    using blocks_from_nth [of "unat p + unat n" bs "j - 1"] by (cases i; cases j) auto
qed simp

lemma mallocs_blocks:
  assumes "mallocs h ns hbrk = Inr (ps, hbrk')" "\<forall>n \<in> set ns. honest h n"
    and "hbrk \<noteq> 0 \<longrightarrow> hbrk \<le> heap_end h" "heap_start h \<le> heap_end h"
    and "heap_start h \<noteq> 0" "unat (if hbrk = 0 then heap_start h else hbrk) mod 8 = 0"
  shows "length ps = length ns \<and> blocks_from (unat (if hbrk = 0 then heap_start h else hbrk)) (zip ps ns) \<and>
    (\<forall>i < length ns. unat (ps ! i) + unat (ns ! i) \<le> unat (heap_end h))"
  using assms(1-3,6)
proof (induction ns arbitrary: hbrk ps)
  case (Cons n ns)
  obtain p b qs where m: "malloc h n hbrk = Inr (p, b)" "mallocs h ns b = Inr (qs, hbrk')" "ps = p # qs"
    using Cons.prems(1) by auto
  note blk = malloc_block [OF m(1) _ Cons.prems(3) assms(4)]
  have hn: "honest h n" using Cons.prems(2) by simp
  have "b \<noteq> 0" using blk(1,2) [OF hn] assms(5) by (auto simp: word_eq_iff_unsigned unat_eq_0 split: if_splits)
  moreover have "unat b mod 8 = 0" using blk(1,4) [OF hn] Cons.prems(4) by simp
  ultimately have ih: "length qs = length ns \<and> blocks_from (unat b) (zip qs ns) \<and>
    (\<forall>i < length ns. unat (qs ! i) + unat (ns ! i) \<le> unat (heap_end h))"
    using Cons.IH [OF m(2)] Cons.prems(2) blk(3) [OF hn] by simp
  moreover have "unat p + unat n \<le> unat (heap_end h)"
    using blk(2,3) [OF hn] by (simp add: word_le_nat_alt)
  ultimately show ?case
    using m(3) blk(1,2) [OF hn] Cons.prems(4) blocks_from_mono [of "unat b" "zip qs ns" "unat p + unat n"]
    by (auto simp: nth_Cons split: nat.splits)
qed simp

text \<open>
  C35: the allocator hands out disjoint, aligned blocks inside the heap. Starting from the initial state
  with an 8-aligned heap, and for requests that do not wrap the address space, every block of a
  sequence of allocations lies inside the heap area, starts at a multiple of eight, and ends before
  every later block starts.
\<close>

theorem malloc_blocks_disjoint:
  assumes "mallocs h ns 0 = Inr (ps, hbrk)" "\<forall>n \<in> set ns. honest h n"
    and "heap_start h \<noteq> 0" "heap_start h \<le> heap_end h" "unat (heap_start h) mod 8 = 0"
    and "j < length ns"
  shows "heap_start h \<le> ps ! j \<and> unat (ps ! j) mod 8 = 0 \<and>
    unat (ps ! j) + unat (ns ! j) \<le> unat (heap_end h) \<and>
    (\<forall>i < j. unat (ps ! i) + unat (ns ! i) \<le> unat (ps ! j))"
proof -
  have b: "length ps = length ns" "blocks_from (unat (heap_start h)) (zip ps ns)"
    "\<forall>i < length ns. unat (ps ! i) + unat (ns ! i) \<le> unat (heap_end h)"
    using mallocs_blocks [OF assms(1,2) _ assms(4,3)] assms(5) by simp_all
  have "unat (ps ! i) + unat (ns ! i) \<le> unat (ps ! j)" if "i < j" for i
    using blocks_from_disjoint [OF b(2) that] assms(6) that b(1) by simp
  then show ?thesis
    using b blocks_from_nth [OF b(2), of j] assms(6) by (simp add: word_le_nat_alt)
qed

theorem malloc_blocks_disjoint_witness:
  "\<exists>ps. mallocs \<lparr>heap_start = 0x80001000, heap_end = 0x80002000\<rparr> [5, 16] 0 = Inr (ps, 0x80001018) \<and>
     unat (ps ! 0) + 5 \<le> unat (ps ! 1)"
proof -
  let ?h = "\<lparr>heap_start = 0x80001000, heap_end = 0x80002000\<rparr>"
  have m: "mallocs ?h [5, 16] 0 = Inr ([0x80001000, 0x80001008], 0x80001018)"
    by (simp add: malloc_def)
  have "\<forall>i < 1. unat ([0x80001000, 0x80001008 :: u32] ! i) + unat ([5, 16 :: u32] ! i) \<le>
      unat ([0x80001000, 0x80001008 :: u32] ! 1)"
    using malloc_blocks_disjoint [OF m, of 1] by (simp add: honest_def)
  then show ?thesis by (intro exI [of _ "[0x80001000, 0x80001008]"] conjI m) simp
qed

text \<open>
  A request within seven bytes of the largest \<^verbatim>\<open>size_t\<close> wraps to zero: \<^verbatim>\<open>malloc\<close> returns the current
  pointer without reserving anything, instead of failing.
\<close>

lemma malloc_size_wraps:
  assumes "hbrk \<noteq> 0" "hbrk \<le> heap_end h"
  shows "malloc h (- 1) hbrk = Inr (hbrk, hbrk)"
  using assms by (simp add: malloc_def)

end
