(* ===== verification/Klib_Stdio.thy ===== *)
theory Klib_Stdio
  imports Klib_Stdlib
begin

text \<open>
  \<^verbatim>\<open>abstract-machine/klib/src/stdio.c\<close>: number printing, the two format interpreters and \<^verbatim>\<open>printf\<close>. The
  format is the string up to its NUL, the variadic arguments are a list, and the characters stored
  through the output pointer are a growing string whose length is the pointer difference that the
  functions return. Reading an argument of the wrong kind and reading past the NUL of the format are
  undefined behaviour.
\<close>

section \<open>Numbers\<close>

text \<open>The digit loops fill a buffer from the low digit on, which is then copied out backwards.\<close>

function h2a_digits :: "u32 \<Rightarrow> string \<Rightarrow> string" where
  "h2a_digits num tmp =
    (if num > 0
     then let digit = num mod 16 in
          h2a_digits (num div 16) (tmp @ [if digit < 10 then char_of (48 + unat digit) else char_of (97 + unat (digit - 10))])
     else tmp)"
  by pat_completeness auto
termination
  by (relation "measure (\<lambda>(num, tmp). unat num)") (auto simp: unat_div unat_gt_0)

definition h2a :: "u32 \<Rightarrow> string \<Rightarrow> string" where
  "h2a num out = (if num = 0 then out @ ''0'' else out @ rev (h2a_digits num []))"

function i2a_digits :: "u32 \<Rightarrow> string \<Rightarrow> string" where
  "i2a_digits un buf =
    (if un > 0 then i2a_digits (un div 10) (buf @ [char_of (48 + unat (un mod 10))]) else buf)"
  by pat_completeness auto
termination
  by (relation "measure (\<lambda>(un, buf). unat un)") (auto simp: unat_div unat_gt_0)

definition i2a :: "u32 \<Rightarrow> string \<Rightarrow> string" where
  "i2a n s =
    (if n = 0 then s @ ''0''
     else if c_slt n 0 then s @ ''-'' @ rev (i2a_digits (- (n + 1) + 1) [])
     else s @ rev (i2a_digits n []))"

declare h2a_digits.simps [simp del] i2a_digits.simps [simp del]

section \<open>Formats\<close>

datatype va = VInt u32 | VStr string

text \<open>\<^verbatim>\<open>va_arg\<close> for an integer and for a string.\<close>

fun va_int :: "va list \<Rightarrow> (u32 \<times> va list) res" where
  "va_int (VInt n # ap) = Inr (n, ap)"
| "va_int _ = Inl (Undef ''va_arg'')"

fun va_str :: "va list \<Rightarrow> (string \<times> va list) res" where
  "va_str (VStr s # ap) = Inr (s, ap)"
| "va_str _ = Inl (Undef ''va_arg'')"

text \<open>
  One conversion of \<^verbatim>\<open>vsprintf\<close>: the character after the percent sign, the arguments and the output so far.
\<close>

definition vconv :: "char \<Rightarrow> va list \<Rightarrow> string \<Rightarrow> (va list \<times> string) res" where
  "vconv ch ap p =
    (if ch = CHR ''d'' then ebind (va_int ap) (\<lambda>(n, ap'). Inr (ap', i2a n p))
     else if ch = CHR ''s'' then ebind (va_str ap) (\<lambda>(s, ap'). Inr (ap', p @ s))
     else if ch = CHR ''x'' \<or> ch = CHR ''p'' then ebind (va_int ap) (\<lambda>(n, ap'). Inr (ap', h2a n p))
     else if ch = CHR ''c'' then ebind (va_int ap) (\<lambda>(n, ap'). Inr (ap', p @ [char_of (unat (ucast n :: u8))]))
     else if ch = CHR ''%'' then Inr (ap, p @ ''%'')
     else Inr (ap, p))"

text \<open>
  The loop both interpreters share in shape. A format that ends right after a percent sign makes the
  loop step over the NUL, so the next read is past the string.
\<close>

fun format_loop :: "(char \<Rightarrow> va list \<Rightarrow> string \<Rightarrow> (va list \<times> string) res) \<Rightarrow> string \<Rightarrow> va list \<Rightarrow> string \<Rightarrow> string res" where
  "format_loop conv [] ap p = Inr p"
| "format_loop conv [f] ap p =
    (if f \<noteq> CHR ''%'' then Inr (p @ [f]) else Inl (Undef ''format read past its end''))"
| "format_loop conv (f # f' # fs) ap p =
    (if f \<noteq> CHR ''%'' then format_loop conv (f' # fs) ap (p @ [f])
     else ebind (conv f' ap p) (\<lambda>(ap', p'). format_loop conv fs ap' p'))"

definition vsprintf :: "string \<Rightarrow> va list \<Rightarrow> (string \<times> nat) res" where
  "vsprintf fmt ap = ebind (format_loop vconv fmt ap []) (\<lambda>out. Inr (out, length out))"

definition printf :: "string \<Rightarrow> va list \<Rightarrow> string \<Rightarrow> (nat \<times> string) res" where
  "printf fmt ap term_out =
    ebind (vsprintf fmt ap) (\<lambda>(buf, len).
      if len < 2048 then Inr (len, term_out @ buf) else Inl (Undef ''printf buffer overflow''))"

text \<open>\<^verbatim>\<open>sprintf\<close> has a loop of its own with fewer conversions; the others are skipped with their argument left.\<close>

definition sconv :: "char \<Rightarrow> va list \<Rightarrow> string \<Rightarrow> (va list \<times> string) res" where
  "sconv ch ap p =
    (if ch = CHR ''d'' then ebind (va_int ap) (\<lambda>(n, ap'). Inr (ap', i2a n p))
     else if ch = CHR ''s'' then ebind (va_str ap) (\<lambda>(s, ap'). Inr (ap', p @ s))
     else if ch = CHR ''%'' then Inr (ap, p @ ''%'')
     else Inr (ap, p))"

definition sprintf :: "string \<Rightarrow> va list \<Rightarrow> (string \<times> nat) res" where
  "sprintf fmt ap = ebind (format_loop sconv fmt ap []) (\<lambda>out. Inr (out, length out))"

definition snprintf :: "nat \<Rightarrow> string \<Rightarrow> va list \<Rightarrow> (string \<times> nat) res" where
  "snprintf n fmt ap = Inl (Panic ''Not implemented'')"

definition vsnprintf :: "nat \<Rightarrow> string \<Rightarrow> va list \<Rightarrow> (string \<times> nat) res" where
  "vsnprintf n fmt ap = Inl (Panic ''Not implemented'')"

section \<open>The reference rendering\<close>

definition digit_char :: "nat \<Rightarrow> char" where
  "digit_char d = (if d < 10 then char_of (48 + d) else char_of (87 + d))"

text \<open>Positional notation of a positive number, most significant digit first.\<close>

fun positional :: "nat \<Rightarrow> nat \<Rightarrow> string" where
  "positional b n = (if n = 0 \<or> b < 2 then [] else positional b (n div b) @ [digit_char (n mod b)])"

declare positional.simps [simp del]

definition show_nat :: "nat \<Rightarrow> nat \<Rightarrow> string" where
  "show_nat b n = (if n = 0 then ''0'' else positional b n)"

definition show_int :: "int \<Rightarrow> string" where
  "show_int i = (if i < 0 then ''-'' @ show_nat 10 (nat (- i)) else show_nat 10 (nat i))"

lemma h2a_digits_positional: "h2a_digits num tmp = tmp @ rev (positional 16 (unat num))"
proof (induction num tmp rule: h2a_digits.induct)
  case (1 num tmp)
  show ?case
  proof (cases "num > 0")
    case True
    have lt: "unat (num mod 16) < 16" by (simp add: unat_mod)
    have "(if num mod 16 < 10 then char_of (48 + unat (num mod 16)) else char_of (97 + unat (num mod 16 - 10)))
        = digit_char (unat num mod 16)"
    proof (cases "num mod 16 < 10")
      case True
      then show ?thesis by (simp add: digit_char_def word_less_nat_alt unat_mod)
    next
      case False
      then have "10 \<le> num mod 16" by simp
      then have "unat (num mod 16 - 10) = unat num mod 16 - 10" "10 \<le> unat num mod 16"
        by (simp_all add: unat_sub word_le_nat_alt unat_mod)
      then show ?thesis using False by (simp add: digit_char_def)
    qed
    then show ?thesis
      using 1 [OF True refl] True
      by (subst h2a_digits.simps, subst positional.simps [of 16 "unat num"])
         (simp add: Let_def unat_div unat_gt_0 unat_eq_0 word_greater_zero_iff)
  qed (simp add: h2a_digits.simps positional.simps unat_eq_0 word_gt_0)
qed

lemma i2a_digits_positional: "i2a_digits un buf = buf @ rev (positional 10 (unat un))"
proof (induction un buf rule: i2a_digits.induct)
  case (1 un buf)
  show ?case
  proof (cases "un > 0")
    case True
    then show ?thesis
      using 1 [OF True]
      by (subst i2a_digits.simps, subst positional.simps [of 10 "unat un"])
         (simp add: unat_div unat_mod digit_char_def unat_eq_0 word_greater_zero_iff)
  qed (simp add: i2a_digits.simps positional.simps unat_eq_0 word_gt_0)
qed

lemma h2a_show: "h2a num out = out @ show_nat 16 (unat num)"
  by (simp add: h2a_def show_nat_def h2a_digits_positional unat_eq_0)

lemma i2a_show: "i2a n s = s @ show_int (sint n)"
proof -
  have "- (n + 1) + 1 = - n" by simp
  then show ?thesis
    using nat_sint_pos [of n] nat_sint_neg [of n]
    by (auto simp: i2a_def c_slt_def show_int_def show_nat_def i2a_digits_positional unat_eq_0)
qed

text \<open>The buffers of the digit loops are never overrun: 16 characters hold every 32-bit number.\<close>

lemma positional_length: "2 \<le> b \<Longrightarrow> n < b ^ k \<Longrightarrow> length (positional b n) \<le> k"
proof (induction k arbitrary: n)
  case 0
  then show ?case by (simp add: positional.simps)
next
  case (Suc k)
  then show ?case
    using Suc.IH [of "n div b"] by (subst positional.simps) (simp add: less_mult_imp_div_less mult.commute)
qed

lemma digit_buffers: "length (h2a_digits n []) \<le> 8" "length (i2a_digits n []) \<le> 10"
  using positional_length [of 16 "unat n" 8] positional_length [of 10 "unat n" 10] unsigned_less [where ?'a = nat, of n]
  by (simp_all add: h2a_digits_positional i2a_digits_positional)

section \<open>Formatting\<close>

text \<open>A format as a sequence of pieces, its format string, its arguments and the text it stands for.\<close>

datatype piece = Lit char | Dec u32 | Hex u32 | Ptr u32 | Str string | Chr u32 | Percent

primrec piece_fmt :: "piece \<Rightarrow> string" where
  "piece_fmt (Lit ch) = [ch]"
| "piece_fmt (Dec n) = ''%d''"
| "piece_fmt (Hex n) = ''%x''"
| "piece_fmt (Ptr n) = ''%p''"
| "piece_fmt (Str s) = ''%s''"
| "piece_fmt (Chr n) = ''%c''"
| "piece_fmt Percent = ''%%''"

primrec piece_args :: "piece \<Rightarrow> va list" where
  "piece_args (Lit ch) = []"
| "piece_args (Dec n) = [VInt n]"
| "piece_args (Hex n) = [VInt n]"
| "piece_args (Ptr n) = [VInt n]"
| "piece_args (Str s) = [VStr s]"
| "piece_args (Chr n) = [VInt n]"
| "piece_args Percent = []"

primrec piece_text :: "piece \<Rightarrow> string" where
  "piece_text (Lit ch) = [ch]"
| "piece_text (Dec n) = show_int (sint n)"
| "piece_text (Hex n) = show_nat 16 (unat n)"
| "piece_text (Ptr n) = show_nat 16 (unat n)"
| "piece_text (Str s) = s"
| "piece_text (Chr n) = [char_of (unat (ucast n :: u8))]"
| "piece_text Percent = ''%''"

definition wf_piece :: "piece \<Rightarrow> bool" where
  "wf_piece x \<longleftrightarrow> x \<noteq> Lit CHR ''%''"

lemma format_loop_lit: "f \<noteq> CHR ''%'' \<Longrightarrow> format_loop conv (f # fs) ap p = format_loop conv fs ap (p @ [f])"
  by (cases fs) simp_all

lemma vsprintf_loop_pieces:
  "list_all wf_piece xs \<Longrightarrow>
   format_loop vconv (concat (map piece_fmt xs)) (concat (map piece_args xs) @ ap) p = Inr (p @ concat (map piece_text xs))"
proof (induction xs arbitrary: p)
  case (Cons x xs)
  then show ?case
    by (cases x) (auto simp: wf_piece_def format_loop_lit vconv_def i2a_show h2a_show)
qed simp

text \<open>
  C36: \<^verbatim>\<open>vsprintf\<close> renders every format it knows. For any sequence of literal characters and \<^verbatim>\<open>%d\<close>, \<^verbatim>\<open>%x\<close>,
  \<^verbatim>\<open>%p\<close>, \<^verbatim>\<open>%s\<close>, \<^verbatim>\<open>%c\<close> and \<^verbatim>\<open>%%\<close> conversions with their arguments it returns the concatenation of the literals,
  the signed decimal notation (the smallest integer included), the hexadecimal notation without
  leading zeros, the strings and the characters, together with the length of that text.
\<close>

theorem vsprintf_renders:
  assumes "list_all wf_piece xs"
  shows "vsprintf (concat (map piece_fmt xs)) (concat (map piece_args xs)) =
    Inr (concat (map piece_text xs), length (concat (map piece_text xs)))"
  using vsprintf_loop_pieces [OF assms, of "[]"] by (simp add: vsprintf_def)

theorem vsprintf_renders_witness:
  "vsprintf ''n=%d %x'' [VInt 0x80000000, VInt 255] = Inr (''n=-2147483648 ff'', 16)"
proof -
  have "vsprintf ''n=%d %x'' [VInt 0x80000000, VInt 255] =
     Inr (''n='' @ show_int (sint INT_MIN) @ '' '' @ show_nat 16 255,
          length (''n='' @ show_int (sint INT_MIN) @ '' '' @ show_nat 16 255))"
    using vsprintf_renders [of "[Lit CHR ''n'', Lit CHR ''='', Dec INT_MIN, Lit CHR '' '', Hex 255]"]
    by (simp add: wf_piece_def)
  moreover have "show_int (sint INT_MIN) = ''-2147483648''" "show_nat 16 255 = ''ff''"
    by (simp_all add: show_int_def show_nat_def positional.simps digit_char_def char_of_def bit_Suc_0_iff)
  ultimately show ?thesis by simp
qed

text \<open>\<^verbatim>\<open>atoi\<close> reads a printed non-negative number back.\<close>

lemma digit_char_code: "d < 10 \<Longrightarrow> (of_char (digit_char d) :: nat) = 48 + d"
  by (simp add: digit_char_def)

lemma atoi_positional:
  "atoi_digits (positional 10 n @ ds) x = atoi_digits ds (x * 10 ^ length (positional 10 n) + of_nat n)"
proof (induction n arbitrary: ds rule: less_induct)
  case (less n)
  show ?case
  proof (cases "n = 0")
    case False
    let ?d = "digit_char (n mod 10)"
    have m: "n mod 10 \<le> 9" using mod_less_divisor [of 10 n] by linarith
    then have c: "(of_char ?d :: nat) = 48 + n mod 10" by (intro digit_char_code) simp
    have "(of_nat (of_char ?d) :: u32) = of_nat (48 + n mod 10)" by (simp only: c)
    then have w: "(of_char ?d :: u32) = 48 + of_nat (n mod 10)" by (simp add: of_nat_of_char)
    have "of_nat n = of_nat (n div 10) * 10 + (of_nat (n mod 10) :: u32)"
      by (metis div_mult_mod_eq of_nat_add of_nat_mult of_nat_numeral)
    moreover have p: "positional 10 n = positional 10 (n div 10) @ [?d]"
      using False by (subst positional.simps) simp
    ultimately show ?thesis
      using less.IH [of "n div 10" "?d # ds"] False c m by (simp add: w algebra_simps)
  qed (simp add: positional.simps)
qed

lemma positional_digits: "ch \<in> set (positional 10 n) \<Longrightarrow> 48 \<le> (of_char ch :: nat) \<and> (of_char ch :: nat) \<le> 57"
proof (induction n rule: less_induct)
  case (less n)
  have m: "n mod 10 \<le> 9" using mod_less_divisor [of 10 n] by linarith
  have "n \<noteq> 0" and "ch \<in> set (positional 10 (n div 10)) \<or> ch = digit_char (n mod 10)"
    using less.prems by (subst (asm) positional.simps; auto split: if_splits)+
  then show ?case
    using less.IH [of "n div 10"] digit_char_code [of "n mod 10"] m by auto
qed

lemma atoi_sprintf:
  assumes "0 \<le> sint n"
  shows "\<exists>out. sprintf ''%d'' [VInt n] = Inr (out, length out) \<and> atoi out = n"
proof -
  have "atoi (show_nat 10 k) = of_nat k" for k
  proof (cases "k = 0")
    case False
    then have "positional 10 k \<noteq> []" by (subst positional.simps) simp
    then have "hd (positional 10 k) \<noteq> CHR '' ''"
      using positional_digits [of "CHR '' ''" k] hd_in_set by fastforce
    then have "dropWhile (\<lambda>ch. ch = CHR '' '') (positional 10 k) = positional 10 k"
      by (cases "positional 10 k") auto
    then show ?thesis using False atoi_positional [of k "[]" 0] by (simp add: atoi_def show_nat_def)
  qed (simp add: atoi_def show_nat_def)
  then have "atoi (show_int (sint n)) = n"
    using assms by (simp add: show_int_def nat_sint_pos)
  then show ?thesis by (simp add: sprintf_def sconv_def i2a_show)
qed

text \<open>\<^verbatim>\<open>sprintf\<close> drops the hexadecimal and character conversions that \<^verbatim>\<open>vsprintf\<close> has.\<close>

lemma sprintf_drops_hex: "sprintf ''%x'' [VInt n] = Inr ([], 0)" "sprintf ''%c'' [VInt n] = Inr ([], 0)"
  by (simp_all add: sprintf_def sconv_def)

end
