(* ===== verification/Nemu_Memory.thy ===== *)
theory Nemu_Memory
  imports Nemu_Prelude
begin

text \<open>
  The build configuration of NEMU (\<^verbatim>\<open>CONFIG_*\<close> of the Kconfig files) as a record every component takes,
  the host accesses of \<^verbatim>\<open>nemu/include/memory/host.h\<close> (little-endian loads and stores of 1, 2 and 4
  bytes), and the guest memory of \<^verbatim>\<open>nemu/src/memory/paddr.c\<close>: the four host arrays that back it and
  the translation between guest addresses and host pointers. A host pointer is an array with an
  offset into it. The theory also states what a byte-addressed store promises its clients as a
  locale; the guest memory and the device I/O space are its instances.
\<close>

section \<open>Configuration\<close>

record nemu_config =
  CONFIG_MBASE :: u32
  CONFIG_MSIZE :: u32
  CONFIG_PC_RESET_OFFSET :: u32
  CONFIG_RVE :: bool
  CONFIG_RT_CHECK :: bool
  CONFIG_DEVICE :: bool
  CONFIG_DIFFTEST :: bool
  CONFIG_WATCHPOINT :: bool
  CONFIG_ITRACE :: bool
  CONFIG_FTRACE :: bool

text \<open>
  The defaults of the \<^verbatim>\<open>Kconfig\<close> files for riscv32: tracers and watchpoints on, devices and differential testing off. The examples
  run with the tracers and watchpoints switched off as well.
\<close>

definition default_config :: nemu_config where
  "default_config =
    \<lparr>CONFIG_MBASE = 0x80000000, CONFIG_MSIZE = 0x8000000, CONFIG_PC_RESET_OFFSET = 0,
     CONFIG_RVE = False, CONFIG_RT_CHECK = True, CONFIG_DEVICE = False, CONFIG_DIFFTEST = False,
     CONFIG_WATCHPOINT = True, CONFIG_ITRACE = True, CONFIG_FTRACE = True\<rparr>"

definition quiet_config :: nemu_config where
  "quiet_config =
    \<lparr>CONFIG_MBASE = 0x80000000, CONFIG_MSIZE = 0x8000000, CONFIG_PC_RESET_OFFSET = 0,
     CONFIG_RVE = False, CONFIG_RT_CHECK = True, CONFIG_DEVICE = False, CONFIG_DIFFTEST = False,
     CONFIG_WATCHPOINT = False, CONFIG_ITRACE = False, CONFIG_FTRACE = False\<rparr>"

definition RESET_VECTOR :: "nemu_config \<Rightarrow> u32" where
  "RESET_VECTOR c = CONFIG_MBASE c + CONFIG_PC_RESET_OFFSET c"

section \<open>Host accesses\<close>

type_synonym bytes = "nat \<Rightarrow> u8"

primrec load_le :: "bytes \<Rightarrow> nat \<Rightarrow> nat \<Rightarrow> u32" where
  "load_le m a 0 = 0"
| "load_le m a (Suc n) = ucast (m a) OR push_bit 8 (load_le m (Suc a) n)"

primrec store_le :: "bytes \<Rightarrow> nat \<Rightarrow> nat \<Rightarrow> u32 \<Rightarrow> bytes" where
  "store_le m a 0 d = m"
| "store_le m a (Suc n) d = store_le (m(a := ucast d)) (Suc a) n (drop_bit 8 d)"

text \<open>
  An access of \<^verbatim>\<open>len\<close> bytes at offset \<^verbatim>\<open>off\<close> of a host array of \<^verbatim>\<open>sz\<close> bytes. Leaving the array is
  undefined behaviour; an unsupported length asserts with \<^verbatim>\<open>CONFIG_RT_CHECK\<close> and is ignored without.
\<close>

definition host_read :: "nemu_config \<Rightarrow> nat \<Rightarrow> bytes \<Rightarrow> nat \<Rightarrow> nat \<Rightarrow> u32 res" where
  "host_read c sz m off len =
    (if len = 1 \<or> len = 2 \<or> len = 4 then
       (if off + len \<le> sz then Inr (load_le m off len) else Inl (Undef ''out-of-bounds read''))
     else if CONFIG_RT_CHECK c then Inl Assert_fail else Inr 0)"

definition host_write :: "nemu_config \<Rightarrow> nat \<Rightarrow> bytes \<Rightarrow> nat \<Rightarrow> nat \<Rightarrow> u32 \<Rightarrow> bytes res" where
  "host_write c sz m off len data =
    (if len = 1 \<or> len = 2 \<or> len = 4 then
       (if off + len \<le> sz then Inr (store_le m off len data) else Inl (Undef ''out-of-bounds write''))
     else if CONFIG_RT_CHECK c then Inl Assert_fail else Inr m)"

section \<open>Guest memory\<close>

definition MROM_BASE :: u32 where "MROM_BASE = 0x20000000"
definition MROM_SIZE :: u32 where "MROM_SIZE = 0x1000"
definition SRAM_BASE :: u32 where "SRAM_BASE = 0x0f000000"
definition SRAM_SIZE :: u32 where "SRAM_SIZE = 0x2000"
definition FLASH_BASE :: u32 where "FLASH_BASE = 0x30000000"
definition FLASH_SIZE :: u32 where "FLASH_SIZE = 0x1000000"

lemmas area_consts =
  MROM_BASE_def MROM_SIZE_def SRAM_BASE_def SRAM_SIZE_def FLASH_BASE_def FLASH_SIZE_def

record mem_state =
  pmem :: bytes
  mrom :: bytes
  sram :: bytes
  flash :: bytes

datatype host_area = Pmem | Mrom | Sram | Flash

type_synonym host_ptr = "host_area \<times> nat"

primrec area_bytes :: "host_area \<Rightarrow> mem_state \<Rightarrow> bytes" where
  "area_bytes Pmem = pmem"
| "area_bytes Mrom = mrom"
| "area_bytes Sram = sram"
| "area_bytes Flash = flash"

primrec area_set :: "host_area \<Rightarrow> bytes \<Rightarrow> mem_state \<Rightarrow> mem_state" where
  "area_set Pmem b s = s\<lparr>pmem := b\<rparr>"
| "area_set Mrom b s = s\<lparr>mrom := b\<rparr>"
| "area_set Sram b s = s\<lparr>sram := b\<rparr>"
| "area_set Flash b s = s\<lparr>flash := b\<rparr>"

primrec area_base :: "nemu_config \<Rightarrow> host_area \<Rightarrow> u32" where
  "area_base c Pmem = CONFIG_MBASE c"
| "area_base c Mrom = MROM_BASE"
| "area_base c Sram = SRAM_BASE"
| "area_base c Flash = FLASH_BASE"

primrec area_size :: "nemu_config \<Rightarrow> host_area \<Rightarrow> u32" where
  "area_size c Pmem = CONFIG_MSIZE c"
| "area_size c Mrom = MROM_SIZE"
| "area_size c Sram = SRAM_SIZE"
| "area_size c Flash = FLASH_SIZE"

definition in_pmem :: "nemu_config \<Rightarrow> paddr_t \<Rightarrow> bool" where
  "in_pmem c addr \<longleftrightarrow> addr - CONFIG_MBASE c < CONFIG_MSIZE c"

definition in_range :: "paddr_t \<Rightarrow> paddr_t \<Rightarrow> paddr_t \<Rightarrow> bool" where
  "in_range addr base sz \<longleftrightarrow> addr - base < sz"

definition in_mrom :: "paddr_t \<Rightarrow> bool" where
  "in_mrom addr = in_range addr MROM_BASE MROM_SIZE"

definition in_sram :: "paddr_t \<Rightarrow> bool" where
  "in_sram addr = in_range addr SRAM_BASE SRAM_SIZE"

definition in_flash :: "paddr_t \<Rightarrow> bool" where
  "in_flash addr = in_range addr FLASH_BASE FLASH_SIZE"

definition guest_to_host :: "nemu_config \<Rightarrow> paddr_t \<Rightarrow> host_ptr res" where
  "guest_to_host c paddr =
    (if in_pmem c paddr then Inr (Pmem, unat (paddr - CONFIG_MBASE c))
     else if in_mrom paddr then Inr (Mrom, unat (paddr - MROM_BASE))
     else if in_sram paddr then Inr (Sram, unat (paddr - SRAM_BASE))
     else if in_flash paddr then Inr (Flash, unat (paddr - FLASH_BASE))
     else Inl (Panic ''can not be converted to host address''))"

definition host_to_guest :: "nemu_config \<Rightarrow> host_ptr \<Rightarrow> paddr_t res" where
  "host_to_guest c haddr =
    (case haddr of (area, off) \<Rightarrow>
       if off < unat (area_size c area) then Inr (of_nat off + area_base c area)
       else Inl (Panic ''can not be converted to guest address''))"

definition pmem_read :: "nemu_config \<Rightarrow> paddr_t \<Rightarrow> nat \<Rightarrow> mem_state \<Rightarrow> u32 res" where
  "pmem_read c addr len s =
    ebind (guest_to_host c addr) (\<lambda>(area, off).
      host_read c (unat (area_size c area)) (area_bytes area s) off len)"

definition pmem_write :: "nemu_config \<Rightarrow> paddr_t \<Rightarrow> nat \<Rightarrow> u32 \<Rightarrow> mem_state \<Rightarrow> mem_state res" where
  "pmem_write c addr len data s =
    ebind (guest_to_host c addr) (\<lambda>(area, off).
      ebind (host_write c (unat (area_size c area)) (area_bytes area s) off len data) (\<lambda>b.
        Inr (area_set area b s)))"

text \<open>
  \<^verbatim>\<open>init_mem\<close>: with \<^verbatim>\<open>CONFIG_MEM_RANDOM\<close> every byte of \<^verbatim>\<open>pmem\<close> is set to the low byte of one
  \<^verbatim>\<open>rand()\<close>; the arrays are zero otherwise.
\<close>

definition mem_zero :: mem_state where
  "mem_zero = \<lparr>pmem = (\<lambda>_. 0), mrom = (\<lambda>_. 0), sram = (\<lambda>_. 0), flash = (\<lambda>_. 0)\<rparr>"

definition init_mem :: "nemu_config \<Rightarrow> u32 option \<Rightarrow> mem_state \<Rightarrow> mem_state" where
  "init_mem c random s =
    (case random of None \<Rightarrow> s
     | Some r \<Rightarrow> s\<lparr>pmem := (\<lambda>i. if i < unat (CONFIG_MSIZE c) then ucast r else pmem s i)\<rparr>)"

section \<open>Little-endian accesses\<close>

lemma store_le_outside: "j < a \<or> a + n \<le> j \<Longrightarrow> store_le m a n d j = m j"
  by (induction n arbitrary: m a d) auto

lemma store_le_inside: "i < n \<Longrightarrow> store_le m a n d (a + i) = ucast (drop_bit (8 * i) d)"
proof (induction n arbitrary: m a d i)
  case (Suc n)
  show ?case
  proof (cases i)
    case 0
    then show ?thesis by (simp add: store_le_outside)
  next
    case (Suc k)
    have "store_le (m(a := ucast d)) (Suc a) n (drop_bit 8 d) (Suc a + k)
        = ucast (drop_bit (8 * k) (drop_bit 8 d))"
      by (rule Suc.IH) (use Suc Suc.prems in simp)
    then show ?thesis using Suc by (simp add: drop_bit_drop_bit add.commute)
  qed
qed simp

lemma load_le_cong: "(\<And>i. i < n \<Longrightarrow> m (a + i) = m' (a + i)) \<Longrightarrow> load_le m a n = load_le m' a n"
proof (induction n arbitrary: a)
  case (Suc n)
  have "load_le m (Suc a) n = load_le m' (Suc a) n"
    by (rule Suc.IH) (use Suc.prems [of "Suc _"] in simp)
  moreover have "m a = m' a" using Suc.prems [of 0] by simp
  ultimately show ?case by simp
qed simp

lemma bit_load_le:
  "bit (load_le m a n) k \<longleftrightarrow> k < 32 \<and> k < 8 * n \<and> bit (m (a + k div 8)) (k mod 8)"
proof (induction n arbitrary: a k)
  case (Suc n)
  show ?case
  proof (cases "k < 8")
    case True
    then show ?thesis
      by (simp add: bit_or_iff bit_push_bit_iff bit_unsigned_iff)
  next
    case False
    then obtain j where k: "k = j + 8" using le_Suc_ex [of 8 k] by (auto simp: add.commute)
    have "\<not> bit (ucast (m a) :: u32) k"
      using False bit_imp_le_length [of "m a" k] by (auto simp: bit_unsigned_iff)
    moreover have "bit (push_bit 8 (load_le m (Suc a) n)) k \<longleftrightarrow> k < 32 \<and> bit (load_le m (Suc a) n) j"
      by (simp add: bit_push_bit_iff k)
    ultimately show ?thesis
      using Suc.IH [of "Suc a" j] by (auto simp: bit_or_iff k div_add_self2)
  qed
qed simp

lemma load_store_same: "n \<le> 4 \<Longrightarrow> load_le (store_le m a n d) a n = take_bit (8 * n) d"
proof (rule bit_eqI)
  fix k assume n: "n \<le> 4"
  show "bit (load_le (store_le m a n d) a n) k \<longleftrightarrow> bit (take_bit (8 * n) d) k"
  proof (cases "k < 8 * n")
    case True
    then have "k div 8 < n" by auto
    then have "bit (store_le m a n d (a + k div 8)) (k mod 8) \<longleftrightarrow> bit d k"
      by (simp add: store_le_inside bit_unsigned_iff bit_drop_bit_eq)
    then show ?thesis using True n by (auto simp: bit_load_le bit_take_bit_iff)
  qed (simp add: bit_load_le bit_take_bit_iff)
qed

lemma load_store_disjoint:
  "a + n \<le> b \<or> b + k \<le> a \<Longrightarrow> load_le (store_le m a n d) b k = load_le m b k"
  by (rule load_le_cong) (auto simp: store_le_outside)

lemma load_le_bound: "n < 4 \<Longrightarrow> unat (load_le m a n) < 2 ^ (8 * n)"
proof -
  have "load_le m a n = take_bit (8 * n) (load_le m a n)"
    by (rule bit_eqI) (auto simp: bit_load_le bit_take_bit_iff)
  then show ?thesis by (metis unsigned_take_bit_eq take_bit_nat_less_exp)
qed

lemma load_le_4:
  "load_le m a 4 = ucast (m a) OR push_bit 8 (ucast (m (a + 1)) OR
     push_bit 8 (ucast (m (a + 2)) OR push_bit 8 (ucast (m (a + 3)))))"
proof -
  have "4 = Suc (Suc (Suc (Suc 0)))" "a + 2 = Suc (Suc a)" "a + 3 = Suc (Suc (Suc a))" by simp_all
  then show ?thesis by (simp only: load_le.simps Suc_eq_plus1 [symmetric]) simp
qed

lemma load_le_one: "load_le m a 1 = ucast (m a)"
  by simp

section \<open>Byte stores as an interface\<close>

text \<open>
  What a client of a byte-addressed store may rely on: an access inside the accessible part
  succeeds, reads return what the last overlapping write left, and a write changes nothing else.
\<close>

locale byte_store =
  fixes rd :: "'a \<Rightarrow> nat \<Rightarrow> 's \<Rightarrow> u32 res"
    and wr :: "'a \<Rightarrow> nat \<Rightarrow> u32 \<Rightarrow> 's \<Rightarrow> 's res"
    and acc :: "'a \<Rightarrow> nat \<Rightarrow> bool"
    and disj :: "'a \<Rightarrow> nat \<Rightarrow> 'a \<Rightarrow> nat \<Rightarrow> bool"
  assumes rd_ok: "acc a n \<Longrightarrow> \<exists>v. rd a n s = Inr v"
    and wr_ok: "acc a n \<Longrightarrow> \<exists>s'. wr a n d s = Inr s'"
    and rd_wr_same: "acc a n \<Longrightarrow> wr a n d s = Inr s' \<Longrightarrow> rd a n s' = Inr (take_bit (8 * n) d)"
    and rd_wr_other: "acc a n \<Longrightarrow> acc b k \<Longrightarrow> disj a n b k \<Longrightarrow> wr a n d s = Inr s' \<Longrightarrow>
      rd b k s' = rd b k s"
    and disj_sym: "disj a n b k \<Longrightarrow> disj b k a n"
begin

primrec wr_all :: "('a \<times> nat \<times> u32) list \<Rightarrow> 's \<Rightarrow> 's res" where
  "wr_all [] s = Inr s"
| "wr_all (w # ws) s = ebind (wr (fst w) (fst (snd w)) (snd (snd w)) s) (wr_all ws)"

lemma wr_all_ok:
  "(\<And>a n d. (a, n, d) \<in> set ws \<Longrightarrow> acc a n) \<Longrightarrow> \<exists>s'. wr_all ws s = Inr s'"
proof (induction ws arbitrary: s)
  case (Cons w ws)
  obtain a n d where w: "w = (a, n, d)" by (cases w)
  obtain s1 where "wr a n d s = Inr s1" using wr_ok [of a n d s] Cons.prems [of a n d] w by auto
  then show ?case using Cons.IH [of s1] Cons.prems w by auto
qed simp

lemma wr_all_frame:
  "(\<And>a n d. (a, n, d) \<in> set ws \<Longrightarrow> acc a n \<and> disj a n b k) \<Longrightarrow> acc b k \<Longrightarrow>
   wr_all ws s = Inr s' \<Longrightarrow> rd b k s' = rd b k s"
proof (induction ws arbitrary: s)
  case (Cons w ws)
  obtain a n d where w: "w = (a, n, d)" by (cases w)
  obtain s1 where s1: "wr a n d s = Inr s1" "wr_all ws s1 = Inr s'" using Cons.prems(3) w by auto
  have "rd b k s' = rd b k s1"
    by (rule Cons.IH) (use Cons.prems s1 in auto)
  also have "\<dots> = rd b k s"
    using rd_wr_other [of a n b k d s s1] Cons.prems(1) [of a n d] Cons.prems(2) s1 w by simp
  finally show ?case .
qed simp

text \<open>A batch of pairwise disjoint writes can be read back in any order.\<close>

lemma wr_all_readback:
  assumes acc: "\<And>a n d. (a, n, d) \<in> set ws \<Longrightarrow> acc a n"
    and sep: "sorted_wrt (\<lambda>(a, n, _) (b, k, _). disj a n b k) ws"
    and run: "wr_all ws s = Inr s'" and mem: "(a, n, d) \<in> set ws"
  shows "rd a n s' = Inr (take_bit (8 * n) d)"
  using assms
proof (induction ws arbitrary: s)
  case (Cons w ws)
  obtain a1 n1 d1 where w: "w = (a1, n1, d1)" by (cases w)
  obtain s1 where s1: "wr a1 n1 d1 s = Inr s1" "wr_all ws s1 = Inr s'"
    using Cons.prems(3) w by auto
  show ?case
  proof (cases "(a, n, d) \<in> set ws")
    case True
    show ?thesis by (rule Cons.IH [of s1]) (use Cons.prems s1 True in auto)
  next
    case False
    then have eq: "(a, n, d) = (a1, n1, d1)" using Cons.prems(4) w by simp
    have "rd a n s' = rd a n s1"
      by (rule wr_all_frame [OF _ _ s1(2)])
        (use Cons.prems(1,2) w eq in \<open>auto intro: disj_sym\<close>)
    then show ?thesis using rd_wr_same [of a n d s s1] Cons.prems(1) [of a n d] s1 eq w by simp
  qed
qed simp

end

section \<open>The guest memory is a byte store\<close>

definition area_of :: "nemu_config \<Rightarrow> paddr_t \<Rightarrow> host_area option" where
  "area_of c a = (if in_pmem c a then Some Pmem else if in_mrom a then Some Mrom
     else if in_sram a then Some Sram else if in_flash a then Some Flash else None)"

lemma guest_to_host_area:
  "guest_to_host c a = (case area_of c a of None \<Rightarrow> Inl (Panic ''can not be converted to host address'')
     | Some ar \<Rightarrow> Inr (ar, unat (a - area_base c ar)))"
  by (simp add: guest_to_host_def area_of_def)

lemma area_of_bound: "area_of c a = Some ar \<Longrightarrow> a - area_base c ar < area_size c ar"
  by (auto simp: area_of_def in_pmem_def in_mrom_def in_sram_def in_flash_def in_range_def
      split: if_splits)

text \<open>The bytes \<open>[a, a + n)\<close> lie in one host array.\<close>

definition mem_acc :: "nemu_config \<Rightarrow> paddr_t \<Rightarrow> nat \<Rightarrow> bool" where
  "mem_acc c a n \<longleftrightarrow> (n = 1 \<or> n = 2 \<or> n = 4) \<and>
     (case area_of c a of None \<Rightarrow> False
      | Some ar \<Rightarrow> unat (a - area_base c ar) + n \<le> unat (area_size c ar))"

definition mem_disj :: "nemu_config \<Rightarrow> paddr_t \<Rightarrow> nat \<Rightarrow> paddr_t \<Rightarrow> nat \<Rightarrow> bool" where
  "mem_disj c a n b k \<longleftrightarrow> area_of c a \<noteq> area_of c b \<or>
     (case area_of c a of None \<Rightarrow> True | Some ar \<Rightarrow>
       unat (a - area_base c ar) + n \<le> unat (b - area_base c ar) \<or>
       unat (b - area_base c ar) + k \<le> unat (a - area_base c ar))"

lemma area_bytes_set [simp]:
  "area_bytes ar (area_set ar' b s) = (if ar = ar' then b else area_bytes ar s)"
  by (cases ar; cases ar') auto

lemma mem_accE:
  assumes "mem_acc c a n"
  obtains ar off where "area_of c a = Some ar" "off = unat (a - area_base c ar)"
    "off + n \<le> unat (area_size c ar)" "n \<le> 4" "n = 1 \<or> n = 2 \<or> n = 4"
  using assms by (auto simp: mem_acc_def split: option.splits)

lemma pmem_read_eq:
  assumes "area_of c a = Some ar" "off = unat (a - area_base c ar)"
    "off + n \<le> unat (area_size c ar)" "n = 1 \<or> n = 2 \<or> n = 4"
  shows "pmem_read c a n s = Inr (load_le (area_bytes ar s) off n)"
  using assms by (simp add: pmem_read_def guest_to_host_area host_read_def)

lemma pmem_write_eq:
  assumes "area_of c a = Some ar" "off = unat (a - area_base c ar)"
    "off + n \<le> unat (area_size c ar)" "n = 1 \<or> n = 2 \<or> n = 4"
  shows "pmem_write c a n d s = Inr (area_set ar (store_le (area_bytes ar s) off n d) s)"
  using assms by (simp add: pmem_write_def guest_to_host_area host_write_def)

lemma pmem_rd_wr_same:
  assumes "mem_acc c a n" "pmem_write c a n d s = Inr s'"
  shows "pmem_read c a n s' = Inr (take_bit (8 * n) d)"
  using assms(1)
proof (rule mem_accE)
  fix ar off assume *: "area_of c a = Some ar" "off = unat (a - area_base c ar)"
    "off + n \<le> unat (area_size c ar)" "n \<le> 4" "n = 1 \<or> n = 2 \<or> n = 4"
  have "s' = area_set ar (store_le (area_bytes ar s) off n d) s"
    using pmem_write_eq [OF *(1,2,3,5)] assms(2) by simp
  then show ?thesis using pmem_read_eq [OF *(1,2,3,5)] load_store_same [OF *(4)] by simp
qed

lemma pmem_rd_wr_other:
  assumes "mem_acc c a n" "mem_acc c b k" "mem_disj c a n b k" "pmem_write c a n d s = Inr s'"
  shows "pmem_read c b k s' = pmem_read c b k s"
  using assms(1)
proof (rule mem_accE)
  fix ar off assume *: "area_of c a = Some ar" "off = unat (a - area_base c ar)"
    "off + n \<le> unat (area_size c ar)" "n \<le> 4" "n = 1 \<or> n = 2 \<or> n = 4"
  have s': "s' = area_set ar (store_le (area_bytes ar s) off n d) s"
    using pmem_write_eq [OF *(1,2,3,5)] assms(4) by simp
  show ?thesis using assms(2)
  proof (rule mem_accE)
    fix br boff assume b: "area_of c b = Some br" "boff = unat (b - area_base c br)"
      "boff + k \<le> unat (area_size c br)" "k \<le> 4" "k = 1 \<or> k = 2 \<or> k = 4"
    have "load_le (area_bytes br s') boff k = load_le (area_bytes br s) boff k"
      using assms(3) *(1,2) b(1,2) by (auto simp: s' mem_disj_def load_store_disjoint)
    then show ?thesis using pmem_read_eq [OF b(1,2,3,5)] by simp
  qed
qed

interpretation pm: byte_store "pmem_read c" "pmem_write c" "mem_acc c" "mem_disj c" for c
proof unfold_locales
  fix a n s d
  assume "mem_acc c a n"
  then show "\<exists>v. pmem_read c a n s = Inr v" and "\<exists>s'. pmem_write c a n d s = Inr s'"
    by (auto elim!: mem_accE simp: pmem_read_eq pmem_write_eq)
next
  fix a n b k assume "mem_disj c a n b k"
  then show "mem_disj c b k a n" by (auto simp: mem_disj_def split: option.splits)
qed (simp_all add: pmem_rd_wr_same pmem_rd_wr_other)

text \<open>
  \<^verbatim>\<open>guest_to_host\<close> and \<^verbatim>\<open>host_to_guest\<close> agree: every guest address that
  translates comes back from its host pointer, and its offset is inside the array the pointer is in.
\<close>

lemma guest_host_roundtrip:
  assumes "guest_to_host c a = Inr h"
  shows "host_to_guest c h = Inr a \<and> snd h < unat (area_size c (fst h))"
proof -
  obtain ar where ar: "area_of c a = Some ar" and h: "h = (ar, unat (a - area_base c ar))"
    using assms by (auto simp: guest_to_host_area split: option.splits)
  have "unat (a - area_base c ar) < unat (area_size c ar)"
    using area_of_bound [OF ar] by (simp add: word_less_nat_alt)
  then show ?thesis by (simp add: h host_to_guest_def)
qed

text \<open>The other direction of the round trip, in the default configuration.\<close>

lemma unat_of_nat_minus:
  fixes off k :: nat
  assumes "off < k" "k < 2 ^ 32"
  shows "unat (of_nat off - of_nat k :: u32) = off + 2 ^ 32 - k"
proof -
  have "of_nat off - of_nat k = (of_nat (off + 2 ^ 32 - k) :: u32)"
    using assms by (simp add: of_nat_diff)
  moreover have "unat (of_nat (off + 2 ^ 32 - k) :: u32) = off + 2 ^ 32 - k"
    unfolding unsigned_of_nat of_nat_id by (rule take_bit_nat_eq_self) (use assms in simp)
  ultimately show ?thesis by (simp only:)
qed

lemma area_of_base:
  assumes "off < unat (area_size quiet_config ar)"
  shows "area_of quiet_config (of_nat off + area_base quiet_config ar) = Some ar"
proof -
  have off: "off < 2 ^ 32"
    using assms unsigned_less [where ?'a = nat, of "area_size quiet_config ar"] by simp
  show ?thesis
    using assms off
      unat_of_nat_minus [of off "0x60000000"] unat_of_nat_minus [of off "0x11000000"]
      unat_of_nat_minus [of off "0x71000000"] unat_of_nat_minus [of off "0x50000000"]
    by (cases ar) (auto simp: area_of_def in_pmem_def in_mrom_def in_sram_def in_flash_def
        in_range_def area_consts quiet_config_def word_less_nat_alt unat_of_nat unat_word_ariths(1)
        take_bit_nat_def)
qed

lemma host_guest_roundtrip:
  assumes "host_to_guest quiet_config h = Inr a"
  shows "guest_to_host quiet_config a = Inr h"
proof -
  obtain ar off where h: "h = (ar, off)" by (cases h)
  have off: "off < unat (area_size quiet_config ar)"
    and a: "a = of_nat off + area_base quiet_config ar"
    using assms by (auto simp: h host_to_guest_def split: if_splits)
  have "off < 2 ^ 32"
    using off unsigned_less [where ?'a = nat, of "area_size quiet_config ar"] by simp
  then show ?thesis
    using area_of_base [OF off]
    by (simp add: guest_to_host_area a h unat_of_nat take_bit_nat_def)
qed

end
