(* ===== verification/Nemu_Io_Map.thy ===== *)
theory Nemu_Io_Map
  imports Nemu_Memory
begin

text \<open>
  The device address maps of \<^verbatim>\<open>nemu/src/device/io/\<close> (\<^verbatim>\<open>map.c\<close>, \<^verbatim>\<open>mmio.c\<close>, \<^verbatim>\<open>port-io.c\<close>) and
  \<^verbatim>\<open>nemu/include/device/map.h\<close>: the page-aligned allocation of the I/O space, the registration of regions
  with the overlap checks, and the dispatch of an access to the region that holds its address. A
  device callback is a function on the device state; the mps are fixed once the devices are
  initialised, so they are an argument of the accesses. The flags of the differential tester that
  every device access sets (\<^verbatim>\<open>difftest_skip_ref\<close>) are here as well.
\<close>

section \<open>State\<close>

text \<open>
  All the state the device models keep: the I/O space they allocate their registers in (offsets
  into it stand for the pointers \<^verbatim>\<open>space\<close>, \<^verbatim>\<open>serial_base\<close>, and so on), the variables of each device, and
  what the host provides: a clock that gives one sample per read, the bytes the serial port put out,
  the frames shown, the opened audio streams and the sdcard image with its file position.
\<close>

record dev_state =
  io_space :: bytes
  p_space :: nat
  serial_base :: nat
  serial_out :: "u8 list"
  host_clock :: "nat \<Rightarrow> u64"
  clock_reads :: nat
  boot_time :: u64
  rtc_port_base :: nat
  vmem :: nat
  vgactl_port_base :: nat
  frames :: "u8 list list"
  keymap :: "nat \<Rightarrow> u32"
  key_queue :: "u32 list"
  key_f :: nat
  key_r :: nat
  i8042_data_port_base :: nat
  sd_fp :: "(u8 list \<times> nat) option"
  sd_base :: nat
  blkcnt :: u32
  blk_addr :: u64
  sd_addr :: u32
  write_cmd :: bool
  read_ext_csd :: bool
  sbuf :: nat
  audio_base :: nat
  audio_head :: u32
  audio_opened :: "(u32 \<times> u8 \<times> u16) list"
  last_update :: u64

text \<open>The static initial values of the device variables, with a host clock and an sdcard image.\<close>

definition dev_zero :: "(nat \<Rightarrow> u64) \<Rightarrow> u8 list option \<Rightarrow> dev_state" where
  "dev_zero clk img =
    \<lparr>io_space = (\<lambda>_. 0), p_space = 0, serial_base = 0, serial_out = [], host_clock = clk,
     clock_reads = 0, boot_time = 0, rtc_port_base = 0, vmem = 0, vgactl_port_base = 0, frames = [],
     keymap = (\<lambda>_. 0), key_queue = replicate 1024 0, key_f = 0, key_r = 0,
     i8042_data_port_base = 0, sd_fp = map_option (\<lambda>b. (b, 0)) img, sd_base = 0, blkcnt = 0,
     blk_addr = 0, sd_addr = 0, write_cmd = False, read_ext_csd = False, sbuf = 0, audio_base = 0,
     audio_head = 0, audio_opened = [], last_update = 0\<rparr>"

type_synonym io_callback_t = "u32 \<Rightarrow> nat \<Rightarrow> bool \<Rightarrow> dev_state \<Rightarrow> dev_state res"

record IOMap =
  map_name :: string
  map_low :: paddr_t
  map_high :: paddr_t
  map_space :: nat
  map_callback :: "io_callback_t option"

record difftest_flags =
  is_skip_ref :: bool
  skip_dut_nr_inst :: int

text \<open>\<^verbatim>\<open>difftest_skip_ref\<close>; without \<^verbatim>\<open>CONFIG_DIFFTEST\<close> it is an empty inline function.\<close>

definition difftest_skip_ref :: "nemu_config \<Rightarrow> difftest_flags \<Rightarrow> difftest_flags" where
  "difftest_skip_ref c dt =
    (if CONFIG_DIFFTEST c then dt\<lparr>is_skip_ref := True, skip_dut_nr_inst := 0\<rparr> else dt)"

section \<open>map.c\<close>

definition IO_SPACE_MAX :: nat where "IO_SPACE_MAX = 32 * 1024 * 1024"
definition PAGE_SIZE :: nat where "PAGE_SIZE = 2 ^ 12"

text \<open>
  The size is an \<^verbatim>\<open>int\<close>: \<^verbatim>\<open>(size + (PAGE_SIZE - 1)) & ~PAGE_MASK\<close> extends it to \<^verbatim>\<open>unsigned long\<close>, and the result is cut back to an
  \<^verbatim>\<open>int\<close>. \<^verbatim>\<open>new_space\<close> advances the allocation pointer before it checks it, and only against the end of the I/O space: a
  negative size moves the pointer back, which is undefined when it leaves the array at its front.
\<close>

definition page_round :: "u32 \<Rightarrow> u32" where
  "page_round sz = ucast (((scast sz :: u64) + (2 ^ 12 - 1)) AND NOT (2 ^ 12 - 1))"

definition new_space :: "u32 \<Rightarrow> dev_state \<Rightarrow> (nat \<times> dev_state) res" where
  "new_space sz d =
    (let p = p_space d; p' = int (p_space d) + sint (page_round sz) in
     ebind (echeck (0 \<le> p') (Undef ''pointer before its array'')) (\<lambda>_.
     ebind (echeck (p' < int IO_SPACE_MAX) Assert_fail) (\<lambda>_. Inr (p, d\<lparr>p_space := nat p'\<rparr>))))"

definition init_map :: "bytes \<Rightarrow> dev_state \<Rightarrow> dev_state" where
  "init_map fresh d = d\<lparr>io_space := fresh, p_space := 0\<rparr>"

definition check_bound :: "IOMap option \<Rightarrow> paddr_t \<Rightarrow> unit res" where
  "check_bound mp addr =
    (case mp of None \<Rightarrow> Inl (Panic ''address is out of bound'')
     | Some m \<Rightarrow> echeck (addr \<le> map_high m \<and> addr \<ge> map_low m) (Panic ''address is out of bound''))"

definition invoke_callback :: "io_callback_t option \<Rightarrow> io_callback_t" where
  "invoke_callback cb offset len is_write d =
    (case cb of None \<Rightarrow> Inr d | Some f \<Rightarrow> f offset len is_write d)"

definition io_load :: "nemu_config \<Rightarrow> nat \<Rightarrow> nat \<Rightarrow> dev_state \<Rightarrow> u32 res" where
  "io_load c off len d = host_read c IO_SPACE_MAX (io_space d) off len"

definition io_store :: "nemu_config \<Rightarrow> nat \<Rightarrow> nat \<Rightarrow> u32 \<Rightarrow> dev_state \<Rightarrow> dev_state res" where
  "io_store c off len data d =
    ebind (host_write c IO_SPACE_MAX (io_space d) off len data) (\<lambda>b. Inr (d\<lparr>io_space := b\<rparr>))"

definition map_read :: "nemu_config \<Rightarrow> paddr_t \<Rightarrow> nat \<Rightarrow> IOMap option \<Rightarrow> dev_state \<Rightarrow> (u32 \<times> dev_state) res" where
  "map_read c addr len mp d =
    ebind (echeck (len \<ge> 1 \<and> len \<le> 8) Assert_fail) (\<lambda>_.
    ebind (check_bound mp addr) (\<lambda>_.
      let m = the mp; offset = addr - map_low m in
      ebind (invoke_callback (map_callback m) offset len False d) (\<lambda>d'.
      ebind (io_load c (map_space m + unat offset) len d') (\<lambda>ret. Inr (ret, d')))))"

definition map_write :: "nemu_config \<Rightarrow> paddr_t \<Rightarrow> nat \<Rightarrow> u32 \<Rightarrow> IOMap option \<Rightarrow> dev_state \<Rightarrow> dev_state res" where
  "map_write c addr len data mp d =
    ebind (echeck (len \<ge> 1 \<and> len \<le> 8) Assert_fail) (\<lambda>_.
    ebind (check_bound mp addr) (\<lambda>_.
      let m = the mp; offset = addr - map_low m in
      ebind (io_store c (map_space m + unat offset) len data d) (\<lambda>d'.
      invoke_callback (map_callback m) offset len True d')))"

section \<open>map.h\<close>

definition map_inside :: "IOMap \<Rightarrow> paddr_t \<Rightarrow> bool" where
  "map_inside m addr \<longleftrightarrow> addr \<ge> map_low m \<and> addr \<le> map_high m"

text \<open>The index of the first region that holds the address (the C code's -1 is \<open>None\<close>).\<close>

fun find_mapid_from :: "nat \<Rightarrow> IOMap list \<Rightarrow> paddr_t \<Rightarrow> nat option" where
  "find_mapid_from i [] addr = None"
| "find_mapid_from i (m # ms) addr =
    (if map_inside m addr then Some i else find_mapid_from (Suc i) ms addr)"

definition find_mapid_by_addr :: "nemu_config \<Rightarrow> IOMap list \<Rightarrow> paddr_t \<Rightarrow> difftest_flags \<Rightarrow>
    nat option \<times> difftest_flags" where
  "find_mapid_by_addr c maps addr dt =
    (case find_mapid_from 0 maps addr of None \<Rightarrow> (None, dt)
     | Some i \<Rightarrow> (Some i, difftest_skip_ref c dt))"

section \<open>mmio.c\<close>

definition NR_MAP :: nat where "NR_MAP = 16"

definition fetch_mmio_map :: "nemu_config \<Rightarrow> IOMap list \<Rightarrow> paddr_t \<Rightarrow> difftest_flags \<Rightarrow>
    IOMap option \<times> difftest_flags" where
  "fetch_mmio_map c maps addr dt =
    (case find_mapid_by_addr c maps addr dt of (mapid, dt') \<Rightarrow>
      (case mapid of None \<Rightarrow> None | Some i \<Rightarrow> Some (maps ! i), dt'))"

definition mmio_overlap :: "paddr_t \<Rightarrow> paddr_t \<Rightarrow> IOMap \<Rightarrow> bool" where
  "mmio_overlap left right m \<longleftrightarrow> left \<le> map_high m \<and> right \<ge> map_low m"

definition add_mmio_map :: "nemu_config \<Rightarrow> string \<Rightarrow> paddr_t \<Rightarrow> nat \<Rightarrow> u32 \<Rightarrow> io_callback_t option \<Rightarrow>
    IOMap list \<Rightarrow> IOMap list res" where
  "add_mmio_map c nm addr sp len cb maps =
    ebind (echeck (length maps < NR_MAP) Assert_fail) (\<lambda>_.
      let left = addr; right = addr + len - 1 in
      ebind (echeck (\<not> (in_pmem c left \<or> in_pmem c right)) (Panic ''MMIO region is overlapped'')) (\<lambda>_.
      ebind (echeck (\<not> list_ex (mmio_overlap left right) maps) (Panic ''MMIO region is overlapped'')) (\<lambda>_.
      Inr (maps @ [\<lparr>map_name = nm, map_low = addr, map_high = addr + len - 1, map_space = sp, map_callback = cb\<rparr>]))))"

definition mmio_read :: "nemu_config \<Rightarrow> IOMap list \<Rightarrow> paddr_t \<Rightarrow> nat \<Rightarrow> dev_state \<times> difftest_flags \<Rightarrow>
    (u32 \<times> dev_state \<times> difftest_flags) res" where
  "mmio_read c maps addr len s =
    (case fetch_mmio_map c maps addr (snd s) of (m, dt) \<Rightarrow>
      ebind (map_read c addr len m (fst s)) (\<lambda>(ret, d). Inr (ret, d, dt)))"

definition mmio_write :: "nemu_config \<Rightarrow> IOMap list \<Rightarrow> paddr_t \<Rightarrow> nat \<Rightarrow> u32 \<Rightarrow> dev_state \<times> difftest_flags \<Rightarrow>
    (dev_state \<times> difftest_flags) res" where
  "mmio_write c maps addr len data s =
    (case fetch_mmio_map c maps addr (snd s) of (m, dt) \<Rightarrow>
      ebind (map_write c addr len data m (fst s)) (\<lambda>d. Inr (d, dt)))"

section \<open>port-io.c\<close>

definition PORT_IO_SPACE_MAX :: nat where "PORT_IO_SPACE_MAX = 65535"

text \<open>A port address is 16 bits wide; the sums of the bounds checks are computed in 32 bits.\<close>

definition add_pio_map :: "string \<Rightarrow> u16 \<Rightarrow> nat \<Rightarrow> u32 \<Rightarrow> io_callback_t option \<Rightarrow>
    IOMap list \<Rightarrow> IOMap list res" where
  "add_pio_map nm addr sp len cb maps =
    ebind (echeck (length maps < NR_MAP) Assert_fail) (\<lambda>_.
    ebind (echeck (unat (ucast addr + len :: u32) \<le> PORT_IO_SPACE_MAX) Assert_fail) (\<lambda>_.
      Inr (maps @ [\<lparr>map_name = nm, map_low = ucast addr, map_high = ucast addr + len - 1, map_space = sp,
                    map_callback = cb\<rparr>])))"

definition pio_read :: "nemu_config \<Rightarrow> IOMap list \<Rightarrow> u16 \<Rightarrow> nat \<Rightarrow> dev_state \<times> difftest_flags \<Rightarrow>
    (u32 \<times> dev_state \<times> difftest_flags) res" where
  "pio_read c maps addr len s =
    ebind (echeck (int (unat addr) + int len - 1 < int PORT_IO_SPACE_MAX) Assert_fail) (\<lambda>_.
      case find_mapid_by_addr c maps (ucast addr) (snd s) of (mapid, dt) \<Rightarrow>
        (case mapid of None \<Rightarrow> Inl Assert_fail
         | Some i \<Rightarrow> ebind (map_read c (ucast addr) len (Some (maps ! i)) (fst s))
                      (\<lambda>(ret, d). Inr (ret, d, dt))))"

definition pio_write :: "nemu_config \<Rightarrow> IOMap list \<Rightarrow> u16 \<Rightarrow> nat \<Rightarrow> u32 \<Rightarrow> dev_state \<times> difftest_flags \<Rightarrow>
    (dev_state \<times> difftest_flags) res" where
  "pio_write c maps addr len data s =
    ebind (echeck (int (unat addr) + int len - 1 < int PORT_IO_SPACE_MAX) Assert_fail) (\<lambda>_.
      case find_mapid_by_addr c maps (ucast addr) (snd s) of (mapid, dt) \<Rightarrow>
        (case mapid of None \<Rightarrow> Inl Assert_fail
         | Some i \<Rightarrow> ebind (map_write c (ucast addr) len data (Some (maps ! i)) (fst s))
                      (\<lambda>d. Inr (d, dt))))"

section \<open>The I/O space is a byte store\<close>

definition io_acc :: "nat \<Rightarrow> nat \<Rightarrow> bool" where
  "io_acc a n \<longleftrightarrow> (n = 1 \<or> n = 2 \<or> n = 4) \<and> a + n \<le> IO_SPACE_MAX"

lemma io_load_eq: "io_acc a n \<Longrightarrow> io_load c a n d = Inr (load_le (io_space d) a n)"
  by (auto simp: io_acc_def io_load_def host_read_def)

lemma io_store_eq:
  "io_acc a n \<Longrightarrow> io_store c a n v d = Inr (d\<lparr>io_space := store_le (io_space d) a n v\<rparr>)"
  by (auto simp: io_acc_def io_store_def host_write_def)

lemma io_acc_le4: "io_acc a n \<Longrightarrow> n \<le> 4"
  by (auto simp: io_acc_def)

interpretation io: byte_store "io_load c" "io_store c" io_acc "\<lambda>a n b k. a + n \<le> b \<or> b + k \<le> a" for c
proof unfold_locales
  fix a n b k v and d d' :: dev_state
  assume "io_acc a n" "io_store c a n v d = Inr d'"
  then show "io_load c a n d' = Inr (take_bit (8 * n) v)"
    by (auto simp: io_load_eq io_store_eq io_acc_le4 load_store_same)
next
  fix a n b k v and d d' :: dev_state
  assume *: "io_acc a n" "io_acc b k" "a + n \<le> b \<or> b + k \<le> a" "io_store c a n v d = Inr d'"
  have d': "d' = d\<lparr>io_space := store_le (io_space d) a n v\<rparr>"
    using *(4) io_store_eq [OF *(1), of c v d] by simp
  show "io_load c b k d' = io_load c b k d"
    unfolding io_load_eq [OF *(2)] d' using load_store_disjoint [OF *(3)] by simp
qed (auto simp: io_load_eq io_store_eq)

section \<open>Allocation\<close>

definition io_inv :: "dev_state \<Rightarrow> bool" where
  "io_inv d \<longleftrightarrow> p_space d mod PAGE_SIZE = 0 \<and> p_space d < IO_SPACE_MAX"

lemma page_round_eq: "page_round sz = (sz + mask 12) AND NOT (mask 12)"
proof -
  have m: "(2 ^ 12 - 1 :: u64) = mask 12" by (simp add: mask_eq_exp_minus_1)
  have "(ucast ((scast sz :: u64) + mask 12) :: u32) = sz + mask 12"
  proof -
    have "(ucast (word_of_int k :: u64) :: u32) = word_of_int k" for k
      by (rule word_uint_eqI) (simp add: unsigned_ucast_eq uint_word_of_int take_bit_eq_mod mod_mod_cancel)
    from this [of "sint sz + 4095"] show ?thesis by (simp add: mask_eq_exp_minus_1)
  qed
  moreover have "(ucast (w AND NOT (mask 12)) :: u32) = ucast w AND NOT (mask 12)" for w :: u64
    by (rule bit_word_eqI) (auto simp: bit_simps)
  ultimately show ?thesis by (simp only: page_round_def m)
qed

lemma page_round_unat: "unat (page_round sz) = unat (sz + mask 12) div PAGE_SIZE * PAGE_SIZE"
  by (simp add: page_round_eq unat_and_not_mask PAGE_SIZE_def)

text \<open>A size that is not negative as an \<^verbatim>\<open>int\<close> is rounded up, unless rounding leaves the type: then the result is the smallest \<^verbatim>\<open>int\<close>.\<close>

lemma page_round:
  assumes "0 \<le> sint sz"
  shows "unat sz \<le> unat (page_round sz)" "page_round sz = 0x80000000 \<or> sint (page_round sz) = int (unat (page_round sz))"
proof -
  have lt: "unat sz < 2 ^ 31" using assms nat_sint_pos [of sz] sint_lt [of sz] by (simp flip: nat_sint_pos)
  then have u: "unat (sz + mask 12) = unat sz + 4095" by (simp add: unat_word_ariths mask_eq_exp_minus_1)
  show "unat sz \<le> unat (page_round sz)" unfolding page_round_unat u PAGE_SIZE_def by simp
  have le: "unat (page_round sz) \<le> 2 ^ 31" using lt unfolding page_round_unat u PAGE_SIZE_def by simp
  show "page_round sz = 0x80000000 \<or> sint (page_round sz) = int (unat (page_round sz))"
  proof (cases "unat (page_round sz) = 2 ^ 31")
    case True
    then show ?thesis by (auto simp: word_unat_eq_iff)
  next
    case False
    then have "unat (page_round sz) < 2 ^ 31" using le by (rule le_neq_implies_less [rotated])
    then have "int (unat (page_round sz)) < int (2 ^ 31)" by (simp only: of_nat_less_iff)
    then show ?thesis by (simp add: sint_u32)
  qed
qed

text \<open>A page-aligned pointer below the end of the I/O space leaves a whole page before the end.\<close>

lemma io_slack: "io_inv d \<Longrightarrow> p_space d + PAGE_SIZE \<le> IO_SPACE_MAX"
  by (auto simp: io_inv_def PAGE_SIZE_def IO_SPACE_MAX_def)

lemma new_space_props:
  assumes "new_space sz d = Inr (p, d')" "io_inv d" "0 \<le> sint sz"
  shows "io_inv d'" "p = p_space d" "p mod PAGE_SIZE = 0" "p + unat sz \<le> p_space d'"
    "d' = d\<lparr>p_space := p_space d'\<rparr>"
proof -
  define r where "r = page_round sz"
  have d': "p = p_space d" "d' = d\<lparr>p_space := nat (int (p_space d) + sint r)\<rparr>" "0 \<le> int (p_space d) + sint r"
    "int (p_space d) + sint r < int IO_SPACE_MAX"
    using assms(1) by (auto simp: new_space_def Let_def r_def)
  have "r \<noteq> 0x80000000"
  proof
    assume "r = 0x80000000"
    then have "sint r = - (2 ^ 31)" by simp
    then show False using d'(3) assms(2) by (simp add: io_inv_def IO_SPACE_MAX_def)
  qed
  then have r: "sint r = int (unat r)" "unat sz \<le> unat r" using page_round [OF assms(3)] by (simp_all add: r_def)
  have ps: "p_space d' = p_space d + unat r" unfolding d'(2) r(1) by (simp add: nat_add_distrib)
  have "unat r mod PAGE_SIZE = 0" by (simp add: r_def page_round_unat)
  moreover have "p_space d' < IO_SPACE_MAX" using d'(4) unfolding ps r(1) by linarith
  ultimately show "io_inv d'" using assms(2) ps by (simp add: io_inv_def mod_add_eq [symmetric])
  show "p = p_space d" "p mod PAGE_SIZE = 0" "p + unat sz \<le> p_space d'" "d' = d\<lparr>p_space := p_space d'\<rparr>"
    using d'(1,2) assms(2) ps r(2) by (simp_all add: io_inv_def)
qed

text \<open>The bytes of a region lie below the allocation pointer.\<close>

definition region_ok :: "dev_state \<Rightarrow> IOMap \<Rightarrow> bool" where
  "region_ok d m \<longleftrightarrow> map_space m + unat (map_high m - map_low m) < p_space d"

lemma region_io_acc:
  assumes "region_ok d m" "io_inv d" "map_inside m addr" "n = 1 \<or> n = 2 \<or> n = 4"
  shows "io_acc (map_space m + unat (addr - map_low m)) n"
proof -
  have "addr - map_low m \<le> map_high m - map_low m"
    using assms(3) by (simp add: map_inside_def word_le_minus_mono_left)
  then have "unat (addr - map_low m) \<le> unat (map_high m - map_low m)"
    by (simp add: word_le_nat_alt)
  then show ?thesis
    using assms(1,4) io_slack [OF assms(2)]
    by (auto simp: io_acc_def region_ok_def PAGE_SIZE_def)
qed

section \<open>Lookup\<close>

text \<open>The addresses of a region, and regions of which no two share an address.\<close>

definition region_addrs :: "IOMap \<Rightarrow> nat set" where
  "region_addrs m = {unat (map_low m)..unat (map_high m)}"

definition maps_disjoint :: "IOMap list \<Rightarrow> bool" where
  "maps_disjoint maps \<longleftrightarrow> length maps \<le> NR_MAP \<and> sorted_wrt (\<lambda>m m'. region_addrs m \<inter> region_addrs m' = {}) maps"

lemma mmio_overlap_sound: "\<not> mmio_overlap left right m \<Longrightarrow> region_addrs m \<inter> {unat left..unat right} = {}"
  by (auto simp: mmio_overlap_def region_addrs_def word_le_nat_alt)

lemma add_mmio_map_eq:
  assumes "add_mmio_map c nm addr sp len cb maps = Inr maps'"
  shows "maps' = maps @ [\<lparr>map_name = nm, map_low = addr, map_high = addr + len - 1,
                          map_space = sp, map_callback = cb\<rparr>]"
    and "length maps < NR_MAP" and "\<not> in_pmem c addr" and "\<not> in_pmem c (addr + len - 1)"
    and "\<forall>m \<in> set maps. \<not> mmio_overlap addr (addr + len - 1) m"
  using assms by (auto simp: add_mmio_map_def Let_def list_ex_iff)

lemma maps_disjoint_add [nemu_inv]:
  assumes "add_mmio_map c nm addr sp len cb maps = Inr maps'" "maps_disjoint maps"
  shows "maps_disjoint maps'"
proof -
  note eq = add_mmio_map_eq [OF assms(1)]
  have "region_addrs m \<inter> region_addrs \<lparr>map_name = nm, map_low = addr, map_high = addr + len - 1, map_space = sp, map_callback = cb\<rparr> = {}"
    if "m \<in> set maps" for m
    using mmio_overlap_sound [of addr "addr + len - 1" m] eq(5) that by (simp add: region_addrs_def)
  then show ?thesis using assms(2) eq(1,2) by (auto simp: maps_disjoint_def sorted_wrt_append)
qed

lemma find_mapid_from_SomeD:
  "find_mapid_from i maps addr = Some j \<Longrightarrow> i \<le> j \<and> j < i + length maps \<and> map_inside (maps ! (j - i)) addr"
proof (induction i maps addr rule: find_mapid_from.induct)
  case (2 i m ms addr)
  show ?case
  proof (cases "map_inside m addr")
    case False
    then have "Suc i \<le> j \<and> j < Suc i + length ms \<and> map_inside (ms ! (j - Suc i)) addr"
      using 2 by simp
    then show ?thesis by (auto simp: nth_Cons' Suc_diff_Suc)
  qed (use 2 in auto)
qed simp

lemma find_mapid_from_NoneD:
  "find_mapid_from i maps addr = None \<longleftrightarrow> (\<forall>m \<in> set maps. \<not> map_inside m addr)"
  by (induction i maps addr rule: find_mapid_from.induct) auto

lemma inside_unique:
  assumes "maps_disjoint maps" "i < length maps" "j < length maps"
    "map_inside (maps ! i) addr" "map_inside (maps ! j) addr"
  shows "i = j"
proof (rule ccontr)
  assume "i \<noteq> j"
  have no: "region_addrs (maps ! a) \<inter> region_addrs (maps ! b) = {}" if "a < b" "b < length maps" for a b
    using assms(1) that by (auto simp: maps_disjoint_def sorted_wrt_iff_nth_less)
  have "unat addr \<in> region_addrs (maps ! i) \<inter> region_addrs (maps ! j)"
    using assms(4,5) by (simp add: region_addrs_def map_inside_def word_le_nat_alt)
  then show False using \<open>i \<noteq> j\<close> no [of i j] no [of j i] assms(2,3) by (cases "i < j") auto
qed

lemma find_mapid_unique:
  assumes "maps_disjoint maps" "i < length maps" "map_inside (maps ! i) addr"
  shows "find_mapid_from 0 maps addr = Some i"
proof (cases "find_mapid_from 0 maps addr")
  case None
  then show ?thesis using assms find_mapid_from_NoneD [of 0 maps addr] by auto
next
  case (Some j)
  then show ?thesis
    using find_mapid_from_SomeD [OF Some] inside_unique [OF assms(1), of i j addr] assms by auto
qed

lemma fetch_mmio_map_unique:
  assumes "maps_disjoint maps" "m \<in> set maps" "map_inside m addr"
  shows "fetch_mmio_map c maps addr dt = (Some m, difftest_skip_ref c dt)"
proof -
  obtain i where "i < length maps" "maps ! i = m" using assms(2) by (auto simp: in_set_conv_nth)
  then show ?thesis
    using find_mapid_unique [OF assms(1), of i addr] assms(3)
    by (simp add: fetch_mmio_map_def find_mapid_by_addr_def)
qed

text \<open>
  an MMIO access inside a registered plain region (no callback) of a state the allocator built
  always succeeds for the supported lengths, whatever the order the regions were registered in: a
  write followed by a read of the same address returns the bytes written, the I/O space is never
  left even at the last byte of a region, nothing but the addressed bytes changes, and the
  reference of the differential tester is told to skip the instruction.
\<close>

lemma mmio_write_read:
  assumes "maps_disjoint maps" "m \<in> set maps" "map_callback m = None" "region_ok d m" "io_inv d"
    and "map_inside m addr" "len = 1 \<or> len = 2 \<or> len = 4"
  shows "\<exists>d'. mmio_write c maps addr len data (d, dt) = Inr (d', difftest_skip_ref c dt) \<and>
    mmio_read c maps addr len (d', dt) = Inr (take_bit (8 * len) data, d', difftest_skip_ref c dt) \<and>
    (\<forall>i. i < map_space m + unat (addr - map_low m) \<or> map_space m + unat (addr - map_low m) + len \<le> i
       \<longrightarrow> io_space d' i = io_space d i) \<and> d' = d\<lparr>io_space := io_space d'\<rparr>"
proof -
  define off where "off = map_space m + unat (addr - map_low m)"
  have acc: "io_acc off len"
    unfolding off_def by (rule region_io_acc [OF assms(4,5,6,7)])
  define d' where "d' = d\<lparr>io_space := store_le (io_space d) off len data\<rparr>"
  have w: "io_store c off len data d = Inr d'"
    using acc by (simp add: io_store_eq d'_def)
  have r: "io_load c off len d' = Inr (take_bit (8 * len) data)"
    by (rule io.rd_wr_same [OF acc w])
  have guards: "len \<ge> 1 \<and> len \<le> 8" "check_bound (Some m) addr = Inr ()"
    using assms(6,7) by (auto simp: check_bound_def map_inside_def)
  have "mmio_write c maps addr len data (d, dt) = Inr (d', difftest_skip_ref c dt)"
    using w guards assms(3)
    by (simp add: mmio_write_def fetch_mmio_map_unique [OF assms(1,2,6)] map_write_def Let_def
        invoke_callback_def off_def)
  moreover have "mmio_read c maps addr len (d', dt)
      = Inr (take_bit (8 * len) data, d', difftest_skip_ref c dt)"
    using r guards assms(3)
    by (simp add: mmio_read_def fetch_mmio_map_unique [OF assms(1,2,6)] map_read_def Let_def
        invoke_callback_def off_def)
  ultimately show ?thesis
    by (intro exI [of _ d'] conjI) (auto simp: d'_def store_le_outside off_def)
qed

end
