(* ===== verification/Nemu_Devices.thy ===== *)
theory Nemu_Devices
  imports Nemu_Io_Map Word_Halves
begin

text \<open>
  The device models of \<^verbatim>\<open>nemu/src/device/\<close>: serial port, clock, VGA, keyboard, audio and sdcard with
  their I/O handlers and initialisation, the alarm handlers, and the periodic update of \<^verbatim>\<open>device.c\<close>.
  The host (SDL events and scancodes, the clock, files) is an argument or a field of the state. The
  key queue and the sdcard block transfers are shown to implement their abstract contracts.
\<close>

section \<open>NEMU run state\<close>

datatype nemu_run = NEMU_RUNNING | NEMU_STOP | NEMU_END | NEMU_ABORT | NEMU_QUIT

record NEMUState =
  state :: nemu_run
  halt_pc :: vaddr_t
  halt_ret :: u32

text \<open>\<^verbatim>\<open>nemu/src/utils/state.c\<close>\<close>

definition nemu_state_init :: NEMUState where
  "nemu_state_init = \<lparr>state = NEMU_STOP, halt_pc = 0, halt_ret = 0\<rparr>"

definition is_exit_status_bad :: "NEMUState \<Rightarrow> bool" where
  "is_exit_status_bad st \<longleftrightarrow>
    \<not> ((state st = NEMU_END \<and> halt_ret st = 0) \<or> state st = NEMU_QUIT)"

section \<open>Device registers\<close>

definition reg32 :: "nat \<Rightarrow> nat \<Rightarrow> dev_state \<Rightarrow> u32" where
  "reg32 base i d = load_le (io_space d) (base + 4 * i) 4"

definition reg32_set :: "nat \<Rightarrow> nat \<Rightarrow> u32 \<Rightarrow> dev_state \<Rightarrow> dev_state" where
  "reg32_set base i v d = d\<lparr>io_space := store_le (io_space d) (base + 4 * i) 4 v\<rparr>"

lemma reg32_set_same [simp]: "reg32 b i (reg32_set b i v d) = v"
  using load_store_same [of 4 "io_space d" "b + 4 * i" v]
  by (simp add: reg32_def reg32_set_def take_bit_word_eq_self)

lemma reg32_set_other [simp]: "i \<noteq> j \<Longrightarrow> reg32 b j (reg32_set b i v d) = reg32 b j d"
  by (cases "i < j") (auto simp: reg32_def reg32_set_def intro!: load_store_disjoint)

section \<open>Clock: utils/timer.c and device/timer.c\<close>

definition get_time_internal :: "dev_state \<Rightarrow> u64 \<times> dev_state" where
  "get_time_internal d = (host_clock d (clock_reads d), d\<lparr>clock_reads := Suc (clock_reads d)\<rparr>)"

definition get_time :: "dev_state \<Rightarrow> u64 \<times> dev_state" where
  "get_time d =
    (let d1 = (if boot_time d = 0
               then (case get_time_internal d of (t, d') \<Rightarrow> d'\<lparr>boot_time := t\<rparr>) else d) in
     case get_time_internal d1 of (now, d2) \<Rightarrow> (now - boot_time d2, d2))"

definition rtc_io_handler :: io_callback_t where
  "rtc_io_handler offset len is_write d =
    ebind (echeck (offset = 0 \<or> offset = 4) Assert_fail) (\<lambda>_.
      if \<not> is_write \<and> offset = 4 then
        (case get_time d of (us, d1) \<Rightarrow>
          Inr (reg32_set (rtc_port_base d1) 1 (ucast (drop_bit 32 us))
                (reg32_set (rtc_port_base d1) 0 (ucast us) d1)))
      else Inr d)"

text \<open>\<^verbatim>\<open>dev_raise_intr\<close> of \<^verbatim>\<open>device/intr.c\<close> is empty.\<close>

definition dev_raise_intr :: "dev_state \<Rightarrow> dev_state" where
  "dev_raise_intr d = d"

definition timer_intr :: "NEMUState \<Rightarrow> dev_state \<Rightarrow> dev_state" where
  "timer_intr st d = (if state st = NEMU_RUNNING then dev_raise_intr d else d)"

section \<open>Alarm: device/alarm.c\<close>

definition MAX_HANDLER :: nat where "MAX_HANDLER = 8"

type_synonym alarm_handler_t = "NEMUState \<Rightarrow> dev_state \<Rightarrow> dev_state"

definition add_alarm_handle :: "alarm_handler_t \<Rightarrow> alarm_handler_t list \<Rightarrow> alarm_handler_t list res" where
  "add_alarm_handle h hs = ebind (echeck (length hs < MAX_HANDLER) Assert_fail) (\<lambda>_. Inr (hs @ [h]))"

primrec alarm_sig_handler :: "alarm_handler_t list \<Rightarrow> NEMUState \<Rightarrow> dev_state \<Rightarrow> dev_state" where
  "alarm_sig_handler [] st d = d"
| "alarm_sig_handler (h # hs) st d = alarm_sig_handler hs st (h st d)"

section \<open>Registration\<close>

text \<open>
  The addresses of the Kconfig options and the kind of bus the devices sit on. Initialising a
  device allocates its registers and adds its region to the MMIO or the port-I/O map.
\<close>

record dev_config =
  HAS_PORT_IO :: bool
  SERIAL_PORT :: u16
  SERIAL_MMIO :: u32
  RTC_PORT :: u16
  RTC_MMIO :: u32
  I8042_DATA_PORT :: u16
  I8042_DATA_MMIO :: u32
  FB_ADDR :: u32
  VGA_CTL_PORT :: u16
  VGA_CTL_MMIO :: u32
  VGA_SHOW_SCREEN :: bool
  VGA_SIZE_800x600 :: bool
  SB_ADDR :: u32
  SB_SIZE :: u32
  AUDIO_CTL_PORT :: u16
  AUDIO_CTL_MMIO :: u32
  SDCARD_CTL_MMIO :: u32
  HAS_SERIAL :: bool
  HAS_TIMER :: bool
  HAS_VGA :: bool
  HAS_KEYBOARD :: bool
  HAS_AUDIO :: bool
  HAS_SDCARD :: bool

text \<open>The defaults of \<^verbatim>\<open>nemu/src/device/Kconfig\<close> for riscv32.\<close>

definition default_dev_config :: dev_config where
  "default_dev_config =
    \<lparr>HAS_PORT_IO = False, SERIAL_PORT = 0x3f8, SERIAL_MMIO = 0xa00003f8, RTC_PORT = 0x48,
     RTC_MMIO = 0xa0000048, I8042_DATA_PORT = 0x60, I8042_DATA_MMIO = 0xa0000060, FB_ADDR = 0xa1000000,
     VGA_CTL_PORT = 0x100, VGA_CTL_MMIO = 0xa0000100, VGA_SHOW_SCREEN = True, VGA_SIZE_800x600 = False,
     SB_ADDR = 0xa1200000, SB_SIZE = 0x10000, AUDIO_CTL_PORT = 0x200, AUDIO_CTL_MMIO = 0xa0000200,
     SDCARD_CTL_MMIO = 0xa3000000, HAS_SERIAL = True, HAS_TIMER = True, HAS_VGA = True,
     HAS_KEYBOARD = True, HAS_AUDIO = True, HAS_SDCARD = False\<rparr>"

record dev_maps =
  mmio_maps :: "IOMap list"
  pio_maps :: "IOMap list"

definition add_map :: "nemu_config \<Rightarrow> dev_config \<Rightarrow> string \<Rightarrow> u16 \<Rightarrow> u32 \<Rightarrow> nat \<Rightarrow> u32 \<Rightarrow>
    io_callback_t option \<Rightarrow> dev_maps \<Rightarrow> dev_maps res" where
  "add_map c dc nm port mmio sp len cb ms =
    (if HAS_PORT_IO dc
     then ebind (add_pio_map nm port sp len cb (pio_maps ms)) (\<lambda>l. Inr (ms\<lparr>pio_maps := l\<rparr>))
     else ebind (add_mmio_map c nm mmio sp len cb (mmio_maps ms)) (\<lambda>l. Inr (ms\<lparr>mmio_maps := l\<rparr>)))"

definition add_mmio :: "nemu_config \<Rightarrow> string \<Rightarrow> u32 \<Rightarrow> nat \<Rightarrow> u32 \<Rightarrow> io_callback_t option \<Rightarrow>
    dev_maps \<Rightarrow> dev_maps res" where
  "add_mmio c nm mmio sp len cb ms =
    ebind (add_mmio_map c nm mmio sp len cb (mmio_maps ms)) (\<lambda>l. Inr (ms\<lparr>mmio_maps := l\<rparr>))"

type_synonym dev_init = "dev_maps \<times> dev_state \<Rightarrow> (dev_maps \<times> dev_state) res"

definition init_timer :: "nemu_config \<Rightarrow> dev_config \<Rightarrow> alarm_handler_t list \<Rightarrow> dev_maps \<times> dev_state \<Rightarrow>
    (alarm_handler_t list \<times> dev_maps \<times> dev_state) res" where
  "init_timer c dc hs s =
    ebind (new_space 8 (snd s)) (\<lambda>(p, d).
      let d' = d\<lparr>rtc_port_base := p\<rparr> in
      ebind (add_map c dc ''rtc'' (RTC_PORT dc) (RTC_MMIO dc) p 8 (Some rtc_io_handler) (fst s)) (\<lambda>ms.
      ebind (add_alarm_handle timer_intr hs) (\<lambda>hs'. Inr (hs', ms, d'))))"

section \<open>Serial port: serial.c\<close>

definition serial_putc :: "u8 \<Rightarrow> dev_state \<Rightarrow> dev_state" where
  "serial_putc ch d = d\<lparr>serial_out := serial_out d @ [ch]\<rparr>"

definition serial_io_handler :: io_callback_t where
  "serial_io_handler offset len is_write d =
    ebind (echeck (len = 1) Assert_fail) (\<lambda>_.
      if offset = 0 then
        (if is_write then Inr (serial_putc (io_space d (serial_base d)) d)
         else Inl (Panic ''do not support read''))
      else Inl (Panic ''do not support offset''))"

definition init_serial :: "nemu_config \<Rightarrow> dev_config \<Rightarrow> dev_init" where
  "init_serial c dc s =
    ebind (new_space 8 (snd s)) (\<lambda>(p, d).
      ebind (add_map c dc ''serial'' (SERIAL_PORT dc) (SERIAL_MMIO dc) p 8 (Some serial_io_handler) (fst s))
        (\<lambda>ms. Inr (ms, d\<lparr>serial_base := p\<rparr>)))"

section \<open>VGA: vga.c\<close>

definition screen_width :: "dev_config \<Rightarrow> u32" where
  "screen_width dc = (if VGA_SIZE_800x600 dc then 800 else 400)"

definition screen_height :: "dev_config \<Rightarrow> u32" where
  "screen_height dc = (if VGA_SIZE_800x600 dc then 600 else 300)"

definition screen_size :: "dev_config \<Rightarrow> u32" where
  "screen_size dc = screen_width dc * screen_height dc * 4"

definition update_screen :: "dev_config \<Rightarrow> dev_state \<Rightarrow> dev_state" where
  "update_screen dc d =
    d\<lparr>frames := frames d @ [map (\<lambda>i. io_space d (vmem d + i)) [0..<unat (screen_size dc)]]\<rparr>"

definition vga_update_screen :: "dev_config \<Rightarrow> dev_state \<Rightarrow> dev_state" where
  "vga_update_screen dc d =
    (if VGA_SHOW_SCREEN dc \<and> reg32 (vgactl_port_base d) 1 d \<noteq> 0
     then reg32_set (vgactl_port_base d) 1 0 (update_screen dc d) else d)"

definition io_memset0 :: "nat \<Rightarrow> nat \<Rightarrow> dev_state \<Rightarrow> dev_state" where
  "io_memset0 a n d = d\<lparr>io_space := (\<lambda>i. if a \<le> i \<and> i < a + n then 0 else io_space d i)\<rparr>"

definition init_vga :: "nemu_config \<Rightarrow> dev_config \<Rightarrow> dev_init" where
  "init_vga c dc s =
    ebind (new_space 8 (snd s)) (\<lambda>(p, d0).
      let d1 = reg32_set p 0 (push_bit 16 (screen_width dc) OR screen_height dc)
                 (d0\<lparr>vgactl_port_base := p\<rparr>) in
      ebind (add_map c dc ''vgactl'' (VGA_CTL_PORT dc) (VGA_CTL_MMIO dc) p 8 None (fst s)) (\<lambda>ms1.
      ebind (new_space (screen_size dc) d1) (\<lambda>(q, d2).
        let d3 = d2\<lparr>vmem := q\<rparr> in
        ebind (add_mmio c ''vmem'' (FB_ADDR dc) q (screen_size dc) None ms1) (\<lambda>ms2.
          Inr (ms2, if VGA_SHOW_SCREEN dc then io_memset0 q (unat (screen_size dc)) d3 else d3)))))"

section \<open>Keyboard: keyboard.c\<close>

definition KEYDOWN_MASK :: u32 where "KEYDOWN_MASK = 0x8000"
definition NEMU_KEY_NONE :: u32 where "NEMU_KEY_NONE = 0"
definition KEY_QUEUE_LEN :: nat where "KEY_QUEUE_LEN = 1024"

definition NEMU_KEYS :: "string list" where
  "NEMU_KEYS =
    [''ESCAPE'', ''F1'', ''F2'', ''F3'', ''F4'', ''F5'', ''F6'', ''F7'', ''F8'', ''F9'', ''F10'', ''F11'', ''F12'',
     ''GRAVE'', ''1'', ''2'', ''3'', ''4'', ''5'', ''6'', ''7'', ''8'', ''9'', ''0'', ''MINUS'', ''EQUALS'', ''BACKSPACE'',
     ''TAB'', ''Q'', ''W'', ''E'', ''R'', ''T'', ''Y'', ''U'', ''I'', ''O'', ''P'', ''LEFTBRACKET'', ''RIGHTBRACKET'', ''BACKSLASH'',
     ''CAPSLOCK'', ''A'', ''S'', ''D'', ''F'', ''G'', ''H'', ''J'', ''K'', ''L'', ''SEMICOLON'', ''APOSTROPHE'', ''RETURN'',
     ''LSHIFT'', ''Z'', ''X'', ''C'', ''V'', ''B'', ''N'', ''M'', ''COMMA'', ''PERIOD'', ''SLASH'', ''RSHIFT'',
     ''LCTRL'', ''APPLICATION'', ''LALT'', ''SPACE'', ''RALT'', ''RCTRL'',
     ''UP'', ''DOWN'', ''LEFT'', ''RIGHT'', ''INSERT'', ''DELETE'', ''HOME'', ''END'', ''PAGEUP'', ''PAGEDOWN'']"

text \<open>\<^verbatim>\<open>NEMU_KEY_\<close> numbers start at 1; \<^verbatim>\<open>scancode\<close> gives the host's \<^verbatim>\<open>SDL_SCANCODE_\<close> of a key name.\<close>

primrec init_keymap_from :: "(string \<Rightarrow> nat) \<Rightarrow> u32 \<Rightarrow> string list \<Rightarrow> (nat \<Rightarrow> u32) \<Rightarrow> nat \<Rightarrow> u32" where
  "init_keymap_from scancode n [] km = km"
| "init_keymap_from scancode n (k # ks) km =
    init_keymap_from scancode (n + 1) ks (km(scancode k := n))"

definition init_keymap :: "(string \<Rightarrow> nat) \<Rightarrow> dev_state \<Rightarrow> dev_state" where
  "init_keymap scancode d = d\<lparr>keymap := init_keymap_from scancode 1 NEMU_KEYS (keymap d)\<rparr>"

definition key_enqueue :: "u32 \<Rightarrow> dev_state \<Rightarrow> dev_state res" where
  "key_enqueue am_scancode d =
    (let d' = d\<lparr>key_queue := (key_queue d)[key_r d := am_scancode],
                key_r := (key_r d + 1) mod KEY_QUEUE_LEN\<rparr> in
     ebind (echeck (key_r d' \<noteq> key_f d') (Panic ''key queue overflow!'')) (\<lambda>_. Inr d'))"

definition key_dequeue :: "dev_state \<Rightarrow> u32 \<times> dev_state" where
  "key_dequeue d =
    (if key_f d \<noteq> key_r d
     then (key_queue d ! key_f d, d\<lparr>key_f := (key_f d + 1) mod KEY_QUEUE_LEN\<rparr>)
     else (NEMU_KEY_NONE, d))"

definition send_key :: "NEMUState \<Rightarrow> u8 \<Rightarrow> bool \<Rightarrow> dev_state \<Rightarrow> dev_state res" where
  "send_key st scancode is_keydown d =
    (if state st = NEMU_RUNNING \<and> keymap d (unat scancode) \<noteq> NEMU_KEY_NONE
     then key_enqueue (keymap d (unat scancode) OR (if is_keydown then KEYDOWN_MASK else 0)) d
     else Inr d)"

definition i8042_data_io_handler :: io_callback_t where
  "i8042_data_io_handler offset len is_write d =
    ebind (echeck (\<not> is_write) Assert_fail) (\<lambda>_.
    ebind (echeck (offset = 0) Assert_fail) (\<lambda>_.
      case key_dequeue d of (key, d') \<Rightarrow> Inr (reg32_set (i8042_data_port_base d') 0 key d')))"

definition init_i8042 :: "nemu_config \<Rightarrow> dev_config \<Rightarrow> (string \<Rightarrow> nat) \<Rightarrow> dev_init" where
  "init_i8042 c dc scancode s =
    ebind (new_space 4 (snd s)) (\<lambda>(p, d0).
      let d1 = reg32_set p 0 NEMU_KEY_NONE (d0\<lparr>i8042_data_port_base := p\<rparr>) in
      ebind (add_map c dc ''keyboard'' (I8042_DATA_PORT dc) (I8042_DATA_MMIO dc) p 4
              (Some i8042_data_io_handler) (fst s)) (\<lambda>ms.
      Inr (ms, init_keymap scancode d1)))"

section \<open>Audio: audio.c\<close>

definition reg_freq :: nat where "reg_freq = 0"
definition reg_channels :: nat where "reg_channels = 1"
definition reg_samples :: nat where "reg_samples = 2"
definition reg_sbuf_size :: nat where "reg_sbuf_size = 3"
definition reg_init :: nat where "reg_init = 4"
definition reg_count :: nat where "reg_count = 5"
definition nr_reg :: nat where "nr_reg = 6"

text \<open>
  The copy loop of \<^verbatim>\<open>audio_play_callback\<close>: the size register is the guest's, so the modulus can be
  zero and the read can leave the I/O space.
\<close>

primrec audio_copy :: "nat \<Rightarrow> dev_state \<Rightarrow> (u8 list \<times> dev_state) res" where
  "audio_copy 0 d = Inr ([], d)"
| "audio_copy (Suc n) d =
    ebind (echeck (sbuf d + unat (audio_head d) < IO_SPACE_MAX) (Undef ''out-of-bounds read'')) (\<lambda>_.
    ebind (echeck (reg32 (audio_base d) reg_sbuf_size d \<noteq> 0) (Undef ''division by zero'')) (\<lambda>_.
      let b = io_space d (sbuf d + unat (audio_head d));
          d' = d\<lparr>audio_head := (audio_head d + 1) mod reg32 (audio_base d) reg_sbuf_size d\<rparr> in
      ebind (audio_copy n d') (\<lambda>(bs, d''). Inr (b # bs, d''))))"

definition audio_play_callback :: "nat \<Rightarrow> dev_state \<Rightarrow> (u8 list \<times> dev_state) res" where
  "audio_play_callback len d =
    (let nread = (if unat (reg32 (audio_base d) reg_count d) < len
                  then unat (reg32 (audio_base d) reg_count d) else len) in
     ebind (audio_copy nread d) (\<lambda>(bs, d1).
       Inr (bs @ replicate (len - nread) 0,
            reg32_set (audio_base d1) reg_count (reg32 (audio_base d1) reg_count d1 - of_nat nread) d1)))"

definition audio_io_handler :: io_callback_t where
  "audio_io_handler offset len is_write d =
    (if is_write \<and> offset = of_nat (reg_init * 4)
     then Inr (d\<lparr>audio_opened := audio_opened d @
            [(reg32 (audio_base d) reg_freq d, ucast (reg32 (audio_base d) reg_channels d),
              ucast (reg32 (audio_base d) reg_samples d))]\<rparr>)
     else Inr d)"

definition init_audio :: "nemu_config \<Rightarrow> dev_config \<Rightarrow> dev_init" where
  "init_audio c dc s =
    ebind (new_space (of_nat (4 * nr_reg)) (snd s)) (\<lambda>(p, d0).
      let d1 = d0\<lparr>audio_base := p\<rparr> in
      ebind (add_map c dc ''audio'' (AUDIO_CTL_PORT dc) (AUDIO_CTL_MMIO dc) p (of_nat (4 * nr_reg))
              (Some audio_io_handler) (fst s)) (\<lambda>ms1.
      ebind (new_space (SB_SIZE dc) d1) (\<lambda>(q, d2).
        let d3 = d2\<lparr>sbuf := q\<rparr> in
        ebind (add_mmio c ''audio-sbuf'' (SB_ADDR dc) q (SB_SIZE dc) None ms1) (\<lambda>ms2.
          Inr (ms2, (reg32_set p reg_count 0 (reg32_set p reg_sbuf_size (SB_SIZE dc) d3))
                      \<lparr>audio_head := 0\<rparr>)))))"

text \<open>The opened streams keep the frequency, the channels (\<^verbatim>\<open>Uint8\<close>) and the samples (\<^verbatim>\<open>Uint16\<close>) passed to SDL.\<close>

section \<open>Sdcard: sdcard.c\<close>

definition MEMORY_SIZE :: nat where "MEMORY_SIZE = 16 * 1024 * 1024 * 1024"
definition READ_BL_LEN :: nat where "READ_BL_LEN = 15"
definition BLOCK_LEN :: nat where "BLOCK_LEN = 2 ^ READ_BL_LEN"
definition NR_BLOCK :: nat where "NR_BLOCK = MEMORY_SIZE div BLOCK_LEN"
definition MULT :: nat where "MULT = 2 ^ (7 + 2)"
definition C_SIZE :: nat where "C_SIZE = NR_BLOCK div MULT - 1"

definition SDCMD :: nat where "SDCMD = 0"
definition SDARG :: nat where "SDARG = 1"
definition SDRSP0 :: nat where "SDRSP0 = 4"
definition SDRSP1 :: nat where "SDRSP1 = 5"
definition SDRSP2 :: nat where "SDRSP2 = 6"
definition SDRSP3 :: nat where "SDRSP3 = 7"
definition SDDATA :: nat where "SDDATA = 16"

lemmas sd_regs = SDCMD_def SDARG_def SDRSP0_def SDRSP1_def SDRSP2_def SDRSP3_def SDDATA_def

text \<open>
  The image is a file with a position: seeking past the end is allowed, a read at the end gives the
  bytes that are there, a write past the end fills the gap with zeros.
\<close>

definition file_seek :: "nat \<Rightarrow> u8 list \<times> nat \<Rightarrow> u8 list \<times> nat" where
  "file_seek pos f = (fst f, pos)"

definition file_read :: "nat \<Rightarrow> u8 list \<times> nat \<Rightarrow> u8 list \<times> u8 list \<times> nat" where
  "file_read n f = (let bs = take n (drop (snd f) (fst f)) in (bs, fst f, snd f + length bs))"

definition file_write :: "u8 list \<Rightarrow> u8 list \<times> nat \<Rightarrow> u8 list \<times> nat" where
  "file_write bs f =
    (take (snd f) (fst f) @ replicate (snd f - length (fst f)) 0 @ bs @ drop (snd f + length bs) (fst f),
     snd f + length bs)"

primrec bytes_set :: "bytes \<Rightarrow> nat \<Rightarrow> u8 list \<Rightarrow> bytes" where
  "bytes_set m a [] = m"
| "bytes_set m a (b # bs) = bytes_set (m(a := b)) (Suc a) bs"

definition prepare_rw :: "bool \<Rightarrow> dev_state \<Rightarrow> dev_state" where
  "prepare_rw is_write d =
    (let d1 = d\<lparr>blk_addr := ucast (reg32 (sd_base d) SDARG d), sd_addr := 0\<rparr> in
     d1\<lparr>sd_fp := map_option (file_seek (unat (push_bit 9 (blk_addr d1)))) (sd_fp d1),
        write_cmd := is_write\<rparr>)"

definition sdcard_handle_cmd :: "nat \<Rightarrow> dev_state \<Rightarrow> dev_state res" where
  "sdcard_handle_cmd cmd d =
    (let b = sd_base d in
     if cmd = 0 then Inr d
     else if cmd = 1 then Inr (reg32_set b SDRSP0 0x80ff8000 d)
     else if cmd = 2 then
       Inr (reg32_set b SDRSP3 0x15000000 (reg32_set b SDRSP2 0 (reg32_set b SDRSP1 0
             (reg32_set b SDRSP0 1 d))))
     else if cmd = 52 then Inr d
     else if cmd = 9 then
       Inr (reg32_set b SDRSP3 0x9026012a
             (reg32_set b SDRSP2 (0x0f508000 OR of_nat (C_SIZE div 4) OR push_bit 16 (of_nat READ_BL_LEN))
             (reg32_set b SDRSP1 (0x124b97e3 OR push_bit 30 (of_nat C_SIZE AND 3))
             (reg32_set b SDRSP0 0x92404001 d))))
     else if cmd = 8 then Inr (d\<lparr>read_ext_csd := True, sd_addr := 0\<rparr>)
     else if cmd = 5 \<or> cmd = 55 \<or> cmd = 3 \<or> cmd = 7 then Inr d
     else if cmd = 23 then Inr (d\<lparr>blkcnt := reg32 b SDARG d AND 0xffff\<rparr>)
     else if cmd = 18 then Inr (prepare_rw False d)
     else if cmd = 25 then Inr (prepare_rw True d)
     else if cmd = 13 then
       Inr (reg32_set b SDRSP1 0 (reg32_set b SDRSP2 0 (reg32_set b SDRSP3 0
             (reg32_set b SDRSP0 0x900 d))))
     else if cmd = 12 then Inr d
     else Inl (Panic ''unhandled command''))"

text \<open>The word of the extended CSD register at byte \<^verbatim>\<open>addr\<close>.\<close>

definition ext_csd_word :: "u32 \<Rightarrow> u32" where
  "ext_csd_word a = (if a = 192 then 2 else if a = 212 then of_nat (MEMORY_SIZE div 512) else 0)"

definition sdcard_data :: "dev_state \<Rightarrow> dev_state" where
  "sdcard_data d =
    (if read_ext_csd d then
       (let d1 = reg32_set (sd_base d) SDDATA (ext_csd_word (sd_addr d)) d in
        if sd_addr d = 512 - 4 then d1\<lparr>read_ext_csd := False\<rparr> else d1)
     else case sd_fp d of None \<Rightarrow> d
     | Some f \<Rightarrow>
       if \<not> write_cmd d then
         (case file_read 4 f of (bs, f') \<Rightarrow>
           d\<lparr>sd_fp := Some f', io_space := bytes_set (io_space d) (sd_base d + 4 * SDDATA) bs\<rparr>)
       else
         d\<lparr>sd_fp := Some (file_write (map (\<lambda>i. io_space d (sd_base d + 4 * SDDATA + i)) [0..<4]) f)\<rparr>)"

definition sdcard_io_handler :: io_callback_t where
  "sdcard_io_handler offset len is_write d =
    (let idx = unat (offset div 4) in
     if idx = SDCMD then sdcard_handle_cmd (unat (reg32 (sd_base d) SDCMD d AND 0x3f)) d
     else if idx = SDARG \<or> idx = SDRSP0 \<or> idx = SDRSP1 \<or> idx = SDRSP2 \<or> idx = SDRSP3 then Inr d
     else if idx = SDDATA then (let d1 = sdcard_data d in Inr (d1\<lparr>sd_addr := sd_addr d1 + 4\<rparr>))
     else Inl (Panic ''unhandle offset''))"

definition init_sdcard :: "nemu_config \<Rightarrow> dev_config \<Rightarrow> u8 list option \<Rightarrow> dev_init" where
  "init_sdcard c dc img s =
    ebind (new_space 0x80 (snd s)) (\<lambda>(p, d0).
      ebind (add_mmio c ''sdhci'' (SDCARD_CTL_MMIO dc) p 0x80 (Some sdcard_io_handler) (fst s)) (\<lambda>ms.
      ebind (echeck (C_SIZE < 2 ^ 12) (Panic ''shoule be fit in 12 bits'')) (\<lambda>_.
      Inr (ms, d0\<lparr>sd_base := p, sd_fp := map_option (\<lambda>b. (b, 0)) img\<rparr>))))"

section \<open>device.c\<close>

datatype sdl_event = SDL_QUIT | SDL_KEY u8 bool | SDL_OTHER

text \<open>The polled events in order; quitting stops the keyboard from queueing later keys.\<close>

primrec poll_events :: "dev_config \<Rightarrow> sdl_event list \<Rightarrow> NEMUState \<times> dev_state \<Rightarrow> (NEMUState \<times> dev_state) res" where
  "poll_events dc [] s = Inr s"
| "poll_events dc (e # es) s =
    (case e of
       SDL_QUIT \<Rightarrow> poll_events dc es ((fst s)\<lparr>state := NEMU_QUIT\<rparr>, snd s)
     | SDL_KEY k is_keydown \<Rightarrow>
         (if HAS_KEYBOARD dc
          then ebind (send_key (fst s) k is_keydown (snd s)) (\<lambda>d. poll_events dc es (fst s, d))
          else poll_events dc es s)
     | SDL_OTHER \<Rightarrow> poll_events dc es s)"

definition TIMER_HZ :: nat where "TIMER_HZ = 60"

text \<open>The events that are pending are consumed only when the update interval has passed.\<close>

definition device_update :: "dev_config \<Rightarrow> sdl_event list \<Rightarrow> NEMUState \<times> dev_state \<Rightarrow> (NEMUState \<times> dev_state) res" where
  "device_update dc events s =
    (case get_time (snd s) of (now, d1) \<Rightarrow>
      if now - last_update d1 < of_nat (1000000 div TIMER_HZ) then Inr (fst s, d1)
      else
        (let d2 = d1\<lparr>last_update := now\<rparr>;
             d3 = (if HAS_VGA dc then vga_update_screen dc d2 else d2) in
         poll_events dc events (fst s, d3)))"

definition init_device :: "nemu_config \<Rightarrow> dev_config \<Rightarrow> bytes \<Rightarrow> (string \<Rightarrow> nat) \<Rightarrow> u8 list option \<Rightarrow>
    dev_state \<Rightarrow> (alarm_handler_t list \<times> dev_maps \<times> dev_state) res" where
  "init_device c dc fresh scancode img d =
    (let s0 = (\<lparr>mmio_maps = [], pio_maps = []\<rparr>, init_map fresh d) in
     ebind (if HAS_SERIAL dc then init_serial c dc s0 else Inr s0) (\<lambda>s1.
     ebind (if HAS_TIMER dc then init_timer c dc [] s1 else Inr ([], s1)) (\<lambda>(hs, s2).
     ebind (if HAS_VGA dc then init_vga c dc s2 else Inr s2) (\<lambda>s3.
     ebind (if HAS_KEYBOARD dc then init_i8042 c dc scancode s3 else Inr s3) (\<lambda>s4.
     ebind (if HAS_AUDIO dc then init_audio c dc s4 else Inr s4) (\<lambda>s5.
     ebind (if HAS_SDCARD dc then init_sdcard c dc img s5 else Inr s5) (\<lambda>s6.
       Inr (hs, s6))))))))"

section \<open>The key queue is a bounded FIFO\<close>

text \<open>What a queue promises: it holds up to \<open>cap\<close> elements and gives them back in order.\<close>

locale fifo_queue =
  fixes enq :: "'a \<Rightarrow> 'q \<Rightarrow> 'e + 'q"
    and deq :: "'q \<Rightarrow> 'a \<times> 'q"
    and elems :: "'q \<Rightarrow> 'a list"
    and inv :: "'q \<Rightarrow> bool"
    and cap :: nat
    and none :: 'a
  assumes enq_ok: "inv q \<Longrightarrow> length (elems q) < cap \<Longrightarrow>
      \<exists>q'. enq x q = Inr q' \<and> inv q' \<and> elems q' = elems q @ [x]"
    and deq_empty: "inv q \<Longrightarrow> elems q = [] \<Longrightarrow> deq q = (none, q)"
    and deq_ok: "inv q \<Longrightarrow> elems q = x # xs \<Longrightarrow> \<exists>q'. deq q = (x, q') \<and> inv q' \<and> elems q' = xs"
begin

primrec enq_all :: "'a list \<Rightarrow> 'q \<Rightarrow> 'e + 'q" where
  "enq_all [] q = Inr q"
| "enq_all (x # xs) q = ebind (enq x q) (enq_all xs)"

primrec deq_n :: "nat \<Rightarrow> 'q \<Rightarrow> 'a list \<times> 'q" where
  "deq_n 0 q = ([], q)"
| "deq_n (Suc n) q = (case deq q of (x, q1) \<Rightarrow> case deq_n n q1 of (xs, q2) \<Rightarrow> (x # xs, q2))"

lemma enq_all_ok:
  "inv q \<Longrightarrow> length (elems q) + length xs \<le> cap \<Longrightarrow>
   \<exists>q'. enq_all xs q = Inr q' \<and> inv q' \<and> elems q' = elems q @ xs"
proof (induction xs arbitrary: q)
  case (Cons x xs)
  obtain q1 where q1: "enq x q = Inr q1" "inv q1" "elems q1 = elems q @ [x]"
    using enq_ok [of q x] Cons.prems by auto
  then show ?case using Cons.IH [of q1] Cons.prems by auto
qed simp

lemma deq_n_ok:
  "inv q \<Longrightarrow> n \<le> length (elems q) \<Longrightarrow>
   \<exists>q'. deq_n n q = (take n (elems q), q') \<and> inv q' \<and> elems q' = drop n (elems q)"
proof (induction n arbitrary: q)
  case (Suc n)
  then obtain x xs where e: "elems q = x # xs" by (cases "elems q") auto
  obtain q1 where "deq q = (x, q1)" "inv q1" "elems q1 = xs" using deq_ok [OF Suc.prems(1) e] by auto
  then show ?case using Suc.IH [of q1] Suc.prems e by auto
qed simp

theorem fifo:
  assumes "inv q" "elems q = []" "length xs \<le> cap"
  shows "\<exists>q1 q2. enq_all xs q = Inr q1 \<and> deq_n (length xs) q1 = (xs, q2) \<and> inv q2 \<and> elems q2 = []"
proof -
  obtain q1 where q1: "enq_all xs q = Inr q1" "inv q1" "elems q1 = xs"
    using enq_all_ok [OF assms(1), of xs] assms(2,3) by auto
  then obtain q2 where "deq_n (length xs) q1 = (xs, q2)" "inv q2" "elems q2 = []"
    using deq_n_ok [of q1 "length xs"] by auto
  then show ?thesis using q1 by blast
qed

end

text \<open>A bounded queue also refuses what it cannot hold.\<close>

locale bounded_fifo = fifo_queue enq deq elems inv cap none
  for enq :: "'a \<Rightarrow> 'q \<Rightarrow> 'e + 'q" and deq elems inv cap none +
  fixes full :: 'e
  assumes enq_full: "inv q \<Longrightarrow> cap \<le> length (elems q) \<Longrightarrow> enq x q = Inl full"
begin

lemma enq_all_full:
  "inv q \<Longrightarrow> cap < length (elems q) + length xs \<Longrightarrow> length (elems q) \<le> cap \<Longrightarrow> enq_all xs q = Inl full"
proof (induction xs arbitrary: q)
  case (Cons x xs)
  show ?case
  proof (cases "length (elems q) < cap")
    case True
    then obtain q1 where "enq x q = Inr q1" "inv q1" "elems q1 = elems q @ [x]"
      using enq_ok [of q x] Cons.prems by auto
    then show ?thesis using Cons.IH [of q1] Cons.prems True by auto
  qed (use enq_full [of q x] Cons.prems in simp)
qed simp

end

definition key_inv :: "dev_state \<Rightarrow> bool" where
  "key_inv d \<longleftrightarrow> length (key_queue d) = KEY_QUEUE_LEN \<and> key_f d < KEY_QUEUE_LEN \<and> key_r d < KEY_QUEUE_LEN"

definition key_elems :: "dev_state \<Rightarrow> u32 list" where
  "key_elems d = map (\<lambda>i. key_queue d ! ((key_f d + i) mod KEY_QUEUE_LEN))
     [0..<(key_r d + KEY_QUEUE_LEN - key_f d) mod KEY_QUEUE_LEN]"

interpretation kq: bounded_fifo key_enqueue key_dequeue key_elems key_inv "KEY_QUEUE_LEN - 1"
  NEMU_KEY_NONE "Panic ''key queue overflow!''"
proof unfold_locales
  fix q x assume inv: "key_inv q" and len: "length (key_elems q) < KEY_QUEUE_LEN - 1"
  let ?n = "(key_r q + KEY_QUEUE_LEN - key_f q) mod KEY_QUEUE_LEN"
  have fr: "key_f q < KEY_QUEUE_LEN" "key_r q < KEY_QUEUE_LEN" "?n + 1 < KEY_QUEUE_LEN"
    using inv len by (auto simp: key_inv_def key_elems_def)
  note r = ring_count_enq [OF fr]
  define q' where "q' = q\<lparr>key_queue := (key_queue q)[key_r q := x],
    key_r := (key_r q + 1) mod KEY_QUEUE_LEN\<rparr>"
  have "key_enqueue x q = Inr q'" using r(2) by (simp add: key_enqueue_def q'_def)
  moreover have "key_inv q'" using inv by (simp add: key_inv_def q'_def KEY_QUEUE_LEN_def)
  moreover have "key_elems q' = key_elems q @ [x]"
    using r(1,3) inv ring_slot [OF fr(1,2), symmetric]
    by (auto simp: key_elems_def q'_def key_inv_def)
  ultimately show "\<exists>q'. key_enqueue x q = Inr q' \<and> key_inv q' \<and> key_elems q' = key_elems q @ [x]"
    by blast
next
  fix q x assume inv: "key_inv q" and len: "KEY_QUEUE_LEN - 1 \<le> length (key_elems q)"
  then have "(key_r q + 1) mod KEY_QUEUE_LEN = key_f q"
    by (intro ring_full) (auto simp: key_inv_def key_elems_def)
  then show "key_enqueue x q = Inl (Panic ''key queue overflow!'')"
    by (simp add: key_enqueue_def)
next
  fix q assume inv: "key_inv q" and emp: "key_elems q = []"
  have "key_f q = key_r q"
    using inv emp ring_count_deq [of "key_f q" KEY_QUEUE_LEN "key_r q"]
    by (auto simp: key_inv_def key_elems_def)
  then show "key_dequeue q = (NEMU_KEY_NONE, q)" by (simp add: key_dequeue_def)
next
  fix q x xs assume inv: "key_inv q" and e: "key_elems q = x # xs"
  have ne: "key_f q \<noteq> key_r q" using e by (auto simp: key_elems_def)
  have fr: "key_f q < KEY_QUEUE_LEN" "key_r q < KEY_QUEUE_LEN" using inv by (auto simp: key_inv_def)
  note r = ring_count_deq [OF fr ne]
  define q' where "q' = q\<lparr>key_f := (key_f q + 1) mod KEY_QUEUE_LEN\<rparr>"
  have "key_elems q = key_queue q ! key_f q # key_elems q'"
    unfolding key_elems_def r upt_conv_Cons [OF zero_less_Suc] map_Suc_upt [symmetric]
    using fr ring_shift [of "key_f q" KEY_QUEUE_LEN] by (simp add: q'_def o_def del: upt_Suc)
  then have "key_queue q ! key_f q = x" "key_elems q' = xs" using e by auto
  moreover have "key_inv q'" using inv by (simp add: key_inv_def q'_def KEY_QUEUE_LEN_def)
  ultimately show "\<exists>q'. key_dequeue q = (x, q') \<and> key_inv q' \<and> key_elems q' = xs"
    using ne by (auto simp: key_dequeue_def q'_def)
qed

section \<open>From key events to the data port\<close>

definition key_code :: "dev_state \<Rightarrow> u8 \<times> bool \<Rightarrow> u32" where
  "key_code d e = keymap d (unat (fst e)) OR (if snd e then KEYDOWN_MASK else 0)"

text \<open>The guest reads the data port \<open>n\<close> times.\<close>

primrec i8042_reads :: "nat \<Rightarrow> dev_state \<Rightarrow> (u32 list \<times> dev_state) res" where
  "i8042_reads 0 d = Inr ([], d)"
| "i8042_reads (Suc n) d =
    ebind (i8042_data_io_handler 0 4 False d) (\<lambda>d1.
    ebind (i8042_reads n d1) (\<lambda>(ks, d2). Inr (reg32 (i8042_data_port_base d1) 0 d1 # ks, d2)))"

lemma key_enqueue_keymap: "key_enqueue k d = Inr d' \<Longrightarrow> keymap d' = keymap d"
  by (auto simp: key_enqueue_def Let_def)

lemma key_code_cong: "keymap d' = keymap d \<Longrightarrow> key_code d' = key_code d"
  by (rule ext) (simp add: key_code_def)

lemma poll_events_keys:
  assumes "state st = NEMU_RUNNING" "HAS_KEYBOARD dc" "\<forall>e \<in> set evs. keymap d (unat (fst e)) \<noteq> NEMU_KEY_NONE"
  shows "poll_events dc (map (\<lambda>(k, b). SDL_KEY k b) evs) (st, d)
    = ebind (kq.enq_all (map (key_code d) evs) d) (\<lambda>d'. Inr (st, d'))"
  using assms(3)
proof (induction evs arbitrary: d)
  case (Cons e evs)
  have send: "send_key st (fst e) (snd e) d = key_enqueue (key_code d e) d"
    using assms(1) Cons.prems by (simp add: send_key_def key_code_def)
  show ?case
  proof (cases "key_enqueue (key_code d e) d")
    case (Inr d1)
    then have "keymap d1 = keymap d" by (rule key_enqueue_keymap)
    then show ?thesis
      using Cons.IH [of d1] Cons.prems key_code_cong [of d1 d] send Inr assms(2)
      by (simp add: case_prod_beta)
  qed (use send assms(2) in \<open>simp add: case_prod_beta\<close>)
qed simp

lemma key_reg32_set [simp]:
  "key_elems (reg32_set b i v d) = key_elems d" "key_inv (reg32_set b i v d) = key_inv d"
  "i8042_data_port_base (reg32_set b i v d) = i8042_data_port_base d"
  by (simp_all add: reg32_set_def key_elems_def key_inv_def)

lemma i8042_reads_keys:
  assumes "key_inv d" "n \<le> length (key_elems d)"
  shows "\<exists>d'. i8042_reads n d = Inr (take n (key_elems d), d') \<and> key_inv d' \<and>
    key_elems d' = drop n (key_elems d)"
  using assms
proof (induction n arbitrary: d)
  case (Suc n)
  then obtain x xs where e: "key_elems d = x # xs" by (cases "key_elems d") auto
  obtain q where q: "key_dequeue d = (x, q)" "key_inv q" "key_elems q = xs"
    using kq.deq_ok [OF Suc.prems(1) e] by auto
  let ?d1 = "reg32_set (i8042_data_port_base q) 0 x q"
  have "i8042_data_io_handler 0 4 False d = Inr ?d1"
    by (simp add: i8042_data_io_handler_def q)
  moreover obtain d' where "i8042_reads n ?d1 = Inr (take n xs, d')" "key_inv d'"
    "key_elems d' = drop n xs"
    using Suc.IH [of ?d1] Suc.prems(2) q e by auto
  ultimately show ?case using e by simp
qed simp

text \<open>
  C22: keys reach the guest in order and exactly once. Events of mapped keys that arrive while NEMU
  runs are queued, and as many reads of the keyboard data port return their codes in the order of
  the events with the key-down bit set for presses; the next read returns no key. At most 1023
  keys fit; one more makes NEMU panic instead of dropping or overwriting a key.
\<close>

theorem keyboard_fifo:
  assumes "key_inv d" "key_elems d = []" "state st = NEMU_RUNNING" "HAS_KEYBOARD dc"
    and "\<forall>e \<in> set evs. keymap d (unat (fst e)) \<noteq> NEMU_KEY_NONE"
  shows "if length evs \<le> 1023
    then \<exists>d1 d2. poll_events dc (map (\<lambda>(k, b). SDL_KEY k b) evs) (st, d) = Inr (st, d1) \<and>
      i8042_reads (length evs) d1 = Inr (map (key_code d) evs, d2) \<and>
      key_dequeue d2 = (NEMU_KEY_NONE, d2)
    else poll_events dc (map (\<lambda>(k, b). SDL_KEY k b) evs) (st, d) = Inl (Panic ''key queue overflow!'')"
proof (cases "length evs \<le> 1023")
  case True
  obtain d1 where d1: "kq.enq_all (map (key_code d) evs) d = Inr d1" "key_inv d1"
    "key_elems d1 = map (key_code d) evs"
    using kq.enq_all_ok [OF assms(1), of "map (key_code d) evs"] True assms(2)
    by (auto simp: KEY_QUEUE_LEN_def)
  obtain d2 where d2: "i8042_reads (length evs) d1 = Inr (map (key_code d) evs, d2)" "key_inv d2"
    "key_elems d2 = []"
    using i8042_reads_keys [OF d1(2), of "length evs"] d1(3) by auto
  show ?thesis
    using True d1 d2 kq.deq_empty [OF d2(2,3)] poll_events_keys [OF assms(3,4,5)] by auto
next
  case False
  then show ?thesis
    using kq.enq_all_full [OF assms(1), of "map (key_code d) evs"] assms(2)
      poll_events_keys [OF assms(3,4,5)] by (simp add: KEY_QUEUE_LEN_def)
qed

theorem keyboard_fifo_witness:
  "\<exists>d1 d2. poll_events default_dev_config [SDL_KEY 4 True, SDL_KEY 4 False]
      (\<lparr>state = NEMU_RUNNING, halt_pc = 0, halt_ret = 0\<rparr>, dev_zero (\<lambda>_. 0) None\<lparr>keymap := (\<lambda>_. 43)\<rparr>)
      = Inr (\<lparr>state = NEMU_RUNNING, halt_pc = 0, halt_ret = 0\<rparr>, d1) \<and>
    i8042_reads 2 d1 = Inr ([0x802b, 0x2b], d2)"
proof -
  define d where "d = dev_zero (\<lambda>_. 0) None\<lparr>keymap := (\<lambda>_. 43)\<rparr>"
  define st where "st = \<lparr>state = NEMU_RUNNING, halt_pc = 0, halt_ret = 0\<rparr>"
  define evs :: "(u8 \<times> bool) list" where "evs = [(4, True), (4, False)]"
  have hyps: "key_inv d" "key_elems d = []" "state st = NEMU_RUNNING" "HAS_KEYBOARD default_dev_config"
    "\<forall>e \<in> set evs. keymap d (unat (fst e)) \<noteq> NEMU_KEY_NONE"
    by (simp_all add: key_inv_def key_elems_def d_def dev_zero_def KEY_QUEUE_LEN_def st_def
        default_dev_config_def NEMU_KEY_NONE_def)
  have len: "length evs = 2" and evs: "map (\<lambda>(k, b). SDL_KEY k b) evs = [SDL_KEY 4 True, SDL_KEY 4 False]"
    by (simp_all add: evs_def)
  have codes: "map (key_code d) evs = [0x802b, 0x2b]"
    by (simp add: evs_def key_code_def d_def dev_zero_def KEYDOWN_MASK_def)
  have "length evs \<le> 1023" by (simp add: len)
  then show ?thesis
    using keyboard_fifo [OF hyps] unfolding len evs codes d_def [symmetric] st_def [symmetric] by auto
qed

section \<open>Initialisation\<close>

definition dev_inv :: "dev_maps \<times> dev_state \<Rightarrow> bool" where
  "dev_inv s \<longleftrightarrow> io_inv (snd s) \<and> maps_disjoint (mmio_maps (fst s)) \<and>
     (\<forall>m \<in> set (mmio_maps (fst s)) \<union> set (pio_maps (fst s)). region_ok (snd s) m)"

lemma dev_inv_grow:
  "dev_inv (ms, d) \<Longrightarrow> io_inv d' \<Longrightarrow> p_space d \<le> p_space d' \<Longrightarrow> dev_inv (ms, d')"
  by (auto simp: dev_inv_def region_ok_def intro: less_le_trans)

lemma p_space_reg32_set [simp]: "p_space (reg32_set b i v d) = p_space d"
  by (simp add: reg32_set_def)

lemma region_len: "len \<noteq> 0 \<Longrightarrow> unat (addr + len - 1 - addr) < unat len" for addr len :: u32
  using unat_minus_one [of len] by (simp add: unat_gt_0)

lemma add_mmio_inv:
  assumes "add_mmio c nm a sp len cb ms = Inr ms'" "dev_inv (ms, d)" "len \<noteq> 0"
    "sp + unat len \<le> p_space d"
  shows "dev_inv (ms', d)"
proof -
  obtain l where l: "add_mmio_map c nm a sp len cb (mmio_maps ms) = Inr l" "ms' = ms\<lparr>mmio_maps := l\<rparr>"
    using assms(1) by (auto simp: add_mmio_def)
  then show ?thesis
    using assms(2,4) region_len [OF assms(3), of a] maps_disjoint_add [OF l(1)] add_mmio_map_eq(1) [OF l(1)]
    by (auto simp: dev_inv_def region_ok_def)
qed

lemma add_map_inv:
  assumes "add_map c dc nm port a sp len cb ms = Inr ms'" "dev_inv (ms, d)" "len \<noteq> 0"
    "sp + unat len \<le> p_space d"
  shows "dev_inv (ms', d)"
proof (cases "HAS_PORT_IO dc")
  case True
  then show ?thesis
    using assms region_len [OF assms(3), of "ucast port"]
    by (auto simp: add_map_def add_pio_map_def dev_inv_def region_ok_def)
next
  case False
  then show ?thesis
    using add_mmio_inv [OF _ assms(2,3,4)] assms(1) by (simp add: add_map_def add_mmio_def)
qed

lemma dev_inv_p_space: "dev_inv (ms, d) \<Longrightarrow> p_space d' = p_space d \<Longrightarrow> dev_inv (ms, d')"
  by (rule dev_inv_grow) (auto simp: dev_inv_def io_inv_def)

lemma new_space_inv:
  assumes "new_space sz d = Inr (p, d1)" "dev_inv (ms, d)" "p_space d2 = p_space d1" "0 \<le> sint sz"
  shows "dev_inv (ms, d2)" "p + unat sz \<le> p_space d2"
  using new_space_props [OF assms(1) _ assms(4)] assms(2,3) dev_inv_grow [OF assms(2), of d1]
    dev_inv_p_space [of ms d1 d2]
  by (auto simp: dev_inv_def)

lemma alloc_map_inv:
  assumes "new_space sz d = Inr (p, d1)" "add_map c dc nm port a p len cb ms = Inr ms'"
    "dev_inv (ms, d)" "p_space d2 = p_space d1" "len \<noteq> 0" "unat len \<le> unat sz" "0 \<le> sint sz"
  shows "dev_inv (ms', d2)"
  using new_space_inv [OF assms(1,3,4,7)] add_map_inv [OF assms(2) _ assms(5)] assms(6) by force

lemma alloc_mmio_inv:
  assumes "new_space sz d = Inr (p, d1)" "add_mmio c nm a p len cb ms = Inr ms'"
    "dev_inv (ms, d)" "p_space d2 = p_space d1" "len \<noteq> 0" "unat len \<le> unat sz" "0 \<le> sint sz"
  shows "dev_inv (ms', d2)"
  using new_space_inv [OF assms(1,3,4,7)] add_mmio_inv [OF assms(2) _ assms(5)] assms(6) by force

lemma init_serial_inv [nemu_inv]: "init_serial c dc s = Inr s' \<Longrightarrow> dev_inv s \<Longrightarrow> dev_inv s'"
  by (cases s) (auto simp: init_serial_def elim!: alloc_map_inv)

lemma init_timer_inv [nemu_inv]: "init_timer c dc hs s = Inr (hs', s') \<Longrightarrow> dev_inv s \<Longrightarrow> dev_inv s'"
  by (cases s) (auto simp: init_timer_def Let_def elim!: alloc_map_inv)

lemma screen_size_pos: "screen_size dc \<noteq> 0" "0 \<le> sint (screen_size dc)"
  by (simp_all add: screen_size_def screen_width_def screen_height_def)

lemma io_memset0_p_space [simp]: "p_space (io_memset0 a n d) = p_space d"
  by (simp add: io_memset0_def)

lemma init_vga_inv [nemu_inv]:
  assumes "init_vga c dc s = Inr s'" "dev_inv s"
  shows "dev_inv s'"
proof -
  obtain ms d where s: "s = (ms, d)" by (cases s)
  define rg where "rg = push_bit 16 (screen_width dc) OR screen_height dc"
  obtain p d0 ms1 q d2 ms2 where st: "new_space 8 d = Inr (p, d0)"
    "add_map c dc ''vgactl'' (VGA_CTL_PORT dc) (VGA_CTL_MMIO dc) p 8 None ms = Inr ms1"
    "new_space (screen_size dc) (reg32_set p 0 rg (d0\<lparr>vgactl_port_base := p\<rparr>)) = Inr (q, d2)"
    "add_mmio c ''vmem'' (FB_ADDR dc) q (screen_size dc) None ms1 = Inr ms2"
    "fst s' = ms2" "p_space (snd s') = p_space d2"
    using assms(1) by (auto simp: init_vga_def s Let_def rg_def split: if_splits)
  have "dev_inv (ms1, reg32_set p 0 rg (d0\<lparr>vgactl_port_base := p\<rparr>))"
    by (rule alloc_map_inv [OF st(1,2)]) (use assms(2) s in auto)
  then have "dev_inv (ms2, snd s')"
    by (rule alloc_mmio_inv [OF st(3,4)]) (use st screen_size_pos in auto)
  then show ?thesis using st(5) by (cases s') simp
qed

lemma init_i8042_inv [nemu_inv]: "init_i8042 c dc sc s = Inr s' \<Longrightarrow> dev_inv s \<Longrightarrow> dev_inv s'"
  by (cases s) (auto simp: init_i8042_def Let_def init_keymap_def elim!: alloc_map_inv)

lemma init_audio_inv [nemu_inv]:
  assumes "init_audio c dc s = Inr s'" "dev_inv s" "0 < sint (SB_SIZE dc)"
  shows "dev_inv s'"
proof -
  obtain ms d where s: "s = (ms, d)" by (cases s)
  obtain p d0 ms1 q d2 ms2 where st: "new_space (of_nat (4 * nr_reg)) d = Inr (p, d0)"
    "add_map c dc ''audio'' (AUDIO_CTL_PORT dc) (AUDIO_CTL_MMIO dc) p (of_nat (4 * nr_reg))
       (Some audio_io_handler) ms = Inr ms1"
    "new_space (SB_SIZE dc) (d0\<lparr>audio_base := p\<rparr>) = Inr (q, d2)"
    "add_mmio c ''audio-sbuf'' (SB_ADDR dc) q (SB_SIZE dc) None ms1 = Inr ms2"
    "fst s' = ms2" "p_space (snd s') = p_space d2"
    using assms(1) by (auto simp: init_audio_def s Let_def)
  have "dev_inv (ms1, d0\<lparr>audio_base := p\<rparr>)"
    by (rule alloc_map_inv [OF st(1,2)]) (use assms(2) s in \<open>auto simp: nr_reg_def\<close>)
  then have "dev_inv (ms2, snd s')"
    by (rule alloc_mmio_inv [OF st(3,4)]) (use st assms(3) in auto)
  then show ?thesis using st(5) by (cases s') simp
qed

lemma init_sdcard_inv [nemu_inv]: "init_sdcard c dc img s = Inr s' \<Longrightarrow> dev_inv s \<Longrightarrow> dev_inv s'"
  by (cases s) (auto simp: init_sdcard_def elim!: alloc_mmio_inv)

lemma dev_inv_start: "dev_inv (\<lparr>mmio_maps = [], pio_maps = []\<rparr>, init_map fresh d)"
  by (simp add: dev_inv_def io_inv_def init_map_def maps_disjoint_def IO_SPACE_MAX_def)

text \<open>What every device's initialisation keeps holds at the end.\<close>

lemma init_device_keeps:
  assumes "init_device c dc fresh scancode img d = Inr (hs, s')"
    and "P (\<lparr>mmio_maps = [], pio_maps = []\<rparr>, init_map fresh d)"
    and "\<And>s s'. init_serial c dc s = Inr s' \<Longrightarrow> P s \<Longrightarrow> P s'"
    and "\<And>s hs hs' s'. init_timer c dc hs s = Inr (hs', s') \<Longrightarrow> P s \<Longrightarrow> P s'"
    and "\<And>s s'. init_vga c dc s = Inr s' \<Longrightarrow> P s \<Longrightarrow> P s'"
    and "\<And>s s'. init_i8042 c dc scancode s = Inr s' \<Longrightarrow> P s \<Longrightarrow> P s'"
    and "\<And>s s'. init_audio c dc s = Inr s' \<Longrightarrow> P s \<Longrightarrow> P s'"
    and "\<And>s s'. init_sdcard c dc img s = Inr s' \<Longrightarrow> P s \<Longrightarrow> P s'"
  shows "P s'"
proof -
  define s0 where "s0 = (\<lparr>mmio_maps = [], pio_maps = []\<rparr>, init_map fresh d)"
  obtain s1 s2 s3 s4 s5 where
    1: "(if HAS_SERIAL dc then init_serial c dc s0 else Inr s0) = Inr s1" and
    2: "(if HAS_TIMER dc then init_timer c dc [] s1 else Inr ([], s1)) = Inr (hs, s2)" and
    3: "(if HAS_VGA dc then init_vga c dc s2 else Inr s2) = Inr s3" and
    4: "(if HAS_KEYBOARD dc then init_i8042 c dc scancode s3 else Inr s3) = Inr s4" and
    5: "(if HAS_AUDIO dc then init_audio c dc s4 else Inr s4) = Inr s5" and
    6: "(if HAS_SDCARD dc then init_sdcard c dc img s5 else Inr s5) = Inr s'"
    using assms(1) unfolding init_device_def Let_def s0_def [symmetric] by auto
  have "P s0" using assms(2) by (simp add: s0_def)
  then have "P s1" using 1 assms(3) by (auto split: if_splits)
  then have "P s2" using 2 assms(4) by (auto split: if_splits)
  then have "P s3" using 3 assms(5) by (auto split: if_splits)
  then have "P s4" using 4 assms(6) by (auto split: if_splits)
  then have "P s5" using 5 assms(7) by (auto split: if_splits)
  then show "P s'" using 6 assms(8) by (auto split: if_splits)
qed

lemma init_device_dev_inv:
  assumes "init_device c dc fresh scancode img d = Inr (hs, s')" "0 < sint (SB_SIZE dc)"
  shows "dev_inv s'"
  by (rule init_device_keeps [OF assms(1), of dev_inv]) (use assms(2) in \<open>auto intro: nemu_inv dev_inv_start\<close>)

text \<open>
  C23: every successful device initialisation, in every configuration of the devices, leaves the
  MMIO regions pairwise disjoint, the allocation pointer page-aligned with a whole page left in the
  I/O space, and the registers of every region (memory-mapped or port) inside the allocated space,
  which is what the dispatch of accesses relies on. The size of the audio buffer is configured positive as an \<^verbatim>\<open>int\<close>.
\<close>

theorem init_device_invariant:
  assumes "init_device c dc fresh scancode img d = Inr (hs, ms, d')" "0 < sint (SB_SIZE dc)"
  shows "io_inv d' \<and> maps_disjoint (mmio_maps ms) \<and>
    (\<forall>m \<in> set (mmio_maps ms @ pio_maps ms). region_ok d' m)"
  using init_device_dev_inv [OF assms] by (simp add: dev_inv_def)

lemmas init_eval = init_device_def init_serial_def init_timer_def init_vga_def init_i8042_def
  init_audio_def init_keymap_def add_map_def add_mmio_def add_mmio_map_def new_space_def init_map_def
  page_round_def IO_SPACE_MAX_def NR_MAP_def add_alarm_handle_def MAX_HANDLER_def
  nr_reg_def screen_size_def screen_width_def screen_height_def in_pmem_def mmio_overlap_def

lemma init_device_default:
  "\<exists>r. init_device quiet_config default_dev_config (\<lambda>_. 0) (\<lambda>_. 0) None (dev_zero (\<lambda>_. 0) None) = Inr r"
  by (simp add: init_eval Let_def quiet_config_def default_dev_config_def)

theorem init_device_invariant_witness:
  "\<exists>hs ms d'. init_device quiet_config default_dev_config (\<lambda>_. 0) (\<lambda>_. 0) None
      (dev_zero (\<lambda>_. 0) None) = Inr (hs, ms, d') \<and> io_inv d' \<and> maps_disjoint (mmio_maps ms)"
proof -
  obtain hs ms d' where *: "init_device quiet_config default_dev_config (\<lambda>_. 0) (\<lambda>_. 0) None
      (dev_zero (\<lambda>_. 0) None) = Inr (hs, ms, d')"
    using init_device_default by (metis surj_pair)
  have "0 < sint (SB_SIZE default_dev_config)" by (simp add: default_dev_config_def)
  then show ?thesis using init_device_invariant [OF *] * by blast
qed

section \<open>Block transfers of the sdcard\<close>

text \<open>The guest reads, or writes, \<open>n\<close> words through the data register.\<close>

primrec sd_read_words :: "nat \<Rightarrow> dev_state \<Rightarrow> (u32 list \<times> dev_state) res" where
  "sd_read_words 0 d = Inr ([], d)"
| "sd_read_words (Suc n) d =
    ebind (sdcard_io_handler 64 4 False d) (\<lambda>d1.
    ebind (sd_read_words n d1) (\<lambda>(ws, d2). Inr (reg32 (sd_base d1) SDDATA d1 # ws, d2)))"

primrec sd_write_words :: "u32 list \<Rightarrow> dev_state \<Rightarrow> dev_state res" where
  "sd_write_words [] d = Inr d"
| "sd_write_words (w # ws) d =
    ebind (sdcard_io_handler 64 4 True (reg32_set (sd_base d) SDDATA w d))
      (sd_write_words ws)"

definition word_at :: "u8 list \<Rightarrow> nat \<Rightarrow> u32" where
  "word_at img a = load_le (\<lambda>i. img ! i) a 4"

lemma bytes_set_outside: "j < a \<or> a + length bs \<le> j \<Longrightarrow> bytes_set m a bs j = m j"
  by (induction bs arbitrary: m a) auto

lemma bytes_set_inside: "i < length bs \<Longrightarrow> bytes_set m a bs (a + i) = bs ! i"
proof (induction bs arbitrary: m a i)
  case (Cons b bs)
  show ?case
  proof (cases i)
    case (Suc j)
    then show ?thesis using Cons.IH [of j "m(a := b)" "Suc a"] Cons.prems by (simp add: fun_upd_def)
  qed (simp add: bytes_set_outside)
qed simp

lemma load_le_shift:
  "(\<And>i. i < n \<Longrightarrow> m (a + i) = m' (b + i)) \<Longrightarrow> load_le m a n = load_le m' b n"
proof (induction n arbitrary: a b)
  case (Suc n)
  have "load_le m (Suc a) n = load_le m' (Suc b) n"
    by (rule Suc.IH) (use Suc.prems [of "Suc _"] in simp)
  moreover have "m a = m' b" using Suc.prems [of 0] by simp
  ultimately show ?case by simp
qed simp

lemma sd_data_offset: "unat ((64 :: u32) div 4) = SDDATA"
  by (simp add: SDDATA_def)

lemma sd_handler_data:
  "sdcard_io_handler 64 4 w d
    = (let d1 = sdcard_data d in Inr (d1\<lparr>sd_addr := sd_addr d1 + 4\<rparr>))"
  unfolding sdcard_io_handler_def sd_data_offset Let_def
  by (simp add: sd_regs)

lemma reg32_sd_addr [simp]: "reg32 b i (d\<lparr>sd_addr := a\<rparr>) = reg32 b i d"
  by (simp add: reg32_def)

lemma sdcard_data_read:
  assumes "\<not> read_ext_csd d" "\<not> write_cmd d" "sd_fp d = Some (img, pos)" "pos + 4 \<le> length img"
  defines "d' \<equiv> sdcard_data d"
  shows "sd_fp d' = Some (img, pos + 4)" "reg32 (sd_base d') SDDATA d' = word_at img pos"
    "\<not> read_ext_csd d'" "\<not> write_cmd d'"
proof -
  have d': "d' = d\<lparr>sd_fp := Some (img, pos + 4),
      io_space := bytes_set (io_space d) (sd_base d + 4 * SDDATA) (take 4 (drop pos img))\<rparr>"
    using assms by (simp add: sdcard_data_def file_read_def Let_def)
  then show "sd_fp d' = Some (img, pos + 4)" "\<not> read_ext_csd d'" "\<not> write_cmd d'"
    using assms by simp_all
  show "reg32 (sd_base d') SDDATA d' = word_at img pos"
    unfolding reg32_def word_at_def
    by (rule load_le_shift) (use assms(4) in \<open>simp add: d' bytes_set_inside\<close>)
qed

lemma sd_read_words_eq:
  assumes "\<not> read_ext_csd d" "\<not> write_cmd d" "sd_fp d = Some (img, pos)" "pos + 4 * n \<le> length img"
  shows "\<exists>d'. sd_read_words n d = Inr (map (\<lambda>i. word_at img (pos + 4 * i)) [0..<n], d') \<and>
    sd_fp d' = Some (img, pos + 4 * n)"
  using assms
proof (induction n arbitrary: d pos)
  case (Suc n)
  note r = sdcard_data_read [OF Suc.prems(1,2,3)]
  let ?d1 = "sdcard_data d\<lparr>sd_addr := sd_addr (sdcard_data d) + 4\<rparr>"
  obtain d' where "sd_read_words n ?d1 = Inr (map (\<lambda>i. word_at img (pos + 4 + 4 * i)) [0..<n], d')"
    "sd_fp d' = Some (img, pos + 4 + 4 * n)"
    using Suc.IH [of ?d1 "pos + 4"] r Suc.prems(4) by auto
  moreover have "map (\<lambda>i. word_at img (pos + 4 * i)) [0..<Suc n]
      = word_at img pos # map (\<lambda>i. word_at img (pos + 4 + 4 * i)) [0..<n]"
    by (simp add: upt_conv_Cons map_Suc_upt [symmetric] algebra_simps del: upt_Suc)
  ultimately show ?case
    using r(2) Suc.prems(4) by (simp add: sd_handler_data Let_def add.assoc del: upt_Suc)
qed simp

text \<open>
  a multiple-block read returns the image. After the command with block number \<open>b\<close> in the
  argument register, reading the data register \<open>n\<close> times returns the \<open>n\<close> little-endian words of the
  image from byte \<open>512 * b\<close> on, as long as they are inside the image and no extended-CSD read is
  pending.
\<close>

lemma sdcard_block_read:
  assumes "sd_fp d = Some (img, pos)" "\<not> read_ext_csd d"
    and "512 * unat (reg32 (sd_base d) SDARG d) + 4 * n \<le> length img"
  shows "\<exists>d1 d2. sdcard_handle_cmd 18 d = Inr d1 \<and>
    sd_read_words n d1 =
      Inr (map (\<lambda>i. word_at img (512 * unat (reg32 (sd_base d) SDARG d) + 4 * i)) [0..<n], d2)"
proof -
  have pos: "unat (push_bit 9 (ucast (reg32 (sd_base d) SDARG d) :: u64)) = 512 * unat (reg32 (sd_base d) SDARG d)"
    using unsigned_less [where ?'a = nat, of "reg32 (sd_base d) SDARG d"]
    unfolding unat_push_bit unat_ucast_u64 by simp
  show ?thesis
    using sd_read_words_eq [of "prepare_rw False d" img "512 * unat (reg32 (sd_base d) SDARG d)" n] assms
    by (auto simp: sdcard_handle_cmd_def prepare_rw_def file_seek_def pos Let_def)
qed

section \<open>The audio stream buffer is a ring\<close>

lemma audio_copy_eq:
  assumes "sz = unat (reg32 (audio_base d) reg_sbuf_size d)" "unat (audio_head d) < sz"
    "sbuf d + sz \<le> IO_SPACE_MAX"
  shows "audio_copy n d = Inr (map (\<lambda>i. io_space d (sbuf d + (unat (audio_head d) + i) mod sz)) [0..<n],
    d\<lparr>audio_head := of_nat ((unat (audio_head d) + n) mod sz)\<rparr>)"
  using assms
proof (induction n arbitrary: d)
  case 0
  then show ?case by simp
next
  case (Suc n)
  let ?r = "reg32 (audio_base d) reg_sbuf_size d"
  define h where "h = (audio_head d + 1) mod ?r"
  define d1 where "d1 = d\<lparr>audio_head := h\<rparr>"
  have le: "unat (audio_head d) + 1 < 2 ^ 32"
    using Suc.prems(1,2) unsigned_less [where ?'a = nat, of ?r] by simp
  have h: "unat h = (unat (audio_head d) + 1) mod sz"
    using le Suc.prems(1) by (simp add: h_def unat_mod unat_word_ariths)
  have r1: "reg32 (audio_base d1) reg_sbuf_size d1 = ?r" by (simp add: d1_def reg32_def)
  have pos: "0 < sz" using Suc.prems(2) by simp
  have ih: "audio_copy n d1 = Inr (map (\<lambda>i. io_space d (sbuf d + (unat h + i) mod sz)) [0..<n],
      d\<lparr>audio_head := of_nat ((unat h + n) mod sz)\<rparr>)"
    using Suc.IH [of d1] Suc.prems(1,3) r1 pos by (simp add: d1_def h)
  have shift: "(unat h + i) mod sz = (unat (audio_head d) + Suc i) mod sz" for i
    unfolding h by (rule ring_shift)
  have "?r \<noteq> 0" using pos Suc.prems(1) by (auto simp: unat_eq_zero)
  then show ?case
    using ih Suc.prems(2,3)
    by (simp add: Let_def h_def [symmetric] d1_def [symmetric] shift upt_conv_Cons
        map_Suc_upt [symmetric] del: upt_Suc)
qed

text \<open>
  the audio callback plays the ring buffer in order. For a buffer size register that is not
  zero and a buffer inside the I/O space, the host receives the next bytes of the ring from the
  read position (as many as are available), then silence up to the requested length; the read
  position advances by the bytes played, modulo the size, and the count drops by them.
\<close>

lemma audio_play_callback_ring:
  assumes "sz = unat (reg32 (audio_base d) reg_sbuf_size d)" "unat (audio_head d) < sz"
    and "sbuf d + sz \<le> IO_SPACE_MAX" "n = min len (unat (reg32 (audio_base d) reg_count d))"
  shows "\<exists>d'. audio_play_callback len d =
      Inr (map (\<lambda>i. io_space d (sbuf d + (unat (audio_head d) + i) mod sz)) [0..<n] @ replicate (len - n) 0, d') \<and>
    unat (audio_head d') = (unat (audio_head d) + n) mod sz \<and>
    unat (reg32 (audio_base d) reg_count d') = unat (reg32 (audio_base d) reg_count d) - n"
proof -
  define d1 where "d1 = d\<lparr>audio_head := of_nat ((unat (audio_head d) + n) mod sz)\<rparr>"
  define cnt where "cnt = reg32 (audio_base d) reg_count d"
  define d' where "d' = reg32_set (audio_base d) reg_count (cnt - of_nat n) d1"
  have n: "(if unat cnt < len then unat cnt else len) = n" using assms(4) by (simp add: cnt_def)
  have eqs: "reg32 (audio_base d1) reg_count d1 = cnt" "audio_base d1 = audio_base d"
    by (simp_all add: d1_def reg32_def cnt_def)
  have run: "audio_play_callback len d =
      Inr (map (\<lambda>i. io_space d (sbuf d + (unat (audio_head d) + i) mod sz)) [0..<n] @ replicate (len - n) 0, d')"
    unfolding audio_play_callback_def cnt_def [symmetric] n Let_def
      audio_copy_eq [OF assms(1,2,3)] d1_def [symmetric]
    by (simp add: eqs eqs(1) [unfolded eqs(2)] d'_def)
  have "(unat (audio_head d) + n) mod sz < 2 ^ 32"
    using assms(1,2) unsigned_less [where ?'a = nat, of "reg32 (audio_base d) reg_sbuf_size d"]
    by (intro less_trans [OF mod_less_divisor]) auto
  then have head: "unat (audio_head d') = (unat (audio_head d) + n) mod sz"
    by (simp add: d'_def reg32_set_def d1_def unat_of_nat take_bit_nat_eq_self)
  have un: "unat (of_nat n :: u32) = n"
    using assms(4) unsigned_less [where ?'a = nat, of cnt]
    by (simp add: unat_of_nat take_bit_nat_eq_self cnt_def)
  then have "of_nat n \<le> cnt" using assms(4) by (simp add: word_le_nat_alt cnt_def)
  then have "unat (cnt - of_nat n) = unat cnt - n" by (simp add: unat_sub un)
  then show ?thesis using run head by (auto simp: d'_def cnt_def)
qed

end
