(* ===== verification/Riscv_Machine.thy ===== *)
theory Riscv_Machine
  imports Nemu_Devices
begin

text \<open>
  The emulated machine: CPU state of \<^verbatim>\<open>nemu/src/isa/riscv32\<close> (registers of \<^verbatim>\<open>isa-def.h\<close>, accesses of
  \<^verbatim>\<open>reg.h\<close> and \<^verbatim>\<open>reg.c\<close>, traps of \<^verbatim>\<open>system/intr.c\<close>, reset of \<^verbatim>\<open>init.c\<close>), the physical and virtual memory
  accesses of \<^verbatim>\<open>paddr.c\<close> and \<^verbatim>\<open>vaddr.c\<close> that choose between memory and devices, and the host calls of
  \<^verbatim>\<open>engine/interpreter/hostcall.c\<close>. All globals the code touches are one record.
\<close>

section \<open>State\<close>

record cpu_state =
  gpr :: "u32 list"
  cpu_pc :: vaddr_t
  mepc :: u32
  mcause :: u32
  mstatus :: u32
  mtvec :: u32

record machine =
  cpu :: cpu_state
  mem :: mem_state
  dev :: dev_state
  dt :: difftest_flags
  nemu_state :: NEMUState
  ftrace_log :: "(paddr_t \<times> paddr_t \<times> bool) list"
  g_nr_guest_inst :: u64

definition nr_gpr :: "nemu_config \<Rightarrow> nat" where
  "nr_gpr c = (if CONFIG_RVE c then 16 else 32)"

definition cpu_zero :: "nemu_config \<Rightarrow> cpu_state" where
  "cpu_zero c = \<lparr>gpr = replicate (nr_gpr c) 0, cpu_pc = 0, mepc = 0, mcause = 0, mstatus = 0, mtvec = 0\<rparr>"

definition machine_zero :: "nemu_config \<Rightarrow> machine" where
  "machine_zero c = \<lparr>cpu = cpu_zero c, mem = mem_zero, dev = dev_zero (\<lambda>_. 0) None,
     dt = \<lparr>is_skip_ref = False, skip_dut_nr_inst = 0\<rparr>, nemu_state = nemu_state_init,
     ftrace_log = [], g_nr_guest_inst = 0\<rparr>"

section \<open>Registers: reg.h and reg.c\<close>

text \<open>
  An index out of the register file asserts with \<^verbatim>\<open>CONFIG_RT_CHECK\<close> and reads or writes past the array
  without.
\<close>

definition check_reg_idx :: "nemu_config \<Rightarrow> nat \<Rightarrow> nat res" where
  "check_reg_idx c idx =
    (if CONFIG_RT_CHECK c then ebind (echeck (idx < nr_gpr c) Assert_fail) (\<lambda>_. Inr idx) else Inr idx)"

definition get_gpr :: "nemu_config \<Rightarrow> nat \<Rightarrow> machine \<Rightarrow> u32 res" where
  "get_gpr c idx m = ebind (check_reg_idx c idx) (\<lambda>i.
     ebind (echeck (i < nr_gpr c) (Undef ''register file'')) (\<lambda>_. Inr (gpr (cpu m) ! i)))"

definition set_gpr :: "nemu_config \<Rightarrow> nat \<Rightarrow> u32 \<Rightarrow> machine \<Rightarrow> machine res" where
  "set_gpr c idx v m = ebind (check_reg_idx c idx) (\<lambda>i.
     ebind (echeck (i < nr_gpr c) (Undef ''register file'')) (\<lambda>_.
       Inr (m\<lparr>cpu := (cpu m)\<lparr>gpr := (gpr (cpu m))[i := v]\<rparr>\<rparr>)))"

definition regs :: "string list" where
  "regs = [''$0'', ''ra'', ''sp'', ''gp'', ''tp'', ''t0'', ''t1'', ''t2'',
           ''s0'', ''s1'', ''a0'', ''a1'', ''a2'', ''a3'', ''a4'', ''a5'',
           ''a6'', ''a7'', ''s2'', ''s3'', ''s4'', ''s5'', ''s6'', ''s7'',
           ''s8'', ''s9'', ''s10'', ''s11'', ''t3'', ''t4'', ''t5'', ''t6'']"

text \<open>The name, or its register, and the value: the rows \<^verbatim>\<open>isa_reg_display\<close> prints.\<close>

definition isa_reg_display :: "cpu_state \<Rightarrow> (string \<times> u32) list" where
  "isa_reg_display cp = map (\<lambda>i. (regs ! i, gpr cp ! i)) [0..<16] @ [(''pc'', cpu_pc cp)]"

fun reg_search :: "nat \<Rightarrow> string \<Rightarrow> cpu_state \<Rightarrow> nat \<Rightarrow> u32 option" where
  "reg_search 0 s cp i = None"
| "reg_search (Suc n) s cp i = (if s = regs ! i then Some (gpr cp ! i) else reg_search n s cp (Suc i))"

definition isa_reg_str2val :: "string \<Rightarrow> cpu_state \<Rightarrow> u32 option" where
  "isa_reg_str2val s cp =
    (case reg_search 16 s cp 0 of Some v \<Rightarrow> Some v
     | None \<Rightarrow> if s = ''pc'' then Some (cpu_pc cp) else None)"

section \<open>Memory accesses: paddr.c and vaddr.c\<close>

definition paddr_read :: "nemu_config \<Rightarrow> IOMap list \<Rightarrow> paddr_t \<Rightarrow> nat \<Rightarrow> machine \<Rightarrow> (u32 \<times> machine) res" where
  "paddr_read c maps addr len m =
    (if in_pmem c addr \<or> in_mrom addr \<or> in_sram addr \<or> in_flash addr then
       ebind (pmem_read c addr len (mem m)) (\<lambda>data. Inr (data, m))
     else if CONFIG_DEVICE c then
       ebind (mmio_read c maps addr len (dev m, dt m)) (\<lambda>(data, d, f). Inr (data, m\<lparr>dev := d, dt := f\<rparr>))
     else Inl (Panic ''out of bound of pmem''))"

definition paddr_write :: "nemu_config \<Rightarrow> IOMap list \<Rightarrow> paddr_t \<Rightarrow> nat \<Rightarrow> u32 \<Rightarrow> machine \<Rightarrow> machine res" where
  "paddr_write c maps addr len data m =
    (if in_pmem c addr \<or> in_sram addr then
       ebind (pmem_write c addr len data (mem m)) (\<lambda>mm. Inr (m\<lparr>mem := mm\<rparr>))
     else if CONFIG_DEVICE c then
       ebind (mmio_write c maps addr len data (dev m, dt m)) (\<lambda>(d, f). Inr (m\<lparr>dev := d, dt := f\<rparr>))
     else Inl (Panic ''out of bound of pmem''))"

definition vaddr_ifetch :: "nemu_config \<Rightarrow> IOMap list \<Rightarrow> vaddr_t \<Rightarrow> nat \<Rightarrow> machine \<Rightarrow> (u32 \<times> machine) res" where
  "vaddr_ifetch c maps addr len m = paddr_read c maps addr len m"

definition vaddr_read :: "nemu_config \<Rightarrow> IOMap list \<Rightarrow> vaddr_t \<Rightarrow> nat \<Rightarrow> machine \<Rightarrow> (u32 \<times> machine) res" where
  "vaddr_read c maps addr len m = paddr_read c maps addr len m"

definition vaddr_write :: "nemu_config \<Rightarrow> IOMap list \<Rightarrow> vaddr_t \<Rightarrow> nat \<Rightarrow> u32 \<Rightarrow> machine \<Rightarrow> machine res" where
  "vaddr_write c maps addr len data m = paddr_write c maps addr len data m"

text \<open>\<^verbatim>\<open>inst_fetch\<close> of \<^verbatim>\<open>ifetch.h\<close>: the instruction and the advanced program counter.\<close>

definition inst_fetch :: "nemu_config \<Rightarrow> IOMap list \<Rightarrow> vaddr_t \<Rightarrow> nat \<Rightarrow> machine \<Rightarrow> (u32 \<times> vaddr_t \<times> machine) res" where
  "inst_fetch c maps pc len m =
    ebind (vaddr_ifetch c maps pc len m) (\<lambda>(inst, m'). Inr (inst, pc + of_nat len, m'))"

section \<open>Traps and host calls\<close>

definition isa_raise_intr :: "word_t \<Rightarrow> vaddr_t \<Rightarrow> machine \<Rightarrow> word_t \<times> machine" where
  "isa_raise_intr NO epc m =
    (let m' = m\<lparr>cpu := (cpu m)\<lparr>mepc := epc, mcause := NO\<rparr>\<rparr> in (mtvec (cpu m'), m'))"

definition INTR_EMPTY :: word_t where "INTR_EMPTY = - 1"

definition isa_query_intr :: "machine \<Rightarrow> word_t" where
  "isa_query_intr m = INTR_EMPTY"

definition set_nemu_state :: "nemu_config \<Rightarrow> nemu_run \<Rightarrow> vaddr_t \<Rightarrow> u32 \<Rightarrow> machine \<Rightarrow> machine" where
  "set_nemu_state c st pc ret m =
    m\<lparr>dt := difftest_skip_ref c (dt m),
      nemu_state := \<lparr>state = st, halt_pc = pc, halt_ret = ret\<rparr>\<rparr>"

text \<open>The two words printed are fetched through the bus, so this can fail at the end of a memory.\<close>

definition invalid_inst :: "nemu_config \<Rightarrow> IOMap list \<Rightarrow> vaddr_t \<Rightarrow> machine \<Rightarrow> machine res" where
  "invalid_inst c maps thispc m =
    ebind (inst_fetch c maps thispc 4 m) (\<lambda>(_, pc1, m1).
    ebind (inst_fetch c maps pc1 4 m1) (\<lambda>(_, pc2, m2).
      Inr (set_nemu_state c NEMU_ABORT thispc (- 1) m2)))"

section \<open>Reset: init.c\<close>

definition img :: "u32 list" where
  "img = [0x00000297, 0x00028823, 0x0102c503, 0x00100073, 0xdeadbeef]"

text \<open>The bytes of the built-in image in the host's (little-endian) order.\<close>

definition img_bytes :: "u8 list" where
  "img_bytes = concat (map (\<lambda>w. map (\<lambda>i. ucast (drop_bit (8 * i) w)) [0..<4]) img)"

definition restart :: "nemu_config \<Rightarrow> machine \<Rightarrow> machine" where
  "restart c m = m\<lparr>cpu := (cpu m)\<lparr>cpu_pc := RESET_VECTOR c, gpr := (gpr (cpu m))[0 := 0],
     mstatus := 0x1800\<rparr>\<rparr>"

definition init_isa :: "nemu_config \<Rightarrow> machine \<Rightarrow> machine res" where
  "init_isa c m =
    ebind (guest_to_host c (RESET_VECTOR c)) (\<lambda>(area, off).
    ebind (echeck (off + length img_bytes \<le> unat (area_size c area)) (Undef ''out-of-bounds write'')) (\<lambda>_.
      Inr (restart c (m\<lparr>mem := area_set area (bytes_set (area_bytes area (mem m)) off img_bytes) (mem m)\<rparr>))))"

section \<open>Accesses stay in their component\<close>

lemma paddr_read_frame:
  "paddr_read c maps a n m = Inr (v, m') \<Longrightarrow> m' = m\<lparr>dev := dev m', dt := dt m'\<rparr>"
  by (auto simp: paddr_read_def split: if_splits)

lemma paddr_write_frame:
  "paddr_write c maps a n d m = Inr m' \<Longrightarrow> m' = m\<lparr>mem := mem m', dev := dev m', dt := dt m'\<rparr>"
  by (auto simp: paddr_write_def split: if_splits)

lemma inst_fetch_frame:
  "inst_fetch c maps p n m = Inr (v, p', m') \<Longrightarrow> p' = p + of_nat n \<and> m' = m\<lparr>dev := dev m', dt := dt m'\<rparr>"
  by (auto simp: inst_fetch_def vaddr_ifetch_def dest!: paddr_read_frame)

lemma set_gpr_eq:
  "set_gpr c i v m = Inr m' \<longleftrightarrow> i < nr_gpr c \<and> m' = m\<lparr>cpu := (cpu m)\<lparr>gpr := (gpr (cpu m))[i := v]\<rparr>\<rparr>"
  by (auto simp: set_gpr_def check_reg_idx_def)

lemma get_gpr_eq: "get_gpr c i m = Inr v \<longleftrightarrow> i < nr_gpr c \<and> v = gpr (cpu m) ! i"
  by (auto simp: get_gpr_def check_reg_idx_def)

lemma invalid_inst_frame:
  assumes "invalid_inst c maps p m = Inr m'"
  shows "cpu m' = cpu m" "mem m' = mem m" "state (nemu_state m') = NEMU_ABORT" "halt_pc (nemu_state m') = p"
proof -
  obtain i1 p1 m1 i2 p2 m2 where
    1: "inst_fetch c maps p 4 m = Inr (i1, p1, m1)" and
    2: "inst_fetch c maps p1 4 m1 = Inr (i2, p2, m2)" and
    3: "m' = set_nemu_state c NEMU_ABORT p (- 1) m2"
    using assms by (auto simp: invalid_inst_def)
  have "cpu m1 = cpu m" "mem m1 = mem m"
    using inst_fetch_frame [OF 1] by (metis machine.surjective machine.update_convs machine.select_convs)+
  moreover have "cpu m2 = cpu m1" "mem m2 = mem m1"
    using inst_fetch_frame [OF 2] by (metis machine.surjective machine.update_convs machine.select_convs)+
  ultimately show "cpu m' = cpu m" "mem m' = mem m" "state (nemu_state m') = NEMU_ABORT" "halt_pc (nemu_state m') = p"
    by (simp_all add: 3 set_nemu_state_def)
qed

end
