(* ===== verification/Riscv_Inst.thy ===== *)
theory Riscv_Inst
  imports Riscv_Machine
begin

text \<open>
  The riscv32 interpreter of \<^verbatim>\<open>nemu/src/isa/riscv32/inst.c\<close>: the bit-pattern decoder of
  \<^verbatim>\<open>include/cpu/decode.h\<close>, the operand decoding, the instruction table in source order with the body of
  every instruction, and \<^verbatim>\<open>isa_exec_once\<close>. The theorems relate the table to the instruction
  fields of the ISA (which makes the order of the table irrelevant), the immediates to the encoded
  values, the arithmetic to integer arithmetic, and show what a step keeps of the machine.
\<close>

section \<open>Pattern decoding: decode.h\<close>

record Decode =
  pc :: vaddr_t
  snpc :: vaddr_t
  dnpc :: vaddr_t
  inst :: u32

fun pattern_chars :: "string \<Rightarrow> u64 \<Rightarrow> u64 \<Rightarrow> nat \<Rightarrow> (u64 \<times> u64 \<times> nat) res" where
  "pattern_chars [] key msk shift = Inr (key, msk, shift)"
| "pattern_chars (c # cs) key msk shift =
    (if c = CHR '' '' then pattern_chars cs key msk shift
     else if c = CHR ''0'' then pattern_chars cs (push_bit 1 key) (push_bit 1 msk OR 1) 0
     else if c = CHR ''1'' then pattern_chars cs (push_bit 1 key OR 1) (push_bit 1 msk OR 1) 0
     else if c = CHR ''?'' then pattern_chars cs (push_bit 1 key) (push_bit 1 msk) (Suc shift)
     else Inl (Panic ''invalid character in pattern string''))"

text \<open>The unrolled macro looks at 64 characters and panics if the string has not ended by then.\<close>

definition pattern_decode :: "string \<Rightarrow> (u64 \<times> u64 \<times> nat) res" where
  "pattern_decode str =
    ebind (pattern_chars (take 64 str) 0 0 0) (\<lambda>(key, msk, shift).
    ebind (echeck (length str < 64) (Panic ''pattern too long'')) (\<lambda>_.
      Inr (drop_bit shift key, drop_bit shift msk, shift)))"

definition instpat_match :: "string \<Rightarrow> u32 \<Rightarrow> bool res" where
  "instpat_match pattern i =
    ebind (pattern_decode pattern) (\<lambda>(key, msk, shift).
      Inr (drop_bit shift (ucast i) AND msk = key))"

section \<open>Operands\<close>

datatype inst_type = TYPE_I | TYPE_U | TYPE_S | TYPE_J | TYPE_R | TYPE_B | TYPE_N

definition immI :: "u32 \<Rightarrow> u32" where
  "immI i = ucast (SEXT (BITS (ucast i) 31 20) 12)"

definition immU :: "u32 \<Rightarrow> u32" where
  "immU i = ucast (push_bit 12 (SEXT (BITS (ucast i) 31 12) 20))"

definition immS :: "u32 \<Rightarrow> u32" where
  "immS i = ucast (push_bit 5 (SEXT (BITS (ucast i) 31 25) 7) OR BITS (ucast i) 11 7)"

definition immJ :: "u32 \<Rightarrow> u32" where
  "immJ i = ucast (push_bit 1 (SEXT (push_bit 19 (BITS (ucast i) 31 31) OR push_bit 11 (BITS (ucast i) 19 12) OR
     push_bit 10 (BITS (ucast i) 20 20) OR BITS (ucast i) 30 21) 20))"

definition immB :: "u32 \<Rightarrow> u32" where
  "immB i = ucast (push_bit 1 (SEXT (push_bit 11 (BITS (ucast i) 31 31) OR push_bit 10 (BITS (ucast i) 7 7) OR
     push_bit 4 (BITS (ucast i) 30 25) OR BITS (ucast i) 11 8) 12))"

text \<open>\<open>(rd, src1, src2, imm)\<close>; operands a type does not have stay 0, as initialised by the macro.\<close>

definition decode_operand :: "nemu_config \<Rightarrow> u32 \<Rightarrow> inst_type \<Rightarrow> machine \<Rightarrow> (nat \<times> u32 \<times> u32 \<times> u32) res" where
  "decode_operand c i type m =
    (let rs1 = unat (BITS (ucast i) 19 15); rs2 = unat (BITS (ucast i) 24 20);
         rd = unat (BITS (ucast i) 11 7) in
     case type of
       TYPE_I \<Rightarrow> ebind (get_gpr c rs1 m) (\<lambda>src1. Inr (rd, src1, 0, immI i))
     | TYPE_U \<Rightarrow> Inr (rd, 0, 0, immU i)
     | TYPE_S \<Rightarrow> ebind (get_gpr c rs1 m) (\<lambda>src1. ebind (get_gpr c rs2 m) (\<lambda>src2. Inr (rd, src1, src2, immS i)))
     | TYPE_J \<Rightarrow> Inr (rd, 0, 0, immJ i)
     | TYPE_R \<Rightarrow> ebind (get_gpr c rs1 m) (\<lambda>src1. ebind (get_gpr c rs2 m) (\<lambda>src2. Inr (rd, src1, src2, 0)))
     | TYPE_B \<Rightarrow> ebind (get_gpr c rs1 m) (\<lambda>src1. ebind (get_gpr c rs2 m) (\<lambda>src2. Inr (rd, src1, src2, immB i)))
     | TYPE_N \<Rightarrow> Inr (rd, 0, 0, 0))"

section \<open>Instructions\<close>

datatype inst_name =
    I_ebreak | I_ecall | I_mret | I_csrrw | I_csrrs | I_addi | I_slti | I_sltiu
  | I_xori | I_ori | I_andi | I_slli | I_srli | I_srai | I_mul | I_mulh
  | I_mulhu | I_mulhsu | I_div | I_divu | I_rem | I_remu | I_add | I_sub
  | I_sll | I_slt | I_sltu | I_xor | I_srl | I_sra | I_or | I_and
  | I_lb | I_lh | I_lw | I_lbu | I_lhu | I_sb | I_sh | I_sw
  | I_beq | I_bne | I_blt | I_bge | I_bltu | I_bgeu | I_lui | I_auipc
  | I_jal | I_jalr | I_inv

definition inst_table :: "(string \<times> inst_name \<times> inst_type) list" where
  "inst_table =
    [(''0000000 00001 00000 000 00000 11100 11'', I_ebreak, TYPE_N),
     (''0000000 00000 00000 000 00000 11100 11'', I_ecall, TYPE_N),
     (''0011000 00010 00000 000 00000 11100 11'', I_mret, TYPE_N),
     (''??????? ????? ????? 001 ????? 11100 11'', I_csrrw, TYPE_I),
     (''??????? ????? ????? 010 ????? 11100 11'', I_csrrs, TYPE_I),
     (''??????? ????? ????? 000 ????? 00100 11'', I_addi, TYPE_I),
     (''??????? ????? ????? 010 ????? 00100 11'', I_slti, TYPE_I),
     (''??????? ????? ????? 011 ????? 00100 11'', I_sltiu, TYPE_I),
     (''??????? ????? ????? 100 ????? 00100 11'', I_xori, TYPE_I),
     (''??????? ????? ????? 110 ????? 00100 11'', I_ori, TYPE_I),
     (''??????? ????? ????? 111 ????? 00100 11'', I_andi, TYPE_I),
     (''0000000 ????? ????? 001 ????? 00100 11'', I_slli, TYPE_I),
     (''0000000 ????? ????? 101 ????? 00100 11'', I_srli, TYPE_I),
     (''0100000 ????? ????? 101 ????? 00100 11'', I_srai, TYPE_I),
     (''0000001 ????? ????? 000 ????? 01100 11'', I_mul, TYPE_R),
     (''0000001 ????? ????? 001 ????? 01100 11'', I_mulh, TYPE_R),
     (''0000001 ????? ????? 011 ????? 01100 11'', I_mulhu, TYPE_R),
     (''0000001 ????? ????? 010 ????? 01100 11'', I_mulhsu, TYPE_R),
     (''0000001 ????? ????? 100 ????? 01100 11'', I_div, TYPE_R),
     (''0000001 ????? ????? 101 ????? 01100 11'', I_divu, TYPE_R),
     (''0000001 ????? ????? 110 ????? 01100 11'', I_rem, TYPE_R),
     (''0000001 ????? ????? 111 ????? 01100 11'', I_remu, TYPE_R),
     (''0000000 ????? ????? 000 ????? 01100 11'', I_add, TYPE_R),
     (''0100000 ????? ????? 000 ????? 01100 11'', I_sub, TYPE_R),
     (''0000000 ????? ????? 001 ????? 01100 11'', I_sll, TYPE_R),
     (''0000000 ????? ????? 010 ????? 01100 11'', I_slt, TYPE_R),
     (''0000000 ????? ????? 011 ????? 01100 11'', I_sltu, TYPE_R),
     (''0000000 ????? ????? 100 ????? 01100 11'', I_xor, TYPE_R),
     (''0000000 ????? ????? 101 ????? 01100 11'', I_srl, TYPE_R),
     (''0100000 ????? ????? 101 ????? 01100 11'', I_sra, TYPE_R),
     (''0000000 ????? ????? 110 ????? 01100 11'', I_or, TYPE_R),
     (''0000000 ????? ????? 111 ????? 01100 11'', I_and, TYPE_R),
     (''??????? ????? ????? 000 ????? 00000 11'', I_lb, TYPE_I),
     (''??????? ????? ????? 001 ????? 00000 11'', I_lh, TYPE_I),
     (''??????? ????? ????? 010 ????? 00000 11'', I_lw, TYPE_I),
     (''??????? ????? ????? 100 ????? 00000 11'', I_lbu, TYPE_I),
     (''??????? ????? ????? 101 ????? 00000 11'', I_lhu, TYPE_I),
     (''??????? ????? ????? 000 ????? 01000 11'', I_sb, TYPE_S),
     (''??????? ????? ????? 001 ????? 01000 11'', I_sh, TYPE_S),
     (''??????? ????? ????? 010 ????? 01000 11'', I_sw, TYPE_S),
     (''??????? ????? ????? 000 ????? 11000 11'', I_beq, TYPE_B),
     (''??????? ????? ????? 001 ????? 11000 11'', I_bne, TYPE_B),
     (''??????? ????? ????? 100 ????? 11000 11'', I_blt, TYPE_B),
     (''??????? ????? ????? 101 ????? 11000 11'', I_bge, TYPE_B),
     (''??????? ????? ????? 110 ????? 11000 11'', I_bltu, TYPE_B),
     (''??????? ????? ????? 111 ????? 11000 11'', I_bgeu, TYPE_B),
     (''??????? ????? ????? ??? ????? 01101 11'', I_lui, TYPE_U),
     (''??????? ????? ????? ??? ????? 00101 11'', I_auipc, TYPE_U),
     (''??????? ????? ????? ??? ????? 11011 11'', I_jal, TYPE_J),
     (''??????? ????? ????? 000 ????? 11001 11'', I_jalr, TYPE_I),
     (''??????? ????? ????? ??? ????? ????? ??'', I_inv, TYPE_N)]"

definition check_ftrace :: "nemu_config \<Rightarrow> paddr_t \<Rightarrow> paddr_t \<Rightarrow> nat \<Rightarrow> nat \<Rightarrow> bool \<Rightarrow> machine \<Rightarrow> machine" where
  "check_ftrace c p dn rd rs1 is_jalr m =
    (if \<not> CONFIG_FTRACE c then m
     else if rd = 1 \<or> rd = 5 then m\<lparr>ftrace_log := ftrace_log m @ [(p, dn, True)]\<rparr>
     else if is_jalr \<and> rd = 0 \<and> (rs1 = 1 \<or> rs1 = 5) then m\<lparr>ftrace_log := ftrace_log m @ [(p, dn, False)]\<rparr>
     else m)"

text \<open>The CSR switch of \<^verbatim>\<open>csrrw\<close> and \<^verbatim>\<open>csrrs\<close>: \<open>f\<close> is the update of the register; the old value is returned.\<close>

definition csr_switch :: "(u32 \<Rightarrow> u32) \<Rightarrow> u32 \<Rightarrow> machine \<Rightarrow> (u32 \<times> machine) res" where
  "csr_switch f csr_idx m =
    (let cp = cpu m in
     if csr_idx = 0x300 then Inr (mstatus cp, m\<lparr>cpu := cp\<lparr>mstatus := f (mstatus cp)\<rparr>\<rparr>)
     else if csr_idx = 0x305 then Inr (mtvec cp, m\<lparr>cpu := cp\<lparr>mtvec := f (mtvec cp)\<rparr>\<rparr>)
     else if csr_idx = 0x341 then Inr (mepc cp, m\<lparr>cpu := cp\<lparr>mepc := f (mepc cp)\<rparr>\<rparr>)
     else if csr_idx = 0x342 then Inr (mcause cp, m\<lparr>cpu := cp\<lparr>mcause := f (mcause cp)\<rparr>\<rparr>)
     else if csr_idx = 0xf11 then Inr (0x79737978, m)
     else if csr_idx = 0xf12 then Inr (100022721, m)
     else Inl (Panic ''Unsupported CSR''))"

text \<open>The value \<^verbatim>\<open>R(rd)\<close> gets from an instruction that only computes on its operands.\<close>

definition shamt :: "u32 \<Rightarrow> nat" where
  "shamt x = unat (x AND 0x1f)"

definition alu :: "inst_name \<Rightarrow> vaddr_t \<Rightarrow> u32 \<Rightarrow> u32 \<Rightarrow> u32 \<Rightarrow> u32 res option" where
  "alu nm p src1 src2 imm =
    (case nm of
       I_addi \<Rightarrow> Some (Inr (src1 + imm))
     | I_slti \<Rightarrow> Some (Inr (of_bool32 (c_slt src1 imm)))
     | I_sltiu \<Rightarrow> Some (Inr (of_bool32 (src1 < imm)))
     | I_xori \<Rightarrow> Some (Inr (src1 XOR imm))
     | I_ori \<Rightarrow> Some (Inr (src1 OR imm))
     | I_andi \<Rightarrow> Some (Inr (src1 AND imm))
     | I_slli \<Rightarrow> Some (Inr (push_bit (shamt imm) src1))
     | I_srli \<Rightarrow> Some (Inr (drop_bit (shamt imm) src1))
     | I_srai \<Rightarrow> Some (Inr (signed_drop_bit (shamt imm) src1))
     | I_mul \<Rightarrow> Some (Inr (src1 * src2))
     | I_mulh \<Rightarrow> Some (Inr (ucast (signed_drop_bit 32 (scast src1 * scast src2 :: u64))))
     | I_mulhu \<Rightarrow> Some (Inr (ucast (drop_bit 32 (ucast src1 * ucast src2 :: u64))))
     | I_mulhsu \<Rightarrow> Some (Inr (ucast (drop_bit 32 (scast src1 * ucast src2 :: u64))))
     | I_div \<Rightarrow> Some (if c_div_ok src1 src2 then Inr (c_sdiv src1 src2) else Inl (Undef ''signed division''))
     | I_divu \<Rightarrow> Some (if src2 \<noteq> 0 then Inr (src1 div src2) else Inl (Undef ''division by zero''))
     | I_rem \<Rightarrow> Some (if c_div_ok src1 src2 then Inr (c_smod src1 src2) else Inl (Undef ''signed division''))
     | I_remu \<Rightarrow> Some (if src2 \<noteq> 0 then Inr (src1 mod src2) else Inl (Undef ''division by zero''))
     | I_add \<Rightarrow> Some (Inr (src1 + src2))
     | I_sub \<Rightarrow> Some (Inr (src1 - src2))
     | I_sll \<Rightarrow> Some (Inr (push_bit (shamt src2) src1))
     | I_slt \<Rightarrow> Some (Inr (of_bool32 (c_slt src1 src2)))
     | I_sltu \<Rightarrow> Some (Inr (of_bool32 (src1 < src2)))
     | I_xor \<Rightarrow> Some (Inr (src1 XOR src2))
     | I_srl \<Rightarrow> Some (Inr (drop_bit (shamt src2) src1))
     | I_sra \<Rightarrow> Some (Inr (signed_drop_bit (shamt src2) src1))
     | I_or \<Rightarrow> Some (Inr (src1 OR src2))
     | I_and \<Rightarrow> Some (Inr (src1 AND src2))
     | I_lui \<Rightarrow> Some (Inr imm)
     | I_auipc \<Rightarrow> Some (Inr (p + imm))
     | _ \<Rightarrow> None)"

text \<open>The condition under which a branch is taken.\<close>

definition branch :: "inst_name \<Rightarrow> u32 \<Rightarrow> u32 \<Rightarrow> bool option" where
  "branch nm src1 src2 =
    (case nm of
       I_beq \<Rightarrow> Some (src1 = src2)
     | I_bne \<Rightarrow> Some (src1 \<noteq> src2)
     | I_blt \<Rightarrow> Some (c_slt src1 src2)
     | I_bge \<Rightarrow> Some (\<not> c_slt src1 src2)
     | I_bltu \<Rightarrow> Some (src1 < src2)
     | I_bgeu \<Rightarrow> Some (src1 \<ge> src2)
     | _ \<Rightarrow> None)"

text \<open>Length and conversion of the value loaded, and length of a store.\<close>

definition load_conv :: "inst_name \<Rightarrow> (nat \<times> (u32 \<Rightarrow> u32)) option" where
  "load_conv nm =
    (case nm of
       I_lb \<Rightarrow> Some (1, \<lambda>v. scast (ucast v :: u8))
     | I_lh \<Rightarrow> Some (2, \<lambda>v. scast (ucast v :: u16))
     | I_lw \<Rightarrow> Some (4, \<lambda>v. v)
     | I_lbu \<Rightarrow> Some (1, \<lambda>v. v)
     | I_lhu \<Rightarrow> Some (2, \<lambda>v. v)
     | _ \<Rightarrow> None)"

definition store_len :: "inst_name \<Rightarrow> nat option" where
  "store_len nm =
    (case nm of
       I_sb \<Rightarrow> Some 1
     | I_sh \<Rightarrow> Some 2
     | I_sw \<Rightarrow> Some 4
     | _ \<Rightarrow> None)"

type_synonym exec_state = "Decode \<times> machine"

definition exec_system :: "nemu_config \<Rightarrow> IOMap list \<Rightarrow> inst_name \<Rightarrow> nat \<times> u32 \<times> u32 \<times> u32 \<Rightarrow>
    exec_state \<Rightarrow> exec_state res" where
  "exec_system c maps nm ops s =
    (case s of (de, m) \<Rightarrow> case ops of (rd, src1, src2, imm) \<Rightarrow>
     case nm of
       I_ebreak \<Rightarrow> ebind (get_gpr c 10 m) (\<lambda>a0. Inr (de, set_nemu_state c NEMU_END (pc de) a0 m))
     | I_ecall \<Rightarrow> (case isa_raise_intr 11 (pc de) m of (v, m') \<Rightarrow> Inr (de\<lparr>dnpc := v\<rparr>, m'))
     | I_mret \<Rightarrow> Inr (de\<lparr>dnpc := mepc (cpu m)\<rparr>, m)
     | I_csrrw \<Rightarrow> ebind (csr_switch (\<lambda>_. src1) (ucast (BITS (ucast (inst de)) 31 20)) m) (\<lambda>(t, m1).
         ebind (set_gpr c rd t m1) (\<lambda>m2. Inr (de, m2)))
     | I_csrrs \<Rightarrow> ebind (csr_switch (\<lambda>old. old OR src1) (ucast (BITS (ucast (inst de)) 31 20)) m) (\<lambda>(t, m1).
         ebind (set_gpr c rd t m1) (\<lambda>m2. Inr (de, m2)))
     | I_jal \<Rightarrow> ebind (set_gpr c rd (pc de + 4) m) (\<lambda>m1.
         Inr (de\<lparr>dnpc := pc de + imm\<rparr>, check_ftrace c (pc de) (pc de + imm) rd 0 False m1))
     | I_jalr \<Rightarrow> (let t = src1 + imm in ebind (set_gpr c rd (pc de + 4) m) (\<lambda>m1.
         Inr (de\<lparr>dnpc := t AND NOT 1\<rparr>,
              check_ftrace c (pc de) (t AND NOT 1) rd (unat (BITS (ucast (inst de)) 19 15)) True m1)))
     | _ \<Rightarrow> ebind (invalid_inst c maps (pc de) m) (\<lambda>m1. Inr (de, m1)))"

definition exec_inst :: "nemu_config \<Rightarrow> IOMap list \<Rightarrow> inst_name \<Rightarrow> nat \<times> u32 \<times> u32 \<times> u32 \<Rightarrow>
    exec_state \<Rightarrow> exec_state res" where
  "exec_inst c maps nm ops s =
    (case s of (de, m) \<Rightarrow> case ops of (rd, src1, src2, imm) \<Rightarrow>
     case alu nm (pc de) src1 src2 imm of
       Some r \<Rightarrow> ebind r (\<lambda>v. ebind (set_gpr c rd v m) (\<lambda>m1. Inr (de, m1)))
     | None \<Rightarrow>
     case branch nm src1 src2 of
       Some taken \<Rightarrow> Inr (if taken then de\<lparr>dnpc := pc de + imm\<rparr> else de, m)
     | None \<Rightarrow>
     case load_conv nm of
       Some (len, conv) \<Rightarrow> ebind (vaddr_read c maps (src1 + imm) len m) (\<lambda>(v, m1).
         ebind (set_gpr c rd (conv v) m1) (\<lambda>m2. Inr (de, m2)))
     | None \<Rightarrow>
     case store_len nm of
       Some len \<Rightarrow> ebind (vaddr_write c maps (src1 + imm) len src2 m) (\<lambda>m1. Inr (de, m1))
     | None \<Rightarrow> exec_system c maps nm ops s)"

section \<open>decode\_exec and isa\_exec\_once\<close>

fun find_inst :: "(string \<times> inst_name \<times> inst_type) list \<Rightarrow> u32 \<Rightarrow> (inst_name \<times> inst_type) option res" where
  "find_inst [] i = Inr None"
| "find_inst ((pat, nm, ty) # rest) i =
    ebind (instpat_match pat i) (\<lambda>b. if b then Inr (Some (nm, ty)) else find_inst rest i)"

definition decode_exec :: "nemu_config \<Rightarrow> IOMap list \<Rightarrow> exec_state \<Rightarrow> exec_state res" where
  "decode_exec c maps s =
    (case s of (de0, m) \<Rightarrow>
     let de = de0\<lparr>dnpc := snpc de0\<rparr> in
     ebind (find_inst inst_table (inst de)) (\<lambda>found.
     ebind (case found of None \<Rightarrow> Inr (de, m)
            | Some (nm, ty) \<Rightarrow> ebind (decode_operand c (inst de) ty m) (\<lambda>ops. exec_inst c maps nm ops (de, m)))
     (\<lambda>(de1, m1). ebind (set_gpr c 0 0 m1) (\<lambda>m2. Inr (de1, m2)))))"

definition isa_exec_once :: "nemu_config \<Rightarrow> IOMap list \<Rightarrow> exec_state \<Rightarrow> exec_state res" where
  "isa_exec_once c maps s =
    (case s of (de, m) \<Rightarrow>
     ebind (inst_fetch c maps (snpc de) 4 m) (\<lambda>(i, snpc', m1).
       decode_exec c maps (de\<lparr>inst := i, snpc := snpc'\<rparr>, m1)))"

end
