(* ===== verification/Riscv_Spec.thy ===== *)
theory Riscv_Spec
  imports Riscv_Inst
begin

text \<open>
  The RISC-V reference the interpreter is compared with: instruction fields and listing, immediate
  formats and integer arithmetic as the ISA manual defines them. The theorems show that the table
  decodes exactly the listing, that immediates and arithmetic agree with the reference, what a step
  changes, and that loads return what stores left.
\<close>

section \<open>The compiled table\<close>

text \<open>Key, mask and shift of every pattern, as the decoder computes them at compile time.\<close>

definition compiled_table :: "(u64 \<times> u64 \<times> nat \<times> inst_name \<times> inst_type) list" where
  "compiled_table =
    [(0x100073, 0xffffffff, 0, I_ebreak, TYPE_N),
     (0x73, 0xffffffff, 0, I_ecall, TYPE_N),
     (0x30200073, 0xffffffff, 0, I_mret, TYPE_N),
     (0x1073, 0x707f, 0, I_csrrw, TYPE_I),
     (0x2073, 0x707f, 0, I_csrrs, TYPE_I),
     (0x13, 0x707f, 0, I_addi, TYPE_I),
     (0x2013, 0x707f, 0, I_slti, TYPE_I),
     (0x3013, 0x707f, 0, I_sltiu, TYPE_I),
     (0x4013, 0x707f, 0, I_xori, TYPE_I),
     (0x6013, 0x707f, 0, I_ori, TYPE_I),
     (0x7013, 0x707f, 0, I_andi, TYPE_I),
     (0x1013, 0xfe00707f, 0, I_slli, TYPE_I),
     (0x5013, 0xfe00707f, 0, I_srli, TYPE_I),
     (0x40005013, 0xfe00707f, 0, I_srai, TYPE_I),
     (0x2000033, 0xfe00707f, 0, I_mul, TYPE_R),
     (0x2001033, 0xfe00707f, 0, I_mulh, TYPE_R),
     (0x2003033, 0xfe00707f, 0, I_mulhu, TYPE_R),
     (0x2002033, 0xfe00707f, 0, I_mulhsu, TYPE_R),
     (0x2004033, 0xfe00707f, 0, I_div, TYPE_R),
     (0x2005033, 0xfe00707f, 0, I_divu, TYPE_R),
     (0x2006033, 0xfe00707f, 0, I_rem, TYPE_R),
     (0x2007033, 0xfe00707f, 0, I_remu, TYPE_R),
     (0x33, 0xfe00707f, 0, I_add, TYPE_R),
     (0x40000033, 0xfe00707f, 0, I_sub, TYPE_R),
     (0x1033, 0xfe00707f, 0, I_sll, TYPE_R),
     (0x2033, 0xfe00707f, 0, I_slt, TYPE_R),
     (0x3033, 0xfe00707f, 0, I_sltu, TYPE_R),
     (0x4033, 0xfe00707f, 0, I_xor, TYPE_R),
     (0x5033, 0xfe00707f, 0, I_srl, TYPE_R),
     (0x40005033, 0xfe00707f, 0, I_sra, TYPE_R),
     (0x6033, 0xfe00707f, 0, I_or, TYPE_R),
     (0x7033, 0xfe00707f, 0, I_and, TYPE_R),
     (0x3, 0x707f, 0, I_lb, TYPE_I),
     (0x1003, 0x707f, 0, I_lh, TYPE_I),
     (0x2003, 0x707f, 0, I_lw, TYPE_I),
     (0x4003, 0x707f, 0, I_lbu, TYPE_I),
     (0x5003, 0x707f, 0, I_lhu, TYPE_I),
     (0x23, 0x707f, 0, I_sb, TYPE_S),
     (0x1023, 0x707f, 0, I_sh, TYPE_S),
     (0x2023, 0x707f, 0, I_sw, TYPE_S),
     (0x63, 0x707f, 0, I_beq, TYPE_B),
     (0x1063, 0x707f, 0, I_bne, TYPE_B),
     (0x4063, 0x707f, 0, I_blt, TYPE_B),
     (0x5063, 0x707f, 0, I_bge, TYPE_B),
     (0x6063, 0x707f, 0, I_bltu, TYPE_B),
     (0x7063, 0x707f, 0, I_bgeu, TYPE_B),
     (0x37, 0x7f, 0, I_lui, TYPE_U),
     (0x17, 0x7f, 0, I_auipc, TYPE_U),
     (0x6f, 0x7f, 0, I_jal, TYPE_J),
     (0x67, 0x707f, 0, I_jalr, TYPE_I),
     (0x0, 0x0, 32, I_inv, TYPE_N)]"

lemma compiled_table_eq:
  "map (\<lambda>(pat, nm, ty). ebind (pattern_decode pat) (\<lambda>(k, m, s). Inr (k, m, s, nm, ty))) inst_table
   = map Inr compiled_table"
  by (simp add: inst_table_def compiled_table_def pattern_decode_def)

fun comp_find :: "(u64 \<times> u64 \<times> nat \<times> inst_name \<times> inst_type) list \<Rightarrow> u32 \<Rightarrow> (inst_name \<times> inst_type) option" where
  "comp_find [] i = None"
| "comp_find ((k, m, s, nm, ty) # rest) i =
    (if drop_bit s (ucast i) AND m = k then Some (nm, ty) else comp_find rest i)"

lemma find_inst_compiled:
  "map (\<lambda>(pat, nm, ty). ebind (pattern_decode pat) (\<lambda>(k, m, s). Inr (k, m, s, nm, ty))) tbl
     = map Inr ctbl \<Longrightarrow> find_inst tbl i = Inr (comp_find ctbl i)"
proof (induction tbl arbitrary: ctbl)
  case (Cons row tbl)
  obtain pat nm ty where row: "row = (pat, nm, ty)" by (cases row)
  obtain e ctbl' where c: "ctbl = e # ctbl'" using Cons.prems by (cases ctbl) auto
  obtain k m s where e: "e = (k, m, s, nm, ty)" "pattern_decode pat = Inr (k, m, s)"
    using Cons.prems by (auto simp: row c)
  show ?case using Cons.IH [of ctbl'] Cons.prems by (simp add: row c e instpat_match_def)
qed simp

section \<open>Instruction fields\<close>

definition opcode :: "u32 \<Rightarrow> u32" where "opcode i = i AND 0x7f"
definition funct3 :: "u32 \<Rightarrow> u32" where "funct3 i = drop_bit 12 i AND 7"
definition funct7 :: "u32 \<Rightarrow> u32" where "funct7 i = drop_bit 25 i"

text \<open>
  The instruction listing of the RISC-V manual for RV32I, RV32M and the supported part of Zicsr,
  by the fields of the formats.
\<close>

definition rv32_decode :: "u32 \<Rightarrow> inst_name \<times> inst_type" where
  "rv32_decode i =
    (let op = opcode i; f3 = funct3 i; f7 = funct7 i; inv = (I_inv, TYPE_N) in
     if op = 0x37 then (I_lui, TYPE_U)
     else if op = 0x17 then (I_auipc, TYPE_U)
     else if op = 0x6f then (I_jal, TYPE_J)
     else if op = 0x67 then (if f3 = 0 then (I_jalr, TYPE_I) else inv)
     else if op = 0x63 then
       (if f3 = 0 then (I_beq, TYPE_B) else if f3 = 1 then (I_bne, TYPE_B)
        else if f3 = 4 then (I_blt, TYPE_B) else if f3 = 5 then (I_bge, TYPE_B)
        else if f3 = 6 then (I_bltu, TYPE_B) else if f3 = 7 then (I_bgeu, TYPE_B) else inv)
     else if op = 0x03 then
       (if f3 = 0 then (I_lb, TYPE_I) else if f3 = 1 then (I_lh, TYPE_I)
        else if f3 = 2 then (I_lw, TYPE_I) else if f3 = 4 then (I_lbu, TYPE_I)
        else if f3 = 5 then (I_lhu, TYPE_I) else inv)
     else if op = 0x23 then
       (if f3 = 0 then (I_sb, TYPE_S) else if f3 = 1 then (I_sh, TYPE_S)
        else if f3 = 2 then (I_sw, TYPE_S) else inv)
     else if op = 0x13 then
       (if f3 = 0 then (I_addi, TYPE_I) else if f3 = 2 then (I_slti, TYPE_I)
        else if f3 = 3 then (I_sltiu, TYPE_I) else if f3 = 4 then (I_xori, TYPE_I)
        else if f3 = 6 then (I_ori, TYPE_I) else if f3 = 7 then (I_andi, TYPE_I)
        else if f3 = 1 \<and> f7 = 0 then (I_slli, TYPE_I)
        else if f3 = 5 \<and> f7 = 0 then (I_srli, TYPE_I)
        else if f3 = 5 \<and> f7 = 0x20 then (I_srai, TYPE_I) else inv)
     else if op = 0x33 then
       (if f7 = 0 then
          (if f3 = 0 then (I_add, TYPE_R) else if f3 = 1 then (I_sll, TYPE_R)
           else if f3 = 2 then (I_slt, TYPE_R) else if f3 = 3 then (I_sltu, TYPE_R)
           else if f3 = 4 then (I_xor, TYPE_R) else if f3 = 5 then (I_srl, TYPE_R)
           else if f3 = 6 then (I_or, TYPE_R) else if f3 = 7 then (I_and, TYPE_R) else inv)
        else if f7 = 0x20 then
          (if f3 = 0 then (I_sub, TYPE_R) else if f3 = 5 then (I_sra, TYPE_R) else inv)
        else if f7 = 1 then
          (if f3 = 0 then (I_mul, TYPE_R) else if f3 = 1 then (I_mulh, TYPE_R)
           else if f3 = 2 then (I_mulhsu, TYPE_R) else if f3 = 3 then (I_mulhu, TYPE_R)
           else if f3 = 4 then (I_div, TYPE_R) else if f3 = 5 then (I_divu, TYPE_R)
           else if f3 = 6 then (I_rem, TYPE_R) else if f3 = 7 then (I_remu, TYPE_R) else inv)
        else inv)
     else if op = 0x73 then
       (if i = 0x00000073 then (I_ecall, TYPE_N) else if i = 0x00100073 then (I_ebreak, TYPE_N)
        else if i = 0x30200073 then (I_mret, TYPE_N)
        else if f3 = 1 then (I_csrrw, TYPE_I) else if f3 = 2 then (I_csrrs, TYPE_I) else inv)
     else inv)"

lemma ucast_and_u64: "(ucast (i :: u32) :: u64) AND ucast m = ucast k \<longleftrightarrow> i AND m = k"
proof -
  have "(ucast i :: u64) AND ucast m = ucast (i AND m)"
    by (rule bit_eqI) (auto simp: bit_and_iff bit_unsigned_iff)
  then show ?thesis by (simp add: unsigned_ucast_eq word_unat_eq_iff take_bit_nat_def)
qed

lemma bit_small: "take_bit n x = x \<Longrightarrow> bit x k \<Longrightarrow> k < n" for x :: u32
  by (metis bit_take_bit_iff)

lemma opcode_mask: "opcode i = take_bit 7 i"
  by (simp add: opcode_def take_bit_eq_mask mask_eq_exp_minus_1)

lemma funct3_mask: "funct3 i = take_bit 3 (drop_bit 12 i)"
  by (simp add: funct3_def take_bit_eq_mask mask_eq_exp_minus_1)

lemma eq_pointwise: "x = y \<longleftrightarrow> (\<forall>n < 32. bit x n \<longleftrightarrow> bit y n)" for x y :: u32
  by (auto simp: bit_eq_iff dest: bit_imp_le_length)

lemma fields_op3:
  assumes "take_bit 7 a = a" "take_bit 3 b = b"
  shows "i AND (mask 7 OR push_bit 12 (mask 3)) = a OR push_bit 12 b \<longleftrightarrow> opcode i = a \<and> funct3 i = b"
proof
  assume *: "i AND (mask 7 OR push_bit 12 (mask 3)) = a OR push_bit 12 b"
  have bits: "bit i n \<and> (n < 7 \<or> 12 \<le> n \<and> n < 15) \<longleftrightarrow> bit a n \<or> 12 \<le> n \<and> bit b (n - 12)" if "n < 32" for n
    using arg_cong [OF *, of "\<lambda>x. bit x n"] that
    by (auto simp: bit_and_iff bit_or_iff bit_push_bit_iff bit_mask_iff)
  have "opcode i = a"
    unfolding opcode_mask eq_pointwise
  proof (intro allI impI)
    fix n :: nat assume "n < 32"
    then show "bit (take_bit 7 i) n = bit a n"
      using bits [of n] bit_small [OF assms(1), of n] by (auto simp: bit_take_bit_iff)
  qed
  moreover have "funct3 i = b"
    unfolding funct3_mask eq_pointwise
  proof (intro allI impI)
    fix n :: nat assume "n < 32"
    show "bit (take_bit 3 (drop_bit 12 i)) n = bit b n"
      using bits [of "n + 12"] bit_small [OF assms(1), of "n + 12"] bit_small [OF assms(2), of n]
      by (auto simp: bit_take_bit_iff bit_drop_bit_eq add.commute)
  qed
  ultimately show "opcode i = a \<and> funct3 i = b" by simp
next
  assume "opcode i = a \<and> funct3 i = b"
  then have a: "a = take_bit 7 i" and b: "b = take_bit 3 (drop_bit 12 i)"
    by (simp_all add: opcode_mask funct3_mask)
  show "i AND (mask 7 OR push_bit 12 (mask 3)) = a OR push_bit 12 b"
    unfolding a b eq_pointwise
    by (auto simp: bit_and_iff bit_or_iff bit_push_bit_iff bit_mask_iff bit_take_bit_iff bit_drop_bit_eq)
qed

lemma fields_f7:
  assumes "take_bit 25 x = x" "take_bit 25 m = m" "take_bit 7 f = f"
  shows "i AND (m OR push_bit 25 (mask 7)) = x OR push_bit 25 f \<longleftrightarrow> i AND m = x \<and> funct7 i = f"
proof
  assume *: "i AND (m OR push_bit 25 (mask 7)) = x OR push_bit 25 f"
  have bits: "bit i n \<and> (bit m n \<or> 25 \<le> n) \<longleftrightarrow> bit x n \<or> 25 \<le> n \<and> bit f (n - 25)" if "n < 32" for n
    using arg_cong [OF *, of "\<lambda>x. bit x n"] that
    by (auto simp: bit_and_iff bit_or_iff bit_push_bit_iff bit_mask_iff)
  have "i AND m = x"
    unfolding eq_pointwise
  proof (intro allI impI)
    fix n :: nat assume "n < 32"
    then show "bit (i AND m) n = bit x n"
      using bits [of n] bit_small [OF assms(1), of n] bit_small [OF assms(2), of n]
      by (auto simp: bit_and_iff)
  qed
  moreover have "funct7 i = f"
    unfolding funct7_def eq_pointwise
  proof (intro allI impI)
    fix n :: nat assume "n < 32"
    show "bit (drop_bit 25 i) n = bit f n"
      using bits [of "n + 25"] bit_small [OF assms(1), of "n + 25"] bit_small [OF assms(3), of n]
        bit_imp_le_length [of i "n + 25"]
      by (auto simp: bit_drop_bit_eq add.commute)
  qed
  ultimately show "i AND m = x \<and> funct7 i = f" by simp
next
  assume "i AND m = x \<and> funct7 i = f"
  then have a: "x = i AND m" and b: "f = drop_bit 25 i"
    by (simp_all add: funct7_def)
  show "i AND (m OR push_bit 25 (mask 7)) = x OR push_bit 25 f"
    unfolding a b eq_pointwise
    by (auto simp: bit_and_iff bit_or_iff bit_push_bit_iff bit_mask_iff bit_drop_bit_eq)
qed

lemma match_op:
  assumes "take_bit 7 a = a"
  shows "(ucast i :: u64) AND 0x7f = ucast a \<longleftrightarrow> opcode i = a"
  using ucast_and_u64 [of i "0x7f" a] by (simp add: opcode_def)

lemma match_op3:
  assumes "take_bit 7 a = a" "take_bit 3 b = b"
  shows "(ucast i :: u64) AND 0x707f = ucast (a OR push_bit 12 b) \<longleftrightarrow> opcode i = a \<and> funct3 i = b"
proof -
  have "mask 7 OR push_bit 12 (mask 3) = (0x707f :: u32)" by (simp add: mask_eq_exp_minus_1)
  then show ?thesis
    using ucast_and_u64 [of i "0x707f" "a OR push_bit 12 b"] fields_op3 [OF assms, of i] by simp
qed

lemma match_op37:
  assumes "take_bit 7 a = a" "take_bit 3 b = b" "take_bit 7 f = f"
  shows "(ucast i :: u64) AND 0xfe00707f = ucast (a OR push_bit 12 b OR push_bit 25 f) \<longleftrightarrow>
    opcode i = a \<and> funct3 i = b \<and> funct7 i = f"
proof -
  have m: "mask 7 OR push_bit 12 (mask 3) = (0x707f :: u32)"
    "0x707f OR push_bit 25 (mask 7) = (0xfe00707f :: u32)" by (simp_all add: mask_eq_exp_minus_1)
  have x: "take_bit 25 (a OR push_bit 12 b) = a OR push_bit 12 b"
    using bit_small [OF assms(1)] bit_small [OF assms(2)]
    by (auto simp: eq_pointwise bit_take_bit_iff bit_or_iff bit_push_bit_iff) fastforce+
  have "i AND 0xfe00707f = (a OR push_bit 12 b) OR push_bit 25 f
      \<longleftrightarrow> i AND 0x707f = a OR push_bit 12 b \<and> funct7 i = f"
    using fields_f7 [OF x _ assms(3), of "0x707f" i] m(2) by simp
  moreover have "i AND 0x707f = a OR push_bit 12 b \<longleftrightarrow> opcode i = a \<and> funct3 i = b"
    using fields_op3 [OF assms(1,2), of i] m(1) by simp
  ultimately show ?thesis
    using ucast_and_u64 [of i "0xfe00707f" "a OR push_bit 12 b OR push_bit 25 f"]
    by (simp add: or.assoc)
qed

lemma match_word:
  assumes "k AND 0x7f = a"
  shows "(ucast i :: u64) AND 0xffffffff = ucast k \<longleftrightarrow> opcode i = a \<and> i = k"
proof -
  have "(0xffffffff :: u32) = - 1" by simp
  then have "i AND 0xffffffff = i" by (simp only: and.right_neutral)
  then show ?thesis using ucast_and_u64 [of i "0xffffffff" k] assms by (auto simp: opcode_def)
qed

lemmas match_fields =
  match_word [of "0x00100073" "0x73", simplified] match_word [of "0x00000073" "0x73", simplified]
  match_word [of "0x30200073" "0x73", simplified]
  match_op3 [of "0x73" "1", simplified] match_op3 [of "0x73" "2", simplified]
  match_op3 [of "0x13" "0", simplified] match_op3 [of "0x13" "2", simplified]
  match_op3 [of "0x13" "3", simplified] match_op3 [of "0x13" "4", simplified]
  match_op3 [of "0x13" "6", simplified] match_op3 [of "0x13" "7", simplified]
  match_op37 [of "0x13" "1" "0x0", simplified] match_op37 [of "0x13" "5" "0x0", simplified]
  match_op37 [of "0x13" "5" "0x20", simplified] match_op37 [of "0x33" "0" "0x1", simplified]
  match_op37 [of "0x33" "1" "0x1", simplified] match_op37 [of "0x33" "3" "0x1", simplified]
  match_op37 [of "0x33" "2" "0x1", simplified] match_op37 [of "0x33" "4" "0x1", simplified]
  match_op37 [of "0x33" "5" "0x1", simplified] match_op37 [of "0x33" "6" "0x1", simplified]
  match_op37 [of "0x33" "7" "0x1", simplified] match_op37 [of "0x33" "0" "0x0", simplified]
  match_op37 [of "0x33" "0" "0x20", simplified] match_op37 [of "0x33" "1" "0x0", simplified]
  match_op37 [of "0x33" "2" "0x0", simplified] match_op37 [of "0x33" "3" "0x0", simplified]
  match_op37 [of "0x33" "4" "0x0", simplified] match_op37 [of "0x33" "5" "0x0", simplified]
  match_op37 [of "0x33" "5" "0x20", simplified] match_op37 [of "0x33" "6" "0x0", simplified]
  match_op37 [of "0x33" "7" "0x0", simplified] match_op3 [of "0x3" "0", simplified]
  match_op3 [of "0x3" "1", simplified] match_op3 [of "0x3" "2", simplified]
  match_op3 [of "0x3" "4", simplified] match_op3 [of "0x3" "5", simplified]
  match_op3 [of "0x23" "0", simplified] match_op3 [of "0x23" "1", simplified]
  match_op3 [of "0x23" "2", simplified] match_op3 [of "0x63" "0", simplified]
  match_op3 [of "0x63" "1", simplified] match_op3 [of "0x63" "4", simplified]
  match_op3 [of "0x63" "5", simplified] match_op3 [of "0x63" "6", simplified]
  match_op3 [of "0x63" "7", simplified] match_op [of "0x37", simplified]
  match_op [of "0x17", simplified] match_op [of "0x6f", simplified]
  match_op3 [of "0x67" "0", simplified]

lemma table_match:
  "find_inst inst_table i = Inr (comp_find compiled_table i)"
  by (rule find_inst_compiled [OF compiled_table_eq])

lemma comp_find_decode: "comp_find compiled_table i = Some (rv32_decode i)"
proof -
  note defs = compiled_table_def comp_find.simps drop_bit_0 id_apply rv32_decode_def Let_def match_fields
  consider "opcode i = 0x33" | "opcode i = 0x73" | "opcode i \<noteq> 0x33" "opcode i \<noteq> 0x73" by blast
  then show ?thesis
  proof cases
    case 1
    show ?thesis unfolding defs 1 by simp
  next
    case 2
    show ?thesis unfolding defs 2 by simp
  next
    case 3
    then show ?thesis unfolding defs by (simp cong: if_cong)
  qed
qed

text \<open>
  C1: the pattern table decodes exactly the RISC-V encodings. For every 32-bit word the table in
  source order finds the instruction that the fields of the word (opcode, funct3, funct7 and the
  system words) name in the ISA listing, with its operand format, and the catch-all row otherwise.
\<close>

theorem decode_table_correct: "find_inst inst_table i = Inr (Some (rv32_decode i))"
  using table_match comp_find_decode by simp

section \<open>Immediates\<close>

lemma bit_SEXT: "n < 64 \<Longrightarrow> 0 < len \<Longrightarrow> bit (SEXT x len) n \<longleftrightarrow> bit x (min (len - 1) n)"
  by (simp add: SEXT_def bit_signed_take_bit_iff min.commute)

lemma bit_imm_even:
  "bit (ucast (push_bit 1 (x :: u64)) :: u32) n \<longleftrightarrow> n < 32 \<and> 1 \<le> n \<and> bit x (n - 1)"
  by (auto simp only: bit_unsigned_iff bit_push_bit_iff possible_bit_word len_num1 len_bit0)

lemmas imm_bits = bit_unsigned_iff bit_SEXT bit_BITS bit_push_bit_iff bit_or_iff

text \<open>
  C9: the immediates are the ones of the formats. Bit by bit, each immediate is the permutation of
  instruction bits the ISA prescribes for its format, with bit 31 of the instruction as the sign in
  all higher bits and bit 0 clear for branches and jumps.
\<close>

theorem immediates_correct:
  assumes "n < 32"
  shows "(bit (immI i) n \<longleftrightarrow> bit i (if n < 11 then n + 20 else 31)) \<and>
    (bit (immU i) n \<longleftrightarrow> 12 \<le> n \<and> bit i n) \<and>
    (bit (immS i) n \<longleftrightarrow> bit i (if n < 5 then n + 7 else if n < 11 then n + 20 else 31)) \<and>
    (bit (immB i) n \<longleftrightarrow> n \<noteq> 0 \<and>
       bit i (if n < 5 then n + 7 else if n < 11 then n + 20 else if n = 11 then 7 else 31)) \<and>
    (bit (immJ i) n \<longleftrightarrow> n \<noteq> 0 \<and>
       bit i (if n < 11 then n + 20 else if n = 11 then 20 else if n < 20 then n else 31))"
proof (intro conjI)
  show "bit (immI i) n \<longleftrightarrow> bit i (if n < 11 then n + 20 else 31)"
    using assms unfolding immI_def by (auto simp: imm_bits min_def add.commute)
  show "bit (immU i) n \<longleftrightarrow> 12 \<le> n \<and> bit i n"
    using assms unfolding immU_def by (cases "n = 31") (auto simp: imm_bits min_def)
  show "bit (immS i) n \<longleftrightarrow> bit i (if n < 5 then n + 7 else if n < 11 then n + 20 else 31)"
    using assms unfolding immS_def by (auto simp: imm_bits min_def add.commute)
  show "bit (immB i) n \<longleftrightarrow> n \<noteq> 0 \<and>
       bit i (if n < 5 then n + 7 else if n < 11 then n + 20 else if n = 11 then 7 else 31)"
    proof (cases n)
    case 0
    then show ?thesis unfolding immB_def bit_imm_even by simp
  next
    case (Suc k)
    then show ?thesis
      using assms unfolding immB_def bit_imm_even by (auto simp: imm_bits min_def add.commute)
  qed
  show "bit (immJ i) n \<longleftrightarrow> n \<noteq> 0 \<and>
       bit i (if n < 11 then n + 20 else if n = 11 then 20 else if n < 20 then n else 31)"
    proof (cases n)
    case 0
    then show ?thesis unfolding immJ_def bit_imm_even by simp
  next
    case (Suc k)
    then show ?thesis
      using assms unfolding immJ_def bit_imm_even by (auto simp: imm_bits min_def add.commute)
  qed
qed

text \<open>The word of \<^verbatim>\<open>jal ra, -4\<close>: all bits of the jump offset from bit 2 on are set.\<close>

theorem immediates_correct_witness:
  "bit (immJ 0xffdff0ef) 20 \<and> bit (immJ 0xffdff0ef) 11 \<and> bit (immJ 0xffdff0ef) 2 \<and> \<not> bit (immJ 0xffdff0ef) 1 \<and> \<not> bit (immJ 0xffdff0ef) 0"
  using immediates_correct [of 20 "0xffdff0ef"] immediates_correct [of 11 "0xffdff0ef"] immediates_correct [of 2 "0xffdff0ef"]
    immediates_correct [of 1 "0xffdff0ef"] immediates_correct [of 0 "0xffdff0ef"]
  by (simp add: bit_numeral_rec)

section \<open>Arithmetic\<close>

text \<open>
  The value the ISA prescribes, computed on the integers the operands stand for and reduced to 32
  bits only at the end.
\<close>

definition rv_alu :: "inst_name \<Rightarrow> u32 \<Rightarrow> u32 \<Rightarrow> u32 \<Rightarrow> u32 \<Rightarrow> int" where
  "rv_alu nm p a b imm =
    (let s = sint a; t = sint b; u = uint a; v = uint b in
     case nm of
       I_addi \<Rightarrow> s + sint imm
     | I_slti \<Rightarrow> of_bool (s < sint imm)
     | I_sltiu \<Rightarrow> of_bool (u < uint imm)
     | I_xori \<Rightarrow> s XOR sint imm
     | I_ori \<Rightarrow> s OR sint imm
     | I_andi \<Rightarrow> s AND sint imm
     | I_slli \<Rightarrow> u * 2 ^ nat (uint imm mod 32)
     | I_srli \<Rightarrow> u div 2 ^ nat (uint imm mod 32)
     | I_srai \<Rightarrow> s div 2 ^ nat (uint imm mod 32)
     | I_mul \<Rightarrow> s * t
     | I_mulh \<Rightarrow> s * t div 2 ^ 32
     | I_mulhu \<Rightarrow> u * v div 2 ^ 32
     | I_mulhsu \<Rightarrow> s * v div 2 ^ 32
     | I_div \<Rightarrow> (if t = 0 then - 1 else s sdiv t)
     | I_divu \<Rightarrow> (if v = 0 then - 1 else u div v)
     | I_rem \<Rightarrow> (if t = 0 then s else s smod t)
     | I_remu \<Rightarrow> (if v = 0 then u else u mod v)
     | I_add \<Rightarrow> s + t
     | I_sub \<Rightarrow> s - t
     | I_sll \<Rightarrow> u * 2 ^ nat (v mod 32)
     | I_slt \<Rightarrow> of_bool (s < t)
     | I_sltu \<Rightarrow> of_bool (u < v)
     | I_xor \<Rightarrow> s XOR t
     | I_srl \<Rightarrow> u div 2 ^ nat (v mod 32)
     | I_sra \<Rightarrow> s div 2 ^ nat (v mod 32)
     | I_or \<Rightarrow> s OR t
     | I_and \<Rightarrow> s AND t
     | I_lui \<Rightarrow> sint imm
     | I_auipc \<Rightarrow> uint p + sint imm
     | _ \<Rightarrow> 0)"

lemma ucast_drop_of_int:
  "ucast (drop_bit 32 (word_of_int P :: u64)) = (word_of_int (P div 2 ^ 32) :: u32)"
  unfolding drop_bit_eq_div [symmetric]
  by (rule bit_word_eqI) (simp add: bit_unsigned_iff bit_drop_bit_eq bit_word_of_int_iff)

lemma ucast_signed_drop: "ucast (signed_drop_bit 32 (w :: u64)) = (ucast (drop_bit 32 w) :: u32)"
  by (rule bit_word_eqI) (simp add: bit_unsigned_iff bit_signed_drop_bit_iff bit_drop_bit_eq)

lemma prod_of_int:
  "(scast a * scast b :: u64) = word_of_int (sint a * sint b)"
  "(ucast a * ucast b :: u64) = word_of_int (uint a * uint b)"
  "(scast a * ucast b :: u64) = word_of_int (sint a * uint b)" for a b :: u32
  by simp_all

lemma signed_drop_of_int: "signed_drop_bit k a = word_of_int (sint a div 2 ^ k)" for a :: u32
proof -
  have "sint (signed_drop_bit k a) = sint a div 2 ^ k"
    by (simp add: sint_signed_drop_bit_eq drop_bit_eq_div)
  then have "word_of_int (sint (signed_drop_bit k a)) = (word_of_int (sint a div 2 ^ k) :: u32)"
    by (simp only:)
  then show ?thesis by simp
qed

lemma shamt_eq: "shamt x = nat (uint x mod 32)"
proof -
  have "x AND 0x1f = take_bit 5 x" by (simp add: take_bit_eq_mask mask_eq_exp_minus_1)
  then have "shamt x = unat x mod 32"
    by (simp only: shamt_def unsigned_take_bit_eq take_bit_eq_mod) (simp add: unat_mod)
  then show ?thesis by (simp add: nat_mod_distrib)
qed

lemma shift_of_int:
  "push_bit k a = word_of_int (uint a * 2 ^ k)" "drop_bit k a = word_of_int (uint a div 2 ^ k)" for a :: u32
proof -
  show "push_bit k a = word_of_int (uint a * 2 ^ k)" by (simp add: push_bit_eq_mult)
  show "drop_bit k a = word_of_int (uint a div 2 ^ k)"
    unfolding drop_bit_eq_div [where ?'a = int, symmetric]
    by (rule bit_word_eqI) (auto simp: bit_drop_bit_eq bit_word_of_int_iff bit_uint_iff dest: bit_imp_le_length)
qed

lemma logic_of_int:
  "a XOR b = word_of_int (sint a XOR sint b)" "a OR b = word_of_int (sint a OR sint b)"
  "a AND b = word_of_int (sint a AND sint b)" for a b :: u32
  by (simp_all add: of_int_xor_eq of_int_or_eq of_int_and_eq)

lemma of_bool32_of_int: "of_bool32 b = word_of_int (of_bool b)"
  by (simp add: of_bool32_def)

lemma add_of_int:
  "a + b = word_of_int (sint a + sint b)" "a - b = word_of_int (sint a - sint b)"
  "a * b = word_of_int (sint a * sint b)" "a + b = word_of_int (uint a + sint b)" for a b :: u32
  by simp_all

lemma div_of_int:
  "a div b = word_of_int (uint a div uint b)" "a mod b = word_of_int (uint a mod uint b)" for a b :: u32
  by (simp_all add: word_div_def word_mod_def)

lemma sint_zero_iff: "sint b = 0 \<longleftrightarrow> b = 0" for b :: u32
  by (metis signed_0 signed_word_eqI)

text \<open>The operands for which the C expression of an instruction has no defined value.\<close>

definition c_undefined :: "inst_name \<Rightarrow> u32 \<Rightarrow> u32 \<Rightarrow> bool" where
  "c_undefined nm a b \<longleftrightarrow> (nm = I_div \<or> nm = I_rem) \<and> \<not> c_div_ok a b \<or>
     (nm = I_divu \<or> nm = I_remu) \<and> b = 0"

lemma mulh_of_int:
  "ucast (signed_drop_bit 32 (scast a * scast b :: u64)) = (word_of_int (sint a * sint b div 2 ^ 32) :: u32)"
  "ucast (drop_bit 32 (ucast a * ucast b :: u64)) = (word_of_int (uint a * uint b div 2 ^ 32) :: u32)"
  "ucast (drop_bit 32 (scast a * ucast b :: u64)) = (word_of_int (sint a * uint b div 2 ^ 32) :: u32)"
  for a b :: u32
  by (simp_all only: ucast_signed_drop prod_of_int ucast_drop_of_int)

lemmas alu_of_int = shamt_eq shift_of_int(2) signed_drop_of_int mulh_of_int logic_of_int
  div_of_int of_bool32_of_int c_slt_def word_less_def push_bit_eq_mult

lemma alu_value:
  assumes "alu nm p a b imm = Some (Inr v)"
  shows "v = word_of_int (rv_alu nm p a b imm)"
proof -
  have "Some (Inr v) = alu nm p a b imm" using assms by simp
  then show ?thesis
    by (cases nm) (simp_all add: alu_def rv_alu_def alu_of_int c_div_ok_def c_sdiv_def c_smod_def
        Let_def sint_zero_iff uint_0_iff split: if_splits)
qed

lemma alu_undefined:
  "(\<exists>e. alu nm p a b imm = Some (Inl e)) \<longleftrightarrow> c_undefined nm a b"
  by (cases nm) (simp_all add: alu_def c_undefined_def)

lemma alu_total: "alu nm p a b imm \<noteq> None \<Longrightarrow> \<not> c_undefined nm a b \<Longrightarrow> \<exists>v. alu nm p a b imm = Some (Inr v)"
  using alu_undefined [of nm p a b imm] by (cases "alu nm p a b imm"; cases "the (alu nm p a b imm)") auto

text \<open>
  C3: arithmetic is the arithmetic of the ISA. Every computing instruction of RV32IM (add, subtract,
  logic, shifts by the low five bits, comparisons, the four multiplications, division and
  remainder, lui and auipc) writes the result the ISA defines on the integers its operands stand
  for, reduced to 32 bits; the only operands it does not complete for are the ones where the C
  division is undefined.
\<close>

theorem alu_matches_isa:
  assumes "alu nm p a b imm \<noteq> None"
  shows "if c_undefined nm a b then (\<exists>e. alu nm p a b imm = Some (Inl e))
    else alu nm p a b imm = Some (Inr (word_of_int (rv_alu nm p a b imm)))"
  using alu_undefined [of nm p a b imm] alu_total [OF assms] alu_value [of nm p a b imm] by auto

theorem alu_matches_isa_witness:
  "alu I_mulhsu 0 (- 1) 2 0 = Some (Inr (word_of_int (rv_alu I_mulhsu 0 (- 1) 2 0)))"
  using alu_matches_isa [of I_mulhsu 0 "- 1" 2 0] by (simp add: alu_def c_undefined_def)

text \<open>
  a division by zero, and the overflowing signed division, do not produce the values the ISA
  defines for them: the C expression is undefined (a trap on common hosts), for \<^verbatim>\<open>div\<close>, \<^verbatim>\<open>divu\<close>,
  \<^verbatim>\<open>rem\<close> and \<^verbatim>\<open>remu\<close> alike, while the ISA prescribes all ones, the dividend, and for the overflow the
  dividend and zero.
\<close>

lemma division_by_zero_undefined:
  "alu I_divu p a 0 imm = Some (Inl (Undef ''division by zero'')) \<and>
   alu I_remu p a 0 imm = Some (Inl (Undef ''division by zero'')) \<and>
   alu I_div p a 0 imm = Some (Inl (Undef ''signed division'')) \<and>
   alu I_rem p a 0 imm = Some (Inl (Undef ''signed division'')) \<and>
   alu I_div p INT_MIN (- 1) imm = Some (Inl (Undef ''signed division'')) \<and>
   rv_alu I_divu p a 0 imm = - 1 \<and> rv_alu I_div p a 0 imm = - 1 \<and>
   rv_alu I_remu p a 0 imm = uint a \<and> rv_alu I_rem p a 0 imm = sint a"
  by (simp add: alu_def c_div_ok_def rv_alu_def Let_def)

section \<open>What a step keeps\<close>

text \<open>Instructions that may set the next program counter.\<close>

definition is_control :: "inst_name \<Rightarrow> bool" where
  "is_control nm \<longleftrightarrow> nm \<in> {I_jal, I_jalr, I_ecall, I_mret, I_beq, I_bne, I_blt, I_bge, I_bltu, I_bgeu}"

lemma csr_switch_frame:
  "csr_switch f k m = Inr (t, m') \<Longrightarrow> gpr (cpu m') = gpr (cpu m) \<and> mem m' = mem m \<and> nemu_state m' = nemu_state m"
  by (auto simp: csr_switch_def Let_def split: if_splits)

lemma check_ftrace_frame [simp]:
  "cpu (check_ftrace c p dn rd rs1 j m) = cpu m" "mem (check_ftrace c p dn rd rs1 j m) = mem m"
  by (simp_all add: check_ftrace_def)

text \<open>The part of the state a step is allowed to change.\<close>

definition step_frame :: "inst_name \<Rightarrow> nat \<Rightarrow> exec_state \<Rightarrow> exec_state \<Rightarrow> bool" where
  "step_frame nm rd s s' \<longleftrightarrow>
     length (gpr (cpu (snd s'))) = length (gpr (cpu (snd s))) \<and>
     (\<forall>r. r \<noteq> rd \<longrightarrow> gpr (cpu (snd s')) ! r = gpr (cpu (snd s)) ! r) \<and>
     (store_len nm = None \<longrightarrow> mem (snd s') = mem (snd s)) \<and>
     (\<not> is_control nm \<longrightarrow> dnpc (fst s') = dnpc (fst s)) \<and>
     pc (fst s') = pc (fst s) \<and> snpc (fst s') = snpc (fst s) \<and> inst (fst s') = inst (fst s)"

lemma paddr_read_same: "paddr_read c maps a n m = Inr (v, m') \<Longrightarrow> cpu m' = cpu m \<and> mem m' = mem m"
  by (auto simp: paddr_read_def split: if_splits)

lemma paddr_write_same: "paddr_write c maps a n d m = Inr m' \<Longrightarrow> cpu m' = cpu m"
  by (auto simp: paddr_write_def split: if_splits)

lemma exec_system_frame:
  assumes "exec_system c maps nm (rd, src1, src2, imm) (de, m) = Inr s'"
  shows "step_frame nm rd (de, m) s'"
  using assms
  by (cases nm)
    (auto simp: exec_system_def step_frame_def is_control_def get_gpr_eq set_gpr_eq set_nemu_state_def
      isa_raise_intr_def Let_def store_len_def dest: csr_switch_frame invalid_inst_frame)

lemma exec_inst_frame:
  assumes "exec_inst c maps nm (rd, src1, src2, imm) (de, m) = Inr s'"
  shows "step_frame nm rd (de, m) s'"
proof (cases "alu nm (pc de) src1 src2 imm")
  case (Some r)
  then show ?thesis using assms
    by (auto simp: exec_inst_def step_frame_def set_gpr_eq)
next
  case None
  note no_alu = None
  show ?thesis
  proof (cases "branch nm src1 src2")
    case (Some taken)
    then have "is_control nm" by (cases nm) (simp_all add: branch_def is_control_def)
    then show ?thesis using assms no_alu Some
      by (auto simp: exec_inst_def step_frame_def)
  next
    case None
    note no_branch = None
    show ?thesis
    proof (cases "load_conv nm")
      case (Some lc)
      then show ?thesis using assms no_alu no_branch
        by (cases lc) (auto simp: exec_inst_def step_frame_def set_gpr_eq vaddr_read_def
            dest!: paddr_read_same)
    next
      case None
      then show ?thesis
        using assms no_alu no_branch exec_system_frame [of c maps nm rd src1 src2 imm de m]
        by (cases "store_len nm")
          (auto simp: exec_inst_def step_frame_def vaddr_write_def dest!: paddr_write_same)
    qed
  qed
qed

definition inst_rd :: "u32 \<Rightarrow> nat" where
  "inst_rd i = unat (BITS (ucast i) 11 7)"

lemma decode_operand_rd:
  "decode_operand c i ty m = Inr (rd, src1, src2, imm) \<Longrightarrow> rd = inst_rd i"
  by (cases ty) (auto simp: decode_operand_def Let_def inst_rd_def)

lemma decode_exec_eq:
  assumes "decode_exec c maps (de, m) = Inr (de', m')"
  obtains ops m1 where
    "decode_operand c (inst de) (snd (rv32_decode (inst de))) m = Inr ops"
    "exec_inst c maps (fst (rv32_decode (inst de))) ops (de\<lparr>dnpc := snpc de\<rparr>, m) = Inr (de', m1)"
    "m' = m1\<lparr>cpu := (cpu m1)\<lparr>gpr := (gpr (cpu m1))[0 := 0]\<rparr>\<rparr>"
  using assms comp_find_decode [of "inst de"]
  by (auto simp: decode_exec_def Let_def table_match set_gpr_eq case_prod_beta
      simp del: comp_find.simps)

text \<open>
  C4: a step keeps the machine well-formed and touches only what the instruction names. Whatever
  the instruction word, a step that completes leaves register 0 zero and the register file at its
  size, changes no register but the destination, changes memory only for the store instructions,
  and continues at the next word unless the instruction is a branch, a jump, a trap or a return.
\<close>

theorem isa_exec_once_frame:
  assumes "isa_exec_once c maps (de, m) = Inr (de', m')" "length (gpr (cpu m)) = nr_gpr c"
  shows "length (gpr (cpu m')) = nr_gpr c \<and> gpr (cpu m') ! 0 = 0 \<and>
    (\<forall>r. r \<noteq> 0 \<and> r \<noteq> inst_rd (inst de') \<longrightarrow> gpr (cpu m') ! r = gpr (cpu m) ! r) \<and>
    (store_len (fst (rv32_decode (inst de'))) = None \<longrightarrow> mem m' = mem m) \<and>
    (\<not> is_control (fst (rv32_decode (inst de'))) \<longrightarrow> dnpc de' = snpc de + 4) \<and>
    snpc de' = snpc de + 4 \<and> pc de' = pc de"
proof -
  obtain i p' m0 where f: "inst_fetch c maps (snpc de) 4 m = Inr (i, p', m0)"
    and d: "decode_exec c maps (de\<lparr>inst := i, snpc := p'\<rparr>, m0) = Inr (de', m')"
    using assms(1) by (auto simp: isa_exec_once_def)
  have p': "p' = snpc de + 4" using inst_fetch_frame [OF f] by simp
  have m0: "cpu m0 = cpu m" "mem m0 = mem m"
    using f by (auto simp: inst_fetch_def vaddr_ifetch_def dest: paddr_read_same)
  obtain ops m1 where ops: "decode_operand c i (snd (rv32_decode i)) m0 = Inr ops"
    and ex: "exec_inst c maps (fst (rv32_decode i)) ops (de\<lparr>inst := i, snpc := p', dnpc := p'\<rparr>, m0) = Inr (de', m1)"
    and m': "m' = m1\<lparr>cpu := (cpu m1)\<lparr>gpr := (gpr (cpu m1))[0 := 0]\<rparr>\<rparr>"
    by (rule decode_exec_eq [OF d]) (use that in simp)
  obtain rd src1 src2 imm where o: "ops = (rd, src1, src2, imm)" by (cases ops) auto
  have rd: "rd = inst_rd i" using decode_operand_rd ops o by simp
  have fr: "step_frame (fst (rv32_decode i)) rd (de\<lparr>inst := i, snpc := p', dnpc := p'\<rparr>, m0) (de', m1)"
    using exec_inst_frame ex o by simp
  have i: "inst de' = i" using fr by (simp add: step_frame_def)
  have pos: "0 < nr_gpr c" by (simp add: nr_gpr_def)
  show ?thesis
    using fr pos m0 assms(2) by (auto simp: step_frame_def m' i rd p')
qed

section \<open>Loads and stores\<close>

definition ram_acc :: "nemu_config \<Rightarrow> paddr_t \<Rightarrow> nat \<Rightarrow> bool" where
  "ram_acc c a n \<longleftrightarrow> mem_acc c a n \<and> (in_pmem c a \<or> in_sram a)"

lemma ram_paddr_write:
  assumes "ram_acc c a n"
  shows "\<exists>mm. pmem_write c a n d (mem m) = Inr mm \<and> paddr_write c maps a n d m = Inr (m\<lparr>mem := mm\<rparr>)"
  using assms pm.wr_ok [of c a n d "mem m"] by (auto simp: ram_acc_def paddr_write_def)

lemma ram_paddr_read:
  "ram_acc c a n \<Longrightarrow> paddr_read c maps a n m = ebind (pmem_read c a n (mem m)) (\<lambda>v. Inr (v, m))"
  by (auto simp: ram_acc_def paddr_read_def)

text \<open>
  a load after a store of the same width at the same address returns the stored value. For an
  address range in memory, the store instruction completes, and executing a load of the same width
  from the same effective address next puts the low bytes of the stored register, sign- or
  zero-extended as the load says, into its destination.
\<close>

lemma store_then_load:
  assumes "store_len st = Some len" "load_conv ld = Some (len, conv)"
    and "ram_acc c (a + imm) len" "a' + imm' = a + imm" "rd < nr_gpr c"
  shows "\<exists>m1 m2. exec_inst c maps st (rd0, a, v, imm) (de, m) = Inr (de, m1) \<and>
    exec_inst c maps ld (rd, a', b', imm') (de', m1) = Inr (de', m2) \<and>
    gpr (cpu m2) = (gpr (cpu m))[rd := conv (take_bit (8 * len) v)]"
proof -
  obtain mm where w: "pmem_write c (a + imm) len v (mem m) = Inr mm"
    "paddr_write c maps (a + imm) len v m = Inr (m\<lparr>mem := mm\<rparr>)"
    using ram_paddr_write [OF assms(3)] by blast
  have r: "pmem_read c (a + imm) len mm = Inr (take_bit (8 * len) v)"
    using pm.rd_wr_same [of c "a + imm" len v "mem m" mm] assms(3) w by (simp add: ram_acc_def)
  have st: "exec_inst c maps st (rd0, a, v, imm) (de, m) = Inr (de, m\<lparr>mem := mm\<rparr>)"
    using assms(1) w(2)
    by (cases st) (simp_all add: store_len_def exec_inst_def alu_def branch_def load_conv_def vaddr_write_def)
  let ?m2 = "m\<lparr>mem := mm, cpu := (cpu m)\<lparr>gpr := (gpr (cpu m))[rd := conv (take_bit (8 * len) v)]\<rparr>\<rparr>"
  have rd: "paddr_read c maps (a' + imm') len (m\<lparr>mem := mm\<rparr>) = Inr (take_bit (8 * len) v, m\<lparr>mem := mm\<rparr>)"
    using ram_paddr_read [OF assms(3), of maps "m\<lparr>mem := mm\<rparr>"] r assms(4) by simp
  have set: "set_gpr c rd x (m\<lparr>mem := mm\<rparr>) = Inr (m\<lparr>mem := mm, cpu := (cpu m)\<lparr>gpr := (gpr (cpu m))[rd := x]\<rparr>\<rparr>)" for x
    using assms(5) by (simp add: set_gpr_eq)
  have ld: "exec_inst c maps ld (rd, a', b', imm') (de', m\<lparr>mem := mm\<rparr>) = Inr (de', ?m2)"
    using assms(2) rd set [of "conv (take_bit (8 * len) v)"]
    by (cases ld) (simp_all add: load_conv_def exec_inst_def alu_def branch_def vaddr_read_def)
  show ?thesis using st ld by force
qed

lemma ram_acc_default: "ram_acc quiet_config 0x80000010 4"
  by (simp add: ram_acc_def mem_acc_def area_of_def in_pmem_def quiet_config_def)

end
