(* ===== verification/Sdb_Expr.thy ===== *)
theory Sdb_Expr
  imports Riscv_Machine
begin

text \<open>
  The expression evaluator of the debugger, \<^verbatim>\<open>nemu/src/monitor/sdb/expr.c\<close>: the tokenizer with its
  rules in order, the parenthesis check, the choice of the main operator, the recursive evaluation
  and the marking of unary operators. The segment \<^verbatim>\<open>tokens[p..q]\<close> an evaluation works on is a list
  (empty for \<^verbatim>\<open>p > q\<close>) and an operator index is relative to it. The C \<^verbatim>\<open>int\<close> values are 32-bit words
  read as signed numbers; an operator whose result is not an \<^verbatim>\<open>int\<close> is an error value, as a failed \<^verbatim>\<open>assert(0)\<close> is.
\<close>

section \<open>Tokens\<close>

datatype token_type =
    T_plus | T_minus | T_mul | T_div | T_lpar | T_rpar
  | TK_EQ | TK_NUM | TK_HEX | TK_REG | TK_NEQ | TK_AND | TK_OR
  | TK_DEREF | TK_NEG | TK_LE | TK_GE | TK_LT | TK_GT

datatype token = Token (tk: token_type) (tstr: string)

definition is_digit :: "char \<Rightarrow> bool" where
  "is_digit ch \<longleftrightarrow> of_char ch \<in> {48 .. (57 :: nat)}"

definition is_hex :: "char \<Rightarrow> bool" where
  "is_hex ch \<longleftrightarrow> is_digit ch \<or> of_char ch \<in> {97 .. (102 :: nat)} \<or> of_char ch \<in> {65 .. (70 :: nat)}"

definition is_alnum :: "char \<Rightarrow> bool" where
  "is_alnum ch \<longleftrightarrow> is_digit ch \<or> of_char ch \<in> {97 .. (122 :: nat)} \<or> of_char ch \<in> {65 .. (90 :: nat)}"

text \<open>
  The regular expressions: a literal prefix, then one or more characters of a class. Each gives the
  length of its (longest) match at the start of the string.
\<close>

datatype regex =
    Lit string
  | Plus "char \<Rightarrow> bool"
  | Prefixed "(char \<Rightarrow> bool) list" "char \<Rightarrow> bool"

definition class_len :: "(char \<Rightarrow> bool) \<Rightarrow> string \<Rightarrow> nat" where
  "class_len P s = length (takeWhile P s)"

primrec regexec :: "regex \<Rightarrow> string \<Rightarrow> nat option" where
  "regexec (Lit l) s = (if take (length l) s = l then Some (length l) else None)"
| "regexec (Plus P) s = (if class_len P s > 0 then Some (class_len P s) else None)"
| "regexec (Prefixed ps P) s =
    (if length ps \<le> length s \<and> list_all2 (\<lambda>p ch. p ch) ps (take (length ps) s) \<and>
        class_len P (drop (length ps) s) > 0
     then Some (length ps + class_len P (drop (length ps) s)) else None)"

text \<open>The rules in source order; no token type stands for \<^verbatim>\<open>TK_NOTYPE\<close>.\<close>

definition rules :: "(regex \<times> token_type option) list" where
  "rules =
    [(Plus (\<lambda>ch. ch = CHR '' ''), None),
     (Lit ''+'', Some T_plus),
     (Lit ''-'', Some T_minus),
     (Lit ''*'', Some T_mul),
     (Lit ''/'', Some T_div),
     (Lit ''('', Some T_lpar),
     (Lit '')'', Some T_rpar),
     (Prefixed [\<lambda>ch. ch = CHR ''0'', \<lambda>ch. ch = CHR ''x'' \<or> ch = CHR ''X''] is_hex, Some TK_HEX),
     (Plus is_digit, Some TK_NUM),
     (Prefixed [\<lambda>ch. ch = CHR ''$''] is_alnum, Some TK_REG),
     (Lit ''!='', Some TK_NEQ),
     (Lit ''&&'', Some TK_AND),
     (Lit ''||'', Some TK_OR),
     (Lit ''=='', Some TK_EQ),
     (Lit ''<='', Some TK_LE),
     (Lit ''>='', Some TK_GE),
     (Lit ''<'', Some TK_LT),
     (Lit ''>'', Some TK_GT)]"

fun first_rule :: "(regex \<times> token_type option) list \<Rightarrow> string \<Rightarrow> (nat \<times> token_type option) option" where
  "first_rule [] s = None"
| "first_rule ((r, t) # rs) s =
    (case regexec r s of Some n \<Rightarrow> Some (n, t) | None \<Rightarrow> first_rule rs s)"

definition MAX_TOKENS :: nat where "MAX_TOKENS = 65536"

definition keeps_str :: "token_type \<Rightarrow> bool" where
  "keeps_str t \<longleftrightarrow> t = TK_NUM \<or> t = TK_HEX \<or> t = TK_REG"

lemma regexec_pos: "regexec r s = Some n \<Longrightarrow> r \<noteq> Lit [] \<Longrightarrow> 0 < n \<and> n \<le> length s"
proof (induction r)
  case (Lit l)
  have "take (length l) s = l" "n = length l" using Lit.prems(1) by (auto split: if_splits)
  then show ?case using Lit.prems(2) by (metis length_take length_greater_0_conv min.cobounded1 min.absorb_iff2 nat_le_linear regex.inject(1))
next
  case (Plus P)
  then show ?case by (auto simp: class_len_def length_takeWhile_le split: if_splits)
next
  case (Prefixed ps P)
  then show ?case
    using length_takeWhile_le [of P "drop (length ps) s"]
    by (auto simp: class_len_def split: if_splits)
qed

lemma first_rule_pos:
  "first_rule rs s = Some (n, t) \<Longrightarrow> (\<And>t. (Lit [], t) \<notin> set rs) \<Longrightarrow> 0 < n \<and> n \<le> length s"
proof (induction rs s rule: first_rule.induct)
  case (2 r t' rs s)
  show ?case
  proof (cases "regexec r s")
    case None
    then show ?thesis using 2 by auto
  next
    case (Some k)
    then show ?thesis using 2(2) 2(3) [of t'] regexec_pos [of r s k] by auto
  qed
qed simp

lemma rules_pos: "first_rule rules s = Some (n, t) \<Longrightarrow> 0 < n \<and> n \<le> length s"
  by (erule first_rule_pos) (simp add: rules_def)

function make_token_from :: "nat \<Rightarrow> string \<Rightarrow> token list res" where
  "make_token_from nr e =
    (if e = [] then Inr []
     else case first_rule rules e of
       None \<Rightarrow> Inl Assert_fail
     | Some (n, None) \<Rightarrow> make_token_from nr (drop n e)
     | Some (n, Some t) \<Rightarrow>
         ebind (echeck (nr < MAX_TOKENS) Assert_fail) (\<lambda>_.
         ebind (echeck (keeps_str t \<longrightarrow> n < 32) Assert_fail) (\<lambda>_.
         ebind (make_token_from (Suc nr) (drop n e)) (\<lambda>ts.
           Inr (Token t (if keeps_str t then take n e else []) # ts)))))"
  by pat_completeness auto

termination
  by (relation "measure (length \<circ> snd)") (auto dest: rules_pos)

text \<open>\<^verbatim>\<open>make_token\<close> either fills \<^verbatim>\<open>tokens\<close> or asserts; it never returns false.\<close>

definition make_token :: "string \<Rightarrow> token list res" where
  "make_token e = make_token_from 0 e"

section \<open>Structure\<close>

fun paren_scan :: "token list \<Rightarrow> nat \<Rightarrow> nat option" where
  "paren_scan [] count = Some count"
| "paren_scan (t # ts) count =
    (if tk t = T_lpar then paren_scan ts (Suc count)
     else if tk t = T_rpar then (if count = 0 then None else paren_scan ts (count - 1))
     else paren_scan ts count)"

definition check_parentheses :: "token list \<Rightarrow> bool" where
  "check_parentheses ts \<longleftrightarrow> tk (hd ts) = T_lpar \<and> tk (last ts) = T_rpar \<and>
     paren_scan (butlast (tl ts)) 0 = Some 0"

definition precedence :: "token_type \<Rightarrow> nat" where
  "precedence t =
    (if t = TK_OR then 1 else if t = TK_AND then 2
     else if t = TK_EQ \<or> t = TK_NEQ then 3
     else if t = TK_LE \<or> t = TK_GE \<or> t = TK_LT \<or> t = TK_GT then 4
     else if t = T_plus \<or> t = T_minus then 5
     else if t = T_mul \<or> t = T_div then 6
     else if t = TK_DEREF \<or> t = TK_NEG then 7 else 100)"

text \<open>The loop state: index, main operator so far (-1 is \<open>None\<close>), its precedence and the open parentheses.\<close>

fun main_op_loop :: "token list \<Rightarrow> nat \<Rightarrow> nat option \<Rightarrow> nat \<Rightarrow> int \<Rightarrow> nat option" where
  "main_op_loop [] i main_op min_precedence count = main_op"
| "main_op_loop (t # ts) i main_op min_precedence count =
    (if tk t = T_lpar then main_op_loop ts (Suc i) main_op min_precedence (count + 1)
     else if tk t = T_rpar then main_op_loop ts (Suc i) main_op min_precedence (count - 1)
     else if count = 0 \<and>
             (precedence (tk t) < min_precedence \<or>
              precedence (tk t) = min_precedence \<and> precedence (tk t) \<noteq> 6)
     then main_op_loop ts (Suc i) (Some i) (precedence (tk t)) count
     else main_op_loop ts (Suc i) main_op min_precedence count)"

definition find_main_operator :: "token list \<Rightarrow> nat option" where
  "find_main_operator ts = main_op_loop ts 0 None 100 0"

lemma main_op_loop_bound:
  "main_op_loop ts i mo mp n = Some k \<Longrightarrow> (\<And>j. mo = Some j \<Longrightarrow> j < i) \<Longrightarrow> k < i + length ts"
proof (induction ts i mo mp n rule: main_op_loop.induct)
  case (2 t ts i mo mp n)
  show ?case
    using 2 less_SucI by (simp split: if_splits)
qed auto

lemma find_main_operator_bound: "find_main_operator ts = Some k \<Longrightarrow> k < length ts"
  using main_op_loop_bound [of ts 0 None 100 0 k] by (simp add: find_main_operator_def)

section \<open>Values\<close>

text \<open>
  \<^verbatim>\<open>atoi\<close> and \<^verbatim>\<open>strtoul\<close> of the C library on a digit string: the value saturates at the 64-bit limit of
  \<^verbatim>\<open>strtol\<close> or \<^verbatim>\<open>strtoul\<close> and is then truncated.
\<close>

definition digit_val :: "char \<Rightarrow> nat" where
  "digit_val ch = (let v = (of_char ch :: nat) in if v \<le> 57 then v - 48 else if v \<le> 70 then v - 55 else v - 87)"

fun digits_val :: "nat \<Rightarrow> nat \<Rightarrow> string \<Rightarrow> nat" where
  "digits_val b acc [] = acc"
| "digits_val b acc (ch # cs) = digits_val b (acc * b + digit_val ch) cs"

definition c_atoi :: "string \<Rightarrow> u32" where
  "c_atoi s = of_nat (min (digits_val 10 0 s) (2 ^ 63 - 1))"

definition c_strtoul16 :: "string \<Rightarrow> u32" where
  "c_strtoul16 s = of_nat (min (digits_val 16 0 (drop 2 s)) (2 ^ 64 - 1))"

text \<open>The binary operators on the \<^verbatim>\<open>int\<close> values of the operands.\<close>

definition binop :: "token_type \<Rightarrow> u32 \<Rightarrow> u32 \<Rightarrow> u32 res" where
  "binop t val1 val2 =
    (case t of
       TK_OR \<Rightarrow> Inr (of_bool32 (val1 \<noteq> 0 \<or> val2 \<noteq> 0))
     | TK_AND \<Rightarrow> Inr (of_bool32 (val1 \<noteq> 0 \<and> val2 \<noteq> 0))
     | TK_EQ \<Rightarrow> Inr (of_bool32 (val1 = val2))
     | TK_NEQ \<Rightarrow> Inr (of_bool32 (val1 \<noteq> val2))
     | TK_LE \<Rightarrow> Inr (of_bool32 (\<not> c_slt val2 val1))
     | TK_GE \<Rightarrow> Inr (of_bool32 (\<not> c_slt val1 val2))
     | TK_LT \<Rightarrow> Inr (of_bool32 (c_slt val1 val2))
     | TK_GT \<Rightarrow> Inr (of_bool32 (c_slt val2 val1))
     | T_plus \<Rightarrow> c_int (sint val1 + sint val2)
     | T_minus \<Rightarrow> c_int (sint val1 - sint val2)
     | T_mul \<Rightarrow> c_int (sint val1 * sint val2)
     | T_div \<Rightarrow> if val2 = 0 then Inl Assert_fail
                else if c_div_ok val1 val2 then Inr (c_sdiv val1 val2)
                else Inl (Undef ''signed overflow'')
     | _ \<Rightarrow> Inl Assert_fail)"

section \<open>Evaluation\<close>

type_synonym eval_res = "(u32 \<times> bool \<times> machine) res"

definition eval_atom :: "token \<Rightarrow> machine \<Rightarrow> eval_res" where
  "eval_atom t m =
    (case tk t of
       TK_NUM \<Rightarrow> Inr (c_atoi (tstr t), True, m)
     | TK_HEX \<Rightarrow> Inr (c_strtoul16 (tstr t), True, m)
     | TK_REG \<Rightarrow> (case isa_reg_str2val (tl (tstr t)) (cpu m) of
                     Some v \<Rightarrow> Inr (v, True, m) | None \<Rightarrow> Inr (0, False, m))
     | _ \<Rightarrow> Inl Assert_fail)"

definition is_unary :: "token_type \<Rightarrow> bool" where
  "is_unary t \<longleftrightarrow> t = TK_NEG \<or> t = TK_DEREF"

definition apply_op :: "nemu_config \<Rightarrow> IOMap list \<Rightarrow> token_type \<Rightarrow> u32 \<Rightarrow> u32 \<Rightarrow> bool \<Rightarrow> machine \<Rightarrow> eval_res" where
  "apply_op c maps t val1 val2 success m =
    (if t = TK_NEG then ebind (c_int (- sint val2)) (\<lambda>v. Inr (v, success, m))
     else if t = TK_DEREF then ebind (vaddr_read c maps val2 4 m) (\<lambda>(v, m'). Inr (v, success, m'))
     else ebind (binop t val1 val2) (\<lambda>v. Inr (v, success, m)))"

function eval :: "nemu_config \<Rightarrow> IOMap list \<Rightarrow> token list \<Rightarrow> bool \<Rightarrow> machine \<Rightarrow> eval_res" where
  "eval c maps ts success m =
    (if \<not> success then Inr (0, False, m)
     else if ts = [] then Inl Assert_fail
     else if length ts = 1 then eval_atom (hd ts) m
     else if check_parentheses ts then eval c maps (butlast (tl ts)) success m
     else case find_main_operator ts of
       None \<Rightarrow> Inl Assert_fail
     | Some op \<Rightarrow>
         let t = tk (ts ! op) in
         ebind (if is_unary t then Inr (0, success, m) else eval c maps (take op ts) success m) (\<lambda>(val1, ok1, m1).
         ebind (eval c maps (drop (Suc op) ts) ok1 m1) (\<lambda>(val2, ok2, m2).
           apply_op c maps t val1 val2 ok2 m2)))"
  by pat_completeness auto

termination
  by (relation "measure (\<lambda>(c, maps, ts, s, m). length ts)")
    (auto dest: find_main_operator_bound simp: Let_def)

text \<open>Marking: a \<^verbatim>\<open>*\<close> or \<^verbatim>\<open>-\<close> is unary at the start and after anything but an operand or \<^verbatim>\<open>)\<close>.\<close>

definition ends_operand :: "token_type \<Rightarrow> bool" where
  "ends_operand t \<longleftrightarrow> t = TK_NUM \<or> t = TK_HEX \<or> t = TK_REG \<or> t = T_rpar"

fun mark_unary :: "token_type option \<Rightarrow> token list \<Rightarrow> token list" where
  "mark_unary prev [] = []"
| "mark_unary prev (t # ts) =
    (let unary = (case prev of None \<Rightarrow> True | Some p \<Rightarrow> \<not> ends_operand p);
         t' = (if tk t = T_mul \<and> unary then Token TK_DEREF (tstr t)
               else if tk t = T_minus \<and> unary then Token TK_NEG (tstr t) else t) in
     t' # mark_unary (Some (tk t')) ts)"

definition expr :: "nemu_config \<Rightarrow> IOMap list \<Rightarrow> string \<Rightarrow> machine \<Rightarrow> eval_res" where
  "expr c maps e m =
    ebind (make_token e) (\<lambda>ts.
      if ts = [] then Inr (0, False, m) else eval c maps (mark_unary None ts) True m)"

section \<open>Parenthesised expressions\<close>

text \<open>
  The abstract syntax of expressions, and the order of evaluation: operands left to right, then the operator.
\<close>

datatype sx = SAtom token | SUn token_type sx | SBin token_type sx sx

definition is_binary :: "token_type \<Rightarrow> bool" where
  "is_binary t \<longleftrightarrow> t \<in> {TK_OR, TK_AND, TK_EQ, TK_NEQ, TK_LE, TK_GE, TK_LT, TK_GT, T_plus, T_minus, T_mul, T_div}"

primrec sem :: "nemu_config \<Rightarrow> IOMap list \<Rightarrow> sx \<Rightarrow> bool \<Rightarrow> machine \<Rightarrow> eval_res" where
  "sem c maps (SAtom t) ok m = (if ok then eval_atom t m else Inr (0, False, m))"
| "sem c maps (SUn t a) ok m =
    (if ok then ebind (sem c maps a ok m) (\<lambda>(v, ok1, m1). apply_op c maps t 0 v ok1 m1)
     else Inr (0, False, m))"
| "sem c maps (SBin t a b) ok m =
    (if ok then ebind (sem c maps a ok m) (\<lambda>(v1, ok1, m1).
       ebind (sem c maps b ok1 m1) (\<lambda>(v2, ok2, m2). apply_op c maps t v1 v2 ok2 m2))
     else Inr (0, False, m))"

primrec wf_sx :: "sx \<Rightarrow> bool" where
  "wf_sx (SAtom t) \<longleftrightarrow> keeps_str (tk t)"
| "wf_sx (SUn t a) \<longleftrightarrow> is_unary t \<and> wf_sx a"
| "wf_sx (SBin t a b) \<longleftrightarrow> is_binary t \<and> wf_sx a \<and> wf_sx b"

abbreviation LP :: token where "LP \<equiv> Token T_lpar []"
abbreviation RP :: token where "RP \<equiv> Token T_rpar []"

text \<open>The marked tokens of a fully parenthesised expression.\<close>

primrec toks :: "sx \<Rightarrow> token list" where
  "toks (SAtom t) = [t]"
| "toks (SUn t a) = LP # Token t [] # toks a @ [RP]"
| "toks (SBin t a b) = LP # toks a @ Token t [] # toks b @ [RP]"

lemma op_not_paren:
  "is_binary t \<Longrightarrow> t \<noteq> T_lpar \<and> t \<noteq> T_rpar \<and> precedence t < 100 \<and> \<not> is_unary t"
  "is_unary t \<Longrightarrow> t \<noteq> T_lpar \<and> t \<noteq> T_rpar \<and> precedence t < 100"
  by (auto simp: is_binary_def is_unary_def precedence_def)

lemma atom_not_paren: "keeps_str t \<Longrightarrow> t \<noteq> T_lpar \<and> t \<noteq> T_rpar \<and> precedence t = 100"
  by (auto simp: keeps_str_def precedence_def)

lemma toks_nonempty [simp]: "toks x \<noteq> []" "length (toks x) > 0"
  by (cases x; simp)+

lemma toks_scan: "wf_sx x \<Longrightarrow> paren_scan (toks x @ ts) n = paren_scan ts n"
proof (induction x arbitrary: ts n)
  case (SUn t a)
  then show ?case using op_not_paren(2) [of t] by simp
next
  case (SBin t a b)
  then show ?case using op_not_paren(1) [of t] by simp
qed (simp add: atom_not_paren)

text \<open>Inside a parenthesis the loop for the main operator passes over a balanced expression.\<close>

lemma toks_skip:
  "wf_sx x \<Longrightarrow> 0 < k \<Longrightarrow> main_op_loop (toks x @ ts) i mo mp k = main_op_loop ts (i + length (toks x)) mo mp k"
proof (induction x arbitrary: ts i k)
  case (SUn t a)
  then show ?case using op_not_paren(2) [of t] by simp
next
  case (SBin t a b)
  then show ?case using op_not_paren(1) [of t] by (simp add: add.assoc)
qed (simp add: atom_not_paren)

text \<open>At the top level it leaves at most a provisional choice of precedence 100.\<close>

lemma toks_top:
  assumes "wf_sx x" "mp \<le> 100"
  shows "\<exists>mo'. main_op_loop (toks x @ ts) i mo mp 0 = main_op_loop ts (i + length (toks x)) mo' mp 0 \<and>
    (mp < 100 \<longrightarrow> mo' = mo)"
proof (cases x)
  case (SAtom t)
  then show ?thesis using assms by (auto simp: atom_not_paren)
next
  case (SUn t a)
  then show ?thesis using assms op_not_paren(2) [of t] toks_skip [of a 1] by auto
next
  case (SBin t a b)
  then show ?thesis using assms op_not_paren(1) [of t] toks_skip [of a 1] toks_skip [of b 1]
    by (auto simp: add.assoc)
qed

lemma main_op_bin:
  assumes "wf_sx a" "wf_sx b" "is_binary t"
  shows "find_main_operator (toks a @ Token t [] # toks b) = Some (length (toks a))"
proof -
  obtain mo where 1: "main_op_loop (toks a @ Token t [] # toks b) 0 None 100 0
      = main_op_loop (Token t [] # toks b) (length (toks a)) mo 100 0"
    using toks_top [OF assms(1), of 100 "Token t [] # toks b" 0 None] by auto
  have 2: "main_op_loop (Token t [] # toks b) (length (toks a)) mo 100 0
      = main_op_loop (toks b @ []) (Suc (length (toks a))) (Some (length (toks a))) (precedence t) 0"
    using op_not_paren(1) [OF assms(3)] by simp
  show ?thesis
    using toks_top [OF assms(2), of "precedence t" "[]" "Suc (length (toks a))" "Some (length (toks a))"]
      op_not_paren(1) [OF assms(3)]
    by (auto simp: find_main_operator_def 1 2)
qed

lemma main_op_un:
  assumes "wf_sx a" "is_unary t"
  shows "find_main_operator (Token t [] # toks a) = Some 0"
  using toks_top [OF assms(1), of "precedence t" "[]" 1 "Some 0"] op_not_paren(2) [OF assms(2)]
  by (auto simp: find_main_operator_def)

lemma check_parens_whole:
  "paren_scan mid 0 = Some 0 \<Longrightarrow> check_parentheses (LP # mid @ [RP])"
  by (simp add: check_parentheses_def butlast_append)

lemma check_parens_bin:
  assumes "wf_sx a" "is_binary t"
  shows "\<not> check_parentheses (toks a @ Token t [] # toks b)"
proof (cases a)
  case (SAtom tok)
  then show ?thesis using assms by (simp add: check_parentheses_def atom_not_paren)
next
  case (SUn t' a')
  have "paren_scan (Token t' [] # toks a' @ RP # Token t [] # butlast (toks b)) 0 = None"
    using assms SUn op_not_paren(2) [of t'] toks_scan [of a'] by simp
  then show ?thesis by (auto simp: check_parentheses_def SUn butlast_append)
next
  case (SBin t' a1 a2)
  have "paren_scan (toks a1 @ Token t' [] # toks a2 @ RP # Token t [] # butlast (toks b)) 0 = None"
    using assms SBin op_not_paren(1) [of t'] toks_scan [of a1] toks_scan [of a2] by simp
  then show ?thesis by (auto simp: check_parentheses_def SBin butlast_append)
qed

declare eval.simps [simp del]

lemma eval_fail: "\<not> ok \<Longrightarrow> eval c maps ts ok m = Inr (0, False, m)"
  by (simp add: eval.simps)

lemma eval_parens:
  assumes "paren_scan mid 0 = Some 0" "mid \<noteq> []"
  shows "eval c maps (LP # mid @ [RP]) True m = eval c maps mid True m"
  using check_parens_whole [OF assms(1)] assms(2)
  by (subst eval.simps) (simp add: butlast_append)

lemma eval_toks: "wf_sx x \<Longrightarrow> eval c maps (toks x) ok m = sem c maps x ok m"
proof (induction x arbitrary: ok m)
  case (SAtom t)
  then show ?case by (simp add: eval.simps)
next
  case (SUn t a)
  have ok: "eval c maps (Token t [] # toks a) True m
      = ebind (eval c maps (toks a) True m) (\<lambda>(v, ok1, m1). apply_op c maps t 0 v ok1 m1)"
    using SUn.prems op_not_paren(2) [of t] main_op_un [of a t]
    by (subst eval.simps) (simp add: check_parentheses_def)
  show ?case
  proof (cases ok)
    case True
    then show ?thesis
      using SUn eval_parens [of "Token t [] # toks a" c maps m] toks_scan [of a "[]" 0] op_not_paren(2) [of t] ok
      by simp
  qed (simp add: eval_fail)
next
  case (SBin t a b)
  have wf: "wf_sx a" "wf_sx b" "is_binary t" using SBin.prems by auto
  note pp = op_not_paren(1) [OF wf(3)]
  have "length (toks a @ Token t [] # toks b) \<noteq> 1" by (cases "toks a") auto
  then have ok: "eval c maps (toks a @ Token t [] # toks b) True m
      = ebind (sem c maps a True m) (\<lambda>(v1, ok1, m1).
          ebind (sem c maps b ok1 m1) (\<lambda>(v2, ok2, m2). apply_op c maps t v1 v2 ok2 m2))"
    using check_parens_bin [OF wf(1,3), of b] main_op_bin [OF wf] pp SBin.IH wf
    by (subst eval.simps) (simp add: nth_append)
  have "paren_scan (toks a @ Token t [] # toks b) 0 = Some 0"
    using toks_scan [OF wf(1)] toks_scan [OF wf(2), of "[]" 0] pp by simp
  then have "eval c maps (toks (SBin t a b)) True m = eval c maps (toks a @ Token t [] # toks b) True m"
    using eval_parens [of "toks a @ Token t [] # toks b" c maps m] by simp
  then show ?case using ok by (cases ok) (auto simp: eval_fail simp del: toks.simps)
qed

section \<open>Tokenizing\<close>

definition tok_text :: "token \<Rightarrow> string" where
  "tok_text t = (case tk t of T_plus \<Rightarrow> ''+'' | T_minus \<Rightarrow> ''-'' | T_mul \<Rightarrow> ''*'' | T_div \<Rightarrow> ''/''
     | T_lpar \<Rightarrow> ''('' | T_rpar \<Rightarrow> '')'' | TK_NEQ \<Rightarrow> ''!='' | TK_AND \<Rightarrow> ''&&'' | TK_OR \<Rightarrow> ''||''
     | TK_EQ \<Rightarrow> ''=='' | TK_LE \<Rightarrow> ''<='' | TK_GE \<Rightarrow> ''>='' | TK_LT \<Rightarrow> ''<'' | TK_GT \<Rightarrow> ''>''
     | _ \<Rightarrow> tstr t)"

definition unlex :: "token list \<Rightarrow> string" where
  "unlex ts = concat (map (\<lambda>t. tok_text t @ '' '') ts)"

text \<open>The tokens a user can write.\<close>

definition digit_chars :: string where "digit_chars = ''0123456789''"
definition hex_chars :: string where "hex_chars = digit_chars @ ''abcdefABCDEF''"
definition alnum_chars :: string where
  "alnum_chars = digit_chars @ ''abcdefghijklmnopqrstuvwxyz'' @ ''ABCDEFGHIJKLMNOPQRSTUVWXYZ''"

definition wf_tok :: "token \<Rightarrow> bool" where
  "wf_tok t \<longleftrightarrow> (case tk t of
       TK_NUM \<Rightarrow> tstr t \<noteq> [] \<and> set (tstr t) \<subseteq> set digit_chars \<and> length (tstr t) < 32
     | TK_HEX \<Rightarrow> (case tstr t of z # x # h \<Rightarrow> z = CHR ''0'' \<and> (x = CHR ''x'' \<or> x = CHR ''X'') \<and>
                    h \<noteq> [] \<and> set h \<subseteq> set hex_chars \<and> length h < 30 | _ \<Rightarrow> False)
     | TK_REG \<Rightarrow> (case tstr t of d # n \<Rightarrow> d = CHR ''$'' \<and> n \<noteq> [] \<and> set n \<subseteq> set alnum_chars \<and> length n < 31
                    | _ \<Rightarrow> False)
     | TK_DEREF \<Rightarrow> False | TK_NEG \<Rightarrow> False
     | _ \<Rightarrow> tstr t = [])"

lemma char_classes:
  "set s \<subseteq> set digit_chars \<Longrightarrow> list_all is_digit s" "set s \<subseteq> set hex_chars \<Longrightarrow> list_all is_hex s"
  "set s \<subseteq> set alnum_chars \<Longrightarrow> list_all is_alnum s"
proof -
  have d: "\<forall>ch \<in> set digit_chars. is_digit ch" by (simp add: digit_chars_def is_digit_def)
  have h: "\<forall>ch \<in> set hex_chars. is_hex ch" using d by (auto simp: hex_chars_def is_hex_def)
  have a: "\<forall>ch \<in> set alnum_chars. is_alnum ch" using d by (auto simp: alnum_chars_def is_alnum_def)
  show "set s \<subseteq> set digit_chars \<Longrightarrow> list_all is_digit s" "set s \<subseteq> set hex_chars \<Longrightarrow> list_all is_hex s"
    "set s \<subseteq> set alnum_chars \<Longrightarrow> list_all is_alnum s"
    using d h a unfolding list_all_iff by blast+
qed

lemma wf_tokD:
  assumes "wf_tok t"
  shows "case tk t of
       TK_NUM \<Rightarrow> tstr t \<noteq> [] \<and> list_all is_digit (tstr t)
     | TK_HEX \<Rightarrow> (case tstr t of z # x # h \<Rightarrow> z = CHR ''0'' \<and> (x = CHR ''x'' \<or> x = CHR ''X'') \<and> h \<noteq> [] \<and> list_all is_hex h | _ \<Rightarrow> False)
     | TK_REG \<Rightarrow> (case tstr t of d # n \<Rightarrow> d = CHR ''$'' \<and> n \<noteq> [] \<and> list_all is_alnum n | _ \<Rightarrow> False)
     | TK_DEREF \<Rightarrow> False | TK_NEG \<Rightarrow> False
     | _ \<Rightarrow> tstr t = []"
proof (cases "tk t")
  case TK_NUM
  then show ?thesis using assms char_classes(1) [of "tstr t"] by (simp add: wf_tok_def)
next
  case TK_HEX
  then obtain z x h where h: "tstr t = z # x # h" "set h \<subseteq> set hex_chars"
    using assms by (auto simp: wf_tok_def split: list.splits)
  show ?thesis using assms TK_HEX h(1) char_classes(2) [OF h(2)] by (simp add: wf_tok_def)
next
  case TK_REG
  then obtain d n where n: "tstr t = d # n" "set n \<subseteq> set alnum_chars"
    using assms by (auto simp: wf_tok_def split: list.splits)
  show ?thesis using assms TK_REG n(1) char_classes(3) [OF n(2)] by (simp add: wf_tok_def)
qed (use assms in \<open>simp_all add: wf_tok_def\<close>)

lemma class_len_Cons: "class_len P (x # xs) = (if P x then Suc (class_len P xs) else 0)"
  by (simp add: class_len_def)

lemma class_len_stop: "list_all P s \<Longrightarrow> \<not> P ch \<Longrightarrow> class_len P (s @ ch # r) = length s"
  by (induction s) (auto simp: class_len_def)

lemma space_not_class [simp]: "\<not> is_digit (CHR '' '')" "\<not> is_hex (CHR '' '')" "\<not> is_alnum (CHR '' '')"
  by (simp_all add: is_digit_def is_hex_def is_alnum_def)

lemma digit_char:
  "is_digit d \<Longrightarrow> d \<noteq> CHR '' '' \<and> d \<noteq> CHR ''+'' \<and> d \<noteq> CHR ''-'' \<and> d \<noteq> CHR ''*'' \<and> d \<noteq> CHR ''/'' \<and>
     d \<noteq> CHR ''('' \<and> d \<noteq> CHR '')'' \<and> d \<noteq> CHR ''x'' \<and> d \<noteq> CHR ''X''"
  by (auto simp: is_digit_def)

lemma lex_num:
  assumes "s \<noteq> []" "list_all is_digit s"
  shows "first_rule rules (s @ CHR '' '' # r) = Some (length s, Some TK_NUM)"
proof -
  obtain d ds where s: "s = d # ds" using assms(1) by (cases s) auto
  have d: "is_digit d" and ds: "list_all is_digit ds" using assms(2) s by auto
  have len: "class_len is_digit (ds @ CHR '' '' # r) = length ds"
    using class_len_stop [OF ds] by simp
  have "regexec (Prefixed [\<lambda>ch. ch = CHR ''0'', \<lambda>ch. ch = CHR ''x'' \<or> ch = CHR ''X''] is_hex)
      (d # ds @ CHR '' '' # r) = None"
    using ds digit_char [of "hd ds"] by (cases ds) simp_all
  then show ?thesis
    unfolding s rules_def using digit_char [OF d] d len
    by (simp add: class_len_Cons del: regexec.simps(3))
qed

lemma lex_hex:
  assumes "x = CHR ''x'' \<or> x = CHR ''X''" "h \<noteq> []" "list_all is_hex h"
  shows "first_rule rules (CHR ''0'' # x # h @ CHR '' '' # r) = Some (length h + 2, Some TK_HEX)"
proof -
  have "regexec (Prefixed [\<lambda>ch. ch = CHR ''0'', \<lambda>ch. ch = CHR ''x'' \<or> ch = CHR ''X''] is_hex)
      (CHR ''0'' # x # h @ CHR '' '' # r) = Some (length h + 2)"
    using assms class_len_stop [OF assms(3), of "CHR '' ''" r] by auto
  then show ?thesis by (simp add: rules_def class_len_Cons del: regexec.simps(3))
qed

lemma lex_reg:
  assumes "n \<noteq> []" "list_all is_alnum n"
  shows "first_rule rules (CHR ''$'' # n @ CHR '' '' # r) = Some (length n + 1, Some TK_REG)"
proof -
  have "regexec (Prefixed [\<lambda>ch. ch = CHR ''$''] is_alnum) (CHR ''$'' # n @ CHR '' '' # r) = Some (length n + 1)"
    using assms class_len_stop [OF assms(2), of "CHR '' ''" r] by auto
  moreover have "regexec (Prefixed [\<lambda>ch. ch = CHR ''0'', \<lambda>ch. ch = CHR ''x'' \<or> ch = CHR ''X''] is_hex)
      (CHR ''$'' # n @ CHR '' '' # r) = None"
    by simp
  moreover have "\<not> is_digit (CHR ''$'')" by (simp add: is_digit_def)
  ultimately show ?thesis by (simp add: rules_def class_len_Cons del: regexec.simps(3))
qed

lemma lex_tok:
  assumes "wf_tok t"
  shows "first_rule rules (tok_text t @ CHR '' '' # r) = Some (length (tok_text t), Some (tk t))"
proof (cases "keeps_str (tk t)")
  case True
  then consider "tk t = TK_NUM" | "tk t = TK_HEX" | "tk t = TK_REG" by (auto simp: keeps_str_def)
  then show ?thesis
    using wf_tokD [OF assms] lex_num [of "tstr t" r] lex_hex [of _ _ r] lex_reg [of _ r]
    by cases (auto simp: tok_text_def split: list.splits)
next
  case False
  then show ?thesis
    using assms
    by (cases "tk t") (simp_all add: wf_tok_def tok_text_def keeps_str_def rules_def class_len_Cons is_digit_def)
qed

declare make_token_from.simps [simp del]

lemma lex_space: "first_rule rules (CHR '' '' # r) = Some (Suc (class_len (\<lambda>ch. ch = CHR '' '') r), None)"
  by (simp add: rules_def class_len_Cons)

lemma tok_text_start:
  "wf_tok t \<Longrightarrow> tok_text t \<noteq> [] \<and> hd (tok_text t) \<noteq> CHR '' ''"
  using wf_tokD [of t] digit_char [of "hd (tstr t)"]
  by (cases "tk t") (auto simp: tok_text_def list_all_iff hd_in_set split: list.splits)

lemma unlex_no_space: "list_all wf_tok ts \<Longrightarrow> class_len (\<lambda>ch. ch = CHR '' '') (unlex ts) = 0"
proof (cases ts)
  case (Cons t ts')
  assume "list_all wf_tok ts"
  then have "tok_text t \<noteq> [] \<and> hd (tok_text t) \<noteq> CHR '' ''" using tok_text_start Cons by simp
  then show ?thesis by (cases "tok_text t") (simp_all add: Cons unlex_def class_len_Cons)
qed (simp add: unlex_def class_len_def)

lemma make_token_space:
  assumes "class_len (\<lambda>ch. ch = CHR '' '') r = 0"
  shows "make_token_from nr (CHR '' '' # r) = make_token_from nr r"
  using assms by (subst make_token_from.simps) (simp add: lex_space)

lemma keeps_text: "keeps_str (tk t) \<Longrightarrow> tok_text t = tstr t"
  by (auto simp: keeps_str_def tok_text_def)

lemma wf_tok_len: "wf_tok t \<Longrightarrow> keeps_str (tk t) \<Longrightarrow> length (tok_text t) < 32"
  by (auto simp: keeps_text) (auto simp: wf_tok_def keeps_str_def split: list.splits)

lemma wf_tok_str: "wf_tok t \<Longrightarrow> Token (tk t) (if keeps_str (tk t) then tok_text t else []) = t"
  by (cases t; cases "tk t") (auto simp: wf_tok_def keeps_str_def tok_text_def)

lemma make_token_unlex:
  "list_all wf_tok ts \<Longrightarrow> nr + length ts \<le> MAX_TOKENS \<Longrightarrow> make_token_from nr (unlex ts) = Inr ts"
proof (induction ts arbitrary: nr)
  case Nil
  then show ?case by (subst make_token_from.simps) (simp add: unlex_def)
next
  case (Cons t ts)
  have t: "wf_tok t" and ts: "list_all wf_tok ts" using Cons.prems by auto
  have e: "unlex (t # ts) = tok_text t @ CHR '' '' # unlex ts" by (simp add: unlex_def)
  have "make_token_from (Suc nr) (CHR '' '' # unlex ts) = Inr ts"
    using make_token_space [OF unlex_no_space [OF ts]] Cons.IH [OF ts, of "Suc nr"] Cons.prems(2) by simp
  then show ?case
    unfolding e
    by (subst make_token_from.simps)
      (use lex_tok [OF t, of "unlex ts"] wf_tok_len [OF t] wf_tok_str [OF t] tok_text_start [OF t] Cons.prems(2) in auto)
qed

text \<open>
  the tokenizer inverts printing. Every sequence of well-formed tokens (operators, parentheses,
  decimal and hexadecimal numbers and registers of less than 32 characters, at most 65536 of them)
  printed with separating blanks is read back as the same sequence, so the order of the rules never
  splits or joins a token.
\<close>

lemma tokenize_print:
  assumes "list_all wf_tok ts" "length ts \<le> MAX_TOKENS"
  shows "make_token (unlex ts) = Inr ts"
  using make_token_unlex [of ts 0] assms by (simp add: make_token_def)

section \<open>From text to value\<close>

definition raw_op :: "token_type \<Rightarrow> token_type" where
  "raw_op t = (if t = TK_NEG then T_minus else if t = TK_DEREF then T_mul else t)"

text \<open>The tokens of a fully parenthesised expression as the tokenizer gives them.\<close>

primrec raw :: "sx \<Rightarrow> token list" where
  "raw (SAtom t) = [t]"
| "raw (SUn t a) = LP # Token (raw_op t) [] # raw a @ [RP]"
| "raw (SBin t a b) = LP # raw a @ Token t [] # raw b @ [RP]"

lemma mark_unary_end: "ends_operand e \<Longrightarrow> mark_unary (Some e) ts = mark_unary (Some T_rpar) ts"
  by (cases ts) (simp_all add: Let_def ends_operand_def)

lemma mark_raw: "wf_sx x \<Longrightarrow> mark_unary prev (raw x @ ts) = toks x @ mark_unary (Some T_rpar) ts"
proof (induction x arbitrary: prev ts)
  case (SAtom t)
  then have "tk t \<noteq> T_mul \<and> tk t \<noteq> T_minus \<and> ends_operand (tk t)"
    by (auto simp: keeps_str_def ends_operand_def)
  then show ?case by (simp add: Let_def mark_unary_end)
next
  case (SUn t a)
  then show ?case by (auto simp: Let_def is_unary_def raw_op_def ends_operand_def)
next
  case (SBin t a b)
  have "\<not> is_unary t" using SBin.prems op_not_paren(1) [of t] by simp
  then show ?case using SBin by (simp add: Let_def ends_operand_def)
qed

primrec wf_text :: "sx \<Rightarrow> bool" where
  "wf_text (SAtom t) \<longleftrightarrow> keeps_str (tk t) \<and> wf_tok t"
| "wf_text (SUn t a) \<longleftrightarrow> is_unary t \<and> wf_text a"
| "wf_text (SBin t a b) \<longleftrightarrow> is_binary t \<and> wf_text a \<and> wf_text b"

lemma wf_text_sx: "wf_text x \<Longrightarrow> wf_sx x"
  by (induction x) auto

lemma wf_binary_tok: "is_binary t \<Longrightarrow> wf_tok (Token t [])"
  by (cases t) (simp_all add: is_binary_def precedence_def wf_tok_def)

lemma wf_other_toks: "wf_tok LP" "wf_tok RP" "is_unary t \<Longrightarrow> wf_tok (Token (raw_op t) [])"
  by (auto simp: wf_tok_def is_unary_def raw_op_def)

lemma wf_text_toks: "wf_text x \<Longrightarrow> list_all wf_tok (raw x)"
  by (induction x) (auto simp: wf_binary_tok wf_other_toks)

section \<open>What an expression means\<close>

text \<open>
  The meaning in the integers, stated without the evaluator: numerals by their positional value, registers by their ABI names,
  operators as operations on integers whose result has to be an \<^verbatim>\<open>int\<close>, quotients rounded towards zero, comparisons and the
  logical operators as truth values. \<open>as_int\<close> is the conversion to \<^verbatim>\<open>int\<close>. An unknown register counts as 0 and clears the flag, and what
  is to the right of it is not evaluated and counts as 0 as well.
\<close>

definition as_int :: "int \<Rightarrow> int" where
  "as_int n = (n + 2 ^ 31) mod 2 ^ 32 - 2 ^ 31"

definition digit_value :: "char \<Rightarrow> int" where
  "digit_value ch = the (map_of (zip hex_chars ([0..9] @ [10..15] @ [10..15])) ch)"

definition numeral_value :: "int \<Rightarrow> string \<Rightarrow> int" where
  "numeral_value base s = (\<Sum>i < length s. digit_value (s ! i) * base ^ (length s - 1 - i))"

definition abi_regs :: "(string \<times> nat) list" where
  "abi_regs = [(''ra'', 1), (''sp'', 2), (''gp'', 3), (''tp'', 4), (''t0'', 5), (''t1'', 6), (''t2'', 7), (''s0'', 8), (''s1'', 9),
     (''a0'', 10), (''a1'', 11), (''a2'', 12), (''a3'', 13), (''a4'', 14), (''a5'', 15)]"

definition reg_meaning :: "string \<Rightarrow> cpu_state \<Rightarrow> u32 option" where
  "reg_meaning nm cp = (if nm = ''pc'' then Some (cpu_pc cp) else map_option (\<lambda>i. gpr cp ! i) (map_of abi_regs nm))"

definition int_result :: "int \<Rightarrow> int res" where
  "int_result v = (if v \<in> {- (2 ^ 31) ..< 2 ^ 31} then Inr v else Inl (Undef ''signed overflow''))"

fun op_meaning :: "token_type \<Rightarrow> int \<Rightarrow> int \<Rightarrow> int res" where
  "op_meaning T_plus a b = int_result (a + b)"
| "op_meaning T_minus a b = int_result (a - b)"
| "op_meaning T_mul a b = int_result (a * b)"
| "op_meaning T_div a b = (if b = 0 then Inl Assert_fail else int_result (sgn a * sgn b * (\<bar>a\<bar> div \<bar>b\<bar>)))"
| "op_meaning TK_EQ a b = Inr (of_bool (a = b))"
| "op_meaning TK_NEQ a b = Inr (of_bool (a \<noteq> b))"
| "op_meaning TK_LE a b = Inr (of_bool (a \<le> b))"
| "op_meaning TK_GE a b = Inr (of_bool (a \<ge> b))"
| "op_meaning TK_LT a b = Inr (of_bool (a < b))"
| "op_meaning TK_GT a b = Inr (of_bool (a > b))"
| "op_meaning TK_AND a b = Inr (of_bool (a \<noteq> 0 \<and> b \<noteq> 0))"
| "op_meaning TK_OR a b = Inr (of_bool (a \<noteq> 0 \<or> b \<noteq> 0))"
| "op_meaning _ a b = Inl Assert_fail"

definition atom_meaning :: "token \<Rightarrow> machine \<Rightarrow> int option" where
  "atom_meaning t m =
    (case tk t of
       TK_NUM \<Rightarrow> Some (as_int (min (numeral_value 10 (tstr t)) (2 ^ 63 - 1)))
     | TK_HEX \<Rightarrow> Some (as_int (min (numeral_value 16 (drop 2 (tstr t))) (2 ^ 64 - 1)))
     | _ \<Rightarrow> map_option sint (reg_meaning (tl (tstr t)) (cpu m)))"

primrec meaning :: "nemu_config \<Rightarrow> IOMap list \<Rightarrow> sx \<Rightarrow> machine \<Rightarrow> (int \<times> bool \<times> machine) res" where
  "meaning c maps (SAtom t) m = (case atom_meaning t m of Some v \<Rightarrow> Inr (v, True, m) | None \<Rightarrow> Inr (0, False, m))"
| "meaning c maps (SUn t a) m =
    ebind (meaning c maps a m) (\<lambda>(v, ok, m1).
      if t = TK_NEG then ebind (int_result (- v)) (\<lambda>w. Inr (w, ok, m1))
      else ebind (vaddr_read c maps (word_of_int v) 4 m1) (\<lambda>(w, m2). Inr (sint w, ok, m2)))"
| "meaning c maps (SBin t a b) m =
    ebind (meaning c maps a m) (\<lambda>(v1, ok1, m1).
    ebind (if ok1 then meaning c maps b m1 else Inr (0, False, m1)) (\<lambda>(v2, ok2, m2).
    ebind (op_meaning t v1 v2) (\<lambda>v. Inr (v, ok2, m2))))"

definition int_range :: "int \<Rightarrow> bool" where
  "int_range v \<longleftrightarrow> - (2 ^ 31) \<le> v \<and> v < 2 ^ 31"

lemma sint_range: "int_range v \<Longrightarrow> sint (word_of_int v :: u32) = v"
  by (simp add: int_range_def int_word_sint)

lemma range_sint [simp]: "int_range (sint (w :: u32))"
  using sint_ge [of w] sint_lt [of w] by (simp add: int_range_def)

lemma range_small [simp]: "int_range 0" "int_range (of_bool b)"
  by (auto simp: int_range_def)

lemma as_int_word: "word_of_int (as_int n) = (word_of_int n :: u32)" "int_range (as_int n)"
proof -
  have "as_int n = sint (word_of_int n :: u32)"
    by (simp add: as_int_def int_word_sint)
  then show "word_of_int (as_int n) = (word_of_int n :: u32)" "int_range (as_int n)" by simp_all
qed

lemma int_result_c: "c_int v = ebind (int_result v) (\<lambda>v. Inr (word_of_int v))" "int_result v = Inr w \<Longrightarrow> int_range w"
  by (auto simp: c_int_def int_result_def int_range_def split: if_splits)

lemma quotient_range:
  assumes "int_range a" "b \<noteq> 0" "\<not> (a = - (2 ^ 31) \<and> b = - 1)"
  shows "int_range (sgn a * sgn b * (\<bar>a\<bar> div \<bar>b\<bar>))"
proof (cases "\<bar>b\<bar> = 1")
  case True
  then consider "b = 1" | "b = - 1" by linarith
  then show ?thesis using assms by cases (auto simp: int_range_def mult_sgn_abs)
next
  case False
  then have "2 \<le> \<bar>b\<bar>" using assms(2) by linarith
  then have "\<bar>a\<bar> div \<bar>b\<bar> \<le> \<bar>a\<bar> div 2" by (intro zdiv_mono2) simp_all
  also have "\<bar>a\<bar> \<le> 2 ^ 31" using assms(1) unfolding int_range_def by (simp add: abs_le_iff)
  then have "\<bar>a\<bar> div 2 \<le> 2 ^ 30" by simp
  finally have "\<bar>a\<bar> div \<bar>b\<bar> \<le> 2 ^ 30" "0 \<le> \<bar>a\<bar> div \<bar>b\<bar>" using assms(2) by (simp_all add: pos_imp_zdiv_nonneg_iff)
  then show ?thesis by (auto simp: int_range_def sgn_if)
qed

lemma div_ok_range:
  assumes "int_range a" "int_range b" "b \<noteq> 0"
  shows "c_div_ok (word_of_int a) (word_of_int b) \<longleftrightarrow> int_range (sgn a * sgn b * (\<bar>a\<bar> div \<bar>b\<bar>))"
proof -
  have eq: "(word_of_int v :: u32) = word_of_int w \<longleftrightarrow> v = w" if "int_range v" "int_range w" for v w
    using sint_range [OF that(1)] sint_range [OF that(2)] by metis
  have m: "(INT_MIN :: u32) = word_of_int (- (2 ^ 31))" by (simp add: word_uint_eq_iff)
  have rm: "int_range (- (2 ^ 31))" by (simp add: int_range_def)
  have "(word_of_int a :: u32) = INT_MIN \<longleftrightarrow> a = - (2 ^ 31)" unfolding m by (rule eq [OF assms(1) rm])
  moreover have "(word_of_int b :: u32) \<noteq> 0" "(word_of_int b :: u32) = - 1 \<longleftrightarrow> b = - 1"
    using eq [OF assms(2), of 0] eq [OF assms(2), of "- 1"] assms(3) by (simp_all add: int_range_def)
  ultimately have "c_div_ok (word_of_int a) (word_of_int b) \<longleftrightarrow> \<not> (a = - (2 ^ 31) \<and> b = - 1)" by (simp add: c_div_ok_def)
  then show ?thesis using quotient_range [OF assms(1,3)] by (auto simp: int_range_def)
qed

lemma binop_meaning:
  assumes "int_range a" "int_range b" "is_binary t"
  shows "binop t (word_of_int a) (word_of_int b) = ebind (op_meaning t a b) (\<lambda>v. Inr (word_of_int v))"
proof -
  note r = sint_range [OF assms(1)] sint_range [OF assms(2)]
  have eq: "(word_of_int a :: u32) = word_of_int b \<longleftrightarrow> a = b" using r by metis
  have z: "(word_of_int a :: u32) = 0 \<longleftrightarrow> a = 0" "(word_of_int b :: u32) = 0 \<longleftrightarrow> b = 0" using r by (metis signed_0 word_of_int_0)+
  note d = binop_def r c_slt_def of_bool32_def int_result_c(1) eq z not_less
  consider (div) "t = T_div" "b \<noteq> 0" | (zero) "t = T_div" "b = 0" | (other) "t \<noteq> T_div" by blast
  then show ?thesis
  proof cases
    case div
    have q: "c_sdiv (word_of_int a) (word_of_int b) = word_of_int (sgn a * sgn b * (\<bar>a\<bar> div \<bar>b\<bar>))"
      by (simp add: c_sdiv_def r signed_divide_int_def)
    show ?thesis using div div_ok_range [OF assms(1,2) div(2)]
      by (simp add: binop_def z q int_result_def int_range_def)
  next
    case zero
    then show ?thesis by (simp add: d)
  next
    case other
    then show ?thesis using assms(3) by (cases t) (simp_all add: d is_binary_def)
  qed
qed

lemma op_meaning_range:
  assumes "op_meaning t a b = Inr v"
  shows "int_range v"
  using assms by (cases t) (auto dest: int_result_c(2) split: if_splits)

text \<open>Numerals.\<close>

lemma digit_values: "\<forall>ch \<in> set hex_chars. int (digit_val ch) = digit_value ch"
  by (simp add: hex_chars_def digit_chars_def digit_val_def digit_value_def upto_rec1)

lemma digits_val_value:
  assumes "set s \<subseteq> set hex_chars"
  shows "int (digits_val b acc s) = int acc * int b ^ length s + numeral_value (int b) s"
  using assms
proof (induction s arbitrary: acc)
  case (Cons ch s)
  have "numeral_value (int b) (ch # s) = digit_value ch * int b ^ length s + numeral_value (int b) s"
    by (simp add: numeral_value_def sum.lessThan_Suc_shift del: sum.lessThan_Suc)
  moreover have "int (digit_val ch) = digit_value ch" using Cons.prems digit_values by simp
  ultimately show ?case using Cons.IH [of "acc * b + digit_val ch"] Cons.prems by (simp add: algebra_simps)
qed (simp add: numeral_value_def)

lemma of_nat_min: "(of_nat (min n k) :: u32) = word_of_int (min (int n) (int k))"
  by (simp add: min_def)

lemma reg_meaning_eq:
  assumes "set nm \<subseteq> set alnum_chars"
  shows "isa_reg_str2val nm cp = reg_meaning nm cp"
proof -
  have "nm \<noteq> ''$0''" using assms by (auto simp: alnum_chars_def digit_chars_def)
  then show ?thesis
    by (simp add: isa_reg_str2val_def reg_meaning_def eval_nat_numeral regs_def abi_regs_def)
qed

lemma atom_meaning_eq:
  assumes "keeps_str (tk t)" "wf_tok t"
  shows "eval_atom t m = (case atom_meaning t m of Some v \<Rightarrow> Inr (word_of_int v, True, m) | None \<Rightarrow> Inr (0, False, m))"
    "atom_meaning t m = Some v \<Longrightarrow> int_range v"
proof -
  consider "tk t = TK_NUM" | "tk t = TK_HEX" | "tk t = TK_REG" using assms(1) by (auto simp: keeps_str_def)
  then have "eval_atom t m = (case atom_meaning t m of Some v \<Rightarrow> Inr (word_of_int v, True, m) | None \<Rightarrow> Inr (0, False, m)) \<and>
    (atom_meaning t m = Some v \<longrightarrow> int_range v)"
  proof cases
    case 1
    then have "set (tstr t) \<subseteq> set hex_chars" using assms(2) by (auto simp: wf_tok_def hex_chars_def)
    then show ?thesis using 1 digits_val_value [of "tstr t" 10 0]
      by (auto simp: eval_atom_def atom_meaning_def c_atoi_def of_nat_min as_int_word)
  next
    case 2
    then have "set (drop 2 (tstr t)) \<subseteq> set hex_chars" using assms(2) by (auto simp: wf_tok_def split: list.splits)
    then show ?thesis using 2 digits_val_value [of "drop 2 (tstr t)" 16 0]
      by (auto simp: eval_atom_def atom_meaning_def c_strtoul16_def of_nat_min as_int_word)
  next
    case 3
    then have "set (tl (tstr t)) \<subseteq> set alnum_chars" using assms(2) by (auto simp: wf_tok_def split: list.splits)
    then show ?thesis using 3 by (auto simp: eval_atom_def atom_meaning_def reg_meaning_eq split: option.splits)
  qed
  then show "eval_atom t m = (case atom_meaning t m of Some v \<Rightarrow> Inr (word_of_int v, True, m) | None \<Rightarrow> Inr (0, False, m))"
    "atom_meaning t m = Some v \<Longrightarrow> int_range v" by simp_all
qed

text \<open>The evaluator computes the meaning.\<close>

lemma sem_False: "sem c maps x False m = Inr (0, False, m)"
  by (cases x) simp_all

definition as_words :: "(int \<times> bool \<times> machine) res \<Rightarrow> eval_res" where
  "as_words r = ebind r (\<lambda>(v, ok, m). Inr (word_of_int v, ok, m))"

lemma meaning_range: "wf_text x \<Longrightarrow> meaning c maps x m = Inr (v, ok, m') \<Longrightarrow> int_range v"
proof (induction x arbitrary: m v ok m')
  case (SAtom t)
  then show ?case using atom_meaning_eq(2) [of t m] by (auto split: option.splits)
next
  case (SUn t a)
  then show ?case by (auto dest: int_result_c(2) split: if_splits prod.splits)
next
  case (SBin t a b)
  then show ?case using op_meaning_range by (auto split: prod.splits)
qed

lemma sem_meaning: "wf_text x \<Longrightarrow> sem c maps x True m = as_words (meaning c maps x m)"
proof (induction x arbitrary: m)
  case (SAtom t)
  then show ?case using atom_meaning_eq(1) [of t m] by (auto simp: as_words_def split: option.splits)
next
  case (SUn t a)
  have op: "apply_op c maps t 0 (word_of_int v) ok m1 = as_words
      (if t = TK_NEG then ebind (int_result (- v)) (\<lambda>w. Inr (w, ok, m1))
       else ebind (vaddr_read c maps (word_of_int v) 4 m1) (\<lambda>(w, m2). Inr (sint w, ok, m2)))"
    if "int_range v" for v ok m1
    using SUn.prems by (auto simp: apply_op_def is_unary_def sint_range [OF that] int_result_c(1) as_words_def ebind_assoc split: prod.splits intro: ebind_cong)
  show ?case
  proof (cases "meaning c maps a m")
    case (Inr r)
    then obtain v ok m1 where "meaning c maps a m = Inr (v, ok, m1)" by (cases r) auto
    then show ?thesis using SUn op meaning_range [of a c maps m v ok m1] by (simp add: as_words_def)
  qed (use SUn in \<open>simp add: as_words_def\<close>)
next
  case (SBin t a b)
  have wf: "wf_text a" "wf_text b" "is_binary t" using SBin.prems by simp_all
  have op: "apply_op c maps t (word_of_int v1) (word_of_int v2) ok m1 = as_words (ebind (op_meaning t v1 v2) (\<lambda>v. Inr (v, ok, m1)))"
    if "int_range v1" "int_range v2" for v1 v2 ok m1
    using binop_meaning [OF that wf(3)] op_not_paren(1) [OF wf(3)] by (simp add: apply_op_def is_unary_def as_words_def ebind_assoc)
  show ?case
  proof (cases "meaning c maps a m")
    case (Inr r)
    then obtain v1 ok1 m1 where a: "meaning c maps a m = Inr (v1, ok1, m1)" by (cases r) auto
    define rb where "rb = (if ok1 then meaning c maps b m1 else Inr (0, False, m1))"
    have b: "sem c maps b ok1 m1 = as_words rb"
      using SBin.IH(2) [OF wf(2), of m1] by (cases ok1) (simp_all add: rb_def sem_False as_words_def)
    have rng: "int_range v2" if "rb = Inr (v2, ok2, m2)" for v2 ok2 m2
      using that meaning_range [OF wf(2)] by (auto simp: rb_def split: if_splits)
    show ?thesis
    proof (cases rb)
      case (Inr q)
      then obtain v2 ok2 m2 where q: "rb = Inr (v2, ok2, m2)" by (cases q) auto
      show ?thesis using SBin.IH(1) [OF wf(1), of m] a b q op [OF meaning_range [OF wf(1) a] rng [OF q]]
        by (simp add: as_words_def rb_def [symmetric])
    qed (use SBin.IH(1) [OF wf(1), of m] a b in \<open>simp add: as_words_def rb_def [symmetric]\<close>)
  qed (use SBin.IH(1) [OF wf(1), of m] in \<open>simp add: as_words_def\<close>)
qed



section \<open>Chains without parentheses\<close>

definition chain :: "token \<Rightarrow> (token_type \<times> token) list \<Rightarrow> token list" where
  "chain a0 ps = a0 # concat (map (\<lambda>(t, a). [Token t [], a]) ps)"

definition left_tree :: "token \<Rightarrow> (token_type \<times> token) list \<Rightarrow> sx" where
  "left_tree a0 ps = foldl (\<lambda>x (t, a). SBin t x (SAtom a)) (SAtom a0) ps"

fun right_tree :: "token \<Rightarrow> (token_type \<times> token) list \<Rightarrow> sx" where
  "right_tree a0 [] = SAtom a0"
| "right_tree a0 ((t, a) # ps) = SBin t (SAtom a0) (right_tree a ps)"

definition chain_ok :: "nat \<Rightarrow> token \<Rightarrow> (token_type \<times> token) list \<Rightarrow> bool" where
  "chain_ok k a0 ps \<longleftrightarrow> keeps_str (tk a0) \<and> (\<forall>(t, a) \<in> set ps. precedence t = k \<and> keeps_str (tk a))"

lemma precedence_not_paren: "precedence t \<le> 7 \<Longrightarrow> t \<noteq> T_lpar \<and> t \<noteq> T_rpar"
  by (auto simp: precedence_def)

lemma chain_scan:
  assumes "\<forall>(t, a) \<in> set ps. precedence t = k \<and> keeps_str (tk a)" "k \<le> 6" "k \<le> mp" "mp \<le> 100"
  shows "\<exists>mo' mp'. main_op_loop (concat (map (\<lambda>(t, a). [Token t [], a]) ps) @ ys) i mo mp 0
      = main_op_loop ys (i + 2 * length ps) mo' mp' 0 \<and> k \<le> mp' \<and> mp' \<le> 100"
  using assms
proof (induction ps arbitrary: i mo mp)
  case Nil
  then show ?case by auto
next
  case (Cons p ps)
  obtain t a where p: "p = (t, a)" by (cases p)
  have t: "precedence t = k" "t \<noteq> T_lpar \<and> t \<noteq> T_rpar" and a: "keeps_str (tk a)"
    using Cons.prems p precedence_not_paren [of t] by auto
  note aa = atom_not_paren [OF a]
  show ?case
  proof (cases "k < mp \<or> k \<noteq> 6")
    case True
    then have step: "main_op_loop (concat (map (\<lambda>(t, a). [Token t [], a]) (p # ps)) @ ys) i mo mp 0
        = main_op_loop (concat (map (\<lambda>(t, a). [Token t [], a]) ps) @ ys) (Suc (Suc i)) (Some i) k 0"
      using t aa Cons.prems(2,3) by (auto simp: p)
    show ?thesis unfolding step
      using Cons.IH [of k "Suc (Suc i)" "Some i"] Cons.prems by auto
  next
    case False
    then have step: "main_op_loop (concat (map (\<lambda>(t, a). [Token t [], a]) (p # ps)) @ ys) i mo mp 0
        = main_op_loop (concat (map (\<lambda>(t, a). [Token t [], a]) ps) @ ys) (Suc (Suc i)) mo mp 0"
      using t aa Cons.prems(2,3) by (auto simp: p)
    show ?thesis unfolding step
      using Cons.IH [of mp "Suc (Suc i)" mo] Cons.prems by auto
  qed
qed

lemma chain_not_parens: "keeps_str (tk a0) \<Longrightarrow> \<not> check_parentheses (a0 # ts)"
  by (simp add: check_parentheses_def atom_not_paren)

lemma eval_split:
  assumes "keeps_str (tk a0)" "find_main_operator (a0 # ts) = Some k" "ts \<noteq> []"
    "\<not> is_unary (tk ((a0 # ts) ! k))"
  shows "eval c maps (a0 # ts) True m
    = ebind (eval c maps (take k (a0 # ts)) True m) (\<lambda>(v1, ok1, m1).
        ebind (eval c maps (drop (Suc k) (a0 # ts)) ok1 m1) (\<lambda>(v2, ok2, m2).
          apply_op c maps (tk ((a0 # ts) ! k)) v1 v2 ok2 m2))"
  using chain_not_parens [OF assms(1)] assms(2-4)
  by (subst eval.simps) (simp add: Let_def)

lemma eval_single: "eval c maps [t] ok m = sem c maps (SAtom t) ok m"
  by (simp add: eval.simps)

lemma chain_snoc: "chain a0 (ps @ [(t, a)]) = chain a0 ps @ [Token t [], a]"
  by (simp add: chain_def)

lemma chain_len: "length (chain a0 ps) = 2 * length ps + 1"
  by (induction ps) (auto simp: chain_def)

lemma additive_main_op:
  assumes "chain_ok 5 a0 (ps @ [(t, a)])"
  shows "find_main_operator (chain a0 (ps @ [(t, a)])) = Some (length (chain a0 ps))"
proof -
  have ok: "keeps_str (tk a0)" "\<forall>(t, a) \<in> set ps. precedence t = 5 \<and> keeps_str (tk a)"
    "precedence t = 5" "keeps_str (tk a)" "t \<noteq> T_lpar \<and> t \<noteq> T_rpar"
    using assms precedence_not_paren [of t] by (auto simp: chain_ok_def)
  obtain mo' mp' where "main_op_loop (concat (map (\<lambda>(t, a). [Token t [], a]) ps) @ [Token t [], a]) 1 (Some 0) 100 0
      = main_op_loop [Token t [], a] (1 + 2 * length ps) mo' mp' 0" "5 \<le> mp'"
    using chain_scan [OF ok(2), of 100 "[Token t [], a]" 1 "Some 0"] by auto
  then show ?thesis
    using ok(1) ok(3-5) atom_not_paren [OF ok(1)] atom_not_paren [OF ok(4)]
    by (auto simp: find_main_operator_def chain_snoc chain_len) (auto simp: chain_def)
qed

lemma eval_additive:
  "chain_ok 5 a0 ps \<Longrightarrow> eval c maps (chain a0 ps) True m = sem c maps (left_tree a0 ps) True m"
proof (induction ps arbitrary: m rule: rev_induct)
  case Nil
  then show ?case by (simp add: chain_def left_tree_def eval_single)
next
  case (snoc p ps)
  obtain t a where p: "p = (t, a)" by (cases p)
  have ok: "chain_ok 5 a0 ps" "precedence t = 5" "keeps_str (tk a0)"
    using snoc.prems p by (auto simp: chain_ok_def)
  have nu: "\<not> is_unary t" using ok(2) by (auto simp: is_unary_def precedence_def)
  define ts where "ts = tl (chain a0 (ps @ [(t, a)]))"
  have ch: "a0 # ts = chain a0 ps @ [Token t [], a]" by (simp add: ts_def chain_snoc chain_def)
  have ne: "ts \<noteq> []" by (simp add: ts_def chain_snoc chain_def)
  have main: "find_main_operator (a0 # ts) = Some (length (chain a0 ps))"
    using additive_main_op [of a0 ps t a] snoc.prems p ch by (simp add: chain_snoc)
  have "eval c maps (a0 # ts) True m
    = ebind (eval c maps (chain a0 ps) True m) (\<lambda>(v1, ok1, m1).
        ebind (eval c maps [a] ok1 m1) (\<lambda>(v2, ok2, m2). apply_op c maps t v1 v2 ok2 m2))"
    using eval_split [OF ok(3) main ne, of c maps m] nu by (simp add: ch)
  then show ?case
    using snoc.IH [OF ok(1)] by (simp add: p chain_snoc ch left_tree_def eval_single)
qed

lemma multiplicative_main_op:
  assumes "chain_ok 6 a0 ((t, a) # ps)"
  shows "find_main_operator (chain a0 ((t, a) # ps)) = Some 1"
proof -
  have ok: "keeps_str (tk a0)" "\<forall>(t, a) \<in> set ps. precedence t = 6 \<and> keeps_str (tk a)"
    "precedence t = 6" "keeps_str (tk a)" "t \<noteq> T_lpar \<and> t \<noteq> T_rpar"
    using assms precedence_not_paren [of t] by (auto simp: chain_ok_def)
  have stay: "main_op_loop (concat (map (\<lambda>(t, a). [Token t [], a]) ps)) i (Some 1) 6 0 = Some 1" for i
    using ok(2)
  proof (induction ps arbitrary: i)
    case (Cons p ps)
    then show ?case
      using precedence_not_paren [of "fst p"] atom_not_paren [of "tk (snd p)"] by (cases p) auto
  qed simp
  show ?thesis
    using ok(1) ok(3-5) atom_not_paren [OF ok(1)] atom_not_paren [OF ok(4)] stay
    by (simp add: find_main_operator_def chain_def)
qed

lemma eval_multiplicative:
  "chain_ok 6 a0 ps \<Longrightarrow> eval c maps (chain a0 ps) ok m = sem c maps (right_tree a0 ps) ok m"
proof (induction ps arbitrary: a0 ok m)
  case Nil
  then show ?case by (simp add: chain_def eval_single)
next
  case (Cons p ps)
  obtain t a where p: "p = (t, a)" by (cases p)
  have ok: "chain_ok 6 a ps" "precedence t = 6" "keeps_str (tk a0)"
    using Cons.prems p by (auto simp: chain_ok_def)
  have nu: "\<not> is_unary t" using ok(2) by (auto simp: is_unary_def precedence_def)
  have ch: "chain a0 ((t, a) # ps) = a0 # Token t [] # chain a ps" by (simp add: chain_def)
  have main: "find_main_operator (a0 # Token t [] # chain a ps) = Some 1"
    using multiplicative_main_op [of a0 t a ps] Cons.prems p ch by simp
  show ?case
  proof (cases ok)
    case True
    then show ?thesis
      using eval_split [OF ok(3) main, of c maps m] nu Cons.IH [OF \<open>chain_ok 6 a ps\<close>]
      by (simp add: p ch eval_single)
  qed (simp add: eval_fail p)
qed

text \<open>
  sums and differences associate to the left. A chain of operands joined by \<^verbatim>\<open>+\<close> and \<^verbatim>\<open>-\<close> without
  parentheses evaluates as the left-nested expression, for every length of the chain.
\<close>

lemma additive_chain_left:
  assumes "chain_ok 5 a0 ps"
  shows "eval c maps (chain a0 ps) True m = sem c maps (left_tree a0 ps) True m"
  using assms by (rule eval_additive)

text \<open>
  products and quotients associate to the right. A chain of operands joined by \<^verbatim>\<open>*\<close> and \<^verbatim>\<open>/\<close> without
  parentheses evaluates as the right-nested expression, because the main operator of precedence 6 is
  the first one of the chain instead of the last: \<^verbatim>\<open>8/4/2\<close> is 4, where C gives 1.
\<close>

lemma multiplicative_chain_right:
  assumes "chain_ok 6 a0 ps"
  shows "eval c maps (chain a0 ps) True m = sem c maps (right_tree a0 ps) True m"
  using assms by (rule eval_multiplicative)

text \<open>
  of two adjacent unary operators only the inner one takes effect: the main operator is the last
  one and the tokens before a unary operator are not evaluated, so \<^verbatim>\<open>--1\<close> is -1 and \<^verbatim>\<open>-*p\<close> reads memory
  without negating.
\<close>

lemma nested_unary_drops_outer:
  assumes "is_unary t1" "is_unary t2" "keeps_str (tk a)"
  shows "eval c maps [Token t1 [], Token t2 [], a] True m = sem c maps (SUn t2 (SAtom a)) True m"
proof -
  have "find_main_operator [Token t1 [], Token t2 [], a] = Some 1"
    using assms atom_not_paren [OF assms(3)]
    by (auto simp: find_main_operator_def is_unary_def precedence_def [of TK_NEG] precedence_def [of TK_DEREF])
  moreover have "\<not> check_parentheses [Token t1 [], Token t2 [], a]"
    using assms(1) by (auto simp: check_parentheses_def is_unary_def)
  ultimately show ?thesis
    using assms(2) by (subst eval.simps) (simp add: eval_single Let_def)
qed

end
