(* ===== verification/Sdb_Watchpoint.thy ===== *)
theory Sdb_Watchpoint
  imports Sdb_Expr
begin

text \<open>
  The watchpoint pool of \<^verbatim>\<open>nemu/src/monitor/sdb/watchpoint.c\<close>: an array of 32 watchpoints threaded
  into a list of used and a list of free ones by \<^verbatim>\<open>next\<close> pointers (indices into the array). The loops
  that follow the pointers carry fuel, the size of the pool; the invariant shows that it is enough. The invariant
  says that the two lists are disjoint and together hold the whole pool, and every operation keeps
  it.
\<close>

definition NR_WP :: nat where "NR_WP = 32"

record WP =
  NO :: nat
  wp_next :: "nat option"
  wp_expr :: string
  old_val :: u32

record wp_state =
  wp_pool :: "WP list"
  wp_head :: "nat option"
  wp_free :: "nat option"

definition init_wp_pool :: wp_state where
  "init_wp_pool = \<lparr>wp_pool = map (\<lambda>i. \<lparr>NO = i, wp_next = (if i = NR_WP - 1 then None else Some (i + 1)),
       wp_expr = [], old_val = 0\<rparr>) [0..<NR_WP], wp_head = None, wp_free = Some 0\<rparr>"

definition upd_wp :: "nat \<Rightarrow> (WP \<Rightarrow> WP) \<Rightarrow> wp_state \<Rightarrow> wp_state" where
  "upd_wp i f s = s\<lparr>wp_pool := (wp_pool s)[i := f (wp_pool s ! i)]\<rparr>"

definition new_wp :: "wp_state \<Rightarrow> (nat \<times> wp_state) res" where
  "new_wp s =
    (case wp_free s of None \<Rightarrow> Inl Assert_fail
     | Some wp \<Rightarrow>
       let s1 = s\<lparr>wp_free := wp_next (wp_pool s ! wp)\<rparr>;
           s2 = upd_wp wp (\<lambda>w. w\<lparr>wp_next := wp_head s1\<rparr>) s1;
           s3 = s2\<lparr>wp_head := Some wp\<rparr> in
       Inr (wp, upd_wp wp (\<lambda>w. w\<lparr>old_val := 0, wp_expr := []\<rparr>) s3))"

text \<open>The node whose \<^verbatim>\<open>next\<close> is \<^verbatim>\<open>wp\<close>, or the last node.\<close>

fun find_prev :: "nat \<Rightarrow> WP list \<Rightarrow> nat \<Rightarrow> nat \<Rightarrow> nat option" where
  "find_prev 0 pool wp prev = None"
| "find_prev (Suc n) pool wp prev =
    (case wp_next (pool ! prev) of None \<Rightarrow> Some prev
     | Some k \<Rightarrow> if k = wp then Some prev else find_prev n pool wp k)"

definition free_wp :: "nat \<Rightarrow> wp_state \<Rightarrow> wp_state res" where
  "free_wp wp s =
    (case wp_head s of None \<Rightarrow> Inr s
     | Some h \<Rightarrow>
       ebind (if h = wp then Inr (s\<lparr>wp_head := wp_next (wp_pool s ! h)\<rparr>)
              else case find_prev NR_WP (wp_pool s) wp h of
                None \<Rightarrow> Inl (Undef ''cyclic list'')
              | Some prev \<Rightarrow>
                  ebind (echeck (wp_next (wp_pool s ! prev) \<noteq> Some wp) Assert_fail) (\<lambda>_.
                    Inr (if wp_next (wp_pool s ! prev) = Some wp
                         then upd_wp prev (\<lambda>w. w\<lparr>wp_next := wp_next (wp_pool s ! wp)\<rparr>) s else s)))
       (\<lambda>s1. Inr (upd_wp wp (\<lambda>w. w\<lparr>wp_next := wp_free s1\<rparr>) s1\<lparr>wp_free := Some wp\<rparr>)))"

definition add_watchpoint :: "nemu_config \<Rightarrow> IOMap list \<Rightarrow> string \<Rightarrow> wp_state \<Rightarrow> machine \<Rightarrow>
    (bool \<times> wp_state \<times> machine) res" where
  "add_watchpoint c maps e s m =
    ebind (new_wp s) (\<lambda>(wp, s1).
      let s2 = upd_wp wp (\<lambda>w. w\<lparr>wp_expr := take 127 e\<rparr>) s1 in
      ebind (expr c maps e m) (\<lambda>(v, success, m1).
        let s3 = upd_wp wp (\<lambda>w. w\<lparr>old_val := v\<rparr>) s2 in
        if success then Inr (True, s3, m1)
        else ebind (free_wp wp s3) (\<lambda>s4. Inr (False, s4, m1))))"

fun check_loop :: "nemu_config \<Rightarrow> IOMap list \<Rightarrow> nat \<Rightarrow> nat option \<Rightarrow> bool \<Rightarrow> wp_state \<Rightarrow> machine \<Rightarrow>
    (bool \<times> wp_state \<times> machine) res" where
  "check_loop c maps n None triggered s m = Inr (triggered, s, m)"
| "check_loop c maps 0 (Some wp) triggered s m = Inl (Undef ''cyclic list'')"
| "check_loop c maps (Suc n) (Some wp) triggered s m =
    ebind (expr c maps (wp_expr (wp_pool s ! wp)) m) (\<lambda>(new_val, success, m1).
      if new_val \<noteq> old_val (wp_pool s ! wp)
      then check_loop c maps n (wp_next (wp_pool s ! wp)) True (upd_wp wp (\<lambda>w. w\<lparr>old_val := new_val\<rparr>) s) m1
      else check_loop c maps n (wp_next (wp_pool s ! wp)) triggered s m1)"

definition check_watchpoints :: "nemu_config \<Rightarrow> IOMap list \<Rightarrow> wp_state \<Rightarrow> machine \<Rightarrow>
    (bool \<times> wp_state \<times> machine) res" where
  "check_watchpoints c maps s m = check_loop c maps NR_WP (wp_head s) False s m"

fun list_loop :: "nat \<Rightarrow> nat option \<Rightarrow> WP list \<Rightarrow> (nat \<times> string \<times> u32) list" where
  "list_loop n None pool = []"
| "list_loop 0 (Some wp) pool = []"
| "list_loop (Suc n) (Some wp) pool =
    (NO (pool ! wp), wp_expr (pool ! wp), old_val (pool ! wp)) # list_loop n (wp_next (pool ! wp)) pool"

definition list_watchpoints :: "wp_state \<Rightarrow> (nat \<times> string \<times> u32) list" where
  "list_watchpoints s = list_loop NR_WP (wp_head s) (wp_pool s)"

fun find_no :: "nat \<Rightarrow> nat option \<Rightarrow> int \<Rightarrow> WP list \<Rightarrow> nat option" where
  "find_no n None no pool = None"
| "find_no 0 (Some wp) no pool = None"
| "find_no (Suc n) (Some wp) no pool =
    (if int (NO (pool ! wp)) = no then Some wp else find_no n (wp_next (pool ! wp)) no pool)"

text \<open>Whether a watchpoint was deleted, and the new state.\<close>

definition delete_watchpoint :: "int \<Rightarrow> wp_state \<Rightarrow> (bool \<times> wp_state) res" where
  "delete_watchpoint no s =
    (case find_no NR_WP (wp_head s) no (wp_pool s) of
       Some wp \<Rightarrow> ebind (free_wp wp s) (\<lambda>s'. Inr (True, s'))
     | None \<Rightarrow> Inr (False, s))"

section \<open>The lists\<close>

primrec wpath :: "WP list \<Rightarrow> nat option \<Rightarrow> nat list \<Rightarrow> bool" where
  "wpath pool p [] \<longleftrightarrow> p = None"
| "wpath pool p (x # xs) \<longleftrightarrow> p = Some x \<and> x < length pool \<and> wpath pool (wp_next (pool ! x)) xs"

definition wp_inv :: "nat list \<Rightarrow> nat list \<Rightarrow> wp_state \<Rightarrow> bool" where
  "wp_inv used unused s \<longleftrightarrow> length (wp_pool s) = NR_WP \<and> wpath (wp_pool s) (wp_head s) used \<and>
     wpath (wp_pool s) (wp_free s) unused \<and> distinct (used @ unused) \<and>
     set (used @ unused) = {..<NR_WP} \<and> (\<forall>i < NR_WP. NO (wp_pool s ! i) = i)"

lemma wpath_upd:
  "i \<notin> set xs \<Longrightarrow> wpath (pool[i := w]) p xs = wpath pool p xs"
  by (induction xs arbitrary: p) auto

lemma field_keep: "f w = f (pool ! i) \<Longrightarrow> f (pool[i := w] ! x) = f (pool ! x)"
  by (cases "i < length pool"; cases "x = i") (simp_all add: list_update_beyond)

lemma wpath_keep:
  assumes "wp_next w = wp_next (pool ! i)"
  shows "wpath (pool[i := w]) p xs = wpath pool p xs"
  by (induction xs arbitrary: p) (simp_all add: field_keep [where f = wp_next, OF assms])

lemma wpath_None [simp]: "wpath pool None xs \<longleftrightarrow> xs = []"
  by (cases xs) auto

lemma wpath_Some: "wpath pool (Some x) xs \<longleftrightarrow> (\<exists>ys. xs = x # ys \<and> x < length pool \<and> wpath pool (wp_next (pool ! x)) ys)"
  by (cases xs) auto

lemma wp_inv_len: "wp_inv us fs s \<Longrightarrow> length us + length fs = NR_WP"
  using distinct_card [of "us @ fs"] by (auto simp: wp_inv_def)

lemma upd_wp_simps [simp]:
  "wp_head (upd_wp i f s) = wp_head s" "wp_free (upd_wp i f s) = wp_free s"
  "length (wp_pool (upd_wp i f s)) = length (wp_pool s)"
  "wp_pool (upd_wp i f s) = (wp_pool s)[i := f (wp_pool s ! i)]"
  by (simp_all add: upd_wp_def)

lemma upd_wp_inv:
  assumes "wp_inv us fs s" "wp_next (f (wp_pool s ! i)) = wp_next (wp_pool s ! i)"
    "NO (f (wp_pool s ! i)) = NO (wp_pool s ! i)"
  shows "wp_inv us fs (upd_wp i f s)"
  using assms(1) unfolding wp_inv_def
  by (simp add: wpath_keep [OF assms(2)] field_keep [where f = NO, OF assms(3)])

lemma init_wp_pool_inv: "wp_inv [] [0..<NR_WP] init_wp_pool"
proof -
  define pool where "pool = wp_pool init_wp_pool"
  have len: "length pool = NR_WP" by (simp add: pool_def init_wp_pool_def)
  have nx: "wp_next (pool ! i) = (if i = NR_WP - 1 then None else Some (i + 1))" "NO (pool ! i) = i"
    if "i < NR_WP" for i
    using that by (simp_all add: pool_def init_wp_pool_def)
  have "wpath pool (if k = NR_WP then None else Some k) [k..<NR_WP]" if "k \<le> NR_WP" for k
    using that
  proof (induction "NR_WP - k" arbitrary: k)
    case (Suc d)
    then have k: "k < NR_WP" and d: "d = NR_WP - Suc k" by auto
    have "wpath pool (if Suc k = NR_WP then None else Some (Suc k)) [Suc k..<NR_WP]"
      using Suc.hyps(1) [OF d] k by simp
    then show ?case using k nx [OF k] by (auto simp: upt_conv_Cons len split: if_splits)
  qed simp
  from this [of 0] have "wpath pool (Some 0) [0..<NR_WP]" by (simp add: NR_WP_def del: upt_Suc)
  then show ?thesis
    using len nx by (auto simp: wp_inv_def pool_def init_wp_pool_def simp del: upt_Suc)
qed

lemma new_wp_ok:
  assumes "wp_inv us (wp # fs) s"
  shows "\<exists>s'. new_wp s = Inr (wp, s') \<and> wp_inv (wp # us) fs s'"
proof -
  have f: "wp_free s = Some wp" using assms by (simp add: wp_inv_def)
  have nm: "wp \<notin> set us" "wp \<notin> set fs" "wp < NR_WP" using assms by (auto simp: wp_inv_def)
  show ?thesis
    using assms nm by (auto simp: new_wp_def f Let_def wp_inv_def wpath_upd nth_list_update)
qed

lemma new_wp_full: "wp_inv us [] s \<Longrightarrow> new_wp s = Inl Assert_fail"
  by (simp add: wp_inv_def new_wp_def)

lemma free_wp_head:
  assumes "wp_inv (wp # us) fs s"
  shows "\<exists>s'. free_wp wp s = Inr s' \<and> wp_inv us (wp # fs) s'"
proof -
  have h: "wp_head s = Some wp" using assms by (simp add: wp_inv_def)
  have nm: "wp \<notin> set us" "wp \<notin> set fs" "wp < NR_WP" using assms by (auto simp: wp_inv_def)
  show ?thesis
    using assms nm by (auto simp: free_wp_def h wp_inv_def wpath_upd nth_list_update)
qed

lemma find_prev_in:
  assumes "wpath pool (Some h) (h # us)" "wp \<in> set us" "length us \<le> n" "distinct (h # us)"
  shows "\<exists>prev. find_prev n pool wp h = Some prev \<and> wp_next (pool ! prev) = Some wp"
  using assms
proof (induction us arbitrary: h n)
  case (Cons u us)
  obtain k where n: "n = Suc k" using Cons.prems(3) by (cases n) auto
  have nx: "wp_next (pool ! h) = Some u" and p: "wpath pool (Some u) (u # us)"
    using Cons.prems(1) by auto
  show ?case
  proof (cases "u = wp")
    case True
    then show ?thesis using nx n by auto
  next
    case False
    then show ?thesis using Cons.IH [OF p, of k] Cons.prems nx n by auto
  qed
qed simp

lemma free_wp_inner:
  assumes "wp_inv (h # us) fs s" "wp \<in> set us"
  shows "free_wp wp s = Inl Assert_fail"
proof -
  have h: "wp_head s = Some h" and ne: "h \<noteq> wp"
    and p: "wpath (wp_pool s) (Some h) (h # us)" and d: "distinct (h # us)"
    using assms by (auto simp: wp_inv_def)
  have "length us \<le> NR_WP" using wp_inv_len [OF assms(1)] by simp
  then obtain prev where "find_prev NR_WP (wp_pool s) wp h = Some prev" "wp_next (wp_pool s ! prev) = Some wp"
    using find_prev_in [OF p assms(2) _ d] by blast
  then show ?thesis using ne by (simp add: free_wp_def h)
qed

lemma find_no_path:
  assumes "wpath pool p us" "length us \<le> n" "\<forall>i < length pool. NO (pool ! i) = i"
  shows "find_no n p no pool = (if \<exists>u \<in> set us. int u = no then Some (nat no) else None)"
  using assms
proof (induction us arbitrary: p n)
  case (Cons u us)
  obtain k where n: "n = Suc k" using Cons.prems(2) by (cases n) auto
  show ?case using Cons.IH [of "wp_next (pool ! u)" k] Cons.prems n by auto
qed simp

section \<open>Operations keep the lists\<close>

lemma add_watchpoint_inv:
  assumes "wp_inv us fs s" "add_watchpoint c maps e s m = Inr (b, s', m')"
  shows "\<exists>us' fs'. wp_inv us' fs' s' \<and> (if b then \<exists>wp. us' = wp # us else us' = us)"
proof (cases fs)
  case Nil
  then show ?thesis using assms new_wp_full [of us s] by (simp add: add_watchpoint_def)
next
  case (Cons wp fs')
  obtain s1 where s1: "new_wp s = Inr (wp, s1)" "wp_inv (wp # us) fs' s1"
    using new_wp_ok assms(1) Cons by blast
  define s2 where "s2 = upd_wp wp (\<lambda>w. w\<lparr>wp_expr := take 127 e\<rparr>) s1"
  obtain v ok m1 where x: "expr c maps e m = Inr (v, ok, m1)"
    using assms(2) s1(1) by (auto simp: add_watchpoint_def)
  define s3 where "s3 = upd_wp wp (\<lambda>w. w\<lparr>old_val := v\<rparr>) s2"
  have inv3: "wp_inv (wp # us) fs' s3"
    unfolding s3_def s2_def by (intro upd_wp_inv s1(2)) simp_all
  show ?thesis
  proof (cases ok)
    case True
    then show ?thesis
      using assms(2) inv3 by (auto simp: add_watchpoint_def s1(1) x s2_def [symmetric] s3_def [symmetric] Let_def)
  next
    case False
    obtain s4 where "free_wp wp s3 = Inr s4" "wp_inv us (wp # fs') s4"
      using free_wp_head [OF inv3] by blast
    then show ?thesis
      using assms(2) False by (auto simp: add_watchpoint_def s1(1) x s2_def [symmetric] s3_def [symmetric] Let_def)
  qed
qed

lemma check_loop_inv:
  "check_loop c maps n p tr s m = Inr (b, s', m') \<Longrightarrow> wp_inv us fs s \<Longrightarrow> wp_inv us fs s'"
proof (induction c maps n p tr s m rule: check_loop.induct)
  case (3 c maps n wp tr s m)
  obtain v ok m1 where x: "expr c maps (wp_expr (wp_pool s ! wp)) m = Inr (v, ok, m1)"
    using "3.prems"(1) by auto
  have inv: "wp_inv us fs (upd_wp wp (\<lambda>w. w\<lparr>old_val := v\<rparr>) s)"
    by (rule upd_wp_inv [OF "3.prems"(2)]) simp_all
  show ?case
  proof (cases "v = old_val (wp_pool s ! wp)")
    case True
    have "check_loop c maps n (wp_next (wp_pool s ! wp)) tr s m1 = Inr (b, s', m')"
      using "3.prems"(1) x True by simp
    then show ?thesis using "3.IH"(2) [OF x refl refl] True "3.prems"(2) by blast
  next
    case False
    have "check_loop c maps n (wp_next (wp_pool s ! wp)) True (upd_wp wp (\<lambda>w. w\<lparr>old_val := v\<rparr>) s) m1 = Inr (b, s', m')"
      using "3.prems"(1) x False by simp
    then show ?thesis using "3.IH"(1) [OF x refl refl] False inv by blast
  qed
qed auto

lemma delete_watchpoint_cases:
  assumes "wp_inv us fs s"
  shows "delete_watchpoint no s =
    (if \<exists>u \<in> set us. int u = no
     then (if int (hd us) = no then map_sum id (Pair True) (free_wp (hd us) s) else Inl Assert_fail)
     else Inr (False, s))"
proof -
  have p: "wpath (wp_pool s) (wp_head s) us" "\<forall>i < length (wp_pool s). NO (wp_pool s ! i) = i"
    using assms by (auto simp: wp_inv_def)
  have "length us \<le> NR_WP" using wp_inv_len [OF assms] by simp
  note f = find_no_path [OF p(1) this p(2), of no]
  show ?thesis
  proof (cases "\<exists>u \<in> set us. int u = no")
    case True
    then obtain u where u: "u \<in> set us" "no = int u" by auto
    obtain h us' where us: "us = h # us'" using u by (cases us) auto
    show ?thesis
    proof (cases "u = h")
      case True
      then show ?thesis using f u us by (cases "free_wp h s") (auto simp: delete_watchpoint_def)
    next
      case False
      then have "free_wp u s = Inl Assert_fail" using free_wp_inner assms us u by auto
      then show ?thesis using f u us False by (auto simp: delete_watchpoint_def)
    qed
  qed (use f in \<open>auto simp: delete_watchpoint_def\<close>)
qed

text \<open>The debugger's sequences of operations on the pool.\<close>

inductive wp_step :: "wp_state \<Rightarrow> wp_state \<Rightarrow> bool" where
  step_add: "add_watchpoint c maps e s m = Inr (b, s', m') \<Longrightarrow> wp_step s s'"
| step_check: "check_watchpoints c maps s m = Inr (b, s', m') \<Longrightarrow> wp_step s s'"
| step_delete: "delete_watchpoint no s = Inr (b, s') \<Longrightarrow> wp_step s s'"

inductive_cases wp_stepE: "wp_step s s'"

lemma wp_step_inv:
  assumes "wp_step s s'" "\<exists>us fs. wp_inv us fs s"
  shows "\<exists>us fs. wp_inv us fs s'"
  using assms
proof (cases rule: wp_step.cases)
  case (step_add c maps e m b m')
  then show ?thesis using assms(2) add_watchpoint_inv by blast
next
  case (step_check c maps m b m')
  then show ?thesis using assms(2) check_loop_inv by (metis check_watchpoints_def)
next
  case (step_delete no b)
  obtain us fs where inv: "wp_inv us fs s" using assms(2) by blast
  show ?thesis
  proof (cases "\<exists>u \<in> set us. int u = no")
    case True
    then obtain h us' where us: "us = h # us'" by (cases us) auto
    obtain s1 where "free_wp h s = Inr s1" "wp_inv us' (h # fs) s1" using free_wp_head inv us by blast
    then show ?thesis
      using step_delete delete_watchpoint_cases [OF inv, of no] True us by (auto split: if_splits)
  qed (use step_delete delete_watchpoint_cases [OF inv, of no] inv in auto)
qed

text \<open>
  C8: the watchpoint lists stay sound. In every state the debugger can reach from the initial pool by
  adding, checking and deleting watchpoints, the used and the free list are finite, disjoint and
  together hold each of the 32 watchpoints exactly once, and every watchpoint still carries its own
  number.
\<close>

theorem wp_reachable_inv:
  assumes "wp_step\<^sup>*\<^sup>* init_wp_pool s"
  shows "\<exists>used unused. wp_inv used unused s"
  using assms
proof (induction rule: rtranclp_induct)
  case base
  show ?case using init_wp_pool_inv by blast
next
  case (step s s')
  then show ?case using wp_step_inv by blast
qed

lemma wp_first_delete_absent: "delete_watchpoint 7 init_wp_pool = Inr (False, init_wp_pool)"
  by (simp add: delete_watchpoint_def init_wp_pool_def NR_WP_def)

theorem wp_reachable_inv_witness:
  "wp_step\<^sup>*\<^sup>* init_wp_pool init_wp_pool \<and> (\<exists>used unused. wp_inv used unused init_wp_pool)"
  using wp_reachable_inv [of init_wp_pool] step_delete [OF wp_first_delete_absent] by blast

text \<open>
  C38: only the most recent watchpoint can be deleted. With a sound pool, deleting the head of the
  list returns it to the free list, deleting an unknown number changes nothing, and deleting any
  other watchpoint that is set fails the assertion in \<^verbatim>\<open>free_wp\<close>, which tests the opposite of what its
  comment says.
\<close>

theorem delete_only_head:
  assumes "wp_inv used unused s"
  shows "(no \<notin> int ` set used \<longrightarrow> delete_watchpoint no s = Inr (False, s)) \<and>
    (used \<noteq> [] \<longrightarrow> (\<exists>s'. delete_watchpoint (int (hd used)) s = Inr (True, s') \<and>
       wp_inv (tl used) (hd used # unused) s')) \<and>
    (no \<in> int ` set (tl used) \<longrightarrow> delete_watchpoint no s = Inl Assert_fail)"
proof (intro conjI impI)
  assume "no \<notin> int ` set used"
  then show "delete_watchpoint no s = Inr (False, s)"
    using delete_watchpoint_cases [OF assms, of no] by auto
next
  assume "used \<noteq> []"
  then obtain h us where us: "used = h # us" by (cases used) auto
  obtain s' where "free_wp h s = Inr s'" "wp_inv us (h # unused) s'" using free_wp_head assms us by blast
  then show "\<exists>s'. delete_watchpoint (int (hd used)) s = Inr (True, s') \<and> wp_inv (tl used) (hd used # unused) s'"
    using delete_watchpoint_cases [OF assms, of "int h"] us by auto
next
  assume *: "no \<in> int ` set (tl used)"
  then obtain h us where us: "used = h # us" by (cases used) auto
  have "distinct used" using assms by (simp add: wp_inv_def)
  then have "int h \<noteq> no" using * us by auto
  then show "delete_watchpoint no s = Inl Assert_fail"
    using delete_watchpoint_cases [OF assms, of no] us * by auto
qed

theorem delete_only_head_witness:
  "\<exists>s. wp_inv [1, 0] [2..<NR_WP] s \<and> delete_watchpoint 0 s = Inl Assert_fail"
proof -
  have "[0..<NR_WP] = 0 # 1 # [2..<NR_WP]" by (simp add: NR_WP_def upt_rec)
  then obtain s1 where "wp_inv [0] (1 # [2..<NR_WP]) s1"
    using new_wp_ok init_wp_pool_inv by metis
  then obtain s2 where "wp_inv [1, 0] [2..<NR_WP] s2" using new_wp_ok by metis
  then show ?thesis using delete_only_head [of "[1, 0]" "[2..<NR_WP]" s2 0] by auto
qed

end
