(* ===== verification/Cpu_Exec.thy ===== *)
theory Cpu_Exec
  imports Riscv_Spec Sdb_Watchpoint
begin

text \<open>
  The execution loop of \<^verbatim>\<open>nemu/src/cpu/cpu-exec.c\<close> with the instruction ring buffer, the differential
  tester of \<^verbatim>\<open>nemu/src/cpu/difftest/dut.c\<close> and the reference interface of \<^verbatim>\<open>ref.c\<close>. The reference design
  is a shared library loaded at run time, so its operations are a parameter (\<open>ref_ops\<close>) over an
  arbitrary state; so are the disassembler and the host's events. The loop runs at most the requested number of
  instructions, which is its recursion.
\<close>

section \<open>State\<close>

record 'r ref_ops =
  ref_difftest_regcpy_to_dut :: "'r \<Rightarrow> cpu_state"
  ref_difftest_regcpy_to_ref :: "cpu_state \<Rightarrow> 'r \<Rightarrow> 'r"
  ref_difftest_memcpy_to_ref :: "paddr_t \<Rightarrow> u8 list \<Rightarrow> 'r \<Rightarrow> 'r"
  ref_difftest_exec :: "nat \<Rightarrow> 'r \<Rightarrow> 'r"
  ref_difftest_init :: "int \<Rightarrow> 'r \<Rightarrow> 'r"

record 'r sys =
  mach :: machine
  wps :: wp_state
  iringbuf :: "string list"
  iringbuf_index :: nat
  g_timer :: u64
  g_print_step :: bool
  ref_state :: 'r

record host =
  disassemble :: "u64 \<Rightarrow> u8 list \<Rightarrow> string"
  sdl_events :: "u64 \<Rightarrow> sdl_event list"

section \<open>Instruction ring buffer\<close>

definition IRINGBUF_SIZE :: nat where "IRINGBUF_SIZE = 16"

definition write_iringbuf :: "string \<Rightarrow> 'r sys \<Rightarrow> 'r sys" where
  "write_iringbuf str s = s\<lparr>iringbuf := (iringbuf s)[iringbuf_index s := str],
     iringbuf_index := (iringbuf_index s + 1) mod IRINGBUF_SIZE\<rparr>"

text \<open>The lines printed: the entries that are not empty from the oldest on, the newest one marked.\<close>

definition print_iringbuf :: "'r sys \<Rightarrow> (bool \<times> string) list" where
  "print_iringbuf s =
    (let slots = map (\<lambda>i. (iringbuf_index s + i) mod IRINGBUF_SIZE) [0..<IRINGBUF_SIZE] in
     map (\<lambda>k. ((k + 1) mod IRINGBUF_SIZE = iringbuf_index s, iringbuf s ! k))
       (filter (\<lambda>k. iringbuf s ! k \<noteq> []) slots))"

section \<open>Differential testing: dut.c\<close>

fun regs_agree :: "nat \<Rightarrow> cpu_state \<Rightarrow> cpu_state \<Rightarrow> bool" where
  "regs_agree 0 a b = True"
| "regs_agree (Suc n) a b = (regs_agree n a b \<and> gpr a ! n = gpr b ! n)"

definition isa_difftest_checkregs :: "nemu_config \<Rightarrow> cpu_state \<Rightarrow> cpu_state \<Rightarrow> bool" where
  "isa_difftest_checkregs c cp ref_r \<longleftrightarrow> cpu_pc cp = cpu_pc ref_r \<and> regs_agree (nr_gpr c) cp ref_r"

definition checkregs :: "nemu_config \<Rightarrow> cpu_state \<Rightarrow> vaddr_t \<Rightarrow> machine \<Rightarrow> machine" where
  "checkregs c ref_r p m =
    (if \<not> isa_difftest_checkregs c (cpu m) ref_r
     then m\<lparr>nemu_state := (nemu_state m)\<lparr>state := NEMU_ABORT, halt_pc := p\<rparr>\<rparr> else m)"

primrec ref_steps :: "'r ref_ops \<Rightarrow> nat \<Rightarrow> 'r \<Rightarrow> 'r" where
  "ref_steps R 0 r = r"
| "ref_steps R (Suc n) r = ref_steps R n (ref_difftest_exec R 1 r)"

definition difftest_skip_dut :: "'r ref_ops \<Rightarrow> int \<Rightarrow> int \<Rightarrow> 'r sys \<Rightarrow> 'r sys" where
  "difftest_skip_dut R nr_ref nr_dut s =
    s\<lparr>mach := (mach s)\<lparr>dt := (dt (mach s))\<lparr>skip_dut_nr_inst := skip_dut_nr_inst (dt (mach s)) + nr_dut\<rparr>\<rparr>,
      ref_state := ref_steps R (nat nr_ref) (ref_state s)\<rparr>"

definition difftest_step :: "nemu_config \<Rightarrow> 'r ref_ops \<Rightarrow> vaddr_t \<Rightarrow> vaddr_t \<Rightarrow> 'r sys \<Rightarrow> 'r sys res" where
  "difftest_step c R p npc s =
    (let m = mach s; f = dt m in
     if skip_dut_nr_inst f > 0 then
       (let ref_r = ref_difftest_regcpy_to_dut R (ref_state s) in
        if cpu_pc ref_r = npc then
          Inr (s\<lparr>mach := checkregs c ref_r npc (m\<lparr>dt := f\<lparr>skip_dut_nr_inst := 0\<rparr>\<rparr>)\<rparr>)
        else if skip_dut_nr_inst f - 1 = 0 then Inl (Panic ''can not catch up with ref.pc'')
        else Inr (s\<lparr>mach := m\<lparr>dt := f\<lparr>skip_dut_nr_inst := skip_dut_nr_inst f - 1\<rparr>\<rparr>\<rparr>))
     else if is_skip_ref f then
       Inr (s\<lparr>ref_state := ref_difftest_regcpy_to_ref R (cpu m) (ref_state s),
              mach := m\<lparr>dt := f\<lparr>is_skip_ref := False\<rparr>\<rparr>\<rparr>)
     else
       (let r' = ref_difftest_exec R 1 (ref_state s);
            ref_r = ref_difftest_regcpy_to_dut R r' in
        Inr (s\<lparr>ref_state := r', mach := checkregs c ref_r p m\<rparr>)))"

text \<open>
  \<^verbatim>\<open>dlopen\<close> as a parameter: the symbols of the shared object at a path, or nothing when it cannot be opened. \<^verbatim>\<open>init_difftest\<close>
  asserts that the five entry points are there, initialises the reference with the port and copies the image and the registers
  to it; without \<^verbatim>\<open>CONFIG_DIFFTEST\<close> its body is empty.
\<close>

type_synonym dlopen_t = "string \<Rightarrow> string list option"

definition dlsym_all :: "dlopen_t \<Rightarrow> string \<Rightarrow> string list \<Rightarrow> unit res" where
  "dlsym_all dlopen path names =
    (case dlopen path of
       None \<Rightarrow> Inl Assert_fail
     | Some syms \<Rightarrow> echeck (\<forall>f \<in> set names. f \<in> set syms) Assert_fail)"

definition difftest_symbols :: "string list" where
  "difftest_symbols = [''difftest_memcpy'', ''difftest_regcpy'', ''difftest_exec'', ''difftest_raise_intr'', ''difftest_init'']"

definition init_difftest :: "nemu_config \<Rightarrow> dlopen_t \<Rightarrow> 'r ref_ops \<Rightarrow> string option \<Rightarrow> nat \<Rightarrow> int \<Rightarrow> 'r sys \<Rightarrow> 'r sys res" where
  "init_difftest c dlopen R ref_so_file img_size port s =
    (if \<not> CONFIG_DIFFTEST c then Inr s
     else case ref_so_file of
       None \<Rightarrow> Inl Assert_fail
     | Some path \<Rightarrow>
         ebind (dlsym_all dlopen path difftest_symbols) (\<lambda>_.
         let r = ref_difftest_init R port (ref_state s) in
         ebind (guest_to_host c (RESET_VECTOR c)) (\<lambda>(area, off).
         ebind (echeck (off + img_size \<le> unat (area_size c area)) (Undef ''out-of-bounds read'')) (\<lambda>_.
           Inr (s\<lparr>ref_state := ref_difftest_regcpy_to_ref R (cpu (mach s))
             (ref_difftest_memcpy_to_ref R (RESET_VECTOR c)
               (map (\<lambda>i. area_bytes area (mem (mach s)) (off + i)) [0..<img_size]) r)\<rparr>)))))"

section \<open>Execution\<close>

definition hex_char :: "nat \<Rightarrow> char" where
  "hex_char d = char_of (if d < 10 then 48 + d else 87 + d)"

primrec hex_digits :: "nat \<Rightarrow> nat \<Rightarrow> string" where
  "hex_digits 0 v = []"
| "hex_digits (Suc n) v = hex_digits n (v div 16) @ [hex_char (v mod 16)]"

text \<open>The trace line: the address, the bytes of the instruction from the last one on, a blank and the assembly.\<close>

definition itrace_logbuf :: "host \<Rightarrow> Decode \<Rightarrow> string" where
  "itrace_logbuf h de =
    (let bytes = map (\<lambda>i. ucast (drop_bit (8 * i) (inst de)) :: u8) [0..<unat (snpc de - pc de)] in
     ''0x'' @ hex_digits 8 (unat (pc de)) @ '':'' @
     concat (map (\<lambda>b. '' '' @ hex_digits 2 (unat b)) (rev bytes)) @
     replicate ((4 - length bytes) * 3 + 1) (CHR '' '') @ disassemble h (ucast (pc de)) bytes)"

definition exec_once :: "nemu_config \<Rightarrow> IOMap list \<Rightarrow> host \<Rightarrow> vaddr_t \<Rightarrow> 'r sys \<Rightarrow> (Decode \<times> 'r sys) res" where
  "exec_once c maps h p s =
    ebind (isa_exec_once c maps (\<lparr>pc = p, snpc = p, dnpc = p, inst = 0\<rparr>, mach s)) (\<lambda>(de, m1).
      let s1 = s\<lparr>mach := m1\<lparr>cpu := (cpu m1)\<lparr>cpu_pc := dnpc de\<rparr>\<rparr>\<rparr> in
      Inr (de, if CONFIG_ITRACE c then write_iringbuf (itrace_logbuf h de) s1 else s1))"

definition trace_and_difftest :: "nemu_config \<Rightarrow> IOMap list \<Rightarrow> 'r ref_ops \<Rightarrow> Decode \<Rightarrow> vaddr_t \<Rightarrow> 'r sys \<Rightarrow> 'r sys res" where
  "trace_and_difftest c maps R de dnpc' s =
    ebind (if CONFIG_DIFFTEST c then difftest_step c R (pc de) dnpc' s else Inr s) (\<lambda>s1.
      if CONFIG_WATCHPOINT c then
        ebind (check_watchpoints c maps (wps s1) (mach s1)) (\<lambda>(triggered, w, m).
          Inr (s1\<lparr>wps := w, mach := (if triggered
            then m\<lparr>nemu_state := (nemu_state m)\<lparr>state := NEMU_STOP\<rparr>\<rparr> else m)\<rparr>))
      else Inr s1)"

definition sys_device_update :: "dev_config \<Rightarrow> host \<Rightarrow> 'r sys \<Rightarrow> 'r sys res" where
  "sys_device_update dc h s =
    ebind (device_update dc (sdl_events h (g_nr_guest_inst (mach s))) (nemu_state (mach s), dev (mach s)))
      (\<lambda>(st, d). Inr (s\<lparr>mach := (mach s)\<lparr>nemu_state := st, dev := d\<rparr>\<rparr>))"

text \<open>One turn of the loop of \<^verbatim>\<open>execute\<close>, before the test whether NEMU still runs.\<close>

definition execute_body :: "nemu_config \<Rightarrow> IOMap list \<Rightarrow> host \<Rightarrow> 'r ref_ops \<Rightarrow> 'r sys \<Rightarrow> 'r sys res" where
  "execute_body c maps h R s =
    ebind (exec_once c maps h (cpu_pc (cpu (mach s))) s) (\<lambda>(de, s1).
      let s2 = s1\<lparr>mach := (mach s1)\<lparr>g_nr_guest_inst := g_nr_guest_inst (mach s1) + 1\<rparr>\<rparr> in
      trace_and_difftest c maps R de (cpu_pc (cpu (mach s2))) s2)"

primrec execute :: "nemu_config \<Rightarrow> dev_config \<Rightarrow> IOMap list \<Rightarrow> host \<Rightarrow> 'r ref_ops \<Rightarrow> nat \<Rightarrow> 'r sys \<Rightarrow> 'r sys res" where
  "execute c dc maps h R 0 s = Inr s"
| "execute c dc maps h R (Suc n) s =
    ebind (execute_body c maps h R s) (\<lambda>s1.
      if state (nemu_state (mach s1)) \<noteq> NEMU_RUNNING then Inr s1
      else ebind (if CONFIG_DEVICE c then sys_device_update dc h s1 else Inr s1) (\<lambda>s2.
        execute c dc maps h R n s2))"

definition MAX_INST_TO_PRINT :: u64 where "MAX_INST_TO_PRINT = 10"

definition set_state :: "nemu_run \<Rightarrow> 'r sys \<Rightarrow> 'r sys" where
  "set_state st s = s\<lparr>mach := (mach s)\<lparr>nemu_state := (nemu_state (mach s))\<lparr>state := st\<rparr>\<rparr>\<rparr>"

definition sys_get_time :: "'r sys \<Rightarrow> u64 \<times> 'r sys" where
  "sys_get_time s = (case get_time (dev (mach s)) of (t, d) \<Rightarrow> (t, s\<lparr>mach := (mach s)\<lparr>dev := d\<rparr>\<rparr>))"

text \<open>The switch at the end of a run: a run that was not stopped is stopped now.\<close>

definition finish_run :: "'r sys \<Rightarrow> 'r sys" where
  "finish_run s = (if state (nemu_state (mach s)) = NEMU_RUNNING then set_state NEMU_STOP s else s)"

definition cpu_exec :: "nemu_config \<Rightarrow> dev_config \<Rightarrow> IOMap list \<Rightarrow> host \<Rightarrow> 'r ref_ops \<Rightarrow> u64 \<Rightarrow> 'r sys \<Rightarrow> 'r sys res" where
  "cpu_exec c dc maps h R n s0 =
    (let s = s0\<lparr>g_print_step := n < MAX_INST_TO_PRINT\<rparr>; st = state (nemu_state (mach s)) in
     if st = NEMU_END \<or> st = NEMU_ABORT \<or> st = NEMU_QUIT then Inr s
     else case sys_get_time (set_state NEMU_RUNNING s) of (timer_start, s1) \<Rightarrow>
       ebind (execute c dc maps h R (unat n) s1) (\<lambda>s2.
       case sys_get_time s2 of (timer_end, s3) \<Rightarrow>
         let s4 = s3\<lparr>g_timer := g_timer s3 + (timer_end - timer_start)\<rparr> in
         Inr (finish_run s4)))"

section \<open>NEMU as a reference: ref.c\<close>

primrec difftest_memcpy_to_ref :: "nemu_config \<Rightarrow> paddr_t \<Rightarrow> u8 list \<Rightarrow> mem_state \<Rightarrow> mem_state res" where
  "difftest_memcpy_to_ref c addr [] mm = Inr mm"
| "difftest_memcpy_to_ref c addr (b # bs) mm =
    ebind (guest_to_host c addr) (\<lambda>(area, off).
      difftest_memcpy_to_ref c (addr + 1) bs (area_set area ((area_bytes area mm)(off := b)) mm))"

primrec difftest_memcpy_to_dut :: "nemu_config \<Rightarrow> paddr_t \<Rightarrow> nat \<Rightarrow> mem_state \<Rightarrow> u8 list res" where
  "difftest_memcpy_to_dut c addr 0 mm = Inr []"
| "difftest_memcpy_to_dut c addr (Suc n) mm =
    ebind (guest_to_host c addr) (\<lambda>(area, off).
    ebind (difftest_memcpy_to_dut c (addr + 1) n mm) (\<lambda>bs. Inr (area_bytes area mm off # bs)))"

definition difftest_regcpy_to_ref :: "cpu_state \<Rightarrow> machine \<Rightarrow> machine" where
  "difftest_regcpy_to_ref dut m = m\<lparr>cpu := dut\<rparr>"

definition difftest_regcpy_to_dut :: "machine \<Rightarrow> cpu_state" where
  "difftest_regcpy_to_dut m = cpu m"

definition difftest_exec :: "nemu_config \<Rightarrow> dev_config \<Rightarrow> IOMap list \<Rightarrow> host \<Rightarrow> 'r ref_ops \<Rightarrow> u64 \<Rightarrow> 'r sys \<Rightarrow> 'r sys res" where
  "difftest_exec c dc maps h R n s = cpu_exec c dc maps h R n s"

definition difftest_raise_intr :: "u64 \<Rightarrow> machine \<Rightarrow> machine res" where
  "difftest_raise_intr n m = Inl Assert_fail"

definition difftest_init :: "nemu_config \<Rightarrow> u32 option \<Rightarrow> machine \<Rightarrow> machine res" where
  "difftest_init c random m = init_isa c (m\<lparr>mem := init_mem c random (mem m)\<rparr>)"

section \<open>Booting the built-in image\<close>

definition boot_mem :: mem_state where
  "boot_mem = mem_zero\<lparr>pmem := bytes_set (\<lambda>_. 0) 0 img_bytes\<rparr>"

lemma upt4: "[0..<4] = [0, 1, 2, 3 :: nat]"
  by (simp add: upt_rec)

lemma img_bytes_eq: "img_bytes = [0x97, 2, 0, 0, 0x23, 0x88, 2, 0, 3, 0xc5, 2, 1, 0x73, 0, 0x10, 0, 0xef, 0xbe, 0xad, 0xde]"
  by (simp add: img_bytes_def img_def upt4)

lemma boot_reset: "init_isa quiet_config (machine_zero quiet_config)
   = Inr (restart quiet_config ((machine_zero quiet_config)\<lparr>mem := boot_mem\<rparr>))"
  by (simp add: init_isa_def guest_to_host_def RESET_VECTOR_def quiet_config_def in_pmem_def
      img_bytes_eq boot_mem_def machine_zero_def mem_zero_def)

lemma boot_fetch0: "pmem_read quiet_config 0x80000000 4 boot_mem = Inr 0x297"
  by (simp add: pmem_read_def guest_to_host_def quiet_config_def in_pmem_def host_read_def
     boot_mem_def img_bytes_eq load_le_4)

lemma boot_decode: "rv32_decode 0x297 = (I_auipc, TYPE_U)" "rv32_decode 0x00028823 = (I_sb, TYPE_S)"
  "rv32_decode 0x0102c503 = (I_lbu, TYPE_I)" "rv32_decode 0x00100073 = (I_ebreak, TYPE_N)"
  by (simp_all add: rv32_decode_def opcode_def funct3_def funct7_def Let_def)
lemma boot_imms: "immU 0x297 = 0" "immS 0x28823 = 16" "immI 0x0102c503 = 16"
  by (simp_all add: immU_def immS_def immI_def BITS_def BITMASK_def SEXT_def )

lemma decode_exec_unfold:
  "decode_exec c maps (de, m) =
    ebind (decode_operand c (inst de) (snd (rv32_decode (inst de))) m) (\<lambda>ops.
    ebind (exec_inst c maps (fst (rv32_decode (inst de))) ops (de\<lparr>dnpc := snpc de\<rparr>, m)) (\<lambda>(de1, m1).
    ebind (set_gpr c 0 0 m1) (\<lambda>m2. Inr (de1, m2))))"
  using comp_find_decode [of "inst de"]
  by (simp add: decode_exec_def Let_def table_match case_prod_beta ebind_assoc)

lemma step_fetched:
  assumes "in_pmem c p" "pmem_read c p 4 (mem m) = Inr i"
  shows "isa_exec_once c maps (\<lparr>pc = p, snpc = p, dnpc = p, inst = 0\<rparr>, m)
    = decode_exec c maps (\<lparr>pc = p, snpc = p + 4, dnpc = p, inst = i\<rparr>, m)"
  using assms by (simp add: isa_exec_once_def inst_fetch_def vaddr_ifetch_def paddr_read_def)

abbreviation boot_gpr :: "u32 list" where "boot_gpr \<equiv> replicate 32 0"

definition boot_mem2 :: mem_state where
  "boot_mem2 = boot_mem\<lparr>pmem := (pmem boot_mem)(16 := 0)\<rparr>"

lemma boot_fetch: "pmem_read quiet_config 0x80000004 4 boot_mem = Inr 0x28823"
  "pmem_read quiet_config 0x80000008 4 boot_mem2 = Inr 0x0102c503"
  "pmem_read quiet_config 0x8000000c 4 boot_mem2 = Inr 0x00100073"
  "pmem_read quiet_config 0x80000010 1 boot_mem2 = Inr 0"
  "pmem_write quiet_config 0x80000010 1 0 boot_mem = Inr boot_mem2"
  by (simp_all add: pmem_read_def pmem_write_def guest_to_host_def quiet_config_def in_pmem_def host_read_def
     host_write_def boot_mem_def boot_mem2_def img_bytes_eq load_le_4)

lemma boot_in_pmem:
  "in_pmem quiet_config 0x80000000" "in_pmem quiet_config 0x80000004"
  "in_pmem quiet_config 0x80000008" "in_pmem quiet_config 0x8000000c"
  "in_pmem quiet_config 0x80000010"
  by (simp_all add: in_pmem_def quiet_config_def)

lemma boot_config: "nr_gpr quiet_config = 32" "CONFIG_RT_CHECK quiet_config" "\<not> CONFIG_DIFFTEST quiet_config"
  "\<not> CONFIG_WATCHPOINT quiet_config" "\<not> CONFIG_ITRACE quiet_config" "\<not> CONFIG_DEVICE quiet_config"
  by (simp_all add: nr_gpr_def quiet_config_def)

lemmas boot_eval = decode_exec_unfold boot_decode decode_operand_def boot_imms Let_def BITS_def BITMASK_def exec_inst_def
  alu_def branch_def load_conv_def store_len_def set_gpr_def get_gpr_def check_reg_idx_def boot_config

lemma gpr_id: "gpr cp = g \<Longrightarrow> cp\<lparr>gpr := g\<rparr> = cp" for cp :: cpu_state
  by (cases cp) simp

lemma cpu_id: "cpu m = cp \<Longrightarrow> m\<lparr>cpu := cp\<rparr> = m" for m :: machine
  by (cases m) simp

lemma boot_gpr_zero: "boot_gpr[5 := x, 0 := 0] = boot_gpr[5 := x]" "boot_gpr[5 := x, 10 := 0, 0 := 0] = boot_gpr[5 := x]"
proof -
  show 1: "boot_gpr[5 := x, 0 := 0] = boot_gpr[5 := x]" by (simp add: list_update_same_conv)
  have "boot_gpr[5 := x, 10 := 0] = boot_gpr[5 := x]" by (simp add: list_update_same_conv)
  then show "boot_gpr[5 := x, 10 := 0, 0 := 0] = boot_gpr[5 := x]" using 1 by (simp only:)
qed

lemma boot_step0:
  assumes "mem m = boot_mem" "gpr (cpu m) = boot_gpr"
  shows "isa_exec_once quiet_config maps (\<lparr>pc = 0x80000000, snpc = 0x80000000, dnpc = 0x80000000, inst = 0\<rparr>, m)
    = Inr (\<lparr>pc = 0x80000000, snpc = 0x80000004, dnpc = 0x80000004, inst = 0x297\<rparr>,
        m\<lparr>cpu := (cpu m)\<lparr>gpr := boot_gpr[5 := 0x80000000]\<rparr>\<rparr>)"
  using step_fetched [OF boot_in_pmem(1), of m "0x297" maps] boot_fetch0 assms
  by (simp add: boot_eval boot_gpr_zero gpr_id cpu_id)

lemma boot_step1:
  assumes "mem m = boot_mem" "gpr (cpu m) = boot_gpr[5 := 0x80000000]"
  shows "isa_exec_once quiet_config maps (\<lparr>pc = 0x80000004, snpc = 0x80000004, dnpc = 0x80000004, inst = 0\<rparr>, m)
    = Inr (\<lparr>pc = 0x80000004, snpc = 0x80000008, dnpc = 0x80000008, inst = 0x28823\<rparr>,
        m\<lparr>mem := boot_mem2\<rparr>)"
  using step_fetched [OF boot_in_pmem(2), of m "0x28823" maps] boot_fetch boot_in_pmem assms
  by (simp add: boot_eval boot_gpr_zero gpr_id cpu_id vaddr_write_def paddr_write_def)

lemma boot_step2:
  assumes "mem m = boot_mem2" "gpr (cpu m) = boot_gpr[5 := 0x80000000]"
  shows "isa_exec_once quiet_config maps (\<lparr>pc = 0x80000008, snpc = 0x80000008, dnpc = 0x80000008, inst = 0\<rparr>, m)
    = Inr (\<lparr>pc = 0x80000008, snpc = 0x8000000c, dnpc = 0x8000000c, inst = 0x0102c503\<rparr>, m)"
  using step_fetched [OF boot_in_pmem(3), of m "0x0102c503" maps] boot_fetch boot_in_pmem assms
  by (simp add: boot_eval boot_gpr_zero gpr_id cpu_id vaddr_read_def paddr_read_def)

lemma boot_step3:
  assumes "mem m = boot_mem2" "gpr (cpu m) = boot_gpr[5 := 0x80000000]"
  shows "isa_exec_once quiet_config maps (\<lparr>pc = 0x8000000c, snpc = 0x8000000c, dnpc = 0x8000000c, inst = 0\<rparr>, m)
    = Inr (\<lparr>pc = 0x8000000c, snpc = 0x80000010, dnpc = 0x80000010, inst = 0x00100073\<rparr>,
       m\<lparr>nemu_state := \<lparr>state = NEMU_END, halt_pc = 0x8000000c, halt_ret = 0\<rparr>\<rparr>)"
  using step_fetched [OF boot_in_pmem(4), of m "0x00100073" maps] boot_fetch boot_in_pmem assms
  by (simp add: boot_eval boot_gpr_zero gpr_id cpu_id exec_system_def set_nemu_state_def difftest_skip_ref_def)

theorem isa_exec_once_frame_witness:
  "\<exists>de' m'. isa_exec_once quiet_config []
      (\<lparr>pc = 0x80000000, snpc = 0x80000000, dnpc = 0x80000000, inst = 0\<rparr>,
       (machine_zero quiet_config)\<lparr>mem := boot_mem\<rparr>) = Inr (de', m') \<and>
    gpr (cpu m') ! 0 = 0 \<and> mem m' = boot_mem \<and> dnpc de' = 0x80000004"
proof -
  define m where "m = (machine_zero quiet_config)\<lparr>mem := boot_mem\<rparr>"
  have m: "mem m = boot_mem" "gpr (cpu m) = boot_gpr"
    by (simp_all add: m_def machine_zero_def cpu_zero_def boot_config)
  define de' where "de' = \<lparr>pc = 0x80000000, snpc = 0x80000004, dnpc = 0x80000004, inst = 0x297\<rparr>"
  obtain m' where run: "isa_exec_once quiet_config []
      (\<lparr>pc = 0x80000000, snpc = 0x80000000, dnpc = 0x80000000, inst = 0\<rparr>, m) = Inr (de', m')"
    using boot_step0 [OF m, of "[]"] unfolding de'_def by blast
  have "length (gpr (cpu m)) = nr_gpr quiet_config" by (simp add: m boot_config)
  from isa_exec_once_frame [OF run this] show ?thesis
    using run m by (auto simp: de'_def boot_decode store_len_def m_def)
qed

text \<open>One turn of the loop when tracing, testing and watching are off.\<close>

lemma execute_body_plain:
  assumes "isa_exec_once quiet_config maps (\<lparr>pc = p, snpc = p, dnpc = p, inst = 0\<rparr>, mach s) = Inr (de, m)"
    "cpu_pc (cpu (mach s)) = p"
  shows "execute_body quiet_config maps h R s =
    Inr (s\<lparr>mach := m\<lparr>cpu := (cpu m)\<lparr>cpu_pc := dnpc de\<rparr>, g_nr_guest_inst := g_nr_guest_inst m + 1\<rparr>\<rparr>)"
  using assms by (simp add: execute_body_def exec_once_def trace_and_difftest_def boot_config Let_def)

lemma execute_plain_step:
  assumes "execute_body quiet_config maps h R s = Inr s1" "state (nemu_state (mach s1)) = NEMU_RUNNING"
  shows "execute quiet_config dc maps h R (Suc n) s = execute quiet_config dc maps h R n s1"
  using assms by (simp add: boot_config)

lemma execute_boot:
  assumes "mem (mach s) = boot_mem" "gpr (cpu (mach s)) = boot_gpr" "cpu_pc (cpu (mach s)) = 0x80000000"
    "state (nemu_state (mach s)) = NEMU_RUNNING"
  shows "\<exists>s'. execute quiet_config dc maps h R (Suc (Suc (Suc (Suc n)))) s = Inr s' \<and>
    nemu_state (mach s') = \<lparr>state = NEMU_END, halt_pc = 0x8000000c, halt_ret = 0\<rparr> \<and>
    g_nr_guest_inst (mach s') = g_nr_guest_inst (mach s) + 4 \<and> cpu_pc (cpu (mach s')) = 0x80000010"
proof -
  define s1 where "s1 = s\<lparr>mach := (mach s)\<lparr>cpu := (cpu (mach s))\<lparr>gpr := boot_gpr[5 := 0x80000000],
      cpu_pc := 0x80000004\<rparr>, g_nr_guest_inst := g_nr_guest_inst (mach s) + 1\<rparr>\<rparr>"
  have 1: "execute_body quiet_config maps h R s = Inr s1"
    using execute_body_plain [OF boot_step0] assms by (simp add: s1_def)
  define s2 where "s2 = s1\<lparr>mach := (mach s1)\<lparr>mem := boot_mem2, cpu := (cpu (mach s1))\<lparr>cpu_pc := 0x80000008\<rparr>,
      g_nr_guest_inst := g_nr_guest_inst (mach s1) + 1\<rparr>\<rparr>"
  have 2: "execute_body quiet_config maps h R s1 = Inr s2"
    using execute_body_plain [OF boot_step1, of s1] assms by (simp add: s2_def s1_def)
  define s3 where "s3 = s2\<lparr>mach := (mach s2)\<lparr>cpu := (cpu (mach s2))\<lparr>cpu_pc := 0x8000000c\<rparr>,
      g_nr_guest_inst := g_nr_guest_inst (mach s2) + 1\<rparr>\<rparr>"
  have 3: "execute_body quiet_config maps h R s2 = Inr s3"
    using execute_body_plain [OF boot_step2, of s2] assms by (simp add: s3_def s2_def s1_def)
  define s4 where "s4 = s3\<lparr>mach := (mach s3)\<lparr>nemu_state := \<lparr>state = NEMU_END, halt_pc = 0x8000000c, halt_ret = 0\<rparr>,
      cpu := (cpu (mach s3))\<lparr>cpu_pc := 0x80000010\<rparr>, g_nr_guest_inst := g_nr_guest_inst (mach s3) + 1\<rparr>\<rparr>"
  have 4: "execute_body quiet_config maps h R s3 = Inr s4"
    using execute_body_plain [OF boot_step3, of s3] assms by (simp add: s4_def s3_def s2_def s1_def)
  have run: "state (nemu_state (mach s1)) = NEMU_RUNNING" "state (nemu_state (mach s2)) = NEMU_RUNNING"
    "state (nemu_state (mach s3)) = NEMU_RUNNING"
    using assms(4) by (simp_all add: s1_def s2_def s3_def)
  have "execute quiet_config dc maps h R (Suc (Suc (Suc (Suc n)))) s
      = execute quiet_config dc maps h R (Suc n) s3"
    using execute_plain_step [OF 1 run(1)] execute_plain_step [OF 2 run(2)] execute_plain_step [OF 3 run(3)]
    by (simp only:)
  also have "\<dots> = Inr s4" using 4 by (simp add: s4_def)
  finally have ex: "execute quiet_config dc maps h R (Suc (Suc (Suc (Suc n)))) s = Inr s4" .
  show ?thesis
    by (intro exI [of _ s4] conjI ex) (simp_all add: s4_def s3_def s2_def s1_def)
qed

text \<open>
  The machine boots and the built-in image hits the good trap. Resetting the default machine
  loads the image, and running it for at least four instructions executes exactly four (auipc, a
  store and a load of the same byte, ebreak) and ends with exit code 0 at the address of the ebreak,
  which the monitor reports as a good exit.
\<close>

lemma builtin_image_good_trap:
  assumes "4 \<le> n" "init_isa quiet_config (machine_zero quiet_config) = Inr (mach s)"
  shows "\<exists>s'. cpu_exec quiet_config dc maps h R n s = Inr s' \<and>
    nemu_state (mach s') = \<lparr>state = NEMU_END, halt_pc = 0x8000000c, halt_ret = 0\<rparr> \<and>
    g_nr_guest_inst (mach s') = 4 \<and> \<not> is_exit_status_bad (nemu_state (mach s'))"
proof -
  have m: "mach s = restart quiet_config ((machine_zero quiet_config)\<lparr>mem := boot_mem\<rparr>)"
    using assms(2) boot_reset by simp
  have ms: "mem (mach s) = boot_mem" "gpr (cpu (mach s)) = boot_gpr" "cpu_pc (cpu (mach s)) = 0x80000000"
    "state (nemu_state (mach s)) = NEMU_STOP" "g_nr_guest_inst (mach s) = 0"
    by (simp_all add: m restart_def machine_zero_def cpu_zero_def boot_config RESET_VECTOR_def nemu_state_init_def
        list_update_same_conv) (simp add: quiet_config_def)
  obtain t s1 where t: "sys_get_time (set_state NEMU_RUNNING (s\<lparr>g_print_step := n < MAX_INST_TO_PRINT\<rparr>)) = (t, s1)"
    by (cases "sys_get_time (set_state NEMU_RUNNING (s\<lparr>g_print_step := n < MAX_INST_TO_PRINT\<rparr>))")
  have s1: "mem (mach s1) = boot_mem" "gpr (cpu (mach s1)) = boot_gpr" "cpu_pc (cpu (mach s1)) = 0x80000000"
    "state (nemu_state (mach s1)) = NEMU_RUNNING" "g_nr_guest_inst (mach s1) = 0"
    using t ms by (auto simp: sys_get_time_def set_state_def split: prod.splits)
  obtain k where "unat n = 4 + k" using assms(1) le_Suc_ex [of 4 "unat n"] by (auto simp: word_le_nat_alt)
  then have k: "unat n = Suc (Suc (Suc (Suc k)))" by simp
  obtain s2 where s2: "execute quiet_config dc maps h R (unat n) s1 = Inr s2"
    "nemu_state (mach s2) = \<lparr>state = NEMU_END, halt_pc = 0x8000000c, halt_ret = 0\<rparr>"
    "g_nr_guest_inst (mach s2) = 4"
    unfolding k using execute_boot [OF s1(1-4), of dc maps h R k] s1(5)
    by (auto simp del: execute.simps)
  show ?thesis
    using ms(4) s2 t by (auto simp: cpu_exec_def Let_def sys_get_time_def is_exit_status_bad_def finish_run_def split: prod.splits)
qed

section \<open>How a run ends\<close>

lemma finish_run_state: "state (nemu_state (mach (finish_run s))) \<noteq> NEMU_RUNNING"
  by (simp add: finish_run_def set_state_def)

text \<open>
  \<^verbatim>\<open>cpu_exec\<close> never leaves NEMU in the running state, and it does nothing to a program that has
  ended: a call that returns leaves the state stopped, ended, aborted or quit, and one on an ended,
  aborted or quit program changes nothing but the print flag.
\<close>

lemma cpu_exec_run_state:
  assumes "cpu_exec c dc maps h R n s = Inr s'"
  shows "state (nemu_state (mach s')) \<noteq> NEMU_RUNNING \<and>
    (state (nemu_state (mach s)) \<in> {NEMU_END, NEMU_ABORT, NEMU_QUIT} \<longrightarrow>
       s' = s\<lparr>g_print_step := n < MAX_INST_TO_PRINT\<rparr>)"
proof (cases "state (nemu_state (mach s)) \<in> {NEMU_END, NEMU_ABORT, NEMU_QUIT}")
  case True
  then show ?thesis using assms by (auto simp: cpu_exec_def)
next
  case False
  then have "state (nemu_state (mach s')) \<noteq> NEMU_RUNNING"
    using assms by (auto simp: cpu_exec_def Let_def case_prod_beta finish_run_state)
  then show ?thesis using False by auto
qed

section \<open>The ring buffer keeps the last sixteen lines\<close>

definition iring_inv :: "'r sys \<Rightarrow> bool" where
  "iring_inv s \<longleftrightarrow> length (iringbuf s) = IRINGBUF_SIZE \<and> iringbuf_index s < IRINGBUF_SIZE"

primrec write_lines :: "string list \<Rightarrow> 'r sys \<Rightarrow> 'r sys" where
  "write_lines [] s = s"
| "write_lines (l # ls) s = write_lines ls (write_iringbuf l s)"

text \<open>The slots from the oldest to the newest.\<close>

definition iring_view :: "'r sys \<Rightarrow> string list" where
  "iring_view s = map (\<lambda>i. iringbuf s ! ((iringbuf_index s + i) mod IRINGBUF_SIZE)) [0..<IRINGBUF_SIZE]"

lemma iring_write_inv: "iring_inv s \<Longrightarrow> iring_inv (write_iringbuf l s)"
  by (simp add: iring_inv_def write_iringbuf_def IRINGBUF_SIZE_def)

lemma iring_view_write:
  assumes "iring_inv s"
  shows "iring_view (write_iringbuf l s) = tl (iring_view s) @ [l]"
proof (rule nth_equalityI)
  let ?N = IRINGBUF_SIZE and ?k = "iringbuf_index s"
  show "length (iring_view (write_iringbuf l s)) = length (tl (iring_view s) @ [l])"
    by (simp add: iring_view_def IRINGBUF_SIZE_def)
  fix i assume "i < length (iring_view (write_iringbuf l s))"
  then have i: "i < ?N" by (simp add: iring_view_def)
  have k: "?k < ?N" "length (iringbuf s) = ?N" using assms by (auto simp: iring_inv_def)
  have eq: "((?k + 1) mod ?N + i) mod ?N = (?k + Suc i) mod ?N" by (rule ring_shift)
  have lhs: "iring_view (write_iringbuf l s) ! i = (iringbuf s)[?k := l] ! ((?k + Suc i) mod ?N)"
    using i eq by (simp add: iring_view_def write_iringbuf_def)
  show "iring_view (write_iringbuf l s) ! i = (tl (iring_view s) @ [l]) ! i"
  proof (cases "i = ?N - 1")
    case True
    then have "(?k + Suc i) mod ?N = ?k" using k by (simp add: IRINGBUF_SIZE_def)
    then show ?thesis using lhs k True by (simp add: nth_append iring_view_def)
  next
    case False
    then have "(?k + Suc i) mod ?N \<noteq> ?k" using k i by (auto simp: mod_below_twice)
    moreover have "Suc i < ?N" "i < ?N - 1" using False i by auto
    ultimately show ?thesis using lhs k by (simp add: nth_append nth_tl iring_view_def)
  qed
qed

lemma iring_view_lines:
  "iring_inv s \<Longrightarrow> iring_view (write_lines ls s) = drop (length ls) (iring_view s @ ls)"
proof (induction ls arbitrary: s)
  case (Cons l ls)
  have "iring_view s \<noteq> []" by (simp add: iring_view_def IRINGBUF_SIZE_def)
  then have "drop (length ls) (tl (iring_view s) @ l # ls) = drop (Suc (length ls)) (iring_view s @ l # ls)"
    by (cases "iring_view s") simp_all
  moreover have "iring_view (write_lines ls (write_iringbuf l s)) = drop (length ls) ((tl (iring_view s) @ [l]) @ ls)"
    unfolding iring_view_write [OF Cons.prems, symmetric] by (rule Cons.IH [OF iring_write_inv [OF Cons.prems]])
  ultimately show ?case by (simp del: drop_append)
qed simp

lemma print_iringbuf_view:
  assumes "iringbuf_index s < IRINGBUF_SIZE"
  shows "print_iringbuf s = map (\<lambda>i. (i = IRINGBUF_SIZE - 1, iring_view s ! i))
    (filter (\<lambda>i. iring_view s ! i \<noteq> []) [0..<IRINGBUF_SIZE])"
proof -
  let ?N = IRINGBUF_SIZE and ?f = "\<lambda>i. (iringbuf_index s + i) mod IRINGBUF_SIZE"
  have mark: "(?f i + 1) mod ?N = iringbuf_index s \<longleftrightarrow> i = ?N - 1" if "i < ?N" for i
    using assms that by (auto simp: mod_below_twice split: if_splits)
  have nth: "iringbuf s ! ?f i = iring_view s ! i" if "i < ?N" for i
    using that by (simp add: iring_view_def)
  have flt: "filter (\<lambda>k. iringbuf s ! k \<noteq> []) (map ?f [0..<?N]) = map ?f (filter (\<lambda>i. iring_view s ! i \<noteq> []) [0..<?N])"
    unfolding filter_map comp_def by (rule arg_cong [where f = "map ?f"], rule filter_cong) (simp_all add: nth)
  show ?thesis
    unfolding print_iringbuf_def Let_def flt map_map comp_def
    by (rule map_cong) (use mark nth in auto)
qed

lemma filter_blank_prefix:
  assumes "[] \<notin> set w"
  shows "filter (\<lambda>i. (replicate a [] @ w) ! i \<noteq> []) [0..<a + length w] = [a..<a + length w]"
proof -
  have "filter (\<lambda>i. (replicate a [] @ w) ! i \<noteq> []) [0..<a] = []" by (simp add: nth_append)
  moreover have "filter (\<lambda>i. (replicate a [] @ w) ! i \<noteq> []) [a..<a + length w] = [a..<a + length w]"
    using assms by (auto simp: nth_append in_set_conv_nth intro!: filter_True)
  ultimately show ?thesis using upt_add_eq_append [of 0 a "length w"] by simp
qed

text \<open>
  the instruction ring buffer shows the last sixteen instructions. After any number of trace
  lines written to an empty buffer, printing it shows the last sixteen of them (all, if there are
  fewer) in the order they were executed, and marks the most recent one and no other.
\<close>

lemma iringbuf_shows_last_lines:
  assumes "iringbuf s = replicate 16 []" "iringbuf_index s < 16" "[] \<notin> set ls"
  shows "map snd (print_iringbuf (write_lines ls s)) = drop (length ls - 16) ls \<and>
    (ls \<noteq> [] \<longrightarrow> map fst (print_iringbuf (write_lines ls s)) =
       replicate (min 16 (length ls) - 1) False @ [True])"
proof -
  define w where "w = drop (length ls - 16) ls"
  define a where "a = 16 - length ls"
  have N: "IRINGBUF_SIZE = a + length w" by (auto simp: IRINGBUF_SIZE_def a_def w_def)
  have inv: "iring_inv s" using assms by (simp add: iring_inv_def IRINGBUF_SIZE_def)
  have "iring_view s = replicate 16 []"
    using assms(1,2) by (auto simp: iring_view_def IRINGBUF_SIZE_def intro!: replicate_eqI)
  then have view: "iring_view (write_lines ls s) = replicate a [] @ w"
    using iring_view_lines [OF inv, of ls] by (simp add: a_def w_def)
  have idx: "iringbuf_index (write_lines ls s) < IRINGBUF_SIZE"
    using inv by (induction ls arbitrary: s) (auto simp: iring_inv_def write_iringbuf_def IRINGBUF_SIZE_def)
  have nb: "[] \<notin> set w" using assms(3) by (auto simp: w_def dest: in_set_dropD)
  have pr: "print_iringbuf (write_lines ls s)
      = map (\<lambda>i. (i = IRINGBUF_SIZE - 1, (replicate a [] @ w) ! i)) [a..<a + length w]"
    unfolding print_iringbuf_view [OF idx] view using filter_blank_prefix [OF nb, of a] N by simp
  have "map (\<lambda>i. (replicate a [] @ w) ! i) [a..<a + length w] = w"
    by (rule nth_equalityI) (simp_all add: nth_append)
  then have snds: "map snd (print_iringbuf (write_lines ls s)) = w" by (simp add: pr comp_def)
  have "map fst (print_iringbuf (write_lines ls s)) = replicate (min 16 (length ls) - 1) False @ [True]" if "ls \<noteq> []"
  proof -
    have lw: "length w = min 16 (length ls)" "0 < length w" using that by (auto simp: w_def min_def)
    have "a \<le> IRINGBUF_SIZE - 1" "a + length w = Suc (IRINGBUF_SIZE - 1)" using lw(2) N by arith+
    then have "[a..<a + length w] = [a..<IRINGBUF_SIZE - 1] @ [IRINGBUF_SIZE - 1]"
      using upt_Suc_append [of a "IRINGBUF_SIZE - 1"] by (simp only:)
    moreover have "map (\<lambda>i. i = IRINGBUF_SIZE - 1) [a..<IRINGBUF_SIZE - 1] = replicate (length w - 1) False"
      using N by (auto intro!: replicate_eqI)
    ultimately show ?thesis by (simp add: pr comp_def lw(1))
  qed
  then show ?thesis using snds by (simp add: w_def)
qed

section \<open>Differential testing finds every difference\<close>

lemma regs_agree_iff: "regs_agree n a b \<longleftrightarrow> (\<forall>i < n. gpr a ! i = gpr b ! i)"
  by (induction n) (auto simp: less_Suc_eq)

text \<open>
  C11: an instruction that is not skipped is checked against the reference. The reference executes
  one instruction; NEMU is aborted with the address of the instruction exactly when the program
  counter or one of the registers differs, and otherwise nothing but the reference changes. A skipped instruction
  instead copies the registers to the reference and clears the skip flag.
\<close>

theorem difftest_step_checks:
  assumes "skip_dut_nr_inst (dt (mach s)) \<le> 0"
  shows "if is_skip_ref (dt (mach s))
    then difftest_step c R p npc s =
      Inr (s\<lparr>ref_state := ref_difftest_regcpy_to_ref R (cpu (mach s)) (ref_state s),
             mach := (mach s)\<lparr>dt := (dt (mach s))\<lparr>is_skip_ref := False\<rparr>\<rparr>\<rparr>)
    else \<exists>s'. difftest_step c R p npc s = Inr s' \<and> ref_state s' = ref_difftest_exec R 1 (ref_state s) \<and>
      (let r = ref_difftest_regcpy_to_dut R (ref_state s') in
       if cpu_pc r = cpu_pc (cpu (mach s)) \<and> (\<forall>i < nr_gpr c. gpr r ! i = gpr (cpu (mach s)) ! i)
       then mach s' = mach s
       else mach s' = (mach s)\<lparr>nemu_state := (nemu_state (mach s))\<lparr>state := NEMU_ABORT, halt_pc := p\<rparr>\<rparr>)"
  using assms
  by (auto simp: difftest_step_def Let_def checkregs_def isa_difftest_checkregs_def regs_agree_iff)

theorem difftest_step_checks_witness:
  "\<exists>s'. difftest_step quiet_config
     \<lparr>ref_difftest_regcpy_to_dut = id, ref_difftest_regcpy_to_ref = (\<lambda>c r. c),
      ref_difftest_memcpy_to_ref = (\<lambda>_ _ r. r), ref_difftest_exec = (\<lambda>_ r. r\<lparr>cpu_pc := 4\<rparr>), ref_difftest_init = (\<lambda>_ r. r)\<rparr> 0 0
     \<lparr>mach = machine_zero quiet_config, wps = init_wp_pool, iringbuf = [], iringbuf_index = 0, g_timer = 0,
      g_print_step = False, ref_state = cpu_zero quiet_config\<rparr> = Inr s' \<and>
   state (nemu_state (mach s')) = NEMU_ABORT"
proof -
  define R :: "cpu_state ref_ops" where "R = \<lparr>ref_difftest_regcpy_to_dut = id,
    ref_difftest_regcpy_to_ref = (\<lambda>c r. c), ref_difftest_memcpy_to_ref = (\<lambda>_ _ r. r),
    ref_difftest_exec = (\<lambda>_ r. r\<lparr>cpu_pc := 4\<rparr>), ref_difftest_init = (\<lambda>_ r. r)\<rparr>"
  define s where "s = \<lparr>mach = machine_zero quiet_config, wps = init_wp_pool, iringbuf = [],
    iringbuf_index = 0, g_timer = 0, g_print_step = False, ref_state = cpu_zero quiet_config\<rparr>"
  have "skip_dut_nr_inst (dt (mach s)) \<le> 0" by (simp add: s_def machine_zero_def)
  then have "\<exists>s'. difftest_step quiet_config R 0 0 s = Inr s' \<and> state (nemu_state (mach s')) = NEMU_ABORT"
    using difftest_step_checks [of s quiet_config R 0 0]
    by (auto simp: s_def R_def machine_zero_def cpu_zero_def Let_def)
  then show ?thesis by (simp add: R_def s_def)
qed

section \<open>The reference interface\<close>

text \<open>
  What the differential tester relies on: copying the registers to the reference and back gives
  the same registers. Then a skipped instruction leaves the two in agreement.
\<close>

locale difftest_reference =
  fixes to_dut :: "'r \<Rightarrow> cpu_state"
    and to_ref :: "cpu_state \<Rightarrow> 'r \<Rightarrow> 'r"
  assumes regcpy_back: "to_dut (to_ref cp r) = cp"
begin

lemma skip_resync:
  assumes "ref_difftest_regcpy_to_ref R = to_ref" "skip_dut_nr_inst (dt (mach s)) \<le> 0"
    "is_skip_ref (dt (mach s))" "difftest_step c R p npc s = Inr s'"
  shows "to_dut (ref_state s') = cpu (mach s')" "isa_difftest_checkregs c (cpu (mach s')) (to_dut (ref_state s'))"
  using assms regcpy_back
  by (auto simp: difftest_step_def Let_def isa_difftest_checkregs_def regs_agree_iff)

end

interpretation nemu_ref: difftest_reference difftest_regcpy_to_dut difftest_regcpy_to_ref
  by unfold_locales (simp add: difftest_regcpy_to_dut_def difftest_regcpy_to_ref_def)

lemma guest_to_host_inj:
  assumes "guest_to_host c a = Inr h" "guest_to_host c b = Inr h"
  shows "a = b"
proof -
  have inv: "host_to_guest c h = Inr x" if g: "guest_to_host c x = Inr h" for x
  proof -
    obtain ar where ar: "area_of c x = Some ar" and h: "h = (ar, unat (x - area_base c ar))"
      using g by (auto simp: guest_to_host_area split: option.splits)
    have "unat (x - area_base c ar) < unat (area_size c ar)"
      using area_of_bound [OF ar] by (simp add: word_less_nat_alt)
    then show ?thesis by (simp add: h host_to_guest_def)
  qed
  show ?thesis using inv [OF assms(1)] inv [OF assms(2)] by simp
qed

lemma memcpy_to_ref_frame:
  "difftest_memcpy_to_ref c addr bs mm = Inr mm' \<Longrightarrow> guest_to_host c a = Inr (ar, off) \<Longrightarrow>
   (\<And>i. i < length bs \<Longrightarrow> a \<noteq> addr + of_nat i) \<Longrightarrow> area_bytes ar mm' off = area_bytes ar mm off"
proof (induction bs arbitrary: addr mm)
  case (Cons b bs)
  obtain ar0 off0 where h: "guest_to_host c addr = Inr (ar0, off0)"
    and r: "difftest_memcpy_to_ref c (addr + 1) bs (area_set ar0 ((area_bytes ar0 mm)(off0 := b)) mm) = Inr mm'"
    using Cons.prems(1) by auto
  have ne: "a \<noteq> addr" using Cons.prems(3) [of 0] by simp
  then have diff: "(ar, off) \<noteq> (ar0, off0)" using guest_to_host_inj Cons.prems(2) h by metis
  have "area_bytes ar mm' off = area_bytes ar (area_set ar0 ((area_bytes ar0 mm)(off0 := b)) mm) off"
    by (rule Cons.IH [OF r Cons.prems(2)]) (use Cons.prems(3) [of "Suc _"] in \<open>simp add: add.assoc\<close>)
  then show ?case using diff by auto
qed simp

text \<open>
  what the tester copies into a reference NEMU can be read back. A block of bytes copied to guest
  memory through \<^verbatim>\<open>difftest_memcpy\<close> is exactly what copying the same range out returns, wherever the
  range lies and even if it spans memories.
\<close>

lemma difftest_memcpy_roundtrip:
  assumes "difftest_memcpy_to_ref c addr bs mm = Inr mm'" "length bs \<le> 2 ^ 32"
  shows "difftest_memcpy_to_dut c addr (length bs) mm' = Inr bs"
  using assms
proof (induction bs arbitrary: addr mm)
  case (Cons b bs)
  obtain ar off where h: "guest_to_host c addr = Inr (ar, off)"
    and r: "difftest_memcpy_to_ref c (addr + 1) bs (area_set ar ((area_bytes ar mm)(off := b)) mm) = Inr mm'"
    using Cons.prems(1) by auto
  have far: "addr \<noteq> addr + 1 + of_nat i" if "i < length bs" for i
  proof
    assume "addr = addr + 1 + of_nat i"
    then have z: "of_nat (Suc i) = (0 :: u32)" by (simp add: add.assoc)
    have "2 ^ 32 dvd Suc i" using z unfolding word_of_nat_eq_0_iff by simp
    then show False using that Cons.prems(2) by (auto dest: dvd_imp_le)
  qed
  have "area_bytes ar mm' off = b"
    using memcpy_to_ref_frame [OF r h far] by simp
  moreover have "difftest_memcpy_to_dut c (addr + 1) (length bs) mm' = Inr bs"
    using Cons.IH [OF r] Cons.prems(2) by simp
  ultimately show ?case using h by simp
qed simp

end
