(* ===== verification/Sdb_Commands.thy ===== *)
theory Sdb_Commands
  imports Cpu_Exec
begin

text \<open>
  The debugger's command loop, \<^verbatim>\<open>nemu/src/monitor/sdb/sdb.c\<close>, and the start of the engine
  (\<^verbatim>\<open>engine/interpreter/init.c\<close>). The lines \<^verbatim>\<open>readline\<close> returns are an argument; what a command prints is
  part of its result. Numbers are scanned as \<^verbatim>\<open>sscanf\<close> does (blanks, a sign, digits).
\<close>

section \<open>Output and scanning\<close>

datatype sdb_out =
    Out_msg string
  | Out_regs "(string \<times> u32) list"
  | Out_wps "(nat \<times> string \<times> u32) list"
  | Out_mem "(vaddr_t \<times> u32) list"
  | Out_val u32
  | Out_help "(string \<times> string) list"

definition skip_blanks :: "string \<Rightarrow> string" where
  "skip_blanks s = dropWhile (\<lambda>ch. ch = CHR '' '' \<or> ch = CHR 0x09 \<or> ch = CHR 0x0A) s"

definition scan_sign :: "string \<Rightarrow> bool \<times> string" where
  "scan_sign s = (case s of [] \<Rightarrow> (False, s)
     | ch # r \<Rightarrow> if ch = CHR ''-'' then (True, r) else if ch = CHR ''+'' then (False, r) else (False, s))"

text \<open>\<^verbatim>\<open>%d\<close>: the scanned \<^verbatim>\<open>int\<close> and the rest of the input.\<close>

definition scan_d :: "string \<Rightarrow> (u32 \<times> string) option" where
  "scan_d s =
    (case scan_sign (skip_blanks s) of (neg, r) \<Rightarrow>
      let ds = takeWhile is_digit r in
      if ds = [] then None
      else Some (if neg then - c_atoi ds else c_atoi ds, drop (length ds) r))"

text \<open>\<^verbatim>\<open>%x\<close>: an optional sign and \<^verbatim>\<open>0x\<close> prefix before the hexadecimal digits.\<close>

definition scan_x :: "string \<Rightarrow> (u32 \<times> string) option" where
  "scan_x s =
    (case scan_sign (skip_blanks s) of (neg, r0) \<Rightarrow>
      let r = (if length r0 \<ge> 3 \<and> hd r0 = CHR ''0'' \<and> (r0 ! 1 = CHR ''x'' \<or> r0 ! 1 = CHR ''X'') \<and> is_hex (r0 ! 2)
               then drop 2 r0 else r0);
          ds = takeWhile is_hex r;
          v = (of_nat (min (digits_val 16 0 ds) (2 ^ 64 - 1)) :: u32) in
      if ds = [] then None else Some (if neg then - v else v, drop (length ds) r))"

section \<open>Commands\<close>

record run_env =
  env_config :: nemu_config
  env_dev :: dev_config
  env_maps :: "IOMap list"
  env_host :: host

type_synonym 'r cmd_res = "(int \<times> sdb_out list \<times> 'r sys) res"

definition cmd_c :: "run_env \<Rightarrow> 'r ref_ops \<Rightarrow> 'r sys \<Rightarrow> 'r cmd_res" where
  "cmd_c E R s =
    ebind (cpu_exec (env_config E) (env_dev E) (env_maps E) (env_host E) R (- 1) s) (\<lambda>s'. Inr (0, [], s'))"

definition cmd_q :: "'r sys \<Rightarrow> 'r cmd_res" where
  "cmd_q s = Inr (- 1, [], set_state NEMU_QUIT s)"

text \<open>The \<^verbatim>\<open>int\<close> count is converted to the \<^verbatim>\<open>uint64_t\<close> parameter of \<^verbatim>\<open>cpu_exec\<close> with its sign.\<close>

definition cmd_si :: "run_env \<Rightarrow> 'r ref_ops \<Rightarrow> string option \<Rightarrow> 'r sys \<Rightarrow> 'r cmd_res" where
  "cmd_si E R args s =
    (case (case args of None \<Rightarrow> Some 1 | Some a \<Rightarrow> map_option fst (scan_d a)) of
       None \<Rightarrow> Inr (0, [Out_msg ''Invalid argument. Usage: si [N]''], s)
     | Some steps \<Rightarrow>
         ebind (cpu_exec (env_config E) (env_dev E) (env_maps E) (env_host E) R (scast steps) s) (\<lambda>s'. Inr (0, [], s')))"

definition cmd_info :: "string option \<Rightarrow> 'r sys \<Rightarrow> 'r cmd_res" where
  "cmd_info args s =
    (case args of
       None \<Rightarrow> Inr (0, [Out_msg ''Usage: info [r|w]''], s)
     | Some a \<Rightarrow>
         if a = ''r'' then Inr (0, [Out_regs (isa_reg_display (cpu (mach s)))], s)
         else if a = ''w'' then
           Inr (0, if wp_head (wps s) = None then [Out_msg ''No watchpoints set.'']
                   else [Out_msg ''Watchpoints:'', Out_wps (list_watchpoints (wps s))], s)
         else Inr (0, [Out_msg ''Unknown subcommand''], s))"

definition cmd_w :: "run_env \<Rightarrow> string option \<Rightarrow> 'r sys \<Rightarrow> 'r cmd_res" where
  "cmd_w E args s =
    (case args of
       None \<Rightarrow> Inr (0, [Out_msg ''Usage: w EXPR''], s)
     | Some a \<Rightarrow>
         ebind (add_watchpoint (env_config E) (env_maps E) a (wps s) (mach s)) (\<lambda>(ok, w, m).
           Inr (0, [Out_msg (if ok then ''Watchpoint added successfully.'' else ''Failed to add watchpoint.'')],
                s\<lparr>wps := w, mach := m\<rparr>)))"

definition cmd_d :: "string option \<Rightarrow> 'r sys \<Rightarrow> 'r cmd_res" where
  "cmd_d args s =
    (case args of
       None \<Rightarrow> Inr (0, [Out_msg ''Usage: d NO''], s)
     | Some a \<Rightarrow>
         (case scan_d a of
            None \<Rightarrow> Inr (0, [Out_msg ''Invalid argument. Usage: d NO''], s)
          | Some (no, _) \<Rightarrow>
              ebind (delete_watchpoint (sint no) (wps s)) (\<lambda>(found, w).
                Inr (0, [Out_msg (if found then ''Watchpoint deleted.'' else ''Watchpoint not found.'')], s\<lparr>wps := w\<rparr>))))"

text \<open>The loop of \<^verbatim>\<open>cmd_x\<close> over \<^verbatim>\<open>i < n\<close>; the address wraps in 32 bits.\<close>

primrec examine :: "run_env \<Rightarrow> nat \<Rightarrow> vaddr_t \<Rightarrow> machine \<Rightarrow> ((vaddr_t \<times> u32) list \<times> machine) res" where
  "examine E 0 addr m = Inr ([], m)"
| "examine E (Suc n) addr m =
    ebind (vaddr_read (env_config E) (env_maps E) addr 4 m) (\<lambda>(v, m1).
    ebind (examine E n (addr + 4) m1) (\<lambda>(rest, m2). Inr ((addr, v) # rest, m2)))"

definition cmd_x :: "run_env \<Rightarrow> string option \<Rightarrow> 'r sys \<Rightarrow> 'r cmd_res" where
  "cmd_x E args s =
    (case (case args of None \<Rightarrow> None
           | Some a \<Rightarrow> (case scan_d a of None \<Rightarrow> None
               | Some (n, rest) \<Rightarrow> map_option (\<lambda>(addr, _). (n, addr)) (scan_x rest))) of
       None \<Rightarrow> Inr (0, [Out_msg ''Invalid arguments. Usage: x N EXPR''], s)
     | Some (n, addr) \<Rightarrow>
         ebind (examine E (nat (sint n)) addr (mach s)) (\<lambda>(ws, m). Inr (0, [Out_mem ws], s\<lparr>mach := m\<rparr>)))"

definition cmd_p :: "run_env \<Rightarrow> string option \<Rightarrow> 'r sys \<Rightarrow> 'r cmd_res" where
  "cmd_p E args s =
    (case args of
       None \<Rightarrow> Inr (0, [Out_msg ''Usage: p EXPR''], s)
     | Some a \<Rightarrow>
         ebind (expr (env_config E) (env_maps E) a (mach s)) (\<lambda>(v, success, m).
           Inr (0, [if success then Out_val v else Out_msg ''Failed to evaluate expression.''], s\<lparr>mach := m\<rparr>)))"

definition cmd_table :: "(string \<times> string) list" where
  "cmd_table =
    [(''help'', ''Display information about all supported commands''),
     (''c'', ''Continue the execution of the program''),
     (''q'', ''Exit NEMU''),
     (''si'', ''Step one instruction exactly (or N instructions). Usage: si [N]''),
     (''info'', ''Generic command for showing things about the program being debugged. Usage: info [r|w]''),
     (''x'', ''Examine memory. Usage: x N EXPR''),
     (''p'', ''Print the value of an expression. Usage: p EXPR''),
     (''w'', ''Add a watchpoint. Usage: w EXPR''),
     (''d'', ''Delete a watchpoint. Usage: d NO'')]"

text \<open>The next word, as \<^verbatim>\<open>strtok\<close> with a blank as delimiter gives it.\<close>

definition next_word :: "string \<Rightarrow> string option" where
  "next_word s = (case takeWhile (\<lambda>ch. ch \<noteq> CHR '' '') (dropWhile (\<lambda>ch. ch = CHR '' '') s) of
     [] \<Rightarrow> None | w \<Rightarrow> Some w)"

definition cmd_help :: "string option \<Rightarrow> 'r sys \<Rightarrow> 'r cmd_res" where
  "cmd_help args s =
    (case (case args of None \<Rightarrow> None | Some a \<Rightarrow> next_word a) of
       None \<Rightarrow> Inr (0, [Out_help cmd_table], s)
     | Some arg \<Rightarrow>
         (case find (\<lambda>(nm, _). nm = arg) cmd_table of
            Some e \<Rightarrow> Inr (0, [Out_help [e]], s)
          | None \<Rightarrow> Inr (0, [Out_msg ''Unknown command''], s)))"

definition run_command :: "run_env \<Rightarrow> 'r ref_ops \<Rightarrow> string \<Rightarrow> string option \<Rightarrow> 'r sys \<Rightarrow> 'r cmd_res" where
  "run_command E R cmd args s =
    (if cmd = ''help'' then cmd_help args s
     else if cmd = ''c'' then cmd_c E R s
     else if cmd = ''q'' then cmd_q s
     else if cmd = ''si'' then cmd_si E R args s
     else if cmd = ''info'' then cmd_info args s
     else if cmd = ''x'' then cmd_x E args s
     else if cmd = ''p'' then cmd_p E args s
     else if cmd = ''w'' then cmd_w E args s
     else if cmd = ''d'' then cmd_d args s
     else Inr (0, [Out_msg ''Unknown command''], s))"

text \<open>The command word of a line and its arguments (\<open>None\<close> for the C code's \<^verbatim>\<open>NULL\<close>).\<close>

definition split_line :: "string \<Rightarrow> (string \<times> string option) option" where
  "split_line str =
    (let r = dropWhile (\<lambda>ch. ch = CHR '' '') str; cmd = takeWhile (\<lambda>ch. ch \<noteq> CHR '' '') r;
         args = drop (length cmd + 1) r in
     if cmd = [] then None else Some (cmd, if args = [] then None else Some args))"

primrec sdb_mainloop :: "run_env \<Rightarrow> 'r ref_ops \<Rightarrow> string list \<Rightarrow> 'r sys \<Rightarrow> (sdb_out list \<times> 'r sys) res" where
  "sdb_mainloop E R [] s = Inr ([], s)"
| "sdb_mainloop E R (str # lines) s =
    (case split_line str of
       None \<Rightarrow> sdb_mainloop E R lines s
     | Some (cmd, args) \<Rightarrow>
         ebind (run_command E R cmd args s) (\<lambda>(ret, out, s1).
           if ret < 0 then Inr (out, s1)
           else ebind (sdb_mainloop E R lines s1) (\<lambda>(out', s2). Inr (out @ out', s2))))"

text \<open>\<^verbatim>\<open>engine_start\<close> with the batch flag of \<^verbatim>\<open>sdb_set_batch_mode\<close>.\<close>

definition engine_start :: "run_env \<Rightarrow> 'r ref_ops \<Rightarrow> bool \<Rightarrow> string list \<Rightarrow> 'r sys \<Rightarrow> (sdb_out list \<times> 'r sys) res" where
  "engine_start E R is_batch_mode lines s =
    (if is_batch_mode then ebind (cmd_c E R s) (\<lambda>(_, out, s'). Inr (out, s')) else sdb_mainloop E R lines s)"

definition init_sdb :: "'r sys \<Rightarrow> 'r sys" where
  "init_sdb s = s\<lparr>wps := init_wp_pool\<rparr>"

section \<open>The command loop\<close>

text \<open>Every command other than \<^verbatim>\<open>q\<close> returns 0, so only \<^verbatim>\<open>q\<close> leaves the loop.\<close>

lemma run_command_ret:
  "run_command E R cmd args s = Inr (ret, out, s') \<Longrightarrow> ret < 0 \<longleftrightarrow> cmd = ''q''"
  by (auto simp: run_command_def cmd_help_def cmd_c_def cmd_q_def cmd_si_def cmd_info_def cmd_x_def
      cmd_p_def cmd_w_def cmd_d_def split: if_splits option.splits prod.splits)

lemma split_word:
  assumes "w \<noteq> []" "CHR '' '' \<notin> set w"
  shows "split_line w = Some (w, None)"
proof -
  have t: "takeWhile (\<lambda>ch. ch \<noteq> CHR '' '') w = w" using assms(2) by (induction w) auto
  have d: "dropWhile (\<lambda>ch. ch = CHR '' '') w = w"
    using assms by (cases w) auto
  show ?thesis unfolding split_line_def Let_def d t using assms(1) by simp
qed

lemma split_word_args:
  assumes "w \<noteq> []" "CHR '' '' \<notin> set w" "a \<noteq> []"
  shows "split_line (w @ CHR '' '' # a) = Some (w, Some a)"
proof -
  have "takeWhile (\<lambda>ch. ch \<noteq> CHR '' '') (w @ CHR '' '' # a) = w"
    using assms(2) by (induction w) auto
  moreover have "dropWhile (\<lambda>ch. ch = CHR '' '') (w @ CHR '' '' # a) = w @ CHR '' '' # a"
    using assms(1,2) by (cases w) auto
  ultimately show ?thesis using assms(1,3) by (simp add: split_line_def Let_def)
qed

text \<open>
  leaving the debugger is a clean exit. Whatever commands were run before, the command \<^verbatim>\<open>q\<close> ends
  the loop at once, later lines are not read, and the exit status of NEMU is good even if the guest
  program had ended badly.
\<close>

lemma sdb_quit_clean:
  assumes "sdb_mainloop E R pre s = Inr (out, s1)" "\<forall>l \<in> set pre. map_option fst (split_line l) \<noteq> Some ''q''"
  shows "\<exists>s'. sdb_mainloop E R (pre @ ''q'' # post) s = Inr (out, s') \<and>
    state (nemu_state (mach s')) = NEMU_QUIT \<and> \<not> is_exit_status_bad (nemu_state (mach s')) \<and>
    cpu (mach s') = cpu (mach s1) \<and> mem (mach s') = mem (mach s1)"
  using assms
proof (induction pre arbitrary: s out)
  case Nil
  have "split_line ''q'' = Some (''q'', None)" by (rule split_word) simp_all
  then show ?case
    using Nil by (simp add: run_command_def cmd_q_def set_state_def is_exit_status_bad_def)
next
  case (Cons l pre)
  show ?case
  proof (cases "split_line l")
    case None
    then show ?thesis using Cons by simp
  next
    case (Some ca)
    obtain cmd args where ca: "ca = (cmd, args)" by (cases ca)
    obtain ret o1 s2 where run: "run_command E R cmd args s = Inr (ret, o1, s2)"
      using Cons.prems(1) Some ca by auto
    have "cmd \<noteq> ''q''" using Cons.prems(2) Some ca by auto
    then have ret: "\<not> ret < 0" using run_command_ret [OF run] by simp
    obtain o2 where "sdb_mainloop E R pre s2 = Inr (o2, s1)" "out = o1 @ o2"
      using Cons.prems(1) Some ca run ret by auto
    then show ?thesis using Cons.IH [of s2 o2] Cons.prems(2) Some ca run ret by auto
  qed
qed

end
