(* ===== verification/Npc_Cachesim.thy ===== *)
theory Npc_Cachesim
  imports Nemu_Prelude
begin

text \<open>
  \<^verbatim>\<open>npc/tools/cachesim/cachesim.cpp\<close>: the trace-driven simulator of the instruction cache. Its options,
  the argument parser, the trace lines, the cache as a vector of sets of lines and the loop over the
  trace are modelled as written. Floating-point values and operations are those of the host and are
  a parameter (\<open>fp_ops\<close>), as is the distribution the random replacement policy draws from. The two
  deterministic policies are shown to refine a queue of tags per set.
\<close>

section \<open>Options and lines\<close>

record 'f Options =
  sets :: u32
  ways :: u32
  bus_bytes :: u32
  line_transactions :: u32
  line_size :: u32
  access_time :: 'f
  miss_penalty :: 'f
  bus_penalty :: 'f
  line_size_set :: bool
  miss_penalty_set :: bool
  cache_region :: string
  repl :: string
  trace_path :: string

text \<open>The double operations the code uses: the initial values, \<^verbatim>\<open>strtod\<close>, the test for a negative value and the product.\<close>

record 'f fp_ops =
  fp_zero :: 'f
  fp_one :: 'f
  fp_strtod :: "string \<Rightarrow> 'f \<times> nat"
  fp_neg :: "'f \<Rightarrow> bool"
  fp_scale :: "u32 \<Rightarrow> 'f \<Rightarrow> 'f"

definition default_options :: "'f fp_ops \<Rightarrow> 'f Options" where
  "default_options F =
    \<lparr>sets = 16, ways = 1, bus_bytes = 4, line_transactions = 4, line_size = 0, access_time = fp_one F,
     miss_penalty = fp_zero F, bus_penalty = fp_zero F, line_size_set = False, miss_penalty_set = False,
     cache_region = ''sdram'', repl = ''fifo'', trace_path = []\<rparr>"

record Line =
  valid :: bool
  tag :: u32
  age :: u64

record Stats =
  accesses :: u64
  cacheable_count :: u64
  uncacheable :: u64
  hits :: u64
  misses :: u64

definition is_pow2 :: "u32 \<Rightarrow> bool" where
  "is_pow2 x \<longleftrightarrow> x \<noteq> 0 \<and> x AND (x - 1) = 0"

definition cacheable :: "u32 \<Rightarrow> 'f Options \<Rightarrow> bool" where
  "cacheable addr opt =
    (if cache_region opt = ''all'' then drop_bit 28 addr = 3 \<or> drop_bit 29 addr = 4 \<or> drop_bit 29 addr = 5
     else if cache_region opt = ''flash'' then drop_bit 28 addr = 3
     else if cache_region opt = ''psram'' then drop_bit 29 addr = 4
     else drop_bit 29 addr = 5)"

section \<open>Numbers and trace lines\<close>

definition is_space :: "char \<Rightarrow> bool" where
  "is_space ch \<longleftrightarrow> (of_char ch :: nat) = 32 \<or> 9 \<le> (of_char ch :: nat) \<and> (of_char ch :: nat) \<le> 13"

text \<open>The value of a digit character, 99 for a character that is no digit in any base.\<close>

definition digit_of :: "char \<Rightarrow> nat" where
  "digit_of ch =
    (let k = (of_char ch :: nat) in
     if 48 \<le> k \<and> k \<le> 57 then k - 48 else if 97 \<le> k \<and> k \<le> 122 then k - 87
     else if 65 \<le> k \<and> k \<le> 90 then k - 55 else 99)"

fun digits_from :: "nat \<Rightarrow> nat \<Rightarrow> string \<Rightarrow> nat" where
  "digits_from b x [] = x"
| "digits_from b x (ch # cs) = digits_from b (x * b + digit_of ch) cs"

text \<open>
  \<^verbatim>\<open>strtoul\<close> with base 0 on a host with 64-bit \<^verbatim>\<open>unsigned long\<close>: blanks, a sign, the base from the prefix;
  the result is \<open>None\<close> when there is no number, else the value and the rest after it.
\<close>

definition strtoul0 :: "string \<Rightarrow> (nat \<times> string) option" where
  "strtoul0 s =
    (let s1 = dropWhile is_space s;
         neg = (s1 \<noteq> [] \<and> hd s1 = CHR ''-'');
         s2 = (if s1 \<noteq> [] \<and> (hd s1 = CHR ''-'' \<or> hd s1 = CHR ''+'') then tl s1 else s1);
         hex = (3 \<le> length s2 \<and> s2 ! 0 = CHR ''0'' \<and> (s2 ! 1 = CHR ''x'' \<or> s2 ! 1 = CHR ''X'') \<and> digit_of (s2 ! 2) < 16);
         b = (if hex then 16 else if s2 \<noteq> [] \<and> hd s2 = CHR ''0'' then 8 else 10);
         s3 = (if hex then drop 2 s2 else s2);
         ds = takeWhile (\<lambda>ch. digit_of ch < b) s3;
         v = digits_from b 0 ds in
     if ds = [] then None
     else Some (if v \<ge> 2 ^ 64 then 2 ^ 64 - 1 else if neg then (2 ^ 64 - v) mod 2 ^ 64 else v, drop (length ds) s3))"

definition parse_u32 :: "string \<Rightarrow> u32 option" where
  "parse_u32 s =
    (case strtoul0 s of
       None \<Rightarrow> None
     | Some (v, rest) \<Rightarrow> if rest \<noteq> [] \<or> v > 2 ^ 32 - 1 then None else Some (of_nat v))"

definition parse_double :: "'f fp_ops \<Rightarrow> string \<Rightarrow> 'f option" where
  "parse_double F s =
    (case fp_strtod F s of (v, n) \<Rightarrow> if n = 0 \<or> n < length s \<or> fp_neg F v then None else Some v)"

lemma dropWhile_shorter: "r \<noteq> [] \<Longrightarrow> P (hd r) \<Longrightarrow> length (dropWhile P r) < length r"
  using length_dropWhile_le [of P "tl r"] by (cases r) auto

text \<open>The tokens of a line, separated by blanks, as \<^verbatim>\<open>iss >> tok\<close> reads them.\<close>

function stream_tokens :: "string \<Rightarrow> string list" where
  "stream_tokens s =
    (let r = dropWhile is_space s in
     if r = [] then [] else takeWhile (\<lambda>ch. \<not> is_space ch) r # stream_tokens (dropWhile (\<lambda>ch. \<not> is_space ch) r))"
  by pat_completeness auto
termination
proof (relation "measure length", goal_cases)
  case (2 s r)
  then have "length (dropWhile (\<lambda>ch. \<not> is_space ch) r) < length r"
    using hd_dropWhile [of is_space s] by (intro dropWhile_shorter) blast+
  then show ?case using 2 length_dropWhile_le [of is_space s] by simp
qed simp

declare stream_tokens.simps [simp del]

fun parse_pc_tokens :: "string list \<Rightarrow> u32 option" where
  "parse_pc_tokens [] = None"
| "parse_pc_tokens (tok # toks) =
    (let tok' = (if last tok = CHR '':'' \<or> last tok = CHR '','' then butlast tok else tok) in
     case parse_u32 tok' of Some v \<Rightarrow> Some v | None \<Rightarrow> parse_pc_tokens toks)"

definition parse_pc_from_line :: "string \<Rightarrow> u32 option" where
  "parse_pc_from_line line = parse_pc_tokens (stream_tokens line)"

section \<open>Arguments\<close>

datatype 'f args_result = Run "'f Options" | Usage_error | Help

text \<open>The loop over the arguments after the program name; an option that needs a value takes the next argument.\<close>

fun parse_loop :: "'f fp_ops \<Rightarrow> string list \<Rightarrow> 'f Options \<Rightarrow> 'f args_result" where
  "parse_loop F [] opt = Run opt"
| "parse_loop F (a # as) opt =
    (case as of
       v # as' \<Rightarrow>
         if a = ''--sets'' then (case parse_u32 v of None \<Rightarrow> Usage_error | Some x \<Rightarrow> parse_loop F as' (opt\<lparr>sets := x\<rparr>))
         else if a = ''--ways'' then (case parse_u32 v of None \<Rightarrow> Usage_error | Some x \<Rightarrow> parse_loop F as' (opt\<lparr>ways := x\<rparr>))
         else if a = ''--bus-bytes'' then (case parse_u32 v of None \<Rightarrow> Usage_error | Some x \<Rightarrow> parse_loop F as' (opt\<lparr>bus_bytes := x\<rparr>))
         else if a = ''--line-transactions'' then
           (case parse_u32 v of None \<Rightarrow> Usage_error | Some x \<Rightarrow> parse_loop F as' (opt\<lparr>line_transactions := x\<rparr>))
         else if a = ''--line-size'' then
           (case parse_u32 v of None \<Rightarrow> Usage_error | Some x \<Rightarrow> parse_loop F as' (opt\<lparr>line_size := x, line_size_set := True\<rparr>))
         else if a = ''--cache-region'' then parse_loop F as' (opt\<lparr>cache_region := v\<rparr>)
         else if a = ''--access-time'' then
           (case parse_double F v of None \<Rightarrow> Usage_error | Some x \<Rightarrow> parse_loop F as' (opt\<lparr>access_time := x\<rparr>))
         else if a = ''--bus-penalty'' then
           (case parse_double F v of None \<Rightarrow> Usage_error | Some x \<Rightarrow> parse_loop F as' (opt\<lparr>bus_penalty := x\<rparr>))
         else if a = ''--miss-penalty'' then
           (case parse_double F v of None \<Rightarrow> Usage_error | Some x \<Rightarrow> parse_loop F as' (opt\<lparr>miss_penalty := x, miss_penalty_set := True\<rparr>))
         else if a = ''--repl'' then parse_loop F as' (opt\<lparr>repl := v\<rparr>)
         else if a = ''-h'' \<or> a = ''--help'' then Help
         else if trace_path opt = [] then parse_loop F as (opt\<lparr>trace_path := a\<rparr>)
         else Usage_error
     | [] \<Rightarrow>
         if a = ''-h'' \<or> a = ''--help'' then Help
         else if trace_path opt = [] then parse_loop F as (opt\<lparr>trace_path := a\<rparr>)
         else Usage_error)"

text \<open>
  The derived options and the final checks. The number of fill transactions is computed before the bus
  width is checked, so a width of zero divides by zero unless the miss penalty was given.
\<close>

definition parse_args :: "'f fp_ops \<Rightarrow> string list \<Rightarrow> 'f args_result res" where
  "parse_args F argv =
    (case parse_loop F argv (default_options F) of
       Usage_error \<Rightarrow> Inr Usage_error
     | Help \<Rightarrow> Inr Help
     | Run opt0 \<Rightarrow>
         let opt = (if line_size_set opt0 then opt0 else opt0\<lparr>line_size := bus_bytes opt0 * line_transactions opt0\<rparr>) in
         if \<not> miss_penalty_set opt \<and> bus_bytes opt = 0 then Inl (Undef ''division by zero'')
         else
           let opt' = (if miss_penalty_set opt then opt
                       else opt\<lparr>miss_penalty := fp_scale F ((line_size opt + bus_bytes opt - 1) div bus_bytes opt) (bus_penalty opt)\<rparr>) in
           if trace_path opt' = [] \<or> sets opt' = 0 \<or> ways opt' = 0 \<or> bus_bytes opt' = 0 \<or> line_transactions opt' = 0 \<or>
              line_size opt' = 0 \<or> \<not> is_pow2 (sets opt') \<or> \<not> is_pow2 (bus_bytes opt') \<or> \<not> is_pow2 (line_size opt')
           then Inr Usage_error
           else if repl opt' \<noteq> ''fifo'' \<and> repl opt' \<noteq> ''lru'' \<and> repl opt' \<noteq> ''random'' then Inr Usage_error
           else if cache_region opt' \<noteq> ''sdram'' \<and> cache_region opt' \<noteq> ''flash'' \<and> cache_region opt' \<noteq> ''psram'' \<and>
              cache_region opt' \<noteq> ''all'' then Inr Usage_error
           else Inr (Run opt'))"

section \<open>The cache\<close>

text \<open>The loops over a set: the first valid line with the tag, the first invalid line, the line with the least age.\<close>

fun find_line :: "(Line \<Rightarrow> bool) \<Rightarrow> Line list \<Rightarrow> nat \<Rightarrow> nat option" where
  "find_line P [] i = None"
| "find_line P (l # ls) i = (if P l then Some i else find_line P ls (i + 1))"

fun oldest :: "Line list \<Rightarrow> nat \<Rightarrow> u64 \<Rightarrow> nat \<Rightarrow> nat" where
  "oldest [] way best_age victim = victim"
| "oldest (l # ls) way best_age victim =
    (if age l < best_age then oldest ls (way + 1) (age l) way else oldest ls (way + 1) best_age victim)"

text \<open>The victim of a miss; \<open>dist\<close> draws a way for the random policy from the generator state \<open>g\<close>.\<close>

definition choose_victim :: "'f Options \<Rightarrow> ('g \<Rightarrow> u32 \<Rightarrow> nat \<times> 'g) \<Rightarrow> Line list \<Rightarrow> 'g \<Rightarrow> nat \<times> 'g" where
  "choose_victim opt dist ls g =
    (case find_line (\<lambda>l. \<not> valid l) ls 0 of
       Some way \<Rightarrow> (way, g)
     | None \<Rightarrow> if repl opt = ''random'' then dist g (ways opt - 1) else (oldest (tl ls) 1 (age (hd ls)) 0, g))"

record 'g cache_sim =
  cache :: "Line list list"
  rng :: 'g
  stats :: Stats

definition access_cache :: "'f Options \<Rightarrow> ('g \<Rightarrow> u32 \<Rightarrow> nat \<times> 'g) \<Rightarrow> u32 \<Rightarrow> u64 \<Rightarrow> 'g cache_sim \<Rightarrow> 'g cache_sim" where
  "access_cache opt dist pc now s =
    (let st = (stats s)\<lparr>accesses := accesses (stats s) + 1\<rparr> in
     if \<not> cacheable pc opt then s\<lparr>stats := st\<lparr>uncacheable := uncacheable st + 1, misses := misses st + 1\<rparr>\<rparr>
     else
       let st1 = st\<lparr>cacheable_count := cacheable_count st + 1\<rparr>;
           block = pc div line_size opt;
           set' = unat (block mod sets opt);
           t = block div sets opt;
           ls = cache s ! set' in
       case find_line (\<lambda>l. valid l \<and> tag l = t) ls 0 of
         Some way \<Rightarrow>
           s\<lparr>stats := st1\<lparr>hits := hits st1 + 1\<rparr>,
             cache := (if repl opt = ''lru'' then (cache s)[set' := ls[way := (ls ! way)\<lparr>age := now\<rparr>]] else cache s)\<rparr>
       | None \<Rightarrow>
           (case choose_victim opt dist ls (rng s) of (victim, g) \<Rightarrow>
             s\<lparr>stats := st1\<lparr>misses := misses st1 + 1\<rparr>, rng := g,
               cache := (cache s)[set' := ls[victim := \<lparr>valid = True, tag = t, age = now\<rparr>]]\<rparr>))"

text \<open>The part of \<^verbatim>\<open>main\<close> after the options: the empty cache and the loop over the lines of the trace.\<close>

definition init_sim :: "'f Options \<Rightarrow> 'g \<Rightarrow> 'g cache_sim" where
  "init_sim opt g =
    \<lparr>cache = replicate (unat (sets opt)) (replicate (unat (ways opt)) \<lparr>valid = False, tag = 0, age = 0\<rparr>),
     rng = g, stats = \<lparr>accesses = 0, cacheable_count = 0, uncacheable = 0, hits = 0, misses = 0\<rparr>\<rparr>"

fun run_trace :: "'f Options \<Rightarrow> ('g \<Rightarrow> u32 \<Rightarrow> nat \<times> 'g) \<Rightarrow> string list \<Rightarrow> u64 \<Rightarrow> 'g cache_sim \<Rightarrow> 'g cache_sim" where
  "run_trace opt dist [] now s = s"
| "run_trace opt dist (line # lines) now s =
    (case parse_pc_from_line line of
       None \<Rightarrow> run_trace opt dist lines now s
     | Some pc \<Rightarrow> run_trace opt dist lines (now + 1) (access_cache opt dist pc (now + 1) s))"

definition cachesim_main :: "'f fp_ops \<Rightarrow> ('g \<Rightarrow> u32 \<Rightarrow> nat \<times> 'g) \<Rightarrow> 'g \<Rightarrow> (string \<Rightarrow> string list option) \<Rightarrow> string list \<Rightarrow> (int \<times> Stats option) res" where
  "cachesim_main F dist g fs argv =
    ebind (parse_args F argv) (\<lambda>r.
      case r of
        Usage_error \<Rightarrow> Inr (1, None)
      | Help \<Rightarrow> Inr (0, None)
      | Run opt \<Rightarrow>
          (case fs (trace_path opt) of
             None \<Rightarrow> Inr (1, None)
           | Some lines \<Rightarrow> Inr (0, Some (stats (run_trace opt dist lines 0 (init_sim opt g))))))"

section \<open>The reference policy\<close>

text \<open>
  The replacement policies as queues of tags, the most recent first. A hit moves the tag to the front
  under least-recently-used and changes nothing under first-in-first-out; a miss puts the tag in
  front and drops what no longer fits.
\<close>

definition queue_access :: "bool \<Rightarrow> nat \<Rightarrow> u32 \<Rightarrow> u32 list \<Rightarrow> bool \<times> u32 list" where
  "queue_access lru n t q =
    (if t \<in> set q then (True, if lru then t # remove1 t q else q) else (False, take n (t # q)))"

text \<open>The abstract simulator: a queue for every set and the number of hits and misses.\<close>

fun queue_run :: "'f Options \<Rightarrow> u32 list \<Rightarrow> (nat \<Rightarrow> u32 list) \<times> nat \<times> nat \<Rightarrow> (nat \<Rightarrow> u32 list) \<times> nat \<times> nat" where
  "queue_run opt [] st = st"
| "queue_run opt (pc # pcs) (Q, h, m) =
    (if \<not> cacheable pc opt then queue_run opt pcs (Q, h, m + 1)
     else
       let block = pc div line_size opt; i = unat (block mod sets opt); t = block div sets opt in
       case queue_access (repl opt = ''lru'') (unat (ways opt)) t (Q i) of
         (True, q) \<Rightarrow> queue_run opt pcs (Q(i := q), h + 1, m)
       | (False, q) \<Rightarrow> queue_run opt pcs (Q(i := q), h, m + 1))"

section \<open>Refinement\<close>

text \<open>
  A set of lines represents a queue when some order of its valid lines has strictly falling ages and
  the tags of the queue, all different.
\<close>

definition set_rel :: "Line list \<Rightarrow> u32 list \<Rightarrow> u64 \<Rightarrow> bool" where
  "set_rel ls q now \<longleftrightarrow> (\<exists>is. distinct is \<and> set is = {i. i < length ls \<and> valid (ls ! i)} \<and>
     sorted_wrt (\<lambda>i j. age (ls ! j) < age (ls ! i)) is \<and> q = map (\<lambda>i. tag (ls ! i)) is \<and> distinct q \<and>
     (\<forall>i \<in> set is. age (ls ! i) \<le> now))"

lemma find_line_Some:
  "find_line P ls k = Some i \<Longrightarrow> k \<le> i \<and> i - k < length ls \<and> P (ls ! (i - k))"
  by (induction P ls k rule: find_line.induct) (auto split: if_splits simp: nth_Cons' Suc_diff_le)

lemma find_line_None: "find_line P ls k = None \<longleftrightarrow> (\<forall>l \<in> set ls. \<not> P l)"
  by (induction P ls k rule: find_line.induct) auto

lemma find_line_Some_0: "find_line P ls 0 = Some i \<Longrightarrow> i < length ls \<and> P (ls ! i)"
  using find_line_Some [of P ls 0 i] by simp

lemma oldest_min:
  "oldest ls way best v = r \<Longrightarrow>
   (r = v \<and> (\<forall>l \<in> set ls. best \<le> age l)) \<or>
   (way \<le> r \<and> r - way < length ls \<and> age (ls ! (r - way)) < best \<and> (\<forall>l \<in> set ls. age (ls ! (r - way)) \<le> age l))"
proof (induction ls way best v rule: oldest.induct)
  case (2 l ls way best v)
  show ?case
  proof (cases "age l < best")
    case True
    then have "oldest ls (way + 1) (age l) way = r" using 2(3) by simp
    from 2(1) [OF True this] True show ?thesis
      by (auto simp: nth_Cons' Suc_diff_le less_imp_le)
  next
    case False
    then have "oldest ls (way + 1) best v = r" using 2(3) by simp
    from 2(2) [OF False this] False show ?thesis
      by (auto simp: nth_Cons' Suc_diff_le less_imp_le)
  qed
qed simp

lemma oldest_least:
  assumes "ls \<noteq> []" "v = oldest (tl ls) 1 (age (hd ls)) 0"
  shows "v < length ls" "\<forall>j < length ls. age (ls ! v) \<le> age (ls ! j)"
  using oldest_min [OF assms(2) [symmetric]] assms(1)
  by (cases ls; auto simp: nth_Cons' all_set_conv_all_nth)+

lemma set_rel_mono: "set_rel ls q now \<Longrightarrow> now \<le> now' \<Longrightarrow> set_rel ls q now'"
  unfolding set_rel_def by (elim exE, rule exI) (fastforce intro: order_trans)

lemma set_rel_hit:
  assumes "set_rel ls q now" "find_line (\<lambda>l. valid l \<and> tag l = t) ls 0 = Some i"
  shows "t \<in> set q" "i < length ls" "valid (ls ! i)" "tag (ls ! i) = t"
  using assms find_line_Some_0 [OF assms(2)] by (auto simp: set_rel_def)

lemma set_rel_no_hit:
  assumes "set_rel ls q now" "find_line (\<lambda>l. valid l \<and> tag l = t) ls 0 = None"
  shows "t \<notin> set q"
proof
  assume "t \<in> set q"
  then obtain j where "j < length ls" "valid (ls ! j)" "tag (ls ! j) = t"
    using assms(1) by (auto simp: set_rel_def)
  then show False using assms(2) nth_mem [of j ls] by (auto simp: find_line_None)
qed

text \<open>A hit under least-recently-used: the line gets the newest age and moves to the front.\<close>

lemma set_rel_touch:
  assumes "set_rel ls q now" "i < length ls" "valid (ls ! i)" "tag (ls ! i) = t" "now < now'"
  shows "set_rel (ls[i := (ls ! i)\<lparr>age := now'\<rparr>]) (t # remove1 t q) now'"
proof -
  obtain idx where idx: "distinct idx" "set idx = {i. i < length ls \<and> valid (ls ! i)}"
    "sorted_wrt (\<lambda>i j. age (ls ! j) < age (ls ! i)) idx" "q = map (\<lambda>i. tag (ls ! i)) idx" "distinct q"
    "\<forall>i \<in> set idx. age (ls ! i) \<le> now"
    using assms(1) unfolding set_rel_def by blast
  have i: "i \<in> set idx" using idx(2) assms(2,3) by simp
  then obtain as bs where ab: "idx = as @ i # bs" by (meson split_list)
  let ?ls = "ls[i := (ls ! i)\<lparr>age := now'\<rparr>]"
  have ni: "i \<notin> set as" "i \<notin> set bs" using idx(1) ab by auto
  have t: "t \<notin> tag ` (!) ls ` set as" "t \<notin> tag ` (!) ls ` set bs"
    using idx(5) assms(4) by (auto simp: idx(4) ab)
  have old: "?ls ! j = ls ! j" if "j \<in> set (as @ bs)" for j
    using that ni by (auto simp: nth_list_update_if assms(2))
  have young: "age (ls ! j) < now'" if "j \<in> set idx" for j
    using idx(6) that assms(5) by (meson order_le_less_trans)
  have rest: "sorted_wrt (\<lambda>i j. age (?ls ! j) < age (?ls ! i)) (as @ bs)"
  proof (rule sorted_wrt_mono_rel [of _ "\<lambda>i j. age (ls ! j) < age (ls ! i)"])
    show "sorted_wrt (\<lambda>i j. age (ls ! j) < age (ls ! i)) (as @ bs)"
      using idx(3) by (auto simp: ab sorted_wrt_append)
  qed (simp add: old del: nth_list_update)
  have "sorted_wrt (\<lambda>i j. age (?ls ! j) < age (?ls ! i)) (i # as @ bs)"
    using rest old young assms(2) by (auto simp: ab)
  moreover have "t # remove1 t q = map (\<lambda>j. tag (?ls ! j)) (i # as @ bs)"
    using t old assms(2,4) by (auto simp: idx(4) ab remove1_append)
  moreover have "set (i # as @ bs) = {j. j < length ?ls \<and> valid (?ls ! j)}"
    using idx(2) assms(2,3) by (auto simp: ab nth_list_update_if)
  moreover have "distinct (i # as @ bs)" "distinct (t # remove1 t q)"
    using idx(1,5) by (auto simp: ab)
  moreover have "\<forall>j \<in> set (i # as @ bs). age (?ls ! j) \<le> now'"
    using old young assms(2) by (simp add: ab ball_Un less_imp_le)
  ultimately show ?thesis unfolding set_rel_def by (intro exI [of _ "i # as @ bs"] conjI)
qed

text \<open>A miss: the victim is an unused line, or the oldest one when all are in use.\<close>

lemma set_rel_fill:
  assumes "set_rel ls q now" "v < length ls" "t \<notin> set q" "now < now'"
    and "\<not> valid (ls ! v) \<or> (\<forall>j < length ls. valid (ls ! j) \<and> age (ls ! v) \<le> age (ls ! j))"
  shows "set_rel (ls[v := \<lparr>valid = True, tag = t, age = now'\<rparr>]) (take (length ls) (t # q)) now'"
proof -
  obtain idx where idx: "distinct idx" "set idx = {i. i < length ls \<and> valid (ls ! i)}"
    "sorted_wrt (\<lambda>i j. age (ls ! j) < age (ls ! i)) idx" "q = map (\<lambda>i. tag (ls ! i)) idx" "distinct q"
    "\<forall>i \<in> set idx. age (ls ! i) \<le> now"
    using assms(1) unfolding set_rel_def by blast
  let ?ls = "ls[v := \<lparr>valid = True, tag = t, age = now'\<rparr>]"
  have ex: "\<exists>as. v \<notin> set as \<and> set as = set idx - {v} \<and> (idx = as \<or> idx = as @ [v]) \<and>
      take (length ls) (t # q) = t # map (\<lambda>i. tag (ls ! i)) as"
  proof (cases "valid (ls ! v)")
    case False
    then have "set idx \<subseteq> {..<length ls} - {v}" using idx(2) by auto
    then have "card (set idx) \<le> card ({..<length ls} - {v})" by (intro card_mono) auto
    then have "length idx < length ls" using assms(2) distinct_card [OF idx(1)] by simp
    then show ?thesis using False idx(2) by (intro exI [of _ idx]) (auto simp: idx(4))
  next
    case True
    then have all: "\<forall>j < length ls. valid (ls ! j) \<and> age (ls ! v) \<le> age (ls ! j)" using assms(5) by simp
    then have si: "set idx = {..<length ls}" using idx(2) by auto
    then have len: "length idx = length ls" using distinct_card [OF idx(1)] by simp
    have "v \<in> set idx" using si assms(2) by simp
    then obtain as bs where ab: "idx = as @ v # bs" by (meson split_list)
    have "bs = []"
    proof (rule ccontr)
      assume "bs \<noteq> []"
      then have "hd bs \<in> set idx" "age (ls ! hd bs) < age (ls ! v)" using idx(3) by (auto simp: ab sorted_wrt_append)
      then show False using all si by (metis lessThan_iff not_le)
    qed
    then show ?thesis using idx(1) ab len [symmetric] by (intro exI [of _ as]) (auto simp: idx(4))
  qed
  then obtain as where as: "v \<notin> set as" "set as = set idx - {v}" "idx = as \<or> idx = as @ [v]"
    "take (length ls) (t # q) = t # map (\<lambda>i. tag (ls ! i)) as" by blast
  have old: "?ls ! j = ls ! j" if "j \<in> set as" for j
    using that as(1) by (auto simp: nth_list_update_if assms(2))
  have "sorted_wrt (\<lambda>i j. age (ls ! j) < age (ls ! i)) as" using idx(3) as(3) by (auto simp: sorted_wrt_append)
  then have "sorted_wrt (\<lambda>i j. age (?ls ! j) < age (?ls ! i)) as"
    by (rule sorted_wrt_mono_rel [rotated]) (simp add: old)
  moreover have young: "\<forall>j \<in> set as. age (?ls ! j) < now'"
    using old idx(6) as(2) assms(4) by (auto simp: order_le_less_trans)
  ultimately have "sorted_wrt (\<lambda>i j. age (?ls ! j) < age (?ls ! i)) (v # as)"
    using assms(2) by simp
  moreover have "take (length ls) (t # q) = map (\<lambda>j. tag (?ls ! j)) (v # as)"
    using as(4) old assms(2) by simp
  moreover have "distinct (take (length ls) (t # q))" using assms(3) idx(5) by (intro distinct_take) simp
  moreover have "set (v # as) = {j. j < length ?ls \<and> valid (?ls ! j)}"
    using idx(2) as(2) assms(2) by (auto simp: nth_list_update_if)
  moreover have "distinct (v # as)" using as(1,3) idx(1) by auto
  moreover have "\<forall>j \<in> set (v # as). age (?ls ! j) \<le> now'"
    using young assms(2) by (auto simp del: nth_list_update_neq intro: less_imp_le)
  ultimately show ?thesis unfolding set_rel_def by (intro exI [of _ "v # as"] conjI)
qed

lemma choose_victim_ok:
  assumes "repl opt \<noteq> ''random''" "ls \<noteq> []" "choose_victim opt dist ls g = (v, g')"
  shows "v < length ls" "g' = g"
    "\<not> valid (ls ! v) \<or> (\<forall>j < length ls. valid (ls ! j) \<and> age (ls ! v) \<le> age (ls ! j))"
proof -
  consider (free) "find_line (\<lambda>l. \<not> valid l) ls 0 = Some v" "g' = g"
    | (full) "find_line (\<lambda>l. \<not> valid l) ls 0 = None" "v = oldest (tl ls) 1 (age (hd ls)) 0" "g' = g"
    using assms by (auto simp: choose_victim_def split: option.splits)
  then have "v < length ls \<and> g' = g \<and>
    (\<not> valid (ls ! v) \<or> (\<forall>j < length ls. valid (ls ! j) \<and> age (ls ! v) \<le> age (ls ! j)))"
  proof cases
    case free
    then show ?thesis using find_line_Some_0 [OF free(1)] by simp
  next
    case full
    then show ?thesis
      using oldest_least [OF assms(2) full(2)] by (simp add: find_line_None all_set_conv_all_nth)
  qed
  then show "v < length ls" "g' = g"
    "\<not> valid (ls ! v) \<or> (\<forall>j < length ls. valid (ls ! j) \<and> age (ls ! v) \<le> age (ls ! j))" by blast+
qed

text \<open>The whole simulator against the queues, after \<open>n\<close> accesses.\<close>

definition sim_rel :: "'f Options \<Rightarrow> 'g cache_sim \<Rightarrow> (nat \<Rightarrow> u32 list) \<times> nat \<times> nat \<Rightarrow> nat \<Rightarrow> bool" where
  "sim_rel opt s a n \<longleftrightarrow> (case a of (Q, h, m) \<Rightarrow>
     length (cache s) = unat (sets opt) \<and>
     (\<forall>i < unat (sets opt). length (cache s ! i) = unat (ways opt) \<and> set_rel (cache s ! i) (Q i) (of_nat n)) \<and>
     unat (hits (stats s)) = h \<and> unat (misses (stats s)) = m \<and> unat (accesses (stats s)) = n \<and> h + m = n \<and>
     unat (cacheable_count (stats s)) + unat (uncacheable (stats s)) = n)"

definition options_ok :: "'f Options \<Rightarrow> bool" where
  "options_ok opt \<longleftrightarrow> sets opt \<noteq> 0 \<and> ways opt \<noteq> 0 \<and> line_size opt \<noteq> 0 \<and> is_pow2 (sets opt) \<and> is_pow2 (line_size opt) \<and>
     repl opt \<in> {''fifo'', ''lru'', ''random''} \<and> cache_region opt \<in> {''sdram'', ''flash'', ''psram'', ''all''} \<and> trace_path opt \<noteq> []"

lemma parse_args_ok: "parse_args F argv = Inr (Run opt) \<Longrightarrow> options_ok opt"
  by (auto simp: parse_args_def options_ok_def Let_def split: args_result.splits if_splits)

lemma sim_rel_init: "sim_rel opt (init_sim opt g) (\<lambda>_. [], 0, 0) 0"
  by (simp add: sim_rel_def init_sim_def set_rel_def)

lemma of_nat_less_Suc: "Suc n < 2 ^ 64 \<Longrightarrow> (of_nat n :: u64) < of_nat (Suc n)"
  by (simp add: word_less_nat_alt unat_of_nat take_bit_nat_eq_self del: of_nat_Suc)

lemma unat_Suc64: "unat (x :: u64) = k \<Longrightarrow> Suc k < 2 ^ 64 \<Longrightarrow> unat (x + 1) = Suc k"
  by (simp add: unat_word_ariths)

lemma access_step:
  assumes "sim_rel opt s (Q, h, m) n" "options_ok opt" "repl opt \<noteq> ''random''" "Suc n < 2 ^ 64"
  shows "sim_rel opt (access_cache opt dist pc (of_nat (Suc n)) s) (queue_run opt [pc] (Q, h, m)) (Suc n)"
proof -
  have r: "length (cache s) = unat (sets opt)"
    "\<And>i. i < unat (sets opt) \<Longrightarrow> length (cache s ! i) = unat (ways opt) \<and> set_rel (cache s ! i) (Q i) (of_nat n)"
    and st: "unat (hits (stats s)) = h" "unat (misses (stats s)) = m" "unat (accesses (stats s)) = n" "h + m = n"
      "unat (cacheable_count (stats s)) + unat (uncacheable (stats s)) = n"
    using assms(1) by (auto simp: sim_rel_def)
  note later = of_nat_less_Suc [OF assms(4)]
  have cnt: "unat (hits (stats s) + 1) = Suc h" "unat (misses (stats s) + 1) = Suc m" "unat (accesses (stats s) + 1) = Suc n"
      "unat (cacheable_count (stats s) + 1) = Suc (unat (cacheable_count (stats s)))"
      "unat (uncacheable (stats s) + 1) = Suc (unat (uncacheable (stats s)))"
    using st assms(4) by (auto intro!: unat_Suc64)
  have keep: "set_rel (cache s ! i) (Q i) (of_nat (Suc n))" if "i < unat (sets opt)" for i
    using r(2) [OF that] later by (auto intro: set_rel_mono less_imp_le)
  show ?thesis
  proof (cases "cacheable pc opt")
    case False
    then show ?thesis using r(1,2) keep cnt st by (simp add: sim_rel_def access_cache_def Let_def del: of_nat_Suc)
  next
    case True
    define block where "block = pc div line_size opt"
    define i where "i = unat (block mod sets opt)"
    define t where "t = block div sets opt"
    have i: "i < unat (sets opt)"
      using assms(2) by (simp add: i_def unat_mod options_ok_def unat_gt_0)
    let ?ls = "cache s ! i"
    have ls: "length ?ls = unat (ways opt)" "set_rel ?ls (Q i) (of_nat n)" "?ls \<noteq> []"
      using r(2) [OF i] assms(2) by (auto simp: options_ok_def unat_eq_0)
    show ?thesis
    proof (cases "find_line (\<lambda>l. valid l \<and> tag l = t) ?ls 0")
      case (Some w)
      note hit = set_rel_hit [OF ls(2) Some]
      show ?thesis
        using True Some hit r(1,2) keep cnt st i set_rel_touch [OF ls(2) hit(2,3,4) later]
        by (auto simp: sim_rel_def access_cache_def queue_access_def Let_def nth_list_update_if
            block_def [symmetric] i_def [symmetric] t_def [symmetric] simp del: of_nat_Suc)
    next
      case None
      note miss = set_rel_no_hit [OF ls(2) None]
      obtain v g where v: "choose_victim opt dist ?ls (rng s) = (v, g)" by fastforce
      note vic = choose_victim_ok [OF assms(3) ls(3) v]
      show ?thesis
        using True None miss v r(1,2) keep cnt st i set_rel_fill [OF ls(2) vic(1) miss later vic(3)] ls(1)
        by (auto simp: sim_rel_def access_cache_def queue_access_def Let_def nth_list_update_if
            block_def [symmetric] i_def [symmetric] t_def [symmetric] simp del: of_nat_Suc)
    qed
  qed
qed

lemma queue_run_append: "queue_run opt (xs @ ys) st = queue_run opt ys (queue_run opt xs st)"
  by (induction opt xs st rule: queue_run.induct) (auto simp: Let_def split: prod.splits bool.splits)

text \<open>The program counters of a trace; lines without a number are skipped.\<close>

definition trace_pcs :: "string list \<Rightarrow> u32 list" where
  "trace_pcs lines = List.map_filter parse_pc_from_line lines"

lemma trace_pcs_simps:
  "trace_pcs [] = []"
  "trace_pcs (l # ls) = (case parse_pc_from_line l of None \<Rightarrow> trace_pcs ls | Some pc \<Rightarrow> pc # trace_pcs ls)"
  by (simp_all add: trace_pcs_def List.map_filter_def split: option.splits)

lemma run_trace_rel:
  assumes "options_ok opt" "repl opt \<noteq> ''random''"
  shows "sim_rel opt s a n \<Longrightarrow> n + length (trace_pcs lines) < 2 ^ 64 \<Longrightarrow>
    sim_rel opt (run_trace opt dist lines (of_nat n) s) (queue_run opt (trace_pcs lines) a) (n + length (trace_pcs lines))"
proof (induction lines arbitrary: s a n)
  case (Cons line lines)
  show ?case
  proof (cases "parse_pc_from_line line")
    case (Some pc)
    obtain Q h m where a: "a = (Q, h, m)" by (cases a)
    have "sim_rel opt (access_cache opt dist pc (of_nat (Suc n)) s) (queue_run opt [pc] a) (Suc n)"
      using access_step [OF Cons.prems(1) [unfolded a] assms] Cons.prems(2) Some by (simp add: a trace_pcs_simps)
    from Cons.IH [OF this] Cons.prems(2) Some show ?thesis
      using queue_run_append [of opt "[pc]" "trace_pcs lines" a] by (simp add: trace_pcs_simps add.commute)
  qed (use Cons in \<open>simp add: trace_pcs_simps\<close>)
qed (simp add: trace_pcs_simps)

text \<open>
  C12: the cache simulator implements its replacement policies. For every accepted command line with
  the least-recently-used or first-in-first-out policy and every trace shorter than \<open>2 ^ 64\<close> accesses,
  the reported hits and misses are those of an ideal cache that keeps one queue of tags per set; hits
  and misses add up to the accesses, and so do the cacheable and uncacheable accesses.
\<close>

theorem cachesim_refines_queues:
  assumes "parse_args F argv = Inr (Run opt)" "repl opt \<noteq> ''random''" "fs (trace_path opt) = Some lines"
    and "length (trace_pcs lines) < 2 ^ 64" "queue_run opt (trace_pcs lines) (\<lambda>_. [], 0, 0) = (Q, h, m)"
  shows "\<exists>st. cachesim_main F dist g fs argv = Inr (0, Some st) \<and> unat (hits st) = h \<and> unat (misses st) = m \<and>
    unat (accesses st) = length (trace_pcs lines) \<and> h + m = length (trace_pcs lines) \<and>
    unat (cacheable_count st) + unat (uncacheable st) = length (trace_pcs lines)"
proof -
  have "sim_rel opt (run_trace opt dist lines 0 (init_sim opt g)) (Q, h, m) (length (trace_pcs lines))"
    using run_trace_rel [OF parse_args_ok [OF assms(1)] assms(2) sim_rel_init, of lines dist g] assms(4,5) by simp
  then show ?thesis using assms(1,3) by (simp add: cachesim_main_def sim_rel_def)
qed

lemmas parse_line_simps = parse_pc_from_line_def stream_tokens.simps parse_u32_def strtoul0_def
  is_space_def digit_of_def Let_def

text \<open>Two fetches from one line of the cached region and one from outside it.\<close>

theorem cachesim_refines_queues_witness:
  "\<exists>st. cachesim_main \<lparr>fp_zero = (0 :: nat), fp_one = 1, fp_strtod = (\<lambda>_. (0, 0)), fp_neg = (\<lambda>_. False), fp_scale = (\<lambda>_ x. x)\<rparr>
      (\<lambda>g _. (0, g)) () (\<lambda>p. if p = ''t'' then Some [''0xa0000000:'', ''# x'', ''0xa0000004'', ''0x0''] else None) [''t''] = Inr (0, Some st) \<and>
     unat (hits st) = 1 \<and> unat (misses st) = 2"
proof -
  let ?F = "\<lparr>fp_zero = (0 :: nat), fp_one = 1, fp_strtod = (\<lambda>_. (0, 0)), fp_neg = (\<lambda>_. False), fp_scale = (\<lambda>_ x. x)\<rparr>"
  let ?opt = "(default_options ?F)\<lparr>line_size := 16, miss_penalty := 0, trace_path := ''t''\<rparr>"
  let ?fs = "\<lambda>p. if p = ''t'' then Some [''0xa0000000:'', ''# x'', ''0xa0000004'', ''0x0''] else None"
  have a: "parse_args ?F [''t''] = Inr (Run ?opt)"
    by (simp add: parse_args_def default_options_def is_pow2_def Let_def)
  have p: "trace_pcs [''0xa0000000:'', ''# x'', ''0xa0000004'', ''0x0''] = [0xa0000000, 0xa0000004, 0]"
    by (simp add: trace_pcs_simps parse_line_simps)
  have q: "\<exists>Q. queue_run ?opt [0xa0000000, 0xa0000004, 0] (\<lambda>_. [], 0, 0) = (Q, 1, 2)"
    by (simp add: default_options_def cacheable_def queue_access_def)
  then obtain Q where "queue_run ?opt [0xa0000000, 0xa0000004, 0] (\<lambda>_. [], 0, 0) = (Q, 1, 2)" by blast
  from cachesim_refines_queues [where dist = "\<lambda>g _. (0, g)" and g = "()" and fs = ?fs, OF a _ _ _ this [folded p]] show ?thesis
    by (auto simp: default_options_def p)
qed

text \<open>
  A bus width of zero is rejected by the checks, but the number of fill transactions is computed first:
  without \<^verbatim>\<open>--miss-penalty\<close> the program divides by zero instead of printing its usage.
\<close>

lemma bus_bytes_zero:
  "parse_args F [''--bus-bytes'', ''0'', ''t''] = Inl (Undef ''division by zero'')"
proof -
  have "parse_u32 ''0'' = Some 0" by (simp add: parse_line_simps)
  then show ?thesis by (simp add: parse_args_def default_options_def Let_def)
qed

end
