(* ===== verification/Npc_Sim.thy ===== *)
theory Npc_Sim
  imports Sdb_Commands
begin

text \<open>
  \<^verbatim>\<open>npc/csrc/main.cpp\<close>: the simulation driver of the NPC processor in the ysyxSoC. The Verilator model of
  the chip is generated code and therefore a parameter: a state, the functions exported from it and
  an evaluation that may call back into the driver. A callback needs an answer before the evaluation
  goes on, so an evaluation is a tree of calls (\<open>dut_run\<close>). Everything on the C++ side is modelled: the UART
  receive line, the memories behind the callbacks, tracing, the performance counters, differential
  testing, the execution loop, the debugger and the start-up.
\<close>

section \<open>The chip\<close>

text \<open>The functions the chip imports from the driver.\<close>

datatype dpi =
    Itrace_commit u32 u32 u32
  | Perf_event u32 u32
  | Perf_commit u32 u32
  | Trap u32
  | Mrom_read u32
  | Flash_read u32
  | Pmem_read u32
  | Pmem_write u32 u32 u8
  | Reset_pc

datatype 'd dut_run = Eval_done 'd | Dpi_call dpi "u32 \<Rightarrow> 'd dut_run"

text \<open>The input pins, the evaluation and the exported functions of the Verilator model.\<close>

record pins =
  clock :: bool
  reset_pin :: bool
  uart_rx :: bool

record 'd dut_ops =
  dut_eval :: "pins \<Rightarrow> 'd \<Rightarrow> 'd dut_run"
  npc_read_gpr :: "'d \<Rightarrow> nat \<Rightarrow> u32"
  npc_read_pc :: "'d \<Rightarrow> u32"
  npc_is_commit :: "'d \<Rightarrow> bool"
  npc_check_skip :: "'d \<Rightarrow> bool"

section \<open>The driver's state\<close>

record Symbol =
  sym_name :: string
  sym_addr :: u32
  sym_size :: u32

record diff_context =
  ctx_gpr :: "u32 list"
  ctx_pc :: u32
  ctx_csr :: "u32 list"

text \<open>The entry points of the reference, as looked up in the shared object.\<close>

record 'r npc_ref_ops =
  npc_ref_memcpy :: "u32 \<Rightarrow> u8 list \<Rightarrow> 'r \<Rightarrow> 'r"
  npc_ref_get :: "'r \<Rightarrow> diff_context"
  npc_ref_set :: "diff_context \<Rightarrow> 'r \<Rightarrow> 'r"
  npc_ref_exec :: "'r \<Rightarrow> 'r"
  npc_ref_init :: "'r \<Rightarrow> 'r"

record perf =
  perf_cycles :: u64
  perf_insts :: u64
  perf_cat_count :: "u64 list"
  perf_cat_cycles :: "u64 list"
  perf_ifu_fetch :: u64
  perf_lsu_load_data :: u64
  perf_lsu_store_done :: u64
  perf_exu_done :: u64
  perf_icache_hit :: u64
  perf_icache_miss :: u64
  perf_ifu_wait_req :: u64
  perf_ifu_wait_rsp :: u64
  perf_ifu_wait_lsu_ld :: u64
  perf_ifu_wait_lsu_st :: u64
  perf_lsu_load_lat_sum :: u64
  perf_lsu_store_lat_sum :: u64
  perf_lsu_load_lat_count :: u64
  perf_lsu_store_lat_count :: u64
  perf_icache_miss_lat_sum :: u64
  perf_icache_miss_lat_count :: u64

text \<open>
  The serial line state: \<open>stdin_bytes\<close> holds the results of the coming non-blocking reads, \<open>None\<close> for one that
  finds no byte; with none left, reads find nothing.
\<close>

record uart =
  uart_stdin_enabled :: bool
  uart_stdin_requested :: bool
  uart_rx_frame :: u16
  uart_rx_bits :: int
  uart_rx_ticks :: int
  stdin_bytes :: "u8 option list"

text \<open>\<open>ref_loaded\<close> is \<open>None\<close> until differential testing is initialised (the function pointers are NULL).\<close>

record ('d, 'r) npc =
  npc_dut :: 'd
  npc_pins :: pins
  npc_uart :: uart
  npc_mrom :: bytes
  npc_sram :: bytes
  npc_flash :: bytes
  img_size_loaded :: nat
  flash_boot :: bool
  npc_skip_ref :: bool
  symbol_table :: "Symbol list"
  call_depth :: nat
  ftrace_log :: "(nat \<times> bool \<times> u32 \<times> string option) list"
  pc_trace :: "u32 list option"
  npc_perf :: perf
  got_finish :: bool
  ref_loaded :: "'r option"

record npc_config =
  ENABLE_FTRACE :: bool
  ENABLE_DIFFTEST :: bool

text \<open>The switches as \<^verbatim>\<open>main.cpp\<close> defines them.\<close>

definition npc_defconfig :: npc_config where
  "npc_defconfig = \<lparr>ENABLE_FTRACE = False, ENABLE_DIFFTEST = False\<rparr>"

section \<open>The serial line\<close>

definition UART_BIT_TICKS :: int where
  "UART_BIT_TICKS = 16"

definition read_uart_stdin_byte :: "uart \<Rightarrow> u8 option \<times> uart" where
  "read_uart_stdin_byte u =
    (case stdin_bytes u of [] \<Rightarrow> (None, u) | r # rs \<Rightarrow> (r, u\<lparr>stdin_bytes := rs\<rparr>))"

text \<open>The level driven on the receive pin in this cycle and the new state of the line.\<close>

definition drive_uart_rx :: "uart \<Rightarrow> bool \<times> uart" where
  "drive_uart_rx u =
    (if \<not> uart_stdin_enabled u then (True, u)
     else
       let (start, u1) =
         (if uart_rx_bits u = 0
          then (case read_uart_stdin_byte u of
                  (None, u') \<Rightarrow> (False, u')
                | (Some ch, u') \<Rightarrow>
                    (True, u'\<lparr>uart_rx_frame := push_bit 9 1 OR push_bit 1 (ucast ch),
                              uart_rx_bits := 10, uart_rx_ticks := UART_BIT_TICKS\<rparr>))
          else (True, u)) in
       if \<not> start then (True, u1)
       else
         let level = bit (uart_rx_frame u1) 0; ticks = uart_rx_ticks u1 - 1 in
         (level,
          if ticks = 0
          then u1\<lparr>uart_rx_frame := drop_bit 1 (uart_rx_frame u1) OR 0x200,
                  uart_rx_bits := uart_rx_bits u1 - 1, uart_rx_ticks := UART_BIT_TICKS\<rparr>
          else u1\<lparr>uart_rx_ticks := ticks\<rparr>))"

section \<open>Memories\<close>

definition npc_reset_pc :: "('d, 'r) npc \<Rightarrow> u32" where
  "npc_reset_pc s = (if flash_boot s then FLASH_BASE else MROM_BASE)"

text \<open>A read near the end of the MROM passes the check of its first byte and runs past the array.\<close>

definition mrom_read :: "u32 \<Rightarrow> ('d, 'r) npc \<Rightarrow> u32 res" where
  "mrom_read addr s =
    (if addr \<ge> MROM_BASE \<and> addr < MROM_BASE + MROM_SIZE then
       let offset = unat (addr - MROM_BASE) in
       if offset + 4 \<le> unat MROM_SIZE then Inr (load_le (npc_mrom s) offset 4) else Inl (Undef ''out-of-bounds read'')
     else Inr 0)"

definition flash_read :: "u32 \<Rightarrow> ('d, 'r) npc \<Rightarrow> u32" where
  "flash_read addr s = (if unat addr + 4 \<le> unat FLASH_SIZE then load_le (npc_flash s) (unat addr) 4 else 0)"

definition in_sram4 :: "u32 \<Rightarrow> bool" where
  "in_sram4 addr \<longleftrightarrow> addr \<ge> SRAM_BASE \<and> unat addr + 4 \<le> unat SRAM_BASE + unat SRAM_SIZE"

definition npc_pmem_read :: "u32 \<Rightarrow> ('d, 'r) npc \<Rightarrow> u32 \<times> ('d, 'r) npc" where
  "npc_pmem_read addr s =
    (if in_sram4 addr then (load_le (npc_sram s) (unat (addr - SRAM_BASE)) 4, s) else (0, s\<lparr>npc_skip_ref := True\<rparr>))"

primrec mask_write :: "bytes \<Rightarrow> nat \<Rightarrow> u32 \<Rightarrow> u8 \<Rightarrow> nat \<Rightarrow> bytes" where
  "mask_write b off wdata wmask 0 = b"
| "mask_write b off wdata wmask (Suc i) =
    (let b' = mask_write b off wdata wmask i in
     if bit wmask i then b'(off + i := ucast (drop_bit (i * 8) wdata)) else b')"

definition npc_pmem_write :: "u32 \<Rightarrow> u32 \<Rightarrow> u8 \<Rightarrow> ('d, 'r) npc \<Rightarrow> ('d, 'r) npc" where
  "npc_pmem_write addr wdata wmask s =
    (if in_sram4 addr then s\<lparr>npc_sram := mask_write (npc_sram s) (unat (addr - SRAM_BASE)) wdata wmask 4\<rparr>
     else s\<lparr>npc_skip_ref := True\<rparr>)"

definition flash_pattern :: "u32 \<Rightarrow> u32" where
  "flash_pattern addr = (let w = addr AND NOT 3 in 0x5a000000 XOR (w * 0x01010101) XOR push_bit 8 w)"

text \<open>The loop of \<^verbatim>\<open>init_flash\<close> over the words of the first 4 KiB of the erased flash.\<close>

primrec flash_fill :: "nat \<Rightarrow> bytes \<Rightarrow> bytes" where
  "flash_fill 0 b = b"
| "flash_fill (Suc i) b = store_le (flash_fill i b) (4 * i) 4 (flash_pattern (of_nat (4 * i)))"

definition init_flash :: "('d, 'r) npc \<Rightarrow> ('d, 'r) npc" where
  "init_flash s = s\<lparr>npc_flash := flash_fill 1024 (\<lambda>_. 0xff)\<rparr>"

primrec put_bytes :: "bytes \<Rightarrow> nat \<Rightarrow> u8 list \<Rightarrow> bytes" where
  "put_bytes b a [] = b"
| "put_bytes b a (x # xs) = put_bytes (b(a := x)) (a + 1) xs"

text \<open>
  \<^verbatim>\<open>load_img\<close> with the contents of the image file: \<open>None\<close> for no file name, \<open>Some None\<close> for a file that cannot be
  opened. An empty file fails the assertion on \<^verbatim>\<open>fread\<close>.
\<close>

definition built_in_prog :: "u8 list" where
  "built_in_prog = [0x6f, 0, 0, 0]"

definition load_img :: "u8 list option option \<Rightarrow> ('d, 'r) npc \<Rightarrow> ('d, 'r) npc res" where
  "load_img file s =
    (let burn = (\<lambda>bs. (if flash_boot s then s\<lparr>npc_flash := put_bytes (npc_flash s) 0 bs\<rparr>
                       else s\<lparr>npc_mrom := put_bytes (npc_mrom s) 0 bs\<rparr>)\<lparr>img_size_loaded := length bs\<rparr>) in
     case file of
       None \<Rightarrow> Inr (burn built_in_prog)
     | Some None \<Rightarrow> Inl Assert_fail
     | Some (Some bs) \<Rightarrow>
         if length bs > unat (if flash_boot s then FLASH_SIZE else MROM_SIZE) then Inl Assert_fail
         else if bs = [] then Inl Assert_fail
         else Inr (burn bs))"

section \<open>Function trace\<close>

text \<open>
  The symbol tables of the ELF file as libelf hands them out: whether the symbol is a function, its size, name
  and value. \<open>None\<close> stands for a file that is missing or cannot be opened.
\<close>

definition init_elf :: "(bool \<times> u32 \<times> string \<times> u32) list option \<Rightarrow> ('d, 'r) npc \<Rightarrow> ('d, 'r) npc" where
  "init_elf syms s =
    (case syms of
       None \<Rightarrow> s
     | Some xs \<Rightarrow> s\<lparr>symbol_table := symbol_table s @
         map (\<lambda>(_, sz, name, val). \<lparr>sym_name = take 127 name, sym_addr = val, sym_size = sz\<rparr>)
           (filter (\<lambda>(is_func, sz, _). is_func \<and> sz > 0) xs)\<rparr>)"

fun find_symbol :: "Symbol list \<Rightarrow> u32 \<Rightarrow> string option" where
  "find_symbol [] addr = None"
| "find_symbol (s # ss) addr =
    (if addr \<ge> sym_addr s \<and> addr < sym_addr s + sym_size s then Some (sym_name s) else find_symbol ss addr)"

text \<open>A line of the trace: indentation, call or return, the address and the function found.\<close>

definition ftrace_print :: "npc_config \<Rightarrow> u32 \<Rightarrow> u32 \<Rightarrow> bool \<Rightarrow> ('d, 'r) npc \<Rightarrow> ('d, 'r) npc" where
  "ftrace_print c p target is_call s =
    (if \<not> ENABLE_FTRACE c then s
     else
       let func = find_symbol (symbol_table s) target;
           s1 = s\<lparr>ftrace_log := ftrace_log s @ [(call_depth s, is_call, p, func)]\<rparr> in
       if is_call then s1\<lparr>call_depth := call_depth s + 1\<rparr> else s1\<lparr>call_depth := call_depth s - 1\<rparr>)"

definition npc_itrace_commit :: "npc_config \<Rightarrow> u32 \<Rightarrow> u32 \<Rightarrow> u32 \<Rightarrow> ('d, 'r) npc \<Rightarrow> ('d, 'r) npc" where
  "npc_itrace_commit c p i npc s =
    (let s1 = s\<lparr>pc_trace := map_option (\<lambda>t. t @ [p]) (pc_trace s)\<rparr> in
     if \<not> ENABLE_FTRACE c then s1
     else
       let opc = i AND 0x7F; rd = drop_bit 7 i AND 0x1F; rs1 = drop_bit 15 i AND 0x1F;
           is_jal = (opc = 0x6F); is_jalr = (opc = 0x67) in
       if (is_jal \<or> is_jalr) \<and> rd = 1 then ftrace_print c p npc True s1
       else if is_jalr \<and> rs1 = 1 \<and> rd = 0 then ftrace_print c p p False s1
       else s1)"

section \<open>Performance counters\<close>

definition PERF_CAT_NR :: nat where "PERF_CAT_NR = 8"
definition PERF_CAT_LOAD :: nat where "PERF_CAT_LOAD = 1"
definition PERF_CAT_STORE :: nat where "PERF_CAT_STORE = 2"
definition PERF_CAT_OTHER :: nat where "PERF_CAT_OTHER = 7"

definition perf_zero :: perf where
  "perf_zero =
    \<lparr>perf_cycles = 0, perf_insts = 0, perf_cat_count = replicate 8 0, perf_cat_cycles = replicate 8 0,
     perf_ifu_fetch = 0, perf_lsu_load_data = 0, perf_lsu_store_done = 0, perf_exu_done = 0, perf_icache_hit = 0,
     perf_icache_miss = 0, perf_ifu_wait_req = 0, perf_ifu_wait_rsp = 0, perf_ifu_wait_lsu_ld = 0,
     perf_ifu_wait_lsu_st = 0, perf_lsu_load_lat_sum = 0, perf_lsu_store_lat_sum = 0, perf_lsu_load_lat_count = 0,
     perf_lsu_store_lat_count = 0, perf_icache_miss_lat_sum = 0, perf_icache_miss_lat_count = 0\<rparr>"

definition reset_perf_stats :: "('d, 'r) npc \<Rightarrow> ('d, 'r) npc" where
  "reset_perf_stats s = s\<lparr>npc_perf := perf_zero\<rparr>"

definition npc_perf_event :: "u32 \<Rightarrow> u32 \<Rightarrow> perf \<Rightarrow> perf" where
  "npc_perf_event event data p =
    (if event = 0 then p\<lparr>perf_ifu_fetch := perf_ifu_fetch p + 1\<rparr>
     else if event = 1 then p\<lparr>perf_lsu_load_data := perf_lsu_load_data p + 1\<rparr>
     else if event = 2 then p\<lparr>perf_lsu_store_done := perf_lsu_store_done p + 1\<rparr>
     else if event = 3 then p\<lparr>perf_exu_done := perf_exu_done p + 1\<rparr>
     else if event = 4 then p\<lparr>perf_icache_hit := perf_icache_hit p + 1\<rparr>
     else if event = 5 then p\<lparr>perf_icache_miss := perf_icache_miss p + 1\<rparr>
     else if event = 10 then p\<lparr>perf_ifu_wait_req := perf_ifu_wait_req p + 1\<rparr>
     else if event = 11 then p\<lparr>perf_ifu_wait_rsp := perf_ifu_wait_rsp p + 1\<rparr>
     else if event = 12 then p\<lparr>perf_ifu_wait_lsu_ld := perf_ifu_wait_lsu_ld p + 1\<rparr>
     else if event = 13 then p\<lparr>perf_ifu_wait_lsu_st := perf_ifu_wait_lsu_st p + 1\<rparr>
     else if event = 20 then
       p\<lparr>perf_lsu_load_lat_sum := perf_lsu_load_lat_sum p + ucast data, perf_lsu_load_lat_count := perf_lsu_load_lat_count p + 1\<rparr>
     else if event = 21 then
       p\<lparr>perf_lsu_store_lat_sum := perf_lsu_store_lat_sum p + ucast data, perf_lsu_store_lat_count := perf_lsu_store_lat_count p + 1\<rparr>
     else if event = 22 then
       p\<lparr>perf_icache_miss_lat_sum := perf_icache_miss_lat_sum p + ucast data, perf_icache_miss_lat_count := perf_icache_miss_lat_count p + 1\<rparr>
     else p)"

definition npc_perf_commit :: "u32 \<Rightarrow> u32 \<Rightarrow> perf \<Rightarrow> perf" where
  "npc_perf_commit category cycles p =
    (let k = (if c_slt category 0 \<or> \<not> c_slt category (of_nat PERF_CAT_NR) then PERF_CAT_OTHER else unat category) in
     p\<lparr>perf_cat_count := (perf_cat_count p)[k := perf_cat_count p ! k + 1],
       perf_cat_cycles := (perf_cat_cycles p)[k := perf_cat_cycles p ! k + ucast cycles]\<rparr>)"

text \<open>The consistency checks at the end of \<^verbatim>\<open>print_perf_stats\<close>, in order.\<close>

definition perf_checks :: "perf \<Rightarrow> bool list" where
  "perf_checks p =
    (let decoded_insts = sum_list (perf_cat_count p); icache_access = perf_icache_hit p + perf_icache_miss p in
     [decoded_insts = perf_insts p, perf_ifu_fetch p = perf_insts p, icache_access = perf_ifu_fetch p,
      perf_icache_miss_lat_count p = perf_icache_miss p, perf_cat_count p ! PERF_CAT_LOAD = perf_lsu_load_data p,
      perf_cat_count p ! PERF_CAT_STORE = perf_lsu_store_done p])"

section \<open>One cycle\<close>

definition npc_trap :: "u32 \<Rightarrow> ('d, 'r) npc \<Rightarrow> ('d, 'r) npc" where
  "npc_trap a0_val s = s\<lparr>got_finish := True\<rparr>"

text \<open>What the driver does for a call of the chip, and the value it returns.\<close>

definition dpi_answer :: "npc_config \<Rightarrow> dpi \<Rightarrow> ('d, 'r) npc \<Rightarrow> (u32 \<times> ('d, 'r) npc) res" where
  "dpi_answer c call s =
    (case call of
       Itrace_commit p i npc \<Rightarrow> Inr (0, npc_itrace_commit c p i npc s)
     | Perf_event e d \<Rightarrow> Inr (0, s\<lparr>npc_perf := npc_perf_event e d (npc_perf s)\<rparr>)
     | Perf_commit k n \<Rightarrow> Inr (0, s\<lparr>npc_perf := npc_perf_commit k n (npc_perf s)\<rparr>)
     | Trap a0 \<Rightarrow> Inr (0, npc_trap a0 s)
     | Mrom_read a \<Rightarrow> ebind (mrom_read a s) (\<lambda>v. Inr (v, s))
     | Flash_read a \<Rightarrow> Inr (flash_read a s, s)
     | Pmem_read a \<Rightarrow> Inr (npc_pmem_read a s)
     | Pmem_write a d m \<Rightarrow> Inr (0, npc_pmem_write a d m s)
     | Reset_pc \<Rightarrow> Inr (npc_reset_pc s, s))"

primrec run_dut :: "npc_config \<Rightarrow> 'd dut_run \<Rightarrow> ('d, 'r) npc \<Rightarrow> ('d, 'r) npc res" where
  "run_dut c (Eval_done d) s = Inr (s\<lparr>npc_dut := d\<rparr>)"
| "run_dut c (Dpi_call call k) s = ebind (dpi_answer c call s) (\<lambda>r. run_dut c (k (fst r)) (snd r))"

definition eval_clock :: "npc_config \<Rightarrow> 'd dut_ops \<Rightarrow> bool \<Rightarrow> ('d, 'r) npc \<Rightarrow> ('d, 'r) npc res" where
  "eval_clock c D level s =
    (let s1 = s\<lparr>npc_pins := (npc_pins s)\<lparr>clock := level\<rparr>\<rparr> in run_dut c (dut_eval D (npc_pins s1) (npc_dut s1)) s1)"

definition single_cycle :: "npc_config \<Rightarrow> 'd dut_ops \<Rightarrow> ('d, 'r) npc \<Rightarrow> ('d, 'r) npc res" where
  "single_cycle c D s =
    (case drive_uart_rx (npc_uart s) of (level, u) \<Rightarrow>
       ebind (eval_clock c D False (s\<lparr>npc_uart := u, npc_pins := (npc_pins s)\<lparr>uart_rx := level\<rparr>\<rparr>)) (\<lambda>s1.
       ebind (eval_clock c D True s1) (\<lambda>s2.
         Inr (s2\<lparr>npc_perf := (npc_perf s2)\<lparr>perf_cycles := perf_cycles (npc_perf s2) + 1\<rparr>\<rparr>))))"

primrec cycles :: "npc_config \<Rightarrow> 'd dut_ops \<Rightarrow> nat \<Rightarrow> ('d, 'r) npc \<Rightarrow> ('d, 'r) npc res" where
  "cycles c D 0 s = Inr s"
| "cycles c D (Suc n) s = ebind (single_cycle c D s) (cycles c D n)"

definition npc_reset :: "npc_config \<Rightarrow> 'd dut_ops \<Rightarrow> nat \<Rightarrow> ('d, 'r) npc \<Rightarrow> ('d, 'r) npc res" where
  "npc_reset c D n s =
    ebind (cycles c D n (s\<lparr>npc_pins := (npc_pins s)\<lparr>reset_pin := True\<rparr>, npc_uart := (npc_uart s)\<lparr>uart_stdin_enabled := False\<rparr>\<rparr>))
      (\<lambda>s1. Inr (s1\<lparr>npc_pins := (npc_pins s1)\<lparr>reset_pin := False\<rparr>,
                    npc_uart := (npc_uart s1)\<lparr>uart_stdin_enabled := uart_stdin_requested (npc_uart s1)\<rparr>\<rparr>))"

section \<open>Differential testing and execution\<close>

definition dut_gprs :: "'d dut_ops \<Rightarrow> 'd \<Rightarrow> u32 list" where
  "dut_gprs D d = map (npc_read_gpr D d) [0..<16]"

definition take_bytes :: "bytes \<Rightarrow> nat \<Rightarrow> u8 list" where
  "take_bytes b n = map b [0..<n]"

text \<open>
  \<^verbatim>\<open>init_difftest\<close> with the state of the loaded reference, \<open>None\<close> when no shared object is given. The image is copied
  after the SRAM has been cleared, then the registers of the chip replace those of the reference.
\<close>

definition npc_init_difftest :: "npc_config \<Rightarrow> 'd dut_ops \<Rightarrow> 'r npc_ref_ops \<Rightarrow> 'r option \<Rightarrow> ('d, 'r) npc \<Rightarrow> ('d, 'r) npc" where
  "npc_init_difftest c D R ref s =
    (if \<not> ENABLE_DIFFTEST c then s
     else case ref of
       None \<Rightarrow> s
     | Some r0 \<Rightarrow>
         let r1 = npc_ref_init R r0;
             s1 = s\<lparr>npc_sram := (\<lambda>_. 0)\<rparr>;
             r2 = npc_ref_memcpy R MROM_BASE (take_bytes (npc_mrom s1) (unat MROM_SIZE)) r1;
             r3 = npc_ref_memcpy R SRAM_BASE (take_bytes (npc_sram s1) (unat SRAM_SIZE)) r2;
             r4 = (if flash_boot s1 then npc_ref_memcpy R FLASH_BASE (take_bytes (npc_flash s1) (img_size_loaded s1)) r3 else r3);
             ctx = (npc_ref_get R r4)\<lparr>ctx_pc := npc_read_pc D (npc_dut s1), ctx_gpr := dut_gprs D (npc_dut s1)\<rparr> in
         s1\<lparr>ref_loaded := Some (npc_ref_set R ctx r4)\<rparr>)"

definition npc_checkregs :: "'d dut_ops \<Rightarrow> 'd \<Rightarrow> diff_context \<Rightarrow> unit res" where
  "npc_checkregs D d ref =
    (if npc_read_pc D d \<noteq> ctx_pc ref \<or> (\<exists>i < 16. npc_read_gpr D d i \<noteq> ctx_gpr ref ! i) then Inl Assert_fail else Inr ())"

text \<open>The difftest step of \<^verbatim>\<open>cpu_exec\<close> after a committed instruction.\<close>

definition difftest_commit :: "npc_config \<Rightarrow> 'd dut_ops \<Rightarrow> 'r npc_ref_ops \<Rightarrow> ('d, 'r) npc \<Rightarrow> ('d, 'r) npc res" where
  "difftest_commit c D R s =
    (if \<not> ENABLE_DIFFTEST c then Inr s
     else case ref_loaded s of
       None \<Rightarrow> Inr s
     | Some r \<Rightarrow>
         if npc_check_skip D (npc_dut s) \<or> npc_skip_ref s then
           let ctx = (npc_ref_get R r)\<lparr>ctx_gpr := dut_gprs D (npc_dut s), ctx_pc := npc_read_pc D (npc_dut s)\<rparr> in
           Inr (s\<lparr>ref_loaded := Some (npc_ref_set R ctx r), npc_skip_ref := False\<rparr>)
         else
           let r' = npc_ref_exec R r in
           ebind (npc_checkregs D (npc_dut s) (npc_ref_get R r')) (\<lambda>_. Inr (s\<lparr>ref_loaded := Some r'\<rparr>)))"

text \<open>
  \<^verbatim>\<open>cpu_exec\<close> loops until \<open>n\<close> instructions have committed or the simulation has finished; a chip that does
  neither keeps it running forever, which is the value \<open>None\<close>.
\<close>

partial_function (option) npc_cpu_exec ::
    "npc_config \<Rightarrow> 'd dut_ops \<Rightarrow> 'r npc_ref_ops \<Rightarrow> nat \<Rightarrow> ('d, 'r) npc \<Rightarrow> ('d, 'r) npc res option" where
  "npc_cpu_exec c D R n s =
    (if n = 0 \<or> got_finish s then Some (Inr s)
     else case single_cycle c D s of
       Inl e \<Rightarrow> Some (Inl e)
     | Inr s1 \<Rightarrow>
         if npc_is_commit D (npc_dut s1) then
           (case difftest_commit c D R (s1\<lparr>npc_perf := (npc_perf s1)\<lparr>perf_insts := perf_insts (npc_perf s1) + 1\<rparr>\<rparr>) of
              Inl e \<Rightarrow> Some (Inl e)
            | Inr s2 \<Rightarrow> npc_cpu_exec c D R (n - 1) s2)
         else npc_cpu_exec c D R n s1)"

section \<open>The debugger\<close>

datatype npc_out =
    Npc_regs "u32 list"
  | Npc_mem "(u32 \<times> u32) list"
  | Npc_msg string

definition npc_reg_display :: "'d dut_ops \<Rightarrow> 'd \<Rightarrow> u32 list" where
  "npc_reg_display D d = map (npc_read_gpr D d) [0..<16]"

primrec scan_memory_from :: "nat \<Rightarrow> nat \<Rightarrow> u32 \<Rightarrow> ('d, 'r) npc \<Rightarrow> (u32 \<times> u32) list \<times> ('d, 'r) npc" where
  "scan_memory_from 0 i base s = ([], s)"
| "scan_memory_from (Suc k) i base s =
    (let addr = base + of_nat i * 4;
         (v, s1) = (if addr \<ge> MROM_BASE \<and> unat addr + 4 \<le> unat MROM_BASE + unat MROM_SIZE
                    then (load_le (npc_mrom s) (unat (addr - MROM_BASE)) 4, s) else npc_pmem_read addr s);
         (vs, s2) = scan_memory_from k (i + 1) base s1 in
     ((addr, v) # vs, s2))"

definition scan_memory :: "u32 \<Rightarrow> u32 \<Rightarrow> ('d, 'r) npc \<Rightarrow> (u32 \<times> u32) list \<times> ('d, 'r) npc" where
  "scan_memory n base s = scan_memory_from (nat (sint n)) 0 base s"

text \<open>The words of a line, as successive calls of \<^verbatim>\<open>strtok\<close> with a blank deliver them.\<close>

fun strtok_words :: "string \<Rightarrow> string \<Rightarrow> string list" where
  "strtok_words [] w = (if w = [] then [] else [w])"
| "strtok_words (ch # cs) w =
    (if ch = CHR '' '' then (if w = [] then strtok_words cs [] else w # strtok_words cs []) else strtok_words cs (w @ [ch]))"

definition npc_atoi :: "string \<Rightarrow> u32" where
  "npc_atoi s = (case scan_d s of None \<Rightarrow> 0 | Some (v, _) \<Rightarrow> v)"

text \<open>
  One command: the output, whether the loop ends, and the new state. A count given to \<^verbatim>\<open>si\<close> is an \<^verbatim>\<open>int\<close> converted to
  \<^verbatim>\<open>uint64_t\<close>; an address that does not scan leaves the variable uninitialised.
\<close>

definition npc_command :: "npc_config \<Rightarrow> 'd dut_ops \<Rightarrow> 'r npc_ref_ops \<Rightarrow> string list \<Rightarrow> ('d, 'r) npc \<Rightarrow> (npc_out list \<times> bool \<times> ('d, 'r) npc) res option" where
  "npc_command c D R ws s =
    (let run = (\<lambda>n. map_option (\<lambda>r. ebind r (\<lambda>s'. Inr ([], False, s'))) (npc_cpu_exec c D R n s)) in
     case ws of
       [] \<Rightarrow> Some (Inr ([], False, s))
     | cmd # args \<Rightarrow>
         if cmd = ''c'' then run (2 ^ 64 - 1)
         else if cmd = ''q'' then Some (Inr ([], True, s))
         else if cmd = ''si'' then
           run (unat (scast (case args of [] \<Rightarrow> 1 | a # _ \<Rightarrow> npc_atoi a) :: u64))
         else if cmd = ''info'' then
           (if args \<noteq> [] \<and> hd args = ''r'' then Some (Inr ([Npc_regs (npc_reg_display D (npc_dut s))], False, s))
            else Some (Inr ([Npc_msg ''Usage: info r''], False, s)))
         else if cmd = ''x'' then
           (case args of
              a1 # a2 # _ \<Rightarrow>
                (case scan_x a2 of
                   None \<Rightarrow> Some (Inl (Undef ''uninitialised address''))
                 | Some (addr, _) \<Rightarrow>
                     (case scan_memory (npc_atoi a1) addr s of (vs, s') \<Rightarrow> Some (Inr ([Npc_mem vs], False, s'))))
            | _ \<Rightarrow> Some (Inr ([Npc_msg ''Usage: x N EXPR''], False, s)))
         else Some (Inr ([Npc_msg (''Unknown command: '' @ cmd)], False, s)))"

text \<open>The loop over the input lines; an empty line skips the test for the end of the simulation.\<close>

primrec npc_sdb_mainloop :: "npc_config \<Rightarrow> 'd dut_ops \<Rightarrow> 'r npc_ref_ops \<Rightarrow> string list \<Rightarrow> ('d, 'r) npc \<Rightarrow> (npc_out list \<times> ('d, 'r) npc) res option" where
  "npc_sdb_mainloop c D R [] s = Some (Inr ([], s))"
| "npc_sdb_mainloop c D R (line # lines) s =
    (let ws = strtok_words (takeWhile (\<lambda>ch. ch \<noteq> CHR 0x0A) line) [] in
     if ws = [] then npc_sdb_mainloop c D R lines s
     else case npc_command c D R ws s of
       None \<Rightarrow> None
     | Some (Inl e) \<Rightarrow> Some (Inl e)
     | Some (Inr (out, stop, s1)) \<Rightarrow>
         if stop \<or> got_finish s1 then Some (Inr (out, s1))
         else map_option (\<lambda>r. ebind r (\<lambda>(out', s2). Inr (out @ out', s2))) (npc_sdb_mainloop c D R lines s1))"

section \<open>Start-up\<close>

record npc_args =
  batch_mode :: bool
  arg_flash_boot :: bool
  arg_difftest :: bool
  pc_trace_path :: "string option"
  img_file :: "string option"
  elf_file :: "string option"

text \<open>The loop over the command line; a last \<^verbatim>\<open>--pc-trace\<close> without a path counts as a file name.\<close>

fun npc_parse_args :: "string list \<Rightarrow> npc_args \<Rightarrow> npc_args" where
  "npc_parse_args [] a = a"
| "npc_parse_args (x # xs) a =
    (if x = ''-b'' \<or> x = ''--batch'' then npc_parse_args xs (a\<lparr>batch_mode := True\<rparr>)
     else if x = ''--flash-boot'' then npc_parse_args xs (a\<lparr>arg_flash_boot := True\<rparr>)
     else if x = ''--no-difftest'' then npc_parse_args xs (a\<lparr>arg_difftest := False\<rparr>)
     else if x = ''--pc-trace'' \<and> xs \<noteq> [] then npc_parse_args (tl xs) (a\<lparr>pc_trace_path := Some (hd xs)\<rparr>)
     else if img_file a = None then npc_parse_args xs (a\<lparr>img_file := Some x\<rparr>)
     else if elf_file a = None then npc_parse_args xs (a\<lparr>elf_file := Some x\<rparr>)
     else npc_parse_args xs a)"

text \<open>
  The environment of a run: the environment variables, the files, the reference and the lines typed
  at the debugger.
\<close>

record 'r npc_env =
  env_pc_trace :: "string option"
  env_uart_stdin :: bool
  read_file :: "string \<Rightarrow> u8 list option"
  can_write :: "string \<Rightarrow> bool"
  read_elf :: "string \<Rightarrow> (bool \<times> u32 \<times> string \<times> u32) list option"
  env_ref :: 'r
  typed :: "string list"

definition npc_main :: "npc_config \<Rightarrow> 'd dut_ops \<Rightarrow> 'r npc_ref_ops \<Rightarrow> 'r npc_env \<Rightarrow> string list \<Rightarrow> ('d, 'r) npc \<Rightarrow> (npc_out list \<times> ('d, 'r) npc) res option" where
  "npc_main c D R env argv s0 =
    (let a = npc_parse_args argv \<lparr>batch_mode = False, arg_flash_boot = False, arg_difftest = True,
               pc_trace_path = env_pc_trace env, img_file = None, elf_file = None\<rparr>;
         s = s0\<lparr>npc_uart := (npc_uart s0)\<lparr>uart_stdin_requested := env_uart_stdin env\<rparr>, flash_boot := arg_flash_boot a\<rparr>;
         tracing = (\<exists>p. pc_trace_path a = Some p \<and> p \<noteq> []) in
     if tracing \<and> \<not> can_write env (the (pc_trace_path a)) then Some (Inl Assert_fail)
     else
       let s1 = init_flash (s\<lparr>pc_trace := (if tracing then Some [] else None)\<rparr>) in
       case load_img (map_option (read_file env) (img_file a)) s1 of
         Inl e \<Rightarrow> Some (Inl e)
       | Inr s2 \<Rightarrow>
           (case npc_reset c D 10 (init_elf (Option.bind (elf_file a) (read_elf env)) s2) of
              Inl e \<Rightarrow> Some (Inl e)
            | Inr s3 \<Rightarrow>
                let s4 = npc_init_difftest c D R (if arg_difftest a then Some (env_ref env) else None) (reset_perf_stats s3) in
                if batch_mode a
                then map_option (\<lambda>r. ebind r (\<lambda>s5. Inr ([], s5))) (npc_cpu_exec c D R (2 ^ 64 - 1) s4)
                else npc_sdb_mainloop c D R (typed env) s4))"

end
