(* ===== verification/Npc_Props.thy ===== *)
theory Npc_Props
  imports Npc_Sim
begin

text \<open>
  What the simulation driver of \<^theory_text>\<open>Npc_Sim\<close> guarantees: the receive line carries the typed bytes as serial
  frames, the execution loop ends and counts what it executed, the callbacks into the memories agree
  with the loaded image, and the performance counters are consistent.
\<close>

section \<open>The serial line\<close>

text \<open>The levels driven in \<open>n\<close> consecutive cycles.\<close>

primrec rx_wave :: "nat \<Rightarrow> uart \<Rightarrow> bool list \<times> uart" where
  "rx_wave 0 u = ([], u)"
| "rx_wave (Suc n) u = (case drive_uart_rx u of (l, u1) \<Rightarrow> case rx_wave n u1 of (ls, u2) \<Rightarrow> (l # ls, u2))"

lemma rx_wave_add:
  "rx_wave (m + n) u = (case rx_wave m u of (ls, u1) \<Rightarrow> case rx_wave n u1 of (ls', u2) \<Rightarrow> (ls @ ls', u2))"
  by (induction m arbitrary: u) (auto split: prod.splits)

definition shift_frame :: "u16 \<Rightarrow> u16" where
  "shift_frame f = drop_bit 1 f OR 0x200"

lemma bit_shift_frame: "bit (shift_frame f) j \<longleftrightarrow> bit f (Suc j) \<or> j = 9"
proof -
  have "(0x200 :: u16) = push_bit 9 1" by simp
  then have "bit (0x200 :: u16) j \<longleftrightarrow> j = 9" by (simp only: bit_push_bit_iff) (auto simp: bit_1_iff)
  then show ?thesis by (simp add: shift_frame_def bit_or_iff bit_drop_bit_eq)
qed

lemma bit_shift_frames: "i + j \<le> 9 \<Longrightarrow> bit ((shift_frame ^^ i) f) j \<longleftrightarrow> bit f (i + j)"
  by (induction i arbitrary: j) (auto simp: bit_shift_frame)

text \<open>The remaining ticks of a bit hold its level, then the frame moves on by one bit.\<close>

lemma rx_ticks:
  assumes "uart_stdin_enabled u" "uart_rx_bits u > 0" "uart_rx_ticks u = int (Suc k)"
  shows "rx_wave (Suc k) u =
    (replicate (Suc k) (bit (uart_rx_frame u) 0),
     u\<lparr>uart_rx_frame := shift_frame (uart_rx_frame u), uart_rx_bits := uart_rx_bits u - 1, uart_rx_ticks := 16\<rparr>)"
  using assms
proof (induction k arbitrary: u)
  case 0
  then show ?case by (simp add: drive_uart_rx_def UART_BIT_TICKS_def shift_frame_def Let_def)
next
  case (Suc k)
  have "drive_uart_rx u = (bit (uart_rx_frame u) 0, u\<lparr>uart_rx_ticks := int (Suc k)\<rparr>)"
    using Suc.prems by (simp add: drive_uart_rx_def Let_def)
  then show ?case using Suc.IH [of "u\<lparr>uart_rx_ticks := int (Suc k)\<rparr>"] Suc.prems by simp
qed

lemma rx_bits:
  assumes "uart_stdin_enabled u" "uart_rx_bits u = int b" "uart_rx_ticks u = 16"
  shows "rx_wave (16 * b) u =
    (concat (map (\<lambda>i. replicate 16 (bit ((shift_frame ^^ i) (uart_rx_frame u)) 0)) [0..<b]),
     u\<lparr>uart_rx_frame := (shift_frame ^^ b) (uart_rx_frame u), uart_rx_bits := 0\<rparr>)"
  using assms
proof (induction b arbitrary: u)
  case (Suc b)
  let ?u = "u\<lparr>uart_rx_frame := shift_frame (uart_rx_frame u), uart_rx_bits := int b, uart_rx_ticks := 16\<rparr>"
  have one: "rx_wave 16 u = (replicate 16 (bit (uart_rx_frame u) 0), ?u)"
    using rx_ticks [of u 15] Suc.prems by simp
  have "[0..<Suc b] = 0 # map Suc [0..<b]" by (simp add: upt_conv_Cons map_Suc_upt)
  then have split: "map (\<lambda>i. replicate 16 (bit ((shift_frame ^^ i) (uart_rx_frame u)) 0)) [0..<Suc b] =
      replicate 16 (bit (uart_rx_frame u) 0) #
      map (\<lambda>i. replicate 16 (bit ((shift_frame ^^ i) (shift_frame (uart_rx_frame u))) 0)) [0..<b]"
    by (simp add: funpow_swap1 del: upt_Suc)
  have "16 * Suc b = 16 + 16 * b" by simp
  then show ?case
    using Suc.IH [of ?u] Suc.prems
    by (simp add: rx_wave_add one split funpow_swap1 del: upt_Suc mult_Suc_right)
qed simp

text \<open>A byte as a serial frame: a low start bit, the data from the low bit on, a high stop bit, 16 cycles each.\<close>

definition frame_wave :: "u8 \<Rightarrow> bool list" where
  "frame_wave b = replicate 16 False @ concat (map (\<lambda>i. replicate 16 (bit b i)) [0..<8]) @ replicate 16 True"

text \<open>A receiver that samples every data bit in its middle.\<close>

definition sample_frame :: "bool list \<Rightarrow> u8" where
  "sample_frame w = horner_sum of_bool 2 (map (\<lambda>i. w ! (16 * i + 24)) [0..<8])"

lemma sample_frame_wave: "sample_frame (frame_wave b) = b"
proof -
  have "[0..<8 :: nat] = [0, 1, 2, 3, 4, 5, 6, 7]" by (simp add: upt_rec)
  then have e: "map (\<lambda>i. frame_wave b ! (16 * i + 24)) [0..<8] = map (bit b) [0..<8]"
    by (simp add: frame_wave_def nth_append)
  show ?thesis unfolding sample_frame_def e horner_sum_bit_eq_take_bit by (simp add: take_bit_word_eq_self)
qed

definition loaded :: "u8 \<Rightarrow> uart \<Rightarrow> uart" where
  "loaded ch u = u\<lparr>uart_rx_frame := push_bit 9 1 OR push_bit 1 (ucast ch), uart_rx_bits := 10, uart_rx_ticks := 16,
     stdin_bytes := tl (stdin_bytes u)\<rparr>"

lemma drive_load:
  assumes "uart_stdin_enabled u" "uart_rx_bits u = 0" "stdin_bytes u = Some ch # rest"
  shows "drive_uart_rx u = drive_uart_rx (loaded ch u)"
  using assms by (simp add: drive_uart_rx_def read_uart_stdin_byte_def loaded_def UART_BIT_TICKS_def Let_def)

lemma frame_bits:
  assumes "i < 10"
  shows "bit ((shift_frame ^^ i) (push_bit 9 1 OR push_bit 1 (ucast ch))) 0 \<longleftrightarrow> i = 9 \<or> (0 < i \<and> bit (ch :: u8) (i - 1))"
proof -
  have "bit (push_bit 9 1 :: u16) i \<longleftrightarrow> i = 9" by (simp only: bit_push_bit_iff) (auto simp: bit_1_iff)
  moreover have "bit (push_bit 1 (ucast ch) :: u16) i \<longleftrightarrow> 0 < i \<and> bit ch (i - 1)"
    by (simp only: bit_push_bit_iff) (use assms in \<open>auto simp: bit_ucast_iff\<close>)
  ultimately show ?thesis
    using bit_shift_frames [of i 0 "push_bit 9 1 OR push_bit 1 (ucast ch)"] assms
    by (simp only: bit_or_iff add_0_right)
qed

lemma rx_frame:
  assumes "uart_stdin_enabled u" "uart_rx_bits u = 0" "stdin_bytes u = Some ch # rest"
  shows "\<exists>u'. rx_wave 160 u = (frame_wave ch, u') \<and> uart_stdin_enabled u' \<and> uart_rx_bits u' = 0 \<and> stdin_bytes u' = rest"
proof -
  have ten: "[0..<10 :: nat] = [0, 1, 2, 3, 4, 5, 6, 7, 8, 9]" and eight: "[0..<8 :: nat] = [0, 1, 2, 3, 4, 5, 6, 7]"
    by (simp_all add: upt_rec)
  let ?f = "push_bit 9 1 OR push_bit 1 (ucast ch) :: u16"
  have "map (\<lambda>i. replicate 16 (bit ((shift_frame ^^ i) ?f) 0)) [0..<10] =
      map (\<lambda>i. replicate 16 (i = 9 \<or> (0 < i \<and> bit ch (i - 1)))) [0..<10]"
    using frame_bits [of _ ch] by simp
  then have "concat (map (\<lambda>i. replicate 16 (bit ((shift_frame ^^ i) ?f) 0)) [0..<10]) = frame_wave ch"
    by (simp only: frame_wave_def ten eight) simp
  then have "rx_wave 160 (loaded ch u) = (frame_wave ch,
      (loaded ch u)\<lparr>uart_rx_frame := (shift_frame ^^ 10) ?f, uart_rx_bits := 0\<rparr>)"
    using rx_bits [of "loaded ch u" 10] assms(1) by (simp add: loaded_def)
  moreover have "rx_wave (Suc 159) u = rx_wave (Suc 159) (loaded ch u)"
    using drive_load [OF assms] by (simp only: rx_wave.simps)
  ultimately show ?thesis using assms by (simp add: loaded_def)
qed

text \<open>
  typed bytes reach the chip as serial frames. With the serial input enabled and the line idle, the
  receive pin carries, for any sequence of available bytes and without gaps, one frame of 160 cycles
  per byte: low start bit, data from the low bit on, high stop bit; a receiver that samples the middle
  of the data bits gets the bytes back, and the line is idle again with exactly these bytes consumed.
\<close>

lemma uart_rx_roundtrip:
  assumes "uart_stdin_enabled u" "uart_rx_bits u = 0" "stdin_bytes u = map Some bs @ rest"
  shows "\<exists>u'. rx_wave (160 * length bs) u = (concat (map frame_wave bs), u') \<and>
    uart_rx_bits u' = 0 \<and> stdin_bytes u' = rest \<and> map sample_frame (map frame_wave bs) = bs"
  using assms
proof (induction bs arbitrary: u)
  case Nil
  then show ?case by simp
next
  case (Cons b bs)
  obtain u1 where u1: "rx_wave 160 u = (frame_wave b, u1)" "uart_stdin_enabled u1" "uart_rx_bits u1 = 0"
    "stdin_bytes u1 = map Some bs @ rest"
    using rx_frame [of u b] Cons.prems by auto
  have "160 * length (b # bs) = 160 + 160 * length bs" by simp
  then show ?case
    using Cons.IH [OF u1(2-4)] u1(1) by (auto simp: rx_wave_add sample_frame_wave simp del: mult_Suc_right)
qed

definition uart_idle :: "u8 option list \<Rightarrow> uart" where
  "uart_idle inp = \<lparr>uart_stdin_enabled = True, uart_stdin_requested = True, uart_rx_frame = 0x3ff, uart_rx_bits = 0,
     uart_rx_ticks = 0, stdin_bytes = inp\<rparr>"

section \<open>The execution loop\<close>

lemma npc_perf_event_insts [simp]: "perf_insts (npc_perf_event e d p) = perf_insts p"
  by (simp add: npc_perf_event_def)

lemma npc_perf_commit_insts [simp]: "perf_insts (npc_perf_commit k n p) = perf_insts p"
  by (simp add: npc_perf_commit_def Let_def)

lemma itrace_keeps [simp]:
  "npc_perf (npc_itrace_commit c p i npc s) = npc_perf s" "got_finish (npc_itrace_commit c p i npc s) = got_finish s"
  by (simp_all add: npc_itrace_commit_def ftrace_print_def Let_def)

lemma dpi_answer_insts: "dpi_answer c call s = Inr (v, s') \<Longrightarrow> perf_insts (npc_perf s') = perf_insts (npc_perf s)"
  by (auto simp: dpi_answer_def npc_trap_def npc_pmem_read_def npc_pmem_write_def split: dpi.splits if_splits)

lemma run_dut_insts: "run_dut c r s = Inr s' \<Longrightarrow> perf_insts (npc_perf s') = perf_insts (npc_perf s)"
proof (induction r arbitrary: s)
  case (Dpi_call call k)
  then obtain v s1 where a: "dpi_answer c call s = Inr (v, s1)" "run_dut c (k v) s1 = Inr s'" by auto
  then show ?case using Dpi_call.IH [OF rangeI a(2)] dpi_answer_insts [OF a(1)] by simp
qed auto

lemma single_cycle_insts: "single_cycle c D s = Inr s' \<Longrightarrow> perf_insts (npc_perf s') = perf_insts (npc_perf s)"
  by (fastforce simp: single_cycle_def eval_clock_def Let_def dest: run_dut_insts split: prod.splits)

lemma difftest_commit_perf: "difftest_commit c D R s = Inr s' \<Longrightarrow> npc_perf s' = npc_perf s"
  by (auto simp: difftest_commit_def Let_def split: if_splits option.splits)

text \<open>Within \<open>k\<close> cycles the chip commits an instruction, ends the simulation, or fails.\<close>

primrec advances :: "npc_config \<Rightarrow> 'd dut_ops \<Rightarrow> nat \<Rightarrow> ('d, 'r) npc \<Rightarrow> bool" where
  "advances c D 0 s \<longleftrightarrow> False"
| "advances c D (Suc k) s \<longleftrightarrow>
    (case single_cycle c D s of
       Inl e \<Rightarrow> True
     | Inr s1 \<Rightarrow> npc_is_commit D (npc_dut s1) \<or> got_finish s1 \<or> advances c D k s1)"

definition exec_done :: "nat \<Rightarrow> ('d, 'r) npc \<Rightarrow> ('d, 'r) npc res \<Rightarrow> bool" where
  "exec_done n s r \<longleftrightarrow> (\<forall>s'. r = Inr s' \<longrightarrow>
     (\<exists>m \<le> n. perf_insts (npc_perf s') = perf_insts (npc_perf s) + of_nat m \<and> (got_finish s' \<or> m = n)))"

lemma exec_done_refl: "n = 0 \<or> got_finish s \<Longrightarrow> exec_done n s (Inr s)"
  by (auto simp: exec_done_def)

lemma exec_done_step:
  assumes "exec_done n s1 r" "perf_insts (npc_perf s1) = perf_insts (npc_perf s) + 1"
  shows "exec_done (Suc n) s r"
  unfolding exec_done_def
proof (intro allI impI)
  fix s' assume "r = Inr s'"
  then obtain m where "m \<le> n" "perf_insts (npc_perf s') = perf_insts (npc_perf s1) + of_nat m" "got_finish s' \<or> m = n"
    using assms(1) by (auto simp: exec_done_def)
  then show "\<exists>m \<le> Suc n. perf_insts (npc_perf s') = perf_insts (npc_perf s) + of_nat m \<and> (got_finish s' \<or> m = Suc n)"
    using assms(2) by (intro exI [of _ "Suc m"]) (simp add: add.assoc)
qed

lemma cpu_exec_one:
  assumes "\<And>s1. \<exists>r. npc_cpu_exec c D R n s1 = Some r \<and> exec_done n s1 r"
  shows "advances c D k s \<Longrightarrow> \<exists>r. npc_cpu_exec c D R (Suc n) s = Some r \<and> exec_done (Suc n) s r"
proof (induction k arbitrary: s)
  case (Suc k)
  show ?case
  proof (cases "got_finish s")
    case True
    then show ?thesis by (subst npc_cpu_exec.simps) (simp add: exec_done_refl)
  next
    case False
    show ?thesis
    proof (cases "single_cycle c D s")
      case (Inl e)
      then show ?thesis using False by (subst npc_cpu_exec.simps) (simp add: exec_done_def)
    next
      case (Inr s1)
      note i1 = single_cycle_insts [OF Inr]
      let ?s1 = "s1\<lparr>npc_perf := (npc_perf s1)\<lparr>perf_insts := perf_insts (npc_perf s1) + 1\<rparr>\<rparr>"
      show ?thesis
      proof (cases "npc_is_commit D (npc_dut s1)")
        case True
        show ?thesis
        proof (cases "difftest_commit c D R ?s1")
          case (Inr s2)
          obtain r where r: "npc_cpu_exec c D R n s2 = Some r" "exec_done n s2 r" using assms by blast
          have "exec_done (Suc n) s r"
            using exec_done_step [OF r(2), of s] difftest_commit_perf [OF Inr] i1 by simp
          then show ?thesis
            using False True Inr \<open>single_cycle c D s = Inr s1\<close> r(1) by (subst npc_cpu_exec.simps) simp
        qed (use False True Inr in \<open>subst npc_cpu_exec.simps; simp add: exec_done_def\<close>)
      next
        case nc: False
        show ?thesis
        proof (cases "got_finish s1")
          case True
          have "npc_cpu_exec c D R (Suc n) s = npc_cpu_exec c D R (Suc n) s1"
            using False Inr nc by (subst npc_cpu_exec.simps) simp
          also have "\<dots> = Some (Inr s1)" using True by (subst npc_cpu_exec.simps) simp
          finally show ?thesis using True i1 by (auto simp: exec_done_def)
        next
          case nf: False
          then obtain r where "npc_cpu_exec c D R (Suc n) s1 = Some r" "exec_done (Suc n) s1 r"
            using Suc nc Inr by auto
          then show ?thesis
            using False Inr nc i1 by (subst npc_cpu_exec.simps) (auto simp: exec_done_def)
        qed
      qed
    qed
  qed
qed simp

text \<open>
  C13: the execution loop ends and counts exactly. If the chip always commits an instruction, ends the
  simulation or fails after finitely many cycles, then \<^verbatim>\<open>cpu_exec(n)\<close> returns; when it returns without an
  error, either the simulation has finished or exactly \<open>n\<close> instructions have been committed, and the
  instruction counter has grown by the number committed.
\<close>

theorem npc_cpu_exec_returns:
  assumes "\<And>s' :: ('d, 'r) npc. \<exists>k. advances c D k s'"
  shows "\<exists>r. npc_cpu_exec c D R n (s :: ('d, 'r) npc) = Some r \<and>
    (\<forall>s'. r = Inr s' \<longrightarrow> (\<exists>m \<le> n. perf_insts (npc_perf s') = perf_insts (npc_perf s) + of_nat m \<and> (got_finish s' \<or> m = n)))"
proof -
  have "\<exists>r. npc_cpu_exec c D R n s = Some r \<and> exec_done n s r" for n and s :: "('d, 'r) npc"
  proof (induction n arbitrary: s)
    case 0
    then show ?case by (subst npc_cpu_exec.simps) (simp add: exec_done_refl)
  next
    case (Suc n)
    obtain k where "advances c D k s" using assms by blast
    then show ?case by (rule cpu_exec_one [OF Suc.IH])
  qed
  then show ?thesis by (simp add: exec_done_def)
qed

text \<open>A chip that commits in every second cycle.\<close>

definition toggle_dut :: "bool dut_ops" where
  "toggle_dut = \<lparr>dut_eval = (\<lambda>p d. Eval_done (if clock p then \<not> d else d)), npc_read_gpr = (\<lambda>_ _. 0), npc_read_pc = (\<lambda>_. 0),
     npc_is_commit = (\<lambda>d. d), npc_check_skip = (\<lambda>_. False)\<rparr>"

definition npc_start :: "'d \<Rightarrow> ('d, 'r) npc" where
  "npc_start d = \<lparr>npc_dut = d, npc_pins = \<lparr>clock = False, reset_pin = False, uart_rx = True\<rparr>, npc_uart = uart_idle [],
     npc_mrom = (\<lambda>_. 0), npc_sram = (\<lambda>_. 0), npc_flash = (\<lambda>_. 0), img_size_loaded = 0, flash_boot = False, npc_skip_ref = False,
     symbol_table = [], call_depth = 0, ftrace_log = [], pc_trace = None, npc_perf = perf_zero, got_finish = False, ref_loaded = None\<rparr>"

definition no_ref :: "unit npc_ref_ops" where
  "no_ref = \<lparr>npc_ref_memcpy = (\<lambda>_ _ r. r), npc_ref_get = (\<lambda>_. \<lparr>ctx_gpr = [], ctx_pc = 0, ctx_csr = []\<rparr>),
     npc_ref_set = (\<lambda>_ r. r), npc_ref_exec = id, npc_ref_init = id\<rparr>"

lemma toggle_cycle:
  "\<exists>s1. single_cycle c toggle_dut s = Inr s1 \<and> npc_dut s1 = (\<not> npc_dut s)"
  by (simp add: single_cycle_def eval_clock_def toggle_dut_def Let_def split: prod.splits)

theorem npc_cpu_exec_returns_witness:
  "\<exists>r. npc_cpu_exec npc_defconfig toggle_dut no_ref 3 (npc_start False) = Some r \<and>
     (\<forall>s'. r = Inr s' \<longrightarrow> (\<exists>m \<le> 3. perf_insts (npc_perf s') = of_nat m \<and> (got_finish s' \<or> m = 3)))"
proof -
  have "\<exists>k. advances npc_defconfig toggle_dut k s'" for s' :: "(bool, unit) npc"
  proof -
    obtain s1 where s1: "single_cycle npc_defconfig toggle_dut s' = Inr s1" using toggle_cycle by blast
    obtain s2 where s2: "single_cycle npc_defconfig toggle_dut s1 = Inr s2" "npc_dut s2 = (\<not> npc_dut s1)" using toggle_cycle by blast
    have "advances npc_defconfig toggle_dut (Suc (Suc 0)) s'"
      using s1 s2 by (simp add: toggle_dut_def)
    then show ?thesis by blast
  qed
  from npc_cpu_exec_returns [OF this, of no_ref 3 "npc_start False"]
  show ?thesis by (simp add: npc_start_def perf_zero_def)
qed

section \<open>Images and memories\<close>

lemma put_bytes_nth: "put_bytes b a xs j = (if a \<le> j \<and> j < a + length xs then xs ! (j - a) else b j)"
  by (induction xs arbitrary: b a) (auto simp: nth_Cons' Suc_diff_Suc)

text \<open>The chip fetches from the MROM the words of the loaded image, from the address it starts at.\<close>

lemma mrom_fetch_image:
  assumes "load_img (Some (Some bs)) s = Inr s'" "\<not> flash_boot s" "4 * i + 4 \<le> length bs"
  shows "npc_reset_pc s' = MROM_BASE" "mrom_read (MROM_BASE + of_nat (4 * i)) s' = Inr (load_le (\<lambda>j. bs ! j) (4 * i) 4)"
proof -
  have s': "s' = s\<lparr>npc_mrom := put_bytes (npc_mrom s) 0 bs, img_size_loaded := length bs\<rparr>" and len: "length bs \<le> 0x1000"
    using assms(1,2) by (auto simp: load_img_def Let_def MROM_SIZE_def split: if_splits)
  show "npc_reset_pc s' = MROM_BASE" using assms(2) s' by (simp add: npc_reset_pc_def)
  have "i < 0x400" using len assms(3) by simp
  then have a: "unat (of_nat (4 * i) :: u32) = 4 * i"
    unfolding unat_of_nat by (simp add: take_bit_nat_eq_self)
  have "MROM_BASE + of_nat (4 * i) \<ge> MROM_BASE" "MROM_BASE + of_nat (4 * i) < MROM_BASE + MROM_SIZE"
    using a \<open>i < 0x400\<close> by (simp_all add: word_le_nat_alt word_less_nat_alt unat_word_ariths MROM_BASE_def MROM_SIZE_def)
  moreover have "load_le (put_bytes (npc_mrom s) 0 bs) (4 * i) 4 = load_le (\<lambda>j. bs ! j) (4 * i) 4"
    using assms(3) by (intro load_le_cong) (simp add: put_bytes_nth)
  ultimately show "mrom_read (MROM_BASE + of_nat (4 * i)) s' = Inr (load_le (\<lambda>j. bs ! j) (4 * i) 4)"
    using a \<open>i < 0x400\<close> unfolding mrom_read_def s' by (simp add: MROM_SIZE_def)
qed

text \<open>The last three byte addresses of the MROM pass the range check although the word leaves the array.\<close>

lemma mrom_read_overrun: "mrom_read 0x20000ffd s = Inl (Undef ''out-of-bounds read'')"
  by (simp add: mrom_read_def MROM_BASE_def MROM_SIZE_def)

lemma mask_write_nth:
  "mask_write b off wdata wmask n j =
    (if off \<le> j \<and> j < off + n \<and> bit wmask (j - off) then ucast (drop_bit ((j - off) * 8) wdata) else b j)"
  by (induction n) (auto simp: Let_def less_Suc_eq)

text \<open>A masked write changes exactly the bytes its mask selects.\<close>

lemma npc_pmem_write_bytes:
  assumes "in_sram4 addr" "off = unat (addr - SRAM_BASE)"
  shows "npc_sram (npc_pmem_write addr wdata wmask s) j =
    (if off \<le> j \<and> j < off + 4 \<and> bit wmask (j - off) then ucast (drop_bit ((j - off) * 8) wdata) else npc_sram s j)"
  using assms by (simp add: npc_pmem_write_def mask_write_nth)

section \<open>Counters\<close>

lemma sum_list_update64: "k < length xs \<Longrightarrow> sum_list (xs[k := xs ! k + 1]) = sum_list xs + (1 :: u64)"
  by (induction xs arbitrary: k) (auto split: nat.splits simp: algebra_simps)

text \<open>Every commit is counted in exactly one category, whatever category the chip reports.\<close>

lemma perf_commit_counts:
  assumes "length (perf_cat_count p) = PERF_CAT_NR"
  shows "sum_list (perf_cat_count (npc_perf_commit k n p)) = sum_list (perf_cat_count p) + 1"
    "length (perf_cat_count (npc_perf_commit k n p)) = PERF_CAT_NR"
proof -
  have "unat k < 8" if "\<not> c_slt k 0" "c_slt k 8"
  proof -
    have "0 \<le> sint k" "sint k < 8" using that by (simp_all add: c_slt_def)
    then show ?thesis using nat_sint_pos [of k] by linarith
  qed
  then show "sum_list (perf_cat_count (npc_perf_commit k n p)) = sum_list (perf_cat_count p) + 1"
    using assms by (auto simp: npc_perf_commit_def Let_def PERF_CAT_NR_def PERF_CAT_OTHER_def intro!: sum_list_update64)
qed (use assms in \<open>simp add: npc_perf_commit_def Let_def\<close>)

end
