(* ===== verification/Am_Nemu_Ioe.thy ===== *)
theory Am_Nemu_Ioe
  imports Nemu_Devices
begin

text \<open>
  The I/O extension of the abstract machine on NEMU (\<^verbatim>\<open>am/src/platform/nemu/ioe\<close> and \<^verbatim>\<open>trm.c\<close>): guest code that
  accesses devices through volatile reads and writes. The accesses are a parameter, a record of
  functions on the state of the hardware that may fail; every driver function is stated over them, and
  the last sections run the drivers on the memory map of \<^theory_text>\<open>Nemu_Io_Map\<close> with the devices of \<^theory_text>\<open>Nemu_Devices\<close>.
\<close>

section \<open>Hardware accesses\<close>

record 'h hw =
  hw_inb :: "u32 \<Rightarrow> 'h \<Rightarrow> (u8 \<times> 'h) res"
  hw_inl :: "u32 \<Rightarrow> 'h \<Rightarrow> (u32 \<times> 'h) res"
  hw_outb :: "u32 \<Rightarrow> u8 \<Rightarrow> 'h \<Rightarrow> 'h res"
  hw_outl :: "u32 \<Rightarrow> u32 \<Rightarrow> 'h \<Rightarrow> 'h res"

text \<open>The addresses of \<^verbatim>\<open>nemu.h\<close> for the ISAs with memory-mapped devices.\<close>

definition SERIAL_PORT :: u32 where "SERIAL_PORT = 0xa00003f8"
definition KBD_ADDR :: u32 where "KBD_ADDR = 0xa0000060"
definition RTC_ADDR :: u32 where "RTC_ADDR = 0xa0000048"
definition VGACTL_ADDR :: u32 where "VGACTL_ADDR = 0xa0000100"
definition AUDIO_ADDR :: u32 where "AUDIO_ADDR = 0xa0000200"
definition FB_ADDR :: u32 where "FB_ADDR = 0xa1000000"
definition AUDIO_SBUF_ADDR :: u32 where "AUDIO_SBUF_ADDR = 0xa1200000"

text \<open>The static variables of the drivers beside the hardware.\<close>

record 'h am =
  am_hw :: 'h
  am_boot_time :: u64
  am_tail :: u32

definition on_hw :: "('h \<Rightarrow> ('v \<times> 'h) res) \<Rightarrow> 'h am \<Rightarrow> ('v \<times> 'h am) res" where
  "on_hw f s = ebind (f (am_hw s)) (\<lambda>(v, h). Inr (v, s\<lparr>am_hw := h\<rparr>))"

definition on_hw_do :: "('h \<Rightarrow> 'h res) \<Rightarrow> 'h am \<Rightarrow> 'h am res" where
  "on_hw_do f s = ebind (f (am_hw s)) (\<lambda>h. Inr (s\<lparr>am_hw := h\<rparr>))"

section \<open>Timer: timer.c\<close>

text \<open>The high word is read before and after the low word, and again until both agree.\<close>

partial_function (option) read_time :: "(u32 \<Rightarrow> 'h \<Rightarrow> (u32 \<times> 'h) res) \<Rightarrow> u32 \<Rightarrow> 'h \<Rightarrow> (u64 \<times> 'h) res option" where
  "read_time rd A h =
    (case rd (A + 4) h of
       Inl e \<Rightarrow> Some (Inl e)
     | Inr (hi, h1) \<Rightarrow>
         (case rd A h1 of
            Inl e \<Rightarrow> Some (Inl e)
          | Inr (lo, h2) \<Rightarrow>
              (case rd (A + 4) h2 of
                 Inl e \<Rightarrow> Some (Inl e)
               | Inr (hi_check, h3) \<Rightarrow>
                   if hi \<noteq> hi_check then read_time rd A h3
                   else Some (Inr (push_bit 32 (ucast hi) OR ucast lo, h3)))))"

definition am_timer_init :: "'h hw \<Rightarrow> 'h am \<Rightarrow> 'h am res option" where
  "am_timer_init H s =
    map_option (\<lambda>r. ebind r (\<lambda>(t, h). Inr (s\<lparr>am_hw := h, am_boot_time := t\<rparr>))) (read_time (hw_inl H) RTC_ADDR (am_hw s))"

definition am_timer_uptime :: "'h hw \<Rightarrow> 'h am \<Rightarrow> (u64 \<times> 'h am) res option" where
  "am_timer_uptime H s =
    map_option (\<lambda>r. ebind r (\<lambda>(t, h). Inr (t - am_boot_time s, s\<lparr>am_hw := h\<rparr>))) (read_time (hw_inl H) RTC_ADDR (am_hw s))"

record rtc_time =
  rtc_year :: int
  rtc_month :: int
  rtc_day :: int
  rtc_hour :: int
  rtc_minute :: int
  rtc_second :: int

definition am_timer_rtc :: rtc_time where
  "am_timer_rtc = \<lparr>rtc_year = 1900, rtc_month = 0, rtc_day = 0, rtc_hour = 0, rtc_minute = 0, rtc_second = 0\<rparr>"

section \<open>Keyboard: input.c\<close>

text \<open>The key-down flag and the key code.\<close>

definition am_input_keybrd :: "'h hw \<Rightarrow> 'h am \<Rightarrow> ((bool \<times> u32) \<times> 'h am) res" where
  "am_input_keybrd H s =
    ebind (on_hw (hw_inl H KBD_ADDR) s) (\<lambda>(k, s'). Inr ((k AND 0x8000 \<noteq> 0, k AND NOT 0x8000), s'))"

section \<open>Graphics: gpu.c\<close>

record gpu_config =
  gpu_present :: bool
  gpu_has_accel :: bool
  gpu_width :: u32
  gpu_height :: u32
  gpu_vmemsz :: u32

definition am_gpu_config :: "'h hw \<Rightarrow> 'h am \<Rightarrow> (gpu_config \<times> 'h am) res" where
  "am_gpu_config H s =
    ebind (on_hw (hw_inl H VGACTL_ADDR) s) (\<lambda>(config, s').
      let width = drop_bit 16 config; height = config AND 0xffff in
      Inr (\<lparr>gpu_present = True, gpu_has_accel = False, gpu_width = width, gpu_height = height,
            gpu_vmemsz = width * height * 4\<rparr>, s'))"

record gpu_fbdraw =
  draw_x :: u32
  draw_y :: u32
  draw_pixels :: "(nat \<Rightarrow> u32) option"
  draw_w :: u32
  draw_h :: u32
  draw_sync :: bool

text \<open>
  The two loops over the rectangle. The frame buffer index is computed in 32-bit unsigned arithmetic and every
  pixel is a store to the frame buffer region. The array of pixels is \<open>None\<close> for a null pointer, which the loop
  dereferences.
\<close>

primrec draw_row :: "'h hw \<Rightarrow> u32 \<Rightarrow> gpu_fbdraw \<Rightarrow> nat \<Rightarrow> nat \<Rightarrow> 'h \<Rightarrow> 'h res" where
  "draw_row H screen_w ctl i 0 h = Inr h"
| "draw_row H screen_w ctl i (Suc j) h =
    ebind (draw_row H screen_w ctl i j h) (\<lambda>h1.
      case draw_pixels ctl of
        None \<Rightarrow> Inl (Undef ''null pointer'')
      | Some pixels \<Rightarrow>
          hw_outl H (FB_ADDR + 4 * ((draw_y ctl + of_nat i) * screen_w + (draw_x ctl + of_nat j)))
            (pixels (i * nat (sint (draw_w ctl)) + j)) h1)"

primrec draw_rows :: "'h hw \<Rightarrow> u32 \<Rightarrow> gpu_fbdraw \<Rightarrow> nat \<Rightarrow> 'h \<Rightarrow> 'h res" where
  "draw_rows H screen_w ctl 0 h = Inr h"
| "draw_rows H screen_w ctl (Suc i) h =
    ebind (draw_rows H screen_w ctl i h) (draw_row H screen_w ctl i (nat (sint (draw_w ctl))))"

definition am_gpu_fbdraw :: "'h hw \<Rightarrow> gpu_fbdraw \<Rightarrow> 'h am \<Rightarrow> 'h am res" where
  "am_gpu_fbdraw H ctl s =
    ebind (on_hw (hw_inl H VGACTL_ADDR) s) (\<lambda>(config, s1).
    ebind (on_hw_do (draw_rows H (drop_bit 16 config) ctl (nat (sint (draw_h ctl)))) s1) (\<lambda>s2.
      if draw_sync ctl then on_hw_do (hw_outl H (VGACTL_ADDR + 4) 1) s2 else Inr s2))"

primrec copy_bytes :: "'h hw \<Rightarrow> u32 \<Rightarrow> (nat \<Rightarrow> u8) \<Rightarrow> nat \<Rightarrow> 'h \<Rightarrow> 'h res" where
  "copy_bytes H dst src 0 h = Inr h"
| "copy_bytes H dst src (Suc i) h =
    ebind (copy_bytes H dst src i h) (hw_outb H (dst + of_nat i) (src i))"

definition am_gpu_memcpy :: "'h hw \<Rightarrow> u32 \<Rightarrow> (nat \<Rightarrow> u8) \<Rightarrow> u32 \<Rightarrow> 'h am \<Rightarrow> 'h am res" where
  "am_gpu_memcpy H dest src sz s =
    ebind (on_hw (hw_inl H VGACTL_ADDR) s) (\<lambda>(wh, s1).
      let fb_size = drop_bit 16 wh * (wh AND 0xffff) * 4 in
      if dest \<ge> fb_size then Inr s1
      else
        let copy_size = (if dest + sz > fb_size then fb_size - dest else sz) in
        on_hw_do (copy_bytes H (FB_ADDR + dest) src (unat copy_size)) s1)"

definition am_gpu_render :: "'h hw \<Rightarrow> 'h am \<Rightarrow> 'h am res" where
  "am_gpu_render H s = on_hw_do (hw_outl H (VGACTL_ADDR + 4) 1) s"

section \<open>Audio: audio.c\<close>

definition am_audio_init :: "'h am \<Rightarrow> 'h am" where
  "am_audio_init s = s\<lparr>am_tail := 0\<rparr>"

definition am_audio_config :: "'h hw \<Rightarrow> 'h am \<Rightarrow> ((bool \<times> u32) \<times> 'h am) res" where
  "am_audio_config H s = ebind (on_hw (hw_inl H (AUDIO_ADDR + 0x0c)) s) (\<lambda>(n, s'). Inr ((True, n), s'))"

definition am_audio_ctrl :: "'h hw \<Rightarrow> u32 \<Rightarrow> u32 \<Rightarrow> u32 \<Rightarrow> 'h am \<Rightarrow> 'h am res" where
  "am_audio_ctrl H freq channels samples s =
    ebind (on_hw_do (hw_outl H AUDIO_ADDR freq) s) (\<lambda>s1.
    ebind (on_hw_do (hw_outl H (AUDIO_ADDR + 4) channels) s1) (\<lambda>s2.
    ebind (on_hw_do (hw_outl H (AUDIO_ADDR + 8) samples) s2) (\<lambda>s3.
      on_hw_do (hw_outl H (AUDIO_ADDR + 0x10) 1) s3)))"

definition am_audio_status :: "'h hw \<Rightarrow> 'h am \<Rightarrow> (u32 \<times> 'h am) res" where
  "am_audio_status H s = on_hw (hw_inl H (AUDIO_ADDR + 0x14)) s"

text \<open>The busy wait for room in the stream buffer; the comparison is unsigned.\<close>

partial_function (option) audio_wait :: "'h hw \<Rightarrow> u32 \<Rightarrow> u32 \<Rightarrow> 'h \<Rightarrow> 'h res option" where
  "audio_wait H len bufsize h =
    (case hw_inl H (AUDIO_ADDR + 0x14) h of
       Inl e \<Rightarrow> Some (Inl e)
     | Inr (count, h1) \<Rightarrow> if len > bufsize - count then audio_wait H len bufsize h1 else Some (Inr h1))"

fun audio_put :: "'h hw \<Rightarrow> u32 \<Rightarrow> u8 list \<Rightarrow> 'h am \<Rightarrow> 'h am res" where
  "audio_put H bufsize [] s = Inr s"
| "audio_put H bufsize (b # bs) s =
    ebind (on_hw_do (hw_outb H (AUDIO_SBUF_ADDR + am_tail s) b) s) (\<lambda>s1.
      if bufsize = 0 then Inl (Undef ''division by zero'')
      else audio_put H bufsize bs (s1\<lparr>am_tail := (am_tail s1 + 1) mod bufsize\<rparr>))"

definition am_audio_play :: "'h hw \<Rightarrow> u8 list \<Rightarrow> 'h am \<Rightarrow> 'h am res option" where
  "am_audio_play H data s =
    (case on_hw (hw_inl H (AUDIO_ADDR + 0x0c)) s of
       Inl e \<Rightarrow> Some (Inl e)
     | Inr (bufsize, s1) \<Rightarrow>
         map_option (\<lambda>r. ebind r (\<lambda>h.
             ebind (audio_put H bufsize data (s1\<lparr>am_hw := h\<rparr>)) (\<lambda>s2.
             ebind (on_hw (hw_inl H (AUDIO_ADDR + 0x14)) s2) (\<lambda>(curr, s3).
               on_hw_do (hw_outl H (AUDIO_ADDR + 0x14) (curr + of_nat (length data))) s3))))
           (audio_wait H (of_nat (length data)) bufsize (am_hw s1)))"

section \<open>Registers: ioe.c and trm.c\<close>

text \<open>The buffer a caller passes for a register, as the union of the register structures.\<close>

datatype am_buf =
    B_present bool
  | B_uart u8
  | B_timer_config bool bool
  | B_rtc rtc_time
  | B_uptime u64
  | B_kbd bool u32
  | B_gpu gpu_config
  | B_ready bool
  | B_fbdraw gpu_fbdraw
  | B_memcpy u32 "nat \<Rightarrow> u8" u32
  | B_render u32
  | B_audio_config bool u32
  | B_audio_ctrl u32 u32 u32
  | B_audio_status u32
  | B_audio_play "u8 list"
  | B_blkio

definition ret :: "('v \<Rightarrow> am_buf) \<Rightarrow> ('v \<times> 'h am) res \<Rightarrow> (am_buf \<times> 'h am) res option" where
  "ret f r = Some (ebind r (\<lambda>(v, s). Inr (f v, s)))"

definition ret_buf :: "am_buf \<Rightarrow> 'h am res \<Rightarrow> (am_buf \<times> 'h am) res option" where
  "ret_buf b r = Some (ebind r (\<lambda>s. Inr (b, s)))"

text \<open>
  The table of handlers after \<^verbatim>\<open>ioe_init\<close> has filled the gaps with \<^verbatim>\<open>fail\<close>; reading and writing a register call the
  same entry. A buffer of another register's structure, or an index outside the table, is undefined.
\<close>

definition lut_call :: "'h hw \<Rightarrow> nat \<Rightarrow> am_buf \<Rightarrow> 'h am \<Rightarrow> (am_buf \<times> 'h am) res option" where
  "lut_call H reg b s =
    (if reg \<ge> 128 then Some (Inl (Undef ''register table''))
     else if reg = 1 \<or> reg = 18 \<or> reg = 21 then ret_buf (B_present False) (Inr s)
     else if reg = 4 then ret_buf (B_timer_config True True) (Inr s)
     else if reg = 5 then ret_buf (B_rtc am_timer_rtc) (Inr s)
     else if reg = 6 then map_option (\<lambda>r. ebind r (\<lambda>(t, s'). Inr (B_uptime t, s'))) (am_timer_uptime H s)
     else if reg = 7 then ret_buf (B_present True) (Inr s)
     else if reg = 8 then ret (\<lambda>(d, k). B_kbd d k) (am_input_keybrd H s)
     else if reg = 9 then ret B_gpu (am_gpu_config H s)
     else if reg = 10 then ret_buf (B_ready True) (Inr s)
     else if reg = 11 then (case b of B_fbdraw ctl \<Rightarrow> ret_buf b (am_gpu_fbdraw H ctl s) | _ \<Rightarrow> Some (Inl (Undef ''buffer'')))
     else if reg = 12 then (case b of B_memcpy d src n \<Rightarrow> ret_buf b (am_gpu_memcpy H d src n s) | _ \<Rightarrow> Some (Inl (Undef ''buffer'')))
     else if reg = 13 then ret_buf b (am_gpu_render H s)
     else if reg = 14 then ret (\<lambda>(p, n). B_audio_config p n) (am_audio_config H s)
     else if reg = 15 then (case b of B_audio_ctrl f c n \<Rightarrow> ret_buf b (am_audio_ctrl H f c n s) | _ \<Rightarrow> Some (Inl (Undef ''buffer'')))
     else if reg = 16 then ret B_audio_status (am_audio_status H s)
     else if reg = 17 then (case b of B_audio_play data \<Rightarrow> map_option (\<lambda>r. ebind r (\<lambda>s'. Inr (b, s'))) (am_audio_play H data s)
                                    | _ \<Rightarrow> Some (Inl (Undef ''buffer'')))
     else if reg = 19 \<or> reg = 20 then ret_buf b (Inr s)
     else Some (Inl (Panic ''access nonexist register'')))"

definition ioe_read :: "'h hw \<Rightarrow> nat \<Rightarrow> am_buf \<Rightarrow> 'h am \<Rightarrow> (am_buf \<times> 'h am) res option" where
  "ioe_read H reg b s = lut_call H reg b s"

definition ioe_write :: "'h hw \<Rightarrow> nat \<Rightarrow> am_buf \<Rightarrow> 'h am \<Rightarrow> (am_buf \<times> 'h am) res option" where
  "ioe_write H reg b s = lut_call H reg b s"

definition ioe_init :: "'h hw \<Rightarrow> 'h am \<Rightarrow> 'h am res option" where
  "ioe_init H s = map_option (\<lambda>r. ebind r (\<lambda>s'. Inr (am_audio_init s'))) (am_timer_init H s)"

definition putch :: "'h hw \<Rightarrow> u8 \<Rightarrow> 'h am \<Rightarrow> 'h am res" where
  "putch H ch s = on_hw_do (hw_outb H SERIAL_PORT ch) s"

section \<open>A clock behind two registers\<close>

text \<open>
  What the timer driver relies on: the high register shows the high word of the current time and the
  low register the low word of a time between its neighbours in the order of the reads, and the time
  never runs backwards.
\<close>

lemma hi32_mono: "x \<le> y \<Longrightarrow> hi32 x \<le> hi32 y"
  by (simp add: word_le_nat_alt unat_hi32 div_le_mono)

locale am_clock =
  fixes rd :: "u32 \<Rightarrow> 'h \<Rightarrow> (u32 \<times> 'h) res"
    and A :: u32
    and now :: "'h \<Rightarrow> u64"
    and good :: "'h \<Rightarrow> bool"
  assumes hi_read: "good h \<Longrightarrow> \<exists>h'. rd (A + 4) h = Inr (hi32 (now h'), h') \<and> good h' \<and> now h \<le> now h'"
    and lo_read: "good h \<Longrightarrow> \<exists>t h'. rd A h = Inr (lo32 t, h') \<and> good h' \<and> now h \<le> t \<and> t \<le> now h'"
begin

lemma time_between:
  assumes "t1 \<le> t" "t \<le> t3" "hi32 t1 = hi32 t3"
  shows "push_bit 32 (ucast (hi32 t1)) OR ucast (lo32 t) = t"
proof -
  have "hi32 t = hi32 t1" using assms by (metis hi32_mono order_antisym)
  then show ?thesis using join32_halves [of t] by (simp add: join32_def)
qed

lemma read_time_returns:
  "good h \<Longrightarrow> \<exists>v h'. read_time rd A h = Some (Inr (v, h')) \<and> good h' \<and> now h \<le> v \<and> v \<le> now h'"
proof (induction "2 ^ 32 - unat (hi32 (now h))" arbitrary: h rule: less_induct)
  case less
  obtain h1 where h1: "rd (A + 4) h = Inr (hi32 (now h1), h1)" "good h1" "now h \<le> now h1"
    using hi_read [OF less.prems] by blast
  obtain t h2 where h2: "rd A h1 = Inr (lo32 t, h2)" "good h2" "now h1 \<le> t" "t \<le> now h2"
    using lo_read [OF h1(2)] by blast
  obtain h3 where h3: "rd (A + 4) h2 = Inr (hi32 (now h3), h3)" "good h3" "now h2 \<le> now h3"
    using hi_read [OF h2(2)] by blast
  have le: "now h1 \<le> now h3" "t \<le> now h3" using h2 h3 by (meson order_trans)+
  show ?case
  proof (cases "hi32 (now h1) = hi32 (now h3)")
    case True
    have "read_time rd A h = Some (Inr (t, h3))"
      using time_between [OF h2(3) le(2) True] True h1(1) h2(1) h3(1) by (subst read_time.simps) simp
    then show ?thesis using h3(2) h1(3) h2(3) le(2) by (metis order_trans)
  next
    case False
    have step: "read_time rd A h = read_time rd A h3"
      using False h1(1) h2(1) h3(1) by (subst read_time.simps) simp
    have "hi32 (now h) < hi32 (now h3)"
      using hi32_mono [OF h1(3)] hi32_mono [OF le(1)] False by (metis order_le_less_trans order_neq_le_trans)
    then have "2 ^ 32 - unat (hi32 (now h3)) < 2 ^ 32 - unat (hi32 (now h))"
      using unsigned_less [where ?'a = nat, of "hi32 (now h3)"] by (simp add: word_less_nat_alt)
    from less.hyps [OF this h3(2)] show ?thesis
      unfolding step using h1(3) le(1) by (meson order_trans)
  qed
qed

end

section \<open>The drivers on NEMU\<close>

text \<open>The guest's accesses as NEMU serves them: through the memory map, with the device state and the difftest flags.\<close>

definition nemu_hw :: "nemu_config \<Rightarrow> IOMap list \<Rightarrow> (dev_state \<times> difftest_flags) hw" where
  "nemu_hw c maps =
    \<lparr>hw_inb = (\<lambda>a s. ebind (mmio_read c maps a 1 s) (\<lambda>(v, s'). Inr (ucast v, s'))),
     hw_inl = (\<lambda>a s. mmio_read c maps a 4 s),
     hw_outb = (\<lambda>a v s. mmio_write c maps a 1 (ucast v) s),
     hw_outl = (\<lambda>a v s. mmio_write c maps a 4 v s)\<rparr>"

lemma mmio_read4:
  assumes "maps_disjoint maps" "m \<in> set maps" "map_inside m a" "region_ok d' m" "io_inv d'"
    and "invoke_callback (map_callback m) (a - map_low m) 4 False d = Inr d'"
  shows "mmio_read c maps a 4 (d, dt) =
    Inr (load_le (io_space d') (map_space m + unat (a - map_low m)) 4, d', difftest_skip_ref c dt)"
proof -
  have "io_acc (map_space m + unat (a - map_low m)) 4" by (rule region_io_acc [OF assms(4,5,3)]) simp
  moreover have "check_bound (Some m) a = Inr ()" using assms(3) by (simp add: check_bound_def map_inside_def)
  ultimately show ?thesis
    using assms(6) by (simp add: mmio_read_def fetch_mmio_map_unique [OF assms(1-3)] map_read_def Let_def io_load_eq)
qed

subsection \<open>Timer\<close>

text \<open>The time the clock registers hold, and the states in which they are set up and the host clock is sound.\<close>

definition rtc_now :: "dev_state \<times> difftest_flags \<Rightarrow> u64" where
  "rtc_now s = join32 (reg32 (rtc_port_base (fst s)) 1 (fst s)) (reg32 (rtc_port_base (fst s)) 0 (fst s))"

definition clock_ok :: "dev_state \<Rightarrow> bool" where
  "clock_ok d \<longleftrightarrow> mono (host_clock d) \<and> boot_time d \<noteq> 0 \<and> boot_time d \<le> host_clock d (clock_reads d)"

definition rtc_good :: "IOMap list \<Rightarrow> dev_state \<times> difftest_flags \<Rightarrow> bool" where
  "rtc_good maps s \<longleftrightarrow> (case s of (d, dt) \<Rightarrow> maps_disjoint maps \<and> io_inv d \<and> clock_ok d \<and>
     rtc_now s \<le> host_clock d (clock_reads d) - boot_time d \<and>
     (\<exists>m \<in> set maps. map_low m = RTC_ADDR \<and> map_high m = RTC_ADDR + 7 \<and> map_callback m = Some rtc_io_handler \<and>
        map_space m = rtc_port_base d \<and> region_ok d m))"

lemma reg32_set_simps [simp]:
  "rtc_port_base (reg32_set b i v d) = rtc_port_base d" "host_clock (reg32_set b i v d) = host_clock d"
  "clock_reads (reg32_set b i v d) = clock_reads d" "boot_time (reg32_set b i v d) = boot_time d"
  "p_space (reg32_set b i v d) = p_space d"
  by (simp_all add: reg32_set_def)

lemma rtc_latch:
  assumes "clock_ok d" "us = host_clock d (clock_reads d) - boot_time d"
  defines "d' \<equiv> reg32_set (rtc_port_base d) 1 (hi32 us) (reg32_set (rtc_port_base d) 0 (lo32 us) (d\<lparr>clock_reads := Suc (clock_reads d)\<rparr>))"
  shows "rtc_io_handler 4 4 False d = Inr d'" "rtc_now (d', dt) = us" "clock_ok d'"
    "us \<le> host_clock d' (clock_reads d') - boot_time d'"
proof -
  show "rtc_io_handler 4 4 False d = Inr d'"
    using assms(1,2) by (simp add: rtc_io_handler_def get_time_def get_time_internal_def clock_ok_def d'_def hi32_def lo32_def Let_def)
  show "rtc_now (d', dt) = us" by (simp add: rtc_now_def d'_def)
  have le: "host_clock d (clock_reads d) \<le> host_clock d (Suc (clock_reads d))"
    using assms(1) by (simp add: clock_ok_def mono_def)
  then show "clock_ok d'" using assms(1) by (auto simp: clock_ok_def d'_def)
  show "us \<le> host_clock d' (clock_reads d') - boot_time d'"
    using le assms(1) by (simp add: assms(2) d'_def clock_ok_def word_le_minus_mono_left)
qed

lemma rtc_hi:
  assumes "rtc_good maps s"
  shows "\<exists>s'. hw_inl (nemu_hw c maps) (RTC_ADDR + 4) s = Inr (hi32 (rtc_now s'), s') \<and> rtc_good maps s' \<and> rtc_now s \<le> rtc_now s'"
proof -
  obtain d dt where s: "s = (d, dt)" by (cases s)
  obtain m where m: "m \<in> set maps" "map_low m = RTC_ADDR" "map_high m = RTC_ADDR + 7" "map_callback m = Some rtc_io_handler"
    "map_space m = rtc_port_base d" "region_ok d m" and g: "maps_disjoint maps" "io_inv d" "clock_ok d"
    "rtc_now s \<le> host_clock d (clock_reads d) - boot_time d"
    using assms by (auto simp: rtc_good_def s)
  define us where "us = host_clock d (clock_reads d) - boot_time d"
  define d' where "d' = reg32_set (rtc_port_base d) 1 (hi32 us) (reg32_set (rtc_port_base d) 0 (lo32 us) (d\<lparr>clock_reads := Suc (clock_reads d)\<rparr>))"
  note l = rtc_latch [OF g(3) us_def, folded d'_def]
  have in': "map_inside m (RTC_ADDR + 4)" by (simp add: map_inside_def m RTC_ADDR_def)
  have keep: "region_ok d' m" "io_inv d'" "rtc_port_base d' = rtc_port_base d"
    using m(6) g(2) by (simp_all add: d'_def region_ok_def io_inv_def)
  have cb: "invoke_callback (map_callback m) (RTC_ADDR + 4 - map_low m) 4 False d = Inr d'"
    using l(1) by (simp add: invoke_callback_def m)
  have "load_le (io_space d') (map_space m + unat (RTC_ADDR + 4 - map_low m)) 4 = reg32 (rtc_port_base d') 1 d'"
    by (simp add: reg32_def m keep)
  also have "\<dots> = hi32 us" by (simp add: d'_def)
  finally have "mmio_read c maps (RTC_ADDR + 4) 4 s = Inr (hi32 us, d', difftest_skip_ref c dt)"
    using mmio_read4 [OF g(1) m(1) in' keep(1,2) cb, of c dt] by (simp add: s)
  moreover have "rtc_good maps (d', difftest_skip_ref c dt)"
    using g(1) keep l(3,4) m l(2) by (auto simp: rtc_good_def)
  ultimately show ?thesis using g(4) l(2) by (auto simp: nemu_hw_def us_def)
qed

lemma rtc_lo:
  assumes "rtc_good maps s"
  shows "\<exists>t s'. hw_inl (nemu_hw c maps) RTC_ADDR s = Inr (lo32 t, s') \<and> rtc_good maps s' \<and> rtc_now s \<le> t \<and> t \<le> rtc_now s'"
proof -
  obtain d dt where s: "s = (d, dt)" by (cases s)
  obtain m where m: "m \<in> set maps" "map_low m = RTC_ADDR" "map_high m = RTC_ADDR + 7" "map_callback m = Some rtc_io_handler"
    "map_space m = rtc_port_base d" "region_ok d m" and g: "maps_disjoint maps" "io_inv d"
    using assms by (auto simp: rtc_good_def s)
  have in': "map_inside m RTC_ADDR" by (simp add: map_inside_def m RTC_ADDR_def)
  have cb: "invoke_callback (map_callback m) (RTC_ADDR - map_low m) 4 False d = Inr d"
    by (simp add: invoke_callback_def m rtc_io_handler_def)
  have "load_le (io_space d) (map_space m + unat (RTC_ADDR - map_low m)) 4 = lo32 (rtc_now s)"
    by (simp add: rtc_now_def s m reg32_def)
  then have "mmio_read c maps RTC_ADDR 4 s = Inr (lo32 (rtc_now s), d, difftest_skip_ref c dt)"
    using mmio_read4 [OF g(1) m(1) in' m(6) g(2) cb, of c dt] by (simp add: s)
  moreover have "rtc_good maps (d, difftest_skip_ref c dt)" "rtc_now (d, difftest_skip_ref c dt) = rtc_now s"
    using assms by (simp_all add: rtc_good_def rtc_now_def s)
  ultimately show ?thesis by (auto simp: nemu_hw_def)
qed

interpretation nemu_rtc: am_clock "hw_inl (nemu_hw c maps)" RTC_ADDR rtc_now "rtc_good maps" for c maps
  by unfold_locales (fact rtc_hi rtc_lo)+

text \<open>
  C30: the timer of a guest program on NEMU always answers, and never with a torn value. With the clock
  region mapped and a host clock that does not run backwards, the read of the uptime returns after
  finitely many tries, even if the low word overflows in between, and the time it is based on lies
  between the times the clock registers showed before and after the call.
\<close>

theorem am_uptime_on_nemu:
  assumes "rtc_good maps (am_hw s)"
  shows "\<exists>v s'. am_timer_uptime (nemu_hw c maps) s = Some (Inr (v - am_boot_time s, s')) \<and>
    rtc_good maps (am_hw s') \<and> rtc_now (am_hw s) \<le> v \<and> v \<le> rtc_now (am_hw s')"
  using nemu_rtc.read_time_returns [OF assms, of c] by (auto simp: am_timer_uptime_def)

definition rtc_demo :: "(dev_state \<times> difftest_flags) am" where
  "rtc_demo = \<lparr>am_hw = ((dev_zero (\<lambda>_. 1000) None)\<lparr>boot_time := 7, p_space := 4096\<rparr>, \<lparr>is_skip_ref = False, skip_dut_nr_inst = 0\<rparr>),
     am_boot_time = 0, am_tail = 0\<rparr>"

definition rtc_demo_maps :: "IOMap list" where
  "rtc_demo_maps = [\<lparr>map_name = ''rtc'', map_low = RTC_ADDR, map_high = RTC_ADDR + 7, map_space = 0, map_callback = Some rtc_io_handler\<rparr>]"

theorem am_uptime_on_nemu_witness:
  "\<exists>v s'. am_timer_uptime (nemu_hw quiet_config rtc_demo_maps) rtc_demo = Some (Inr (v, s')) \<and> v \<le> rtc_now (am_hw s')"
proof -
  have "rtc_now (am_hw rtc_demo) = 0"
    by (simp add: rtc_now_def rtc_demo_def dev_zero_def reg32_def join32_def numeral_eq_Suc)
  then have "rtc_good rtc_demo_maps (am_hw rtc_demo)"
    by (simp add: rtc_good_def rtc_demo_def rtc_demo_maps_def clock_ok_def dev_zero_def io_inv_def maps_disjoint_def
        NR_MAP_def PAGE_SIZE_def IO_SPACE_MAX_def region_ok_def mono_def)
  from am_uptime_on_nemu [OF this, of quiet_config] show ?thesis by (auto simp: rtc_demo_def)
qed

subsection \<open>Keyboard\<close>

definition kbd_good :: "IOMap list \<Rightarrow> dev_state \<Rightarrow> bool" where
  "kbd_good maps d \<longleftrightarrow> maps_disjoint maps \<and> io_inv d \<and> key_inv d \<and>
     (\<exists>m \<in> set maps. map_low m = KBD_ADDR \<and> map_high m = KBD_ADDR + 3 \<and> map_callback m = Some i8042_data_io_handler \<and>
        map_space m = i8042_data_port_base d \<and> region_ok d m)"

lemma kbd_good_cong:
  "kbd_good maps d \<Longrightarrow> key_inv d' \<Longrightarrow> p_space d' = p_space d \<Longrightarrow> i8042_data_port_base d' = i8042_data_port_base d \<Longrightarrow> kbd_good maps d'"
  by (auto simp: kbd_good_def io_inv_def region_ok_def)

lemma key_enqueue_keeps:
  "key_enqueue k d = Inr d' \<Longrightarrow> p_space d' = p_space d \<and> i8042_data_port_base d' = i8042_data_port_base d"
  by (auto simp: key_enqueue_def Let_def)

lemma enq_all_keeps:
  "kq.enq_all ks d = Inr d' \<Longrightarrow> p_space d' = p_space d \<and> i8042_data_port_base d' = i8042_data_port_base d"
  by (induction ks arbitrary: d) (fastforce dest: key_enqueue_keeps)+

lemma key_dequeue_keeps:
  "key_dequeue d = (k, d') \<Longrightarrow> p_space d' = p_space d \<and> i8042_data_port_base d' = i8042_data_port_base d"
  by (auto simp: key_dequeue_def split: if_splits)

lemma kbd_read:
  assumes "kbd_good maps d" "key_dequeue d = (k, q)" "key_inv q"
  shows "\<exists>d'. hw_inl (nemu_hw c maps) KBD_ADDR (d, dt) = Inr (k, d', difftest_skip_ref c dt) \<and>
    kbd_good maps d' \<and> key_elems d' = key_elems q"
proof -
  obtain m where m: "m \<in> set maps" "map_low m = KBD_ADDR" "map_high m = KBD_ADDR + 3"
    "map_callback m = Some i8042_data_io_handler" "map_space m = i8042_data_port_base d" "region_ok d m"
    and g: "maps_disjoint maps" "io_inv d"
    using assms(1) by (auto simp: kbd_good_def)
  define d' where "d' = reg32_set (i8042_data_port_base q) 0 k q"
  have q: "p_space q = p_space d" "i8042_data_port_base q = i8042_data_port_base d"
    using key_dequeue_keeps [OF assms(2)] by auto
  have in': "map_inside m KBD_ADDR" by (simp add: map_inside_def m KBD_ADDR_def)
  have keep: "region_ok d' m" "io_inv d'"
    using m(6) g(2) q by (simp_all add: d'_def region_ok_def io_inv_def)
  have cb: "invoke_callback (map_callback m) (KBD_ADDR - map_low m) 4 False d = Inr d'"
    by (simp add: invoke_callback_def m i8042_data_io_handler_def assms(2) d'_def)
  have "load_le (io_space d') (map_space m + unat (KBD_ADDR - map_low m)) 4 = reg32 (i8042_data_port_base q) 0 d'"
    by (simp add: reg32_def m q)
  also have "\<dots> = k" by (simp add: d'_def)
  finally have "mmio_read c maps KBD_ADDR 4 (d, dt) = Inr (k, d', difftest_skip_ref c dt)"
    using mmio_read4 [OF g(1) m(1) in' keep cb, of c dt] by simp
  moreover have "kbd_good maps d'"
    using kbd_good_cong [OF assms(1), of d'] assms(3) q by (simp add: d'_def)
  ultimately show ?thesis by (auto simp: nemu_hw_def d'_def)
qed

text \<open>The guest reads its keyboard register \<open>n\<close> times.\<close>

primrec am_keys :: "'h hw \<Rightarrow> nat \<Rightarrow> 'h am \<Rightarrow> ((bool \<times> u32) list \<times> 'h am) res" where
  "am_keys H 0 s = Inr ([], s)"
| "am_keys H (Suc n) s =
    ebind (am_input_keybrd H s) (\<lambda>(k, s1). ebind (am_keys H n s1) (\<lambda>(ks, s2). Inr (k # ks, s2)))"

definition am_key :: "u32 \<Rightarrow> bool \<times> u32" where
  "am_key k = (k AND 0x8000 \<noteq> 0, k AND NOT 0x8000)"

lemma am_keys_queue:
  assumes "kbd_good maps d" "key_elems d = ks @ rest"
  shows "\<exists>d' dt'. am_keys (nemu_hw c maps) (length ks) (s\<lparr>am_hw := (d, dt)\<rparr>) =
      Inr (map am_key ks, s\<lparr>am_hw := (d', dt')\<rparr>) \<and> kbd_good maps d' \<and> key_elems d' = rest"
  using assms
proof (induction ks arbitrary: d dt)
  case (Cons k ks)
  have inv: "key_inv d" using Cons.prems(1) by (simp add: kbd_good_def)
  obtain q where q: "key_dequeue d = (k, q)" "key_inv q" "key_elems q = ks @ rest"
    using kq.deq_ok [OF inv, of k "ks @ rest"] Cons.prems(2) by auto
  obtain d1 where d1: "hw_inl (nemu_hw c maps) KBD_ADDR (d, dt) = Inr (k, d1, difftest_skip_ref c dt)"
    "kbd_good maps d1" "key_elems d1 = ks @ rest"
    using kbd_read [OF Cons.prems(1) q(1,2)] q(3) by metis
  have "am_input_keybrd (nemu_hw c maps) (s\<lparr>am_hw := (d, dt)\<rparr>) =
      Inr (am_key k, s\<lparr>am_hw := (d1, difftest_skip_ref c dt)\<rparr>)"
    using d1(1) by (simp add: am_input_keybrd_def on_hw_def am_key_def)
  then show ?case
    using Cons.IH [OF d1(2,3), of "difftest_skip_ref c dt"] by auto
qed auto

lemma flag_apart:
  fixes M k :: u32
  assumes "\<And>i. bit M i \<longleftrightarrow> i = n" "\<And>i. n \<le> i \<Longrightarrow> \<not> bit k i"
  shows "(k OR (if b then M else 0)) AND NOT M = k" "(k OR (if b then M else 0)) AND M = (if b then M else 0)"
  by (rule bit_word_eqI, use assms in \<open>auto simp: bit_simps\<close>)+

lemma am_key_code:
  assumes "k < 0x8000"
  shows "am_key (k OR (if b then KEYDOWN_MASK else 0)) = (b, k)"
proof -
  have n: "\<not> bit k i" if "15 \<le> i" for i
  proof -
    have "unat k < 2 ^ 15" using assms by (simp add: word_less_nat_alt)
    then have "unat (take_bit 15 k) = unat k" by (simp add: unat_take_bit)
    then have "take_bit 15 k = k" by (rule unsigned_word_eqI)
    then show ?thesis using that by (metis bit_take_bit_iff not_le)
  qed
  have "(0x8000 :: u32) = push_bit 15 1" by simp
  then have m: "bit (0x8000 :: u32) i \<longleftrightarrow> i = 15" for i by (simp only: bit_push_bit_iff) (auto simp: bit_1_iff)
  show ?thesis
    using flag_apart [OF m n, of b] by (simp add: am_key_def KEYDOWN_MASK_def split: if_splits)
qed

text \<open>
  C29: key events reach a guest program through the whole stack. Events of mapped keys that NEMU polls
  while it runs are queued, and as many reads of the keyboard register by the guest's driver, each an
  access through the memory map and the device callback, return the keys in the order of the events,
  with the press or release and the key code apart; the next read reports no key.
\<close>

theorem am_keys_on_nemu:
  assumes "kbd_good maps d" "key_elems d = []" "state st = NEMU_RUNNING" "HAS_KEYBOARD dc" "length evs \<le> 1023"
    and "\<forall>e \<in> set evs. keymap d (unat (fst e)) \<noteq> NEMU_KEY_NONE \<and> keymap d (unat (fst e)) < 0x8000"
  shows "\<exists>d1 s1 s2. poll_events dc (map (\<lambda>(k, b). SDL_KEY k b) evs) (st, d) = Inr (st, d1) \<and>
    am_keys (nemu_hw c maps) (length evs) (s\<lparr>am_hw := (d1, dt)\<rparr>) =
      Inr (map (\<lambda>(k, b). (b, keymap d (unat k))) evs, s1) \<and>
    am_input_keybrd (nemu_hw c maps) s1 = Inr ((False, 0), s2)"
proof -
  have inv: "key_inv d" using assms(1) by (simp add: kbd_good_def)
  obtain d1 where d1: "kq.enq_all (map (key_code d) evs) d = Inr d1" "key_inv d1" "key_elems d1 = map (key_code d) evs"
    using kq.enq_all_ok [OF inv, of "map (key_code d) evs"] assms(2,5) by (auto simp: KEY_QUEUE_LEN_def)
  have good: "kbd_good maps d1" using kbd_good_cong [OF assms(1) d1(2)] enq_all_keeps [OF d1(1)] by simp
  obtain d2 dt2 where d2: "am_keys (nemu_hw c maps) (length evs) (s\<lparr>am_hw := (d1, dt)\<rparr>) =
      Inr (map am_key (map (key_code d) evs), s\<lparr>am_hw := (d2, dt2)\<rparr>)" "kbd_good maps d2" "key_elems d2 = []"
    using am_keys_queue [OF good, of "map (key_code d) evs" "[]" c dt s] d1(3) by auto
  have "map am_key (map (key_code d) evs) = map (\<lambda>(k, b). (b, keymap d (unat k))) evs"
    using assms(6) by (auto simp: key_code_def am_key_code)
  moreover have "poll_events dc (map (\<lambda>(k, b). SDL_KEY k b) evs) (st, d) = Inr (st, d1)"
    using poll_events_keys [OF assms(3,4)] assms(6) d1(1) by simp
  moreover have "\<exists>s2. am_input_keybrd (nemu_hw c maps) (s\<lparr>am_hw := (d2, dt2)\<rparr>) = Inr ((False, 0), s2)"
  proof -
    have i2: "key_inv d2" using d2(2) by (simp add: kbd_good_def)
    show ?thesis
      using kbd_read [OF d2(2) kq.deq_empty [OF i2 d2(3)] i2, of c dt2]
      by (auto simp: am_input_keybrd_def on_hw_def NEMU_KEY_NONE_def)
  qed
  ultimately show ?thesis using d2(1) by auto
qed

definition kbd_demo :: dev_state where
  "kbd_demo = (dev_zero (\<lambda>_. 0) None)\<lparr>keymap := (\<lambda>_. 43), p_space := 4096\<rparr>"

definition kbd_demo_maps :: "IOMap list" where
  "kbd_demo_maps = [\<lparr>map_name = ''keyboard'', map_low = KBD_ADDR, map_high = KBD_ADDR + 3, map_space = 0,
     map_callback = Some i8042_data_io_handler\<rparr>]"

theorem am_keys_on_nemu_witness:
  "\<exists>d1 s1. poll_events default_dev_config [SDL_KEY 4 True, SDL_KEY 4 False] (\<lparr>state = NEMU_RUNNING, halt_pc = 0, halt_ret = 0\<rparr>, kbd_demo)
      = Inr (\<lparr>state = NEMU_RUNNING, halt_pc = 0, halt_ret = 0\<rparr>, d1) \<and>
     am_keys (nemu_hw quiet_config kbd_demo_maps) (Suc (Suc 0)) (rtc_demo\<lparr>am_hw := (d1, \<lparr>is_skip_ref = False, skip_dut_nr_inst = 0\<rparr>)\<rparr>)
      = Inr ([(True, 43), (False, 43)], s1)"
proof -
  have km: "keymap kbd_demo = (\<lambda>_. 43)" by (simp add: kbd_demo_def)
  have "kbd_good kbd_demo_maps kbd_demo" "key_elems kbd_demo = []" "HAS_KEYBOARD default_dev_config"
    by (simp_all add: kbd_good_def kbd_demo_def kbd_demo_maps_def dev_zero_def io_inv_def maps_disjoint_def NR_MAP_def
        PAGE_SIZE_def IO_SPACE_MAX_def region_ok_def key_inv_def KEY_QUEUE_LEN_def key_elems_def default_dev_config_def)
  from am_keys_on_nemu [OF this(1,2) _ this(3), of "\<lparr>state = NEMU_RUNNING, halt_pc = 0, halt_ret = 0\<rparr>" "[(4, True), (4, False)]"
      quiet_config "\<lparr>is_skip_ref = False, skip_dut_nr_inst = 0\<rparr>" rtc_demo]
  show ?thesis by (auto simp: km NEMU_KEY_NONE_def simp del: am_keys.simps poll_events.simps)
qed

end
