(* ===== verification/Am_Ysyxsoc.thy ===== *)
theory Am_Ysyxsoc
  imports Am_Nemu_Ioe Klib_String
begin

text \<open>
  The abstract machine on the ysyxSoC (\<^verbatim>\<open>am/src/riscv/ysyxsoc\<close>, with the timer that \<^verbatim>\<open>am/src/riscv/npc\<close> shares):
  the boot copies of \<^verbatim>\<open>trm.c\<close> on a byte store, and the device drivers of \<^verbatim>\<open>ioe.c\<close> over the hardware accesses of
  \<^theory_text>\<open>Am_Nemu_Ioe\<close>. The SoC itself is not part of these sources, so what a lemma needs of a device is a
  hypothesis on the accesses.
\<close>

section \<open>Boot: trm.c\<close>

text \<open>The symbols of the linker script.\<close>

record linker =
  data_load_start :: nat
  data_start :: nat
  data_end :: nat
  bss_start :: nat
  bss_end :: nat

function copy_data_loop :: "store \<Rightarrow> nat \<Rightarrow> nat \<Rightarrow> nat \<Rightarrow> store" where
  "copy_data_loop m dst src e = (if dst < e then copy_data_loop (m(dst := m src)) (dst + 1) (src + 1) e else m)"
  by pat_completeness auto
termination
  by (relation "measure (\<lambda>(m, dst, src, e). e - dst)") auto

definition copy_data :: "linker \<Rightarrow> store \<Rightarrow> store" where
  "copy_data L m = copy_data_loop m (data_start L) (data_load_start L) (data_end L)"

function clear_loop :: "store \<Rightarrow> nat \<Rightarrow> nat \<Rightarrow> store" where
  "clear_loop m p e = (if p < e then clear_loop (m(p := 0)) (p + 1) e else m)"
  by pat_completeness auto
termination
  by (relation "measure (\<lambda>(m, p, e). e - p)") auto

definition clear_bss :: "linker \<Rightarrow> store \<Rightarrow> store" where
  "clear_bss L m = clear_loop m (bss_start L) (bss_end L)"

text \<open>
  The first- and second-stage loaders have the same body: whole words while all three pointers are
  aligned and a word is left, then single bytes.
\<close>

definition copy_word :: "store \<Rightarrow> nat \<Rightarrow> nat \<Rightarrow> store" where
  "copy_word m dst src = m(dst := m src, dst + 1 := m (src + 1), dst + 2 := m (src + 2), dst + 3 := m (src + 3))"

function copy_words :: "store \<Rightarrow> nat \<Rightarrow> nat \<Rightarrow> nat \<Rightarrow> store \<times> nat \<times> nat" where
  "copy_words m dst src e =
    (if (dst OR src OR e) AND 3 = 0 \<and> src + 4 \<le> e
     then copy_words (copy_word m dst src) (dst + 4) (src + 4) e else (m, dst, src))"
  by pat_completeness auto
termination
  by (relation "measure (\<lambda>(m, dst, src, e). e - src)") auto

definition fsbl_copy_image :: "store \<Rightarrow> nat \<Rightarrow> nat \<Rightarrow> nat \<Rightarrow> store" where
  "fsbl_copy_image m dst src e = (case copy_words m dst src e of (m', d, s) \<Rightarrow> copy_up m' d s (e - s))"

definition ssbl_copy_image :: "store \<Rightarrow> nat \<Rightarrow> nat \<Rightarrow> nat \<Rightarrow> store" where
  "ssbl_copy_image m dst src e = (case copy_words m dst src e of (m', d, s) \<Rightarrow> copy_up m' d s (e - s))"

text \<open>\<^verbatim>\<open>_trm_init\<close> of the configuration without a loader, up to the call of \<^verbatim>\<open>main\<close>.\<close>

definition trm_init_data :: "linker \<Rightarrow> store \<Rightarrow> store" where
  "trm_init_data L m = clear_bss L (copy_data L m)"

text \<open>
  The configurations with a loader: the image is copied to SRAM by the first stage, or the first stage copies the
  second, which copies the image to PSRAM or SDRAM; then the image clears its bss. The jumps between the
  stages are not part of the model.
\<close>

record image =
  img_start_addr :: nat
  img_load_start :: nat
  img_load_end :: nat

definition boot_sram :: "linker \<Rightarrow> image \<Rightarrow> store \<Rightarrow> store" where
  "boot_sram L im m = clear_bss L (fsbl_copy_image m (img_start_addr im) (img_load_start im) (img_load_end im))"

definition boot_ram :: "linker \<Rightarrow> image \<Rightarrow> image \<Rightarrow> store \<Rightarrow> store" where
  "boot_ram L ssbl im m =
    clear_bss L (ssbl_copy_image
      (fsbl_copy_image m (img_start_addr ssbl) (img_load_start ssbl) (img_load_end ssbl))
      (img_start_addr im) (img_load_start im) (img_load_end im))"

declare copy_data_loop.simps [simp del] clear_loop.simps [simp del] copy_words.simps [simp del]

subsection \<open>The serial port\<close>

definition UART_BASE :: u32 where "UART_BASE = 0x10000000"

definition uart_init :: "'h hw \<Rightarrow> 'h \<Rightarrow> 'h res" where
  "uart_init H h =
    ebind (hw_outb H (UART_BASE + 1) 0x00 h) (\<lambda>h1.
    ebind (hw_outb H (UART_BASE + 3) 0x80 h1) (\<lambda>h2.
    ebind (hw_outb H (UART_BASE + 0) 0x01 h2) (\<lambda>h3.
    ebind (hw_outb H (UART_BASE + 1) 0x00 h3) (\<lambda>h4.
    ebind (hw_outb H (UART_BASE + 3) 0x03 h4) (\<lambda>h5.
      hw_outb H (UART_BASE + 2) 0x07 h5)))))"

text \<open>The wait for an empty transmitter, in \<^verbatim>\<open>putch\<close> and in the transmit register of \<^verbatim>\<open>ioe.c\<close>.\<close>

partial_function (option) uart_wait :: "'h hw \<Rightarrow> 'h \<Rightarrow> 'h res option" where
  "uart_wait H h =
    (case hw_inb H (UART_BASE + 5) h of
       Inl e \<Rightarrow> Some (Inl e)
     | Inr (ls, h1) \<Rightarrow> if ls AND 0x20 = 0 then uart_wait H h1 else Some (Inr h1))"

definition soc_putch :: "'h hw \<Rightarrow> u8 \<Rightarrow> 'h \<Rightarrow> 'h res option" where
  "soc_putch H ch h = map_option (\<lambda>r. ebind r (hw_outb H UART_BASE ch)) (uart_wait H h)"

section \<open>Devices: ioe.c and timer.c\<close>

definition soc_uptime :: "'h hw \<Rightarrow> u32 \<Rightarrow> 'h \<Rightarrow> (u64 \<times> 'h) res option" where
  "soc_uptime H rtc_addr h = read_time (hw_inl H) rtc_addr h"

definition uart_getch :: "'h hw \<Rightarrow> 'h \<Rightarrow> (u8 \<times> 'h) res" where
  "uart_getch H h =
    ebind (hw_inb H (UART_BASE + 5) h) (\<lambda>(ls, h1). if ls AND 0x01 = 0 then Inr (0xff, h1) else hw_inb H UART_BASE h1)"

definition soc_gpu_config :: gpu_config where
  "soc_gpu_config = \<lparr>gpu_present = True, gpu_has_accel = False, gpu_width = 640, gpu_height = 480, gpu_vmemsz = 640 * 480 * 4\<rparr>"

definition VGA_FB_BASE :: u32 where "VGA_FB_BASE = 0x21000000"

text \<open>
  The clipped drawing loops. The coordinates and the index into the pixel array are \<^verbatim>\<open>int\<close>; a value beyond the
  range of \<^verbatim>\<open>int\<close> is undefined.
\<close>

definition int_ok :: "int \<Rightarrow> bool" where
  "int_ok i \<longleftrightarrow> - (2 ^ 31) \<le> i \<and> i < 2 ^ 31"

definition fb_index :: "int \<Rightarrow> int \<Rightarrow> u32" where
  "fb_index dst_y dst_x = VGA_FB_BASE + 4 * of_int (dst_y * 640 + dst_x)"

primrec soc_row :: "'h hw \<Rightarrow> (nat \<Rightarrow> u32) \<Rightarrow> int \<Rightarrow> int \<Rightarrow> nat \<Rightarrow> nat \<Rightarrow> nat \<Rightarrow> 'h \<Rightarrow> 'h res" where
  "soc_row H px cx dst_y w y 0 h = Inr h"
| "soc_row H px cx dst_y w y (Suc x) h =
    ebind (soc_row H px cx dst_y w y x h) (\<lambda>h1.
      let dst_x = cx + int x in
      if \<not> int_ok dst_x then Inl (Undef ''int overflow'')
      else if dst_x < 0 \<or> dst_x \<ge> 640 then Inr h1
      else if \<not> int_ok (int (y * w + x)) then Inl (Undef ''int overflow'')
      else hw_outl H (fb_index dst_y dst_x) (px (y * w + x)) h1)"

primrec soc_rows :: "'h hw \<Rightarrow> (nat \<Rightarrow> u32) \<Rightarrow> int \<Rightarrow> int \<Rightarrow> nat \<Rightarrow> nat \<Rightarrow> 'h \<Rightarrow> 'h res" where
  "soc_rows H px cx cy w 0 h = Inr h"
| "soc_rows H px cx cy w (Suc y) h =
    ebind (soc_rows H px cx cy w y h) (\<lambda>h1.
      let dst_y = cy + int y in
      if \<not> int_ok dst_y then Inl (Undef ''int overflow'')
      else if dst_y < 0 \<or> dst_y \<ge> 480 then Inr h1
      else soc_row H px cx dst_y w y w h1)"

definition soc_fbdraw :: "'h hw \<Rightarrow> gpu_fbdraw \<Rightarrow> 'h \<Rightarrow> 'h res" where
  "soc_fbdraw H ctl h =
    (case draw_pixels ctl of
       None \<Rightarrow> Inr h
     | Some px \<Rightarrow>
         if sint (draw_w ctl) \<le> 0 \<or> sint (draw_h ctl) \<le> 0 then Inr h
         else soc_rows H px (sint (draw_x ctl)) (sint (draw_y ctl)) (nat (sint (draw_w ctl))) (nat (sint (draw_h ctl))) h)"

subsection \<open>Keys\<close>

definition AM_KEYS :: "string list" where
  "AM_KEYS =
    [''NONE'', ''ESCAPE'', ''F1'', ''F2'', ''F3'', ''F4'', ''F5'', ''F6'', ''F7'', ''F8'', ''F9'', ''F10'', ''F11'', ''F12'',
     ''GRAVE'', ''1'', ''2'', ''3'', ''4'', ''5'', ''6'', ''7'', ''8'', ''9'', ''0'', ''MINUS'', ''EQUALS'', ''BACKSPACE'',
     ''TAB'', ''Q'', ''W'', ''E'', ''R'', ''T'', ''Y'', ''U'', ''I'', ''O'', ''P'', ''LEFTBRACKET'', ''RIGHTBRACKET'', ''BACKSLASH'',
     ''CAPSLOCK'', ''A'', ''S'', ''D'', ''F'', ''G'', ''H'', ''J'', ''K'', ''L'', ''SEMICOLON'', ''APOSTROPHE'', ''RETURN'',
     ''LSHIFT'', ''Z'', ''X'', ''C'', ''V'', ''B'', ''N'', ''M'', ''COMMA'', ''PERIOD'', ''SLASH'', ''RSHIFT'',
     ''LCTRL'', ''APPLICATION'', ''LALT'', ''SPACE'', ''RALT'', ''RCTRL'',
     ''UP'', ''DOWN'', ''LEFT'', ''RIGHT'', ''INSERT'', ''DELETE'', ''HOME'', ''END'', ''PAGEUP'', ''PAGEDOWN'']"

text \<open>The position of a name in the enumeration; \<^verbatim>\<open>AM_KEY_NONE\<close> is 0.\<close>

fun key_index :: "string list \<Rightarrow> nat \<Rightarrow> string \<Rightarrow> nat" where
  "key_index [] i nm = 0"
| "key_index (k # ks) i nm = (if k = nm then i else key_index ks (i + 1) nm)"

definition AM_KEY :: "string \<Rightarrow> nat" where
  "AM_KEY nm = key_index AM_KEYS 0 nm"

definition char_table :: "(nat \<times> string) list" where
  "char_table =
    [(0x1b, ''ESCAPE''), (13, ''RETURN''), (10, ''RETURN''), (8, ''BACKSPACE''), (0x7f, ''BACKSPACE''), (9, ''TAB''), (32, ''SPACE''),
     (96, ''GRAVE''), (45, ''MINUS''), (61, ''EQUALS''), (91, ''LEFTBRACKET''), (93, ''RIGHTBRACKET''), (92, ''BACKSLASH''),
     (59, ''SEMICOLON''), (39, ''APOSTROPHE''), (44, ''COMMA''), (46, ''PERIOD''), (47, ''SLASH'')]"

definition key_from_char :: "u8 \<Rightarrow> nat" where
  "key_from_char ch =
    (let k = unat ch in
     case map_of char_table k of
       Some nm \<Rightarrow> AM_KEY nm
     | None \<Rightarrow>
         if 48 \<le> k \<and> k \<le> 57 \<or> 65 \<le> k \<and> k \<le> 90 then AM_KEY [char_of k]
         else if 97 \<le> k \<and> k \<le> 122 then AM_KEY [char_of (k - 32)]
         else 0)"

definition ps2_extended_table :: "(u8 \<times> string) list" where
  "ps2_extended_table =
    [(0x11, ''RALT''), (0x14, ''RCTRL''), (0x1f, ''APPLICATION''), (0x6b, ''LEFT''), (0x69, ''END''), (0x6c, ''HOME''),
     (0x70, ''INSERT''), (0x71, ''DELETE''), (0x72, ''DOWN''), (0x74, ''RIGHT''), (0x75, ''UP''), (0x7a, ''PAGEDOWN''), (0x7d, ''PAGEUP'')]"

definition ps2_table :: "(u8 \<times> string) list" where
  "ps2_table =
    [(0x76, ''ESCAPE''), (0x05, ''F1''), (0x06, ''F2''), (0x04, ''F3''), (0x0c, ''F4''), (0x03, ''F5''), (0x0b, ''F6''), (0x83, ''F7''),
     (0x0a, ''F8''), (0x01, ''F9''), (0x09, ''F10''), (0x78, ''F11''), (0x07, ''F12''), (0x0e, ''GRAVE''), (0x16, ''1''), (0x1e, ''2''),
     (0x26, ''3''), (0x25, ''4''), (0x2e, ''5''), (0x36, ''6''), (0x3d, ''7''), (0x3e, ''8''), (0x46, ''9''), (0x45, ''0''),
     (0x4e, ''MINUS''), (0x55, ''EQUALS''), (0x66, ''BACKSPACE''), (0x0d, ''TAB''), (0x15, ''Q''), (0x1d, ''W''), (0x24, ''E''),
     (0x2d, ''R''), (0x2c, ''T''), (0x35, ''Y''), (0x3c, ''U''), (0x43, ''I''), (0x44, ''O''), (0x4d, ''P''), (0x54, ''LEFTBRACKET''),
     (0x5b, ''RIGHTBRACKET''), (0x5d, ''BACKSLASH''), (0x58, ''CAPSLOCK''), (0x1c, ''A''), (0x1b, ''S''), (0x23, ''D''), (0x2b, ''F''),
     (0x34, ''G''), (0x33, ''H''), (0x3b, ''J''), (0x42, ''K''), (0x4b, ''L''), (0x4c, ''SEMICOLON''), (0x52, ''APOSTROPHE''),
     (0x5a, ''RETURN''), (0x12, ''LSHIFT''), (0x1a, ''Z''), (0x22, ''X''), (0x21, ''C''), (0x2a, ''V''), (0x32, ''B''), (0x31, ''N''),
     (0x3a, ''M''), (0x41, ''COMMA''), (0x49, ''PERIOD''), (0x4a, ''SLASH''), (0x59, ''RSHIFT''), (0x14, ''LCTRL''), (0x11, ''LALT''),
     (0x29, ''SPACE'')]"

definition key_from_ps2 :: "u8 \<Rightarrow> bool \<Rightarrow> nat" where
  "key_from_ps2 scancode extended =
    (case map_of (if extended then ps2_extended_table else ps2_table) scancode of None \<Rightarrow> 0 | Some nm \<Rightarrow> AM_KEY nm)"

record 'h soc =
  soc_hw :: 'h
  esc_state :: nat
  ps2_extended :: bool
  ps2_released :: bool

definition PS2_BASE :: u32 where "PS2_BASE = 0x10011000"

text \<open>The part of the keyboard driver that reads characters from the serial line, with terminal escape sequences.\<close>

definition soc_serial_key :: "'h hw \<Rightarrow> 'h soc \<Rightarrow> ((bool \<times> nat) \<times> 'h soc) res" where
  "soc_serial_key H s =
    ebind (uart_getch H (soc_hw s)) (\<lambda>(ch, h1).
      let s1 = s\<lparr>soc_hw := h1\<rparr>; report = (\<lambda>key s'. Inr ((key \<noteq> 0, key), s')) in
      if ch = 0xff then Inr ((False, 0), s1)
      else if esc_state s = 1 then
        (if ch = 91 then Inr ((False, 0), s1\<lparr>esc_state := 2\<rparr>) else report (AM_KEY ''ESCAPE'') (s1\<lparr>esc_state := 0\<rparr>))
      else if esc_state s = 2 then
        report (if ch = 65 then AM_KEY ''UP'' else if ch = 66 then AM_KEY ''DOWN'' else if ch = 67 then AM_KEY ''RIGHT''
                else if ch = 68 then AM_KEY ''LEFT'' else 0) (s1\<lparr>esc_state := 0\<rparr>)
      else if ch = 0x1b then Inr ((False, 0), s1\<lparr>esc_state := 1\<rparr>)
      else report (key_from_char ch) s1)"

definition soc_input_keybrd :: "'h hw \<Rightarrow> 'h soc \<Rightarrow> ((bool \<times> nat) \<times> 'h soc) res" where
  "soc_input_keybrd H s =
    ebind (hw_inb H PS2_BASE (soc_hw s)) (\<lambda>(ps2_code, h).
      let s1 = s\<lparr>soc_hw := h\<rparr> in
      if ps2_code = 0 then soc_serial_key H s1
      else if ps2_code = 0xe0 then Inr ((False, 0), s1\<lparr>ps2_extended := True\<rparr>)
      else if ps2_code = 0xf0 then Inr ((False, 0), s1\<lparr>ps2_released := True\<rparr>)
      else Inr ((\<not> ps2_released s1, key_from_ps2 ps2_code (ps2_extended s1)),
                s1\<lparr>ps2_extended := False, ps2_released := False\<rparr>))"

text \<open>Register dispatch; an unknown register halts the machine with code 1.\<close>

definition soc_ioe_read :: "'h hw \<Rightarrow> nat \<Rightarrow> 'h soc \<Rightarrow> (am_buf \<times> 'h soc) res option" where
  "soc_ioe_read H reg s =
    (if reg = 1 then Some (Inr (B_present True, s))
     else if reg = 3 then Some (ebind (uart_getch H (soc_hw s)) (\<lambda>(ch, h). Inr (B_uart ch, s\<lparr>soc_hw := h\<rparr>)))
     else if reg = 4 then Some (Inr (B_timer_config True True, s))
     else if reg = 5 then Some (Inr (B_rtc am_timer_rtc, s))
     else if reg = 6 then
       map_option (\<lambda>r. ebind r (\<lambda>(t, h). Inr (B_uptime t, s\<lparr>soc_hw := h\<rparr>))) (soc_uptime H 0x0200bff8 (soc_hw s))
     else if reg = 7 then Some (Inr (B_present True, s))
     else if reg = 8 then Some (ebind (soc_input_keybrd H s) (\<lambda>((d, k), s'). Inr (B_kbd d (of_nat k), s')))
     else if reg = 9 then Some (Inr (B_gpu soc_gpu_config, s))
     else if reg = 10 then Some (Inr (B_ready True, s))
     else Some (Inl (Panic ''halt(1)'')))"

definition soc_ioe_write :: "'h hw \<Rightarrow> nat \<Rightarrow> am_buf \<Rightarrow> 'h soc \<Rightarrow> 'h soc res option" where
  "soc_ioe_write H reg b s =
    (if reg = 2 then
       (case b of B_uart ch \<Rightarrow> map_option (\<lambda>r. ebind r (\<lambda>h. Inr (s\<lparr>soc_hw := h\<rparr>))) (soc_putch H ch (soc_hw s))
                | _ \<Rightarrow> Some (Inl (Undef ''buffer'')))
     else if reg = 11 then
       (case b of B_fbdraw ctl \<Rightarrow> Some (ebind (soc_fbdraw H ctl (soc_hw s)) (\<lambda>h. Inr (s\<lparr>soc_hw := h\<rparr>)))
                | _ \<Rightarrow> Some (Inl (Undef ''buffer'')))
     else Some (Inl (Panic ''halt(1)'')))"

section \<open>The boot copies\<close>

lemma aligned_apart:
  fixes d s :: nat
  assumes "(d OR s OR e) AND 3 = 0"
  shows "d mod 4 = 0 \<and> s mod 4 = 0"
proof -
  have "d AND 3 = 0" "s AND 3 = 0"
    using assms by (auto simp: bit_eq_iff bit_simps)
  moreover have "x AND 3 = x mod 4" for x :: nat
    using take_bit_eq_mask [of 2 x] take_bit_eq_mod [of 2 x] by (simp add: mask_eq_exp_minus_1)
  ultimately show ?thesis by simp
qed

lemma copy_word_copy_up:
  assumes "d mod 4 = 0" "s mod 4 = 0"
  shows "copy_word m d s = copy_up m d s 4"
proof -
  have "d = s \<or> s + 4 \<le> d \<or> d + 4 \<le> s" using assms by presburger
  then show ?thesis by (auto simp: copy_word_def numeral_eq_Suc fun_eq_iff)
qed

lemma copy_up_add: "copy_up m d s (n + k) = copy_up (copy_up m d s n) (d + n) (s + n) k"
  by (induction n arbitrary: m d s) (auto simp: fun_upd_def)

lemma copy_words_correct:
  "copy_words m d s e = (m', d', s') \<Longrightarrow>
    \<exists>n. d' = d + n \<and> s' = s + n \<and> (n = 0 \<or> s + n \<le> e) \<and> m' = copy_up m d s n"
proof (induction m d s e rule: copy_words.induct)
  case (1 m d s e)
  show ?case
  proof (cases "(d OR s OR e) AND 3 = 0 \<and> s + 4 \<le> e")
    case True
    then obtain n where "d' = d + 4 + n" "s' = s + 4 + n" "n = 0 \<or> s + 4 + n \<le> e" "m' = copy_up (copy_word m d s) (d + 4) (s + 4) n"
      using 1 by (auto simp: copy_words.simps [of m d s e])
    then show ?thesis
      using True copy_word_copy_up [of d s m] aligned_apart [of d s e] copy_up_add [of m d s 4 n]
      by (intro exI [of _ "4 + n"]) auto
  next
    case False
    then show ?thesis using 1 by (intro exI [of _ 0]) (auto simp: copy_words.simps [of m d s e])
  qed
qed

text \<open>
  The loaders copy the image exactly as the byte loop of \<^verbatim>\<open>memcpy\<close> would, however the image and its destination are
  aligned and however they overlap: the word loop only runs on addresses that are equal or at least a word
  apart.
\<close>

lemma fsbl_copy_image_bytes: "fsbl_copy_image m d s e = memcpy m d s (e - s)"
proof -
  obtain m' d' s' where c: "copy_words m d s e = (m', d', s')" by (cases "copy_words m d s e")
  obtain n where "d' = d + n" "s' = s + n" "n = 0 \<or> s + n \<le> e" "m' = copy_up m d s n"
    using copy_words_correct [OF c] by blast
  then show ?thesis
    using copy_up_add [of m d s n "e - s'"] by (auto simp: fsbl_copy_image_def memcpy_def c)
qed

lemma ssbl_copy_image_bytes: "ssbl_copy_image m d s e = memcpy m d s (e - s)"
  using fsbl_copy_image_bytes [of m d s e] by (simp add: fsbl_copy_image_def ssbl_copy_image_def)

lemma copy_data_loop_eq: "copy_data_loop m d s e = copy_up m d s (e - d)"
proof (induction m d s e rule: copy_data_loop.induct)
  case (1 m d s e)
  show ?case
  proof (cases "d < e")
    case True
    then have "e - d = Suc (e - (d + 1))" by simp
    then show ?thesis using 1 True by (simp add: copy_data_loop.simps [of m d s e] fun_upd_def)
  qed (simp add: copy_data_loop.simps [of m d s e])
qed

lemma clear_loop_eq: "clear_loop m p e = (\<lambda>a. if p \<le> a \<and> a < e then 0 else m a)"
proof (induction m p e rule: clear_loop.induct)
  case (1 m p e)
  then show ?case by (cases "p < e") (auto simp: clear_loop.simps [of m p e] fun_eq_iff fun_upd_def)
qed

text \<open>
  The start-up code without a loader leaves memory as the program was linked: every byte of the data
  section has the value of the load image, every byte of the bss section is zero, and every other byte is
  unchanged, for a linker script that keeps the image, the data and the bss apart.
\<close>

lemma trm_init_memory:
  assumes "data_end L \<le> data_load_start L \<or> data_load_start L + (data_end L - data_start L) \<le> data_start L"
    and "data_end L \<le> bss_start L \<or> bss_end L \<le> data_start L"
  shows "trm_init_data L m a =
    (if data_start L \<le> a \<and> a < data_end L then m (data_load_start L + (a - data_start L))
     else if bss_start L \<le> a \<and> a < bss_end L then 0 else m a)"
proof -
  have "copy_data L m = copied m (data_start L) (data_load_start L) (data_end L - data_start L)"
    unfolding copy_data_def copy_data_loop_eq using assms(1) by (intro copy_up_eq) auto
  then show ?thesis
    using assms by (auto simp: trm_init_data_def clear_bss_def clear_loop_eq copied_def)
qed

definition image_apart :: "image \<Rightarrow> nat \<Rightarrow> nat \<Rightarrow> bool" where
  "image_apart im a e \<longleftrightarrow>
    img_start_addr im + (img_load_end im - img_load_start im) \<le> a \<or> e \<le> img_start_addr im"

lemma image_copied:
  assumes "image_apart im (img_load_start im) (img_load_end im)"
  shows "memcpy m (img_start_addr im) (img_load_start im) (img_load_end im - img_load_start im) =
    copied m (img_start_addr im) (img_load_start im) (img_load_end im - img_load_start im)"
  unfolding memcpy_def using assms by (intro copy_up_eq) (auto simp: image_apart_def)

text \<open>
  C31: the two-stage boot leaves the program in memory as it was linked. For every alignment and length of the
  images, when neither stage overwrites the part of the flash that is still to be copied, the image is at
  its address byte for byte, its bss is zero, and memory outside the second stage, the image and the bss is
  unchanged.
\<close>

theorem boot_ram_memory:
  assumes "image_apart ssbl (img_load_start ssbl) (img_load_end ssbl)" "image_apart ssbl (img_load_start im) (img_load_end im)"
    and "image_apart im (img_load_start im) (img_load_end im)" "image_apart im (bss_start L) (bss_end L)"
  defines "len \<equiv> \<lambda>x. img_load_end x - img_load_start x"
  shows "(\<forall>i < len im. boot_ram L ssbl im m (img_start_addr im + i) = m (img_load_start im + i)) \<and>
    (\<forall>a. bss_start L \<le> a \<and> a < bss_end L \<longrightarrow> boot_ram L ssbl im m a = 0) \<and>
    (\<forall>a. a \<notin> {bss_start L..<bss_end L} \<union> {img_start_addr im..<img_start_addr im + len im}
           \<union> {img_start_addr ssbl..<img_start_addr ssbl + len ssbl} \<longrightarrow> boot_ram L ssbl im m a = m a)"
proof -
  define m1 where "m1 = copied m (img_start_addr ssbl) (img_load_start ssbl) (len ssbl)"
  have b: "boot_ram L ssbl im m = (\<lambda>a. if bss_start L \<le> a \<and> a < bss_end L then 0
      else copied m1 (img_start_addr im) (img_load_start im) (len im) a)"
    unfolding boot_ram_def clear_bss_def clear_loop_eq fsbl_copy_image_bytes ssbl_copy_image_bytes
      image_copied [OF assms(1)] image_copied [OF assms(3)] m1_def len_def ..
  have "m1 (img_load_start im + i) = m (img_load_start im + i)" if "i < len im" for i
    using assms(2) that by (auto simp: m1_def copied_def image_apart_def len_def)
  then have "boot_ram L ssbl im m (img_start_addr im + i) = m (img_load_start im + i)" if "i < len im" for i
    using assms(4) that by (auto simp: b copied_def image_apart_def len_def)
  then show ?thesis by (auto simp: b m1_def copied_def)
qed

theorem boot_ram_memory_witness:
  "boot_ram \<lparr>data_load_start = 0, data_start = 0, data_end = 0, bss_start = 0x105, bss_end = 0x110\<rparr>
     \<lparr>img_start_addr = 0x80, img_load_start = 0x20, img_load_end = 0x28\<rparr> \<lparr>img_start_addr = 0x100, img_load_start = 0x28, img_load_end = 0x2d\<rparr>
     (\<lambda>a. of_nat a) 0x103 = 0x2b"
  using boot_ram_memory [of "\<lparr>img_start_addr = 0x80, img_load_start = 0x20, img_load_end = 0x28\<rparr>"
      "\<lparr>img_start_addr = 0x100, img_load_start = 0x28, img_load_end = 0x2d\<rparr>"
      "\<lparr>data_load_start = 0, data_start = 0, data_end = 0, bss_start = 0x105, bss_end = 0x110\<rparr>" "\<lambda>a. of_nat a"]
  by (auto simp: image_apart_def dest: spec [of _ 3])

section \<open>Drawing\<close>

definition on_screen :: "int \<Rightarrow> int \<Rightarrow> bool" where
  "on_screen Y X \<longleftrightarrow> 0 \<le> Y \<and> Y < 480 \<and> 0 \<le> X \<and> X < 640"

lemma fb_index_inj:
  assumes "on_screen Y X" "on_screen Y' X'"
  shows "fb_index Y X = fb_index Y' X' \<longleftrightarrow> Y = Y' \<and> X = X'"
proof
  define i j where "i = Y * 640 + X" and "j = Y' * 640 + X'"
  have b: "0 \<le> i" "i < 307200" "0 \<le> j" "j < 307200" using assms by (auto simp: i_def j_def on_screen_def)
  assume "fb_index Y X = fb_index Y' X'"
  then have "(of_int (4 * i) :: u32) = of_int (4 * j)" by (simp add: fb_index_def i_def j_def)
  then have "4 * i mod 2 ^ 32 = 4 * j mod 2 ^ 32" unfolding word_of_int_eq_iff take_bit_eq_mod by simp
  then have "i = j" using b by simp
  moreover have "i div 640 = Y" "i mod 640 = X" "j div 640 = Y'" "j mod 640 = X'"
    using assms by (simp_all add: i_def j_def on_screen_def)
  ultimately show "Y = Y' \<and> X = X'" by metis
qed simp

text \<open>
  A plain frame buffer: every store succeeds. \<open>draws\<close> relates the contents before and after a drawing step that
  sets the pixels chosen by \<open>R\<close> to the values of \<open>v\<close>.
\<close>

definition draws :: "(int \<Rightarrow> int \<Rightarrow> bool) \<Rightarrow> (int \<Rightarrow> int \<Rightarrow> u32) \<Rightarrow> (u32 \<Rightarrow> u32) \<Rightarrow> (u32 \<Rightarrow> u32) \<Rightarrow> bool" where
  "draws R v f f' \<longleftrightarrow>
    (\<forall>Y X. on_screen Y X \<longrightarrow> f' (fb_index Y X) = (if R Y X then v Y X else f (fb_index Y X))) \<and>
    (\<forall>a. (\<forall>Y X. on_screen Y X \<longrightarrow> a \<noteq> fb_index Y X) \<longrightarrow> f' a = f a)"

lemma draws_none: "(\<And>Y X. on_screen Y X \<Longrightarrow> \<not> R Y X) \<Longrightarrow> draws R v f f"
  by (auto simp: draws_def)

lemma draws_more:
  assumes "draws R v f g" "draws S w g h"
    and "\<And>Y X. on_screen Y X \<Longrightarrow> T Y X \<longleftrightarrow> S Y X \<or> R Y X"
    and "\<And>Y X. on_screen Y X \<Longrightarrow> S Y X \<Longrightarrow> w Y X = u Y X"
    and "\<And>Y X. on_screen Y X \<Longrightarrow> R Y X \<Longrightarrow> \<not> S Y X \<Longrightarrow> v Y X = u Y X"
  shows "draws T u f h"
  using assms by (auto simp: draws_def)

lemma draws_pixel:
  "on_screen y x \<Longrightarrow> draws (\<lambda>Y X. Y = y \<and> X = x) (\<lambda>Y X. c) f (f(fb_index y x := c))"
  by (auto simp: draws_def fb_index_inj)

definition plain_fb :: "(u32 \<Rightarrow> u32) hw \<Rightarrow> bool" where
  "plain_fb H \<longleftrightarrow> (\<forall>a v f. hw_outl H a v f = Inr (f(a := v)))"

lemma soc_row_draws:
  assumes "plain_fb H" "0 \<le> dy" "dy < 480" "int_ok cx" "int_ok (cx + int n)" "int (y * w + n) < 2 ^ 31"
  shows "\<exists>f'. soc_row H px cx dy w y n f = Inr f' \<and>
    draws (\<lambda>Y X. Y = dy \<and> cx \<le> X \<and> X < cx + int n) (\<lambda>Y X. px (y * w + nat (X - cx))) f f'"
  using assms(5,6)
proof (induction n)
  case 0
  then show ?case by (auto intro: draws_none)
next
  case (Suc n)
  then have ok: "int_ok (cx + int n)" "int_ok (int (y * w + n))"
    using assms(4) of_nat_0_le_iff [of "y * w + n", where 'a = int] unfolding int_ok_def by linarith+
  then obtain g where g: "soc_row H px cx dy w y n f = Inr g"
    "draws (\<lambda>Y X. Y = dy \<and> cx \<le> X \<and> X < cx + int n) (\<lambda>Y X. px (y * w + nat (X - cx))) f g"
    using Suc by (auto simp: int_ok_def)
  show ?case
  proof (cases "on_screen dy (cx + int n)")
    case True
    have "soc_row H px cx dy w y (Suc n) f = Inr (g(fb_index dy (cx + int n) := px (y * w + n)))"
      using g(1) ok True assms(1) by (simp add: Let_def on_screen_def plain_fb_def)
    moreover have "draws (\<lambda>Y X. Y = dy \<and> cx \<le> X \<and> X < cx + int (Suc n)) (\<lambda>Y X. px (y * w + nat (X - cx))) f
        (g(fb_index dy (cx + int n) := px (y * w + n)))"
      by (rule draws_more [OF g(2) draws_pixel [OF True]]) auto
    ultimately show ?thesis by blast
  next
    case False
    have "soc_row H px cx dy w y (Suc n) f = Inr g"
      using g(1) ok False assms(2,3) by (auto simp: Let_def on_screen_def)
    moreover have "draws (\<lambda>Y X. Y = dy \<and> cx \<le> X \<and> X < cx + int (Suc n)) (\<lambda>Y X. px (y * w + nat (X - cx))) f g"
      using False by (intro draws_more [OF g(2) draws_none [of "\<lambda>Y X. Y = dy \<and> X = cx + int n"]]) (auto simp: on_screen_def)
    ultimately show ?thesis by blast
  qed
qed

lemma soc_rows_draws:
  assumes "plain_fb H" "int_ok cx" "int_ok cy" "int_ok (cx + int w)" "int_ok (cy + int n)" "int (n * w) < 2 ^ 31"
  shows "\<exists>f'. soc_rows H px cx cy w n f = Inr f' \<and>
    draws (\<lambda>Y X. cy \<le> Y \<and> Y < cy + int n \<and> cx \<le> X \<and> X < cx + int w) (\<lambda>Y X. px (nat (Y - cy) * w + nat (X - cx))) f f'"
  using assms(5,6)
proof (induction n)
  case 0
  then show ?case by (auto intro: draws_none)
next
  case (Suc n)
  then have ok: "int_ok (cy + int n)" using assms(3) by (auto simp: int_ok_def)
  have idx: "int (n * w + w) < 2 ^ 31" using Suc.prems(2) by (simp add: algebra_simps)
  have "int (n * w) \<le> int (n * w + w)" by simp
  then have "int (n * w) < 2 ^ 31" using idx by linarith
  then obtain g where g: "soc_rows H px cx cy w n f = Inr g"
    "draws (\<lambda>Y X. cy \<le> Y \<and> Y < cy + int n \<and> cx \<le> X \<and> X < cx + int w) (\<lambda>Y X. px (nat (Y - cy) * w + nat (X - cx))) f g"
    using Suc.IH ok by auto
  show ?case
  proof (cases "0 \<le> cy + int n \<and> cy + int n < 480")
    case True
    then obtain h where h: "soc_row H px cx (cy + int n) w n w g = Inr h"
      "draws (\<lambda>Y X. Y = cy + int n \<and> cx \<le> X \<and> X < cx + int w) (\<lambda>Y X. px (n * w + nat (X - cx))) g h"
      using soc_row_draws [OF assms(1) _ _ assms(2,4) idx] by blast
    have "soc_rows H px cx cy w (Suc n) f = Inr h" using g(1) h(1) ok True by (simp add: Let_def)
    moreover have "draws (\<lambda>Y X. cy \<le> Y \<and> Y < cy + int (Suc n) \<and> cx \<le> X \<and> X < cx + int w)
        (\<lambda>Y X. px (nat (Y - cy) * w + nat (X - cx))) f h"
      by (rule draws_more [OF g(2) h(2)]) auto
    ultimately show ?thesis by blast
  next
    case False
    then have "soc_rows H px cx cy w (Suc n) f = Inr g" using g(1) ok by (auto simp: Let_def)
    moreover have "draws (\<lambda>Y X. cy \<le> Y \<and> Y < cy + int (Suc n) \<and> cx \<le> X \<and> X < cx + int w)
        (\<lambda>Y X. px (nat (Y - cy) * w + nat (X - cx))) f g"
      using False by (intro draws_more [OF g(2) draws_none [of "\<lambda>Y X. Y = cy + int n"]]) (auto simp: on_screen_def)
    ultimately show ?thesis by blast
  qed
qed

text \<open>
  drawing on the SoC is clipped to the screen. For a rectangle whose corners and pixel indices are
  representable, with any part of it off the screen, the drawing call succeeds, every pixel of the screen
  inside the rectangle has the colour of its source pixel, every other pixel of the screen and every
  other word of memory is unchanged.
\<close>

lemma soc_fbdraw_clips:
  assumes "plain_fb H" "draw_pixels ctl = Some px"
    and "int_ok (sint (draw_x ctl) + sint (draw_w ctl))" "int_ok (sint (draw_y ctl) + sint (draw_h ctl))"
    and "0 < sint (draw_w ctl)" "0 < sint (draw_h ctl)" "sint (draw_h ctl) * sint (draw_w ctl) < 2 ^ 31"
  shows "\<exists>f'. soc_fbdraw H ctl f = Inr f' \<and>
    (\<forall>Y X. on_screen Y X \<longrightarrow> f' (fb_index Y X) =
       (if sint (draw_y ctl) \<le> Y \<and> Y < sint (draw_y ctl) + sint (draw_h ctl) \<and>
           sint (draw_x ctl) \<le> X \<and> X < sint (draw_x ctl) + sint (draw_w ctl)
        then px (nat ((Y - sint (draw_y ctl)) * sint (draw_w ctl) + (X - sint (draw_x ctl)))) else f (fb_index Y X))) \<and>
    (\<forall>a. (\<forall>Y X. on_screen Y X \<longrightarrow> a \<noteq> fb_index Y X) \<longrightarrow> f' a = f a)"
proof -
  define cx cy w h where "cx = sint (draw_x ctl)" and "cy = sint (draw_y ctl)"
    and "w = nat (sint (draw_w ctl))" and "h = nat (sint (draw_h ctl))"
  have wh: "int w = sint (draw_w ctl)" "int h = sint (draw_h ctl)" using assms(5,6) by (simp_all add: w_def h_def)
  have ok: "int_ok cx" "int_ok cy"
    using sint_greater_eq [of "draw_x ctl"] sint_less [of "draw_x ctl"] sint_greater_eq [of "draw_y ctl"] sint_less [of "draw_y ctl"]
    by (auto simp: int_ok_def cx_def cy_def)
  obtain f' where f': "soc_rows H px cx cy w h f = Inr f'"
    "draws (\<lambda>Y X. cy \<le> Y \<and> Y < cy + int h \<and> cx \<le> X \<and> X < cx + int w) (\<lambda>Y X. px (nat (Y - cy) * w + nat (X - cx))) f f'"
    using soc_rows_draws [OF assms(1) ok, of w h px f] assms(3,4,7) wh by (auto simp: cx_def cy_def)
  have "soc_fbdraw H ctl f = Inr f'" using f'(1) assms(2,5,6) by (simp add: soc_fbdraw_def cx_def cy_def w_def h_def)
  moreover have "nat (Y - cy) * w + nat (X - cx) = nat ((Y - cy) * int w + (X - cx))" if "cy \<le> Y" "cx \<le> X" for Y X
    using that by (simp add: nat_add_distrib nat_mult_distrib)
  ultimately show ?thesis using f'(2) unfolding draws_def by (auto simp: wh cx_def cy_def)
qed

definition fb_demo :: gpu_fbdraw where
  "fb_demo = \<lparr>draw_x = -1, draw_y = 479, draw_pixels = Some of_nat, draw_w = 3, draw_h = 2, draw_sync = True\<rparr>"

section \<open>The keyboard\<close>

primrec soc_keys :: "'h hw \<Rightarrow> nat \<Rightarrow> 'h soc \<Rightarrow> ((bool \<times> nat) list \<times> 'h soc) res" where
  "soc_keys H 0 s = Inr ([], s)"
| "soc_keys H (Suc n) s =
    ebind (soc_input_keybrd H s) (\<lambda>(k, s1). ebind (soc_keys H n s1) (\<lambda>(ks, s2). Inr (k # ks, s2)))"

text \<open>
  A key event on the PS/2 line: the prefix of the extended set, the prefix of a release and the scan code;
  and what the driver reports for its bytes.
\<close>

fun ps2_bytes :: "bool \<times> bool \<times> u8 \<Rightarrow> u8 list" where
  "ps2_bytes (ext, rel, code) = (if ext then [0xe0] else []) @ (if rel then [0xf0] else []) @ [code]"

fun ps2_report :: "bool \<times> bool \<times> u8 \<Rightarrow> (bool \<times> nat) list" where
  "ps2_report (ext, rel, code) =
    (if ext then [(False, 0)] else []) @ (if rel then [(False, 0)] else []) @ [(\<not> rel, key_from_ps2 code ext)]"

text \<open>The controller as a queue of received bytes, read one at a time.\<close>

definition ps2_fifo :: "'h hw \<Rightarrow> ('h \<Rightarrow> u8 list) \<Rightarrow> bool" where
  "ps2_fifo H q \<longleftrightarrow> (\<forall>h b bs. q h = b # bs \<longrightarrow> (\<exists>h'. hw_inb H PS2_BASE h = Inr (b, h') \<and> q h' = bs))"

lemma soc_keys_append:
  "soc_keys H (n + k) s = ebind (soc_keys H n s) (\<lambda>(ks, s1). ebind (soc_keys H k s1) (\<lambda>(js, s2). Inr (ks @ js, s2)))"
  by (induction n arbitrary: s) (auto simp: ebind_def split: sum.splits prod.splits)

lemma ps2_prefix:
  assumes "ps2_fifo H q" "q (soc_hw s) = b # bs"
  obtains h' where "q h' = bs" "b = 0xe0 \<Longrightarrow> soc_input_keybrd H s = Inr ((False, 0), s\<lparr>soc_hw := h', ps2_extended := True\<rparr>)"
    "b = 0xf0 \<Longrightarrow> soc_input_keybrd H s = Inr ((False, 0), s\<lparr>soc_hw := h', ps2_released := True\<rparr>)"
    "b \<noteq> 0 \<Longrightarrow> b \<noteq> 0xe0 \<Longrightarrow> b \<noteq> 0xf0 \<Longrightarrow> soc_input_keybrd H s =
       Inr ((\<not> ps2_released s, key_from_ps2 b (ps2_extended s)), s\<lparr>soc_hw := h', ps2_extended := False, ps2_released := False\<rparr>)"
proof -
  obtain h' where "hw_inb H PS2_BASE (soc_hw s) = Inr (b, h')" "q h' = bs"
    using assms unfolding ps2_fifo_def by blast
  then show ?thesis by (intro that [of h']) (simp_all add: soc_input_keybrd_def Let_def)
qed

lemma ps2_event:
  assumes "ps2_fifo H q" "q (soc_hw s) = ps2_bytes (ext, rel, code) @ bs" "code \<notin> {0, 0xe0, 0xf0}"
    and "\<not> ps2_extended s" "\<not> ps2_released s"
  shows "\<exists>h'. soc_keys H (length (ps2_bytes (ext, rel, code))) s = Inr (ps2_report (ext, rel, code), s\<lparr>soc_hw := h'\<rparr>) \<and> q h' = bs"
proof -
  define bs2 where "bs2 = (if rel then [0xf0] else []) @ code # bs"
  have e: "\<exists>h. q h = bs2 \<and> soc_keys H (if ext then 1 else 0) s =
      Inr (if ext then [(False, 0)] else [], s\<lparr>soc_hw := h, ps2_extended := ext\<rparr>)"
  proof (cases ext)
    case True
    then have "q (soc_hw s) = 0xe0 # bs2" using assms(2) by (simp add: bs2_def)
    then obtain h where "q h = bs2" "soc_input_keybrd H s = Inr ((False, 0), s\<lparr>soc_hw := h, ps2_extended := True\<rparr>)"
      using ps2_prefix [OF assms(1)] by metis
    then show ?thesis using True by auto
  next
    case False
    then show ?thesis using assms(2,4) by (intro exI [of _ "soc_hw s"]) (simp add: bs2_def)
  qed
  then obtain h where h: "q h = bs2" "soc_keys H (if ext then 1 else 0) s =
      Inr (if ext then [(False, 0)] else [], s\<lparr>soc_hw := h, ps2_extended := ext\<rparr>)" by blast
  define s1 where "s1 = s\<lparr>soc_hw := h, ps2_extended := ext\<rparr>"
  have r: "\<exists>h. q h = code # bs \<and> soc_keys H (if rel then 1 else 0) s1 =
      Inr (if rel then [(False, 0)] else [], s1\<lparr>soc_hw := h, ps2_released := rel\<rparr>)"
  proof (cases rel)
    case True
    then have "q (soc_hw s1) = 0xf0 # code # bs" using h(1) by (simp add: bs2_def s1_def)
    then obtain h where "q h = code # bs" "soc_input_keybrd H s1 = Inr ((False, 0), s1\<lparr>soc_hw := h, ps2_released := True\<rparr>)"
      using ps2_prefix [OF assms(1)] by metis
    then show ?thesis using True by auto
  next
    case False
    then show ?thesis using h(1) assms(5) by (intro exI [of _ h]) (simp add: bs2_def s1_def)
  qed
  then obtain h2 where h2: "q h2 = code # bs" "soc_keys H (if rel then 1 else 0) s1 =
      Inr (if rel then [(False, 0)] else [], s1\<lparr>soc_hw := h2, ps2_released := rel\<rparr>)" by blast
  define s2 where "s2 = s1\<lparr>soc_hw := h2, ps2_released := rel\<rparr>"
  obtain h3 where h3: "q h3 = bs" "soc_input_keybrd H s2 =
      Inr ((\<not> rel, key_from_ps2 code ext), s2\<lparr>soc_hw := h3, ps2_extended := False, ps2_released := False\<rparr>)"
    using ps2_prefix [OF assms(1), of s2 code bs] assms(3) h2(1) by (auto simp: s2_def s1_def)
  have "length (ps2_bytes (ext, rel, code)) = (if ext then 1 else 0) + ((if rel then 1 else 0) + Suc 0)" by simp
  moreover have "s2\<lparr>soc_hw := h3, ps2_extended := False, ps2_released := False\<rparr> = s\<lparr>soc_hw := h3\<rparr>"
    using assms(4,5) by (simp add: s2_def s1_def)
  ultimately show ?thesis
    using h(2) h2(2) h3 by (intro exI [of _ h3], simp only: soc_keys_append) (simp flip: s1_def s2_def)
qed

text \<open>
  key events on the PS/2 line are decoded in order. For bytes that the controller received for any
  sequence of presses and releases, plain or with the extended prefix, one poll per byte reports for each
  event its press or release with the key of its scan code, an empty report for every prefix byte, and
  leaves no prefix pending.
\<close>

lemma ps2_decodes:
  assumes "ps2_fifo H q" "q (soc_hw s) = concat (map ps2_bytes evs) @ bs"
    and "\<forall>(ext, rel, code) \<in> set evs. code \<notin> {0, 0xe0, 0xf0}"
    and "\<not> ps2_extended s" "\<not> ps2_released s"
  shows "\<exists>h'. soc_keys H (length (concat (map ps2_bytes evs))) s = Inr (concat (map ps2_report evs), s\<lparr>soc_hw := h'\<rparr>) \<and> q h' = bs"
  using assms(2-)
proof (induction evs arbitrary: s)
  case Nil
  then show ?case by (auto intro!: exI [of _ "soc_hw s"])
next
  case (Cons ev evs)
  obtain ext rel code where ev: "ev = (ext, rel, code)" by (cases ev)
  obtain h where h: "soc_keys H (length (ps2_bytes ev)) s = Inr (ps2_report ev, s\<lparr>soc_hw := h\<rparr>)" "q h = concat (map ps2_bytes evs) @ bs"
    using ps2_event [OF assms(1), of s ext rel code "concat (map ps2_bytes evs) @ bs"] Cons.prems unfolding ev by auto
  obtain h' where "soc_keys H (length (concat (map ps2_bytes evs))) (s\<lparr>soc_hw := h\<rparr>) = Inr (concat (map ps2_report evs), s\<lparr>soc_hw := h'\<rparr>)" "q h' = bs"
    using Cons.IH [of "s\<lparr>soc_hw := h\<rparr>"] Cons.prems h(2) by auto
  then show ?case using h(1) by (intro exI [of _ h']) (simp add: soc_keys_append del: soc_keys.simps)
qed

definition ps2_demo_hw :: "u8 list hw" where
  "ps2_demo_hw = \<lparr>hw_inb = (\<lambda>a bs. case bs of [] \<Rightarrow> Inr (0, []) | b # r \<Rightarrow> Inr (b, r)), hw_inl = (\<lambda>a bs. Inr (0, bs)),
     hw_outb = (\<lambda>a v bs. Inr bs), hw_outl = (\<lambda>a v bs. Inr bs)\<rparr>"

text \<open>Every reported key code is one of the enumeration.\<close>

lemma key_index_less: "ks \<noteq> [] \<Longrightarrow> key_index ks i nm < i + length ks"
proof (induction ks arbitrary: i)
  case (Cons k ks)
  then show ?case using Cons.IH [of "i + 1"] by (cases "ks = []") auto
qed simp

lemma key_from_ps2_range: "key_from_ps2 c e < length AM_KEYS"
proof -
  have ne: "AM_KEYS \<noteq> []" by (simp add: AM_KEYS_def)
  then have "AM_KEY nm < length AM_KEYS" for nm
    using key_index_less [of AM_KEYS 0 nm] by (simp add: AM_KEY_def)
  then show ?thesis using ne by (simp add: key_from_ps2_def split: option.split)
qed

section \<open>The registers on the NPC\<close>

text \<open>The platform of the simulated processor without the SoC: a timer, and a keyboard that never has a key.\<close>

definition npc_lut_call :: "'h hw \<Rightarrow> nat \<Rightarrow> am_buf \<Rightarrow> 'h \<Rightarrow> (am_buf \<times> 'h) res option" where
  "npc_lut_call H reg b h =
    (if reg \<ge> 128 then Some (Inl (Undef ''register table''))
     else if reg = 1 then Some (Inr (B_present False, h))
     else if reg = 4 then Some (Inr (B_timer_config True True, h))
     else if reg = 5 then Some (Inr (B_rtc am_timer_rtc, h))
     else if reg = 6 then map_option (\<lambda>r. ebind r (\<lambda>(t, h'). Inr (B_uptime t, h'))) (read_time (hw_inl H) 0xa0000048 h)
     else if reg = 7 then Some (Inr (B_present True, h))
     else if reg = 8 then Some (Inr (B_kbd False 0, h))
     else Some (Inl (Panic ''access nonexist register'')))"

definition npc_putch :: "'h hw \<Rightarrow> u8 \<Rightarrow> 'h \<Rightarrow> 'h res" where
  "npc_putch H ch h = hw_outb H 0x10000000 ch h"

end
