(* ===== verification/Am_Riscv_Cte.thy ===== *)
theory Am_Riscv_Cte
  imports Riscv_Machine Klib_String
begin

text \<open>
  Traps and kernel threads of the abstract machine on RISC-V (\<^verbatim>\<open>cte.c\<close>, \<^verbatim>\<open>trap.S\<close> and \<^verbatim>\<open>vme.c\<close> of
  \<^verbatim>\<open>am/src/riscv/nemu\<close> and \<^verbatim>\<open>am/src/riscv/npc\<close>). The processor is the CPU state of \<^theory_text>\<open>Riscv_Machine\<close>, memory a store
  of aligned words. The two platforms differ in the size of the frame that \<^verbatim>\<open>trap.S\<close> reserves and in the
  \<^verbatim>\<open>MPRV\<close> bit it sets for differential testing. The event handler of the kernel is a parameter.
\<close>

type_synonym wmem = "u32 \<Rightarrow> u32"

record cte =
  cte_nr :: nat
  cte_words :: nat
  cte_mprv :: bool

definition nemu_cte :: "bool \<Rightarrow> cte" where
  "nemu_cte rve = (let n = (if rve then 16 else 32) in \<lparr>cte_nr = n, cte_words = n + 3, cte_mprv = True\<rparr>)"

definition npc_cte :: "bool \<Rightarrow> cte" where
  "npc_cte rve = (let n = (if rve then 16 else 32) in \<lparr>cte_nr = n, cte_words = n + 3 + 1, cte_mprv = False\<rparr>)"

text \<open>The words of a \<^verbatim>\<open>Context\<close>: the registers, then \<^verbatim>\<open>mcause\<close>, \<^verbatim>\<open>mstatus\<close>, \<^verbatim>\<open>mepc\<close> and \<^verbatim>\<open>pdir\<close>.\<close>

definition slot :: "u32 \<Rightarrow> nat \<Rightarrow> u32" where
  "slot c i = c + 4 * of_nat i"

definition context_words :: "cte \<Rightarrow> nat" where
  "context_words P = cte_nr P + 4"

section \<open>Entry and exit: trap.S\<close>

definition ecall :: "cpu_state \<Rightarrow> cpu_state" where
  "ecall cp = cp\<lparr>mepc := cpu_pc cp, mcause := 11, cpu_pc := mtvec cp\<rparr>"

definition REGS :: "nat \<Rightarrow> nat list" where
  "REGS nr = 1 # [3..<nr]"

definition push_regs :: "nat list \<Rightarrow> u32 \<Rightarrow> u32 list \<Rightarrow> wmem \<Rightarrow> wmem" where
  "push_regs rs sp g M = fold (\<lambda>n M. M(slot sp n := g ! n)) rs M"

definition pop_regs :: "nat list \<Rightarrow> u32 \<Rightarrow> wmem \<Rightarrow> u32 list \<Rightarrow> u32 list" where
  "pop_regs rs sp M g = fold (\<lambda>n g. g[n := M (slot sp n)]) rs g"

definition asm_trap_save :: "cte \<Rightarrow> cpu_state \<times> wmem \<Rightarrow> cpu_state \<times> wmem" where
  "asm_trap_save P s =
    (case s of (cp, M) \<Rightarrow>
     let sp = gpr cp ! 2 - 4 * of_nat (cte_words P);
         g1 = (gpr cp)[2 := sp];
         M1 = push_regs (REGS (cte_nr P)) sp g1 M;
         g2 = g1[5 := mcause cp, 6 := mstatus cp, 7 := mepc cp];
         M2 = M1(slot sp (cte_nr P) := g2 ! 5, slot sp (cte_nr P + 1) := g2 ! 6, slot sp (cte_nr P + 2) := g2 ! 7);
         (g3, st) = (if cte_mprv P then (let a0 = push_bit 17 1; t1 = g2 ! 6 OR a0 in (g2[10 := a0, 6 := t1], t1))
                     else (g2, mstatus cp))
     in (cp\<lparr>gpr := g3[10 := sp], mstatus := st\<rparr>, M2))"

text \<open>The exit path, from the return of the handler with the context in \<^verbatim>\<open>a0\<close> up to \<^verbatim>\<open>mret\<close>.\<close>

definition asm_trap_restore :: "cte \<Rightarrow> u32 \<Rightarrow> cpu_state \<times> wmem \<Rightarrow> cpu_state" where
  "asm_trap_restore P a0 s =
    (case s of (cp, M) \<Rightarrow>
     let g1 = (gpr cp)[2 := a0];
         g2 = g1[6 := M (slot a0 (cte_nr P + 1)), 7 := M (slot a0 (cte_nr P + 2))];
         cp1 = cp\<lparr>mstatus := g2 ! 6, mepc := g2 ! 7\<rparr>;
         g3 = pop_regs (REGS (cte_nr P)) a0 M g2
     in cp1\<lparr>gpr := g3[2 := a0 + 4 * of_nat (cte_words P)], cpu_pc := mepc cp1\<rparr>)"

section \<open>Events: cte.c\<close>

datatype Event =
  EVENT_NULL | EVENT_YIELD | EVENT_SYSCALL | EVENT_PAGEFAULT | EVENT_ERROR | EVENT_IRQ_TIMER | EVENT_IRQ_IODEV

type_synonym handler = "Event \<Rightarrow> u32 \<Rightarrow> wmem \<Rightarrow> u32 \<times> wmem"

text \<open>The register that carries the call number: \<^verbatim>\<open>a5\<close> with 16 registers, otherwise \<^verbatim>\<open>a7\<close>.\<close>

definition GPR1 :: "cte \<Rightarrow> nat" where
  "GPR1 P = (if cte_nr P = 16 then 15 else 17)"

definition classify :: "cte \<Rightarrow> u32 \<Rightarrow> wmem \<Rightarrow> Event \<times> wmem" where
  "classify P c M =
    (if M (slot c (cte_nr P)) = 0xb then
       (if M (slot c (GPR1 P)) = - 1 then EVENT_YIELD else EVENT_SYSCALL,
        M(slot c (cte_nr P + 2) := M (slot c (cte_nr P + 2)) + 4))
     else (EVENT_ERROR, M))"

definition irq_handle :: "cte \<Rightarrow> handler option \<Rightarrow> u32 \<Rightarrow> wmem \<Rightarrow> (u32 \<times> wmem) res" where
  "irq_handle P user_handler c M =
    (case user_handler of
       None \<Rightarrow> Inr (c, M)
     | Some h \<Rightarrow>
         (case classify P c M of (ev, M1) \<Rightarrow>
          case h ev c M1 of (c', M2) \<Rightarrow>
          ebind (echeck (c' \<noteq> 0) Assert_fail) (\<lambda>_. Inr (c', M2))))"

definition hex_digit :: "nat \<Rightarrow> char" where
  "hex_digit h = (if h < 10 then char_of (48 + h) else char_of (97 + h - 10))"

definition debug_print_hex :: "string \<Rightarrow> u32 \<Rightarrow> string" where
  "debug_print_hex msg v =
    msg @ ''0x'' @ map (\<lambda>i. hex_digit (unat (drop_bit (i * 4) v AND 0xf))) (rev [0..<8]) @ [char_of (10 :: nat)]"

text \<open>NEMU's version prints three lines first.\<close>

definition irq_handle_nemu :: "cte \<Rightarrow> handler option \<Rightarrow> u32 \<Rightarrow> wmem \<Rightarrow> string \<times> (u32 \<times> wmem) res" where
  "irq_handle_nemu P user_handler c M =
    ((if user_handler = None then '''' else
        debug_print_hex ''[DEBUG] Context Size = '' (4 * of_nat (context_words P)) @
        debug_print_hex ''[DEBUG] mcause       = '' (M (slot c (cte_nr P))) @
        debug_print_hex ''[DEBUG] a5 (gpr[15]) = '' (M (slot c 15))),
     irq_handle P user_handler c M)"

definition cte_init :: "u32 \<Rightarrow> handler \<Rightarrow> cpu_state \<times> handler option \<Rightarrow> bool \<times> cpu_state \<times> handler option" where
  "cte_init am_asm_trap h s = (True, (fst s)\<lparr>mtvec := am_asm_trap\<rparr>, Some h)"

definition kcontext :: "cte \<Rightarrow> u32 \<Rightarrow> u32 \<Rightarrow> u32 \<Rightarrow> wmem \<Rightarrow> u32 \<times> wmem" where
  "kcontext P kstack_end entry arg M =
    (let c = kstack_end - 4 * of_nat (context_words P);
         M1 = fold (\<lambda>i M. M(slot c i := 0)) [0..<context_words P] M
     in (c, M1(slot c (cte_nr P + 2) := entry, slot c (cte_nr P + 1) := 0x1800, slot c 10 := arg, slot c (cte_nr P + 3) := 0)))"

text \<open>\<^verbatim>\<open>yield\<close>: load the call number and trap.\<close>

definition yield :: "cte \<Rightarrow> cpu_state \<Rightarrow> cpu_state" where
  "yield P cp = ecall (cp\<lparr>gpr := (gpr cp)[GPR1 P := - 1], cpu_pc := cpu_pc cp + 4\<rparr>)"

definition ienabled :: bool where
  "ienabled = False"

section \<open>Address spaces: vme.c\<close>

record vme =
  kas_ptr :: u32
  vme_enable :: bool
  satp :: u32

definition set_satp :: "u32 \<Rightarrow> vme \<Rightarrow> vme" where
  "set_satp pdir s = s\<lparr>satp := push_bit 31 1 OR drop_bit 12 pdir\<rparr>"

definition get_satp :: "vme \<Rightarrow> u32" where
  "get_satp s = push_bit 12 (satp s)"

definition PGSIZE :: nat where "PGSIZE = 4096"

text \<open>\<^verbatim>\<open>map\<close> has an empty body, so the loops of \<^verbatim>\<open>vme_init\<close> only walk over the kernel segments.\<close>

definition map_page :: "nat \<Rightarrow> nat \<Rightarrow> vme \<Rightarrow> vme" where
  "map_page va pa s = s"

function map_range :: "nat \<Rightarrow> nat \<Rightarrow> vme \<Rightarrow> vme" where
  "map_range va e s = (if va < e then map_range (va + PGSIZE) e (map_page va va s) else s)"
  by pat_completeness auto
termination
  by (relation "measure (\<lambda>(va, e, s). e - va)") (auto simp: PGSIZE_def)

definition vme_init :: "u32 \<Rightarrow> (nat \<times> nat) list \<Rightarrow> vme \<Rightarrow> vme" where
  "vme_init page segments s =
    (let s1 = s\<lparr>kas_ptr := page\<rparr>;
         s2 = fold (\<lambda>(st, e). map_range st e) segments s1
     in (set_satp (kas_ptr s2) s2)\<lparr>vme_enable := True\<rparr>)"

record addr_space =
  as_pgsize :: nat
  as_area :: "u32 \<times> u32"
  as_ptr :: u32

text \<open>A new address space starts as a copy of the kernel's directory; this one is on bytes.\<close>

definition protect :: "u32 \<Rightarrow> vme \<Rightarrow> store \<Rightarrow> addr_space \<times> store" where
  "protect updir s m =
    (\<lparr>as_pgsize = PGSIZE, as_area = (0x40000000, 0x80000000), as_ptr = updir\<rparr>,
     memcpy m (unat updir) (unat (kas_ptr s)) PGSIZE)"

definition am_get_cur_as :: "cte \<Rightarrow> vme \<Rightarrow> u32 \<Rightarrow> wmem \<Rightarrow> wmem" where
  "am_get_cur_as P s c M = M(slot c (cte_nr P + 3) := (if vme_enable s then get_satp s else 0))"

definition am_switch :: "cte \<Rightarrow> u32 \<Rightarrow> wmem \<Rightarrow> vme \<Rightarrow> vme" where
  "am_switch P c M s =
    (if vme_enable s \<and> M (slot c (cte_nr P + 3)) \<noteq> 0 then set_satp (M (slot c (cte_nr P + 3))) s else s)"

declare map_range.simps [simp del]

section \<open>Frames\<close>

lemma slot_inject:
  assumes "i < 2 ^ 30" "j < 2 ^ 30"
  shows "slot c i = slot c j \<longleftrightarrow> i = j"
proof
  assume "slot c i = slot c j"
  then have "(of_nat (4 * i) :: u32) = of_nat (4 * j)" by (simp add: slot_def)
  then have "4 * i mod 2 ^ 32 = 4 * j mod 2 ^ 32" unfolding word_of_nat_eq_iff take_bit_eq_mod by simp
  then show "i = j" using assms by simp
qed simp

definition cte_ok :: "cte \<Rightarrow> bool" where
  "cte_ok P \<longleftrightarrow> (cte_nr P = 16 \<or> cte_nr P = 32) \<and> (cte_words P = cte_nr P + 3 \<or> cte_words P = cte_nr P + 4)"

lemma cte_ok_platforms: "cte_ok (nemu_cte rve)" "cte_ok (npc_cte rve)"
  by (simp_all add: cte_ok_def nemu_cte_def npc_cte_def)

text \<open>A store to a slot leaves the other slots and everything that is no slot of the context.\<close>

lemma slot_other [simp]:
  "i < 36 \<Longrightarrow> j < 36 \<Longrightarrow> slot c i = slot c j \<longleftrightarrow> i = j"
  by (rule slot_inject) auto

lemma push_regs_slot:
  assumes "\<forall>r \<in> set rs. r < 36" "i < 36"
  shows "push_regs rs sp g M (slot sp i) = (if i \<in> set rs then g ! i else M (slot sp i))"
  using assms unfolding push_regs_def by (induction rs arbitrary: M) auto

lemma push_regs_frame:
  "(\<forall>r \<in> set rs. a \<noteq> slot sp r) \<Longrightarrow> push_regs rs sp g M a = M a"
  unfolding push_regs_def by (induction rs arbitrary: M) auto

lemma pop_regs_length [simp]: "length (pop_regs rs sp M g) = length g"
  unfolding pop_regs_def by (induction rs arbitrary: g) auto

lemma pop_regs_nth:
  assumes "i < length g"
  shows "pop_regs rs sp M g ! i = (if i \<in> set rs then M (slot sp i) else g ! i)"
  using assms
proof (induction rs arbitrary: g)
  case (Cons r rs)
  have "pop_regs (r # rs) sp M g = pop_regs rs sp M (g[r := M (slot sp r)])" by (simp add: pop_regs_def)
  then show ?case using Cons by (auto simp: nth_list_update)
qed (simp add: pop_regs_def)

lemma set_REGS: "4 \<le> nr \<Longrightarrow> i \<in> set (REGS nr) \<longleftrightarrow> i < nr \<and> i \<noteq> 0 \<and> i \<noteq> 2"
  by (auto simp: REGS_def)

definition frame :: "cte \<Rightarrow> u32 \<Rightarrow> u32 set" where
  "frame P c = slot c ` {..<cte_nr P + 3}"

text \<open>What leaving a trap loads is decided by the frame alone.\<close>

lemma restore_frame:
  fixes c :: u32 and M :: wmem
  assumes "cte_ok P" "length (gpr cp) = cte_nr P" "gpr cp ! 0 = 0"
  defines "cp' \<equiv> asm_trap_restore P c (cp, M)"
  shows "length (gpr cp') = cte_nr P"
    and "i < cte_nr P \<Longrightarrow> gpr cp' ! i = (if i = 0 then 0 else if i = 2 then c + 4 * of_nat (cte_words P) else M (slot c i))"
    and "cpu_pc cp' = M (slot c (cte_nr P + 2))" "mstatus cp' = M (slot c (cte_nr P + 1))"
  using assms
  by (auto simp: asm_trap_restore_def Let_def pop_regs_nth set_REGS cte_ok_def nth_list_update)

lemma save_frame:
  fixes M :: wmem
  assumes "cte_ok P" "length (gpr cp) = cte_nr P"
  defines "c \<equiv> gpr cp ! 2 - 4 * of_nat (cte_words P)" and "s \<equiv> asm_trap_save P (cp, M)"
  shows "gpr (fst s) ! 10 = c" "snd s (slot c (cte_nr P)) = mcause cp" "snd s (slot c (cte_nr P + 1)) = mstatus cp"
    "snd s (slot c (cte_nr P + 2)) = mepc cp"
    and "i < cte_nr P \<Longrightarrow> i \<noteq> 0 \<Longrightarrow> i \<noteq> 2 \<Longrightarrow> snd s (slot c i) = gpr cp ! i"
    and "a \<notin> frame P c \<Longrightarrow> snd s a = M a"
proof -
  have nr: "cte_nr P = 16 \<or> cte_nr P = 32" using assms(1) by (auto simp: cte_ok_def)
  have rs: "\<forall>r \<in> set (REGS (cte_nr P)). r < 36" using nr by (auto simp: set_REGS)
  show "gpr (fst s) ! 10 = c" using nr assms(2) by (auto simp: s_def c_def asm_trap_save_def Let_def)
  show "snd s (slot c (cte_nr P)) = mcause cp" "snd s (slot c (cte_nr P + 1)) = mstatus cp"
    "snd s (slot c (cte_nr P + 2)) = mepc cp"
    using nr assms(2) by (auto simp: s_def c_def asm_trap_save_def Let_def)
  show "snd s (slot c i) = gpr cp ! i" if "i < cte_nr P" "i \<noteq> 0" "i \<noteq> 2"
    using that nr rs by (auto simp: s_def c_def [symmetric] asm_trap_save_def Let_def push_regs_slot set_REGS)
  show "snd s a = M a" if "a \<notin> frame P c"
  proof -
    have out: "a \<noteq> slot c r" if "r < cte_nr P + 3" for r using that \<open>a \<notin> frame P c\<close> by (auto simp: frame_def)
    have "\<forall>r \<in> set (REGS (cte_nr P)). a \<noteq> slot c r" by (intro ballI out) (use nr in \<open>auto simp: set_REGS\<close>)
    then show ?thesis
      using out [of "cte_nr P"] out [of "cte_nr P + 1"] out [of "cte_nr P + 2"]
      by (auto simp: s_def c_def [symmetric] asm_trap_save_def Let_def push_regs_frame)
  qed
qed

section \<open>Kernel threads\<close>

lemma ecall_is_trap:
  "isa_raise_intr 11 (cpu_pc (cpu m)) m =
    (cpu_pc (ecall (cpu m)), m\<lparr>cpu := (ecall (cpu m))\<lparr>cpu_pc := cpu_pc (cpu m)\<rparr>\<rparr>)"
  by (simp add: isa_raise_intr_def ecall_def Let_def)

lemma GPR1_slot:
  assumes "cte_ok P"
  shows "GPR1 P < cte_nr P" "GPR1 P \<noteq> 0" "GPR1 P \<noteq> 2" "GPR1 P < 36" "cte_nr P + 3 < 36" "4 \<le> cte_nr P"
  using assms by (auto simp: GPR1_def cte_ok_def)

text \<open>
  C14: a thread that yields is resumed exactly where it left. The trap entry saves it in a frame below its
  stack pointer and touches no other memory, and the kernel's handler is called with a yield event for that
  frame. Whenever later, from any registers and on any memory in which the frame is still as the handler got
  it, the exit path returns to the frame, every register including the stack pointer and the status
  register is as before the trap, and execution continues after the trapping instruction. This holds on
  both platforms although they reserve frames of different sizes.
\<close>

theorem yield_resumes:
  assumes "cte_ok P" "length (gpr cp) = cte_nr P" "gpr cp ! 0 = 0" "gpr cp ! GPR1 P = - 1"
  shows "\<exists>cp1 M1 M2 c. asm_trap_save P (ecall cp, M) = (cp1, M1) \<and> gpr cp1 ! 10 = c \<and>
    (\<forall>h. irq_handle P (Some h) c M1 =
       (case h EVENT_YIELD c M2 of (c', M3) \<Rightarrow> if c' = 0 then Inl Assert_fail else Inr (c', M3))) \<and>
    (\<forall>a. a \<notin> frame P c \<longrightarrow> M2 a = M a) \<and>
    (\<forall>cp3 M3. length (gpr cp3) = cte_nr P \<and> gpr cp3 ! 0 = 0 \<and> (\<forall>a \<in> frame P c. M3 a = M2 a) \<longrightarrow>
       (let cp4 = asm_trap_restore P c (cp3, M3) in
        gpr cp4 = gpr cp \<and> mstatus cp4 = mstatus cp \<and> cpu_pc cp4 = cpu_pc cp + 4))"
proof -
  obtain cp1 M1 where s: "asm_trap_save P (ecall cp, M) = (cp1, M1)" by (cases "asm_trap_save P (ecall cp, M)")
  define c where "c = gpr cp ! 2 - 4 * of_nat (cte_words P)"
  define M2 where "M2 = M1(slot c (cte_nr P + 2) := cpu_pc cp + 4)"
  have e: "length (gpr (ecall cp)) = cte_nr P" "gpr (ecall cp) = gpr cp" "mcause (ecall cp) = 11"
    "mepc (ecall cp) = cpu_pc cp" "mstatus (ecall cp) = mstatus cp" using assms(2) by (simp_all add: ecall_def)
  note save = save_frame [OF assms(1) e(1), where M = M, unfolded s e fst_conv snd_conv, folded c_def]
  note gs = GPR1_slot [OF assms(1)]
  have cl: "classify P c M1 = (EVENT_YIELD, M2)"
    using save(2,4) save(5) [of "GPR1 P"] gs assms(4) by (simp add: classify_def M2_def)
  have ih: "irq_handle P (Some h) c M1 =
      (case h EVENT_YIELD c M2 of (c', M3) \<Rightarrow> if c' = 0 then Inl Assert_fail else Inr (c', M3))" for h
    by (simp add: irq_handle_def cl echeck_def split: prod.split)
  have fr: "M2 a = M a" if "a \<notin> frame P c" for a
    using save(6) [OF that] that by (auto simp: M2_def frame_def)
  have res: "gpr cp4 = gpr cp \<and> mstatus cp4 = mstatus cp \<and> cpu_pc cp4 = cpu_pc cp + 4"
    if a: "length (gpr cp3) = cte_nr P" "gpr cp3 ! 0 = 0" "\<forall>a \<in> frame P c. M3 a = M2 a" "cp4 = asm_trap_restore P c (cp3, M3)"
    for cp3 M3 cp4
  proof -
    note r = restore_frame [OF assms(1) a(1,2), where c = c and M = M3, folded a(4)]
    have m3: "M3 (slot c i) = M2 (slot c i)" if "i < cte_nr P + 3" for i using a(3) that by (auto simp: frame_def)
    have m2: "M2 (slot c i) = M1 (slot c i)" if "i < cte_nr P + 2" for i using that gs(5) by (simp add: M2_def)
    have "gpr cp4 ! i = gpr cp ! i" if "i < cte_nr P" for i
      using r(2) [OF that] save(5) [OF that] m3 [of i] m2 [of i] that assms(3) by (auto simp: c_def)
    then have "gpr cp4 = gpr cp" using r(1) assms(2) by (auto intro: nth_equalityI)
    moreover have "mstatus cp4 = mstatus cp" using r(4) m3 [of "cte_nr P + 1"] m2 [of "cte_nr P + 1"] save(3) by simp
    moreover have "cpu_pc cp4 = cpu_pc cp + 4" using r(3) m3 [of "cte_nr P + 2"] by (simp add: M2_def)
    ultimately show ?thesis by blast
  qed
  show ?thesis
    unfolding Let_def
    by (intro exI [of _ cp1] exI [of _ M1] exI [of _ M2] exI [of _ c] conjI allI impI s save(1) ih fr) (use res in blast)+
qed

definition cte_demo :: cpu_state where
  "cte_demo = (cpu_zero quiet_config)\<lparr>gpr := (replicate 32 5)[0 := 0, 2 := 0x80009000, 17 := - 1], cpu_pc := 0x80000100\<rparr>"

theorem yield_resumes_witness:
  "\<exists>cp1 M1 M2 c. asm_trap_save (nemu_cte False) (ecall cte_demo, \<lambda>_. 0) = (cp1, M1) \<and> gpr cp1 ! 10 = c \<and>
     irq_handle (nemu_cte False) (Some (\<lambda>ev c M. (1, M))) c M1 = Inr (1, M2) \<and>
     gpr (asm_trap_restore (nemu_cte False) c (cte_demo, M2)) = gpr cte_demo \<and>
     cpu_pc (asm_trap_restore (nemu_cte False) c (cte_demo, M2)) = 0x80000104"
proof -
  have h: "length (gpr cte_demo) = cte_nr (nemu_cte False)" "gpr cte_demo ! 0 = 0" "gpr cte_demo ! GPR1 (nemu_cte False) = - 1"
    by (simp_all add: cte_demo_def nemu_cte_def GPR1_def)
  have pc: "cpu_pc cte_demo + 4 = 0x80000104" by (simp add: cte_demo_def)
  obtain cp1 M1 M2 c where y: "asm_trap_save (nemu_cte False) (ecall cte_demo, \<lambda>_. 0) = (cp1, M1)" "gpr cp1 ! 10 = c"
    "\<forall>h. irq_handle (nemu_cte False) (Some h) c M1 =
       (case h EVENT_YIELD c M2 of (c', M3) \<Rightarrow> if c' = 0 then Inl Assert_fail else Inr (c', M3))"
    "\<forall>cp3 M3. length (gpr cp3) = cte_nr (nemu_cte False) \<and> gpr cp3 ! 0 = 0 \<and> (\<forall>a \<in> frame (nemu_cte False) c. M3 a = M2 a) \<longrightarrow>
       (let cp4 = asm_trap_restore (nemu_cte False) c (cp3, M3) in
        gpr cp4 = gpr cte_demo \<and> mstatus cp4 = mstatus cte_demo \<and> cpu_pc cp4 = cpu_pc cte_demo + 4)"
    using yield_resumes [OF cte_ok_platforms(1) h, of "\<lambda>_. 0"] by blast
  have "irq_handle (nemu_cte False) (Some (\<lambda>ev c M. (1, M))) c M1 = Inr (1, M2)" by (simp add: y(3))
  moreover have "gpr (asm_trap_restore (nemu_cte False) c (cte_demo, M2)) = gpr cte_demo"
    "cpu_pc (asm_trap_restore (nemu_cte False) c (cte_demo, M2)) = 0x80000104"
    using y(4) h(1,2) pc by (simp_all add: Let_def)
  ultimately show ?thesis using y(1,2) by blast
qed

text \<open>
  a new kernel thread starts in its entry function. Returning from a trap to the context \<^verbatim>\<open>kcontext\<close> made
  continues at the entry with the argument in \<^verbatim>\<open>a0\<close>, in machine mode, with every other register zero and the
  stack pointer at the end of the stack area, less one word on NEMU, where \<^verbatim>\<open>trap.S\<close> reserves one word less
  than a \<^verbatim>\<open>Context\<close> has; and memory outside the context is unchanged.
\<close>

lemma kcontext_starts:
  assumes "cte_ok P" "length (gpr cp) = cte_nr P" "gpr cp ! 0 = 0"
  shows "\<exists>c M1. kcontext P stack_end entry arg M = (c, M1) \<and>
    (\<forall>a. a \<notin> slot c ` {..<context_words P} \<longrightarrow> M1 a = M a) \<and>
    (let cp1 = asm_trap_restore P c (cp, M1) in
     cpu_pc cp1 = entry \<and> mstatus cp1 = 0x1800 \<and>
     gpr cp1 = (replicate (cte_nr P) 0)[10 := arg, 2 := (if cte_words P = context_words P then stack_end else stack_end - 4)])"
proof -
  define c where "c = stack_end - 4 * of_nat (context_words P)"
  define Z where "Z n = fold (\<lambda>i M. M(slot c i := 0)) [0..<n] M" for n
  have Z: "Z n a = (if a \<in> slot c ` {..<n} then 0 else M a)" for n a
    by (induction n) (auto simp: Z_def lessThan_Suc)
  define M1 where "M1 = (Z (context_words P))(slot c (cte_nr P + 2) := entry, slot c (cte_nr P + 1) := 0x1800,
    slot c 10 := arg, slot c (cte_nr P + 3) := 0)"
  have k: "kcontext P stack_end entry arg M = (c, M1)"
    by (simp add: kcontext_def Let_def M1_def Z_def c_def)
  have nr: "cte_nr P = 16 \<or> cte_nr P = 32" using assms(1) by (simp add: cte_ok_def)
  have out: "M1 a = M a" if "a \<notin> slot c ` {..<context_words P}" for a
  proof -
    have ne: "a \<noteq> slot c i" if "i < cte_nr P + 4" for i using \<open>a \<notin> _\<close> that by (auto simp: context_words_def)
    show ?thesis using ne [of "cte_nr P + 2"] ne [of "cte_nr P + 1"] ne [of 10] ne [of "cte_nr P + 3"] that nr by (auto simp: M1_def Z)
  qed
  define cp1 where "cp1 = asm_trap_restore P c (cp, M1)"
  note r = restore_frame [OF assms, where c = c and M = M1, folded cp1_def]
  have reg: "M1 (slot c i) = (if i = 10 then arg else 0)" if "i < cte_nr P" for i
    using that nr by (auto simp: M1_def Z context_words_def)
  have sp: "c + 4 * of_nat (cte_words P) = (if cte_words P = context_words P then stack_end else stack_end - 4)"
    using assms(1) by (auto simp: c_def cte_ok_def context_words_def algebra_simps)
  have "gpr cp1 = (replicate (cte_nr P) 0)[10 := arg, 2 := (if cte_words P = context_words P then stack_end else stack_end - 4)]"
    using r(1,2) reg sp nr by (intro nth_equalityI) (auto simp: nth_list_update)
  moreover have "cpu_pc cp1 = entry" "mstatus cp1 = 0x1800" using r(3,4) nr by (auto simp: M1_def)
  ultimately show ?thesis using k out by (auto simp: cp1_def Let_def)
qed

section \<open>Address space registers\<close>

text \<open>The page directory read back from \<^verbatim>\<open>satp\<close> is the one set, whatever its offset bits, without the mode bit.\<close>

lemma get_set_satp: "get_satp (set_satp pdir s) = pdir AND NOT (mask 12)"
proof (rule bit_word_eqI)
  fix n :: nat
  assume "n < LENGTH(32)"
  moreover have "get_satp (set_satp pdir s) = push_bit 12 (push_bit 31 1 OR drop_bit 12 pdir)"
    by (simp add: get_satp_def set_satp_def)
  ultimately show "bit (get_satp (set_satp pdir s)) n \<longleftrightarrow> bit (pdir AND NOT (mask 12)) n"
    by (simp only: bit_push_bit_iff bit_or_iff bit_drop_bit_eq bit_and_iff bit_not_iff bit_mask_iff) (auto simp: bit_1_iff)
qed

lemma map_range_id: "map_range va e s = s"
proof (induction va e s rule: map_range.induct)
  case (1 va e s)
  then show ?case by (subst map_range.simps) (simp add: map_page_def)
qed

text \<open>After \<^verbatim>\<open>vme_init\<close> with an aligned page, saving and switching the current address space is the identity.\<close>

lemma switch_to_current:
  assumes "page AND mask 12 = 0" "s1 = vme_init page segs s"
  shows "get_satp (am_switch P c (am_get_cur_as P s1 c M) s1) = get_satp s1" "get_satp s1 = page"
proof -
  have "fold (\<lambda>(st, e). map_range st e) segs x = x" for x
    by (induction segs) (auto simp: map_range_id)
  then have s1: "satp s1 = satp (set_satp page s)" by (simp add: assms(2) vme_init_def set_satp_def Let_def)
  have "page AND NOT (mask 12) = page"
  proof (rule bit_word_eqI)
    fix n :: nat
    have "\<not> bit (page AND mask 12) n" using assms(1) by simp
    moreover assume "n < LENGTH(32)"
    ultimately show "bit (page AND NOT (mask 12)) n \<longleftrightarrow> bit page n"
      unfolding bit_and_iff bit_not_iff bit_mask_iff by auto
  qed
  then show g: "get_satp s1 = page" using get_set_satp [of page s] s1 by (simp add: get_satp_def)
  have "page AND NOT (mask 12) = page" by fact
  then show "get_satp (am_switch P c (am_get_cur_as P s1 c M) s1) = get_satp s1"
    using g get_set_satp [of page s1] by (simp add: am_switch_def am_get_cur_as_def)
qed

end
