(* ===== verification/Qemu_Gdb.thy ===== *)
theory Qemu_Gdb
  imports Klib_Stdio Word_Halves
begin

text \<open>
  The QEMU reference of differential testing (\<^verbatim>\<open>nemu/tools/qemu-diff\<close>): the client of GDB's remote protocol in
  \<^verbatim>\<open>protocol.c\<close> and the commands of \<^verbatim>\<open>gdb-host.c\<close> and \<^verbatim>\<open>diff-test.c\<close>. A connection is the bytes still to be received, the
  bytes sent so far and the acknowledge mode. Starting QEMU and the socket are not modelled.
\<close>

section \<open>Hexadecimal: protocol.c\<close>

definition isdigit8 :: "u8 \<Rightarrow> bool" where
  "isdigit8 c \<longleftrightarrow> 48 \<le> c \<and> c \<le> 57"

definition isxdigit8 :: "u8 \<Rightarrow> bool" where
  "isxdigit8 c \<longleftrightarrow> isdigit8 c \<or> 65 \<le> c \<and> c \<le> 70 \<or> 97 \<le> c \<and> c \<le> 102"

definition tolower8 :: "u8 \<Rightarrow> u8" where
  "tolower8 c = (if 65 \<le> c \<and> c \<le> 90 then c + 32 else c)"

definition hex_nibble :: "u8 \<Rightarrow> u8" where
  "hex_nibble hex = (if isdigit8 hex then hex - 48 else tolower8 hex - 97 + 10)"

definition hex_encode :: "u8 \<Rightarrow> u8" where
  "hex_encode digit = (if digit > 9 then 97 + digit - 10 else 48 + digit)"

definition gdb_decode_hex :: "u8 \<Rightarrow> u8 \<Rightarrow> u16" where
  "gdb_decode_hex msb lsb =
    (if \<not> isxdigit8 msb \<or> \<not> isxdigit8 lsb then 0xffff else 16 * ucast (hex_nibble msb) + ucast (hex_nibble lsb))"

text \<open>The list is the string before its NUL.\<close>

fun decode_hex_from :: "u64 \<Rightarrow> u64 \<Rightarrow> u8 list \<Rightarrow> u64" where
  "decode_hex_from value weight (a # b # bs) =
    (if isxdigit8 a \<and> isxdigit8 b
     then decode_hex_from (value + weight * ucast (gdb_decode_hex a b)) (weight * (16 * 16)) bs else value)"
| "decode_hex_from value weight _ = value"

definition gdb_decode_hex_str :: "u8 list \<Rightarrow> u64" where
  "gdb_decode_hex_str bs = decode_hex_from 0 1 bs"

section \<open>Packets\<close>

record gdb_conn =
  gin :: "u8 list"
  gout :: "u8 list"
  gack :: bool

text \<open>\<^verbatim>\<open>gdb_begin\<close> on an open socket: acknowledge whatever came before.\<close>

definition gdb_begin :: "u8 list \<Rightarrow> gdb_conn" where
  "gdb_begin incoming = \<lparr>gin = incoming, gout = [43], gack = True\<rparr>"

definition upper_hex :: "u8 \<Rightarrow> u8" where
  "upper_hex d = (if d < 10 then 48 + d else 55 + d)"

definition checksum_text :: "u8 \<Rightarrow> u8 list" where
  "checksum_text s = [upper_hex (drop_bit 4 s), upper_hex (s AND 0xf)]"

definition packet :: "u8 list \<Rightarrow> u8 list" where
  "packet command = [36] @ command @ [35] @ checksum_text (sum_list command)"

definition send_packet :: "u8 list \<Rightarrow> gdb_conn \<Rightarrow> gdb_conn" where
  "send_packet command c = c\<lparr>gout := gout c @ packet command\<rparr>"

text \<open>At the end of the input \<^verbatim>\<open>fgetc\<close> returns \<^verbatim>\<open>EOF\<close>, which is no acknowledgement, and the packet is sent again.\<close>

partial_function (option) gdb_send :: "u8 list \<Rightarrow> gdb_conn \<Rightarrow> gdb_conn option" where
  "gdb_send command c =
    (let c1 = send_packet command c in
     if \<not> gack c1 then Some c1
     else case gin c1 of
       [] \<Rightarrow> gdb_send command c1
     | x # r \<Rightarrow> if x = 43 then Some (c1\<lparr>gin := r\<rparr>) else gdb_send command (c1\<lparr>gin := r\<rparr>))"

definition conn_closed :: c_error where
  "conn_closed = Panic ''recv: Connection closed''"

text \<open>
  The receive loop: the bytes collected so far, their checksum and whether an escape is pending. The result is
  the payload, whether the checksum matches, and the input behind the packet.
\<close>

fun recv_loop :: "u8 list \<Rightarrow> u8 list \<Rightarrow> u8 \<Rightarrow> bool \<Rightarrow> (u8 list \<times> bool \<times> u8 list) res" where
  "recv_loop [] reply s escape = Inl conn_closed"
| "recv_loop (c # r) reply s escape =
    (let plain = (\<lambda>_. recv_loop r (reply @ [if escape then c XOR 0x20 else c]) (s + c) False) in
     if c = 36 then recv_loop r [] 0 False
     else if c = 35 then
       (case r of
          m # l # r' \<Rightarrow> Inr (reply, ucast s = gdb_decode_hex m l, r')
        | _ \<Rightarrow> Inr (reply, False, []))
     else if c = 125 then recv_loop r reply (s + c) True
     else if c = 42 \<and> reply \<noteq> [] then
       (case r of
          [] \<Rightarrow> plain ()
        | c2 # r' \<Rightarrow>
            if c2 < 29 \<or> c2 > 126 \<or> c2 = 36 \<or> c2 = 35 then plain ()
            else recv_loop r' (reply @ replicate (unat c2 - 29) (last reply)) (s + c + c2) escape)
     else plain ())"

definition recv_packet :: "u8 list \<Rightarrow> (u8 list \<times> bool \<times> u8 list) res" where
  "recv_packet inp =
    (case dropWhile (\<lambda>c. c \<noteq> 36) inp of [] \<Rightarrow> Inl conn_closed | _ # r \<Rightarrow> recv_loop r [] 0 False)"

lemma recv_loop_shorter: "recv_loop inp reply s e = Inr (p, ok, r) \<Longrightarrow> length r < length inp"
proof (induction inp reply s e rule: recv_loop.induct)
  case (2 c r reply s escape)
  then show ?case by (fastforce simp: Let_def split: if_splits list.splits)
qed simp

lemma recv_packet_shorter: "recv_packet inp = Inr (p, ok, r) \<Longrightarrow> length r < length inp"
proof -
  assume a: "recv_packet inp = Inr (p, ok, r)"
  then obtain x xs where d: "dropWhile (\<lambda>c. c \<noteq> 36) inp = x # xs" by (auto simp: recv_packet_def split: list.splits)
  then have "length r < length xs" using a recv_loop_shorter by (fastforce simp: recv_packet_def)
  moreover have "length (x # xs) \<le> length inp" using length_dropWhile_le [of "\<lambda>c. c \<noteq> 36" inp] d by simp
  ultimately show ?thesis by simp
qed

function gdb_recv :: "gdb_conn \<Rightarrow> (u8 list \<times> gdb_conn) res" where
  "gdb_recv c =
    (case recv_packet (gin c) of
       Inl e \<Rightarrow> Inl e
     | Inr (reply, acked, r) \<Rightarrow>
         if \<not> gack c then Inr (reply, c\<lparr>gin := r\<rparr>)
         else
           let c1 = c\<lparr>gin := r, gout := gout c @ [if acked then 43 else 45]\<rparr> in
           if acked then Inr (reply, c1) else gdb_recv c1)"
  by pat_completeness auto
termination
  by (relation "measure (length \<circ> gin)") (auto dest: recv_packet_shorter)

declare gdb_recv.simps [simp del]

definition gdb_start_noack :: "gdb_conn \<Rightarrow> (bool \<times> gdb_conn) res option" where
  "gdb_start_noack c =
    map_option (\<lambda>c1. ebind (gdb_recv c1) (\<lambda>(reply, c2).
        if reply = [79, 75] then Inr (True, c2\<lparr>gack := False\<rparr>) else Inr (False, c2)))
      (gdb_send (map (of_nat \<circ> of_char) ''QStartNoAckMode'') c)"

section \<open>Commands: gdb-host.c\<close>

definition str_bytes :: "string \<Rightarrow> u8 list" where
  "str_bytes t = map (of_nat \<circ> of_char) t"

definition hex_bytes :: "u8 list \<Rightarrow> u8 list" where
  "hex_bytes bs = concat (map (\<lambda>b. [hex_encode (drop_bit 4 b), hex_encode (b AND 0xf)]) bs)"

text \<open>A command and its reply. The comparison of the reply is on the string before its first NUL.\<close>

definition gdb_transact :: "u8 list \<Rightarrow> gdb_conn \<Rightarrow> (u8 list \<times> gdb_conn) res option" where
  "gdb_transact command c = map_option gdb_recv (gdb_send command c)"

definition reply_ok :: "u8 list \<Rightarrow> bool" where
  "reply_ok reply \<longleftrightarrow> takeWhile (\<lambda>b. b \<noteq> 0) reply = [79, 75]"

definition memcpy_command :: "u32 \<Rightarrow> u8 list \<Rightarrow> u8 list" where
  "memcpy_command dest src =
    str_bytes (''M0x'' @ show_nat 16 (unat dest) @ '','' @ show_nat 16 (length src) @ '':'') @ hex_bytes src"

definition gdb_memcpy_to_qemu_small :: "u32 \<Rightarrow> u8 list \<Rightarrow> gdb_conn \<Rightarrow> (bool \<times> gdb_conn) res option" where
  "gdb_memcpy_to_qemu_small dest src c =
    map_option (\<lambda>r. ebind r (\<lambda>(reply, c1). Inr (reply_ok reply, c1))) (gdb_transact (memcpy_command dest src) c)"

function gdb_memcpy_to_qemu :: "u32 \<Rightarrow> u8 list \<Rightarrow> gdb_conn \<Rightarrow> (bool \<times> gdb_conn) res option" where
  "gdb_memcpy_to_qemu dest src c =
    (if length src > 1500 then
       (case gdb_memcpy_to_qemu_small dest (take 1500 src) c of
          None \<Rightarrow> None
        | Some (Inl e) \<Rightarrow> Some (Inl e)
        | Some (Inr (ok, c1)) \<Rightarrow>
            map_option (\<lambda>r. ebind r (\<lambda>(ok', c2). Inr (ok \<and> ok', c2))) (gdb_memcpy_to_qemu (dest + 1500) (drop 1500 src) c1))
     else gdb_memcpy_to_qemu_small dest src c)"
  by pat_completeness auto
termination
  by (relation "measure (\<lambda>(dest, src, c). length src)") auto

declare gdb_memcpy_to_qemu.simps [simp del]

text \<open>
  The register array has 77 words whatever the instruction set. The reply is in a larger buffer: behind its
  NUL are bytes that were never written, here \<open>junk\<close>.
\<close>

definition reply_buffer :: "(nat \<Rightarrow> u8) \<Rightarrow> u8 list \<Rightarrow> nat \<Rightarrow> u8" where
  "reply_buffer junk reply i = (if i < length reply then reply ! i else if i = length reply then 0 else junk i)"

definition parse_regs :: "(nat \<Rightarrow> u8) \<Rightarrow> nat \<Rightarrow> u32 list" where
  "parse_regs buf n = map (\<lambda>i. ucast (gdb_decode_hex_str (map (\<lambda>j. buf (8 * i + j)) [0..<8]))) [0..<n]"

definition gdb_getregs :: "(nat \<Rightarrow> u8) \<Rightarrow> gdb_conn \<Rightarrow> (u32 list \<times> gdb_conn) res option" where
  "gdb_getregs junk c =
    map_option (\<lambda>r. ebind r (\<lambda>(reply, c1). Inr (parse_regs (reply_buffer junk reply) 77, c1))) (gdb_transact (str_bytes ''g'') c)"

definition word_bytes :: "u32 \<Rightarrow> u8 list" where
  "word_bytes w = map (\<lambda>i. ucast (drop_bit (8 * i) w)) [0..<4]"

definition regs_text :: "u32 list \<Rightarrow> u8 list" where
  "regs_text r = hex_bytes (concat (map word_bytes r))"

definition gdb_setregs :: "u32 list \<Rightarrow> gdb_conn \<Rightarrow> (bool \<times> gdb_conn) res option" where
  "gdb_setregs r c =
    map_option (\<lambda>x. ebind x (\<lambda>(reply, c1). Inr (reply_ok reply, c1))) (gdb_transact (str_bytes ''G'' @ regs_text r) c)"

definition gdb_si :: "gdb_conn \<Rightarrow> gdb_conn res option" where
  "gdb_si c = map_option (\<lambda>r. ebind r (\<lambda>(reply, c1). Inr c1)) (gdb_transact (str_bytes ''vCont;s:1'') c)"

section \<open>The reference: diff-test.c\<close>

definition qemu_difftest_memcpy :: "u32 \<Rightarrow> u8 list \<Rightarrow> bool \<Rightarrow> gdb_conn \<Rightarrow> gdb_conn res option" where
  "qemu_difftest_memcpy addr buf to_ref c =
    (if \<not> to_ref then Some (Inl Assert_fail)
     else map_option (\<lambda>r. ebind r (\<lambda>(ok, c1). ebind (echeck ok Assert_fail) (\<lambda>_. Inr c1))) (gdb_memcpy_to_qemu addr buf c))"

text \<open>Copies the \<open>DIFFTEST_REG_SIZE\<close> bytes of \<open>dut\<close> over the registers of QEMU, or the other way round.\<close>

definition qemu_difftest_regcpy :: "(nat \<Rightarrow> u8) \<Rightarrow> u32 list \<Rightarrow> bool \<Rightarrow> gdb_conn \<Rightarrow> (u32 list \<times> gdb_conn) res option" where
  "qemu_difftest_regcpy junk dut to_ref c =
    (case gdb_getregs junk c of
       None \<Rightarrow> None
     | Some (Inl e) \<Rightarrow> Some (Inl e)
     | Some (Inr (r, c1)) \<Rightarrow>
         if to_ref then
           map_option (\<lambda>x. ebind x (\<lambda>(ok, c2). Inr (dut, c2))) (gdb_setregs (dut @ drop (length dut) r) c1)
         else Some (Inr (take (length dut) r, c1)))"

primrec qemu_difftest_exec :: "nat \<Rightarrow> gdb_conn \<Rightarrow> gdb_conn res option" where
  "qemu_difftest_exec 0 c = Some (Inr c)"
| "qemu_difftest_exec (Suc n) c =
    (case gdb_si c of None \<Rightarrow> None | Some (Inl e) \<Rightarrow> Some (Inl e) | Some (Inr c1) \<Rightarrow> qemu_difftest_exec n c1)"

section \<open>Hexadecimal round trips\<close>

lemma nibble_table:
  "\<forall>d \<in> {0, 1, 2, 3, 4, 5, 6, 7, 8, 9, 10, 11, 12, 13, 14, 15 :: u8}. isxdigit8 (hex_encode d) \<and> hex_nibble (hex_encode d) = d"
  "\<forall>d \<in> {0, 1, 2, 3, 4, 5, 6, 7, 8, 9, 10, 11, 12, 13, 14, 15 :: u8}. isxdigit8 (upper_hex d) \<and> hex_nibble (upper_hex d) = d"
  by (simp_all add: isxdigit8_def isdigit8_def hex_encode_def upper_hex_def hex_nibble_def tolower8_def)

lemma nibble_cases:
  assumes "d < (16 :: u8)"
  shows "isxdigit8 (hex_encode d)" "hex_nibble (hex_encode d) = d" "isxdigit8 (upper_hex d)" "hex_nibble (upper_hex d) = d"
proof -
  have "unat d < 16" using assms by (simp add: word_less_nat_alt)
  then have "d \<in> of_nat ` {..<16}" by (intro image_eqI [of _ _ "unat d"]) auto
  also have "of_nat ` {..<16} = {0, 1, 2, 3, 4, 5, 6, 7, 8, 9, 10, 11, 12, 13, 14, 15 :: u8}"
    by (simp add: numeral_eq_Suc lessThan_Suc) auto
  finally have d: "d \<in> {0, 1, 2, 3, 4, 5, 6, 7, 8, 9, 10, 11, 12, 13, 14, 15}" .
  show "isxdigit8 (hex_encode d)" "hex_nibble (hex_encode d) = d" "isxdigit8 (upper_hex d)" "hex_nibble (upper_hex d) = d"
    using bspec [OF nibble_table(1) d] bspec [OF nibble_table(2) d] by blast+
qed

lemma xdigit_plain: "isxdigit8 c \<Longrightarrow> c \<notin> {35, 36, 42, 125}"
  by (auto simp: isxdigit8_def isdigit8_def)

lemma nibbles:
  fixes b :: u8
  shows "drop_bit 4 b < 16" "b AND 0xf < 16" "16 * unat (drop_bit 4 b) + unat (b AND 0xf) = unat b"
proof -
  have a: "unat (drop_bit 4 b) = unat b div 16" by (simp add: unat_drop_bit)
  have "(0xf :: u8) = mask 4" by (simp add: mask_eq_exp_minus_1)
  then have "b AND 0xf = take_bit 4 b" by (simp only: take_bit_eq_mask)
  then have m: "unat (b AND 0xf) = unat b mod 16" by (simp add: unat_take_bit)
  show "drop_bit 4 b < 16" "b AND 0xf < 16" "16 * unat (drop_bit 4 b) + unat (b AND 0xf) = unat b"
    using a m unsigned_less [of b, where ?'a = nat] by (simp_all add: word_less_nat_alt)
qed

lemma decode_byte:
  fixes b :: u8
  shows "gdb_decode_hex (hex_encode (drop_bit 4 b)) (hex_encode (b AND 0xf)) = ucast b"
    and "gdb_decode_hex (upper_hex (drop_bit 4 b)) (upper_hex (b AND 0xf)) = ucast b"
proof -
  have "16 * ucast (drop_bit 4 b) + ucast (b AND 0xf) = (ucast b :: u16)"
  proof -
    have "(of_nat (16 * unat (drop_bit 4 b) + unat (b AND 0xf)) :: u16) = of_nat (unat b)" by (simp only: nibbles)
    then show ?thesis by (simp add: unsigned_of_nat)
  qed
  then show "gdb_decode_hex (hex_encode (drop_bit 4 b)) (hex_encode (b AND 0xf)) = ucast b"
    "gdb_decode_hex (upper_hex (drop_bit 4 b)) (upper_hex (b AND 0xf)) = ucast b"
    using nibble_cases [OF nibbles(1) [of b]] nibble_cases [OF nibbles(2) [of b]] by (simp_all add: gdb_decode_hex_def)
qed

fun le_val :: "u8 list \<Rightarrow> u64" where
  "le_val [] = 0"
| "le_val (b # bs) = ucast b + 256 * le_val bs"

lemma decode_hex_bytes: "decode_hex_from v w (hex_bytes bs) = v + w * le_val bs"
proof (induction bs arbitrary: v w)
  case (Cons b bs)
  have "decode_hex_from v w (hex_bytes (b # bs)) = decode_hex_from (v + w * ucast (ucast b :: u16)) (w * 256) (hex_bytes bs)"
    using nibble_cases [OF nibbles(1) [of b]] nibble_cases [OF nibbles(2) [of b]] decode_byte(1) [of b] by (simp add: hex_bytes_def)
  also have "(ucast (ucast b :: u16) :: u64) = ucast b" by (rule bit_word_eqI) (auto simp: bit_simps dest: bit_imp_le_length)
  finally show ?case using Cons.IH by (simp add: algebra_simps)
qed (simp add: hex_bytes_def)

lemma le_val_word: "ucast (le_val (word_bytes w)) = w"
proof -
  define n where "n = unat w"
  have b: "unat (ucast (drop_bit k w) :: u8) = n div 2 ^ k mod 256" for k
    by (simp add: unat_drop_bit unsigned_ucast_eq take_bit_eq_mod n_def)
  have u: "(ucast x :: u64) = of_nat (unat x)" for x :: u8 by simp
  have "le_val (word_bytes w) = of_nat (n mod 256 + 256 * (n div 2 ^ 8 mod 256 + 256 * (n div 2 ^ 16 mod 256 + 256 * (n div 2 ^ 24 mod 256))))"
  proof -
    have "[0..<4] = [0, 1, 2, 3]" by (simp add: upt_rec)
    then have "le_val (word_bytes w) = of_nat (n div 2 ^ 0 mod 256) + 256 * (of_nat (n div 2 ^ 8 mod 256) +
        256 * (of_nat (n div 2 ^ 16 mod 256) + 256 * (of_nat (n div 2 ^ 24 mod 256) + 256 * 0)))"
      unfolding word_bytes_def b [symmetric] u [symmetric] by simp
    then show ?thesis by simp
  qed
  also have "n mod 256 + 256 * (n div 2 ^ 8 mod 256 + 256 * (n div 2 ^ 16 mod 256 + 256 * (n div 2 ^ 24 mod 256))) = n"
  proof -
    have q: "m mod 256 + 256 * (m div 256) = m" for m :: nat by simp
    have "n div 2 ^ 24 < 256" using unsigned_less [of w, where ?'a = nat] unfolding n_def by (simp add: less_mult_imp_div_less)
    then have "n div 2 ^ 24 mod 256 = (n div 2 ^ 16) div 256" by (simp add: div_mult2_eq [symmetric])
    moreover have "n div 2 ^ 16 = (n div 2 ^ 8) div 256" by (simp add: div_mult2_eq [symmetric])
    moreover have "n div 2 ^ 8 = n div 256" by simp
    ultimately show ?thesis using q by metis
  qed
  finally have "le_val (word_bytes w) = ucast w" by (simp add: n_def)
  moreover have "(ucast (ucast w :: u64) :: u32) = w" by (rule bit_word_eqI) (simp add: bit_simps)
  ultimately show ?thesis by simp
qed

lemma hex_bytes_append: "hex_bytes (xs @ ys) = hex_bytes xs @ hex_bytes ys"
  by (simp add: hex_bytes_def)

lemma length_hex_bytes [simp]: "length (hex_bytes bs) = 2 * length bs"
  by (induction bs) (simp_all add: hex_bytes_def)

lemma regs_text_Cons: "regs_text (w # r) = hex_bytes (word_bytes w) @ regs_text r"
  by (simp add: regs_text_def hex_bytes_append)

lemma length_word_bytes [simp]: "length (word_bytes w) = 4"
  by (simp add: word_bytes_def)

lemma length_regs_text [simp]: "length (regs_text r) = 8 * length r"
  by (induction r) (simp_all add: regs_text_Cons, simp add: regs_text_def hex_bytes_def)

lemma regs_text_nth: "i < length r \<Longrightarrow> j < 8 \<Longrightarrow> regs_text r ! (8 * i + j) = hex_bytes (word_bytes (r ! i)) ! j"
proof (induction r arbitrary: i)
  case (Cons w r)
  then show ?case by (cases i) (auto simp: regs_text_Cons nth_append)
qed simp

lemma parse_regs_text:
  assumes "i < length r" "i < n"
  shows "parse_regs (reply_buffer junk (regs_text r)) n ! i = r ! i"
proof -
  have "map (\<lambda>j. reply_buffer junk (regs_text r) (8 * i + j)) [0..<8] = hex_bytes (word_bytes (r ! i))"
    using assms by (intro nth_equalityI) (auto simp: reply_buffer_def regs_text_nth)
  then show ?thesis
    using assms le_val_word [of "r ! i"] by (simp add: parse_regs_def gdb_decode_hex_str_def decode_hex_bytes)
qed

section \<open>Packets are received as they were meant\<close>

text \<open>
  The content of a packet as the protocol describes it: plain bytes, escaped bytes and runs that repeat
  the byte before them.
\<close>

datatype rsp_item = R_lit u8 | R_esc u8 | R_run nat

fun item_bytes :: "rsp_item \<Rightarrow> u8 list" where
  "item_bytes (R_lit b) = [b]"
| "item_bytes (R_esc b) = [125, b XOR 0x20]"
| "item_bytes (R_run n) = [42, of_nat (n + 29)]"

definition plain_byte :: "u8 \<Rightarrow> bool" where
  "plain_byte b \<longleftrightarrow> b \<notin> {35, 36, 42, 125}"

fun items_ok :: "bool \<Rightarrow> rsp_item list \<Rightarrow> bool" where
  "items_ok some [] \<longleftrightarrow> True"
| "items_ok some (R_lit b # is) \<longleftrightarrow> plain_byte b \<and> items_ok True is"
| "items_ok some (R_esc b # is) \<longleftrightarrow> plain_byte (b XOR 0x20) \<and> items_ok True is"
| "items_ok some (R_run n # is) \<longleftrightarrow> some \<and> n \<le> 97 \<and> n \<noteq> 6 \<and> n \<noteq> 7 \<and> items_ok True is"

fun expand_items :: "u8 list \<Rightarrow> rsp_item list \<Rightarrow> u8 list" where
  "expand_items acc [] = acc"
| "expand_items acc (R_lit b # is) = expand_items (acc @ [b]) is"
| "expand_items acc (R_esc b # is) = expand_items (acc @ [b]) is"
| "expand_items acc (R_run n # is) = expand_items (acc @ replicate n (last acc)) is"

definition items_bytes :: "rsp_item list \<Rightarrow> u8 list" where
  "items_bytes is = concat (map item_bytes is)"

text \<open>
  A packet of the peer: the protocol asks for a checksum of two hexadecimal digits and leaves their case open. QEMU
  writes small letters, this client capitals.
\<close>

definition hex_digits :: "nat \<Rightarrow> u8 set" where
  "hex_digits v = {str_bytes ''0123456789abcdef'' ! v, str_bytes ''0123456789ABCDEF'' ! v}"

definition rsp_packet :: "u8 list \<Rightarrow> u8 list \<Rightarrow> bool" where
  "rsp_packet content p \<longleftrightarrow>
    (\<exists>h \<in> hex_digits (unat (sum_list content) div 16). \<exists>l \<in> hex_digits (unat (sum_list content) mod 16). p = [36] @ content @ [35, h, l])"

lemma hex_digit_table:
  "\<forall>v \<in> set [0..<16]. hex_digits v = {hex_encode (of_nat v), upper_hex (of_nat v)}"
  by (simp add: upt_rec hex_digits_def str_bytes_def hex_encode_def upper_hex_def)

lemma hex_digits_eq:
  assumes "v < 16"
  shows "hex_digits v = {hex_encode (of_nat v), upper_hex (of_nat v)}"
  using bspec [OF hex_digit_table, of v] assms by simp

lemma hex_digits_decode:
  assumes "v < 16" "c \<in> hex_digits v"
  shows "isxdigit8 c" "hex_nibble c = of_nat v"
proof -
  have "(of_nat v :: u8) < 16" using assms(1) by (simp add: word_less_nat_alt unsigned_of_nat take_bit_nat_eq_self)
  then show "isxdigit8 c" "hex_nibble c = of_nat v"
    using assms nibble_cases [of "of_nat v"] by (auto simp: hex_digits_eq)
qed

lemma decode_digits:
  fixes b :: u8
  assumes "h \<in> hex_digits (unat b div 16)" "l \<in> hex_digits (unat b mod 16)"
  shows "gdb_decode_hex h l = ucast b"
proof -
  have "unat b div 16 < 16" using unsigned_less [of b, where ?'a = nat] by simp
  then have h: "isxdigit8 h" "hex_nibble h = of_nat (unat b div 16)" "isxdigit8 l" "hex_nibble l = of_nat (unat b mod 16)"
    using hex_digits_decode [OF _ assms(1)] hex_digits_decode [OF _ assms(2)] by simp_all
  have u: "ucast (of_nat n :: u8) = (of_nat n :: u16)" if "n < 16" for n :: nat
    using that by (simp add: unsigned_of_nat take_bit_nat_eq_self)
  have "(of_nat (16 * (unat b div 16) + unat b mod 16) :: u16) = ucast b" by simp
  then have "16 * of_nat (unat b div 16) + of_nat (unat b mod 16) = (ucast b :: u16)" by (simp only: of_nat_add of_nat_mult) simp
  then show ?thesis using h u [OF \<open>unat b div 16 < 16\<close>] u [of "unat b mod 16"] by (simp add: gdb_decode_hex_def)
qed

lemma packet_rsp [simp]: "rsp_packet content (packet content)"
proof -
  define b where "b = sum_list content"
  have "unat b div 16 < 16" using unsigned_less [of b, where ?'a = nat] by simp
  moreover have y: "unat (b AND 0xf) < 16" using nibbles(2) [of b] by (simp add: word_less_nat_alt)
  moreover have "unat b div 16 = unat (drop_bit 4 b)" "unat b mod 16 = unat (b AND 0xf)"
    unfolding nibbles(3) [of b, symmetric] using y by simp_all
  then have "of_nat (unat b div 16) = drop_bit 4 b" "of_nat (unat b mod 16) = b AND 0xf" by simp_all
  ultimately show ?thesis
    using hex_digits_eq [of "unat b div 16"] hex_digits_eq [of "unat b mod 16"]
    by (auto simp: rsp_packet_def packet_def checksum_text_def b_def)
qed

lemma run_char:
  assumes "n \<le> 97" "n \<noteq> 6" "n \<noteq> 7"
  shows "\<not> ((of_nat (n + 29) :: u8) < 29 \<or> (of_nat (n + 29) :: u8) > 126 \<or> (of_nat (n + 29) :: u8) = 36 \<or> (of_nat (n + 29) :: u8) = 35)"
    and "unat (of_nat (n + 29) :: u8) - 29 = n"
proof -
  have u: "unat (of_nat (n + 29) :: u8) = n + 29" using assms(1) by (simp add: unsigned_of_nat take_bit_nat_eq_self del: of_nat_add)
  then show "unat (of_nat (n + 29) :: u8) - 29 = n" by simp
  have ne: "(of_nat (n + 29) :: u8) \<noteq> 36" "(of_nat (n + 29) :: u8) \<noteq> 35" using u assms(2,3) by (auto dest: arg_cong [of _ _ unat])
  show "\<not> ((of_nat (n + 29) :: u8) < 29 \<or> (of_nat (n + 29) :: u8) > 126 \<or> (of_nat (n + 29) :: u8) = 36 \<or> (of_nat (n + 29) :: u8) = 35)"
    using u assms(1) ne unfolding word_less_nat_alt by simp
qed

lemma recv_plain:
  "plain_byte b \<Longrightarrow> recv_loop (b # r) acc s e = recv_loop r (acc @ [if e then b XOR 0x20 else b]) (s + b) False"
  by (simp add: plain_byte_def)

lemma recv_escape: "recv_loop (125 # r) acc s e = recv_loop r acc (s + 125) True"
  by simp

lemma recv_run:
  "acc \<noteq> [] \<Longrightarrow> \<not> (c2 < 29 \<or> c2 > 126 \<or> c2 = 36 \<or> c2 = 35) \<Longrightarrow>
    recv_loop (42 # c2 # r) acc s e = recv_loop r (acc @ replicate (unat c2 - 29) (last acc)) (s + 42 + c2) e"
  by (simp add: Let_def)

lemma recv_end: "recv_loop (35 # m # l # r) acc s e = Inr (acc, ucast s = gdb_decode_hex m l, r)"
  by simp

lemma xor_twice: "(b XOR 0x20) XOR 0x20 = (b :: u8)"
  by (simp add: xor.assoc)

lemma recv_items:
  "items_ok (acc \<noteq> []) is \<Longrightarrow>
    recv_loop (items_bytes is @ t) acc s False = recv_loop t (expand_items acc is) (s + sum_list (items_bytes is)) False"
proof (induction "is" arbitrary: acc s)
  case (Cons i "is")
  show ?case
  proof (cases i)
    case (R_lit b)
    then show ?thesis using Cons.prems Cons.IH [of "acc @ [b]" "s + b"]
      by (simp add: items_bytes_def recv_plain add.assoc del: recv_loop.simps)
  next
    case (R_esc b)
    then show ?thesis using Cons.prems Cons.IH [of "acc @ [b]" "s + 125 + (b XOR 0x20)"]
      by (simp add: items_bytes_def recv_escape recv_plain xor_twice add.assoc del: recv_loop.simps)
  next
    case (R_run n)
    then have n: "n \<le> 97" "n \<noteq> 6" "n \<noteq> 7" "acc \<noteq> []" "items_ok True is" using Cons.prems by auto
    have "recv_loop (items_bytes (i # is) @ t) acc s False =
        recv_loop (items_bytes is @ t) (acc @ replicate n (last acc)) (s + 42 + of_nat (n + 29)) False"
      using recv_run [OF n(4) run_char(1) [OF n(1-3)]] run_char(2) [OF n(1-3)]
      by (simp only: items_bytes_def R_run list.map concat.simps item_bytes.simps append.simps)
    then show ?thesis using Cons.IH [of "acc @ replicate n (last acc)" "s + 42 + of_nat (n + 29)"] n(4,5)
      by (simp add: items_bytes_def R_run add.assoc del: recv_loop.simps)
  qed
qed (simp add: items_bytes_def)

lemma recv_packet_items:
  assumes "36 \<notin> set junk" "items_ok False is" "rsp_packet (items_bytes is) p"
  shows "recv_packet (junk @ p @ rest) = Inr (expand_items [] is, True, rest)"
proof -
  obtain h l where p: "p = [36] @ items_bytes is @ [35, h, l]" and d: "gdb_decode_hex h l = ucast (sum_list (items_bytes is))"
    using assms(3) decode_digits by (auto simp: rsp_packet_def)
  have "dropWhile (\<lambda>c. c \<noteq> 36) (junk @ 36 # t) = 36 # t" for t
    using assms(1) by (induction junk) auto
  then have "recv_packet (junk @ p @ rest) = recv_loop (items_bytes is @ 35 # h # l # rest) [] 0 False"
    by (simp add: recv_packet_def p del: recv_loop.simps)
  also have "\<dots> = recv_loop (35 # h # l # rest) (expand_items [] is) (sum_list (items_bytes is)) False"
    using recv_items [of "[]" "is"] assms(2) by (simp del: recv_loop.simps)
  finally show ?thesis using d by (simp add: recv_end del: recv_loop.simps)
qed

text \<open>
  C34: a reply of the reference is received as it was meant. Behind any bytes that do not start a packet, a
  packet whose content is plain bytes, escaped bytes and runs, with its checksum in hexadecimal digits of either
  case, is decoded to its content, its checksum is accepted, the acknowledgement is sent exactly in acknowledge
  mode, and nothing behind the packet is consumed.
\<close>

theorem gdb_recv_decodes:
  assumes "36 \<notin> set junk" "items_ok False is" "rsp_packet (items_bytes is) p" "gin c = junk @ p @ rest"
  shows "gdb_recv c = Inr (expand_items [] is, c\<lparr>gin := rest, gout := gout c @ (if gack c then [43] else [])\<rparr>)"
  using recv_packet_items [OF assms(1-3)] assms(4) by (simp add: gdb_recv.simps [of c])

text \<open>The sum of the content \<^verbatim>\<open>0* }^C\<close> is \<^verbatim>\<open>fa\<close>, sent in small letters.\<close>

theorem gdb_recv_decodes_witness:
  "gdb_recv \<lparr>gin = [43] @ [36, 48, 42, 32, 125, 3, 35, 102, 97] @ [7], gout = [], gack = True\<rparr> =
    Inr ([48, 48, 48, 48, 35], \<lparr>gin = [7], gout = [43], gack = True\<rparr>)"
  using gdb_recv_decodes [of "[43]" "[R_lit 48, R_run 3, R_esc 35]" "[36, 48, 42, 32, 125, 3, 35, 102, 97]"
      "\<lparr>gin = [43] @ [36, 48, 42, 32, 125, 3, 35, 102, 97] @ [7], gout = [], gack = True\<rparr>" "[7]"]
  by (simp add: plain_byte_def items_bytes_def numeral_3_eq_3 rsp_packet_def hex_digits_def str_bytes_def)

text \<open>Text of plain bytes is its own encoding.\<close>

lemma plain_items:
  assumes "\<forall>b \<in> set bs. plain_byte b"
  shows "items_ok some (map R_lit bs)" "items_bytes (map R_lit bs) = bs" "expand_items acc (map R_lit bs) = acc @ bs"
proof -
  show "items_ok some (map R_lit bs)" using assms by (induction bs arbitrary: some) auto
  show "items_bytes (map R_lit bs) = bs" by (induction bs) (auto simp: items_bytes_def)
  show "expand_items acc (map R_lit bs) = acc @ bs" by (induction bs arbitrary: acc) auto
qed

lemma hex_bytes_plain: "\<forall>b \<in> set (hex_bytes bs). plain_byte b"
  using nibble_cases(1) [OF nibbles(1)] nibble_cases(1) [OF nibbles(2)] xdigit_plain by (auto simp: hex_bytes_def plain_byte_def)

lemma transact_acked:
  assumes "gack c" "gin c = 43 # p @ rest" "rsp_packet reply p" "\<forall>b \<in> set reply. plain_byte b"
  shows "gdb_transact command c = Some (Inr (reply, c\<lparr>gin := rest, gout := gout c @ packet command @ [43]\<rparr>))"
proof -
  define c1 where "c1 = c\<lparr>gin := p @ rest, gout := gout c @ packet command\<rparr>"
  have "gdb_send command c = Some c1"
    using assms(1,2) by (subst gdb_send.simps) (simp add: send_packet_def c1_def)
  moreover have "recv_packet (gin c1) = Inr (reply, True, rest)"
    using recv_packet_items [of "[]" "map R_lit reply" p rest] plain_items [OF assms(4)] assms(3) by (simp add: c1_def)
  then have "gdb_recv c1 = Inr (reply, c\<lparr>gin := rest, gout := gout c @ packet command @ [43]\<rparr>)"
    using assms(1) by (simp only: gdb_recv.simps [of c1]) (simp add: c1_def)
  ultimately show ?thesis by (simp add: gdb_transact_def)
qed

text \<open>
  registers survive the protocol. When the reference answers the read command with the text in which the
  write command would send its registers, the client reads exactly those registers, in front of the unused
  rest of its array, and has sent one command and one acknowledgement.
\<close>

lemma gdb_getregs_reads:
  assumes "gack c" "gin c = 43 # p @ rest" "rsp_packet (regs_text r) p" "length r \<le> 77"
  shows "\<exists>unused. length unused = 77 - length r \<and>
    gdb_getregs junk c = Some (Inr (r @ unused, c\<lparr>gin := rest, gout := gout c @ packet (str_bytes ''g'') @ [43]\<rparr>))"
proof -
  define q where "q = parse_regs (reply_buffer junk (regs_text r)) 77"
  have "length q = 77" by (simp add: q_def parse_regs_def)
  moreover have "q ! i = r ! i" if "i < length r" for i using parse_regs_text [OF that, of 77 junk] that assms(4) by (simp add: q_def)
  ultimately have "q = r @ drop (length r) q" using assms(4) by (intro nth_equalityI) (auto simp: nth_append)
  moreover have "gdb_getregs junk c = Some (Inr (q, c\<lparr>gin := rest, gout := gout c @ packet (str_bytes ''g'') @ [43]\<rparr>))"
    using transact_acked [OF assms(1-3)] hex_bytes_plain by (simp add: gdb_getregs_def q_def regs_text_def)
  ultimately show ?thesis using \<open>length q = 77\<close> by (intro exI [of _ "drop (length r) q"]) simp
qed

text \<open>A refused packet is sent again until it is acknowledged.\<close>

lemma gdb_send_retries:
  assumes "gack c" "gin c = bad @ 43 # rest" "43 \<notin> set bad"
  shows "gdb_send command c = Some (c\<lparr>gin := rest, gout := gout c @ concat (replicate (Suc (length bad)) (packet command))\<rparr>)"
  using assms
proof (induction bad arbitrary: c)
  case Nil
  then show ?case by (subst gdb_send.simps) (simp add: send_packet_def)
next
  case (Cons x bad)
  define c1 where "c1 = c\<lparr>gout := gout c @ packet command, gin := bad @ 43 # rest\<rparr>"
  have "gdb_send command c = gdb_send command c1"
    using Cons.prems by (subst gdb_send.simps) (simp add: send_packet_def c1_def)
  also have "\<dots> = Some (c1\<lparr>gin := rest, gout := gout c1 @ concat (replicate (Suc (length bad)) (packet command))\<rparr>)"
    using Cons.prems by (intro Cons.IH) (auto simp: c1_def)
  finally show ?case by (simp add: c1_def)
qed

text \<open>
  A long copy is sent in pieces of at most 1500 bytes that follow each other without a gap; when every piece is
  acknowledged and answered with \<^verbatim>\<open>OK\<close> the copy succeeds.
\<close>

function chunks :: "u32 \<Rightarrow> u8 list \<Rightarrow> (u32 \<times> u8 list) list" where
  "chunks dest src =
    (if length src > 1500 then (dest, take 1500 src) # chunks (dest + 1500) (drop 1500 src) else [(dest, src)])"
  by pat_completeness auto
termination
  by (relation "measure (\<lambda>(dest, src). length src)") auto

declare chunks.simps [simp del]

lemma chunks_cover: "concat (map snd (chunks dest src)) = src"
proof (induction dest src rule: chunks.induct)
  case (1 dest src)
  then show ?case by (cases "length src > 1500") (simp_all add: chunks.simps [of dest src])
qed

lemma chunks_addr:
  "i < length (chunks dest src) \<Longrightarrow> fst (chunks dest src ! i) = dest + of_nat (1500 * i) \<and> length (snd (chunks dest src ! i)) \<le> 1500"
proof (induction dest src arbitrary: i rule: chunks.induct)
  case (1 dest src)
  show ?case
  proof (cases "length src > 1500")
    case True
    then have c: "chunks dest src = (dest, take 1500 src) # chunks (dest + 1500) (drop 1500 src)" by (simp add: chunks.simps [of dest src])
    show ?thesis using 1(1) [OF True] 1(2) unfolding c by (cases i) (auto simp: algebra_simps)
  next
    case False
    then show ?thesis using 1(2) by (simp add: chunks.simps [of dest src])
  qed
qed

lemma gdb_memcpy_acked:
  assumes "gack c" "gin c = concat (replicate (length (chunks dest src)) (43 # packet [79, 75])) @ rest"
  shows "gdb_memcpy_to_qemu dest src c = Some (Inr (True, c\<lparr>gin := rest,
    gout := gout c @ concat (map (\<lambda>(d, bs). packet (memcpy_command d bs) @ [43]) (chunks dest src))\<rparr>))"
  using assms
proof (induction dest src c rule: gdb_memcpy_to_qemu.induct)
  case (1 dest src c)
  have ok: "\<forall>b \<in> set [79, 75 :: u8]. plain_byte b" by (simp add: plain_byte_def)
  have small: "gdb_memcpy_to_qemu_small dest bs c =
      Some (Inr (True, c\<lparr>gin := r, gout := gout c @ packet (memcpy_command dest bs) @ [43]\<rparr>))"
    if "gin c = 43 # packet [79, 75] @ r" for bs r
    using transact_acked [OF 1(2) that packet_rsp ok] by (simp add: gdb_memcpy_to_qemu_small_def reply_ok_def)
  show ?case
  proof (cases "length src > 1500")
    case True
    then have ch: "chunks dest src = (dest, take 1500 src) # chunks (dest + 1500) (drop 1500 src)" by (simp add: chunks.simps [of dest src])
    define r where "r = concat (replicate (length (chunks (dest + 1500) (drop 1500 src))) (43 # packet [79, 75])) @ rest"
    define c1 where "c1 = c\<lparr>gin := r, gout := gout c @ packet (memcpy_command dest (take 1500 src)) @ [43]\<rparr>"
    have s: "gdb_memcpy_to_qemu_small dest (take 1500 src) c = Some (Inr (True, c1))"
      using 1(3) unfolding c1_def by (intro small) (simp add: ch r_def)
    have "gdb_memcpy_to_qemu (dest + 1500) (drop 1500 src) c1 = Some (Inr (True, c1\<lparr>gin := rest,
        gout := gout c1 @ concat (map (\<lambda>(d, bs). packet (memcpy_command d bs) @ [43]) (chunks (dest + 1500) (drop 1500 src)))\<rparr>))"
      using 1(1) [OF True s refl refl] 1(2) by (simp add: c1_def r_def)
    then show ?thesis using True s by (simp add: gdb_memcpy_to_qemu.simps [of dest src c] ch c1_def)
  next
    case False
    then have ch: "chunks dest src = [(dest, src)]" by (simp add: chunks.simps [of dest src])
    then show ?thesis using False small [of rest src] 1(3) by (simp add: gdb_memcpy_to_qemu.simps [of dest src c])
  qed
qed

end
