(* ===== verification/Nemu_Monitor.thy ===== *)
theory Nemu_Monitor
  imports Sdb_Commands
begin

text \<open>
  Start-up of NEMU (\<^verbatim>\<open>monitor/monitor.c\<close>), the log window (\<^verbatim>\<open>utils/log.c\<close>) and the function trace with its reader of ELF
  files (\<^verbatim>\<open>utils/ftrace.c\<close>), on the bytes of the files. What \<^verbatim>\<open>getopt_long\<close> returns is a parameter, and so are the
  contents of files.
\<close>

section \<open>Command line\<close>

record monitor_args =
  is_batch_mode :: bool
  log_file :: "string option"
  diff_so_file :: "string option"
  img_file :: "string option"
  difftest_port :: int
  elf_file :: "string option"

definition default_args :: monitor_args where
  "default_args = \<lparr>is_batch_mode = False, log_file = None, diff_so_file = None, img_file = None, difftest_port = 1234, elf_file = None\<rparr>"

text \<open>\<^verbatim>\<open>sscanf\<close> with a decimal conversion: nothing is stored when there is no number.\<close>

definition scan_digits :: "string \<Rightarrow> int option" where
  "scan_digits t =
    (let ds = takeWhile is_digit t in
     if ds = [] then None else Some (foldl (\<lambda>v d. 10 * v + int (digit_val d)) 0 ds))"

definition scan_int :: "string \<Rightarrow> int option" where
  "scan_int t =
    (case dropWhile (\<lambda>ch. ch = CHR '' '' \<or> 9 \<le> (of_char ch :: nat) \<and> (of_char ch :: nat) \<le> 13) t of
       [] \<Rightarrow> None
     | ch # r \<Rightarrow>
         if ch = CHR ''-'' then map_option uminus (scan_digits r)
         else if ch = CHR ''+'' then scan_digits r else scan_digits (ch # r))"

text \<open>What \<^verbatim>\<open>%d\<close> stores: the library converts through \<^verbatim>\<open>long\<close>, which saturates, and cuts the result to an \<^verbatim>\<open>int\<close>.\<close>

definition scan_int32 :: "string \<Rightarrow> u32 option" where
  "scan_int32 t = map_option (\<lambda>i. word_of_int (max (- (2 ^ 63)) (min i (2 ^ 63 - 1)))) (scan_int t)"

datatype getopt = O_batch | O_port string | O_log string | O_diff string | O_elf string | O_arg string | O_other

text \<open>The loop over the options; the first operand is the image and ends it, and anything else prints the usage and exits.\<close>

fun parse_args :: "getopt list \<Rightarrow> monitor_args \<Rightarrow> monitor_args option" where
  "parse_args [] a = Some a"
| "parse_args (O_batch # os) a = parse_args os (a\<lparr>is_batch_mode := True\<rparr>)"
| "parse_args (O_port t # os) a =
    parse_args os (case scan_int32 t of None \<Rightarrow> a | Some i \<Rightarrow> a\<lparr>difftest_port := sint i\<rparr>)"
| "parse_args (O_log t # os) a = parse_args os (a\<lparr>log_file := Some t\<rparr>)"
| "parse_args (O_diff t # os) a = parse_args os (a\<lparr>diff_so_file := Some t\<rparr>)"
| "parse_args (O_elf t # os) a = parse_args os (a\<lparr>elf_file := Some t\<rparr>)"
| "parse_args (O_arg t # os) a = Some (a\<lparr>img_file := Some t\<rparr>)"
| "parse_args (O_other # os) a = None"

section \<open>The image\<close>

text \<open>\<^verbatim>\<open>fread\<close> writes behind the end of the memory if the file is larger; an empty file fails the assertion.\<close>

definition load_img :: "nemu_config \<Rightarrow> u8 list option option \<Rightarrow> machine \<Rightarrow> (nat \<times> machine) res" where
  "load_img c file m =
    (case file of
       None \<Rightarrow> Inr (4096, m)
     | Some None \<Rightarrow> Inl (Panic ''Can not open image'')
     | Some (Some bs) \<Rightarrow>
         ebind (guest_to_host c (RESET_VECTOR c)) (\<lambda>(area, off).
         ebind (echeck (off + length bs \<le> unat (area_size c area)) (Undef ''out-of-bounds write'')) (\<lambda>_.
         ebind (echeck (bs \<noteq> []) Assert_fail) (\<lambda>_.
           Inr (length bs, m\<lparr>mem := area_set area (bytes_set (area_bytes area (mem m)) off bs) (mem m)\<rparr>)))))"

section \<open>Log window\<close>

definition init_log :: "(string \<Rightarrow> bool) \<Rightarrow> string option \<Rightarrow> unit res" where
  "init_log can_write file = (case file of None \<Rightarrow> Inr () | Some t \<Rightarrow> echeck (can_write t) (Panic ''Can not open log''))"

definition log_enable :: "bool \<Rightarrow> u64 \<Rightarrow> u64 \<Rightarrow> machine \<Rightarrow> bool" where
  "log_enable trace start stop m \<longleftrightarrow> trace \<and> g_nr_guest_inst m \<ge> start \<and> g_nr_guest_inst m \<le> stop"

section \<open>Function trace: ftrace.c\<close>

definition MAX_SYMB :: nat where "MAX_SYMB = 128"

record SymbolEntry =
  symb_name :: string
  symb_addr :: paddr_t
  symb_size :: u32

text \<open>A little-endian field of a file, and the part of a file that one \<^verbatim>\<open>fread\<close> gets after a seek.\<close>

definition elf_field :: "u8 list \<Rightarrow> nat \<Rightarrow> nat \<Rightarrow> u32" where
  "elf_field f off n = load_le (\<lambda>i. f ! i) off n"

definition elf_part :: "u8 list \<Rightarrow> nat \<Rightarrow> nat \<Rightarrow> u8 list option" where
  "elf_part f off n = (if n > 0 \<and> off + n \<le> length f then Some (take n (drop off f)) else None)"

definition e_shoff :: "u8 list \<Rightarrow> nat" where "e_shoff f = unat (elf_field f 32 4)"
definition e_shnum :: "u8 list \<Rightarrow> nat" where "e_shnum f = unat (elf_field f 48 2)"

text \<open>A section header has 40 bytes, a symbol 16.\<close>

definition sh_field :: "u8 list \<Rightarrow> nat \<Rightarrow> nat \<Rightarrow> u32" where
  "sh_field shdr i off = elf_field shdr (40 * i + off) 4"

fun find_symtab :: "u8 list \<Rightarrow> nat \<Rightarrow> nat \<Rightarrow> nat option" where
  "find_symtab shdr i 0 = None"
| "find_symtab shdr i (Suc n) = (if sh_field shdr i 4 = 2 then Some i else find_symtab shdr (Suc i) n)"

text \<open>
  The name: at most 63 bytes up to the NUL. A name that starts behind the table, or that runs past its end,
  is an out-of-bounds read.
\<close>

definition symbol_name :: "u8 list \<Rightarrow> nat \<Rightarrow> string res" where
  "symbol_name strtab off =
    (let bs = takeWhile (\<lambda>b. b \<noteq> 0) (take 63 (drop off strtab)) in
     if off + length bs < length strtab \<or> length bs = 63 then Inr (map (char_of \<circ> unat) bs)
     else Inl (Undef ''string table''))"

fun read_symbols :: "u8 list \<Rightarrow> u8 list \<Rightarrow> nat \<Rightarrow> nat \<Rightarrow> SymbolEntry list \<Rightarrow> SymbolEntry list res" where
  "read_symbols symtab strtab i 0 tab = Inr tab"
| "read_symbols symtab strtab i (Suc n) tab =
    (if unat (elf_field symtab (16 * i + 12) 1) mod 16 = 2 then
       (if length tab \<ge> MAX_SYMB then Inr tab
        else ebind (symbol_name strtab (unat (elf_field symtab (16 * i) 4))) (\<lambda>nm.
          read_symbols symtab strtab (Suc i) n
            (tab @ [\<lparr>symb_name = nm, symb_addr = elf_field symtab (16 * i + 4) 4, symb_size = elf_field symtab (16 * i + 8) 4\<rparr>])))
     else read_symbols symtab strtab (Suc i) n tab)"

definition init_ftrace :: "u8 list option option \<Rightarrow> SymbolEntry list res" where
  "init_ftrace file =
    (case file of
       None \<Rightarrow> Inr []
     | Some None \<Rightarrow> Inl (Panic ''Can not open ELF'')
     | Some (Some f) \<Rightarrow>
         if length f < 52 then Inl (Panic ''Failed to read ELF header'')
         else if elf_field f 0 4 \<noteq> 0x464c457f then Inl (Panic ''Not a valid ELF file!'')
         else
           (let n = e_shnum f in
            if e_shoff f + 40 * n > length f then Inl (Panic ''Failed to read section headers'')
            else
              let shdr = take (40 * n) (drop (e_shoff f) f) in
              case find_symtab shdr 0 n of
                None \<Rightarrow> Inl (Panic ''Failed to find symbol table'')
              | Some s \<Rightarrow>
                  let link = unat (sh_field shdr s 24) in
                  if link \<ge> n then Inl (Undef ''section headers'')
                  else
                    case elf_part f (unat (sh_field shdr link 16)) (unat (sh_field shdr link 20)) of
                      None \<Rightarrow> Inl (Panic ''Failed to read string table'')
                    | Some strtab \<Rightarrow>
                        case elf_part f (unat (sh_field shdr s 16)) (unat (sh_field shdr s 20)) of
                          None \<Rightarrow> Inl (Panic ''Failed to read symbol table'')
                        | Some symtab \<Rightarrow> read_symbols symtab strtab 0 (length symtab div 16) []))"

fun find_func :: "SymbolEntry list \<Rightarrow> paddr_t \<Rightarrow> string" where
  "find_func [] target = ''???''"
| "find_func (s # ss) target =
    (if target \<ge> symb_addr s \<and> target < symb_addr s + symb_size s then symb_name s else find_func ss target)"

text \<open>A line of the trace: the address, the indentation, whether it is a call, the function and the target of a call.\<close>

type_synonym ftrace_line = "paddr_t \<times> nat \<times> bool \<times> string \<times> paddr_t"

fun print_ftrace :: "SymbolEntry list \<Rightarrow> paddr_t \<times> paddr_t \<times> bool \<Rightarrow> nat \<times> ftrace_line list \<Rightarrow> nat \<times> ftrace_line list" where
  "print_ftrace tab (p, target, is_call) (call_depth, out) =
    (if tab = [] then (call_depth, out)
     else if is_call then (call_depth + 1, out @ [(p, call_depth * 2, True, find_func tab target, target)])
     else (call_depth - 1, out @ [(p, (call_depth - 1) * 2, False, find_func tab target, target)]))"

section \<open>init\_monitor\<close>

record boot_env =
  boot_random :: "u32 option"
  boot_io_bytes :: bytes
  boot_scancode :: "string \<Rightarrow> nat"
  boot_sd_img :: "u8 list option"
  boot_file :: "string \<Rightarrow> u8 list option"
  boot_can_write :: "string \<Rightarrow> bool"
  boot_dlopen :: dlopen_t
  boot_cs_open :: bool

record 'r booted =
  b_args :: monitor_args
  b_alarms :: "alarm_handler_t list"
  b_maps :: dev_maps
  b_symbols :: "SymbolEntry list"
  b_sys :: "'r sys"

text \<open>\<^verbatim>\<open>init_disasm\<close> loads the Capstone library and opens it for RISC-V; whether \<^verbatim>\<open>cs_open\<close> reports success is a parameter.\<close>

definition capstone_path :: string where
  "capstone_path = ''tools/capstone/repo/libcapstone.so.5''"

definition capstone_symbols :: "string list" where
  "capstone_symbols = [''cs_open'', ''cs_disasm'', ''cs_free'']"

definition init_disasm :: "dlopen_t \<Rightarrow> bool \<Rightarrow> unit res" where
  "init_disasm dlopen cs_open_ok =
    ebind (dlsym_all dlopen capstone_path capstone_symbols) (\<lambda>_. echeck cs_open_ok Assert_fail)"

text \<open>\<open>None\<close> is the exit after the usage message.\<close>

definition init_monitor :: "nemu_config \<Rightarrow> dev_config \<Rightarrow> 'r ref_ops \<Rightarrow> boot_env \<Rightarrow> getopt list \<Rightarrow> 'r sys \<Rightarrow> 'r booted res option" where
  "init_monitor c dc R E opts s =
    map_option (\<lambda>a.
      ebind (init_log (boot_can_write E) (log_file a)) (\<lambda>_.
      let m1 = (mach s)\<lparr>mem := init_mem c (boot_random E) (mem (mach s))\<rparr> in
      ebind (if CONFIG_DEVICE c then init_device c dc (boot_io_bytes E) (boot_scancode E) (boot_sd_img E) (dev m1)
             else Inr ([], \<lparr>mmio_maps = [], pio_maps = []\<rparr>, dev m1)) (\<lambda>(hs, maps, d).
      ebind (init_isa c (m1\<lparr>dev := d\<rparr>)) (\<lambda>m2.
      ebind (load_img c (map_option (boot_file E) (img_file a)) m2) (\<lambda>(img_size, m3).
      ebind (init_difftest c (boot_dlopen E) R (diff_so_file a) img_size (difftest_port a) (s\<lparr>mach := m3\<rparr>)) (\<lambda>s1.
      let s2 = s1\<lparr>wps := init_wp_pool\<rparr> in
      ebind (if CONFIG_ITRACE c then init_disasm (boot_dlopen E) (boot_cs_open E) else Inr ()) (\<lambda>_.
      ebind (if CONFIG_FTRACE c then init_ftrace (map_option (boot_file E) (elf_file a)) else Inr []) (\<lambda>tab.
        Inr \<lparr>b_args = a, b_alarms = hs, b_maps = maps, b_symbols = tab, b_sys = s2\<rparr>))))))))
      (parse_args opts default_args)"

section \<open>A machine that is ready to run\<close>

definition reset_off :: "nemu_config \<Rightarrow> nat" where
  "reset_off c = unat (RESET_VECTOR c - CONFIG_MBASE c)"

lemma reset_host: "in_pmem c (RESET_VECTOR c) \<Longrightarrow> guest_to_host c (RESET_VECTOR c) = Inr (Pmem, reset_off c)"
  by (simp add: guest_to_host_def reset_off_def)

lemma bytes_set_map: "map (\<lambda>i. bytes_set m a bs (a + i)) [0..<length bs] = bs"
  by (rule nth_equalityI) (simp_all add: bytes_set_inside)

text \<open>
  What start-up needs from the host: the log file, if any, can be written; with differential testing the shared object has its five
  entry points; with the instruction trace the disassembler loads; with the function trace the ELF file, if any, has the symbols \<open>tab\<close>;
  with devices these initialise, to \<open>dv\<close>.
\<close>

definition host_ready ::
    "nemu_config \<Rightarrow> dev_config \<Rightarrow> boot_env \<Rightarrow> monitor_args \<Rightarrow> SymbolEntry list \<Rightarrow> alarm_handler_t list \<times> dev_maps \<times> dev_state \<Rightarrow> dev_state \<Rightarrow> bool" where
  "host_ready c dc E a tab dv d \<longleftrightarrow>
    (case log_file a of None \<Rightarrow> True | Some t \<Rightarrow> boot_can_write E t) \<and>
    (CONFIG_DIFFTEST c \<longrightarrow> (\<exists>path syms. diff_so_file a = Some path \<and> boot_dlopen E path = Some syms \<and> set difftest_symbols \<subseteq> set syms)) \<and>
    (CONFIG_ITRACE c \<longrightarrow> (\<exists>syms. boot_dlopen E capstone_path = Some syms \<and> set capstone_symbols \<subseteq> set syms) \<and> boot_cs_open E) \<and>
    (if CONFIG_FTRACE c then init_ftrace (map_option (boot_file E) (elf_file a)) = Inr tab else tab = []) \<and>
    (if CONFIG_DEVICE c then init_device c dc (boot_io_bytes E) (boot_scancode E) (boot_sd_img E) d = Inr dv
     else dv = ([], \<lparr>mmio_maps = [], pio_maps = []\<rparr>, d))"

lemma dlsym_all_ok: "dlopen path = Some syms \<Longrightarrow> set names \<subseteq> set syms \<Longrightarrow> dlsym_all dlopen path names = Inr ()"
  by (auto simp: dlsym_all_def)

lemma host_ready_trace:
  assumes "host_ready c dc E a tab dv d"
  shows "(if CONFIG_ITRACE c then init_disasm (boot_dlopen E) (boot_cs_open E) else Inr ()) = Inr ()"
    "(if CONFIG_FTRACE c then init_ftrace (map_option (boot_file E) (elf_file a)) else Inr []) = Inr tab"
    "init_log (boot_can_write E) (log_file a) = Inr ()"
    "(if CONFIG_DEVICE c then init_device c dc (boot_io_bytes E) (boot_scancode E) (boot_sd_img E) d
      else Inr ([], \<lparr>mmio_maps = [], pio_maps = []\<rparr>, d)) = Inr dv"
  using assms by (auto simp: host_ready_def init_disasm_def init_log_def dlsym_all_ok split: option.splits)

text \<open>
  C16: start-up leaves a machine ready to run the given program. For an image of at least four bytes that fits into the memory at the
  reset vector, as the built-in image does, on a host where what the configuration asks for loads and the devices initialise (\<open>host_ready\<close>),
  start-up succeeds; the CPU is at the reset vector with register
  zero clear, the image is in memory byte for byte, the watchpoint pool is empty, the functions of the ELF file are known, and with
  differential testing the reference has been initialised with the port and given exactly the bytes of the image and the registers of the
  CPU, in that order. The first word of the image is what the first instruction fetch returns.
\<close>

theorem init_monitor_ready:
  assumes "parse_args opts default_args = Some a" "img_file a = Some t" "boot_file E t = Some bs" "4 \<le> length bs"
    and "host_ready c dc E a tab (hs, maps, d) (dev (mach s))"
    and "in_pmem c (RESET_VECTOR c)" "reset_off c + max (length bs) (length img_bytes) \<le> unat (CONFIG_MSIZE c)"
    and "gpr (cpu (mach s)) \<noteq> []"
  shows "\<exists>b. init_monitor c dc R E opts s = Some (Inr b) \<and> b_maps b = maps \<and> b_alarms b = hs \<and> b_symbols b = tab \<and> wps (b_sys b) = init_wp_pool \<and>
    (let m = mach (b_sys b) in
     cpu_pc (cpu m) = RESET_VECTOR c \<and> gpr (cpu m) ! 0 = 0 \<and> dev m = d \<and>
     (\<forall>i < length bs. pmem (mem m) (reset_off c + i) = bs ! i) \<and>
     ref_state (b_sys b) =
       (if CONFIG_DIFFTEST c
        then ref_difftest_regcpy_to_ref R (cpu m)
               (ref_difftest_memcpy_to_ref R (RESET_VECTOR c) bs (ref_difftest_init R (difftest_port a) (ref_state s)))
        else ref_state s) \<and>
     inst_fetch c (mmio_maps maps) (RESET_VECTOR c) 4 m = Inr (load_le (\<lambda>i. bs ! i) 0 4, RESET_VECTOR c + 4, m))"
proof -
  define m0 where "m0 = (mach s)\<lparr>mem := init_mem c (boot_random E) (mem (mach s)), dev := d\<rparr>"
  define p1 where "p1 = bytes_set (pmem (mem m0)) (reset_off c) img_bytes"
  define p2 where "p2 = bytes_set p1 (reset_off c) bs"
  define m3 where "m3 = (restart c (m0\<lparr>mem := (mem m0)\<lparr>pmem := p1\<rparr>\<rparr>))\<lparr>mem := (mem m0)\<lparr>pmem := p2\<rparr>\<rparr>"
  note host = reset_host [OF assms(6)]
  note ready = host_ready_trace [OF assms(5)]
  have fit: "reset_off c + length bs \<le> unat (CONFIG_MSIZE c)" "reset_off c + length img_bytes \<le> unat (CONFIG_MSIZE c)"
    using assms(7) by auto
  have isa: "init_isa c m0 = Inr (restart c (m0\<lparr>mem := (mem m0)\<lparr>pmem := p1\<rparr>\<rparr>))"
    using fit by (simp add: init_isa_def host p1_def)
  have img: "load_img c (Some (Some bs)) (restart c (m0\<lparr>mem := (mem m0)\<lparr>pmem := p1\<rparr>\<rparr>)) = Inr (length bs, m3)"
    using assms(4) fit by (auto simp: load_img_def host p2_def m3_def restart_def)
  have byte: "p2 (reset_off c + i) = bs ! i" if "i < length bs" for i using that by (simp add: p2_def bytes_set_inside)
  define s1 where "s1 = (s\<lparr>mach := m3\<rparr>)\<lparr>ref_state := (if CONFIG_DIFFTEST c
    then ref_difftest_regcpy_to_ref R (cpu m3)
           (ref_difftest_memcpy_to_ref R (RESET_VECTOR c) bs (ref_difftest_init R (difftest_port a) (ref_state s))) else ref_state s)\<rparr>"
  have dif: "init_difftest c (boot_dlopen E) R (diff_so_file a) (length bs) (difftest_port a) (s\<lparr>mach := m3\<rparr>) = Inr s1"
  proof (cases "CONFIG_DIFFTEST c")
    case True
    then obtain path syms where l: "diff_so_file a = Some path" "boot_dlopen E path = Some syms" "set difftest_symbols \<subseteq> set syms"
      using assms(5) by (auto simp: host_ready_def)
    have "pmem (mem m3) = p2" by (simp add: m3_def)
    then show ?thesis
      using True l(1) dlsym_all_ok [of "boot_dlopen E", OF l(2,3)] fit bytes_set_map [of p1 "reset_off c" bs]
      by (simp add: init_difftest_def host s1_def p2_def)
  qed (simp add: init_difftest_def s1_def)
  define b where "b = \<lparr>b_args = a, b_alarms = hs, b_maps = maps, b_symbols = tab, b_sys = s1\<lparr>wps := init_wp_pool\<rparr>\<rparr>"
  have run: "init_monitor c dc R E opts s = Some (Inr b)"
  proof (cases "CONFIG_DEVICE c")
    case True
    then show ?thesis using assms(1-3) isa img dif ready by (simp add: init_monitor_def Let_def b_def m0_def split del: if_split)
  next
    case False
    then have d: "hs = []" "maps = \<lparr>mmio_maps = [], pio_maps = []\<rparr>" "d = dev (mach s)" using ready(4) by simp_all
    show ?thesis using False assms(1-3) isa img dif ready(1-3) by (simp add: init_monitor_def Let_def b_def m0_def d split del: if_split)
  qed
  have fetch: "inst_fetch c mm (RESET_VECTOR c) 4 m3 = Inr (load_le (\<lambda>i. bs ! i) 0 4, RESET_VECTOR c + 4, m3)" for mm
  proof -
    have "load_le p2 (reset_off c) 4 = load_le (\<lambda>i. bs ! i) 0 4"
      using byte assms(4) by (intro load_le_shift) simp
    then show ?thesis
      using assms(4,6) fit by (simp add: inst_fetch_def vaddr_ifetch_def paddr_read_def pmem_read_def host host_read_def m3_def)
  qed
  have "gpr (cpu m3) ! 0 = 0" "cpu_pc (cpu m3) = RESET_VECTOR c" "pmem (mem m3) = p2" "dev m3 = d"
    using assms(8) by (auto simp: m3_def restart_def m0_def)
  then show ?thesis using run fetch byte by (intro exI [of _ b]) (simp add: b_def s1_def Let_def)
qed

text \<open>The default configuration with differential testing: both tracers are on.\<close>

definition boot_demo :: boot_env where
  "boot_demo = \<lparr>boot_random = Some 0xab, boot_io_bytes = (\<lambda>_. 0), boot_scancode = (\<lambda>_. 0), boot_sd_img = None,
     boot_file = (\<lambda>t. if t = ''img'' then Some [0x73, 0, 0x10, 0] else None), boot_can_write = (\<lambda>_. True),
     boot_dlopen = (\<lambda>t. if t = ''ref.so'' then Some difftest_symbols else if t = capstone_path then Some capstone_symbols else None),
     boot_cs_open = True\<rparr>"

definition ref_demo :: "(int \<times> u8 list) ref_ops" where
  "ref_demo = \<lparr>ref_difftest_regcpy_to_dut = (\<lambda>_. cpu_zero default_config), ref_difftest_regcpy_to_ref = (\<lambda>_ r. r),
     ref_difftest_memcpy_to_ref = (\<lambda>_ bs (port, _). (port, bs)), ref_difftest_exec = (\<lambda>_ r. r), ref_difftest_init = (\<lambda>port _. (port, []))\<rparr>"

definition sys_demo :: "(int \<times> u8 list) sys" where
  "sys_demo = \<lparr>mach = machine_zero default_config, wps = init_wp_pool, iringbuf = [], iringbuf_index = 0, g_timer = 0,
     g_print_step = False, ref_state = (0, [])\<rparr>"

theorem init_monitor_ready_witness:
  "\<exists>b. init_monitor (default_config\<lparr>CONFIG_DIFFTEST := True\<rparr>) default_dev_config ref_demo boot_demo
      [O_batch, O_log ''log'', O_diff ''ref.so'', O_arg ''img''] sys_demo = Some (Inr b) \<and>
    cpu_pc (cpu (mach (b_sys b))) = 0x80000000 \<and> ref_state (b_sys b) = (1234, [0x73, 0, 0x10, 0])"
proof -
  define c where "c = default_config\<lparr>CONFIG_DIFFTEST := True\<rparr>"
  define a where "a = default_args\<lparr>is_batch_mode := True, log_file := Some ''log'', diff_so_file := Some ''ref.so'', img_file := Some ''img''\<rparr>"
  have c: "in_pmem c (RESET_VECTOR c)" "reset_off c = 0" "unat (CONFIG_MSIZE c) = 0x8000000" "CONFIG_FTRACE c" "CONFIG_ITRACE c" "\<not> CONFIG_DEVICE c"
    "CONFIG_DIFFTEST c" "RESET_VECTOR c = 0x80000000"
    by (simp_all add: c_def default_config_def in_pmem_def RESET_VECTOR_def reset_off_def)
  have l: "length img_bytes = 20" by (simp add: img_bytes_eq)
  have g: "gpr (cpu (mach sys_demo)) \<noteq> []" by (simp add: sys_demo_def machine_zero_def cpu_zero_def nr_gpr_def)
  have "boot_dlopen boot_demo capstone_path = Some capstone_symbols" by (simp add: boot_demo_def capstone_path_def)
  then have h: "host_ready c default_dev_config boot_demo a [] ([], \<lparr>mmio_maps = [], pio_maps = []\<rparr>, dev (mach sys_demo)) (dev (mach sys_demo))"
    using c by (simp add: host_ready_def a_def default_args_def init_ftrace_def) (simp add: boot_demo_def)
  have p: "parse_args [O_batch, O_log ''log'', O_diff ''ref.so'', O_arg ''img''] default_args = Some a" "img_file a = Some ''img''"
    "boot_file boot_demo ''img'' = Some [0x73, 0, 0x10, 0]" "difftest_port a = 1234"
    by (simp_all add: a_def boot_demo_def default_args_def)
  have "\<exists>b. init_monitor c default_dev_config ref_demo boot_demo [O_batch, O_log ''log'', O_diff ''ref.so'', O_arg ''img''] sys_demo = Some (Inr b) \<and>
    cpu_pc (cpu (mach (b_sys b))) = RESET_VECTOR c \<and>
    ref_state (b_sys b) = ref_difftest_regcpy_to_ref ref_demo (cpu (mach (b_sys b)))
      (ref_difftest_memcpy_to_ref ref_demo (RESET_VECTOR c) [0x73, 0, 0x10, 0] (ref_difftest_init ref_demo (difftest_port a) (ref_state sys_demo)))"
    using init_monitor_ready [OF p(1-3) _ h c(1) _ g, of ref_demo] c l by (auto simp: Let_def)
  then show ?thesis using c p unfolding c_def [symmetric] by (auto simp: ref_demo_def)
qed

section \<open>The function trace\<close>

lemma read_symbols_bound:
  "read_symbols symtab strtab i n tab = Inr tab' \<Longrightarrow> length tab \<le> MAX_SYMB \<Longrightarrow> length tab' \<le> MAX_SYMB"
  by (induction symtab strtab i n tab rule: read_symbols.induct) (auto split: if_splits)

text \<open>The symbol table never holds more functions than its array has room for.\<close>

lemma init_ftrace_bound: "init_ftrace file = Inr tab \<Longrightarrow> length tab \<le> MAX_SYMB"
  by (auto simp: init_ftrace_def Let_def split: option.splits if_splits dest!: read_symbols_bound)

text \<open>Calls and returns that match leave the indentation as it was.\<close>

inductive nested :: "(paddr_t \<times> paddr_t \<times> bool) list \<Rightarrow> bool" where
  nested_Nil: "nested []"
| nested_call: "nested xs \<Longrightarrow> nested ys \<Longrightarrow> nested ((p, t, True) # xs @ (q, u, False) # ys)"

lemma nested_depth:
  "nested log \<Longrightarrow> tab \<noteq> [] \<Longrightarrow> \<exists>out'. fold (print_ftrace tab) log (d, out) = (d, out')"
proof (induction arbitrary: d out rule: nested.induct)
  case (nested_call xs ys p t q u)
  obtain o1 where "fold (print_ftrace tab) xs (d + 1, out @ [(p, d * 2, True, find_func tab t, t)]) = (d + 1, o1)"
    using nested_call by blast
  moreover obtain o2 where "fold (print_ftrace tab) ys (d, o1 @ [(q, d * 2, False, find_func tab u, u)]) = (d, o2)"
    using nested_call by blast
  ultimately show ?case using nested_call.prems by simp
qed simp

end
