(* ===== verification/Machine_Inv.thy ===== *)
theory Machine_Inv
  imports Cpu_Exec
begin

text \<open>
  The type of the running machine: the well-formedness every component relies on (the size of the
  register file and its zero register, the allocated I/O space and the regions in it, the keyboard ring,
  the watchpoint lists, the instruction ring) as one predicate on the whole state of NEMU, and that
  every run of the execution loop stays in it. The argument is a small logic of fallible steps: \<open>yields E P r\<close>
  says that \<open>r\<close> either fails with an error in \<open>E\<close> or returns a value in \<open>P\<close>.
\<close>

section \<open>Fallible steps\<close>

named_theorems yields_rules \<open>what the operations yield\<close>

definition yields :: "(c_error \<Rightarrow> bool) \<Rightarrow> ('a \<Rightarrow> bool) \<Rightarrow> 'a res \<Rightarrow> bool" where
  "yields E P r \<longleftrightarrow> (case r of Inl e \<Rightarrow> E e | Inr x \<Rightarrow> P x)"

lemma yields_simps [simp]: "yields E P (Inl e) = E e" "yields E P (Inr x) = P x"
  by (simp_all add: yields_def)

lemma yields_bind:
  "yields E P r \<Longrightarrow> (\<And>x. P x \<Longrightarrow> yields E Q (f x)) \<Longrightarrow> yields E Q (ebind r f)"
  by (cases r) simp_all

lemma yields_check: "(\<not> b \<Longrightarrow> E e) \<Longrightarrow> yields E (\<lambda>_. b) (echeck b e)"
  by (cases b) simp_all

lemma yields_weaken: "yields E P r \<Longrightarrow> (\<And>x. P x \<Longrightarrow> Q x) \<Longrightarrow> yields E Q r"
  by (cases r) simp_all

lemma yields_Inr: "yields E P r \<Longrightarrow> r = Inr x \<Longrightarrow> P x"
  by simp

section \<open>The contract of a device callback\<close>

text \<open>
  What the dispatcher relies on: a callback never moves the allocation pointer, keeps the keyboard
  ring a ring, and fails only by an assertion or a panic.
\<close>

definition guarded :: "c_error \<Rightarrow> bool" where
  "guarded e \<longleftrightarrow> (case e of Undef _ \<Rightarrow> False | _ \<Rightarrow> True)"

lemma guarded_simps [simp]: "guarded Assert_fail" "guarded (Panic p)" "\<not> guarded (Undef u)"
  by (simp_all add: guarded_def)

definition dev_ok :: "IOMap list \<Rightarrow> dev_state \<Rightarrow> bool" where
  "dev_ok maps d \<longleftrightarrow> io_inv d \<and> key_inv d \<and> (\<forall>mp \<in> set maps. region_ok d mp)"

lemma dev_ok_same: "dev_ok maps d \<Longrightarrow> p_space d' = p_space d \<Longrightarrow> key_inv d' \<Longrightarrow> dev_ok maps d'"
  by (simp add: dev_ok_def io_inv_def region_ok_def)

lemma dev_ok_cong: "p_space d' = p_space d \<Longrightarrow> key_inv d' = key_inv d \<Longrightarrow> dev_ok maps d' = dev_ok maps d"
  by (simp add: dev_ok_def io_inv_def region_ok_def)

locale io_callback =
  fixes cb :: io_callback_t
  assumes cb_keeps: "key_inv d \<Longrightarrow> yields guarded (\<lambda>d'. p_space d' = p_space d \<and> key_inv d') (cb off len w d)"
begin

lemma cb_dev_ok: "dev_ok maps d \<Longrightarrow> yields guarded (dev_ok maps) (cb off len w d)"
  by (rule yields_weaken [OF cb_keeps]) (auto simp: dev_ok_same, simp add: dev_ok_def)

end

lemma key_fields [simp]:
  "key_inv (d\<lparr>clock_reads := a\<rparr>) = key_inv d" "key_inv (d\<lparr>boot_time := b\<rparr>) = key_inv d"
  "key_inv (d\<lparr>serial_out := so\<rparr>) = key_inv d" "key_inv (d\<lparr>audio_opened := ao\<rparr>) = key_inv d"
  "key_inv (d\<lparr>io_space := io\<rparr>) = key_inv d" "key_inv (d\<lparr>sd_fp := f\<rparr>) = key_inv d"
  "key_inv (d\<lparr>read_ext_csd := x\<rparr>) = key_inv d" "key_inv (d\<lparr>sd_addr := sa\<rparr>) = key_inv d"
  "key_inv (d\<lparr>blkcnt := n\<rparr>) = key_inv d" "key_inv (d\<lparr>blk_addr := ba\<rparr>) = key_inv d"
  "key_inv (d\<lparr>write_cmd := wc\<rparr>) = key_inv d" "key_inv (d\<lparr>last_update := lu\<rparr>) = key_inv d"
  "key_inv (d\<lparr>frames := fr\<rparr>) = key_inv d"
  by (simp_all add: key_inv_def)

lemma get_time_keeps:
  "get_time d = (t, d') \<Longrightarrow> p_space d' = p_space d \<and> key_inv d' = key_inv d"
  by (auto simp: get_time_def get_time_internal_def Let_def split: if_splits)

lemma key_dequeue_dev_ok:
  "key_dequeue d = (k, d') \<Longrightarrow> key_inv d \<Longrightarrow> p_space d' = p_space d \<and> key_inv d'"
  by (auto simp: key_dequeue_def key_inv_def KEY_QUEUE_LEN_def split: if_splits)

interpretation rtc_cb: io_callback rtc_io_handler
  by unfold_locales (auto simp: rtc_io_handler_def dest: get_time_keeps intro!: yields_bind [OF yields_check]
      split: prod.splits)

interpretation serial_cb: io_callback serial_io_handler
  by unfold_locales (auto simp: serial_io_handler_def serial_putc_def intro!: yields_bind [OF yields_check])

interpretation kbd_cb: io_callback i8042_data_io_handler
  by unfold_locales (auto simp: i8042_data_io_handler_def dest: key_dequeue_dev_ok
      intro!: yields_bind [OF yields_check] split: prod.splits)

interpretation audio_cb: io_callback audio_io_handler
  by unfold_locales (simp add: audio_io_handler_def)

interpretation sdcard_cb: io_callback sdcard_io_handler
  by unfold_locales (simp add: sdcard_io_handler_def sdcard_handle_cmd_def prepare_rw_def sdcard_data_def
      Let_def file_read_def split: option.splits)

text \<open>The callbacks the devices register.\<close>

definition dev_handlers :: "io_callback_t set" where
  "dev_handlers = {rtc_io_handler, serial_io_handler, i8042_data_io_handler, audio_io_handler, sdcard_io_handler}"

definition handlers_ok :: "IOMap list \<Rightarrow> bool" where
  "handlers_ok maps \<longleftrightarrow> (\<forall>mp \<in> set maps. case map_callback mp of None \<Rightarrow> True | Some f \<Rightarrow> f \<in> dev_handlers)"

lemma invoke_callback_ok:
  assumes "handlers_ok maps" "mp \<in> set maps" "dev_ok maps d"
  shows "yields guarded (dev_ok maps) (invoke_callback (map_callback mp) off len w d)"
proof (cases "map_callback mp")
  case (Some f)
  then have "f \<in> dev_handlers" using assms(1,2) by (force simp: handlers_ok_def)
  then have "yields guarded (dev_ok maps) (f off len w d)"
    using rtc_cb.cb_dev_ok [OF assms(3)] serial_cb.cb_dev_ok [OF assms(3)] kbd_cb.cb_dev_ok [OF assms(3)]
      audio_cb.cb_dev_ok [OF assms(3)] sdcard_cb.cb_dev_ok [OF assms(3)]
    by (auto simp: dev_handlers_def)
  then show ?thesis by (simp add: invoke_callback_def Some)
qed (use assms(3) in \<open>simp add: invoke_callback_def\<close>)

section \<open>Device accesses\<close>

text \<open>An access width the instructions use.\<close>

definition acc_len :: "nat \<Rightarrow> bool" where
  "acc_len n \<longleftrightarrow> n = 1 \<or> n = 2 \<or> n = 4"

lemma fetch_mmio_map_in: "fetch_mmio_map c maps addr f = (Some mp, f') \<Longrightarrow> mp \<in> set maps"
  by (auto simp: fetch_mmio_map_def find_mapid_by_addr_def split: option.splits dest: find_mapid_from_SomeD)

lemma io_region_acc:
  assumes "dev_ok maps d" "mp \<in> set maps" "check_bound (Some mp) addr = Inr ()" "acc_len n"
  shows "io_acc (map_space mp + unat (addr - map_low mp)) n"
  using assms region_io_acc [of d mp addr n]
  by (auto simp: dev_ok_def check_bound_def map_inside_def acc_len_def)

lemma check_bound_ok: "yields guarded (\<lambda>_. check_bound mp addr = Inr ()) (check_bound mp addr)"
  by (auto simp: check_bound_def echeck_def split: option.splits)

lemma mmio_read_ok [yields_rules]:
  assumes "handlers_ok maps" "dev_ok maps (fst s)" "acc_len n"
  shows "yields guarded (\<lambda>(v, d, f). dev_ok maps d) (mmio_read c maps addr n s)"
proof (cases "fetch_mmio_map c maps addr (snd s)")
  case (Pair mo f)
  show ?thesis
  proof (cases mo)
    case (Some mp)
    have mp: "mp \<in> set maps" using Pair Some fetch_mmio_map_in by blast
    have "yields guarded (\<lambda>(v, d). dev_ok maps d) (map_read c addr n (Some mp) (fst s))"
      unfolding map_read_def Let_def option.sel
      by (rule yields_bind [OF yields_check], simp, rule yields_bind [OF check_bound_ok],
          rule yields_bind [OF invoke_callback_ok [OF assms(1) mp assms(2)]])
        (simp add: io_load_eq io_region_acc [OF _ mp _ assms(3)])
    then show ?thesis
      by (auto simp: mmio_read_def Pair Some intro: yields_bind)
  qed (simp add: mmio_read_def Pair map_read_def check_bound_def echeck_def)
qed

lemma mmio_write_ok [yields_rules]:
  assumes "handlers_ok maps" "dev_ok maps (fst s)" "acc_len n"
  shows "yields guarded (\<lambda>(d, f). dev_ok maps d) (mmio_write c maps addr n v s)"
proof (cases "fetch_mmio_map c maps addr (snd s)")
  case (Pair mo f)
  show ?thesis
  proof (cases mo)
    case (Some mp)
    have mp: "mp \<in> set maps" using Pair Some fetch_mmio_map_in by blast
    have st: "dev_ok maps ((fst s)\<lparr>io_space := b\<rparr>)" for b
      using assms(2) by (rule dev_ok_same) (use assms(2) in \<open>simp_all add: dev_ok_def\<close>)
    have "yields guarded (dev_ok maps) (map_write c addr n v (Some mp) (fst s))"
      unfolding map_write_def Let_def option.sel
      by (rule yields_bind [OF yields_check], simp, rule yields_bind [OF check_bound_ok])
        (simp add: io_store_eq io_region_acc [OF assms(2) mp _ assms(3)] invoke_callback_ok [OF assms(1) mp st])
    then show ?thesis
      by (auto simp: mmio_write_def Pair Some intro: yields_bind)
  qed (simp add: mmio_write_def Pair map_write_def check_bound_def echeck_def)
qed

section \<open>The machine\<close>

text \<open>The errors a well-typed machine cannot make: a register outside the file, a cyclic watchpoint list.\<close>

definition typed_error :: "c_error \<Rightarrow> bool" where
  "typed_error e \<longleftrightarrow> e \<noteq> Undef ''register file'' \<and> e \<noteq> Undef ''cyclic list''"

lemma typed_error_simps [simp]:
  "typed_error Assert_fail" "typed_error (Panic p)" "guarded e \<Longrightarrow> typed_error e"
  "typed_error (Undef ''out-of-bounds read'')" "typed_error (Undef ''out-of-bounds write'')"
  "typed_error (Undef ''signed division'')" "typed_error (Undef ''signed overflow'')" "typed_error (Undef ''division by zero'')"
  by (auto simp: typed_error_def guarded_def)

lemma yields_guarded: "yields guarded P r \<Longrightarrow> yields typed_error P r"
  by (cases r) simp_all

definition machine_ok :: "nemu_config \<Rightarrow> IOMap list \<Rightarrow> machine \<Rightarrow> bool" where
  "machine_ok c maps m \<longleftrightarrow> length (gpr (cpu m)) = nr_gpr c \<and> gpr (cpu m) ! 0 = 0 \<and> dev_ok maps (dev m)"

text \<open>Inside an instruction register 0 may hold something else until the end of the step.\<close>

definition mid_ok :: "nemu_config \<Rightarrow> IOMap list \<Rightarrow> machine \<Rightarrow> bool" where
  "mid_ok c maps m \<longleftrightarrow> length (gpr (cpu m)) = nr_gpr c \<and> dev_ok maps (dev m)"

lemma machine_mid: "machine_ok c maps m \<Longrightarrow> mid_ok c maps m"
  by (simp add: machine_ok_def mid_ok_def)

lemma access_keeps:
  "mid_ok c maps m \<Longrightarrow> cpu m' = cpu m \<Longrightarrow> dev_ok maps (dev m') \<Longrightarrow> mid_ok c maps m'"
  "machine_ok c maps m \<Longrightarrow> cpu m' = cpu m \<Longrightarrow> dev_ok maps (dev m') \<Longrightarrow> machine_ok c maps m'"
  by (simp_all add: machine_ok_def mid_ok_def)

lemma pmem_read_typed: "yields typed_error (\<lambda>_. True) (pmem_read c a n mm)"
  by (auto simp: pmem_read_def guest_to_host_def host_read_def split: prod.splits)

lemma pmem_write_typed: "yields typed_error (\<lambda>_. True) (pmem_write c a n v mm)"
  by (auto simp: pmem_write_def guest_to_host_def host_write_def split: prod.splits)

lemma paddr_read_ok:
  assumes "handlers_ok maps" "dev_ok maps (dev m)" "acc_len n"
  shows "yields typed_error (\<lambda>(v, m'). cpu m' = cpu m \<and> dev_ok maps (dev m')) (paddr_read c maps a n m)"
  using assms(2) mmio_read_ok [OF assms(1) _ assms(3), of "(dev m, dt m)" c a]
  by (auto simp: paddr_read_def intro: yields_bind [OF pmem_read_typed] yields_bind [OF yields_guarded])

lemma paddr_write_ok:
  assumes "handlers_ok maps" "dev_ok maps (dev m)" "acc_len n"
  shows "yields typed_error (\<lambda>m'. cpu m' = cpu m \<and> dev_ok maps (dev m')) (paddr_write c maps a n v m)"
  using assms(2) mmio_write_ok [OF assms(1) _ assms(3), of "(dev m, dt m)" c a v]
  by (auto simp: paddr_write_def intro: yields_bind [OF pmem_write_typed] yields_bind [OF yields_guarded])

section \<open>Instructions\<close>

text \<open>
  Register numbers come from five-bit fields, so they are in range unless the file has sixteen
  registers; then the run-time check has to be on.
\<close>

definition regs_guarded :: "nemu_config \<Rightarrow> bool" where
  "regs_guarded c \<longleftrightarrow> (CONFIG_RVE c \<longrightarrow> CONFIG_RT_CHECK c)"

lemma get_gpr_typed: "regs_guarded c \<Longrightarrow> i < 32 \<Longrightarrow> yields typed_error (\<lambda>_. True) (get_gpr c i m)"
  by (auto simp: get_gpr_def check_reg_idx_def regs_guarded_def nr_gpr_def echeck_def)

lemma set_gpr_typed:
  "regs_guarded c \<Longrightarrow> i < 32 \<Longrightarrow> mid_ok c maps m \<Longrightarrow> yields typed_error (mid_ok c maps) (set_gpr c i v m)"
  by (auto simp: set_gpr_def check_reg_idx_def regs_guarded_def nr_gpr_def echeck_def mid_ok_def)

lemma reg_field: "unat (BITS x 19 15) < 32" "unat (BITS x 24 20) < 32" "unat (BITS x 11 7) < 32"
  using BITS_bound [of 19 15 x] BITS_bound [of 24 20 x] BITS_bound [of 11 7 x] by simp_all

lemma decode_operand_typed:
  assumes "regs_guarded c"
  shows "yields typed_error (\<lambda>(rd, src1, src2, imm). rd < 32) (decode_operand c i ty m)"
  by (cases ty) (auto simp: decode_operand_def Let_def reg_field
      intro!: yields_bind [OF get_gpr_typed [OF assms]])

lemma inst_fetch_ok:
  assumes "handlers_ok maps" "dev_ok maps (dev m)"
  shows "yields typed_error (\<lambda>(i, p', m'). cpu m' = cpu m \<and> dev_ok maps (dev m')) (inst_fetch c maps p 4 m)"
  by (auto simp: inst_fetch_def vaddr_ifetch_def acc_len_def
      intro!: yields_bind [OF paddr_read_ok [OF assms]])

lemma invalid_inst_typed:
  assumes "handlers_ok maps" "mid_ok c maps m"
  shows "yields typed_error (mid_ok c maps) (invalid_inst c maps p m)"
proof -
  have d: "dev_ok maps (dev m)" using assms(2) by (simp add: mid_ok_def)
  show ?thesis
    unfolding invalid_inst_def
    by (rule yields_bind [OF inst_fetch_ok [OF assms(1) d]], clarsimp,
        rule yields_bind [OF inst_fetch_ok [OF assms(1)]], assumption)
      (use assms(2) in \<open>auto simp: mid_ok_def set_nemu_state_def\<close>)
qed

lemma csr_switch_typed:
  "mid_ok c maps m \<Longrightarrow> yields typed_error (\<lambda>(t, m'). mid_ok c maps m') (csr_switch f k m)"
  by (simp add: csr_switch_def Let_def mid_ok_def)

lemma check_ftrace_mid: "mid_ok c maps m \<Longrightarrow> mid_ok c maps (check_ftrace c p dn rd rs1 j m)"
  by (simp add: check_ftrace_def mid_ok_def)

lemma exec_system_typed:
  assumes "regs_guarded c" "handlers_ok maps" "mid_ok c maps m" "rd < 32"
  shows "yields typed_error (\<lambda>(de', m'). mid_ok c maps m') (exec_system c maps nm (rd, src1, src2, imm) (de, m))"
proof -
  have csr: "yields typed_error (\<lambda>(de', m'). mid_ok c maps m') (ebind (csr_switch f k m)
      (\<lambda>(t, m1). ebind (set_gpr c rd t m1) (\<lambda>m2. Inr (de, m2))))" for f k
    by (rule yields_bind [OF csr_switch_typed [OF assms(3)]])
      (auto intro!: yields_bind [OF set_gpr_typed [OF assms(1,4)]])
  have jmp: "yields typed_error (\<lambda>(de', m'). mid_ok c maps m') (ebind (set_gpr c rd v m)
      (\<lambda>m1. Inr (de1, check_ftrace c p dn rd rs1 j m1)))" for v de1 p dn rs1 j
    by (rule yields_bind [OF set_gpr_typed [OF assms(1,4,3)]]) (simp add: check_ftrace_mid)
  have inv: "yields typed_error (\<lambda>(de', m'). mid_ok c maps m') (ebind (invalid_inst c maps (pc de) m)
      (\<lambda>m1. Inr (de, m1)))"
    by (rule yields_bind [OF invalid_inst_typed [OF assms(2,3)]]) simp
  have brk: "yields typed_error (\<lambda>(de', m'). mid_ok c maps m') (ebind (get_gpr c 10 m)
      (\<lambda>a0. Inr (de, set_nemu_state c NEMU_END (pc de) a0 m)))"
    by (rule yields_bind [OF get_gpr_typed [OF assms(1)]])
      (use assms(3) in \<open>auto simp: mid_ok_def set_nemu_state_def\<close>)
  show ?thesis
    using csr jmp inv brk assms(3)
    by (cases nm) (simp_all add: exec_system_def Let_def isa_raise_intr_def mid_ok_def)
qed

lemma alu_typed: "alu nm p src1 src2 imm = Some r \<Longrightarrow> yields typed_error (\<lambda>_. True) r"
  by (cases nm) (auto simp: alu_def)

lemma load_conv_len: "load_conv nm = Some (len, f) \<Longrightarrow> acc_len len"
  by (cases nm) (auto simp: load_conv_def acc_len_def)

lemma store_len_len: "store_len nm = Some len \<Longrightarrow> acc_len len"
  by (cases nm) (auto simp: store_len_def acc_len_def)

lemma exec_inst_typed:
  assumes "regs_guarded c" "handlers_ok maps" "mid_ok c maps m" "rd < 32"
  shows "yields typed_error (\<lambda>(de', m'). mid_ok c maps m') (exec_inst c maps nm (rd, src1, src2, imm) (de, m))"
proof -
  have d: "dev_ok maps (dev m)" using assms(3) by (simp add: mid_ok_def)
  have wr: "yields typed_error (\<lambda>(de', m'). mid_ok c maps m') (ebind (set_gpr c rd v m1) (\<lambda>m2. Inr (de, m2)))"
    if "mid_ok c maps m1" for v m1
    by (rule yields_bind [OF set_gpr_typed [OF assms(1,4) that]]) simp
  have al: "yields typed_error (\<lambda>(de', m'). mid_ok c maps m')
      (ebind r (\<lambda>v. ebind (set_gpr c rd v m) (\<lambda>m1. Inr (de, m1))))"
    if "alu nm (pc de) src1 src2 imm = Some r" for r
    by (rule yields_bind [OF alu_typed [OF that]]) (rule wr [OF assms(3)])
  have ld: "yields typed_error (\<lambda>(de', m'). mid_ok c maps m') (ebind (vaddr_read c maps (src1 + imm) len m)
      (\<lambda>(v, m1). ebind (set_gpr c rd (conv v) m1) (\<lambda>m2. Inr (de, m2))))" if "load_conv nm = Some (len, conv)" for len conv
    unfolding vaddr_read_def
    by (rule yields_bind [OF paddr_read_ok [OF assms(2) d load_conv_len [OF that]]])
      (use assms(3) in \<open>auto intro!: wr intro: access_keeps\<close>)
  have st: "yields typed_error (\<lambda>(de', m'). mid_ok c maps m') (ebind (vaddr_write c maps (src1 + imm) len src2 m)
      (\<lambda>m1. Inr (de, m1)))" if "store_len nm = Some len" for len
    unfolding vaddr_write_def
    by (rule yields_bind [OF paddr_write_ok [OF assms(2) d store_len_len [OF that]]])
      (use assms(3) in \<open>auto simp: mid_ok_def\<close>)
  show ?thesis
    using al ld st assms(3) exec_system_typed [OF assms, of nm src1 src2 imm de]
    by (simp add: exec_inst_def split: option.split)
qed

lemma isa_exec_once_typed:
  assumes "regs_guarded c" "handlers_ok maps" "mid_ok c maps m"
  shows "yields typed_error (\<lambda>(de', m'). machine_ok c maps m') (isa_exec_once c maps (de, m))"
proof -
  have d: "dev_ok maps (dev m)" using assms(3) by (simp add: mid_ok_def)
  have fin: "yields typed_error (\<lambda>(de', m'). machine_ok c maps m')
      (ebind (set_gpr c 0 0 m1) (\<lambda>m2. Inr (de1, m2)))" if "mid_ok c maps m1" for m1 de1
    using that by (auto simp: set_gpr_def check_reg_idx_def nr_gpr_def mid_ok_def machine_ok_def)
  have dec: "yields typed_error (\<lambda>(de', m'). machine_ok c maps m') (decode_exec c maps (de0, m0))"
    if "mid_ok c maps m0" for de0 m0
    unfolding decode_exec_unfold
    by (rule yields_bind [OF decode_operand_typed [OF assms(1)]], clarsimp,
        rule yields_bind [OF exec_inst_typed [OF assms(1,2) that]], assumption) (auto intro: fin)
  show ?thesis
    unfolding isa_exec_once_def prod.case
    by (rule yields_bind [OF inst_fetch_ok [OF assms(2) d]])
      (use assms(3) in \<open>auto simp: mid_ok_def intro!: dec\<close>)
qed

section \<open>The debugger's reads\<close>

lemma eval_typed:
  "handlers_ok maps \<Longrightarrow> machine_ok c maps m \<Longrightarrow>
    yields typed_error (\<lambda>(v, ok, m'). machine_ok c maps m') (eval c maps ts success m)"
proof (induction c maps ts success m rule: eval.induct)
  case (1 c maps ts success m)
  have atom: "yields typed_error (\<lambda>(v, ok, m'). machine_ok c maps m') (eval_atom t m)" for t
    using "1.prems"(2) by (simp add: eval_atom_def split: token_type.split option.split)
  have int: "yields typed_error (\<lambda>_. True) (c_int v)" for v by (simp add: c_int_def)
  have bin: "yields typed_error (\<lambda>_. True) (binop t v1 v2)" for t v1 v2
    using int by (simp add: binop_def split: token_type.split)
  have app: "yields typed_error (\<lambda>(v, ok, m'). machine_ok c maps m') (apply_op c maps t v1 v2 ok m1)"
    if ok: "machine_ok c maps m1" for t v1 v2 ok m1
  proof -
    have d: "dev_ok maps (dev m1)" using ok by (simp add: machine_ok_def)
    have "yields typed_error (\<lambda>(v, ok, m'). machine_ok c maps m')
        (ebind (vaddr_read c maps v2 4 m1) (\<lambda>(v, m'). Inr (v, ok, m')))"
      unfolding vaddr_read_def
      by (rule yields_bind [OF paddr_read_ok [OF "1.prems"(1) d]])
        (use ok in \<open>auto simp: acc_len_def intro: access_keeps\<close>)
    then show ?thesis
      using ok by (auto simp: apply_op_def intro: yields_bind [OF bin] yields_bind [OF int])
  qed
  show ?case
  proof (cases "success \<and> ts \<noteq> [] \<and> length ts \<noteq> 1 \<and> \<not> check_parentheses ts")
    case False
    then show ?thesis using "1.IH"(1) "1.prems" atom by (subst eval.simps) auto
  next
    case True
    show ?thesis
    proof (cases "find_main_operator ts")
      case (Some op)
      let ?t = "tk (ts ! op)"
      have left: "yields typed_error (\<lambda>(v, ok, m'). machine_ok c maps m')
          (if is_unary ?t then Inr (0, success, m) else eval c maps (take op ts) success m)"
        using True Some "1.IH"(2) "1.prems" by simp
      have right: "yields typed_error (\<lambda>(v, ok, m'). machine_ok c maps m')
          (eval c maps (drop (Suc op) ts) ok1 m1)"
        if "(if is_unary ?t then Inr (0, success, m) else eval c maps (take op ts) success m) = Inr (v1, ok1, m1)"
          "machine_ok c maps m1" for v1 ok1 m1
        using True Some "1.IH"(3) [OF _ _ _ _ Some refl that(1) refl refl] "1.prems"(1) that(2) by simp
      have "yields typed_error (\<lambda>(v, ok, m'). machine_ok c maps m')
         (ebind (if is_unary ?t then Inr (0, success, m) else eval c maps (take op ts) success m) (\<lambda>(val1, ok1, m1).
         ebind (eval c maps (drop (Suc op) ts) ok1 m1) (\<lambda>(val2, ok2, m2).
           apply_op c maps ?t val1 val2 ok2 m2)))"
        (is "yields _ _ (ebind ?l ?f)")
      proof (cases ?l)
        case (Inr x)
        obtain v1 ok1 m1 where x: "x = (v1, ok1, m1)" by (cases x)
        have "machine_ok c maps m1" using left Inr x by simp
        then show ?thesis using right Inr x by (auto intro!: yields_bind [OF right] app)
      qed (use left in simp)
      then show ?thesis using True Some by (subst eval.simps) (simp add: Let_def)
    qed (use True in \<open>subst eval.simps, simp\<close>)
  qed
qed

lemma make_token_typed: "yields typed_error (\<lambda>_. True) (make_token_from n s)"
proof (induction n s rule: make_token_from.induct)
  case (1 nr e)
  show ?case
  proof (cases "e = []")
    case False
    show ?thesis
    proof (cases "first_rule rules e")
      case (Some r)
      obtain n t where r: "r = (n, t)" by (cases r)
      show ?thesis
      proof (cases t)
        case None
        then show ?thesis using 1(1) [OF False Some r [symmetric] None] False Some r
          by (subst make_token_from.simps) simp
      next
        case (Some t')
        then show ?thesis using 1(2) [OF False \<open>first_rule rules e = Some r\<close> r [symmetric] Some] False \<open>first_rule rules e = Some r\<close> r
          by (subst make_token_from.simps) (auto simp: echeck_def intro: yields_bind)
      qed
    qed (use False in \<open>subst make_token_from.simps, simp\<close>)
  qed (subst make_token_from.simps, simp)
qed

lemma expr_typed:
  assumes "handlers_ok maps" "machine_ok c maps m"
  shows "yields typed_error (\<lambda>(v, ok, m'). machine_ok c maps m') (expr c maps e m)"
  unfolding expr_def make_token_def
  by (rule yields_bind [OF make_token_typed]) (use assms eval_typed [OF assms] in auto)

lemma check_loop_typed:
  "handlers_ok maps \<Longrightarrow> machine_ok c maps m \<Longrightarrow> wpath (wp_pool s) p us \<Longrightarrow> length us \<le> n \<Longrightarrow>
    yields typed_error (\<lambda>(b, s', m'). machine_ok c maps m') (check_loop c maps n p tr s m)"
proof (induction c maps n p tr s m arbitrary: us rule: check_loop.induct)
  case (2 c maps wp tr s m)
  then show ?case by auto
next
  case (3 c maps n wp tr s m)
  obtain vs where us: "us = wp # vs" "wpath (wp_pool s) (wp_next (wp_pool s ! wp)) vs" "length vs \<le> n"
    using "3.prems"(3,4) by (auto simp: wpath_Some)
  show ?case
  proof (cases "expr c maps (wp_expr (wp_pool s ! wp)) m")
    case (Inl e)
    then show ?thesis using expr_typed [OF "3.prems"(1,2), of "wp_expr (wp_pool s ! wp)"] by simp
  next
    case (Inr x)
    obtain v ok m1 where x: "x = (v, ok, m1)" by (cases x)
    have m1: "machine_ok c maps m1"
      using expr_typed [OF "3.prems"(1,2), of "wp_expr (wp_pool s ! wp)"] Inr x by simp
    have "wpath (wp_pool (upd_wp wp (\<lambda>w. w\<lparr>old_val := v\<rparr>) s)) (wp_next (wp_pool s ! wp)) vs"
      using us(2) by (simp add: wpath_keep)
    then show ?thesis
      using "3.IH" [OF Inr x [symmetric] refl] "3.prems"(1) m1 us Inr x by auto
  qed
qed simp

section \<open>The whole system\<close>

definition sys_ok :: "nemu_config \<Rightarrow> IOMap list \<Rightarrow> 'r sys \<Rightarrow> bool" where
  "sys_ok c maps s \<longleftrightarrow> machine_ok c maps (mach s) \<and> (\<exists>us fs. wp_inv us fs (wps s)) \<and> iring_inv s"

lemma check_watchpoints_ok:
  assumes "handlers_ok maps" "sys_ok c maps s"
  shows "yields typed_error (\<lambda>(b, w, m). machine_ok c maps m \<and> (\<exists>us fs. wp_inv us fs w))
    (check_watchpoints c maps (wps s) (mach s))"
proof -
  obtain us fs where inv: "wp_inv us fs (wps s)" using assms(2) by (auto simp: sys_ok_def)
  have "yields typed_error (\<lambda>(b, w, m). machine_ok c maps m)
      (check_loop c maps NR_WP (wp_head (wps s)) False (wps s) (mach s))"
    by (rule check_loop_typed [of _ _ _ _ _ us])
      (use assms inv wp_inv_len [OF inv] in \<open>auto simp: sys_ok_def wp_inv_def\<close>)
  then show ?thesis
    using check_loop_inv [OF _ inv] by (fastforce simp: check_watchpoints_def yields_def split: sum.splits)
qed

lemma sys_ok_mach:
  "sys_ok c maps s \<Longrightarrow> machine_ok c maps m \<Longrightarrow> sys_ok c maps (s\<lparr>mach := m\<rparr>)"
  "sys_ok c maps s \<Longrightarrow> sys_ok c maps (s\<lparr>ref_state := r\<rparr>)"
  "sys_ok c maps s \<Longrightarrow> sys_ok c maps (s\<lparr>g_timer := t\<rparr>)"
  "sys_ok c maps s \<Longrightarrow> sys_ok c maps (s\<lparr>g_print_step := b\<rparr>)"
  "sys_ok c maps s \<Longrightarrow> sys_ok c maps (write_iringbuf l s)"
  by (auto simp: sys_ok_def iring_inv_def write_iringbuf_def IRINGBUF_SIZE_def)

lemma machine_ok_fields [simp]:
  "machine_ok c maps (m\<lparr>nemu_state := st\<rparr>) = machine_ok c maps m"
  "machine_ok c maps (m\<lparr>dt := f\<rparr>) = machine_ok c maps m"
  "machine_ok c maps (m\<lparr>g_nr_guest_inst := n\<rparr>) = machine_ok c maps m"
  "machine_ok c maps (m\<lparr>cpu := (cpu m)\<lparr>cpu_pc := p\<rparr>\<rparr>) = machine_ok c maps m"
  by (simp_all add: machine_ok_def)

lemma sys_ok_dev:
  assumes "sys_ok c maps s" "dev_ok maps d"
  shows "sys_ok c maps (s\<lparr>mach := (mach s)\<lparr>nemu_state := st, dev := d\<rparr>\<rparr>)"
    "sys_ok c maps (s\<lparr>mach := (mach s)\<lparr>dev := d\<rparr>\<rparr>)"
proof -
  have "machine_ok c maps ((mach s)\<lparr>nemu_state := st, dev := d\<rparr>)" "machine_ok c maps ((mach s)\<lparr>dev := d\<rparr>)"
    using assms by (simp_all add: sys_ok_def machine_ok_def)
  then show "sys_ok c maps (s\<lparr>mach := (mach s)\<lparr>nemu_state := st, dev := d\<rparr>\<rparr>)"
    "sys_ok c maps (s\<lparr>mach := (mach s)\<lparr>dev := d\<rparr>\<rparr>)"
    by (simp_all add: sys_ok_mach(1) [OF assms(1)])
qed

lemma difftest_step_ok:
  "sys_ok c maps s \<Longrightarrow> yields typed_error (sys_ok c maps) (difftest_step c R p npc s)"
  by (auto simp: difftest_step_def Let_def checkregs_def sys_ok_def iring_inv_def)

lemma exec_once_ok:
  assumes "regs_guarded c" "handlers_ok maps" "sys_ok c maps s"
  shows "yields typed_error (\<lambda>(de, s'). sys_ok c maps s') (exec_once c maps h p s)"
proof -
  have mid: "mid_ok c maps (mach s)" using assms(3) by (simp add: sys_ok_def machine_mid)
  show ?thesis
    unfolding exec_once_def Let_def
    by (rule yields_bind [OF isa_exec_once_typed [OF assms(1,2) mid]])
      (auto intro!: sys_ok_mach assms(3))
qed

lemma trace_and_difftest_ok:
  assumes "handlers_ok maps" "sys_ok c maps s"
  shows "yields typed_error (sys_ok c maps) (trace_and_difftest c maps R de dn s)"
proof -
  have w: "yields typed_error (sys_ok c maps) (ebind (check_watchpoints c maps (wps s1) (mach s1)) (\<lambda>(triggered, w, m).
      Inr (s1\<lparr>wps := w, mach := (if triggered then m\<lparr>nemu_state := (nemu_state m)\<lparr>state := NEMU_STOP\<rparr>\<rparr> else m)\<rparr>)))"
    if "sys_ok c maps s1" for s1
    by (rule yields_bind [OF check_watchpoints_ok [OF assms(1) that]])
      (use that in \<open>auto simp: sys_ok_def iring_inv_def, blast+\<close>)
  show ?thesis
    unfolding trace_and_difftest_def
    by (rule yields_bind [of _ "sys_ok c maps"]) (auto simp: assms(2) intro: difftest_step_ok w)
qed

lemma key_enqueue_dev_ok:
  "key_inv d \<Longrightarrow> yields guarded (\<lambda>d'. p_space d' = p_space d \<and> key_inv d') (key_enqueue k d)"
  by (simp add: key_enqueue_def Let_def echeck_def key_inv_def KEY_QUEUE_LEN_def)

lemma poll_events_ok:
  "dev_ok maps (snd s) \<Longrightarrow> yields typed_error (\<lambda>(st, d). dev_ok maps d) (poll_events dc evs s)"
proof (induction evs arbitrary: s)
  case (Cons e evs)
  have k: "key_inv (snd s)" using Cons.prems by (simp add: dev_ok_def)
  have "yields guarded (dev_ok maps) (send_key (fst s) key down (snd s))" for key down
    using Cons.prems yields_weaken [OF key_enqueue_dev_ok [OF k]] dev_ok_same [OF Cons.prems]
    by (simp add: send_key_def)
  then have "yields typed_error (dev_ok maps) (send_key (fst s) key down (snd s))" for key down
    by (rule yields_guarded)
  then show ?case
    using Cons by (auto intro!: yields_bind split: sdl_event.split)
qed (simp add: case_prod_beta)

lemma vga_update_ok: "dev_ok maps (vga_update_screen dc d) = dev_ok maps d"
  by (rule dev_ok_cong) (simp_all add: vga_update_screen_def update_screen_def Let_def)

lemma sys_device_update_ok:
  assumes "sys_ok c maps s"
  shows "yields typed_error (sys_ok c maps) (sys_device_update dc h s)"
proof -
  obtain now d1 where t: "get_time (dev (mach s)) = (now, d1)" by (cases "get_time (dev (mach s))")
  have d: "dev_ok maps (dev (mach s))" using assms by (simp add: sys_ok_def machine_ok_def)
  then have d1: "dev_ok maps d1" "dev_ok maps (d1\<lparr>last_update := now\<rparr>)"
    using get_time_keeps [OF t] dev_ok_cong [of d1 "dev (mach s)"] dev_ok_cong [of "d1\<lparr>last_update := now\<rparr>" "dev (mach s)"]
    by simp_all
  have "yields typed_error (\<lambda>(st, d). dev_ok maps d)
      (device_update dc (sdl_events h (g_nr_guest_inst (mach s))) (nemu_state (mach s), dev (mach s)))"
    using d1 by (auto simp: device_update_def t Let_def vga_update_ok intro!: poll_events_ok)
  then show ?thesis
    unfolding sys_device_update_def
    by (rule yields_bind) (auto intro!: sys_ok_dev [OF assms])
qed

lemma execute_ok:
  assumes "regs_guarded c" "handlers_ok maps"
  shows "sys_ok c maps s \<Longrightarrow> yields typed_error (sys_ok c maps) (execute c dc maps h R n s)"
proof (induction n arbitrary: s)
  case (Suc n)
  have "yields typed_error (sys_ok c maps) (execute_body c maps h R s)"
    unfolding execute_body_def Let_def
    by (rule yields_bind [OF exec_once_ok [OF assms Suc.prems]])
      (auto intro!: trace_and_difftest_ok [OF assms(2)] sys_ok_mach(1), simp add: sys_ok_def)
  then show ?case
    unfolding execute.simps
    by (rule yields_bind) (auto intro!: yields_bind [OF sys_device_update_ok] Suc.IH)
qed simp

lemma sys_get_time_ok:
  assumes "sys_ok c maps s" "sys_get_time s = (t, s')"
  shows "sys_ok c maps s'"
proof -
  obtain d where t: "get_time (dev (mach s)) = (t, d)" "s' = s\<lparr>mach := (mach s)\<lparr>dev := d\<rparr>\<rparr>"
    using assms(2) by (auto simp: sys_get_time_def split: prod.splits)
  have "dev_ok maps (dev (mach s))" using assms(1) by (simp add: sys_ok_def machine_ok_def)
  then have "dev_ok maps d" using dev_ok_cong get_time_keeps [OF t(1)] by blast
  then show ?thesis unfolding t(2) by (rule sys_ok_dev(2) [OF assms(1)])
qed

lemma set_state_ok: "sys_ok c maps (set_state st s) = sys_ok c maps s"
  by (simp add: set_state_def sys_ok_def iring_inv_def)

text \<open>
  C5: a well-typed NEMU stays well-typed and never misuses its tables. From a state in which the
  register file has its size with register 0 zero, the device regions lie in the allocated I/O space,
  the keyboard queue is a ring, the watchpoint lists are acyclic and the trace ring is in range,
  in a configuration in which the run-time check of register numbers is compiled in whenever the file has only 16
  registers, running any number of instructions (with device updates, differential testing and
  watchpoints) either returns such a state, or fails with an error that is neither an access outside the register
  file nor a cyclic watchpoint list.
\<close>

theorem cpu_exec_well_typed:
  assumes "regs_guarded c" "handlers_ok maps" "sys_ok c maps s"
  shows "case cpu_exec c dc maps h R n s of
      Inr s' \<Rightarrow> sys_ok c maps s'
    | Inl e \<Rightarrow> e \<noteq> Undef ''register file'' \<and> e \<noteq> Undef ''cyclic list''"
proof -
  obtain t s1 where t: "sys_get_time (set_state NEMU_RUNNING (s\<lparr>g_print_step := n < MAX_INST_TO_PRINT\<rparr>)) = (t, s1)"
    by (cases "sys_get_time (set_state NEMU_RUNNING (s\<lparr>g_print_step := n < MAX_INST_TO_PRINT\<rparr>))")
  have s1: "sys_ok c maps s1"
    by (rule sys_get_time_ok [OF _ t]) (simp add: set_state_ok sys_ok_mach assms(3))
  have fin: "sys_ok c maps (case sys_get_time s2 of (te, s3) \<Rightarrow> finish_run (s3\<lparr>g_timer := g_timer s3 + (te - t)\<rparr>))"
    if "sys_ok c maps s2" for s2
    using sys_get_time_ok [OF that]
    by (auto simp: finish_run_def set_state_ok sys_ok_mach split: prod.splits)
  have "yields typed_error (sys_ok c maps) (ebind (execute c dc maps h R (unat n) s1) (\<lambda>s2.
      case sys_get_time s2 of (te, s3) \<Rightarrow> Inr (finish_run (s3\<lparr>g_timer := g_timer s3 + (te - t)\<rparr>))))"
    by (rule yields_bind [OF execute_ok [OF assms(1,2) s1]]) (use fin in \<open>simp add: case_prod_beta\<close>)
  then have "yields typed_error (sys_ok c maps) (cpu_exec c dc maps h R n s)"
    by (simp add: cpu_exec_def Let_def t sys_ok_mach assms(3))
  then show ?thesis by (simp add: yields_def typed_error_def split: sum.splits)
qed

text \<open>Booting gives a well-typed system.\<close>

definition maps_handled :: "dev_maps \<times> dev_state \<Rightarrow> bool" where
  "maps_handled s \<longleftrightarrow> handlers_ok (mmio_maps (fst s)) \<and> key_inv (snd s)"

lemma add_map_handled:
  assumes "handlers_ok (mmio_maps ms)" "case cb of None \<Rightarrow> True | Some f \<Rightarrow> f \<in> dev_handlers"
  shows "add_map c dc nm port a sp len cb ms = Inr ms' \<Longrightarrow> handlers_ok (mmio_maps ms')"
    "add_mmio c nm a sp len cb ms = Inr ms' \<Longrightarrow> handlers_ok (mmio_maps ms')"
  using assms
  by (auto simp: add_map_def add_mmio_def handlers_ok_def dest!: add_mmio_map_eq(1) split: if_splits option.splits)

lemma new_space_key_inv: "new_space n d = Inr (p, d') \<Longrightarrow> key_inv d' = key_inv d"
  by (auto simp: new_space_def Let_def key_inv_def)

lemma key_inv_bases [simp]:
  "key_inv (d\<lparr>serial_base := p\<rparr>) = key_inv d" "key_inv (d\<lparr>rtc_port_base := p\<rparr>) = key_inv d"
  "key_inv (d\<lparr>vgactl_port_base := p\<rparr>) = key_inv d" "key_inv (d\<lparr>vmem := p\<rparr>) = key_inv d"
  "key_inv (d\<lparr>i8042_data_port_base := p\<rparr>) = key_inv d" "key_inv (d\<lparr>audio_base := p\<rparr>) = key_inv d"
  "key_inv (d\<lparr>sbuf := p\<rparr>) = key_inv d" "key_inv (d\<lparr>sd_base := p\<rparr>) = key_inv d"
  "key_inv (d\<lparr>audio_head := ah\<rparr>) = key_inv d" "key_inv (d\<lparr>keymap := km\<rparr>) = key_inv d"
  "key_inv (d\<lparr>p_space := p\<rparr>) = key_inv d"
  by (simp_all add: key_inv_def)

lemmas handled_simps = maps_handled_def init_serial_def init_timer_def init_vga_def init_i8042_def init_audio_def
  init_sdcard_def Let_def init_keymap_def io_memset0_def dev_handlers_def

lemma init_device_handled:
  assumes "init_device c dc fresh scancode sdimg d = Inr (hs, s')" "key_inv d"
  shows "maps_handled s'"
  by (rule init_device_keeps [OF assms(1), of maps_handled])
    (use assms(2) in \<open>auto simp: handled_simps init_map_def handlers_ok_def [of "[]"]
      dest!: new_space_key_inv add_map_handled [rotated 2] split: if_splits\<close>)

lemma boot_well_typed:
  assumes "init_device c dc fresh scancode sdimg (dev_zero clk sdimg) = Inr (hs, ms, d)" "0 < sint (SB_SIZE dc)"
    and "init_isa c ((machine_zero c)\<lparr>dev := d\<rparr>) = Inr m"
  shows "handlers_ok (mmio_maps ms)"
    "sys_ok c (mmio_maps ms) \<lparr>mach = m, wps = init_wp_pool, iringbuf = replicate 16 [], iringbuf_index = 0,
       g_timer = 0, g_print_step = False, ref_state = r\<rparr>"
proof -
  have "key_inv (dev_zero clk sdimg)" by (simp add: key_inv_def dev_zero_def KEY_QUEUE_LEN_def)
  then have h: "handlers_ok (mmio_maps ms)" "key_inv d"
    using init_device_handled [OF assms(1)] by (auto simp: maps_handled_def)
  then have d: "dev_ok (mmio_maps ms) d"
    using init_device_dev_inv [OF assms(1,2)] by (simp add: dev_inv_def dev_ok_def)
  have "machine_ok c (mmio_maps ms) m"
    using assms(3) d by (auto simp: init_isa_def restart_def machine_ok_def machine_zero_def cpu_zero_def nr_gpr_def)
  then show "sys_ok c (mmio_maps ms) \<lparr>mach = m, wps = init_wp_pool, iringbuf = replicate 16 [], iringbuf_index = 0,
       g_timer = 0, g_print_step = False, ref_state = r\<rparr>"
    using init_wp_pool_inv by (auto simp: sys_ok_def iring_inv_def IRINGBUF_SIZE_def)
  show "handlers_ok (mmio_maps ms)" by (rule h)
qed

theorem cpu_exec_well_typed_witness:
  "\<exists>hs ms d m. init_device quiet_config default_dev_config (\<lambda>_. 0) (\<lambda>_. 0) None (dev_zero (\<lambda>_. 0) None)
      = Inr (hs, ms, d) \<and>
    init_isa quiet_config ((machine_zero quiet_config)\<lparr>dev := d\<rparr>) = Inr m \<and>
    (case cpu_exec quiet_config default_dev_config (mmio_maps ms)
        \<lparr>disassemble = (\<lambda>_ _. []), sdl_events = (\<lambda>_. [])\<rparr>
        \<lparr>ref_difftest_regcpy_to_dut = id, ref_difftest_regcpy_to_ref = (\<lambda>c r. c),
         ref_difftest_memcpy_to_ref = (\<lambda>_ _ r. r), ref_difftest_exec = (\<lambda>_ r. r), ref_difftest_init = (\<lambda>_ r. r)\<rparr> 100
        \<lparr>mach = m, wps = init_wp_pool, iringbuf = replicate 16 [], iringbuf_index = 0, g_timer = 0,
         g_print_step = False, ref_state = cpu_zero quiet_config\<rparr> of
      Inr s' \<Rightarrow> sys_ok quiet_config (mmio_maps ms) s'
    | Inl e \<Rightarrow> e \<noteq> Undef ''register file'' \<and> e \<noteq> Undef ''cyclic list'')"
proof -
  obtain hs ms d where d: "init_device quiet_config default_dev_config (\<lambda>_. 0) (\<lambda>_. 0) None (dev_zero (\<lambda>_. 0) None)
      = Inr (hs, ms, d)"
    using init_device_default by (metis surj_pair)
  obtain m where m: "init_isa quiet_config ((machine_zero quiet_config)\<lparr>dev := d\<rparr>) = Inr m"
    by (simp add: init_isa_def guest_to_host_def RESET_VECTOR_def quiet_config_def in_pmem_def img_bytes_eq)
  have "0 < sint (SB_SIZE default_dev_config)" by (simp add: default_dev_config_def)
  note boot = boot_well_typed [OF d this m]
  have g: "regs_guarded quiet_config" by (simp add: regs_guarded_def quiet_config_def)
  show ?thesis by (intro exI conjI, rule d, rule m, rule cpu_exec_well_typed [OF g boot])
qed

end
