(* ===== verification/Trap_Nemu.thy ===== *)
theory Trap_Nemu
  imports Cpu_Exec Am_Riscv_Cte
begin

text \<open>
  The trap entry and exit of the abstract machine run by NEMU. \<^theory_text>\<open>Am_Riscv_Cte\<close> describes \<^verbatim>\<open>trap.S\<close> by what it does
  to the registers and to a store of words; here \<^verbatim>\<open>trap.S\<close> is the list of its instructions, encoded and placed in guest
  memory, and NEMU's interpreter fetches and executes them one by one. The theorems show that this run implements
  the description.
\<close>

section \<open>The instructions of trap.S\<close>

datatype csr = MSTATUS | MEPC | MCAUSE

datatype asm =
    ADDI nat nat u32
  | SW nat u32 nat
  | LW nat u32 nat
  | CSRR nat csr
  | CSRW csr nat
  | LUI nat u32
  | ORR nat nat nat
  | MRET

definition csr_no :: "csr \<Rightarrow> u32" where
  "csr_no k = (case k of MSTATUS \<Rightarrow> 0x300 | MEPC \<Rightarrow> 0x341 | MCAUSE \<Rightarrow> 0x342)"

text \<open>The encodings of the I and S formats; the rest is built from them.\<close>

definition enc_I :: "u32 \<Rightarrow> u32 \<Rightarrow> nat \<Rightarrow> nat \<Rightarrow> u32 \<Rightarrow> u32" where
  "enc_I op f3 rd rs1 imm =
    push_bit 20 imm OR push_bit 15 (of_nat rs1) OR push_bit 12 f3 OR push_bit 7 (of_nat rd) OR op"

definition enc_S :: "u32 \<Rightarrow> u32 \<Rightarrow> nat \<Rightarrow> nat \<Rightarrow> u32 \<Rightarrow> u32" where
  "enc_S op f3 rs2 rs1 imm =
    push_bit 25 (drop_bit 5 imm) OR push_bit 20 (of_nat rs2) OR push_bit 15 (of_nat rs1) OR push_bit 12 f3 OR
    push_bit 7 (imm AND 0x1f) OR op"

fun encode :: "asm \<Rightarrow> u32" where
  "encode (ADDI rd rs imm) = enc_I 0x13 0 rd rs imm"
| "encode (SW rs2 imm rs1) = enc_S 0x23 2 rs2 rs1 imm"
| "encode (LW rd imm rs1) = enc_I 0x03 2 rd rs1 imm"
| "encode (CSRR rd k) = enc_I 0x73 2 rd 0 (csr_no k)"
| "encode (CSRW k rs) = enc_I 0x73 1 0 rs (csr_no k)"
| "encode (LUI rd imm) = push_bit 12 imm OR push_bit 7 (of_nat rd) OR 0x37"
| "encode (ORR rd rs1 rs2) = enc_I 0x33 6 rd rs1 (of_nat rs2)"
| "encode MRET = 0x30200073"

definition trap_save_code :: "cte \<Rightarrow> asm list" where
  "trap_save_code P =
    [ADDI 2 2 (- (4 * of_nat (cte_words P)))] @
    map (\<lambda>n. SW n (4 * of_nat n) 2) (REGS (cte_nr P)) @
    [CSRR 5 MCAUSE, CSRR 6 MSTATUS, CSRR 7 MEPC,
     SW 5 (4 * of_nat (cte_nr P)) 2, SW 6 (4 * of_nat (cte_nr P + 1)) 2, SW 7 (4 * of_nat (cte_nr P + 2)) 2] @
    (if cte_mprv P then [LUI 10 0x20, ORR 6 6 10, CSRW MSTATUS 6] else []) @
    [ADDI 10 2 0]"

definition trap_restore_code :: "cte \<Rightarrow> asm list" where
  "trap_restore_code P =
    [ADDI 2 10 0, LW 6 (4 * of_nat (cte_nr P + 1)) 2, LW 7 (4 * of_nat (cte_nr P + 2)) 2,
     CSRW MSTATUS 6, CSRW MEPC 7] @
    map (\<lambda>n. LW n (4 * of_nat n) 2) (REGS (cte_nr P)) @
    [ADDI 2 2 (4 * of_nat (cte_words P)), MRET]"

section \<open>Their meaning on words\<close>

definition csr_get :: "csr \<Rightarrow> cpu_state \<Rightarrow> u32" where
  "csr_get k cp = (case k of MSTATUS \<Rightarrow> mstatus cp | MEPC \<Rightarrow> mepc cp | MCAUSE \<Rightarrow> mcause cp)"

definition csr_set :: "csr \<Rightarrow> u32 \<Rightarrow> cpu_state \<Rightarrow> cpu_state" where
  "csr_set k v cp = (case k of MSTATUS \<Rightarrow> cp\<lparr>mstatus := v\<rparr> | MEPC \<Rightarrow> cp\<lparr>mepc := v\<rparr> | MCAUSE \<Rightarrow> cp\<lparr>mcause := v\<rparr>)"

abbreviation wr :: "nat \<Rightarrow> u32 \<Rightarrow> cpu_state \<Rightarrow> cpu_state" where
  "wr rd v cp \<equiv> cp\<lparr>gpr := (gpr cp)[rd := v, 0 := 0]\<rparr>"

abbreviation next_pc :: "cpu_state \<Rightarrow> cpu_state" where
  "next_pc cp \<equiv> cp\<lparr>cpu_pc := cpu_pc cp + 4\<rparr>"

fun asm_sem :: "asm \<Rightarrow> cpu_state \<times> wmem \<Rightarrow> cpu_state \<times> wmem" where
  "asm_sem (ADDI rd rs imm) (cp, M) = (next_pc (wr rd (gpr cp ! rs + imm) cp), M)"
| "asm_sem (SW rs2 imm rs1) (cp, M) = (next_pc (wr 0 0 cp), M(gpr cp ! rs1 + imm := gpr cp ! rs2))"
| "asm_sem (LW rd imm rs1) (cp, M) = (next_pc (wr rd (M (gpr cp ! rs1 + imm)) cp), M)"
| "asm_sem (CSRR rd k) (cp, M) = (next_pc (wr rd (csr_get k cp) cp), M)"
| "asm_sem (CSRW k rs) (cp, M) = (next_pc (wr 0 0 (csr_set k (gpr cp ! rs) cp)), M)"
| "asm_sem (LUI rd imm) (cp, M) = (next_pc (wr rd (push_bit 12 imm) cp), M)"
| "asm_sem (ORR rd rs1 rs2) (cp, M) = (next_pc (wr rd (gpr cp ! rs1 OR gpr cp ! rs2) cp), M)"
| "asm_sem MRET (cp, M) = ((wr 0 0 cp)\<lparr>cpu_pc := mepc cp\<rparr>, M)"

text \<open>The registers an instruction names, and the address it accesses.\<close>

fun asm_regs :: "asm \<Rightarrow> nat list" where
  "asm_regs (ADDI rd rs imm) = [rd, rs]"
| "asm_regs (SW rs2 imm rs1) = [rs2, rs1]"
| "asm_regs (LW rd imm rs1) = [rd, rs1]"
| "asm_regs (CSRR rd k) = [rd]"
| "asm_regs (CSRW k rs) = [rs]"
| "asm_regs (LUI rd imm) = [rd]"
| "asm_regs (ORR rd rs1 rs2) = [rd, rs1, rs2]"
| "asm_regs MRET = []"

fun asm_addr :: "asm \<Rightarrow> cpu_state \<Rightarrow> u32 list" where
  "asm_addr (SW rs2 imm rs1) cp = [gpr cp ! rs1 + imm]"
| "asm_addr (LW rd imm rs1) cp = [gpr cp ! rs1 + imm]"
| "asm_addr i cp = []"

text \<open>NEMU's decoder finds the instruction, its registers and its immediate in the encoded word.\<close>

definition fields :: "u32 \<Rightarrow> nat \<times> nat \<times> nat" where
  "fields w = (unat (BITS (ucast w) 11 7), unat (BITS (ucast w) 19 15), unat (BITS (ucast w) 24 20))"

fun enc_ok :: "asm \<Rightarrow> bool" where
  "enc_ok (ADDI rd rs imm) = (let w = encode (ADDI rd rs imm) in
     rv32_decode w = (I_addi, TYPE_I) \<and> fst (fields w) = rd \<and> fst (snd (fields w)) = rs \<and> immI w = imm)"
| "enc_ok (SW rs2 imm rs1) = (let w = encode (SW rs2 imm rs1) in
     rv32_decode w = (I_sw, TYPE_S) \<and> snd (fields w) = (rs1, rs2) \<and> immS w = imm)"
| "enc_ok (LW rd imm rs1) = (let w = encode (LW rd imm rs1) in
     rv32_decode w = (I_lw, TYPE_I) \<and> fst (fields w) = rd \<and> fst (snd (fields w)) = rs1 \<and> immI w = imm)"
| "enc_ok (CSRR rd k) = (let w = encode (CSRR rd k) in
     rv32_decode w = (I_csrrs, TYPE_I) \<and> fst (fields w) = rd \<and> fst (snd (fields w)) = 0 \<and>
     ucast (BITS (ucast w) 31 20) = csr_no k)"
| "enc_ok (CSRW k rs) = (let w = encode (CSRW k rs) in
     rv32_decode w = (I_csrrw, TYPE_I) \<and> fst (fields w) = 0 \<and> fst (snd (fields w)) = rs \<and>
     ucast (BITS (ucast w) 31 20) = csr_no k)"
| "enc_ok (LUI rd imm) = (let w = encode (LUI rd imm) in
     rv32_decode w = (I_lui, TYPE_U) \<and> fst (fields w) = rd \<and> immU w = push_bit 12 imm)"
| "enc_ok (ORR rd rs1 rs2) = (let w = encode (ORR rd rs1 rs2) in
     rv32_decode w = (I_or, TYPE_R) \<and> fields w = (rd, rs1, rs2))"
| "enc_ok MRET = (rv32_decode (encode MRET) = (I_mret, TYPE_N))"

lemmas enc_eval = trap_save_code_def trap_restore_code_def REGS_def nemu_cte_def npc_cte_def enc_I_def enc_S_def
  csr_no_def fields_def rv32_decode_def opcode_def funct3_def funct7_def immI_def immS_def immU_def
  BITS_def BITMASK_def SEXT_def

lemma frame_access_encoded:
  "list_all (\<lambda>n. enc_ok (SW n (4 * of_nat n) 2)) [0..<32]" "list_all (\<lambda>n. enc_ok (LW n (4 * of_nat n) 2)) [0..<32]"
  by (simp_all add: enc_eval Let_def upt_rec)

lemma reg_access_encoded:
  "n < 32 \<Longrightarrow> enc_ok (SW n (4 * of_nat n) 2)" "n < 32 \<Longrightarrow> enc_ok (LW n (4 * of_nat n) 2)"
  using frame_access_encoded by (simp_all only: list_all_iff set_upt atLeastLessThan_iff zero_le simp_thms)

text \<open>The platforms: NEMU and NPC, with 32 or 16 registers.\<close>

definition is_platform :: "cte \<Rightarrow> bool" where
  "is_platform P \<longleftrightarrow> P \<in> {nemu_cte True, nemu_cte False, npc_cte True, npc_cte False}"

lemma platform_ok: "is_platform P \<Longrightarrow> cte_ok P"
  using cte_ok_platforms by (auto simp: is_platform_def)

lemma regs_encoded:
  "cte_ok P \<Longrightarrow> list_all enc_ok (map (\<lambda>n. SW n (4 * of_nat n) 2) (REGS (cte_nr P)))"
  "cte_ok P \<Longrightarrow> list_all enc_ok (map (\<lambda>n. LW n (4 * of_nat n) 2) (REGS (cte_nr P)))"
  by (auto simp: list_all_iff set_REGS cte_ok_def simp del: enc_ok.simps intro!: reg_access_encoded)

lemma trap_code_encoded:
  assumes "is_platform P"
  shows "list_all enc_ok (trap_save_code P)" "list_all enc_ok (trap_restore_code P)"
proof -
  note rs = regs_encoded [OF platform_ok [OF assms]]
  have misc: "list_all enc_ok [CSRR 5 MCAUSE, CSRR 6 MSTATUS, CSRR 7 MEPC, LUI 10 0x20, ORR 6 6 10, CSRW MSTATUS 6,
      CSRW MEPC 7, ADDI 10 2 0, ADDI 2 10 0, MRET]"
    by (simp add: enc_eval Let_def)
  have off: "list_all enc_ok [ADDI 2 2 (- (4 * of_nat (cte_words P))), ADDI 2 2 (4 * of_nat (cte_words P)),
      SW 5 (4 * of_nat (cte_nr P)) 2, SW 6 (4 * of_nat (cte_nr P + 1)) 2, SW 7 (4 * of_nat (cte_nr P + 2)) 2,
      LW 6 (4 * of_nat (cte_nr P + 1)) 2, LW 7 (4 * of_nat (cte_nr P + 2)) 2]"
    using assms unfolding is_platform_def by (elim insertE emptyE; simp add: enc_eval Let_def)
  show "list_all enc_ok (trap_save_code P)" "list_all enc_ok (trap_restore_code P)"
    using rs misc off by (simp_all add: trap_save_code_def trap_restore_code_def del: enc_ok.simps)
qed

section \<open>One instruction\<close>

text \<open>The aligned words of the main memory, and a store of words that agrees with it.\<close>

definition pm_words :: "nemu_config \<Rightarrow> u32 set" where
  "pm_words c = {a. in_pmem c a \<and> mem_acc c a 4 \<and> 4 dvd unat (a - CONFIG_MBASE c)}"

definition words_view :: "nemu_config \<Rightarrow> wmem \<Rightarrow> mem_state \<Rightarrow> bool" where
  "words_view c M mm \<longleftrightarrow> (\<forall>a \<in> pm_words c. pmem_read c a 4 mm = Inr (M a))"

lemma pm_words_disj:
  assumes "a \<in> pm_words c" "b \<in> pm_words c" "a \<noteq> b"
  shows "mem_disj c a 4 b 4"
proof -
  let ?x = "unat (a - CONFIG_MBASE c)" and ?y = "unat (b - CONFIG_MBASE c)"
  have ar: "area_of c a = Some Pmem" "area_of c b = Some Pmem" using assms by (auto simp: pm_words_def area_of_def)
  have "?x \<noteq> ?y" using assms(3) by (simp add: word_unat_eq_iff [symmetric])
  moreover obtain k l where "?x = 4 * k" "?y = 4 * l" using assms(1,2) by (auto simp: pm_words_def elim!: dvdE)
  ultimately have "?x + 4 \<le> ?y \<or> ?y + 4 \<le> ?x" by presburger
  then show ?thesis using ar by (simp add: mem_disj_def)
qed

lemma words_view_write:
  assumes "words_view c M mm" "a \<in> pm_words c"
  obtains mm' where "pmem_write c a 4 v mm = Inr mm'" "words_view c (M(a := v)) mm'"
proof -
  have acc: "mem_acc c b 4" if "b \<in> pm_words c" for b using that by (simp add: pm_words_def)
  obtain mm' where w: "pmem_write c a 4 v mm = Inr mm'" using pm.wr_ok [OF acc [OF assms(2)]] by blast
  have "pmem_read c b 4 mm' = Inr ((M(a := v)) b)" if b: "b \<in> pm_words c" for b
  proof (cases "b = a")
    case True
    then show ?thesis using pm.rd_wr_same [OF acc [OF assms(2)] w] by (simp add: take_bit_word_eq_self)
  next
    case False
    then show ?thesis
      using pm.rd_wr_other [OF acc [OF assms(2)] acc [OF b] pm_words_disj [OF assms(2) b] w] assms(1) b
      by (simp add: words_view_def)
  qed
  then show thesis using that w by (simp add: words_view_def)
qed

text \<open>The machine's part of \<^verbatim>\<open>exec_once\<close>, repeated.\<close>

definition nemu_step :: "nemu_config \<Rightarrow> IOMap list \<Rightarrow> machine \<Rightarrow> machine res" where
  "nemu_step c maps m =
    (let p = cpu_pc (cpu m) in
     ebind (isa_exec_once c maps (\<lparr>pc = p, snpc = p, dnpc = p, inst = 0\<rparr>, m)) (\<lambda>(de, m1).
       Inr (m1\<lparr>cpu := (cpu m1)\<lparr>cpu_pc := dnpc de\<rparr>\<rparr>)))"

primrec nemu_steps :: "nemu_config \<Rightarrow> IOMap list \<Rightarrow> nat \<Rightarrow> machine \<Rightarrow> machine res" where
  "nemu_steps c maps 0 m = Inr m"
| "nemu_steps c maps (Suc n) m = ebind (nemu_step c maps m) (nemu_steps c maps n)"

lemma nemu_step_fetch:
  assumes "words_view c M (mem m)" "cpu_pc (cpu m) \<in> pm_words c" "M (cpu_pc (cpu m)) = w"
  shows "nemu_step c maps m =
    (let p = cpu_pc (cpu m) in
     ebind (decode_exec c maps (\<lparr>pc = p, snpc = p + 4, dnpc = p, inst = w\<rparr>, m)) (\<lambda>(de, m1).
       Inr (m1\<lparr>cpu := (cpu m1)\<lparr>cpu_pc := dnpc de\<rparr>\<rparr>)))"
  using assms step_fetched [of c "cpu_pc (cpu m)" m w maps]
  by (simp add: nemu_step_def words_view_def pm_words_def)

lemma pm_words_ram: "a \<in> pm_words c \<Longrightarrow> in_pmem c a \<and> ram_acc c a 4"
  by (simp add: pm_words_def ram_acc_def)

lemmas step_eval = decode_exec_unfold decode_operand_def Let_def fields_def exec_inst_def alu_def branch_def
  load_conv_def store_len_def exec_system_def csr_switch_def

lemma nemu_step_sim:
  assumes "enc_ok i" "\<forall>r \<in> set (asm_regs i). r < nr_gpr c"
    and "words_view c M (mem m)" "cpu_pc (cpu m) \<in> pm_words c" "M (cpu_pc (cpu m)) = encode i"
    and "\<forall>a \<in> set (asm_addr i (cpu m)). a \<in> pm_words c" "gpr (cpu m) ! 0 = 0"
  shows "\<exists>mm. nemu_step c maps m = Inr (m\<lparr>cpu := fst (asm_sem i (cpu m, M)), mem := mm\<rparr>) \<and>
    words_view c (snd (asm_sem i (cpu m, M))) mm"
proof -
  have get: "get_gpr c r m = Inr (gpr (cpu m) ! r)" if "r < nr_gpr c" for r
    using that by (simp add: get_gpr_eq)
  have set: "set_gpr c r v m' = Inr (m'\<lparr>cpu := (cpu m')\<lparr>gpr := (gpr (cpu m'))[r := v]\<rparr>\<rparr>)" if "r < nr_gpr c" for r v m'
    using that by (simp add: set_gpr_eq)
  have z: "0 < nr_gpr c" by (simp add: nr_gpr_def)
  note fetch = nemu_step_fetch [OF assms(3-5), of maps]
  show ?thesis
  proof (cases i)
    case (SW rs2 imm rs1)
    then have a: "gpr (cpu m) ! rs1 + imm \<in> pm_words c" using assms(6) by simp
    obtain mm' where w: "pmem_write c (gpr (cpu m) ! rs1 + imm) 4 (gpr (cpu m) ! rs2) (mem m) = Inr mm'"
      "words_view c (M(gpr (cpu m) ! rs1 + imm := gpr (cpu m) ! rs2)) mm'"
      using words_view_write [OF assms(3) a] by blast
    then show ?thesis
      using assms(1,2) get set z pm_words_ram [OF a] unfolding fetch SW
      by (auto simp: step_eval vaddr_write_def paddr_write_def intro!: exI [of _ mm'])
  next
    case (LW rd imm rs1)
    then have a: "gpr (cpu m) ! rs1 + imm \<in> pm_words c" using assms(6) by simp
    then have r: "pmem_read c (gpr (cpu m) ! rs1 + imm) 4 (mem m) = Inr (M (gpr (cpu m) ! rs1 + imm))"
      using assms(3) by (simp add: words_view_def)
    then show ?thesis
      using assms(1,2,3) get set z pm_words_ram [OF a] unfolding fetch LW
      by (auto simp: step_eval vaddr_read_def paddr_read_def intro!: exI [of _ "mem m"])
  next
    case (CSRR rd k)
    then show ?thesis
      using assms(1,2,3,7) get set z unfolding fetch CSRR
      by (cases k) (auto simp: step_eval csr_no_def csr_get_def intro!: exI [of _ "mem m"])
  next
    case (CSRW k rs)
    then show ?thesis
      using assms(1,2,3) get set z unfolding fetch CSRW
      by (cases k) (auto simp: step_eval csr_no_def csr_set_def intro!: exI [of _ "mem m"])
  qed (use assms(1,2,3) get set z in \<open>auto simp: fetch step_eval intro!: exI [of _ "mem m"]\<close>)
qed

section \<open>Straight-line code\<close>

text \<open>What has to hold along a run: the next word is the encoded instruction, and accesses are to words of memory.\<close>

primrec run_ok :: "nemu_config \<Rightarrow> asm list \<Rightarrow> cpu_state \<times> wmem \<Rightarrow> bool" where
  "run_ok c [] s \<longleftrightarrow> True"
| "run_ok c (i # xs) s \<longleftrightarrow> cpu_pc (fst s) \<in> pm_words c \<and> snd s (cpu_pc (fst s)) = encode i \<and>
     (\<forall>a \<in> set (asm_addr i (fst s)). a \<in> pm_words c) \<and> run_ok c xs (asm_sem i s)"

lemma csr_set_gpr [simp]: "gpr (csr_set k v cp) = gpr cp" "cpu_pc (csr_set k v cp) = cpu_pc cp"
  by (cases k; simp add: csr_set_def)+

lemma asm_sem_keeps:
  "gpr (fst s) \<noteq> [] \<Longrightarrow> gpr (fst (asm_sem i s)) ! 0 = 0"
  "length (gpr (fst (asm_sem i s))) = length (gpr (fst s))"
  by (cases s; cases i; simp)+

lemma nemu_steps_sim:
  assumes "list_all enc_ok xs" "\<forall>i \<in> set xs. \<forall>r \<in> set (asm_regs i). r < nr_gpr c"
    and "words_view c M (mem m)" "run_ok c xs (cpu m, M)" "gpr (cpu m) ! 0 = 0" "gpr (cpu m) \<noteq> []"
  shows "\<exists>mm. nemu_steps c maps (length xs) m = Inr (m\<lparr>cpu := fst (fold asm_sem xs (cpu m, M)), mem := mm\<rparr>) \<and>
    words_view c (snd (fold asm_sem xs (cpu m, M))) mm"
  using assms
proof (induction xs arbitrary: m M)
  case Nil
  then show ?case by (auto intro!: exI [of _ "mem m"])
next
  case (Cons i xs)
  define s where "s = asm_sem i (cpu m, M)"
  obtain mm where step: "nemu_step c maps m = Inr (m\<lparr>cpu := fst s, mem := mm\<rparr>)" "words_view c (snd s) mm"
    using nemu_step_sim [of i c M m maps] Cons.prems by (auto simp: s_def)
  have "gpr (fst s) \<noteq> []" using asm_sem_keeps(2) [of i "(cpu m, M)"] Cons.prems(6) by (auto simp: s_def)
  moreover have "gpr (fst s) ! 0 = 0" using asm_sem_keeps(1) [of "(cpu m, M)" i] Cons.prems(6) by (simp add: s_def)
  ultimately show ?case
    using Cons.IH [of "snd s" "m\<lparr>cpu := fst s, mem := mm\<rparr>"] Cons.prems step by (auto simp: s_def)
qed

text \<open>Instructions of the handler between its stack adjustments: they access the frame and leave \<^verbatim>\<open>sp\<close> alone.\<close>

fun frame_instr :: "nat \<Rightarrow> asm \<Rightarrow> bool" where
  "frame_instr n (ADDI rd rs imm) = (rd \<noteq> 2)"
| "frame_instr n (SW rs2 imm rs1) = (rs1 = 2 \<and> (\<exists>k < n. imm = 4 * of_nat k))"
| "frame_instr n (LW rd imm rs1) = (rd \<noteq> 2 \<and> rs1 = 2 \<and> (\<exists>k < n. imm = 4 * of_nat k))"
| "frame_instr n (CSRR rd k) = (rd \<noteq> 2)"
| "frame_instr n (CSRW k rs) = True"
| "frame_instr n (LUI rd imm) = (rd \<noteq> 2)"
| "frame_instr n (ORR rd rs1 rs2) = (rd \<noteq> 2)"
| "frame_instr n MRET = False"

definition code_at :: "nemu_config \<Rightarrow> u32 set \<Rightarrow> asm list \<Rightarrow> u32 \<Rightarrow> wmem \<Rightarrow> bool" where
  "code_at c F xs p M \<longleftrightarrow> (\<forall>j < length xs. p + 4 * of_nat j \<in> pm_words c \<and> p + 4 * of_nat j \<notin> F \<and>
     M (p + 4 * of_nat j) = encode (xs ! j))"

lemma code_at_Cons:
  "code_at c F (i # xs) p M \<longleftrightarrow> p \<in> pm_words c \<and> p \<notin> F \<and> M p = encode i \<and> code_at c F xs (p + 4) M"
  unfolding code_at_def by (auto simp: less_Suc_eq_0_disj algebra_simps)

lemma code_at_append:
  "code_at c F (xs @ ys) p M \<longleftrightarrow> code_at c F xs p M \<and> code_at c F ys (p + 4 * of_nat (length xs)) M"
  by (induction xs arbitrary: p) (auto simp: code_at_Cons algebra_simps, simp add: code_at_def)

lemma code_at_cong: "(\<And>a. a \<notin> F \<Longrightarrow> M' a = M a) \<Longrightarrow> code_at c F xs p M \<Longrightarrow> code_at c F xs p M'"
  by (simp add: code_at_def)

lemma frame_instr_step:
  assumes "frame_instr n i" "F = slot sp ` {..<n}" "gpr cp ! 2 = sp" "s = asm_sem i (cp, M)"
  shows "set (asm_addr i cp) \<subseteq> F" "gpr (fst s) ! 2 = sp" "cpu_pc (fst s) = cpu_pc cp + 4"
    "a \<notin> F \<Longrightarrow> snd s a = M a"
  using assms by (cases i; auto simp: slot_def)+

lemma frame_run:
  assumes "list_all (frame_instr n) xs" "F = slot sp ` {..<n}" "F \<subseteq> pm_words c"
  shows "gpr cp ! 2 = sp \<Longrightarrow> code_at c F xs (cpu_pc cp) M \<Longrightarrow> s = fold asm_sem xs (cp, M) \<Longrightarrow>
    run_ok c xs (cp, M) \<and> gpr (fst s) ! 2 = sp \<and> cpu_pc (fst s) = cpu_pc cp + 4 * of_nat (length xs) \<and>
    (\<forall>a. a \<notin> F \<longrightarrow> snd s a = M a)"
  using assms(1)
proof (induction xs arbitrary: cp M)
  case (Cons i xs)
  have fi: "frame_instr n i" using Cons.prems(4) by simp
  obtain cp1 M1 where s1: "asm_sem i (cp, M) = (cp1, M1)" by (cases "asm_sem i (cp, M)")
  note st = frame_instr_step [OF fi assms(2) Cons.prems(1) s1 [symmetric], simplified]
  have code: "code_at c F xs (cpu_pc cp1) M1"
    using Cons.prems(2) st(3) by (auto simp: code_at_Cons intro: code_at_cong st(4))
  have "s = fold asm_sem xs (cp1, M1)" using Cons.prems(3) s1 by simp
  note ih = Cons.IH [OF st(2) code this]
  show ?case
    using ih Cons.prems st assms(3) s1 by (auto simp: code_at_Cons algebra_simps)
qed simp

section \<open>The handler on words\<close>

lemma zero_reg: "g ! 0 = 0 \<Longrightarrow> g[0 := 0] = g" for g :: "u32 list"
  by (metis list_update_id)

lemma asm_push:
  "gpr cp ! 0 = 0 \<Longrightarrow> fold asm_sem (map (\<lambda>n. SW n (4 * of_nat n) 2) rs) (cp, M) =
    (cp\<lparr>cpu_pc := cpu_pc cp + 4 * of_nat (length rs)\<rparr>, push_regs rs (gpr cp ! 2) (gpr cp) M)"
proof (induction rs arbitrary: cp M)
  case (Cons r rs)
  let ?cp = "cp\<lparr>cpu_pc := cpu_pc cp + 4\<rparr>"
  show ?case
    using Cons.IH [of ?cp] Cons.prems by (simp add: zero_reg push_regs_def slot_def algebra_simps)
qed (simp add: push_regs_def)

lemma asm_pop:
  "\<forall>r \<in> set rs. r \<noteq> 0 \<and> r \<noteq> 2 \<Longrightarrow> gpr cp ! 0 = 0 \<Longrightarrow>
   fold asm_sem (map (\<lambda>n. LW n (4 * of_nat n) 2) rs) (cp, M) =
    (cp\<lparr>gpr := pop_regs rs (gpr cp ! 2) M (gpr cp), cpu_pc := cpu_pc cp + 4 * of_nat (length rs)\<rparr>, M)"
proof (induction rs arbitrary: cp)
  case (Cons r rs)
  let ?v = "M (gpr cp ! 2 + 4 * of_nat r)"
  let ?cp = "cp\<lparr>gpr := (gpr cp)[r := ?v], cpu_pc := cpu_pc cp + 4\<rparr>"
  have "(gpr cp)[r := ?v, 0 := 0] = (gpr cp)[r := ?v]" using Cons.prems by (simp add: zero_reg)
  then show ?case
    using Cons.IH [of ?cp] Cons.prems by (simp add: pop_regs_def slot_def algebra_simps)
qed (simp add: pop_regs_def)

lemma save_code_sem:
  assumes "cte_ok P" "length (gpr cp) = cte_nr P" "gpr cp ! 0 = 0"
  shows "fold asm_sem (trap_save_code P) (cp, M) =
    (case asm_trap_save P (cp, M) of (cp', M') \<Rightarrow>
      (cp'\<lparr>cpu_pc := cpu_pc cp + 4 * of_nat (length (trap_save_code P))\<rparr>, M'))"
proof -
  define sp where "sp = gpr cp ! 2 - 4 * of_nat (cte_words P)"
  define k :: u32 where "k = 4 * of_nat (length (REGS (cte_nr P)))"
  define cp1 where "cp1 = cp\<lparr>gpr := (gpr cp)[2 := sp], cpu_pc := cpu_pc cp + 4\<rparr>"
  have nr: "cte_nr P = 16 \<or> cte_nr P = 32" using assms(1) by (simp add: cte_ok_def)
  then have len: "10 < length (gpr cp)" using assms(2) by auto
  have 1: "asm_sem (ADDI 2 2 (- (4 * of_nat (cte_words P)))) (cp, M) = (cp1, M)"
    using assms(3) by (simp add: zero_reg cp1_def sp_def)
  have 2: "fold asm_sem (map (\<lambda>n. SW n (4 * of_nat n) 2) (REGS (cte_nr P))) (cp1, M) =
      (cp1\<lparr>cpu_pc := cpu_pc cp + 4 + k\<rparr>, push_regs (REGS (cte_nr P)) sp ((gpr cp)[2 := sp]) M)"
    using asm_push [of cp1] len assms(3) by (simp add: cp1_def k_def)
  define tail where "tail = drop (Suc (length (REGS (cte_nr P)))) (trap_save_code P)"
  have split: "trap_save_code P = ADDI 2 2 (- (4 * of_nat (cte_words P))) #
      map (\<lambda>n. SW n (4 * of_nat n) 2) (REGS (cte_nr P)) @ tail"
    by (simp add: tail_def trap_save_code_def)
  have "fold asm_sem (trap_save_code P) (cp, M) =
      fold asm_sem tail (cp1\<lparr>cpu_pc := cpu_pc cp + 4 + k\<rparr>, push_regs (REGS (cte_nr P)) sp ((gpr cp)[2 := sp]) M)"
    by (simp add: split 1 2 del: asm_sem.simps)
  also have "\<dots> = (case asm_trap_save P (cp, M) of (cp', M') \<Rightarrow>
      (cp'\<lparr>cpu_pc := cpu_pc cp + 4 * of_nat (length (trap_save_code P))\<rparr>, M'))"
    using len assms(3) unfolding tail_def
    by (cases "cte_mprv P")
      (simp_all add: trap_save_code_def asm_trap_save_def Let_def sp_def [symmetric] cp1_def zero_reg csr_get_def csr_set_def
         slot_def k_def add_ac)
  finally show ?thesis .
qed

lemma restore_code_sem:
  assumes "cte_ok P" "length (gpr cp) = cte_nr P" "gpr cp ! 0 = 0"
  shows "fold asm_sem (trap_restore_code P) (cp, M) = (asm_trap_restore P (gpr cp ! 10) (cp, M), M)"
proof -
  define a where "a = gpr cp ! 10"
  have nr: "cte_nr P = 16 \<or> cte_nr P = 32" using assms(1) by (simp add: cte_ok_def)
  then have len: "10 < length (gpr cp)" using assms(2) by auto
  have rs: "\<forall>r \<in> set (REGS (cte_nr P)). r \<noteq> 0 \<and> r \<noteq> 2" using nr by (auto simp: set_REGS)
  have p0: "pop_regs (REGS (cte_nr P)) sp M g ! 0 = 0" if "g ! 0 = 0" "g \<noteq> []" for sp and g :: "u32 list"
    using that nr by (auto simp: pop_regs_nth set_REGS)
  have p2: "pop_regs (REGS (cte_nr P)) sp M g ! 2 = g ! 2" if "2 < length g" for sp g
    using that nr by (auto simp: pop_regs_nth set_REGS)
  have ne: "gpr cp \<noteq> []" "2 < length (gpr cp)" using len by auto
  show ?thesis
    using len ne assms(3)
    by (simp add: trap_restore_code_def a_def [symmetric] asm_pop [OF rs] zero_reg asm_trap_restore_def Let_def
        csr_set_def slot_def p0 p2 add_ac)
qed

section \<open>NEMU runs the handler\<close>

lemma frame_image: "cte_ok P \<Longrightarrow> frame P f = slot f ` {..<cte_nr P + 3}"
  by (simp add: frame_def)

lemma asm_regs_bound:
  assumes "cte_ok P"
  shows "\<forall>i \<in> set (trap_save_code P). \<forall>r \<in> set (asm_regs i). r < cte_nr P"
    "\<forall>i \<in> set (trap_restore_code P). \<forall>r \<in> set (asm_regs i). r < cte_nr P"
  using assms by (auto simp: trap_save_code_def trap_restore_code_def set_REGS cte_ok_def)

lemma frame_code:
  assumes "cte_ok P"
  shows "list_all (frame_instr (cte_nr P + 3)) (tl (trap_save_code P))"
    "list_all (frame_instr (cte_nr P + 3)) (butlast (butlast (tl (trap_restore_code P))))"
proof -
  have reg: "list_all (frame_instr (cte_nr P + 3)) (map (\<lambda>n. SW n (4 * of_nat n) 2) (REGS (cte_nr P)))"
    "list_all (frame_instr (cte_nr P + 3)) (map (\<lambda>n. LW n (4 * of_nat n) 2) (REGS (cte_nr P)))"
  proof -
    have "r < cte_nr P + 3 \<and> r \<noteq> 2" if "r \<in> set (REGS (cte_nr P))" for r
      using that assms by (auto simp: set_REGS cte_ok_def)
    then show "list_all (frame_instr (cte_nr P + 3)) (map (\<lambda>n. SW n (4 * of_nat n) 2) (REGS (cte_nr P)))"
      "list_all (frame_instr (cte_nr P + 3)) (map (\<lambda>n. LW n (4 * of_nat n) 2) (REGS (cte_nr P)))"
      unfolding list_all_iff by auto
  qed
  have ex: "\<exists>k < cte_nr P + 3. (4 * of_nat (cte_nr P + j) :: u32) = 4 * of_nat k" if "j < 3" for j
    using that by (intro exI [of _ "cte_nr P + j"]) simp
  show "list_all (frame_instr (cte_nr P + 3)) (tl (trap_save_code P))"
    using reg ex [of 0] ex [of 1] ex [of 2] by (simp add: trap_save_code_def)
  show "list_all (frame_instr (cte_nr P + 3)) (butlast (butlast (tl (trap_restore_code P))))"
    using reg ex [of 1] ex [of 2] by (simp add: trap_restore_code_def butlast_append)
qed

lemma save_run_ok:
  assumes "cte_ok P" "gpr cp ! 0 = 0" "2 < length (gpr cp)" "f = gpr cp ! 2 - 4 * of_nat (cte_words P)"
    and "frame P f \<subseteq> pm_words c" "code_at c (frame P f) (trap_save_code P) (cpu_pc cp) M"
  shows "run_ok c (trap_save_code P) (cp, M)"
proof -
  define i where "i = ADDI 2 2 (- (4 * of_nat (cte_words P)))"
  have code: "trap_save_code P = i # tl (trap_save_code P)" by (simp add: trap_save_code_def i_def)
  obtain cp1 where cp1: "asm_sem i (cp, M) = (cp1, M)" "gpr cp1 ! 2 = f" "cpu_pc cp1 = cpu_pc cp + 4"
    using assms(3,4) by (simp add: i_def)
  have at: "cpu_pc cp \<in> pm_words c" "M (cpu_pc cp) = encode i"
    "code_at c (frame P f) (tl (trap_save_code P)) (cpu_pc cp1) M"
    using assms(6) cp1(3) by (subst (asm) code; simp add: code_at_Cons)+
  have "run_ok c (tl (trap_save_code P)) (cp1, M)"
    using frame_run [OF frame_code(1) [OF assms(1)] frame_image [OF assms(1)] assms(5) cp1(2) at(3) refl] by blast
  then show ?thesis
    using at cp1(1) by (subst code) (simp add: i_def)
qed

lemma run_ok_append: "run_ok c (xs @ ys) s \<longleftrightarrow> run_ok c xs s \<and> run_ok c ys (fold asm_sem xs s)"
  by (induction xs arbitrary: s) simp_all

lemma restore_run_ok:
  assumes "cte_ok P" "2 < length (gpr cp)" "f = gpr cp ! 10"
    and "frame P f \<subseteq> pm_words c" "code_at c (frame P f) (trap_restore_code P) (cpu_pc cp) M"
  shows "run_ok c (trap_restore_code P) (cp, M)"
proof -
  define mid where "mid = butlast (butlast (tl (trap_restore_code P)))"
  define j where "j = ADDI 2 2 (4 * of_nat (cte_words P))"
  have code: "trap_restore_code P = ADDI 2 10 0 # mid @ [j, MRET]"
    by (simp add: mid_def trap_restore_code_def j_def butlast_append)
  obtain cp1 where cp1: "asm_sem (ADDI 2 10 0) (cp, M) = (cp1, M)" "gpr cp1 ! 2 = f" "cpu_pc cp1 = cpu_pc cp + 4"
    using assms(2,3) by simp
  obtain cp2 M2 where s2: "fold asm_sem mid (cp1, M) = (cp2, M2)" by (cases "fold asm_sem mid (cp1, M)")
  have at: "cpu_pc cp \<in> pm_words c" "M (cpu_pc cp) = encode (ADDI 2 10 0)" "code_at c (frame P f) mid (cpu_pc cp1) M"
    "code_at c (frame P f) [j, MRET] (cpu_pc cp1 + 4 * of_nat (length mid)) M"
    using assms(5) cp1(3) unfolding code code_at_Cons code_at_append by auto
  have mid: "run_ok c mid (cp1, M)" "cpu_pc cp2 = cpu_pc cp1 + 4 * of_nat (length mid)" "\<forall>a. a \<notin> frame P f \<longrightarrow> M2 a = M a"
    using frame_run [OF frame_code(2) [OF assms(1), folded mid_def] frame_image [OF assms(1)] assms(4) cp1(2) at(3) s2 [symmetric]]
    by auto
  have "code_at c (frame P f) [j, MRET] (cpu_pc cp2) M2"
    using at(4) mid(2,3) code_at_cong [of "frame P f" M2 M] by auto
  then have "run_ok c [j, MRET] (cp2, M2)" by (simp add: code_at_Cons j_def)
  then show ?thesis
    using at(1,2) mid(1) s2 cp1(1) by (simp add: code run_ok_append del: asm_sem.simps)
qed

text \<open>
  C15: NEMU running \<^verbatim>\<open>trap.S\<close> implements the trap entry and exit of the abstract machine. With the encoded
  handler in guest memory, apart from the frame, fetching, decoding and executing the instructions of the entry path one by one
  (with 32 or 16 registers, with the frame of either platform) leaves exactly the registers, status and words that
  the description of the entry gives and ends before the call of the kernel's handler; and executing the exit
  path with the context in \<^verbatim>\<open>a0\<close> leaves the described registers and continues at the saved program counter. All other
  words of memory and all devices are unchanged.
\<close>

theorem nemu_runs_trap_code:
  assumes "is_platform P" "nr_gpr c = cte_nr P" "length (gpr (cpu m)) = cte_nr P" "gpr (cpu m) ! 0 = 0"
    and "words_view c M (mem m)" "frame P f \<subseteq> pm_words c"
  shows "(f = gpr (cpu m) ! 2 - 4 * of_nat (cte_words P) \<and>
      code_at c (frame P f) (trap_save_code P) (cpu_pc (cpu m)) M \<longrightarrow>
      (\<exists>mm cp' M'. asm_trap_save P (cpu m, M) = (cp', M') \<and> words_view c M' mm \<and>
        nemu_steps c maps (length (trap_save_code P)) m =
          Inr (m\<lparr>cpu := cp'\<lparr>cpu_pc := cpu_pc (cpu m) + 4 * of_nat (length (trap_save_code P))\<rparr>, mem := mm\<rparr>))) \<and>
    (f = gpr (cpu m) ! 10 \<and> code_at c (frame P f) (trap_restore_code P) (cpu_pc (cpu m)) M \<longrightarrow>
      (\<exists>mm. words_view c M mm \<and>
        nemu_steps c maps (length (trap_restore_code P)) m =
          Inr (m\<lparr>cpu := asm_trap_restore P f (cpu m, M), mem := mm\<rparr>)))"
proof -
  note ok = platform_ok [OF assms(1)]
  have len: "2 < length (gpr (cpu m))" "gpr (cpu m) \<noteq> []" using ok assms(3) by (auto simp: cte_ok_def)
  note regs = asm_regs_bound [OF ok, folded assms(2)]
  note enc = trap_code_encoded [OF assms(1)]
  have save: "\<exists>mm cp' M'. asm_trap_save P (cpu m, M) = (cp', M') \<and> words_view c M' mm \<and>
        nemu_steps c maps (length (trap_save_code P)) m =
          Inr (m\<lparr>cpu := cp'\<lparr>cpu_pc := cpu_pc (cpu m) + 4 * of_nat (length (trap_save_code P))\<rparr>, mem := mm\<rparr>)"
    if h: "f = gpr (cpu m) ! 2 - 4 * of_nat (cte_words P)" "code_at c (frame P f) (trap_save_code P) (cpu_pc (cpu m)) M"
    using nemu_steps_sim [OF enc(1) regs(1) assms(5) save_run_ok [OF ok assms(4) len(1) h(1) assms(6) h(2)] assms(4) len(2), of maps]
    by (auto simp: save_code_sem [OF ok assms(3,4)] split: prod.splits)
  have rest: "\<exists>mm. words_view c M mm \<and> nemu_steps c maps (length (trap_restore_code P)) m =
          Inr (m\<lparr>cpu := asm_trap_restore P f (cpu m, M), mem := mm\<rparr>)"
    if h: "f = gpr (cpu m) ! 10" "code_at c (frame P f) (trap_restore_code P) (cpu_pc (cpu m)) M"
    using nemu_steps_sim [OF enc(2) regs(2) assms(5) restore_run_ok [OF ok len(1) h(1) assms(6) h(2)] assms(4) len(2), of maps]
    by (auto simp: restore_code_sem [OF ok assms(3,4)] h(1))
  show ?thesis using save rest by blast
qed

text \<open>Every store of words is the main memory of some machine.\<close>

definition mem_of_words :: "nemu_config \<Rightarrow> wmem \<Rightarrow> mem_state" where
  "mem_of_words c M = mem_zero\<lparr>pmem := (\<lambda>off. ucast (drop_bit (8 * (off mod 4)) (M (CONFIG_MBASE c + of_nat (off - off mod 4)))))\<rparr>"

lemma bytes_of_word:
  "ucast (ucast w :: u8) OR push_bit 8 (ucast (ucast (drop_bit 8 w) :: u8) OR
     push_bit 8 (ucast (ucast (drop_bit 16 w) :: u8) OR push_bit 8 (ucast (ucast (drop_bit 24 w) :: u8)))) = (w :: u32)"
proof (rule bit_word_eqI)
  fix n :: nat
  assume n: "n < LENGTH(32)"
  have "n < 8 \<or> 8 \<le> n \<and> n < 16 \<or> 16 \<le> n \<and> n < 24 \<or> 24 \<le> n \<and> n < 32" using n by auto
  then show "bit (ucast (ucast w :: u8) OR push_bit 8 (ucast (ucast (drop_bit 8 w) :: u8) OR
     push_bit 8 (ucast (ucast (drop_bit 16 w) :: u8) OR push_bit 8 (ucast (ucast (drop_bit 24 w) :: u8)))) :: u32) n = bit w n"
    by (elim disjE) (auto simp: bit_or_iff bit_push_bit_iff bit_unsigned_iff bit_drop_bit_eq)
qed

lemma words_view_mem_of_words: "words_view c M (mem_of_words c M)"
  unfolding words_view_def
proof
  fix a assume a: "a \<in> pm_words c"
  define off where "off = unat (a - CONFIG_MBASE c)"
  have "4 dvd off" using a by (simp add: pm_words_def off_def)
  then obtain k where k: "off = 4 * k" by blast
  have undo: "CONFIG_MBASE c + of_nat off = a" by (simp add: off_def)
  have "off + 4 \<le> unat (area_size c Pmem)" "area_of c a = Some Pmem"
    using a by (auto simp: pm_words_def mem_acc_def area_of_def off_def)
  then have rd: "pmem_read c a 4 (mem_of_words c M) = Inr (load_le (pmem (mem_of_words c M)) off 4)"
    using pmem_read_eq [of c a Pmem off 4] by (simp add: off_def)
  have "(off + i) mod 4 = i" "off + i - i = off" if "i < 4" for i using that k by simp_all
  moreover have "Suc (Suc (4 * k)) mod 4 = 2" by presburger
  ultimately have "load_le (pmem (mem_of_words c M)) off 4 = M a"
    using undo bytes_of_word [of "M a"] k by (simp add: load_le_4 mem_of_words_def)
  then show "pmem_read c a 4 (mem_of_words c M) = Inr (M a)" using rd by simp
qed

section \<open>A run\<close>

definition trap_demo_words :: wmem where
  "trap_demo_words a = (let k = unat (a - 0x80000000) div 4; code = trap_save_code (nemu_cte False) in
     if k < length code then encode (code ! k) else 0)"

definition trap_demo :: machine where
  "trap_demo = (machine_zero quiet_config)\<lparr>mem := mem_of_words quiet_config trap_demo_words,
     cpu := (cpu_zero quiet_config)\<lparr>gpr := (replicate 32 0)[2 := 0x80009000], cpu_pc := 0x80000000\<rparr>\<rparr>"

lemma word_offset: "k < 2 ^ 24 \<Longrightarrow> unat (4 * of_nat k :: u32) = 4 * k"
  using unat_of_nat [where ?'a = 32, of "4 * k"] by (simp add: take_bit_nat_eq_self)

lemma demo_word:
  assumes "k < 2 ^ 24"
  shows "0x80000000 + 4 * of_nat k \<in> pm_words quiet_config"
  using word_offset [OF assms] assms
  by (simp add: pm_words_def quiet_config_def in_pmem_def mem_acc_def area_of_def word_less_nat_alt)

lemma demo_slot: "slot 0x80008f74 i = 0x80000000 + 4 * of_nat (9181 + i)"
  by (simp add: slot_def)

lemma demo_frame: "frame (nemu_cte False) 0x80008f74 \<subseteq> pm_words quiet_config"
  using demo_word by (auto simp: frame_def demo_slot nemu_cte_def simp del: of_nat_add)

lemma demo_code:
  "code_at quiet_config (frame (nemu_cte False) 0x80008f74) (trap_save_code (nemu_cte False)) 0x80000000 trap_demo_words"
  unfolding code_at_def
proof (intro allI impI conjI)
  fix j assume j: "j < length (trap_save_code (nemu_cte False))"
  then have small: "j < 100" by (simp add: trap_save_code_def REGS_def nemu_cte_def)
  show "0x80000000 + 4 * of_nat j \<in> pm_words quiet_config" using demo_word [of j] small by simp
  have "(4 * of_nat j :: u32) \<noteq> 4 * of_nat (9181 + i)" if "i < 35" for i
    using word_offset [of j] word_offset [of "9181 + i"] small that by (auto simp: word_unat_eq_iff simp del: of_nat_add)
  then show "0x80000000 + 4 * of_nat j \<notin> frame (nemu_cte False) 0x80008f74"
    by (auto simp: frame_def demo_slot nemu_cte_def simp del: of_nat_add)
  show "trap_demo_words (0x80000000 + 4 * of_nat j) = encode (trap_save_code (nemu_cte False) ! j)"
    using word_offset [of j] small j by (simp add: trap_demo_words_def Let_def)
qed

theorem nemu_runs_trap_code_witness:
  "\<exists>m'. nemu_steps quiet_config [] (length (trap_save_code (nemu_cte False))) trap_demo = Inr m' \<and>
     gpr (cpu m') ! 10 = 0x80008f74"
proof -
  have h: "is_platform (nemu_cte False)" "nr_gpr quiet_config = cte_nr (nemu_cte False)"
    "length (gpr (cpu trap_demo)) = cte_nr (nemu_cte False)" "gpr (cpu trap_demo) ! 0 = 0"
    by (simp_all add: is_platform_def nr_gpr_def quiet_config_def nemu_cte_def trap_demo_def)
  have v: "words_view quiet_config trap_demo_words (mem trap_demo)"
    by (simp add: trap_demo_def words_view_mem_of_words)
  have f: "0x80008f74 = gpr (cpu trap_demo) ! 2 - 4 * of_nat (cte_words (nemu_cte False))"
    by (simp add: trap_demo_def nemu_cte_def)
  have pc: "cpu_pc (cpu trap_demo) = 0x80000000" by (simp add: trap_demo_def)
  have "gpr (fst (asm_trap_save (nemu_cte False) (cpu trap_demo, trap_demo_words))) ! 10 = 0x80008f74"
    using save_frame(1) [OF platform_ok [OF h(1)] h(3)] f by simp
  then show ?thesis
    using nemu_runs_trap_code [OF h v demo_frame, of "[]"] f demo_code pc by auto
qed

end
