(* ===== verification/Am_X86_Trm.thy ===== *)
theory Am_X86_Trm
  imports Word_Halves
begin

text \<open>
  Start-up of the abstract machine on 32-bit x86 under QEMU: descriptors and instruction wrappers of \<^verbatim>\<open>x86.h\<close>, the
  processor set-up and \<^verbatim>\<open>halt\<close> of \<^verbatim>\<open>trm.c\<close>, and the interrupt controllers of \<^verbatim>\<open>ioe.c\<close>. The processor is a record of
  the registers the code uses; its stack is a store of aligned words. What the controllers and the firmware tables answer is an
  argument of the definitions that read it.
\<close>

section \<open>Constants\<close>

definition DPL_KERN :: u32 where "DPL_KERN = 0"
definition DPL_USER :: u32 where "DPL_USER = 3"
definition STA_X :: u32 where "STA_X = 0x8"
definition STA_W :: u32 where "STA_W = 0x2"
definition STA_R :: u32 where "STA_R = 0x2"
definition STS_T32A :: u32 where "STS_T32A = 0x9"
definition STS_TG :: u32 where "STS_TG = 0xf"
definition FL_IF :: u32 where "FL_IF = 0x200"
definition SEG_KCODE :: u32 where "SEG_KCODE = 1"
definition SEG_KDATA :: u32 where "SEG_KDATA = 2"
definition SEG_UCODE :: u32 where "SEG_UCODE = 3"
definition SEG_UDATA :: u32 where "SEG_UDATA = 4"
definition SEG_TSS :: u32 where "SEG_TSS = 5"
definition NR_SEG :: nat where "NR_SEG = 6"
definition NR_IRQ :: nat where "NR_IRQ = 256"
definition MAX_CPU :: nat where "MAX_CPU = 8"
definition T_IRQ0 :: u32 where "T_IRQ0 = 32"

definition KSEL :: "u32 \<Rightarrow> u32" where "KSEL seg = push_bit 3 seg OR DPL_KERN"
definition USEL :: "u32 \<Rightarrow> u32" where "USEL seg = push_bit 3 seg OR DPL_USER"

section \<open>Descriptors\<close>

record SegDesc =
  lim_15_0 :: u16
  base_15_0 :: u16
  base_23_16 :: u8
  seg_type :: "4 word"
  seg_s :: "1 word"
  seg_dpl :: "2 word"
  seg_p :: "1 word"
  lim_19_16 :: "4 word"
  seg_avl :: "1 word"
  seg_l :: "1 word"
  seg_db :: "1 word"
  seg_g :: "1 word"
  base_31_24 :: u8

record GateDesc32 =
  off_15_0 :: u16
  gate_cs :: u16
  gate_args :: "5 word"
  gate_rsv1 :: "3 word"
  gate_type :: "4 word"
  gate_s :: "1 word"
  gate_dpl :: "2 word"
  gate_p :: "1 word"
  off_31_16 :: u16

definition SEG16 :: "u32 \<Rightarrow> u32 \<Rightarrow> u32 \<Rightarrow> u32 \<Rightarrow> SegDesc" where
  "SEG16 ty base lim dpl =
    \<lparr>lim_15_0 = ucast (lim AND 0xffff), base_15_0 = ucast (base AND 0xffff), base_23_16 = ucast (drop_bit 16 base AND 0xff),
     seg_type = ucast ty, seg_s = 0, seg_dpl = ucast dpl, seg_p = 1, lim_19_16 = ucast (drop_bit 16 lim),
     seg_avl = 0, seg_l = 0, seg_db = 1, seg_g = 0, base_31_24 = ucast (drop_bit 24 base)\<rparr>"

definition SEG32 :: "u32 \<Rightarrow> u32 \<Rightarrow> u32 \<Rightarrow> u32 \<Rightarrow> SegDesc" where
  "SEG32 ty base lim dpl =
    \<lparr>lim_15_0 = ucast (drop_bit 12 lim AND 0xffff), base_15_0 = ucast (base AND 0xffff), base_23_16 = ucast (drop_bit 16 base AND 0xff),
     seg_type = ucast ty, seg_s = 1, seg_dpl = ucast dpl, seg_p = 1, lim_19_16 = ucast (drop_bit 28 lim),
     seg_avl = 0, seg_l = 0, seg_db = 1, seg_g = 1, base_31_24 = ucast (drop_bit 24 base)\<rparr>"

definition GATE32 :: "u32 \<Rightarrow> u32 \<Rightarrow> u32 \<Rightarrow> u32 \<Rightarrow> GateDesc32" where
  "GATE32 ty cs entry dpl =
    \<lparr>off_15_0 = ucast (entry AND 0xffff), gate_cs = ucast cs, gate_args = 0, gate_rsv1 = 0, gate_type = ucast ty,
     gate_s = 0, gate_dpl = ucast dpl, gate_p = 1, off_31_16 = ucast (drop_bit 16 entry)\<rparr>"

section \<open>The processor\<close>

record x86 =
  eax :: u32
  ebx :: u32
  ecx :: u32
  edx :: u32
  esi :: u32
  edi :: u32
  ebp :: u32
  esp :: u32
  eip :: u32
  eflags :: u32
  seg_cs :: u16
  seg_ds :: u16
  seg_es :: u16
  seg_ss :: u16
  x_cr2 :: u32
  x_cr3 :: u32
  tss_esp0 :: u32
  tss_ss0 :: u32
  x_gdt :: "SegDesc list"
  x_idt :: "GateDesc32 list"
  x_lidt :: "nat option"
  x_tr :: u16
  xmem :: "u32 \<Rightarrow> u32"
  am_lapic :: u32
  lapic_w :: "(nat \<times> u32) list"
  ioapic :: "nat \<Rightarrow> u32"

definition cli :: "x86 \<Rightarrow> x86" where
  "cli s = s\<lparr>eflags := eflags s AND NOT FL_IF\<rparr>"

definition sti :: "x86 \<Rightarrow> x86" where
  "sti s = s\<lparr>eflags := eflags s OR FL_IF\<rparr>"

definition set_cr3 :: "u32 \<Rightarrow> x86 \<Rightarrow> x86" where
  "set_cr3 p s = s\<lparr>x_cr3 := p\<rparr>"

text \<open>\<^verbatim>\<open>idt\<close> is one array for all processors, the field \<open>x_idt\<close>; loading it records its size.\<close>

definition set_idt :: "nat \<Rightarrow> x86 \<Rightarrow> x86" where
  "set_idt sz s = s\<lparr>x_lidt := Some sz\<rparr>"

definition set_gdt :: "SegDesc list \<Rightarrow> x86 \<Rightarrow> x86" where
  "set_gdt g s = s\<lparr>x_gdt := g\<rparr>"

definition set_tr :: "u32 \<Rightarrow> x86 \<Rightarrow> x86" where
  "set_tr sel s = s\<lparr>x_tr := ucast sel\<rparr>"

definition push :: "u32 \<Rightarrow> x86 \<Rightarrow> x86" where
  "push v s = s\<lparr>xmem := (xmem s)(esp s - 4 := v), esp := esp s - 4\<rparr>"

text \<open>\<^verbatim>\<open>stack_switch_call\<close>: two words below the new top, the upper one the argument.\<close>

definition stack_switch_call :: "u32 \<Rightarrow> u32 \<Rightarrow> u32 \<Rightarrow> x86 \<Rightarrow> x86" where
  "stack_switch_call sp entry arg s =
    (let b = sp - 8; s1 = s\<lparr>ebx := b, edx := entry, eax := arg\<rparr>; s2 = s1\<lparr>esp := b\<rparr>
     in s2\<lparr>xmem := (xmem s2)(b + 4 := arg), eip := entry\<rparr>)"

section \<open>Interrupt controllers: ioe.c\<close>

definition lapicw :: "nat \<Rightarrow> u32 \<Rightarrow> x86 \<Rightarrow> x86" where
  "lapicw index v s = s\<lparr>lapic_w := lapic_w s @ [(index, v)]\<rparr>"

definition LAPIC_EOI :: nat where "LAPIC_EOI = 0xB0 div 4"
definition LAPIC_ICRLO :: nat where "LAPIC_ICRLO = 0x300 div 4"
definition LAPIC_ICRHI :: nat where "LAPIC_ICRHI = 0x310 div 4"

text \<open>
  The registers written by \<^verbatim>\<open>__am_percpu_initlapic\<close>. \<open>version\<close> is what \<^verbatim>\<open>VER\<close> reads. Before the last write it polls \<^verbatim>\<open>ICRLO\<close>
  until the message is delivered, which writes nothing.
\<close>

definition percpu_initlapic :: "u32 \<Rightarrow> x86 \<Rightarrow> x86" where
  "percpu_initlapic version s =
    (let s = lapicw (0xF0 div 4) (0x100 OR (T_IRQ0 + 31)) s;
         s = lapicw (0x3E0 div 4) 0xB s;
         s = lapicw (0x320 div 4) (0x20000 OR T_IRQ0) s;
         s = lapicw (0x380 div 4) 10000000 s;
         s = lapicw (0x350 div 4) 0x10000 s;
         s = lapicw (0x360 div 4) 0x10000 s;
         s = (if drop_bit 16 version AND 0xFF \<ge> 4 then lapicw (0x340 div 4) 0x10000 s else s);
         s = lapicw (0x370 div 4) (T_IRQ0 + 19) s;
         s = lapicw (0x280 div 4) 0 s;
         s = lapicw (0x280 div 4) 0 s;
         s = lapicw LAPIC_EOI 0 s;
         s = lapicw LAPIC_ICRHI 0 s;
         s = lapicw LAPIC_ICRLO (0x80000 OR 0x500 OR 0x8000) s
     in lapicw (0x80 div 4) 0 s)"

definition lapic_eoi :: "x86 \<Rightarrow> x86" where
  "lapic_eoi s = (if am_lapic s \<noteq> 0 then lapicw LAPIC_EOI 0 s else s)"

text \<open>\<^verbatim>\<open>__am_lapic_bootap\<close>: the messages it sends; the warm-reset vector is the segment of the start address.\<close>

definition lapic_bootap :: "u32 \<Rightarrow> u32 \<Rightarrow> x86 \<Rightarrow> u16 list \<times> x86" where
  "lapic_bootap apicid addr s =
    (let s = lapicw LAPIC_ICRHI (push_bit 24 apicid) s;
         s = lapicw LAPIC_ICRLO (0x500 OR 0x8000 OR 0x4000) s;
         s = lapicw LAPIC_ICRLO (0x500 OR 0x8000) s;
         s = lapicw LAPIC_ICRLO (0x600 OR drop_bit 12 addr) (lapicw LAPIC_ICRHI (push_bit 24 apicid) s);
         s = lapicw LAPIC_ICRLO (0x600 OR drop_bit 12 addr) (lapicw LAPIC_ICRHI (push_bit 24 apicid) s)
     in ([0, ucast (drop_bit 4 addr)], s))"

definition ioapicread :: "nat \<Rightarrow> x86 \<Rightarrow> u32" where
  "ioapicread reg s = ioapic s reg"

definition ioapicwrite :: "nat \<Rightarrow> u32 \<Rightarrow> x86 \<Rightarrow> x86" where
  "ioapicwrite reg v s = s\<lparr>ioapic := (ioapic s)(reg := v)\<rparr>"

definition ioapic_init :: "x86 \<Rightarrow> x86" where
  "ioapic_init s =
    (let maxintr = unat (drop_bit 16 (ioapicread 1 s) AND 0xFF)
     in fold (\<lambda>i s. ioapicwrite (0x10 + 2 * i + 1) 0 (ioapicwrite (0x10 + 2 * i) (0x10000 OR (T_IRQ0 + of_nat i)) s))
          [0..<maxintr + 1] s)"

definition ioapic_enable :: "nat \<Rightarrow> u32 \<Rightarrow> x86 \<Rightarrow> x86" where
  "ioapic_enable irq cpunum s =
    ioapicwrite (0x10 + 2 * irq + 1) (push_bit 24 cpunum) (ioapicwrite (0x10 + 2 * irq) (T_IRQ0 + of_nat irq) s)"

section \<open>Processor set-up: trm.c\<close>

text \<open>The descriptor table of a processor whose task state segment is at \<open>tss\<close>; \<^verbatim>\<open>sizeof(TSS32)\<close> is 104. Entry 0 stays zero.\<close>

definition null_seg :: SegDesc where
  "null_seg = \<lparr>lim_15_0 = 0, base_15_0 = 0, base_23_16 = 0, seg_type = 0, seg_s = 0, seg_dpl = 0, seg_p = 0, lim_19_16 = 0,
     seg_avl = 0, seg_l = 0, seg_db = 0, seg_g = 0, base_31_24 = 0\<rparr>"

definition percpu_initgdt :: "u32 \<Rightarrow> x86 \<Rightarrow> x86" where
  "percpu_initgdt tss s =
    (let g = replicate NR_SEG null_seg;
         g = g[unat SEG_KCODE := SEG32 (STA_X OR STA_R) 0 0xffffffff DPL_KERN];
         g = g[unat SEG_KDATA := SEG32 STA_W 0 0xffffffff DPL_KERN];
         g = g[unat SEG_UCODE := SEG32 (STA_X OR STA_R) 0 0xffffffff DPL_USER];
         g = g[unat SEG_UDATA := SEG32 STA_W 0 0xffffffff DPL_USER];
         g = g[unat SEG_TSS := SEG16 STS_T32A tss (104 - 1) DPL_KERN]
     in set_tr (KSEL SEG_TSS) (set_gdt g s))"

text \<open>\<^verbatim>\<open>__am_heap_init\<close>; \<open>cmos\<close> is what the clock chip's memory reads.\<close>

definition ROUNDUP_1M :: "u32 \<Rightarrow> u32" where
  "ROUNDUP_1M a = (a + 0xfffff) AND NOT 0xfffff"

definition heap_init :: "(u8 \<Rightarrow> u8) \<Rightarrow> u32 \<Rightarrow> u32 \<times> u32" where
  "heap_init cmos end_sym =
    (let lo = ucast (cmos 0x34) :: u32; hi = ucast (cmos 0x35) + 1
     in (ROUNDUP_1M end_sym, push_bit 16 (lo OR push_bit 8 hi)))"

text \<open>\<^verbatim>\<open>__am_lapic_init\<close> reads the firmware's multiprocessor table, bytes at addresses.\<close>

type_synonym bytes = "nat \<Rightarrow> u8"

definition rd16 :: "bytes \<Rightarrow> nat \<Rightarrow> nat" where
  "rd16 B a = unat (B a) + 256 * unat (B (a + 1))"

definition rd32 :: "bytes \<Rightarrow> nat \<Rightarrow> nat" where
  "rd32 B a = rd16 B a + 65536 * rd16 B (a + 2)"

function mp_entries :: "bytes \<Rightarrow> nat \<Rightarrow> nat \<Rightarrow> nat \<Rightarrow> nat res" where
  "mp_entries B ptr stop ncpu =
    (if ptr < stop then
       (if B ptr = 0 then
          ebind (echeck (\<not> ncpu + 1 > MAX_CPU) (Panic ''cannot support > MAX_CPU processors'')) (\<lambda>_.
            mp_entries B (ptr + 12 + 8) stop (ncpu + 1))
        else mp_entries B (ptr + 8) stop ncpu)
     else Inr ncpu)"
  by pat_completeness auto
termination
  by (relation "measure (\<lambda>(B, ptr, stop, ncpu). stop - ptr)") auto

definition mp_config :: "bytes \<Rightarrow> nat \<Rightarrow> nat \<Rightarrow> (nat \<times> nat) res" where
  "mp_config B conf ncpu =
    ebind (mp_entries B (conf + 44) (conf + rd16 B (conf + 4)) ncpu) (\<lambda>n. Inr (rd32 B (conf + 36), n))"

function lapic_scan :: "bytes \<Rightarrow> nat \<Rightarrow> nat \<Rightarrow> (nat \<times> nat) res" where
  "lapic_scan B st ncpu =
    (if 0xffffff \<le> st then Inl (Panic ''internal error (likely a bug in AM)'')
     else if rd32 B st = 0x5f504d5f then mp_config B (rd32 B (st + 4)) ncpu
     else lapic_scan B (st + 1) ncpu)"
  by pat_completeness auto
termination
  by (relation "measure (\<lambda>(B, st, ncpu). 0xffffff - st)") auto

definition lapic_init :: "bytes \<Rightarrow> (nat \<times> nat) res" where
  "lapic_init B = lapic_scan B 0xf0000 0"

declare mp_entries.simps [simp del] lapic_scan.simps [simp del]

text \<open>\<^verbatim>\<open>halt\<close>: what it prints before it powers the machine off.\<close>

definition hex_chars :: string where
  "hex_chars = ''0123456789abcdef''"

definition halt_text :: "nat \<Rightarrow> u32 \<Rightarrow> string" where
  "halt_text cpu code =
    concat (map (\<lambda>ch.
      if ch = CHR ''$'' then [hex_chars ! cpu]
      else if ch = CHR ''0'' \<or> ch = CHR ''4'' then
        [hex_chars ! unat (signed_drop_bit (of_char ch - of_char CHR ''0'') code AND 0xf)]
      else [ch]) (''CPU #$ Halt (40).'' @ [CHR 0x0A]))"

section \<open>What the processor reads from a descriptor\<close>

definition seg_base :: "SegDesc \<Rightarrow> u32" where
  "seg_base d = ucast (base_15_0 d) OR push_bit 16 (ucast (base_23_16 d)) OR push_bit 24 (ucast (base_31_24 d))"

definition seg_limit :: "SegDesc \<Rightarrow> u32" where
  "seg_limit d =
    (let raw = ucast (lim_15_0 d) OR push_bit 16 (ucast (lim_19_16 d))
     in if seg_g d = 1 then push_bit 12 raw OR 0xfff else raw)"

definition gate_offset :: "GateDesc32 \<Rightarrow> u32" where
  "gate_offset g = ucast (off_15_0 g) OR push_bit 16 (ucast (off_31_16 g))"

lemma masks: "(0xffff :: u32) = mask 16" "(0xff :: u32) = mask 8" "(0xfff :: u32) = mask 12"
  by (simp_all add: mask_eq_exp_minus_1)

lemmas bit_field = bit_or_iff bit_and_iff bit_push_bit_iff bit_drop_bit_eq bit_ucast_iff bit_mask_iff

lemma join_halves: "ucast (ucast (e AND 0xffff) :: u16) OR push_bit 16 (ucast (ucast (drop_bit 16 e) :: u16)) = (e :: u32)"
proof -
  have "bit (ucast (ucast (e AND mask 16) :: u16) OR push_bit 16 (ucast (ucast (drop_bit 16 e) :: u16)) :: u32) n = bit e n" if "n < 32" for n
    using that by (cases "n < 16") (auto simp: bit_field)
  then show ?thesis unfolding masks by (intro bit_word_eqI) simp
qed

lemma gate_offset_GATE32 [simp]: "gate_offset (GATE32 ty cs entry dpl) = entry"
  by (simp add: gate_offset_def GATE32_def join_halves)

lemma seg_base_bits:
  "ucast (ucast (b AND 0xffff) :: u16) OR push_bit 16 (ucast (ucast (drop_bit 16 b AND 0xff) :: u8)) OR
   push_bit 24 (ucast (ucast (drop_bit 24 b) :: u8)) = (b :: u32)"
proof -
  have "bit (ucast (ucast (b AND mask 16) :: u16) OR push_bit 16 (ucast (ucast (drop_bit 16 b AND mask 8) :: u8)) OR
     push_bit 24 (ucast (ucast (drop_bit 24 b) :: u8)) :: u32) n = bit b n" if "n < 32" for n
    using that by (cases "n < 16"; cases "n < 24") (auto simp: bit_field)
  then show ?thesis unfolding masks by (intro bit_word_eqI) simp
qed

lemma seg_base_SEG [simp]: "seg_base (SEG16 ty b l d) = b" "seg_base (SEG32 ty b l d) = b"
  by (simp_all only: seg_base_def SEG16_def SEG32_def SegDesc.select_convs seg_base_bits)

lemma seg_limit_SEG16:
  assumes "unat l < 2 ^ 20"
  shows "seg_limit (SEG16 ty b l d) = l"
proof -
  have hi: "\<not> bit l n" if "20 \<le> n" for n
  proof
    assume b: "bit l n"
    then have n: "n < 32" using bit_imp_le_length [OF b] by simp
    have "unat l < 2 ^ n" using assms power_increasing [OF that, of "2 :: nat"] by simp
    then show False using b n by (simp add: bit_unat)
  qed
  have "bit (ucast (ucast (l AND mask 16) :: u16) OR push_bit 16 (ucast (ucast (drop_bit 16 l) :: 4 word)) :: u32) n = bit l n" if "n < 32" for n
    using that hi [of n] by (cases "n < 16"; cases "n < 20") (auto simp: bit_field)
  then have "ucast (ucast (l AND mask 16) :: u16) OR push_bit 16 (ucast (ucast (drop_bit 16 l) :: 4 word)) = l" by (intro bit_word_eqI) simp
  then show ?thesis by (simp add: seg_limit_def SEG16_def masks)
qed

lemma seg_limit_SEG32: "seg_limit (SEG32 ty b l d) = l OR 0xfff"
proof -
  have "bit (push_bit 12 (ucast (ucast (drop_bit 12 l AND mask 16) :: u16) OR push_bit 16 (ucast (ucast (drop_bit 28 l) :: 4 word))) OR mask 12 :: u32) n
      = bit (l OR mask 12) n" if "n < 32" for n
    using that by (cases "n < 12"; cases "n < 28") (auto simp: bit_field)
  then show ?thesis
    by (intro bit_word_eqI) (simp add: seg_limit_def SEG32_def masks)
qed

text \<open>
  The table of a processor: four segments over the whole address space, two of them for the user, and the task
  state segment; the task register selects it.
\<close>

lemma percpu_initgdt_flat:
  defines "s' tss s \<equiv> percpu_initgdt tss s"
  shows "length (x_gdt (s' tss s)) = NR_SEG"
    and "\<forall>i \<in> {1, 2, 3, 4}. seg_base (x_gdt (s' tss s) ! i) = 0 \<and> seg_limit (x_gdt (s' tss s) ! i) = - 1 \<and>
      seg_p (x_gdt (s' tss s) ! i) = 1 \<and> seg_s (x_gdt (s' tss s) ! i) = 1 \<and> seg_dpl (x_gdt (s' tss s) ! i) = (if i \<le> 2 then 0 else 3)"
    and "seg_base (x_gdt (s' tss s) ! 5) = tss" "seg_limit (x_gdt (s' tss s) ! 5) = 103"
    and "unat (x_tr (s' tss s)) div 8 = 5"
proof -
  have sel: "unat SEG_KCODE = 1" "unat SEG_KDATA = 2" "unat SEG_UCODE = 3" "unat SEG_UDATA = 4" "unat SEG_TSS = 5"
    by (simp_all add: SEG_KCODE_def SEG_KDATA_def SEG_UCODE_def SEG_UDATA_def SEG_TSS_def)
  show "length (x_gdt (s' tss s)) = NR_SEG" by (simp add: s'_def percpu_initgdt_def set_tr_def set_gdt_def Let_def)
  have f: "seg_p (SEG32 ty b l d) = 1" "seg_s (SEG32 ty b l d) = 1" "seg_dpl (SEG32 ty b l d) = ucast d" for ty b l d
    by (simp_all add: SEG32_def)
  show "\<forall>i \<in> {1, 2, 3, 4}. seg_base (x_gdt (s' tss s) ! i) = 0 \<and> seg_limit (x_gdt (s' tss s) ! i) = - 1 \<and>
      seg_p (x_gdt (s' tss s) ! i) = 1 \<and> seg_s (x_gdt (s' tss s) ! i) = 1 \<and> seg_dpl (x_gdt (s' tss s) ! i) = (if i \<le> 2 then 0 else 3)"
    by (simp add: s'_def percpu_initgdt_def set_tr_def set_gdt_def Let_def NR_SEG_def sel nth_list_update f seg_limit_SEG32
        DPL_KERN_def DPL_USER_def)
  show "seg_base (x_gdt (s' tss s) ! 5) = tss" "seg_limit (x_gdt (s' tss s) ! 5) = 103"
    by (simp_all add: s'_def percpu_initgdt_def set_tr_def set_gdt_def Let_def NR_SEG_def sel nth_list_update seg_limit_SEG16)
  show "unat (x_tr (s' tss s)) div 8 = 5"
    by (simp add: s'_def percpu_initgdt_def set_tr_def set_gdt_def Let_def KSEL_def DPL_KERN_def SEG_TSS_def)
qed

section \<open>Counting processors\<close>

text \<open>The entries of the firmware's table: a processor takes 20 bytes and starts with 0, everything else 8.\<close>

datatype mp_entry = Processor "u8 list" | Other u8 "u8 list"

fun mp_wf :: "mp_entry \<Rightarrow> bool" where
  "mp_wf (Processor bs) \<longleftrightarrow> length bs = 19"
| "mp_wf (Other t bs) \<longleftrightarrow> t \<noteq> 0 \<and> length bs = 7"

fun mp_bytes :: "mp_entry \<Rightarrow> u8 list" where
  "mp_bytes (Processor bs) = 0 # bs"
| "mp_bytes (Other t bs) = t # bs"

definition is_processor :: "mp_entry \<Rightarrow> bool" where
  "is_processor e = (case e of Processor _ \<Rightarrow> True | Other _ _ \<Rightarrow> False)"

definition processors :: "mp_entry list \<Rightarrow> nat" where
  "processors es = length (filter is_processor es)"

definition holds :: "bytes \<Rightarrow> nat \<Rightarrow> u8 list \<Rightarrow> bool" where
  "holds B a bs \<longleftrightarrow> (\<forall>i < length bs. B (a + i) = bs ! i)"

lemma holds_append: "holds B a (xs @ ys) \<longleftrightarrow> holds B a xs \<and> holds B (a + length xs) ys"
proof
  assume h: "holds B a (xs @ ys)"
  have "B (a + length xs + i) = ys ! i" if "i < length ys" for i
    using h [unfolded holds_def, rule_format, of "length xs + i"] that by (simp add: add.assoc)
  moreover have "B (a + i) = xs ! i" if "i < length xs" for i
    using h [unfolded holds_def, rule_format, of i] that by (simp add: nth_append)
  ultimately show "holds B a xs \<and> holds B (a + length xs) ys" by (simp add: holds_def)
next
  assume h: "holds B a xs \<and> holds B (a + length xs) ys"
  show "holds B a (xs @ ys)"
    unfolding holds_def
  proof (intro allI impI)
    fix i assume "i < length (xs @ ys)"
    then show "B (a + i) = (xs @ ys) ! i"
      using h [unfolded holds_def] by (cases "i < length xs") (auto simp: nth_append add.assoc dest: spec [of _ "i - length xs"])
  qed
qed

lemma holds_head: "holds B a (x # xs) \<Longrightarrow> B a = x"
  by (force simp: holds_def dest: spec [of _ 0])

lemma mp_entries_count:
  assumes "list_all mp_wf es" "holds B a (concat (map mp_bytes es))"
  shows "mp_entries B a (a + length (concat (map mp_bytes es))) n =
    (if n \<le> MAX_CPU \<and> MAX_CPU < n + processors es then Inl (Panic ''cannot support > MAX_CPU processors'')
     else if MAX_CPU < n \<and> 0 < processors es then Inl (Panic ''cannot support > MAX_CPU processors'')
     else Inr (n + processors es))"
  using assms
proof (induction es arbitrary: a n)
  case Nil
  then show ?case by (simp add: mp_entries.simps processors_def)
next
  case (Cons e es)
  let ?rest = "concat (map mp_bytes es)"
  have h: "holds B a (mp_bytes e)" "holds B (a + length (mp_bytes e)) ?rest" using Cons.prems(2) by (simp_all add: holds_append)
  note ih = Cons.IH [OF _ h(2)]
  show ?case
  proof (cases e)
    case (Processor bs)
    then have "B a = 0" "length (mp_bytes e) = 20" using h(1) Cons.prems(1) holds_head by fastforce+
    then show ?thesis
      using ih [of "n + 1"] Cons.prems(1) Processor
      by (subst mp_entries.simps) (auto simp: processors_def is_processor_def add.assoc echeck_def)
  next
    case (Other t bs)
    then have "B a \<noteq> 0" "length (mp_bytes e) = 8" using h(1) Cons.prems(1) holds_head by fastforce+
    then show ?thesis
      using ih [of n] Cons.prems(1) Other
      by (subst mp_entries.simps) (auto simp: processors_def is_processor_def add.assoc)
  qed
qed

lemma lapic_scan_finds:
  assumes "st + k < 0xffffff" "\<forall>i < k. rd32 B (st + i) \<noteq> 0x5f504d5f" "rd32 B (st + k) = 0x5f504d5f"
  shows "lapic_scan B st ncpu = mp_config B (rd32 B (st + k + 4)) ncpu"
  using assms
proof (induction k arbitrary: st)
  case 0
  then show ?case by (subst lapic_scan.simps) simp
next
  case (Suc k)
  have "rd32 B st \<noteq> 0x5f504d5f" using Suc.prems(2) by force
  moreover have "lapic_scan B (st + 1) ncpu = mp_config B (rd32 B (st + 1 + k + 4)) ncpu"
    by (rule Suc.IH) (use Suc.prems in \<open>auto dest: spec [of _ "Suc _"]\<close>)
  ultimately show ?case using Suc.prems(1) by (subst lapic_scan.simps) simp
qed

text \<open>
  \<^verbatim>\<open>__am_lapic_init\<close> counts the processors of the firmware's table. When the first signature in the scanned region
  points to a configuration table whose entries are any sequence of well-formed entries, the result is the address of
  the local APIC from the header and the number of processor entries; more than eight processors panic. Entries of both sizes are
  skipped by their own size.
\<close>

lemma lapic_init_counts:
  assumes "0xf0000 + k < 0xffffff" "\<forall>i < k. rd32 B (0xf0000 + i) \<noteq> 0x5f504d5f" "rd32 B (0xf0000 + k) = 0x5f504d5f"
    and "rd32 B (0xf0000 + k + 4) = conf" "list_all mp_wf es" "holds B (conf + 44) (concat (map mp_bytes es))"
    and "rd16 B (conf + 4) = 44 + length (concat (map mp_bytes es))"
  shows "lapic_init B = (if processors es \<le> MAX_CPU then Inr (rd32 B (conf + 36), processors es)
    else Inl (Panic ''cannot support > MAX_CPU processors''))"
proof -
  have "lapic_init B = mp_config B conf 0" using lapic_scan_finds [OF assms(1-3)] assms(4) by (simp add: lapic_init_def)
  then show ?thesis using mp_entries_count [OF assms(5,6), of 0] assms(7) by (simp add: mp_config_def add.assoc)
qed

section \<open>Interrupt routing\<close>

definition routed :: "(nat \<Rightarrow> u32) \<Rightarrow> nat \<Rightarrow> (u32 \<times> u32) option" where
  "routed R irq = (if bit (R (0x10 + 2 * irq)) 16 then None
     else Some (R (0x10 + 2 * irq) AND 0xff, drop_bit 24 (R (0x10 + 2 * irq + 1))))"

lemma ioapic_init_table:
  "ioapic (fold (\<lambda>i s. ioapicwrite (0x10 + 2 * i + 1) 0 (ioapicwrite (0x10 + 2 * i) (0x10000 OR (T_IRQ0 + of_nat i)) s)) [0..<n] s) r =
    (if 0x10 \<le> r \<and> r < 0x10 + 2 * n then (if even r then 0x10000 OR (T_IRQ0 + of_nat ((r - 0x10) div 2)) else 0) else ioapic s r)"
proof (induction n)
  case (Suc n)
  then show ?case by (auto simp: ioapicwrite_def less_Suc_eq elim!: evenE oddE)
qed auto

text \<open>
  After \<^verbatim>\<open>__am_ioapic_init\<close> no interrupt line is routed; enabling a line then routes it, and only it, to the vector
  \<^verbatim>\<open>T_IRQ0 + irq\<close> of the given processor.
\<close>

lemma ioapic_init_masks:
  assumes "irq \<le> unat (drop_bit 16 (ioapic s 1) AND 0xFF)"
  shows "routed (ioapic (ioapic_init s)) irq = None"
proof -
  have "bit (0x10000 :: u32) 16" by simp
  then show ?thesis
    using assms unfolding routed_def ioapic_init_def Let_def ioapicread_def ioapic_init_table by (simp add: bit_or_iff)
qed

lemma ioapic_enable_routes:
  assumes "irq < 24" "cpu < 256"
  shows "routed (ioapic (ioapic_enable irq cpu s)) irq = Some (T_IRQ0 + of_nat irq, cpu)"
    and "j \<noteq> irq \<Longrightarrow> routed (ioapic (ioapic_enable irq cpu s)) j = routed (ioapic s) j"
proof -
  have u: "unat (T_IRQ0 + of_nat irq :: u32) < 2 ^ 8"
    using assms(1) by (simp add: T_IRQ0_def unat_word_ariths unat_of_nat take_bit_eq_mod)
  have "\<not> bit (T_IRQ0 + of_nat irq :: u32) 16" using u by (simp add: bit_unat)
  moreover have "(T_IRQ0 + of_nat irq) AND 0xff = (T_IRQ0 + of_nat irq :: u32)"
    using u unat_take_bit [of 8 "T_IRQ0 + of_nat irq :: u32"] by (simp add: masks take_bit_eq_mask [symmetric] word_unat_eq_iff)
  moreover have "drop_bit 24 (push_bit 24 cpu) = cpu"
    using assms(2) by (simp add: word_unat_eq_iff unat_drop_bit unat_push_bit word_less_nat_alt)
  ultimately show "routed (ioapic (ioapic_enable irq cpu s)) irq = Some (T_IRQ0 + of_nat irq, cpu)"
    by (simp add: routed_def ioapic_enable_def ioapicwrite_def)
  show "j \<noteq> irq \<Longrightarrow> routed (ioapic (ioapic_enable irq cpu s)) j = routed (ioapic s) j"
    by (simp add: routed_def ioapic_enable_def ioapicwrite_def)
qed

text \<open>
  The heap ends at 16 MiB plus what the clock chip reports, in units of 64 KiB; it starts at the first MiB boundary after the program.
\<close>

lemma heap_init_range:
  fixes cmos :: "u8 \<Rightarrow> u8"
  defines "units \<equiv> unat (cmos 0x34) + 256 * unat (cmos 0x35)"
  assumes "units < 65280" "unat e + 0xfffff < 2 ^ 32"
  shows "unat (snd (heap_init cmos e)) = 16 * 2 ^ 20 + units * 2 ^ 16"
    and "unat e \<le> unat (fst (heap_init cmos e))" "unat (fst (heap_init cmos e)) < unat e + 2 ^ 20"
      "2 ^ 20 dvd unat (fst (heap_init cmos e))"
proof -
  let ?lo = "ucast (cmos 0x34) :: u32" and ?hi = "ucast (cmos 0x35) + 1 :: u32"
  have lo: "unat ?lo = unat (cmos 0x34)" "unat (cmos 0x34) < 256" "unat (cmos 0x35) < 256"
    using unsigned_less [where ?'a = nat, of "cmos 0x34"] unsigned_less [where ?'a = nat, of "cmos 0x35"]
    by (simp_all add: unsigned_ucast_eq take_bit_eq_mod)
  have hi: "unat ?hi = unat (cmos 0x35) + 1"
    using lo(3) by (simp add: unat_word_ariths unsigned_ucast_eq take_bit_eq_mod)
  have "?lo OR push_bit 8 ?hi = ?lo + push_bit 8 ?hi"
    by (rule disjunctive_add [symmetric]) (auto simp: bit_push_bit_iff bit_ucast_iff dest!: bit_imp_le_length)
  then have "unat (?lo OR push_bit 8 ?hi) = units + 256"
    using lo hi by (simp add: unat_word_ariths unat_push_bit units_def)
  then show "unat (snd (heap_init cmos e)) = 16 * 2 ^ 20 + units * 2 ^ 16"
    using assms(2) unfolding heap_init_def Let_def snd_conv unat_push_bit by simp
  have "NOT (0xfffff :: u32) = NOT (mask 20)" by (simp add: mask_eq_exp_minus_1)
  then have "fst (heap_init cmos e) = (e + 0xfffff) AND NOT (mask 20)" by (simp only: heap_init_def Let_def ROUNDUP_1M_def fst_conv)
  then have "unat (fst (heap_init cmos e)) = (unat e + 0xfffff) div 2 ^ 20 * 2 ^ 20"
    using assms(3) by (simp add: unat_and_not_mask unat_word_ariths)
  then show "unat e \<le> unat (fst (heap_init cmos e))" "unat (fst (heap_init cmos e)) < unat e + 2 ^ 20"
      "2 ^ 20 dvd unat (fst (heap_init cmos e))" by simp_all
qed

text \<open>\<^verbatim>\<open>halt\<close> reports the processor and the low byte of the exit code in hexadecimal.\<close>

lemma halt_text_code:
  "cpu < 16 \<Longrightarrow> halt_text cpu code =
    ''CPU #'' @ [hex_chars ! cpu] @ '' Halt ('' @ [hex_chars ! (unat code div 16 mod 16), hex_chars ! (unat code mod 16)] @ '').'' @ [CHR 0x0A]"
proof -
  have "unat (signed_drop_bit 4 code AND 0xf) = unat code div 16 mod 16"
  proof -
    have "signed_drop_bit 4 code AND mask 4 = take_bit 4 (drop_bit 4 code)"
      by (rule bit_word_eqI) (auto simp: bit_signed_drop_bit_iff bit_take_bit_iff bit_drop_bit_eq bit_and_iff bit_mask_iff)
    then show ?thesis using unat_take_bit [of 4 "drop_bit 4 code"] by (simp add: unat_drop_bit mask_eq_exp_minus_1)
  qed
  moreover have "unat (code AND 0xf) = unat code mod 16"
    using unat_take_bit [of 4 code] by (simp add: take_bit_eq_mask mask_eq_exp_minus_1)
  ultimately show ?thesis by (simp add: halt_text_def)
qed

end
