(* ===== verification/Am_X86_Vme.thy ===== *)
theory Am_X86_Vme
  imports Nemu_Prelude
begin

text \<open>
  Virtual memory of the abstract machine on 32-bit x86 under QEMU (\<^verbatim>\<open>am/src/x86/qemu/vme.c\<close>). Memory is a store of
  aligned words, so page tables are words of it and \<^verbatim>\<open>&as->ptr\<close> is an address in it. The page allocator of the
  kernel is a parameter: the pages it will return are a list in the state, and the pages it gets back are
  recorded. The processor's page walk is defined beside the code, from the architecture; the theorems say what the
  operations do to the translation it computes.
\<close>

section \<open>Constants: x86.h, am.h and the mmu tables\<close>

definition PTE_P :: u32 where "PTE_P = 0x001"
definition PTE_W :: u32 where "PTE_W = 0x002"
definition PTE_U :: u32 where "PTE_U = 0x004"
definition CR0_PG :: u32 where "CR0_PG = 0x80000000"
definition MMAP_NONE :: u32 where "MMAP_NONE = 0"
definition MMAP_READ :: u32 where "MMAP_READ = 1"
definition MMAP_WRITE :: u32 where "MMAP_WRITE = 2"

record ptinfo =
  pt_mask :: u32
  pt_shift :: nat
  pt_bits :: nat

record mmu_config =
  mmu_ptlevels :: nat
  mmu_pgsize :: u32
  mmu_pgtables :: "ptinfo list"

definition mmu :: mmu_config where
  "mmu = \<lparr>mmu_ptlevels = 2, mmu_pgsize = 4096, mmu_pgtables =
     [\<lparr>pt_mask = 0, pt_shift = 0, pt_bits = 0\<rparr>,
      \<lparr>pt_mask = 0xffc00000, pt_shift = 22, pt_bits = 10\<rparr>,
      \<lparr>pt_mask = 0x003ff000, pt_shift = 12, pt_bits = 10\<rparr>]\<rparr>"

record vm_area =
  va_start :: u32
  va_end :: u32
  va_kernel :: bool

definition vm_areas :: "vm_area list" where
  "vm_areas =
    [\<lparr>va_start = 0x40000000, va_end = 0x80000000, va_kernel = False\<rparr>,
     \<lparr>va_start = 0, va_end = 0x40000000, va_kernel = True\<rparr>,
     \<lparr>va_start = 0xfd000000, va_end = 0, va_kernel = True\<rparr>]"

abbreviation uvm_area :: vm_area where
  "uvm_area \<equiv> vm_areas ! 0"

section \<open>State\<close>

record vm =
  vm_mem :: "u32 \<Rightarrow> u32"
  pg_next :: "u32 list"
  pg_freed :: "u32 list"
  kpt :: u32
  cr3 :: u32
  cr0 :: u32
  cpu_no :: u32

definition put :: "u32 \<Rightarrow> u32 \<Rightarrow> vm \<Rightarrow> vm" where
  "put a v s = s\<lparr>vm_mem := (vm_mem s)(a := v)\<rparr>"

text \<open>The \<open>i\<close>-th word of the table at \<open>p\<close>.\<close>

definition ent :: "u32 \<Rightarrow> nat \<Rightarrow> u32" where
  "ent p i = p + 4 * of_nat i"

section \<open>Tables\<close>

primrec clear_words :: "nat \<Rightarrow> u32 \<Rightarrow> vm \<Rightarrow> vm" where
  "clear_words 0 b s = s"
| "clear_words (Suc n) b s = put (ent b n) 0 (clear_words n b s)"

definition pgallocz :: "vm \<Rightarrow> (u32 \<times> vm) res" where
  "pgallocz s =
    (case pg_next s of
       [] \<Rightarrow> Inl (Panic ''cannot allocate page'')
     | b # rest \<Rightarrow>
         ebind (echeck (b \<noteq> 0) (Panic ''cannot allocate page'')) (\<lambda>_.
           Inr (b, clear_words (unat (mmu_pgsize mmu) div 4) b (s\<lparr>pg_next := rest\<rparr>))))"

definition indexof :: "u32 \<Rightarrow> ptinfo \<Rightarrow> nat" where
  "indexof addr info = unat (drop_bit (pt_shift info) (addr AND pt_mask info))"

definition baseof :: "u32 \<Rightarrow> u32" where
  "baseof addr = addr AND NOT (mmu_pgsize mmu - 1)"

text \<open>The loop of \<^verbatim>\<open>ptwalk\<close> from a level on: the tables that are left are the recursion.\<close>

fun ptwalk_from :: "ptinfo list \<Rightarrow> u32 \<Rightarrow> u32 \<Rightarrow> u32 \<Rightarrow> vm \<Rightarrow> (u32 \<times> vm) res" where
  "ptwalk_from [] addr flags cur s = Inl (Panic ''internal error (likely a bug in AM)'')"
| "ptwalk_from [info] addr flags cur s = Inr (ent cur (indexof addr info), s)"
| "ptwalk_from (info # next # rest) addr flags cur s =
    (let slot = ent cur (indexof addr info) in
     if vm_mem s slot AND PTE_P = 0 then
       ebind (pgallocz s) (\<lambda>(next_page, s1).
         ptwalk_from (next # rest) addr flags next_page (put slot (next_page OR PTE_P OR flags) s1))
     else ptwalk_from (next # rest) addr flags (baseof (vm_mem s slot)) s)"

definition ptwalk :: "u32 \<Rightarrow> u32 \<Rightarrow> u32 \<Rightarrow> vm \<Rightarrow> (u32 \<times> vm) res" where
  "ptwalk as_ptr addr flags s = ptwalk_from (mmu_pgtables mmu) addr flags as_ptr s"

definition pgfree :: "u32 \<Rightarrow> vm \<Rightarrow> vm" where
  "pgfree p s = s\<lparr>pg_freed := pg_freed s @ [p]\<rparr>"

text \<open>\<^verbatim>\<open>teardown\<close>: below the last level it returns at once.\<close>

primrec teardown :: "ptinfo list \<Rightarrow> nat \<Rightarrow> u32 \<Rightarrow> vm \<Rightarrow> vm" where
  "teardown [] level pt s = s"
| "teardown (info # rest) level pt s =
    (let s1 = fold (\<lambda>index s.
           if vm_mem s (ent pt index) AND PTE_P \<noteq> 0 \<and> vm_mem s (ent pt index) AND PTE_U \<noteq> 0
           then teardown rest (Suc level) (baseof (vm_mem s (ent pt index))) s else s)
         [0..<2 ^ pt_bits info] s
     in if level \<ge> 1 then pgfree pt s1 else s1)"

section \<open>Operations\<close>

text \<open>The loops \<^verbatim>\<open>for (cur = start; cur != end; cur += step)\<close>.\<close>

partial_function (option) range_loop :: "u32 \<Rightarrow> (u32 \<Rightarrow> 's \<Rightarrow> 's res) \<Rightarrow> u32 \<Rightarrow> u32 \<Rightarrow> 's \<Rightarrow> 's res option" where
  "range_loop step f cur stop s =
    (if cur = stop then Some (Inr s)
     else case f cur s of Inl e \<Rightarrow> Some (Inl e) | Inr s' \<Rightarrow> range_loop step f (cur + step) stop s')"

text \<open>One pass of a loop over the kernel areas.\<close>

fun area_loop :: "u32 \<Rightarrow> (u32 \<Rightarrow> 's \<Rightarrow> 's res) \<Rightarrow> vm_area list \<Rightarrow> 's \<Rightarrow> 's res option" where
  "area_loop step f [] s = Some (Inr s)"
| "area_loop step f (a # as) s =
    (if va_kernel a then
       (case range_loop step f (va_start a) (va_end a) s of
          None \<Rightarrow> None | Some (Inl e) \<Rightarrow> Some (Inl e) | Some (Inr s') \<Rightarrow> area_loop step f as s')
     else area_loop step f as s)"

definition init_page :: "u32 \<Rightarrow> u32 \<Rightarrow> vm \<Rightarrow> vm res" where
  "init_page as_ptr cur s =
    ebind (ptwalk as_ptr cur PTE_W s) (\<lambda>(p, s1). Inr (put p (cur OR PTE_P OR PTE_W) s1))"

text \<open>\<^verbatim>\<open>vme_init\<close>; \<open>as_ptr\<close> is the address of the pointer of its local address space.\<close>

definition x86_vme_init :: "u32 \<Rightarrow> vm \<Rightarrow> (bool \<times> vm) res option" where
  "x86_vme_init as_ptr s =
    (if cpu_no s \<noteq> 0 then Some (Inl (Panic ''init VME in non-bootstrap CPU''))
     else case area_loop (mmu_pgsize mmu) (init_page as_ptr) vm_areas (put as_ptr 0 s) of
       None \<Rightarrow> None
     | Some (Inl e) \<Rightarrow> Some (Inl e)
     | Some (Inr s1) \<Rightarrow>
         (let s2 = s1\<lparr>kpt := baseof (vm_mem s1 as_ptr)\<rparr>
          in Some (Inr (True, s2\<lparr>cr3 := kpt s2, cr0 := cr0 s2 OR CR0_PG\<rparr>))))"

record x86_as =
  as_pgsize :: u32
  as_area :: vm_area

definition share_kernel :: "u32 \<Rightarrow> u32 \<Rightarrow> vm \<Rightarrow> vm res" where
  "share_kernel updir cur s =
    (let index = indexof cur (mmu_pgtables mmu ! 1) in Inr (put (ent updir index) (vm_mem s (ent (kpt s) index)) s))"

text \<open>\<^verbatim>\<open>protect\<close> sets the fields of the address space; its \<^verbatim>\<open>ptr\<close> is the word at \<open>as_ptr\<close>.\<close>

definition x86_protect :: "u32 \<Rightarrow> vm \<Rightarrow> (x86_as \<times> vm) res option" where
  "x86_protect as_ptr s =
    (case pgallocz s of
       Inl e \<Rightarrow> Some (Inl e)
     | Inr (updir, s1) \<Rightarrow>
         (case area_loop (push_bit (pt_shift (mmu_pgtables mmu ! 1)) 1) (share_kernel updir) vm_areas s1 of
            None \<Rightarrow> None
          | Some (Inl e) \<Rightarrow> Some (Inl e)
          | Some (Inr s2) \<Rightarrow>
              Some (Inr (\<lparr>as_pgsize = mmu_pgsize mmu, as_area = uvm_area\<rparr>, put as_ptr (updir OR PTE_P OR PTE_U) s2))))"

definition unprotect :: "u32 \<Rightarrow> vm \<Rightarrow> vm" where
  "unprotect as_ptr s = teardown (mmu_pgtables mmu) 0 as_ptr s"

definition in_area :: "u32 \<Rightarrow> vm_area \<Rightarrow> bool" where
  "in_area p a \<longleftrightarrow> va_start a \<le> p \<and> p < va_end a"

definition vm_map :: "u32 \<Rightarrow> u32 \<Rightarrow> u32 \<Rightarrow> u32 \<Rightarrow> vm \<Rightarrow> vm res" where
  "vm_map as_ptr va pa prot s =
    ebind (echeck (in_area va uvm_area) (Panic ''mapping an invalid address'')) (\<lambda>_.
    ebind (echeck (va = baseof va \<and> pa = baseof pa) (Panic ''non-page-boundary address'')) (\<lambda>_.
    ebind (ptwalk as_ptr va (PTE_W OR PTE_U) s) (\<lambda>(ptentry, s1).
    ebind (if prot = MMAP_NONE then
             ebind (echeck (vm_mem s1 ptentry AND PTE_P \<noteq> 0) (Panic ''unmapping a non-mapped page'')) (\<lambda>_.
               Inr (put ptentry 0 s1))
           else
             ebind (echeck (vm_mem s1 ptentry AND PTE_P = 0) (Panic ''remapping a mapped page'')) (\<lambda>_.
               Inr (put ptentry (pa OR PTE_P OR PTE_U OR (if prot AND MMAP_WRITE \<noteq> 0 then PTE_W else 0)) s1)))
    (\<lambda>s2. ebind (ptwalk as_ptr va (PTE_W OR PTE_U) s2) (\<lambda>(p, s3). Inr s3)))))"

section \<open>The processor's page walk\<close>

text \<open>
  With 32-bit paging and pages of 4 KiB a virtual address has a directory index, a table index and
  an offset. A translation is the entry of the table, when both entries are present.
\<close>

definition dir_index :: "u32 \<Rightarrow> nat" where
  "dir_index va = unat (drop_bit 22 va)"

definition tab_index :: "u32 \<Rightarrow> nat" where
  "tab_index va = unat (drop_bit 12 va) mod 1024"

definition page_walk :: "(u32 \<Rightarrow> u32) \<Rightarrow> u32 \<Rightarrow> u32 \<Rightarrow> (u32 \<times> u32) option" where
  "page_walk M root va =
    (let pde = M (ent (root AND NOT (mask 12)) (dir_index va)) in
     if \<not> bit pde 0 then None
     else let pte = M (ent (pde AND NOT (mask 12)) (tab_index va)) in
       if \<not> bit pte 0 then None else Some (pde, pte))"

text \<open>The physical address, and whether a user-mode write is allowed.\<close>

definition phys :: "u32 \<Rightarrow> u32 \<times> u32 \<Rightarrow> u32" where
  "phys va w = (snd w AND NOT (mask 12)) OR (va AND mask 12)"

definition user_writable :: "u32 \<times> u32 \<Rightarrow> bool" where
  "user_writable w \<longleftrightarrow> bit (fst w) 1 \<and> bit (fst w) 2 \<and> bit (snd w) 1 \<and> bit (snd w) 2"

section \<open>Pages and entries\<close>

lemma mmu_simps [simp]:
  "mmu_pgsize mmu = 4096"
  "mmu_pgtables mmu = [\<lparr>pt_mask = 0, pt_shift = 0, pt_bits = 0\<rparr>,
      \<lparr>pt_mask = 0xffc00000, pt_shift = 22, pt_bits = 10\<rparr>, \<lparr>pt_mask = 0x003ff000, pt_shift = 12, pt_bits = 10\<rparr>]"
  by (simp_all add: mmu_def)

lemma baseof_mask: "baseof a = a AND NOT (mask 12)"
  by (simp add: baseof_def mask_eq_exp_minus_1)

lemma bit_baseof: "bit (baseof a) n \<longleftrightarrow> 12 \<le> n \<and> bit a n"
  unfolding baseof_mask bit_and_iff bit_not_iff bit_mask_iff by (auto dest: bit_imp_le_length)

lemma unat32: "unat (a :: u32) < 4294967296"
  using unsigned_less [where ?'a = nat, of a] by simp

lemma unat_drop: "unat (drop_bit n (a :: u32)) = unat a div 2 ^ n"
  using unat32 [of a] by (simp only: unsigned_drop_bit_eq) (simp add: take_bit_nat_eq_self drop_bit_eq_div)

lemma unat_baseof: "unat (baseof a) = unat a div 4096 * 4096"
proof -
  have "baseof a = push_bit 12 (drop_bit 12 a)"
    by (rule bit_word_eqI) (auto simp only: bit_baseof bit_push_bit_iff bit_drop_bit_eq o_apply le_add_diff_inverse possible_bit_word len_num1 len_bit0)
  moreover have "unat a div 4096 * 4096 < 2 ^ 32" using unat32 [of a] div_times_less_eq_dividend [of "unat a" 4096] by simp
  ultimately show ?thesis
    using unat_drop [of 12 a] by (simp only: unsigned_push_bit_eq) (simp add: take_bit_nat_eq_self push_bit_eq_mult mult.commute)
qed

lemma baseof_eq_iff: "baseof a = baseof b \<longleftrightarrow> unat a div 4096 = unat b div 4096"
  by (simp add: word_unat_eq_iff unat_baseof)

lemma aligned_iff: "baseof p = p \<longleftrightarrow> 4096 dvd unat p"
  unfolding word_unat_eq_iff unat_baseof by (metis dvd_div_mult_self dvd_triv_right)

lemma baseof_idem [simp]: "baseof (baseof a) = baseof a"
  by (rule bit_word_eqI) (simp add: bit_baseof)

text \<open>Flags are the bits below the page number.\<close>

lemma baseof_flags:
  assumes "baseof p = p" "baseof f = 0"
  shows "baseof (p OR f) = p"
proof (rule bit_word_eqI)
  fix n :: nat
  have "12 \<le> n \<Longrightarrow> \<not> bit f n" using assms(2) bit_baseof [of f n] by simp
  moreover have "bit p n \<Longrightarrow> 12 \<le> n" using assms(1) bit_baseof [of p n] by simp
  ultimately show "bit (baseof (p OR f)) n = bit p n" by (auto simp: bit_baseof bit_or_iff)
qed

lemma dir_index_eq: "indexof va \<lparr>pt_mask = 0xffc00000, pt_shift = 22, pt_bits = 10\<rparr> = dir_index va"
proof -
  have "drop_bit 22 (va AND NOT (mask 22)) = drop_bit 22 va"
    by (rule bit_word_eqI) (auto simp only: bit_drop_bit_eq o_apply bit_and_iff bit_not_iff bit_mask_iff
        possible_bit_word len_num1 len_bit0 dest: bit_imp_le_length)
  moreover have "(0xffc00000 :: u32) = NOT (mask 22)" by (simp add: mask_eq_exp_minus_1)
  ultimately show ?thesis by (simp add: indexof_def dir_index_def)
qed

lemma tab_index_eq: "indexof va \<lparr>pt_mask = 0x003ff000, pt_shift = 12, pt_bits = 10\<rparr> = tab_index va"
proof -
  have "drop_bit 12 (va AND push_bit 12 (mask 10)) = take_bit 10 (drop_bit 12 va)"
    by (rule bit_word_eqI) (auto simp only: bit_drop_bit_eq o_apply bit_and_iff bit_push_bit_iff bit_mask_iff bit_take_bit_iff
        possible_bit_word len_num1 len_bit0)
  moreover have "unat (take_bit 10 (drop_bit 12 va)) = unat (drop_bit 12 va) mod 1024"
    by (simp only: unsigned_take_bit_eq) (simp add: take_bit_eq_mod)
  moreover have "(0x003ff000 :: u32) = push_bit 12 (mask 10)" by (simp add: mask_eq_exp_minus_1)
  ultimately show ?thesis by (simp add: indexof_def tab_index_def)
qed

lemma dir_index_div: "dir_index va = unat va div 4194304"
  unfolding dir_index_def unat_drop by simp

lemma tab_index_div: "tab_index va = unat va div 4096 mod 1024"
  unfolding tab_index_def unat_drop by simp

lemma index_less [simp]: "dir_index va < 1024" "tab_index va < 1024"
proof -
  show "dir_index va < 1024" using unat32 [of va] by (simp add: dir_index_div)
qed (simp add: tab_index_def)

text \<open>The two indices determine the page.\<close>

lemma index_page: "dir_index va = dir_index vb \<and> tab_index va = tab_index vb \<longleftrightarrow> baseof va = baseof vb"
proof -
  have "unat va div 4194304 = unat va div 4096 div 1024" for va :: u32 by (simp add: div_mult2_eq)
  then show ?thesis unfolding baseof_eq_iff dir_index_div tab_index_div by (metis div_mult_mod_eq)
qed

lemma level0_index [simp]: "indexof va \<lparr>pt_mask = 0, pt_shift = 0, pt_bits = 0\<rparr> = 0"
  by (simp add: indexof_def)

lemma ent_0 [simp]: "ent p 0 = p"
  by (simp add: ent_def)

lemma unat_ent:
  assumes "baseof p = p" "i < 1024"
  shows "unat (ent p i) = unat p + 4 * i"
proof -
  obtain k where k: "unat p = 4096 * k" using assms(1) by (auto simp: aligned_iff)
  have "unat p + 4 * i < 2 ^ 32" using unat32 [of p] k assms(2) by simp
  then have "unat (of_nat (unat p + 4 * i) :: u32) = unat p + 4 * i" by (simp only: unat_of_nat take_bit_nat_eq_self) simp
  moreover have "ent p i = of_nat (unat p + 4 * i)" by (simp add: ent_def)
  ultimately show ?thesis by simp
qed

lemma ent_page: "baseof p = p \<Longrightarrow> i < 1024 \<Longrightarrow> baseof (ent p i) = p"
proof -
  assume p: "baseof p = p" "i < 1024"
  then obtain k where "unat p = 4096 * k" by (auto simp: aligned_iff)
  then show ?thesis using p(2) unat_ent [OF p] by (simp add: word_unat_eq_iff unat_baseof)
qed

lemma ent_inject:
  assumes "baseof p = p" "baseof q = q" "i < 1024" "j < 1024"
  shows "ent p i = ent q j \<longleftrightarrow> p = q \<and> i = j"
proof
  assume "ent p i = ent q j"
  moreover from this have "p = q" using ent_page assms by metis
  ultimately show "p = q \<and> i = j" using unat_ent [of p i] unat_ent [of p j] assms by auto
qed simp

section \<open>What a step of the walk does\<close>

lemma present_bit: "e AND PTE_P = 0 \<longleftrightarrow> \<not> bit e 0"
  by (simp add: PTE_P_def and_one_eq odd_iff_mod_2_eq_one bit_0)

lemma clear_words_mem:
  "vm_mem (clear_words n b s) x = (if \<exists>i < n. x = ent b i then 0 else vm_mem s x)"
  by (induction n) (auto simp: put_def less_Suc_eq)

lemma clear_words_rest [simp]:
  "pg_next (clear_words n b s) = pg_next s" "pg_freed (clear_words n b s) = pg_freed s" "kpt (clear_words n b s) = kpt s"
  "cr3 (clear_words n b s) = cr3 s" "cr0 (clear_words n b s) = cr0 s"
  by (induction n) (simp_all add: put_def)

lemma put_simps [simp]:
  "vm_mem (put a v s) = (vm_mem s)(a := v)" "pg_next (put a v s) = pg_next s" "pg_freed (put a v s) = pg_freed s"
  "kpt (put a v s) = kpt s" "cr3 (put a v s) = cr3 s" "cr0 (put a v s) = cr0 s"
  by (simp_all add: put_def)

definition walk_step :: "u32 \<Rightarrow> u32 \<Rightarrow> vm \<Rightarrow> (u32 \<times> vm) res" where
  "walk_step flags slot s =
    (if vm_mem s slot AND PTE_P = 0
     then ebind (pgallocz s) (\<lambda>(np, s1). Inr (np, put slot (np OR PTE_P OR flags) s1))
     else Inr (baseof (vm_mem s slot), s))"

lemma ptwalk_from_step:
  "ptwalk_from (info # next # rest) addr flags cur s =
    ebind (walk_step flags (ent cur (indexof addr info)) s) (\<lambda>(p, s1). ptwalk_from (next # rest) addr flags p s1)"
  by (cases "pgallocz s") (auto simp: walk_step_def Let_def)

lemma ptwalk_steps:
  "ptwalk a va flags s =
    ebind (walk_step flags a s) (\<lambda>(D, s1).
    ebind (walk_step flags (ent D (dir_index va)) s1) (\<lambda>(T, s2). Inr (ent T (tab_index va), s2)))"
  by (simp add: ptwalk_def ptwalk_from_step dir_index_eq tab_index_eq del: ptwalk_from.simps(3))

lemma walk_step_cases:
  assumes "walk_step flags slot s = Inr (p, s')"
  obtains (old) "bit (vm_mem s slot) 0" "p = baseof (vm_mem s slot)" "s' = s"
  | (new) rest where "\<not> bit (vm_mem s slot) 0" "pg_next s = p # rest" "p \<noteq> 0" "pg_next s' = rest"
      "\<And>x. vm_mem s' x = (if x = slot then p OR PTE_P OR flags else if \<exists>i < 1024. x = ent p i then 0 else vm_mem s x)"
      "pg_freed s' = pg_freed s" "kpt s' = kpt s" "cr3 s' = cr3 s" "cr0 s' = cr0 s"
proof (cases "bit (vm_mem s slot) 0")
  case True
  then have "p = baseof (vm_mem s slot)" "s' = s" using assms by (auto simp: walk_step_def present_bit)
  then show thesis by (rule old [OF True])
next
  case False
  then obtain s1 where s1: "pgallocz s = Inr (p, s1)" "s' = put slot (p OR PTE_P OR flags) s1"
    using assms by (auto simp: walk_step_def present_bit)
  then obtain rest where r: "pg_next s = p # rest" "p \<noteq> 0" "s1 = clear_words 1024 p (s\<lparr>pg_next := rest\<rparr>)"
    by (auto simp: pgallocz_def split: list.splits)
  show thesis
    by (rule new [OF False r(1,2)]) (auto simp: s1(2) r(3) clear_words_mem)
qed

section \<open>Well-formed tables\<close>

definition tree_ok :: "u32 \<Rightarrow> u32 set \<Rightarrow> (u32 \<Rightarrow> u32) \<Rightarrow> bool" where
  "tree_ok a U M \<longleftrightarrow> (\<forall>p \<in> U. baseof p = p \<and> p \<noteq> baseof a) \<and>
    (bit (M a) 0 \<longrightarrow> baseof (M a) \<in> U \<and>
      (\<forall>i < 1024. bit (M (ent (baseof (M a)) i)) 0 \<longrightarrow>
         baseof (M (ent (baseof (M a)) i)) \<in> U \<and> baseof (M (ent (baseof (M a)) i)) \<noteq> baseof (M a)) \<and>
      (\<forall>i < 1024. \<forall>j < 1024. bit (M (ent (baseof (M a)) i)) 0 \<longrightarrow> bit (M (ent (baseof (M a)) j)) 0 \<longrightarrow>
         baseof (M (ent (baseof (M a)) i)) = baseof (M (ent (baseof (M a)) j)) \<longrightarrow> i = j))"

definition alloc_ok :: "u32 \<Rightarrow> u32 set \<Rightarrow> vm \<Rightarrow> bool" where
  "alloc_ok a U s \<longleftrightarrow> distinct (pg_next s) \<and> (\<forall>p \<in> set (pg_next s). baseof p = p \<and> p \<notin> U \<and> p \<noteq> baseof a)"

text \<open>The translation of the address space whose pointer is at \<open>a\<close>.\<close>

definition xlate :: "u32 \<Rightarrow> (u32 \<Rightarrow> u32) \<Rightarrow> u32 \<Rightarrow> (u32 \<times> u32) option" where
  "xlate a M va = (if bit (M a) 0 then page_walk M (M a) va else None)"

lemma page_walk_base:
  "page_walk M root va =
    (let pde = M (ent (baseof root) (dir_index va)) in
     if \<not> bit pde 0 then None
     else let pte = M (ent (baseof pde) (tab_index va)) in if \<not> bit pte 0 then None else Some (pde, pte))"
  by (simp only: page_walk_def baseof_mask Let_def)

lemma new_entry:
  assumes "baseof p = p" "baseof flags = 0"
  shows "bit (p OR PTE_P OR flags) 0" "baseof (p OR PTE_P OR flags) = p"
proof -
  show "bit (p OR PTE_P OR flags) 0" by (simp add: PTE_P_def bit_or_iff bit_1_iff)
  have "baseof (PTE_P OR flags) = 0"
    using assms(2) bit_baseof [of flags] by (intro bit_word_eqI) (auto simp: bit_baseof PTE_P_def bit_or_iff bit_1_iff)
  then show "baseof (p OR PTE_P OR flags) = p" using baseof_flags [OF assms(1)] by (simp add: or.assoc)
qed

lemma tree_page: "tree_ok a U M \<Longrightarrow> p \<in> U \<Longrightarrow> baseof p = p \<and> p \<noteq> baseof a"
  by (simp add: tree_ok_def)

lemma tree_dir: "tree_ok a U M \<Longrightarrow> bit (M a) 0 \<Longrightarrow> baseof (M a) \<in> U"
  by (simp add: tree_ok_def)

lemma tree_tab:
  assumes "tree_ok a U M" "bit (M a) 0" "D = baseof (M a)" "i < 1024" "bit (M (ent D i)) 0"
  shows "baseof (M (ent D i)) \<in> U" "baseof (M (ent D i)) \<noteq> D"
    "j < 1024 \<Longrightarrow> bit (M (ent D j)) 0 \<Longrightarrow> baseof (M (ent D i)) = baseof (M (ent D j)) \<Longrightarrow> i = j"
  using assms by (auto simp: tree_ok_def)

lemma ent_not_cell: "baseof p = p \<Longrightarrow> p \<noteq> baseof a \<Longrightarrow> i < 1024 \<Longrightarrow> ent p i \<noteq> a"
  using ent_page [of p i] by auto

text \<open>The first step: the directory.\<close>

lemma root_step:
  assumes "tree_ok a U (vm_mem s)" "alloc_ok a U s" "baseof flags = 0" "walk_step flags a s = Inr (D, s1)"
  shows "\<exists>U1. U \<subseteq> U1 \<and> U1 \<subseteq> U \<union> set (pg_next s) \<and> tree_ok a U1 (vm_mem s1) \<and> alloc_ok a U1 s1 \<and>
    bit (vm_mem s1 a) 0 \<and> D = baseof (vm_mem s1 a) \<and> xlate a (vm_mem s1) = xlate a (vm_mem s) \<and>
    (if bit (vm_mem s a) 0 then s1 = s \<and> U1 = U
     else U1 = insert D U \<and> pg_next s = D # pg_next s1 \<and> (\<forall>i < 1024. vm_mem s1 (ent D i) = 0)) \<and>
    (\<forall>x. x \<noteq> a \<longrightarrow> (\<forall>p \<in> U1 - U. baseof x \<noteq> p) \<longrightarrow> vm_mem s1 x = vm_mem s x)"
  using assms(4)
proof (cases rule: walk_step_cases)
  case old
  then show ?thesis using assms by (intro exI [of _ U]) auto
next
  case (new rest)
  have D: "baseof D = D" "D \<notin> U" "D \<noteq> baseof a" using assms(2) new(2) by (auto simp: alloc_ok_def)
  note e = new_entry [OF D(1) assms(3)]
  have root: "vm_mem s1 a = D OR PTE_P OR flags" by (simp add: new(5))
  have zero: "vm_mem s1 (ent D i) = 0" if "i < 1024" for i
    using that ent_not_cell [OF D(1,3) that] by (auto simp: new(5))
  have tree: "tree_ok a (insert D U) (vm_mem s1)"
    using assms(1) D zero e root by (auto simp: tree_ok_def)
  have "alloc_ok a (insert D U) s1" using assms(2) new(2,4) by (auto simp: alloc_ok_def)
  moreover have "xlate a (vm_mem s1) = xlate a (vm_mem s)"
    using new(1) zero e root by (auto simp: xlate_def page_walk_base Let_def)
  moreover have "vm_mem s1 x = vm_mem s x" if "x \<noteq> a" "baseof x \<noteq> D" for x
    using that ent_page [OF D(1)] by (auto simp: new(5))
  ultimately show ?thesis using tree e root new(1,2,4) D(2) zero by (intro exI [of _ "insert D U"]) auto
qed

text \<open>The second step: the table.\<close>

lemma dir_step:
  assumes "tree_ok a U (vm_mem s)" "alloc_ok a U s" "baseof flags = 0" "bit (vm_mem s a) 0" "D = baseof (vm_mem s a)"
    and "i < 1024" "walk_step flags (ent D i) s = Inr (T, s1)"
  shows "\<exists>U1. U \<subseteq> U1 \<and> U1 \<subseteq> U \<union> set (pg_next s) \<and> tree_ok a U1 (vm_mem s1) \<and> alloc_ok a U1 s1 \<and>
    vm_mem s1 a = vm_mem s a \<and> bit (vm_mem s1 (ent D i)) 0 \<and> T = baseof (vm_mem s1 (ent D i)) \<and>
    (if bit (vm_mem s (ent D i)) 0 then s1 = s \<and> U1 = U
     else U1 = insert T U \<and> pg_next s = T # pg_next s1 \<and> baseof T = T \<and> vm_mem s1 (ent D i) = T OR PTE_P OR flags) \<and>
    (\<forall>j < 1024. j \<noteq> i \<longrightarrow> vm_mem s1 (ent D j) = vm_mem s (ent D j)) \<and>
    xlate a (vm_mem s1) = xlate a (vm_mem s) \<and>
    (\<forall>x. x \<noteq> ent D i \<longrightarrow> (\<forall>p \<in> U1 - U. baseof x \<noteq> p) \<longrightarrow> vm_mem s1 x = vm_mem s x)"
  using assms(7)
proof (cases rule: walk_step_cases)
  case old
  then show ?thesis using assms by (intro exI [of _ U]) auto
next
  case (new rest)
  have DU: "D \<in> U" "baseof D = D" "D \<noteq> baseof a"
    using tree_dir [OF assms(1,4)] tree_page [OF assms(1)] assms(5) by auto
  have T: "baseof T = T" "T \<notin> U" "T \<noteq> baseof a" "T \<noteq> D" using assms(2) new(2) DU by (auto simp: alloc_ok_def)
  note e = new_entry [OF T(1) assms(3)]
  have slot: "vm_mem s1 (ent D i) = T OR PTE_P OR flags" by (simp add: new(5))
  have other: "vm_mem s1 x = vm_mem s x" if "x \<noteq> ent D i" "baseof x \<noteq> T" for x
    using that ent_page [OF T(1)] by (auto simp: new(5))
  have cell: "vm_mem s1 a = vm_mem s a" using other ent_not_cell [OF DU(2,3) assms(6)] T(3) by metis
  have dir: "vm_mem s1 (ent D j) = vm_mem s (ent D j)" if "j < 1024" "j \<noteq> i" for j
    using other [of "ent D j"] that ent_page [OF DU(2)] ent_inject [OF DU(2,2)] T(4) assms(6) by auto
  have zero: "vm_mem s1 (ent T j) = 0" if "j < 1024" for j
    using that ent_inject [OF T(1) DU(2) that assms(6)] T(4) by (auto simp: new(5))
  have tab: "vm_mem s1 (ent p k) = vm_mem s (ent p k)" if "p \<in> U" "p \<noteq> D" "k < 1024" for p k
    using other [of "ent p k"] that tree_page [OF assms(1)] ent_page ent_inject [of p D k i] DU(2) T(2) assms(6) by auto
  have tree: "tree_ok a (insert T U) (vm_mem s1)"
    unfolding tree_ok_def cell assms(5) [symmetric]
  proof (intro conjI impI ballI allI)
    fix p assume "p \<in> insert T U"
    then show "baseof p = p" "p \<noteq> baseof a" using T tree_page [OF assms(1)] by auto
  next
    fix j assume j: "j < 1024" "bit (vm_mem s1 (ent D j)) 0"
    show "baseof (vm_mem s1 (ent D j)) \<in> insert T U" "baseof (vm_mem s1 (ent D j)) \<noteq> D"
      using j dir [of j] slot e T(4) tree_tab(1,2) [OF assms(1,4,5), of j] by (cases "j = i"; auto)+
  next
    fix j k
    assume jk: "j < 1024" "k < 1024" "bit (vm_mem s1 (ent D j)) 0" "bit (vm_mem s1 (ent D k)) 0"
      "baseof (vm_mem s1 (ent D j)) = baseof (vm_mem s1 (ent D k))"
    have "baseof (vm_mem s1 (ent D l)) \<noteq> T" if "l < 1024" "bit (vm_mem s1 (ent D l)) 0" "l \<noteq> i" for l
      using that dir [of l] tree_tab(1) [OF assms(1,4,5), of l] T(2) by auto
    then show "j = k"
      using jk dir slot e(2) tree_tab(3) [OF assms(1,4,5) jk(1), of k] by (cases "j = i"; cases "k = i") metis+
  qed (use DU in auto)
  have al: "alloc_ok a (insert T U) s1" using assms(2) new(2,4) by (auto simp: alloc_ok_def)
  have "xlate a (vm_mem s1) va = xlate a (vm_mem s) va" for va
  proof (cases "dir_index va = i")
    case True
    then show ?thesis using new(1) zero slot e assms(4,5) cell by (auto simp: xlate_def page_walk_base Let_def)
  next
    case False
    then show ?thesis
      using dir [of "dir_index va"] assms(4,5) cell
        tab [OF tree_tab(1,2) [OF assms(1,4,5), of "dir_index va"], of "tab_index va"]
      by (auto simp: xlate_def page_walk_base Let_def)
  qed
  then show ?thesis
    using tree al cell slot e other new(1,2,4) T(1,2) dir by (intro exI [of _ "insert T U"]) auto
qed

text \<open>
  The whole walk: the entry it returns belongs to the table of the address, and the translation is still the
  one before; only the root, the directory entry and new pages were written.
\<close>

definition walked :: "u32 \<Rightarrow> u32 \<Rightarrow> (u32 \<Rightarrow> u32) \<Rightarrow> u32 \<Rightarrow> bool" where
  "walked a va M e \<longleftrightarrow> bit (M a) 0 \<and> bit (M (ent (baseof (M a)) (dir_index va))) 0 \<and>
     e = ent (baseof (M (ent (baseof (M a)) (dir_index va)))) (tab_index va)"

definition dir_entry :: "u32 \<Rightarrow> (u32 \<Rightarrow> u32) \<Rightarrow> nat \<Rightarrow> u32" where
  "dir_entry a M i = (if bit (M a) 0 then M (ent (baseof (M a)) i) else 0)"

lemma ptwalk_walked:
  assumes "tree_ok a U (vm_mem s)" "alloc_ok a U s" "baseof flags = 0" "ptwalk a va flags s = Inr (e, s2)"
  obtains news T where "tree_ok a (U \<union> set news) (vm_mem s2)" "alloc_ok a (U \<union> set news) s2" "pg_next s = news @ pg_next s2"
    "length news = of_bool (\<not> bit (vm_mem s a) 0) + of_bool (\<not> bit (dir_entry a (vm_mem s) (dir_index va)) 0)"
    "walked a va (vm_mem s2) e" "xlate a (vm_mem s2) = xlate a (vm_mem s)"
    "\<And>j. j < 1024 \<Longrightarrow> dir_entry a (vm_mem s2) j = (if j = dir_index va \<and> \<not> bit (dir_entry a (vm_mem s) j) 0
       then T OR PTE_P OR flags else dir_entry a (vm_mem s) j)"
    "\<not> bit (dir_entry a (vm_mem s) (dir_index va)) 0 \<Longrightarrow> baseof T = T \<and> T \<in> set news"
    "bit (vm_mem s a) 0 \<Longrightarrow> vm_mem s2 a = vm_mem s a"
proof -
  let ?i = "dir_index va"
  obtain D s1 T where st: "walk_step flags a s = Inr (D, s1)" "walk_step flags (ent D ?i) s1 = Inr (T, s2)"
    and e: "e = ent T (tab_index va)"
    using assms(4) by (auto simp: ptwalk_steps)
  obtain U1 where U1: "tree_ok a U1 (vm_mem s1)" "alloc_ok a U1 s1"
    "bit (vm_mem s1 a) 0" "D = baseof (vm_mem s1 a)" "xlate a (vm_mem s1) = xlate a (vm_mem s)"
    "if bit (vm_mem s a) 0 then s1 = s \<and> U1 = U
     else U1 = insert D U \<and> pg_next s = D # pg_next s1 \<and> (\<forall>i < 1024. vm_mem s1 (ent D i) = 0)"
    using root_step [OF assms(1,2,3) st(1)] by blast
  obtain U2 where U2: "tree_ok a U2 (vm_mem s2)" "alloc_ok a U2 s2"
    "vm_mem s2 a = vm_mem s1 a" "bit (vm_mem s2 (ent D ?i)) 0" "T = baseof (vm_mem s2 (ent D ?i))"
    "if bit (vm_mem s1 (ent D ?i)) 0 then s2 = s1 \<and> U2 = U1
     else U2 = insert T U1 \<and> pg_next s1 = T # pg_next s2 \<and> baseof T = T \<and> vm_mem s2 (ent D ?i) = T OR PTE_P OR flags"
    "\<forall>j < 1024. j \<noteq> ?i \<longrightarrow> vm_mem s2 (ent D j) = vm_mem s1 (ent D j)" "xlate a (vm_mem s2) = xlate a (vm_mem s1)"
    using dir_step [OF U1(1,2) assms(3) U1(3,4) index_less(1) st(2)] by blast
  define n0 where "n0 = (if bit (vm_mem s a) 0 then [] else [D])"
  define n1 where "n1 = (if bit (vm_mem s1 (ent D ?i)) 0 then [] else [T])"
  have d1: "dir_entry a (vm_mem s) j = vm_mem s1 (ent D j)" if "j < 1024" for j
    using U1(4,6) that by (auto simp: dir_entry_def split: if_splits)
  have d2: "dir_entry a (vm_mem s2) j = vm_mem s2 (ent D j)" for j
    using U1(3,4) U2(3) by (simp add: dir_entry_def)
  show thesis
  proof (rule that [of "n0 @ n1" T])
    show "tree_ok a (U \<union> set (n0 @ n1)) (vm_mem s2)" "alloc_ok a (U \<union> set (n0 @ n1)) s2"
      using U1(6) U2(1,2,6) by (auto simp: n0_def n1_def insert_commute split: if_splits)
    show "pg_next s = (n0 @ n1) @ pg_next s2" using U1(6) U2(6) by (auto simp: n0_def n1_def split: if_splits)
    show "length (n0 @ n1) = of_bool (\<not> bit (vm_mem s a) 0) + of_bool (\<not> bit (dir_entry a (vm_mem s) ?i) 0)"
      by (simp add: n0_def n1_def d1)
    show "walked a va (vm_mem s2) e" using U1(3,4) U2(3-5) e by (simp add: walked_def)
    show "xlate a (vm_mem s2) = xlate a (vm_mem s)" using U1(5) U2(8) by simp
    show "dir_entry a (vm_mem s2) j = (if j = ?i \<and> \<not> bit (dir_entry a (vm_mem s) j) 0
       then T OR PTE_P OR flags else dir_entry a (vm_mem s) j)" if "j < 1024" for j
      using that U2(6,7) by (auto simp: d1 d2 split: if_splits)
    show "baseof T = T \<and> T \<in> set (n0 @ n1)" if "\<not> bit (dir_entry a (vm_mem s) ?i) 0"
      using that U2(6) by (auto simp: d1 n1_def split: if_splits)
    show "vm_mem s2 a = vm_mem s a" if "bit (vm_mem s a) 0" using that U1(6) U2(3) by simp
  qed
qed

text \<open>A walk fails only for want of pages.\<close>

lemma walk_step_ok:
  "bit (vm_mem s slot) 0 \<or> (\<exists>p rest. pg_next s = p # rest \<and> p \<noteq> 0) \<Longrightarrow> \<exists>p s'. walk_step flags slot s = Inr (p, s')"
  by (auto simp: walk_step_def present_bit pgallocz_def)

lemma ptwalk_ok:
  assumes "tree_ok a U (vm_mem s)" "alloc_ok a U s" "baseof flags = 0" "0 \<notin> set (pg_next s)"
    "of_bool (\<not> bit (vm_mem s a) 0) + of_bool (\<not> bit (dir_entry a (vm_mem s) (dir_index va)) 0) \<le> length (pg_next s)"
  shows "\<exists>e s'. ptwalk a va flags s = Inr (e, s')"
proof -
  have "bit (vm_mem s a) 0 \<or> (\<exists>p rest. pg_next s = p # rest \<and> p \<noteq> 0)"
    using assms(4,5) by (cases "pg_next s") auto
  then obtain D s1 where st: "walk_step flags a s = Inr (D, s1)" using walk_step_ok by blast
  obtain U1 where U1: "bit (vm_mem s1 a) 0" "D = baseof (vm_mem s1 a)"
    "if bit (vm_mem s a) 0 then s1 = s \<and> U1 = U
     else U1 = insert D U \<and> pg_next s = D # pg_next s1 \<and> (\<forall>i < 1024. vm_mem s1 (ent D i) = 0)"
    using root_step [OF assms(1,2,3) st] by blast
  have "bit (vm_mem s1 (ent D (dir_index va))) 0 \<or> (\<exists>p rest. pg_next s1 = p # rest \<and> p \<noteq> 0)"
    using U1 assms(4,5) by (cases "pg_next s1") (auto simp: dir_entry_def split: if_splits)
  then obtain T s2 where "walk_step flags (ent D (dir_index va)) s1 = Inr (T, s2)" using walk_step_ok by blast
  then show ?thesis using st by (auto simp: ptwalk_steps)
qed

text \<open>Writing the entry changes the translation of its page and of no other.\<close>

lemma walked_put:
  assumes "tree_ok a U M" "walked a va M e" "M' = M(e := v)"
  shows "tree_ok a U M'" "xlate a M' vb = (if baseof vb = baseof va
     then (if bit v 0 then Some (M (ent (baseof (M a)) (dir_index va)), v) else None) else xlate a M vb)"
    "M' a = M a" "j < 1024 \<Longrightarrow> dir_entry a M' j = dir_entry a M j"
proof -
  define D where "D = baseof (M a)"
  define T where "T = baseof (M (ent D (dir_index va)))"
  have w: "bit (M a) 0" "bit (M (ent D (dir_index va))) 0" "e = ent T (tab_index va)"
    using assms(2) by (auto simp: walked_def D_def T_def)
  have DU: "D \<in> U" "baseof D = D" "D \<noteq> baseof a"
    using tree_dir [OF assms(1) w(1)] tree_page [OF assms(1)] by (auto simp: D_def)
  have TU: "T \<in> U" "T \<noteq> D" using tree_tab(1,2) [OF assms(1) w(1) D_def index_less(1) w(2)] by (simp_all add: T_def)
  have TA: "baseof T = T" "T \<noteq> baseof a" using tree_page [OF assms(1) TU(1)] by auto
  have cell: "M' a = M a" using ent_not_cell [OF TA index_less(2)] w(3) by (auto simp: assms(3))
  have dir: "M' (ent D j) = M (ent D j)" if "j < 1024" for j
    using ent_inject [OF DU(2) TA(1) that index_less(2)] TU(2) w(3) by (auto simp: assms(3))
  show "M' a = M a" by (rule cell)
  show "j < 1024 \<Longrightarrow> dir_entry a M' j = dir_entry a M j" using dir by (simp add: dir_entry_def cell D_def)
  show "tree_ok a U M'"
    using assms(1) dir unfolding tree_ok_def cell D_def [symmetric] by auto
  have same: "dir_index vb = dir_index va \<Longrightarrow> baseof (M (ent D (dir_index vb))) = T" by (simp add: T_def)
  have tab: "M' (ent (baseof (M (ent D (dir_index vb)))) (tab_index vb)) =
      (if baseof vb = baseof va then v else M (ent (baseof (M (ent D (dir_index vb)))) (tab_index vb)))"
    if b: "bit (M (ent D (dir_index vb))) 0"
  proof -
    have p: "baseof (M (ent D (dir_index vb))) \<in> U" using tree_tab(1) [OF assms(1) w(1) D_def index_less(1) b] .
    have "baseof (M (ent D (dir_index vb))) = T \<longleftrightarrow> dir_index vb = dir_index va"
      using tree_tab(3) [OF assms(1) w(1) D_def index_less(1) b index_less(1) w(2)] same by (auto simp: T_def)
    then have "ent (baseof (M (ent D (dir_index vb)))) (tab_index vb) = e \<longleftrightarrow> baseof vb = baseof va"
      using ent_inject [OF _ TA(1) index_less(2) index_less(2), of _ vb va] tree_page [OF assms(1) p] w(3) index_page [of vb va]
      by auto
    then show ?thesis by (simp add: assms(3))
  qed
  have "baseof vb = baseof va \<Longrightarrow> dir_index vb = dir_index va" using index_page [of vb va] by auto
  then show "xlate a M' vb = (if baseof vb = baseof va
     then (if bit v 0 then Some (M (ent (baseof (M a)) (dir_index va)), v) else None) else xlate a M vb)"
    using w(1,2) tab dir [OF index_less(1), of vb]
    by (auto simp: xlate_def page_walk_base Let_def cell D_def [symmetric])
qed

lemma walked_entry:
  assumes "walked a va M e"
  shows "xlate a M va = (if bit (M e) 0 then Some (dir_entry a M (dir_index va), M e) else None)"
    "bit (M a) 0" "bit (dir_entry a M (dir_index va)) 0"
  using assms by (simp_all add: walked_def xlate_def page_walk_base Let_def dir_entry_def)

lemma ptwalk_present:
  assumes "bit (vm_mem s a) 0" "bit (dir_entry a (vm_mem s) (dir_index va)) 0"
  shows "\<exists>e. ptwalk a va flags s = Inr (e, s)"
  using assms by (simp add: ptwalk_steps walk_step_def present_bit dir_entry_def)

section \<open>Mapping\<close>

definition user_dirs :: "u32 \<Rightarrow> (u32 \<Rightarrow> u32) \<Rightarrow> bool" where
  "user_dirs a M \<longleftrightarrow> (\<forall>i. 256 \<le> i \<and> i < 512 \<and> bit (dir_entry a M i) 0 \<longrightarrow> bit (dir_entry a M i) 1 \<and> bit (dir_entry a M i) 2)"

text \<open>An address space in use: its pages are \<open>U\<close>, and its user tables are open to the user.\<close>

definition as_inv :: "u32 \<Rightarrow> u32 set \<Rightarrow> vm \<Rightarrow> bool" where
  "as_inv a U s \<longleftrightarrow> tree_ok a U (vm_mem s) \<and> alloc_ok a U s \<and> bit (vm_mem s a) 0 \<and> user_dirs a (vm_mem s)"

lemma user_index: "in_area va uvm_area \<Longrightarrow> 256 \<le> dir_index va \<and> dir_index va < 512"
  by (auto simp: in_area_def vm_areas_def dir_index_div word_le_nat_alt word_less_nat_alt)

lemma pte_bits:
  "bit PTE_P n \<longleftrightarrow> n = 0" "bit PTE_W n \<longleftrightarrow> n = 1" "bit PTE_U n \<longleftrightarrow> n = 2"
proof -
  have WU: "PTE_W = push_bit 1 1" "PTE_U = push_bit 2 1" by (simp_all add: PTE_W_def PTE_U_def)
  show "bit PTE_W n \<longleftrightarrow> n = 1" "bit PTE_U n \<longleftrightarrow> n = 2"
    unfolding WU by (auto simp only: bit_push_bit_iff bit_1_iff possible_bit_word len_num1 len_bit0)
qed (simp add: PTE_P_def bit_1_iff)

lemma low_flags: "(\<And>n. bit f n \<Longrightarrow> n < 12) \<Longrightarrow> baseof f = 0"
  by (rule bit_word_eqI) (auto simp: bit_baseof dest: leD)

lemma flags_WU: "baseof PTE_W = 0" "baseof (PTE_W OR PTE_U) = 0" "baseof (PTE_P OR PTE_U OR PTE_W) = 0" "baseof (PTE_P OR PTE_U) = 0"
  "baseof (PTE_P OR PTE_W) = 0" "baseof PTE_U = 0"
  by (rule low_flags; auto simp: bit_or_iff pte_bits)+

lemma user_dirs_walk:
  assumes "user_dirs a M" "\<And>j. j < 1024 \<Longrightarrow> dir_entry a M' j = (if j = i \<and> \<not> bit (dir_entry a M j) 0
       then T OR PTE_P OR (PTE_W OR PTE_U) else dir_entry a M j)"
  shows "user_dirs a M'"
  unfolding user_dirs_def
proof (intro allI impI)
  fix k assume k: "256 \<le> k \<and> k < 512 \<and> bit (dir_entry a M' k) 0"
  then show "bit (dir_entry a M' k) 1 \<and> bit (dir_entry a M' k) 2"
    using assms(1) assms(2) [of k]
    by (cases "k = i \<and> \<not> bit (dir_entry a M k) 0") (auto simp: user_dirs_def bit_or_iff pte_bits)
qed

text \<open>The pages the address space owns: its directory and its user tables.\<close>

definition user_dir :: "u32 \<Rightarrow> (u32 \<Rightarrow> u32) \<Rightarrow> nat \<Rightarrow> bool" where
  "user_dir a M i \<longleftrightarrow> i < 1024 \<and> bit (dir_entry a M i) 0 \<and> bit (dir_entry a M i) 2"

definition user_pages :: "u32 \<Rightarrow> (u32 \<Rightarrow> u32) \<Rightarrow> u32 set" where
  "user_pages a M = insert (baseof (M a)) ((\<lambda>i. baseof (dir_entry a M i)) ` {i. user_dir a M i})"

text \<open>What \<^verbatim>\<open>map\<close> does after its walk: it writes one entry of the page's table.\<close>

lemma map_put:
  assumes "as_inv a U s" "in_area va uvm_area" "baseof va = va" "ptwalk a va (PTE_W OR PTE_U) s = Inr (e, s1)"
  obtains news where "pg_next s = news @ pg_next s1" "walked a va (vm_mem s1) e" "xlate a (vm_mem s1) = xlate a (vm_mem s)"
    "bit (dir_entry a (vm_mem s1) (dir_index va)) 1" "bit (dir_entry a (vm_mem s1) (dir_index va)) 2"
    "\<And>v. as_inv a (U \<union> set news) (put e v s1)" "\<And>v. \<exists>e'. ptwalk a va (PTE_W OR PTE_U) (put e v s1) = Inr (e', put e v s1)"
    "\<And>v vb. xlate a (vm_mem (put e v s1)) vb = (if baseof vb = va
       then (if bit v 0 then Some (dir_entry a (vm_mem s1) (dir_index va), v) else None) else xlate a (vm_mem s) vb)"
    "\<And>v. vm_mem (put e v s1) a = vm_mem s a"
    "\<And>v. user_pages a (vm_mem (put e v s1)) = user_pages a (vm_mem s) \<union> set news"
proof -
  let ?M = "vm_mem s" and ?F = "PTE_W OR PTE_U"
  have inv: "tree_ok a U ?M" "alloc_ok a U s" "bit (?M a) 0" "user_dirs a ?M" using assms(1) by (auto simp: as_inv_def)
  obtain news T where n: "tree_ok a (U \<union> set news) (vm_mem s1)" "alloc_ok a (U \<union> set news) s1" "pg_next s = news @ pg_next s1"
    "length news = of_bool (\<not> bit (?M a) 0) + of_bool (\<not> bit (dir_entry a ?M (dir_index va)) 0)"
    "walked a va (vm_mem s1) e" "xlate a (vm_mem s1) = xlate a ?M"
    "\<And>j. j < 1024 \<Longrightarrow> dir_entry a (vm_mem s1) j = (if j = dir_index va \<and> \<not> bit (dir_entry a ?M j) 0
       then T OR PTE_P OR ?F else dir_entry a ?M j)"
    "\<not> bit (dir_entry a ?M (dir_index va)) 0 \<Longrightarrow> baseof T = T \<and> T \<in> set news"
    "bit (?M a) 0 \<Longrightarrow> vm_mem s1 a = ?M a"
    by (rule ptwalk_walked [OF inv(1,2) flags_WU(2) assms(4)]) blast
  note we = walked_entry [OF n(5)]
  have ud: "user_dirs a (vm_mem s1)" by (rule user_dirs_walk [OF inv(4) n(7)])
  have pde: "bit (dir_entry a (vm_mem s1) (dir_index va)) 1" "bit (dir_entry a (vm_mem s1) (dir_index va)) 2"
    using ud user_index [OF assms(2)] we(3) by (auto simp: user_dirs_def)
  note wp = walked_put [OF n(1,5) refl]
  have de: "dir_entry a (vm_mem (put e v s1)) j = dir_entry a (vm_mem s1) j" if "j < 1024" for j v
    using wp(4) that by simp
  have c: "vm_mem (put e v s1) a = vm_mem s1 a" for v using wp(3) by simp
  have news: "set news = (if bit (dir_entry a ?M (dir_index va)) 0 then {} else {T})"
    using n(4,8) inv(3) by (cases news) auto
  have up: "user_pages a (vm_mem (put e v s1)) = user_pages a ?M \<union> set news" for v
  proof -
    let ?i = "dir_index va" and ?M' = "vm_mem (put e v s1)"
    have d: "dir_entry a ?M' j = (if j = ?i \<and> \<not> bit (dir_entry a ?M j) 0 then T OR PTE_P OR ?F else dir_entry a ?M j)"
      if "j < 1024" for j using de [OF that] n(7) [OF that] by simp
    have root: "?M' a = ?M a" using c n(9) inv(3) by simp
    show ?thesis
    proof (cases "bit (dir_entry a ?M ?i) 0")
      case True
      then have "dir_entry a ?M' j = dir_entry a ?M j" if "j < 1024" for j using d [OF that] by auto
      then have "user_dir a ?M' = user_dir a ?M" "\<And>j. user_dir a ?M j \<Longrightarrow> dir_entry a ?M' j = dir_entry a ?M j"
        by (auto simp: user_dir_def fun_eq_iff)
      then show ?thesis using news True by (auto simp: user_pages_def root simp del: put_simps(1))
    next
      case False
      have T: "baseof (T OR PTE_P OR ?F) = T" using new_entry(2) [OF _ flags_WU(2)] n(8) [OF False] by blast
      have ud': "user_dir a ?M' j \<longleftrightarrow> j = ?i \<or> user_dir a ?M j" for j
        using d [of j] False by (auto simp: user_dir_def bit_or_iff pte_bits)
      have "baseof (dir_entry a ?M' j) = (if j = ?i then T else baseof (dir_entry a ?M j))" if "user_dir a ?M' j" for j
        using that d [of j] False T by (auto simp: user_dir_def)
      then have "(\<lambda>j. baseof (dir_entry a ?M' j)) ` {j. user_dir a ?M' j} =
          (\<lambda>j. if j = ?i then T else baseof (dir_entry a ?M j)) ` {j. j = ?i \<or> user_dir a ?M j}"
        unfolding ud' by (auto intro!: image_cong)
      also have "\<dots> = insert T ((\<lambda>j. baseof (dir_entry a ?M j)) ` {j. user_dir a ?M j})"
        using False by (auto simp: user_dir_def image_iff)
      finally show ?thesis using news False by (simp add: user_pages_def root insert_commute del: put_simps(1))
    qed
  qed
  show thesis
  proof (rule that [OF n(3,5,6) pde _ _ _ _ up])
    show "as_inv a (U \<union> set news) (put e v s1)" for v
    proof -
      have "user_dirs a (vm_mem (put e v s1))" using ud de by (auto simp: user_dirs_def)
      then show ?thesis using wp(1) n(2) we(2) c unfolding as_inv_def alloc_ok_def by simp
    qed
    show "\<exists>e'. ptwalk a va ?F (put e v s1) = Inr (e', put e v s1)" for v
      by (rule ptwalk_present) (use we(2,3) c de [OF index_less(1), of v va] in simp_all)
    show "xlate a (vm_mem (put e v s1)) vb = (if baseof vb = va
       then (if bit v 0 then Some (dir_entry a (vm_mem s1) (dir_index va), v) else None) else xlate a ?M vb)" for v vb
      using wp(2) [of v vb] we(2) assms(3) n(6) by (simp add: dir_entry_def)
    show "vm_mem (put e v s1) a = ?M a" for v using c n(9) inv(3) by simp
  qed
qed

lemma vm_map_spec:
  assumes "as_inv a U s" "pg_next s \<noteq> []" "0 \<notin> set (pg_next s)"
    and "in_area va uvm_area" "baseof va = va" "baseof pa = pa"
  shows "if prot = MMAP_NONE \<and> xlate a (vm_mem s) va = None
    then vm_map a va pa prot s = Inl (Panic ''unmapping a non-mapped page'')
    else if prot \<noteq> MMAP_NONE \<and> xlate a (vm_mem s) va \<noteq> None
    then vm_map a va pa prot s = Inl (Panic ''remapping a mapped page'')
    else \<exists>s' news. vm_map a va pa prot s = Inr s' \<and> pg_next s = news @ pg_next s' \<and> as_inv a (U \<union> set news) s' \<and>
      (\<forall>vb. if baseof vb \<noteq> va then xlate a (vm_mem s') vb = xlate a (vm_mem s) vb
        else if prot = MMAP_NONE then xlate a (vm_mem s') vb = None
        else \<exists>w. xlate a (vm_mem s') vb = Some w \<and> phys vb w = pa OR (vb AND mask 12) \<and>
          bit (fst w) 2 \<and> bit (snd w) 2 \<and> (user_writable w \<longleftrightarrow> prot AND MMAP_WRITE \<noteq> 0))"
proof -
  let ?M = "vm_mem s" and ?F = "PTE_W OR PTE_U"
  have inv: "tree_ok a U ?M" "alloc_ok a U s" "bit (?M a) 0" using assms(1) by (auto simp: as_inv_def)
  have "of_bool (\<not> bit (?M a) 0) + of_bool (\<not> bit (dir_entry a ?M (dir_index va)) 0) \<le> length (pg_next s)"
    using assms(2) inv(3) by (cases "pg_next s") auto
  then obtain e s1 where w: "ptwalk a va ?F s = Inr (e, s1)"
    using ptwalk_ok [OF inv(1,2) flags_WU(2) assms(3)] by blast
  obtain news where n: "pg_next s = news @ pg_next s1" "walked a va (vm_mem s1) e" "xlate a (vm_mem s1) = xlate a ?M"
    and pde: "bit (dir_entry a (vm_mem s1) (dir_index va)) 1" "bit (dir_entry a (vm_mem s1) (dir_index va)) 2"
    and put: "\<And>v. as_inv a (U \<union> set news) (put e v s1)" "\<And>v. \<exists>e'. ptwalk a va ?F (put e v s1) = Inr (e', put e v s1)"
    "\<And>v vb. xlate a (vm_mem (put e v s1)) vb = (if baseof vb = va
       then (if bit v 0 then Some (dir_entry a (vm_mem s1) (dir_index va), v) else None) else xlate a ?M vb)"
    by (rule map_put [OF assms(1,4,5) w]) blast
  have mapped: "bit (vm_mem s1 e) 0 \<longleftrightarrow> xlate a ?M va \<noteq> None" using walked_entry(1) [OF n(2)] n(3) by simp
  have run: "vm_map a va pa prot s =
      (if prot = MMAP_NONE then if bit (vm_mem s1 e) 0 then Inr (put e 0 s1) else Inl (Panic ''unmapping a non-mapped page'')
       else if bit (vm_mem s1 e) 0 then Inl (Panic ''remapping a mapped page'')
       else Inr (put e (pa OR PTE_P OR PTE_U OR (if prot AND MMAP_WRITE \<noteq> 0 then PTE_W else 0)) s1))"
    using put(2) assms(4-6) by (auto simp: vm_map_def w present_bit echeck_def)
  define v where "v = pa OR (PTE_P OR PTE_U OR (if prot AND MMAP_WRITE \<noteq> 0 then PTE_W else 0))"
  have v: "bit v 0" "bit v 2" "baseof v = pa"
    using baseof_flags [OF assms(6)] flags_WU by (auto simp: v_def bit_or_iff pte_bits or.assoc)
  have vw: "bit v 1 \<longleftrightarrow> prot AND MMAP_WRITE \<noteq> 0"
    using assms(6) bit_baseof [of pa 1] by (simp add: v_def bit_or_iff pte_bits)
  have ph: "phys vb (x, v) = pa OR (vb AND mask 12)" for vb x using v(3) by (simp add: phys_def baseof_mask)
  have v_eq: "pa OR PTE_P OR PTE_U OR (if prot AND MMAP_WRITE \<noteq> 0 then PTE_W else 0) = v" by (simp add: v_def or.assoc)
  show ?thesis
  proof (cases "(prot = MMAP_NONE) = (xlate a ?M va = None)")
    case True
    then show ?thesis using run mapped by auto
  next
    case False
    define x where "x = (if prot = MMAP_NONE then 0 else v)"
    have ex: "vm_map a va pa prot s = Inr (put e x s1)" using run mapped False v_eq by (auto simp: x_def)
    have tr: "if baseof vb \<noteq> va then xlate a (vm_mem (put e x s1)) vb = xlate a ?M vb
        else if prot = MMAP_NONE then xlate a (vm_mem (put e x s1)) vb = None
        else \<exists>w. xlate a (vm_mem (put e x s1)) vb = Some w \<and> phys vb w = pa OR (vb AND mask 12) \<and>
          bit (fst w) 2 \<and> bit (snd w) 2 \<and> (user_writable w \<longleftrightarrow> prot AND MMAP_WRITE \<noteq> 0)" for vb
      unfolding put(3) using v vw ph pde by (auto simp: x_def user_writable_def)
    have neg: "\<not> (prot = MMAP_NONE \<and> xlate a ?M va = None)" "\<not> (prot \<noteq> MMAP_NONE \<and> xlate a ?M va \<noteq> None)"
      using False by auto
    have pg: "pg_next s = news @ pg_next (put e x s1)" using n(1) by simp
    show ?thesis unfolding if_not_P [OF neg(1)] if_not_P [OF neg(2)] using ex pg put(1) tr by blast
  qed
qed

text \<open>
  C17: \<^verbatim>\<open>map\<close> implements a map from pages to frames. In an address space in use, with a page left to
  allocate, mapping an aligned user page that is unmapped makes the processor translate every address in it to
  the same offset of the given frame, for user mode, and for writing exactly if the protection says so;
  unmapping a mapped page makes it fault. Every other address translates as before, and the tables stay
  well-formed. Mapping a mapped page and unmapping an unmapped one panic.
\<close>

theorem map_translates:
  assumes "as_inv a U s" "pg_next s \<noteq> []" "0 \<notin> set (pg_next s)"
    and "in_area va uvm_area" "baseof va = va" "baseof pa = pa"
  shows "if prot = MMAP_NONE \<and> xlate a (vm_mem s) va = None
    then vm_map a va pa prot s = Inl (Panic ''unmapping a non-mapped page'')
    else if prot \<noteq> MMAP_NONE \<and> xlate a (vm_mem s) va \<noteq> None
    then vm_map a va pa prot s = Inl (Panic ''remapping a mapped page'')
    else \<exists>s' news. vm_map a va pa prot s = Inr s' \<and> pg_next s = news @ pg_next s' \<and> as_inv a (U \<union> set news) s' \<and>
      (\<forall>vb. if baseof vb \<noteq> va then xlate a (vm_mem s') vb = xlate a (vm_mem s) vb
        else if prot = MMAP_NONE then xlate a (vm_mem s') vb = None
        else \<exists>w. xlate a (vm_mem s') vb = Some w \<and> phys vb w = pa OR (vb AND mask 12) \<and>
          bit (fst w) 2 \<and> bit (snd w) 2 \<and> (user_writable w \<longleftrightarrow> prot AND MMAP_WRITE \<noteq> 0))"
  by (rule vm_map_spec [OF assms])

definition sample_vm :: "u32 \<Rightarrow> u32 list \<Rightarrow> vm" where
  "sample_vm root pages = \<lparr>vm_mem = (\<lambda>_. 0)(0x100 := root), pg_next = pages, pg_freed = [], kpt = 0x3000, cr3 = 0x3000, cr0 = 0, cpu_no = 0\<rparr>"

lemma sample_low: "unat p < 4096 \<Longrightarrow> baseof p = 0"
  by (simp add: word_unat_eq_iff unat_baseof)

lemma sample_ent: "ent 0x2000 i \<noteq> 0x100" "ent 0x3000 i \<noteq> 0x100" if "i < 1024" for i
  using ent_not_cell [of "0x2000" "0x100" i] ent_not_cell [of "0x3000" "0x100" i] that
  by (simp_all add: aligned_iff sample_low)

lemma sample_as_inv: "as_inv 0x100 {0x2000} (sample_vm (0x2000 OR PTE_P OR PTE_U) [0x4000])"
proof -
  have b: "baseof (0x2000 OR PTE_P OR PTE_U) = 0x2000"
    using baseof_flags [of "0x2000" "PTE_P OR PTE_U"] flags_WU(4) by (simp add: aligned_iff or.assoc)
  have "bit (0x2000 OR PTE_P OR PTE_U) 0" by (simp add: bit_or_iff pte_bits)
  then show ?thesis
    using sample_ent
    by (auto simp: as_inv_def tree_ok_def alloc_ok_def user_dirs_def dir_entry_def sample_vm_def b aligned_iff sample_low)
qed

theorem map_translates_witness:
  "\<exists>s' news. vm_map 0x100 0x40001000 0x9000 3 (sample_vm (0x2000 OR PTE_P OR PTE_U) [0x4000]) = Inr s' \<and>
    [0x4000] = news @ pg_next s' \<and> as_inv 0x100 ({0x2000} \<union> set news) s' \<and>
    (\<exists>w. xlate 0x100 (vm_mem s') 0x40001234 = Some w \<and> phys 0x40001234 w = 0x9234 \<and> user_writable w)"
proof -
  let ?s = "sample_vm (0x2000 OR PTE_P OR PTE_U) [0x4000]"
  have b: "baseof (0x2000 OR PTE_P OR PTE_U) = 0x2000"
    using baseof_flags [of "0x2000" "PTE_P OR PTE_U"] flags_WU(4) by (simp add: aligned_iff or.assoc)
  have free: "xlate 0x100 (vm_mem ?s) 0x40001000 = None"
    using sample_ent [OF index_less(1), of "0x40001000"] b
    by (simp add: xlate_def page_walk_def sample_vm_def baseof_mask [symmetric])
  have args: "in_area 0x40001000 uvm_area" "baseof 0x40001000 = 0x40001000" "baseof 0x9000 = 0x9000"
    by (simp_all add: in_area_def vm_areas_def aligned_iff)
  have pages: "pg_next ?s = [0x4000]" by (simp add: sample_vm_def)
  have room: "pg_next ?s \<noteq> []" "0 \<notin> set (pg_next ?s)" by (simp_all add: pages)
  have prot: "(3 = MMAP_NONE) = False" "3 AND MMAP_WRITE \<noteq> 0" by (simp_all add: MMAP_NONE_def MMAP_WRITE_def)
  obtain s' news where s': "vm_map 0x100 0x40001000 0x9000 3 ?s = Inr s'" "[0x4000] = news @ pg_next s'"
      "as_inv 0x100 ({0x2000} \<union> set news) s'"
    and all: "\<forall>vb. if baseof vb \<noteq> 0x40001000 then xlate 0x100 (vm_mem s') vb = xlate 0x100 (vm_mem ?s) vb
        else \<exists>w. xlate 0x100 (vm_mem s') vb = Some w \<and> phys vb w = 0x9000 OR (vb AND mask 12) \<and>
          bit (fst w) 2 \<and> bit (snd w) 2 \<and> (user_writable w \<longleftrightarrow> (3 :: u32) AND MMAP_WRITE \<noteq> 0)"
    using map_translates [OF sample_as_inv room args, of 3, unfolded prot(1) free pages simp_thms if_False] by blast
  have "baseof 0x40001234 = 0x40001000" by (simp add: word_unat_eq_iff unat_baseof)
  moreover have "(0x9000 OR (0x40001234 AND mask 12) :: u32) = 0x9234" by (simp add: mask_eq_exp_minus_1)
  ultimately have "\<exists>w. xlate 0x100 (vm_mem s') 0x40001234 = Some w \<and> phys 0x40001234 w = 0x9234 \<and> user_writable w"
    using spec [OF all, of "0x40001234"] prot(2) by auto
  then show ?thesis using s' by blast
qed

section \<open>Loops over the kernel areas\<close>

primrec foldm :: "('a \<Rightarrow> 's \<Rightarrow> 's res) \<Rightarrow> 'a list \<Rightarrow> 's \<Rightarrow> 's res" where
  "foldm f [] s = Inr s"
| "foldm f (x # xs) s = ebind (f x s) (foldm f xs)"

lemma foldm_append: "foldm f (xs @ ys) s = ebind (foldm f xs s) (foldm f ys)"
  by (induction xs arbitrary: s) (simp_all add: ebind_def split: sum.split)

definition steps_from :: "u32 \<Rightarrow> u32 \<Rightarrow> nat \<Rightarrow> u32 list" where
  "steps_from start step n = map (\<lambda>k. start + step * of_nat k) [0..<n]"

lemma steps_from_Suc: "steps_from start step (Suc n) = start # steps_from (start + step) step n"
  unfolding steps_from_def upt_conv_Cons [OF zero_less_Suc] map_Suc_upt [symmetric]
  by (simp add: algebra_simps del: upt_Suc)

text \<open>The loop visits the multiples of the step and returns.\<close>

lemma range_loop_steps:
  "stop = start + step * of_nat n \<Longrightarrow> (\<And>k. k < n \<Longrightarrow> start + step * of_nat k \<noteq> stop) \<Longrightarrow>
    range_loop step f start stop s = Some (foldm f (steps_from start step n) s)"
proof (induction n arbitrary: start s)
  case 0
  then show ?case by (subst range_loop.simps) (simp add: steps_from_def)
next
  case (Suc n)
  have ne: "start \<noteq> stop" using Suc.prems(2) [of 0] by simp
  have ih: "range_loop step f (start + step) stop s' = Some (foldm f (steps_from (start + step) step n) s')" for s'
    by (rule Suc.IH) (use Suc.prems(1) Suc.prems(2) [of "Suc _"] in \<open>simp_all add: algebra_simps\<close>)
  show ?case
    using ne ih by (subst range_loop.simps) (simp add: steps_from_Suc ebind_def split: sum.split)
qed

lemma unat_step:
  fixes start step :: u32
  assumes "unat start + unat step * k < 2 ^ 32"
  shows "unat (start + step * of_nat k) = unat start + unat step * k"
proof -
  have "start + step * of_nat k = of_nat (unat start + unat step * k)" by simp
  then show ?thesis using assms by (simp only: unat_of_nat) (simp add: take_bit_nat_eq_self)
qed

lemma steps_not_stop:
  fixes start step :: u32
  assumes "unat start + unat step * n \<le> 2 ^ 32" "0 < unat step" "k < n" "start \<noteq> 0 \<or> unat start + unat step * n < 2 ^ 32"
  shows "start + step * of_nat k \<noteq> start + step * of_nat n"
proof
  assume eq: "start + step * of_nat k = start + step * of_nat n"
  have lt: "unat start + unat step * k < unat start + unat step * n" using assms(2,3) by simp
  have k: "unat (start + step * of_nat k) = unat start + unat step * k"
    by (rule unat_step [OF less_le_trans [OF lt assms(1)]])
  show False
  proof (cases "unat start + unat step * n < 2 ^ 32")
    case True
    then show False using eq k lt unat_step [OF True] by simp
  next
    case False
    then have "unat start + unat step * n = 2 ^ 32" using assms(1) by simp
    moreover have "start + step * of_nat n = of_nat (unat start + unat step * n)" by simp
    ultimately have "unat (start + step * of_nat k) = 0" using eq by simp
    then show False using k assms(4) False by (simp add: unat_eq_zero)
  qed
qed

text \<open>The kernel areas, page by page or directory entry by directory entry.\<close>

definition kernel_steps :: "u32 \<Rightarrow> nat \<Rightarrow> nat \<Rightarrow> u32 list" where
  "kernel_steps step n1 n2 = steps_from 0 step n1 @ steps_from 0xfd000000 step n2"

lemma area_loop_kernel:
  assumes "unat step * n1 = 0x40000000" "unat step * n2 = 0x3000000"
  shows "area_loop step f vm_areas s = Some (foldm f (kernel_steps step n1 n2) s)"
proof -
  have pos: "0 < unat step" using assms(1) by (cases "unat step") auto
  have e: "step * of_nat n1 = 0x40000000" "step * of_nat n2 = 0x3000000"
  proof -
    have "step * of_nat n1 = of_nat (unat step * n1)" "step * of_nat n2 = of_nat (unat step * n2)" by simp_all
    then show "step * of_nat n1 = 0x40000000" "step * of_nat n2 = 0x3000000" unfolding assms by simp_all
  qed
  have 1: "range_loop step f 0 0x40000000 s = Some (foldm f (steps_from 0 step n1) s)" for s
    by (rule range_loop_steps) (use steps_not_stop [of 0 step n1] e assms pos in auto)
  have z: "0xfd000000 + step * of_nat n2 = 0" by (simp add: e)
  have 2: "range_loop step f 0xfd000000 0 s = Some (foldm f (steps_from 0xfd000000 step n2) s)" for s
    by (rule range_loop_steps) (use steps_not_stop [of "0xfd000000" step n2, unfolded z] z assms pos in auto)
  show ?thesis
    by (simp add: vm_areas_def 1 2 kernel_steps_def foldm_append split: sum.split)
qed

section \<open>New address spaces\<close>

text \<open>The directory entries of the kernel areas.\<close>

definition kernel_dir :: "nat \<Rightarrow> bool" where
  "kernel_dir i \<longleftrightarrow> i < 256 \<or> 1012 \<le> i \<and> i < 1024"

lemma dir_index_4M:
  assumes "unat start mod 4194304 = 0" "unat start + 4194304 * k < 2 ^ 32"
  shows "dir_index (start + 4194304 * of_nat k) = unat start div 4194304 + k"
  using unat_step [of start 4194304 k] assms by (simp add: dir_index_div)

lemma kernel_steps_dirs: "dir_index ` set (kernel_steps 4194304 256 12) = {i. kernel_dir i}"
proof -
  have a: "dir_index (0 + 4194304 * of_nat k) = k" if "k < 256" for k using dir_index_4M [of 0 k] that by simp
  have b: "dir_index (0xfd000000 + 4194304 * of_nat k) = 1012 + k" if "k < 12" for k using dir_index_4M [of "0xfd000000" k] that by simp
  have "dir_index ` set (steps_from 0 4194304 256) = {..<256}"
    unfolding steps_from_def set_map image_image set_upt by (force simp: a [simplified] image_iff)
  moreover have "dir_index ` set (steps_from 0xfd000000 4194304 12) = {1012..<1024}"
  proof -
    have "dir_index ` set (steps_from 0xfd000000 4194304 12) = (\<lambda>k. 1012 + k) ` {0..<12}"
      unfolding steps_from_def set_map image_image set_upt by (rule image_cong) (simp_all add: b)
    then show ?thesis by (simp only: image_add_atLeastLessThan) simp
  qed
  ultimately show ?thesis by (auto simp: kernel_steps_def image_Un kernel_dir_def)
qed

lemma share_kernel_loop:
  assumes "baseof u = u" "baseof (kpt s) = kpt s" "u \<noteq> kpt s"
  shows "\<exists>s'. foldm (share_kernel u) ps s = Inr s' \<and> s' = s\<lparr>vm_mem := vm_mem s'\<rparr> \<and>
    (\<forall>i < 1024. vm_mem s' (ent u i) = (if i \<in> dir_index ` set ps then vm_mem s (ent (kpt s) i) else vm_mem s (ent u i))) \<and>
    (\<forall>x. baseof x \<noteq> u \<longrightarrow> vm_mem s' x = vm_mem s x)"
  using assms(2,3)
proof (induction ps arbitrary: s)
  case (Cons p ps)
  let ?i = "dir_index p"
  define s1 where "s1 = put (ent u ?i) (vm_mem s (ent (kpt s) ?i)) s"
  have step: "share_kernel u p s = Inr s1" by (simp add: share_kernel_def s1_def Let_def dir_index_eq)
  have k: "kpt s1 = kpt s" by (simp add: s1_def)
  obtain s' where s': "foldm (share_kernel u) ps s1 = Inr s'" "s' = s1\<lparr>vm_mem := vm_mem s'\<rparr>"
    "\<forall>i < 1024. vm_mem s' (ent u i) = (if i \<in> dir_index ` set ps then vm_mem s1 (ent (kpt s) i) else vm_mem s1 (ent u i))"
    "\<forall>x. baseof x \<noteq> u \<longrightarrow> vm_mem s' x = vm_mem s1 x"
    using Cons.IH [of s1] Cons.prems k by auto
  have kd: "vm_mem s1 (ent (kpt s) i) = vm_mem s (ent (kpt s) i)" if "i < 1024" for i
    using ent_inject [OF Cons.prems(1) assms(1) that index_less(1)] Cons.prems(2) by (auto simp: s1_def)
  have ud: "vm_mem s1 (ent u i) = (if i = ?i then vm_mem s (ent (kpt s) i) else vm_mem s (ent u i))" if "i < 1024" for i
    using ent_inject [OF assms(1,1) that index_less(1)] by (auto simp: s1_def)
  have fr: "vm_mem s1 x = vm_mem s x" if "baseof x \<noteq> u" for x
    using that ent_page [OF assms(1) index_less(1)] by (auto simp: s1_def)
  have eq: "s' = s\<lparr>vm_mem := vm_mem s'\<rparr>" using s'(2) by (simp add: s1_def put_def)
  show ?case
    by (intro exI [of _ s'] conjI) (use step s' kd ud fr eq in auto)
qed simp

text \<open>The kernel's own tables, as \<^verbatim>\<open>vme_init\<close> leaves them: only kernel areas, closed to the user.\<close>

definition kernel_ok :: "u32 \<Rightarrow> u32 set \<Rightarrow> vm \<Rightarrow> bool" where
  "kernel_ok a U s \<longleftrightarrow> (\<forall>p \<in> U. baseof p = p \<and> p \<noteq> baseof a) \<and> kpt s \<in> U \<and>
    (\<forall>i < 1024. bit (vm_mem s (ent (kpt s) i)) 0 \<longrightarrow> kernel_dir i \<and> \<not> bit (vm_mem s (ent (kpt s) i)) 2 \<and>
       baseof (vm_mem s (ent (kpt s) i)) \<in> U \<and> baseof (vm_mem s (ent (kpt s) i)) \<noteq> kpt s) \<and>
    (\<forall>i < 1024. \<forall>j < 1024. bit (vm_mem s (ent (kpt s) i)) 0 \<longrightarrow> bit (vm_mem s (ent (kpt s) j)) 0 \<longrightarrow>
       baseof (vm_mem s (ent (kpt s) i)) = baseof (vm_mem s (ent (kpt s) j)) \<longrightarrow> i = j)"

lemma protect_ok:
  assumes "kernel_ok a U s" "alloc_ok a U s" "pg_next s = u # rest" "u \<noteq> 0"
  obtains as s' where "x86_protect a s = Some (Inr (as, s'))" "as = \<lparr>as_pgsize = 4096, as_area = uvm_area\<rparr>"
    "as_inv a (insert u U) s'" "vm_mem s' a = u OR PTE_P OR PTE_U" "baseof (vm_mem s' a) = u"
    "user_pages a (vm_mem s') = {u}" "pg_next s' = rest" "pg_freed s' = pg_freed s" "kpt s' = kpt s"
    "\<And>va. xlate a (vm_mem s') va = (if kernel_dir (dir_index va) then page_walk (vm_mem s) (kpt s) va else None)"
    "\<And>x. x \<noteq> a \<Longrightarrow> baseof x \<noteq> u \<Longrightarrow> vm_mem s' x = vm_mem s x"
proof -
  let ?k = "kpt s" and ?M = "vm_mem s"
  have u: "baseof u = u" "u \<notin> U" "u \<noteq> baseof a" using assms(2,3) by (auto simp: alloc_ok_def)
  have k: "?k \<in> U" "baseof ?k = ?k" "?k \<noteq> baseof a" "u \<noteq> ?k" using assms(1) u(2) by (auto simp: kernel_ok_def)
  define s1 where "s1 = clear_words 1024 u (s\<lparr>pg_next := rest\<rparr>)"
  have al: "pgallocz s = Inr (u, s1)" by (simp add: pgallocz_def assms(3,4) s1_def)
  have m1: "vm_mem s1 (ent u i) = 0" if "i < 1024" for i using that by (auto simp: s1_def clear_words_mem)
  have m1': "vm_mem s1 x = ?M x" if "baseof x \<noteq> u" for x
    using that ent_page [OF u(1)] by (auto simp: s1_def clear_words_mem)
  have k1: "kpt s1 = ?k" by (simp add: s1_def)
  obtain s2 where s2: "foldm (share_kernel u) (kernel_steps 4194304 256 12) s1 = Inr s2" "s2 = s1\<lparr>vm_mem := vm_mem s2\<rparr>"
    "\<forall>i < 1024. vm_mem s2 (ent u i) = (if kernel_dir i then vm_mem s1 (ent ?k i) else vm_mem s1 (ent u i))"
    "\<forall>x. baseof x \<noteq> u \<longrightarrow> vm_mem s2 x = vm_mem s1 x"
    using share_kernel_loop [of u s1 "kernel_steps 4194304 256 12"] u(1) k k1 by (auto simp: kernel_steps_dirs)
  define s' where "s' = put a (u OR PTE_P OR PTE_U) s2"
  have run: "x86_protect a s = Some (Inr (\<lparr>as_pgsize = 4096, as_area = uvm_area\<rparr>, s'))"
    using area_loop_kernel [of 4194304 256 12 "share_kernel u" s1] al s2(1) by (simp add: x86_protect_def s'_def)
  note e = new_entry [OF u(1) flags_WU(6)]
  have root: "vm_mem s' a = u OR PTE_P OR PTE_U" by (simp add: s'_def)
  have dir: "vm_mem s' (ent u i) = (if kernel_dir i then ?M (ent ?k i) else 0)" if "i < 1024" for i
    using that s2(3) m1 m1' [of "ent ?k i"] ent_page [OF k(2) that] k(4) ent_not_cell [OF u(1,3) that]
    by (auto simp: s'_def)
  have fr: "vm_mem s' x = ?M x" if "x \<noteq> a" "baseof x \<noteq> u" for x using that s2(4) m1' by (simp add: s'_def)
  have de: "dir_entry a (vm_mem s') i = (if kernel_dir i then ?M (ent ?k i) else 0)" if "i < 1024" for i
    using dir [OF that] e by (simp add: dir_entry_def root)
  have tree: "tree_ok a (insert u U) (vm_mem s')"
    unfolding tree_ok_def root e(2)
    using u k(1) assms(1) dir by (auto simp: kernel_ok_def)
  have "user_dirs a (vm_mem s')"
    using de by (auto simp: user_dirs_def kernel_dir_def)
  moreover have rest: "pg_next s' = rest" "pg_freed s' = pg_freed s" "kpt s' = ?k"
    by (simp add: s'_def, subst s2(2), simp add: s1_def)+
  ultimately have inv: "as_inv a (insert u U) s'"
    using tree assms(2,3) e by (auto simp: as_inv_def alloc_ok_def root)
  have "\<not> user_dir a (vm_mem s') i" for i
    using de [of i] assms(1) by (auto simp: user_dir_def kernel_ok_def split: if_splits)
  then have up: "user_pages a (vm_mem s') = {u}" by (simp add: user_pages_def root e(2))
  have xl: "xlate a (vm_mem s') va = (if kernel_dir (dir_index va) then page_walk ?M ?k va else None)" for va
  proof -
    let ?e = "?M (ent ?k (dir_index va))"
    have "vm_mem s' (ent (baseof ?e) (tab_index va)) = ?M (ent (baseof ?e) (tab_index va))" if "bit ?e 0"
    proof -
      have "baseof ?e \<in> U" using assms(1) that index_less(1) by (auto simp: kernel_ok_def)
      then have "baseof ?e \<noteq> baseof a" "baseof ?e \<noteq> u" using assms(1) u(2) by (auto simp: kernel_ok_def)
      then show ?thesis
        using fr [of "ent (baseof ?e) (tab_index va)"] ent_page [of "baseof ?e" "tab_index va"] by (metis baseof_idem index_less(2))
    qed
    then show ?thesis
      using dir [OF index_less(1), of va] e k(2) by (auto simp: xlate_def page_walk_base Let_def root)
  qed
  show thesis using that [OF run refl inv root _ up rest xl fr] e(2) by (simp add: root)
qed

section \<open>Tearing down\<close>

lemma user_bit: "e AND PTE_U = 0 \<longleftrightarrow> \<not> bit e 2"
proof -
  have b: "bit (e AND PTE_U) n \<longleftrightarrow> n = 2 \<and> bit e 2" for n by (auto simp: bit_and_iff pte_bits)
  show ?thesis
  proof
    assume "e AND PTE_U = 0"
    then show "\<not> bit e 2" using b [of 2] by simp
  next
    assume "\<not> bit e 2"
    then show "e AND PTE_U = 0" by (intro bit_word_eqI) (simp add: b)
  qed
qed

lemma teardown_leaf: "teardown [info] 2 T s = pgfree T s"
proof -
  have "fold (\<lambda>_ s. s) xs s = s" for xs :: "nat list" and s :: vm by (induction xs) simp_all
  then show ?thesis by (simp add: Let_def cong: if_cong)
qed

lemma free_loop:
  "fold (\<lambda>i s. if c i (vm_mem s) then pgfree (g i (vm_mem s)) s else s) xs s =
    s\<lparr>pg_freed := pg_freed s @ map (\<lambda>i. g i (vm_mem s)) (filter (\<lambda>i. c i (vm_mem s)) xs)\<rparr>"
  by (induction xs arbitrary: s) (auto simp: pgfree_def)

lemma unprotect_frees:
  assumes "bit (vm_mem s a) 0" "bit (vm_mem s a) 2"
  shows "unprotect a s = s\<lparr>pg_freed := pg_freed s @
    map (\<lambda>i. baseof (dir_entry a (vm_mem s) i)) (filter (user_dir a (vm_mem s)) [0..<1024]) @ [baseof (vm_mem s a)]\<rparr>"
proof -
  let ?D = "baseof (vm_mem s a)" and ?M = "vm_mem s"
  have dir: "teardown [l1, l2] 1 D s = s\<lparr>pg_freed := pg_freed s @
      map (\<lambda>i. baseof (?M (ent D i))) (filter (\<lambda>i. bit (?M (ent D i)) 0 \<and> bit (?M (ent D i)) 2) [0..<1024]) @ [D]\<rparr>"
    if "pt_bits l1 = 10" for l1 l2 D
  proof -
    have "teardown [l1, l2] 1 D s = pgfree D (fold (\<lambda>i s. if bit (vm_mem s (ent D i)) 0 \<and> bit (vm_mem s (ent D i)) 2
        then pgfree (baseof (vm_mem s (ent D i))) s else s) [0..<1024] s)"
      using that teardown_leaf [of l2]
      by (subst teardown.simps(2)) (simp add: Let_def present_bit user_bit flip: numeral_2_eq_2 del: teardown.simps cong: if_cong)
    also have "\<dots> = pgfree D (s\<lparr>pg_freed := pg_freed s @
      map (\<lambda>i. baseof (?M (ent D i))) (filter (\<lambda>i. bit (?M (ent D i)) 0 \<and> bit (?M (ent D i)) 2) [0..<1024])\<rparr>)"
      by (rule arg_cong [OF free_loop [where c = "\<lambda>i M. bit (M (ent D i)) 0 \<and> bit (M (ent D i)) 2" and g = "\<lambda>i M. baseof (M (ent D i))"]])
    finally show ?thesis by (simp add: pgfree_def)
  qed
  have ud: "filter (user_dir a ?M) [0..<1024] = filter (\<lambda>i. bit (?M (ent ?D i)) 0 \<and> bit (?M (ent ?D i)) 2) [0..<1024]"
    using assms(1) by (intro filter_cong) (auto simp: user_dir_def dir_entry_def)
  have "teardown [l0, l1, l2] 0 a s = teardown [l1, l2] 1 ?D s" if "pt_bits l0 = 0" for l0 l1 l2
    using that assms by (subst teardown.simps(2)) (simp add: Let_def present_bit user_bit del: teardown.simps)
  then show ?thesis
    using assms(1) dir by (simp add: unprotect_def ud dir_entry_def del: teardown.simps)
qed

section \<open>The life of an address space\<close>

primrec run_maps :: "u32 \<Rightarrow> (u32 \<times> u32 \<times> u32) list \<Rightarrow> vm \<Rightarrow> vm res" where
  "run_maps a [] s = Inr s"
| "run_maps a (op # ops) s = (case op of (va, pa, prot) \<Rightarrow> ebind (vm_map a va pa prot s) (run_maps a ops))"

lemma ptwalk_freed: "ptwalk a va flags s = Inr (e, s') \<Longrightarrow> pg_freed s' = pg_freed s"
proof -
  have step: "pg_freed s' = pg_freed s" if "walk_step flags slot s = Inr (p, s')" for slot p s s'
    using that by (cases rule: walk_step_cases) auto
  show "ptwalk a va flags s = Inr (e, s') \<Longrightarrow> ?thesis"
    by (auto simp: ptwalk_steps dest!: step)
qed

lemma vm_map_keeps:
  assumes "as_inv a U s" "vm_map a va pa prot s = Inr s'"
  shows "\<exists>news. pg_next s = news @ pg_next s' \<and> as_inv a (U \<union> set news) s' \<and> vm_mem s' a = vm_mem s a \<and>
    user_pages a (vm_mem s') = user_pages a (vm_mem s) \<union> set news \<and> pg_freed s' = pg_freed s"
proof -
  have g: "in_area va uvm_area" "baseof va = va" using assms(2) by (auto simp: vm_map_def)
  obtain e s1 v e3 where w: "ptwalk a va (PTE_W OR PTE_U) s = Inr (e, s1)"
    and m: "ptwalk a va (PTE_W OR PTE_U) (put e v s1) = Inr (e3, s')"
    using assms(2) by (auto simp: vm_map_def split: if_splits)
  obtain news where n: "pg_next s = news @ pg_next s1" "\<And>v. as_inv a (U \<union> set news) (put e v s1)"
    "\<And>v. \<exists>e'. ptwalk a va (PTE_W OR PTE_U) (put e v s1) = Inr (e', put e v s1)"
    "\<And>v. vm_mem (put e v s1) a = vm_mem s a"
    "\<And>v. user_pages a (vm_mem (put e v s1)) = user_pages a (vm_mem s) \<union> set news"
    by (rule map_put [OF assms(1) g w]) blast
  have s': "s' = put e v s1" using m n(3) [of v] by auto
  show ?thesis
    using n(1,2,4,5) ptwalk_freed [OF w] unfolding s' by (intro exI [of _ news]) (simp del: put_simps(1))
qed

lemma run_maps_keeps:
  "as_inv a U s \<Longrightarrow> run_maps a ops s = Inr s' \<Longrightarrow>
   \<exists>news. pg_next s = news @ pg_next s' \<and> as_inv a (U \<union> set news) s' \<and> vm_mem s' a = vm_mem s a \<and>
    user_pages a (vm_mem s') = user_pages a (vm_mem s) \<union> set news \<and> pg_freed s' = pg_freed s"
proof (induction ops arbitrary: s U)
  case Nil
  then show ?case by simp
next
  case (Cons op ops)
  obtain va pa prot where op: "op = (va, pa, prot)" by (cases op)
  obtain s1 where s1: "vm_map a va pa prot s = Inr s1" "run_maps a ops s1 = Inr s'" using Cons.prems(2) op by auto
  obtain n1 where n1: "pg_next s = n1 @ pg_next s1" "as_inv a (U \<union> set n1) s1" "vm_mem s1 a = vm_mem s a"
    "user_pages a (vm_mem s1) = user_pages a (vm_mem s) \<union> set n1" "pg_freed s1 = pg_freed s"
    using vm_map_keeps [OF Cons.prems(1) s1(1)] by blast
  obtain n2 where "pg_next s1 = n2 @ pg_next s'" "as_inv a (U \<union> set n1 \<union> set n2) s'" "vm_mem s' a = vm_mem s1 a"
    "user_pages a (vm_mem s') = user_pages a (vm_mem s1) \<union> set n2" "pg_freed s' = pg_freed s1"
    using Cons.IH [OF n1(2) s1(2)] by blast
  then show ?case using n1 by (intro exI [of _ "n1 @ n2"]) (auto simp: Un_assoc)
qed

text \<open>
  C18: an address space gives back exactly the pages it took. After \<^verbatim>\<open>protect\<close> and any sequence of successful
  \<^verbatim>\<open>map\<close> calls, \<^verbatim>\<open>unprotect\<close> frees every page that was allocated for the address space since, each exactly once,
  and nothing else: the kernel's tables it shares and the frames that were mapped are not freed.
\<close>

theorem address_space_frees_its_pages:
  assumes "kernel_ok a U s" "alloc_ok a U s"
    and "x86_protect a s = Some (Inr (as, s1))" "run_maps a ops s1 = Inr s2"
  shows "\<exists>taken freed. pg_next s = taken @ pg_next s2 \<and> pg_freed (unprotect a s2) = pg_freed s @ freed \<and>
    distinct freed \<and> set freed = set taken \<and> set freed \<inter> U = {} \<and> vm_mem (unprotect a s2) = vm_mem s2"
proof -
  obtain u rest where ur: "pg_next s = u # rest" "u \<noteq> 0"
    using assms(3) by (auto simp: x86_protect_def pgallocz_def split: list.splits sum.splits prod.splits if_splits)
  obtain as' s1' where p: "x86_protect a s = Some (Inr (as', s1'))" "as_inv a (insert u U) s1'"
    "vm_mem s1' a = u OR PTE_P OR PTE_U" "baseof (vm_mem s1' a) = u" "user_pages a (vm_mem s1') = {u}" "pg_next s1' = rest"
    "pg_freed s1' = pg_freed s"
    by (rule protect_ok [OF assms(1,2) ur]) blast
  have eq: "s1' = s1" using p(1) assms(3) by simp
  obtain news where n: "rest = news @ pg_next s2" "as_inv a (insert u U \<union> set news) s2" "vm_mem s2 a = vm_mem s1 a"
    "user_pages a (vm_mem s2) = {u} \<union> set news" "pg_freed s2 = pg_freed s"
    using run_maps_keeps [OF p(2) [unfolded eq] assms(4)] p eq by auto
  let ?M = "vm_mem s2" and ?ds = "filter (user_dir a (vm_mem s2)) [0..<1024]"
  have root: "bit (?M a) 0" "bit (?M a) 2" "baseof (?M a) = u"
    using p(3,4) n(3) eq by (auto simp: bit_or_iff pte_bits)
  define freed where "freed = map (\<lambda>i. baseof (dir_entry a ?M i)) ?ds @ [u]"
  have un: "unprotect a s2 = s2\<lparr>pg_freed := pg_freed s @ freed\<rparr>"
    using unprotect_frees [OF root(1,2)] root(3) n(5) by (simp add: freed_def)
  have sf: "set freed = user_pages a ?M"
    by (auto simp: freed_def user_pages_def root(3) user_dir_def)
  have tree: "tree_ok a (insert u U \<union> set news) ?M" using n(2) by (simp add: as_inv_def)
  have "inj_on (\<lambda>i. baseof (dir_entry a ?M i)) (set ?ds)"
  proof (rule inj_onI)
    fix i j assume "i \<in> set ?ds" "j \<in> set ?ds" "baseof (dir_entry a ?M i) = baseof (dir_entry a ?M j)"
    then show "i = j"
      using tree_tab(3) [OF tree root(1) refl, of i j] root(1) by (auto simp: user_dir_def dir_entry_def)
  qed
  moreover have "baseof (dir_entry a ?M i) \<noteq> u" if "i \<in> set ?ds" for i
    using tree_tab(2) [OF tree root(1) refl, of i] that root(1,3) by (auto simp: user_dir_def dir_entry_def)
  ultimately have "distinct freed" by (auto simp: freed_def distinct_map)
  moreover have "set freed \<inter> U = {}"
    using sf n(1,4) ur(1) assms(2) by (auto simp: alloc_ok_def)
  ultimately show ?thesis
    using un sf n(1,4) ur(1) by (intro exI [of _ "u # news"] exI [of _ freed]) auto
qed

theorem address_space_frees_its_pages_witness:
  "\<exists>as s1 s2 taken freed. x86_protect 0x100 (sample_vm 0 [0x4000, 0x5000]) = Some (Inr (as, s1)) \<and>
    run_maps 0x100 [(0x40001000, 0x9000, 3)] s1 = Inr s2 \<and>
    [0x4000, 0x5000] = taken @ pg_next s2 \<and> pg_freed (unprotect 0x100 s2) = freed \<and> set freed = set taken \<and> distinct freed"
proof -
  let ?s = "sample_vm 0 [0x4000, 0x5000]"
  have k: "kernel_ok 0x100 {0x3000} ?s" "alloc_ok 0x100 {0x3000} ?s"
    using sample_ent by (auto simp: kernel_ok_def alloc_ok_def sample_vm_def aligned_iff sample_low)
  obtain as s1 where p: "x86_protect 0x100 ?s = Some (Inr (as, s1))" "as_inv 0x100 (insert 0x4000 {0x3000}) s1" "pg_next s1 = [0x5000]"
    "\<And>va. xlate 0x100 (vm_mem s1) va = (if kernel_dir (dir_index va) then page_walk (vm_mem ?s) (kpt ?s) va else None)"
    by (rule protect_ok [OF k, of "0x4000" "[0x5000]"]) (simp_all add: sample_vm_def)
  have "\<not> kernel_dir (dir_index 0x40001000)" by (simp add: kernel_dir_def dir_index_div)
  then have free: "xlate 0x100 (vm_mem s1) 0x40001000 = None" by (simp add: p(4))
  have args: "in_area 0x40001000 uvm_area" "baseof 0x40001000 = 0x40001000" "baseof 0x9000 = 0x9000"
    by (simp_all add: in_area_def vm_areas_def aligned_iff)
  have room: "pg_next s1 \<noteq> []" "0 \<notin> set (pg_next s1)" by (simp_all add: p(3))
  have prot: "(3 = MMAP_NONE) = False" by (simp add: MMAP_NONE_def)
  obtain s2 where "vm_map 0x100 0x40001000 0x9000 3 s1 = Inr s2"
    using vm_map_spec [OF p(2) room args, of 3, unfolded prot free simp_thms if_False] by blast
  then have m: "run_maps 0x100 [(0x40001000, 0x9000, 3)] s1 = Inr s2" by simp
  have "pg_freed ?s = []" "pg_next ?s = [0x4000, 0x5000]" by (simp_all add: sample_vm_def)
  then show ?thesis using p(1) m address_space_frees_its_pages [OF k p(1) m] by (metis append_Nil)
qed

section \<open>The kernel's tables\<close>

text \<open>After the pages \<open>ps\<close> were mapped, with \<open>N\<close> pages at the start.\<close>

definition init_inv :: "u32 \<Rightarrow> nat \<Rightarrow> u32 list \<Rightarrow> u32 set \<Rightarrow> vm \<Rightarrow> bool" where
  "init_inv a N ps U s \<longleftrightarrow> tree_ok a U (vm_mem s) \<and> alloc_ok a U s \<and> 0 \<notin> set (pg_next s) \<and>
    (bit (vm_mem s a) 0 \<longleftrightarrow> ps \<noteq> []) \<and>
    (\<forall>i < 1024. bit (dir_entry a (vm_mem s) i) 0 \<longleftrightarrow> i \<in> dir_index ` set ps) \<and>
    (\<forall>i < 1024. bit (dir_entry a (vm_mem s) i) 0 \<longrightarrow> bit (dir_entry a (vm_mem s) i) 1 \<and> \<not> bit (dir_entry a (vm_mem s) i) 2) \<and>
    (\<forall>va. xlate a (vm_mem s) va = (if baseof va \<in> set ps
       then Some (dir_entry a (vm_mem s) (dir_index va), baseof va OR PTE_P OR PTE_W) else None)) \<and>
    length (pg_next s) + of_bool (ps \<noteq> []) + card (dir_index ` set ps) = N"

lemma init_page_step:
  assumes "init_inv a N ps U s" "baseof p = p" "1 + card (dir_index ` set (ps @ [p])) \<le> N"
  obtains news s' where "init_page a p s = Inr s'" "init_inv a N (ps @ [p]) (U \<union> set news) s'" "pg_next s = news @ pg_next s'"
proof -
  let ?M = "vm_mem s" and ?i = "dir_index p"
  have inv: "tree_ok a U ?M" "alloc_ok a U s" "0 \<notin> set (pg_next s)" "bit (?M a) 0 \<longleftrightarrow> ps \<noteq> []"
    "\<And>i. i < 1024 \<Longrightarrow> bit (dir_entry a ?M i) 0 \<longleftrightarrow> i \<in> dir_index ` set ps"
    "\<And>i. i < 1024 \<Longrightarrow> bit (dir_entry a ?M i) 0 \<Longrightarrow> bit (dir_entry a ?M i) 1 \<and> \<not> bit (dir_entry a ?M i) 2"
    "\<And>va. xlate a ?M va = (if baseof va \<in> set ps then Some (dir_entry a ?M (dir_index va), baseof va OR PTE_P OR PTE_W) else None)"
    "length (pg_next s) + of_bool (ps \<noteq> []) + card (dir_index ` set ps) = N"
    using assms(1) by (auto simp: init_inv_def)
  have card: "card (dir_index ` set (ps @ [p])) = card (dir_index ` set ps) + of_bool (?i \<notin> dir_index ` set ps)"
    by (simp add: card_insert_if)
  have room: "of_bool (\<not> bit (?M a) 0) + of_bool (\<not> bit (dir_entry a ?M ?i) 0) \<le> length (pg_next s)"
    using inv(4,8) inv(5) [of ?i] assms(3) card by (auto simp: of_bool_def split: if_splits)
  obtain e s1 where w: "ptwalk a p PTE_W s = Inr (e, s1)"
    using ptwalk_ok [OF inv(1,2) flags_WU(1) inv(3) room] by blast
  obtain news T where n: "tree_ok a (U \<union> set news) (vm_mem s1)" "alloc_ok a (U \<union> set news) s1" "pg_next s = news @ pg_next s1"
    "length news = of_bool (\<not> bit (?M a) 0) + of_bool (\<not> bit (dir_entry a ?M ?i) 0)"
    "walked a p (vm_mem s1) e" "xlate a (vm_mem s1) = xlate a ?M"
    "\<And>j. j < 1024 \<Longrightarrow> dir_entry a (vm_mem s1) j = (if j = ?i \<and> \<not> bit (dir_entry a ?M j) 0 then T OR PTE_P OR PTE_W else dir_entry a ?M j)"
    "\<not> bit (dir_entry a ?M ?i) 0 \<Longrightarrow> baseof T = T \<and> T \<in> set news"
    by (rule ptwalk_walked [OF inv(1,2) flags_WU(1) w]) blast
  define v where "v = p OR PTE_P OR PTE_W"
  define s' where "s' = put e v s1"
  note wp = walked_put [OF n(1,5), of "vm_mem s'" v]
  have M': "vm_mem s' = (vm_mem s1)(e := v)" by (simp add: s'_def)
  have de: "dir_entry a (vm_mem s') j = (if j = ?i \<and> \<not> bit (dir_entry a ?M j) 0 then T OR PTE_P OR PTE_W else dir_entry a ?M j)"
    if "j < 1024" for j using wp(4) [OF M' that] n(7) [OF that] by simp
  note we = walked_entry [OF n(5)]
  have vb: "bit v 0" by (simp add: v_def bit_or_iff pte_bits)
  have T2: "\<not> bit T 2" if "\<not> bit (dir_entry a ?M ?i) 0" using n(8) [OF that] bit_baseof [of T 2] by simp
  show thesis
  proof (rule that [of s' news])
    show "init_page a p s = Inr s'" by (simp add: init_page_def w s'_def v_def)
    show "pg_next s = news @ pg_next s'" using n(3) by (simp add: s'_def)
    have x: "xlate a (vm_mem s') va = (if baseof va \<in> set (ps @ [p])
        then Some (dir_entry a (vm_mem s') (dir_index va), baseof va OR PTE_P OR PTE_W) else None)" for va
    proof (cases "baseof va = p")
      case True
      then have "dir_index va = ?i" using index_page [of va p] assms(2) by simp
      then show ?thesis using wp(2) [OF M', of va] True assms(2) vb wp(4) [OF M' index_less(1), of p] we(2)
        by (simp add: v_def dir_entry_def)
    next
      case False
      have "dir_entry a (vm_mem s') (dir_index va) = dir_entry a ?M (dir_index va)" if "baseof va \<in> set ps"
      proof -
        have "dir_index va = dir_index (baseof va)" using index_page [of va "baseof va"] by simp
        then have "dir_index va \<in> dir_index ` set ps" using that by auto
        then show ?thesis using inv(5) [OF index_less(1), of va] de [OF index_less(1), of va] by simp
      qed
      then show ?thesis using wp(2) [OF M', of va] False assms(2) n(6) inv(7) [of va] by auto
    qed
    have len: "length (pg_next s') + of_bool (ps @ [p] \<noteq> []) + card (dir_index ` set (ps @ [p])) = N"
      using inv(4,8) inv(5) [of ?i] n(3,4) card by (auto simp: s'_def of_bool_def split: if_splits)
    show "init_inv a N (ps @ [p]) (U \<union> set news) s'"
      unfolding init_inv_def
    proof (intro conjI allI impI x len)
      show "tree_ok a (U \<union> set news) (vm_mem s')" by (rule wp(1) [OF M'])
      show "alloc_ok a (U \<union> set news) s'" using n(2) by (simp add: alloc_ok_def s'_def)
      show "0 \<notin> set (pg_next s')" using inv(3) n(3) by (simp add: s'_def)
      show "bit (vm_mem s' a) 0 \<longleftrightarrow> ps @ [p] \<noteq> []" using wp(3) [OF M'] we(2) by simp
      fix i :: nat assume i: "i < 1024"
      show "bit (dir_entry a (vm_mem s') i) 0 \<longleftrightarrow> i \<in> dir_index ` set (ps @ [p])"
        using de [OF i] inv(5) [OF i] by (auto simp: bit_or_iff pte_bits)
      assume "bit (dir_entry a (vm_mem s') i) 0"
      then show "bit (dir_entry a (vm_mem s') i) 1" "\<not> bit (dir_entry a (vm_mem s') i) 2"
        using de [OF i] inv(6) [OF i] T2 by (auto simp: bit_or_iff pte_bits split: if_splits)
    qed
  qed
qed

lemma init_pages:
  assumes "list_all (\<lambda>p. baseof p = p) qs" "init_inv a N ps U s" "1 + card (dir_index ` set (ps @ qs)) \<le> N"
  obtains news s' where "foldm (init_page a) qs s = Inr s'" "init_inv a N (ps @ qs) (U \<union> set news) s'" "pg_next s = news @ pg_next s'"
  using assms
proof (induction qs arbitrary: ps U s thesis)
  case Nil
  then show ?case by (auto intro: Nil.prems(1) [of s "[]"])
next
  case (Cons p qs)
  have "card (dir_index ` set (ps @ [p])) \<le> card (dir_index ` set (ps @ p # qs))" by (rule card_mono) auto
  then have room: "1 + card (dir_index ` set (ps @ [p])) \<le> N" using Cons.prems(4) by simp
  have al: "baseof p = p" "list_all (\<lambda>p. baseof p = p) qs" using Cons.prems(2) by simp_all
  obtain n1 s1 where 1: "init_page a p s = Inr s1" "init_inv a N (ps @ [p]) (U \<union> set n1) s1" "pg_next s = n1 @ pg_next s1"
    by (rule init_page_step [OF Cons.prems(3) al(1) room])
  have room2: "1 + card (dir_index ` set ((ps @ [p]) @ qs)) \<le> N" using Cons.prems(4) by simp
  obtain n2 s2 where 2: "foldm (init_page a) qs s1 = Inr s2" "init_inv a N ((ps @ [p]) @ qs) (U \<union> set n1 \<union> set n2) s2"
    "pg_next s1 = n2 @ pg_next s2"
    by (rule Cons.IH [OF _ al(2) 1(2) room2])
  show ?case
    by (rule Cons.prems(1) [of s2 "n1 @ n2"]) (use 1 2 in \<open>auto simp: Un_assoc\<close>)
qed

lemma steps_pages:
  assumes "unat start mod 4096 = 0" "unat start + 4096 * n \<le> 2 ^ 32"
  shows "p \<in> set (steps_from start 4096 n) \<longleftrightarrow> baseof p = p \<and> unat start \<le> unat p \<and> unat p < unat start + 4096 * n"
proof
  assume "p \<in> set (steps_from start 4096 n)"
  then obtain k where k: "k < n" "p = start + 4096 * of_nat k" by (auto simp: steps_from_def)
  then have "unat p = unat start + 4096 * k" using unat_step [of start 4096 k] assms(2) by simp
  then show "baseof p = p \<and> unat start \<le> unat p \<and> unat p < unat start + 4096 * n"
    using assms(1) k(1) by (auto simp: aligned_iff mod_eq_0_iff_dvd)
next
  assume p: "baseof p = p \<and> unat start \<le> unat p \<and> unat p < unat start + 4096 * n"
  define k where "k = (unat p - unat start) div 4096"
  have "4096 dvd unat p - unat start" using p assms(1) by (auto simp: aligned_iff mod_eq_0_iff_dvd intro: dvd_diff_nat)
  then have k: "unat p = unat start + 4096 * k" using p by (auto simp: k_def)
  then have "k < n" using p by simp
  moreover have "p = start + 4096 * of_nat k"
    using unat_step [of start 4096 k] k \<open>k < n\<close> assms(2) by (simp add: word_unat_eq_iff)
  ultimately show "p \<in> set (steps_from start 4096 n)" by (auto simp: steps_from_def)
qed

text \<open>The pages of the kernel areas are the pages whose directory entry is the kernel's.\<close>

lemma kernel_pages: "p \<in> set (kernel_steps 4096 262144 12288) \<longleftrightarrow> baseof p = p \<and> kernel_dir (dir_index p)"
proof -
  have "kernel_dir (dir_index p) \<longleftrightarrow> unat p < 1073741824 \<or> 4244635648 \<le> unat p"
    using unat32 [of p] by (auto simp: kernel_dir_def dir_index_div)
  then show ?thesis
    using steps_pages [of 0 262144 p] steps_pages [of "0xfd000000" 12288 p] unat32 [of p]
    by (auto simp: kernel_steps_def)
qed

lemma kernel_dirs_card: "dir_index ` set (kernel_steps 4096 262144 12288) = {i. kernel_dir i}" "card {i. kernel_dir i} = 268"
proof -
  have "{i. kernel_dir i} = {..<256} \<union> {1012..<1024}" by (auto simp: kernel_dir_def)
  moreover have "card ({..<256 :: nat} \<union> {1012..<1024}) = card {..<256 :: nat} + card {1012..<1024 :: nat}"
    by (rule card_Un_disjoint) auto
  ultimately show "card {i. kernel_dir i} = 268" by simp
  have "i \<in> dir_index ` set (kernel_steps 4096 262144 12288)" if i: "kernel_dir i" for i
  proof -
    have "i < 1024" using i by (auto simp: kernel_dir_def)
    then have "unat (0 + 4194304 * of_nat i :: u32) = 4194304 * i" using unat_step [of 0 4194304 i] by simp
    then have "dir_index (4194304 * of_nat i) = i" "baseof (4194304 * of_nat i) = 4194304 * of_nat i"
      by (simp_all add: dir_index_div aligned_iff)
    then show ?thesis using kernel_pages [of "4194304 * of_nat i"] i by force
  qed
  then show "dir_index ` set (kernel_steps 4096 262144 12288) = {i. kernel_dir i}" by (auto simp: kernel_pages)
qed

lemma phys_identity: "phys va (x, baseof va OR PTE_P OR PTE_W) = va"
proof -
  have "baseof (baseof va OR (PTE_P OR PTE_W)) = baseof va" by (rule baseof_flags [OF baseof_idem flags_WU(5)])
  then have "phys va (x, baseof va OR PTE_P OR PTE_W) = baseof va OR (va AND mask 12)"
    by (simp add: phys_def baseof_mask or.assoc)
  also have "\<dots> = va" by (rule bit_word_eqI) (auto simp: bit_or_iff bit_baseof bit_and_iff bit_mask_iff)
  finally show ?thesis .
qed

text \<open>
  \<^verbatim>\<open>vme_init\<close> builds the kernel's identity map. Started on the boot processor with at least 269 pages to
  allocate, its loops end, it takes exactly 269 pages (a directory and a table for each of the 268 regions of 4 MiB), loads the
  directory and turns paging on. Then every address below 1 GiB and from 0xfd000000 on translates to itself, writable and
  closed to the user, and no other address translates. The tables are what \<^verbatim>\<open>protect\<close> relies on.
\<close>

lemma vme_init_identity:
  assumes "cpu_no s = 0" "269 \<le> length (pg_next s)" "0 \<notin> set (pg_next s)" "distinct (pg_next s)"
    and "\<forall>p \<in> set (pg_next s). baseof p = p \<and> p \<noteq> baseof a"
  shows "\<exists>s' taken. x86_vme_init a s = Some (Inr (True, s')) \<and> pg_next s = taken @ pg_next s' \<and> length taken = 269 \<and>
    cr3 s' = kpt s' \<and> bit (cr0 s') 31 \<and> kernel_ok a (set taken) s' \<and> alloc_ok a (set taken) s' \<and>
    (\<forall>va. case page_walk (vm_mem s') (cr3 s') va of
       None \<Rightarrow> 0x40000000 \<le> va \<and> va < 0xfd000000
     | Some w \<Rightarrow> \<not> (0x40000000 \<le> va \<and> va < 0xfd000000) \<and> phys va w = va \<and> bit (fst w) 1 \<and> bit (snd w) 1 \<and> \<not> bit (fst w) 2)"
proof -
  let ?ps = "kernel_steps 4096 262144 12288" and ?N = "length (pg_next s)"
  define s0 where "s0 = put a 0 s"
  have i0: "init_inv a ?N [] {} s0"
    using assms(3-5) by (auto simp: init_inv_def tree_ok_def alloc_ok_def s0_def dir_entry_def xlate_def)
  have al: "list_all (\<lambda>p. baseof p = p) ?ps" by (auto simp: list_all_iff kernel_pages)
  have room: "1 + card (dir_index ` set ([] @ ?ps)) \<le> ?N" using assms(2) by (simp add: kernel_dirs_card)
  obtain taken s1 where run: "foldm (init_page a) ?ps s0 = Inr s1" and inv: "init_inv a ?N ([] @ ?ps) ({} \<union> set taken) s1"
    and tk: "pg_next s0 = taken @ pg_next s1"
    by (rule init_pages [OF al i0 room])
  define s' where "s' = s1\<lparr>kpt := baseof (vm_mem s1 a), cr3 := baseof (vm_mem s1 a), cr0 := cr0 s1 OR CR0_PG\<rparr>"
  have lp: "area_loop 4096 (init_page a) vm_areas s0 = Some (Inr s1)"
    using area_loop_kernel [of 4096 262144 12288 "init_page a" s0] run by simp
  have ex: "x86_vme_init a s = Some (Inr (True, s'))"
    using lp assms(1) by (simp add: x86_vme_init_def s0_def [symmetric] s'_def)
  let ?M = "vm_mem s1" and ?D = "baseof (vm_mem s1 a)"
  have ne: "?ps \<noteq> []" using kernel_dirs_card by (auto simp: kernel_dir_def)
  have I: "tree_ok a (set taken) ?M" "alloc_ok a (set taken) s1" "bit (?M a) 0"
    "\<And>i. i < 1024 \<Longrightarrow> bit (?M (ent ?D i)) 0 \<longleftrightarrow> kernel_dir i"
    "\<And>i. i < 1024 \<Longrightarrow> bit (?M (ent ?D i)) 0 \<Longrightarrow> bit (?M (ent ?D i)) 1 \<and> \<not> bit (?M (ent ?D i)) 2"
    "\<And>va. page_walk ?M (?M a) va = (if baseof va \<in> set ?ps then Some (?M (ent ?D (dir_index va)), baseof va OR PTE_P OR PTE_W) else None)"
    "length (pg_next s1) + 1 + 268 = ?N"
    using inv ne by (auto simp: init_inv_def kernel_dirs_card dir_entry_def xlate_def)
  have pw: "page_walk ?M ?D va = page_walk ?M (?M a) va" for va by (simp add: page_walk_base)
  have kd: "baseof va \<in> set ?ps \<longleftrightarrow> \<not> (0x40000000 \<le> va \<and> va < 0xfd000000)" for va
  proof -
    have "dir_index (baseof va) = dir_index va" using index_page [of va "baseof va"] by simp
    moreover have "kernel_dir (dir_index va) \<longleftrightarrow> \<not> (0x40000000 \<le> va \<and> va < 0xfd000000)"
      using unat32 [of va] by (auto simp: kernel_dir_def dir_index_div word_le_nat_alt word_less_nat_alt)
    ultimately show ?thesis by (simp add: kernel_pages)
  qed
  have "kernel_ok a (set taken) s'"
    using I(1,3) I(4,5) by (auto simp: kernel_ok_def tree_ok_def s'_def)
  moreover have "alloc_ok a (set taken) s'" using I(2) by (simp add: alloc_ok_def s'_def)
  moreover have "bit (cr0 s') 31" by (simp add: s'_def bit_or_iff CR0_PG_def)
  moreover have "case page_walk (vm_mem s') (cr3 s') va of
       None \<Rightarrow> 0x40000000 \<le> va \<and> va < 0xfd000000
     | Some w \<Rightarrow> \<not> (0x40000000 \<le> va \<and> va < 0xfd000000) \<and> phys va w = va \<and> bit (fst w) 1 \<and> bit (snd w) 1 \<and> \<not> bit (fst w) 2" for va
  proof (cases "baseof va \<in> set ?ps")
    case True
    then have "kernel_dir (dir_index va)" using index_page [of va "baseof va"] by (simp add: kernel_pages)
    then have "bit (?M (ent ?D (dir_index va))) 1" "\<not> bit (?M (ent ?D (dir_index va))) 2"
      using I(4) [OF index_less(1), of va] I(5) [OF index_less(1), of va] by simp_all
    then show ?thesis using True kd [of va] pw [of va] I(6) [of va] by (simp add: s'_def phys_identity bit_or_iff pte_bits)
  next
    case False
    then show ?thesis using kd [of va] pw [of va] I(6) [of va] by (simp add: s'_def)
  qed
  moreover have "pg_next s = taken @ pg_next s'" using tk by (simp add: s0_def s'_def)
  moreover from this have "length taken = 269" using I(7) by (simp add: s'_def)
  moreover have "cr3 s' = kpt s'" by (simp add: s'_def)
  ultimately show ?thesis using ex by blast
qed

lemma sample_pages:
  fixes n :: nat
  defines "ps \<equiv> map (\<lambda>k. 0x1000000 + 4096 * of_nat k :: u32) [0..<n]"
  assumes "n \<le> 1024"
  shows "distinct ps" "0 \<notin> set ps" "\<forall>p \<in> set ps. baseof p = p \<and> p \<noteq> 0"
proof -
  have u: "unat (0x1000000 + 4096 * of_nat k :: u32) = 0x1000000 + 4096 * k" if "k < n" for k
    using unat_step [of "0x1000000" 4096 k] that assms(2) by simp
  then show "distinct ps" unfolding ps_def distinct_map by (auto intro!: inj_onI dest: arg_cong [where f = unat])
  have "4096 dvd unat p \<and> unat p \<noteq> 0" if "p \<in> set ps" for p using that u by (auto simp: ps_def)
  then have "baseof p = p \<and> p \<noteq> 0" if "p \<in> set ps" for p using that by (metis aligned_iff unat_0)
  then show "0 \<notin> set ps" "\<forall>p \<in> set ps. baseof p = p \<and> p \<noteq> 0" by blast+
qed

end
