(* ===== verification/Am_X86_Cte.thy ===== *)
theory Am_X86_Cte
  imports Am_X86_Trm Am_X86_Vme
begin

text \<open>
  Traps of the abstract machine on 32-bit x86 under QEMU: \<^verbatim>\<open>cte.c\<close>, the entry and exit code of \<^verbatim>\<open>trap32.S\<close>, and the user contexts
  of \<^verbatim>\<open>vme.c\<close>. What the processor does on an interrupt and on \<^verbatim>\<open>iret\<close> is defined from the architecture. The kernel's
  event handler and the addresses of the entry points are parameters. The stack frames of the C functions lie below the trap frame
  and are not modelled.
\<close>

section \<open>Contexts and trap frames\<close>

text \<open>
  A \<^verbatim>\<open>Context\<close> is fifteen words; a \<^verbatim>\<open>struct trap_frame\<close> is a context followed by the interrupt number, the error
  code and what the processor pushed.
\<close>

abbreviation (input) CTX_cr3 :: u32 where "CTX_cr3 \<equiv> 0"
abbreviation (input) CTX_ds :: u32 where "CTX_ds \<equiv> 4"
abbreviation (input) CTX_eax :: u32 where "CTX_eax \<equiv> 8"
abbreviation (input) CTX_ebx :: u32 where "CTX_ebx \<equiv> 12"
abbreviation (input) CTX_esp0 :: u32 where "CTX_esp0 \<equiv> 24"
abbreviation (input) CTX_eip :: u32 where "CTX_eip \<equiv> 40"
abbreviation (input) CTX_cs :: u32 where "CTX_cs \<equiv> 44"
abbreviation (input) CTX_eflags :: u32 where "CTX_eflags \<equiv> 48"
abbreviation (input) CTX_esp :: u32 where "CTX_esp \<equiv> 52"
abbreviation (input) CTX_ss3 :: u32 where "CTX_ss3 \<equiv> 56"
abbreviation (input) TF_irq :: u32 where "TF_irq \<equiv> 60"
abbreviation (input) TF_errcode :: u32 where "TF_errcode \<equiv> 64"
abbreviation (input) TF_eip :: u32 where "TF_eip \<equiv> 68"
abbreviation (input) TF_cs :: u32 where "TF_cs \<equiv> 72"
abbreviation (input) TF_eflags :: u32 where "TF_eflags \<equiv> 76"
abbreviation (input) TF_esp :: u32 where "TF_esp \<equiv> 80"
abbreviation (input) TF_size :: u32 where "TF_size \<equiv> 88"

type_synonym wmem = "u32 \<Rightarrow> u32"

section \<open>The processor: interrupts and iret\<close>

definition pop :: "x86 \<Rightarrow> u32 \<times> x86" where
  "pop s = (xmem s (esp s), s\<lparr>esp := esp s + 4\<rparr>)"

definition user_mode :: "x86 \<Rightarrow> bool" where
  "user_mode s \<longleftrightarrow> seg_cs s AND 3 = 3"

text \<open>
  An interrupt through a trap gate: from user mode the stack switches to the one of the task state segment; flags, code
  segment, instruction pointer and an error code, when the vector has one, are pushed.
\<close>

definition int_push :: "u32 option \<Rightarrow> x86 \<Rightarrow> x86" where
  "int_push err s =
    (let s1 = (if user_mode s
               then push (esp s) (push (ucast (seg_ss s)) (s\<lparr>esp := tss_esp0 s, seg_ss := ucast (tss_ss0 s)\<rparr>))
               else s);
         s2 = push (eip s) (push (ucast (seg_cs s)) (push (eflags s) s1))
     in case err of None \<Rightarrow> s2 | Some e \<Rightarrow> push e s2)"

definition int_enter :: "nat \<Rightarrow> u32 option \<Rightarrow> x86 \<Rightarrow> x86" where
  "int_enter v err s =
    (let g = x_idt s ! v in (int_push err s)\<lparr>eip := gate_offset g, seg_cs := gate_cs g\<rparr>)"

definition iret :: "x86 \<Rightarrow> x86" where
  "iret s =
    (let (ip, s) = pop s; (c, s) = pop s; (fl, s) = pop s;
         s = s\<lparr>eip := ip, seg_cs := ucast c, eflags := fl\<rparr>
     in if user_mode s then (let (sp, s) = pop s; (ss, s) = pop s in s\<lparr>esp := sp, seg_ss := ucast ss\<rparr>) else s)"

section \<open>trap32.S\<close>

text \<open>The vectors of \<^verbatim>\<open>IRQS\<close>: number, open to the user, error code pushed by the processor.\<close>

definition IRQS :: "(nat \<times> bool \<times> bool) list" where
  "IRQS = map (\<lambda>i. (i, False, i = 8 \<or> 10 \<le> i \<and> i \<le> 14)) ([0..<17] @ [19, 31] @ [32..<48]) @ [(128, True, False), (129, True, False)]"

text \<open>The entry points: \<^verbatim>\<open>__am_irqN\<close> pushes a zero where the processor pushed no error code, then its number; \<^verbatim>\<open>__am_irqall\<close> pushes both.\<close>

definition am_irq :: "nat \<Rightarrow> bool \<Rightarrow> x86 \<Rightarrow> x86" where
  "am_irq num err s = (let s = cli s; s = (if err then s else push 0 s) in push (of_nat num) s)"

definition am_irqall :: "x86 \<Rightarrow> x86" where
  "am_irqall s = push (- 1) (push 0 (cli s))"

text \<open>\<^verbatim>\<open>movw\<close> between a segment register and the low half of \<^verbatim>\<open>eax\<close>.\<close>

definition movw_ax :: "u16 \<Rightarrow> x86 \<Rightarrow> x86" where
  "movw_ax v s = s\<lparr>eax := (eax s AND 0xffff0000) OR ucast v\<rparr>"

definition trap_save :: "x86 \<Rightarrow> x86" where
  "trap_save s =
    (let s = cli s;
         s = s\<lparr>esp := esp s - 20\<rparr>;
         s = push (ebp s) s;
         s = push (edi s) s;
         s = push (esi s) s;
         s = push 0 s;
         s = push (edx s) s;
         s = push (ecx s) s;
         s = push (ebx s) s;
         s = push (eax s) s;
         s = movw_ax (seg_ds s) s;
         s = push (eax s) s;
         s = push 0 s;
         s = movw_ax (ucast (KSEL SEG_KDATA)) s;
         s = s\<lparr>seg_ds := ucast (eax s)\<rparr>;
         s = s\<lparr>seg_es := ucast (eax s)\<rparr>;
         s = s\<lparr>seg_ss := ucast (eax s)\<rparr>
     in push (esp s) s)"

text \<open>The loads and stores of \<^verbatim>\<open>.kernel_iret\<close> that move the return frame to the new stack.\<close>

definition move_word :: "u32 \<Rightarrow> u32 \<Rightarrow> x86 \<Rightarrow> x86" where
  "move_word src dst s =
    (let s = s\<lparr>esi := xmem s (ebp s + src)\<rparr> in s\<lparr>xmem := (xmem s)(edi s - dst := esi s)\<rparr>)"

text \<open>The pops that both exits start and end with.\<close>

definition pop_abcd :: "x86 \<Rightarrow> x86" where
  "pop_abcd s =
    (let (v, s) = pop s; s = s\<lparr>eax := v\<rparr>;
         (v, s) = pop s; s = s\<lparr>ebx := v\<rparr>;
         (v, s) = pop s; s = s\<lparr>ecx := v\<rparr>;
         (v, s) = pop s; s = s\<lparr>edx := v\<rparr>
     in s\<lparr>esp := esp s + 4\<rparr>)"

definition pop_index :: "x86 \<Rightarrow> x86" where
  "pop_index s =
    (let (v, s) = pop s; s = s\<lparr>esi := v\<rparr>;
         (v, s) = pop s; s = s\<lparr>edi := v\<rparr>;
         (v, s) = pop s
     in s\<lparr>ebp := v\<rparr>)"

definition kernel_iret :: "x86 \<Rightarrow> x86" where
  "kernel_iret s =
    (let s = pop_abcd s;
         s = s\<lparr>ebp := esp s\<rparr>;
         s = s\<lparr>edi := xmem s (ebp s + 24)\<rparr>;
         s = move_word 20 4 s;
         s = move_word 16 8 s;
         s = move_word 12 12 s;
         s = move_word 8 16 s;
         s = move_word 4 20 s;
         s = move_word 0 24 s;
         s = s\<lparr>esp := edi s - 24\<rparr>
     in iret (pop_index s))"

definition user_iret :: "x86 \<Rightarrow> x86" where
  "user_iret s = iret (pop_index (pop_abcd s))"

text \<open>\<^verbatim>\<open>__am_iret\<close>, called from C: above the return address is the context.\<close>

definition am_iret :: "x86 \<Rightarrow> x86" where
  "am_iret s =
    (let s = s\<lparr>esp := esp s + 4\<rparr>;
         (c, s) = pop s; s = s\<lparr>eax := c\<rparr>;
         s = s\<lparr>esp := eax s\<rparr>;
         s = s\<lparr>esp := esp s + 4\<rparr>;
         (d, s) = pop s; s = s\<lparr>eax := d\<rparr>;
         s = s\<lparr>seg_ds := ucast (eax s)\<rparr>;
         s = s\<lparr>seg_es := ucast (eax s)\<rparr>
     in if (ucast (xmem s (esp s + 36)) :: u16) = ucast (KSEL SEG_KCODE) then kernel_iret s else user_iret s)"

text \<open>The first code of a kernel thread: the argument and a return address that panics, then the entry.\<close>

definition am_kcontext_start :: "u32 \<Rightarrow> x86 \<Rightarrow> x86" where
  "am_kcontext_start panic_on_return s = (let s = push (eax s) s; s = push panic_on_return s in s\<lparr>eip := ebx s\<rparr>)"

section \<open>cte.c\<close>

datatype Event =
  EVENT_NULL | EVENT_YIELD | EVENT_SYSCALL | EVENT_PAGEFAULT | EVENT_ERROR | EVENT_IRQ_TIMER | EVENT_IRQ_IODEV

record am_event =
  ev_event :: Event
  ev_cause :: u32
  ev_ref :: u32
  ev_msg :: string

text \<open>The switch of \<^verbatim>\<open>__am_irq_handle\<close>.\<close>

definition classify_irq :: "u32 \<Rightarrow> u32 \<Rightarrow> u32 \<Rightarrow> am_event" where
  "classify_irq irq errcode cr2 =
    (let ev = (\<lambda>e m. \<lparr>ev_event = e, ev_cause = 0, ev_ref = 0, ev_msg = m\<rparr>) in
     if irq = T_IRQ0 + 0 then ev EVENT_IRQ_TIMER ''timer interrupt (lapic)''
     else if irq = T_IRQ0 + 1 then ev EVENT_IRQ_IODEV ''I/O device IRQ1 (keyboard)''
     else if irq = T_IRQ0 + 4 then ev EVENT_IRQ_IODEV ''I/O device IRQ4 (COM1)''
     else if irq = 0x80 then ev EVENT_SYSCALL ''int $0x80 system call''
     else if irq = 0x81 then ev EVENT_YIELD ''int $0x81 yield''
     else if irq = 0 then ev EVENT_ERROR ''DE #0 divide by zero''
     else if irq = 6 then ev EVENT_ERROR ''UD #6 invalid opcode''
     else if irq = 7 then ev EVENT_ERROR ''NM #7 coprocessor error''
     else if irq = 8 then ev EVENT_ERROR ''DF #8 double fault''
     else if irq = 10 then ev EVENT_ERROR ''TS #10 invalid TSS''
     else if irq = 11 then ev EVENT_ERROR ''NP #11 segment/gate not present''
     else if irq = 12 then ev EVENT_ERROR ''SS #12 stack fault''
     else if irq = 13 then ev EVENT_ERROR ''GP #13, general protection fault''
     else if irq = 14 then
       (let c = 0;
            c = (if errcode AND 0x1 \<noteq> 0 then c OR MMAP_NONE else c);
            c = (if errcode AND 0x2 \<noteq> 0 then c OR MMAP_WRITE else c OR MMAP_READ)
        in \<lparr>ev_event = EVENT_PAGEFAULT, ev_cause = c, ev_ref = cr2, ev_msg = ''PF #14, page fault, @cause: PROT_XXX''\<rparr>)
     else \<lparr>ev_event = EVENT_ERROR, ev_cause = errcode, ev_ref = 0, ev_msg = ''unrecognized interrupt/exception''\<rparr>)"

definition set_word :: "u32 \<Rightarrow> u32 \<Rightarrow> x86 \<Rightarrow> x86" where
  "set_word a v s = s\<lparr>xmem := (xmem s)(a := v)\<rparr>"

text \<open>What \<^verbatim>\<open>__am_irq_handle\<close> stores into the saved context.\<close>

definition save_context :: "u32 \<Rightarrow> x86 \<Rightarrow> x86" where
  "save_context tf s =
    (let s = set_word (tf + CTX_eip) (xmem s (tf + TF_eip)) s;
         s = set_word (tf + CTX_cs) (xmem s (tf + TF_cs)) s;
         s = set_word (tf + CTX_eflags) (xmem s (tf + TF_eflags)) s;
         s = set_word (tf + CTX_esp0) (tss_esp0 s) s;
         s = set_word (tf + CTX_ss3) (USEL SEG_UDATA) s;
         s = set_word (tf + CTX_esp) (if xmem s (tf + TF_cs) AND DPL_USER \<noteq> 0 then xmem s (tf + TF_esp) else tf + TF_size - 8) s
     in set_word (tf + CTX_cr3) (x_cr3 s) s)"

type_synonym handler = "am_event \<Rightarrow> u32 \<Rightarrow> wmem \<Rightarrow> u32 \<times> wmem"

text \<open>The context to return to decides the address space and the kernel stack of the next trap.\<close>

definition switch_space :: "u32 \<Rightarrow> x86 \<Rightarrow> x86" where
  "switch_space c s =
    (if xmem s (c + CTX_cr3) \<noteq> 0
     then (set_cr3 (xmem s (c + CTX_cr3)) s)\<lparr>tss_ss0 := KSEL SEG_KDATA, tss_esp0 := xmem s (c + CTX_esp0)\<rparr> else s)"

text \<open>
  \<^verbatim>\<open>__am_irq_handle\<close> up to its call of \<^verbatim>\<open>__am_iret\<close>: the context to return to and the state. The handler is \<open>None\<close> before \<^verbatim>\<open>cte_init\<close>.
\<close>

definition irq_handle :: "handler option \<Rightarrow> u32 \<Rightarrow> x86 \<Rightarrow> (u32 \<times> x86) res" where
  "irq_handle user_handler tf s =
    (let s = save_context tf s;
         irq = xmem s (tf + TF_irq);
         s = (if T_IRQ0 \<le> irq \<and> irq < T_IRQ0 + 32 then lapic_eoi s else s);
         ev = classify_irq irq (xmem s (tf + TF_errcode)) (x_cr2 s)
     in case user_handler of
          None \<Rightarrow> Inl (Undef ''call of a null pointer'')
        | Some h \<Rightarrow>
            (let (c, m) = h ev tf (xmem s); s = s\<lparr>xmem := m\<rparr>
             in ebind (echeck (c \<noteq> 0) (Panic ''returning to NULL context'')) (\<lambda>_. Inr (c, switch_space c s))))"

text \<open>\<^verbatim>\<open>cte_init\<close>: \<open>stub\<close> are the addresses of the entry points, \<open>stuball\<close> the one for all others.\<close>

definition init_idt :: "(nat \<Rightarrow> u32) \<Rightarrow> u32 \<Rightarrow> GateDesc32 list" where
  "init_idt stub stuball =
    fold (\<lambda>(num, user, err) idt. idt[num := GATE32 STS_TG (KSEL SEG_KCODE) (stub num) (if user then DPL_USER else DPL_KERN)])
      IRQS (replicate NR_IRQ (GATE32 STS_TG (KSEL SEG_KCODE) stuball DPL_KERN))"

definition cte_init :: "(nat \<Rightarrow> u32) \<Rightarrow> u32 \<Rightarrow> u32 \<Rightarrow> handler option \<Rightarrow> x86 \<Rightarrow> (bool \<times> handler option \<times> x86) res" where
  "cte_init stub stuball cpu h s =
    ebind (echeck (\<not> cpu \<noteq> 0) (Panic ''init CTE in non-bootstrap CPU'')) (\<lambda>_.
    ebind (echeck (h \<noteq> None) (Panic ''no interrupt handler'')) (\<lambda>_.
      Inr (True, h, s\<lparr>x_idt := init_idt stub stuball\<rparr>)))"

definition yield_vector :: nat where
  "yield_vector = 0x81"

definition ienabled :: "x86 \<Rightarrow> bool" where
  "ienabled s \<longleftrightarrow> eflags s AND FL_IF \<noteq> 0"

definition iset :: "bool \<Rightarrow> x86 \<Rightarrow> x86" where
  "iset enable s = (if enable then sti s else cli s)"

text \<open>A zeroed context; \<^verbatim>\<open>sizeof(Context)\<close> is 60.\<close>

definition clear_context :: "u32 \<Rightarrow> wmem \<Rightarrow> wmem" where
  "clear_context c m = fold (\<lambda>i m. m(c + 4 * of_nat i := 0)) [0..<15] m"

definition kcontext :: "u32 \<Rightarrow> u32 \<Rightarrow> u32 \<Rightarrow> u32 \<Rightarrow> wmem \<Rightarrow> u32 \<times> wmem" where
  "kcontext kcontext_start kstack_end entry arg m =
    (let c = kstack_end - 60; m = clear_context c m
     in (c, m(c + CTX_ds := KSEL SEG_KDATA, c + CTX_cs := KSEL SEG_KCODE, c + CTX_eip := kcontext_start,
          c + CTX_eflags := FL_IF, c + CTX_esp := kstack_end, c + CTX_eax := arg, c + CTX_ebx := entry)))"

definition ucontext :: "u32 \<Rightarrow> u32 \<Rightarrow> u32 \<Rightarrow> wmem \<Rightarrow> u32 \<times> wmem" where
  "ucontext as_ptr kstack_end entry m =
    (let c = kstack_end - 60; m = clear_context c m
     in (c, m(c + CTX_cs := USEL SEG_UCODE, c + CTX_ds := USEL SEG_UDATA, c + CTX_ss3 := USEL SEG_UDATA, c + CTX_eip := entry,
          c + CTX_eflags := FL_IF, c + CTX_esp := va_end uvm_area, c + CTX_esp0 := kstack_end, c + CTX_cr3 := as_ptr)))"

definition percpu_initirq :: "x86 \<Rightarrow> x86" where
  "percpu_initirq s = set_idt (8 * NR_IRQ) (ioapic_enable 4 0 (ioapic_enable 1 0 s))"

text \<open>\<^verbatim>\<open>__am_percpu_init\<close> and \<^verbatim>\<open>__am_bootcpu_init\<close> of \<^verbatim>\<open>trm.c\<close>.\<close>

definition percpu_init :: "u32 \<Rightarrow> u32 \<Rightarrow> x86 \<Rightarrow> x86" where
  "percpu_init tss version s = percpu_initirq (percpu_initlapic version (percpu_initgdt tss s))"

definition bootcpu_init ::
  "(u8 \<Rightarrow> u8) \<Rightarrow> u32 \<Rightarrow> bytes \<Rightarrow> u32 \<Rightarrow> u32 \<Rightarrow> x86 \<Rightarrow> ((u32 \<times> u32) \<times> nat \<times> x86) res" where
  "bootcpu_init cmos end_sym B tss version s =
    (let heap = heap_init cmos end_sym
     in ebind (lapic_init B) (\<lambda>(lapic, ncpu).
          let s = ioapic_init (s\<lparr>am_lapic := of_nat lapic\<rparr>)
          in Inr (heap, ncpu, percpu_init tss version s)))"

section \<open>Moving the return frame\<close>

text \<open>The stores of \<^verbatim>\<open>.kernel_iret\<close> in order: the \<open>n\<close>-th moves a word from \<open>4 n\<close> below the end of the source to \<open>4 n\<close> below the new stack pointer.\<close>

primrec moved :: "u32 \<Rightarrow> u32 \<Rightarrow> nat \<Rightarrow> wmem \<Rightarrow> wmem" where
  "moved b e 0 M = M"
| "moved b e (Suc n) M = (let M' = moved b e n M in M'(e - 4 * of_nat (Suc n) := M' (b - 4 * of_nat (Suc n))))"

lemma steps4_inject: "i < 2 ^ 30 \<Longrightarrow> j < 2 ^ 30 \<Longrightarrow> (4 * of_nat i :: u32) = 4 * of_nat j \<longleftrightarrow> i = j"
proof
  assume ij: "i < 2 ^ 30" "j < 2 ^ 30" and "(4 * of_nat i :: u32) = 4 * of_nat j"
  then have "(of_nat (4 * i) :: u32) = of_nat (4 * j)" by simp
  then have "4 * i mod 2 ^ 32 = 4 * j mod 2 ^ 32" unfolding word_of_nat_eq_iff take_bit_eq_mod by simp
  then show "i = j" using ij by simp
qed simp

lemma moved_spec:
  assumes "\<forall>d. 1 \<le> d \<and> d < n \<longrightarrow> e \<noteq> b - 4 * of_nat d" "n < 2 ^ 30"
  shows "moved b e n M a = (if \<exists>k. 1 \<le> k \<and> k \<le> n \<and> a = e - 4 * of_nat k then M (a + (b - e)) else M a)"
  using assms
proof (induction n arbitrary: a)
  case (Suc n)
  have ih: "moved b e n M a = (if \<exists>k. 1 \<le> k \<and> k \<le> n \<and> a = e - 4 * of_nat k then M (a + (b - e)) else M a)" for a
    by (rule Suc.IH) (use Suc.prems in auto)
  have "b - 4 * of_nat (Suc n) \<noteq> e - 4 * of_nat k" if "1 \<le> k" "k \<le> n" for k
  proof
    assume eq: "b - 4 * of_nat (Suc n) = e - 4 * of_nat k"
    have "(of_nat (Suc n) :: u32) = of_nat k + of_nat (Suc n - k)" using that by (simp only: of_nat_add [symmetric]) simp
    then have "e = b - 4 * of_nat (Suc n - k)" using eq by (simp only: distrib_left) (simp add: algebra_simps)
    moreover have "1 \<le> Suc n - k \<and> Suc n - k < Suc n" using that by auto
    ultimately show False using Suc.prems(1) by blast
  qed
  then have src: "moved b e n M (b - 4 * of_nat (Suc n)) = M (b - 4 * of_nat (Suc n))" by (subst ih) auto
  show ?case
  proof (cases "a = e - 4 * of_nat (Suc n)")
    case True
    then have "a + (b - e) = b - 4 * of_nat (Suc n)" by (simp add: algebra_simps)
    moreover have "moved b e (Suc n) M a = M (b - 4 * of_nat (Suc n))" using True src by (simp add: Let_def del: of_nat_Suc)
    moreover have "\<exists>k. 1 \<le> k \<and> k \<le> Suc n \<and> a = e - 4 * of_nat k" using True by (intro exI [of _ "Suc n"]) simp
    ultimately show ?thesis by (simp only: if_True)
  next
    case False
    have "(\<exists>k. 1 \<le> k \<and> k \<le> Suc n \<and> a = e - 4 * of_nat k) \<longleftrightarrow> (\<exists>k. 1 \<le> k \<and> k \<le> n \<and> a = e - 4 * of_nat k)"
      using False le_Suc_eq by (metis le_SucI)
    then show ?thesis using False ih [of a] by (simp add: Let_def del: of_nat_Suc)
  qed
qed auto

lemma move_word_step:
  assumes "m = Suc n" "dst = 4 * of_nat m" "src = 24 - dst"
  obtains y where "move_word src dst (s\<lparr>xmem := moved (ebp s + 24) (edi s) n (xmem s), esi := x\<rparr>) =
    s\<lparr>xmem := moved (ebp s + 24) (edi s) m (xmem s), esi := y\<rparr>"
proof
  have "ebp s + src = ebp s + 24 - 4 * of_nat (Suc n)" using assms by (simp only: add_diff_eq)
  then show "move_word src dst (s\<lparr>xmem := moved (ebp s + 24) (edi s) n (xmem s), esi := x\<rparr>) =
    s\<lparr>xmem := moved (ebp s + 24) (edi s) m (xmem s), esi := moved (ebp s + 24) (edi s) n (xmem s) (ebp s + src)\<rparr>"
    using assms(1,2) unfolding move_word_def Let_def by (simp add: Let_def add_diff_eq del: of_nat_Suc)
qed

lemma move_words:
  obtains y where "move_word 0 24 (move_word 4 20 (move_word 8 16 (move_word 12 12 (move_word 16 8 (move_word 20 4 s))))) =
    s\<lparr>xmem := moved (ebp s + 24) (edi s) 6 (xmem s), esi := y\<rparr>"
proof -
  let ?S = "\<lambda>n x. s\<lparr>xmem := moved (ebp s + 24) (edi s) n (xmem s), esi := x\<rparr>"
  have 0: "?S 0 (esi s) = s" by simp
  obtain x1 where 1: "move_word 20 4 (?S 0 (esi s)) = ?S 1 x1" by (rule move_word_step [of 1 0 4 20 "esi s" s, OF _ _ _ that]) simp_all
  obtain x2 where 2: "move_word 16 8 (?S 1 x1) = ?S 2 x2" by (rule move_word_step [of 2 1 8 16 x1 s, OF _ _ _ that]) simp_all
  obtain x3 where 3: "move_word 12 12 (?S 2 x2) = ?S 3 x3" by (rule move_word_step [of 3 2 12 12 x2 s, OF _ _ _ that]) simp_all
  obtain x4 where 4: "move_word 8 16 (?S 3 x3) = ?S 4 x4" by (rule move_word_step [of 4 3 16 8 x3 s, OF _ _ _ that]) simp_all
  obtain x5 where 5: "move_word 4 20 (?S 4 x4) = ?S 5 x5" by (rule move_word_step [of 5 4 20 4 x4 s, OF _ _ _ that]) simp_all
  obtain x6 where 6: "move_word 0 24 (?S 5 x5) = ?S 6 x6" by (rule move_word_step [of 6 5 24 0 x5 s, OF _ _ _ that]) simp_all
  show thesis by (rule that [of x6]) (simp only: 1 [unfolded 0] 2 3 4 5 6)
qed

section \<open>Leaving a trap\<close>

text \<open>A context in memory holds the registers of a processor state. The stack segment is only loaded in user mode.\<close>

definition ctx_holds :: "x86 \<Rightarrow> u32 \<Rightarrow> wmem \<Rightarrow> bool" where
  "ctx_holds t c M \<longleftrightarrow> ucast (M (c + CTX_ds)) = seg_ds t \<and> M (c + CTX_eax) = eax t \<and> M (c + CTX_ebx) = ebx t \<and>
    M (c + 16) = ecx t \<and> M (c + 20) = edx t \<and> M (c + 28) = esi t \<and> M (c + 32) = edi t \<and> M (c + 36) = ebp t \<and>
    M (c + CTX_eip) = eip t \<and> ucast (M (c + CTX_cs)) = seg_cs t \<and> M (c + CTX_eflags) = eflags t \<and> M (c + CTX_esp) = esp t \<and>
    (user_mode t \<longrightarrow> ucast (M (c + CTX_ss3)) = seg_ss t)"

definition same_registers :: "x86 \<Rightarrow> x86 \<Rightarrow> bool" where
  "same_registers s t \<longleftrightarrow> eax s = eax t \<and> ebx s = ebx t \<and> ecx s = ecx t \<and> edx s = edx t \<and> esi s = esi t \<and> edi s = edi t \<and>
    ebp s = ebp t \<and> esp s = esp t \<and> eip s = eip t \<and> eflags s = eflags t \<and> seg_cs s = seg_cs t \<and> seg_ds s = seg_ds t"

lemma moved_frame:
  assumes "\<forall>d. 1 \<le> d \<and> d < 6 \<longrightarrow> e \<noteq> b - 4 * of_nat d"
  shows "moved b e 6 M (e - 24) = M (b - 24)" "moved b e 6 M (e - 20) = M (b - 20)" "moved b e 6 M (e - 16) = M (b - 16)"
    "moved b e 6 M (e - 12) = M (b - 12)" "moved b e 6 M (e - 8) = M (b - 8)" "moved b e 6 M (e - 4) = M (b - 4)"
proof -
  have "moved b e 6 M (e - 4 * of_nat k) = M (b - 4 * of_nat k)" if "1 \<le> k" "k \<le> 6" for k
    using moved_spec [OF assms, of M "e - 4 * of_nat k"] that by auto
  from this [of 6] this [of 5] this [of 4] this [of 3] this [of 2] this [of 1]
  show "moved b e 6 M (e - 24) = M (b - 24)" "moved b e 6 M (e - 20) = M (b - 20)" "moved b e 6 M (e - 16) = M (b - 16)"
    "moved b e 6 M (e - 12) = M (b - 12)" "moved b e 6 M (e - 8) = M (b - 8)" "moved b e 6 M (e - 4) = M (b - 4)" by simp_all
qed

lemma offset_last: "numeral n + (c :: u32) = c + numeral n"
  by (rule add.commute)

lemma pop_abcd_eq:
  "pop_abcd s = s\<lparr>eax := xmem s (esp s), ebx := xmem s (esp s + 4), ecx := xmem s (esp s + 8), edx := xmem s (esp s + 12), esp := esp s + 20\<rparr>"
  by (simp add: pop_abcd_def pop_def add.assoc)

lemma pop_index_eq:
  "pop_index s = s\<lparr>esi := xmem s (esp s), edi := xmem s (esp s + 4), ebp := xmem s (esp s + 8), esp := esp s + 12\<rparr>"
  by (simp add: pop_index_def pop_def add.assoc)

lemma iret_kernel:
  assumes "(ucast (xmem s (esp s + 4)) :: u16) AND 3 \<noteq> 3"
  shows "iret s = s\<lparr>eip := xmem s (esp s), seg_cs := ucast (xmem s (esp s + 4)), eflags := xmem s (esp s + 8), esp := esp s + 12\<rparr>"
  using assms by (simp add: iret_def pop_def user_mode_def add.assoc)

lemma iret_user:
  assumes "(ucast (xmem s (esp s + 4)) :: u16) AND 3 = 3"
  shows "iret s = s\<lparr>eip := xmem s (esp s), seg_cs := ucast (xmem s (esp s + 4)), eflags := xmem s (esp s + 8),
    esp := xmem s (esp s + 12), seg_ss := ucast (xmem s (esp s + 16))\<rparr>"
  using assms by (simp add: iret_def pop_def user_mode_def add.assoc)

lemma kernel_iret_restores:
  assumes "ctx_holds t c (xmem s)" "esp s = c + 8" "\<not> user_mode t" "seg_ds s = seg_ds t"
    and "\<forall>d. 1 \<le> d \<and> d < 6 \<longrightarrow> esp t \<noteq> c + 52 - 4 * of_nat d"
  shows "kernel_iret s = s\<lparr>eax := eax t, ebx := ebx t, ecx := ecx t, edx := edx t, esi := esi t, edi := edi t, ebp := ebp t,
    esp := esp t, eip := eip t, seg_cs := seg_cs t, eflags := eflags t, xmem := moved (c + 52) (esp t) 6 (xmem s)\<rparr>"
proof -
  let ?M = "xmem s"
  define s1 where "s1 = (pop_abcd s)\<lparr>ebp := c + 28, edi := esp t\<rparr>"
  obtain y where mv: "move_word 0 24 (move_word 4 20 (move_word 8 16 (move_word 12 12 (move_word 16 8 (move_word 20 4 s1))))) =
    s1\<lparr>xmem := moved (ebp s1 + 24) (edi s1) 6 (xmem s1), esi := y\<rparr>" by (rule move_words)
  have b: "ebp s1 + 24 = c + 52" "edi s1 = esp t" "xmem s1 = ?M" by (simp_all add: s1_def pop_abcd_eq)
  note f = moved_frame [OF assms(5), of ?M]
  have k: "kernel_iret s = iret (pop_index (s1\<lparr>xmem := moved (c + 52) (esp t) 6 ?M, esi := y, esp := esp t - 24\<rparr>))"
    using assms(1,2) mv [unfolded b] by (simp add: kernel_iret_def Let_def s1_def pop_abcd_eq ctx_holds_def offset_last)
  have o: "esp t - 24 + 4 = esp t - 20" "esp t - 24 + 8 = esp t - 16" "esp t - 24 + 12 = esp t - 12"
    "esp t - 12 + 4 = esp t - 8" "esp t - 12 + 8 = esp t - 4" "esp t - 12 + 12 = esp t" by simp_all
  have src: "c + 52 - 24 = c + 28" "c + 52 - 20 = c + 32" "c + 52 - 16 = c + 36" "c + 52 - 12 = c + 40" "c + 52 - 8 = c + 44" "c + 52 - 4 = c + 48"
    by simp_all
  have cs: "(ucast (?M (c + 44)) :: u16) AND 3 \<noteq> 3" using assms(1,3) by (simp add: ctx_holds_def user_mode_def)
  show ?thesis
    unfolding k pop_index_eq using assms(1,2) cs
    by (subst iret_kernel) (simp_all add: o f src s1_def pop_abcd_eq ctx_holds_def offset_last)
qed

lemma user_iret_restores:
  assumes "ctx_holds t c (xmem s)" "esp s = c + 8" "user_mode t"
  shows "user_iret s = s\<lparr>eax := eax t, ebx := ebx t, ecx := ecx t, edx := edx t, esi := esi t, edi := edi t, ebp := ebp t,
    esp := esp t, eip := eip t, seg_cs := seg_cs t, eflags := eflags t, seg_ss := seg_ss t\<rparr>"
proof -
  have "(ucast (xmem s (c + 44)) :: u16) AND 3 = 3" using assms(1,3) by (simp add: ctx_holds_def user_mode_def)
  then show ?thesis
    unfolding user_iret_def pop_index_eq pop_abcd_eq using assms
    by (subst iret_user) (simp_all add: ctx_holds_def offset_last)
qed

definition kernel_sel :: u16 where
  "kernel_sel = ucast (KSEL SEG_KCODE)"

text \<open>Where the return frame of a kernel context may be moved to: not into the words that are still to be moved.\<close>

definition iret_safe :: "x86 \<Rightarrow> u32 \<Rightarrow> bool" where
  "iret_safe t c \<longleftrightarrow> user_mode t \<or> seg_cs t = kernel_sel \<and> (\<forall>d. 1 \<le> d \<and> d < 6 \<longrightarrow> esp t \<noteq> c + 52 - 4 * of_nat d)"

lemma am_iret_restores:
  assumes "xmem s (esp s + 4) = c" "ctx_holds t c (xmem s)" "iret_safe t c"
  shows "same_registers (am_iret s) t" "seg_es (am_iret s) = seg_ds t" "seg_ss (am_iret s) = (if user_mode t then seg_ss t else seg_ss s)"
    "xmem (am_iret s) a = xmem s a \<or> \<not> user_mode t \<and> (\<exists>k. 1 \<le> k \<and> k \<le> 6 \<and> a = esp t - 4 * of_nat k)"
    "x_cr3 (am_iret s) = x_cr3 s" "tss_esp0 (am_iret s) = tss_esp0 s" "tss_ss0 (am_iret s) = tss_ss0 s"
proof -
  let ?M = "xmem s"
  define s1 where "s1 = s\<lparr>esp := c + 8, eax := ?M (c + 4), seg_ds := seg_ds t, seg_es := seg_ds t\<rparr>"
  have nk: "(ucast (KSEL SEG_KCODE) :: u16) AND 3 \<noteq> 3" by (simp add: KSEL_def SEG_KCODE_def DPL_KERN_def)
  have "am_iret s = (if (ucast (?M (c + 44)) :: u16) = kernel_sel then kernel_iret s1 else user_iret s1)"
    using assms(1,2) by (simp add: am_iret_def pop_def s1_def ctx_holds_def kernel_sel_def offset_last)
  then have eq: "am_iret s = (if user_mode t then user_iret s1 else kernel_iret s1)"
    using assms(2,3) nk by (auto simp: ctx_holds_def iret_safe_def user_mode_def kernel_sel_def)
  have s1: "ctx_holds t c (xmem s1)" "esp s1 = c + 8" "seg_ds s1 = seg_ds t" using assms(2) by (simp_all add: s1_def)
  have "same_registers (am_iret s) t \<and> seg_es (am_iret s) = seg_ds t \<and> seg_ss (am_iret s) = (if user_mode t then seg_ss t else seg_ss s) \<and>
    (xmem (am_iret s) a = xmem s a \<or> \<not> user_mode t \<and> (\<exists>k. 1 \<le> k \<and> k \<le> 6 \<and> a = esp t - 4 * of_nat k)) \<and>
    x_cr3 (am_iret s) = x_cr3 s \<and> tss_esp0 (am_iret s) = tss_esp0 s \<and> tss_ss0 (am_iret s) = tss_ss0 s"
  proof (cases "user_mode t")
    case True
    then show ?thesis using eq user_iret_restores [OF s1(1,2)] by (simp add: same_registers_def s1_def)
  next
    case False
    then have sf: "\<forall>d. 1 \<le> d \<and> d < 6 \<longrightarrow> esp t \<noteq> c + 52 - 4 * of_nat d" using assms(3) by (simp add: iret_safe_def)
    show ?thesis
      using False eq kernel_iret_restores [OF s1(1,2) False s1(3) sf] moved_spec [OF sf, of ?M a]
      by (auto simp: same_registers_def s1_def)
  qed
  then show "same_registers (am_iret s) t" "seg_es (am_iret s) = seg_ds t" "seg_ss (am_iret s) = (if user_mode t then seg_ss t else seg_ss s)"
    "xmem (am_iret s) a = xmem s a \<or> \<not> user_mode t \<and> (\<exists>k. 1 \<le> k \<and> k \<le> 6 \<and> a = esp t - 4 * of_nat k)"
    "x_cr3 (am_iret s) = x_cr3 s" "tss_esp0 (am_iret s) = tss_esp0 s" "tss_ss0 (am_iret s) = tss_ss0 s" by blast+
qed

section \<open>Entering a trap\<close>

text \<open>Where the trap frame lies: below the interrupted stack pointer, or at the top of the kernel stack.\<close>

definition frame_base :: "x86 \<Rightarrow> u32" where
  "frame_base s = (if user_mode s then tss_esp0 s - 88 else esp s - 80)"

definition trap_enter :: "nat \<Rightarrow> u32 option \<Rightarrow> x86 \<Rightarrow> x86" where
  "trap_enter v err s = trap_save (am_irq v (err \<noteq> None) (int_push err s))"

lemma ax_low: "(ucast ((x AND 0xffff0000) OR ucast v :: u32) :: u16) = v"
proof -
  have h: "(0xffff0000 :: u32) = NOT (mask 16)" by (simp add: mask_eq_exp_minus_1)
  show ?thesis unfolding h by (rule bit_word_eqI) (auto simp: bit_ucast_iff bit_or_iff bit_and_iff bit_not_iff bit_mask_iff)
qed

lemma ax_high: "(((x AND 0xffff0000) OR ucast (v :: u16)) AND 0xffff0000) OR y = (x AND 0xffff0000) OR (y :: u32)"
proof -
  have h: "(0xffff0000 :: u32) = NOT (mask 16)" by (simp add: mask_eq_exp_minus_1)
  show ?thesis
    unfolding h by (rule bit_word_eqI) (auto simp: bit_ucast_iff bit_or_iff bit_and_iff bit_not_iff bit_mask_iff dest: bit_imp_le_length)
qed

lemma trap_save_eq:
  assumes "esp s = c + 60"
  shows "trap_save s = s\<lparr>eflags := eflags s AND NOT FL_IF, eax := (eax s AND 0xffff0000) OR ucast (ucast (KSEL SEG_KDATA) :: u16),
    seg_ds := ucast (KSEL SEG_KDATA), seg_es := ucast (KSEL SEG_KDATA), seg_ss := ucast (KSEL SEG_KDATA), esp := c - 4,
    xmem := (xmem s)(c + 36 := ebp s, c + 32 := edi s, c + 28 := esi s, c + 24 := 0, c + 20 := edx s, c + 16 := ecx s, c + 12 := ebx s,
      c + 8 := eax s, c + 4 := (eax s AND 0xffff0000) OR ucast (seg_ds s), c := 0, c - 4 := c)\<rparr>"
  using assms by (simp add: trap_save_def push_def movw_ax_def cli_def Let_def ax_low ax_high offset_last)

text \<open>What the processor and the entry point push: after it the stack pointer is at the interrupt number of the frame.\<close>

definition frame_words :: "u32 \<Rightarrow> u32 set" where
  "frame_words c = {c - 4, c, c + 4, c + 8, c + 12, c + 16, c + 20, c + 24, c + 28, c + 32, c + 36, c + 40, c + 44, c + 48, c + 52, c + 56,
    c + 60, c + 64, c + 68, c + 72, c + 76, c + 80, c + 84}"

lemma entry_frame:
  fixes s :: x86 and err :: "u32 option" and v :: nat
  defines "c \<equiv> frame_base s" and "s1 \<equiv> am_irq v (err \<noteq> None) (int_push err s)"
  shows "esp s1 = c + 60" "xmem s1 (c + TF_irq) = of_nat v" "xmem s1 (c + TF_errcode) = (case err of None \<Rightarrow> 0 | Some e \<Rightarrow> e)"
    "xmem s1 (c + TF_eip) = eip s" "xmem s1 (c + TF_cs) = ucast (seg_cs s)" "xmem s1 (c + TF_eflags) = eflags s"
    "user_mode s \<Longrightarrow> xmem s1 (c + TF_esp) = esp s"
    "\<exists>f ss. s1 = s\<lparr>eflags := f, seg_ss := ss, esp := c + 60, xmem := xmem s1\<rparr>"
    "a \<notin> frame_words c \<Longrightarrow> xmem s1 a = xmem s a"
proof -
  have "esp s1 = c + 60 \<and> xmem s1 (c + TF_irq) = of_nat v \<and> xmem s1 (c + TF_errcode) = (case err of None \<Rightarrow> 0 | Some e \<Rightarrow> e) \<and>
    xmem s1 (c + TF_eip) = eip s \<and> xmem s1 (c + TF_cs) = ucast (seg_cs s) \<and> xmem s1 (c + TF_eflags) = eflags s \<and>
    (user_mode s \<longrightarrow> xmem s1 (c + TF_esp) = esp s) \<and>
    s1 = s\<lparr>eflags := eflags s AND NOT FL_IF, seg_ss := (if user_mode s then ucast (tss_ss0 s) else seg_ss s), esp := c + 60, xmem := xmem s1\<rparr> \<and>
    (a \<notin> frame_words c \<longrightarrow> xmem s1 a = xmem s a)"
  proof (cases "user_mode s")
    case True
    then have e: "tss_esp0 s = c + 88" by (simp add: c_def frame_base_def)
    show ?thesis using True by (cases err) (auto simp: s1_def am_irq_def int_push_def push_def cli_def Let_def e offset_last frame_words_def)
  next
    case False
    then have e: "esp s = c + 80" by (simp add: c_def frame_base_def)
    show ?thesis using False by (cases err) (auto simp: s1_def am_irq_def int_push_def push_def cli_def Let_def e offset_last frame_words_def)
  qed
  then show "esp s1 = c + 60" "xmem s1 (c + TF_irq) = of_nat v" "xmem s1 (c + TF_errcode) = (case err of None \<Rightarrow> 0 | Some e \<Rightarrow> e)"
    "xmem s1 (c + TF_eip) = eip s" "xmem s1 (c + TF_cs) = ucast (seg_cs s)" "xmem s1 (c + TF_eflags) = eflags s"
    "user_mode s \<Longrightarrow> xmem s1 (c + TF_esp) = esp s"
    "\<exists>f ss. s1 = s\<lparr>eflags := f, seg_ss := ss, esp := c + 60, xmem := xmem s1\<rparr>"
    "a \<notin> frame_words c \<Longrightarrow> xmem s1 a = xmem s a" by blast+
qed

lemma trap_enter_frame:
  fixes s :: x86 and err :: "u32 option" and v :: nat
  defines "c \<equiv> frame_base s" and "s1 \<equiv> trap_enter v err s"
  shows "esp s1 = c - 4" "xmem s1 (c - 4) = c" "xmem s1 (c + TF_irq) = of_nat v"
    "xmem s1 (c + TF_errcode) = (case err of None \<Rightarrow> 0 | Some e \<Rightarrow> e)"
    "xmem s1 (c + TF_eip) = eip s" "xmem s1 (c + TF_cs) = ucast (seg_cs s)" "xmem s1 (c + TF_eflags) = eflags s"
    "user_mode s \<Longrightarrow> xmem s1 (c + TF_esp) = esp s"
    "xmem s1 (c + 4) = (eax s AND 0xffff0000) OR ucast (seg_ds s)" "xmem s1 (c + 8) = eax s" "xmem s1 (c + 12) = ebx s" "xmem s1 (c + 16) = ecx s" "xmem s1 (c + 20) = edx s"
    "xmem s1 (c + 28) = esi s" "xmem s1 (c + 32) = edi s" "xmem s1 (c + 36) = ebp s"
    "tss_esp0 s1 = tss_esp0 s" "x_cr3 s1 = x_cr3 s" "x_cr2 s1 = x_cr2 s" "am_lapic s1 = am_lapic s" "\<not> ienabled s1"
    "a \<notin> frame_words c \<Longrightarrow> xmem s1 a = xmem s a"
proof -
  define s0 where "s0 = am_irq v (err \<noteq> None) (int_push err s)"
  note e = entry_frame [where s = s and err = err and v = v, folded c_def s0_def]
  note t = trap_save_eq [OF e(1)]
  obtain f ss where s0: "s0 = s\<lparr>eflags := f, seg_ss := ss, esp := c + 60, xmem := xmem s0\<rparr>" using e(8) by blast
  have regs: "eax s0 = eax s" "ebx s0 = ebx s" "ecx s0 = ecx s" "edx s0 = edx s" "esi s0 = esi s" "edi s0 = edi s" "ebp s0 = ebp s"
    "seg_ds s0 = seg_ds s" "tss_esp0 s0 = tss_esp0 s" "x_cr3 s0 = x_cr3 s" "x_cr2 s0 = x_cr2 s" "am_lapic s0 = am_lapic s"
    by (subst s0, simp)+
  have s1: "s1 = trap_save s0" by (simp add: s1_def trap_enter_def s0_def)
  show "esp s1 = c - 4" "xmem s1 (c - 4) = c" "xmem s1 (c + TF_irq) = of_nat v"
    "xmem s1 (c + TF_errcode) = (case err of None \<Rightarrow> 0 | Some e \<Rightarrow> e)"
    "xmem s1 (c + TF_eip) = eip s" "xmem s1 (c + TF_cs) = ucast (seg_cs s)" "xmem s1 (c + TF_eflags) = eflags s"
    "user_mode s \<Longrightarrow> xmem s1 (c + TF_esp) = esp s"
    "xmem s1 (c + 4) = (eax s AND 0xffff0000) OR ucast (seg_ds s)" "xmem s1 (c + 8) = eax s" "xmem s1 (c + 12) = ebx s" "xmem s1 (c + 16) = ecx s" "xmem s1 (c + 20) = edx s"
    "xmem s1 (c + 28) = esi s" "xmem s1 (c + 32) = edi s" "xmem s1 (c + 36) = ebp s"
    "tss_esp0 s1 = tss_esp0 s" "x_cr3 s1 = x_cr3 s" "x_cr2 s1 = x_cr2 s" "am_lapic s1 = am_lapic s"
    unfolding s1 t using e by (simp_all add: regs)
  show "\<not> ienabled s1"
    unfolding s1 t ienabled_def by (simp add: FL_IF_def and.assoc)
  show "a \<notin> frame_words c \<Longrightarrow> xmem s1 a = xmem s a" unfolding s1 t using e(9) [of a] by (simp add: frame_words_def)
qed

lemma user_cs: "ucast c AND DPL_USER \<noteq> (0 :: u32) \<longleftrightarrow> c AND 3 \<noteq> (0 :: u16)"
proof -
  have "(ucast c AND DPL_USER :: u32) = ucast (c AND 3)"
    by (rule bit_word_eqI) (auto simp: DPL_USER_def bit_and_iff bit_ucast_iff bit_numeral_rec dest: bit_imp_le_length)
  moreover have "(ucast w :: u32) = 0 \<longleftrightarrow> w = 0" for w :: u16
    using unsigned_less [where ?'a = nat, of w] by (simp only: word_unat_eq_iff unsigned_ucast_eq take_bit_eq_mod) simp
  ultimately show ?thesis by simp
qed

text \<open>The code segments that occur are the kernel's and those of privilege level 3.\<close>

definition known_mode :: "x86 \<Rightarrow> bool" where
  "known_mode s \<longleftrightarrow> (if user_mode s then seg_ss s = ucast (USEL SEG_UDATA) else seg_cs s = kernel_sel)"

lemma ucast_u16: "(ucast (ucast w :: u32) :: u16) = w"
  by (rule bit_word_eqI) (simp add: bit_ucast_iff)

lemma save_context_holds:
  fixes s :: x86 and err :: "u32 option" and v :: nat
  defines "c \<equiv> frame_base s" and "s1 \<equiv> trap_enter v err s"
  assumes "known_mode s"
  shows "ctx_holds s c (xmem (save_context c s1))" "xmem (save_context c s1) c = x_cr3 s" "xmem (save_context c s1) (c + CTX_esp0) = tss_esp0 s"
    "xmem (save_context c s1) (c + TF_irq) = of_nat v" "xmem (save_context c s1) (c + TF_errcode) = (case err of None \<Rightarrow> 0 | Some e \<Rightarrow> e)"
    "save_context c s1 = s1\<lparr>xmem := xmem (save_context c s1)\<rparr>"
    "a \<notin> frame_words c \<Longrightarrow> xmem (save_context c s1) a = xmem s a"
proof -
  note f = trap_enter_frame [where s = s and err = err and v = v, folded c_def s1_def]
  have m: "(ucast (seg_cs s) :: u32) AND DPL_USER \<noteq> 0 \<longleftrightarrow> user_mode s"
  proof -
    have "kernel_sel AND 3 = 0" by (simp add: kernel_sel_def KSEL_def SEG_KCODE_def DPL_KERN_def)
    then show ?thesis unfolding user_cs using assms(3) by (auto simp: known_mode_def user_mode_def split: if_splits)
  qed
  have k: "\<not> user_mode s \<Longrightarrow> c + 80 = esp s" by (simp add: c_def frame_base_def)
  note d = save_context_def set_word_def Let_def
  show "xmem (save_context c s1) c = x_cr3 s" "xmem (save_context c s1) (c + CTX_esp0) = tss_esp0 s"
    "xmem (save_context c s1) (c + TF_irq) = of_nat v" "xmem (save_context c s1) (c + TF_errcode) = (case err of None \<Rightarrow> 0 | Some e \<Rightarrow> e)"
    "save_context c s1 = s1\<lparr>xmem := xmem (save_context c s1)\<rparr>"
    using f by (simp_all add: d)
  show "a \<notin> frame_words c \<Longrightarrow> xmem (save_context c s1) a = xmem s a" using f(22) [of a] by (simp add: d frame_words_def)
  show "ctx_holds s c (xmem (save_context c s1))"
    using f m k assms(3) by (auto simp: ctx_holds_def d ax_low known_mode_def offset_last ucast_u16)
qed

lemma known_mode_safe: "known_mode s \<Longrightarrow> iret_safe s (frame_base s)"
proof -
  assume k: "known_mode s"
  have "esp s \<noteq> esp s - 80 + 52 - 4 * of_nat d" if "d < 6" for d :: nat
  proof
    assume "esp s = esp s - 80 + 52 - 4 * of_nat d"
    then have "(28 + 4 * of_nat d :: u32) = 0" by (simp add: algebra_simps)
    then have "unat (of_nat (28 + 4 * d) :: u32) = 0" by simp
    then show False using that by (simp only: unat_of_nat take_bit_eq_mod) simp
  qed
  then show ?thesis using k by (simp add: iret_safe_def known_mode_def frame_base_def split: if_splits)
qed

lemma switch_space_eq:
  "switch_space c t = t\<lparr>x_cr3 := x_cr3 (switch_space c t), tss_ss0 := tss_ss0 (switch_space c t), tss_esp0 := tss_esp0 (switch_space c t)\<rparr>"
  by (simp add: switch_space_def set_cr3_def)

text \<open>
  The processor \<open>r\<close> that runs again what \<open>s\<close> was running, coming from \<open>t\<close>: all registers of \<open>s\<close>, the memory of \<open>t\<close> but for six words below
  the stack pointer, and the page directory and kernel stack of \<open>s\<close>; where \<open>s\<close> ran without a page directory, those of \<open>t\<close> stay.
\<close>

definition resumed :: "x86 \<Rightarrow> x86 \<Rightarrow> x86 \<Rightarrow> bool" where
  "resumed s t r \<longleftrightarrow>
    same_registers r s \<and> seg_es r = seg_ds s \<and> (user_mode s \<longrightarrow> seg_ss r = seg_ss s) \<and>
    (\<forall>a. xmem r a \<noteq> xmem t a \<longrightarrow> (\<exists>k. 1 \<le> k \<and> k \<le> 6 \<and> a = esp s - 4 * of_nat k)) \<and>
    (if x_cr3 s \<noteq> 0 then x_cr3 r = x_cr3 s \<and> tss_esp0 r = tss_esp0 s \<and> tss_ss0 r = KSEL SEG_KDATA
     else x_cr3 r = x_cr3 t \<and> tss_esp0 r = tss_esp0 t \<and> tss_ss0 r = tss_ss0 t)"

lemma iret_resumed:
  assumes "known_mode s" "c = frame_base s" "xmem t (esp t + 4) = c" "ctx_holds s c (xmem t)" "xmem t c = x_cr3 s" "xmem t (c + CTX_esp0) = tss_esp0 s"
  shows "resumed s t (am_iret (switch_space c t))"
proof -
  define u where "u = switch_space c t"
  have u: "xmem u = xmem t" "esp u = esp t" by (subst u_def, subst switch_space_eq, simp)+
  have "x_cr3 u = (if x_cr3 s \<noteq> 0 then x_cr3 s else x_cr3 t)" "tss_esp0 u = (if x_cr3 s \<noteq> 0 then tss_esp0 s else tss_esp0 t)"
    "tss_ss0 u = (if x_cr3 s \<noteq> 0 then KSEL SEG_KDATA else tss_ss0 t)"
    using assms(5,6) by (simp_all add: u_def switch_space_def set_cr3_def)
  moreover note r = am_iret_restores [of u c s, unfolded u, OF assms(3,4), unfolded assms(2), OF known_mode_safe [OF assms(1)]]
  ultimately show ?thesis using r unfolding resumed_def u_def [symmetric] by auto
qed


definition sample_cpu :: x86 where
  "sample_cpu = \<lparr>eax = 1, ebx = 2, ecx = 3, edx = 4, esi = 5, edi = 6, ebp = 7, esp = 0x7c00, eip = 0x100000, eflags = 0x202,
    seg_cs = ucast (KSEL SEG_KCODE), seg_ds = ucast (KSEL SEG_KDATA), seg_es = ucast (KSEL SEG_KDATA), seg_ss = ucast (KSEL SEG_KDATA),
    x_cr2 = 0, x_cr3 = 0x1000, tss_esp0 = 0, tss_ss0 = 0, x_gdt = [], x_idt = [], x_lidt = None, x_tr = 0, xmem = (\<lambda>_. 0),
    am_lapic = 0xfee00000, lapic_w = [], ioapic = (\<lambda>_. 0)\<rparr>"


section \<open>New contexts\<close>

lemma clear_context_nth: "clear_context c m (c + 4 * of_nat i) = (if i < 15 then 0 else m (c + 4 * of_nat i))" if "i < 2 ^ 30"
proof -
  have "fold (\<lambda>i m. m(c + 4 * of_nat i := 0)) [0..<n] m (c + 4 * of_nat i) = (if i < n then 0 else m (c + 4 * of_nat i))" if "n \<le> 15" for n
    using that \<open>i < 2 ^ 30\<close> by (induction n) (auto simp: steps4_inject less_Suc_eq)
  then show ?thesis by (simp add: clear_context_def)
qed

lemma clear_context_words:
  "clear_context c m (c + 4) = 0" "clear_context c m (c + 16) = 0" "clear_context c m (c + 20) = 0" "clear_context c m (c + 24) = 0" "clear_context c m c = 0"
  "clear_context c m (c + 28) = 0" "clear_context c m (c + 32) = 0" "clear_context c m (c + 36) = 0" "clear_context c m (c + 8) = 0" "clear_context c m (c + 12) = 0"
  using clear_context_nth [of 1 c m] clear_context_nth [of 4 c m] clear_context_nth [of 5 c m] clear_context_nth [of 6 c m] clear_context_nth [of 0 c m]
    clear_context_nth [of 7 c m] clear_context_nth [of 8 c m] clear_context_nth [of 9 c m] clear_context_nth [of 2 c m] clear_context_nth [of 3 c m]
  by simp_all

text \<open>
  a new kernel thread starts in its entry function. Returning to a context made by \<^verbatim>\<open>kcontext\<close>, although its return
  frame is moved over the context itself, runs the start code, which ends at the entry with interrupts on, in kernel mode, with the argument
  and a return address that panics on the thread's own stack, in the address space that was active.
\<close>

lemma x86_kcontext_starts:
  assumes "kcontext start kend entry arg m = (c, m1)" "xmem t (esp t + 4) = c" "\<forall>i < 15. xmem t (c + 4 * of_nat i) = m1 (c + 4 * of_nat i)"
  shows "let u = am_kcontext_start panic (am_iret (switch_space c t)) in
    eip (am_iret (switch_space c t)) = start \<and> eip u = entry \<and> esp u = kend - 8 \<and> xmem u (kend - 8) = panic \<and> xmem u (kend - 4) = arg \<and>
    ienabled u \<and> \<not> user_mode u \<and> seg_ds u = ucast (KSEL SEG_KDATA) \<and> x_cr3 u = x_cr3 t"
proof -
  have c: "c = kend - 60" using assms(1) by (simp add: kcontext_def Let_def)
  then have c': "kend = c + 60" by simp
  have m1: "m1 c = 0" "m1 (c + 4) = KSEL SEG_KDATA" "m1 (c + 8) = arg" "m1 (c + 12) = entry" "m1 (c + 40) = start" "m1 (c + 44) = KSEL SEG_KCODE" "m1 (c + 48) = FL_IF" "m1 (c + 52) = kend"
    using assms(1) clear_context_words [of c m] c' by (auto simp: kcontext_def Let_def)
  have t0: "xmem t c = 0" using assms(3) [rule_format, of 0] m1(1) by simp
  then have sw: "switch_space c t = t" by (simp add: switch_space_def)
  have eq: "xmem t (c + k) = m1 (c + k)" if "k \<in> {4, 8, 12, 40, 44, 48, 52}" for k
    using assms(3) that by (auto dest: spec [of _ 1] spec [of _ 2] spec [of _ 3] spec [of _ 10] spec [of _ 11] spec [of _ 12] spec [of _ 13])
  define r where "r = t\<lparr>seg_ds := ucast (KSEL SEG_KDATA), eax := arg, ebx := entry, ecx := xmem t (c + 16), edx := xmem t (c + 20), esi := xmem t (c + 28), edi := xmem t (c + 32),
    ebp := xmem t (c + 36), eip := start, seg_cs := ucast (KSEL SEG_KCODE), eflags := FL_IF, esp := kend\<rparr>"
  have nu: "\<not> user_mode r" by (simp add: r_def user_mode_def KSEL_def SEG_KCODE_def DPL_KERN_def)
  have ch: "ctx_holds r c (xmem t)" using eq m1 nu by (simp add: ctx_holds_def r_def)
  have "kend \<noteq> c + 52 - 4 * of_nat d" if "d < 6" for d :: nat
  proof
    assume "kend = c + 52 - 4 * of_nat d"
    then have "(8 + 4 * of_nat d :: u32) = 0" by (simp add: c' algebra_simps)
    then have "unat (of_nat (8 + 4 * d) :: u32) = 0" by simp
    then show False using that by (simp only: unat_of_nat take_bit_eq_mod) simp
  qed
  then have safe: "iret_safe r c" by (simp add: iret_safe_def r_def kernel_sel_def)
  note i = am_iret_restores [OF assms(2) ch safe]
  have "FL_IF AND FL_IF \<noteq> 0" by (simp add: FL_IF_def)
  then show ?thesis
    using i(1,5) nu by (simp add: sw am_kcontext_start_def push_def Let_def same_registers_def r_def ienabled_def user_mode_def)
qed

text \<open>A user context enters user mode at its entry, on the user stack, in its address space, and the next trap is taken on its kernel stack.\<close>

lemma ucontext_starts:
  assumes "ucontext as_ptr kend entry m = (c, m1)" "as_ptr \<noteq> 0" "xmem t (esp t + 4) = c" "\<forall>i < 15. xmem t (c + 4 * of_nat i) = m1 (c + 4 * of_nat i)"
  defines "u \<equiv> am_iret (switch_space c t)"
  shows "user_mode u" "eip u = entry" "esp u = 0x80000000" "ienabled u" "seg_ss u = ucast (USEL SEG_UDATA)" "x_cr3 u = as_ptr" "known_mode u"
    "frame_base u = kend - 88"
proof -
  have c: "c = kend - 60" using assms(1) by (simp add: ucontext_def Let_def)
  have m1: "m1 c = as_ptr" "m1 (c + 4) = USEL SEG_UDATA" "m1 (c + 24) = kend" "m1 (c + 40) = entry" "m1 (c + 44) = USEL SEG_UCODE" "m1 (c + 48) = FL_IF"
      "m1 (c + 52) = 0x80000000" "m1 (c + 56) = USEL SEG_UDATA"
    using assms(1) by (auto simp: ucontext_def Let_def vm_areas_def)
  have t0: "xmem t c = as_ptr" using assms(4) [rule_format, of 0] m1(1) by simp
  have eq: "xmem t (c + k) = m1 (c + k)" if "k \<in> {4, 24, 40, 44, 48, 52, 56}" for k
    using assms(4) that by (auto dest: spec [of _ 1] spec [of _ 6] spec [of _ 10] spec [of _ 11] spec [of _ 12] spec [of _ 13] spec [of _ 14])
  define t1 where "t1 = switch_space c t"
  have t1: "t1 = t\<lparr>x_cr3 := as_ptr, tss_ss0 := KSEL SEG_KDATA, tss_esp0 := kend\<rparr>"
    using t0 assms(2) eq [of 24] m1(3) by (simp add: t1_def switch_space_def set_cr3_def)
  define r where "r = t\<lparr>seg_ds := ucast (USEL SEG_UDATA), eax := xmem t (c + 8), ebx := xmem t (c + 12), ecx := xmem t (c + 16), edx := xmem t (c + 20), esi := xmem t (c + 28), edi := xmem t (c + 32),
    ebp := xmem t (c + 36), eip := entry, seg_cs := ucast (USEL SEG_UCODE), eflags := FL_IF, esp := 0x80000000, seg_ss := ucast (USEL SEG_UDATA)\<rparr>"
  have um: "user_mode r" by (simp add: r_def user_mode_def USEL_def SEG_UCODE_def DPL_USER_def)
  have ch: "ctx_holds r c (xmem t1)" using eq m1 by (simp add: ctx_holds_def r_def t1)
  have safe: "iret_safe r c" using um by (simp add: iret_safe_def)
  have "xmem t1 (esp t1 + 4) = c" using assms(3) by (simp add: t1)
  note i = am_iret_restores [OF this ch safe]
  have "FL_IF AND FL_IF \<noteq> 0" by (simp add: FL_IF_def)
  then show "user_mode u" "eip u = entry" "esp u = 0x80000000" "ienabled u" "seg_ss u = ucast (USEL SEG_UDATA)" "x_cr3 u = as_ptr" "known_mode u"
    "frame_base u = kend - 88"
    using i um unfolding u_def t1_def [symmetric]
    by (simp_all add: same_registers_def r_def ienabled_def user_mode_def known_mode_def frame_base_def t1)
qed

section \<open>The interrupt table\<close>

lemma fold_update_nth:
  assumes "distinct (map fst xs)" "v < length g"
  shows "fold (\<lambda>(n, u, e) g. g[n := F n u]) xs g ! v = (case map_of xs v of None \<Rightarrow> g ! v | Some (u, e) \<Rightarrow> F v u)"
  using assms
proof (induction xs arbitrary: g)
  case (Cons x xs)
  obtain n u e where x: "x = (n, u, e)" by (cases x)
  have "map_of xs n = None" using Cons.prems(1) x by (simp add: map_of_eq_None_iff)
  then show ?case using Cons x by (auto simp: nth_list_update split: option.split)
qed simp

text \<open>
  Every vector has a present trap gate into the kernel's code segment, whose offset is the vector's own entry point if it
  has one; only the system call and yield vectors may be raised by the user.
\<close>

lemma init_idt_gates:
  fixes stub :: "nat \<Rightarrow> u32" and stuball :: u32
  assumes "v < 256"
  defines "g \<equiv> init_idt stub stuball ! v"
  shows "gate_offset g = (if map_of IRQS v = None then stuball else stub v)" "gate_cs g = ucast (KSEL SEG_KCODE)" "gate_p g = 1"
    "gate_type g = 0xf" "gate_dpl g = 3 \<longleftrightarrow> v = 0x80 \<or> v = 0x81"
proof -
  have d: "distinct (map fst IRQS)" by (simp add: IRQS_def upt_rec)
  have u: "(\<exists>e. map_of IRQS v = Some (True, e)) \<longleftrightarrow> v = 0x80 \<or> v = 0x81"
    unfolding map_of_eq_Some_iff [OF d] by (auto simp: IRQS_def)
  have n: "g = (case map_of IRQS v of None \<Rightarrow> GATE32 STS_TG (KSEL SEG_KCODE) stuball DPL_KERN
      | Some (us, e) \<Rightarrow> GATE32 STS_TG (KSEL SEG_KCODE) (stub v) (if us then DPL_USER else DPL_KERN))"
    using fold_update_nth [OF d, of v "replicate NR_IRQ (GATE32 STS_TG (KSEL SEG_KCODE) stuball DPL_KERN)"
        "\<lambda>n u. GATE32 STS_TG (KSEL SEG_KCODE) (stub n) (if u then DPL_USER else DPL_KERN)"] assms(1)
    by (auto simp: g_def init_idt_def NR_IRQ_def split: option.splits)
  show "gate_offset g = (if map_of IRQS v = None then stuball else stub v)" by (simp add: n split: option.split)
  show "gate_cs g = ucast (KSEL SEG_KCODE)" "gate_p g = 1" "gate_type g = 0xf"
    by (simp_all add: n GATE32_def STS_TG_def split: option.split)
  show "gate_dpl g = 3 \<longleftrightarrow> v = 0x80 \<or> v = 0x81"
    unfolding u [symmetric] by (auto simp: n GATE32_def DPL_USER_def DPL_KERN_def split: option.split)
qed

end
