(* ===== verification/Am_X86_Mpe.thy ===== *)
theory Am_X86_Mpe
  imports Nemu_Prelude
begin

text \<open>
  Starting the other processors on x86 under QEMU (\<^verbatim>\<open>mpe.c\<close>). The boot processor starts one processor at a time and waits on
  \<^verbatim>\<open>ap_ready\<close>; the processors run interleaved, so the code is a step relation in which every access of a shared variable is one
  step, labelled with the processor that takes it. A start message resets the processor it is sent to, whatever that processor
  is doing; it then runs the boot record: the jump to the boot code, which takes the other processors' path when \<^verbatim>\<open>is_ap\<close> is set.
\<close>

section \<open>State\<close>

text \<open>Where the boot processor is in \<^verbatim>\<open>mpe_init\<close>, and where each other processor is.\<close>

datatype boot_pc = Loop nat | Mark nat | Send nat | Wait nat | Boot_entry

datatype ap_pc = Off | Started | Initialised | Signalled | Ap_entry | Boot_again

record mpe =
  boot :: boot_pc
  ap :: "nat \<Rightarrow> ap_pc"
  ap_ready :: u32
  is_ap :: u32
  jmp_code :: u32
  starts :: "nat \<Rightarrow> nat"

text \<open>The field \<open>starts\<close> records how often each processor was sent a start message; no step depends on it.\<close>

text \<open>\<^verbatim>\<open>xchg\<close>, and \<^verbatim>\<open>atomic_xchg\<close> on top of it.\<close>

definition xchg :: "u32 \<Rightarrow> u32 \<Rightarrow> u32 \<times> u32" where
  "xchg cell newval = (cell, newval)"

definition atomic_xchg :: "u32 \<Rightarrow> u32 \<Rightarrow> u32 \<times> u32" where
  "atomic_xchg cell newval = xchg cell newval"

definition mpe_start :: "mpe \<Rightarrow> mpe" where
  "mpe_start s = s\<lparr>boot := Loop 1, jmp_code := 0x000bfde9\<rparr>"

text \<open>\<^verbatim>\<open>cpu_current\<close> reads the identification register of the local APIC.\<close>

definition cpu_current :: "u32 \<Rightarrow> u32" where
  "cpu_current lapic_id = drop_bit 24 lapic_id"

text \<open>\<^verbatim>\<open>__am_stop_the_world\<close>: the processors that are restarted on a jump to itself.\<close>

definition stop_the_world :: "nat \<Rightarrow> nat \<Rightarrow> mpe \<Rightarrow> nat list \<times> mpe" where
  "stop_the_world n current s = (filter (\<lambda>cpu. cpu \<noteq> current) [0..<n], s\<lparr>jmp_code := 0x0000feeb\<rparr>)"

text \<open>\<open>n\<close> is \<^verbatim>\<open>__am_ncpu\<close>.\<close>

inductive mpe_step :: "nat \<Rightarrow> nat \<Rightarrow> mpe \<Rightarrow> mpe \<Rightarrow> bool" for n where
  loop_next: "boot s = Loop k \<Longrightarrow> k < n \<Longrightarrow> mpe_step n 0 s (s\<lparr>boot := Mark k\<rparr>)"
| loop_done: "boot s = Loop k \<Longrightarrow> \<not> k < n \<Longrightarrow> mpe_step n 0 s (s\<lparr>boot := Boot_entry\<rparr>)"
| mark: "boot s = Mark k \<Longrightarrow> mpe_step n 0 s (s\<lparr>is_ap := 1, boot := Send k\<rparr>)"
| send: "boot s = Send k \<Longrightarrow>
    mpe_step n 0 s (s\<lparr>ap := (ap s)(k := Started), starts := (starts s)(k := starts s k + 1), boot := Wait k\<rparr>)"
| wait_no: "boot s = Wait k \<Longrightarrow> xchg (ap_ready s) 0 = (old, new) \<Longrightarrow> old \<noteq> 1 \<Longrightarrow> mpe_step n 0 s (s\<lparr>ap_ready := new\<rparr>)"
| wait_yes: "boot s = Wait k \<Longrightarrow> xchg (ap_ready s) 0 = (old, new) \<Longrightarrow> old = 1 \<Longrightarrow>
    mpe_step n 0 s (s\<lparr>ap_ready := new, boot := Loop (k + 1)\<rparr>)"
| ap_init: "ap s j = Started \<Longrightarrow> jmp_code s = 0x000bfde9 \<Longrightarrow>
    mpe_step n j s (s\<lparr>ap := (ap s)(j := (if is_ap s \<noteq> 0 then Initialised else Boot_again))\<rparr>)"
| ap_signal: "ap s j = Initialised \<Longrightarrow> xchg (ap_ready s) 1 = (old, new) \<Longrightarrow>
    mpe_step n j s (s\<lparr>ap_ready := new, ap := (ap s)(j := Signalled)\<rparr>)"
| ap_enter: "ap s j = Signalled \<Longrightarrow> mpe_step n j s (s\<lparr>ap := (ap s)(j := Ap_entry)\<rparr>)"

inductive_cases mpe_step_cases: "mpe_step n p s s'"

text \<open>
  An execution: at every instant one processor has its turn and takes a step, or has none to take and nothing changes.
  The schedule is fair when every processor gets a turn again and again.
\<close>

definition execution :: "nat \<Rightarrow> (nat \<Rightarrow> nat) \<Rightarrow> (nat \<Rightarrow> mpe) \<Rightarrow> bool" where
  "execution n sch \<sigma> \<longleftrightarrow>
    (\<forall>i. mpe_step n (sch i) (\<sigma> i) (\<sigma> (Suc i)) \<or> (\<sigma> (Suc i) = \<sigma> i \<and> (\<nexists>t. mpe_step n (sch i) (\<sigma> i) t)))"

definition fair :: "nat \<Rightarrow> (nat \<Rightarrow> nat) \<Rightarrow> bool" where
  "fair n sch \<longleftrightarrow> (\<forall>p < n. \<forall>i. \<exists>k \<ge> i. sch k = p)"

text \<open>The state when the loop of \<^verbatim>\<open>mpe_init\<close> is entered.\<close>

definition mpe_boot :: "mpe \<Rightarrow> bool" where
  "mpe_boot s \<longleftrightarrow> boot s = Loop 1 \<and> (\<forall>j. ap s j = Off \<and> starts s j = 0) \<and> ap_ready s = 0 \<and> jmp_code s = 0x000bfde9"

section \<open>Invariant\<close>

fun turn :: "nat \<Rightarrow> boot_pc \<Rightarrow> nat" where
  "turn n (Loop k) = k"
| "turn n (Mark k) = k"
| "turn n (Send k) = k"
| "turn n (Wait k) = k"
| "turn n Boot_entry = n"

definition running :: "ap_pc \<Rightarrow> bool" where
  "running p \<longleftrightarrow> p = Signalled \<or> p = Ap_entry"

definition mpe_inv :: "nat \<Rightarrow> mpe \<Rightarrow> bool" where
  "mpe_inv n s \<longleftrightarrow> 1 \<le> turn n (boot s) \<and> turn n (boot s) \<le> n \<and> jmp_code s = 0x000bfde9 \<and>
    (\<forall>j. starts s j = (if ap s j = Off then 0 else 1)) \<and>
    (\<forall>j. 1 \<le> j \<and> j < turn n (boot s) \<longrightarrow> running (ap s j)) \<and>
    (\<forall>j. j = 0 \<or> turn n (boot s) < j \<longrightarrow> ap s j = Off) \<and> ap s n = Off \<and>
    (case boot s of
       Wait k \<Rightarrow> is_ap s = 1 \<and> k < n \<and> (if ap_ready s = 1 then running (ap s k) else ap_ready s = 0 \<and> (ap s k = Started \<or> ap s k = Initialised))
     | Send k \<Rightarrow> is_ap s = 1 \<and> k < n \<and> ap s k = Off \<and> ap_ready s = 0
     | Mark k \<Rightarrow> k < n \<and> ap s k = Off \<and> ap_ready s = 0
     | Loop k \<Rightarrow> ap s k = Off \<and> ap_ready s = 0
     | Boot_entry \<Rightarrow> ap_ready s = 0)"

lemma mpe_inv_boot: "1 \<le> n \<Longrightarrow> mpe_boot s \<Longrightarrow> mpe_inv n s"
  by (auto simp: mpe_boot_def mpe_inv_def)

lemma mpe_starting:
  assumes "mpe_inv n s" "ap s j = Started \<or> ap s j = Initialised"
  shows "boot s = Wait j" "j < n" "1 \<le> j" "is_ap s = 1" "ap_ready s = 0"
proof -
  have "ap s j \<noteq> Off" using assms(2) by auto
  moreover have "\<forall>i. i = 0 \<or> turn n (boot s) < i \<longrightarrow> ap s i = Off" using assms(1) by (simp add: mpe_inv_def)
  ultimately have "j \<noteq> 0 \<and> \<not> turn n (boot s) < j" by metis
  then have j: "j \<noteq> 0" "\<not> turn n (boot s) < j" "\<not> running (ap s j)" using assms(2) by (auto simp: running_def)
  have t: "j = turn n (boot s)"
    using assms(1) j by (metis mpe_inv_def less_one linorder_neqE_nat not_less)
  have "boot s = Wait j \<and> j < n \<and> is_ap s = 1 \<and> ap_ready s = 0"
    using assms t by (cases "boot s") (auto simp: mpe_inv_def running_def split: if_splits)
  then show "boot s = Wait j" "j < n" "1 \<le> j" "is_ap s = 1" "ap_ready s = 0" using j(1) by auto
qed

lemma mpe_inv_step:
  assumes "mpe_step n p s s'" "mpe_inv n s"
  shows "mpe_inv n s'"
  using assms(1)
proof cases
  case ap_init
  note st = mpe_starting [OF assms(2) disjI1 [OF ap_init(2)]]
  show ?thesis using assms(2) st ap_init by (auto simp: mpe_inv_def running_def)
next
  case (ap_signal old new)
  note st = mpe_starting [OF assms(2) disjI2 [OF ap_signal(2)]]
  show ?thesis using assms(2) st ap_signal by (auto simp: mpe_inv_def running_def xchg_def)
next
  case ap_enter
  then have "1 \<le> p" "p \<le> turn n (boot s)" "ap s p \<noteq> Off" "p \<noteq> n" using assms(2) by (auto simp: mpe_inv_def not_less intro!: Suc_leI gr0I)
  then show ?thesis using assms(2) ap_enter by (cases "boot s") (auto simp: mpe_inv_def running_def split: if_splits)
qed (use assms(2) in \<open>auto simp: mpe_inv_def running_def xchg_def less_Suc_eq\<close>)

section \<open>Progress\<close>

definition all_entered :: "nat \<Rightarrow> mpe \<Rightarrow> bool" where
  "all_entered n s \<longleftrightarrow> boot s = Boot_entry \<and> (\<forall>j. 1 \<le> j \<and> j < n \<longrightarrow> ap s j = Ap_entry)"

text \<open>How much is left to do: every step but the failed polls makes it smaller.\<close>

definition boot_rank :: "boot_pc \<Rightarrow> nat" where
  "boot_rank p = (case p of Loop _ \<Rightarrow> 4 | Mark _ \<Rightarrow> 3 | Send _ \<Rightarrow> 2 | Wait _ \<Rightarrow> 1 | Boot_entry \<Rightarrow> 0)"

fun ap_rank :: "ap_pc \<Rightarrow> nat" where
  "ap_rank Off = 4"
| "ap_rank Started = 3"
| "ap_rank Initialised = 2"
| "ap_rank Signalled = 1"
| "ap_rank Ap_entry = 0"
| "ap_rank Boot_again = 0"

definition left :: "nat \<Rightarrow> mpe \<Rightarrow> nat" where
  "left n s = 4 * (n - turn n (boot s)) + boot_rank (boot s) + (\<Sum>j < n. ap_rank (ap s j))"

lemma sum_update:
  fixes f :: "nat \<Rightarrow> 'a" and r :: "'a \<Rightarrow> nat"
  assumes "j < n" "r v < r (f j)"
  shows "(\<Sum>i < n. r ((f(j := v)) i)) < (\<Sum>i < n. r (f i))"
  by (rule sum_strict_mono_ex1) (use assms in auto)

text \<open>Under the invariant a processor has at most one step, and only a failed poll makes no progress: it changes nothing.\<close>

lemma mpe_deterministic:
  assumes "mpe_inv n s" "mpe_step n p s t" "mpe_step n p s u"
  shows "t = u"
proof -
  have "ap s 0 = Off" using assms(1) by (simp add: mpe_inv_def)
  with assms(2) show ?thesis by cases (use assms(3) \<open>ap s 0 = Off\<close> in \<open>auto elim!: mpe_step_cases\<close>)
qed

lemma ap_on:
  assumes "mpe_inv n s" "ap s j \<noteq> Off"
  shows "1 \<le> j" "j < n" "ap s j \<noteq> Boot_again"
proof -
  have j: "1 \<le> j" "j \<le> turn n (boot s)" "turn n (boot s) \<le> n" "j \<noteq> n"
    using assms by (auto simp: mpe_inv_def not_less intro!: Suc_leI gr0I)
  then show "1 \<le> j" and lt: "j < n" by simp_all
  show "ap s j \<noteq> Boot_again"
  proof (cases "j < turn n (boot s)")
    case True
    then show ?thesis using assms j(1) by (auto simp: mpe_inv_def running_def)
  next
    case False
    then have "j = turn n (boot s)" using j(2) by simp
    then show ?thesis using assms lt by (cases "boot s") (auto simp: mpe_inv_def running_def split: if_splits)
  qed
qed

lemma ap_rank_step:
  assumes "mpe_inv n s" "ap s j \<noteq> Off" "ap_rank v < ap_rank (ap s j)"
  shows "(\<Sum>i < n. ap_rank (((ap s)(j := v)) i)) < (\<Sum>i < n. ap_rank (ap s i))"
  using sum_update [OF ap_on(2) [OF assms(1,2)], of ap_rank v "ap s"] assms(3) by simp

lemma step_progress:
  assumes "mpe_inv n s" "mpe_step n p s t"
  shows "left n t < left n s \<or> t = s \<and> (\<exists>k. boot s = Wait k \<and> ap_ready s \<noteq> 1)"
  using assms(2)
proof cases
  case (send k)
  then have k: "k < n" "ap s k = Off" using assms(1) by (simp_all add: mpe_inv_def)
  have "(\<Sum>i < n. ap_rank (((ap s)(k := Started)) i)) < (\<Sum>i < n. ap_rank (ap s i))" by (rule sum_update) (use k in auto)
  then show ?thesis using send by (simp add: left_def boot_rank_def del: fun_upd_apply)
next
  case (wait_no k old new)
  then have "ap_ready s = 0" "new = 0" using assms(1) by (simp_all add: mpe_inv_def xchg_def split: if_splits)
  then show ?thesis using wait_no by simp
next
  case (wait_yes k old new)
  then have "k < n" using assms(1) by (simp add: mpe_inv_def)
  then have "n - k = Suc (n - Suc k)" by simp
  then show ?thesis using wait_yes by (simp add: left_def boot_rank_def)
next
  case ap_init
  then have "is_ap s = 1" using mpe_starting(4) [OF assms(1)] by blast
  then show ?thesis using ap_init ap_rank_step [OF assms(1), of p Initialised] by (simp add: left_def del: fun_upd_apply)
next
  case (ap_signal old new)
  then show ?thesis using ap_rank_step [OF assms(1), of p Signalled] by (simp add: left_def del: fun_upd_apply)
next
  case ap_enter
  then show ?thesis using ap_rank_step [OF assms(1), of p Ap_entry] by (simp add: left_def del: fun_upd_apply)
qed (use assms(1) in \<open>simp_all add: left_def boot_rank_def mpe_inv_def\<close>)

lemma ap_moves: "mpe_step n p s t \<Longrightarrow> p \<noteq> 0 \<Longrightarrow> ap s p \<noteq> ap t p"
  by (erule mpe_step.cases) auto

text \<open>Unless everything has started, some processor can step, and its step makes progress.\<close>

lemma mpe_progress:
  assumes "mpe_inv n s" "\<not> all_entered n s"
  shows "\<exists>p < n. \<exists>t. mpe_step n p s t \<and> left n t < left n s"
proof -
  have "\<exists>p < n. (\<exists>t. mpe_step n p s t) \<and> (\<forall>k. boot s = Wait k \<longrightarrow> p = 0 \<longrightarrow> ap_ready s = 1)"
  proof (cases "boot s")
    case (Wait k)
    then have w: "k < n" "jmp_code s = 0x000bfde9" "if ap_ready s = 1 then running (ap s k) else ap s k = Started \<or> ap s k = Initialised"
      using assms(1) by (simp_all add: mpe_inv_def split: if_splits)
    show ?thesis
    proof (cases "ap_ready s = 1")
      case True
      then have "\<exists>t. mpe_step n 0 s t" using wait_yes [OF Wait _ True, of 0 n] by (auto simp: xchg_def)
      then show ?thesis using w(1) True by (metis gr_zeroI less_nat_zero_code)
    next
      case False
      then have "ap s k = Started \<or> ap s k = Initialised" "1 \<le> k" using w(3) mpe_starting(3) [OF assms(1), of k] by auto
      then have "\<exists>t. mpe_step n k s t" "k \<noteq> 0"
        using ap_init [OF _ w(2), of k n] ap_signal [of s k "ap_ready s" 1 n] by (auto simp: xchg_def)
      then show ?thesis using w(1) by blast
    qed
  next
    case Boot_entry
    then obtain j where j: "1 \<le> j" "j < n" "ap s j \<noteq> Ap_entry" using assms(2) by (auto simp: all_entered_def)
    then have "ap s j = Signalled" using assms(1) Boot_entry by (auto simp: mpe_inv_def running_def)
    then have "\<exists>t. mpe_step n j s t" using ap_enter [of s j n] by blast
    then show ?thesis using j(2) Boot_entry by auto
  next
    case (Loop k)
    then have "\<exists>t. mpe_step n 0 s t" "0 < n" using loop_next [OF Loop, of n] loop_done [OF Loop, of n] assms(1) by (auto simp: mpe_inv_def)
    then show ?thesis using Loop by auto
  qed (use assms(1) mark [of s _ n] send [of s _ n] in \<open>auto simp: mpe_inv_def intro!: exI [of _ 0]\<close>)
  then obtain p t where p: "p < n" "mpe_step n p s t" and w: "\<forall>k. boot s = Wait k \<longrightarrow> p = 0 \<longrightarrow> ap_ready s = 1" by blast
  show ?thesis
  proof (cases "left n t < left n s")
    case True
    then show ?thesis using p by blast
  next
    case False
    then obtain k where "t = s" "boot s = Wait k" "ap_ready s \<noteq> 1" using step_progress [OF assms(1) p(2)] by blast
    moreover have "p \<noteq> 0" using w calculation by auto
    ultimately show ?thesis using ap_moves [OF p(2)] by simp
  qed
qed

section \<open>Every fair execution\<close>

lemma execution_step:
  assumes "execution n sch \<sigma>"
  shows "mpe_step n (sch i) (\<sigma> i) (\<sigma> (Suc i)) \<or> (\<sigma> (Suc i) = \<sigma> i \<and> (\<nexists>t. mpe_step n (sch i) (\<sigma> i) t))"
  using assms unfolding execution_def by (rule spec)

lemma execution_inv: "execution n sch \<sigma> \<Longrightarrow> mpe_inv n (\<sigma> 0) \<Longrightarrow> mpe_inv n (\<sigma> i)"
proof (induction i)
  case (Suc i)
  then have "mpe_inv n (\<sigma> i)" by blast
  then show ?case using execution_step [OF Suc.prems(1), of i] mpe_inv_step by (elim disjE) simp_all
qed

lemma ap_entered:
  assumes "mpe_inv n s" "all_entered n s"
  shows "if 1 \<le> j \<and> j < n then ap s j = Ap_entry else ap s j = Off"
proof (cases "ap s j = Off")
  case False
  then show ?thesis using ap_on(1,2) [OF assms(1) False] assms(2) by (simp add: all_entered_def)
qed (use assms(2) in \<open>auto simp: all_entered_def\<close>)

lemma all_entered_stays:
  assumes "mpe_inv n s" "all_entered n s"
  shows "\<not> mpe_step n p s t"
proof
  assume a: "mpe_step n p s t"
  have "ap s p = Off \<or> ap s p = Ap_entry" using ap_entered [OF assms, of p] by (simp split: if_splits)
  with a show False using assms(2) by cases (auto simp: all_entered_def)
qed

lemma execution_decreases:
  assumes "execution n sch \<sigma>" "fair n sch" "mpe_inv n (\<sigma> 0)" "\<not> all_entered n (\<sigma> i)"
  shows "\<exists>k \<ge> i. left n (\<sigma> k) < left n (\<sigma> i)"
proof (rule ccontr)
  assume c: "\<not> (\<exists>k \<ge> i. left n (\<sigma> k) < left n (\<sigma> i))"
  have same: "\<sigma> k = \<sigma> i" if "i \<le> k" for k
    using that
  proof (induction k rule: dec_induct)
    case (step k)
    have "\<not> left n (\<sigma> (Suc k)) < left n (\<sigma> k)" using c step by (metis le_SucI)
    then have "\<sigma> (Suc k) = \<sigma> k"
      using execution_step [OF assms(1), of k] step_progress [OF execution_inv [OF assms(1,3), of k]] by blast
    then show ?case using step by simp
  qed simp
  obtain p t where p: "p < n" "mpe_step n p (\<sigma> i) t" "left n t < left n (\<sigma> i)"
    using mpe_progress [OF execution_inv [OF assms(1,3)] assms(4)] by blast
  obtain k where k: "i \<le> k" "sch k = p" using assms(2) p(1) by (auto simp: fair_def)
  then have "mpe_step n p (\<sigma> i) (\<sigma> (Suc k))" using execution_step [OF assms(1), of k] p(2) unfolding k(2) same [OF k(1)] by blast
  then have "\<sigma> (Suc k) = t" using mpe_deterministic [OF execution_inv [OF assms(1,3)]] p(2) by blast
  then show False using c p(3) k(1) by (meson le_SucI)
qed

lemma execution_completes:
  assumes "execution n sch \<sigma>" "fair n sch" "mpe_inv n (\<sigma> 0)"
  shows "\<exists>m. all_entered n (\<sigma> m)"
proof -
  have "\<exists>m. all_entered n (\<sigma> m)" if "left n (\<sigma> i) = l" for i l
    using that
  proof (induction l arbitrary: i rule: less_induct)
    case (less l)
    then show ?case using execution_decreases [OF assms, of i] by blast
  qed
  then show ?thesis by blast
qed

lemma execution_stays:
  assumes "execution n sch \<sigma>" "mpe_inv n (\<sigma> 0)" "all_entered n (\<sigma> m)" "m \<le> i"
  shows "\<sigma> i = \<sigma> m"
  using assms(4)
proof (induction i rule: dec_induct)
  case (step i)
  then have "\<not> mpe_step n (sch i) (\<sigma> i) (\<sigma> (Suc i))" using assms(3) all_entered_stays [OF execution_inv [OF assms(1,2)]] by simp
  then show ?case using execution_step [OF assms(1), of i] step by simp
qed simp

text \<open>
  C20: starting the processors. In every execution, at every moment, at most one processor is on its way from the start message
  to its signal, none ever takes the boot processor's path again, no processor is sent more than one start message, and the boot
  processor calls the user's entry only after all others have initialised themselves and signalled. Every fair execution arrives:
  from some moment on all processors are in the user's entry, each other processor has been started exactly once and
  nothing outside the \<open>n\<close> processors was started.
\<close>

theorem mpe_starts_all:
  assumes "1 \<le> n" "mpe_boot (\<sigma> 0)" "execution n sch \<sigma>"
  shows "(\<forall>i j. ap (\<sigma> m) i \<in> {Started, Initialised} \<longrightarrow> ap (\<sigma> m) j \<in> {Started, Initialised} \<longrightarrow> i = j) \<and>
    (\<forall>j. ap (\<sigma> m) j \<noteq> Boot_again \<and> starts (\<sigma> m) j \<le> 1) \<and>
    (boot (\<sigma> m) = Boot_entry \<longrightarrow> (\<forall>j. 1 \<le> j \<and> j < n \<longrightarrow> ap (\<sigma> m) j \<in> {Signalled, Ap_entry})) \<and>
    (fair n sch \<longrightarrow> (\<exists>k. \<forall>i \<ge> k. all_entered n (\<sigma> i) \<and> (\<forall>j. starts (\<sigma> i) j = (if 1 \<le> j \<and> j < n then 1 else 0))))"
proof -
  note inv0 = mpe_inv_boot [OF assms(1,2)]
  note inv = execution_inv [OF assms(3) inv0]
  have one: "i = j" if "ap (\<sigma> m) i \<in> {Started, Initialised}" "ap (\<sigma> m) j \<in> {Started, Initialised}" for i j
    using mpe_starting(1) [OF inv, of m i] mpe_starting(1) [OF inv, of m j] that by auto
  have on: "ap (\<sigma> m) j \<noteq> Boot_again \<and> starts (\<sigma> m) j \<le> 1" for j
    using ap_on(3) [OF inv, of m j] inv [of m] by (auto simp: mpe_inv_def)
  have entry: "boot (\<sigma> m) = Boot_entry \<longrightarrow> (\<forall>j. 1 \<le> j \<and> j < n \<longrightarrow> ap (\<sigma> m) j \<in> {Signalled, Ap_entry})"
    using inv [of m] by (auto simp: mpe_inv_def running_def)
  have fin: "\<exists>k. \<forall>i \<ge> k. all_entered n (\<sigma> i) \<and> (\<forall>j. starts (\<sigma> i) j = (if 1 \<le> j \<and> j < n then 1 else 0))" if f: "fair n sch"
  proof -
    obtain k where k: "all_entered n (\<sigma> k)" using execution_completes [OF assms(3) f inv0] by blast
    have "starts (\<sigma> k) j = (if 1 \<le> j \<and> j < n then 1 else 0)" for j
    proof -
      have "starts (\<sigma> k) j = (if ap (\<sigma> k) j = Off then 0 else 1)" using inv [of k] by (simp add: mpe_inv_def)
      then show ?thesis using ap_entered [OF inv k, of j] by (simp split: if_splits)
    qed
    then have "all_entered n (\<sigma> i) \<and> (\<forall>j. starts (\<sigma> i) j = (if 1 \<le> j \<and> j < n then 1 else 0))" if "k \<le> i" for i
      using k unfolding execution_stays [OF assms(3) inv0 k that] by blast
    then show ?thesis by blast
  qed
  show ?thesis using on entry fin by (intro conjI allI impI) (rule one, assumption+, blast+)
qed

text \<open>Four processors that take turns.\<close>

lemma execution_exists: "\<exists>\<sigma>. \<sigma> 0 = s \<and> execution n sch \<sigma>"
proof -
  define nxt where "nxt i s = (if \<exists>t. mpe_step n (sch i) s t then SOME t. mpe_step n (sch i) s t else s)" for i s
  have "execution n sch (rec_nat s nxt)"
    by (auto simp: execution_def nxt_def intro: someI)
  then show ?thesis by (intro exI [of _ "rec_nat s nxt"]) simp
qed

theorem mpe_starts_all_witness:
  "\<exists>\<sigma>. execution 4 (\<lambda>i. i mod 4) \<sigma> \<and>
    \<sigma> 0 = mpe_start \<lparr>boot = Boot_entry, ap = (\<lambda>_. Off), ap_ready = 0, is_ap = 0, jmp_code = 0, starts = (\<lambda>_. 0)\<rparr> \<and>
    (\<exists>k. all_entered 4 (\<sigma> k) \<and> starts (\<sigma> k) 3 = 1)"
proof -
  obtain \<sigma> where e: "execution 4 (\<lambda>i. i mod 4) \<sigma>"
    and z: "\<sigma> 0 = mpe_start \<lparr>boot = Boot_entry, ap = (\<lambda>_. Off), ap_ready = 0, is_ap = 0, jmp_code = 0, starts = (\<lambda>_. 0)\<rparr>"
    using execution_exists by blast
  have "mpe_boot (\<sigma> 0)" by (simp add: z mpe_boot_def mpe_start_def)
  moreover have "fair 4 (\<lambda>i. i mod 4)"
    unfolding fair_def by (intro allI impI, rule_tac x = "4 * i + p" in exI) simp
  ultimately have "\<exists>k. \<forall>i \<ge> k. all_entered 4 (\<sigma> i) \<and> (\<forall>j. starts (\<sigma> i) j = (if 1 \<le> j \<and> j < 4 then 1 else 0))"
    using mpe_starts_all [of 4 \<sigma> "\<lambda>i. i mod 4"] e by simp
  then obtain k where "all_entered 4 (\<sigma> k)" "\<forall>j. starts (\<sigma> k) j = (if 1 \<le> j \<and> j < 4 then 1 else 0)" by blast
  then have "all_entered 4 (\<sigma> k)" "starts (\<sigma> k) 3 = 1" by simp_all
  then show ?thesis using e z by blast
qed

end
