(* ===== verification/Am_X86_Ioe.thy ===== *)
theory Am_X86_Ioe
  imports Word_Halves
begin

text \<open>
  Devices of the abstract machine on x86 under QEMU (\<^verbatim>\<open>am/src/x86/qemu/ioe.c\<close>): serial port, clock, keyboard, graphics and
  disk. The code talks to them through port instructions, which are a parameter: a record of what each instruction reads and does to
  a device state of any type. What the disk does is stated as a specification device, and the theorems assume that the ports
  implement it.
\<close>

section \<open>Port instructions\<close>

record 'd ports =
  dinb :: "u16 \<Rightarrow> 'd \<Rightarrow> u8 \<times> 'd"
  doutb :: "u16 \<Rightarrow> u8 \<Rightarrow> 'd \<Rightarrow> 'd"
  dinl :: "u16 \<Rightarrow> 'd \<Rightarrow> u32 \<times> 'd"
  doutl :: "u16 \<Rightarrow> u32 \<Rightarrow> 'd \<Rightarrow> 'd"

definition inb :: "'d ports \<Rightarrow> u32 \<Rightarrow> 'd \<Rightarrow> u8 \<times> 'd" where
  "inb P port d = dinb P (ucast port) d"

definition outb :: "'d ports \<Rightarrow> u32 \<Rightarrow> u8 \<Rightarrow> 'd \<Rightarrow> 'd" where
  "outb P port v d = doutb P (ucast port) v d"

definition inl :: "'d ports \<Rightarrow> u32 \<Rightarrow> 'd \<Rightarrow> u32 \<times> 'd" where
  "inl P port d = dinl P (ucast port) d"

definition outl :: "'d ports \<Rightarrow> u32 \<Rightarrow> u32 \<Rightarrow> 'd \<Rightarrow> 'd" where
  "outl P port v d = doutl P (ucast port) v d"

section \<open>Serial port\<close>

definition COM1 :: u32 where "COM1 = 0x3f8"

definition uart_init :: "'d ports \<Rightarrow> 'd \<Rightarrow> 'd" where
  "uart_init P d =
    (let d = outb P (COM1 + 2) 0 d;
         d = outb P (COM1 + 3) 0x80 d;
         d = outb P (COM1 + 0) (115200 div 9600) d;
         d = outb P (COM1 + 1) 0 d;
         d = outb P (COM1 + 3) 0x03 d;
         d = outb P (COM1 + 4) 0 d;
         d = outb P (COM1 + 1) 0x01 d;
         (_, d) = inb P (COM1 + 2) d;
         (_, d) = inb P (COM1 + 0) d
     in d)"

definition uart_tx :: "'d ports \<Rightarrow> u8 \<Rightarrow> 'd \<Rightarrow> 'd" where
  "uart_tx P ch d = outb P COM1 ch d"

definition uart_rx :: "'d ports \<Rightarrow> 'd \<Rightarrow> u8 \<times> 'd" where
  "uart_rx P d = (let (st, d) = inb P (COM1 + 5) d in if st AND 0x1 \<noteq> 0 then inb P COM1 d else (- 1, d))"

section \<open>Clock\<close>

record timer_rtc_t =
  rtc_year :: int
  rtc_month :: int
  rtc_day :: int
  rtc_hour :: int
  rtc_minute :: int
  rtc_second :: int

definition read_rtc :: "'d ports \<Rightarrow> u8 \<Rightarrow> 'd \<Rightarrow> int \<times> 'd" where
  "read_rtc P reg d =
    (let d = outb P 0x70 reg d; (ret, d) = inb P 0x71 d
     in (uint (ret AND 0xf) + uint (drop_bit 4 ret) * 10, d))"

definition read_rtc_async :: "'d ports \<Rightarrow> 'd \<Rightarrow> timer_rtc_t \<times> 'd" where
  "read_rtc_async P d =
    (let (s, d) = read_rtc P 0 d; (mi, d) = read_rtc P 2 d; (h, d) = read_rtc P 4 d;
         (da, d) = read_rtc P 7 d; (mo, d) = read_rtc P 8 d; (y, d) = read_rtc P 9 d
     in (\<lparr>rtc_year = y + 2000, rtc_month = mo, rtc_day = da, rtc_hour = h, rtc_minute = mi, rtc_second = s\<rparr>, d))"

text \<open>The loops that wait for the clock may run forever; then the result is \<open>None\<close>.\<close>

partial_function (option) wait_sec :: "'d ports \<Rightarrow> 'd \<Rightarrow> (timer_rtc_t \<times> 'd) option" where
  "wait_sec P d =
    (let (t0, d1) = read_rtc_async P d; (t1, d2) = read_rtc_async P d1
     in if rtc_second t0 \<noteq> rtc_second t1 then Some (t1, d2) else wait_sec P d2)"

text \<open>\<open>tsc\<close> reads the cycle counter. The sums are computed in \<^verbatim>\<open>int\<close> and converted.\<close>

definition seconds :: "timer_rtc_t \<Rightarrow> u64" where
  "seconds t = of_int (rtc_minute t * 60 + rtc_second t)"

partial_function (option) estimate_freq :: "'d ports \<Rightarrow> ('d \<Rightarrow> u64 \<times> 'd) \<Rightarrow> 'd \<Rightarrow> (u32 \<times> 'd) option" where
  "estimate_freq P tsc d =
    (case wait_sec P d of None \<Rightarrow> None | Some (rtc1, d1) \<Rightarrow>
     let (tsc1, d2) = tsc d1; t1 = seconds rtc1 in
     case wait_sec P d2 of None \<Rightarrow> None | Some (rtc2, d3) \<Rightarrow>
     let (tsc2, d4) = tsc d3; t2 = seconds rtc2 in
     if t1 \<ge> t2 then estimate_freq P tsc d4
     else Some (ucast (drop_bit 20 (tsc2 - tsc1) div (t2 - t1)), d4))"

partial_function (option) timer_rtc :: "'d ports \<Rightarrow> 'd \<Rightarrow> (timer_rtc_t \<times> 'd) option" where
  "timer_rtc P d =
    (let (t, d1) = read_rtc_async P d; (tmp, d2) = read_rtc P 0 d1
     in if tmp \<noteq> rtc_second t then timer_rtc P d2 else Some (t, d2))"

definition timer_init :: "'d ports \<Rightarrow> ('d \<Rightarrow> u64 \<times> 'd) \<Rightarrow> 'd \<Rightarrow> ((u32 \<times> timer_rtc_t \<times> u64) \<times> 'd) option" where
  "timer_init P tsc d =
    (case estimate_freq P tsc d of None \<Rightarrow> None | Some (freq_mhz, d1) \<Rightarrow>
     case timer_rtc P d1 of None \<Rightarrow> None | Some (boot_date, d2) \<Rightarrow>
     let (uptsc, d3) = tsc d2 in Some ((freq_mhz, boot_date, uptsc), d3))"

definition timer_uptime :: "u32 \<Rightarrow> u64 \<Rightarrow> u64 \<Rightarrow> u64 res" where
  "timer_uptime freq_mhz uptsc now = (if freq_mhz = 0 then Inl (Undef ''division by zero'') else Inr ((now - uptsc) div ucast freq_mhz))"

section \<open>Keyboard\<close>

text \<open>\<^verbatim>\<open>keylut\<close>: scan codes and key codes; the other entries are 0.\<close>

definition keylut_entries :: "(nat \<times> nat) list" where
  "keylut_entries =
    [(0x01, 1)] @ zip [0x02..<0x0b] [15..<24] @ [(0x0b, 24), (0x0c, 25), (0x0d, 26), (0x0e, 27), (0x0f, 28)] @
    zip [0x10..<0x1a] [29..<39] @ [(0x1a, 39), (0x1b, 40), (0x1c, 54), (0x1d, 67)] @ zip [0x1e..<0x27] [43..<52] @
    [(0x27, 52), (0x28, 53), (0x29, 14), (0x2a, 55), (0x2b, 41)] @ zip [0x2c..<0x33] [56..<63] @
    [(0x33, 63), (0x34, 64), (0x35, 65), (0x36, 66), (0x37, 69), (0x38, 71), (0x39, 70), (0x3a, 42)] @
    zip [0x3b..<0x45] [2..<12] @ [(0x48, 77), (0x4b, 79), (0x4d, 80), (0x50, 78), (0x57, 12), (0x58, 13), (0x5b, 68)]"

definition keylut :: "nat \<Rightarrow> nat" where
  "keylut code = (case map_of keylut_entries code of None \<Rightarrow> 0 | Some k \<Rightarrow> k)"

definition input_keybrd :: "'d ports \<Rightarrow> 'd \<Rightarrow> (bool \<times> nat) \<times> 'd" where
  "input_keybrd P d =
    (let (st, d) = inb P 0x64 d in
     if st AND 0x1 \<noteq> 0 then
       (let (b, d) = inb P 0x60 d; code = unat (b AND 0xff) in ((code < 128, keylut (unat (b AND 0x7f))), d))
     else ((False, 0), d))"

section \<open>Graphics\<close>

record pixel =
  px_b :: u8
  px_g :: u8
  px_r :: u8

definition pixel_of :: "u32 \<Rightarrow> pixel" where
  "pixel_of p = \<lparr>px_b = ucast p, px_g = ucast (drop_bit 8 p), px_r = ucast (drop_bit 16 p)\<rparr>"

text \<open>
  A buffer of pixels has a size; storing outside of it is undefined. \<open>W\<close> and \<open>H\<close> are the size of the display, which are
  16-bit values of the firmware.
\<close>

type_synonym fbuf = "int \<Rightarrow> pixel"

record fbdraw =
  fd_x :: int
  fd_y :: int
  fd_w :: int
  fd_h :: int
  fd_pixels :: "int \<Rightarrow> u32"

definition store_px :: "int \<Rightarrow> int \<Rightarrow> pixel \<Rightarrow> fbuf \<Rightarrow> fbuf res" where
  "store_px sz i p fb = (if 0 \<le> i \<and> i < sz then Inr (fb(i := p)) else Inl (Undef ''store outside of the frame buffer''))"

primrec fb_row :: "int \<Rightarrow> int \<Rightarrow> (int \<Rightarrow> u32) \<Rightarrow> nat \<Rightarrow> fbuf \<Rightarrow> fbuf res" where
  "fb_row sz start pixels 0 fb = Inr fb"
| "fb_row sz start pixels (Suc i) fb =
    ebind (fb_row sz start pixels i fb) (\<lambda>fb. store_px sz (start + int i) (pixel_of (pixels (int i))) fb)"

primrec fb_rows :: "int \<Rightarrow> int \<Rightarrow> fbdraw \<Rightarrow> int \<Rightarrow> nat \<Rightarrow> fbuf \<Rightarrow> fbuf res" where
  "fb_rows W H dr len 0 fb = Inr fb"
| "fb_rows W H dr len (Suc j) fb =
    ebind (fb_rows W H dr len j fb) (\<lambda>fb.
      if fd_y dr + int j < H
      then fb_row (W * H) (fd_x dr + (int j + fd_y dr) * W) (\<lambda>i. fd_pixels dr (int j * fd_w dr + i)) (nat len) fb
      else Inr fb)"

definition gpu_fbdraw :: "int \<Rightarrow> int \<Rightarrow> fbdraw \<Rightarrow> fbuf \<Rightarrow> fbuf res" where
  "gpu_fbdraw W H dr fb =
    (let len = (if fd_x dr + fd_w dr \<ge> W then W - fd_x dr else fd_w dr) in fb_rows W H dr len (nat (fd_h dr)) fb)"

text \<open>
  The canvas tree that \<^verbatim>\<open>gpu_render\<close> draws, read from video memory: a node has its place in its parent and is a texture or has
  children. \<open>used\<close> counts the bytes of \<^verbatim>\<open>vbuf\<close> that are taken.
\<close>

record geom =
  g_x1 :: int
  g_y1 :: int
  g_w1 :: int
  g_h1 :: int

datatype canvas =
    Texture geom int int "int \<Rightarrow> pixel"
  | Subtree geom int int "canvas list"
  | Invalid geom

definition VMEM_SIZE :: int where "VMEM_SIZE = 524288"

definition vbuf_alloc :: "int \<Rightarrow> int \<Rightarrow> int res" where
  "vbuf_alloc sz used = (if used + sz > VMEM_SIZE then Inl (Panic ''no memory'') else Inr (used + sz))"

text \<open>Scaling the local pixels into the parent's buffer, column by column.\<close>

primrec blit_col :: "int \<Rightarrow> int \<Rightarrow> geom \<Rightarrow> int \<Rightarrow> int \<Rightarrow> fbuf \<Rightarrow> int \<Rightarrow> nat \<Rightarrow> fbuf \<Rightarrow> fbuf res" where
  "blit_col sz W g w h src i 0 px = Inr px"
| "blit_col sz W g w h src i (Suc j) px =
    ebind (blit_col sz W g w h src i j px) (\<lambda>px.
      store_px sz (W * (g_y1 g + int j) + (g_x1 g + i)) (src (w * (int j * h div g_h1 g) + i * w div g_w1 g)) px)"

primrec blit :: "int \<Rightarrow> int \<Rightarrow> geom \<Rightarrow> int \<Rightarrow> int \<Rightarrow> fbuf \<Rightarrow> nat \<Rightarrow> fbuf \<Rightarrow> fbuf res" where
  "blit sz W g w h src 0 px = Inr px"
| "blit sz W g w h src (Suc i) px =
    ebind (blit sz W g w h src i px) (\<lambda>px. blit_col sz W g w h src (int i) (nat (g_h1 g)) px)"

definition black :: pixel where "black = \<lparr>px_b = 0, px_g = 0, px_r = 0\<rparr>"

fun render :: "int \<Rightarrow> int \<Rightarrow> canvas \<Rightarrow> fbuf \<times> int \<Rightarrow> (fbuf \<times> int) res" and
  render_list :: "int \<Rightarrow> int \<Rightarrow> canvas list \<Rightarrow> fbuf \<times> int \<Rightarrow> (fbuf \<times> int) res" where
  "render sz W (Texture g w h src) (px, used) =
    ebind (blit sz W g w h src (nat (g_w1 g)) px) (\<lambda>px. Inr (px, used))"
| "render sz W (Subtree g w h cs) (px, used) =
    ebind (vbuf_alloc (w * h * 3) used) (\<lambda>used.
    ebind (render_list (w * h) w cs (\<lambda>_. black, used)) (\<lambda>(loc, used).
    ebind (blit sz W g w h loc (nat (g_w1 g)) px) (\<lambda>px. Inr (px, used))))"
| "render sz W (Invalid g) (px, used) = Inl (Panic ''invalid node'')"
| "render_list sz W [] st = Inr st"
| "render_list sz W (c # cs) st = ebind (render sz W c st) (render_list sz W cs)"

definition gpu_render :: "int \<Rightarrow> int \<Rightarrow> canvas \<Rightarrow> fbuf \<Rightarrow> fbuf res" where
  "gpu_render W H root fb = ebind (render (W * H) W root (fb, 0)) (\<lambda>(px, _). Inr px)"

text \<open>
  \<^verbatim>\<open>gpu_init\<close>: the geometry and the frame buffer address from the block of the firmware at \<^verbatim>\<open>0x4000\<close> (little endian fields at 18, 20 and
  40), then the configuration register, and the copy into the video memory with its bytes as a function.
\<close>

record display =
  disp_w :: nat
  disp_h :: nat
  disp_fb :: nat

definition field_le :: "(nat \<Rightarrow> u8) \<Rightarrow> nat \<Rightarrow> nat \<Rightarrow> nat" where
  "field_le B a n = foldr (\<lambda>k v. unat (B (a + k)) + 256 * v) [0..<n] 0"

definition gpu_init :: "(nat \<Rightarrow> u8) \<Rightarrow> display" where
  "gpu_init B = \<lparr>disp_w = field_le B (0x4000 + 18) 2, disp_h = field_le B (0x4000 + 20) 2, disp_fb = field_le B (0x4000 + 40) 4\<rparr>"

definition gpu_config :: "display \<Rightarrow> bool \<times> nat \<times> nat \<times> int" where
  "gpu_config D = (True, disp_w D, disp_h D, VMEM_SIZE)"

primrec gpu_memcpy_loop :: "int \<Rightarrow> (nat \<Rightarrow> u8) \<Rightarrow> nat \<Rightarrow> (int \<Rightarrow> u8) \<Rightarrow> (int \<Rightarrow> u8) res" where
  "gpu_memcpy_loop dest src 0 vmem = Inr vmem"
| "gpu_memcpy_loop dest src (Suc i) vmem =
    ebind (gpu_memcpy_loop dest src i vmem) (\<lambda>vmem.
      if dest + int i < VMEM_SIZE then Inr (vmem(dest + int i := src i)) else Inl (Undef ''write outside the video memory''))"

definition gpu_memcpy :: "u32 \<Rightarrow> (nat \<Rightarrow> u8) \<Rightarrow> int \<Rightarrow> (int \<Rightarrow> u8) \<Rightarrow> (int \<Rightarrow> u8) res" where
  "gpu_memcpy dest src sz vmem =
    (if dest = 0xffffffff \<and> 0 < sz then Inl (Undef ''null pointer'') else gpu_memcpy_loop (uint dest) src (nat sz) vmem)"

section \<open>Disk\<close>

definition BLKSZ :: nat where "BLKSZ = 512"
definition DISKSZ :: nat where "DISKSZ = 67108864"

partial_function (option) wait_disk :: "'d ports \<Rightarrow> 'd \<Rightarrow> 'd option" where
  "wait_disk P d = (let (st, d) = inb P 0x1f7 d in if st AND 0xc0 \<noteq> 0x40 then wait_disk P d else Some d)"

text \<open>The command sequence of one block, up to its data.\<close>

definition disk_command :: "'d ports \<Rightarrow> u8 \<Rightarrow> u32 \<Rightarrow> 'd \<Rightarrow> 'd option" where
  "disk_command P cmd blkno d =
    (case wait_disk P d of None \<Rightarrow> None | Some d \<Rightarrow>
     let d = outb P 0x1f2 1 d;
         d = outb P 0x1f3 (ucast blkno) d;
         d = outb P 0x1f4 (ucast (drop_bit 8 blkno)) d;
         d = outb P 0x1f5 (ucast (drop_bit 16 blkno)) d;
         d = outb P 0x1f6 (ucast (drop_bit 24 blkno OR 0xe0)) d;
         d = outb P 0x1f7 cmd d
     in wait_disk P d)"

primrec read_words :: "'d ports \<Rightarrow> nat \<Rightarrow> 'd \<Rightarrow> u32 list \<times> 'd" where
  "read_words P 0 d = ([], d)"
| "read_words P (Suc n) d = (let (w, d) = inl P 0x1f0 d; (ws, d) = read_words P n d in (w # ws, d))"

primrec write_words :: "'d ports \<Rightarrow> u32 list \<Rightarrow> 'd \<Rightarrow> 'd" where
  "write_words P [] d = d"
| "write_words P (w # ws) d = write_words P ws (outl P 0x1f0 w d)"

text \<open>\<^verbatim>\<open>disk_blkio\<close> reading: the words it stores in the buffer; and writing, from the words of the buffer.\<close>

primrec disk_read :: "'d ports \<Rightarrow> nat \<Rightarrow> u32 \<Rightarrow> 'd \<Rightarrow> (u32 list \<times> 'd) option" where
  "disk_read P 0 blkno d = Some ([], d)"
| "disk_read P (Suc remain) blkno d =
    (case disk_command P 0x20 blkno d of None \<Rightarrow> None | Some d \<Rightarrow>
     let (ws, d) = read_words P (BLKSZ div 4) d in
     case disk_read P remain (blkno + 1) d of None \<Rightarrow> None | Some (rest, d) \<Rightarrow> Some (ws @ rest, d))"

primrec disk_write :: "'d ports \<Rightarrow> nat \<Rightarrow> u32 \<Rightarrow> u32 list \<Rightarrow> 'd \<Rightarrow> 'd option" where
  "disk_write P 0 blkno buf d = Some d"
| "disk_write P (Suc remain) blkno buf d =
    (case disk_command P 0x30 blkno d of None \<Rightarrow> None | Some d \<Rightarrow>
     disk_write P remain (blkno + 1) (drop (BLKSZ div 4) buf) (write_words P (take (BLKSZ div 4) buf) d))"

definition disk_config :: "bool \<times> nat \<times> nat" where
  "disk_config = (True, BLKSZ, DISKSZ div BLKSZ)"

text \<open>\<^verbatim>\<open>lut\<close> and its use: the registers that have a handler; \<^verbatim>\<open>ioe_init\<close> fills the rest with \<^verbatim>\<open>fail\<close>.\<close>

definition lut_regs :: "nat list" where
  "lut_regs = [1, 2, 3, 4, 5, 6, 7, 8, 9, 11, 10, 12, 13, 14, 18, 19, 20, 21]"

definition ioe_dispatch :: "nat \<Rightarrow> nat res" where
  "ioe_dispatch reg =
    (if 128 \<le> reg then Inl (Undef ''lut index'')
     else if reg \<in> set lut_regs then Inr reg else Inl (Panic ''access nonexist register''))"

text \<open>The state that \<^verbatim>\<open>ioe_init\<close> leaves: frequency, date and counter of the timer, and the display.\<close>

definition ioe_init :: "nat \<Rightarrow> 'd ports \<Rightarrow> ('d \<Rightarrow> u64 \<times> 'd) \<Rightarrow> (nat \<Rightarrow> u8) \<Rightarrow> 'd \<Rightarrow> (((u32 \<times> timer_rtc_t \<times> u64) \<times> display) \<times> 'd) res option" where
  "ioe_init cpu P tsc B d =
    (if cpu \<noteq> 0 then Some (Inl (Panic ''init IOE in non-bootstrap CPU''))
     else case timer_init P tsc (uart_init P d) of None \<Rightarrow> None
     | Some (t, d') \<Rightarrow> Some (Inr ((t, gpu_init B), d')))"

lemma gpu_memcpy_copies:
  assumes "0 \<le> sz" "uint dest + sz \<le> VMEM_SIZE"
  shows "gpu_memcpy dest src sz vmem = Inr (\<lambda>a. if uint dest \<le> a \<and> a < uint dest + sz then src (nat (a - uint dest)) else vmem a)"
proof -
  have loop: "gpu_memcpy_loop t src n vmem = Inr (\<lambda>a. if t \<le> a \<and> a < t + int n then src (nat (a - t)) else vmem a)"
    if "t + int n \<le> VMEM_SIZE" for t n
    using that by (induction n) (auto simp: ebind_def fun_eq_iff)
  have "dest \<noteq> 0xffffffff \<or> sz = 0" using assms by (auto simp: VMEM_SIZE_def)
  then show ?thesis using assms loop [of "uint dest" "nat sz"] by (auto simp: gpu_memcpy_def)
qed

section \<open>The drive\<close>

text \<open>
  The ATA drive as its programming manual describes it for single-sector transfers with 28-bit block addresses: five registers, a
  transfer in progress, the sectors, and whether the drive is busy. It is busy after every command and after the last word of
  a sector that it has to write.
\<close>

datatype phase = Idle | Reading nat nat | Writing nat "u32 list"

record ata =
  ata_regs :: "u16 \<Rightarrow> u8"
  ata_phase :: phase
  ata_disk :: "nat \<Rightarrow> u32 list"
  ata_busy :: bool

definition ata_lba :: "(u16 \<Rightarrow> u8) \<Rightarrow> nat" where
  "ata_lba r = unat (r 0x1f3) + 256 * unat (r 0x1f4) + 65536 * unat (r 0x1f5) + 16777216 * (unat (r 0x1f6) mod 16)"

definition ata_out :: "u16 \<Rightarrow> u8 \<Rightarrow> ata \<Rightarrow> ata" where
  "ata_out p b a =
    (if p = 0x1f7 then
       (if ata_regs a 0x1f2 = 1 \<and> ata_regs a 0x1f6 AND 0xe0 = 0xe0 \<and> b = 0x20 then a\<lparr>ata_phase := Reading (ata_lba (ata_regs a)) 0, ata_busy := True\<rparr>
        else if ata_regs a 0x1f2 = 1 \<and> ata_regs a 0x1f6 AND 0xe0 = 0xe0 \<and> b = 0x30 then a\<lparr>ata_phase := Writing (ata_lba (ata_regs a)) [], ata_busy := True\<rparr>
        else a)
     else a\<lparr>ata_regs := (ata_regs a)(p := b)\<rparr>)"

definition ata_inl :: "ata \<Rightarrow> u32 \<times> ata" where
  "ata_inl a =
    (case ata_phase a of
       Reading l i \<Rightarrow> (ata_disk a l ! i, a\<lparr>ata_phase := (if Suc i < 128 then Reading l (Suc i) else Idle)\<rparr>)
     | _ \<Rightarrow> (0, a))"

definition ata_outl :: "u32 \<Rightarrow> ata \<Rightarrow> ata" where
  "ata_outl w a =
    (case ata_phase a of
       Writing l ws \<Rightarrow>
         (if Suc (length ws) < 128 then a\<lparr>ata_phase := Writing l (ws @ [w])\<rparr>
          else a\<lparr>ata_phase := Idle, ata_disk := (ata_disk a)(l := ws @ [w]), ata_busy := True\<rparr>)
     | _ \<Rightarrow> a)"

text \<open>
  Ports with a drive behind them: \<open>V\<close> is what the drive is, seen through the specification. Nothing is known of what a busy drive does with its
  registers and its data. Reading the status changes nothing but the busy state; a status that says ready is the end of it, and comes
  after finitely many reads.
\<close>

definition status_ready :: "'d ports \<Rightarrow> 'd \<Rightarrow> bool" where
  "status_ready P d \<longleftrightarrow> fst (inb P 0x1f7 d) AND 0xc0 = 0x40"

definition poll :: "'d ports \<Rightarrow> 'd \<Rightarrow> 'd" where
  "poll P d = snd (inb P 0x1f7 d)"

definition ata_ports :: "'d ports \<Rightarrow> ('d \<Rightarrow> ata) \<Rightarrow> bool" where
  "ata_ports P V \<longleftrightarrow>
    (\<forall>d p b. p \<in> {0x1f2, 0x1f3, 0x1f4, 0x1f5, 0x1f6, 0x1f7} \<longrightarrow> \<not> ata_busy (V d) \<longrightarrow> V (outb P p b d) = ata_out (ucast p) b (V d)) \<and>
    (\<forall>d. \<not> ata_busy (V d) \<longrightarrow> fst (inl P 0x1f0 d) = fst (ata_inl (V d)) \<and> V (snd (inl P 0x1f0 d)) = snd (ata_inl (V d))) \<and>
    (\<forall>d w. \<not> ata_busy (V d) \<longrightarrow> V (outl P 0x1f0 w d) = ata_outl w (V d)) \<and>
    (\<forall>d. \<exists>b. V (poll P d) = (V d)\<lparr>ata_busy := b\<rparr> \<and> (status_ready P d \<longrightarrow> \<not> b)) \<and>
    (\<forall>d. \<exists>n. status_ready P ((poll P ^^ n) d))"

lemma wait_disk_ready:
  assumes "ata_ports P V"
  shows "\<exists>d'. wait_disk P d = Some d' \<and> V d' = (V d)\<lparr>ata_busy := False\<rparr>"
proof -
  have poll: "\<exists>b. V (poll P d) = (V d)\<lparr>ata_busy := b\<rparr> \<and> (status_ready P d \<longrightarrow> \<not> b)" for d
    using assms by (simp add: ata_ports_def)
  have ready: "wait_disk P d = Some (poll P d) \<and> V (poll P d) = (V d)\<lparr>ata_busy := False\<rparr>" if "status_ready P d" for d
    using that poll [of d] by (subst wait_disk.simps) (auto simp: status_ready_def poll_def split: prod.split)
  obtain n where "status_ready P ((poll P ^^ n) d)" using assms unfolding ata_ports_def by meson
  then show ?thesis
  proof (induction n arbitrary: d)
    case 0
    then show ?case using ready [of d] by auto
  next
    case (Suc n)
    show ?case
    proof (cases "status_ready P d")
      case True
      then show ?thesis using ready [of d] by auto
    next
      case False
      have "status_ready P ((poll P ^^ n) (poll P d))" using Suc.prems by (simp add: funpow_swap1)
      then obtain d' where d': "wait_disk P (poll P d) = Some d'" "V d' = (V (poll P d))\<lparr>ata_busy := False\<rparr>" using Suc.IH by blast
      obtain b where "V (poll P d) = (V d)\<lparr>ata_busy := b\<rparr>" using poll [of d] by blast
      moreover have "wait_disk P d = wait_disk P (poll P d)"
        using False by (subst wait_disk.simps) (auto simp: status_ready_def poll_def split: prod.split)
      ultimately show ?thesis using d' by auto
    qed
  qed
qed

lemma byte_digits: "n mod 256 + 256 * (n div 256 mod 256) + 65536 * (n div 65536 mod 256) + 16777216 * (n div 16777216) = (n :: nat)"
proof -
  have a: "n div 65536 = n div (256 * 256)" "n div 16777216 = n div (256 * 256 * 256)" by simp_all
  show ?thesis
    unfolding a div_mult2_eq
    using mult_div_mod_eq [of 256 n] mult_div_mod_eq [of 256 "n div 256"] mult_div_mod_eq [of 256 "n div 256 div 256"] by linarith
qed

lemma lba_split:
  assumes "unat b < 2 ^ 28"
  shows "unat (ucast b :: u8) + 256 * unat (ucast (drop_bit 8 b) :: u8) + 65536 * unat (ucast (drop_bit 16 b) :: u8) +
      16777216 * (unat (ucast (drop_bit 24 b OR 0xe0) :: u8) mod 16) = unat (b :: u32)"
    and "(ucast (drop_bit 24 b OR 0xe0) :: u8) AND 0xe0 = 0xe0"
proof -
  have u8: "unat (ucast w :: u8) = unat w mod 256" for w :: u32 by (simp add: unsigned_ucast_eq take_bit_eq_mod)
  have e32: "bit (0xe0 :: u32) n \<longleftrightarrow> 5 \<le> n \<and> n < 8" for n
  proof -
    have "(0xe0 :: u32) = push_bit 5 (mask 3)" by (simp add: mask_eq_exp_minus_1)
    then show ?thesis by (simp only: bit_push_bit_iff bit_mask_iff) auto
  qed
  have e8: "bit (0xe0 :: u8) n \<longleftrightarrow> 5 \<le> n \<and> n < 8" for n
  proof -
    have "(0xe0 :: u8) = push_bit 5 (mask 3)" by (simp add: mask_eq_exp_minus_1)
    then show ?thesis by (simp only: bit_push_bit_iff bit_mask_iff) auto
  qed
  have "take_bit 4 (drop_bit 24 b OR 0xe0) = take_bit 4 (drop_bit 24 b)"
    by (rule bit_word_eqI) (auto simp: bit_take_bit_iff bit_or_iff e32)
  then have "unat (drop_bit 24 b OR 0xe0) mod 16 = unat (drop_bit 24 b) mod 16"
    using unat_take_bit [of 4 "drop_bit 24 b OR 0xe0"] unat_take_bit [of 4 "drop_bit 24 b"] by simp
  then show "unat (ucast b :: u8) + 256 * unat (ucast (drop_bit 8 b) :: u8) + 65536 * unat (ucast (drop_bit 16 b) :: u8) +
      16777216 * (unat (ucast (drop_bit 24 b OR 0xe0) :: u8) mod 16) = unat (b :: u32)"
    using assms byte_digits [of "unat b"] by (simp add: u8 unat_drop_bit mod_mod_cancel)
  show "(ucast (drop_bit 24 b OR 0xe0) :: u8) AND 0xe0 = 0xe0"
    by (rule bit_word_eqI) (auto simp: bit_and_iff bit_or_iff bit_ucast_iff e8 e32)
qed

text \<open>A command for a block that has a 28-bit address starts its transfer.\<close>

lemma disk_command_starts:
  assumes "ata_ports P V" "unat b < 2 ^ 28" "cmd = 0x20 \<or> cmd = 0x30"
  shows "\<exists>d'. disk_command P cmd b d = Some d' \<and> ata_disk (V d') = ata_disk (V d) \<and> \<not> ata_busy (V d') \<and>
    ata_phase (V d') = (if cmd = 0x20 then Reading (unat b) 0 else Writing (unat b) [])"
proof -
  have out: "V (outb P p c d) = ata_out (ucast p) c (V d)" if "p \<in> {0x1f2, 0x1f3, 0x1f4, 0x1f5, 0x1f6, 0x1f7}" "\<not> ata_busy (V d)" for p c d
    using assms(1) that unfolding ata_ports_def by blast
  have reg: "V (outb P p c d) = (V d)\<lparr>ata_regs := (ata_regs (V d))(ucast p := c)\<rparr>"
    if "p \<in> {0x1f2, 0x1f3, 0x1f4, 0x1f5, 0x1f6}" "\<not> ata_busy (V d)" for p c d
    using out [of p d c] that by (auto simp: ata_out_def)
  obtain d1 where d1: "wait_disk P d = Some d1" "V d1 = (V d)\<lparr>ata_busy := False\<rparr>" using wait_disk_ready [OF assms(1)] by blast
  define d2 where "d2 = outb P 0x1f6 (ucast (drop_bit 24 b OR 0xe0)) (outb P 0x1f5 (ucast (drop_bit 16 b))
    (outb P 0x1f4 (ucast (drop_bit 8 b)) (outb P 0x1f3 (ucast b) (outb P 0x1f2 1 d1))))"
  have v2: "\<not> ata_busy (V d2)" "ata_disk (V d2) = ata_disk (V d)" "ata_regs (V d2) 0x1f2 = 1" "ata_regs (V d2) 0x1f6 AND 0xe0 = 0xe0"
    "ata_lba (ata_regs (V d2)) = unat b"
    using lba_split [OF assms(2)] d1(2) by (simp_all add: d2_def reg ata_lba_def)
  have "V (outb P 0x1f7 cmd d2) = (V d2)\<lparr>ata_phase := (if cmd = 0x20 then Reading (unat b) 0 else Writing (unat b) []), ata_busy := True\<rparr>"
    using out [of "0x1f7" d2 cmd] v2 assms(3) by (auto simp: ata_out_def)
  moreover obtain d3 where d3: "wait_disk P (outb P 0x1f7 cmd d2) = Some d3" "V d3 = (V (outb P 0x1f7 cmd d2))\<lparr>ata_busy := False\<rparr>"
    using wait_disk_ready [OF assms(1)] by blast
  moreover have "disk_command P cmd b d = Some d3" using d1(1) d3(1) by (simp add: disk_command_def d2_def)
  ultimately show ?thesis using v2(2) by auto
qed

lemma read_words_sector:
  assumes "ata_ports P V" "\<not> ata_busy (V d)" "ata_phase (V d) = Reading l i" "i + n = 128" "length (ata_disk (V d) l) = 128" "0 < n"
  shows "fst (read_words P n d) = drop i (ata_disk (V d) l)"
    "V (snd (read_words P n d)) = (V d)\<lparr>ata_phase := Idle\<rparr>"
proof -
  have inl: "fst (inl P 0x1f0 d) = fst (ata_inl (V d))" "V (snd (inl P 0x1f0 d)) = snd (ata_inl (V d))" if "\<not> ata_busy (V d)" for d
    using assms(1) that by (simp_all add: ata_ports_def)
  have "fst (read_words P n d) = drop i (ata_disk (V d) l) \<and> V (snd (read_words P n d)) = (V d)\<lparr>ata_phase := Idle\<rparr>"
    using assms(2-6)
  proof (induction n arbitrary: d i)
    case (Suc n)
    define d1 where "d1 = snd (inl P 0x1f0 d)"
    have w: "fst (inl P 0x1f0 d) = ata_disk (V d) l ! i" using Suc.prems by (simp add: inl ata_inl_def)
    have v1: "V d1 = (V d)\<lparr>ata_phase := (if Suc i < 128 then Reading l (Suc i) else Idle)\<rparr>"
      using Suc.prems by (simp add: d1_def inl ata_inl_def)
    have c: "drop i (ata_disk (V d) l) = ata_disk (V d) l ! i # drop (Suc i) (ata_disk (V d) l)"
      using Suc.prems by (intro Cons_nth_drop_Suc [symmetric]) simp
    have r: "read_words P (Suc n) d = (fst (inl P 0x1f0 d) # fst (read_words P n d1), snd (read_words P n d1))"
      by (simp add: d1_def Let_def split: prod.split)
    show ?case
    proof (cases "n = 0")
      case True
      then show ?thesis using Suc.prems r w v1 c by simp
    next
      case False
      then have "Suc i < 128" using Suc.prems by simp
      then show ?thesis using Suc.IH [of d1 "Suc i"] Suc.prems False r w v1 c by simp
    qed
  qed simp
  then show "fst (read_words P n d) = drop i (ata_disk (V d) l)" "V (snd (read_words P n d)) = (V d)\<lparr>ata_phase := Idle\<rparr>" by auto
qed

lemma write_words_sector:
  assumes "ata_ports P V" "\<not> ata_busy (V d)" "ata_phase (V d) = Writing l ws" "length ws + length xs = 128" "xs \<noteq> []"
  shows "V (write_words P xs d) = (V d)\<lparr>ata_phase := Idle, ata_disk := (ata_disk (V d))(l := ws @ xs), ata_busy := True\<rparr>"
proof -
  have out: "V (outl P 0x1f0 w d) = ata_outl w (V d)" if "\<not> ata_busy (V d)" for w d using assms(1) that by (simp add: ata_ports_def)
  show ?thesis
    using assms(2-5)
  proof (induction xs arbitrary: d ws)
    case (Cons x xs)
    show ?case
    proof (cases "xs = []")
      case True
      then show ?thesis using Cons.prems by (simp add: out ata_outl_def fun_upd_def)
    next
      case False
      then have "Suc (length ws) < 128" using Cons.prems by (cases xs) auto
      then have v: "V (outl P 0x1f0 x d) = (V d)\<lparr>ata_phase := Writing l (ws @ [x])\<rparr>" using Cons.prems by (simp add: out ata_outl_def)
      then show ?thesis using Cons.IH [of "outl P 0x1f0 x d" "ws @ [x]"] Cons.prems False by simp
    qed
  qed simp
qed

definition sectors :: "(nat \<Rightarrow> u32 list) \<Rightarrow> bool" where
  "sectors D \<longleftrightarrow> (\<forall>l. length (D l) = 128)"

lemma disk_read_blocks:
  assumes "ata_ports P V" "sectors (ata_disk (V d))" "unat b + n \<le> 2 ^ 28"
  shows "\<exists>d'. disk_read P n b d = Some (concat (map (ata_disk (V d)) [unat b..<unat b + n]), d') \<and> ata_disk (V d') = ata_disk (V d)"
  using assms(2,3)
proof (induction n arbitrary: b d)
  case (Suc n)
  have b: "unat b < 2 ^ 28" using Suc.prems(2) by simp
  obtain d1 where d1: "disk_command P 0x20 b d = Some d1" "ata_disk (V d1) = ata_disk (V d)" "ata_phase (V d1) = Reading (unat b) 0" "\<not> ata_busy (V d1)"
    using disk_command_starts [OF assms(1) b, of "0x20" d] by auto
  define d2 where "d2 = snd (read_words P 128 d1)"
  have len: "length (ata_disk (V d1) (unat b)) = 128" using Suc.prems(1) d1(2) by (simp add: sectors_def)
  note rw = read_words_sector [OF assms(1) d1(4,3) _ len, of 128, folded d2_def]
  have r2: "read_words P 128 d1 = (ata_disk (V d) (unat b), d2)" "ata_disk (V d2) = ata_disk (V d)"
    using rw d1(2) by (simp_all add: d2_def prod_eq_iff)
  have b1: "unat (b + 1) = unat b + 1" using b by (simp add: unat_word_ariths)
  obtain d3 where d3: "disk_read P n (b + 1) d2 = Some (concat (map (ata_disk (V d2)) [unat (b + 1)..<unat (b + 1) + n]), d3)"
      "ata_disk (V d3) = ata_disk (V d2)"
    using Suc.IH [of d2 "b + 1"] Suc.prems r2(2) b1 by auto
  have "[unat b..<unat b + Suc n] = unat b # [unat b + 1..<unat b + 1 + n]" by (simp add: upt_rec)
  then show ?case using d1(1) r2 d3 b1 by (simp add: BLKSZ_def del: upt_Suc)
qed simp

lemma disk_write_blocks:
  assumes "ata_ports P V" "sectors (ata_disk (V d))" "unat b + n \<le> 2 ^ 28" "length buf = 128 * n"
  shows "\<exists>d'. disk_write P n b buf d = Some d' \<and>
    ata_disk (V d') = (\<lambda>l. if unat b \<le> l \<and> l < unat b + n then take 128 (drop (128 * (l - unat b)) buf) else ata_disk (V d) l)"
  using assms(2-4)
proof (induction n arbitrary: b d buf)
  case (Suc n)
  have b: "unat b < 2 ^ 28" using Suc.prems(2) by simp
  obtain d1 where d1: "disk_command P 0x30 b d = Some d1" "ata_disk (V d1) = ata_disk (V d)" "ata_phase (V d1) = Writing (unat b) []" "\<not> ata_busy (V d1)"
    using disk_command_starts [OF assms(1) b, of "0x30" d] by auto
  define d2 where "d2 = write_words P (take 128 buf) d1"
  have tk: "length (take 128 buf) = 128" "take 128 buf \<noteq> []" using Suc.prems(3) by (auto simp: take_eq_Nil)
  have v2: "ata_disk (V d2) = (ata_disk (V d))(unat b := take 128 buf)"
    using write_words_sector [OF assms(1) d1(4,3), of "take 128 buf"] tk d1(2) by (simp add: d2_def)
  have s2: "sectors (ata_disk (V d2))" using Suc.prems(1) tk(1) by (simp add: sectors_def v2)
  have b1: "unat (b + 1) = unat b + 1" using b by (simp add: unat_word_ariths)
  obtain d3 where d3: "disk_write P n (b + 1) (drop 128 buf) d2 = Some d3"
      "ata_disk (V d3) = (\<lambda>l. if unat (b + 1) \<le> l \<and> l < unat (b + 1) + n then take 128 (drop (128 * (l - unat (b + 1))) (drop 128 buf)) else ata_disk (V d2) l)"
    using Suc.IH [OF s2, of "b + 1" "drop 128 buf"] Suc.prems b1 by auto
  have "ata_disk (V d3) l = (if unat b \<le> l \<and> l < unat b + Suc n then take 128 (drop (128 * (l - unat b)) buf) else ata_disk (V d) l)" for l
  proof (cases "l = unat b")
    case True
    then show ?thesis using d3(2) v2 b1 by simp
  next
    case False
    have "128 * (l - unat b) = 128 * (l - (unat b + 1)) + 128" if "unat b < l" using that by simp
    then show ?thesis using d3(2) v2 b1 False by (auto simp: add.commute)
  qed
  then show ?case using d1(1) d3(1) by (auto simp: BLKSZ_def d2_def)
qed (auto simp: fun_eq_iff)

lemma concat_chunks: "length buf = 128 * n \<Longrightarrow> concat (map (\<lambda>l. take 128 (drop (128 * (l - b)) buf)) [b..<b + n]) = buf"
proof (induction n arbitrary: buf b)
  case (Suc n)
  have u: "[b..<b + Suc n] = b # [Suc b..<Suc b + n]" by (simp add: upt_rec)
  have eq: "map (\<lambda>l. take 128 (drop (128 * (l - b)) buf)) [Suc b..<Suc b + n] = map (\<lambda>l. take 128 (drop (128 * (l - Suc b)) (drop 128 buf))) [Suc b..<Suc b + n]"
  proof (rule map_cong [OF refl])
    fix l assume "l \<in> set [Suc b..<Suc b + n]"
    then have "128 * (l - b) = 128 * (l - Suc b) + 128" by auto
    then show "take 128 (drop (128 * (l - b)) buf) = take 128 (drop (128 * (l - Suc b)) (drop 128 buf))" by (simp add: add.commute)
  qed
  have ih: "concat (map (\<lambda>l. take 128 (drop (128 * (l - Suc b)) (drop 128 buf))) [Suc b..<Suc b + n]) = drop 128 buf"
    by (rule Suc.IH) (use Suc.prems in simp)
  show ?case unfolding u list.map concat.simps eq ih by simp
qed simp

text \<open>
  C32: the disk driver is correct for every drive that follows the ATA protocol, whatever its delays. Such a drive is busy after
  every command and after the last word of a written sector, for as long as it likes but not for ever, and nothing is known of what it does with registers or
  data accessed meanwhile; the driver has to wait. Writing blocks and reading them
  back returns what was written, both calls terminate, and no other block changes. It holds for blocks below \<open>2 ^ 28\<close>, the
  range of the address registers; the configured disk has \<open>2 ^ 17\<close> blocks.
\<close>

theorem disk_write_read:
  assumes "ata_ports P V" "sectors (ata_disk (V d))" "unat b + n \<le> 2 ^ 28" "length buf = 128 * n"
  shows "\<exists>d1 d2. disk_write P n b buf d = Some d1 \<and> disk_read P n b d1 = Some (buf, d2) \<and> ata_disk (V d2) = ata_disk (V d1) \<and>
    (\<forall>l. \<not> (unat b \<le> l \<and> l < unat b + n) \<longrightarrow> ata_disk (V d1) l = ata_disk (V d) l)"
proof -
  obtain d1 where d1: "disk_write P n b buf d = Some d1"
    "ata_disk (V d1) = (\<lambda>l. if unat b \<le> l \<and> l < unat b + n then take 128 (drop (128 * (l - unat b)) buf) else ata_disk (V d) l)"
    using disk_write_blocks [OF assms] by blast
  have "length (take 128 (drop (128 * (l - unat b)) buf)) = 128" if "unat b \<le> l" "l < unat b + n" for l
  proof -
    have "128 * (l - unat b) + 128 \<le> 128 * n" using that by simp
    then show ?thesis using assms(4) by simp
  qed
  then have "sectors (ata_disk (V d1))" using assms(2) by (simp add: sectors_def d1(2))
  then obtain d2 where d2: "disk_read P n b d1 = Some (concat (map (ata_disk (V d1)) [unat b..<unat b + n]), d2)" "ata_disk (V d2) = ata_disk (V d1)"
    using disk_read_blocks [OF assms(1) _ assms(3)] by blast
  have m: "map (ata_disk (V d1)) [unat b..<unat b + n] = map (\<lambda>l. take 128 (drop (128 * (l - unat b)) buf)) [unat b..<unat b + n]"
    by (rule map_cong) (auto simp: d1(2))
  have "concat (map (ata_disk (V d1)) [unat b..<unat b + n]) = buf" unfolding m by (rule concat_chunks [OF assms(4)])
  then show ?thesis using d1 d2 by auto
qed

text \<open>A drive that is busy for three polls after every command and every written sector, and ignores everything meanwhile.\<close>

definition slow_view :: "ata \<times> nat \<Rightarrow> ata" where
  "slow_view d = (case d of (a, k) \<Rightarrow> a\<lparr>ata_busy := (0 < k)\<rparr>)"

definition slow_after :: "ata \<Rightarrow> ata \<times> nat" where
  "slow_after a = (a, if ata_busy a then 3 else 0)"

definition slow_ports :: "(ata \<times> nat) ports" where
  "slow_ports = \<lparr>dinb = (\<lambda>p (a, k). if k = 0 then (0x40, (a, 0)) else (0x80, (a, k - 1))),
     doutb = (\<lambda>p b (a, k). if k = 0 then slow_after (ata_out p b (a\<lparr>ata_busy := False\<rparr>)) else (a, k)),
     dinl = (\<lambda>p (a, k). if k = 0 then (case ata_inl (a\<lparr>ata_busy := False\<rparr>) of (w, a) \<Rightarrow> (w, slow_after a)) else (0, (a, k))),
     doutl = (\<lambda>p w (a, k). if k = 0 then slow_after (ata_outl w (a\<lparr>ata_busy := False\<rparr>)) else (a, k))\<rparr>"

lemma slow_view_after [simp]: "slow_view (slow_after a) = a"
  by (simp add: slow_view_def slow_after_def)

lemma slow_ports_ata: "ata_ports slow_ports slow_view"
proof -
  have polls: "(poll slow_ports ^^ n) (a, k) = (a, k - n)" for n a k
    by (induction n) (auto simp: poll_def slow_ports_def inb_def)
  have ready: "status_ready slow_ports (a, k) \<longleftrightarrow> k = 0" for a k
    by (simp add: status_ready_def inb_def slow_ports_def)
  have "\<exists>n. status_ready slow_ports ((poll slow_ports ^^ n) d)" for d
    using polls ready by (metis diff_self_eq_0 prod.collapse)
  moreover have "\<exists>b. slow_view (poll slow_ports d) = (slow_view d)\<lparr>ata_busy := b\<rparr> \<and> (status_ready slow_ports d \<longrightarrow> \<not> b)" for d
  proof (cases d)
    case (Pair a k)
    then show ?thesis using polls [of 1 a k] ready [of a k] by (auto simp: slow_view_def)
  qed
  moreover have "slow_view (a, 0) = a\<lparr>ata_busy := False\<rparr>" for a by (simp add: slow_view_def)
  ultimately show ?thesis
    unfolding ata_ports_def by (auto simp: slow_ports_def outb_def inl_def outl_def slow_view_def slow_after_def split: prod.splits)
qed

definition empty_drive :: "ata \<times> nat" where
  "empty_drive = (\<lparr>ata_regs = (\<lambda>_. 0), ata_phase = Idle, ata_disk = (\<lambda>_. replicate 128 0), ata_busy = False\<rparr>, 2)"

theorem disk_write_read_witness:
  "\<exists>d1 d2. disk_write slow_ports 2 5 (replicate 256 0xabcd) empty_drive = Some d1 \<and>
    disk_read slow_ports 2 5 d1 = Some (replicate 256 0xabcd, d2) \<and> ata_disk (slow_view d1) 7 = replicate 128 0"
  using disk_write_read [OF slow_ports_ata, of empty_drive 5 2 "replicate 256 0xabcd"]
  by (auto simp: sectors_def empty_drive_def slow_view_def)

section \<open>Clock, keyboard and screen\<close>

text \<open>The clock chip reports binary-coded decimals.\<close>

lemma read_rtc_bcd:
  assumes "v < 100" "fst (inb P 0x71 (outb P 0x70 reg d)) = of_nat (16 * (v div 10) + v mod 10)"
  shows "fst (read_rtc P reg d) = int v"
proof -
  define w where "w = (of_nat (16 * (v div 10) + v mod 10) :: u8)"
  have "16 * (v div 10) + v mod 10 < 256" using assms(1) by linarith
  then have u: "unat w = 16 * (v div 10) + v mod 10" unfolding w_def by (simp only: unat_of_nat take_bit_eq_mod) simp
  have "unat (w AND 0xf) = unat w mod 16" using unat_take_bit [of 4 w] by (simp add: take_bit_eq_mask mask_eq_exp_minus_1)
  then have lo: "unat (w AND 0xf) = v mod 10" unfolding u by simp
  have hi: "unat (drop_bit 4 w) = v div 10" unfolding unat_drop_bit u by simp
  have "fst (read_rtc P reg d) = int (unat (w AND 0xf)) + int (unat (drop_bit 4 w)) * 10"
    using assms(2) [folded w_def] by (simp add: read_rtc_def Let_def case_prod_beta)
  then show ?thesis unfolding lo hi using mult_div_mod_eq [of 10 v] by linarith
qed

text \<open>A date that \<^verbatim>\<open>timer_rtc\<close> returns was read while the seconds stayed the same.\<close>

lemma timer_rtc_stable:
  assumes "timer_rtc P d = Some y"
  shows "\<exists>d1 d2. read_rtc_async P d1 = (fst y, d2) \<and> read_rtc P 0 d2 = (rtc_second (fst y), snd y)"
proof -
  let ?Q = "\<lambda>(P, d) y. \<exists>d1 d2. read_rtc_async P d1 = (fst y, d2) \<and> read_rtc P 0 d2 = (rtc_second (fst y), snd y)"
  have "?Q (P, d) y"
    by (rule timer_rtc.raw_induct [of ?Q, OF _ assms]) (fastforce simp: Let_def split: prod.splits if_splits)
  then show ?thesis by simp
qed

text \<open>Every key's make and break codes give the same key code and opposite directions.\<close>

lemma keybrd_make_break:
  assumes "code < 128" "fst (inb P 0x64 d) AND 0x1 \<noteq> 0" "fst (inb P 0x60 (snd (inb P 0x64 d))) = of_nat (if brk then code + 128 else code)"
  shows "fst (input_keybrd P d) = (\<not> brk, keylut code)"
proof -
  define w where "w = (of_nat (if brk then code + 128 else code) :: u8)"
  have u: "unat w = (if brk then code + 128 else code)" unfolding w_def using assms(1) by (simp only: unat_of_nat take_bit_eq_mod) simp
  have "(0xff :: u8) = - 1" by simp
  then have "(w AND 0xff) = w" by (simp only: and_minus_numerals and.right_neutral)
  moreover have "unat (w AND 0x7f) = unat w mod 128"
    using unat_take_bit [of 7 w] by (simp add: take_bit_eq_mask mask_eq_exp_minus_1)
  ultimately show ?thesis
    using assms(1,2) assms(3) [folded w_def] u by (simp add: input_keybrd_def Let_def case_prod_beta)
qed

lemma fb_row_eq:
  assumes "0 \<le> start" "start + int n \<le> sz"
  shows "fb_row sz start pixels n fb = Inr (\<lambda>k. if start \<le> k \<and> k < start + int n then pixel_of (pixels (k - start)) else fb k)"
  using assms by (induction n) (auto simp: store_px_def fun_eq_iff)

lemma fb_rows_eq:
  assumes "0 \<le> fd_x dr" "0 \<le> fd_y dr" "0 \<le> len" "fd_x dr + len \<le> W" "0 \<le> H"
  shows "\<exists>fb'. fb_rows W H dr len n fb = Inr fb' \<and> (\<forall>u v. 0 \<le> u \<and> u < W \<and> 0 \<le> v \<and> v < H \<longrightarrow>
    fb' (u + v * W) = (if fd_x dr \<le> u \<and> u < fd_x dr + len \<and> fd_y dr \<le> v \<and> v < fd_y dr + int n
      then pixel_of (fd_pixels dr ((v - fd_y dr) * fd_w dr + (u - fd_x dr))) else fb (u + v * W)))"
proof (induction n)
  case (Suc n)
  then obtain fb1 where fb1: "fb_rows W H dr len n fb = Inr fb1" "\<And>u v. 0 \<le> u \<and> u < W \<and> 0 \<le> v \<and> v < H \<Longrightarrow>
    fb1 (u + v * W) = (if fd_x dr \<le> u \<and> u < fd_x dr + len \<and> fd_y dr \<le> v \<and> v < fd_y dr + int n
      then pixel_of (fd_pixels dr ((v - fd_y dr) * fd_w dr + (u - fd_x dr))) else fb (u + v * W))" by blast
  show ?case
  proof (cases "fd_y dr + int n < H")
    case True
    define y where "y = fd_y dr + int n"
    define start where "start = fd_x dr + y * W"
    have y: "0 \<le> y" "y < H" using True assms(2) by (simp_all add: y_def)
    have W: "0 \<le> W" using assms by linarith
    have "(y + 1) * W \<le> H * W" using y W by (intro mult_right_mono) auto
    then have room: "0 \<le> start" "start + int (nat len) \<le> W * H"
      using assms y W by (auto simp: start_def algebra_simps)
    define fb2 where "fb2 = (\<lambda>k. if start \<le> k \<and> k < start + int (nat len) then pixel_of (fd_pixels dr (int n * fd_w dr + (k - start))) else fb1 k)"
    have "fb_row (W * H) start (\<lambda>i. fd_pixels dr (int n * fd_w dr + i)) (nat len) fb1 = Inr fb2"
      unfolding fb2_def by (rule fb_row_eq [OF room])
    then have run: "fb_rows W H dr len (Suc n) fb = Inr fb2"
      using True fb1(1) by (simp add: start_def y_def add.commute)
    have "fb2 (u + v * W) = (if fd_x dr \<le> u \<and> u < fd_x dr + len \<and> fd_y dr \<le> v \<and> v < fd_y dr + int (Suc n)
      then pixel_of (fd_pixels dr ((v - fd_y dr) * fd_w dr + (u - fd_x dr))) else fb (u + v * W))"
      if uv: "0 \<le> u \<and> u < W \<and> 0 \<le> v \<and> v < H" for u v
    proof -
      have "start \<le> u + v * W \<and> u + v * W < start + len \<longleftrightarrow> v = y \<and> fd_x dr \<le> u \<and> u < fd_x dr + len"
      proof (cases "v = y")
        case False
        then consider "v + 1 \<le> y" | "y + 1 \<le> v" by linarith
        then have "u + v * W < y * W \<or> (y + 1) * W \<le> v * W"
        proof cases
          case 1
          then have "(v + 1) * W \<le> y * W" using W by (intro mult_right_mono) auto
          then show ?thesis using uv by (simp add: algebra_simps)
        next
          case 2
          then show ?thesis using W by (intro disjI2 mult_right_mono) auto
        qed
        then show ?thesis using False assms uv by (auto simp: start_def algebra_simps)
      qed (auto simp: start_def)
      then show ?thesis
        using fb1(2) [OF uv] assms(3) by (auto simp: fb2_def start_def y_def)
    qed
    then show ?thesis using run by blast
  next
    case False
    then show ?thesis using fb1 by auto
  qed
qed auto

text \<open>
  \<^verbatim>\<open>gpu_fbdraw\<close> with a position on the screen: no store leaves the frame buffer, the part of the rectangle that is on the screen
  shows the given pixels, and every other pixel stays.
\<close>

lemma gpu_fbdraw_clips:
  assumes "0 \<le> fd_x dr" "fd_x dr \<le> W" "0 \<le> fd_y dr" "0 \<le> fd_w dr" "0 \<le> fd_h dr" "0 \<le> H"
  shows "\<exists>fb'. gpu_fbdraw W H dr fb = Inr fb' \<and> (\<forall>u v. 0 \<le> u \<and> u < W \<and> 0 \<le> v \<and> v < H \<longrightarrow>
    fb' (u + v * W) = (if fd_x dr \<le> u \<and> u < fd_x dr + fd_w dr \<and> fd_y dr \<le> v \<and> v < fd_y dr + fd_h dr
      then pixel_of (fd_pixels dr ((v - fd_y dr) * fd_w dr + (u - fd_x dr))) else fb (u + v * W)))"
proof -
  define len where "len = (if fd_x dr + fd_w dr \<ge> W then W - fd_x dr else fd_w dr)"
  have len: "0 \<le> len" "fd_x dr + len \<le> W" using assms by (auto simp: len_def)
  obtain fb' where f: "fb_rows W H dr len (nat (fd_h dr)) fb = Inr fb'" "\<forall>u v. 0 \<le> u \<and> u < W \<and> 0 \<le> v \<and> v < H \<longrightarrow>
    fb' (u + v * W) = (if fd_x dr \<le> u \<and> u < fd_x dr + len \<and> fd_y dr \<le> v \<and> v < fd_y dr + int (nat (fd_h dr))
      then pixel_of (fd_pixels dr ((v - fd_y dr) * fd_w dr + (u - fd_x dr))) else fb (u + v * W))"
    using fb_rows_eq [OF assms(1,3) len assms(6)] by blast
  have "u < fd_x dr + len \<longleftrightarrow> u < fd_x dr + fd_w dr" if "u < W" for u using that by (auto simp: len_def)
  then show ?thesis using f assms(5) by (auto simp: gpu_fbdraw_def len_def [symmetric])
qed

end
