(* ===== verification/X86_Boot.thy ===== *)
theory X86_Boot
  imports Am_X86_Ioe Am_X86_Trm
begin

text \<open>
  The boot loader of the x86 machine (\<^verbatim>\<open>am/src/x86/qemu/boot/main.c\<close>): it reads the arguments, the ELF header and the
  segments of the kernel from the disk into memory. Memory is bytes at addresses, the disk is behind the ports of
  \<^theory_text>\<open>Am_X86_Ioe\<close>, with the same command sequence.
\<close>

section \<open>Code\<close>

definition SECTSIZE :: nat where "SECTSIZE = 512"
definition ARGSIZE :: nat where "ARGSIZE = 1024"

definition word_byte :: "u32 \<Rightarrow> nat \<Rightarrow> u8" where
  "word_byte w j = ucast (drop_bit (8 * j) w)"

primrec store_words :: "nat \<Rightarrow> u32 list \<Rightarrow> bytes \<Rightarrow> bytes" where
  "store_words a [] M = M"
| "store_words a (w # ws) M =
    store_words (a + 4) ws (M(a := word_byte w 0, a + 1 := word_byte w 1, a + 2 := word_byte w 2, a + 3 := word_byte w 3))"

definition read_disk :: "'d ports \<Rightarrow> u32 \<Rightarrow> u32 \<Rightarrow> 'd \<times> bytes \<Rightarrow> ('d \<times> bytes) option" where
  "read_disk P buf sect s =
    (case s of (d, M) \<Rightarrow>
     case disk_command P 0x20 sect d of None \<Rightarrow> None | Some d \<Rightarrow>
     let (ws, d) = read_words P (SECTSIZE div 4) d in Some (d, store_words (unat buf) ws M))"

partial_function (option) copy_loop :: "'d ports \<Rightarrow> u32 \<Rightarrow> u32 \<Rightarrow> u32 \<Rightarrow> 'd \<times> bytes \<Rightarrow> ('d \<times> bytes) option" where
  "copy_loop P cur ed sect s =
    (if cur < ed then
       (case read_disk P cur sect s of None \<Rightarrow> None | Some s \<Rightarrow> copy_loop P (cur + 512) ed (sect + 1) s)
     else Some s)"

text \<open>\<^verbatim>\<open>disk_offset\<close> is an \<^verbatim>\<open>int\<close>, so its division rounds towards zero.\<close>

definition copy_from_disk :: "'d ports \<Rightarrow> u32 \<Rightarrow> u32 \<Rightarrow> u32 \<Rightarrow> 'd \<times> bytes \<Rightarrow> ('d \<times> bytes) option" where
  "copy_from_disk P buf nbytes disk_offset s =
    copy_loop P (buf AND NOT (of_nat SECTSIZE - 1)) (buf + nbytes)
      (c_sdiv disk_offset (of_nat SECTSIZE) + of_nat (ARGSIZE div SECTSIZE) + 1) s"

primrec zero_bytes :: "nat \<Rightarrow> nat \<Rightarrow> bytes \<Rightarrow> bytes" where
  "zero_bytes a 0 M = M"
| "zero_bytes a (Suc n) M = zero_bytes (a + 1) n (M(a := 0))"

text \<open>The loop \<^verbatim>\<open>for (i = filesz; i != memsz; i++)\<close> runs as often as the difference says, modulo the word size.\<close>

definition load_program :: "'d ports \<Rightarrow> u32 \<Rightarrow> u32 \<Rightarrow> u32 \<Rightarrow> u32 \<Rightarrow> 'd \<times> bytes \<Rightarrow> ('d \<times> bytes) option" where
  "load_program P filesz memsz paddr offset s =
    (case copy_from_disk P paddr filesz offset s of None \<Rightarrow> None | Some (d, M) \<Rightarrow>
     Some (d, zero_bytes (unat (paddr + filesz)) (unat (memsz - filesz)) M))"

text \<open>Program headers are read from memory when their turn comes. The 64-bit fields are cut to 32 bits.\<close>

primrec load_phdrs32 :: "'d ports \<Rightarrow> nat \<Rightarrow> nat \<Rightarrow> 'd \<times> bytes \<Rightarrow> ('d \<times> bytes) option" where
  "load_phdrs32 P 0 ph s = Some s"
| "load_phdrs32 P (Suc n) ph s =
    (case load_program P (of_nat (rd32 (snd s) (ph + 16))) (of_nat (rd32 (snd s) (ph + 20))) (of_nat (rd32 (snd s) (ph + 12)))
            (of_nat (rd32 (snd s) (ph + 4))) s of
       None \<Rightarrow> None | Some s \<Rightarrow> load_phdrs32 P n (ph + 32) s)"

primrec load_phdrs64 :: "'d ports \<Rightarrow> nat \<Rightarrow> nat \<Rightarrow> 'd \<times> bytes \<Rightarrow> ('d \<times> bytes) option" where
  "load_phdrs64 P 0 ph s = Some s"
| "load_phdrs64 P (Suc n) ph s =
    (case load_program P (of_nat (rd32 (snd s) (ph + 32))) (of_nat (rd32 (snd s) (ph + 40))) (of_nat (rd32 (snd s) (ph + 24)))
            (of_nat (rd32 (snd s) (ph + 8))) s of
       None \<Rightarrow> None | Some s \<Rightarrow> load_phdrs64 P n (ph + 56) s)"

definition load_elf32 :: "'d ports \<Rightarrow> nat \<Rightarrow> 'd \<times> bytes \<Rightarrow> ('d \<times> bytes) option" where
  "load_elf32 P elf s = load_phdrs32 P (rd16 (snd s) (elf + 44)) (elf + rd32 (snd s) (elf + 28)) s"

definition load_elf64 :: "'d ports \<Rightarrow> nat \<Rightarrow> 'd \<times> bytes \<Rightarrow> ('d \<times> bytes) option" where
  "load_elf64 P elf s = load_phdrs64 P (rd16 (snd s) (elf + 56)) (elf + rd32 (snd s) (elf + 32)) s"

definition MAINARG_ADDR :: u32 where "MAINARG_ADDR = 0x10000"

text \<open>\<^verbatim>\<open>load_kernel\<close>: the address it jumps to and the state it leaves.\<close>

definition load_kernel :: "'d ports \<Rightarrow> bool \<Rightarrow> 'd \<times> bytes \<Rightarrow> (nat \<times> 'd \<times> bytes) option" where
  "load_kernel P is_ap s =
    (let u = 0x8000;
         r = (if is_ap then Some s else
              case copy_from_disk P MAINARG_ADDR 1024 (- 1024) s of None \<Rightarrow> None | Some s \<Rightarrow>
              case copy_from_disk P (of_nat u) 4096 0 s of None \<Rightarrow> None | Some s \<Rightarrow>
              if rd16 (snd s) (u + 18) = 62 then load_elf64 P u s else load_elf32 P u s)
     in case r of None \<Rightarrow> None | Some s \<Rightarrow> Some (rd32 (snd s) (u + 24), s))"

section \<open>Copying\<close>

lemma store_words_at:
  "store_words a ws M x =
    (if a \<le> x \<and> x < a + 4 * length ws then word_byte (ws ! ((x - a) div 4)) ((x - a) mod 4) else M x)"
proof (induction ws arbitrary: a M)
  case (Cons w ws)
  show ?case
  proof (cases "a + 4 \<le> x")
    case True
    then have e: "x - a = x - (a + 4) + 4" by simp
    have "(x - a) div 4 = Suc ((x - (a + 4)) div 4)" "(x - a) mod 4 = (x - (a + 4)) mod 4" unfolding e by simp_all
    then show ?thesis using True Cons.IH [of "a + 4"] by auto
  next
    case False
    then have "x < a \<or> x = a \<or> x = a + 1 \<or> x = a + 2 \<or> x = a + 3" by linarith
    then show ?thesis using False Cons.IH [of "a + 4"] by auto
  qed
qed auto

text \<open>The bytes of the disk in order.\<close>

definition disk_byte :: "(nat \<Rightarrow> u32 list) \<Rightarrow> nat \<Rightarrow> u8" where
  "disk_byte D k = word_byte (D (k div 512) ! (k mod 512 div 4)) (k mod 4)"

lemma sector_mod4: "(512 * s + y) mod 4 = y mod (4 :: nat)"
proof -
  have "512 * s + y = y + 4 * (128 * s)" by simp
  then show ?thesis by (simp only: mod_mult_self2)
qed

lemma disk_byte_sector: "y < 512 \<Longrightarrow> disk_byte D (512 * s + y) = word_byte (D s ! (y div 4)) (y mod 4)"
  by (simp add: disk_byte_def sector_mod4)

lemma read_disk_sector:
  assumes "ata_ports P V" "sectors (ata_disk (V d))" "unat sect < 2 ^ 28"
  shows "\<exists>d'. read_disk P buf sect (d, M) = Some (d', (\<lambda>x. if unat buf \<le> x \<and> x < unat buf + 512
    then disk_byte (ata_disk (V d)) (512 * unat sect + (x - unat buf)) else M x)) \<and> ata_disk (V d') = ata_disk (V d)"
proof -
  obtain d1 where d1: "disk_command P 0x20 sect d = Some d1" "ata_disk (V d1) = ata_disk (V d)" "ata_phase (V d1) = Reading (unat sect) 0" "\<not> ata_busy (V d1)"
    using disk_command_starts [OF assms(1,3), of "0x20" d] by auto
  have len: "length (ata_disk (V d1) (unat sect)) = 128" using assms(2) d1(2) by (simp add: sectors_def)
  note rw = read_words_sector [OF assms(1) d1(4,3) _ len, of 128]
  obtain d2 where r2: "read_words P 128 d1 = (ata_disk (V d) (unat sect), d2)" "ata_disk (V d2) = ata_disk (V d)"
    using rw d1(2) by (cases "read_words P 128 d1") auto
  have "store_words (unat buf) (ata_disk (V d) (unat sect)) M = (\<lambda>x. if unat buf \<le> x \<and> x < unat buf + 512
    then disk_byte (ata_disk (V d)) (512 * unat sect + (x - unat buf)) else M x)"
  proof
    fix x
    have l: "length (ata_disk (V d) (unat sect)) = 128" using len d1(2) by simp
    show "store_words (unat buf) (ata_disk (V d) (unat sect)) M x = (if unat buf \<le> x \<and> x < unat buf + 512
      then disk_byte (ata_disk (V d)) (512 * unat sect + (x - unat buf)) else M x)"
    proof (cases "unat buf \<le> x \<and> x < unat buf + 512")
      case True
      then have "x - unat buf < 512" by linarith
      then show ?thesis using True by (simp only: store_words_at l disk_byte_sector) simp
    qed (auto simp: store_words_at l)
  qed
  then show ?thesis using d1(1) r2 by (simp add: read_disk_def SECTSIZE_def)
qed

lemma copy_loop_sectors:
  assumes "ata_ports P V" "sectors (ata_disk (V d))" "unat cur + 512 * n < 2 ^ 32" "unat sect + n \<le> 2 ^ 28"
    and "unat ed \<le> unat cur + 512 * n" "n \<noteq> 0 \<Longrightarrow> unat cur + 512 * n < unat ed + 512"
  shows "\<exists>d'. copy_loop P cur ed sect (d, M) = Some (d', (\<lambda>x. if unat cur \<le> x \<and> x < unat cur + 512 * n
    then disk_byte (ata_disk (V d)) (512 * unat sect + (x - unat cur)) else M x)) \<and> ata_disk (V d') = ata_disk (V d)"
  using assms(2-6)
proof (induction n arbitrary: cur sect d M)
  case 0
  then have "\<not> cur < ed" by (simp add: word_less_nat_alt)
  then show ?case by (subst copy_loop.simps) (auto simp: fun_eq_iff)
next
  case (Suc n)
  let ?D = "ata_disk (V d)"
  have lt: "cur < ed" using Suc.prems by (simp add: word_less_nat_alt)
  have s: "unat sect < 2 ^ 28" using Suc.prems by simp
  obtain d1 M1 where r: "read_disk P cur sect (d, M) = Some (d1, M1)" "ata_disk (V d1) = ?D"
    and M1: "M1 = (\<lambda>x. if unat cur \<le> x \<and> x < unat cur + 512 then disk_byte ?D (512 * unat sect + (x - unat cur)) else M x)"
    using read_disk_sector [OF assms(1) Suc.prems(1) s, of cur M] by blast
  have c1: "unat (cur + 512) = unat cur + 512" using Suc.prems(2) by (simp add: unat_word_ariths)
  have s1: "unat (sect + 1) = unat sect + 1" using s by (simp add: unat_word_ariths)
  have "\<exists>d'. copy_loop P (cur + 512) ed (sect + 1) (d1, M1) = Some (d', (\<lambda>x. if unat (cur + 512) \<le> x \<and> x < unat (cur + 512) + 512 * n
    then disk_byte (ata_disk (V d1)) (512 * unat (sect + 1) + (x - unat (cur + 512))) else M1 x)) \<and> ata_disk (V d') = ata_disk (V d1)"
    by (rule Suc.IH) (use Suc.prems r(2) c1 s1 in auto)
  then obtain d2 M2 where d2: "copy_loop P (cur + 512) ed (sect + 1) (d1, M1) = Some (d2, M2)" "ata_disk (V d2) = ?D"
    and M2: "M2 = (\<lambda>x. if unat (cur + 512) \<le> x \<and> x < unat (cur + 512) + 512 * n
      then disk_byte ?D (512 * unat (sect + 1) + (x - unat (cur + 512))) else M1 x)" unfolding r(2) by blast
  have "M2 = (\<lambda>x. if unat cur \<le> x \<and> x < unat cur + 512 * Suc n then disk_byte ?D (512 * unat sect + (x - unat cur)) else M x)"
  proof
    fix x
    have "512 * unat (sect + 1) + (x - unat (cur + 512)) = 512 * unat sect + (x - unat cur)" if "unat cur + 512 \<le> x"
      using that by (simp add: c1 s1)
    then show "M2 x = (if unat cur \<le> x \<and> x < unat cur + 512 * Suc n then disk_byte ?D (512 * unat sect + (x - unat cur)) else M x)"
      by (auto simp: M2 M1 c1)
  qed
  then show ?case using lt r d2 by (subst copy_loop.simps) simp
qed

lemma zero_bytes_at: "zero_bytes a n M x = (if a \<le> x \<and> x < a + n then 0 else M x)"
  by (induction n arbitrary: a M) auto

text \<open>How many sectors a range of memory touches.\<close>

definition touched :: "nat \<Rightarrow> nat \<Rightarrow> nat" where
  "touched a n = (if a mod 512 + n = 0 then 0 else (a mod 512 + n + 511) div 512)"

lemma touched_bounds:
  "a + n \<le> a - a mod 512 + 512 * touched a n"
  "touched a n \<noteq> 0 \<Longrightarrow> a - a mod 512 + 512 * touched a n < a + n + 512"
proof -
  have m: "a mod 512 \<le> a" by simp
  have b: "a mod 512 + n \<le> 512 * ((a mod 512 + n + 511) div 512)" "512 * ((a mod 512 + n + 511) div 512) \<le> a mod 512 + n + 511"
    using mult_div_mod_eq [of 512 "a mod 512 + n + 511"] by (auto intro: order_trans)
  show "a + n \<le> a - a mod 512 + 512 * touched a n" using m b by (auto simp: touched_def)
  show "touched a n \<noteq> 0 \<Longrightarrow> a - a mod 512 + 512 * touched a n < a + n + 512" using m b by (auto simp: touched_def split: if_splits)
qed

lemma sector_start: "unat (buf AND NOT (of_nat SECTSIZE - 1) :: u32) = unat buf - unat buf mod 512"
proof -
  have eq: "NOT (of_nat SECTSIZE - 1 :: u32) = NOT (mask 9)" by (simp add: SECTSIZE_def mask_eq_exp_minus_1)
  show ?thesis unfolding eq unat_and_not_mask by (simp add: minus_mod_eq_div_mult)
qed

lemma copy_from_disk_bytes:
  assumes "ata_ports P V" "sectors (ata_disk (V d))" "unat buf + unat n + 512 < 2 ^ 32" "unat off + unat n + 2560 < 2 ^ 31"
  shows "\<exists>d'. copy_from_disk P buf n off (d, M) = Some (d', (\<lambda>x. if unat buf - unat buf mod 512 \<le> x \<and>
      x < unat buf - unat buf mod 512 + 512 * touched (unat buf) (unat n)
    then disk_byte (ata_disk (V d)) (512 * (unat off div 512 + 3) + (x - (unat buf - unat buf mod 512))) else M x)) \<and> ata_disk (V d') = ata_disk (V d)"
proof -
  define cur where "cur = buf AND NOT (of_nat SECTSIZE - 1)"
  define sect where "sect = c_sdiv off (of_nat SECTSIZE) + of_nat (ARGSIZE div SECTSIZE) + 1"
  have c: "unat cur = unat buf - unat buf mod 512" by (simp add: cur_def sector_start)
  have "unat off < 2147483648" using assms(4) by simp
  then have "int (unat off) < 2147483648" by linarith
  then have "uint off < 2 ^ 31" by simp
  then have "sint off = int (unat off)" by (simp add: sint_u32)
  then have "c_sdiv off (of_nat SECTSIZE) = of_nat (unat off div 512)"
  proof -
    have d: "uint off div 512 = int (unat off div 512)" by (simp add: zdiv_int)
    have "word_of_int (uint off div 512) = (of_nat (unat off div 512) :: u32)" unfolding d by (rule of_int_of_nat_eq)
    then show ?thesis using \<open>sint off = int (unat off)\<close> by (simp add: c_sdiv_def SECTSIZE_def signed_divide_int_def)
  qed
  then have sq: "sect = of_nat (unat off div 512 + 3)" by (simp add: sect_def SECTSIZE_def ARGSIZE_def)
  have su: "unat sect = unat off div 512 + 3"
    unfolding sq using assms(4) by (simp only: unat_of_nat take_bit_eq_mod) simp
  have ed: "unat (buf + n) = unat buf + unat n" using assms(3) by (simp add: unat_word_ariths)
  note t = touched_bounds [of "unat buf" "unat n"]
  have lt: "unat cur + 512 * touched (unat buf) (unat n) < 2 ^ 32"
    using t assms(3) c by (cases "touched (unat buf) (unat n) = 0") auto
  have "512 * touched (unat buf) (unat n) \<le> 1023 + unat n"
  proof -
    have "unat buf mod 512 < 512" by simp
    then show ?thesis using mult_div_mod_eq [of 512 "unat buf mod 512 + unat n + 511"] by (auto simp: touched_def intro: order_trans)
  qed
  moreover have "unat off + unat n + 2560 < 2147483648" "512 * (unat off div 512) \<le> unat off" using assms(4) by simp_all
  ultimately have "unat sect + touched (unat buf) (unat n) \<le> 268435456" using su by linarith
  then have "unat sect + touched (unat buf) (unat n) \<le> 2 ^ 28" by simp
  then have "\<exists>d'. copy_loop P cur (buf + n) sect (d, M) = Some (d', (\<lambda>x. if unat cur \<le> x \<and> x < unat cur + 512 * touched (unat buf) (unat n)
    then disk_byte (ata_disk (V d)) (512 * unat sect + (x - unat cur)) else M x)) \<and> ata_disk (V d') = ata_disk (V d)"
    by (intro copy_loop_sectors [OF assms(1,2) lt]) (use t c ed in auto)
  then show ?thesis unfolding c su copy_from_disk_def cur_def [symmetric] sect_def [symmetric] .
qed

text \<open>
  C33: the boot loader loads a segment. For every drive that behaves as specified, a segment whose file offset and physical address agree
  modulo the sector size ends up with its file contents at its address, zeros after them up to its size in memory, and the
  copy terminates. The segment ends at least a sector below the end of the address space, its file contents lie in the first \<open>2 ^ 31\<close> bytes of the
  disk and are no longer than its size in memory. Memory is touched only in the sectors that the file contents reach and in the zeroed range.
  The file starts after the boot sector and the arguments, at byte 1536 of the disk.
\<close>

theorem load_program_loads:
  assumes "ata_ports P V" "sectors (ata_disk (V d))" "unat paddr + unat memsz + 512 < 2 ^ 32" "unat off + unat filesz + 2560 < 2 ^ 31"
    and "filesz \<le> memsz" "unat paddr mod 512 = unat off mod 512"
  shows "\<exists>d' M'. load_program P filesz memsz paddr off (d, M) = Some (d', M') \<and> ata_disk (V d') = ata_disk (V d) \<and>
    (\<forall>i < unat filesz. M' (unat paddr + i) = disk_byte (ata_disk (V d)) (1536 + unat off + i)) \<and>
    (\<forall>i. unat filesz \<le> i \<and> i < unat memsz \<longrightarrow> M' (unat paddr + i) = 0) \<and>
    (\<forall>x. x < unat paddr - unat paddr mod 512 \<or> unat paddr + unat filesz + 512 \<le> x \<and> unat paddr + unat memsz \<le> x \<longrightarrow> M' x = M x)"
proof -
  let ?D = "ata_disk (V d)" and ?a = "unat paddr - unat paddr mod 512" and ?n = "touched (unat paddr) (unat filesz)"
  have fm: "unat filesz \<le> unat memsz" using assms(5) by (simp add: word_le_nat_alt)
  obtain d' where c: "copy_from_disk P paddr filesz off (d, M) = Some (d', (\<lambda>x. if ?a \<le> x \<and> x < ?a + 512 * ?n
      then disk_byte ?D (512 * (unat off div 512 + 3) + (x - ?a)) else M x))" "ata_disk (V d') = ?D"
    using copy_from_disk_bytes [OF assms(1,2) _ assms(4), of paddr M] assms(3) fm by auto
  define M1 where "M1 = (\<lambda>x. if ?a \<le> x \<and> x < ?a + 512 * ?n then disk_byte ?D (512 * (unat off div 512 + 3) + (x - ?a)) else M x)"
  have e: "unat (paddr + filesz) = unat paddr + unat filesz" using assms(3) fm by (simp add: unat_word_ariths)
  have n: "unat (memsz - filesz) = unat memsz - unat filesz" using assms(5) by (rule unat_sub)
  note t = touched_bounds [of "unat paddr" "unat filesz"]
  have m: "unat paddr mod 512 \<le> unat paddr" by simp
  define M' where "M' = zero_bytes (unat paddr + unat filesz) (unat memsz - unat filesz) M1"
  have run: "load_program P filesz memsz paddr off (d, M) = Some (d', M')"
    using c(1) by (simp add: load_program_def e n M'_def M1_def)
  have contents: "M' (unat paddr + i) = disk_byte ?D (1536 + unat off + i)" if "i < unat filesz" for i
  proof -
    have o: "unat paddr + i - ?a = unat off mod 512 + i" using m assms(6) by linarith
    have q: "512 * (unat off div 512 + 3) + (unat paddr + i - ?a) = 1536 + unat off + i"
      unfolding o using mult_div_mod_eq [of 512 "unat off"] by (simp add: algebra_simps)
    have r: "?a \<le> unat paddr + i" "unat paddr + i < ?a + 512 * ?n" using t(1) that by linarith+
    have "M' (unat paddr + i) = M1 (unat paddr + i)" using that by (simp add: M'_def zero_bytes_at)
    also have "\<dots> = disk_byte ?D (512 * (unat off div 512 + 3) + (unat paddr + i - ?a))" using r by (simp only: M1_def if_True simp_thms)
    finally show ?thesis unfolding q .
  qed
  have zero: "M' (unat paddr + i) = 0" if "unat filesz \<le> i" "i < unat memsz" for i using that by (simp add: M'_def zero_bytes_at)
  have rest: "M' x = M x" if "x < ?a \<or> unat paddr + unat filesz + 512 \<le> x \<and> unat paddr + unat memsz \<le> x" for x
  proof -
    have "?n = 0 \<or> ?a + 512 * ?n < unat paddr + unat filesz + 512" using t(2) by blast
    then show ?thesis using that m fm by (auto simp: M'_def zero_bytes_at M1_def)
  qed
  show ?thesis using run c(2) contents zero rest by blast
qed

definition sample_drive :: "ata \<times> nat" where
  "sample_drive = (\<lparr>ata_regs = (\<lambda>_. 0), ata_phase = Idle, ata_disk = (\<lambda>l. replicate 128 (of_nat l * 0x01010101)), ata_busy = False\<rparr>, 2)"

theorem load_program_loads_witness:
  "\<exists>d' M'. load_program slow_ports 0x300 0x400 0x101234 0x1234 (sample_drive, \<lambda>_. 7) = Some (d', M') \<and>
    M' 0x101234 = 12 \<and> M' 0x101534 = 0 \<and> M' 0x101633 = 0 \<and> M' 0x101800 = 7 \<and> M' 0x1011ff = 7"
proof -
  have D: "sectors (ata_disk (slow_view sample_drive))" by (simp add: sectors_def sample_drive_def slow_view_def)
  have b: "disk_byte (ata_disk (slow_view sample_drive)) (1536 + 0x1234) = 12"
    by (simp add: disk_byte_def sample_drive_def word_byte_def slow_view_def)
  show ?thesis
    using load_program_loads [OF slow_ports_ata D, of "0x101234" "0x400" "0x1234" "0x300" "\<lambda>_. 7"] b
    by (force dest: spec [of _ 0] spec [of _ "0x300"] spec [of _ "0x3ff"] spec [of _ "0x101800"] spec [of _ "0x1011ff"])
qed

end
