(* ===== verification/Libgcc.thy ===== *)
theory Libgcc
  imports Word_Halves
begin

text \<open>
  The arithmetic that the compiler calls on the NPC core, which has no multiplier or divider
  (\<^verbatim>\<open>am/src/riscv/npc/libgcc\<close>): 32-bit multiplication and division of \<^verbatim>\<open>muldi3.S\<close> and \<^verbatim>\<open>div.S\<close>, 64-bit
  multiplication of \<^verbatim>\<open>multi3.c\<close> and the shift of \<^verbatim>\<open>ashldi3.c\<close>. The loops of the assembly code are functions of the
  registers they use.
\<close>

lemma drop1_less: "drop_bit 1 v \<noteq> 0 \<Longrightarrow> unat (drop_bit 1 v) < unat (v :: u32)"
proof -
  assume "drop_bit 1 v \<noteq> 0"
  then have "v \<noteq> 0" by auto
  then have "unat v \<noteq> 0" by (simp add: unsigned_eq_0_iff)
  then show ?thesis unfolding unat_drop_bit by simp
qed

lemma sint_positive: "\<not> sint (a :: u32) \<le> 0 \<Longrightarrow> 0 < unat a \<and> unat a < 2 ^ 31"
proof -
  assume s: "\<not> sint a \<le> 0"
  then have "uint a < 2 ^ 31" "uint a \<noteq> 0" using uint_lt2p [of a] by (auto simp: sint_u32 split: if_splits)
  then have "int (unat a) < 2147483648" "int (unat a) \<noteq> 0" by simp_all
  then have "0 < unat a \<and> unat a < 2147483648" by linarith
  then show ?thesis by simp
qed

lemma unat_double: "unat a < 2 ^ 31 \<Longrightarrow> unat (push_bit 1 (a :: u32)) = 2 * unat a"
  unfolding unat_push_bit by simp

section \<open>Code\<close>

function mulsi3_loop :: "u32 \<Rightarrow> u32 \<Rightarrow> u32 \<Rightarrow> u32" where
  "mulsi3_loop a0 a1 a2 =
    (let a0 = (if a1 AND 1 = 0 then a0 else a0 + a2); a1 = drop_bit 1 a1; a2 = push_bit 1 a2
     in if a1 \<noteq> 0 then mulsi3_loop a0 a1 a2 else a0)"
  by pat_completeness auto
termination
  by (relation "measure (\<lambda>(a0, a1, a2). unat a1)") (auto simp: drop1_less [simplified])

definition mulsi3 :: "u32 \<Rightarrow> u32 \<Rightarrow> u32" where
  "mulsi3 a0 a1 = mulsi3_loop 0 a1 a0"

text \<open>\<^verbatim>\<open>.L1\<close>: the divisor is shifted up; \<^verbatim>\<open>blez\<close> reads it as signed.\<close>

function udiv_up :: "u32 \<Rightarrow> u32 \<Rightarrow> u32 \<Rightarrow> u32 \<times> u32" where
  "udiv_up a1 a2 a3 =
    (if sint a2 \<le> 0 then (a2, a3)
     else if push_bit 1 a2 < a1 then udiv_up a1 (push_bit 1 a2) (push_bit 1 a3) else (push_bit 1 a2, push_bit 1 a3))"
  by pat_completeness auto
termination
proof (relation "measure (\<lambda>(a1, a2, a3). 2 ^ 32 - unat a2)")
  fix a1 a2 a3 :: u32
  assume "\<not> sint a2 \<le> 0"
  then show "((a1, push_bit 1 a2, push_bit 1 a3), a1, a2, a3) \<in> measure (\<lambda>(a1, a2, a3). 2 ^ 32 - unat a2)"
    using sint_positive [of a2] unat_double [of a2] by auto
qed auto

text \<open>\<^verbatim>\<open>.L3\<close>: subtract where it fits, going down.\<close>

function udiv_down :: "u32 \<Rightarrow> u32 \<Rightarrow> u32 \<Rightarrow> u32 \<Rightarrow> u32 \<times> u32" where
  "udiv_down a0 a1 a2 a3 =
    (let (a0, a1) = (if a1 < a2 then (a0, a1) else (a0 OR a3, a1 - a2)); a3 = drop_bit 1 a3; a2 = drop_bit 1 a2
     in if a3 \<noteq> 0 then udiv_down a0 a1 a2 a3 else (a0, a1))"
  by pat_completeness auto
termination
  by (relation "measure (\<lambda>(a0, a1, a2, a3). unat a3)") (auto simp: drop1_less [simplified])

declare mulsi3_loop.simps [simp del] udiv_up.simps [simp del] udiv_down.simps [simp del]

text \<open>Quotient in \<^verbatim>\<open>a0\<close>, remainder in \<^verbatim>\<open>a1\<close>.\<close>

definition udivsi3 :: "u32 \<Rightarrow> u32 \<Rightarrow> u32 \<times> u32" where
  "udivsi3 a b =
    (if b = 0 then (- 1, a)
     else let (a2, a3) = (if a \<le> b then (b, 1) else udiv_up a b 1) in udiv_down 0 a a2 a3)"

definition umodsi3 :: "u32 \<Rightarrow> u32 \<Rightarrow> u32" where
  "umodsi3 a b = snd (udivsi3 a b)"

definition divsi3 :: "u32 \<Rightarrow> u32 \<Rightarrow> u32" where
  "divsi3 a b =
    (if sint a < 0 then (if 0 < sint b then - fst (udivsi3 (- a) b) else fst (udivsi3 (- a) (- b)))
     else if sint b < 0 then - fst (udivsi3 a (- b)) else fst (udivsi3 a b))"

definition modsi3 :: "u32 \<Rightarrow> u32 \<Rightarrow> u32" where
  "modsi3 a b =
    (let b' = (if sint b < 0 then - b else b)
     in if sint a < 0 then - snd (udivsi3 (- a) b') else snd (udivsi3 a b'))"

text \<open>The loop of \<^verbatim>\<open>__multi3\<close>, 64-bit values on 32-bit words; \<open>w_high_tmp\<close> is the upper half of the shifted \<open>u\<close>.\<close>

function multi3_loop :: "u32 \<Rightarrow> u32 \<Rightarrow> u32 \<Rightarrow> u32 \<Rightarrow> u32 \<Rightarrow> u32 \<times> u32" where
  "multi3_loop u_low v_low w_low w_high w_high_tmp =
    (let new_w_low = w_low + u_low;
         w_high_tmp2x = push_bit 1 w_high_tmp;
         w_high_tmp = w_high_tmp + w_high;
         (w_low, w_high) = (if v_low AND 1 \<noteq> 0
           then (new_w_low, of_bool32 (new_w_low < w_low) + w_high_tmp) else (w_low, w_high));
         u_low_msb = drop_bit 31 u_low;
         v_low = drop_bit 1 v_low;
         u_low = push_bit 1 u_low;
         w_high_tmp = u_low_msb OR w_high_tmp2x
     in if v_low \<noteq> 0 then multi3_loop u_low v_low w_low w_high w_high_tmp else (w_low, w_high))"
  by pat_completeness auto
termination
  by (relation "measure (\<lambda>(u, v, l, h, t). unat v)") (auto simp: drop1_less [simplified])

declare multi3_loop.simps [simp del]

definition multi3 :: "u64 \<Rightarrow> u64 \<Rightarrow> u64" where
  "multi3 u v =
    (let (w_low, w_high) = multi3_loop (lo32 u) (lo32 v) 0 0 0;
         w_high = (if hi32 u \<noteq> 0 then w_high + mulsi3 (lo32 v) (hi32 u) else w_high);
         w_high = (if hi32 v \<noteq> 0 then w_high + mulsi3 (lo32 u) (hi32 v) else w_high)
     in join32 w_high w_low)"

definition ashldi3 :: "u64 \<Rightarrow> int \<Rightarrow> u64" where
  "ashldi3 u b =
    (if b = 0 then u
     else let bm = 32 - b in
       if bm \<le> 0 then join32 (push_bit (nat (- bm)) (lo32 u)) 0
       else join32 (push_bit (nat b) (hi32 u) OR drop_bit (nat bm) (lo32 u)) (push_bit (nat b) (lo32 u)))"

section \<open>Multiplication\<close>

lemma halve: "v = 2 * drop_bit 1 v + (v AND 1)" for v :: "'a :: len word"
proof -
  have "v = push_bit 1 (drop_bit 1 v) + take_bit 1 v" by (rule bits_ident [symmetric])
  then show ?thesis by (simp add: push_bit_eq_mult take_bit_eq_mask mask_eq_exp_minus_1 mult.commute)
qed

lemma low_bit: "v AND 1 = 0 \<or> v AND 1 = 1" for v :: "'a :: len word"
  by (metis and_one_eq mod2_eq_if)

lemma mulsi3_loop_eq: "mulsi3_loop a0 a1 a2 = a0 + a1 * a2"
proof (induction a0 a1 a2 rule: mulsi3_loop.induct)
  case (1 a0 a1 a2)
  have v: "a1 * a2 = drop_bit 1 a1 * push_bit 1 a2 + (a1 AND 1) * a2"
    by (subst halve [of a1]) (simp add: push_bit_eq_mult algebra_simps)
  show ?case
  proof (cases "drop_bit 1 a1 = 0")
    case True
    then have "a1 * a2 = (a1 AND 1) * a2" using v by (simp only: mult_zero_left add_0)
    then show ?thesis using True low_bit [of a1] by (subst mulsi3_loop.simps) (auto simp: Let_def)
  next
    case False
    then show ?thesis
      using 1 [OF refl refl refl] v low_bit [of a1] by (subst mulsi3_loop.simps) (auto simp: Let_def algebra_simps)
  qed
qed

lemma mulsi3_correct: "mulsi3 a b = a * b"
  by (simp add: mulsi3_def mulsi3_loop_eq)

lemma low_part: "b < 2 ^ 32 \<Longrightarrow> (a * 2 ^ 32 + b) mod 2 ^ 64 = a mod 2 ^ 32 * 2 ^ 32 + (b :: nat)"
proof -
  assume b: "b < 2 ^ 32"
  have "(2 :: nat) ^ 64 = 2 ^ 32 * 2 ^ 32" by simp
  then show ?thesis using b mod_mult2_eq [of "a * 2 ^ 32 + b" "2 ^ 32" "2 ^ 32"] by (simp only:) simp
qed

lemma unat_less32: "unat (x :: u32) < 2 ^ 32"
  using unsigned_less [where ?'a = nat, of x] by simp

text \<open>Adding the halves with the carry that the code computes.\<close>

lemma carry_nat:
  fixes a b N :: nat
  assumes "a < N" "b < N"
  shows "a + b = (if (a + b) mod N < a then 1 else 0) * N + (a + b) mod N"
  using assms by (auto simp: mod_below_twice)

lemma join32_add: "join32 (of_bool32 (wl + u < wl) + (t + wh)) (wl + u) = join32 wh wl + join32 t u"
proof -
  define c where "c = (if wl + u < wl then 1 else 0 :: nat)"
  have m: "unat (wl + u) = (unat wl + unat u) mod 2 ^ 32" by (simp add: unat_word_ariths)
  have lo: "unat wl + unat u = c * 2 ^ 32 + unat (wl + u)"
    unfolding c_def word_less_nat_alt m by (rule carry_nat [OF unat_less32 unat_less32])
  have c: "unat (of_bool32 (wl + u < wl)) = c" by (simp add: of_bool32_def c_def)
  have hi: "unat (of_bool32 (wl + u < wl) + (t + wh)) = (c + (unat t + unat wh)) mod 2 ^ 32"
    by (simp add: unat_word_ariths c mod_simps)
  have "(unat wh * 2 ^ 32 + unat wl) + (unat t * 2 ^ 32 + unat u) = (c + (unat t + unat wh)) * 2 ^ 32 + unat (wl + u)"
    using lo by (simp only: add_mult_distrib)
  then have "unat (join32 wh wl + join32 t u) = ((c + (unat t + unat wh)) * 2 ^ 32 + unat (wl + u)) mod 2 ^ 64"
    by (simp only: unat_word_ariths unat_join32) simp
  also have "\<dots> = (c + (unat t + unat wh)) mod 2 ^ 32 * 2 ^ 32 + unat (wl + u)" by (rule low_part [OF unat_less32])
  finally show ?thesis unfolding word_unat_eq_iff unat_join32 hi by simp
qed

lemma ucast_of_nat: "(ucast (x :: u32) :: u64) = of_nat (unat x)"
  by simp

lemma join32_sum: "join32 h l = ucast h * 2 ^ 32 + ucast l"
proof -
  have "join32 h l = of_nat (unat (join32 h l))" by simp
  then show ?thesis by (simp only: unat_join32 of_nat_add of_nat_mult of_nat_power of_nat_numeral ucast_of_nat)
qed

lemma join32_0: "join32 0 l = ucast l"
  by (simp add: join32_sum)

text \<open>Upper halves only matter modulo \<open>2 ^ 32\<close>.\<close>

lemma shift_mod: "(of_nat (n mod 2 ^ 32) * 2 ^ 32 :: u64) = of_nat n * 2 ^ 32"
proof -
  have z: "(2 ^ 32 * 2 ^ 32 :: u64) = 0" by simp
  have "(of_nat n :: u64) = of_nat (n div 2 ^ 32 * 2 ^ 32 + n mod 2 ^ 32)" by (simp only: div_mult_mod_eq)
  also have "\<dots> = of_nat (n div 2 ^ 32) * 2 ^ 32 + of_nat (n mod 2 ^ 32)" by (simp only: of_nat_add of_nat_mult of_nat_power of_nat_numeral)
  finally have "(of_nat n * 2 ^ 32 :: u64) = of_nat (n div 2 ^ 32) * (2 ^ 32 * 2 ^ 32) + of_nat (n mod 2 ^ 32) * 2 ^ 32"
    by (simp only: distrib_right mult.assoc)
  then show ?thesis unfolding z by (simp only: mult_zero_right add_0)
qed

lemma ucast_high: "(ucast (x + y :: u32) * 2 ^ 32 :: u64) = ucast x * 2 ^ 32 + ucast y * 2 ^ 32"
  using shift_mod [of "unat x + unat y"] by (simp only: ucast_of_nat unat_word_ariths len_bit0 len_num1 of_nat_add distrib_right) simp

lemma ucast_high_mult: "(ucast (x * y :: u32) * 2 ^ 32 :: u64) = ucast x * ucast y * 2 ^ 32"
  using shift_mod [of "unat x * unat y"] by (simp only: ucast_of_nat unat_word_ariths len_bit0 len_num1 of_nat_mult) simp

lemma multi3_loop_eq:
  "multi3_loop u v wl wh t = (lo32 (join32 wh wl + join32 t u * ucast v), hi32 (join32 wh wl + join32 t u * ucast v))"
proof (induction u v wl wh t rule: multi3_loop.induct)
  case (1 u v wl wh t)
  define w where "w = (if v AND 1 \<noteq> 0 then (wl + u, of_bool32 (wl + u < wl) + (t + wh)) else (wl, wh))"
  have w: "join32 (snd w) (fst w) = join32 wh wl + join32 t u * ucast (v AND 1)"
    using low_bit [of v] join32_add [of wl u t wh] by (auto simp: w_def)
  have d: "join32 (drop_bit 31 u OR push_bit 1 t) (push_bit 1 u) = join32 t u * 2"
    using join32_shl1 [of 0 t u] by (simp add: or.commute push_bit_eq_mult)
  have "(ucast v :: u64) = 2 * ucast (drop_bit 1 v) + ucast (v AND 1)"
  proof -
    have "unat (v AND 1) = unat v mod 2" using unat_take_bit [of 1 v] by (simp add: take_bit_eq_mask mask_eq_exp_minus_1)
    then have "unat v = 2 * unat (drop_bit 1 v) + unat (v AND 1)" unfolding unat_drop_bit by simp
    then have "(of_nat (unat v) :: u64) = of_nat (2 * unat (drop_bit 1 v) + unat (v AND 1))" by (rule arg_cong)
    then show ?thesis by (simp only: of_nat_add of_nat_mult word_of_nat_eq_0_iff of_nat_numeral of_nat_unat)
  qed
  then have e: "join32 wh wl + join32 t u * ucast v = join32 (snd w) (fst w) + join32 (drop_bit 31 u OR push_bit 1 t) (push_bit 1 u) * ucast (drop_bit 1 v)"
    unfolding w d by (simp add: algebra_simps)
  have step: "multi3_loop u v wl wh t = (if drop_bit 1 v \<noteq> 0
      then multi3_loop (push_bit 1 u) (drop_bit 1 v) (fst w) (snd w) (drop_bit 31 u OR push_bit 1 t) else w)"
    by (subst multi3_loop.simps) (simp add: w_def Let_def split: prod.split)
  show ?case
  proof (cases "drop_bit 1 v = 0")
    case True
    then show ?thesis unfolding step e by (simp add: prod_eq_iff)
  next
    case False
    show ?thesis
      unfolding step e using False "1" [OF refl refl refl, of w "fst w" "snd w"] by (simp add: w_def split: prod.splits)
  qed
qed

lemma cross_products:
  fixes a b c d k :: u64
  assumes "k * k = 0"
  shows "b * d + (d * a + b * c) * k = (a * k + b) * (c * k + d)"
proof -
  have "(a * k + b) * (c * k + d) = a * c * (k * k) + (b * d + (d * a + b * c) * k)" by (simp add: algebra_simps)
  then show ?thesis using assms by simp
qed

text \<open>
  C26: the multiplication routines multiply. \<^verbatim>\<open>__mulsi3\<close> is multiplication modulo \<open>2 ^ 32\<close>, and \<^verbatim>\<open>__multi3\<close>, which the 64-bit products of
  C code become on the NPC core, is multiplication modulo \<open>2 ^ 64\<close>: the loop computes the full product of the low
  halves with its carries, and the cross products are added to the upper half.
\<close>

theorem multiplication_correct: "mulsi3 a b = a * b \<and> multi3 u v = u * v"
proof
  show "mulsi3 a b = a * b" by (rule mulsi3_correct)
  define W where "W = (ucast (lo32 u) * ucast (lo32 v) :: u64)"
  have W: "multi3_loop (lo32 u) (lo32 v) 0 0 0 = (lo32 W, hi32 W)"
    unfolding multi3_loop_eq by (simp add: W_def join32_0)
  have "multi3 u v = join32 (hi32 W + lo32 v * hi32 u + lo32 u * hi32 v) (lo32 W)"
    by (auto simp: multi3_def W mulsi3_correct Let_def)
  also have "\<dots> = ucast (hi32 W + lo32 v * hi32 u + lo32 u * hi32 v) * 2 ^ 32 + ucast (lo32 W)" by (rule join32_sum)
  also have "\<dots> = (ucast (hi32 W) + ucast (lo32 v) * ucast (hi32 u) + ucast (lo32 u) * ucast (hi32 v)) * 2 ^ 32 + ucast (lo32 W)"
    by (simp only: ucast_high ucast_high_mult distrib_right)
  also have "\<dots> = W + (ucast (lo32 v) * ucast (hi32 u) + ucast (lo32 u) * ucast (hi32 v)) * 2 ^ 32"
    using join32_sum [of "hi32 W" "lo32 W"] by (simp add: algebra_simps)
  also have "\<dots> = (ucast (hi32 u) * 2 ^ 32 + ucast (lo32 u)) * (ucast (hi32 v) * 2 ^ 32 + ucast (lo32 v))"
    unfolding W_def by (rule cross_products) simp
  also have "\<dots> = u * v" by (simp only: join32_sum [symmetric] join32_halves)
  finally show "multi3 u v = u * v" .
qed

text \<open>\<^verbatim>\<open>__ashldi3\<close> shifts by any amount from 0 to 63.\<close>

lemma ashldi3_correct:
  assumes "0 \<le> b" "b < 64"
  shows "ashldi3 u b = push_bit (nat b) u"
proof -
  consider "b = 0" | "0 < b" "b < 32" | "32 \<le> b" using assms(1) by linarith
  then show ?thesis
  proof cases
    case 2
    then have "nat (32 - b) = 32 - nat b" by linarith
    then show ?thesis using 2 hi32_shl [of "nat b" u] by (simp add: ashldi3_def Let_def)
  next
    case 3
    have "join32 (push_bit (nat b - 32) (lo32 u)) 0 = push_bit (nat b) u"
      using 3 assms(2) by (intro bit_word_eqI) (auto simp: bit_join32 bit_push_bit_iff bit_lo32)
    moreover have "nat (- (32 - b)) = nat b - 32" using 3 by linarith
    ultimately show ?thesis using 3 by (simp add: ashldi3_def Let_def)
  qed (simp add: ashldi3_def)
qed

section \<open>Division\<close>

lemma unat_pow: "k < 32 \<Longrightarrow> unat (push_bit k 1 :: u32) = 2 ^ k"
  unfolding unat_push_bit using power_strict_increasing [of k 32 "2 :: nat"] by simp

lemma or_power:
  assumes "2 ^ Suc k dvd unat (a :: u32)" "k < 32"
  shows "unat (a OR push_bit k 1) = unat a + 2 ^ k"
proof -
  have "\<not> bit a k"
  proof -
    obtain q where "unat a = 2 ^ Suc k * q" using assms(1) by (auto elim: dvdE)
    then have "unat a div 2 ^ k = 2 * q" by simp
    then show ?thesis using assms(2) by (simp add: bit_unat)
  qed
  then have e: "a OR push_bit k 1 = a + push_bit k 1"
    by (intro disjunctive_add_eq_or [symmetric] bit_word_eqI) (auto simp: bit_and_iff bit_exp_iff)
  note p = unat_pow [OF assms(2)]
  obtain q where q: "unat a = 2 ^ Suc k * q" using assms(1) by (auto elim: dvdE)
  obtain r where r: "(2 :: nat) ^ 32 = 2 ^ Suc k * r" using assms(2) by (metis Suc_leI le_imp_power_dvd dvdE)
  have "q < r" using unat_less32 [of a] unfolding q r by simp
  then have "2 ^ Suc k * q + 2 ^ Suc k \<le> 2 ^ Suc k * r"
    using mult_le_mono2 [of "q + 1" r "2 ^ Suc k"] by (simp add: algebra_simps)
  moreover have "(2 :: nat) ^ k < 2 ^ Suc k" by simp
  ultimately have "2 ^ Suc k * q + 2 ^ k < 2 ^ Suc k * r" by linarith
  then have "unat a + 2 ^ k < 2 ^ 32" unfolding q r .
  then show ?thesis unfolding e unat_word_ariths p by simp
qed

lemma udiv_down_eq:
  assumes "a3 = push_bit k 1" "unat a2 = b * 2 ^ k" "0 < b" "unat a1 < 2 * (b * 2 ^ k)" "2 ^ Suc k dvd unat a0"
  shows "unat (fst (udiv_down a0 a1 a2 a3)) = unat a0 + unat a1 div b \<and> unat (snd (udiv_down a0 a1 a2 a3)) = unat a1 mod b"
  using assms
proof (induction k arbitrary: a0 a1 a2 a3)
  case 0
  have 3: "drop_bit 1 (1 :: u32) = 0" by simp
  show ?case
  proof (cases "a1 < a2")
    case True
    then show ?thesis using 0 by (subst (1 2) udiv_down.simps) (simp add: Let_def word_less_nat_alt)
  next
    case False
    then have "unat (a1 - a2) = unat a1 - unat a2" by (intro unat_sub) simp
    moreover have "unat (a0 OR 1) = unat a0 + 1" using or_power [of 0 a0] 0 by simp
    moreover have "unat a1 div b = 1" "unat a1 mod b = unat a1 - b"
      using 0 False by (simp_all add: word_less_nat_alt div_nat_eqI le_mod_geq)
    ultimately show ?thesis using False 0 by (subst (1 2) udiv_down.simps) (simp add: Let_def)
  qed
next
  case (Suc k)
  define a0' where "a0' = (if a1 < a2 then a0 else a0 OR a3)"
  define a1' where "a1' = (if a1 < a2 then a1 else a1 - a2)"
  have k: "Suc k < 32"
  proof -
    have "2 ^ Suc k \<le> b * 2 ^ Suc k" using Suc.prems(3) by simp
    also have "\<dots> < 2 ^ 32" using unat_less32 [of a2] Suc.prems(2) by simp
    finally show ?thesis by (simp only: power_strict_increasing_iff one_less_numeral_iff semiring_norm)
  qed
  have d3: "drop_bit 1 a3 = push_bit k 1"
    unfolding word_unat_eq_iff unat_drop_bit Suc.prems(1) unat_pow [OF k] unat_pow [OF Suc_lessD [OF k]] by simp
  have n3: "drop_bit 1 a3 \<noteq> 0"
  proof
    assume "drop_bit 1 a3 = 0"
    with d3 have e: "(push_bit k 1 :: u32) = 0" by metis
    show False using unat_pow [OF Suc_lessD [OF k]] unfolding e by simp
  qed
  have d2: "unat (drop_bit 1 a2) = b * 2 ^ k" unfolding unat_drop_bit Suc.prems(2) by simp
  have step: "udiv_down a0 a1 a2 a3 = udiv_down a0' a1' (drop_bit 1 a2) (drop_bit 1 a3)"
    using n3 by (subst udiv_down.simps) (simp add: Let_def a0'_def a1'_def)
  have s: "unat a0' + unat a1' div b = unat a0 + unat a1 div b" "unat a1' mod b = unat a1 mod b" "unat a1' < b * 2 ^ Suc k"
    "2 ^ Suc k dvd unat a0'"
  proof -
    have "(2 :: nat) ^ Suc k dvd 2 ^ Suc (Suc k)" by (intro le_imp_power_dvd) simp
    then have d: "2 ^ Suc k dvd unat a0" using Suc.prems(5) by (rule dvd_trans)
    have "unat a0' + unat a1' div b = unat a0 + unat a1 div b \<and> unat a1' mod b = unat a1 mod b \<and> unat a1' < b * 2 ^ Suc k \<and> 2 ^ Suc k dvd unat a0'"
    proof (cases "a1 < a2")
      case True
      then show ?thesis using d Suc.prems(2) by (simp add: a0'_def a1'_def word_less_nat_alt)
    next
      case False
      have ge: "b * 2 ^ Suc k \<le> unat a1" using False Suc.prems(2) by (simp add: word_less_nat_alt)
      have u1: "unat a1' = unat a1 - b * 2 ^ Suc k" using False Suc.prems(2) by (simp add: a1'_def unat_sub)
      have u0: "unat a0' = unat a0 + 2 ^ Suc k" using False or_power [OF Suc.prems(5) k] Suc.prems(1) by (simp add: a0'_def)
      obtain r where r: "unat a1 = b * 2 ^ Suc k + r" using ge by (auto simp: le_iff_add)
      have "unat a1' = r" using u1 r by simp
      moreover have "unat a1 div b = 2 ^ Suc k + r div b" "unat a1 mod b = r mod b" unfolding r using Suc.prems(3) by (simp_all only: div_mult_self4 mod_mult_self4)
      moreover have "r < b * 2 ^ Suc k" using Suc.prems(4) r by simp
      ultimately show ?thesis using u0 d by simp
    qed
    then show "unat a0' + unat a1' div b = unat a0 + unat a1 div b" "unat a1' mod b = unat a1 mod b" "unat a1' < b * 2 ^ Suc k"
      "2 ^ Suc k dvd unat a0'" by blast+
  qed
  show ?case unfolding step using Suc.IH [OF d3 d2 Suc.prems(3) _ s(4)] s by simp
qed

lemma udiv_up_eq:
  assumes "unat a2 = b * 2 ^ k" "a3 = push_bit k 1" "0 < b"
  shows "\<exists>k'. unat (fst (udiv_up a1 a2 a3)) = b * 2 ^ k' \<and> snd (udiv_up a1 a2 a3) = push_bit k' 1 \<and> unat a1 < 2 * (b * 2 ^ k')"
  using assms
proof (induction a1 a2 a3 arbitrary: k rule: udiv_up.induct)
  case (1 a1 a2 a3)
  show ?case
  proof (cases "sint a2 \<le> 0")
    case True
    have "2 ^ 31 \<le> unat a2"
    proof (rule ccontr)
      assume "\<not> 2 ^ 31 \<le> unat a2"
      then have "unat a2 < 2147483648" by simp
      then have "int (unat a2) < 2147483648" by linarith
      then have "uint a2 < 2 ^ 31" by simp
      moreover have "0 < unat a2" using "1.prems" by simp
      then have "0 < uint a2" by (metis nat_uint_eq of_nat_0_less_iff uint_nat)
      ultimately show False using True by (simp add: sint_u32)
    qed
    then have "unat a1 < 2 * (b * 2 ^ k)" using unat_less32 [of a1] "1.prems"(1) by simp
    then show ?thesis using True "1.prems" by (subst (1 2) udiv_up.simps) auto
  next
    case False
    have d: "unat (push_bit 1 a2) = b * 2 ^ Suc k" using unat_double [of a2] sint_positive [OF False] "1.prems"(1) by simp
    have d3: "push_bit 1 a3 = push_bit (Suc k) 1" using "1.prems"(2) by simp
    show ?thesis
    proof (cases "push_bit 1 a2 < a1")
      case True
      have "udiv_up a1 a2 a3 = udiv_up a1 (push_bit 1 a2) (push_bit 1 a3)" using False True by (subst udiv_up.simps) simp
      then show ?thesis using "1.IH" [OF False True d d3 "1.prems"(3)] by simp
    next
      case up: False
      have "udiv_up a1 a2 a3 = (push_bit 1 a2, push_bit 1 a3)" using False up by (subst udiv_up.simps) simp
      moreover have "unat a1 < 2 * (b * 2 ^ Suc k)"
      proof -
        have "unat a1 \<le> b * 2 ^ Suc k" using up unfolding word_less_nat_alt d by simp
        moreover have "0 < b * 2 ^ Suc k" using "1.prems"(3) by simp
        ultimately show ?thesis by linarith
      qed
      ultimately show ?thesis using d d3 by (intro exI [of _ "Suc k"]) (simp only: fst_conv snd_conv simp_thms)
    qed
  qed
qed

lemma udivsi3_eq: "unat (fst (udivsi3 a b)) = (if b = 0 then 2 ^ 32 - 1 else unat a div unat b) \<and> unat (snd (udivsi3 a b)) = (if b = 0 then unat a else unat a mod unat b)"
proof (cases "b = 0")
  case True
  moreover have "(- 1 :: u32) = 0xffffffff" by simp
  then have "unat (- 1 :: u32) = 2 ^ 32 - 1" by (simp only: unat_numeral) simp
  ultimately show ?thesis by (simp add: udivsi3_def)
next
  case False
  then have b: "0 < unat b" by (simp add: unat_gt_0)
  define p where "p = (if a \<le> b then (b, 1) else udiv_up a b 1)"
  have "\<exists>k'. unat (fst p) = unat b * 2 ^ k' \<and> snd p = push_bit k' 1 \<and> unat a < 2 * (unat b * 2 ^ k')"
  proof (cases "a \<le> b")
    case True
    then show ?thesis using b by (intro exI [of _ 0]) (simp add: p_def word_le_nat_alt)
  next
    case False
    then show ?thesis using udiv_up_eq [of b "unat b" 0 1 a] b by (simp add: p_def)
  qed
  then obtain k where k: "unat (fst p) = unat b * 2 ^ k" "snd p = push_bit k 1" "unat a < 2 * (unat b * 2 ^ k)" by blast
  have "udivsi3 a b = udiv_down 0 a (fst p) (snd p)" using False by (simp add: udivsi3_def p_def split: prod.split)
  then show ?thesis using udiv_down_eq [OF k(2,1) b k(3), of 0] False by simp
qed

text \<open>Signed division and remainder are the unsigned ones on the magnitudes.\<close>

lemma unat_abs: "unat (if sint a < 0 then - a else a) = nat \<bar>sint (a :: u32)\<bar>"
  using nat_sint_pos [of a] nat_sint_neg [of a] by auto

lemma udivsi3_abs:
  fixes a b :: u32
  assumes "b \<noteq> 0"
  defines "x \<equiv> (if sint a < 0 then - a else a)" and "y \<equiv> (if sint b < 0 then - b else b)"
  shows "fst (udivsi3 x y) = word_of_int (\<bar>sint a\<bar> div \<bar>sint b\<bar>)" "snd (udivsi3 x y) = word_of_int (\<bar>sint a\<bar> mod \<bar>sint b\<bar>)"
proof -
  have y: "y \<noteq> 0" using assms(1) by (simp add: y_def)
  have u: "int (unat x) = \<bar>sint a\<bar>" "int (unat y) = \<bar>sint b\<bar>" by (simp_all only: x_def y_def unat_abs int_nat_eq) simp_all
  have w: "w = word_of_int (int (unat w))" for w :: u32 by simp
  have "int (unat (fst (udivsi3 x y))) = \<bar>sint a\<bar> div \<bar>sint b\<bar>" "int (unat (snd (udivsi3 x y))) = \<bar>sint a\<bar> mod \<bar>sint b\<bar>"
    using udivsi3_eq [of x y] y by (simp_all only: if_False zdiv_int zmod_int u)
  then show "fst (udivsi3 x y) = word_of_int (\<bar>sint a\<bar> div \<bar>sint b\<bar>)" "snd (udivsi3 x y) = word_of_int (\<bar>sint a\<bar> mod \<bar>sint b\<bar>)"
    using w by metis+
qed

lemma divsi3_eq:
  assumes "b \<noteq> 0"
  shows "divsi3 a b = word_of_int (sint a sdiv sint b)"
proof -
  have nz: "sint b \<noteq> 0" using sint_u32 [of b] uint_lt2p [of b] uint_0_iff [of b] assms by (auto split: if_splits)
  note q = udivsi3_abs(1) [OF assms, of a]
  consider "sint a < 0" "0 < sint b" | "sint a < 0" "sint b < 0" | "\<not> sint a < 0" "sint b < 0" | "\<not> sint a < 0" "0 < sint b"
    using nz by linarith
  then show ?thesis
    by cases (use q nz in \<open>auto simp: divsi3_def signed_divide_int_def sgn_if\<close>)
qed

lemma modsi3_eq:
  assumes "b \<noteq> 0"
  shows "modsi3 a b = word_of_int (sint a smod sint b)"
proof -
  note q = udivsi3_abs(2) [OF assms, of a]
  have "sint a smod sint b = sgn (sint a) * (\<bar>sint a\<bar> mod \<bar>sint b\<bar>)"
    by (rule signed_modulo_int_def)
  then show ?thesis using q by (cases "sint a < 0") (auto simp: modsi3_def Let_def sgn_if)
qed

lemma signed_zero_divisor: "divsi3 a 0 = - 1" "modsi3 a 0 = a"
  by (simp_all add: divsi3_def modsi3_def udivsi3_def)

text \<open>
  C27: the division routines divide, and for a zero divisor leave what the RISC-V instructions give. \<^verbatim>\<open>__udivsi3\<close> leaves
  quotient and remainder, all ones and the dividend for a zero divisor. The signed versions round towards zero, the
  remainder has the sign of the dividend and the overflowing quotient wraps as the instruction does; for a zero divisor the
  quotient is minus one whatever the sign of the dividend, and the remainder is the dividend.
\<close>

theorem division_correct:
  "udivsi3 a b = (if b = 0 then (- 1, a) else (a div b, a mod b)) \<and>
   umodsi3 a b = (if b = 0 then a else a mod b) \<and>
   divsi3 a b = (if b = 0 then - 1 else word_of_int (sint a sdiv sint b)) \<and>
   modsi3 a b = (if b = 0 then a else word_of_int (sint a smod sint b))"
proof (cases "b = 0")
  case False
  then have "udivsi3 a b = (a div b, a mod b)"
    using udivsi3_eq [of a b] by (simp add: prod_eq_iff word_unat_eq_iff unat_div unat_mod)
  then show ?thesis using False divsi3_eq [OF False] modsi3_eq [OF False] by (simp add: umodsi3_def)
qed (simp add: udivsi3_def umodsi3_def signed_zero_divisor)

end
