(* ===== verification/Minirv.thy ===== *)
theory Minirv
  imports Word_Halves
begin

text \<open>
  The instruction replacement of minirv (\<^verbatim>\<open>abstract-machine/tools/minirv\<close>). A core with eight instructions runs compiled
  RV32 programs because the assembler expands every other instruction into a macro of \<^verbatim>\<open>inst-replace.h\<close>. Here the macros are
  functions from their arguments to code, the eight instructions have a semantics on registers and bytes of memory, and the
  tables of \<^verbatim>\<open>gen-lut.c\<close> are generated as the program generates them.
\<close>

section \<open>The base instructions\<close>

datatype minirv =
    ADD nat nat nat
  | ADDI nat nat u32
  | LUI nat u32
  | LW nat u32 nat
  | LBU nat u32 nat
  | SW nat u32 nat
  | SB nat u32 nat
  | JALR nat nat u32

abbreviation (input) x0 :: nat where "x0 \<equiv> 0"
abbreviation (input) ra :: nat where "ra \<equiv> 1"
abbreviation (input) sp :: nat where "sp \<equiv> 2"
abbreviation (input) gp :: nat where "gp \<equiv> 3"
abbreviation (input) tp :: nat where "tp \<equiv> 4"
abbreviation (input) s0 :: nat where "s0 \<equiv> 8"
abbreviation (input) s1 :: nat where "s1 \<equiv> 9"

type_synonym regs = "nat \<Rightarrow> u32"
type_synonym bmem = "u32 \<Rightarrow> u8"

definition rval :: "regs \<Rightarrow> nat \<Rightarrow> u32" where
  "rval g r = (if r = 0 then 0 else g r)"

definition wreg :: "nat \<Rightarrow> u32 \<Rightarrow> regs \<Rightarrow> regs" where
  "wreg r v g = (if r = 0 then g else g(r := v))"

definition byte :: "nat \<Rightarrow> u32 \<Rightarrow> u8" where
  "byte k w = ucast (drop_bit (8 * k) w)"

definition bytes4 :: "u8 \<Rightarrow> u8 \<Rightarrow> u8 \<Rightarrow> u8 \<Rightarrow> u32" where
  "bytes4 a b c d = ucast a OR push_bit 8 (ucast b) OR push_bit 16 (ucast c) OR push_bit 24 (ucast d)"

definition load32 :: "bmem \<Rightarrow> u32 \<Rightarrow> u32" where
  "load32 M a = bytes4 (M a) (M (a + 1)) (M (a + 2)) (M (a + 3))"

definition store32 :: "u32 \<Rightarrow> u32 \<Rightarrow> bmem \<Rightarrow> bmem" where
  "store32 a w M = M(a := byte 0 w, a + 1 := byte 1 w, a + 2 := byte 2 w, a + 3 := byte 3 w)"

text \<open>What an instruction does to registers and memory; a jump only sets its destination, which needs the program counter.\<close>

fun run1 :: "minirv \<Rightarrow> regs \<times> bmem \<Rightarrow> regs \<times> bmem" where
  "run1 (ADD rd a b) (g, M) = (wreg rd (rval g a + rval g b) g, M)"
| "run1 (ADDI rd a i) (g, M) = (wreg rd (rval g a + i) g, M)"
| "run1 (LUI rd i) (g, M) = (wreg rd (push_bit 12 i) g, M)"
| "run1 (LW rd i a) (g, M) = (wreg rd (load32 M (rval g a + i)) g, M)"
| "run1 (LBU rd i a) (g, M) = (wreg rd (ucast (M (rval g a + i))) g, M)"
| "run1 (SW b i a) (g, M) = (g, store32 (rval g a + i) (rval g b) M)"
| "run1 (SB b i a) (g, M) = (g, M(rval g a + i := ucast (rval g b)))"
| "run1 (JALR rd a i) (g, M) = (g, M)"

definition run :: "minirv list \<Rightarrow> regs \<times> bmem \<Rightarrow> regs \<times> bmem" where
  "run code s = fold run1 code s"

text \<open>With the program counter: the code starts at \<open>pc\<close>, and a jump ends it.\<close>

fun exec :: "minirv list \<Rightarrow> u32 \<Rightarrow> regs \<times> bmem \<Rightarrow> u32 \<times> regs \<times> bmem" where
  "exec [] pc s = (pc, s)"
| "exec (JALR rd a i # code) pc (g, M) = ((rval g a + i) AND NOT 1, wreg rd (pc + 4) g, M)"
| "exec (c # code) pc s = exec code (pc + 4) (run1 c s)"

section \<open>Tables: gen-lut.c\<close>

definition gen_table :: "nat \<Rightarrow> nat \<Rightarrow> nat \<Rightarrow> (nat \<Rightarrow> nat \<Rightarrow> u32) \<Rightarrow> u8 list" where
  "gen_table row col entry_size f =
    concat (map (\<lambda>j. concat (map (\<lambda>i. map (\<lambda>k. byte k (f j i)) [0..<entry_size]) [0..<col])) [0..<row])"

definition lut_bin :: "u8 list" where
  "lut_bin =
    gen_table 256 256 1 (\<lambda>j i. of_nat j AND of_nat i) @
    gen_table 256 256 1 (\<lambda>j i. of_nat j OR of_nat i) @
    gen_table 256 256 1 (\<lambda>j i. of_nat j XOR of_nat i) @
    gen_table 32 256 4 (\<lambda>j i. push_bit j (of_nat i)) @
    gen_table 32 256 4 (\<lambda>j i. drop_bit j (push_bit 24 (of_nat i))) @
    gen_table 32 256 4 (\<lambda>j i. signed_drop_bit j (push_bit 24 (of_nat i)))"

text \<open>Where the assembler puts the tables and the scratch array.\<close>

record layout =
  lut :: u32
  same_result_table :: u32
  check_8bit_0_table :: u32
  slt1_table :: u32
  sltu1_table :: u32
  or1_table :: u32
  check_same_array :: u32

definition and8_table :: "layout \<Rightarrow> u32" where "and8_table T = lut T"
definition or8_table :: "layout \<Rightarrow> u32" where "or8_table T = and8_table T + 256 * 256"
definition xor8_table :: "layout \<Rightarrow> u32" where "xor8_table T = or8_table T + 256 * 256"
definition sll8_table :: "layout \<Rightarrow> u32" where "sll8_table T = xor8_table T + 256 * 256"
definition srl8_table :: "layout \<Rightarrow> u32" where "srl8_table T = sll8_table T + 32 * 256 * 4"
definition sra8_table :: "layout \<Rightarrow> u32" where "sra8_table T = srl8_table T + 32 * 256 * 4"

section \<open>Macros\<close>

definition SP_VAR_BYTE :: "nat \<Rightarrow> nat \<Rightarrow> u32" where
  "SP_VAR_BYTE n boffset = - (of_nat n) * 4 + of_nat boffset"

definition SP_VAR :: "nat \<Rightarrow> u32" where "SP_VAR n = SP_VAR_BYTE n 0"

abbreviation (input) VAR_A :: nat where "VAR_A \<equiv> 4"
abbreviation (input) VAR_B :: nat where "VAR_B \<equiv> 5"
abbreviation (input) VAR_C :: nat where "VAR_C \<equiv> 6"
abbreviation (input) VAR_D :: nat where "VAR_D \<equiv> 7"

definition PUSH :: "nat \<Rightarrow> nat \<Rightarrow> minirv" where "PUSH r n = SW r (SP_VAR n) sp"
definition POP :: "nat \<Rightarrow> nat \<Rightarrow> minirv" where "POP r n = LW r (SP_VAR n) sp"

text \<open>Pseudo-instructions of the assembler that are not replaced.\<close>

definition m_mv :: "nat \<Rightarrow> nat \<Rightarrow> minirv list" where "m_mv rd rs = [ADDI rd rs 0]"
definition m_li :: "nat \<Rightarrow> u32 \<Rightarrow> minirv list" where "m_li rd imm = [ADDI rd x0 imm]"
definition m_jr :: "nat \<Rightarrow> minirv list" where "m_jr rs = [JALR x0 rs 0]"

definition hi20 :: "u32 \<Rightarrow> u32" where "hi20 a = drop_bit 12 (a + 0x800)"
definition lo12 :: "u32 \<Rightarrow> u32" where "lo12 a = signed_take_bit 11 a"

definition m_la :: "nat \<Rightarrow> u32 \<Rightarrow> minirv list" where
  "m_la r addr = [LUI r (hi20 addr), ADDI r r (lo12 addr)]"

definition m_call_template :: "nat \<Rightarrow> u32 \<Rightarrow> minirv list" where
  "m_call_template r addr = m_la r addr @ [JALR r r 0]"

definition m_j :: "u32 \<Rightarrow> minirv list" where
  "m_j addr = m_la tp addr @ [JALR x0 tp 0]"

definition m_jal :: "nat \<Rightarrow> u32 \<Rightarrow> minirv list" where
  "m_jal rd addr = (if rd = x0 then m_j addr else m_call_template rd addr)"

definition m_call :: "u32 \<Rightarrow> minirv list" where
  "m_call addr = m_call_template ra addr"

definition m_tail :: "u32 \<Rightarrow> minirv list" where
  "m_tail addr = m_la tp addr @ m_jr tp @ m_call_template ra addr"

definition not_byte :: "nat \<Rightarrow> minirv list" where
  "not_byte k = [LBU gp (SP_VAR_BYTE VAR_C k) sp, ADD gp gp tp, LBU gp 0 gp, SB gp (SP_VAR_BYTE VAR_D k) sp]"

definition m_not :: "layout \<Rightarrow> nat \<Rightarrow> nat \<Rightarrow> minirv list" where
  "m_not T rd rs1 =
    [PUSH gp 3, SW rs1 (SP_VAR VAR_C) sp] @ m_la tp (xor8_table T + push_bit 8 0xff) @
    not_byte 3 @ not_byte 2 @ not_byte 1 @ not_byte 0 @ [POP gp 3, LW rd (SP_VAR VAR_D) sp]"

definition m_sub :: "layout \<Rightarrow> nat \<Rightarrow> nat \<Rightarrow> nat \<Rightarrow> minirv list" where
  "m_sub T rd rs1 rs2 = m_not T tp rs2 @ [ADD rd rs1 tp, ADDI rd rd 1]"

definition m_neg :: "layout \<Rightarrow> nat \<Rightarrow> nat \<Rightarrow> minirv list" where
  "m_neg T rd rs = m_sub T rd x0 rs"

definition m_getbyte :: "nat \<Rightarrow> nat \<Rightarrow> nat \<Rightarrow> minirv list" where
  "m_getbyte rd rs1 k = [SW rs1 (SP_VAR VAR_C) sp, LBU rd (SP_VAR_BYTE VAR_C k) sp]"

text \<open>Stores and loads of half words; \<open>i\<close> and \<open>a\<close> are the offset and the base register of the address.\<close>

definition m_sh :: "nat \<Rightarrow> u32 \<Rightarrow> nat \<Rightarrow> minirv list" where
  "m_sh rs i a = [SB rs (0 + i) a] @ m_getbyte tp rs 1 @ [SB tp (1 + i) a]"

definition slli_small :: "nat \<Rightarrow> nat \<Rightarrow> nat \<Rightarrow> minirv list" where
  "slli_small rd rs1 imm =
    (if imm = 0 then (if rd \<noteq> rs1 then m_mv rd rs1 else []) else ADD rd rs1 rs1 # replicate (imm - 1) (ADD rd rd rd))"

definition m_slli :: "nat \<Rightarrow> nat \<Rightarrow> nat \<Rightarrow> minirv list" where
  "m_slli rd rs1 imm =
    (if imm = 0 then (if rd \<noteq> rs1 then m_mv rd rs1 else [])
     else if imm \<ge> 24 then [SW x0 (SP_VAR VAR_A) sp, SB rs1 (SP_VAR_BYTE VAR_A 3) sp, LW rd (SP_VAR VAR_A) sp] @ slli_small rd rd (imm - 24)
     else if imm \<ge> 16 then [SW x0 (SP_VAR VAR_A) sp] @ m_sh rs1 (SP_VAR_BYTE VAR_A 2) sp @ [LW rd (SP_VAR VAR_A) sp] @ slli_small rd rd (imm - 16)
     else slli_small rd rs1 imm)"

definition m_msb :: "nat \<Rightarrow> nat \<Rightarrow> minirv list" where
  "m_msb rd rs1 = m_getbyte rd rs1 3 @ m_slli rd rd 1 @ m_getbyte rd rd 1"

definition m_slt_template :: "layout \<Rightarrow> u32 \<Rightarrow> nat \<Rightarrow> nat \<Rightarrow> nat \<Rightarrow> minirv list" where
  "m_slt_template T table rd rs1 rs2 =
    [PUSH s0 1, PUSH s1 2, SW rs2 (SP_VAR VAR_A) sp] @ m_mv s0 rs1 @ [LW s1 (SP_VAR VAR_A) sp] @
    m_msb gp s0 @ m_slli gp gp 1 @
    m_msb tp s1 @ [ADD gp gp tp] @ m_slli gp gp 1 @
    m_sub T tp s0 s1 @ m_msb tp tp @ [ADD gp gp tp] @
    m_la tp table @ [ADD tp tp gp] @
    [POP s1 2, POP s0 1] @ [LBU rd 0 tp]"

definition m_slt :: "layout \<Rightarrow> nat \<Rightarrow> nat \<Rightarrow> nat \<Rightarrow> minirv list" where
  "m_slt T rd rs1 rs2 = m_slt_template T (slt1_table T) rd rs1 rs2"

definition m_sltu :: "layout \<Rightarrow> nat \<Rightarrow> nat \<Rightarrow> nat \<Rightarrow> minirv list" where
  "m_sltu T rd rs1 rs2 = m_slt_template T (sltu1_table T) rd rs1 rs2"

definition logic8_byte_internal :: "nat \<Rightarrow> nat \<Rightarrow> minirv list" where
  "logic8_byte_internal lut_reg k =
    [LBU tp (SP_VAR_BYTE VAR_A k) sp, SB tp (SP_VAR_BYTE VAR_D 1) sp, LBU tp (SP_VAR_BYTE VAR_B k) sp, SB tp (SP_VAR_BYTE VAR_D 0) sp,
     LW tp (SP_VAR VAR_D) sp, ADD tp lut_reg tp, LBU tp 0 tp, SB tp (SP_VAR_BYTE VAR_C k) sp]"

text \<open>\<open>None\<close> is \<^verbatim>\<open>.abort\<close>.\<close>

definition m_logic :: "u32 \<Rightarrow> nat \<Rightarrow> nat \<Rightarrow> nat \<Rightarrow> minirv list option" where
  "m_logic table rd rs1 rs2 =
    (if rd = x0 then Some []
     else if rd = sp \<or> rs1 = sp \<or> rs2 = sp then None
     else if rd = gp \<or> rs1 = gp \<or> rs2 = gp then None
     else if rd = tp \<or> rs1 = tp then None
     else Some ([SW rs1 (SP_VAR VAR_A) sp, SW rs2 (SP_VAR VAR_B) sp] @ m_la rd table @ [SW x0 (SP_VAR VAR_D) sp] @
       logic8_byte_internal rd 3 @ logic8_byte_internal rd 2 @ logic8_byte_internal rd 1 @ logic8_byte_internal rd 0 @
       [LW rd (SP_VAR VAR_C) sp]))"

definition m_and :: "layout \<Rightarrow> nat \<Rightarrow> nat \<Rightarrow> nat \<Rightarrow> minirv list option" where "m_and T = m_logic (and8_table T)"
definition m_or :: "layout \<Rightarrow> nat \<Rightarrow> nat \<Rightarrow> nat \<Rightarrow> minirv list option" where "m_or T = m_logic (or8_table T)"
definition m_xor :: "layout \<Rightarrow> nat \<Rightarrow> nat \<Rightarrow> nat \<Rightarrow> minirv list option" where "m_xor T = m_logic (xor8_table T)"

definition check_8bit_same :: "nat \<Rightarrow> nat \<Rightarrow> nat \<Rightarrow> minirv list" where
  "check_8bit_same table rd k =
    [LBU rd (SP_VAR_BYTE VAR_A k) sp, ADD tp table rd, ADDI rd x0 1, SB rd 0 tp,
     LBU rd (SP_VAR_BYTE VAR_B k) sp, ADD rd table rd, SB x0 0 rd, LBU rd 0 tp]"

definition m_seq :: "layout \<Rightarrow> nat \<Rightarrow> nat \<Rightarrow> nat \<Rightarrow> minirv list" where
  "m_seq T rd rs1 rs2 =
    [SW rs1 (SP_VAR VAR_A) sp, SW rs2 (SP_VAR VAR_B) sp, PUSH s0 1, PUSH s1 2] @ m_la s0 (check_same_array T) @
    check_8bit_same s0 gp 0 @ check_8bit_same s0 s1 1 @ [ADD gp gp s1] @ check_8bit_same s0 s1 2 @ [ADD gp gp s1] @
    check_8bit_same s0 s1 3 @ [ADD gp gp s1] @
    m_la tp (same_result_table T) @ [ADD tp tp gp, LBU rd 0 tp, POP s1 2, POP s0 1]"

definition check_8bit_0 :: "nat \<Rightarrow> nat \<Rightarrow> nat \<Rightarrow> minirv list" where
  "check_8bit_0 table rd k = [LBU rd (SP_VAR_BYTE VAR_A k) sp, ADD rd table rd, LBU rd 0 rd]"

definition m_seqz :: "layout \<Rightarrow> nat \<Rightarrow> nat \<Rightarrow> minirv list" where
  "m_seqz T rd rs1 =
    [SW rs1 (SP_VAR VAR_A) sp, PUSH s0 1] @ m_la s0 (check_8bit_0_table T) @
    check_8bit_0 s0 gp 0 @ check_8bit_0 s0 tp 1 @ [ADD gp gp tp] @ check_8bit_0 s0 tp 2 @ [ADD gp gp tp] @
    check_8bit_0 s0 tp 3 @ [ADD gp gp tp] @
    m_la tp (same_result_table T) @ [ADD tp tp gp, LBU rd 0 tp, POP s0 1]"

text \<open>The branch macros end in a jump; \<open>next\<close> is the address of the label after them.\<close>

definition branch_resolve :: "u32 \<Rightarrow> bool \<Rightarrow> u32 \<Rightarrow> minirv list" where
  "branch_resolve target is_tp_high_sel_target next =
    m_slli tp tp 2 @ [ADD tp sp tp] @
    (if is_tp_high_sel_target
     then m_la gp target @ [SW gp (SP_VAR VAR_A) sp] @ m_la gp next @ [SW gp (SP_VAR VAR_B) sp]
     else m_la gp next @ [SW gp (SP_VAR VAR_A) sp] @ m_la gp target @ [SW gp (SP_VAR VAR_B) sp]) @
    [LW tp (SP_VAR VAR_B) tp] @ m_jr tp"

definition beq_test :: "layout \<Rightarrow> nat \<Rightarrow> nat \<Rightarrow> minirv list" where
  "beq_test T rs1 rs2 = (if rs2 = x0 then m_seqz T tp rs1 else if rs1 = x0 then m_seqz T tp rs2 else m_seq T tp rs1 rs2)"

definition m_beq :: "layout \<Rightarrow> nat \<Rightarrow> nat \<Rightarrow> u32 \<Rightarrow> u32 \<Rightarrow> minirv list" where
  "m_beq T rs1 rs2 target next = beq_test T rs1 rs2 @ branch_resolve target True next"

definition m_bne :: "layout \<Rightarrow> nat \<Rightarrow> nat \<Rightarrow> u32 \<Rightarrow> u32 \<Rightarrow> minirv list" where
  "m_bne T rs1 rs2 target next = beq_test T rs1 rs2 @ branch_resolve target False next"

text \<open>\<^verbatim>\<open>rs2 <= 0\<close>, from the sign bits of \<^verbatim>\<open>rs2\<close> and \<^verbatim>\<open>rs2 - 1\<close>.\<close>

definition le0_test :: "layout \<Rightarrow> nat \<Rightarrow> minirv list" where
  "le0_test T rs2 =
    m_msb gp rs2 @ [ADDI tp rs2 (- 1)] @ m_msb tp tp @ [ADD gp gp tp] @ m_la tp (or1_table T) @ [ADD tp gp tp, LBU tp 0 tp]"

definition m_blt :: "layout \<Rightarrow> nat \<Rightarrow> nat \<Rightarrow> u32 \<Rightarrow> u32 \<Rightarrow> minirv list" where
  "m_blt T rs1 rs2 target next =
    (if rs2 = x0 then m_msb tp rs1 @ branch_resolve target True next
     else if rs1 = x0 then le0_test T rs2 @ branch_resolve target False next
     else m_slt T tp rs1 rs2 @ branch_resolve target True next)"

definition m_bltu :: "layout \<Rightarrow> nat \<Rightarrow> nat \<Rightarrow> u32 \<Rightarrow> u32 \<Rightarrow> minirv list" where
  "m_bltu T rs1 rs2 target next = m_sltu T tp rs1 rs2 @ branch_resolve target True next"

definition m_bge :: "layout \<Rightarrow> nat \<Rightarrow> nat \<Rightarrow> u32 \<Rightarrow> u32 \<Rightarrow> minirv list" where
  "m_bge T rs1 rs2 target next =
    (if rs1 = x0 then le0_test T rs2 @ branch_resolve target True next
     else m_slt T tp rs1 rs2 @ branch_resolve target False next)"

definition m_bgeu :: "layout \<Rightarrow> nat \<Rightarrow> nat \<Rightarrow> u32 \<Rightarrow> u32 \<Rightarrow> minirv list" where
  "m_bgeu T rs1 rs2 target next = m_sltu T tp rs1 rs2 @ branch_resolve target False next"

definition m_getshamt :: "layout \<Rightarrow> nat \<Rightarrow> nat \<Rightarrow> minirv list" where
  "m_getshamt T rd rs1 =
    [SB rs1 (SP_VAR_BYTE VAR_B 0) sp, LBU rd (SP_VAR_BYTE VAR_B 0) sp] @ m_la tp (and8_table T + push_bit 8 0x1f) @ [ADD rd rd tp, LBU rd 0 rd]"

definition get_shift_byte_in_tp :: "nat \<Rightarrow> nat \<Rightarrow> minirv list" where
  "get_shift_byte_in_tp base k = [LBU tp (SP_VAR_BYTE VAR_A k) sp] @ m_slli tp tp 2 @ [ADD tp base tp, LW tp 0 tp]"

text \<open>The start of the table row of a shift amount that is in a register.\<close>

definition shift_row :: "layout \<Rightarrow> u32 \<Rightarrow> nat \<Rightarrow> minirv list" where
  "shift_row T table rs2 =
    m_getshamt T s0 rs2 @ [SW x0 (SP_VAR VAR_B) sp, SB s0 (SP_VAR_BYTE VAR_B 1) sp, LW s0 (SP_VAR VAR_B) sp] @
    m_slli s0 s0 2 @ m_la tp table @ [ADD s0 s0 tp]"

definition m_sll :: "layout \<Rightarrow> nat \<Rightarrow> nat \<Rightarrow> nat \<Rightarrow> minirv list" where
  "m_sll T rd rs1 rs2 =
    [PUSH s0 1, SW rs1 (SP_VAR VAR_A) sp] @ shift_row T (sll8_table T) rs2 @
    [SW x0 (SP_VAR VAR_B) sp] @ get_shift_byte_in_tp s0 3 @ [SB tp (SP_VAR_BYTE VAR_B 3) sp, LW gp (SP_VAR VAR_B) sp] @
    get_shift_byte_in_tp s0 2 @ m_sh tp (SP_VAR_BYTE VAR_B 2) sp @ [LW tp (SP_VAR VAR_B) sp, ADD gp gp tp] @
    get_shift_byte_in_tp s0 1 @ m_slli tp tp 8 @ [ADD gp gp tp] @
    get_shift_byte_in_tp s0 0 @ [POP s0 1, ADD rd gp tp]"

text \<open>\<^verbatim>\<open>shift_right_template\<close> after the row has been found.\<close>

definition shift_right_body :: "layout \<Rightarrow> nat \<Rightarrow> bool \<Rightarrow> minirv list" where
  "shift_right_body T rd is_arith =
    get_shift_byte_in_tp s0 2 @ [SW tp (SP_VAR VAR_B) sp] @ get_shift_byte_in_tp s0 1 @ [SW tp (SP_VAR VAR_C) sp] @
    get_shift_byte_in_tp s0 0 @ [SW tp (SP_VAR VAR_D) sp] @
    [LBU gp (SP_VAR_BYTE VAR_B 1) sp, LBU tp (SP_VAR_BYTE VAR_C 2) sp, ADD gp gp tp, LBU tp (SP_VAR_BYTE VAR_D 3) sp, ADD gp gp tp, SW gp (SP_VAR VAR_D) sp,
     LBU gp (SP_VAR_BYTE VAR_B 2) sp, LBU tp (SP_VAR_BYTE VAR_C 3) sp, ADD gp gp tp, SB gp (SP_VAR_BYTE VAR_D 1) sp,
     LBU gp (SP_VAR_BYTE VAR_B 3) sp, SB gp (SP_VAR_BYTE VAR_D 2) sp, LW gp (SP_VAR VAR_D) sp] @
    (if is_arith then m_la tp (sra8_table T - srl8_table T) @ [ADD s0 s0 tp] else []) @
    get_shift_byte_in_tp s0 3 @ [POP s0 1, ADD rd gp tp]"

definition m_srl :: "layout \<Rightarrow> nat \<Rightarrow> nat \<Rightarrow> nat \<Rightarrow> minirv list" where
  "m_srl T rd rs1 rs2 = [PUSH s0 1, SW rs1 (SP_VAR VAR_A) sp] @ shift_row T (srl8_table T) rs2 @ shift_right_body T rd False"

definition m_sra :: "layout \<Rightarrow> nat \<Rightarrow> nat \<Rightarrow> nat \<Rightarrow> minirv list" where
  "m_sra T rd rs1 rs2 = [PUSH s0 1, SW rs1 (SP_VAR VAR_A) sp] @ shift_row T (srl8_table T) rs2 @ shift_right_body T rd True"

definition m_srli :: "layout \<Rightarrow> nat \<Rightarrow> nat \<Rightarrow> nat \<Rightarrow> minirv list" where
  "m_srli T rd rs1 imm =
    (if imm = 24 then m_getbyte rd rs1 3
     else [PUSH s0 1, SW rs1 (SP_VAR VAR_A) sp] @ m_la s0 (srl8_table T + push_bit 10 (of_nat imm)) @ shift_right_body T rd False)"

definition m_srai :: "layout \<Rightarrow> nat \<Rightarrow> nat \<Rightarrow> nat \<Rightarrow> minirv list" where
  "m_srai T rd rs1 imm =
    (if imm = 24 then [SW rs1 (SP_VAR VAR_A) sp] @ m_la tp (sra8_table T + push_bit 10 (of_nat imm)) @
       [LBU rd (SP_VAR_BYTE VAR_A 3) sp] @ m_slli rd rd 2 @ [ADD tp tp rd, LW rd 0 tp]
     else [PUSH s0 1, SW rs1 (SP_VAR VAR_A) sp] @ m_la s0 (srl8_table T + push_bit 10 (of_nat imm)) @ shift_right_body T rd True)"

text \<open>\<^verbatim>\<open>def_itype\<close>.\<close>

definition m_slti :: "layout \<Rightarrow> nat \<Rightarrow> nat \<Rightarrow> u32 \<Rightarrow> minirv list" where "m_slti T rd rs1 imm = m_li tp imm @ m_slt T rd rs1 tp"
definition m_sltiu :: "layout \<Rightarrow> nat \<Rightarrow> nat \<Rightarrow> u32 \<Rightarrow> minirv list" where "m_sltiu T rd rs1 imm = m_li tp imm @ m_sltu T rd rs1 tp"
definition m_andi :: "layout \<Rightarrow> nat \<Rightarrow> nat \<Rightarrow> u32 \<Rightarrow> minirv list option" where "m_andi T rd rs1 imm = map_option ((@) (m_li tp imm)) (m_and T rd rs1 tp)"
definition m_ori :: "layout \<Rightarrow> nat \<Rightarrow> nat \<Rightarrow> u32 \<Rightarrow> minirv list option" where "m_ori T rd rs1 imm = map_option ((@) (m_li tp imm)) (m_or T rd rs1 tp)"
definition m_xori :: "layout \<Rightarrow> nat \<Rightarrow> nat \<Rightarrow> u32 \<Rightarrow> minirv list option" where "m_xori T rd rs1 imm = map_option ((@) (m_li tp imm)) (m_xor T rd rs1 tp)"

definition m_lb :: "layout \<Rightarrow> nat \<Rightarrow> u32 \<Rightarrow> nat \<Rightarrow> minirv list" where
  "m_lb T rd i a =
    [SW x0 (SP_VAR VAR_A) sp, LBU rd i a, SB rd (SP_VAR_BYTE VAR_A 3) sp, LW rd (SP_VAR VAR_A) sp] @ m_srai T rd rd 24"

definition m_lhu :: "nat \<Rightarrow> u32 \<Rightarrow> nat \<Rightarrow> minirv list" where
  "m_lhu rd i a =
    [SW x0 (SP_VAR VAR_A) sp, LBU tp (1 + i) a, SB tp (SP_VAR_BYTE VAR_A 1) sp, LW tp (SP_VAR VAR_A) sp, LBU rd (0 + i) a, ADD rd rd tp]"

definition m_lh :: "layout \<Rightarrow> nat \<Rightarrow> u32 \<Rightarrow> nat \<Rightarrow> minirv list" where
  "m_lh T rd i a =
    [SW x0 (SP_VAR VAR_A) sp, LBU gp (1 + i) a, SB gp (SP_VAR_BYTE VAR_A 3) sp, LW gp (SP_VAR VAR_A) sp] @ m_srai T gp gp 16 @
    [LBU rd (0 + i) a, ADD rd rd gp]"

definition m_snez :: "layout \<Rightarrow> nat \<Rightarrow> nat \<Rightarrow> minirv list" where "m_snez T rd rs = m_sltu T rd x0 rs"
definition m_sltz :: "nat \<Rightarrow> nat \<Rightarrow> minirv list" where "m_sltz rd rs = m_msb rd rs"
definition m_sgt :: "layout \<Rightarrow> nat \<Rightarrow> nat \<Rightarrow> nat \<Rightarrow> minirv list" where "m_sgt T rd rs1 rs2 = m_slt T rd rs2 rs1"
definition m_sgtu :: "layout \<Rightarrow> nat \<Rightarrow> nat \<Rightarrow> nat \<Rightarrow> minirv list" where "m_sgtu T rd rs1 rs2 = m_sltu T rd rs2 rs1"
definition m_sgtz :: "layout \<Rightarrow> nat \<Rightarrow> nat \<Rightarrow> minirv list" where "m_sgtz T rd rs = m_slt T rd x0 rs"

definition m_beqz :: "layout \<Rightarrow> nat \<Rightarrow> u32 \<Rightarrow> u32 \<Rightarrow> minirv list" where "m_beqz T rs t n = m_beq T rs x0 t n"
definition m_bnez :: "layout \<Rightarrow> nat \<Rightarrow> u32 \<Rightarrow> u32 \<Rightarrow> minirv list" where "m_bnez T rs t n = m_bne T rs x0 t n"
definition m_blez :: "layout \<Rightarrow> nat \<Rightarrow> u32 \<Rightarrow> u32 \<Rightarrow> minirv list" where "m_blez T rs t n = m_bge T x0 rs t n"
definition m_bgez :: "layout \<Rightarrow> nat \<Rightarrow> u32 \<Rightarrow> u32 \<Rightarrow> minirv list" where "m_bgez T rs t n = m_bge T rs x0 t n"
definition m_bltz :: "layout \<Rightarrow> nat \<Rightarrow> u32 \<Rightarrow> u32 \<Rightarrow> minirv list" where "m_bltz T rs t n = m_blt T rs x0 t n"
definition m_bgtz :: "layout \<Rightarrow> nat \<Rightarrow> u32 \<Rightarrow> u32 \<Rightarrow> minirv list" where "m_bgtz T rs t n = m_blt T x0 rs t n"
definition m_bgt :: "layout \<Rightarrow> nat \<Rightarrow> nat \<Rightarrow> u32 \<Rightarrow> u32 \<Rightarrow> minirv list" where "m_bgt T rs rt t n = m_blt T rt rs t n"
definition m_ble :: "layout \<Rightarrow> nat \<Rightarrow> nat \<Rightarrow> u32 \<Rightarrow> u32 \<Rightarrow> minirv list" where "m_ble T rs rt t n = m_bge T rt rs t n"
definition m_bgtu :: "layout \<Rightarrow> nat \<Rightarrow> nat \<Rightarrow> u32 \<Rightarrow> u32 \<Rightarrow> minirv list" where "m_bgtu T rs rt t n = m_bltu T rt rs t n"
definition m_bleu :: "layout \<Rightarrow> nat \<Rightarrow> nat \<Rightarrow> u32 \<Rightarrow> u32 \<Rightarrow> minirv list" where "m_bleu T rs rt t n = m_bgeu T rt rs t n"

end
