(* ===== verification/Minirv_Props.thy ===== *)
theory Minirv_Props
  imports Minirv
begin

text \<open>
  The macros of \<^theory_text>\<open>Minirv\<close> do what the instructions they replace do. The 28 bytes below the stack pointer are the scratch
  area of the macros; memory is split into this area and the rest, so that a proof runs the code on registers and on the
  bytes of the area, and the tables are found in the rest.
\<close>

section \<open>Bytes and words\<close>

lemma bit_byte: "bit (byte k w) n \<longleftrightarrow> n < 8 \<and> bit w (8 * k + n)"
  by (auto simp: byte_def bit_simps)

lemma bit_bytes4:
  "bit (bytes4 p q r s) n \<longleftrightarrow> (if n < 8 then bit p n else if n < 16 then bit q (n - 8)
     else if n < 24 then bit r (n - 16) else n < 32 \<and> bit s (n - 24))"
  by (auto simp: bytes4_def bit_simps dest: bit_imp_le_length)

lemma bytes4_byte [simp]: "bytes4 (byte 0 w) (byte (Suc 0) w) (byte 2 w) (byte 3 w) = w"
  by (rule bit_word_eqI) (auto simp: bit_bytes4 bit_byte)

lemma byte_bytes4 [simp]:
  "byte 0 (bytes4 p q r s) = p" "byte (Suc 0) (bytes4 p q r s) = q" "byte 2 (bytes4 p q r s) = r" "byte 3 (bytes4 p q r s) = s"
  by (rule bit_word_eqI, simp add: bit_bytes4 bit_byte)+

lemma byte_ucast [simp]: "byte 0 (ucast (v :: u8)) = v" "byte (Suc 0) (ucast (v :: u8)) = 0" "byte 2 (ucast (v :: u8)) = 0" "byte 3 (ucast (v :: u8)) = 0"
  by (rule bit_word_eqI, auto simp: bit_byte bit_simps dest: bit_imp_le_length)+

lemma byte_zero [simp]: "byte k 0 = 0"
  by (rule bit_word_eqI) (simp add: bit_byte)

lemma ucast_byte: "ucast (w :: u32) = byte 0 w"
  by (simp add: byte_def)

section \<open>The scratch area\<close>

definition in_area :: "u32 \<Rightarrow> u32 \<Rightarrow> bool" where
  "in_area b a \<longleftrightarrow> unat (a - b) < 28"

definition mix :: "u32 \<Rightarrow> (nat \<Rightarrow> u8) \<Rightarrow> bmem \<Rightarrow> bmem" where
  "mix b S R = (\<lambda>a. if in_area b a then S (unat (a - b)) else R a)"

definition loc :: "u32 \<Rightarrow> nat \<Rightarrow> u32" where
  "loc b n = b + of_nat n"

definition put :: "nat \<Rightarrow> u32 \<Rightarrow> (nat \<Rightarrow> u8) \<Rightarrow> nat \<Rightarrow> u8" where
  "put n w S = S(n := byte 0 w, n + 1 := byte 1 w, n + 2 := byte 2 w, n + 3 := byte 3 w)"

definition get :: "(nat \<Rightarrow> u8) \<Rightarrow> nat \<Rightarrow> u32" where
  "get S n = bytes4 (S n) (S (n + 1)) (S (n + 2)) (S (n + 3))"

lemma unat_loc: "n < 28 \<Longrightarrow> unat (loc b n - b) = n"
  by (simp add: loc_def unat_of_nat)

lemma loc_add [simp]: "loc b n + 1 = loc b (n + 1)" "loc b n + 2 = loc b (n + 2)" "loc b n + 3 = loc b (n + 3)"
  by (simp_all add: loc_def)

lemma loc_inj: "n < 28 \<Longrightarrow> unat (a - b) = n \<longleftrightarrow> a = loc b n"
proof
  assume "n < 28" "unat (a - b) = n"
  then have "a - b = of_nat n" by auto
  then show "a = loc b n" by (simp add: loc_def algebra_simps)
qed (simp add: unat_loc)

lemma mix_loc [simp]: "n < 28 \<Longrightarrow> mix b S R (loc b n) = S n"
  by (simp add: mix_def in_area_def unat_loc)

lemma mix_rest [simp]: "\<not> in_area b a \<Longrightarrow> mix b S R a = R a"
  by (simp add: mix_def)

lemma mix_upd [simp]: "n < 28 \<Longrightarrow> (mix b S R)(loc b n := v) = mix b (S(n := v)) R"
  by (rule ext) (auto simp: mix_def in_area_def unat_loc loc_inj)

lemma mix_upd_rest [simp]: "\<not> in_area b a \<Longrightarrow> (mix b S R)(a := v) = mix b S (R(a := v))"
  by (rule ext) (auto simp: mix_def)

lemma store_mix [simp]: "n < 25 \<Longrightarrow> store32 (loc b n) w (mix b S R) = mix b (put n w S) R"
  by (simp add: store32_def put_def)

lemma load_mix [simp]: "n < 25 \<Longrightarrow> load32 (mix b S R) (loc b n) = get S n"
  by (simp add: load32_def get_def)

lemma put_apply: "put n w S k = (if k = n then byte 0 w else if k = n + 1 then byte 1 w else if k = n + 2 then byte 2 w else if k = n + 3 then byte 3 w else S k)"
  by (simp add: put_def)

lemma get_put [simp]: "get (put n w S) n = w"
  by (simp add: get_def put_apply)

lemma get_put_other [simp]: "n + 4 \<le> k \<or> k + 4 \<le> n \<Longrightarrow> get (put n w S) k = get S k"
  by (auto simp: get_def put_apply)

lemma get_upd_other [simp]: "k < n \<or> n + 3 < k \<Longrightarrow> get (S(k := v)) n = get S n"
  by (auto simp: get_def)

lemma get_slots:
  "get S 0 = bytes4 (S 0) (S 1) (S 2) (S 3)" "get S 4 = bytes4 (S 4) (S 5) (S 6) (S 7)"
  "get S 8 = bytes4 (S 8) (S 9) (S 10) (S 11)" "get S 12 = bytes4 (S 12) (S 13) (S 14) (S 15)"
  by (simp_all add: get_def numeral_2_eq_2)

lemma sp_slot [simp]: "n \<le> 7 \<Longrightarrow> b + 28 + SP_VAR_BYTE n k = loc b (28 - 4 * n + k)"
  by (simp add: SP_VAR_BYTE_def loc_def of_nat_diff)

lemma sp_slot1 [simp]: "n \<le> 7 \<Longrightarrow> b + 28 + (1 + SP_VAR_BYTE n k) = loc b (28 - 4 * n + k + 1)"
  by (simp add: SP_VAR_BYTE_def loc_def of_nat_diff)

lemma sp_var [simp]: "n \<le> 7 \<Longrightarrow> b + 28 + SP_VAR n = loc b (28 - 4 * n)"
  by (simp add: SP_VAR_def)

section \<open>Running code\<close>

lemma run_simps [simp]:
  "run [] s = s" "run (c # code) s = run code (run1 c s)" "run (p @ q) s = run q (run p s)"
  by (simp_all add: run_def)

lemma rval_zero [simp]: "rval g 0 = 0" and rval_reg [simp]: "r \<noteq> 0 \<Longrightarrow> rval g r = g r"
  and wreg_zero [simp]: "wreg 0 v g = g" and wreg_reg [simp]: "r \<noteq> 0 \<Longrightarrow> wreg r v g = g(r := v)"
  by (simp_all add: rval_def wreg_def)

lemma upd_keep [simp]:
  "r \<noteq> q \<Longrightarrow> g(q := v, r := g r) = g(q := v)"
  "r \<noteq> q \<Longrightarrow> r \<noteq> p \<Longrightarrow> g(p := u, q := v, r := g r) = g(p := u, q := v)"
  by auto

lemma rval_other: "q \<noteq> r \<Longrightarrow> rval (g(r := v)) q = rval g q"
  by (simp add: rval_def)

lemma rval_upd: "rval (g(r := v)) q = (if q = 0 then 0 else if q = r then v else g q)"
  by (simp add: rval_def)

declare run1.simps(7) [simp del]

lemma run_SB [simp]: "run1 (SB r i a) (g, M) = (g, M(rval g a + i := byte 0 (rval g r)))"
  by (simp add: run1.simps(7) ucast_byte)

lemma signed_take_bit_shift: "signed_take_bit 11 (a :: u32) = take_bit 12 (a + 0x800) - 0x800"
proof -
  have "take_bit 12 (take_bit 32 k + 2048) = take_bit 12 (k + 2048)" for k :: int
    using take_bit_add [of 12 "take_bit 32 k" 2048] take_bit_add [of 12 k 2048] by (simp add: take_bit_take_bit)
  then show ?thesis by transfer (simp add: signed_take_bit_eq_take_bit_shift)
qed

lemma hi_lo: "push_bit 12 (hi20 a) + lo12 a = a"
  using bits_ident [of 12 "a + 0x800"] by (simp add: hi20_def lo12_def signed_take_bit_shift algebra_simps)

lemma run_la [simp]: "r \<noteq> 0 \<Longrightarrow> run (m_la r a) (g, M) = (g(r := a), M)"
  by (simp add: m_la_def hi_lo)

lemma run_mv [simp]: "rd \<noteq> 0 \<Longrightarrow> run (m_mv rd rs) (g, M) = (g(rd := rval g rs), M)"
  by (simp add: m_mv_def)

lemma run_doubles: "rd \<noteq> 0 \<Longrightarrow> run (replicate n (ADD rd rd rd)) (g, M) = (g(rd := push_bit n (g rd)), M)"
  by (induction n arbitrary: g) (simp_all add: push_bit_eq_mult algebra_simps)

lemma run_slli_small [simp]:
  "rd \<noteq> 0 \<Longrightarrow> run (slli_small rd rs n) (g, M) = (g(rd := push_bit n (rval g rs)), M)"
  by (cases n) (auto simp: slli_small_def run_doubles push_bit_eq_mult algebra_simps)

lemma run_slli_low [simp]:
  "rd \<noteq> 0 \<Longrightarrow> n < 16 \<Longrightarrow> run (m_slli rd rs n) (g, M) = (g(rd := push_bit n (rval g rs)), M)"
  by (cases "n = 0") (auto simp: m_slli_def)

lemma run_getbyte [simp]:
  assumes "g 2 = b + 28" "rd \<noteq> 0" "k < 4"
  shows "run (m_getbyte rd rs k) (g, mix b S R) = (g(rd := ucast (byte k (rval g rs))), mix b (put 4 (rval g rs) S) R)"
proof -
  have "k = 0 \<or> k = 1 \<or> k = 2 \<or> k = 3" using assms(3) by auto
  then show ?thesis using assms(1,2) by (auto simp: m_getbyte_def put_apply)
qed

definition sign :: "u32 \<Rightarrow> u32" where
  "sign w = of_bool (bit w 31)"

lemma sign_shift: "ucast (byte (Suc 0) (ucast (byte 3 w) * 2 :: u32)) = sign w"
proof -
  have "ucast (byte 3 w) * (2 :: u32) = push_bit 1 (ucast (byte 3 w))" by (simp only: push_bit_eq_mult power_one_right)
  then show ?thesis
    by (simp only:) (rule bit_word_eqI, auto simp: sign_def bit_byte bit_push_bit_iff bit_simps bit_1_iff simp del: push_bit_Suc push_bit_of_Suc_0)
qed

lemma run_msb [simp]:
  assumes "g 2 = b + 28" "rd \<noteq> 0" "rd \<noteq> 2"
  shows "run (m_msb rd rs) (g, mix b S R) = (g(rd := sign (rval g rs)), mix b (put 4 (ucast (byte 3 (rval g rs)) * 2) S) R)"
proof -
  have "put n w (put n v S) = put n w S" for n v w by (rule ext) (simp add: put_apply)
  then show ?thesis using assms by (simp add: m_msb_def sign_shift)
qed

section \<open>Tables\<close>

lemma length_concat_blocks: "(\<And>i. i < n \<Longrightarrow> length (h i) = c) \<Longrightarrow> length (concat (map h [0..<n])) = n * c"
  by (induction n) auto

lemma nth_concat_blocks:
  assumes "\<And>i. i < n \<Longrightarrow> length (h i) = c" "i < n" "k < c"
  shows "concat (map h [0..<n]) ! (i * c + k) = h i ! k"
  using assms
proof (induction n)
  case (Suc n)
  have l: "length (concat (map h [0..<n])) = n * c" by (rule length_concat_blocks) (simp add: Suc.prems(1))
  show ?case
  proof (cases "i < n")
    case True
    then have "i * c + k < n * c" using Suc.prems(3) by (metis add_less_cancel_left less_le_trans mult_Suc_right mult.commute mult_le_mono1 Suc_leI add.commute)
    then show ?thesis using Suc True by (simp add: nth_append l)
  next
    case False
    then have "i = n" using Suc.prems(2) by simp
    then show ?thesis by (simp add: nth_append l)
  qed
qed simp

lemma length_gen_table: "length (gen_table row col e f) = row * (col * e)"
  unfolding gen_table_def by (intro length_concat_blocks) simp

lemma nth_gen_table:
  assumes "j < row" "i < col" "k < e"
  shows "gen_table row col e f ! (j * (col * e) + (i * e + k)) = byte k (f j i)"
proof -
  have "i * e + k < col * e" using assms(2,3) by (metis add_less_cancel_left less_le_trans mult_Suc mult_le_mono1 Suc_leI add.commute)
  then show ?thesis unfolding gen_table_def
    using assms by (subst nth_concat_blocks [where c = "col * e"]) (simp_all add: length_concat_blocks nth_concat_blocks)
qed

definition table_at :: "u32 \<Rightarrow> bmem \<Rightarrow> u32 \<Rightarrow> u8 list \<Rightarrow> bool" where
  "table_at b R a xs \<longleftrightarrow> (\<forall>i < length xs. \<not> in_area b (a + of_nat i) \<and> R (a + of_nat i) = xs ! i)"

definition loaded :: "layout \<Rightarrow> u32 \<Rightarrow> bmem \<Rightarrow> bool" where
  "loaded T b R \<longleftrightarrow> table_at b R (lut T) lut_bin \<and>
     table_at b R (same_result_table T) [1, 0, 0, 0, 0, 0, 0, 0] \<and>
     table_at b R (check_8bit_0_table T) (0 # replicate 255 1) \<and>
     table_at b R (slt1_table T) [0, 1, 0, 0, 1, 1, 0, 1] \<and>
     table_at b R (sltu1_table T) [0, 1, 1, 1, 0, 0, 0, 1] \<and>
     table_at b R (or1_table T) [0, 1, 1, 1]"

lemma lut_parts:
  assumes "j < 256" "i < 256"
  shows "lut_bin ! (256 * j + i) = byte 0 (of_nat j AND of_nat i)"
    and "lut_bin ! (65536 + (256 * j + i)) = byte 0 (of_nat j OR of_nat i)"
    and "lut_bin ! (131072 + (256 * j + i)) = byte 0 (of_nat j XOR of_nat i)"
proof -
  note n = nth_gen_table [of j 256 i 256 0 1, simplified]
  have "256 * j + i < 65536" using assms by simp
  then show "lut_bin ! (256 * j + i) = byte 0 (of_nat j AND of_nat i)"
    "lut_bin ! (65536 + (256 * j + i)) = byte 0 (of_nat j OR of_nat i)"
    "lut_bin ! (131072 + (256 * j + i)) = byte 0 (of_nat j XOR of_nat i)"
    using assms n by (simp_all add: lut_bin_def nth_append length_gen_table mult.commute)
qed

lemma shift_parts:
  assumes "j < 32" "i < 256" "k < 4"
  shows "lut_bin ! (196608 + (1024 * j + 4 * i + k)) = byte k (push_bit j (of_nat i))"
    and "lut_bin ! (229376 + (1024 * j + 4 * i + k)) = byte k (drop_bit j (push_bit 24 (of_nat i)))"
    and "lut_bin ! (262144 + (1024 * j + 4 * i + k)) = byte k (signed_drop_bit j (push_bit 24 (of_nat i)))"
proof -
  have "1024 * j + 4 * i + k < 32768" using assms by simp
  then show "lut_bin ! (196608 + (1024 * j + 4 * i + k)) = byte k (push_bit j (of_nat i))"
    "lut_bin ! (229376 + (1024 * j + 4 * i + k)) = byte k (drop_bit j (push_bit 24 (of_nat i)))"
    "lut_bin ! (262144 + (1024 * j + 4 * i + k)) = byte k (signed_drop_bit j (push_bit 24 (of_nat i)))"
    using nth_gen_table [of j 32 i 256 k 4, simplified] assms
    by (simp_all add: lut_bin_def nth_append length_gen_table mult.commute add.assoc)
qed

lemma length_lut [simp]: "length lut_bin = 294912"
  by (simp add: lut_bin_def length_gen_table)

lemma table_read:
  "table_at b R a xs \<Longrightarrow> i < length xs \<Longrightarrow> mix b S R (a + of_nat i) = xs ! i"
  by (simp add: table_at_def)

lemma table_num [simp]:
  "table_at b R a xs \<Longrightarrow> numeral n < length xs \<Longrightarrow> mix b S R (a + numeral n) = xs ! numeral n"
  "table_at b R a xs \<Longrightarrow> 1 < length xs \<Longrightarrow> mix b S R (a + 1) = xs ! 1"
  "table_at b R a xs \<Longrightarrow> 0 < length xs \<Longrightarrow> mix b S R a = xs ! 0"
  using table_read [of b R a xs "numeral n" S] table_read [of b R a xs 1 S] table_read [of b R a xs 0 S] by simp_all

lemma of_nat_index: "of_nat (256 * unat p + unat q) = bytes4 q p 0 0" for p q :: u8
proof -
  have "of_nat (256 * unat p + unat q) = push_bit 8 (ucast p :: u32) + ucast q"
    by (simp add: push_bit_eq_mult)
  also have "\<dots> = push_bit 8 (ucast p) OR ucast q"
    by (rule disjunctive_add_eq_or) (rule bit_word_eqI, auto simp: bit_simps dest: bit_imp_le_length)
  finally show ?thesis by (simp add: bytes4_def or.commute)
qed

lemma byte_ops: "byte 0 (of_nat (unat p) AND of_nat (unat q)) = p AND q"
  "byte 0 (of_nat (unat p) OR of_nat (unat q)) = p OR q"
  "byte 0 (of_nat (unat p) XOR of_nat (unat q)) = p XOR q" for p q :: u8
  by (rule bit_word_eqI, simp add: bit_byte bit_simps)+

lemma logic_lookup [simp]:
  assumes "loaded T b R"
  shows "mix b S R (and8_table T + bytes4 q p 0 0) = p AND q"
    and "mix b S R (or8_table T + bytes4 q p 0 0) = p OR q"
    and "mix b S R (xor8_table T + bytes4 q p 0 0) = p XOR q"
proof -
  have t: "table_at b R (lut T) lut_bin" using assms by (simp add: loaded_def)
  have i: "unat p < 256" "unat q < 256" using unsigned_less [of p] unsigned_less [of q] by simp_all
  note r = table_read [OF t, of _ S] and l = lut_parts [OF i]
  show "mix b S R (and8_table T + bytes4 q p 0 0) = p AND q"
    using r [of "256 * unat p + unat q"] i l(1) by (simp only: of_nat_index byte_ops and8_table_def) simp
  have "mix b S R (lut T + of_nat (65536 + (256 * unat p + unat q))) = p OR q"
    using r [of "65536 + (256 * unat p + unat q)"] i l(2) by (simp only: byte_ops) simp
  then show "mix b S R (or8_table T + bytes4 q p 0 0) = p OR q"
    by (simp only: of_nat_add of_nat_index or8_table_def and8_table_def) (simp add: add.assoc flip: of_nat_index)
  have "mix b S R (lut T + of_nat (131072 + (256 * unat p + unat q))) = p XOR q"
    using r [of "131072 + (256 * unat p + unat q)"] i l(3) by (simp only: byte_ops) simp
  then show "mix b S R (xor8_table T + bytes4 q p 0 0) = p XOR q"
    by (simp only: of_nat_add of_nat_index or8_table_def and8_table_def xor8_table_def) (simp add: add.assoc flip: of_nat_index)
qed

lemma not_lookup [simp]:
  assumes "loaded T b R"
  shows "mix b S R (ucast q + (xor8_table T + 0xff00)) = NOT q"
proof -
  have "bytes4 q 0xff 0 0 = 0xff00 + ucast q" using of_nat_index [of "0xff" q] by simp
  then have e: "ucast q + (xor8_table T + 0xff00) = xor8_table T + bytes4 q 0xff 0 0" by (simp only: ac_simps)
  have m: "0xff = (- 1 :: u8)" by simp
  show ?thesis unfolding e logic_lookup(3) [OF assms] unfolding m by (rule bit_word_eqI) (simp add: bit_simps)
qed

lemma byte_NOT: "byte k (NOT w) = NOT (byte k w)" if "k < 4"
  using that by (intro bit_word_eqI) (auto simp: bit_byte bit_simps)

lemma bytes_put [simp]: "S(3 := byte 3 w, Suc (Suc 0) := byte 2 w, Suc 0 := byte (Suc 0) w, 0 := byte 0 w) = put 0 w S"
  by (rule ext) (simp add: put_apply)

lemma run_not [simp]:
  assumes "loaded T b R" "g 2 = b + 28" "rd \<noteq> 0" "rd \<noteq> 2"
  shows "run (m_not T rd rs) (g, mix b S R) =
    (g(4 := xor8_table T + 0xff00, rd := NOT (rval g rs)), mix b (put 0 (NOT (rval g rs)) (put 4 (rval g rs) (put 16 (g 3) S))) R)"
  using assms by (simp add: m_not_def not_byte_def PUSH_def POP_def put_apply flip: byte_NOT)
   
lemma run_sub [simp]:
  assumes "loaded T b R" "g 2 = b + 28" "rd \<noteq> 0" "rd \<noteq> 2" "rs1 \<noteq> 4"
  shows "run (m_sub T rd rs1 rs2) (g, mix b S R) =
    (g(4 := NOT (rval g rs2), rd := rval g rs1 - rval g rs2),
     mix b (put 0 (NOT (rval g rs2)) (put 4 (rval g rs2) (put 16 (g 3) S))) R)"
  using assms by (simp add: m_sub_def rval_upd diff_conv_add_uminus minus_eq_not_plus_1 ac_simps del: add_uminus_conv_diff)

section \<open>The effect of a macro\<close>

text \<open>
  After a macro for an instruction with destination \<^verbatim>\<open>rd\<close> the destination holds the value, every register but the two
  temporaries is as before, and so is memory outside the scratch area.
\<close>

definition rest :: "u32 \<Rightarrow> bmem \<Rightarrow> bmem" where
  "rest b M = (\<lambda>a. if in_area b a then 0 else M a)"

definition effect :: "nat \<Rightarrow> u32 \<Rightarrow> bmem \<Rightarrow> regs \<Rightarrow> regs \<times> bmem \<Rightarrow> bool" where
  "effect rd v R g s \<longleftrightarrow> fst s rd = v \<and> (\<forall>r. r \<notin> {gp, tp, rd} \<longrightarrow> fst s r = g r) \<and> rest (g sp - 28) (snd s) = rest (g sp - 28) R"

lemma rest_mix [simp]: "rest b (mix b S R) = rest b R"
  by (simp add: rest_def mix_def fun_eq_iff)

lemma mix_self: "mix b (\<lambda>n. M (loc b n)) M = M"
  by (rule ext) (auto simp: mix_def in_area_def loc_def)

lemma effect_mix: "g 2 = b + 28 \<Longrightarrow> (\<And>S. effect rd v M g (run code (g, mix b S M))) \<Longrightarrow> effect rd v M g (run code (g, M))"
  by (metis mix_self)

lemma effect_pair [simp]: "g 2 = b + 28 \<Longrightarrow> effect rd v R g (g', mix b S R) \<longleftrightarrow> g' rd = v \<and> (\<forall>r. r \<notin> {gp, tp, rd} \<longrightarrow> g' r = g r)"
  by (simp add: effect_def)

lemma slt_lookup:
  assumes "loaded T b R"
  shows "mix b S R (slt1_table T + (4 * sign x + sign y * 2 + sign z)) = [0, 1, 0, 0, 1, 1, 0, 1] ! (of_bool (bit x 31) * 4 + of_bool (bit y 31) * 2 + of_bool (bit z 31))"
    and "mix b S R (sltu1_table T + (4 * sign x + sign y * 2 + sign z)) = [0, 1, 1, 1, 0, 0, 0, 1] ! (of_bool (bit x 31) * 4 + of_bool (bit y 31) * 2 + of_bool (bit z 31))"
  using assms by (auto simp: sign_def loaded_def)

lemma bit31: "bit w 31 \<longleftrightarrow> \<not> uint w < 2 ^ 31" for w :: u32
  using bit_last_iff [of w] uint_lt2p [of w] by (simp add: sint_u32 split: if_splits)

lemma slt_value:
  "[0, 1, 0, 0, 1, 1, 0, 1 :: u8] ! (of_bool (bit x 31) * 4 + of_bool (bit y 31) * 2 + of_bool (bit (x - y) 31)) = of_bool (sint x < sint y)"
  "[0, 1, 1, 1, 0, 0, 0, 1 :: u8] ! (of_bool (bit x 31) * 4 + of_bool (bit y 31) * 2 + of_bool (bit (x - y) 31)) = of_bool (x < y)" for x y :: u32
proof -
  obtain p q where "uint x = p" "uint y = q" "0 \<le> p" "0 \<le> q" "p < 2 ^ 32" "q < 2 ^ 32"
    using uint_lt2p [of x] uint_lt2p [of y] by force
  then show "[0, 1, 0, 0, 1, 1, 0, 1 :: u8] ! (of_bool (bit x 31) * 4 + of_bool (bit y 31) * 2 + of_bool (bit (x - y) 31)) = of_bool (sint x < sint y)"
    "[0, 1, 1, 1, 0, 0, 0, 1 :: u8] ! (of_bool (bit x 31) * 4 + of_bool (bit y 31) * 2 + of_bool (bit (x - y) 31)) = of_bool (x < y)"
    by (auto simp: sint_u32 bit31 uint_sub_if' word_less_def)
qed

lemma run_slt:
  assumes "loaded T b R" "g 2 = b + 28" "rd \<noteq> 0" "rd \<noteq> 2"
  shows "effect rd (of_bool (sint (rval g rs1) < sint (rval g rs2))) R g (run (m_slt T rd rs1 rs2) (g, mix b S R))"
    and "effect rd (of_bool (rval g rs1 < rval g rs2)) R g (run (m_sltu T rd rs1 rs2) (g, mix b S R))"
  using assms by (simp_all add: m_slt_def m_sltu_def m_slt_template_def rval_upd PUSH_def POP_def slt_lookup slt_value)

section \<open>Bitwise operations\<close>

lemma logic_bytes:
  "bytes4 (byte 0 x AND byte 0 y) (byte (Suc 0) x AND byte (Suc 0) y) (byte 2 x AND byte 2 y) (byte 3 x AND byte 3 y) = x AND y"
  "bytes4 (byte 0 x OR byte 0 y) (byte (Suc 0) x OR byte (Suc 0) y) (byte 2 x OR byte 2 y) (byte 3 x OR byte 3 y) = x OR y"
  "bytes4 (byte 0 x XOR byte 0 y) (byte (Suc 0) x XOR byte (Suc 0) y) (byte 2 x XOR byte 2 y) (byte 3 x XOR byte 3 y) = x XOR y"
  by (rule bit_word_eqI, auto simp: bit_bytes4 bit_byte bit_simps)+

lemma run_logic_byte:
  assumes "\<And>p q S. mix b S R (t + bytes4 q p 0 0) = f p q" "g 2 = b + 28" "k < 4" "rd \<noteq> 0" "rd \<noteq> 4" "g rd = t" "S 2 = 0" "S 3 = 0"
  shows "run (logic8_byte_internal rd k) (g, mix b S R) =
    (g(4 := ucast (f (S (12 + k)) (S (8 + k)))), mix b (S(1 := S (12 + k), 0 := S (8 + k), 4 + k := f (S (12 + k)) (S (8 + k)))) R)"
  using assms by (simp add: logic8_byte_internal_def get_slots)

lemma run_logic:
  assumes "\<And>p q S. mix b S R (t + bytes4 q p 0 0) = f p q" "g 2 = b + 28" "rd \<noteq> 0" "rd \<noteq> 2" "rd \<noteq> 3" "rd \<noteq> 4"
    "rs1 \<notin> {2, 3, 4}" "rs2 \<notin> {2, 3}"
  shows "\<exists>code. m_logic t rd rs1 rs2 = Some code \<and> effect rd (bytes4 (f (byte 0 (rval g rs1)) (byte 0 (rval g rs2)))
     (f (byte (Suc 0) (rval g rs1)) (byte (Suc 0) (rval g rs2))) (f (byte 2 (rval g rs1)) (byte 2 (rval g rs2)))
     (f (byte 3 (rval g rs1)) (byte 3 (rval g rs2)))) R g (run code (g, mix b S R))"
  using assms by (simp add: m_logic_def run_logic_byte [OF assms(1)] put_apply rval_upd get_slots)

section \<open>Equality tests\<close>

lemma byte_one [simp]: "byte 0 1 = 1"
  by (simp add: byte_def)

lemma zero_lookup [simp]:
  assumes "loaded T b R"
  shows "mix b S R (check_8bit_0_table T + ucast (q :: u8)) = of_bool (q \<noteq> 0)"
proof -
  have i: "unat q < 256" using unsigned_less [of q] by simp
  have "mix b S R (check_8bit_0_table T + of_nat (unat q)) = (0 # replicate 255 1) ! unat q"
    using i assms by (intro table_read) (simp_all add: loaded_def)
  also have "\<dots> = of_bool (q \<noteq> 0)" using i by (auto simp: nth_Cons' unat_eq_0)
  finally show ?thesis by simp
qed

lemma same_lookup:
  assumes "table_at b R t [1, 0, 0, 0, 0, 0, 0, 0]"
  shows "mix b S R (t + (of_bool c0 + of_bool c1 + of_bool c2 + of_bool c3)) = of_bool (\<not> c0 \<and> \<not> c1 \<and> \<not> c2 \<and> \<not> c3)"
  using assms by (cases c0; cases c1; cases c2; cases c3) simp_all

lemma bytes_zero: "byte 0 w = 0 \<and> byte (Suc 0) w = 0 \<and> byte 2 w = 0 \<and> byte 3 w = 0 \<longleftrightarrow> w = 0"
  by (metis bytes4_byte byte_zero)

lemma run_seqz:
  assumes "loaded T b R" "g 2 = b + 28" "rd \<noteq> 0" "rd \<noteq> 2" "rd \<noteq> 8"
  shows "effect rd (of_bool (rval g rs = 0)) R g (run (m_seqz T rd rs) (g, mix b S R))"
proof -
  have "table_at b R (same_result_table T) [1, 0, 0, 0, 0, 0, 0, 0]" using assms(1) by (simp add: loaded_def)
  then show ?thesis
    using assms bytes_zero [of "rval g rs"] by (auto simp: m_seqz_def check_8bit_0_def rval_upd PUSH_def POP_def put_apply)
qed

definition array_ok :: "layout \<Rightarrow> u32 \<Rightarrow> bool" where
  "array_ok T b \<longleftrightarrow> (\<forall>i < 256. \<not> in_area b (check_same_array T + of_nat i)) \<and>
     (\<forall>i < 256. \<forall>j < 8. check_same_array T + of_nat i \<noteq> same_result_table T + of_nat j)"

lemma array_rest: "array_ok T b \<Longrightarrow> \<not> in_area b (check_same_array T + ucast p)" for p :: u8
  using unsigned_less [of p] by (force simp: array_ok_def dest: spec [of _ "unat p"])

definition marked :: "u32 \<Rightarrow> u8 \<Rightarrow> u8 \<Rightarrow> bmem \<Rightarrow> bmem" where
  "marked arr p q R = R(arr + ucast p := 1, arr + ucast q := 0)"

lemma run_check_same:
  assumes "\<And>p :: u8. \<not> in_area b (arr + ucast p)" "g 2 = b + 28" "g 8 = arr" "k < 4" "rd \<notin> {0, 2, 4, 8}"
  shows "run (check_8bit_same 8 rd k) (g, mix b S R) =
    (g(4 := arr + ucast (S (12 + k)), rd := of_bool (S (12 + k) \<noteq> S (8 + k))), mix b S (marked arr (S (12 + k)) (S (8 + k)) R))"
proof -
  have "(ucast p :: u32) = ucast q \<longleftrightarrow> p = q" for p q :: u8 by (metis byte_ucast(1))
  then show ?thesis using assms by (simp add: check_8bit_same_def marked_def)
qed

lemma marked_table [simp]:
  assumes "table_at b R (same_result_table T) xs" "array_ok T b" "length xs \<le> 8"
  shows "table_at b (marked (check_same_array T) p q R) (same_result_table T) xs"
proof -
  have "same_result_table T + of_nat j \<noteq> check_same_array T + ucast p" if "j < length xs" for p :: u8 and j
  proof -
    have "unat p < 256" using unsigned_less [of p] by simp
    then have "check_same_array T + of_nat (unat p) \<noteq> same_result_table T + of_nat j"
      using assms(2,3) that unfolding array_ok_def by (meson less_le_trans)
    then show ?thesis by simp
  qed
  then show ?thesis using assms(1) by (simp add: table_at_def marked_def)
qed

lemma marked_rest:
  assumes "\<forall>i < 256. a \<noteq> arr + of_nat i"
  shows "marked arr p q R a = R a"
proof -
  have "unat r < 256" for r :: u8 using unsigned_less [of r] by simp
  then have "a \<noteq> arr + of_nat (unat r)" for r :: u8 using assms by blast
  then show ?thesis by (simp add: marked_def)
qed

lemma ucast_of_bool: "ucast (of_bool c :: u8) = of_bool c"
  by simp

lemma bytes_same: "byte 0 x = byte 0 y \<and> byte (Suc 0) x = byte (Suc 0) y \<and> byte 2 x = byte 2 y \<and> byte 3 x = byte 3 y \<longleftrightarrow> x = y"
  by (metis bytes4_byte)

lemma run_seq:
  fixes rs1 rs2 :: nat and g :: regs
  assumes "loaded T b R" "array_ok T b" "g 2 = b + 28"
  defines "x \<equiv> rval g rs1" and "y \<equiv> rval g rs2"
  shows "run (m_seq T 4 rs1 rs2) (g, mix b S R) =
    (g(3 := of_bool (byte 0 x \<noteq> byte 0 y) + of_bool (byte (Suc 0) x \<noteq> byte (Suc 0) y) + of_bool (byte 2 x \<noteq> byte 2 y) + of_bool (byte 3 x \<noteq> byte 3 y),
       4 := of_bool (x = y)), 
     mix b (put 20 (g 9) (put 24 (g 8) (put 8 y (put 12 x S))))
       (marked (check_same_array T) (byte 3 x) (byte 3 y) (marked (check_same_array T) (byte 2 x) (byte 2 y)
         (marked (check_same_array T) (byte 1 x) (byte 1 y) (marked (check_same_array T) (byte 0 x) (byte 0 y) R)))))"
proof -
  have "table_at b R (same_result_table T) [1, 0, 0, 0, 0, 0, 0, 0]" using assms(1) by (simp add: loaded_def)
  then show ?thesis
    using assms by (simp add: m_seq_def run_check_same [OF array_rest [OF assms(2)]] rval_upd PUSH_def POP_def put_apply
       same_lookup bytes_same ucast_of_bool x_def y_def split del: split_of_bool)
qed

section \<open>Branches\<close>

fun straight :: "minirv list \<Rightarrow> bool" where
  "straight [] = True"
| "straight (JALR rd a i # code) = False"
| "straight (c # code) = straight code"

lemma exec_append: "straight p \<Longrightarrow> exec (p @ q) pc s = exec q (pc + 4 * of_nat (length p)) (run p s)"
proof (induction p arbitrary: pc s)
  case (Cons c p)
  obtain g M where "s = (g, M)" by fastforce
  with Cons show ?case by (cases c) (simp_all add: algebra_simps)
qed simp

lemma straight_append [simp]: "straight (p @ q) \<longleftrightarrow> straight p \<and> straight q"
  by (induction p rule: straight.induct) auto

lemma straight_doubles [simp]: "straight (replicate n (ADD a c d))"
  by (induction n) auto

lemmas macro_defs = m_la_def m_mv_def m_getbyte_def m_msb_def m_slli_def slli_small_def m_sh_def not_byte_def m_not_def m_sub_def
  PUSH_def POP_def

lemma straight_tests [simp]:
  "straight (m_msb rd rs)" "straight (m_la rd v)" "straight (m_slt T rd rs1 rs2)" "straight (m_sltu T rd rs1 rs2)"
  "straight (m_seq T rd rs1 rs2)" "straight (m_seqz T rd rs)" "straight (le0_test T rs)" "n < 16 \<Longrightarrow> straight (m_slli rd rs n)"
  by (simp_all add: macro_defs m_slt_def m_sltu_def m_slt_template_def m_seq_def m_seqz_def check_8bit_same_def check_8bit_0_def le0_test_def)

lemma run_branch_resolve:
  assumes "g 2 = b + 28" "g 4 = of_bool c"
  shows "exec (branch_resolve target hi next) pc (g, mix b S R) =
    ((if c = hi then target else next) AND NOT 1, g(3 := if hi then next else target, 4 := if c = hi then target else next),
     mix b (put 8 (if hi then next else target) (put 12 (if hi then target else next) S)) R)"
proof -
  have l: "4 + (b + 28) + SP_VAR 5 = loc b 12" by (simp add: SP_VAR_def SP_VAR_BYTE_def loc_def)
  show ?thesis using assms l
    by (cases c; cases hi) (simp_all add: branch_resolve_def m_jr_def exec_append)
qed

text \<open>A branch goes to one of its two addresses and keeps every register but the temporaries, and memory outside the scratch area and the array.\<close>

definition branches :: "layout \<Rightarrow> u32 \<Rightarrow> bmem \<Rightarrow> regs \<Rightarrow> u32 \<times> regs \<times> bmem \<Rightarrow> bool" where
  "branches T pc' M g = (\<lambda>(pc, g', M'). pc = pc' \<and> (\<forall>r. r \<notin> {gp, tp} \<longrightarrow> g' r = g r) \<and>
     (\<forall>a. \<not> in_area (g sp - 28) a \<and> (\<forall>i < 256. a \<noteq> check_same_array T + of_nat i) \<longrightarrow> M' a = M a))"

lemma branch_after_test:
  assumes "straight test" "run test (g, M) = (g', mix b S' R')" "g 2 = b + 28" "g' 4 = of_bool c" "\<And>r. r \<notin> {3, 4} \<Longrightarrow> g' r = g r"
    "\<And>a. \<not> in_area b a \<Longrightarrow> (\<forall>i < 256. a \<noteq> check_same_array T + of_nat i) \<Longrightarrow> R' a = M a"
    "target AND NOT 1 = target" "next AND NOT 1 = next"
  shows "branches T (if c = hi then target else next) M g (exec (test @ branch_resolve target hi next) pc (g, M))"
  using assms by (simp add: exec_append run_branch_resolve branches_def)

lemma rest_eq_mix: "rest b M' = rest b R \<Longrightarrow> M' = mix b (\<lambda>n. M' (loc b n)) R"
  by (rule ext) (metis (mono_tags) mix_def mix_self rest_def)

lemma branch_after_effect:
  assumes "straight test" "effect 4 (of_bool c) M g (run test (g, M))" "g 2 = b + 28" "target AND NOT 1 = target" "next AND NOT 1 = next"
  shows "branches T (if c = hi then target else next) M g (exec (test @ branch_resolve target hi next) pc (g, M))"
proof -
  obtain g' M' where r: "run test (g, M) = (g', M')" by fastforce
  with assms(2,3) have e: "g' 4 = of_bool c" "\<And>r. r \<notin> {3, 4} \<Longrightarrow> g' r = g r" "rest b M' = rest b M" by (auto simp: effect_def)
  then have "run test (g, M) = (g', mix b (\<lambda>n. M' (loc b n)) M)" using r rest_eq_mix [OF e(3)] by simp
  from branch_after_test [OF assms(1) this assms(3) e(1,2) _ assms(4,5)] show ?thesis by simp
qed

lemma or_lookup:
  assumes "loaded T b R"
  shows "mix b S R (sign x + sign y + or1_table T) = of_bool (bit x 31 \<or> bit y 31)"
proof -
  have "table_at b R (or1_table T) [0, 1, 1, 1]" using assms by (simp add: loaded_def)
  then show ?thesis by (simp add: sign_def add.commute [of _ "or1_table T"])
qed

lemma le0_value: "bit x 31 \<or> bit (x - 1) 31 \<longleftrightarrow> sint x \<le> 0" for x :: u32
proof -
  obtain p where "uint x = p" "0 \<le> p" "p < 2 ^ 32" using uint_lt2p [of x] by force
  then show ?thesis by (auto simp: bit31 sint_u32 uint_sub_if')
qed

lemma run_le0:
  assumes "loaded T b R" "g 2 = b + 28" "rs \<noteq> 3"
  shows "effect 4 (of_bool (sint (rval g rs) \<le> 0)) R g (run (le0_test T rs) (g, mix b S R))"
  using assms by (simp add: le0_test_def rval_upd or_lookup le0_value)

datatype cond = EQ | NE | LT | GE | LTU | GEU

fun taken :: "cond \<Rightarrow> u32 \<Rightarrow> u32 \<Rightarrow> bool" where
  "taken EQ x y = (x = y)"
| "taken NE x y = (x \<noteq> y)"
| "taken LT x y = (sint x < sint y)"
| "taken GE x y = (sint y \<le> sint x)"
| "taken LTU x y = (x < y)"
| "taken GEU x y = (y \<le> x)"

fun branch_code :: "cond \<Rightarrow> layout \<Rightarrow> nat \<Rightarrow> nat \<Rightarrow> u32 \<Rightarrow> u32 \<Rightarrow> minirv list" where
  "branch_code EQ = m_beq"
| "branch_code NE = m_bne"
| "branch_code LT = m_blt"
| "branch_code GE = m_bge"
| "branch_code LTU = m_bltu"
| "branch_code GEU = m_bgeu"

lemma branch_eq:
  assumes "loaded T b M" "array_ok T b" "g 2 = b + 28" "target AND NOT 1 = target" "next AND NOT 1 = next"
  shows "branches T (if (rval g rs1 = rval g rs2) = hi then target else next) M g
    (exec (beq_test T rs1 rs2 @ branch_resolve target hi next) pc (g, M))"
proof -
  have z: "branches T (if (rval g rs = 0) = hi then target else next) M g (exec (m_seqz T 4 rs @ branch_resolve target hi next) pc (g, M))" for rs
    using assms by (intro branch_after_effect effect_mix [of g b, OF assms(3)] run_seqz) simp_all
  have q: "branches T (if (rval g rs1 = rval g rs2) = hi then target else next) M g (exec (m_seq T 4 rs1 rs2 @ branch_resolve target hi next) pc (g, M))"
    by (rule branch_after_test [OF _ run_seq [of T b M g rs1 rs2 "\<lambda>n. M (loc b n)", OF assms(1-3), unfolded mix_self] assms(3)])
      (use assms(4,5) in \<open>simp_all add: marked_rest\<close>)
  consider "rs2 = 0" | "rs2 \<noteq> 0" "rs1 = 0" | "rs2 \<noteq> 0" "rs1 \<noteq> 0" by blast
  then show ?thesis
  proof cases
    case 1
    then show ?thesis using z [of rs1] by (simp only: beq_test_def if_True rval_zero refl)
  next
    case 2
    then have "(rval g rs1 = rval g rs2) = (rval g rs2 = 0)" by auto
    then show ?thesis using z [of rs2] 2 by (simp only: beq_test_def if_True if_False refl)
  next
    case 3
    then show ?thesis using q by (simp only: beq_test_def if_False)
  qed
qed

lemma branches_ok:
  assumes "loaded T b M" "array_ok T b" "g 2 = b + 28" "target AND NOT 1 = target" "next AND NOT 1 = next"
    "rs1 \<notin> {2, 3, 4}" "rs2 \<notin> {2, 3, 4}"
  shows "branches T (if taken c (rval g rs1) (rval g rs2) then target else next) M g (exec (branch_code c T rs1 rs2 target next) pc (g, M))"
proof -
  note after = branch_after_effect [of _ _ M g b, OF _ effect_mix [of g b, OF assms(3)] assms(3-5)]
  have s: "sign x = of_bool (sint x < 0)" for x using bit_last_iff [of x] by (simp add: sign_def)
  have m: "branches T (if sint (rval g rs1) < 0 then target else next) M g (exec (m_msb 4 rs1 @ branch_resolve target True next) pc (g, M))"
    using after [where hi = True and test = "m_msb 4 rs1" and c = "sint (rval g rs1) < 0"] assms by (simp add: s)
  have l: "branches T (if (sint (rval g rs2) \<le> 0) = hi then target else next) M g (exec (le0_test T rs2 @ branch_resolve target hi next) pc (g, M))" for hi
    using assms by (intro after run_le0) auto
  have t: "branches T (if (sint (rval g rs1) < sint (rval g rs2)) = hi then target else next) M g (exec (m_slt T 4 rs1 rs2 @ branch_resolve target hi next) pc (g, M))"
    "branches T (if (rval g rs1 < rval g rs2) = hi then target else next) M g (exec (m_sltu T 4 rs1 rs2 @ branch_resolve target hi next) pc (g, M))" for hi
    using assms by (intro after run_slt; simp)+
  show ?thesis
    using branch_eq [of T b M g target "next" rs1 rs2 True pc, OF assms(1-5)] branch_eq [of T b M g target "next" rs1 rs2 False pc, OF assms(1-5)] m l [of True] l [of False] t [of True] t [of False]
    by (cases c) (auto simp: m_beq_def m_bne_def m_blt_def m_bge_def m_bltu_def m_bgeu_def not_less not_le split: if_splits)
qed

section \<open>Shifts\<close>

lemma table_word:
  assumes "table_at b R a xs" "n + 3 < length xs"
  shows "load32 (mix b S R) (a + of_nat n) = bytes4 (xs ! n) (xs ! (n + 1)) (xs ! (n + 2)) (xs ! (n + 3))"
  using table_read [OF assms(1), of n S] table_read [OF assms(1), of "n + 1" S] table_read [OF assms(1), of "n + 2" S]
    table_read [OF assms(1), of "n + 3" S] assms(2)
  by (simp add: load32_def ac_simps)

text \<open>The row of a table for the shift amount \<open>j\<close>.\<close>

definition row :: "u32 \<Rightarrow> nat \<Rightarrow> u32" where
  "row t j = t + of_nat (1024 * j)"

lemma shift_lookup:
  assumes "loaded T b R" "j < 32"
  shows "load32 (mix b S R) (row (sll8_table T) j + ucast q * 4) = push_bit j (ucast (q :: u8))"
    and "load32 (mix b S R) (row (srl8_table T) j + ucast q * 4) = drop_bit j (push_bit 24 (ucast q))"
    and "load32 (mix b S R) (row (sra8_table T) j + ucast q * 4) = signed_drop_bit j (push_bit 24 (ucast q))"
proof -
  have t: "table_at b R (lut T) lut_bin" using assms by (simp add: loaded_def)
  have q: "unat q < 256" using unsigned_less [of q] by simp
  have a: "lut T + of_nat (n + (1024 * j + 4 * unat q)) = lut T + of_nat n + of_nat (1024 * j) + ucast q * 4" for n
    by simp
  have w: "load32 (mix b S R) (lut T + of_nat n + of_nat (1024 * j) + ucast q * 4) = v"
    if "\<And>k. k < 4 \<Longrightarrow> lut_bin ! (n + (1024 * j + 4 * unat q + k)) = byte k v" "n \<le> 262144" for n v
    using table_word [OF t, of "n + (1024 * j + 4 * unat q)" S] that(1) [of 0] that(1) [of 1] that(1) [of 2] that(1) [of 3] that(2) q assms(2)
    unfolding a by (simp add: add.assoc)
  note p = shift_parts [OF assms(2) q]
  have l: "sll8_table T = lut T + of_nat 196608" "srl8_table T = lut T + of_nat 229376" "sra8_table T = lut T + of_nat 262144"
    by (simp_all add: sra8_table_def srl8_table_def sll8_table_def xor8_table_def or8_table_def and8_table_def)
  show "load32 (mix b S R) (row (sll8_table T) j + ucast q * 4) = push_bit j (ucast q)"
    unfolding row_def l by (rule w) (use p(1) in simp_all)
  show "load32 (mix b S R) (row (srl8_table T) j + ucast q * 4) = drop_bit j (push_bit 24 (ucast q))"
    unfolding row_def l by (rule w) (use p(2) in simp_all)
  show "load32 (mix b S R) (row (sra8_table T) j + ucast q * 4) = signed_drop_bit j (push_bit 24 (ucast q))"
    unfolding row_def l by (rule w) (use p(3) in simp_all)
qed

lemma run_get_shift_byte:
  assumes "loaded T b R" "g 2 = b + 28" "j < 32" "k < 4"
  shows "g 8 = row (sll8_table T) j \<Longrightarrow> run (get_shift_byte_in_tp 8 k) (g, mix b S R) = (g(4 := push_bit j (ucast (S (12 + k)))), mix b S R)"
    and "g 8 = row (srl8_table T) j \<Longrightarrow> run (get_shift_byte_in_tp 8 k) (g, mix b S R) = (g(4 := drop_bit j (push_bit 24 (ucast (S (12 + k))))), mix b S R)"
    and "g 8 = row (sra8_table T) j \<Longrightarrow> run (get_shift_byte_in_tp 8 k) (g, mix b S R) = (g(4 := signed_drop_bit j (push_bit 24 (ucast (S (12 + k))))), mix b S R)"
  using assms(2,4) by (simp_all add: get_shift_byte_in_tp_def shift_lookup [OF assms(1,3)] push_bit_eq_mult [of 2])

lemma mask_lookup [simp]:
  assumes "loaded T b R"
  shows "mix b S R (ucast q + (and8_table T + 0x1f00)) = 0x1f AND q"
proof -
  have "bytes4 q 0x1f 0 0 = 0x1f00 + ucast q" using of_nat_index [of "0x1f" q] by simp
  then have e: "ucast q + (and8_table T + 0x1f00) = and8_table T + bytes4 q 0x1f 0 0" by (simp only: ac_simps)
  show ?thesis unfolding e logic_lookup(1) [OF assms] ..
qed

definition shamt :: "u32 \<Rightarrow> nat" where
  "shamt y = unat y mod 32"

lemma shamt_less [simp]: "shamt y < 32"
  by (simp add: shamt_def)

lemma unat_shamt: "unat (0x1f AND byte 0 y) = shamt y"
proof -
  have m: "0x1f AND w = take_bit 5 w" for w :: u8
    by (simp add: take_bit_eq_mask and.commute mask_numeral)
  have "unat (byte 0 y) = unat y mod 256" by (simp add: byte_def unsigned_ucast_eq take_bit_eq_mod)
  then show ?thesis by (simp add: m unat_take_bit shamt_def mod_mod_cancel)
qed

lemma row_offset: "push_bit 2 (bytes4 0 (0x1f AND byte 0 y) 0 0) + t = row t (shamt y)"
proof -
  have "bytes4 0 (0x1f AND byte 0 y) 0 0 = of_nat (256 * shamt y)"
    using of_nat_index [of "0x1f AND byte 0 y" 0] by (simp only: unat_shamt) simp
  then show ?thesis by (simp add: row_def push_bit_eq_mult)
qed

lemma run_shift_row [simp]:
  assumes "loaded T b R" "g 2 = b + 28"
  shows "run (shift_row T t rs) (g, mix b S R) =
    (g(4 := t, 8 := row t (shamt (rval g rs))), mix b ((put 8 0 (S(8 := byte 0 (rval g rs)))) (9 := 0x1f AND byte 0 (rval g rs))) R)"
  using assms by (simp add: shift_row_def m_getshamt_def rval_upd put_apply get_slots row_offset)

lemma bytes4_sum: "x = push_bit 24 (ucast (byte 3 x)) + push_bit 16 (ucast (byte 2 x)) + push_bit 8 (ucast (byte (Suc 0) x)) + ucast (byte 0 x)"
proof -
  let ?a = "push_bit 24 (ucast (byte 3 x)) :: u32" and ?c = "push_bit 16 (ucast (byte 2 x)) :: u32"
  let ?d = "push_bit 8 (ucast (byte (Suc 0) x)) :: u32" and ?e = "ucast (byte 0 x) :: u32"
  have "?a + ?c = ?a OR ?c" by (rule disjunctive_add_eq_or, rule bit_word_eqI) (auto simp: bit_simps bit_byte)
  moreover have "(?a OR ?c) + ?d = ?a OR ?c OR ?d" by (simp only: or.assoc [symmetric], rule disjunctive_add_eq_or, rule bit_word_eqI) (auto simp: bit_simps bit_byte)
  moreover have "(?a OR ?c OR ?d) + ?e = ?a OR ?c OR ?d OR ?e" by (simp only: or.assoc [symmetric], rule disjunctive_add_eq_or, rule bit_word_eqI) (auto simp: bit_simps bit_byte)
  moreover have "?a OR ?c OR ?d OR ?e = x" using bytes4_byte [of x] unfolding bytes4_def by (simp only: ac_simps)
  ultimately show ?thesis by simp
qed

lemma sll_value:
  "bytes4 0 0 0 (byte 0 (push_bit j (ucast (byte 3 x)))) +
   bytes4 0 0 (byte 0 (push_bit j (ucast (byte 2 x)))) (byte (Suc 0) (push_bit j (ucast (byte 2 x)))) +
   push_bit (8 + j) (ucast (byte (Suc 0) x)) + push_bit j (ucast (byte 0 x)) = push_bit j x"
proof -
  have "bytes4 0 0 0 (byte 0 w) = push_bit 24 w" "bytes4 0 0 (byte 0 w) (byte (Suc 0) w) = push_bit 16 w" for w
    by (rule bit_word_eqI, auto simp: bit_bytes4 bit_byte bit_simps)+
  then show ?thesis
    by (subst (5) bytes4_sum [of x]) (simp add: push_bit_add push_bit_push_bit add.commute)
qed

lemma run_sll:
  assumes "loaded T b R" "g 2 = b + 28" "rd \<noteq> 0" "rd \<noteq> 2"
  shows "effect rd (push_bit (shamt (rval g rs2)) (rval g rs1)) R g (run (m_sll T rd rs1 rs2) (g, mix b S R))"
  using assms by (simp add: m_sll_def run_get_shift_byte(1) [where j = "shamt (rval g rs2)"] m_sh_def rval_upd put_apply get_slots sll_value PUSH_def POP_def)

text \<open>A byte of the operand as the table of right shifts holds it: shifted from the highest byte.\<close>

definition part :: "nat \<Rightarrow> nat \<Rightarrow> u32 \<Rightarrow> u32" where
  "part j i x = drop_bit j (push_bit 24 (ucast (byte i x)))"

lemma bit_part: "bit (byte k (part j i x)) n \<longleftrightarrow>
    n < 8 \<and> 24 \<le> 8 * k + n + j \<and> 8 * k + n + j < 32 \<and> bit x (8 * i + (8 * k + n + j - 24))"
  by (auto simp: part_def bit_byte bit_simps ac_simps)

lemma add_disjoint: "(\<And>n. n < 8 \<Longrightarrow> \<not> (bit p n \<and> bit q n)) \<Longrightarrow> ucast p + ucast q = (ucast (p OR q) :: u32)" for p q :: u8
proof -
  assume d: "\<And>n. n < 8 \<Longrightarrow> \<not> (bit p n \<and> bit q n)"
  then have "\<not> (bit p n \<and> bit q n)" for n using bit_imp_le_length [of p n] by auto
  then have "(ucast p :: u32) + ucast q = ucast p OR ucast q"
    by (intro disjunctive_add_eq_or bit_word_eqI) (simp add: bit_simps)
  then show ?thesis by (simp add: unsigned_or_eq)
qed

lemma low_parts:
  "ucast (byte (Suc 0) (part j 2 x)) + ucast (byte 2 (part j (Suc 0) x)) + ucast (byte 3 (part j 0 x)) =
     (ucast (byte (Suc 0) (part j 2 x) OR byte 2 (part j (Suc 0) x) OR byte 3 (part j 0 x)) :: u32)"
  "ucast (byte 2 (part j 2 x)) + ucast (byte 3 (part j (Suc 0) x)) = (ucast (byte 2 (part j 2 x) OR byte 3 (part j (Suc 0) x)) :: u32)"
proof -
  have "ucast (byte (Suc 0) (part j 2 x)) + ucast (byte 2 (part j (Suc 0) x)) = (ucast (byte (Suc 0) (part j 2 x) OR byte 2 (part j (Suc 0) x)) :: u32)"
    by (rule add_disjoint) (auto simp: bit_part)
  moreover have "ucast (byte (Suc 0) (part j 2 x) OR byte 2 (part j (Suc 0) x)) + ucast (byte 3 (part j 0 x)) =
     (ucast ((byte (Suc 0) (part j 2 x) OR byte 2 (part j (Suc 0) x)) OR byte 3 (part j 0 x)) :: u32)"
    by (rule add_disjoint) (auto simp: bit_part bit_or_iff)
  ultimately show "ucast (byte (Suc 0) (part j 2 x)) + ucast (byte 2 (part j (Suc 0) x)) + ucast (byte 3 (part j 0 x)) =
     (ucast (byte (Suc 0) (part j 2 x) OR byte 2 (part j (Suc 0) x) OR byte 3 (part j 0 x)) :: u32)" by (simp add: or.assoc)
  show "ucast (byte 2 (part j 2 x)) + ucast (byte 3 (part j (Suc 0) x)) = (ucast (byte 2 (part j 2 x) OR byte 3 (part j (Suc 0) x)) :: u32)"
    by (rule add_disjoint) (auto simp: bit_part)
qed

definition low_bytes :: "nat \<Rightarrow> u32 \<Rightarrow> u32" where
  "low_bytes j x = bytes4 (byte (Suc 0) (part j 2 x) OR byte 2 (part j (Suc 0) x) OR byte 3 (part j 0 x))
     (byte 2 (part j 2 x) OR byte 3 (part j (Suc 0) x)) (byte 3 (part j 2 x)) 0"

lemma bit_low: "bit (low_bytes j x) n \<longleftrightarrow> n + j < 24 \<and> bit x (n + j)"
  by (cases "n + j < 8"; cases "n + j < 16"; cases "n + j < 24") (auto simp: low_bytes_def bit_bytes4 bit_or_iff bit_part)

lemma srl_value: "low_bytes j x + part j 3 x = drop_bit j x"
proof -
  have "low_bytes j x + part j 3 x = low_bytes j x OR part j 3 x"
    by (rule disjunctive_add_eq_or, rule bit_word_eqI) (auto simp: bit_low part_def bit_simps)
  also have "\<dots> = drop_bit j x"
    by (rule bit_word_eqI) (auto simp: bit_low part_def bit_simps bit_byte add.commute dest: bit_imp_le_length)
  finally show ?thesis .
qed

lemma bit_sra: "n < 32 \<Longrightarrow> bit (signed_drop_bit j (w :: u32)) n \<longleftrightarrow> bit w (if 32 \<le> j + n then 31 else j + n)"
proof -
  have e: "LENGTH(32) = 32" "LENGTH(32) - 1 = 31" by simp_all
  assume "n < 32"
  then show ?thesis unfolding bit_signed_drop_bit_iff e by (simp add: le_diff_conv add.commute)
qed

lemma bit_top_byte: "bit (push_bit 24 (ucast (byte 3 x)) :: u32) n \<longleftrightarrow> 24 \<le> n \<and> bit x n"
  by (auto simp: bit_simps bit_byte dest: bit_imp_le_length)

lemma sra_value: "j < 32 \<Longrightarrow> low_bytes j x + signed_drop_bit j (push_bit 24 (ucast (byte 3 x))) = signed_drop_bit j x"
proof -
  assume j: "j < 32"
  let ?y = "signed_drop_bit j (push_bit 24 (ucast (byte 3 x))) :: u32"
  have "low_bytes j x + ?y = low_bytes j x OR ?y"
    using j by (intro disjunctive_add_eq_or bit_word_eqI) (auto simp: bit_low bit_and_iff bit_sra bit_top_byte)
  also have "\<dots> = signed_drop_bit j x"
    using j by (intro bit_word_eqI) (auto simp: bit_low bit_or_iff bit_sra bit_top_byte add.commute)
  finally show ?thesis .
qed

lemma shift_right_regs:
  fixes arith :: bool
  assumes "loaded T b R" "g 2 = b + 28" "rd \<noteq> 0" "rd \<noteq> 2" "g 8 = row (srl8_table T) j" "j < 32"
    "S 12 = byte 0 x" "S 13 = byte (Suc 0) x" "S 14 = byte 2 x" "S 15 = byte 3 x"
  defines "s \<equiv> run (shift_right_body T rd arith) (g, mix b S R)"
  shows "fst s rd = (if arith then signed_drop_bit j x else drop_bit j x)" and "rd \<noteq> 8 \<Longrightarrow> fst s 8 = get S 24"
    and "r \<notin> {3, 4, 8, rd} \<Longrightarrow> fst s r = g r" and "rest b (snd s) = rest b R"
proof -
  have row: "row (srl8_table T) j + (sra8_table T - srl8_table T) = row (sra8_table T) j" by (simp add: row_def)
  note simps = shift_right_body_def run_get_shift_byte(2,3) [where j = j] rval_upd put_apply get_slots PUSH_def POP_def row low_parts
    srl_value sra_value part_def [symmetric] low_bytes_def [symmetric]
  show "fst s rd = (if arith then signed_drop_bit j x else drop_bit j x)" 
    using assms by (cases arith) (simp_all add: simps)
  show "fst s 8 = get S 24" if "rd \<noteq> 8" using assms that by (cases arith) (simp_all add: simps)
  show "fst s r = g r" if "r \<notin> {3, 4, 8, rd}" using assms that by (cases arith) (simp_all add: simps)
  show "rest b (snd s) = rest b R" using assms by (cases arith) (simp_all add: simps)
qed

lemma effect_shift_right:
  assumes "loaded T b R" "g 2 = b + 28" "rd \<noteq> 0" "rd \<noteq> 2" "j < 32" "g' 8 = row (srl8_table T) j" "\<And>r. r \<notin> {4, 8} \<Longrightarrow> g' r = g r"
    "S 12 = byte 0 x" "S 13 = byte (Suc 0) x" "S 14 = byte 2 x" "S 15 = byte 3 x" "get S 24 = g 8"
  shows "effect rd (if arith then signed_drop_bit j x else drop_bit j x) R g (run (shift_right_body T rd arith) (g', mix b S R))"
proof -
  have "g' 2 = b + 28" using assms(2,7) by simp
  note r = shift_right_regs [of T b R g' rd j S x, OF assms(1) this assms(3,4,6,5,8-11), where arith = arith]
  have "fst (run (shift_right_body T rd arith) (g', mix b S R)) q = g q" if "q \<notin> {3, 4, rd}" for q
    using r(2) r(3) [of q] assms(7) [of q] assms(12) that by (cases "q = 8") auto
  then show ?thesis using r(1,4) assms(2) by (simp add: effect_def)
qed

lemma run_srl:
  assumes "loaded T b R" "g 2 = b + 28" "rd \<noteq> 0" "rd \<noteq> 2"
  shows "effect rd (drop_bit (shamt (rval g rs2)) (rval g rs1)) R g (run (m_srl T rd rs1 rs2) (g, mix b S R))"
    "effect rd (signed_drop_bit (shamt (rval g rs2)) (rval g rs1)) R g (run (m_sra T rd rs1 rs2) (g, mix b S R))"
  using assms effect_shift_right [where arith = False] effect_shift_right [where arith = True]
  by (simp_all add: m_srl_def m_sra_def PUSH_def rval_upd put_apply)

lemma row_imm: "t + push_bit 10 (of_nat n) = row t n"
  by (simp add: row_def push_bit_eq_mult)

lemma run_srli:
  assumes "loaded T b R" "g 2 = b + 28" "rd \<noteq> 0" "rd \<noteq> 2" "rd \<noteq> 4" "n < 32"
  shows "effect rd (drop_bit n (rval g rs)) R g (run (m_srli T rd rs n) (g, mix b S R))"
    "effect rd (signed_drop_bit n (rval g rs)) R g (run (m_srai T rd rs n) (g, mix b S R))"
proof -
  have "ucast (byte 3 w) = drop_bit 24 w" for w by (rule bit_word_eqI) (auto simp: bit_simps bit_byte add.commute dest: bit_imp_le_length)
  then show "effect rd (drop_bit n (rval g rs)) R g (run (m_srli T rd rs n) (g, mix b S R))"
    using assms effect_shift_right [where arith = False]
    by (simp add: m_srli_def PUSH_def rval_upd put_apply row_imm)
  have "signed_drop_bit 24 (push_bit 24 (ucast (byte 3 w))) = signed_drop_bit 24 w" for w :: u32
    by (rule bit_word_eqI) (simp add: bit_sra bit_top_byte)
  moreover have "sra8_table T + 24576 = row (sra8_table T) 24" by (simp add: row_def)
  ultimately show "effect rd (signed_drop_bit n (rval g rs)) R g (run (m_srai T rd rs n) (g, mix b S R))"
    using assms effect_shift_right [where arith = True] shift_lookup(3) [OF assms(1,6)]
    by (cases "n = 24") (simp_all add: m_srai_def PUSH_def rval_upd put_apply row_imm push_bit_eq_mult [of 2])
qed

lemma run_slli:
  assumes "g 2 = b + 28" "rd \<noteq> 0" "rd \<noteq> 2" "rd \<noteq> 4" "rs \<noteq> 4" "n < 32"
  shows "effect rd (push_bit n (rval g rs)) R g (run (m_slli rd rs n) (g, mix b S R))"
proof -
  have p: "bytes4 0 0 0 (byte 0 w) = push_bit 24 w" "bytes4 0 0 (byte 0 w) (byte (Suc 0) w) = push_bit 16 w" for w
    by (rule bit_word_eqI, auto simp: bit_bytes4 bit_byte bit_simps)+
  consider "n < 16" | "16 \<le> n" "n < 24" | "24 \<le> n" by linarith
  then show ?thesis
    using assms p by cases (simp_all add: m_slli_def m_sh_def put_apply get_slots rval_upd push_bit_push_bit)
qed

section \<open>Instructions and their replacements\<close>

datatype rop = R_sub | R_slt | R_sltu | R_and | R_or | R_xor | R_sll | R_srl | R_sra

fun rop_value :: "rop \<Rightarrow> u32 \<Rightarrow> u32 \<Rightarrow> u32" where
  "rop_value R_sub x y = x - y"
| "rop_value R_slt x y = of_bool (sint x < sint y)"
| "rop_value R_sltu x y = of_bool (x < y)"
| "rop_value R_and x y = x AND y"
| "rop_value R_or x y = x OR y"
| "rop_value R_xor x y = x XOR y"
| "rop_value R_sll x y = push_bit (shamt y) x"
| "rop_value R_srl x y = drop_bit (shamt y) x"
| "rop_value R_sra x y = signed_drop_bit (shamt y) x"

fun rop_code :: "rop \<Rightarrow> layout \<Rightarrow> nat \<Rightarrow> nat \<Rightarrow> nat \<Rightarrow> minirv list option" where
  "rop_code R_sub T rd rs1 rs2 = Some (m_sub T rd rs1 rs2)"
| "rop_code R_slt T rd rs1 rs2 = Some (m_slt T rd rs1 rs2)"
| "rop_code R_sltu T rd rs1 rs2 = Some (m_sltu T rd rs1 rs2)"
| "rop_code R_and T rd rs1 rs2 = m_and T rd rs1 rs2"
| "rop_code R_or T rd rs1 rs2 = m_or T rd rs1 rs2"
| "rop_code R_xor T rd rs1 rs2 = m_xor T rd rs1 rs2"
| "rop_code R_sll T rd rs1 rs2 = Some (m_sll T rd rs1 rs2)"
| "rop_code R_srl T rd rs1 rs2 = Some (m_srl T rd rs1 rs2)"
| "rop_code R_sra T rd rs1 rs2 = Some (m_sra T rd rs1 rs2)"

definition code_effect :: "minirv list option \<Rightarrow> nat \<Rightarrow> u32 \<Rightarrow> regs \<Rightarrow> bmem \<Rightarrow> bool" where
  "code_effect c rd v g M \<longleftrightarrow> (case c of None \<Rightarrow> False | Some code \<Rightarrow> effect rd v M g (run code (g, M)))"

lemma effect_logic:
  assumes "loaded T b M" "g 2 = b + 28" "rd \<notin> {0, 2, 3, 4}" "rs1 \<notin> {2, 3, 4}" "rs2 \<notin> {2, 3}"
  shows "code_effect (m_and T rd rs1 rs2) rd (rval g rs1 AND rval g rs2) g M"
    and "code_effect (m_or T rd rs1 rs2) rd (rval g rs1 OR rval g rs2) g M"
    and "code_effect (m_xor T rd rs1 rs2) rd (rval g rs1 XOR rval g rs2) g M"
proof -
  note l = logic_lookup [OF assms(1)] and r = run_logic [where g = g and b = b and rd = rd and ?rs1.0 = rs1 and ?rs2.0 = rs2 and S = "\<lambda>n. M (loc b n)" and R = M, unfolded mix_self]
  show "code_effect (m_and T rd rs1 rs2) rd (rval g rs1 AND rval g rs2) g M"
    using r [of "and8_table T" "(AND)", OF l(1)] assms by (auto simp: code_effect_def m_and_def logic_bytes)
  show "code_effect (m_or T rd rs1 rs2) rd (rval g rs1 OR rval g rs2) g M"
    using r [of "or8_table T" "(OR)", OF l(2)] assms by (auto simp: code_effect_def m_or_def logic_bytes)
  show "code_effect (m_xor T rd rs1 rs2) rd (rval g rs1 XOR rval g rs2) g M"
    using r [of "xor8_table T" "(XOR)", OF l(3)] assms by (auto simp: code_effect_def m_xor_def logic_bytes)
qed

lemma rop_effect:
  assumes "loaded T b M" "g 2 = b + 28" "rd \<notin> {0, 2, 3, 4}" "rs1 \<notin> {2, 3, 4}" "rs2 \<notin> {2, 3}" "op = R_sub \<Longrightarrow> rs2 \<noteq> 4"
  shows "code_effect (rop_code op T rd rs1 rs2) rd (rop_value op (rval g rs1) (rval g rs2)) g M"
proof -
  have e: "code_effect (Some code) rd v g M" if "\<And>S. effect rd v M g (run code (g, mix b S M))" for code v
    using effect_mix [of g b, OF assms(2) that] by (simp add: code_effect_def)
  show ?thesis
    using assms effect_logic [of T b M g rd rs1 rs2]
    by (cases op) (auto intro!: e run_slt run_sll run_srl split del: split_of_bool)
qed

text \<open>
  C6: every replaced register instruction (sub, slt, sltu, and, or, xor, sll, srl, sra) is replaced by code that does what
  the instruction does. When the tables of the header are in memory outside the 28 bytes below the stack pointer, the code
  for any destination and operands other than \<^verbatim>\<open>sp\<close>, \<^verbatim>\<open>gp\<close> and \<^verbatim>\<open>tp\<close> leaves the value of the instruction in the destination, every
  other register but \<^verbatim>\<open>gp\<close> and \<^verbatim>\<open>tp\<close> as it was, and memory outside these 28 bytes unchanged.
\<close>

theorem r_type_replaced:
  assumes "loaded T (g sp - 28) M" "rd \<notin> {x0, sp, gp, tp}" "rs1 \<notin> {sp, gp, tp}" "rs2 \<notin> {sp, gp, tp}"
  shows "code_effect (rop_code op T rd rs1 rs2) rd (rop_value op (rval g rs1) (rval g rs2)) g M"
  using assms by (intro rop_effect [where b = "g 2 - 28"]) auto

datatype iop = I_slti | I_sltiu | I_andi | I_ori | I_xori | I_slli | I_srli | I_srai

fun iop_value :: "iop \<Rightarrow> u32 \<Rightarrow> u32 \<Rightarrow> u32" where
  "iop_value I_slti x i = of_bool (sint x < sint i)"
| "iop_value I_sltiu x i = of_bool (x < i)"
| "iop_value I_andi x i = x AND i"
| "iop_value I_ori x i = x OR i"
| "iop_value I_xori x i = x XOR i"
| "iop_value I_slli x i = push_bit (unat i) x"
| "iop_value I_srli x i = drop_bit (unat i) x"
| "iop_value I_srai x i = signed_drop_bit (unat i) x"

fun iop_code :: "iop \<Rightarrow> layout \<Rightarrow> nat \<Rightarrow> nat \<Rightarrow> u32 \<Rightarrow> minirv list option" where
  "iop_code I_slti T rd rs i = Some (m_slti T rd rs i)"
| "iop_code I_sltiu T rd rs i = Some (m_sltiu T rd rs i)"
| "iop_code I_andi T rd rs i = m_andi T rd rs i"
| "iop_code I_ori T rd rs i = m_ori T rd rs i"
| "iop_code I_xori T rd rs i = m_xori T rd rs i"
| "iop_code I_slli T rd rs i = Some (m_slli rd rs (unat i))"
| "iop_code I_srli T rd rs i = Some (m_srli T rd rs (unat i))"
| "iop_code I_srai T rd rs i = Some (m_srai T rd rs (unat i))"

lemma effect_li: "rd \<noteq> 4 \<Longrightarrow> effect rd v M (g(4 := i)) s \<longleftrightarrow> effect rd v M g s"
  by (auto simp: effect_def)

lemma code_effect_li:
  assumes "code_effect c rd v (g(4 := i)) M" "rd \<noteq> 4"
  shows "code_effect (map_option ((@) (m_li 4 i)) c) rd v g M"
  using assms by (auto simp: code_effect_def effect_li m_li_def split: option.splits)

text \<open>
  the instructions with an immediate (slti, sltiu, andi, ori, xori, and the shifts slli, srli, srai with amounts below 32) are
  replaced by code with the value of the instruction in the destination and the same frame as for register instructions.
\<close>

lemma i_type_replaced:
  assumes "loaded T (g sp - 28) M" "rd \<notin> {x0, sp, gp, tp}" "rs \<notin> {sp, gp, tp}" "unat i < 32 \<or> op \<notin> {I_slli, I_srli, I_srai}"
  shows "code_effect (iop_code op T rd rs i) rd (iop_value op (rval g rs) i) g M"
proof -
  define b where "b = g 2 - 28"
  have b: "loaded T b M" "g 2 = b + 28" "rd \<notin> {0, 2, 3, 4}" "rs \<notin> {2, 3, 4}" using assms by (simp_all add: b_def)
  have e: "code_effect (Some code) rd v g M" if "\<And>S. effect rd v M g (run code (g, mix b S M))" for code v
    using effect_mix [of g b, OF b(2) that] by (simp add: code_effect_def)
  have v: "rval (g(4 := i)) rs = rval g rs" "rval (g(4 := i)) 4 = i" using b(4) by (auto simp: rval_def)
  have r: "code_effect (map_option ((@) (m_li 4 i)) (rop_code p T rd rs 4)) rd (rop_value p (rval g rs) i) g M" if "p \<noteq> R_sub" for p
    using rop_effect [of T b M "g(4 := i)" rd rs 4 p] b that unfolding v by (intro code_effect_li) auto
  show ?thesis
    using r [of R_slt] r [of R_sltu] r [of R_and] r [of R_or] r [of R_xor] b assms(4)
    by (cases op) (auto simp: m_slti_def m_sltiu_def m_andi_def m_ori_def m_xori_def intro!: e run_slli run_srli split del: split_of_bool)
qed

text \<open>
  C21: a conditional branch continues at its target when the condition of the instruction holds and behind the macro when it does not, for every
  kind of branch, the short forms against register zero included; it keeps every register but \<^verbatim>\<open>gp\<close> and \<^verbatim>\<open>tp\<close>, and memory
  outside the scratch area and the array of the equality test.
\<close>

theorem branches_replaced:
  assumes "loaded T (g sp - 28) M" "array_ok T (g sp - 28)" "target AND NOT 1 = target" "after AND NOT 1 = after"
    "rs1 \<notin> {sp, gp, tp}" "rs2 \<notin> {sp, gp, tp}"
  shows "branches T (if taken c (rval g rs1) (rval g rs2) then target else after) M g (exec (branch_code c T rs1 rs2 target after) pc (g, M))"
  using assms by (intro branches_ok [where b = "g 2 - 28"]) auto

text \<open>
  C40: the macro for \<^verbatim>\<open>seqz\<close> loses its result when the destination is \<^verbatim>\<open>s0\<close>: the last instruction restores \<^verbatim>\<open>s0\<close> from the stack after the
  result was loaded, so the register keeps its old value whatever the operand is.
\<close>

theorem seqz_s0_lost: "fst (run (m_seqz T s0 rs) (g, M)) s0 = g s0"
proof -
  define b S where "b = g 2 - 28" and "S = (\<lambda>n. M (loc b n))"
  have "g 2 = b + 28" by (simp add: b_def)
  then have "fst (run (m_seqz T 8 rs) (g, mix b S M)) 8 = g 8"
    by (simp add: m_seqz_def check_8bit_0_def rval_upd PUSH_def POP_def put_apply)
  then show ?thesis by (simp add: S_def mix_self)
qed

lemma pseudo_replaced:
  assumes "loaded T b M" "g 2 = b + 28" "rd \<notin> {0, 2, 3, 4}"  "rs \<notin> {2, 3, 4}"
  shows "effect rd (NOT (rval g rs)) M g (run (m_not T rd rs) (g, mix b S M))"
    and "effect rd (- rval g rs) M g (run (m_neg T rd rs) (g, mix b S M))"
    and "effect rd (of_bool (rval g rs \<noteq> 0)) M g (run (m_snez T rd rs) (g, mix b S M))"
    and "effect rd (of_bool (sint (rval g rs) < 0)) M g (run (m_sltz rd rs) (g, mix b S M))"
    and "effect rd (of_bool (0 < sint (rval g rs))) M g (run (m_sgtz T rd rs) (g, mix b S M))"
    and "rd \<noteq> 8 \<Longrightarrow> effect rd (of_bool (rval g rs = 0)) M g (run (m_seqz T rd rs) (g, mix b S M))"
proof -
  have s: "sign x = of_bool (sint x < 0)" for x using bit_last_iff [of x] by (simp add: sign_def)
  show "effect rd (NOT (rval g rs)) M g (run (m_not T rd rs) (g, mix b S M))"
    "effect rd (- rval g rs) M g (run (m_neg T rd rs) (g, mix b S M))"
    "effect rd (of_bool (sint (rval g rs) < 0)) M g (run (m_sltz rd rs) (g, mix b S M))"
    using assms by (simp_all add: m_neg_def m_sltz_def s)
  show "effect rd (of_bool (rval g rs \<noteq> 0)) M g (run (m_snez T rd rs) (g, mix b S M))"
    "effect rd (of_bool (0 < sint (rval g rs))) M g (run (m_sgtz T rd rs) (g, mix b S M))"
    using run_slt [of T b M g rd 0 rs S] assms by (simp_all add: m_snez_def m_sgtz_def word_neq_0_conv)
  show "effect rd (of_bool (rval g rs = 0)) M g (run (m_seqz T rd rs) (g, mix b S M))" if "rd \<noteq> 8"
    using assms that by (intro run_seqz) auto
qed

lemma jumps_replaced:
  "exec (m_j addr) pc (g, M) = (addr AND NOT 1, g(tp := addr), M)"
  "exec (m_call addr) pc (g, M) = (addr AND NOT 1, g(ra := pc + 12), M)"
  "rd \<noteq> 0 \<Longrightarrow> exec (m_jal rd addr) pc (g, M) = (addr AND NOT 1, g(rd := pc + 12), M)"
  "exec (m_tail addr) pc (g, M) = (addr AND NOT 1, g(tp := addr), M)"
  by (simp_all add: m_j_def m_call_def m_jal_def m_call_template_def m_tail_def m_jr_def exec_append m_la_def hi_lo add.commute [of 12 pc])

section \<open>Loads and stores\<close>

datatype mop = M_lb | M_lh | M_lhu

fun mop_value :: "mop \<Rightarrow> bmem \<Rightarrow> u32 \<Rightarrow> u32" where
  "mop_value M_lb M a = scast (M a)"
| "mop_value M_lh M a = signed_take_bit 15 (bytes4 (M a) (M (a + 1)) 0 0)"
| "mop_value M_lhu M a = bytes4 (M a) (M (a + 1)) 0 0"

fun mop_code :: "mop \<Rightarrow> layout \<Rightarrow> nat \<Rightarrow> u32 \<Rightarrow> nat \<Rightarrow> minirv list" where
  "mop_code M_lb T rd i a = m_lb T rd i a"
| "mop_code M_lh T rd i a = m_lh T rd i a"
| "mop_code M_lhu T rd i a = m_lhu rd i a"

lemma lb_value: "signed_drop_bit 24 (bytes4 0 0 0 q) = scast q"
  by (rule bit_word_eqI) (auto simp: bit_sra bit_bytes4 bit_simps)

lemma lhu_value: "ucast p + bytes4 0 q 0 0 = bytes4 p q 0 0"
proof -
  have "ucast p + bytes4 0 q 0 0 = ucast p OR bytes4 0 q 0 0"
    by (rule disjunctive_add_eq_or, rule bit_word_eqI) (auto simp: bit_bytes4 bit_simps dest: bit_imp_le_length)
  also have "\<dots> = bytes4 p q 0 0" by (rule bit_word_eqI) (auto simp: bit_bytes4 bit_simps dest: bit_imp_le_length)
  finally show ?thesis .
qed

lemma lh_value: "ucast p + signed_drop_bit 16 (bytes4 0 0 0 q) = signed_take_bit 15 (bytes4 p q 0 0)"
proof -
  have "ucast p + signed_drop_bit 16 (bytes4 0 0 0 q) = ucast p OR signed_drop_bit 16 (bytes4 0 0 0 q)"
    by (rule disjunctive_add_eq_or, rule bit_word_eqI) (auto simp: bit_sra bit_bytes4 bit_and_iff bit_ucast_iff dest: bit_imp_le_length)
  also have "\<dots> = signed_take_bit 15 (bytes4 p q 0 0)"
  proof (rule bit_word_eqI)
    fix n :: nat
    assume n: "n < LENGTH(32)"
    show "bit (ucast p OR signed_drop_bit 16 (bytes4 0 0 0 q)) n = bit (signed_take_bit 15 (bytes4 p q 0 0) :: u32) n"
    proof (cases "n = 15")
      case True
      show ?thesis unfolding True using bit_imp_le_length [of p 15] by (auto simp: bit_or_iff bit_ucast_iff bit_sra bit_bytes4 bit_signed_take_bit_iff)
    next
      case False
      with n show ?thesis
        by (auto simp: bit_sra bit_bytes4 bit_or_iff bit_ucast_iff bit_signed_take_bit_iff min_def dest: bit_imp_le_length)
    qed
  qed
  finally show ?thesis .
qed

lemma run_lb:
  assumes "loaded T b M" "g 2 = b + 28" "rd \<notin> {0, 2, 3, 4}" "a \<notin> {3, 4}" "\<not> in_area b (rval g a + i)"
  shows "effect rd (scast (M (rval g a + i))) M g (run (m_lb T rd i a) (g, mix b S M))"
proof -
  let ?g = "g(rd := bytes4 0 0 0 (M (rval g a + i)))"
  have "run (m_lb T rd i a) (g, mix b S M) = run (m_srai T rd rd 24) (?g, mix b ((put 12 0 S)(15 := M (rval g a + i))) M)"
    using assms by (simp add: m_lb_def put_apply get_slots)
  moreover have "effect rd (scast (M (rval g a + i))) M ?g (run (m_srai T rd rd 24) (?g, mix b S' M))" for S'
    using run_srli(2) [of T b M ?g rd 24 rd S'] assms by (simp add: lb_value)
  ultimately show ?thesis using assms(3) by (auto simp: effect_def)
qed

lemma run_lh:
  assumes "loaded T b M" "g 2 = b + 28" "rd \<notin> {0, 2, 3, 4}" "a \<notin> {3, 4}" "\<not> in_area b (rval g a + i)" "\<not> in_area b (rval g a + i + 1)"
  shows "effect rd (signed_take_bit 15 (bytes4 (M (rval g a + i)) (M (rval g a + i + 1)) 0 0)) M g (run (m_lh T rd i a) (g, mix b S M))"
proof -
  let ?g = "g(3 := bytes4 0 0 0 (M (rval g a + i + 1)))" and ?S = "(put 12 0 S)(15 := M (rval g a + i + 1))"
  obtain g' M' where s: "run (m_srai T 3 3 16) (?g, mix b ?S M) = (g', M')" by fastforce
  have e: "effect 3 (signed_drop_bit 16 (bytes4 0 0 0 (M (rval g a + i + 1)))) M ?g (g', M')"
    using run_srli(2) [of T b M ?g 3 16 3 ?S] assms s by simp
  then have g': "g' 3 = signed_drop_bit 16 (bytes4 0 0 0 (M (rval g a + i + 1)))" "\<And>r. r \<notin> {3, 4} \<Longrightarrow> g' r = g r" "rest b M' = rest b M"
    using assms(2) by (auto simp: effect_def)
  have "M' (rval g a + i) = M (rval g a + i)" using rest_eq_mix [OF g'(3)] assms(5) by (metis mix_rest)
  moreover have "rval g' a = rval g a" using g'(2) assms(4) by (auto simp: rval_def)
  moreover have c: "rval g a + (1 + i) = rval g a + i + 1" by simp
  have "run (m_lh T rd i a) (g, mix b S M) = run [LBU rd (0 + i) a, ADD rd rd 3] (g', M')"
    using assms s by (simp add: m_lh_def put_apply get_slots c)
  ultimately show ?thesis using g' assms(2,3) by (simp add: effect_def lh_value)
qed

lemma run_lhu:
  assumes "g 2 = b + 28" "rd \<notin> {0, 2, 3, 4}" "a \<notin> {3, 4}" "\<not> in_area b (rval g a + i)" "\<not> in_area b (rval g a + i + 1)"
  shows "effect rd (bytes4 (M (rval g a + i)) (M (rval g a + i + 1)) 0 0) M g (run (m_lhu rd i a) (g, mix b S M))"
proof -
  have c: "rval g a + (1 + i) = rval g a + i + 1" by simp
  show ?thesis
    using assms by (simp add: m_lhu_def put_apply get_slots rval_other c lhu_value)
qed

text \<open>
  C28: loads of bytes and half words and the store of a half word work like the instructions they replace. When the accessed
  bytes are outside the scratch area, lb, lh and lhu leave the sign or zero extended value in the destination with the frame of the
  other instructions, and sh writes the two low bytes of its operand and changes nothing else but \<^verbatim>\<open>tp\<close> and the scratch area.
\<close>

theorem loads_stores_replaced:
  assumes "loaded T (g sp - 28) M" "rd \<notin> {x0, sp, gp, tp}" "a \<notin> {gp, tp}" "rs \<notin> {gp, tp}"
    "\<not> in_area (g sp - 28) (rval g a + i)" "\<not> in_area (g sp - 28) (rval g a + i + 1)"
  shows "effect rd (mop_value op M (rval g a + i)) M g (run (mop_code op T rd i a) (g, M)) \<and>
    effect tp (ucast (byte 1 (rval g rs))) (M(rval g a + i := byte 0 (rval g rs), rval g a + i + 1 := byte 1 (rval g rs))) g
      (run (m_sh rs i a) (g, M))"
proof
  define b where "b = g 2 - 28"
  have b: "loaded T b M" "g 2 = b + 28" "rd \<notin> {0, 2, 3, 4}" "a \<notin> {3, 4}" "\<not> in_area b (rval g a + i)" "\<not> in_area b (rval g a + i + 1)"
    using assms by (simp_all add: b_def)
  show "effect rd (mop_value op M (rval g a + i)) M g (run (mop_code op T rd i a) (g, M))"
    by (rule effect_mix [of g b, OF b(2)]) (cases op; use b in \<open>auto intro!: run_lb run_lh run_lhu\<close>)
  let ?M = "M(rval g a + i := byte 0 (rval g rs), rval g a + i + 1 := byte 1 (rval g rs))"
  have c: "rval g a + (1 + i) = rval g a + i + 1" by simp
  have "run (m_sh rs i a) (g, mix b S M) = (g(4 := ucast (byte 1 (rval g rs))), mix b (put 4 (rval g rs) S) ?M)" for S
    using b by (simp add: m_sh_def rval_other c)
  then have "effect 4 (ucast (byte 1 (rval g rs))) ?M g (run (m_sh rs i a) (g, mix b S M))" for S using b(2) by simp
  from this [of "\<lambda>n. M (loc b n)"] show "effect 4 (ucast (byte 1 (rval g rs))) ?M g (run (m_sh rs i a) (g, M))" by (simp only: mix_self)
qed

section \<open>A sample memory\<close>

definition install :: "u32 \<Rightarrow> u8 list \<Rightarrow> bmem \<Rightarrow> bmem" where
  "install a xs M = (\<lambda>x. if unat (x - a) < length xs then xs ! unat (x - a) else M x)"

definition sample_layout :: layout where
  "sample_layout = \<lparr>lut = 0x80100000, same_result_table = 0x80000100, check_8bit_0_table = 0x80000200, slt1_table = 0x80000300,
     sltu1_table = 0x80000308, or1_table = 0x80000310, check_same_array = 0x80000400\<rparr>"

definition sample_memory :: bmem where
  "sample_memory = install 0x80100000 lut_bin (install 0x80000100 [1, 0, 0, 0, 0, 0, 0, 0] (install 0x80000200 (0 # replicate 255 1)
     (install 0x80000300 [0, 1, 0, 0, 1, 1, 0, 1] (install 0x80000308 [0, 1, 1, 1, 0, 0, 0, 1] (install 0x80000310 [0, 1, 1, 1] (\<lambda>_. 0xa5))))))"

definition sample_regs :: regs where
  "sample_regs r = (if r = 2 then 0x8000f000 else if r = 11 then - 7 else 3)"

lemma unat_offset:
  fixes a b :: u32
  assumes "i < n" "unat (a - b) + n \<le> 2 ^ 32"
  shows "unat (a + of_nat i - b) = unat (a - b) + i"
proof -
  have e: "a + of_nat i - b = (a - b) + of_nat i" by simp
  have "unat (of_nat i :: u32) = i" using assms by (simp add: unat_of_nat)
  then show ?thesis unfolding e using assms by (subst unat_add_lem [THEN iffD1]) auto
qed

lemma install_table:
  assumes "28 \<le> unat (a - b)" "unat (a - b) + length xs \<le> 2 ^ 32"
  shows "table_at b (install a xs M) a xs"
proof -
  have "unat (of_nat i :: u32) = i" if "i < length xs" for i using that assms by (simp add: unat_of_nat)
  then show ?thesis using assms by (simp add: table_at_def install_def in_area_def unat_offset [where n = "length xs"])
qed

lemma install_other:
  assumes "table_at b M a' ys" "length xs \<le> unat (a' - a)" "unat (a' - a) + length ys \<le> 2 ^ 32"
  shows "table_at b (install a xs M) a' ys"
  using assms by (simp add: table_at_def install_def unat_offset [where n = "length ys"])

lemma sample_loaded: "loaded sample_layout (sample_regs 2 - 28) sample_memory"
  unfolding loaded_def sample_layout_def sample_memory_def sample_regs_def
  by (intro conjI; simp; intro install_other install_table; simp)

lemma sample_array: "array_ok sample_layout (sample_regs 2 - 28)"
proof -
  have u: "unat (a + of_nat i - b) = unat (a - b) + i" if "i < 256" "unat (a - b) + 256 \<le> 2 ^ 32" for i and a b :: u32
    using unat_offset [OF that] .
  have "0x80000400 + of_nat i \<noteq> (0x80000100 + of_nat j :: u32)" if "i < 256" "j < 8" for i j
  proof
    assume "0x80000400 + of_nat i = (0x80000100 + of_nat j :: u32)"
    then have "unat (0x80000400 + of_nat i :: u32) = unat (0x80000100 + of_nat j :: u32)" by (rule arg_cong)
    then show False using u [of i "0x80000400" 0] u [of j "0x80000100" 0] that by simp
  qed
  moreover have "\<not> in_area 0x8000efe4 (0x80000400 + of_nat i)" if "i < 256" for i
    using u [of i "0x80000400" "0x8000efe4"] that by (simp add: in_area_def)
  ultimately show ?thesis by (simp add: array_ok_def sample_layout_def sample_regs_def)
qed

theorem r_type_replaced_witness: "code_effect (rop_code R_sra sample_layout 10 11 12) 10 (- 1) sample_regs sample_memory"
  using r_type_replaced [of sample_layout sample_regs sample_memory 10 11 12 R_sra, OF sample_loaded] by (simp add: sample_regs_def shamt_def)

theorem branches_replaced_witness:
  "branches sample_layout 0x80002000 sample_memory sample_regs (exec (branch_code LT sample_layout 11 12 0x80002000 0x80001100) 0x80001000 (sample_regs, sample_memory))"
  using branches_replaced [of sample_layout sample_regs sample_memory "0x80002000" "0x80001100" 11 12 LT "0x80001000", OF sample_loaded sample_array]
  by (simp add: sample_regs_def)

lemma sample_bytes: "sample_memory 2 = 0xa5" "\<not> in_area 0x8000efe4 2" "\<not> in_area 0x8000efe4 3"
  by (simp_all add: sample_memory_def install_def in_area_def)

theorem loads_stores_replaced_witness:
  "effect 10 (- 91) sample_memory sample_regs (run (mop_code M_lb sample_layout 10 (- 1) 12) (sample_regs, sample_memory)) \<and>
   effect 4 0xff (sample_memory(2 := 0xf9, 3 := 0xff)) sample_regs (run (m_sh 11 (- 1) 12) (sample_regs, sample_memory))"
proof -
  have e: "byte 0 (- 7) = 0xf9" "byte 1 (- 7) = 0xff" by (simp_all add: byte_def)
  show ?thesis
    using loads_stores_replaced [of sample_layout sample_regs sample_memory 10 12 11 "- 1" M_lb, OF sample_loaded]
    by (simp add: sample_regs_def sample_bytes e e(2) [simplified])
qed

end
