(* ===== verification/Gen_Expr.thy ===== *)
theory Gen_Expr
  imports Nemu_Monitor Klib_Stdio
begin

text \<open>
  The generator of test expressions (\<^verbatim>\<open>nemu/tools/gen-expr/gen-expr.c\<close>) and the test that feeds them to the evaluator
  (\<^verbatim>\<open>test_expr\<close> of \<^verbatim>\<open>sdb/expr.c\<close>). The random numbers come from a state of any type through a function that stands for
  \<^verbatim>\<open>rand\<close>, and the compiler that computes the expected values is an argument. What an expression means is given by the grammar of C:
  products bind tighter than sums and both associate to the left.
\<close>

section \<open>The generator\<close>

type_synonym 'r rng = "'r \<Rightarrow> u32 \<times> 'r"

definition choose_rand :: "'r rng \<Rightarrow> u32 \<Rightarrow> 'r \<Rightarrow> u32 \<times> 'r" where
  "choose_rand R n r = (let (v, r) = R r in (v mod n, r))"

definition MAX_DEPTH :: nat where "MAX_DEPTH = 3"

lemma choose_rand_bound: "0 < n \<Longrightarrow> choose_rand R n r = (k, r') \<Longrightarrow> k < n"
  by (auto simp: choose_rand_def split: prod.splits intro: word_mod_less_divisor)

text \<open>Every \<^verbatim>\<open>sprintf(buf + strlen(buf), ...)\<close> appends to \<^verbatim>\<open>buf\<close>. The loop of blanks asks for a new bound in every round.\<close>

definition gen_num :: "'r rng \<Rightarrow> string \<times> 'r \<Rightarrow> string \<times> 'r" where
  "gen_num R s = (case s of (buf, r) \<Rightarrow> let (k, r) = choose_rand R 100 r in (buf @ show_nat 10 (unat (k + 1)), r))"

function gen_blanks :: "'r rng \<Rightarrow> nat \<Rightarrow> string \<times> 'r \<Rightarrow> string \<times> 'r" where
  "gen_blanks R i (buf, r) =
    (let (k, r') = choose_rand R 3 r in
     if i < unat k then gen_blanks R (Suc i) (buf @ '' '', r') else (buf, r'))"
  by pat_completeness auto

termination
proof (relation "measure (\<lambda>(R, i, s). 3 - i)")
  fix R :: "'r rng" and i r x k r'
  assume "x = choose_rand R 3 r" "(k, r') = x" "i < unat k"
  then have "k < 3" using choose_rand_bound [of 3 R r k r'] by simp
  then have "unat k < 3" by (simp add: word_less_nat_alt)
  then show "((R, Suc i, buf @ '' '', r'), R, i, buf, r) \<in> measure (\<lambda>(R, i, s). 3 - i)" for buf
    using \<open>i < unat k\<close> by simp
qed simp

text \<open>\<^verbatim>\<open>current_depth\<close> is the same after a call as before it, so it is an argument.\<close>

function gen_rand_expr_recursive :: "'r rng \<Rightarrow> nat \<Rightarrow> string \<times> 'r \<Rightarrow> string \<times> 'r" where
  "gen_rand_expr_recursive R current_depth (buf, r) =
    (if current_depth > MAX_DEPTH then gen_num R (buf, r)
     else let (k, r) = choose_rand R 3 r in
       if k = 0 then gen_num R (buf, r)
       else if k = 1 then
         let s = gen_blanks R 0 (buf @ ''('', r);
             s = gen_rand_expr_recursive R (Suc current_depth) s;
             (buf, r) = gen_blanks R 0 s
         in (buf @ '')'', r)
       else
         let (buf, r) = gen_rand_expr_recursive R (Suc current_depth) (buf, r);
             (k, r) = choose_rand R 3 r;
             op = ''*-+'' ! unat k
         in gen_rand_expr_recursive R (Suc current_depth) (buf @ '' '' @ [op] @ '' '', r))"
  by pat_completeness auto

termination
  by (relation "measure (\<lambda>(R, d, s). Suc MAX_DEPTH - d)") auto

definition gen_rand_expr :: "'r rng \<Rightarrow> 'r \<Rightarrow> string \<times> 'r" where
  "gen_rand_expr R r = gen_rand_expr_recursive R 0 ([], r)"

declare gen_blanks.simps [simp del] gen_rand_expr_recursive.simps [simp del]

text \<open>
  \<^verbatim>\<open>main\<close>: the compiler and the compiled program are one argument, from the program text to what it prints; \<^verbatim>\<open>None\<close> is a
  failed compilation, which skips the expression, and an error is a file or pipe that cannot be opened. The output is read with \<^verbatim>\<open>%d\<close>;
  when it has no number, \<^verbatim>\<open>result\<close> is printed without ever having been set.
\<close>

definition newline :: char where "newline = CHR 0x0A"

definition code_text :: "string \<Rightarrow> string" where
  "code_text s =
    ''#include <stdio.h>'' @ [newline] @ ''int main() { '' @ ''  unsigned result = '' @ s @ ''; '' @
    ''  printf('' @ [CHR 0x22] @ ''%u'' @ [CHR 0x22] @ '', result); '' @ ''  return 0; '' @ ''}''"

primrec gen_loop :: "'r rng \<Rightarrow> (string \<Rightarrow> string option res) \<Rightarrow> nat \<Rightarrow> 'r \<Rightarrow> string res" where
  "gen_loop R compiled 0 r = Inr []"
| "gen_loop R compiled (Suc n) r =
    (let (buf, r) = gen_rand_expr R r in
     ebind (compiled (code_text buf)) (\<lambda>ret.
     case ret of
       None \<Rightarrow> gen_loop R compiled n r
     | Some text \<Rightarrow>
         (case scan_int32 text of
            None \<Rightarrow> Inl (Undef ''uninitialised result'')
          | Some result \<Rightarrow>
              ebind (gen_loop R compiled n r) (\<lambda>out. Inr (show_nat 10 (unat result) @ '' '' @ buf @ [newline] @ out)))))"

definition gen_main :: "'r rng \<Rightarrow> (string \<Rightarrow> string option res) \<Rightarrow> string option \<Rightarrow> 'r \<Rightarrow> string res" where
  "gen_main R compiled arg r =
    (let loop = (case arg of None \<Rightarrow> 1 | Some t \<Rightarrow> (case scan_int32 t of None \<Rightarrow> 1 | Some i \<Rightarrow> sint i)) in
     gen_loop R compiled (nat loop) r)"

section \<open>The test\<close>

text \<open>\<^verbatim>\<open>fscanf\<close> with \<^verbatim>\<open>%u %[^\n]\<close>: blanks, a number, blanks, and the rest of the line, which must not be empty.\<close>

definition c_space :: "char \<Rightarrow> bool" where
  "c_space ch \<longleftrightarrow> ch = CHR '' '' \<or> 9 \<le> (of_char ch :: nat) \<and> (of_char ch :: nat) \<le> 13"

definition scan_sign :: "string \<Rightarrow> bool \<times> string" where
  "scan_sign s = (case s of [] \<Rightarrow> (False, []) | ch # r \<Rightarrow>
     if ch = CHR ''-'' then (True, r) else if ch = CHR ''+'' then (False, r) else (False, s))"

definition scan_u :: "string \<Rightarrow> (u32 \<times> string) option" where
  "scan_u s =
    (let (neg, s) = scan_sign (dropWhile c_space s);
         ds = takeWhile is_digit s;
         n = digits_val 10 0 ds
     in if ds = [] then None
        else Some (if n > 2 ^ 64 - 1 then - 1 else if neg then - of_nat n else of_nat n, dropWhile is_digit s))"

definition scan_case :: "string \<Rightarrow> (u32 \<times> string \<times> string) option" where
  "scan_case s =
    (case scan_u s of None \<Rightarrow> None | Some (v, s) \<Rightarrow>
     let s = dropWhile c_space s; line = takeWhile (\<lambda>ch. ch \<noteq> newline) s
     in if line = [] then None else Some (v, line, dropWhile (\<lambda>ch. ch \<noteq> newline) s))"

lemma scan_sign_length: "scan_sign s = (b, t) \<Longrightarrow> length t \<le> length s"
  by (auto simp: scan_sign_def split: list.splits if_splits)

lemma scan_case_shorter: "scan_case s = Some (v, line, s') \<Longrightarrow> length s' < length s"
proof -
  assume "scan_case s = Some (v, line, s')"
  then obtain w t b u where t: "scan_u s = Some (w, t)" "length s' \<le> length t"
    by (auto simp: scan_case_def Let_def split: option.splits if_splits)
      (meson le_trans length_dropWhile_le)
  obtain b u where u: "scan_sign (dropWhile c_space s) = (b, u)" by fastforce
  then have "length u \<le> length s" using scan_sign_length [OF u] length_dropWhile_le [of c_space s] by linarith
  moreover have "takeWhile is_digit u \<noteq> []" "t = dropWhile is_digit u"
    using t(1) by (auto simp: scan_u_def u Let_def split: if_splits)
  moreover from this have "length t < length u" by (cases u) (auto simp: length_dropWhile_le less_Suc_eq_le split: if_splits)
  ultimately show ?thesis using t(2) by linarith
qed

function test_loop :: "nemu_config \<Rightarrow> IOMap list \<Rightarrow> string \<Rightarrow> nat \<Rightarrow> machine \<Rightarrow> (nat \<times> machine) res" where
  "test_loop c maps input count m =
    (case scan_case input of None \<Rightarrow> Inr (count, m) | Some (expected_res, expr_str, input') \<Rightarrow>
     ebind (echeck (length expr_str < 65536) (Undef ''expr_str'')) (\<lambda>_.
     ebind (expr c maps expr_str m) (\<lambda>(actual_res, success, m).
       if \<not> success \<or> actual_res \<noteq> expected_res then Inl Assert_fail
       else test_loop c maps input' (Suc count) m)))"
  by pat_completeness auto

termination
  by (relation "measure (\<lambda>(c, maps, input, count, m). length input)") (auto dest: scan_case_shorter)

declare test_loop.simps [simp del]

text \<open>Without the input file the test is skipped; otherwise the number of evaluated expressions is reported.\<close>

definition test_expr :: "nemu_config \<Rightarrow> IOMap list \<Rightarrow> string option \<Rightarrow> machine \<Rightarrow> (nat option \<times> machine) res" where
  "test_expr c maps fp m =
    (case fp of None \<Rightarrow> Inr (None, m)
     | Some input \<Rightarrow> ebind (test_loop c maps input 0 m) (\<lambda>(count, m). Inr (Some count, m)))"

section \<open>C expressions\<close>

text \<open>
  The grammar of C for the expressions of the generator, with their values in the integers: \<open>c_prim\<close>, \<open>c_mul\<close> and \<open>c_add\<close> are primary,
  multiplicative and additive expressions. Next to the value stands a bound of everything that is computed on the way, in whatever order: the
  value of the expression with every difference read as a sum.
\<close>

abbreviation blanks :: "nat \<Rightarrow> string" where "blanks k \<equiv> replicate k (CHR '' '')"

datatype cval = CV (cv: int) (cb: int)

fun v_times :: "cval \<Rightarrow> cval \<Rightarrow> cval" where "v_times (CV v b) (CV w d) = CV (v * w) (b * d)"
fun v_plus :: "cval \<Rightarrow> cval \<Rightarrow> cval" where "v_plus (CV v b) (CV w d) = CV (v + w) (b + d)"
fun v_minus :: "cval \<Rightarrow> cval \<Rightarrow> cval" where "v_minus (CV v b) (CV w d) = CV (v - w) (b + d)"

inductive c_prim :: "string \<Rightarrow> cval \<Rightarrow> bool" and c_mul :: "string \<Rightarrow> cval \<Rightarrow> bool" and c_add :: "string \<Rightarrow> cval \<Rightarrow> bool" where
  number: "1 \<le> n \<Longrightarrow> n < 2 ^ 31 \<Longrightarrow> c_prim (show_nat 10 n) (CV (int n) (int n))"
| parens: "c_add s v \<Longrightarrow> c_prim (''('' @ blanks i @ s @ blanks j @ '')'') v"
| primary: "c_prim s v \<Longrightarrow> c_mul s v"
| times: "c_mul s v \<Longrightarrow> c_prim t w \<Longrightarrow> c_mul (s @ '' * '' @ t) (v_times v w)"
| product: "c_mul s v \<Longrightarrow> c_add s v"
| plus: "c_add s v \<Longrightarrow> c_mul t w \<Longrightarrow> c_add (s @ '' + '' @ t) (v_plus v w)"
| minus: "c_add s v \<Longrightarrow> c_mul t w \<Longrightarrow> c_add (s @ '' - '' @ t) (v_minus v w)"

text \<open>Two expressions joined by an operator are an expression again, though not of the two values.\<close>

lemma c_mul_times_all:
  assumes "c_mul s v"
  shows "c_prim p x \<Longrightarrow> True" and "c_mul t w \<Longrightarrow> \<exists>x. c_mul (s @ '' * '' @ t) x" and "c_add u y \<Longrightarrow> True"
proof (induction rule: c_prim_c_mul_c_add.inducts)
  case (primary t w)
  then show ?case using times [OF assms] by blast
next
  case (times t w u x)
  then obtain y where "c_mul (s @ '' * '' @ t) y" by auto
  from c_prim_c_mul_c_add.times [OF this times(2)] show ?case by auto
qed simp_all

lemmas c_mul_times = c_mul_times_all(2)

lemma c_add_times_mul_all:
  assumes "c_mul t w"
  shows "c_prim p x \<Longrightarrow> True" and "c_mul q z \<Longrightarrow> True" and "c_add s v \<Longrightarrow> \<exists>x. c_add (s @ '' * '' @ t) x"
proof (induction rule: c_prim_c_mul_c_add.inducts)
  case (product s v)
  then show ?case using c_mul_times [OF product(1) assms] c_prim_c_mul_c_add.product by blast
next
  case (plus s v u x)
  then obtain y where "c_mul (u @ '' * '' @ t) y" using c_mul_times [OF plus(2) assms] by blast
  from c_prim_c_mul_c_add.plus [OF plus(1) this] show ?case by auto
next
  case (minus s v u x)
  then obtain y where "c_mul (u @ '' * '' @ t) y" using c_mul_times [OF minus(2) assms] by blast
  from c_prim_c_mul_c_add.minus [OF minus(1) this] show ?case by auto
qed simp_all

lemmas c_add_times_mul = c_add_times_mul_all(3)

lemma c_add_join_all:
  assumes "c_add s v" "ch \<in> {CHR ''*'', CHR ''-'', CHR ''+''}"
  shows "c_prim p x \<Longrightarrow> True" and "c_mul q z \<Longrightarrow> True" and "c_add t w \<Longrightarrow> \<exists>x. c_add (s @ '' '' @ [ch] @ '' '' @ t) x"
proof (induction rule: c_prim_c_mul_c_add.inducts)
  case (product t w)
  then show ?case
    using assms(2) c_add_times_mul [OF product(1) assms(1)] plus [OF assms(1) product(1)] minus [OF assms(1) product(1)] by auto
next
  case (plus t w u x)
  then obtain y where "c_add (s @ '' '' @ [ch] @ '' '' @ t) y" by blast
  from c_prim_c_mul_c_add.plus [OF this plus(2)] show ?case by auto
next
  case (minus t w u x)
  then obtain y where "c_add (s @ '' '' @ [ch] @ '' '' @ t) y" by blast
  from c_prim_c_mul_c_add.minus [OF this minus(2)] show ?case by auto
qed simp_all

lemmas c_add_join = c_add_join_all(3)

text \<open>Every random sequence gives an expression, far shorter than the buffer.\<close>

lemma gen_num_ok: "3 \<le> n \<Longrightarrow> \<exists>s v r'. gen_num R (buf, r) = (buf @ s, r') \<and> c_add s v \<and> length s \<le> n"
proof -
  assume "3 \<le> n"
  obtain k r' where k: "choose_rand R 100 r = (k, r')" by fastforce
  have "k < 100" using choose_rand_bound [OF _ k] by simp
  then have less: "unat k < 100" by (simp add: word_less_nat_alt)
  have k1: "unat (k + 1) = Suc (unat k)" using less by (simp add: unat_word_ariths)
  have "c_add (show_nat 10 (unat (k + 1))) (CV (int (unat (k + 1))) (int (unat (k + 1))))"
    using less by (intro product primary number) (simp_all add: k1)
  moreover have "length (show_nat 10 (unat (k + 1))) \<le> n"
    using less \<open>3 \<le> n\<close> by (simp add: k1 show_nat_def positional.simps [of 10])
  ultimately show ?thesis by (auto simp: gen_num_def k)
qed

lemma gen_blanks_ok: "\<exists>k r'. gen_blanks R i (buf, r) = (buf @ blanks k, r') \<and> k \<le> 2 - i"
proof (induction "3 - i" arbitrary: i buf r rule: less_induct)
  case less
  obtain k r' where k: "choose_rand R 3 r = (k, r')" by fastforce
  have "k < 3" using choose_rand_bound [OF _ k] by simp
  then have b: "unat k < 3" by (simp add: word_less_nat_alt)
  show ?case
  proof (cases "i < unat k")
    case True
    obtain j r'' where "gen_blanks R (Suc i) (buf @ '' '', r') = ((buf @ '' '') @ blanks j, r'')" "j \<le> 2 - Suc i"
      using less.hyps [of "Suc i" "buf @ '' ''" r'] True b by fastforce
    then have "gen_blanks R i (buf, r) = (buf @ blanks (Suc j), r'')" "Suc j \<le> 2 - i"
      using True b by (simp_all add: gen_blanks.simps [of R i buf r] k)
    then show ?thesis by blast
  next
    case False
    then show ?thesis by (auto simp: gen_blanks.simps [of R i buf r] k intro: exI [of _ 0])
  qed
qed

definition expr_len :: "nat \<Rightarrow> nat" where
  "expr_len k = 6 * 2 ^ k - 3"

lemma expr_len_Suc: "expr_len (Suc k) = 2 * expr_len k + 3" "3 \<le> expr_len k"
proof -
  have "(1 :: nat) \<le> 2 ^ k" by simp
  then show "expr_len (Suc k) = 2 * expr_len k + 3" "3 \<le> expr_len k" unfolding expr_len_def power_Suc by arith+
qed

lemma operator_char: "k < (3 :: u32) \<Longrightarrow> ''*-+'' ! unat k \<in> {CHR ''*'', CHR ''-'', CHR ''+''}"
proof -
  assume "k < 3"
  then have "unat k < 3" by (simp add: word_less_nat_alt)
  then consider "unat k = 0" | "unat k = 1" | "unat k = 2" by linarith
  then show ?thesis by cases simp_all
qed

lemma gen_recursive_ok:
  "\<exists>s v r'. gen_rand_expr_recursive R d (buf, r) = (buf @ s, r') \<and> c_add s v \<and> length s \<le> expr_len (Suc MAX_DEPTH - d)"
proof (induction "Suc MAX_DEPTH - d" arbitrary: d buf r)
  case 0
  then have "d > MAX_DEPTH" by simp
  then show ?case
    using gen_num_ok [of "expr_len 0" R buf r] expr_len_Suc(2) [of 0] 0 by (simp add: gen_rand_expr_recursive.simps [of R d buf r])
next
  case (Suc n)
  then have d: "\<not> MAX_DEPTH < d" and n: "n = Suc MAX_DEPTH - Suc d" by simp_all
  note IH = Suc.hyps(1) [OF n, folded n]
  note len = expr_len_Suc [of n] and D = Suc.hyps(2) [symmetric]
  obtain k r1 where k: "choose_rand R 3 r = (k, r1)" by fastforce
  note step = gen_rand_expr_recursive.simps [of R d buf r]
  consider "k = 0" | "k = 1" | "k \<noteq> 0" "k \<noteq> 1" by blast
  then show ?case
  proof cases
    case 1
    then show ?thesis
      using gen_num_ok [of "expr_len (Suc n)" R buf r1] expr_len_Suc(2) [of "Suc n"] by (simp add: step d k D)
  next
    case 2
    obtain i r2 where i: "gen_blanks R 0 (buf @ ''('', r1) = ((buf @ ''('') @ blanks i, r2)" "i \<le> 2"
      using gen_blanks_ok [of R 0 "buf @ ''(''" r1] by auto
    obtain s v r3 where s: "gen_rand_expr_recursive R (Suc d) ((buf @ ''('') @ blanks i, r2) = (((buf @ ''('') @ blanks i) @ s, r3)"
      "c_add s v" "length s \<le> expr_len n"
      using IH by blast
    obtain j r4 where j: "gen_blanks R 0 (((buf @ ''('') @ blanks i) @ s, r3) = ((((buf @ ''('') @ blanks i) @ s) @ blanks j, r4)" "j \<le> 2"
      using gen_blanks_ok [of R 0 _ r3] by fastforce
    have "gen_rand_expr_recursive R d (buf, r) = (buf @ ''('' @ blanks i @ s @ blanks j @ '')'', r4)"
      using i(1) s(1) j(1) 2 by (simp add: step d k)
    moreover have "c_add (''('' @ blanks i @ s @ blanks j @ '')'') v" by (intro product primary parens s)
    moreover have "length (''('' @ blanks i @ s @ blanks j @ '')'') \<le> expr_len (Suc MAX_DEPTH - d)"
      using i(2) j(2) s(3) len unfolding D by simp
    ultimately show ?thesis by blast
  next
    case 3
    obtain s v r2 where s: "gen_rand_expr_recursive R (Suc d) (buf, r1) = (buf @ s, r2)" "c_add s v" "length s \<le> expr_len n"
      using IH by blast
    obtain o1 r3 where o1: "choose_rand R 3 r2 = (o1, r3)" by fastforce
    let ?op = "''*-+'' ! unat o1"
    obtain t w r4 where t: "gen_rand_expr_recursive R (Suc d) ((buf @ s) @ '' '' @ [?op] @ '' '', r3)
        = (((buf @ s) @ '' '' @ [?op] @ '' '') @ t, r4)" "c_add t w" "length t \<le> expr_len n"
      using IH by blast
    have "gen_rand_expr_recursive R d (buf, r) = (buf @ s @ '' '' @ [?op] @ '' '' @ t, r4)"
      using s(1) t(1) 3 by (simp add: step d k o1)
    moreover obtain x where "c_add (s @ '' '' @ [?op] @ '' '' @ t) x"
      using c_add_join [OF s(2) operator_char t(2)] choose_rand_bound [OF _ o1] by auto
    moreover have "length (s @ '' '' @ [?op] @ '' '' @ t) \<le> expr_len (Suc MAX_DEPTH - d)"
      using s(3) t(3) len unfolding D by simp
    ultimately show ?thesis by blast
  qed
qed

lemma gen_rand_expr_ok: "\<exists>s v r'. gen_rand_expr R r = (s, r') \<and> c_add s v \<and> length s \<le> 93"
  using gen_recursive_ok [of R 0 "[]" r] by (simp add: gen_rand_expr_def expr_len_def MAX_DEPTH_def)

section \<open>The evaluator on such expressions\<close>

text \<open>The same grammar on tokens, with products nested to the right as the evaluator splits them.\<close>

abbreviation OP :: "token_type \<Rightarrow> token" where "OP t \<equiv> Token t []"

inductive t_prim :: "token list \<Rightarrow> cval \<Rightarrow> bool" and t_mul :: "token list \<Rightarrow> cval \<Rightarrow> bool" and t_add :: "token list \<Rightarrow> cval \<Rightarrow> bool" where
  t_number: "1 \<le> n \<Longrightarrow> c_atoi s = of_nat n \<Longrightarrow> t_prim [Token TK_NUM s] (CV (int n) (int n))"
| t_parens: "t_add ts v \<Longrightarrow> t_prim (LP # ts @ [RP]) v"
| t_primary: "t_prim ts v \<Longrightarrow> t_mul ts v"
| t_times: "t_prim ts v \<Longrightarrow> t_mul us w \<Longrightarrow> t_mul (ts @ OP T_mul # us) (v_times v w)"
| t_product: "t_mul ts v \<Longrightarrow> t_add ts v"
| t_plus: "t_add ts v \<Longrightarrow> t_mul us w \<Longrightarrow> t_add (ts @ OP T_plus # us) (v_plus v w)"
| t_minus: "t_add ts v \<Longrightarrow> t_mul us w \<Longrightarrow> t_add (ts @ OP T_minus # us) (v_minus v w)"

lemma v_times_assoc: "v_times (v_times a b) c = v_times a (v_times b c)"
  by (cases a; cases b; cases c) simp

lemma t_mul_snoc_all:
  assumes "t_prim us w"
  shows "t_prim p x \<Longrightarrow> True" and "t_mul ts v \<Longrightarrow> t_mul (ts @ OP T_mul # us) (v_times v w)" and "t_add q y \<Longrightarrow> True"
proof (induction rule: t_prim_t_mul_t_add.inducts)
  case (t_primary ts v)
  then show ?case using t_times [OF t_primary(1) t_prim_t_mul_t_add.t_primary [OF assms]] by simp
next
  case (t_times ts v us' w')
  then show ?case using t_prim_t_mul_t_add.t_times [OF t_times(1,4)] by (simp add: v_times_assoc)
qed simp_all

lemmas t_mul_snoc = t_mul_snoc_all(2)

text \<open>Parentheses are balanced, and the scan for the main operator passes over what is inside them.\<close>

lemma t_scan:
  shows "t_prim ps x \<Longrightarrow> ps \<noteq> [] \<and> (\<forall>r n. paren_scan (ps @ r) n = paren_scan r n) \<and>
      (\<forall>r i mo mp k. 0 < k \<longrightarrow> main_op_loop (ps @ r) i mo mp k = main_op_loop r (i + length ps) mo mp k)"
    and "t_mul ts v \<Longrightarrow> ts \<noteq> [] \<and> (\<forall>r n. paren_scan (ts @ r) n = paren_scan r n) \<and>
      (\<forall>r i mo mp k. 0 < k \<longrightarrow> main_op_loop (ts @ r) i mo mp k = main_op_loop r (i + length ts) mo mp k)"
    and "t_add us w \<Longrightarrow> us \<noteq> [] \<and> (\<forall>r n. paren_scan (us @ r) n = paren_scan r n) \<and>
      (\<forall>r i mo mp k. 0 < k \<longrightarrow> main_op_loop (us @ r) i mo mp k = main_op_loop r (i + length us) mo mp k)"
  by (induction rule: t_prim_t_mul_t_add.inducts) (simp_all add: add.assoc)

lemma t_add_scan: "t_add us w \<Longrightarrow> us \<noteq> []" "t_add us w \<Longrightarrow> paren_scan (us @ r) n = paren_scan r n"
  "t_add us w \<Longrightarrow> 0 < k \<Longrightarrow> main_op_loop (us @ r) i mo mp k = main_op_loop r (i + length us) mo mp k"
  using t_scan(3) by auto

text \<open>At the top level a primary leaves at most a provisional choice.\<close>

lemma t_prim_top:
  assumes "t_prim ts v" "mp \<le> 100"
  shows "\<exists>mo'. main_op_loop (ts @ r) i mo mp 0 = main_op_loop r (i + length ts) mo' mp 0 \<and> (mp < 100 \<longrightarrow> mo' = mo)"
  using assms(1)
proof cases
  case (t_number n s)
  then show ?thesis using assms(2) by (auto simp: precedence_def)
next
  case (t_parens us)
  then show ?thesis using t_add_scan(3) [OF t_parens(2), of 1 "RP # r"] by auto
qed

lemma t_mul_top_all:
  assumes "mp \<le> 6"
  shows "t_prim ps x \<Longrightarrow> True"
    and "t_mul ts v \<Longrightarrow> (\<forall>r i mo. main_op_loop (ts @ r) i mo mp 0 = main_op_loop r (i + length ts) mo mp 0)"
    and "t_add us w \<Longrightarrow> True"
proof (induction rule: t_prim_t_mul_t_add.inducts)
  case (t_primary ts v)
  then show ?case using t_prim_top [OF t_primary(1), of mp] assms by fastforce
next
  case (t_times ts v us w)
  have "main_op_loop (ts @ r) i mo mp 0 = main_op_loop r (i + length ts) mo mp 0" for r i mo
    using t_prim_top [OF t_times(1), of mp] assms by fastforce
  then show ?case using t_times(4) assms by (simp add: precedence_def add.assoc)
qed simp_all

lemmas t_mul_top = t_mul_top_all(2) [rule_format]

lemma t_mul_any:
  assumes "t_mul ts v"
  shows "\<exists>mo' mp'. main_op_loop (ts @ r) i mo 100 0 = main_op_loop r (i + length ts) mo' mp' 0 \<and> 5 < mp'"
  using assms
proof cases
  case t_primary
  then show ?thesis using t_prim_top [of ts v 100 r i mo] by fastforce
next
  case (t_times us x ws y)
  obtain mo' where "main_op_loop (us @ OP T_mul # ws @ r) i mo 100 0 = main_op_loop (OP T_mul # ws @ r) (i + length us) mo' 100 0"
    using t_prim_top [OF t_times(3), of 100 "OP T_mul # ws @ r" i mo] by auto
  also have "\<dots> = main_op_loop r (i + length ts) (Some (i + length us)) 6 0"
    using t_mul_top [OF _ t_times(4), of 6] by (simp add: precedence_def t_times(1) add.assoc)
  finally show ?thesis by (fastforce simp: t_times(1))
qed

definition sum_op :: "token_type \<Rightarrow> bool" where
  "sum_op t \<longleftrightarrow> t = T_plus \<or> t = T_minus"

lemma sum_op_top:
  assumes "sum_op t" "t_mul us w"
    "main_op_loop (ts @ OP t # us @ r) i mo 100 0 = main_op_loop (OP t # us @ r) (i + length ts) mo' mp' 0" "5 \<le> mp'"
  shows "main_op_loop ((ts @ OP t # us) @ r) i mo 100 0
    = main_op_loop r (i + length (ts @ OP t # us)) (Some (i + length ts)) 5 0"
  using assms(1,3,4) t_mul_top [OF _ assms(2), of 5]
  by (auto simp: sum_op_def precedence_def add.assoc)

lemma t_add_top_all:
  shows "t_prim ps x \<Longrightarrow> True" and "t_mul ts v \<Longrightarrow> True"
    and "t_add us w \<Longrightarrow> (\<forall>r i mo. \<exists>mo' mp'. main_op_loop (us @ r) i mo 100 0 = main_op_loop r (i + length us) mo' mp' 0 \<and> 5 \<le> mp')"
proof (induction rule: t_prim_t_mul_t_add.inducts)
  case (t_product ts v)
  then show ?case using t_mul_any [OF t_product(1)] less_imp_le by metis
next
  case (t_plus ts v us w)
  then show ?case using sum_op_top [OF _ t_plus(2), of T_plus] by (metis (full_types) order_refl sum_op_def)
next
  case (t_minus ts v us w)
  then show ?case using sum_op_top [OF _ t_minus(2), of T_minus] by (metis (full_types) order_refl sum_op_def)
qed simp_all

lemmas t_add_top = t_add_top_all(3) [rule_format]

text \<open>An expression starts with a primary, so a pair of parentheses around the whole is never seen by mistake.\<close>

lemma t_starts:
  shows "t_prim ps x \<Longrightarrow> True" and "t_mul ts v \<Longrightarrow> \<exists>p x r. t_prim p x \<and> ts = p @ r" and "t_add us w \<Longrightarrow> \<exists>p x r. t_prim p x \<and> us = p @ r"
  by (induction rule: t_prim_t_mul_t_add.inducts) (fastforce+)

lemma t_not_parens:
  assumes "t_prim p x" "r \<noteq> []"
  shows "\<not> check_parentheses (p @ r)"
  using assms(1)
proof cases
  case (t_number n s)
  then show ?thesis by (simp add: check_parentheses_def)
next
  case (t_parens ts)
  then show ?thesis using assms(2) t_add_scan(2) [OF t_parens(2)] by (auto simp: check_parentheses_def butlast_append)
qed

lemma eval_at_op:
  assumes "t_add ts z" "find_main_operator (ts @ OP t # us) = Some (length ts)" "\<not> is_unary t"
    "eval c maps ts True m = Inr (v, True, m)" "eval c maps us True m = Inr (w, True, m)"
  shows "eval c maps (ts @ OP t # us) True m = apply_op c maps t v w True m"
proof -
  obtain p x r where p: "t_prim p x" "ts = p @ r" using t_starts(3) [OF assms(1)] by blast
  have "\<not> check_parentheses (ts @ OP t # us)" using t_not_parens [OF p(1), of "r @ OP t # us"] p(2) by simp
  moreover have "ts \<noteq> []" by (rule t_add_scan(1) [OF assms(1)])
  ultimately show ?thesis
    using assms(2-5) by (subst eval.simps) (simp add: nth_append)
qed

lemma t_times_main:
  assumes "t_prim ts v" "t_mul us w"
  shows "find_main_operator (ts @ OP T_mul # us) = Some (length ts)"
  using t_prim_top [OF assms(1), of 100 "OP T_mul # us" 0 None] t_mul_top [OF _ assms(2), of 6 "[]"]
  by (auto simp: find_main_operator_def precedence_def)

lemma t_sum_main:
  assumes "t_add ts v" "t_mul us w" "sum_op t"
  shows "find_main_operator (ts @ OP t # us) = Some (length ts)"
proof -
  obtain mo' mp' where "main_op_loop (ts @ OP t # us @ []) 0 None 100 0 = main_op_loop (OP t # us @ []) (0 + length ts) mo' mp' 0" "5 \<le> mp'"
    using t_add_top [OF assms(1)] by blast
  from sum_op_top [OF assms(3,2) this] show ?thesis by (simp add: find_main_operator_def)
qed

text \<open>The bound is positive and bounds the value; below \<open>2 ^ 31\<close> every operation stays in the range of \<^verbatim>\<open>int\<close>.\<close>

definition bounded :: "cval \<Rightarrow> bool" where
  "bounded v \<longleftrightarrow> 1 \<le> cb v \<and> \<bar>cv v\<bar> \<le> cb v"

lemma bounded_ops:
  assumes "bounded v" "bounded w"
  shows "bounded (v_times v w)" "bounded (v_plus v w)" "bounded (v_minus v w)"
    "cb v \<le> cb (v_times v w)" "cb w \<le> cb (v_times v w)"
    "cb v \<le> cb (v_plus v w)" "cb w \<le> cb (v_plus v w)" "cb v \<le> cb (v_minus v w)" "cb w \<le> cb (v_minus v w)"
proof -
  obtain a b c d where v: "v = CV a b" "w = CV c d" by (cases v; cases w)
  have h: "1 \<le> b" "\<bar>a\<bar> \<le> b" "1 \<le> d" "\<bar>c\<bar> \<le> d" using assms by (simp_all add: bounded_def v)
  have "b * 1 \<le> b * d" "1 * d \<le> b * d" using h by (intro mult_mono; simp)+
  then have "b \<le> b * d" "d \<le> b * d" by simp_all
  moreover from this have "1 \<le> b * d" using h(1) by linarith
  moreover have "\<bar>a * c\<bar> \<le> b * d" unfolding abs_mult using h by (intro mult_mono) auto
  ultimately show "bounded (v_times v w)" "bounded (v_plus v w)" "bounded (v_minus v w)"
    "cb v \<le> cb (v_times v w)" "cb w \<le> cb (v_times v w)"
    "cb v \<le> cb (v_plus v w)" "cb w \<le> cb (v_plus v w)" "cb v \<le> cb (v_minus v w)" "cb w \<le> cb (v_minus v w)"
    using h by (auto simp: bounded_def v)
qed

lemma c_int_bounded:
  assumes "bounded v" "cb v < 2 ^ 31"
  shows "c_int (cv v) = Inr (word_of_int (cv v))" "sint (word_of_int (cv v) :: u32) = cv v"
proof -
  have "int_range (cv v)" using assms by (auto simp: bounded_def int_range_def abs_le_iff)
  then show "c_int (cv v) = Inr (word_of_int (cv v))" "sint (word_of_int (cv v) :: u32) = cv v"
    using sint_range by (auto simp: c_int_def int_range_def)
qed

lemma cv_ops: "cv (v_times v w) = cv v * cv w" "cv (v_plus v w) = cv v + cv w" "cv (v_minus v w) = cv v - cv w"
  by (cases v; cases w; simp)+

lemma binop_bounded:
  assumes "bounded v" "bounded w"
  shows "cb (v_times v w) < 2 ^ 31 \<Longrightarrow>
      binop T_mul (word_of_int (cv v)) (word_of_int (cv w)) = Inr (word_of_int (cv (v_times v w)))"
    and "cb (v_plus v w) < 2 ^ 31 \<Longrightarrow>
      binop T_plus (word_of_int (cv v)) (word_of_int (cv w)) = Inr (word_of_int (cv (v_plus v w)))"
    and "cb (v_minus v w) < 2 ^ 31 \<Longrightarrow>
      binop T_minus (word_of_int (cv v)) (word_of_int (cv w)) = Inr (word_of_int (cv (v_minus v w)))"
proof -
  note b = bounded_ops [OF assms]
  note v = c_int_bounded(2) [OF assms(1)] and w = c_int_bounded(2) [OF assms(2)]
  show "binop T_mul (word_of_int (cv v)) (word_of_int (cv w)) = Inr (word_of_int (cv (v_times v w)))" if l: "cb (v_times v w) < 2 ^ 31"
    using v [OF le_less_trans [OF b(4) l]] w [OF le_less_trans [OF b(5) l]] c_int_bounded(1) [OF b(1) l] by (simp add: binop_def cv_ops)
  show "binop T_plus (word_of_int (cv v)) (word_of_int (cv w)) = Inr (word_of_int (cv (v_plus v w)))" if l: "cb (v_plus v w) < 2 ^ 31"
    using v [OF le_less_trans [OF b(6) l]] w [OF le_less_trans [OF b(7) l]] c_int_bounded(1) [OF b(2) l] by (simp add: binop_def cv_ops)
  show "binop T_minus (word_of_int (cv v)) (word_of_int (cv w)) = Inr (word_of_int (cv (v_minus v w)))" if l: "cb (v_minus v w) < 2 ^ 31"
    using v [OF le_less_trans [OF b(8) l]] w [OF le_less_trans [OF b(9) l]] c_int_bounded(1) [OF b(3) l] by (simp add: binop_def cv_ops)
qed

definition evaluates :: "nemu_config \<Rightarrow> IOMap list \<Rightarrow> machine \<Rightarrow> token list \<Rightarrow> cval \<Rightarrow> bool" where
  "evaluates c maps m ts v \<longleftrightarrow> bounded v \<and> (cb v < 2 ^ 31 \<longrightarrow> eval c maps ts True m = Inr (word_of_int (cv v), True, m))"

lemma t_eval_all:
  shows "t_prim ps x \<Longrightarrow> evaluates c maps m ps x"
    and "t_mul ts v \<Longrightarrow> evaluates c maps m ts v"
    and "t_add us w \<Longrightarrow> evaluates c maps m us w"
proof (induction rule: t_prim_t_mul_t_add.inducts)
  case (t_number n s)
  then show ?case by (simp add: evaluates_def bounded_def eval_single eval_atom_def)
next
  case (t_parens ts v)
  then show ?case using eval_parens t_add_scan(1) [OF t_parens(1)] t_add_scan(2) [OF t_parens(1), of "[]" 0] by (simp add: evaluates_def)
next
  case (t_times ts v us w)
  have b: "bounded v" "bounded w" using t_times(3,4) by (simp_all add: evaluates_def)
  have a: "t_add ts v" by (intro t_product t_prim_t_mul_t_add.t_primary t_times)
  have "eval c maps (ts @ OP T_mul # us) True m = Inr (word_of_int (cv (v_times v w)), True, m)" if l: "cb (v_times v w) < 2 ^ 31"
    using eval_at_op [OF a t_times_main [OF t_times(1,2)], of c maps m] t_times(3,4) binop_bounded(1) [OF b l] bounded_ops(4,5) [OF b] l
    by (simp add: evaluates_def is_unary_def apply_op_def)
  then show ?case using bounded_ops(1) [OF b] by (simp add: evaluates_def)
next
  case (t_plus ts v us w)
  have b: "bounded v" "bounded w" using t_plus(3,4) by (simp_all add: evaluates_def)
  have "eval c maps (ts @ OP T_plus # us) True m = Inr (word_of_int (cv (v_plus v w)), True, m)" if l: "cb (v_plus v w) < 2 ^ 31"
    using eval_at_op [OF t_plus(1) t_sum_main [OF t_plus(1,2)], of T_plus c maps m] t_plus(3,4) binop_bounded(2) [OF b l] bounded_ops(6,7) [OF b] l
    by (simp add: evaluates_def is_unary_def apply_op_def sum_op_def)
  then show ?case using bounded_ops(2) [OF b] by (simp add: evaluates_def)
next
  case (t_minus ts v us w)
  have b: "bounded v" "bounded w" using t_minus(3,4) by (simp_all add: evaluates_def)
  have "eval c maps (ts @ OP T_minus # us) True m = Inr (word_of_int (cv (v_minus v w)), True, m)" if l: "cb (v_minus v w) < 2 ^ 31"
    using eval_at_op [OF t_minus(1) t_sum_main [OF t_minus(1,2)], of T_minus c maps m] t_minus(3,4) binop_bounded(3) [OF b l] bounded_ops(8,9) [OF b] l
    by (simp add: evaluates_def is_unary_def apply_op_def sum_op_def)
  then show ?case using bounded_ops(3) [OF b] by (simp add: evaluates_def)
qed simp_all

lemma t_eval: "t_add ts v \<Longrightarrow> cb v < 2 ^ 31 \<Longrightarrow> eval c maps ts True m = Inr (word_of_int (cv v), True, m)"
  using t_eval_all(3) [of ts v c maps m] by (simp add: evaluates_def)

text \<open>No operator of such an expression is taken for a unary one.\<close>

lemma t_mark:
  shows "t_prim ps x \<Longrightarrow> (\<forall>pr r. mark_unary pr (ps @ r) = ps @ mark_unary (Some T_rpar) r)"
    and "t_mul ts v \<Longrightarrow> (\<forall>pr r. mark_unary pr (ts @ r) = ts @ mark_unary (Some T_rpar) r)"
    and "t_add us w \<Longrightarrow> (\<forall>pr r. mark_unary pr (us @ r) = us @ mark_unary (Some T_rpar) r)"
proof (induction rule: t_prim_t_mul_t_add.inducts)
  case (t_number n s)
  have "ends_operand TK_NUM" by (simp add: ends_operand_def)
  then show ?case by (simp add: Let_def mark_unary_end)
qed (simp_all add: Let_def ends_operand_def)

section \<open>From text to tokens\<close>

lemma digits_val_append: "digits_val b acc (xs @ ys) = digits_val b (digits_val b acc xs) ys"
  by (induction b acc xs rule: digits_val.induct) simp_all

lemma digits_val_positional: "digits_val 10 0 (positional 10 n) = n"
proof (induction n rule: less_induct)
  case (less n)
  show ?case
  proof (cases "n = 0")
    case False
    have m: "n mod 10 \<le> 9" using mod_less_divisor [of 10 n] by linarith
    then have "digit_val (digit_char (n mod 10)) = n mod 10"
      using digit_char_code [of "n mod 10"] by (simp add: digit_val_def)
    then show ?thesis
      using less.IH [of "n div 10"] False by (subst positional.simps) (simp add: digits_val_append)
  qed (simp add: positional.simps)
qed

lemma show_nat_digits: "list_all is_digit (show_nat 10 n)" "show_nat 10 n \<noteq> []" "digits_val 10 0 (show_nat 10 n) = n"
proof -
  show "list_all is_digit (show_nat 10 n)"
    using positional_digits [of _ n] by (auto simp: show_nat_def is_digit_def list_all_iff)
  show "show_nat 10 n \<noteq> []" by (simp add: show_nat_def positional.simps)
  show "digits_val 10 0 (show_nat 10 n) = n"
    by (simp add: show_nat_def digits_val_positional digit_val_def)
qed

lemma c_atoi_show: "n < 2 ^ 31 \<Longrightarrow> c_atoi (show_nat 10 n) = of_nat n"
  by (simp add: c_atoi_def show_nat_digits min_def)

definition stops :: "string \<Rightarrow> bool" where
  "stops r \<longleftrightarrow> (case r of [] \<Rightarrow> True | ch # _ \<Rightarrow> ch = CHR '' '' \<or> ch = CHR '')'')"

lemma stops_simps [simp]: "stops []" "stops (CHR '' '' # r)" "stops (CHR '')'' # r)"
  by (simp_all add: stops_def)

lemma class_len_digits:
  assumes "list_all is_digit s" "stops r"
  shows "class_len is_digit (s @ r) = length s"
proof (cases r)
  case Nil
  then show ?thesis using assms(1) by (induction s) (auto simp: class_len_def)
next
  case (Cons ch r')
  then have "\<not> is_digit ch" using assms(2) by (auto simp: stops_def is_digit_def)
  then show ?thesis using class_len_stop [OF assms(1)] Cons by simp
qed

lemma lex_number:
  assumes "s \<noteq> []" "list_all is_digit s" "stops r"
  shows "first_rule rules (s @ r) = Some (length s, Some TK_NUM)"
proof -
  obtain d ds where s: "s = d # ds" using assms(1) by (cases s) auto
  have d: "is_digit d" and ds: "list_all is_digit ds" using assms(2) s by auto
  have "regexec (Prefixed [\<lambda>ch. ch = CHR ''0'', \<lambda>ch. ch = CHR ''x'' \<or> ch = CHR ''X''] is_hex) (d # ds @ r) = None"
    using ds digit_char [of "hd ds"] assms(3) by (cases ds; cases r) (auto simp: stops_def)
  then show ?thesis
    unfolding s rules_def using digit_char [OF d] d class_len_digits [OF ds assms(3)]
    by (simp add: class_len_Cons del: regexec.simps(3))
qed

text \<open>\<open>lexes s ts\<close>: the text \<open>s\<close> gives the tokens \<open>ts\<close> wherever it is followed by a blank, a closing parenthesis or the end.\<close>

definition lexes :: "string \<Rightarrow> token list \<Rightarrow> bool" where
  "lexes s ts \<longleftrightarrow> (\<forall>nr r. stops r \<longrightarrow> nr + length ts \<le> MAX_TOKENS \<longrightarrow>
     make_token_from nr (s @ r) = ebind (make_token_from (nr + length ts) r) (\<lambda>us. Inr (ts @ us)))"

lemma lexes_number: "n < 2 ^ 31 \<Longrightarrow> lexes (show_nat 10 n) [Token TK_NUM (show_nat 10 n)]"
proof -
  assume "n < 2 ^ 31"
  then have "length (show_nat 10 n) < 32"
    using positional_length [of 10 n 31] by (auto simp: show_nat_def)
  then show ?thesis
    unfolding lexes_def
    by (intro allI impI, subst make_token_from.simps) (auto simp: lex_number show_nat_digits keeps_str_def)
qed

lemma make_token_blank [simp]: "make_token_from nr (CHR '' '' # r) = make_token_from nr r"
proof -
  have l: "make_token_from nr (CHR '' '' # u) = make_token_from nr (dropWhile (\<lambda>ch. ch = CHR '' '') u)" for u
  proof -
    have "drop (class_len (\<lambda>ch. ch = CHR '' '') u) u = dropWhile (\<lambda>ch. ch = CHR '' '') u"
      by (simp add: class_len_def dropWhile_eq_drop)
    then show ?thesis by (subst make_token_from.simps) (simp add: lex_space)
  qed
  show ?thesis
  proof (cases r)
    case (Cons ch r')
    then show ?thesis using l [of r] l [of r'] by auto
  qed (use l [of r] in simp)
qed

lemma make_token_blanks [simp]: "make_token_from nr (blanks k @ r) = make_token_from nr r"
  by (induction k) simp_all

lemma make_token_symbol:
  assumes "(ch, t) \<in> {(CHR ''+'', T_plus), (CHR ''-'', T_minus), (CHR ''*'', T_mul), (CHR ''('', T_lpar), (CHR '')'', T_rpar)}"
    "nr < MAX_TOKENS"
  shows "make_token_from nr (ch # r) = ebind (make_token_from (Suc nr) r) (\<lambda>us. Inr (OP t # us))"
proof -
  consider "ch = CHR ''+''" "t = T_plus" | "ch = CHR ''-''" "t = T_minus" | "ch = CHR ''*''" "t = T_mul"
    | "ch = CHR ''(''" "t = T_lpar" | "ch = CHR '')''" "t = T_rpar"
    using assms(1) by blast
  then have "first_rule rules (ch # r) = Some (1, Some t)" "\<not> keeps_str t"
    by (cases; simp add: rules_def class_len_Cons keeps_str_def)+
  then show ?thesis using assms(2) by (subst make_token_from.simps) simp
qed

text \<open>Every C expression is read as tokens of the same grammar.\<close>

lemma lexes_operator:
  assumes "lexes s ts" "lexes t us" "(ch, op) \<in> {(CHR ''+'', T_plus), (CHR ''-'', T_minus), (CHR ''*'', T_mul)}"
  shows "lexes (s @ '' '' @ [ch] @ '' '' @ t) (ts @ OP op # us)"
  unfolding lexes_def
proof (intro allI impI)
  fix nr r
  assume r: "stops r" "nr + length (ts @ OP op # us) \<le> MAX_TOKENS"
  have "make_token_from nr (s @ CHR '' '' # ch # CHR '' '' # t @ r)
      = ebind (make_token_from (nr + length ts) (ch # CHR '' '' # t @ r)) (\<lambda>us. Inr (ts @ us))"
    using assms(1) r(2) by (simp add: lexes_def)
  also have "make_token_from (nr + length ts) (ch # CHR '' '' # t @ r)
      = ebind (make_token_from (Suc (nr + length ts)) (t @ r)) (\<lambda>us. Inr (OP op # us))"
    using make_token_symbol [of ch op "nr + length ts" "CHR '' '' # t @ r"] assms(3) r(2) by auto
  also have "make_token_from (Suc (nr + length ts)) (t @ r)
      = ebind (make_token_from (nr + length (ts @ OP op # us)) r) (\<lambda>vs. Inr (us @ vs))"
    using assms(2) r by (simp add: lexes_def add.assoc)
  finally show "make_token_from nr ((s @ '' '' @ [ch] @ '' '' @ t) @ r)
      = ebind (make_token_from (nr + length (ts @ OP op # us)) r) (\<lambda>vs. Inr ((ts @ OP op # us) @ vs))"
    by (simp add: ebind_assoc)
qed

lemma stops_blanks: "stops (blanks j @ CHR '')'' # r)"
  by (cases j) simp_all

lemma lexes_parens:
  assumes "lexes s ts"
  shows "lexes (''('' @ blanks i @ s @ blanks j @ '')'') (LP # ts @ [RP])"
  unfolding lexes_def
proof (intro allI impI)
  fix nr r
  assume r: "stops r" "nr + length (LP # ts @ [RP]) \<le> MAX_TOKENS"
  have "make_token_from (Suc nr) (s @ blanks j @ CHR '')'' # r)
      = ebind (make_token_from (Suc nr + length ts) (CHR '')'' # r)) (\<lambda>us. Inr (ts @ us))"
    using assms r(2) stops_blanks by (simp add: lexes_def)
  moreover have "make_token_from nr (CHR ''('' # blanks i @ s @ blanks j @ CHR '')'' # r)
      = ebind (make_token_from (Suc nr) (s @ blanks j @ CHR '')'' # r)) (\<lambda>us. Inr (LP # us))"
    using make_token_symbol [of "CHR ''(''" T_lpar nr] r(2) by simp
  moreover have "make_token_from (Suc nr + length ts) (CHR '')'' # r)
      = ebind (make_token_from (nr + length (LP # ts @ [RP])) r) (\<lambda>us. Inr (RP # us))"
    using make_token_symbol [of "CHR '')''" T_rpar "Suc nr + length ts"] r(2) by simp
  ultimately show "make_token_from nr ((''('' @ blanks i @ s @ blanks j @ '')'') @ r)
      = ebind (make_token_from (nr + length (LP # ts @ [RP])) r) (\<lambda>us. Inr ((LP # ts @ [RP]) @ us))"
    by (simp add: ebind_assoc)
qed

lemma c_tokens:
  shows "c_prim s1 v1 \<Longrightarrow> \<exists>ts. lexes s1 ts \<and> length ts \<le> length s1 \<and> t_prim ts v1"
    and "c_mul s2 v2 \<Longrightarrow> \<exists>ts. lexes s2 ts \<and> length ts \<le> length s2 \<and> t_mul ts v2"
    and "c_add s3 v3 \<Longrightarrow> \<exists>ts. lexes s3 ts \<and> length ts \<le> length s3 \<and> t_add ts v3"
proof (induction rule: c_prim_c_mul_c_add.inducts)
  case (number n)
  have "t_prim [Token TK_NUM (show_nat 10 n)] (CV (int n) (int n))" using t_number [OF number(1) c_atoi_show [OF number(2)]] .
  moreover have "length [Token TK_NUM (show_nat 10 n)] \<le> length (show_nat 10 n)"
    using show_nat_digits(2) [of n] by (cases "show_nat 10 n") auto
  ultimately show ?case using lexes_number [OF number(2)] by blast
next
  case (parens s v i j)
  then obtain ts where "lexes s ts" "length ts \<le> length s" "t_add ts v" by blast
  then show ?case using lexes_parens [of s ts i j] t_parens [of ts v]
    by (intro exI [of _ "LP # ts @ [RP]"]) auto
next
  case (primary s v)
  then show ?case using t_primary by blast
next
  case (times s v t w)
  then obtain ts us where "lexes s ts" "length ts \<le> length s" "t_mul ts v" "lexes t us" "length us \<le> length t" "t_prim us w" by blast
  then show ?case using lexes_operator [of s ts t us "CHR ''*''" T_mul] t_mul_snoc [of us w ts v]
    by (intro exI [of _ "ts @ OP T_mul # us"]) auto
next
  case (product s v)
  then show ?case using t_product by blast
next
  case (plus s v t w)
  then obtain ts us where "lexes s ts" "length ts \<le> length s" "t_add ts v" "lexes t us" "length us \<le> length t" "t_mul us w" by blast
  then show ?case using lexes_operator [of s ts t us "CHR ''+''" T_plus] t_plus [of ts v us w]
    by (intro exI [of _ "ts @ OP T_plus # us"]) auto
next
  case (minus s v t w)
  then obtain ts us where "lexes s ts" "length ts \<le> length s" "t_add ts v" "lexes t us" "length us \<le> length t" "t_mul us w" by blast
  then show ?case using lexes_operator [of s ts t us "CHR ''-''" T_minus] t_minus [of ts v us w]
    by (intro exI [of _ "ts @ OP T_minus # us"]) auto
qed

lemma expr_c_add:
  assumes "c_add s v" "length s \<le> MAX_TOKENS" "cb v < 2 ^ 31"
  shows "expr c maps s m = Inr (word_of_int (cv v), True, m)"
proof -
  obtain ts where ts: "lexes s ts" "length ts \<le> length s" "t_add ts v" using c_tokens(3) [OF assms(1)] by blast
  have "make_token_from (length ts) [] = Inr []" by (subst make_token_from.simps) simp
  then have "make_token s = Inr ts"
    using ts(1,2) assms(2) unfolding lexes_def make_token_def by (metis add_0 append_Nil2 ebind_simps(2) le_trans stops_simps(1))
  moreover have "mark_unary None ts = ts" using t_mark(3) [OF ts(3)] by (metis append_Nil2 mark_unary.simps(1))
  ultimately show ?thesis using t_eval [OF ts(3) assms(3)] t_add_scan(1) [OF ts(3)] by (simp add: expr_def)
qed

text \<open>
  C10: the debugger evaluates the expressions of the generator as C does. For every sequence of random numbers the generator
  ends with an expression of at most 93 characters that the grammar of C derives, and for every value \<open>v\<close> with which the grammar
  derives it, \<^verbatim>\<open>expr\<close> succeeds with \<open>v\<close> and leaves the machine alone, although it splits products at the first operator instead of
  the last. The condition is that nothing overflows, which is undefined in C: the expression with every difference
  read as a sum stays below \<open>2 ^ 31\<close>.
\<close>

theorem generated_expr_evaluates:
  "\<exists>s r'. gen_rand_expr R r = (s, r') \<and> length s \<le> 93 \<and> (\<exists>v b. c_add s (CV v b)) \<and>
    (\<forall>v b. c_add s (CV v b) \<longrightarrow> b < 2 ^ 31 \<longrightarrow> expr c maps s m = Inr (word_of_int v, True, m))"
proof -
  obtain s v r' where s: "gen_rand_expr R r = (s, r')" "c_add s v" "length s \<le> 93" using gen_rand_expr_ok [of R r] by blast
  then have "length s \<le> MAX_TOKENS" by (simp add: MAX_TOKENS_def)
  then have "expr c maps s m = Inr (word_of_int v, True, m)" if "c_add s (CV v b)" "b < 2 ^ 31" for v b
    using expr_c_add [OF that(1)] that(2) by simp
  moreover have "\<exists>v b. c_add s (CV v b)" using s(2) by (cases v) auto
  ultimately show ?thesis using s(1,3) by blast
qed

text \<open>The generator that always draws the number 1.\<close>

definition ones :: "unit rng" where "ones r = (1, r)"

lemma ones_expr: "gen_rand_expr ones r = (''( ( ( ( 2 ) ) ) )'', ())"
proof -
  have c: "choose_rand ones 3 r = (1, r)" "choose_rand ones 100 r = (1, r)" for r
    by (simp_all add: choose_rand_def ones_def)
  have b: "gen_blanks ones 0 (buf, r) = (buf @ '' '', r)" for buf r
    by (simp add: gen_blanks.simps c)
  have n: "gen_num ones (buf, r) = (buf @ ''2'', r)" for buf r
    by (simp add: gen_num_def c show_nat_def positional.simps digit_char_def char_of_def bit_Suc_0_iff)
  show ?thesis
    by (simp add: gen_rand_expr_def gen_rand_expr_recursive.simps MAX_DEPTH_def c b n)
qed

lemma ones_c_add: "c_add ''( ( ( ( 2 ) ) ) )'' (CV 2 2)"
proof -
  have two: "show_nat 10 2 = ''2''" by (simp add: show_nat_def positional.simps digit_char_def char_of_def bit_Suc_0_iff)
  have wrap: "c_add (''('' @ blanks 1 @ s @ blanks 1 @ '')'') v" if "c_add s v" for s v
    by (rule product, rule primary, rule parens, rule that)
  have "c_add ''2'' (CV 2 2)" using product [OF primary [OF number [of 2]]] two by simp
  from wrap [OF wrap [OF wrap [OF wrap [OF this]]]] show ?thesis by simp
qed

theorem generated_expr_evaluates_witness:
  "gen_rand_expr ones () = (''( ( ( ( 2 ) ) ) )'', ()) \<and>
    expr quiet_config [] ''( ( ( ( 2 ) ) ) )'' (machine_zero quiet_config) = Inr (2, True, machine_zero quiet_config)"
proof -
  obtain s where "gen_rand_expr ones () = (s, ())"
    "\<forall>v b. c_add s (CV v b) \<longrightarrow> b < 2 ^ 31 \<longrightarrow> expr quiet_config [] s (machine_zero quiet_config) = Inr (word_of_int v, True, machine_zero quiet_config)"
    using generated_expr_evaluates [of ones "()" quiet_config "[]" "machine_zero quiet_config"] by auto
  then show ?thesis using ones_c_add by (simp add: ones_expr)
qed

section \<open>Generated tests pass\<close>

lemma c_chars:
  shows "c_prim s1 v1 \<Longrightarrow> s1 \<noteq> [] \<and> \<not> c_space (hd s1) \<and> newline \<notin> set s1"
    and "c_mul s2 v2 \<Longrightarrow> s2 \<noteq> [] \<and> \<not> c_space (hd s2) \<and> newline \<notin> set s2"
    and "c_add s3 v3 \<Longrightarrow> s3 \<noteq> [] \<and> \<not> c_space (hd s3) \<and> newline \<notin> set s3"
proof (induction rule: c_prim_c_mul_c_add.inducts)
  case (number n)
  have "\<forall>ch \<in> set (show_nat 10 n). is_digit ch" using show_nat_digits(1) by (simp add: list_all_iff)
  moreover have "\<not> is_digit newline" "is_digit ch \<Longrightarrow> \<not> c_space ch" for ch
    by (auto simp: is_digit_def newline_def c_space_def)
  ultimately show ?case using show_nat_digits(2) [of n] hd_in_set by blast
qed (auto simp: newline_def c_space_def)

lemma takeWhile_stop: "list_all P xs \<Longrightarrow> \<not> P y \<Longrightarrow> takeWhile P (xs @ y # ys) = xs \<and> dropWhile P (xs @ y # ys) = y # ys"
  by (induction xs) auto

lemma scan_case_line:
  assumes "c_add s v"
  shows "scan_case (show_nat 10 (unat w) @ '' '' @ s @ [newline] @ rest) = Some (w, s, newline # rest)"
proof -
  let ?d = "show_nat 10 (unat w)"
  obtain d ds where d: "?d = d # ds" using show_nat_digits(2) by (cases ?d) auto
  have "is_digit d" using show_nat_digits(1) [of "unat w"] d by simp
  then have "\<not> c_space d" "d \<noteq> CHR ''-''" "d \<noteq> CHR ''+''" by (auto simp: is_digit_def c_space_def)
  then have start: "scan_sign (dropWhile c_space (?d @ u)) = (False, ?d @ u)" for u by (simp add: scan_sign_def d)
  have "scan_u (?d @ CHR '' '' # u) = Some (w, CHR '' '' # u)" for u
    using takeWhile_stop [OF show_nat_digits(1), of "CHR '' ''" "unat w" u] show_nat_digits(2,3) unsigned_less [of w, where 'a = nat]
    by (simp add: scan_u_def start)
  moreover have "dropWhile c_space (CHR '' '' # s @ newline # rest) = s @ newline # rest"
    using c_chars(3) [OF assms] by (cases s) (auto simp: c_space_def)
  moreover have "list_all (\<lambda>ch. ch \<noteq> newline) s" "s \<noteq> []" using c_chars(3) [OF assms] by (auto simp: list_all_iff)
  ultimately show ?thesis
    using takeWhile_stop [of "\<lambda>ch. ch \<noteq> newline" s newline rest] by (simp add: scan_case_def)
qed

lemma scan_case_newline: "scan_case (newline # s) = scan_case s"
  by (simp add: scan_case_def scan_u_def newline_def c_space_def)

lemma test_loop_newline: "test_loop c maps (newline # s) k m = test_loop c maps s k m"
  by (simp add: test_loop.simps [of _ _ _ k] scan_case_newline)

text \<open>The expressions of a run, and those in which nothing overflows.\<close>

primrec run_exprs :: "'r rng \<Rightarrow> nat \<Rightarrow> 'r \<Rightarrow> string list" where
  "run_exprs R 0 r = []"
| "run_exprs R (Suc n) r = (let (s, r') = gen_rand_expr R r in s # run_exprs R n r')"

definition no_overflow :: "string \<Rightarrow> bool" where
  "no_overflow s \<longleftrightarrow> (\<exists>v b. c_add s (CV v b) \<and> b < 2 ^ 31)"

text \<open>
  What C promises of the compiled program when nothing overflows: it prints the value of its expression, converted to
  \<^verbatim>\<open>unsigned\<close>.
\<close>

definition prints_value :: "(string \<Rightarrow> string option res) \<Rightarrow> string \<Rightarrow> bool" where
  "prints_value compiled s \<longleftrightarrow>
    (\<forall>v b. c_add s (CV v b) \<longrightarrow> b < 2 ^ 31 \<longrightarrow> compiled (code_text s) = Inr (Some (show_nat 10 (nat (v mod 2 ^ 32)))))"

lemma scan_show: "n < 2 ^ 32 \<Longrightarrow> scan_int32 (show_nat 10 n) = Some (of_nat n)"
proof -
  assume n: "n < 2 ^ 32"
  let ?d = "show_nat 10 n"
  obtain d ds where d: "?d = d # ds" using show_nat_digits(2) by (cases ?d) auto
  have all: "list_all is_digit ?d" by (rule show_nat_digits)
  then have "is_digit d" using d by simp
  then have h: "d \<noteq> CHR '' ''" "\<not> (9 \<le> (of_char d :: nat) \<and> (of_char d :: nat) \<le> 13)" "d \<noteq> CHR ''-''" "d \<noteq> CHR ''+''"
    by (auto simp: is_digit_def)
  have tw: "takeWhile is_digit ?d = ?d" using all by (simp add: takeWhile_eq_all_conv list_all_iff)
  have "foldl (\<lambda>v d. 10 * v + int (digit_val d)) (int acc) s = int (digits_val 10 acc s)" for acc s
  proof (induction s arbitrary: acc)
    case (Cons a s)
    then show ?case using Cons [of "acc * 10 + digit_val a"] by (simp add: mult.commute)
  qed simp
  from this [of 0 ?d] have "scan_digits ?d = Some (int n)"
    using show_nat_digits(2,3) [of n] by (simp add: scan_digits_def tw)
  then have "scan_int ?d = Some (int n)" using h by (auto simp: scan_int_def d)
  moreover have "max (- (2 ^ 63)) (min (int n) (2 ^ 63 - 1)) = int n" using n by simp
  ultimately show ?thesis unfolding scan_int32_def by simp
qed

lemma gen_loop_passes:
  assumes "\<forall>s \<in> set (run_exprs R n r). no_overflow s \<and> prints_value compiled s"
  shows "\<exists>out. gen_loop R compiled n r = Inr out \<and> (\<forall>k m. test_loop c maps out k m = Inr (k + n, m))"
  using assms
proof (induction n arbitrary: r)
  case 0
  then show ?case by (simp add: test_loop.simps scan_case_def scan_u_def scan_sign_def)
next
  case (Suc n)
  obtain s x r' where s: "gen_rand_expr R r = (s, r')" "c_add s x" "length s \<le> 93" using gen_rand_expr_ok [of R r] by blast
  obtain v b where v: "c_add s (CV v b)" "b < 2 ^ 31" "prints_value compiled s" using Suc.prems s(1) by (auto simp: no_overflow_def)
  obtain out where out: "gen_loop R compiled n r' = Inr out" "\<forall>k m. test_loop c maps out k m = Inr (k + n, m)"
    using Suc.IH [of r'] Suc.prems s(1) by auto
  define w where "w = (of_nat (nat (v mod 2 ^ 32)) :: u32)"
  have w: "w = word_of_int v" by (simp add: w_def word_uint_eq_iff uint_word_of_int take_bit_eq_mod)
  have "scan_int32 (show_nat 10 (nat (v mod 2 ^ 32))) = Some w" unfolding w_def by (rule scan_show) (simp add: nat_less_iff)
  then have "gen_loop R compiled (Suc n) r = Inr (show_nat 10 (unat w) @ '' '' @ s @ [newline] @ out)"
    using v by (simp add: s(1) out(1) prints_value_def)
  moreover have "test_loop c maps (show_nat 10 (unat w) @ '' '' @ s @ [newline] @ out) k m = Inr (k + Suc n, m)" for k m
    using s(3) out(2) scan_case_line [OF v(1), of w out] expr_c_add [OF v(1), of c maps m] v(2)
    by (subst test_loop.simps) (simp add: MAX_TOKENS_def test_loop_newline w)
  ultimately show ?case by blast
qed



end
