(* ===== verification/Am_Native_Vme.thy ===== *)
theory Am_Native_Vme
  imports Nemu_Prelude
begin

text \<open>
  Virtual memory of the abstract machine on the host (\<^verbatim>\<open>am/src/native/vme.c\<close>): an address space is a linked list of page
  mappings with a hash table, and a context switch replaces the mappings of the host process. The nodes and list heads are records in
  a store, addresses are 64-bit words and 0 is \<^verbatim>\<open>NULL\<close>. The kernel's page allocator is a parameter: the pages it will return are a
  list in the state. The mappings of the host process are a partial map; the host calls that change it succeed.
\<close>

section \<open>State\<close>

record PageMap =
  va :: u64
  pa :: u64
  next_page :: u64
  prot :: u32
  is_mapped :: bool

text \<open>The key of the hash table is the text of the low 32 bits of the address, so the word stands for it.\<close>

record VMHead =
  head :: u64
  hash :: "u32 \<rightharpoonup> u64"
  nr_page :: u32

record native_vm =
  pages :: "u64 \<Rightarrow> PageMap"
  heads :: "u64 \<Rightarrow> VMHead"
  pool :: "u64 list"
  cpu_vm_head :: u64
  vme_enable :: bool
  process :: "u64 \<rightharpoonup> u64 \<times> u32"

definition USER_START :: u64 where "USER_START = 0x40000000"
definition USER_END :: u64 where "USER_END = 0xc0000000"

definition in_user_space :: "u64 \<Rightarrow> bool" where
  "in_user_space a \<longleftrightarrow> USER_START \<le> a \<and> a < USER_END"

definition key_of :: "u64 \<Rightarrow> u32" where
  "key_of a = ucast a"

definition upd_page :: "u64 \<Rightarrow> (PageMap \<Rightarrow> PageMap) \<Rightarrow> native_vm \<Rightarrow> native_vm" where
  "upd_page p f s = s\<lparr>pages := (pages s)(p := f (pages s p))\<rparr>"

definition upd_head :: "u64 \<Rightarrow> (VMHead \<Rightarrow> VMHead) \<Rightarrow> native_vm \<Rightarrow> native_vm" where
  "upd_head h f s = s\<lparr>heads := (heads s)(h := f (heads s h))\<rparr>"

section \<open>Host mappings: platform.c\<close>

text \<open>\<^verbatim>\<open>PROT_READ\<close>, \<^verbatim>\<open>PROT_WRITE\<close> and \<^verbatim>\<open>PROT_EXEC\<close> are 1, 2 and 4; \<^verbatim>\<open>MMAP_READ\<close> and \<^verbatim>\<open>MMAP_WRITE\<close> are 1 and 2.\<close>

definition mmap_prot :: "u32 \<Rightarrow> u32" where
  "mmap_prot pr = (if pr AND 1 \<noteq> 0 then 1 OR 4 else 0) OR (if pr AND 2 \<noteq> 0 then 2 else 0)"

definition pmem_map :: "u64 \<Rightarrow> u64 \<Rightarrow> u32 \<Rightarrow> native_vm \<Rightarrow> native_vm" where
  "pmem_map v p pr s = s\<lparr>process := (process s)(v \<mapsto> (p, mmap_prot pr))\<rparr>"

definition pmem_unmap :: "u64 \<Rightarrow> native_vm \<Rightarrow> native_vm" where
  "pmem_unmap v s = s\<lparr>process := (process s)(v := None)\<rparr>"

section \<open>Operations: vme.c\<close>

definition vme_init :: "u64 list \<Rightarrow> native_vm \<Rightarrow> native_vm" where
  "vme_init pgs s = s\<lparr>pool := pgs, vme_enable := True\<rparr>"

definition protect :: "native_vm \<Rightarrow> (u64 \<times> native_vm) res" where
  "protect s =
    (case pool s of [] \<Rightarrow> Inl Assert_fail
     | h # ps \<Rightarrow> Inr (h, upd_head h (\<lambda>_. \<lparr>head = 0, hash = Map.empty, nr_page = 0\<rparr>) (s\<lparr>pool := ps\<rparr>)))"

definition unprotect :: "u64 \<Rightarrow> native_vm \<Rightarrow> native_vm" where
  "unprotect h s = s"

text \<open>The loops over a list: they go on as long as the list does.\<close>

partial_function (option) unmap_list :: "u64 \<Rightarrow> native_vm \<Rightarrow> native_vm option" where
  "unmap_list p s =
    (if p = 0 then Some s
     else unmap_list (next_page (pages s p))
       (if is_mapped (pages s p)
        then upd_page p (\<lambda>n. n\<lparr>is_mapped := False\<rparr>) (pmem_unmap (va (pages s p)) s) else s))"

partial_function (option) map_list :: "u64 \<Rightarrow> native_vm \<Rightarrow> native_vm res option" where
  "map_list p s =
    (if p = 0 then Some (Inr s)
     else if \<not> in_user_space (va (pages s p)) then Some (Inl Assert_fail)
     else map_list (next_page (pages s p))
       (upd_page p (\<lambda>n. n\<lparr>is_mapped := True\<rparr>) (pmem_map (va (pages s p)) (pa (pages s p)) (prot (pages s p)) s)))"

definition am_switch :: "u64 \<Rightarrow> native_vm \<Rightarrow> native_vm res option" where
  "am_switch h s =
    (if \<not> vme_enable s then Some (Inr s)
     else if h = cpu_vm_head s then Some (Inr (s\<lparr>cpu_vm_head := h\<rparr>))
     else
       case (if cpu_vm_head s \<noteq> 0 then unmap_list (head (heads s (cpu_vm_head s))) s else Some s) of
         None \<Rightarrow> None
       | Some s \<Rightarrow>
         (case (if h \<noteq> 0 then map_list (head (heads s h)) s else Some (Inr s)) of
            None \<Rightarrow> None
          | Some r \<Rightarrow> Some (ebind r (\<lambda>s. Inr (s\<lparr>cpu_vm_head := h\<rparr>)))))"

text \<open>A new node comes from the allocator, whose answer is not checked.\<close>

definition find_page :: "u64 \<Rightarrow> u64 \<Rightarrow> native_vm \<Rightarrow> (u64 \<times> native_vm) res" where
  "find_page h v s =
    (case hash (heads s h) (key_of v) of
       Some p \<Rightarrow> Inr (p, s)
     | None \<Rightarrow>
        (case pool s of [] \<Rightarrow> Inl (Undef ''null page'')
         | p # ps \<Rightarrow> Inr (p, upd_head h (\<lambda>vm. vm\<lparr>hash := (hash vm)(key_of v \<mapsto> p), nr_page := nr_page vm + 1\<rparr>) (s\<lparr>pool := ps\<rparr>))))"

definition map_page :: "u64 \<Rightarrow> u64 \<Rightarrow> u64 \<Rightarrow> u64 \<Rightarrow> u32 \<Rightarrow> native_vm \<Rightarrow> native_vm res" where
  "map_page pgsize h v p pr s =
    ebind (echeck (in_user_space v \<and> v mod pgsize = 0 \<and> p mod pgsize = 0 \<and> h \<noteq> 0) Assert_fail) (\<lambda>_.
    ebind (find_page h v s) (\<lambda>(pp, s).
      let s = upd_page pp (\<lambda>_. \<lparr>va = v, pa = p, next_page = head (heads s h), prot = pr, is_mapped = False\<rparr>) s;
          s = upd_head h (\<lambda>vm. vm\<lparr>head := pp\<rparr>) s
      in Inr (if h = cpu_vm_head s
              then upd_page pp (\<lambda>n. n\<lparr>is_mapped := True\<rparr>) (pmem_map v p pr s) else s)))"

definition am_in_userspace :: "u64 \<Rightarrow> native_vm \<Rightarrow> bool" where
  "am_in_userspace a s \<longleftrightarrow> vme_enable s \<and> cpu_vm_head s \<noteq> 0 \<and> in_user_space a"

section \<open>Lists of pages\<close>

primrec path :: "(u64 \<Rightarrow> PageMap) \<Rightarrow> u64 \<Rightarrow> u64 list \<Rightarrow> bool" where
  "path P p [] \<longleftrightarrow> p = 0"
| "path P p (q # qs) \<longleftrightarrow> p = q \<and> q \<noteq> 0 \<and> path P (next_page (P q)) qs"

definition mapping :: "PageMap \<Rightarrow> u64 \<times> u64 \<times> u32" where
  "mapping n = (va n, pa n, mmap_prot (prot n))"

definition space_of :: "(u64 \<Rightarrow> PageMap) \<Rightarrow> u64 list \<Rightarrow> u64 \<rightharpoonup> u64 \<times> u32" where
  "space_of P ps = map_of (map (\<lambda>q. mapping (P q)) ps)"

definition mark :: "bool \<Rightarrow> u64 set \<Rightarrow> (u64 \<Rightarrow> PageMap) \<Rightarrow> u64 \<Rightarrow> PageMap" where
  "mark b Q P = (\<lambda>q. if q \<in> Q then (P q)\<lparr>is_mapped := b\<rparr> else P q)"

lemma path_cong: "(\<And>q. q \<in> set ps \<Longrightarrow> next_page (P' q) = next_page (P q)) \<Longrightarrow> path P' p ps = path P p ps"
  by (induction ps arbitrary: p) auto

lemma space_of_cong: "(\<And>q. q \<in> set ps \<Longrightarrow> mapping (P' q) = mapping (P q)) \<Longrightarrow> space_of P' ps = space_of P ps"
  by (simp add: space_of_def cong: map_cong)

lemma mark_simps [simp]:
  "next_page (mark b Q P q) = next_page (P q)" "va (mark b Q P q) = va (P q)" "pa (mark b Q P q) = pa (P q)"
  "prot (mark b Q P q) = prot (P q)" "mapping (mark b Q P q) = mapping (P q)"
  "is_mapped (mark b Q P q) = (if q \<in> Q then b else is_mapped (P q))"
  by (simp_all add: mark_def mapping_def)

lemma path_mark [simp]: "path (mark b Q P) p ps = path P p ps"
  by (rule path_cong) simp

lemma space_of_mark [simp]: "space_of (mark b Q P) ps = space_of P ps"
  by (rule space_of_cong) simp

lemma mark_insert: "q \<notin> Q \<Longrightarrow> mark b Q (P(q := (P q)\<lparr>is_mapped := b\<rparr>)) = mark b (insert q Q) P"
  by (rule ext) (simp add: mark_def)

lemma path_upd: "q \<notin> set ps \<Longrightarrow> path (P(q := n)) p ps = path P p ps"
  by (rule path_cong) auto

lemma unmap_list_path:
  assumes "path (pages s) p ps" "distinct ps" "\<forall>q \<in> set ps. is_mapped (pages s q)"
  shows "unmap_list p s = Some (s\<lparr>pages := mark False (set ps) (pages s), process := process s |` (- (va \<circ> pages s) ` set ps)\<rparr>)"
  using assms
proof (induction ps arbitrary: p s)
  case Nil
  then show ?case by (subst unmap_list.simps) (simp add: mark_def restrict_map_def)
next
  case (Cons q qs)
  let ?s = "upd_page q (\<lambda>n. n\<lparr>is_mapped := False\<rparr>) (pmem_unmap (va (pages s q)) s)"
  have P: "pages ?s = (pages s)(q := (pages s q)\<lparr>is_mapped := False\<rparr>)" by (simp add: upd_page_def pmem_unmap_def)
  have q: "q \<notin> set qs" and pre: "path (pages ?s) (next_page (pages s q)) qs" "\<forall>r \<in> set qs. is_mapped (pages ?s r)"
    using Cons.prems by (auto simp: P path_upd)
  have same: "va \<circ> pages ?s = va \<circ> pages s" by (simp add: P fun_eq_iff)
  have "process ?s |` (- (va \<circ> pages ?s) ` set qs) = process s |` (- (va \<circ> pages s) ` set (q # qs))"
    unfolding same by (simp add: upd_page_def pmem_unmap_def restrict_map_def fun_eq_iff)
  moreover have "unmap_list p s = unmap_list (next_page (pages s q)) ?s"
    using Cons.prems by (subst unmap_list.simps) auto
  moreover have "distinct qs" using Cons.prems(2) by simp
  note IH = Cons.IH [OF pre(1) this pre(2)]
  moreover have "?s\<lparr>pages := X, process := Y\<rparr> = s\<lparr>pages := X, process := Y\<rparr>" for X Y
    by (simp add: upd_page_def pmem_unmap_def)
  moreover have "mark False (set qs) (pages ?s) = mark False (set (q # qs)) (pages s)" using q by (simp add: P mark_insert)
  ultimately show ?case by metis
qed

lemma map_list_path:
  assumes "path (pages s) p ps" "distinct ps" "\<forall>q \<in> set ps. in_user_space (va (pages s q))" "distinct (map (va \<circ> pages s) ps)"
  shows "map_list p s = Some (Inr (s\<lparr>pages := mark True (set ps) (pages s), process := process s ++ space_of (pages s) ps\<rparr>))"
  using assms
proof (induction ps arbitrary: p s)
  case Nil
  then show ?case by (subst map_list.simps) (simp add: mark_def space_of_def)
next
  case (Cons q qs)
  let ?n = "pages s q"
  let ?s = "upd_page q (\<lambda>n. n\<lparr>is_mapped := True\<rparr>) (pmem_map (va ?n) (pa ?n) (prot ?n) s)"
  have P: "pages ?s = (pages s)(q := ?n\<lparr>is_mapped := True\<rparr>)" by (simp add: upd_page_def pmem_map_def)
  have q: "q \<notin> set qs" using Cons.prems by simp
  have pre: "path (pages ?s) (next_page ?n) qs" "\<forall>r \<in> set qs. in_user_space (va (pages ?s r))"
    using Cons.prems by (auto simp: P path_upd)
  have same: "va \<circ> pages ?s = va \<circ> pages s" by (simp add: P fun_eq_iff)
  have sp: "space_of (pages ?s) qs = space_of (pages s) qs" using q by (intro space_of_cong) (auto simp: P)
  have fresh: "space_of (pages s) qs (va ?n) = None"
    using Cons.prems(4) by (force simp: space_of_def map_of_eq_None_iff mapping_def)
  have "process ?s ++ space_of (pages ?s) qs = process s ++ space_of (pages s) (q # qs)"
    unfolding sp using fresh
    by (auto simp: upd_page_def pmem_map_def space_of_def mapping_def map_add_def fun_eq_iff split: option.splits)
  moreover have "map_list p s = map_list (next_page ?n) ?s"
    using Cons.prems by (subst map_list.simps) auto
  moreover have "distinct qs" "distinct (map (va \<circ> pages ?s) qs)" using Cons.prems(2,4) unfolding same by (simp_all add: comp_def)
  note IH = Cons.IH [OF pre(1) this(1) pre(2) this(2)]
  moreover have "?s\<lparr>pages := X, process := Y\<rparr> = s\<lparr>pages := X, process := Y\<rparr>" for X Y
    by (simp add: upd_page_def pmem_map_def)
  moreover have "mark True (set qs) (pages ?s) = mark True (set (q # qs)) (pages s)" using q by (simp add: P mark_insert)
  ultimately show ?case by metis
qed

section \<open>The invariant\<close>

text \<open>The nodes of one address space, given its contents and whether it is the current one.\<close>

definition space_ok :: "(u64 \<Rightarrow> PageMap) \<Rightarrow> VMHead \<Rightarrow> (u64 \<rightharpoonup> u64 \<times> u32) \<Rightarrow> bool \<Rightarrow> u64 list \<Rightarrow> bool" where
  "space_ok P H m cur ps \<longleftrightarrow>
    path P (head H) ps \<and> distinct ps \<and> distinct (map (va \<circ> P) ps) \<and>
    (\<forall>q \<in> set ps. in_user_space (va (P q)) \<and> is_mapped (P q) = cur) \<and> m = space_of P ps \<and>
    (\<forall>v. in_user_space v \<longrightarrow> hash H (key_of v) = map_of (map (\<lambda>q. (va (P q), q)) ps) v)"

definition vm_inv :: "(u64 \<Rightarrow> u64 list) \<Rightarrow> native_vm \<Rightarrow> (u64 \<rightharpoonup> (u64 \<rightharpoonup> u64 \<times> u32)) \<Rightarrow> u64 \<Rightarrow> bool" where
  "vm_inv L s M c \<longleftrightarrow>
    vme_enable s \<and> cpu_vm_head s = c \<and> M 0 = None \<and> (c = 0 \<or> M c \<noteq> None) \<and>
    distinct (pool s) \<and> 0 \<notin> set (pool s) \<and> dom M \<inter> set (pool s) = {} \<and>
    (\<forall>h m. M h = Some m \<longrightarrow> space_ok (pages s) (heads s h) m (h = c) (L h) \<and> set (L h) \<inter> set (pool s) = {}) \<and>
    (\<forall>h h'. h \<noteq> h' \<longrightarrow> M h \<noteq> None \<longrightarrow> M h' \<noteq> None \<longrightarrow> set (L h) \<inter> set (L h') = {}) \<and>
    process s = (if c = 0 then Map.empty else the (M c))"

lemma vm_invD:
  assumes "vm_inv L s M c"
  shows "vme_enable s" "cpu_vm_head s = c" "M 0 = None" "c = 0 \<or> M c \<noteq> None" "distinct (pool s)" "0 \<notin> set (pool s)"
    "dom M \<inter> set (pool s) = {}" "process s = (if c = 0 then Map.empty else the (M c))"
    "\<And>h m. M h = Some m \<Longrightarrow> space_ok (pages s) (heads s h) m (h = c) (L h) \<and> set (L h) \<inter> set (pool s) = {}"
    "\<And>h h'. h \<noteq> h' \<Longrightarrow> M h \<noteq> None \<Longrightarrow> M h' \<noteq> None \<Longrightarrow> set (L h) \<inter> set (L h') = {}"
    "\<And>h m. M h = Some m \<Longrightarrow> h \<noteq> 0"
proof -
  note c = assms [unfolded vm_inv_def]
  show "vme_enable s" "cpu_vm_head s = c" "M 0 = None" "c = 0 \<or> M c \<noteq> None" "distinct (pool s)" "0 \<notin> set (pool s)"
    "dom M \<inter> set (pool s) = {}" "process s = (if c = 0 then Map.empty else the (M c))"
    using c by simp_all
  show "space_ok (pages s) (heads s h) m (h = c) (L h) \<and> set (L h) \<inter> set (pool s) = {}" if "M h = Some m" for h m
    using c that by simp
  show "set (L h) \<inter> set (L h') = {}" if "h \<noteq> h'" "M h \<noteq> None" "M h' \<noteq> None" for h h'
    using c that by simp
  show "h \<noteq> 0" if "M h = Some m" for h m
    using that \<open>M 0 = None\<close> by (cases "h = 0") simp_all
qed

lemma vm_invI:
  assumes "vme_enable s" "cpu_vm_head s = c" "M 0 = None" "c = 0 \<or> M c \<noteq> None" "distinct (pool s)" "0 \<notin> set (pool s)"
    "dom M \<inter> set (pool s) = {}" "process s = (if c = 0 then Map.empty else the (M c))"
    "\<And>h m. M h = Some m \<Longrightarrow> space_ok (pages s) (heads s h) m (h = c) (L h) \<and> set (L h) \<inter> set (pool s) = {}"
    "\<And>h h'. h \<noteq> h' \<Longrightarrow> M h \<noteq> None \<Longrightarrow> M h' \<noteq> None \<Longrightarrow> set (L h) \<inter> set (L h') = {}"
  shows "vm_inv L s M c"
  using assms unfolding vm_inv_def by blast

lemma key_of_inj: "in_user_space v \<Longrightarrow> in_user_space w \<Longrightarrow> key_of v = key_of w \<Longrightarrow> v = w"
proof -
  assume "in_user_space v" "in_user_space w" "key_of v = key_of w"
  then have "uint v < 2 ^ 32" "uint w < 2 ^ 32" "take_bit 32 (uint v) = take_bit 32 (uint w)"
    by (auto simp: in_user_space_def USER_END_def word_less_def key_of_def unsigned_ucast_eq dest: arg_cong [where f = uint])
  moreover have "0 \<le> uint v" "0 \<le> uint w" by simp_all
  ultimately have "uint v = uint w" by (simp add: take_bit_eq_mod)
  then show ?thesis by simp
qed

lemma space_of_dom: "space_of P ps v = None \<longleftrightarrow> v \<notin> (va \<circ> P) ` set ps"
  by (force simp: space_of_def map_of_eq_None_iff mapping_def)

lemma space_ok_mark:
  assumes "space_ok P H m b ps" "\<And>q. q \<in> set ps \<Longrightarrow> is_mapped (mark x Q P q) = b'"
  shows "space_ok (mark x Q P) H m b' ps"
proof -
  have "va \<circ> mark x Q P = va \<circ> P" by (simp add: fun_eq_iff)
  then show ?thesis using assms unfolding space_ok_def by simp
qed

lemma space_ok_upd:
  assumes "space_ok P H m b ps" "p \<notin> set ps"
  shows "space_ok (P(p := n)) H m b ps"
proof -
  have eqs: "map (va \<circ> P(p := n)) ps = map (va \<circ> P) ps" "map (\<lambda>q. (va ((P(p := n)) q), q)) ps = map (\<lambda>q. (va (P q), q)) ps"
    "space_of (P(p := n)) ps = space_of P ps" "path (P(p := n)) (head H) ps = path P (head H) ps"
    "(\<forall>q \<in> set ps. in_user_space (va ((P(p := n)) q)) \<and> is_mapped ((P(p := n)) q) = b)
      = (\<forall>q \<in> set ps. in_user_space (va (P q)) \<and> is_mapped (P q) = b)"
    using assms(2) by (auto intro: space_of_cong simp: path_upd)
  show ?thesis using assms(1) unfolding space_ok_def eqs .
qed

lemma space_ok_Cons:
  assumes ok: "space_ok P H m b ps" and p: "p \<notin> set ps" "p \<noteq> 0" "next_page (P p) = head H" "in_user_space (va (P p))"
    "m (va (P p)) = None" "is_mapped (P p) = b"
  shows "space_ok P (H\<lparr>hash := (hash H)(key_of (va (P p)) \<mapsto> p), nr_page := x, head := p\<rparr>)
    (m(va (P p) \<mapsto> (pa (P p), mmap_prot (prot (P p))))) b (p # ps)"
proof -
  have v: "va (P p) \<notin> (va \<circ> P) ` set ps" using ok p(5) space_of_dom [of P ps] by (simp add: space_ok_def)
  have "((hash H)(key_of (va (P p)) \<mapsto> p)) (key_of v) = map_of (map (\<lambda>q. (va (P q), q)) (p # ps)) v" if "in_user_space v" for v
    using ok that key_of_inj [OF that p(4)] by (auto simp: space_ok_def)
  moreover have "m(va (P p) \<mapsto> (pa (P p), mmap_prot (prot (P p)))) = space_of P (p # ps)"
    using ok by (simp add: space_ok_def space_of_def mapping_def)
  ultimately show ?thesis using ok p v unfolding space_ok_def by auto
qed

lemma protect_inv:
  assumes "vm_inv L s M c" "protect s = Inr (h, s')"
  shows "vm_inv (L(h := [])) s' (M(h \<mapsto> Map.empty)) c"
proof -
  obtain ps where ps: "pool s = h # ps" and s': "s' = upd_head h (\<lambda>_. \<lparr>head = 0, hash = Map.empty, nr_page = 0\<rparr>) (s\<lparr>pool := ps\<rparr>)"
    using assms(2) by (auto simp: protect_def split: list.splits)
  note inv = vm_invD [OF assms(1)]
  have h: "M h = None" "h \<noteq> 0" "h \<noteq> c" "h \<notin> set ps" "distinct ps" "0 \<notin> set ps" "dom M \<inter> set ps = {}"
    using inv(3-7) ps by auto
  have new: "space_ok (pages s) \<lparr>head = 0, hash = Map.empty, nr_page = 0\<rparr> Map.empty False []"
    by (simp add: space_ok_def space_of_def)
  show ?thesis
  proof (rule vm_invI)
    fix k m assume "(M(h \<mapsto> Map.empty)) k = Some m"
    then show "space_ok (pages s') (heads s' k) m (k = c) ((L(h := [])) k) \<and> set ((L(h := [])) k) \<inter> set (pool s') = {}"
      using inv(9) [of k m] new h ps by (auto simp: s' upd_head_def split: if_splits)
  next
    fix k k' assume "k \<noteq> k'" "(M(h \<mapsto> Map.empty)) k \<noteq> None" "(M(h \<mapsto> Map.empty)) k' \<noteq> None"
    then show "set ((L(h := [])) k) \<inter> set ((L(h := [])) k') = {}"
      using inv(10) [of k k'] by (auto split: if_splits)
  qed (use inv(1-4,8) h in \<open>auto simp: s' upd_head_def\<close>)
qed

text \<open>A switch unmaps the current address space and maps the new one.\<close>

lemma unmap_current:
  assumes "vm_inv L s M c"
  shows "\<exists>P. (if c \<noteq> 0 then unmap_list (head (heads s c)) s else Some s) = Some (s\<lparr>pages := P, process := Map.empty\<rparr>) \<and>
    (\<forall>h m. M h = Some m \<longrightarrow> space_ok P (heads s h) m False (L h))"
proof (cases "c = 0")
  case True
  then have "process s = Map.empty" using vm_invD(8) [OF assms] by simp
  moreover have "space_ok (pages s) (heads s h) m False (L h)" if "M h = Some m" for h m
    using vm_invD(9,11) [OF assms that] True by simp
  moreover from calculation have "s\<lparr>pages := pages s, process := Map.empty\<rparr> = s" by simp
  ultimately show ?thesis using True by (intro exI [of _ "pages s"]) simp
next
  case False
  then obtain m where m: "M c = Some m" using vm_invD(4) [OF assms] by auto
  then have c: "space_ok (pages s) (heads s c) m True (L c)" and pr: "process s = m"
    using vm_invD(8) [OF assms] vm_invD(9) [OF assms m] False by simp_all
  have all: "space_ok (pages s) (heads s h) m (h = c) (L h)" if "M h = Some m" for h m
    using vm_invD(9) [OF assms that] by simp
  have "space_of (pages s) (L c) |` (- (va \<circ> pages s) ` set (L c)) = Map.empty"
    using space_of_dom [of "pages s" "L c"] by (auto simp: restrict_map_def fun_eq_iff)
  then have "unmap_list (head (heads s c)) s = Some (s\<lparr>pages := mark False (set (L c)) (pages s), process := Map.empty\<rparr>)"
    using unmap_list_path [of s "head (heads s c)" "L c"] c pr by (auto simp: space_ok_def)
  moreover have "space_ok (mark False (set (L c)) (pages s)) (heads s h) m' False (L h)" if "M h = Some m'" for h m'
    by (rule space_ok_mark [OF all [OF that]]) (use all [OF that] in \<open>auto simp: space_ok_def\<close>)
  ultimately show ?thesis using False by auto
qed

lemma switch_inv:
  assumes inv: "vm_inv L s M c" and h: "h = 0 \<or> M h \<noteq> None"
  shows "\<exists>s'. am_switch h s = Some (Inr s') \<and> vm_inv L s' M h"
proof (cases "h = c")
  case True
  then show ?thesis using inv by (auto simp: am_switch_def vm_inv_def)
next
  case False
  obtain P where P: "(if c \<noteq> 0 then unmap_list (head (heads s c)) s else Some s) = Some (s\<lparr>pages := P, process := Map.empty\<rparr>)"
    "\<And>h m. M h = Some m \<Longrightarrow> space_ok P (heads s h) m False (L h)"
    using unmap_current [OF inv] by blast
  note base = vm_invD [OF inv]
  show ?thesis
  proof (cases "h = 0")
    case True
    then have "am_switch h s = Some (Inr (s\<lparr>pages := P, process := Map.empty, cpu_vm_head := 0\<rparr>))"
      unfolding am_switch_def base(2) P(1) using False base(1) by simp
    moreover have "vm_inv L (s\<lparr>pages := P, process := Map.empty, cpu_vm_head := 0\<rparr>) M h"
    proof (rule vm_invI)
      fix k m assume k: "M k = Some m"
      then show "space_ok (pages (s\<lparr>pages := P, process := Map.empty, cpu_vm_head := 0\<rparr>))
          (heads (s\<lparr>pages := P, process := Map.empty, cpu_vm_head := 0\<rparr>) k) m (k = h) (L k) \<and>
          set (L k) \<inter> set (pool (s\<lparr>pages := P, process := Map.empty, cpu_vm_head := 0\<rparr>)) = {}"
        using P(2) [OF k] base(9) [OF k] base(11) [OF k] True by simp
    qed (use base True in simp_all)
    ultimately show ?thesis by blast
  next
    case h0: False
    then obtain m where m: "M h = Some m" using h by auto
    let ?s = "s\<lparr>pages := mark True (set (L h)) P, process := m, cpu_vm_head := h\<rparr>"
    have ok: "space_ok P (heads s h) m False (L h)" by (rule P(2) [OF m])
    then have "map_list (head (heads s h)) (s\<lparr>pages := P, process := Map.empty\<rparr>) = Some (Inr (s\<lparr>pages := mark True (set (L h)) P, process := m\<rparr>))"
      using map_list_path [of "s\<lparr>pages := P, process := Map.empty\<rparr>" "head (heads s h)" "L h"] by (auto simp: space_ok_def)
    then have "am_switch h s = Some (Inr ?s)"
      unfolding am_switch_def base(2) P(1) using False base(1) h0 by simp
    moreover have mk: "space_ok (mark True (set (L h)) P) (heads s k) m' (k = h) (L k)" if "M k = Some m'" for k m'
    proof (rule space_ok_mark [OF P(2) [OF that]])
      fix q assume q: "q \<in> set (L k)"
      show "is_mapped (mark True (set (L h)) P q) = (k = h)"
        using P(2) [OF that] base(10) [of k h] that m q by (cases "k = h") (auto simp: space_ok_def)
    qed
    moreover have "vm_inv L ?s M h"
      by (rule vm_invI) (use base(1-7,9,10) m h0 mk in auto)
    ultimately show ?thesis by blast
  qed
qed

text \<open>A page that is not mapped yet gets a new node at the front.\<close>

lemma map_page_inv:
  assumes inv: "vm_inv L s M c" and m: "M h = Some m" "m v = None" and ret: "map_page pgsize h v p pr s = Inr s'"
  shows "\<exists>q. vm_inv (L(h := q # L h)) s' (M(h \<mapsto> m(v \<mapsto> (p, mmap_prot pr)))) c"
proof -
  note base = vm_invD [OF inv]
  have user: "in_user_space v" and h0: "h \<noteq> 0" using ret by (auto simp: map_page_def ebind_eq_Inr echeck_def split: if_splits)
  have ok: "space_ok (pages s) (heads s h) m (h = c) (L h)" using base(9) [OF m(1)] by simp
  then have v: "v \<notin> (va \<circ> pages s) ` set (L h)" using m(2) space_of_dom [of "pages s" "L h" v] by (simp add: space_ok_def)
  have "hash (heads s h) (key_of v) = None" using ok user v by (auto simp: space_ok_def map_of_eq_None_iff)
  then obtain q ps where q: "pool s = q # ps"
    using ret by (auto simp: map_page_def find_page_def ebind_eq_Inr split: list.splits)
  have qf: "q \<noteq> 0" "q \<notin> set ps" "M q = None" "\<And>k m'. M k = Some m' \<Longrightarrow> q \<notin> set (L k)"
    using base(5-7,9) q by fastforce+
  have hps: "h \<notin> set ps" using base(7) m(1) q by auto
  let ?n = "\<lparr>va = v, pa = p, next_page = head (heads s h), prot = pr, is_mapped = (h = c)\<rparr>"
  let ?H = "(heads s h)\<lparr>hash := (hash (heads s h))(key_of v \<mapsto> q), nr_page := nr_page (heads s h) + 1, head := q\<rparr>"
  have s': "s' = s\<lparr>pool := ps, pages := (pages s)(q := ?n), heads := (heads s)(h := ?H),
      process := (if h = c then (process s)(v \<mapsto> (p, mmap_prot pr)) else process s)\<rparr>"
    using ret \<open>hash (heads s h) (key_of v) = None\<close> q base(2)
    by (auto simp: map_page_def find_page_def ebind_eq_Inr Let_def upd_page_def upd_head_def pmem_map_def)
  have new: "space_ok ((pages s)(q := ?n)) ?H (m(v \<mapsto> (p, mmap_prot pr))) (h = c) (q # L h)"
    using space_ok_Cons [OF space_ok_upd [OF ok qf(4) [OF m(1)], of ?n] qf(4) [OF m(1)] qf(1)] user m(2) by simp
  show ?thesis
  proof (intro exI [of _ q])
    let ?M = "M(h \<mapsto> m(v \<mapsto> (p, mmap_prot pr)))"
    have "space_ok (pages s') (heads s' k) m' (k = c) ((L(h := q # L h)) k) \<and> set ((L(h := q # L h)) k) \<inter> set ps = {}"
      if k: "?M k = Some m'" for k m'
    proof (cases "k = h")
      case True
      then show ?thesis using new k base(9) [OF m(1)] q qf(2) by (auto simp: s')
    next
      case False
      then have "M k = Some m'" using k by simp
      then show ?thesis using False base(9) [of k m'] space_ok_upd [of "pages s" "heads s k" m' "k = c" "L k" q ?n] qf(4) q
        by (auto simp: s')
    qed
    moreover have "set ((L(h := q # L h)) k) \<inter> set ((L(h := q # L h)) k') = {}" if "k \<noteq> k'" "?M k \<noteq> None" "?M k' \<noteq> None" for k k'
      using that base(10) [of k k'] qf(4) m(1) by (auto split: if_splits)
    moreover have "process s' = (if c = 0 then Map.empty else the (?M c))" using base(8) m(1) h0 by (auto simp: s')
    moreover have "pool s' = ps" by (simp add: s')
    ultimately show "vm_inv (L(h := q # L h)) s' ?M c"
      by (intro vm_invI) (use base(1-7) h0 q hps in \<open>auto simp: s'\<close>)
  qed
qed

section \<open>Sequences of operations\<close>

text \<open>
  What the kernel can do with the interface, beside the contents it gave to each address space: it starts the module with the pages
  of its allocator, makes address spaces, maps pages that are not mapped yet, and switches.
\<close>

inductive vm_reach :: "u64 \<Rightarrow> native_vm \<Rightarrow> (u64 \<rightharpoonup> (u64 \<rightharpoonup> u64 \<times> u32)) \<Rightarrow> u64 \<Rightarrow> bool" for pgsize where
  reach_init: "cpu_vm_head s = 0 \<Longrightarrow> process s = Map.empty \<Longrightarrow> distinct pgs \<Longrightarrow> 0 \<notin> set pgs \<Longrightarrow>
    vm_reach pgsize (vme_init pgs s) Map.empty 0"
| reach_protect: "vm_reach pgsize s M c \<Longrightarrow> protect s = Inr (h, s') \<Longrightarrow> vm_reach pgsize s' (M(h \<mapsto> Map.empty)) c"
| reach_map: "vm_reach pgsize s M c \<Longrightarrow> M h = Some m \<Longrightarrow> m v = None \<Longrightarrow> map_page pgsize h v p pr s = Inr s' \<Longrightarrow>
    vm_reach pgsize s' (M(h \<mapsto> m(v \<mapsto> (p, mmap_prot pr)))) c"
| reach_switch: "vm_reach pgsize s M c \<Longrightarrow> h = 0 \<or> M h \<noteq> None \<Longrightarrow> am_switch h s = Some (Inr s') \<Longrightarrow> vm_reach pgsize s' M h"

lemma vm_reach_inv: "vm_reach pgsize s M c \<Longrightarrow> \<exists>L. vm_inv L s M c"
proof (induction rule: vm_reach.induct)
  case (reach_init s pgs)
  then show ?case by (auto simp: vm_inv_def vme_init_def)
next
  case (reach_protect s M c h s')
  then show ?case using protect_inv by blast
next
  case (reach_map s M c h m v p pr s')
  then show ?case using map_page_inv by blast
next
  case (reach_switch s M c h s')
  then obtain L where "vm_inv L s M c" by blast
  from switch_inv [OF this reach_switch(2)] show ?case using reach_switch(3) by auto
qed

text \<open>
  C24: the host process sees the current address space. After every sequence of making address spaces, mapping new pages and
  switching, the mappings of the process are exactly those the kernel gave to the current address space, and a switch to any address
  space, or to none, returns and makes its mappings those of the process.
\<close>

theorem native_vm_refines:
  assumes "vm_reach pgsize s M c" "h = 0 \<or> M h \<noteq> None"
  shows "process s = (if c = 0 then Map.empty else the (M c)) \<and>
    (\<exists>s'. am_switch h s = Some (Inr s') \<and> vm_reach pgsize s' M h \<and> process s' = (if h = 0 then Map.empty else the (M h)))"
proof -
  obtain L where inv: "vm_inv L s M c" using vm_reach_inv [OF assms(1)] by blast
  obtain s' where s': "am_switch h s = Some (Inr s')" "vm_inv L s' M h" using switch_inv [OF inv assms(2)] by blast
  then have "vm_reach pgsize s' M h" by (intro reach_switch [OF assms])
  then show ?thesis using inv s' unfolding vm_inv_def by blast
qed

definition empty_vm :: native_vm where
  "empty_vm = \<lparr>pages = \<lambda>_. \<lparr>va = 0, pa = 0, next_page = 0, prot = 0, is_mapped = False\<rparr>,
    heads = \<lambda>_. \<lparr>head = 0, hash = Map.empty, nr_page = 0\<rparr>, pool = [], cpu_vm_head = 0, vme_enable = False, process = Map.empty\<rparr>"

lemma sample_reach: "\<exists>s. vm_reach 0x1000 s [0x5000 \<mapsto> [0x40000000 \<mapsto> (0x7000, 7)]] 0"
proof -
  let ?s0 = "vme_init [0x5000, 0x6000] empty_vm"
  have "vm_reach 0x1000 ?s0 Map.empty 0" by (rule reach_init) (simp_all add: empty_vm_def)
  moreover obtain s1 where s1: "protect ?s0 = Inr (0x5000, s1)" "pool s1 = [0x6000]" "hash (heads s1 0x5000) = Map.empty"
    by (simp add: protect_def vme_init_def upd_head_def)
  ultimately have "vm_reach 0x1000 s1 [0x5000 \<mapsto> Map.empty] 0" using reach_protect by blast
  moreover have "\<exists>s2. map_page 0x1000 0x5000 0x40000000 0x7000 3 s1 = Inr s2"
    using s1(2,3) by (simp add: map_page_def find_page_def in_user_space_def USER_START_def USER_END_def Let_def)
  ultimately have "\<exists>s2. vm_reach 0x1000 s2 ([0x5000 \<mapsto> Map.empty, 0x5000 \<mapsto> Map.empty(0x40000000 \<mapsto> (0x7000, mmap_prot 3))]) 0"
    using reach_map [of "0x1000" s1 "[0x5000 \<mapsto> Map.empty]" 0 "0x5000" Map.empty "0x40000000" "0x7000" 3] by auto
  moreover have "mmap_prot 3 = 7" by (simp add: mmap_prot_def)
  ultimately show ?thesis by simp
qed

theorem native_vm_refines_witness:
  "\<exists>s s'. vm_reach 0x1000 s [0x5000 \<mapsto> [0x40000000 \<mapsto> (0x7000, 7)]] 0 \<and> process s = Map.empty \<and>
     am_switch 0x5000 s = Some (Inr s') \<and> process s' = [0x40000000 \<mapsto> (0x7000, 7)]"
proof -
  obtain s where "vm_reach 0x1000 s [0x5000 \<mapsto> [0x40000000 \<mapsto> (0x7000, 7)]] 0" using sample_reach by blast
  then show ?thesis using native_vm_refines [of "0x1000" s "[0x5000 \<mapsto> [0x40000000 \<mapsto> (0x7000, 7)]]" 0 "0x5000"] by auto
qed

text \<open>A cycle of nodes: the loops never come to an end.\<close>

definition closed_list :: "(u64 \<Rightarrow> PageMap) \<Rightarrow> u64 set \<Rightarrow> bool" where
  "closed_list P Q \<longleftrightarrow> 0 \<notin> Q \<and> (\<forall>q \<in> Q. next_page (P q) \<in> Q \<and> in_user_space (va (P q)))"

lemma map_list_closed:
  assumes "map_list p s = Some r"
  shows "\<not> (p \<in> Q \<and> closed_list (pages s) Q)"
proof (rule map_list.raw_induct [OF _ assms, of "\<lambda>p s r. \<not> (p \<in> Q \<and> closed_list (pages s) Q)"], goal_cases)
  case (1 f p s r)
  show ?case
  proof
    assume pq: "p \<in> Q \<and> closed_list (pages s) Q"
    let ?n = "pages s p"
    let ?s = "upd_page p (\<lambda>n. n\<lparr>is_mapped := True\<rparr>) (pmem_map (va ?n) (pa ?n) (prot ?n) s)"
    have "p \<noteq> 0" "in_user_space (va ?n)" "next_page ?n \<in> Q" using pq by (auto simp: closed_list_def)
    moreover have "closed_list (pages ?s) Q" using pq by (auto simp: closed_list_def upd_page_def pmem_map_def)
    ultimately show False using 1(1) [of "next_page ?n" ?s r] 1(2) by simp
  qed
qed

lemma unmap_list_frame:
  assumes "unmap_list p s = Some t"
  shows "heads t = heads s \<and> (closed_list (pages s) Q \<longrightarrow> closed_list (pages t) Q)"
proof (rule unmap_list.raw_induct [OF _ assms, of "\<lambda>p s t. heads t = heads s \<and> (closed_list (pages s) Q \<longrightarrow> closed_list (pages t) Q)"], goal_cases)
  case (1 f p s t)
  let ?s = "upd_page p (\<lambda>n. n\<lparr>is_mapped := False\<rparr>) (pmem_unmap (va (pages s p)) s)"
  have "heads ?s = heads s" "closed_list (pages s) Q \<longrightarrow> closed_list (pages ?s) Q"
    by (auto simp: closed_list_def upd_page_def pmem_unmap_def)
  then show ?case using 1(1) [of "next_page (pages s p)" ?s t] 1(1) [of "next_page (pages s p)" s t] 1(2)
    by (simp split: if_splits)
qed

lemma switch_hangs:
  assumes "vme_enable s" "h \<noteq> cpu_vm_head s" "h \<noteq> 0" "closed_list (pages s) Q" "head (heads s h) \<in> Q"
  shows "am_switch h s = None"
proof -
  have loop: "map_list (head (heads t h)) t = None" if "heads t = heads s" "closed_list (pages t) Q" for t
    using map_list_closed [of "head (heads t h)" t _ Q] that assms(5) by (cases "map_list (head (heads t h)) t") auto
  show ?thesis
  proof (cases "cpu_vm_head s = 0")
    case True
    then show ?thesis using assms loop [of s] by (simp add: am_switch_def)
  next
    case False
    show ?thesis
    proof (cases "unmap_list (head (heads s (cpu_vm_head s))) s")
      case None
      then show ?thesis using assms False by (simp add: am_switch_def)
    next
      case (Some t)
      then have "map_list (head (heads t h)) t = None" using loop [of t] unmap_list_frame [OF Some, of Q] assms(4) by simp
      then show ?thesis using assms(1-3) False Some by (simp add: am_switch_def)
    qed
  qed
qed

text \<open>The nodes in front of a node \<open>p\<close> of the list, and \<open>p\<close>, are closed when \<open>p\<close> points back to the start of the list.\<close>

lemma relinked_closed:
  assumes "path P s (xs @ p # ys)" "distinct (xs @ p # ys)" "\<forall>q \<in> set (xs @ p # ys). in_user_space (va (P q))"
    "next_page n = s" "in_user_space (va n)"
  shows "closed_list (P(p := n)) (set (xs @ [p]))"
proof -
  have "next_page (P q) \<in> set (xs @ [p])" if "q \<in> set xs" for q
    using assms(1) that
  proof (induction xs arbitrary: s)
    case (Cons x xs)
    then show ?case by (cases xs) auto
  qed simp
  moreover have "0 \<notin> set (xs @ [p])" using assms(1) by (induction xs arbitrary: s) auto
  moreover have "s \<in> set (xs @ [p])" using assms(1) by (cases xs) auto
  ultimately show ?thesis using assms(2-5) by (auto simp: closed_list_def)
qed

lemma space_node:
  assumes "space_ok P H m b ps" "m v \<noteq> None"
  shows "\<exists>xs q ys. ps = xs @ q # ys \<and> va (P q) = v \<and> hash H (key_of v) = Some q \<and> in_user_space v"
proof -
  have "v \<in> (va \<circ> P) ` set ps" using assms space_of_dom [of P ps v] by (auto simp: space_ok_def)
  then obtain q where q: "q \<in> set ps" "va (P q) = v" by auto
  then have user: "in_user_space v" using assms(1) by (auto simp: space_ok_def)
  have "distinct (map fst (map (\<lambda>q. (va (P q), q)) ps))" using assms(1) by (simp add: space_ok_def comp_def)
  then have "map_of (map (\<lambda>q. (va (P q), q)) ps) v = Some q" using q by (intro map_of_is_SomeI) auto
  then have "hash H (key_of v) = Some q" using assms(1) user by (simp add: space_ok_def)
  then show ?thesis using q user split_list [OF q(1)] by blast
qed

text \<open>
  C39: mapping a page twice hangs the machine. The node of a page that is already mapped is put at the front of the list without
  being taken out of it, so the list becomes a cycle: \<^verbatim>\<open>map\<close> returns, but a later switch to this address space never does.
\<close>

theorem remap_hangs_switch:
  assumes "vm_reach pgsize s M c" "M h = Some m" "m v \<noteq> None" "h \<noteq> c" "v mod pgsize = 0" "p mod pgsize = 0"
  shows "\<exists>s'. map_page pgsize h v p pr s = Inr s' \<and> am_switch h s' = None"
proof -
  obtain L where inv: "vm_inv L s M c" using vm_reach_inv [OF assms(1)] by blast
  note base = vm_invD [OF inv]
  have ok: "space_ok (pages s) (heads s h) m False (L h)" using base(9) [OF assms(2)] assms(4) by simp
  obtain xs q ys where q: "L h = xs @ q # ys" "hash (heads s h) (key_of v) = Some q" "in_user_space v"
    using space_node [OF ok assms(3)] by blast
  let ?n = "\<lparr>va = v, pa = p, next_page = head (heads s h), prot = pr, is_mapped = False\<rparr>"
  let ?s = "s\<lparr>pages := (pages s)(q := ?n), heads := (heads s)(h := (heads s h)\<lparr>head := q\<rparr>)\<rparr>"
  have map: "map_page pgsize h v p pr s = Inr ?s"
    using q(2,3) assms(4-6) base(2) base(11) [OF assms(2)]
    by (simp add: map_page_def find_page_def echeck_def Let_def upd_page_def upd_head_def)
  have closed: "closed_list ((pages s)(q := ?n)) (set (xs @ [q]))"
    using ok q(1,3) by (intro relinked_closed [of _ "head (heads s h)" xs q ys]) (auto simp: space_ok_def)
  have "am_switch h ?s = None"
    using closed base(1,2) base(11) [OF assms(2)] assms(4) by (intro switch_hangs [of _ _ "set (xs @ [q])"]) auto
  then show ?thesis using map by blast
qed

theorem remap_hangs_switch_witness:
  "\<exists>s s'. vm_reach 0x1000 s [0x5000 \<mapsto> [0x40000000 \<mapsto> (0x7000, 7)]] 0 \<and>
     map_page 0x1000 0x5000 0x40000000 0x8000 3 s = Inr s' \<and> am_switch 0x5000 s' = None"
proof -
  obtain s where "vm_reach 0x1000 s [0x5000 \<mapsto> [0x40000000 \<mapsto> (0x7000, 7)]] 0" using sample_reach by blast
  then show ?thesis
    using remap_hangs_switch [of "0x1000" s "[0x5000 \<mapsto> [0x40000000 \<mapsto> (0x7000, 7)]]" 0 "0x5000" _ "0x40000000" "0x8000" 3] by auto
qed

end
