(* ===== verification/Am_Native_Cte.thy ===== *)
theory Am_Native_Cte
  imports Am_Native_Vme
begin

text \<open>
  Traps of the abstract machine on the host (\<^verbatim>\<open>am/src/native/cte.c\<close>, with the contexts of \<^verbatim>\<open>vme.c\<close>), for x86-64. A trap is a signal: its
  handler stores the interrupted context on a stack and lets the process continue in \<^verbatim>\<open>irq_handle\<close>, which calls the kernel and then
  provokes a second signal that restores a context. Contexts are objects at their address; the kernel's event handler is a
  parameter and so are the addresses and the size of a context.
\<close>

section \<open>State\<close>

datatype sig = SIGUSR1 | SIGUSR2 | SIGVTALRM | SIGSEGV

datatype si_code = SEGV_MAPERR | SEGV_ACCERR | SI_other u32

datatype event_type = EVENT_NULL | EVENT_YIELD | EVENT_SYSCALL | EVENT_PAGEFAULT | EVENT_ERROR | EVENT_IRQ_TIMER | EVENT_IRQ_IODEV

record ucontext_t =
  reg_pc :: u64
  reg_sp :: u64
  reg_gpr1 :: u64
  reg_gpr2 :: u64
  other_regs :: "u64 list"
  sigmask :: "sig set"

record Context =
  ctx_ksp :: u64
  ctx_vm_head :: u64
  ctx_uc :: ucontext_t

record event =
  ev_event :: event_type
  ev_cause :: u32
  ev_ref :: u64

record native_cpu =
  vm :: native_vm
  cpu_ksp :: u64
  cpu_ev :: event
  contexts :: "u64 \<Rightarrow> Context"

record native_layout =
  text_start :: u64
  text_end :: u64
  after_sigprocmask :: u64
  irq_handle_pc :: u64
  kcontext_start_pc :: u64
  context_size :: u64

abbreviation (input) MMAP_READ_CAUSE :: u32 where "MMAP_READ_CAUSE \<equiv> 1"
abbreviation (input) MMAP_WRITE_CAUSE :: u32 where "MMAP_WRITE_CAUSE \<equiv> 2"

definition intr_sigmask :: "sig set" where
  "intr_sigmask = {SIGVTALRM, SIGUSR1}"

definition is_sigmask_sti :: "sig set \<Rightarrow> bool" where
  "is_sigmask_sti m \<longleftrightarrow> SIGVTALRM \<notin> m"

section \<open>Traps\<close>

definition SYSCALL_INSTR_LEN :: u64 where "SYSCALL_INSTR_LEN = 7"

definition signal_safe :: "native_layout \<Rightarrow> u64 \<Rightarrow> bool \<Rightarrow> bool" where
  "signal_safe A pc trap_from_user \<longleftrightarrow> text_start A \<le> pc \<and> pc < text_end A \<or> trap_from_user \<or> pc = after_sigprocmask A"

definition frame_sp :: "native_layout \<Rightarrow> u64 \<Rightarrow> u64" where
  "frame_sp A sp = (let sp = sp - context_size A in if (sp + 8) mod 16 \<noteq> 0 then sp - 8 else sp)"

definition setup_stack :: "native_layout \<Rightarrow> event_type \<Rightarrow> ucontext_t \<Rightarrow> native_cpu \<Rightarrow> ucontext_t \<times> native_cpu" where
  "setup_stack A event uc s =
    (let pc = reg_pc uc;
         trap_from_user = am_in_userspace pc (vm s)
     in if (event = EVENT_IRQ_IODEV \<or> event = EVENT_IRQ_TIMER) \<and> \<not> signal_safe A pc trap_from_user then (uc, s)
        else
          let pc = (if event = EVENT_SYSCALL then pc + SYSCALL_INSTR_LEN else pc);
              uc = uc\<lparr>reg_pc := pc\<rparr>;
              sp = frame_sp A (if trap_from_user then cpu_ksp s else reg_sp uc);
              s = s\<lparr>contexts := (contexts s)(sp := (contexts s sp)\<lparr>ctx_uc := uc\<rparr>)\<rparr>
          in (uc\<lparr>sigmask := intr_sigmask, reg_gpr1 := sp, reg_pc := irq_handle_pc A, reg_sp := sp\<rparr>, s))"

definition iret :: "ucontext_t \<Rightarrow> native_cpu \<Rightarrow> ucontext_t \<times> native_cpu" where
  "iret uc s = (let c = contexts s (reg_gpr1 uc) in (ctx_uc c, s\<lparr>cpu_ksp := ctx_ksp c\<rparr>))"

text \<open>The switch over the signals: \<open>None\<close> is the return to a restored context, otherwise the event.\<close>

definition classify_signal :: "sig \<Rightarrow> si_code \<Rightarrow> u64 \<Rightarrow> native_vm \<Rightarrow> event option res" where
  "classify_signal sg code addr v =
    (let e = \<lparr>ev_event = EVENT_ERROR, ev_cause = 0, ev_ref = 0\<rparr> in
     case sg of
       SIGUSR1 \<Rightarrow> Inr (Some (e\<lparr>ev_event := EVENT_IRQ_IODEV\<rparr>))
     | SIGUSR2 \<Rightarrow> Inr (Some (e\<lparr>ev_event := EVENT_YIELD\<rparr>))
     | SIGVTALRM \<Rightarrow> Inr (Some (e\<lparr>ev_event := EVENT_IRQ_TIMER\<rparr>))
     | SIGSEGV \<Rightarrow>
         if code = SEGV_ACCERR \<and> addr = 0x100008 then Inr None
         else
           let e = (if code = SEGV_ACCERR \<and> addr = 0x100000 then e\<lparr>ev_event := EVENT_SYSCALL\<rparr> else e)
           in if am_in_userspace addr v
              then (if ev_event e = EVENT_ERROR
                    then (case code of SEGV_MAPERR \<Rightarrow> Inr (Some (e\<lparr>ev_event := EVENT_PAGEFAULT, ev_cause := MMAP_READ_CAUSE, ev_ref := addr\<rparr>))
                          | SEGV_ACCERR \<Rightarrow> Inr (Some (e\<lparr>ev_event := EVENT_PAGEFAULT, ev_cause := MMAP_WRITE_CAUSE, ev_ref := addr\<rparr>))
                          | SI_other _ \<Rightarrow> Inl Assert_fail)
                    else Inl Assert_fail)
              else Inr (Some e))"

definition code_word :: "si_code \<Rightarrow> u32" where
  "code_word code = (case code of SEGV_MAPERR \<Rightarrow> 1 | SEGV_ACCERR \<Rightarrow> 2 | SI_other w \<Rightarrow> w)"

definition sig_handler :: "native_layout \<Rightarrow> sig \<Rightarrow> si_code \<Rightarrow> u64 \<Rightarrow> ucontext_t \<Rightarrow> native_cpu \<Rightarrow> (ucontext_t \<times> native_cpu) res" where
  "sig_handler A sg code addr uc s =
    ebind (classify_signal sg code addr (vm s)) (\<lambda>r.
      case r of
        None \<Rightarrow> Inr (iret uc (s\<lparr>cpu_ev := \<lparr>ev_event = EVENT_ERROR, ev_cause = 0, ev_ref = 0\<rparr>\<rparr>))
      | Some e \<Rightarrow>
          let e = (if ev_event e = EVENT_ERROR then e\<lparr>ev_ref := addr, ev_cause := code_word code\<rparr> else e)
          in Inr (setup_stack A (ev_event e) uc (s\<lparr>cpu_ev := e\<rparr>)))"

text \<open>
  \<^verbatim>\<open>irq_handle\<close> up to its call of address 0x100008: the context it passes to the second signal. The kernel's handler gets the
  event and the address of the context.
\<close>

definition irq_handle :: "(event \<Rightarrow> u64 \<Rightarrow> native_cpu \<Rightarrow> u64 \<times> native_cpu) \<Rightarrow> u64 \<Rightarrow> native_cpu \<Rightarrow> (u64 \<times> native_cpu) res option" where
  "irq_handle user_handler c s =
    (let s = s\<lparr>contexts := (contexts s)(c := (contexts s c)\<lparr>ctx_vm_head := cpu_vm_head (vm s), ctx_ksp := cpu_ksp s\<rparr>)\<rparr> in
     if ev_event (cpu_ev s) = EVENT_ERROR then Some (Inl Assert_fail)
     else
       let (c, s) = user_handler (cpu_ev s) c s in
       if c = 0 then Some (Inl Assert_fail)
       else (case am_switch (ctx_vm_head (contexts s c)) (vm s) of
               None \<Rightarrow> None
             | Some r \<Rightarrow> Some (ebind r (\<lambda>v. Inr (c, s\<lparr>vm := v\<rparr>)))))"

text \<open>A signal from the program until the program goes on. The registers but the first are irrelevant to the second signal.\<close>

definition native_trap :: "native_layout \<Rightarrow> (event \<Rightarrow> u64 \<Rightarrow> native_cpu \<Rightarrow> u64 \<times> native_cpu) \<Rightarrow> sig \<Rightarrow> si_code \<Rightarrow> u64 \<Rightarrow>
    ucontext_t \<Rightarrow> native_cpu \<Rightarrow> (ucontext_t \<times> native_cpu) res option" where
  "native_trap A user_handler sg code addr uc s =
    (case sig_handler A sg code addr uc s of
       Inl e \<Rightarrow> Some (Inl e)
     | Inr (uc1, s) \<Rightarrow>
        if reg_pc uc1 \<noteq> irq_handle_pc A then Some (Inr (uc1, s))
        else (case irq_handle user_handler (reg_gpr1 uc1) s of
                None \<Rightarrow> None
              | Some r \<Rightarrow> Some (ebind r (\<lambda>(c, s). sig_handler A SIGSEGV SEGV_ACCERR 0x100008 (uc1\<lparr>reg_gpr1 := c\<rparr>) s))))"

section \<open>New contexts\<close>

definition kcontext :: "native_layout \<Rightarrow> ucontext_t \<Rightarrow> u64 \<Rightarrow> u64 \<Rightarrow> u64 \<Rightarrow> native_cpu \<Rightarrow> u64 \<times> native_cpu" where
  "kcontext A uc_example kstack_end entry arg s =
    (let c = kstack_end - context_size A;
         uc = uc_example\<lparr>reg_pc := kcontext_start_pc A, reg_sp := kstack_end, sigmask := {}, reg_gpr1 := arg, reg_gpr2 := entry\<rparr>
     in (c, s\<lparr>contexts := (contexts s)(c := (contexts s c)\<lparr>ctx_uc := uc, ctx_vm_head := 0\<rparr>)\<rparr>))"

definition ucontext :: "native_layout \<Rightarrow> ucontext_t \<Rightarrow> u64 \<Rightarrow> u64 \<Rightarrow> u64 \<Rightarrow> native_cpu \<Rightarrow> u64 \<times> native_cpu" where
  "ucontext A uc_example h kstack_end entry s =
    (let c = kstack_end - context_size A;
         uc = uc_example\<lparr>reg_pc := entry, reg_sp := USER_END, sigmask := {}\<rparr>
     in (c, s\<lparr>contexts := (contexts s)(c := (contexts s c)\<lparr>ctx_uc := uc, ctx_vm_head := h, ctx_ksp := kstack_end\<rparr>)\<rparr>))"

text \<open>\<^verbatim>\<open>__am_kcontext_start\<close>: the stack is aligned, the return address pushed, and the entry called.\<close>

definition kcontext_start :: "ucontext_t \<Rightarrow> ucontext_t" where
  "kcontext_start uc = uc\<lparr>reg_sp := (reg_sp uc AND NOT 15) - 8, reg_pc := reg_gpr2 uc\<rparr>"

text \<open>\<^verbatim>\<open>iset\<close> and \<^verbatim>\<open>ienabled\<close> on the signal mask of the process.\<close>

definition iset :: "bool \<Rightarrow> sig set \<Rightarrow> sig set" where
  "iset enable m = (if enable then m - intr_sigmask else m \<union> intr_sigmask)"

definition ienabled :: "sig set \<Rightarrow> bool" where
  "ienabled m = is_sigmask_sti m"

lemma ienabled_iset: "ienabled (iset enable m) = enable"
  by (simp add: ienabled_def iset_def is_sigmask_sti_def intr_sigmask_def)

section \<open>A trap switches contexts\<close>

definition resume_pc :: "event \<Rightarrow> u64 \<Rightarrow> u64" where
  "resume_pc e pc = (if ev_event e = EVENT_SYSCALL then pc + SYSCALL_INSTR_LEN else pc)"

definition frame_addr :: "native_layout \<Rightarrow> ucontext_t \<Rightarrow> native_cpu \<Rightarrow> u64" where
  "frame_addr A uc s = frame_sp A (if am_in_userspace (reg_pc uc) (vm s) then cpu_ksp s else reg_sp uc)"

definition accepted :: "native_layout \<Rightarrow> event \<Rightarrow> ucontext_t \<Rightarrow> native_cpu \<Rightarrow> bool" where
  "accepted A e uc s \<longleftrightarrow> ev_event e \<noteq> EVENT_ERROR \<and>
    (ev_event e = EVENT_IRQ_IODEV \<or> ev_event e = EVENT_IRQ_TIMER \<longrightarrow> signal_safe A (reg_pc uc) (am_in_userspace (reg_pc uc) (vm s)))"

lemma sig_handler_accepted:
  assumes "classify_signal sg code addr (vm s) = Inr (Some e)" "accepted A e uc s"
  shows "\<exists>uc1 s1. sig_handler A sg code addr uc s = Inr (uc1, s1) \<and> reg_pc uc1 = irq_handle_pc A \<and>
    reg_gpr1 uc1 = frame_addr A uc s \<and> vm s1 = vm s \<and> cpu_ksp s1 = cpu_ksp s \<and> cpu_ev s1 = e \<and> ctx_uc (contexts s1 (frame_addr A uc s)) = uc\<lparr>reg_pc := resume_pc e (reg_pc uc)\<rparr>"
proof -
  have e: "ev_event e \<noteq> EVENT_ERROR" using assms(2) by (simp add: accepted_def)
  have "\<not> ((ev_event e = EVENT_IRQ_IODEV \<or> ev_event e = EVENT_IRQ_TIMER) \<and>
      \<not> signal_safe A (reg_pc uc) (am_in_userspace (reg_pc uc) (vm (s\<lparr>cpu_ev := e\<rparr>))))"
    using assms(2) by (auto simp: accepted_def)
  then show ?thesis
    unfolding sig_handler_def assms(1) setup_stack_def Let_def using e
    by (simp only: ebind_simps option.case if_False if_not_P) (simp add: resume_pc_def frame_addr_def)
qed

text \<open>The kernel's choice of the next context takes effect: registers, kernel stack and address space.\<close>

lemma irq_handle_switches:
  assumes "ev_event (cpu_ev s) \<noteq> EVENT_ERROR"
    "user_handler (cpu_ev s) c
      (s\<lparr>contexts := (contexts s)(c := (contexts s c)\<lparr>ctx_vm_head := cpu_vm_head (vm s), ctx_ksp := cpu_ksp s\<rparr>)\<rparr>) = (c', s2)"
    "c' \<noteq> 0" "vm_reach pgsize (vm s2) M k" "ctx_vm_head (contexts s2 c') = 0 \<or> M (ctx_vm_head (contexts s2 c')) \<noteq> None"
  shows "\<exists>v. irq_handle user_handler c s = Some (Inr (c', s2\<lparr>vm := v\<rparr>)) \<and>
    process v = (if ctx_vm_head (contexts s2 c') = 0 then Map.empty else the (M (ctx_vm_head (contexts s2 c'))))"
proof -
  obtain L where inv: "vm_inv L (vm s2) M k" using vm_reach_inv [OF assms(4)] by blast
  obtain v where v: "am_switch (ctx_vm_head (contexts s2 c')) (vm s2) = Some (Inr v)" "vm_inv L v M (ctx_vm_head (contexts s2 c'))"
    using switch_inv [OF inv assms(5)] by blast
  then have "irq_handle user_handler c s = Some (Inr (c', s2\<lparr>vm := v\<rparr>))" using assms(1-3) by (simp add: irq_handle_def)
  then show ?thesis using vm_invD(8) [OF v(2)] by blast
qed

text \<open>
  C25: a trap on the host saves the interrupted context and continues with the one the kernel chooses. The kernel's handler gets the
  event and a context with all registers, the current address space and the kernel stack of the interrupted program, the
  program counter advanced over a system call; whatever context it returns is the one whose registers the process
  continues with, in its own address space and with its own kernel stack.
\<close>

theorem native_trap_switches:
  assumes "classify_signal sg code addr (vm s) = Inr (Some e)" "accepted A e uc s"
  shows "\<exists>s1. contexts s1 (frame_addr A uc s) = \<lparr>ctx_ksp = cpu_ksp s, ctx_vm_head = cpu_vm_head (vm s), ctx_uc = uc\<lparr>reg_pc := resume_pc e (reg_pc uc)\<rparr>\<rparr> \<and>
    vm s1 = vm s \<and>
    (\<forall>c' s2 M k. user_handler e (frame_addr A uc s) s1 = (c', s2) \<longrightarrow> c' \<noteq> 0 \<longrightarrow> vm_reach pgsize (vm s2) M k \<longrightarrow>
      ctx_vm_head (contexts s2 c') = 0 \<or> M (ctx_vm_head (contexts s2 c')) \<noteq> None \<longrightarrow>
      (\<exists>s3. native_trap A user_handler sg code addr uc s = Some (Inr (ctx_uc (contexts s2 c'), s3)) \<and>
        contexts s3 = contexts s2 \<and> cpu_ksp s3 = ctx_ksp (contexts s2 c') \<and>
        process (vm s3) = (if ctx_vm_head (contexts s2 c') = 0 then Map.empty else the (M (ctx_vm_head (contexts s2 c'))))))"
proof -
  define c where "c = frame_addr A uc s"
  obtain uc1 s1 where h: "sig_handler A sg code addr uc s = Inr (uc1, s1)" "reg_pc uc1 = irq_handle_pc A" "reg_gpr1 uc1 = c"
    "vm s1 = vm s" "cpu_ksp s1 = cpu_ksp s" "cpu_ev s1 = e" "ctx_uc (contexts s1 c) = uc\<lparr>reg_pc := resume_pc e (reg_pc uc)\<rparr>"
    using sig_handler_accepted [OF assms] unfolding c_def by blast
  let ?s1 = "s1\<lparr>contexts := (contexts s1)(c := (contexts s1 c)\<lparr>ctx_vm_head := cpu_vm_head (vm s1), ctx_ksp := cpu_ksp s1\<rparr>)\<rparr>"
  have e: "ev_event (cpu_ev s1) \<noteq> EVENT_ERROR" using assms(2) h(6) by (simp add: accepted_def)
  have "contexts ?s1 c = \<lparr>ctx_ksp = cpu_ksp s, ctx_vm_head = cpu_vm_head (vm s), ctx_uc = uc\<lparr>reg_pc := resume_pc e (reg_pc uc)\<rparr>\<rparr>"
    using h(4,5,7) by (cases "contexts s1 c") simp
  moreover have "\<exists>s3. native_trap A user_handler sg code addr uc s = Some (Inr (ctx_uc (contexts s2 c'), s3)) \<and>
        contexts s3 = contexts s2 \<and> cpu_ksp s3 = ctx_ksp (contexts s2 c') \<and>
        process (vm s3) = (if ctx_vm_head (contexts s2 c') = 0 then Map.empty else the (M (ctx_vm_head (contexts s2 c'))))"
    if t: "user_handler e c ?s1 = (c', s2)" "c' \<noteq> 0" "vm_reach pgsize (vm s2) M k"
      "ctx_vm_head (contexts s2 c') = 0 \<or> M (ctx_vm_head (contexts s2 c')) \<noteq> None" for c' s2 M k
  proof -
    obtain v where v: "irq_handle user_handler c s1 = Some (Inr (c', s2\<lparr>vm := v\<rparr>))"
      "process v = (if ctx_vm_head (contexts s2 c') = 0 then Map.empty else the (M (ctx_vm_head (contexts s2 c'))))"
      using irq_handle_switches [OF e _ t(2-4), of user_handler c] t(1) unfolding h(6) by blast
    have ret: "sig_handler A SIGSEGV SEGV_ACCERR 0x100008 (uc1\<lparr>reg_gpr1 := c'\<rparr>) t
        = Inr (ctx_uc (contexts t c'), t\<lparr>cpu_ev := \<lparr>ev_event = EVENT_ERROR, ev_cause = 0, ev_ref = 0\<rparr>, cpu_ksp := ctx_ksp (contexts t c')\<rparr>)" for t
      by (simp add: sig_handler_def classify_signal_def iret_def Let_def)
    show ?thesis using h(1-3) v by (simp add: native_trap_def ret)
  qed
  moreover have "vm ?s1 = vm s" using h(4) by simp
  ultimately show ?thesis unfolding c_def by blast
qed

definition sample_layout :: native_layout where
  "sample_layout = \<lparr>text_start = 0x400000, text_end = 0x500000, after_sigprocmask = 0x7000, irq_handle_pc = 0x401000,
     kcontext_start_pc = 0x402000, context_size = 0x500\<rparr>"

definition sample_uc :: ucontext_t where
  "sample_uc = \<lparr>reg_pc = 0x404000, reg_sp = 0x9000, reg_gpr1 = 11, reg_gpr2 = 22, other_regs = [33, 44], sigmask = {}\<rparr>"

definition sample_cpu :: native_cpu where
  "sample_cpu = \<lparr>vm = vme_init [] empty_vm, cpu_ksp = 0x8000, cpu_ev = \<lparr>ev_event = EVENT_NULL, ev_cause = 0, ev_ref = 0\<rparr>,
     contexts = \<lambda>_. \<lparr>ctx_ksp = 0, ctx_vm_head = 0, ctx_uc = sample_uc\<rparr>\<rparr>"

text \<open>A thread that yields to a kernel that returns the same context goes on with the same registers.\<close>

theorem native_trap_switches_witness:
  "\<exists>s. native_trap sample_layout (\<lambda>e c s. (c, s)) SIGUSR2 (SI_other 0) 0 sample_uc sample_cpu = Some (Inr (sample_uc, s)) \<and>
     cpu_ksp s = 0x8000"
proof -
  let ?e = "\<lparr>ev_event = EVENT_YIELD, ev_cause = 0, ev_ref = 0\<rparr>"
  let ?f = "frame_addr sample_layout sample_uc sample_cpu"
  have c: "classify_signal SIGUSR2 (SI_other 0) 0 (vm sample_cpu) = Inr (Some ?e)" "accepted sample_layout ?e sample_uc sample_cpu"
    by (simp_all add: classify_signal_def accepted_def)
  have eqs: "cpu_ksp sample_cpu = 0x8000" "cpu_vm_head (vm sample_cpu) = 0" "sample_uc\<lparr>reg_pc := resume_pc ?e (reg_pc sample_uc)\<rparr> = sample_uc"
    by (simp_all add: sample_cpu_def sample_uc_def resume_pc_def vme_init_def empty_vm_def)
  have f: "?f \<noteq> 0"
    by (simp add: frame_addr_def frame_sp_def sample_layout_def sample_uc_def sample_cpu_def am_in_userspace_def vme_init_def empty_vm_def)
  have reach: "vm_reach 0x1000 (vm sample_cpu) Map.empty 0"
    by (simp add: sample_cpu_def) (rule reach_init, simp_all add: empty_vm_def)
  from native_trap_switches [OF c, of "\<lambda>e c s. (c, s)" "0x1000"] show ?thesis
    unfolding eqs
  proof (elim exE conjE, goal_cases)
    case (1 s1)
    then show ?case using 1(3) [rule_format, of ?f s1 Map.empty 0] f reach by auto
  qed
qed

end
