(* ===== verification/Am_Native_Ioe.thy ===== *)
theory Am_Native_Ioe
  imports Nemu_Devices
begin

text \<open>
  Devices of the abstract machine on the host (\<^verbatim>\<open>am/src/native/ioe\<close>): the key queue filled by the event thread, the disk on an image file,
  the clock, and sound through a pipe. The mutex makes each access of the queue one step. The host's events, file, clock and
  pipe are arguments or parts of the state.
\<close>

section \<open>Keyboard: input.c\<close>

definition KEYBRD_MASK :: u32 where "KEYBRD_MASK = 0x8000"
definition KEYBRD_QUEUE_LEN :: nat where "KEYBRD_QUEUE_LEN = 1024"

record key_ring =
  kr_queue :: "u32 list"
  kr_f :: nat
  kr_r :: nat

datatype sdl_input = Quit | Keydown nat | Keyup nat | Other_event

definition ring_put :: "u32 \<Rightarrow> key_ring \<Rightarrow> key_ring" where
  "ring_put am_code q = q\<lparr>kr_queue := (kr_queue q)[kr_r q := am_code], kr_r := (kr_r q + 1) mod KEYBRD_QUEUE_LEN\<rparr>"

text \<open>A scan code outside the table of 256 entries reads behind it.\<close>

definition key_event :: "(nat \<Rightarrow> u32) \<Rightarrow> nat \<Rightarrow> bool \<Rightarrow> key_ring \<Rightarrow> (key_ring \<times> bool) res" where
  "key_event km scancode keydown q =
    ebind (echeck (scancode < 256) (Undef ''keymap'')) (\<lambda>_.
      if km scancode \<noteq> 0
      then Inr (ring_put (km scancode OR (if keydown then KEYBRD_MASK else 0)) q, True)
      else Inr (q, False))"

text \<open>One round of the event thread: \<open>None\<close> is \<^verbatim>\<open>halt\<close>; the flag tells whether an interrupt is sent.\<close>

definition event_round :: "(nat \<Rightarrow> u32) \<Rightarrow> sdl_input \<Rightarrow> key_ring \<Rightarrow> (key_ring \<times> bool) option res" where
  "event_round km e q =
    (case e of
       Quit \<Rightarrow> Inr None
     | Keydown k \<Rightarrow> ebind (key_event km k True q) (\<lambda>r. Inr (Some r))
     | Keyup k \<Rightarrow> ebind (key_event km k False q) (\<lambda>r. Inr (Some r))
     | Other_event \<Rightarrow> Inr (Some (q, False)))"

definition ring_get :: "key_ring \<Rightarrow> u32 \<times> key_ring" where
  "ring_get q =
    (if kr_f q \<noteq> kr_r q then (kr_queue q ! kr_f q, q\<lparr>kr_f := (kr_f q + 1) mod KEYBRD_QUEUE_LEN\<rparr>) else (0, q))"

definition input_keybrd :: "key_ring \<Rightarrow> (bool \<times> u32) \<times> key_ring" where
  "input_keybrd q = (let (k, q) = ring_get q in ((k AND KEYBRD_MASK \<noteq> 0, k AND NOT KEYBRD_MASK), q))"

definition ring_inv :: "key_ring \<Rightarrow> bool" where
  "ring_inv q \<longleftrightarrow> length (kr_queue q) = KEYBRD_QUEUE_LEN \<and> kr_f q < KEYBRD_QUEUE_LEN \<and> kr_r q < KEYBRD_QUEUE_LEN"

definition ring_elems :: "key_ring \<Rightarrow> u32 list" where
  "ring_elems q = map (\<lambda>i. kr_queue q ! ((kr_f q + i) mod KEYBRD_QUEUE_LEN)) [0..<(kr_r q + KEYBRD_QUEUE_LEN - kr_f q) mod KEYBRD_QUEUE_LEN]"

section \<open>Disk: disk.c\<close>

record disk_file =
  df_fp :: "u8 list option"
  df_size :: nat

definition disk_init :: "u8 list option \<Rightarrow> disk_file" where
  "disk_init img = (case img of None \<Rightarrow> \<lparr>df_fp = None, df_size = 0\<rparr>
     | Some bs \<Rightarrow> \<lparr>df_fp = Some bs, df_size = (length bs + 511) div 512\<rparr>)"

definition native_disk_config :: "disk_file \<Rightarrow> bool \<times> nat \<times> nat" where
  "native_disk_config d = (df_fp d \<noteq> None, 512, df_size d)"

text \<open>
  Offsets are computed in \<^verbatim>\<open>int\<close>. \<^verbatim>\<open>fread\<close> of one item fails unless the file has all its bytes; \<^verbatim>\<open>fwrite\<close> behind the end fills the gap
  with zeros; an item of no bytes counts as failure.
\<close>

definition write_at :: "nat \<Rightarrow> u8 list \<Rightarrow> u8 list \<Rightarrow> u8 list" where
  "write_at off bs f = take off (f @ replicate (off - length f) 0) @ bs @ drop (off + length bs) f"

definition disk_blkio :: "bool \<Rightarrow> u8 list \<Rightarrow> nat \<Rightarrow> nat \<Rightarrow> disk_file \<Rightarrow> (u8 list \<times> disk_file) res" where
  "disk_blkio wr buf blkno nblk d =
    (case df_fp d of None \<Rightarrow> Inr (buf, d) | Some f \<Rightarrow>
     ebind (echeck (blkno * 512 < 2 ^ 31 \<and> nblk * 512 < 2 ^ 31) (Undef ''signed overflow'')) (\<lambda>_.
     ebind (echeck (0 < nblk) Assert_fail) (\<lambda>_.
       if wr then
         ebind (echeck (nblk * 512 \<le> length buf) (Undef ''buffer'')) (\<lambda>_.
           Inr (buf, d\<lparr>df_fp := Some (write_at (blkno * 512) (take (nblk * 512) buf) f)\<rparr>))
       else
         ebind (echeck (blkno * 512 + nblk * 512 \<le> length f) Assert_fail) (\<lambda>_.
           Inr (take (nblk * 512) (drop (blkno * 512) f), d)))))"

section \<open>Clock: timer.c\<close>

definition timer_uptime_us :: "int \<times> int \<Rightarrow> int \<times> int \<Rightarrow> int" where
  "timer_uptime_us boot now =
    (let seconds = fst now - fst boot; useconds = snd now - snd boot in seconds * 1000000 + (useconds + 500))"

section \<open>Sound: audio.c\<close>

text \<open>
  The pipe is the bytes in it and its capacity. A write of more than 4096 bytes that does not fit is cut, a shorter one fails; a read takes at
  most what is there.
\<close>

record audio_pipe =
  ap_bytes :: "u8 list"
  ap_size :: nat
  ap_count :: nat

definition pipe_write :: "u8 list \<Rightarrow> audio_pipe \<Rightarrow> nat \<times> audio_pipe" where
  "pipe_write bs p =
    (let free = ap_size p - length (ap_bytes p);
         n = (if length bs \<le> free then length bs else if length bs \<le> 4096 then 0 else free)
     in (n, p\<lparr>ap_bytes := ap_bytes p @ take n bs\<rparr>))"

text \<open>
  \<^verbatim>\<open>audio_play\<close> with one read: the pipe holds at least \<^verbatim>\<open>count\<close> bytes whenever the callback runs, so the first read gives all it asks for.
\<close>

definition audio_play :: "nat \<Rightarrow> audio_pipe \<Rightarrow> u8 list \<times> audio_pipe" where
  "audio_play len p =
    (let nread = (if ap_count p < len then ap_count p else len)
     in (take nread (ap_bytes p) @ replicate (len - nread) 0, p\<lparr>ap_bytes := drop nread (ap_bytes p), ap_count := ap_count p - nread\<rparr>))"

text \<open>
  \<^verbatim>\<open>audio_write\<close>, with the lengths the callback plays between two attempts. Every attempt offers the buffer from its start.
  \<open>None\<close> is a writer that still waits when the callback stops, otherwise the sound played meanwhile is returned.
\<close>

fun audio_write :: "u8 list \<Rightarrow> nat list \<Rightarrow> nat \<Rightarrow> audio_pipe \<Rightarrow> (u8 list \<times> audio_pipe) option" where
  "audio_write buf plays nwrite p =
    (if nwrite < length buf then
       let (n, p) = pipe_write buf p; p = p\<lparr>ap_count := ap_count p + n\<rparr> in
       if nwrite + n < length buf then
         (case plays of [] \<Rightarrow> None
          | l # ls \<Rightarrow>
             let (sound, p) = audio_play l p in
             map_option (\<lambda>(rest, p). (sound @ rest, p)) (audio_write buf ls (nwrite + n) p))
       else Some ([], p)
     else Some ([], p))"

declare audio_write.simps [simp del]

section \<open>The key queue\<close>

interpretation native_keys: fifo_queue "\<lambda>x q. (Inr (ring_put x q) :: c_error + key_ring)" ring_get ring_elems ring_inv
  "KEYBRD_QUEUE_LEN - 1" 0
proof unfold_locales
  fix q x assume inv: "ring_inv q" and len: "length (ring_elems q) < KEYBRD_QUEUE_LEN - 1"
  let ?n = "(kr_r q + KEYBRD_QUEUE_LEN - kr_f q) mod KEYBRD_QUEUE_LEN"
  have fr: "kr_f q < KEYBRD_QUEUE_LEN" "kr_r q < KEYBRD_QUEUE_LEN" "?n + 1 < KEYBRD_QUEUE_LEN"
    using inv len by (auto simp: ring_inv_def ring_elems_def)
  note r = ring_count_enq [OF fr]
  have "ring_inv (ring_put x q)" using inv by (simp add: ring_inv_def ring_put_def KEYBRD_QUEUE_LEN_def)
  moreover have "ring_elems (ring_put x q) = ring_elems q @ [x]"
    using r(1,3) inv ring_slot [OF fr(1,2), symmetric] by (auto simp: ring_elems_def ring_put_def ring_inv_def)
  ultimately show "\<exists>q'. (Inr (ring_put x q) :: c_error + key_ring) = Inr q' \<and> ring_inv q' \<and> ring_elems q' = ring_elems q @ [x]"
    by simp
next
  fix q assume inv: "ring_inv q" and emp: "ring_elems q = []"
  have "kr_f q = kr_r q"
    using inv emp ring_count_deq [of "kr_f q" KEYBRD_QUEUE_LEN "kr_r q"] by (auto simp: ring_inv_def ring_elems_def)
  then show "ring_get q = (0, q)" by (simp add: ring_get_def)
next
  fix q x xs assume inv: "ring_inv q" and e: "ring_elems q = x # xs"
  have ne: "kr_f q \<noteq> kr_r q" using e by (auto simp: ring_elems_def)
  have fr: "kr_f q < KEYBRD_QUEUE_LEN" "kr_r q < KEYBRD_QUEUE_LEN" using inv by (auto simp: ring_inv_def)
  note r = ring_count_deq [OF fr ne]
  define q' where "q' = q\<lparr>kr_f := (kr_f q + 1) mod KEYBRD_QUEUE_LEN\<rparr>"
  have "ring_elems q = kr_queue q ! kr_f q # ring_elems q'"
    unfolding ring_elems_def r upt_conv_Cons [OF zero_less_Suc] map_Suc_upt [symmetric]
    using fr ring_shift [of "kr_f q" KEYBRD_QUEUE_LEN] by (simp add: q'_def o_def del: upt_Suc)
  then have "kr_queue q ! kr_f q = x" "ring_elems q' = xs" using e by auto
  moreover have "ring_inv q'" using inv by (simp add: ring_inv_def q'_def KEYBRD_QUEUE_LEN_def)
  ultimately show "\<exists>q'. ring_get q = (x, q') \<and> ring_inv q' \<and> ring_elems q' = xs"
    using ne by (auto simp: ring_get_def q'_def)
qed

text \<open>The codes of key events and what the program reads for them.\<close>

definition code_of :: "(nat \<Rightarrow> u32) \<Rightarrow> nat \<times> bool \<Rightarrow> u32" where
  "code_of km e = km (fst e) OR (if snd e then KEYBRD_MASK else 0)"

primrec key_events :: "(nat \<Rightarrow> u32) \<Rightarrow> (nat \<times> bool) list \<Rightarrow> key_ring \<Rightarrow> key_ring res" where
  "key_events km [] q = Inr q"
| "key_events km (e # es) q = ebind (key_event km (fst e) (snd e) q) (\<lambda>(q, _). key_events km es q)"

primrec keybrd_reads :: "nat \<Rightarrow> key_ring \<Rightarrow> (bool \<times> u32) list \<times> key_ring" where
  "keybrd_reads 0 q = ([], q)"
| "keybrd_reads (Suc n) q = (let (k, q) = input_keybrd q; (ks, q) = keybrd_reads n q in (k # ks, q))"

lemma key_events_enq:
  "\<forall>e \<in> set es. fst e < 256 \<and> km (fst e) \<noteq> 0 \<Longrightarrow> key_events km es q = native_keys.enq_all (map (code_of km) es) q"
  by (induction es arbitrary: q) (simp_all add: key_event_def code_of_def)

definition key_report :: "u32 \<Rightarrow> bool \<times> u32" where
  "key_report k = (k AND KEYBRD_MASK \<noteq> 0, k AND NOT KEYBRD_MASK)"

lemma keybrd_reads_deq: "keybrd_reads n q = (case native_keys.deq_n n q of (ks, q') \<Rightarrow> (map key_report ks, q'))"
  by (induction n arbitrary: q) (simp_all add: input_keybrd_def key_report_def case_prod_beta Let_def)

lemma key_report_code:
  assumes "km k < 0x8000"
  shows "key_report (code_of km (k, down)) = (down, km k)"
proof -
  have "unat (km k) < 2 ^ 15" using assms by (simp add: word_less_nat_alt)
  then have "take_bit 15 (km k) = km k" by (intro word_unat_eq_iff [THEN iffD2]) (simp add: unsigned_take_bit_eq take_bit_nat_eq_self)
  then have b: "bit (km k) n \<Longrightarrow> n < 15" for n by (metis bit_take_bit_iff)
  have p: "KEYBRD_MASK = 2 ^ 15" by (simp add: KEYBRD_MASK_def)
  have m: "bit KEYBRD_MASK n \<longleftrightarrow> n = 15" for n unfolding p bit_exp_iff by auto
  have "code_of km (k, down) AND NOT KEYBRD_MASK = km k"
    by (rule bit_word_eqI) (auto simp: code_of_def bit_and_iff bit_or_iff bit_not_iff m dest: b)
  moreover have "code_of km (k, down) AND KEYBRD_MASK = (if down then KEYBRD_MASK else 0)"
    by (rule bit_word_eqI) (auto simp: code_of_def bit_and_iff bit_or_iff bit_not_iff m dest: b)
  ultimately show ?thesis by (simp add: key_report_def KEYBRD_MASK_def)
qed

text \<open>Up to 1023 key events that wait in the queue are read in order, and the next read reports no key.\<close>

lemma native_keys_in_order:
  assumes "ring_inv q" "ring_elems q = []" "length es \<le> 1023" "\<forall>e \<in> set es. fst e < 256 \<and> km (fst e) \<noteq> 0 \<and> km (fst e) < 0x8000"
  shows "\<exists>q1 q2. key_events km es q = Inr q1 \<and> keybrd_reads (length es) q1 = (map (\<lambda>(k, down). (down, km k)) es, q2) \<and>
    fst (input_keybrd q2) = (False, 0)"
proof -
  obtain q1 q2 where q: "native_keys.enq_all (map (code_of km) es) q = Inr q1" "native_keys.deq_n (length es) q1 = (map (code_of km) es, q2)"
    "ring_inv q2" "ring_elems q2 = []"
    using native_keys.fifo [OF assms(1,2), of "map (code_of km) es"] assms(3) by (auto simp: KEYBRD_QUEUE_LEN_def)
  have "map key_report (map (code_of km) es) = map (\<lambda>(k, down). (down, km k)) es"
    using assms(4) key_report_code by (auto simp: case_prod_beta)
  moreover have "fst (input_keybrd q2) = (False, 0)"
    using native_keys.deq_empty [OF q(3,4)] by (simp add: input_keybrd_def)
  ultimately show ?thesis using q(1,2) assms(4) key_events_enq [of es km q] by (auto simp: keybrd_reads_deq)
qed

text \<open>There is no check for a full queue: after 1024 events that nobody read the queue looks empty.\<close>

lemma native_keys_lost:
  assumes "ring_inv q" "ring_elems q = []" "length ks = KEYBRD_QUEUE_LEN"
  shows "ring_elems (fold ring_put ks q) = []"
proof -
  have fr: "kr_f q = kr_r q" "kr_r q < KEYBRD_QUEUE_LEN"
    using assms(1,2) ring_count_deq [of "kr_f q" KEYBRD_QUEUE_LEN "kr_r q"] by (auto simp: ring_inv_def ring_elems_def)
  have run: "kr_f (fold ring_put xs q) = kr_f q \<and> kr_r (fold ring_put xs q) = (kr_r q + length xs) mod KEYBRD_QUEUE_LEN"
    if "kr_r q < KEYBRD_QUEUE_LEN" for xs q
    using that
  proof (induction xs arbitrary: q)
    case (Cons x xs)
    have "kr_r (ring_put x q) < KEYBRD_QUEUE_LEN" by (simp add: ring_put_def KEYBRD_QUEUE_LEN_def)
    then show ?case using Cons.IH [of "ring_put x q"] by (simp add: ring_put_def mod_add_left_eq)
  qed simp
  show ?thesis using run [OF fr(2), of ks] fr assms(3) by (simp add: ring_elems_def)
qed

section \<open>The disk\<close>

lemma write_at_read:
  "take (length bs) (drop off (write_at off bs f)) = bs" "length (write_at off bs f) = max (length f) (off + length bs)"
  by (simp_all add: write_at_def)

text \<open>Blocks that were written are read back, and all bytes before and behind them are kept.\<close>

lemma native_disk_roundtrip:
  assumes "df_fp d = Some f" "blkno * 512 < 2 ^ 31" "nblk * 512 < 2 ^ 31" "0 < nblk" "length buf = nblk * 512"
  shows "\<exists>d' f'. disk_blkio True buf blkno nblk d = Inr (buf, d') \<and> disk_blkio False old blkno nblk d' = Inr (buf, d') \<and>
    df_fp d' = Some f' \<and> (\<forall>i < length f. i < blkno * 512 \<or> blkno * 512 + nblk * 512 \<le> i \<longrightarrow> f' ! i = f ! i)"
proof -
  let ?f = "write_at (blkno * 512) buf f"
  have "disk_blkio True buf blkno nblk d = Inr (buf, d\<lparr>df_fp := Some ?f\<rparr>)" using assms by (simp add: disk_blkio_def)
  moreover have "disk_blkio False old blkno nblk (d\<lparr>df_fp := Some ?f\<rparr>) = Inr (buf, d\<lparr>df_fp := Some ?f\<rparr>)"
    using assms write_at_read [where off = "blkno * 512" and bs = buf and f = f] by (simp add: disk_blkio_def)
  moreover have "?f ! i = f ! i" if "i < length f" "i < blkno * 512 \<or> blkno * 512 + nblk * 512 \<le> i" for i
    using that assms(5) by (auto simp: write_at_def nth_append min_def)
  ultimately show ?thesis by auto
qed

text \<open>
  The size reported for an image that does not end at a block boundary counts the block it ends in, but that block cannot be read:
  the assertion fails.
\<close>

lemma native_disk_partial_block:
  assumes "length f mod 512 \<noteq> 0" "length f < 2 ^ 31"
  shows "snd (snd (native_disk_config (disk_init (Some f)))) = Suc (length f div 512) \<and>
    disk_blkio False buf (length f div 512) 1 (disk_init (Some f)) = Inl Assert_fail"
proof -
  define q r where "q = length f div 512" and "r = length f mod 512"
  have len: "length f = q * 512 + r" by (simp add: q_def r_def)
  have r: "0 < r" "r < 512" using assms(1) by (simp_all add: r_def)
  have "(length f + 511) div 512 = Suc q" using len r by simp
  moreover have "q * 512 < 2 ^ 31" "\<not> q * 512 + 512 \<le> length f" using assms(2) len r by linarith+
  ultimately show ?thesis by (simp add: native_disk_config_def disk_init_def disk_blkio_def flip: q_def)
qed

section \<open>Clock and sound\<close>

text \<open>The reported time is the time since the start in microseconds, 500 too many.\<close>

lemma timer_uptime_offset:
  "timer_uptime_us boot now = (fst now * 1000000 + snd now) - (fst boot * 1000000 + snd boot) + 500"
  by (simp add: timer_uptime_us_def algebra_simps)

text \<open>The count never exceeds the bytes in the pipe, so the callback never waits for a second read.\<close>

lemma pipe_write_count:
  assumes "ap_count p \<le> length (ap_bytes p)" "pipe_write buf p = (k, q)"
  shows "ap_count q + k \<le> length (ap_bytes q)"
  using assms by (auto simp: pipe_write_def Let_def split: if_splits)

lemma audio_play_count:
  "ap_count p \<le> length (ap_bytes p) \<Longrightarrow> audio_play l p = (sound, q) \<Longrightarrow> ap_count q \<le> length (ap_bytes q)"
  by (auto simp: audio_play_def Let_def)

lemma audio_write_count:
  "ap_count p \<le> length (ap_bytes p) \<Longrightarrow> audio_write buf plays n p = Some (sound, p') \<Longrightarrow> ap_count p' \<le> length (ap_bytes p')"
proof (induction plays arbitrary: n p sound)
  case Nil
  obtain k q where k: "pipe_write buf p = (k, q)" by fastforce
  show ?case using Nil pipe_write_count [OF Nil(1) k] by (subst (asm) audio_write.simps) (auto simp: k Let_def split: if_splits)
next
  case (Cons l ls)
  obtain k q where k: "pipe_write buf p = (k, q)" by fastforce
  let ?q = "q\<lparr>ap_count := ap_count q + k\<rparr>"
  obtain t r where t: "audio_play l ?q = (t, r)" by fastforce
  have q: "ap_count ?q \<le> length (ap_bytes ?q)" using pipe_write_count [OF Cons.prems(1) k] by simp
  have r: "ap_count r \<le> length (ap_bytes r)" by (rule audio_play_count [OF q t])
  show ?case
    using Cons.prems q Cons.IH [OF r] by (subst (asm) audio_write.simps) (auto simp: k t Let_def split: if_splits)
qed

text \<open>A buffer that fits into the pipe is queued as it is.\<close>

lemma audio_write_fits:
  assumes "length (ap_bytes p) + length buf \<le> ap_size p"
  shows "audio_write buf plays 0 p = Some ([], p\<lparr>ap_bytes := ap_bytes p @ buf, ap_count := ap_count p + length buf\<rparr>)"
proof (cases "buf = []")
  case False
  have "pipe_write buf p = (length buf, p\<lparr>ap_bytes := ap_bytes p @ buf\<rparr>)" 
    using assms by (auto simp: pipe_write_def Let_def)
  then show ?thesis by (subst audio_write.simps) (simp add: False)
qed (subst audio_write.simps, simp)

text \<open>
  A buffer that does not fit is started again: when only its first \<open>n\<close> bytes fit and the pipe is then played empty, the same \<open>n\<close> bytes
  are written a second time, and the rest of the buffer is never heard.
\<close>

lemma audio_write_restarts:
  assumes "ap_bytes p = []" "ap_count p = 0" "ap_size p = n" "n < length buf" "length buf \<le> 2 * n" "4096 < length buf"
  shows "audio_write buf [n] 0 p = Some (take n buf, p\<lparr>ap_bytes := take n buf, ap_count := n\<rparr>)"
proof -
  have first: "pipe_write buf p = (n, p\<lparr>ap_bytes := take n buf\<rparr>)" using assms by (simp add: pipe_write_def)
  have play: "audio_play n (p\<lparr>ap_bytes := take n buf, ap_count := n\<rparr>) = (take n buf, p\<lparr>ap_bytes := [], ap_count := 0\<rparr>)"
    using assms by (simp add: audio_play_def)
  have second: "pipe_write buf (p\<lparr>ap_bytes := [], ap_count := 0\<rparr>) = (n, p\<lparr>ap_bytes := take n buf, ap_count := 0\<rparr>)"
    using assms by (simp add: pipe_write_def)
  have "audio_write buf [] n (p\<lparr>ap_bytes := [], ap_count := 0\<rparr>) = Some ([], p\<lparr>ap_bytes := take n buf, ap_count := n\<rparr>)"
    using assms(4,5) by (subst audio_write.simps) (simp add: second)
  then show ?thesis using assms(2,4) by (subst audio_write.simps) (auto simp: first play)
qed

end
