(* ===== verification/Spec2Isabelle.thy ===== *)
theory Spec2Isabelle
  imports Klib_String Klib_Int64 Klib_Stdio Sdb_Commands Npc_Cachesim Npc_Props Am_Ysyxsoc Am_Riscv_Cte Qemu_Gdb Nemu_Monitor
    Machine_Inv Trap_Nemu Am_X86_Cte Am_X86_Mpe X86_Boot Libgcc Minirv_Props Gen_Expr
    Am_Native_Cte Am_Native_Ioe
begin

text \<open>
  \<^bold>\<open>A verification library for the ysyx workbench.\<close>

  \<^bold>\<open>The program.\<close> The repository builds a RISC-V computer out of several parts. NEMU (\<^verbatim>\<open>src/nemu\<close>) is an
  interpreter of RV32IM with memory, memory-mapped devices, a debugger and differential testing against a
  reference simulator. The abstract machine (\<^verbatim>\<open>src/abstract-machine\<close>) is the run-time library of the guest
  programs: a small C library (\<^verbatim>\<open>klib\<close>), the arithmetic helpers of the compiler, device drivers, traps and
  boot code for NEMU, for the simulated NPC processor, for the ysyxSoC, for x86 under QEMU and for the host; one of its tools
  rewrites compiled code for a core with eight instructions. The NPC part (\<^verbatim>\<open>src/npc\<close>) holds
  the C++ driver that runs the Verilog processor cycle by cycle, compares it with a reference and collects
  performance counters, and a cache simulator. They meet at three interfaces: guest code reaches devices through
  addresses that NEMU's maps serve; the execution loops call a reference simulator; and the guest's trap
  code relies on the \<^verbatim>\<open>ecall\<close> and \<^verbatim>\<open>mret\<close> of the interpreter.

  \<^bold>\<open>Theories and sources.\<close>
  \<^item> \<^theory_text>\<open>Nemu_Prelude\<close>: words as bytes, the result type \<^verbatim>\<open>'a res\<close> with the errors (failed assertion, panic,
    undefined behaviour), stores, and the lemmas shared by the components.
  \<^item> \<^theory_text>\<open>Klib_String\<close> (\<^verbatim>\<open>klib/src/string.c\<close>), \<^theory_text>\<open>Klib_Stdlib\<close> (\<^verbatim>\<open>stdlib.c\<close>), \<^theory_text>\<open>Klib_Stdio\<close> (\<^verbatim>\<open>stdio.c\<close>) and, with
    the half-word lemmas of \<^theory_text>\<open>Word_Halves\<close>, \<^theory_text>\<open>Klib_Int64\<close> (\<^verbatim>\<open>klib/src/int64.c\<close>): the C library. Strings are
    in a byte store, so overlap and missing terminators are visible; a scan that may not end is a
    \<open>partial_function\<close> in the option monad.
  \<^item> \<^theory_text>\<open>Nemu_Memory\<close> (\<^verbatim>\<open>memory/paddr.c\<close>, \<^verbatim>\<open>host.h\<close>), \<^theory_text>\<open>Nemu_Io_Map\<close> (\<^verbatim>\<open>device/io\<close>), \<^theory_text>\<open>Nemu_Devices\<close> (\<^verbatim>\<open>device\<close>): guest
    memory, the address maps with their callbacks and the devices behind them, in one device state; the clock and the
    event queue of the host are fields of it or arguments.
  \<^item> \<^theory_text>\<open>Riscv_Machine\<close>, \<^theory_text>\<open>Riscv_Inst\<close>, \<^theory_text>\<open>Riscv_Spec\<close> (\<^verbatim>\<open>isa/riscv32\<close>, \<^verbatim>\<open>include/cpu/decode.h\<close>): the machine state, the
    instruction patterns as the strings of the source with the matching of the macros, and an independent
    description of the encoding (of the instructions the table has; \<^verbatim>\<open>fence\<close> is not among them) and of the arithmetic that the
    interpreter is compared with.
  \<^item> \<^theory_text>\<open>Cpu_Exec\<close> (\<^verbatim>\<open>cpu/cpu-exec.c\<close>, \<^verbatim>\<open>cpu/difftest\<close>): the execution loop with traces, device updates, watchpoints and
    the comparison with the reference, which is a record of functions behind what \<^verbatim>\<open>dlopen\<close> finds.
  \<^item> \<^theory_text>\<open>Sdb_Expr\<close>, \<^theory_text>\<open>Sdb_Watchpoint\<close>, \<^theory_text>\<open>Sdb_Commands\<close> (\<^verbatim>\<open>monitor/sdb\<close>): the debugger. The watchpoint pool is an array of
    nodes with indices for pointers. What an expression means is stated on the integers, apart from the evaluator.
  \<^item> \<^theory_text>\<open>Gen_Expr\<close> (\<^verbatim>\<open>tools/gen-expr\<close>, \<^verbatim>\<open>test_expr\<close>): the generator of test expressions and the test that evaluates them; the meaning of
    an expression is the grammar of C as an inductive relation, with the integer value and a bound of what is computed on the way.
  \<^item> \<^theory_text>\<open>Nemu_Monitor\<close> (\<^verbatim>\<open>monitor/monitor.c\<close>, \<^verbatim>\<open>utils/ftrace.c\<close>, \<^verbatim>\<open>utils/log.c\<close>, \<^verbatim>\<open>init_disasm\<close>): start-up from the options to a machine that is ready to
    run, and the reader of ELF symbols on the bytes of the file.
  \<^item> \<^theory_text>\<open>Qemu_Gdb\<close> (\<^verbatim>\<open>tools/qemu-diff\<close>): the client of GDB's remote protocol through which QEMU serves as the reference, on the
    bytes of a connection.
  \<^item> \<^theory_text>\<open>Npc_Cachesim\<close> (\<^verbatim>\<open>npc/tools/cachesim\<close>), \<^theory_text>\<open>Npc_Sim\<close> and \<^theory_text>\<open>Npc_Props\<close> (\<^verbatim>\<open>npc/csrc/main.cpp\<close>): the cache simulator from
    command line to report, and the driver over a record of operations of the verilated chip.
  \<^item> \<^theory_text>\<open>Am_Nemu_Ioe\<close> (\<^verbatim>\<open>am/src/platform/nemu\<close>), \<^theory_text>\<open>Am_Ysyxsoc\<close> (\<^verbatim>\<open>am/src/riscv/ysyxsoc\<close>, \<^verbatim>\<open>am/src/riscv/npc\<close>) and
    \<^theory_text>\<open>Am_Riscv_Cte\<close> (\<^verbatim>\<open>cte.c\<close>, \<^verbatim>\<open>trap.S\<close>, \<^verbatim>\<open>vme.c\<close>): drivers over a record of hardware accesses, boot copies on a byte
    store, and traps on the CPU state and a store of words.
  \<^item> \<^theory_text>\<open>Machine_Inv\<close> and \<^theory_text>\<open>Trap_Nemu\<close> compose these: the well-formedness of the whole state of NEMU under the execution loop, and
    \<^verbatim>\<open>trap.S\<close> as encoded instructions in guest memory that the interpreter runs.
  \<^item> \<^theory_text>\<open>Am_X86_Trm\<close>, \<^theory_text>\<open>Am_X86_Vme\<close>, \<^theory_text>\<open>Am_X86_Cte\<close>, \<^theory_text>\<open>Am_X86_Mpe\<close>, \<^theory_text>\<open>Am_X86_Ioe\<close> and \<^theory_text>\<open>X86_Boot\<close> (\<^verbatim>\<open>am/src/x86\<close>): the port to 32-bit
    x86. Page tables are words of a store; traps follow \<^verbatim>\<open>trap32.S\<close> on a record of registers; starting the other processors
    is a step relation with one step per shared access, labelled with the processor, and its executions under a schedule; drivers use a
    record of port instructions, and the disk behind them is busy after every command.
  \<^item> \<^theory_text>\<open>Am_Native_Vme\<close>, \<^theory_text>\<open>Am_Native_Cte\<close> and \<^theory_text>\<open>Am_Native_Ioe\<close> (\<^verbatim>\<open>am/src/native\<close>): the port to the host. Address spaces are linked lists in a
    store, the mappings of the process a partial map, and traps are signals.
  \<^item> \<^theory_text>\<open>Libgcc\<close> (\<^verbatim>\<open>am/src/riscv/npc/libgcc\<close>): the multiplication, division and shift routines of the core without a multiplier.
  \<^item> \<^theory_text>\<open>Minirv\<close> and \<^theory_text>\<open>Minirv_Props\<close> (\<^verbatim>\<open>abstract-machine/tools/minirv\<close>): the macros that replace instructions, the generator of their
    tables, and a semantics of the eight base instructions.

  \<^bold>\<open>What is shown.\<close> The patterns select for each of the 2^32 words the instruction of the encoding tables, and
  the immediates are the bits the formats prescribe and the computed values are those of the architecture, with the exception of division by zero, which the C code
  leaves undefined; every step keeps register zero and touches only what its instruction names. Division of 64-bit
  numbers from 32-bit halves is correct for all operands. Fully parenthesised expressions evaluate to their
  value in the integers or to the error of an operation that has none; the lemmas on chains show where unparenthesised ones do not; everything the test generator
  can write evaluates to its value in C as long as nothing overflows, and then its test files pass. The watchpoint pool stays two
  disjoint lists under every sequence of operations. Device initialisation leaves maps that share no address; key events, timer values,
  disk blocks and sound reach the other side of the interface unchanged, for keys and time through the whole stack
  from the host to the guest's driver. The execution loop runs the built-in program to its good trap, reports
  a difference from the reference exactly when there is one, and the NPC driver returns when the chip makes
  progress. The cache simulator refines an ideal cache of one queue per set. A thread that yields resumes with
  all its registers, a new thread starts at its entry, the boot loaders leave the image as linked, drawing is
  clipped to the screen, and scan codes are decoded in order. Start-up leaves the image in memory and the same
  image in the reference, on a host where what the configuration asks for loads; packets of the remote protocol are received as they were meant.
  The execution loop keeps the state of NEMU well-formed, and the interpreter, run on the encoded trap code, saves and
  restores the context the abstract machine describes. On x86, mapping a page changes the translation of that page only,
  releasing an address space gives back exactly its pages, a trap resumes with all registers and its address space, every fair execution
  of the start-up brings every processor to the user's entry after exactly one start message, a disk block reads back as written and the boot loader loads the kernel's
  segments. On the host the process always has the mappings of the current address space as long as no page is mapped twice, a signal
  saves and restores contexts and address spaces, and a page mapped twice makes the next switch loop forever. The compiler's routines multiply and divide correctly for all operands. Each minirv macro computes what
  the replaced instruction does, except \<^verbatim>\<open>seqz\<close> into \<^verbatim>\<open>s0\<close>, whose result is lost.

  \<^bold>\<open>Interfaces.\<close> Locales state what a client needs of a provider: a byte store with what a read returns after writes,
  interpreted on guest memory and on the space of the devices; a queue, on the key queue of the host, and a bounded queue that extends it, on the key queue of NEMU; a reference for
  differential testing, on NEMU itself; a device callback that keeps the device state well-formed, on the callbacks of the
  devices; and a clock behind two registers, on the timer device as the guest sees it.

  \<^bold>\<open>Errors, bounds and termination.\<close> Undefined behaviour of C (division overflow, an index outside an array,
  the overflow of an operator on \<^verbatim>\<open>int\<close> in the debugger's expressions and the drawing code) is an error value, apart from assertions and panics. Loops over
  counted ranges are structural or have a measure. Loops that wait for a device, a prompt of the debugger or
  the chip are partial functions into options, and the theorems about them state that they return. The only fuel is the
  number of lines or cycles a caller asks for. The native word size is 32 bits and the host is little-endian.

  \<^bold>\<open>Parameters.\<close> Code outside the sources is an argument: the reference simulators, the disassembler, the shared objects \<^verbatim>\<open>dlopen\<close> finds, the compiler that
  gives the expected values of test expressions, the host's clock, keyboard and audio calls, the verilated chip, the SoC and the port devices behind the drivers, the firmware's
  tables, the kernel's page allocator and its event handler, and addresses a linker chooses. What a theorem
  needs of them is a hypothesis of the theorem, with a concrete instance in its witness.

  \<^bold>\<open>Not modelled.\<close> The build tools vendored from Linux (\<^verbatim>\<open>nemu/tools/kconfig\<close>, \<^verbatim>\<open>fixdep\<close>), which never run with the machine; the
  glue to KVM and Spike and the sockets and processes of the QEMU client, which are calls of the host; the other instruction sets
  of NEMU, each a few instructions of the same interpreter; the ports of the abstract machine to
  MIPS, LoongArch, Spike and Logisim, which the RISC-V core does not use, and the start-up and display of the port to the host; the disassembler library; the macros
  of libgcc's \<^verbatim>\<open>longlong.h\<close> for other processors; the Verilog.
\<close>

end
